(* ===== verification/Prelude.thy ===== *)
theory Prelude
  imports Main "HOL-Library.Monad_Syntax" "HOL-Library.Multiset"
begin

text \<open>
  Shared vocabulary of the development: the option monad as the semantics of C
  code that may have undefined behaviour, C arrays as lists with checked access,
  counting loops with their proof rules, C characters and strings, and the parts
  of the C library (\<open>printf\<close> conversions, \<open>fgets\<close>, \<open>fscanf\<close>) that the modelled
  programs use.

  Convention. A definition of type \<open>'a option\<close> returns \<open>None\<close> exactly where the C
  program reads or writes outside an array, divides by zero or executes another
  operation with undefined behaviour; \<open>Some\<close> is normal completion. Exits and
  error messages of the programs are ordinary values.
\<close>

named_theorems c_eval \<open>equations that evaluate the monadic C operations on concrete data\<close>

section \<open>Arrays\<close>

definition rd :: "'a list \<Rightarrow> nat \<Rightarrow> 'a option" where
  "rd xs i = (if i < length xs then Some (xs ! i) else None)"

definition wr :: "'a list \<Rightarrow> nat \<Rightarrow> 'a \<Rightarrow> 'a list option" where
  "wr xs i v = (if i < length xs then Some (xs[i := v]) else None)"

lemma rd_in [simp]: "i < length xs \<Longrightarrow> rd xs i = Some (xs ! i)"
  by (simp add: rd_def)

lemma wr_in [simp]: "i < length xs \<Longrightarrow> wr xs i v = Some (xs[i := v])"
  by (simp add: wr_def)

lemma rd_eq_None [simp]: "rd xs i = None \<longleftrightarrow> length xs \<le> i"
  by (simp add: rd_def)

lemma wr_eq_None [simp]: "wr xs i v = None \<longleftrightarrow> length xs \<le> i"
  by (simp add: wr_def)

lemma rd_eq_Some: "rd xs i = Some x \<longleftrightarrow> i < length xs \<and> xs ! i = x"
  by (auto simp: rd_def)

lemma wr_eq_Some: "wr xs i v = Some ys \<longleftrightarrow> i < length xs \<and> ys = xs[i := v]"
  by (auto simp: wr_def)

lemma rd_Cons_0 [c_eval]: "rd (x # xs) 0 = Some x"
  by simp

lemma length_wr: "wr xs i v = Some ys \<Longrightarrow> length ys = length xs"
  by (auto simp: wr_eq_Some)

section \<open>Counting loops\<close>

text \<open>
  \<open>for_upto i n body s\<close> is \<open>for (k = i; k < n; k++) body\<close> over the locals \<open>s\<close>;
  \<open>for_downto n body s\<close> is \<open>for (k = n; k > 0; k--) body\<close>.
\<close>

function for_upto :: "nat \<Rightarrow> nat \<Rightarrow> (nat \<Rightarrow> 's \<Rightarrow> 's option) \<Rightarrow> 's \<Rightarrow> 's option" where
  "for_upto i n body s =
     (if i < n then do { s' \<leftarrow> body i s; for_upto (Suc i) n body s' } else Some s)"
  by pat_completeness auto
termination
  by (relation "measure (\<lambda>(i, n, _, _). n - i)") auto

declare for_upto.simps [simp del]

fun for_downto :: "nat \<Rightarrow> (nat \<Rightarrow> 's \<Rightarrow> 's option) \<Rightarrow> 's \<Rightarrow> 's option" where
  "for_downto 0 body s = Some s"
| "for_downto (Suc k) body s = do { s' \<leftarrow> body (Suc k) s; for_downto k body s' }"

lemma for_upto_stop [simp]: "n \<le> i \<Longrightarrow> for_upto i n body s = Some s"
  by (simp add: for_upto.simps)

lemma for_upto_step: "i < n \<Longrightarrow> for_upto i n body s = do { s' \<leftarrow> body i s; for_upto (Suc i) n body s' }"
  by (subst for_upto.simps) simp

text \<open>The proof rules: an invariant indexed by the loop counter, total correctness.\<close>

lemma for_upto_rule:
  assumes "I i s" and "i \<le> n"
    and "\<And>k t. i \<le> k \<Longrightarrow> k < n \<Longrightarrow> I k t \<Longrightarrow> \<exists>t'. body k t = Some t' \<and> I (Suc k) t'"
  shows "\<exists>t. for_upto i n body s = Some t \<and> I n t"
  using assms
proof (induction i n body s rule: for_upto.induct)
  case (1 i n body s)
  show ?case
  proof (cases "i < n")
    case True
    with "1.prems" obtain t where t: "body i s = Some t" "I (Suc i) t" by blast
    have "\<exists>u. for_upto (Suc i) n body t = Some u \<and> I n u"
      using "1.IH" [OF True] True t "1.prems"(3) by simp
    with t True show ?thesis by (simp add: for_upto_step)
  next
    case False
    with "1.prems" have "i = n" by simp
    with "1.prems" show ?thesis by simp
  qed
qed

lemma for_downto_rule:
  assumes "I n s"
    and "\<And>k t. k < n \<Longrightarrow> I (Suc k) t \<Longrightarrow> \<exists>t'. body (Suc k) t = Some t' \<and> I k t'"
  shows "\<exists>t. for_downto n body s = Some t \<and> I 0 t"
  using assms
proof (induction n arbitrary: s)
  case 0
  then show ?case by simp
next
  case (Suc n)
  from Suc.prems(1) Suc.prems(2) [of n s] obtain t where t: "body (Suc n) s = Some t" "I n t"
    by auto
  have "\<exists>u. for_downto n body t = Some u \<and> I 0 u"
    using Suc.prems(2) by (intro Suc.IH t(2)) simp
  with t show ?case by simp
qed

text \<open>A loop whose body never fails computes a fold.\<close>

lemma for_upto_fold:
  assumes "\<And>k s. i \<le> k \<Longrightarrow> k < n \<Longrightarrow> body k s = Some (f k s)"
  shows "for_upto i n body s = Some (fold f [i..<n] s)"
  using assms
proof (induction i n body s rule: for_upto.induct)
  case (1 i n body s)
  then show ?case
    by (cases "i < n") (simp_all add: for_upto_step upt_conv_Cons)
qed

lemma for_upto_cong:
  assumes "\<And>k s. i \<le> k \<Longrightarrow> k < n \<Longrightarrow> body k s = body' k s"
  shows "for_upto i n body s = for_upto i n body' s"
  using assms
proof (induction i n body s rule: for_upto.induct)
  case (1 i n body s)
  show ?case
  proof (cases "i < n")
    case True
    have "for_upto (Suc i) n body t = for_upto (Suc i) n body' t" if "body i s = Some t" for t
      using "1.IH" [OF True, of t] that "1.prems" by simp
    with True "1.prems" [of i s] show ?thesis
      by (cases "body' i s") (simp_all add: for_upto_step)
  qed simp
qed

text \<open>Two runs side by side: related results from related states.\<close>

lemma rel_option_bind:
  assumes "rel_option Q x y" and "\<And>a b. Q a b \<Longrightarrow> rel_option R (f a) (g b)"
  shows "rel_option R (Option.bind x f) (Option.bind y g)"
  using assms by (cases x; cases y) auto

lemma for_upto_sim:
  assumes "R s t" and "\<And>k s t. i \<le> k \<Longrightarrow> k < n \<Longrightarrow> R s t \<Longrightarrow> rel_option R (body k s) (body' k t)"
  shows "rel_option R (for_upto i n body s) (for_upto i n body' t)"
  using assms
proof (induction "n - i" arbitrary: i s t)
  case 0
  then show ?case by simp
next
  case (Suc d)
  then have i: "i < n" "d = n - Suc i" by auto
  have "rel_option R (for_upto (Suc i) n body u) (for_upto (Suc i) n body' v)" if "R u v" for u v
    using Suc.hyps(1) [OF i(2) that] Suc.prems(2) by simp
  with i Suc.prems show ?case by (auto simp: for_upto_step intro: rel_option_bind [where Q = R])
qed

text \<open>A loop that stores a value in every slot below \<open>n\<close>.\<close>

lemma fill_map_step:
  "k < length xs \<Longrightarrow> (map f [0..<k] @ drop k xs)[k := f k] = map f [0..<Suc k] @ drop (Suc k) xs"
proof -
  assume "k < length xs"
  then have "drop k xs = xs ! k # drop (Suc k) xs" by (simp add: Cons_nth_drop_Suc)
  then show ?thesis by (simp add: list_update_append)
qed

lemma for_upto_fill:
  assumes "n \<le> length xs"
    and "\<And>k ys. k < n \<Longrightarrow> ys = map f [0..<k] @ drop k xs \<Longrightarrow> body k ys = wr ys k (f k)"
  shows "for_upto 0 n body xs = Some (map f [0..<n] @ drop n xs)"
proof -
  have "\<exists>ys. for_upto 0 n body xs = Some ys \<and> ys = map f [0..<n] @ drop n xs"
  proof (rule for_upto_rule)
    fix k ys assume k: "k < n" and ys: "ys = map f [0..<k] @ drop k xs"
    with assms have "body k ys = Some (ys[k := f k])" by simp
    with ys fill_map_step [of k xs f] k assms(1)
    show "\<exists>ys'. body k ys = Some ys' \<and> ys' = map f [0..<Suc k] @ drop (Suc k) xs" by simp
  qed simp_all
  then show ?thesis by simp
qed

section \<open>Circular buffers\<close>

text \<open>
  An array of \<open>n\<close> slots with a cursor \<open>k\<close> taken modulo \<open>n\<close>, read from the cursor
  on, is \<open>rotate k\<close>. Overwriting the slot under the cursor and advancing drops the
  oldest element and appends the new one.
\<close>

lemma rotate_Suc_update:
  assumes "xs \<noteq> []"
  shows "rotate (Suc k) (xs[k mod length xs := v]) = tl (rotate k xs) @ [v]"
proof -
  let ?i = "k mod length xs"
  have i: "?i < length xs" using assms by simp
  have "rotate k (xs[?i := v]) = drop ?i (xs[?i := v]) @ take ?i (xs[?i := v])"
    by (simp add: rotate_drop_take)
  also have "\<dots> = v # drop (Suc ?i) xs @ take ?i xs"
    using i by (simp add: drop_update_swap Cons_nth_drop_Suc [symmetric, of ?i xs])
  finally have 1: "rotate k (xs[?i := v]) = v # drop (Suc ?i) xs @ take ?i xs" .
  have 2: "rotate k xs = xs ! ?i # drop (Suc ?i) xs @ take ?i xs"
    using i by (simp add: rotate_drop_take Cons_nth_drop_Suc)
  show ?thesis by (simp add: rotate_Suc 1 2)
qed

lemma hd_rotate: "xs \<noteq> [] \<Longrightarrow> hd (rotate k xs) = xs ! (k mod length xs)"
  by (rule hd_rotate_conv_nth)

lemma rotate_mod_length: "rotate (k mod length xs) xs = rotate k xs"
  by (simp add: rotate_drop_take)

section \<open>Lists with at most one occurrence\<close>

lemma distinct_filter_nth_eq:
  assumes "distinct (filter P xs)" and "P x" and "i < length xs" and "j < length xs"
    and "xs ! i = x" and "xs ! j = x"
  shows "i = j"
  using assms
proof (induction xs arbitrary: i j)
  case (Cons y ys)
  have notin: "x \<notin> set ys" if "y = x" using Cons.prems(1,2) that by simp
  show ?case
  proof (cases i; cases j)
    fix i' j' assume ij: "i = Suc i'" "j = Suc j'"
    have "distinct (filter P ys)" using Cons.prems(1) by (simp split: if_splits)
    with Cons.IH [of i' j'] Cons.prems ij show ?thesis by simp
  qed (use Cons.prems notin in \<open>auto dest: nth_mem\<close>)
qed simp

lemma distinct_full_update:
  assumes "distinct (filter (\<lambda>p. p \<noteq> e) xs)" and "e \<notin> set xs" and "r \<notin> set xs" and "r \<noteq> e"
  shows "distinct (filter (\<lambda>p. p \<noteq> e) (xs[k := r]))" and "e \<notin> set (xs[k := r])"
proof -
  have "filter (\<lambda>p. p \<noteq> e) xs = xs" using assms(2) by (auto intro: filter_True)
  with assms(1) have "distinct xs" by simp
  then show "distinct (filter (\<lambda>p. p \<noteq> e) (xs[k := r]))"
    using assms(3) by (simp add: distinct_list_update distinct_filter)
  show "e \<notin> set (xs[k := r])"
    using assms(2,4) set_update_subset_insert [of xs k r] by auto
qed

lemma fill_next:
  assumes "k < n" and "length xs = n" and "drop k xs = replicate (n - k) e"
  shows "xs[k := r] = take k xs @ r # replicate (n - Suc k) e"
    and "xs = take k xs @ replicate (n - k) e"
proof -
  show xs: "xs = take k xs @ replicate (n - k) e"
    using assms(3) append_take_drop_id [of k xs] by simp
  have m: "n - k = Suc (n - Suc k)" using assms(1) by simp
  show "xs[k := r] = take k xs @ r # replicate (n - Suc k) e"
    using assms(1,2) m by (subst xs) (simp add: list_update_append)
qed

lemma fill_update:
  assumes "k < n" and "length xs = n" and "drop k xs = replicate (n - k) e"
    and "distinct (filter (\<lambda>p. p \<noteq> e) xs)" and "e \<notin> set (take k xs)" and "r \<notin> set xs" and "r \<noteq> e"
  shows "distinct (filter (\<lambda>p. p \<noteq> e) (xs[k := r]))" and "e \<notin> set (take (Suc k) (xs[k := r]))"
    and "drop (Suc k) (xs[k := r]) = replicate (n - Suc k) e"
proof -
  have keep: "filter (\<lambda>p. p \<noteq> e) (take k xs) = take k xs"
    using assms(5) by (auto intro: filter_True)
  have "distinct (take k xs)"
    using assms(4) by (subst (asm) fill_next(2) [OF assms(1-3)]) (simp add: keep)
  then show "distinct (filter (\<lambda>p. p \<noteq> e) (xs[k := r]))"
    using assms(6,7) keep by (auto simp: fill_next(1) [OF assms(1-3)] dest: in_set_takeD)
  show "e \<notin> set (take (Suc k) (xs[k := r]))" "drop (Suc k) (xs[k := r]) = replicate (n - Suc k) e"
    using assms(1,2,5,7) by (auto simp: fill_next(1) [OF assms(1-3)])
qed

section \<open>Machine integers, characters and strings\<close>

definition wrap32 :: "int \<Rightarrow> int" where
  "wrap32 x = (x + 2 ^ 31) mod 2 ^ 32 - 2 ^ 31"

lemma wrap32_range: "- (2 ^ 31) \<le> wrap32 x \<and> wrap32 x < 2 ^ 31"
  by (simp add: wrap32_def)

lemma wrap32_id [simp]: "- (2 ^ 31) \<le> x \<Longrightarrow> x < 2 ^ 31 \<Longrightarrow> wrap32 x = x"
  by (simp add: wrap32_def)

abbreviation NUL :: char where "NUL \<equiv> CHR 0x00"
abbreviation TAB :: char where "TAB \<equiv> CHR 0x09"
abbreviation NL :: char where "NL \<equiv> CHR 0x0A"

text \<open>\<open>uchar\<close> is the byte 0..255, \<open>schar\<close> the value of a C \<open>char\<close> (signed on x86-64).\<close>

definition uchar :: "char \<Rightarrow> int" where
  "uchar c = of_char c"

definition schar :: "char \<Rightarrow> int" where
  "schar c = (if uchar c < 128 then uchar c else uchar c - 256)"

lemma uchar_range: "0 \<le> uchar c \<and> uchar c < 256"
proof -
  have "of_char c < (256 :: int)" by (cases c) (simp add: of_char_def horner_sum_simps)
  moreover have "0 \<le> (of_char c :: int)" by (cases c) (simp add: of_char_def)
  ultimately show ?thesis by (simp add: uchar_def)
qed

lemma uchar_eq_0 [simp]: "uchar c = 0 \<longleftrightarrow> c = NUL"
proof -
  have "(of_char c :: int) = of_char NUL \<longleftrightarrow> c = NUL" by (simp only: of_char_eq_iff)
  then show ?thesis by (simp add: uchar_def)
qed

definition isdigit :: "char \<Rightarrow> bool" where
  "isdigit c \<longleftrightarrow> 48 \<le> uchar c \<and> uchar c \<le> 57"

definition isspace :: "char \<Rightarrow> bool" where
  "isspace c \<longleftrightarrow> uchar c = 32 \<or> (9 \<le> uchar c \<and> uchar c \<le> 13)"

text \<open>The C string stored in a buffer: the bytes before the first NUL.\<close>

definition cstr :: "char list \<Rightarrow> string" where
  "cstr buf = takeWhile (\<lambda>c. c \<noteq> NUL) buf"

text \<open>Whether \<open>strstr\<close> finds the needle.\<close>

fun strstr :: "string \<Rightarrow> string \<Rightarrow> bool" where
  "strstr [] needle = (needle = [])"
| "strstr (c # cs) needle = (take (length needle) (c # cs) = needle \<or> strstr cs needle)"

lemma length_dropWhile_less: "u \<noteq> [] \<Longrightarrow> P (hd u) \<Longrightarrow> length (dropWhile P u) < length u"
  by (cases u) (auto simp: le_imp_less_Suc length_dropWhile_le)

section \<open>Decimal conversions\<close>

text \<open>\<open>show_nat\<close> and \<open>show_int\<close> are the texts of \<open>%lu\<close> and \<open>%d\<close>.\<close>

definition digit_char :: "nat \<Rightarrow> char" where
  "digit_char d = ''0123456789'' ! d"

function show_uint :: "int \<Rightarrow> string" where
  "show_uint x =
     (if x < 10 then [digit_char (nat x)] else show_uint (x div 10) @ [digit_char (nat (x mod 10))])"
  by pat_completeness auto
termination
  by (relation "measure nat") auto

declare show_uint.simps [simp del]

definition show_nat :: "nat \<Rightarrow> string" where
  "show_nat n = show_uint (int n)"

definition show_int :: "int \<Rightarrow> string" where
  "show_int x = (if x < 0 then CHR ''-'' # show_uint (- x) else show_uint x)"

text \<open>Reading: \<open>digits_val acc ds\<close> continues \<open>acc * 10 + (c - '0')\<close> over the digits.\<close>

fun digits_val :: "int \<Rightarrow> string \<Rightarrow> int" where
  "digits_val acc [] = acc"
| "digits_val acc (c # cs) = digits_val (acc * 10 + (uchar c - 48)) cs"

lemma digits_val_append [simp]: "digits_val acc (xs @ ys) = digits_val (digits_val acc xs) ys"
  by (induction xs arbitrary: acc) auto

lemma digit_char_cases:
  "d < 10 \<Longrightarrow> P 0 \<Longrightarrow> P 1 \<Longrightarrow> P 2 \<Longrightarrow> P 3 \<Longrightarrow> P 4 \<Longrightarrow> P 5 \<Longrightarrow> P 6 \<Longrightarrow> P 7 \<Longrightarrow> P 8 \<Longrightarrow> P 9 \<Longrightarrow> P (d :: nat)"
  by (auto simp: eval_nat_numeral less_Suc_eq)

lemma uchar_digit_char [simp]: "d < 10 \<Longrightarrow> uchar (digit_char d) = int d + 48"
  by (rule digit_char_cases [of d]) (simp_all add: digit_char_def uchar_def)

lemma isdigit_digit_char [simp]: "d < 10 \<Longrightarrow> isdigit (digit_char d)"
  by (simp add: isdigit_def)

lemma show_uint_digits: "0 \<le> x \<Longrightarrow> \<forall>c \<in> set (show_uint x). isdigit c"
proof (induction x rule: show_uint.induct)
  case (1 x)
  then show ?case by (subst show_uint.simps) (auto simp: nat_less_iff)
qed

lemma show_uint_nonempty [simp]: "show_uint x \<noteq> []"
  by (subst show_uint.simps) simp

lemma length_show_uint: "0 \<le> x \<Longrightarrow> x < 10 ^ Suc d \<Longrightarrow> length (show_uint x) \<le> Suc d"
proof (induction d arbitrary: x)
  case 0
  then show ?case by (subst show_uint.simps) simp
next
  case (Suc d)
  show ?case
  proof (cases "x < 10")
    case True
    then show ?thesis by (subst show_uint.simps) simp
  next
    case False
    have "x div 10 < 10 ^ Suc d" using Suc.prems by (simp add: div_less_iff_less_mult)
    with Suc have "length (show_uint (x div 10)) \<le> Suc d" by simp
    with False show ?thesis by (subst show_uint.simps) simp
  qed
qed

lemma digits_val_show_uint: "0 \<le> x \<Longrightarrow> digits_val 0 (show_uint x) = x"
proof (induction x rule: show_uint.induct)
  case (1 x)
  then show ?case by (subst show_uint.simps) (auto simp: nat_less_iff)
qed

section \<open>The C input library\<close>

text \<open>
  \<open>scan_int s\<close> is the conversion \<open>%d\<close> on the input \<open>s\<close>: white space is skipped, an
  optional sign and at least one digit are read; the value and the rest of the
  input are returned, or \<open>None\<close> when nothing matches. \<open>fgets_line n s\<close> is
  \<open>fgets (buf, n, fp)\<close>: at most \<open>n - 1\<close> bytes, up to and including a newline.
\<close>

definition scan_int :: "string \<Rightarrow> (int \<times> string) option" where
  "scan_int s =
     (let t = dropWhile isspace s;
          neg = (case t of c # _ \<Rightarrow> c = CHR ''-'' | [] \<Rightarrow> False);
          u = (case t of c # cs \<Rightarrow> if c = CHR ''-'' \<or> c = CHR ''+'' then cs else t | [] \<Rightarrow> t);
          ds = takeWhile isdigit u
      in if ds = [] then None
         else Some ((if neg then - digits_val 0 ds else digits_val 0 ds), dropWhile isdigit u))"

fun upto_newline :: "nat \<Rightarrow> string \<Rightarrow> string" where
  "upto_newline 0 s = []"
| "upto_newline (Suc k) [] = []"
| "upto_newline (Suc k) (c # cs) = (if c = NL then [c] else c # upto_newline k cs)"

definition fgets_line :: "nat \<Rightarrow> string \<Rightarrow> string \<times> string" where
  "fgets_line n s = (let l = upto_newline (n - 1) s in (l, drop (length l) s))"

lemma length_upto_newline: "length (upto_newline k s) \<le> k"
  by (induction k s rule: upto_newline.induct) auto

lemma length_fgets_line: "length (fst (fgets_line n s)) \<le> n - 1"
  by (simp add: fgets_line_def Let_def length_upto_newline)

lemma set_upto_newline: "set (upto_newline k s) \<subseteq> set s"
  by (induction k s rule: upto_newline.induct) auto

lemma set_fgets_line: "set (fst (fgets_line n s)) \<subseteq> set s"
  by (simp add: fgets_line_def Let_def set_upto_newline)

end
