(* ===== verification/Paging.thy ===== *)
theory Paging
  imports Prelude
begin

text \<open>
  The common part of the page replacement simulator (assignment 5): the global
  \<open>page_reference\<close> buffer and its two readings, the lookup \<open>find\<close>, the printed
  rows, the loop over the references that all four algorithms share, and the
  interface \<open>paging\<close> that an algorithm promises to that loop.

  The buffer is declared \<open>int page_reference[31]\<close> and filled by
  \<open>fgets(page_reference, 62, fp)\<close>, so the bytes of the input line are read back
  four at a time, as little-endian ints. The model keeps the bytes and reads them
  the way the code does.
\<close>

section \<open>The reference buffer\<close>

type_synonym ref_mem = "char list"

text \<open>The 124 bytes of \<open>int page_reference[31]\<close>, zero before \<open>fgets\<close> stores a line.\<close>

definition page_reference_mem :: "string \<Rightarrow> ref_mem" where
  "page_reference_mem line = line @ replicate (124 - length line) NUL"

definition le32 :: "char \<Rightarrow> char \<Rightarrow> char \<Rightarrow> char \<Rightarrow> int" where
  "le32 a b c d = wrap32 (uchar a + 256 * uchar b + 65536 * uchar c + 16777216 * uchar d)"

text \<open>\<open>page_reference[k]\<close> as an int, for an index inside the declared array.\<close>

definition rd_int :: "ref_mem \<Rightarrow> nat \<Rightarrow> int option" where
  "rd_int mem k = do {
     a \<leftarrow> rd mem (4 * k);
     b \<leftarrow> rd mem (4 * k + 1);
     c \<leftarrow> rd mem (4 * k + 2);
     d \<leftarrow> rd mem (4 * k + 3);
     Some (le32 a b c d) }"

section \<open>Lookup and printing\<close>

text \<open>\<open>find(object, page_reference)\<close>: a scan of the \<open>page_frame\<close> slots.\<close>

function find_from :: "nat \<Rightarrow> nat \<Rightarrow> int list \<Rightarrow> int \<Rightarrow> bool option" where
  "find_from i page_frame object r =
     (if i < page_frame
      then do { x \<leftarrow> rd object i; if x = r then Some True else find_from (Suc i) page_frame object r }
      else Some False)"
  by pat_completeness auto
termination
  by (relation "measure (\<lambda>(i, n, _, _). n - i)") auto

declare find_from.simps [simp del]

definition find_page :: "nat \<Rightarrow> int list \<Rightarrow> int \<Rightarrow> bool option" where
  "find_page page_frame object r = find_from 0 page_frame object r"

text \<open>
  The scan \<open>for (i = 0; i < page_frame; i++) if (queue[i] == r) break;\<close> of
  \<open>pagebit_change\<close> and \<open>stack_update\<close>: the first slot holding the page, else \<open>page_frame\<close>.
\<close>

function slot_from :: "nat \<Rightarrow> nat \<Rightarrow> int list \<Rightarrow> int \<Rightarrow> nat option" where
  "slot_from i page_frame queue r =
     (if i < page_frame
      then do { x \<leftarrow> rd queue i; if x = r then Some i else slot_from (Suc i) page_frame queue r }
      else Some i)"
  by pat_completeness auto
termination
  by (relation "measure (\<lambda>(i, n, _, _). n - i)") auto

declare slot_from.simps [simp del]

text \<open>The frames of one row: every slot that is not \<open>-1\<close>, each followed by a tab.\<close>

definition print_frames :: "int list \<Rightarrow> string" where
  "print_frames fs = concat (map (\<lambda>x. (if x \<noteq> -1 then show_int x else []) @ [TAB]) fs)"

definition print_row :: "nat \<Rightarrow> int list \<Rightarrow> bool \<Rightarrow> string" where
  "print_row i fs fault =
     show_nat ((i + 2) div 2) @ [TAB, TAB] @ print_frames fs @ (if fault then [CHR ''F'', NL] else [NL])"

definition print_header :: "string \<Rightarrow> ref_mem \<Rightarrow> nat \<Rightarrow> string" where
  "print_header method mem page_frame =
     ''Used method : '' @ method @ [NL] @ ''page reference string : '' @ cstr mem @ [NL] @
     [TAB] @ ''frame'' @ concat (map (\<lambda>i. TAB # show_nat (i + 1)) [0..<page_frame]) @
     [TAB] @ ''page fault'' @ [NL] @ ''time'' @ [NL]"

definition print_footer :: "nat \<Rightarrow> string" where
  "print_footer page_fault =
     ''Number of page faults : '' @ show_nat page_fault @ '' times'' @ [NL, NL]"

section \<open>The loop over the references\<close>

text \<open>
  \<open>for (i = 0; i < 62; i += 2) { if (!page_reference[i]) break; ... }\<close> with the
  body a function of the index, the page \<open>page_reference[i] - '0'\<close> and the locals.
\<close>

function ref_loop :: "(nat \<Rightarrow> int \<Rightarrow> 's \<Rightarrow> 's option) \<Rightarrow> ref_mem \<Rightarrow> nat \<Rightarrow> 's \<Rightarrow> 's option" where
  "ref_loop step mem i s =
     (if i < 62
      then do {
        v \<leftarrow> rd_int mem i;
        if v = 0 then Some s
        else do { s' \<leftarrow> step i (v - 48) s; ref_loop step mem (i + 2) s' } }
      else Some s)"
  by pat_completeness auto
termination
  by (relation "measure (\<lambda>(_, _, i, _). 62 - i)") auto

declare ref_loop.simps [simp del]

text \<open>The references the loop visits, as (index, page) pairs, and the loop over them.\<close>

function refs_from :: "ref_mem \<Rightarrow> nat \<Rightarrow> (nat \<times> int) list" where
  "refs_from mem i =
     (if i < 62
      then case rd_int mem i of None \<Rightarrow> [] | Some v \<Rightarrow>
             if v = 0 then [] else (i, v - 48) # refs_from mem (i + 2)
      else [])"
  by pat_completeness auto
termination
  by (relation "measure (\<lambda>(_, i). 62 - i)") auto

declare refs_from.simps [simp del]

fun run_refs :: "(nat \<Rightarrow> int \<Rightarrow> 's \<Rightarrow> 's option) \<Rightarrow> (nat \<times> int) list \<Rightarrow> 's \<Rightarrow> 's option" where
  "run_refs step [] s = Some s"
| "run_refs step ((i, r) # rs) s = do { s' \<leftarrow> step i r s; run_refs step rs s' }"

lemma run_refs_append:
  "run_refs step (xs @ ys) s = do { s' \<leftarrow> run_refs step xs s; run_refs step ys s' }"
proof (induction step xs s rule: run_refs.induct)
  case (2 step i r rs s)
  then show ?case by (cases "step i r s") simp_all
qed simp

section \<open>Lemmas\<close>

lemma find_from_iff:
  assumes "page_frame \<le> length object"
  shows "find_from i page_frame object r = Some (\<exists>j. i \<le> j \<and> j < page_frame \<and> object ! j = r)"
  using assms
proof (induction i page_frame object r rule: find_from.induct)
  case (1 i n object r)
  show ?case
  proof (cases "i < n")
    case True
    with "1.prems" have rd: "rd object i = Some (object ! i)" by simp
    show ?thesis
    proof (cases "object ! i = r")
      case hit: True
      with True rd show ?thesis by (subst find_from.simps) auto
    next
      case miss: False
      have "(\<exists>j. Suc i \<le> j \<and> j < n \<and> object ! j = r) \<longleftrightarrow> (\<exists>j. i \<le> j \<and> j < n \<and> object ! j = r)"
        using miss by (metis Suc_leD Suc_leI le_neq_implies_less)
      with True rd miss "1.IH" "1.prems" show ?thesis by (subst find_from.simps) simp
    qed
  next
    case False
    then show ?thesis by (subst find_from.simps) auto
  qed
qed

lemma find_page_mem [simp]:
  "length object = page_frame \<Longrightarrow> find_page page_frame object r = Some (r \<in> set object)"
  by (auto simp: find_page_def find_from_iff in_set_conv_nth)

lemma slot_from_found:
  assumes "length queue = n" and "j < n" and "i \<le> j"
    and "\<And>k. k < n \<Longrightarrow> (queue ! k = r) = (k = j)"
  shows "slot_from i n queue r = Some j"
  using assms
proof (induction i n queue r rule: slot_from.induct)
  case (1 i n queue r)
  have rd: "rd queue i = Some (queue ! i)" and hit: "(queue ! i = r) = (i = j)" and i: "i < n"
    using "1.prems" by auto
  show ?case
  proof (cases "i = j")
    case True
    then show ?thesis using rd hit i by (subst slot_from.simps) simp
  next
    case False
    have "slot_from (Suc i) n queue r = Some j"
      by (rule "1.IH" [of "queue ! i"]) (use False rd hit i "1.prems" in auto)
    then show ?thesis using False rd hit i by (subst slot_from.simps) simp
  qed
qed

lemma slot_from_exists:
  assumes "length queue = n" and "r \<in> set queue" and "distinct queue"
  shows "\<exists>j. slot_from 0 n queue r = Some j \<and> j < n \<and> queue ! j = r"
proof -
  obtain j where j: "j < n" "queue ! j = r" using assms by (auto simp: in_set_conv_nth)
  have "slot_from 0 n queue r = Some j"
    by (rule slot_from_found) (use assms j in \<open>auto simp: nth_eq_iff_index_eq\<close>)
  with j show ?thesis by blast
qed

lemma slot_from_mem:
  assumes "length queue = n" and "i \<le> j" and "j < n" and "queue ! j = r"
  shows "\<exists>k. slot_from i n queue r = Some k \<and> k < n \<and> queue ! k = r"
  using assms
proof (induction i n queue r rule: slot_from.induct)
  case (1 i n queue r)
  have rd: "rd queue i = Some (queue ! i)" and i: "i < n" using "1.prems" by auto
  show ?case
  proof (cases "queue ! i = r")
    case True
    then show ?thesis using rd i by (subst slot_from.simps) simp
  next
    case False
    with "1.prems" have "Suc i \<le> j" by (metis Suc_leI le_neq_implies_less)
    with "1.IH" [OF i rd False] "1.prems" False rd i show ?thesis by (subst slot_from.simps) simp
  qed
qed

lemma rd_int_in: "4 * k + 3 < length mem \<Longrightarrow>
    rd_int mem k = Some (le32 (mem ! (4 * k)) (mem ! (4 * k + 1)) (mem ! (4 * k + 2)) (mem ! (4 * k + 3)))"
  by (simp add: rd_int_def)

lemma rd_int_None: "length mem \<le> 4 * k + 3 \<Longrightarrow> rd_int mem k = None"
  by (auto simp: rd_int_def rd_def Option.bind_eq_None_conv)

lemma length_page_reference_mem: "length line \<le> 61 \<Longrightarrow> length (page_reference_mem line) = 124"
  by (simp add: page_reference_mem_def)

lemma page_reference_mem_nth:
  "length line \<le> 61 \<Longrightarrow> k < 124 \<Longrightarrow>
   page_reference_mem line ! k = (if k < length line then line ! k else NUL)"
  by (auto simp: page_reference_mem_def nth_append)

lemma le32_zero [simp]: "le32 NUL NUL NUL NUL = 0"
  by (simp add: le32_def uchar_def)

text \<open>After at most 61 bytes of input, every int from index 16 on is zero.\<close>

lemma rd_int_zero:
  assumes "length line \<le> 61" and "16 \<le> k" and "k < 31"
  shows "rd_int (page_reference_mem line) k = Some 0"
proof -
  have "4 * k + 3 < 124" using assms by simp
  then show ?thesis
    using assms by (simp add: rd_int_in length_page_reference_mem page_reference_mem_nth)
qed

text \<open>
  The loop stays inside the array and sees at most the indices 0, 2, ..., 14: it is
  the run over \<open>refs_from\<close>.
\<close>

lemma ref_loop_run_refs_from:
  assumes "length line \<le> 61" and "even i" and "i \<le> 16"
  shows "ref_loop step (page_reference_mem line) i s =
         run_refs step (refs_from (page_reference_mem line) i) s"
  using assms(2,3)
proof (induction "16 - i" arbitrary: i s rule: less_induct)
  case less
  show ?case
  proof (cases "i = 16")
    case True
    then show ?thesis
      using rd_int_zero [OF assms(1), of 16] by (simp add: ref_loop.simps refs_from.simps)
  next
    case False
    with less.prems have i: "i < 16" "i + 2 \<le> 16" by presburger+
    obtain v where v: "rd_int (page_reference_mem line) i = Some v"
      using i assms(1) by (simp add: rd_int_in length_page_reference_mem)
    have "ref_loop step (page_reference_mem line) (i + 2) =
          run_refs step (refs_from (page_reference_mem line) (i + 2))"
      using less.hyps [of "i + 2"] less.prems i by (simp add: fun_eq_iff)
    with i v show ?thesis
      by (subst ref_loop.simps, subst refs_from.simps) simp
  qed
qed

text \<open>Every index the loop visits is at most 14.\<close>

lemma refs_from_index:
  assumes "length line \<le> 61" and "even i" and "i \<le> 16"
  shows "\<forall>(j, r) \<in> set (refs_from (page_reference_mem line) i). even j \<and> j \<le> 14"
  using assms(2,3)
proof (induction "16 - i" arbitrary: i rule: less_induct)
  case less
  show ?case
  proof (cases "i = 16")
    case True
    then show ?thesis using rd_int_zero [OF assms(1), of 16] by (simp add: refs_from.simps)
  next
    case False
    with less.prems have i: "i \<le> 14" by presburger
    have "\<forall>(j, r) \<in> set (refs_from (page_reference_mem line) (i + 2)). even j \<and> j \<le> 14"
      by (rule less.hyps) (use i less.prems in auto)
    with i less.prems show ?thesis
      by (subst refs_from.simps) (auto split: option.splits)
  qed
qed

text \<open>
  A page \<open>-1\<close>, the mark of a free frame, can only come from the single byte \<open>/\<close>
  (47 = \<open>'0' - 1\<close>).
\<close>

lemma le32_eq_47: "le32 a b c d = 47 \<Longrightarrow> uchar a = 47"
proof -
  assume h: "le32 a b c d = 47"
  let ?x = "uchar a + 256 * uchar b + 65536 * uchar c + 16777216 * uchar d"
  have r: "0 \<le> uchar a" "uchar a < 256" "0 \<le> uchar b" "uchar b < 256" "0 \<le> uchar c" "uchar c < 256"
    "0 \<le> uchar d" "uchar d < 256" using uchar_range by auto
  then have x: "0 \<le> ?x" "?x < 4294967296" by linarith+
  have m: "(?x + 2147483648) mod 4294967296 = 2147483695"
    using h by (simp add: le32_def wrap32_def)
  have "?x = 47"
  proof (cases "?x < 2147483648")
    case True
    then have "(?x + 2147483648) mod 4294967296 = ?x + 2147483648"
      using x by (intro mod_pos_pos_trivial) linarith+
    with m show ?thesis by linarith
  next
    case False
    have "(?x + 2147483648) mod 4294967296 = (?x - 2147483648 + 4294967296) mod 4294967296" by (simp add: algebra_simps)
    also have "\<dots> = (?x - 2147483648) mod 4294967296" by (rule mod_add_self2)
    also have "\<dots> = ?x - 2147483648"
      using x False by (intro mod_pos_pos_trivial) linarith+
    finally show ?thesis using m x by linarith
  qed
  moreover from this r have "uchar b < 1" "uchar c < 1" "uchar d < 1" by linarith+
  ultimately show ?thesis using r by linarith
qed

lemma uchar_slash: "uchar c = 47 \<longleftrightarrow> c = CHR ''/''"
proof -
  have "(of_char c :: int) = of_char (CHR ''/'') \<longleftrightarrow> c = CHR ''/''" by (simp only: of_char_eq_iff)
  then show ?thesis by (simp add: uchar_def)
qed

lemma refs_from_page:
  assumes "length line \<le> 61" and "CHR ''/'' \<notin> set line"
  shows "-1 \<notin> snd ` set (refs_from (page_reference_mem line) i)"
proof (induction "62 - i" arbitrary: i rule: less_induct)
  case less
  let ?m = "page_reference_mem line"
  have "v - 48 \<noteq> -1" if v: "rd_int ?m i = Some v" for v
  proof
    assume "v - 48 = -1"
    then have "v = 47" by simp
    have i: "4 * i + 3 < length ?m" using v rd_int_None [of ?m i] by (cases "4 * i + 3 < length ?m") auto
    with v \<open>v = 47\<close> have "?m ! (4 * i) = CHR ''/''"
      by (auto simp: rd_int_in uchar_slash dest!: le32_eq_47)
    moreover have "?m ! (4 * i) \<in> set line \<union> {NUL}"
      using i assms(1) by (auto simp: length_page_reference_mem page_reference_mem_nth)
    ultimately show False using assms(2) by auto
  qed
  then have v: "-1 \<noteq> v - 48" if "rd_int ?m i = Some v" for v using that by metis
  have IH: "-1 \<notin> snd ` set (refs_from ?m (i + 2))" if "i < 62"
    by (rule less.hyps) (use that in auto)
  show ?case
  proof (cases "i < 62")
    case True
    show ?thesis
    proof (cases "rd_int ?m i")
      case (Some w)
      show ?thesis
        using v [OF Some] IH [OF True] True Some
        by (subst refs_from.simps) (simp del: diff_eq_eq eq_diff_eq)
    qed (simp add: True refs_from.simps [of "page_reference_mem line" i])
  qed (simp add: refs_from.simps [of "page_reference_mem line" i])
qed

text \<open>The loop visits at most eight references.\<close>

lemma length_refs_from:
  assumes "length line \<le> 61" and "even i" and "i \<le> 16"
  shows "length (refs_from (page_reference_mem line) i) \<le> (16 - i) div 2"
  using assms(2,3)
proof (induction "16 - i" arbitrary: i rule: less_induct)
  case less
  show ?case
  proof (cases "i = 16")
    case True
    then show ?thesis using rd_int_zero [OF assms(1), of 16] by (simp add: refs_from.simps)
  next
    case False
    with less.prems have i: "i \<le> 14" by presburger
    have "length (refs_from (page_reference_mem line) (i + 2)) \<le> (16 - (i + 2)) div 2"
      by (rule less.hyps) (use i less.prems in auto)
    moreover have "(16 - i) div 2 = Suc ((16 - (i + 2)) div 2)" using i by presburger
    ultimately show ?thesis by (subst refs_from.simps) (auto split: option.splits)
  qed
qed

section \<open>What an algorithm promises to the loop\<close>

text \<open>
  \<open>paging\<close>: a step on an acceptable reference never fails, keeps the invariant and the number of
  frames; a reference to a resident page changes neither the frames nor the fault
  count, any other reference counts one fault.
\<close>

locale paging =
  fixes step :: "nat \<Rightarrow> int \<Rightarrow> 's \<Rightarrow> 's option"
    and ok :: "nat \<Rightarrow> int \<Rightarrow> bool"
    and invar :: "'s \<Rightarrow> bool"
    and frames :: "'s \<Rightarrow> int list"
    and faults :: "'s \<Rightarrow> nat"
  assumes step_total: "invar s \<Longrightarrow> ok i r \<Longrightarrow>
      \<exists>s'. step i r s = Some s' \<and> invar s' \<and> length (frames s') = length (frames s)"
    and step_hit: "invar s \<Longrightarrow> ok i r \<Longrightarrow> r \<in> set (frames s) \<Longrightarrow> step i r s = Some s' \<Longrightarrow>
      frames s' = frames s \<and> faults s' = faults s"
    and step_miss: "invar s \<Longrightarrow> ok i r \<Longrightarrow> r \<notin> set (frames s) \<Longrightarrow> step i r s = Some s' \<Longrightarrow>
      faults s' = Suc (faults s)"
begin

lemma step_obtain:
  assumes "invar s" and "ok i r"
  obtains s' where "step i r s = Some s'" "invar s'" "length (frames s') = length (frames s)"
    "faults s' = (if r \<in> set (frames s) then faults s else Suc (faults s))"
  using step_total [OF assms] step_hit [OF assms] step_miss [OF assms] by metis

lemma run_total:
  assumes "invar s" and "\<forall>(i, r) \<in> set rs. ok i r"
  shows "\<exists>s'. run_refs step rs s = Some s' \<and> invar s' \<and> length (frames s') = length (frames s) \<and>
         faults s \<le> faults s' \<and> faults s' \<le> faults s + length rs"
  using assms
proof (induction rs arbitrary: s)
  case (Cons x rs)
  obtain i r where x: "x = (i, r)" by (cases x)
  from Cons.prems x have "ok i r" by auto
  with Cons.prems(1) obtain t where t: "step i r s = Some t" "invar t"
    "length (frames t) = length (frames s)"
    "faults t = (if r \<in> set (frames s) then faults s else Suc (faults s))"
    by (rule step_obtain)
  from Cons.IH [OF t(2)] Cons.prems(2) obtain u where
    "run_refs step rs t = Some u \<and> invar u \<and> length (frames u) = length (frames t) \<and>
     faults t \<le> faults u \<and> faults u \<le> faults t + length rs"
    by auto
  with t x show ?case by (auto split: if_splits)
qed simp

end

text \<open>
  \<open>demand_paging\<close>: in addition a fault brings the page in, evicts at most one page,
  and evicts none while a frame is free (\<open>-1\<close>).
\<close>

locale demand_paging = paging +
  assumes ok_page: "ok i r \<Longrightarrow> r \<noteq> -1"
    and frames_distinct: "invar s \<Longrightarrow> distinct (filter (\<lambda>p. p \<noteq> -1) (frames s))"
    and step_loads: "invar s \<Longrightarrow> ok i r \<Longrightarrow> r \<notin> set (frames s) \<Longrightarrow> step i r s = Some s' \<Longrightarrow>
      r \<in> set (frames s') \<and> set (frames s') \<subseteq> insert r (set (frames s))"
    and step_keeps: "invar s \<Longrightarrow> ok i r \<Longrightarrow> r \<notin> set (frames s) \<Longrightarrow> step i r s = Some s' \<Longrightarrow>
      -1 \<in> set (frames s) \<Longrightarrow> set (frames s) - {-1} \<subseteq> set (frames s')"
begin

definition resident :: "'a \<Rightarrow> int set" where
  "resident s = set (frames s) - {-1}"

lemma step_resident:
  assumes "invar s" and "ok i r" and "step i r s = Some s'"
  shows "r \<in> resident s'" and "resident s' \<subseteq> insert r (resident s)"
proof -
  have "r \<in> set (frames s') \<and> set (frames s') \<subseteq> insert r (set (frames s))"
    using step_hit [OF assms(1,2) _ assms(3)] step_loads [OF assms(1,2) _ assms(3)]
    by (cases "r \<in> set (frames s)") auto
  with ok_page [OF assms(2)] show "r \<in> resident s'" and "resident s' \<subseteq> insert r (resident s)"
    by (auto simp: resident_def)
qed

lemma card_resident: "invar s \<Longrightarrow> -1 \<notin> set (frames s) \<Longrightarrow> card (resident s) = length (frames s)"
proof -
  assume s: "invar s" and full: "-1 \<notin> set (frames s)"
  then have "filter (\<lambda>p. p \<noteq> -1) (frames s) = frames s" by (auto intro: filter_True)
  with s full frames_distinct [of s] show ?thesis by (simp add: resident_def distinct_card)
qed

lemma run_last_resident:
  assumes "invar s" and "\<forall>(i, r) \<in> set (rs @ [(i, r)]). ok i r" and "run_refs step (rs @ [(i, r)]) s = Some s'"
  shows "r \<in> resident s'"
proof -
  from assms(1,2) obtain t where t: "run_refs step rs s = Some t" "invar t"
    using run_total [of s rs] by (auto simp: image_Un)
  from assms(2) have "ok i r" by auto
  with t assms(3) step_resident(1) show ?thesis
    by (auto simp: run_refs_append split: Option.bind_splits)
qed

lemma miss_card:
  assumes "invar s" and "ok i r" and "step i r s = Some t" and "r \<notin> set (frames s)" and "finite P"
  shows "card (insert r P - resident s) \<le> Suc (card (P - resident t))"
proof -
  have "insert r P - resident s \<subseteq> insert r (P - resident t)"
    using step_resident [OF assms(1-3)] by auto
  then have "card (insert r P - resident s) \<le> card (insert r (P - resident t))"
    using assms(5) by (intro card_mono) auto
  also have "\<dots> \<le> Suc (card (P - resident t))" by (rule card_insert_le_m1) auto
  finally show ?thesis .
qed

lemma run_compulsory:
  assumes "invar s" and "\<forall>(i, r) \<in> set rs. ok i r" and "run_refs step rs s = Some s'"
  shows "faults s + card (snd ` set rs - resident s) \<le> faults s'"
  using assms
proof (induction rs arbitrary: s)
  case (Cons x rs)
  obtain i r where x: "x = (i, r)" by (cases x)
  from Cons.prems x have r: "ok i r" by auto
  then have page: "r \<noteq> -1" by (rule ok_page)
  from Cons.prems(1) r obtain t where t: "step i r s = Some t" "invar t"
    "faults t = (if r \<in> set (frames s) then faults s else Suc (faults s))"
    by (rule step_obtain)
  have IH: "faults t + card (snd ` set rs - resident t) \<le> faults s'"
    using Cons.IH [OF t(2)] Cons.prems t(1) x by auto
  show ?case
  proof (cases "r \<in> set (frames s)")
    case True
    then have "resident t = resident s" "r \<in> resident s"
      using step_hit [OF Cons.prems(1) r True t(1)] page True by (auto simp: resident_def)
    with IH True t(3) x show ?thesis by (simp add: insert_Diff_if)
  next
    case False
    with miss_card [OF Cons.prems(1) r t(1) False, of "snd ` set rs"] IH t(3) x
    show ?thesis by simp
  qed
qed simp

lemma miss_with_room:
  assumes "invar s" and "ok i r" and "step i r s = Some t" and "r \<notin> set (frames s)"
    and "finite P" and "r \<in> P" and "card (resident s \<union> P) \<le> length (frames s)"
  shows "resident t = insert r (resident s)"
proof -
  have "-1 \<in> set (frames s)"
  proof (rule ccontr)
    assume "-1 \<notin> set (frames s)"
    then have "card (resident s) = length (frames s)" by (rule card_resident [OF assms(1)])
    moreover have "resident s \<subset> resident s \<union> P"
      using assms(4,6) by (auto simp: resident_def)
    then have "card (resident s) < card (resident s \<union> P)"
      using assms(5) by (intro psubset_card_mono) (auto simp: resident_def)
    ultimately show False using assms(7) by simp
  qed
  then have "resident s \<subseteq> resident t"
    using step_keeps [OF assms(1,2,4,3)] by (auto simp: resident_def)
  with step_resident [OF assms(1-3)] show ?thesis by auto
qed

lemma run_all_fit:
  assumes "invar s" and "\<forall>(i, r) \<in> set rs. ok i r" and "run_refs step rs s = Some s'"
    and "card (resident s \<union> snd ` set rs) \<le> length (frames s)"
  shows "faults s' = faults s + card (snd ` set rs - resident s)"
  using assms
proof (induction rs arbitrary: s)
  case (Cons x rs)
  obtain i r where x: "x = (i, r)" by (cases x)
  from Cons.prems x have r: "ok i r" by auto
  then have page: "r \<noteq> -1" by (rule ok_page)
  from Cons.prems(1) r obtain t where t: "step i r s = Some t" "invar t"
    "length (frames t) = length (frames s)"
    "faults t = (if r \<in> set (frames s) then faults s else Suc (faults s))"
    by (rule step_obtain)
  have res: "resident t = insert r (resident s)"
  proof (cases "r \<in> set (frames s)")
    case True
    then show ?thesis
      using step_hit [OF Cons.prems(1) r True t(1)] page True by (auto simp: resident_def)
  next
    case False
    show ?thesis
      by (rule miss_with_room [OF Cons.prems(1) r t(1) False, of "snd ` set (x # rs)"])
         (use Cons.prems(4) x in auto)
  qed
  have "insert r (resident s) \<union> snd ` set rs = resident s \<union> snd ` set (x # rs)" using x by auto
  then have "faults s' = faults t + card (snd ` set rs - resident t)"
    using Cons.IH [OF t(2)] Cons.prems t(1,3) x res by simp
  moreover have "snd ` set (x # rs) - resident s =
      (if r \<in> resident s then snd ` set rs - resident t else insert r (snd ` set rs - resident t))"
    using x res by auto
  ultimately show ?case using t(4) page res by (auto simp: resident_def)
qed simp

end

end
