(* ===== verification/Paging_FIFO.thy ===== *)
theory Paging_FIFO
  imports Paging
begin

text \<open>
  The FIFO algorithm of assignment 5: a circular array of page frames
  (\<open>queue_push\<close>, \<open>FIFO\<close>), its invariant, its refinement of a bounded queue and its
  interpretation as a demand paging algorithm.
\<close>

record fifo_state =
  fifo_queue :: "int list"
  fifo_number :: nat
  fifo_fault :: nat
  fifo_out :: string

text \<open>\<open>queue_push\<close>; the modulus by a \<open>page_frame\<close> of 0 traps.\<close>

definition queue_push :: "nat \<Rightarrow> int list \<Rightarrow> nat \<Rightarrow> int \<Rightarrow> (int list \<times> nat) option" where
  "queue_push page_frame queue queue_number r = do {
     queue' \<leftarrow> wr queue queue_number r;
     if page_frame = 0 then None
     else Some (queue', (queue_number + 1) mod page_frame) }"

definition fifo_step :: "nat \<Rightarrow> nat \<Rightarrow> int \<Rightarrow> fifo_state \<Rightarrow> fifo_state option" where
  "fifo_step page_frame i r s = do {
     hit \<leftarrow> find_page page_frame (fifo_queue s) r;
     if hit then Some (s\<lparr>fifo_out := fifo_out s @ print_row i (fifo_queue s) False\<rparr>)
     else do {
       (queue', number') \<leftarrow> queue_push page_frame (fifo_queue s) (fifo_number s) r;
       Some (s\<lparr>fifo_queue := queue', fifo_number := number', fifo_fault := fifo_fault s + 1,
               fifo_out := fifo_out s @ print_row i queue' True\<rparr>) } }"

definition fifo_start :: "nat \<Rightarrow> ref_mem \<Rightarrow> fifo_state" where
  "fifo_start page_frame mem =
     \<lparr>fifo_queue = replicate page_frame (-1), fifo_number = 0, fifo_fault = 0,
      fifo_out = print_header ''FIFO'' mem page_frame\<rparr>"

definition FIFO :: "nat \<Rightarrow> ref_mem \<Rightarrow> fifo_state option" where
  "FIFO page_frame mem = do {
     s \<leftarrow> ref_loop (fifo_step page_frame) mem 0 (fifo_start page_frame mem);
     Some (s\<lparr>fifo_out := fifo_out s @ print_footer (fifo_fault s)\<rparr>) }"

section \<open>Specification: a bounded queue of pages, oldest first\<close>

fun fifo_spec :: "nat \<Rightarrow> int \<Rightarrow> int list \<times> nat \<Rightarrow> int list \<times> nat" where
  "fifo_spec n r (q, k) =
     (if r \<in> set q then (q, k)
      else if length q < n then (q @ [r], Suc k)
      else (tl q @ [r], Suc k))"

section \<open>Invariant and refinement\<close>

text \<open>
  Either the frames are being filled from the front (the cursor is the first free
  frame) or all of them hold pages.
\<close>

definition fifo_inv :: "nat \<Rightarrow> fifo_state \<Rightarrow> bool" where
  "fifo_inv n s \<longleftrightarrow>
     length (fifo_queue s) = n \<and> fifo_number s < n \<and>
     distinct (filter (\<lambda>p. p \<noteq> -1) (fifo_queue s)) \<and>
     (-1 \<notin> set (fifo_queue s) \<or>
      -1 \<notin> set (take (fifo_number s) (fifo_queue s)) \<and>
      drop (fifo_number s) (fifo_queue s) = replicate (n - fifo_number s) (-1))"

definition fifo_abs :: "fifo_state \<Rightarrow> int list \<times> nat" where
  "fifo_abs s = (filter (\<lambda>p. p \<noteq> -1) (rotate (fifo_number s) (fifo_queue s)), fifo_fault s)"

lemma fifo_start_inv: "0 < n \<Longrightarrow> fifo_inv n (fifo_start n mem)"
  by (auto simp: fifo_inv_def fifo_start_def)

lemma fifo_start_abs: "fifo_abs (fifo_start n mem) = ([], 0)"
  by (simp add: fifo_abs_def fifo_start_def)

lemma set_fifo_abs: "set (fst (fifo_abs s)) = set (fifo_queue s) - {-1}"
  by (auto simp: fifo_abs_def)

text \<open>The array after a fault, in the two phases.\<close>

lemma fill_abs:
  assumes "k < n" and "drop k q = replicate (n - k) (-1)" and "-1 \<notin> set (take k q)" and "r \<noteq> -1"
    and "length q = n"
  shows "filter (\<lambda>p. p \<noteq> -1) (rotate (Suc k mod n) (q[k := r])) = take k q @ [r]"
    and "filter (\<lambda>p. p \<noteq> -1) (rotate k q) = take k q"
proof -
  have keep: "filter (\<lambda>p. p \<noteq> -1) (take k q) = take k q"
    using assms(3) by (auto intro: filter_True)
  show "filter (\<lambda>p. p \<noteq> -1) (rotate k q) = take k q"
    using assms(1,2,5) keep by (simp add: rotate_drop_take)
  show "filter (\<lambda>p. p \<noteq> -1) (rotate (Suc k mod n) (q[k := r])) = take k q @ [r]"
    using assms(1,4,5) keep
    by (cases "Suc k = n") (auto simp: rotate_drop_take fill_next(1) [OF assms(1,5,2)])
qed

lemma full_abs:
  assumes "k < length q" and "-1 \<notin> set q" and "r \<noteq> -1"
  shows "filter (\<lambda>p. p \<noteq> -1) (rotate (Suc k mod length q) (q[k := r])) = tl (rotate k q) @ [r]"
    and "filter (\<lambda>p. p \<noteq> -1) (rotate k q) = rotate k q"
proof -
  have ne: "q \<noteq> []" using assms(1) by auto
  show 1: "filter (\<lambda>p. p \<noteq> -1) (rotate k q) = rotate k q"
    using assms(2) by (auto intro: filter_True)
  have "rotate (Suc k mod length q) (q[k := r]) = rotate (Suc k) (q[k := r])"
    using rotate_mod_length [of "Suc k" "q[k := r]"] by simp
  also have "\<dots> = tl (rotate k q) @ [r]"
    using rotate_Suc_update [OF ne, of k r] assms(1) by simp
  finally show "filter (\<lambda>p. p \<noteq> -1) (rotate (Suc k mod length q) (q[k := r])) = tl (rotate k q) @ [r]"
    using assms(2,3) list.set_sel(2) [of "rotate k q"] ne by (auto intro!: filter_True)
qed

lemma fifo_step_eq:
  assumes "fifo_inv n s"
  shows "fifo_step n i r s =
    (if r \<in> set (fifo_queue s)
     then Some (s\<lparr>fifo_out := fifo_out s @ print_row i (fifo_queue s) False\<rparr>)
     else Some (s\<lparr>fifo_queue := (fifo_queue s)[fifo_number s := r],
                  fifo_number := Suc (fifo_number s) mod n, fifo_fault := Suc (fifo_fault s),
                  fifo_out := fifo_out s @ print_row i ((fifo_queue s)[fifo_number s := r]) True\<rparr>))"
  using assms by (auto simp: fifo_step_def fifo_inv_def queue_push_def)

lemma fifo_miss_inv:
  assumes "fifo_inv n s" and "r \<noteq> -1" and "r \<notin> set (fifo_queue s)" and "fifo_step n i r s = Some s'"
  shows "fifo_inv n s'"
proof -
  let ?q = "fifo_queue s" and ?k = "fifo_number s"
  have k: "?k < n" "length ?q = n" and dist: "distinct (filter (\<lambda>p. p \<noteq> -1) ?q)"
    using assms(1) by (auto simp: fifo_inv_def)
  have s': "fifo_queue s' = ?q[?k := r]" "fifo_number s' = Suc ?k mod n"
    using fifo_step_eq [OF assms(1)] assms(3,4) by auto
  show ?thesis
  proof (cases "-1 \<in> set ?q")
    case False
    with distinct_full_update [OF dist False assms(3,2), of ?k] k s' show ?thesis
      by (simp add: fifo_inv_def)
  next
    case True
    then have fill: "-1 \<notin> set (take ?k ?q)" "drop ?k ?q = replicate (n - ?k) (-1)"
      using assms(1) by (auto simp: fifo_inv_def)
    note fill_update [OF k fill(2) dist fill(1) assms(3,2)]
    with k s' show ?thesis by (cases "Suc ?k = n") (auto simp: fifo_inv_def)
  qed
qed

lemma fifo_step_inv:
  assumes "fifo_inv n s" and "r \<noteq> -1" and "fifo_step n i r s = Some s'"
  shows "fifo_inv n s'"
proof (cases "r \<in> set (fifo_queue s)")
  case True
  with fifo_step_eq [OF assms(1)] assms(3)
  have "s' = s\<lparr>fifo_out := fifo_out s @ print_row i (fifo_queue s) False\<rparr>" by simp
  with assms(1) show ?thesis by (simp add: fifo_inv_def)
next
  case False
  with assms fifo_miss_inv show ?thesis by blast
qed

lemma fifo_step_abs:
  assumes "fifo_inv n s" and "r \<noteq> -1" and "fifo_step n i r s = Some s'"
  shows "fifo_abs s' = fifo_spec n r (fifo_abs s)"
proof (cases "r \<in> set (fifo_queue s)")
  case True
  then show ?thesis
    using fifo_step_eq [OF assms(1)] assms(2,3) by (auto simp: fifo_abs_def)
next
  case False
  let ?q = "fifo_queue s" and ?k = "fifo_number s"
  have k: "?k < n" "length ?q = n" using assms(1) by (auto simp: fifo_inv_def)
  have s': "fifo_queue s' = ?q[?k := r]" "fifo_number s' = Suc ?k mod n" "fifo_fault s' = Suc (fifo_fault s)"
    using fifo_step_eq [OF assms(1)] False assms(3) by auto
  show ?thesis
  proof (cases "-1 \<in> set ?q")
    case True
    then have "-1 \<notin> set (take ?k ?q)" "drop ?k ?q = replicate (n - ?k) (-1)"
      using assms(1) by (auto simp: fifo_inv_def)
    with fill_abs [OF k(1) _ _ assms(2) k(2)]
    have "filter (\<lambda>p. p \<noteq> -1) (rotate (Suc ?k mod n) (?q[?k := r])) = take ?k ?q @ [r]"
      and "filter (\<lambda>p. p \<noteq> -1) (rotate ?k ?q) = take ?k ?q" by blast+
    with k s' False show ?thesis
      by (auto simp: fifo_abs_def dest: in_set_takeD)
  next
    case full: False
    then show ?thesis
      using full_abs [of ?k ?q r] assms(2) k s' False by (simp add: fifo_abs_def)
  qed
qed

interpretation fifo: demand_paging "fifo_step n" "\<lambda>i r. r \<noteq> -1" "fifo_inv n" fifo_queue fifo_fault for n
proof (unfold_locales, goal_cases)
  case (1 s i r)
  then have "\<exists>s'. fifo_step n i r s = Some s' \<and> length (fifo_queue s') = length (fifo_queue s)"
    by (auto simp: fifo_step_eq)
  with 1 fifo_step_inv show ?case by blast
next
  case (2 s i r s')
  then show ?case by (auto simp: fifo_step_eq)
next
  case (3 s i r s')
  then show ?case by (auto simp: fifo_step_eq)
next
  case (4 i r)
  then show ?case by simp
next
  case (5 s)
  then show ?case by (simp add: fifo_inv_def)
next
  case (6 s i r s')
  then have "fifo_number s < length (fifo_queue s)" by (simp add: fifo_inv_def)
  with 6 show ?case
    by (auto simp: fifo_step_eq set_update_memI dest: set_update_subset_insert [THEN subsetD])
next
  case (7 s i r s')
  then have "fst (fifo_abs s') = fst (fifo_spec n r (fifo_abs s))" by (simp add: fifo_step_abs)
  moreover have "length (fst (fifo_abs s)) < n"
    using 7(1,5) length_filter_less [of "-1" "rotate (fifo_number s) (fifo_queue s)" "\<lambda>p. p \<noteq> -1"]
    by (simp add: fifo_inv_def fifo_abs_def)
  ultimately have "set (fst (fifo_abs s)) \<subseteq> set (fst (fifo_abs s'))"
    by (cases "fifo_abs s") auto
  then show ?case by (auto simp: set_fifo_abs)
qed

text \<open>The whole run simulates the bounded queue.\<close>

lemma fifo_run_abs:
  assumes "fifo_inv n s" and "-1 \<notin> snd ` set rs" and "run_refs (fifo_step n) rs s = Some s'"
  shows "fifo_abs s' = fold (\<lambda>(i, r). fifo_spec n r) rs (fifo_abs s)"
  using assms
proof (induction rs arbitrary: s)
  case (Cons x rs)
  obtain i r where x: "x = (i, r)" by (cases x)
  from Cons.prems x have r: "r \<noteq> -1" by auto
  with Cons.prems(1) obtain t where t: "fifo_step n i r s = Some t" "fifo_inv n t"
    using fifo.step_obtain [where i = i and r = r] by blast
  with Cons.prems x r Cons.IH [OF t(2)] fifo_step_abs [OF Cons.prems(1) r t(1)]
  show ?case by auto
qed simp

lemma FIFO_run:
  assumes "length line \<le> 61"
  shows "FIFO n (page_reference_mem line) = do {
     s \<leftarrow> run_refs (fifo_step n) (refs_from (page_reference_mem line) 0) (fifo_start n (page_reference_mem line));
     Some (s\<lparr>fifo_out := fifo_out s @ print_footer (fifo_fault s)\<rparr>) }"
  using assms by (simp add: FIFO_def ref_loop_run_refs_from)

end
