(* ===== verification/Paging_SCR.thy ===== *)
theory Paging_SCR
  imports Paging
begin

text \<open>
  The Second-Chance algorithm of assignment 5: page frames with reference bits and
  a clock hand (\<open>queue_pagebit_change\<close>, \<open>pagebit_change\<close>, \<open>SCR\<close>), the termination of
  its \<open>while (1)\<close> search, its invariant, its refinement of a queue of pages with
  reference bits, and its interpretation as a demand paging algorithm.
\<close>

lemma clear_count:
  "k < length xs \<Longrightarrow> xs ! k \<noteq> (0 :: int) \<Longrightarrow>
   length (filter (\<lambda>b. b \<noteq> 0) (xs[k := 0])) < length (filter (\<lambda>b. b \<noteq> 0) xs)"
proof (induction xs arbitrary: k)
  case (Cons x xs)
  then show ?case by (cases k) auto
qed simp

record scr_state =
  scr_queue :: "int list"
  scr_bit :: "int list"
  scr_number :: nat
  scr_fault :: nat
  scr_out :: string

text \<open>The \<open>while (1)\<close> of \<open>queue_pagebit_change\<close>: every set bit it passes is cleared.\<close>

function chance_loop :: "nat \<Rightarrow> int list \<Rightarrow> nat \<Rightarrow> (int list \<times> nat) option" where
  "chance_loop page_frame page_bit queue_number =
     (if page_frame = 0 then None
      else do {
        b \<leftarrow> rd page_bit (queue_number mod page_frame);
        if b \<noteq> 0
        then do {
          page_bit' \<leftarrow> wr page_bit (queue_number mod page_frame) 0;
          chance_loop page_frame page_bit' (queue_number + 1) }
        else Some (page_bit, queue_number) })"
  by pat_completeness auto
termination
  by (relation "measure (\<lambda>(_, bits, _). length (filter (\<lambda>b. b \<noteq> 0) bits))")
     (auto simp: rd_eq_Some wr_eq_Some clear_count)

declare chance_loop.simps [simp del]

definition queue_pagebit_change ::
    "nat \<Rightarrow> int list \<Rightarrow> int list \<Rightarrow> nat \<Rightarrow> int \<Rightarrow> (int list \<times> int list \<times> nat) option" where
  "queue_pagebit_change page_frame queue page_bit queue_number r =
     (if queue_number < page_frame
      then do {
        queue' \<leftarrow> wr queue queue_number r;
        page_bit' \<leftarrow> wr page_bit queue_number 0;
        Some (queue', page_bit', queue_number) }
      else do {
        (page_bit', queue_number') \<leftarrow> chance_loop page_frame page_bit queue_number;
        queue' \<leftarrow> wr queue (queue_number' mod page_frame) r;
        Some (queue', page_bit', queue_number') })"

definition pagebit_change :: "nat \<Rightarrow> int list \<Rightarrow> int list \<Rightarrow> nat \<Rightarrow> int \<Rightarrow> int list option" where
  "pagebit_change page_frame queue page_bit queue_number r = do {
     i \<leftarrow> slot_from 0 page_frame queue r;
     wr page_bit i 1 }"

definition scr_step :: "nat \<Rightarrow> nat \<Rightarrow> int \<Rightarrow> scr_state \<Rightarrow> scr_state option" where
  "scr_step page_frame i r s = do {
     hit \<leftarrow> find_page page_frame (scr_queue s) r;
     if hit then do {
       page_bit' \<leftarrow> pagebit_change page_frame (scr_queue s) (scr_bit s) (scr_number s) r;
       Some (s\<lparr>scr_bit := page_bit', scr_out := scr_out s @ print_row i (scr_queue s) False\<rparr>) }
     else do {
       (queue', page_bit', number') \<leftarrow>
         queue_pagebit_change page_frame (scr_queue s) (scr_bit s) (scr_number s) r;
       Some (s\<lparr>scr_queue := queue', scr_bit := page_bit', scr_number := number' + 1,
               scr_fault := scr_fault s + 1, scr_out := scr_out s @ print_row i queue' True\<rparr>) } }"

definition scr_start :: "nat \<Rightarrow> ref_mem \<Rightarrow> scr_state" where
  "scr_start page_frame mem =
     \<lparr>scr_queue = replicate page_frame (-1), scr_bit = replicate page_frame 0,
      scr_number = 0, scr_fault = 0, scr_out = print_header ''Second-Chance'' mem page_frame\<rparr>"

definition SCR :: "nat \<Rightarrow> ref_mem \<Rightarrow> scr_state option" where
  "SCR page_frame mem = do {
     s \<leftarrow> ref_loop (scr_step page_frame) mem 0 (scr_start page_frame mem);
     Some (s\<lparr>scr_out := scr_out s @ print_footer (scr_fault s)\<rparr>) }"

section \<open>Specification: a queue of pages with reference bits, oldest first\<close>

text \<open>
  The victim is the first page whose bit is clear; the pages in front of it lose
  their bit and move to the back. When every bit is set the oldest page is the victim.
\<close>

definition clr :: "int \<times> bool \<Rightarrow> int \<times> bool" where
  "clr x = (fst x, False)"

definition chances :: "(int \<times> bool) list \<Rightarrow> (int \<times> bool) list" where
  "chances xs = dropWhile snd xs @ map clr (takeWhile snd xs)"

definition set_ref :: "int \<Rightarrow> int \<times> bool \<Rightarrow> int \<times> bool" where
  "set_ref r x = (if fst x = r then (fst x, True) else x)"

fun scr_spec :: "nat \<Rightarrow> int \<Rightarrow> (int \<times> bool) list \<times> nat \<Rightarrow> (int \<times> bool) list \<times> nat" where
  "scr_spec n r (q, k) =
     (if r \<in> fst ` set q then (map (set_ref r) q, k)
      else if length q < n then (q @ [(r, False)], Suc k)
      else (tl (chances q) @ [(r, False)], Suc k))"

lemma chances_head_clear: "xs \<noteq> [] \<Longrightarrow> \<not> snd (hd xs) \<Longrightarrow> chances xs = xs"
  by (cases xs) (auto simp: chances_def)

lemma chances_head_set:
  assumes "xs \<noteq> []" and "snd (hd xs)"
  shows "chances (tl xs @ [clr (hd xs)]) = chances xs"
proof -
  obtain x t where xs: "xs = x # t" "snd x" using assms by (cases xs) auto
  show ?thesis
  proof (cases "\<forall>y \<in> set t. snd y")
    case True
    then have "dropWhile snd t = []" "takeWhile snd t = t" by (simp_all add: takeWhile_eq_all_conv)
    then have "chances (x # t) = map clr (x # t)"
      using xs(2) by (simp add: chances_def del: dropWhile_eq_Nil_conv takeWhile_eq_all_conv)
    moreover have "chances (t @ [clr x]) = clr x # map clr t"
      using True by (simp add: chances_def clr_def)
    ultimately show ?thesis using xs by simp
  next
    case False
    with xs show ?thesis
      by (auto simp: chances_def dropWhile_append takeWhile_append)
  qed
qed

lemma mset_chances: "mset (map fst (chances xs)) = mset (map fst xs)"
proof -
  have "map fst (chances xs) = map fst (dropWhile snd xs) @ map fst (takeWhile snd xs)"
    by (simp add: chances_def clr_def)
  then have "mset (map fst (chances xs)) =
      mset (map fst (takeWhile snd xs @ dropWhile snd xs))" by (simp del: takeWhile_dropWhile_id)
  then show ?thesis by simp
qed

lemma length_chances [simp]: "length (chances xs) = length xs"
  using arg_cong [OF mset_chances [of xs], of size] by simp

lemma set_chances: "fst ` set (chances xs) = fst ` set xs"
  using arg_cong [OF mset_chances [of xs], of set_mset] by simp

section \<open>The clock hand\<close>

declare rotate_Suc [simp del]

abbreviation clock :: "nat \<Rightarrow> int list \<Rightarrow> int list \<Rightarrow> (int \<times> bool) list" where
  "clock k queue bits \<equiv> rotate k (zip queue (map (\<lambda>b. b \<noteq> 0) bits))"

lemma clock_advance:
  assumes "length bits = length queue" and "queue \<noteq> []"
  shows "clock (Suc k) queue (bits[k mod length queue := 0]) =
         tl (clock k queue bits) @ [clr (hd (clock k queue bits))]"
proof -
  let ?z = "zip queue (map (\<lambda>b. b \<noteq> 0) bits)" and ?i = "k mod length queue"
  have z: "?z \<noteq> []" "length ?z = length queue" using assms by auto
  have i: "?i < length queue" using assms by simp
  have "zip queue (map (\<lambda>b. b \<noteq> 0) (bits[?i := 0])) = ?z[?i := (queue ! ?i, False)]"
    by (simp add: map_update update_zip)
  then have "clock (Suc k) queue (bits[?i := 0]) = tl (rotate k ?z) @ [(queue ! ?i, False)]"
    using rotate_Suc_update [OF z(1), of k] z(2) by simp
  moreover have "hd (rotate k ?z) = (queue ! ?i, bits ! ?i \<noteq> 0)"
    using hd_rotate [OF z(1), of k] z(2) i assms(1) by simp
  ultimately show ?thesis by (simp add: clr_def)
qed

lemma hd_clock:
  "length bits = length queue \<Longrightarrow> queue \<noteq> [] \<Longrightarrow>
   hd (clock k queue bits) = (queue ! (k mod length queue), bits ! (k mod length queue) \<noteq> 0)"
  by (subst hd_rotate) (auto simp: zip_eq_Nil_iff)

text \<open>The search ends, at the victim, with every passed bit cleared.\<close>

lemma chance_loop_spec:
  assumes "length bits = length queue" and "queue \<noteq> []"
  shows "\<exists>bits' k'. chance_loop (length queue) bits k = Some (bits', k') \<and> k \<le> k' \<and>
           length bits' = length queue \<and> bits' ! (k' mod length queue) = 0 \<and>
           clock k' queue bits' = chances (clock k queue bits)"
  using assms
proof (induction "length queue" bits k rule: chance_loop.induct)
  case (1 bits k)
  let ?n = "length queue" and ?i = "k mod length queue"
  have n: "?n \<noteq> 0" and i: "?i < ?n" using "1.prems" by auto
  have ne: "clock k queue bits \<noteq> []" using "1.prems" by auto
  have rd: "rd bits ?i = Some (bits ! ?i)" using i "1.prems" by simp
  show ?case
  proof (cases "bits ! ?i = 0")
    case True
    then have "chances (clock k queue bits) = clock k queue bits"
      using ne hd_clock [OF "1.prems"] by (intro chances_head_clear) auto
    with True rd n "1.prems" show ?thesis by (subst chance_loop.simps) simp
  next
    case False
    have wr: "wr bits ?i 0 = Some (bits[?i := 0])" using i "1.prems" by simp
    obtain bits' k' where IH: "chance_loop ?n (bits[?i := 0]) (k + 1) = Some (bits', k')"
      "k + 1 \<le> k'" "length bits' = ?n" "bits' ! (k' mod ?n) = 0"
      "clock k' queue bits' = chances (clock (k + 1) queue (bits[?i := 0]))"
      using "1.hyps" [OF n rd False wr] "1.prems" by auto
    have "chances (clock (k + 1) queue (bits[?i := 0])) = chances (clock k queue bits)"
      using clock_advance [OF "1.prems"] chances_head_set [OF ne] hd_clock [OF "1.prems"] False by simp
    with IH False rd wr n show ?thesis by (subst chance_loop.simps) auto
  qed
qed

section \<open>Invariant and refinement\<close>

definition scr_inv :: "nat \<Rightarrow> scr_state \<Rightarrow> bool" where
  "scr_inv n s \<longleftrightarrow>
     0 < n \<and> length (scr_queue s) = n \<and> length (scr_bit s) = n \<and>
     distinct (filter (\<lambda>p. p \<noteq> -1) (scr_queue s)) \<and>
     (if scr_number s < n
      then -1 \<notin> set (take (scr_number s) (scr_queue s)) \<and>
           drop (scr_number s) (scr_queue s) = replicate (n - scr_number s) (-1)
      else -1 \<notin> set (scr_queue s))"

definition scr_hand :: "scr_state \<Rightarrow> nat" where
  "scr_hand s = (if scr_number s < length (scr_queue s) then 0 else scr_number s)"

definition scr_abs :: "scr_state \<Rightarrow> (int \<times> bool) list \<times> nat" where
  "scr_abs s = (filter (\<lambda>x. fst x \<noteq> -1) (clock (scr_hand s) (scr_queue s) (scr_bit s)), scr_fault s)"

lemma scr_start_inv: "0 < n \<Longrightarrow> scr_inv n (scr_start n mem)"
  by (auto simp: scr_inv_def scr_start_def)

lemma fst_set_scr_abs:
  assumes "length (scr_bit s) = length (scr_queue s)"
  shows "fst ` set (fst (scr_abs s)) = set (scr_queue s) - {-1}"
proof -
  have "fst ` set (zip (scr_queue s) (map (\<lambda>b. b \<noteq> 0) (scr_bit s))) = set (scr_queue s)"
    using assms by (metis length_map list.set_map map_fst_zip)
  then show ?thesis by (auto simp: scr_abs_def image_iff)
qed

lemma scr_start_abs: "scr_abs (scr_start n mem) = ([], 0)"
proof -
  have "fst ` set (fst (scr_abs (scr_start n mem))) = {}"
    by (subst fst_set_scr_abs) (auto simp: scr_start_def)
  then show ?thesis by (cases "scr_abs (scr_start n mem)") (auto simp: scr_abs_def scr_start_def)
qed

lemma scr_hit:
  assumes "scr_inv n s" and "r \<noteq> -1" and "r \<in> set (scr_queue s)"
  obtains j where "j < n" and "\<And>k. k < n \<Longrightarrow> (scr_queue s ! k = r) = (k = j)"
    and "scr_step n i r s = Some (s\<lparr>scr_bit := (scr_bit s)[j := 1],
            scr_out := scr_out s @ print_row i (scr_queue s) False\<rparr>)"
proof -
  have len: "length (scr_queue s) = n" "length (scr_bit s) = n"
    and dist: "distinct (filter (\<lambda>p. p \<noteq> -1) (scr_queue s))"
    using assms(1) by (auto simp: scr_inv_def)
  obtain j where j: "j < n" "scr_queue s ! j = r"
    using assms(3) len by (auto simp: in_set_conv_nth)
  have uniq: "(scr_queue s ! k = r) = (k = j)" if "k < n" for k
    using distinct_filter_nth_eq [OF dist, of r k j] that j len assms(2) by blast
  have "slot_from 0 n (scr_queue s) r = Some j"
    by (rule slot_from_found) (use j len uniq in auto)
  then have "scr_step n i r s = Some (s\<lparr>scr_bit := (scr_bit s)[j := 1],
            scr_out := scr_out s @ print_row i (scr_queue s) False\<rparr>)"
    using assms(3) len j(1) by (simp add: scr_step_def pagebit_change_def)
  with j(1) uniq show thesis by (rule that)
qed

lemma scr_hit_abs:
  assumes "scr_inv n s" and "r \<noteq> -1" and "r \<in> set (scr_queue s)" and "scr_step n i r s = Some s'"
  shows "scr_inv n s'" and "scr_abs s' = (map (set_ref r) (fst (scr_abs s)), scr_fault s)"
    and "scr_queue s' = scr_queue s"
proof -
  obtain j where j: "j < n" "\<And>k. k < n \<Longrightarrow> (scr_queue s ! k = r) = (k = j)"
    and s': "s' = s\<lparr>scr_bit := (scr_bit s)[j := 1], scr_out := scr_out s @ print_row i (scr_queue s) False\<rparr>"
    using scr_hit [OF assms(1-3), of i] assms(4) by auto
  have len: "length (scr_queue s) = n" "length (scr_bit s) = n" using assms(1) by (auto simp: scr_inv_def)
  show "scr_inv n s'" "scr_queue s' = scr_queue s" using assms(1) s' by (simp_all add: scr_inv_def)
  have "zip (scr_queue s) (map (\<lambda>b. b \<noteq> 0) ((scr_bit s)[j := 1])) ! k =
        map (set_ref r) (zip (scr_queue s) (map (\<lambda>b. b \<noteq> 0) (scr_bit s))) ! k" if "k < n" for k
    using that len j(1) j(2) [OF that] by (cases "k = j") (simp_all add: set_ref_def)
  then have "zip (scr_queue s) (map (\<lambda>b. b \<noteq> 0) ((scr_bit s)[j := 1])) =
        map (set_ref r) (zip (scr_queue s) (map (\<lambda>b. b \<noteq> 0) (scr_bit s)))"
    by (intro nth_equalityI) (simp_all add: len)
  then have "clock (scr_hand s') (scr_queue s') (scr_bit s') =
        map (set_ref r) (clock (scr_hand s) (scr_queue s) (scr_bit s))"
    using s' by (simp add: rotate_map scr_hand_def)
  moreover have "fst (set_ref r x) = fst x" for x by (simp add: set_ref_def)
  ultimately show "scr_abs s' = (map (set_ref r) (fst (scr_abs s)), scr_fault s)"
    using s' by (simp add: scr_abs_def filter_map comp_def)
qed

text \<open>A fault while frames are free, and a fault with all frames in use.\<close>

lemma scr_fill_step:
  assumes "scr_inv n s" and "r \<notin> set (scr_queue s)" and "scr_number s < n"
  shows "scr_step n i r s = Some (s\<lparr>scr_queue := (scr_queue s)[scr_number s := r],
     scr_bit := (scr_bit s)[scr_number s := 0], scr_number := Suc (scr_number s),
     scr_fault := Suc (scr_fault s),
     scr_out := scr_out s @ print_row i ((scr_queue s)[scr_number s := r]) True\<rparr>)"
  using assms by (simp add: scr_step_def scr_inv_def queue_pagebit_change_def)

lemma zip_fill:
  assumes "k \<le> n" and "length b = n" and "-1 \<notin> set p" and "length p = k"
  shows "filter (\<lambda>x. fst x \<noteq> -1) (zip (p @ replicate (n - k) (-1 :: int)) b) = zip p (take k b)"
proof -
  have "zip (p @ replicate (n - k) (-1)) b = zip p (take k b) @ zip (replicate (n - k) (-1)) (drop k b)"
    using assms by (simp add: zip_append1)
  moreover have "filter (\<lambda>x. fst x \<noteq> -1) (zip p (take k b)) = zip p (take k b)"
    using assms(3) by (auto intro!: filter_True dest: set_zip_leftD)
  moreover have "filter (\<lambda>x. fst x \<noteq> -1) (zip (replicate (n - k) (-1 :: int)) (drop k b)) = []"
    by (auto intro!: filter_False dest!: set_zip_leftD)
  ultimately show ?thesis by simp
qed

lemma scr_fill_abs:
  assumes "scr_inv n s" and "r \<noteq> -1" and "r \<notin> set (scr_queue s)" and "scr_number s < n"
    and "scr_step n i r s = Some s'"
  shows "scr_inv n s'" and "scr_abs s' = (fst (scr_abs s) @ [(r, False)], Suc (scr_fault s))"
    and "length (fst (scr_abs s)) < n"
proof -
  let ?q = "scr_queue s" and ?b = "scr_bit s" and ?k = "scr_number s"
  let ?f = "map (\<lambda>b. b \<noteq> (0 :: int))"
  have k: "?k < n" "length ?q = n" "length ?b = n" and dist: "distinct (filter (\<lambda>p. p \<noteq> -1) ?q)"
    and fill: "-1 \<notin> set (take ?k ?q)" "drop ?k ?q = replicate (n - ?k) (-1)"
    using assms(1,4) by (auto simp: scr_inv_def)
  have s': "scr_queue s' = ?q[?k := r]" "scr_bit s' = ?b[?k := 0]" "scr_number s' = Suc ?k"
    "scr_fault s' = Suc (scr_fault s)"
    using scr_fill_step [OF assms(1,3,4), of i] assms(5) by auto
  note upd = fill_update [OF k(1,2) fill(2) dist fill(1) assms(3,2)]
  have full: "-1 \<notin> set (?q[?k := r])" if "Suc ?k = n"
    using upd(2) k that by simp
  show "scr_inv n s'"
    using k s' upd full assms(1) by (auto simp: scr_inv_def)
  have before: "filter (\<lambda>x. fst x \<noteq> -1) (zip ?q (?f ?b)) = zip (take ?k ?q) (take ?k (?f ?b))"
    using zip_fill [of ?k n "?f ?b" "take ?k ?q"] k fill fill_next(2) [OF k(1,2) fill(2)] by simp
  have q': "?q[?k := r] = (take ?k ?q @ [r]) @ replicate (n - Suc ?k) (-1)"
    using fill_next(1) [OF k(1,2) fill(2)] by simp
  have "filter (\<lambda>x. fst x \<noteq> -1) (zip (?q[?k := r]) (?f (?b[?k := 0]))) =
        zip (take ?k ?q @ [r]) (take (Suc ?k) (?f (?b[?k := 0])))"
    unfolding q' by (rule zip_fill) (use k fill assms(2) in auto)
  also have "\<dots> = zip (take ?k ?q) (take ?k (?f ?b)) @ [(r, False)]"
    using k by (simp add: map_update take_Suc_conv_app_nth)
  finally have after: "filter (\<lambda>x. fst x \<noteq> -1) (zip (?q[?k := r]) (?f (?b[?k := 0]))) =
        zip (take ?k ?q) (take ?k (?f ?b)) @ [(r, False)]" .
  have "rotate n (zip (?q[?k := r]) (?f (?b[?k := 0]))) = zip (?q[?k := r]) (?f (?b[?k := 0]))"
    using k by (intro rotate_id) simp
  moreover have "scr_hand s' = 0 \<or> scr_hand s' = n" using k s' by (auto simp: scr_hand_def)
  ultimately have hand': "clock (scr_hand s') (scr_queue s') (scr_bit s') = zip (?q[?k := r]) (?f (?b[?k := 0]))"
    using s'(1,2) by auto
  have hand: "clock (scr_hand s) ?q ?b = zip ?q (?f ?b)"
    using k by (simp add: scr_hand_def)
  show "scr_abs s' = (fst (scr_abs s) @ [(r, False)], Suc (scr_fault s))"
    using hand hand' before after s'(4) by (simp add: scr_abs_def)
  show "length (fst (scr_abs s)) < n"
    using hand before k by (simp add: scr_abs_def)
qed

lemma scr_replace:
  assumes "scr_inv n s" and "r \<notin> set (scr_queue s)" and "n \<le> scr_number s"
  obtains bits' k' where
    "scr_step n i r s = Some (s\<lparr>scr_queue := (scr_queue s)[k' mod n := r], scr_bit := bits',
       scr_number := Suc k', scr_fault := Suc (scr_fault s),
       scr_out := scr_out s @ print_row i ((scr_queue s)[k' mod n := r]) True\<rparr>)"
    and "scr_number s \<le> k'" and "length bits' = n" and "bits' ! (k' mod n) = 0"
    and "clock k' (scr_queue s) bits' = chances (clock (scr_number s) (scr_queue s) (scr_bit s))"
proof -
  have n: "0 < n" "length (scr_queue s) = n" "length (scr_bit s) = length (scr_queue s)" "scr_queue s \<noteq> []"
    using assms(1) by (auto simp: scr_inv_def)
  obtain bits' k' where loop: "chance_loop n (scr_bit s) (scr_number s) = Some (bits', k')"
    and rest: "scr_number s \<le> k'" "length bits' = n" "bits' ! (k' mod n) = 0"
      "clock k' (scr_queue s) bits' = chances (clock (scr_number s) (scr_queue s) (scr_bit s))"
    using chance_loop_spec [OF n(3,4), of "scr_number s"] n(2) by auto
  have "k' mod n < n" using n(1) by simp
  with loop assms(2,3) n(2) have
    "scr_step n i r s = Some (s\<lparr>scr_queue := (scr_queue s)[k' mod n := r], scr_bit := bits',
       scr_number := Suc k', scr_fault := Suc (scr_fault s),
       scr_out := scr_out s @ print_row i ((scr_queue s)[k' mod n := r]) True\<rparr>)"
    by (simp add: scr_step_def queue_pagebit_change_def)
  from this rest show thesis by (rule that)
qed

lemma scr_replace_abs:
  assumes "scr_inv n s" and "r \<noteq> -1" and "r \<notin> set (scr_queue s)" and "n \<le> scr_number s"
    and "scr_step n i r s = Some s'"
  shows "scr_inv n s'"
    and "scr_abs s' = (tl (chances (fst (scr_abs s))) @ [(r, False)], Suc (scr_fault s))"
    and "length (fst (scr_abs s)) = n"
    and "r \<in> set (scr_queue s') \<and> set (scr_queue s') \<subseteq> insert r (set (scr_queue s))"
proof -
  let ?q = "scr_queue s" and ?b = "scr_bit s"
  have n: "0 < n" "length ?q = n" "length ?b = n" and dist: "distinct (filter (\<lambda>p. p \<noteq> -1) ?q)"
    and full: "-1 \<notin> set ?q" using assms(1,4) by (auto simp: scr_inv_def)
  obtain bits' k' where s': "scr_queue s' = ?q[k' mod n := r]" "scr_bit s' = bits'"
      "scr_number s' = Suc k'" "scr_fault s' = Suc (scr_fault s)"
    and k': "scr_number s \<le> k'" "length bits' = n" "bits' ! (k' mod n) = 0"
      "clock k' ?q bits' = chances (clock (scr_number s) ?q ?b)"
    by (rule scr_replace [OF assms(1,3,4), of i]) (use assms(5) in auto)
  note upd = distinct_full_update [OF dist full assms(3,2), of "k' mod n"]
  show "scr_inv n s'" using n s' k' upd assms(4) by (simp add: scr_inv_def)
  show "r \<in> set (scr_queue s') \<and> set (scr_queue s') \<subseteq> insert r (set (scr_queue s))"
    using s' n set_update_subset_insert [of ?q "k' mod n" r] by (simp add: set_update_memI)
  have nofree: "filter (\<lambda>x. fst x \<noteq> -1) (clock j q bs) = clock j q bs" if "-1 \<notin> set q" for j q bs
    using that by (auto intro!: filter_True dest: set_zip_leftD)
  have abs: "fst (scr_abs s) = clock (scr_number s) ?q ?b"
    using full n assms(4) nofree by (simp add: scr_abs_def scr_hand_def)
  then show "length (fst (scr_abs s)) = n" using n by simp
  have z: "zip ?q (map (\<lambda>b. b \<noteq> 0) bits') \<noteq> []" "length (zip ?q (map (\<lambda>b. b \<noteq> 0) bits')) = n"
    using n k' by (auto simp: zip_eq_Nil_iff)
  have i: "k' mod n < length bits'" using n k' by simp
  then have "(map (\<lambda>b. b \<noteq> 0) bits')[k' mod n := False] = map (\<lambda>b. b \<noteq> 0) bits'"
    using k'(3) by (simp add: list_update_same_conv)
  then have "zip (?q[k' mod n := r]) (map (\<lambda>b. b \<noteq> 0) bits') =
        (zip ?q (map (\<lambda>b. b \<noteq> 0) bits'))[k' mod n := (r, False)]"
    using update_zip [of ?q "map (\<lambda>b. b \<noteq> 0) bits'" "k' mod n" "(r, False)"] by simp
  then have "clock (Suc k') (?q[k' mod n := r]) bits' = tl (clock k' ?q bits') @ [(r, False)]"
    using rotate_Suc_update [OF z(1), of k' "(r, False)"] z(2) by simp
  moreover have "scr_hand s' = Suc k'" using s' k' n assms(4) by (simp add: scr_hand_def)
  ultimately have "fst (scr_abs s') = tl (clock k' ?q bits') @ [(r, False)]"
    using nofree [OF upd(2), of "Suc k'" bits'] s'(1,2) by (simp add: scr_abs_def)
  then show "scr_abs s' = (tl (chances (fst (scr_abs s))) @ [(r, False)], Suc (scr_fault s))"
    using s'(4) k'(4) abs by (simp add: scr_abs_def)
qed

lemma scr_step_refines:
  assumes "scr_inv n s" and "r \<noteq> -1" and "scr_step n i r s = Some s'"
  shows "scr_inv n s'" and "scr_abs s' = scr_spec n r (scr_abs s)"
proof -
  have len: "length (scr_bit s) = length (scr_queue s)" using assms(1) by (simp add: scr_inv_def)
  have mem: "r \<in> fst ` set (fst (scr_abs s)) \<longleftrightarrow> r \<in> set (scr_queue s)"
    using assms(2) by (simp add: fst_set_scr_abs [OF len])
  have snd: "snd (scr_abs s) = scr_fault s" by (simp add: scr_abs_def)
  show "scr_inv n s'"
    using scr_hit_abs(1) scr_fill_abs(1) scr_replace_abs(1) assms by (metis not_less)
  consider "r \<in> set (scr_queue s)" | "r \<notin> set (scr_queue s)" "scr_number s < n"
    | "r \<notin> set (scr_queue s)" "n \<le> scr_number s" by linarith
  then show "scr_abs s' = scr_spec n r (scr_abs s)"
  proof cases
    case 1
    then show ?thesis
      using scr_hit_abs(2) [OF assms(1,2) 1 assms(3)] mem snd by (cases "scr_abs s") simp
  next
    case 2
    then show ?thesis
      using scr_fill_abs(2,3) [OF assms(1,2) 2 assms(3)] mem snd by (cases "scr_abs s") simp
  next
    case 3
    then show ?thesis
      using scr_replace_abs(2,3) [OF assms(1,2) 3 assms(3)] mem snd by (cases "scr_abs s") simp
  qed
qed

lemma scr_miss_total:
  assumes "scr_inv n s" and "r \<notin> set (scr_queue s)"
  shows "\<exists>s'. scr_step n i r s = Some s' \<and> length (scr_queue s') = length (scr_queue s) \<and>
         scr_fault s' = Suc (scr_fault s)"
proof (cases "scr_number s < n")
  case True
  then show ?thesis using scr_fill_step [OF assms, of i] by auto
next
  case False
  then have "n \<le> scr_number s" by simp
  then show ?thesis by (rule scr_replace [OF assms, of i]) simp
qed

interpretation scr: demand_paging "scr_step n" "\<lambda>i r. r \<noteq> -1" "scr_inv n" scr_queue scr_fault for n
proof (unfold_locales, goal_cases)
  case (1 s i r)
  have "\<exists>s'. scr_step n i r s = Some s' \<and> length (scr_queue s') = length (scr_queue s)"
  proof (cases "r \<in> set (scr_queue s)")
    case True
    then show ?thesis by (rule scr_hit [OF 1, of i]) simp
  next
    case False
    then show ?thesis using scr_miss_total [OF 1(1), of r i] by auto
  qed
  with 1 scr_step_refines(1) show ?case by blast
next
  case (2 s i r s')
  then show ?case using scr_hit_abs(2,3) [OF 2] by (simp add: scr_abs_def)
next
  case (3 s i r s')
  then show ?case using scr_miss_total [OF 3(1,3), of i] by auto
next
  case (4 i r)
  then show ?case by simp
next
  case (5 s)
  then show ?case by (simp add: scr_inv_def)
next
  case (6 s i r s')
  show ?case
  proof (cases "scr_number s < n")
    case True
    then have "scr_queue s' = (scr_queue s)[scr_number s := r]"
      using scr_fill_step [OF 6(1,3) True, of i] 6(4) by auto
    with True 6(1) show ?thesis
      using set_update_subset_insert [of "scr_queue s" "scr_number s" r]
      by (simp add: scr_inv_def set_update_memI)
  next
    case False
    then show ?thesis using scr_replace_abs(4) [OF 6(1-3) _ 6(4)] by simp
  qed
next
  case (7 s i r s')
  then have fill: "scr_number s < n" by (auto simp: scr_inv_def split: if_splits)
  have len: "length (scr_bit s) = length (scr_queue s)" "length (scr_bit s') = length (scr_queue s')"
    using 7(1) scr_fill_abs(1) [OF 7(1-3) fill 7(4)] by (simp_all add: scr_inv_def)
  have "fst ` set (fst (scr_abs s)) \<subseteq> fst ` set (fst (scr_abs s'))"
    using scr_fill_abs(2) [OF 7(1-3) fill 7(4)] by auto
  then show ?case using len by (auto simp: fst_set_scr_abs)
qed

lemma scr_run_abs:
  assumes "scr_inv n s" and "-1 \<notin> snd ` set rs" and "run_refs (scr_step n) rs s = Some s'"
  shows "scr_abs s' = fold (\<lambda>(i, r). scr_spec n r) rs (scr_abs s)"
  using assms
proof (induction rs arbitrary: s)
  case (Cons x rs)
  obtain i r where x: "x = (i, r)" by (cases x)
  from Cons.prems x have r: "r \<noteq> -1" by auto
  with Cons.prems(1) obtain t where t: "scr_step n i r s = Some t" "scr_inv n t"
    using scr.step_obtain [where i = i and r = r] by blast
  with Cons.prems x r Cons.IH [OF t(2)] scr_step_refines(2) [OF Cons.prems(1) r t(1)]
  show ?case by auto
qed simp

end
