(* ===== verification/Paging_LRU.thy ===== *)
theory Paging_LRU
  imports Paging
begin

text \<open>
  The LRU algorithm of assignment 5: the page frames and a stack of pages in order
  of recency (\<open>page_change\<close>, \<open>stack_update\<close>, \<open>LRU\<close>). It is interpreted as a
  \<open>paging\<close> algorithm. It refines the LRU specification as long as no reference hits
  before all frames are in use; a hit in that phase duplicates an entry of the
  stack and drops another one.
\<close>

record lru_state =
  lru_page :: "int list"
  lru_stack :: "int list"
  lru_number :: nat
  lru_fault :: nat
  lru_out :: string

text \<open>
  \<open>for (i = k; i > 0; i--) stack[i] = stack[i - 1]; stack[0] = v;\<close>, the shift that
  \<open>page_change\<close> and two branches of \<open>stack_update\<close> perform.
\<close>

definition shift_push :: "nat \<Rightarrow> int list \<Rightarrow> int \<Rightarrow> int list option" where
  "shift_push k stack v = do {
     stack' \<leftarrow> for_downto k (\<lambda>i st. do { x \<leftarrow> rd st (i - 1); wr st i x }) stack;
     wr stack' 0 v }"

text \<open>The scan of \<open>page_change\<close> for the frame that holds \<open>stack[page_frame - 1]\<close>.\<close>

function evict_from :: "nat \<Rightarrow> nat \<Rightarrow> int list \<Rightarrow> int list \<Rightarrow> int \<Rightarrow> int list option" where
  "evict_from i page_frame page stack r =
     (if i < page_frame
      then do {
        x \<leftarrow> rd page i;
        y \<leftarrow> rd stack (page_frame - 1);
        if x = y then wr page i r else evict_from (Suc i) page_frame page stack r }
      else Some page)"
  by pat_completeness auto
termination
  by (relation "measure (\<lambda>(i, n, _). n - i)") auto

declare evict_from.simps [simp del]

definition page_change ::
    "nat \<Rightarrow> int list \<Rightarrow> int list \<Rightarrow> nat \<Rightarrow> int \<Rightarrow> (int list \<times> int list) option" where
  "page_change page_frame page stack stack_number r =
     (if stack_number < page_frame
      then do { page' \<leftarrow> wr page stack_number r; Some (page', stack) }
      else do {
        page' \<leftarrow> evict_from 0 page_frame page stack r;
        stack' \<leftarrow> shift_push (page_frame - 1) stack r;
        Some (page', stack') })"

definition stack_update :: "nat \<Rightarrow> int list \<Rightarrow> nat \<Rightarrow> int \<Rightarrow> int list option" where
  "stack_update page_frame stack stack_number r =
     (if stack_number < page_frame then shift_push stack_number stack r
      else do {
        found \<leftarrow> find_page page_frame stack r;
        if found then do {
          indx \<leftarrow> slot_from 0 page_frame stack r;
          tmp \<leftarrow> rd stack indx;
          shift_push indx stack tmp }
        else do {
          stack' \<leftarrow> for_upto 1 page_frame (\<lambda>i st. do { x \<leftarrow> rd st (i - 1); wr st i x }) stack;
          wr stack' 0 r } })"

definition lru_step :: "nat \<Rightarrow> nat \<Rightarrow> int \<Rightarrow> lru_state \<Rightarrow> lru_state option" where
  "lru_step page_frame i r s = do {
     hit \<leftarrow> find_page page_frame (lru_page s) r;
     if hit then do {
       stack' \<leftarrow> stack_update page_frame (lru_stack s) (lru_number s) r;
       Some (s\<lparr>lru_stack := stack', lru_out := lru_out s @ print_row i (lru_page s) False\<rparr>) }
     else do {
       (page', stack') \<leftarrow> page_change page_frame (lru_page s) (lru_stack s) (lru_number s) r;
       stack'' \<leftarrow> stack_update page_frame stack' (lru_number s) r;
       Some (s\<lparr>lru_page := page', lru_stack := stack'', lru_number := lru_number s + 1,
               lru_fault := lru_fault s + 1, lru_out := lru_out s @ print_row i page' True\<rparr>) } }"

definition lru_start :: "nat \<Rightarrow> ref_mem \<Rightarrow> lru_state" where
  "lru_start page_frame mem =
     \<lparr>lru_page = replicate page_frame (-1), lru_stack = replicate page_frame (-1),
      lru_number = 0, lru_fault = 0, lru_out = print_header ''LRU'' mem page_frame\<rparr>"

definition LRU :: "nat \<Rightarrow> ref_mem \<Rightarrow> lru_state option" where
  "LRU page_frame mem = do {
     s \<leftarrow> ref_loop (lru_step page_frame) mem 0 (lru_start page_frame mem);
     Some (s\<lparr>lru_out := lru_out s @ print_footer (lru_fault s)\<rparr>) }"

section \<open>Specification: the resident pages, most recently used first\<close>

fun lru_spec :: "nat \<Rightarrow> int \<Rightarrow> int list \<times> nat \<Rightarrow> int list \<times> nat" where
  "lru_spec n r (q, k) =
     (if r \<in> set q then (r # remove1 r q, k)
      else if length q < n then (r # q, Suc k)
      else (r # butlast q, Suc k))"

section \<open>The operations on the arrays\<close>

lemma shift_loop:
  "k < length st \<Longrightarrow>
   for_downto k (\<lambda>i st. do { x \<leftarrow> rd st (i - 1); wr st i x }) st =
   Some (st ! 0 # take k st @ drop (Suc k) st)"
proof (induction k arbitrary: st)
  case 0
  then show ?case by (cases st) auto
next
  case (Suc k)
  let ?st = "st[Suc k := st ! k]"
  have step: "do { x \<leftarrow> rd st (Suc k - 1); wr st (Suc k) x } = Some ?st" using Suc.prems by simp
  have "take k ?st = take k st" "drop (Suc k) ?st = st ! k # drop (Suc (Suc k)) st" "?st ! 0 = st ! 0"
    using Suc.prems by (auto simp: Cons_nth_drop_Suc [symmetric] drop_update_swap)
  then have "?st ! 0 # take k ?st @ drop (Suc k) ?st = st ! 0 # take (Suc k) st @ drop (Suc (Suc k)) st"
    using Suc.prems by (simp add: take_Suc_conv_app_nth)
  then show ?case using Suc.IH [of ?st] Suc.prems step by simp
qed

lemma shift_push_eq:
  "k < length st \<Longrightarrow> shift_push k st v = Some (v # take k st @ drop (Suc k) st)"
  using shift_loop [of k st] by (simp add: shift_push_def)

lemma evict_from_total:
  assumes "length page = n" and "length stack = n"
  shows "\<exists>page'. evict_from i n page stack r = Some page' \<and> length page' = n"
  using assms
proof (induction i n page stack r rule: evict_from.induct)
  case (1 i n page stack r)
  then show ?case by (subst evict_from.simps) (cases "i < n"; cases "page ! i = stack ! (n - 1)"; simp)
qed

lemma stack_update_total:
  assumes "length stack = n" and "0 < n"
  shows "\<exists>stack'. stack_update n stack k r = Some stack' \<and> length stack' = n"
proof -
  have up: "\<exists>t. for_upto 1 n (\<lambda>i st. do { x \<leftarrow> rd st (i - 1); wr st i x }) stack = Some t \<and> length t = n"
    by (rule for_upto_rule [where I = "\<lambda>_ t. length t = n"]) (use assms in auto)
  have "\<exists>j. slot_from 0 n stack r = Some j \<and> j < n" if "r \<in> set stack"
    using that slot_from_mem [OF assms(1)] assms(1) by (metis in_set_conv_nth le0)
  with up assms show ?thesis by (auto simp: stack_update_def shift_push_eq)
qed

definition lru_inv :: "nat \<Rightarrow> lru_state \<Rightarrow> bool" where
  "lru_inv n s \<longleftrightarrow> 0 < n \<and> length (lru_page s) = n \<and> length (lru_stack s) = n"

lemma lru_start_inv: "0 < n \<Longrightarrow> lru_inv n (lru_start n mem)"
  by (simp add: lru_inv_def lru_start_def)

lemma page_change_total:
  assumes "0 < n" and "length page = n" and "length stack = n"
  shows "\<exists>page' stack'. page_change n page stack k r = Some (page', stack') \<and>
           length page' = n \<and> length stack' = n"
  using evict_from_total [OF assms(2,3), of 0 r] assms by (auto simp: page_change_def shift_push_eq)

interpretation lru: paging "lru_step n" "\<lambda>i r. r \<noteq> -1" "lru_inv n" lru_page lru_fault for n
proof (unfold_locales, goal_cases)
  case (1 s i r)
  then have n: "0 < n" "length (lru_page s) = n" "length (lru_stack s) = n" by (auto simp: lru_inv_def)
  show ?case
  proof (cases "r \<in> set (lru_page s)")
    case True
    with stack_update_total [OF n(3,1), of "lru_number s" r] n show ?thesis
      by (auto simp: lru_step_def lru_inv_def)
  next
    case False
    obtain page' stack' where pc: "page_change n (lru_page s) (lru_stack s) (lru_number s) r = Some (page', stack')"
      "length page' = n" "length stack' = n"
      using page_change_total [OF n] by blast
    with stack_update_total [OF pc(3) n(1), of "lru_number s" r] False n show ?thesis
      by (auto simp: lru_step_def lru_inv_def)
  qed
next
  case (2 s i r s')
  then show ?case by (auto simp: lru_step_def lru_inv_def split: Option.bind_splits)
next
  case (3 s i r s')
  then show ?case by (auto simp: lru_step_def lru_inv_def split: Option.bind_splits)
qed

section \<open>Refinement of the specification\<close>

text \<open>While the frames are filled by faults only, the stack is the reverse of the frames.\<close>

definition lru_fill :: "nat \<Rightarrow> lru_state \<Rightarrow> bool" where
  "lru_fill n s \<longleftrightarrow> 0 < n \<and> (\<exists>ps. length ps = lru_number s \<and> length ps \<le> n \<and> distinct ps \<and> -1 \<notin> set ps \<and>
     lru_page s = ps @ replicate (n - length ps) (-1) \<and>
     lru_stack s = rev ps @ replicate (n - length ps) (-1))"

definition lru_full :: "nat \<Rightarrow> lru_state \<Rightarrow> bool" where
  "lru_full n s \<longleftrightarrow> 0 < n \<and> n \<le> lru_number s \<and> length (lru_page s) = n \<and> length (lru_stack s) = n \<and>
     distinct (lru_page s) \<and> distinct (lru_stack s) \<and>
     set (lru_stack s) = set (lru_page s) \<and> -1 \<notin> set (lru_page s)"

definition lru_abs :: "lru_state \<Rightarrow> int list \<times> nat" where
  "lru_abs s = (filter (\<lambda>p. p \<noteq> -1) (lru_stack s), lru_fault s)"

lemma lru_fill_full: "lru_fill n s \<Longrightarrow> lru_number s = n \<Longrightarrow> lru_full n s"
  by (auto simp: lru_fill_def lru_full_def)

lemma filter_page: "-1 \<notin> set ps \<Longrightarrow> filter (\<lambda>p. p \<noteq> -1) ps = (ps :: int list)"
  by (auto intro: filter_True)

lemma lru_fill_step:
  assumes "lru_fill n s" and "lru_number s < n" and "r \<noteq> -1" and "r \<notin> set (lru_page s)"
  obtains s' where "lru_step n i r s = Some s'" and "lru_fill n s'" and "lru_number s' = Suc (lru_number s)"
    and "lru_abs s' = lru_spec n r (lru_abs s)"
    and "set (lru_page s') - {-1} = insert r (set (lru_page s) - {-1})"
proof -
  let ?k = "lru_number s"
  obtain ps where ps: "length ps = ?k" "distinct ps" "-1 \<notin> set ps"
    "lru_page s = ps @ replicate (n - ?k) (-1)" "lru_stack s = rev ps @ replicate (n - ?k) (-1)"
    using assms(1) by (auto simp: lru_fill_def)
  have m: "n - ?k = Suc (n - Suc ?k)" using assms(2) by simp
  let ?p = "(ps @ [r]) @ replicate (n - Suc ?k) (-1)" and ?t = "rev (ps @ [r]) @ replicate (n - Suc ?k) (-1)"
  have page: "wr (lru_page s) ?k r = Some ?p"
    using ps(1) m by (simp add: ps(4) list_update_append)
  have stack: "shift_push ?k (lru_stack s) r = Some ?t"
    using ps(1) m assms(2) by (simp add: shift_push_eq ps(5))
  define s' where "s' = s\<lparr>lru_page := ?p, lru_stack := ?t, lru_number := Suc ?k,
     lru_fault := Suc (lru_fault s), lru_out := lru_out s @ print_row i ?p True\<rparr>"
  have len: "length (lru_page s) = n" using ps(1,4) assms(2) by simp
  have 1: "lru_step n i r s = Some s'"
    using assms(2,4) page stack len
    by (simp add: lru_step_def page_change_def stack_update_def s'_def del: append_assoc)
  have 2: "lru_fill n s'"
    unfolding lru_fill_def using assms ps(1,2,3) ps(4)
    by (intro conjI exI [of _ "ps @ [r]"]) (auto simp: s'_def)
  have "r \<notin> set ps" using assms(4) ps(4) by simp
  then have 3: "lru_abs s' = lru_spec n r (lru_abs s)"
    using ps(1,3) assms(2,3) by (simp add: lru_abs_def ps(5) s'_def filter_page)
  have 4: "set (lru_page s') - {-1} = insert r (set (lru_page s) - {-1})"
    using ps(3,4) assms(3) by (auto simp: s'_def)
  show thesis by (rule that [OF 1 2 _ 3 4]) (simp add: s'_def)
qed

lemma evict_from_found:
  assumes "length page = n" and "length stack = n" and "distinct page"
    and "i \<le> j" and "j < n" and "page ! j = stack ! (n - 1)"
  shows "evict_from i n page stack r = Some (page[j := r])"
  using assms
proof (induction i n page stack r rule: evict_from.induct)
  case (1 i n page stack r)
  have rd: "i < n" "rd page i = Some (page ! i)" "rd stack (n - 1) = Some (stack ! (n - 1))"
    using "1.prems" by auto
  show ?case
  proof (cases "i = j")
    case True
    then show ?thesis using rd "1.prems" by (subst evict_from.simps) simp
  next
    case False
    with "1.prems" have "page ! i \<noteq> stack ! (n - 1)" by (metis nth_eq_iff_index_eq rd(1))
    with False rd "1.prems" "1.IH" [of "page ! i" "stack ! (n - 1)"] show ?thesis
      by (subst evict_from.simps) simp
  qed
qed

lemma remove1_nth: "distinct xs \<Longrightarrow> j < length xs \<Longrightarrow> remove1 (xs ! j) xs = take j xs @ drop (Suc j) xs"
proof (induction xs arbitrary: j)
  case (Cons x xs)
  then show ?case by (cases j) auto
qed simp

lemma stack_update_top:
  assumes "length stack = n" and "0 < n" and "n \<le> k" and "distinct stack" and "r \<in> set stack"
  shows "stack_update n stack k r = Some (r # remove1 r stack)"
proof -
  obtain j where j: "slot_from 0 n stack r = Some j" "j < n" "stack ! j = r"
    using slot_from_exists [OF assms(1,5,4)] by blast
  then show ?thesis
    using assms remove1_nth [OF assms(4), of j] by (simp add: stack_update_def shift_push_eq)
qed

lemma lru_full_hit:
  assumes "lru_full n s" and "r \<in> set (lru_page s)"
  obtains s' where "lru_step n i r s = Some s'" and "lru_full n s'"
    and "lru_abs s' = lru_spec n r (lru_abs s)"
proof -
  have n: "0 < n" "n \<le> lru_number s" "length (lru_page s) = n" "length (lru_stack s) = n"
      "distinct (lru_stack s)" "set (lru_stack s) = set (lru_page s)" "-1 \<notin> set (lru_stack s)"
    using assms(1) by (auto simp: lru_full_def)
  have r: "r \<in> set (lru_stack s)" using assms(2) n by simp
  define s' where "s' = s\<lparr>lru_stack := r # remove1 r (lru_stack s),
     lru_out := lru_out s @ print_row i (lru_page s) False\<rparr>"
  have 1: "lru_step n i r s = Some s'"
    using assms(2) n r by (simp add: lru_step_def stack_update_top s'_def)
  have 2: "lru_full n s'"
    using assms(1) r n by (auto simp: lru_full_def s'_def length_remove1)
  have "-1 \<notin> set (r # remove1 r (lru_stack s))" using n(7) r by (auto dest: notin_set_remove1)
  then have 3: "lru_abs s' = lru_spec n r (lru_abs s)"
    using r n(7) by (simp add: lru_abs_def s'_def filter_page)
  show thesis by (rule that [OF 1 2 3])
qed

lemma lru_full_miss:
  assumes "lru_full n s" and "r \<noteq> -1" and "r \<notin> set (lru_page s)"
  obtains s' where "lru_step n i r s = Some s'" and "lru_full n s'"
    and "lru_abs s' = lru_spec n r (lru_abs s)"
proof -
  let ?p = "lru_page s" and ?t = "lru_stack s"
  have n: "0 < n" "n \<le> lru_number s" "length ?p = n" "length ?t = n" "distinct ?p"
      "distinct ?t" "set ?t = set ?p" "-1 \<notin> set ?t" "?t \<noteq> []"
    using assms(1) by (auto simp: lru_full_def)
  have "?t ! (n - 1) \<in> set ?p" using n by (metis diff_less nth_mem zero_less_one)
  then obtain j where j: "j < n" "?p ! j = ?t ! (n - 1)" using n(3) by (auto simp: in_set_conv_nth)
  have ev: "evict_from 0 n ?p ?t r = Some (?p[j := r])"
    using evict_from_found [OF n(3,4,5)] j by simp
  have sh: "shift_push (n - 1) ?t r = Some (r # butlast ?t)"
    using n(1,4) by (simp add: shift_push_eq butlast_conv_take)
  have last: "last ?t = ?p ! j" using j n by (simp add: last_conv_nth)
  have tt: "?t = butlast ?t @ [?p ! j]" using n(9) last by (metis append_butlast_last_id)
  have dist: "distinct (r # butlast ?t)"
    using n(6,7) assms(3) by (auto simp: distinct_butlast dest: in_set_butlastD)
  have su: "stack_update n (r # butlast ?t) (lru_number s) r = Some (r # butlast ?t)"
    using stack_update_top [of "r # butlast ?t" n "lru_number s" r] n dist by simp
  define s' where "s' = s\<lparr>lru_page := ?p[j := r], lru_stack := r # butlast ?t,
     lru_number := Suc (lru_number s), lru_fault := Suc (lru_fault s),
     lru_out := lru_out s @ print_row i (?p[j := r]) True\<rparr>"
  have 1: "lru_step n i r s = Some s'"
    using assms(3) n(2,3) ev sh su by (simp add: lru_step_def page_change_def s'_def)
  have "?p ! j \<notin> set (butlast ?t)" using n(6) tt by (metis distinct_append disjoint_insert(1) list.set(2))
  then have "set (butlast ?t) = set ?p - {?p ! j}" using n(7) tt by (metis Diff_insert_absorb Un_insert_right
        list.set(1) list.set(2) set_append sup_bot.right_neutral)
  then have sets: "set (r # butlast ?t) = set (?p[j := r])"
    using n(3,5) j by (simp add: set_update_distinct)
  have 2: "lru_full n s'"
    using n dist sets assms(2,3) distinct_list_update [OF n(5), of r j]
      set_update_subset_insert [of ?p j r] by (auto simp: lru_full_def s'_def)
  have "-1 \<notin> set (butlast ?t)" using n(8) by (auto dest: in_set_butlastD)
  then have 3: "lru_abs s' = lru_spec n r (lru_abs s)"
    using assms(2,3) n by (simp add: lru_abs_def s'_def filter_page)
  show thesis by (rule that [OF 1 2 3])
qed

lemma lru_run_full:
  assumes "lru_full n s" and "-1 \<notin> snd ` set rs"
  shows "\<exists>s'. run_refs (lru_step n) rs s = Some s' \<and> lru_full n s' \<and>
           lru_abs s' = fold (\<lambda>(i, r). lru_spec n r) rs (lru_abs s)"
  using assms
proof (induction rs arbitrary: s)
  case (Cons x rs)
  obtain i r where x: "x = (i, r)" by (cases x)
  from Cons.prems x have r: "r \<noteq> -1" by auto
  obtain t where t: "lru_step n i r s = Some t" "lru_full n t" "lru_abs t = lru_spec n r (lru_abs s)"
    using lru_full_hit [OF Cons.prems(1), of r i] lru_full_miss [OF Cons.prems(1) r, of i] by metis
  with Cons.IH [OF t(2)] Cons.prems(2) x show ?case by auto
qed simp

lemma lru_run_fill:
  assumes "lru_fill n s" and "lru_number s + length rs \<le> n" and "-1 \<notin> snd ` set rs"
    and "distinct (map snd rs)" and "snd ` set rs \<inter> (set (lru_page s) - {-1}) = {}"
  shows "\<exists>s'. run_refs (lru_step n) rs s = Some s' \<and> lru_fill n s' \<and>
           lru_number s' = lru_number s + length rs \<and>
           lru_abs s' = fold (\<lambda>(i, r). lru_spec n r) rs (lru_abs s)"
  using assms
proof (induction rs arbitrary: s)
  case (Cons x rs)
  obtain i r where x: "x = (i, r)" by (cases x)
  from Cons.prems x have r: "r \<noteq> -1" "r \<notin> set (lru_page s)" "lru_number s < n" by auto
  obtain t where t: "lru_step n i r s = Some t" "lru_fill n t" "lru_number t = Suc (lru_number s)"
      "lru_abs t = lru_spec n r (lru_abs s)"
      "set (lru_page t) - {-1} = insert r (set (lru_page s) - {-1})"
    by (rule lru_fill_step [OF Cons.prems(1) r(3,1,2)])
  have "r \<notin> snd ` set rs" using Cons.prems(4) x by force
  then have "snd ` set rs \<inter> (set (lru_page t) - {-1}) = {}" using Cons.prems(5) x t(5) by auto
  then have "\<exists>u. run_refs (lru_step n) rs t = Some u \<and> lru_fill n u \<and>
      lru_number u = lru_number t + length rs \<and> lru_abs u = fold (\<lambda>(i, r). lru_spec n r) rs (lru_abs t)"
    using Cons.IH [OF t(2)] Cons.prems t(3) x by auto
  with t x show ?case by auto
qed simp

lemma lru_start_fill: "0 < n \<Longrightarrow> lru_fill n (lru_start n mem)"
  by (auto simp: lru_fill_def lru_start_def)

lemma lru_start_abs: "lru_abs (lru_start n mem) = ([], 0)"
  by (simp add: lru_abs_def lru_start_def)

lemma lru_abs_pages: "lru_fill n s \<or> lru_full n s \<Longrightarrow> set (fst (lru_abs s)) = set (lru_page s) - {-1}"
  by (auto simp: lru_fill_def lru_full_def lru_abs_def)

lemma lru_run_spec:
  assumes "0 < n" and "-1 \<notin> snd ` set rs" and "distinct (map snd (take n rs))"
  shows "\<exists>s'. run_refs (lru_step n) rs (lru_start n mem) = Some s' \<and>
           lru_abs s' = fold (\<lambda>(i, r). lru_spec n r) rs ([], 0) \<and>
           set (lru_page s') - {-1} = set (fst (lru_abs s'))"
proof -
  have "-1 \<notin> snd ` set (take n rs)" "-1 \<notin> snd ` set (drop n rs)"
    using assms(2) by (auto dest: in_set_takeD in_set_dropD)
  moreover have "lru_number (lru_start n mem) = 0" "set (lru_page (lru_start n mem)) - {-1} = {}"
    by (auto simp: lru_start_def)
  ultimately obtain t where t: "run_refs (lru_step n) (take n rs) (lru_start n mem) = Some t" "lru_fill n t"
      "lru_number t = length (take n rs)" "lru_abs t = fold (\<lambda>(i, r). lru_spec n r) (take n rs) ([], 0)"
    using lru_run_fill [OF lru_start_fill [OF assms(1)], of mem "take n rs"] assms(3)
    by (auto simp: lru_start_abs)
  have "\<exists>s'. run_refs (lru_step n) (drop n rs) t = Some s' \<and> (lru_fill n s' \<or> lru_full n s') \<and>
      lru_abs s' = fold (\<lambda>(i, r). lru_spec n r) (drop n rs) (lru_abs t)"
  proof (cases "length rs \<le> n")
    case True
    with t show ?thesis by simp
  next
    case False
    then have "lru_full n t" using t lru_fill_full by simp
    with lru_run_full \<open>-1 \<notin> snd ` set (drop n rs)\<close> show ?thesis by blast
  qed
  then obtain s' where s': "run_refs (lru_step n) (drop n rs) t = Some s'" "lru_fill n s' \<or> lru_full n s'"
      "lru_abs s' = fold (\<lambda>(i, r). lru_spec n r) (drop n rs) (lru_abs t)" by blast
  have "run_refs (lru_step n) rs (lru_start n mem) = Some s'"
    using run_refs_append [of "lru_step n" "take n rs" "drop n rs" "lru_start n mem"] t(1) s'(1) by simp
  moreover have "lru_abs s' = fold (\<lambda>(i, r). lru_spec n r) rs ([], 0)"
    using s'(3) t(4) fold_append [of "\<lambda>(i, r). lru_spec n r" "take n rs" "drop n rs"] by simp
  ultimately show ?thesis using lru_abs_pages [OF s'(2)] by simp
qed

end
