(* ===== verification/Paging_OPT.thy ===== *)
theory Paging_OPT
  imports Paging
begin

text \<open>
  The OPT algorithm of assignment 5: the table \<open>arr\<close> of distances to the next use,
  the choice of the victim (\<open>vector_update\<close>) and \<open>OPT\<close>. The lookups read
  \<open>page_reference\<close> as ints, \<open>vector_update\<close> reads the same buffer as chars.

  The first loop of \<open>OPT\<close> reads \<open>page_reference[32]\<close> to \<open>page_reference[60]\<close>, beyond
  the array; the parameter \<open>oob\<close> is what those reads return (in outer iteration \<open>i\<close>,
  at index \<open>k\<close>), and the printed result is shown not to depend on it.
\<close>

record opt_state =
  opt_vector :: "int list"
  opt_arr :: "int list"
  opt_number :: nat
  opt_fault :: nat
  opt_out :: string

definition ref_view :: "(nat \<Rightarrow> nat \<Rightarrow> int) \<Rightarrow> ref_mem \<Rightarrow> nat \<Rightarrow> nat \<Rightarrow> int" where
  "ref_view oob mem i k = (case rd_int mem k of Some v \<Rightarrow> v | None \<Rightarrow> oob i k)"

text \<open>The inner loop of the first part: how far away the next use of reference \<open>i\<close> is.\<close>

function opt_cnt :: "(nat \<Rightarrow> nat \<Rightarrow> int) \<Rightarrow> ref_mem \<Rightarrow> nat \<Rightarrow> nat \<Rightarrow> int \<Rightarrow> int" where
  "opt_cnt oob mem i j cnt =
     (if j < 62
      then if ref_view oob mem i j = 0 \<or> ref_view oob mem i i = ref_view oob mem i j then cnt
           else opt_cnt oob mem i (j + 2) (cnt + 1)
      else cnt)"
  by pat_completeness auto
termination
  by (relation "measure (\<lambda>(_, _, _, j, _). 62 - j)") auto

declare opt_cnt.simps [simp del]

definition opt_init :: "(nat \<Rightarrow> nat \<Rightarrow> int) \<Rightarrow> ref_mem \<Rightarrow> int list \<Rightarrow> int list option" where
  "opt_init oob mem arr =
     for_upto 0 31 (\<lambda>t arr. wr arr t (opt_cnt oob mem (2 * t) (2 * t + 2) 1)) arr"

text \<open>Is reference \<open>j\<close> used again at one of \<open>k, k + 2, \<dots>, i\<close>?\<close>

function opt_again :: "ref_mem \<Rightarrow> nat \<Rightarrow> nat \<Rightarrow> nat \<Rightarrow> bool option" where
  "opt_again mem j k i =
     (if k \<le> i
      then do {
        vj \<leftarrow> rd_int mem j;
        vk \<leftarrow> rd_int mem k;
        if vj = vk then Some True else opt_again mem j (k + 2) i }
      else Some False)"
  by pat_completeness auto
termination
  by (relation "measure (\<lambda>(_, _, k, i). Suc i - k)") auto

declare opt_again.simps [simp del]

definition opt_kill :: "ref_mem \<Rightarrow> nat \<Rightarrow> int list \<Rightarrow> int list option" where
  "opt_kill mem i arr =
     for_upto 0 (i div 2) (\<lambda>t arr. do {
       again \<leftarrow> opt_again mem (2 * t) (2 * t + 2) i;
       if again then wr arr t (-1) else Some arr }) arr"

definition opt_age :: "nat \<Rightarrow> int list \<Rightarrow> int list option" where
  "opt_age i arr =
     for_upto 0 (i div 2) (\<lambda>j arr. do {
       x \<leftarrow> rd arr j;
       if x > 1 then wr arr j (x - 1) else Some arr }) arr"

definition max_indx :: "nat \<Rightarrow> int list \<Rightarrow> nat option" where
  "max_indx indx arr =
     for_upto 0 (indx div 2) (\<lambda>i m. do {
       x \<leftarrow> rd arr m;
       y \<leftarrow> rd arr i;
       Some (if x < y then i else m) }) 0"

definition vector_update ::
    "nat \<Rightarrow> ref_mem \<Rightarrow> int list \<Rightarrow> int list \<Rightarrow> nat \<Rightarrow> nat \<Rightarrow> (int list \<times> int list) option" where
  "vector_update page_frame mem arr vector vector_number indx =
     (if vector_number < page_frame
      then do {
        c \<leftarrow> rd mem indx;
        vector' \<leftarrow> wr vector vector_number (schar c - 48);
        Some (vector', arr) }
      else do {
        m \<leftarrow> max_indx indx arr;
        for_upto 0 page_frame (\<lambda>i (vector, arr). do {
          x \<leftarrow> rd vector i;
          c \<leftarrow> rd mem (m * 2);
          if x = schar c - 48
          then do {
            d \<leftarrow> rd mem indx;
            vector' \<leftarrow> wr vector i (schar d - 48);
            arr' \<leftarrow> wr arr m (-1);
            Some (vector', arr') }
          else Some (vector, arr) }) (vector, arr) })"

definition opt_step :: "nat \<Rightarrow> ref_mem \<Rightarrow> nat \<Rightarrow> int \<Rightarrow> opt_state \<Rightarrow> opt_state option" where
  "opt_step page_frame mem i r s = do {
     arr1 \<leftarrow> opt_kill mem i (opt_arr s);
     arr2 \<leftarrow> opt_age i arr1;
     hit \<leftarrow> find_page page_frame (opt_vector s) r;
     if hit
     then Some (s\<lparr>opt_arr := arr2, opt_out := opt_out s @ print_row i (opt_vector s) False\<rparr>)
     else do {
       (vector', arr3) \<leftarrow> vector_update page_frame mem arr2 (opt_vector s) (opt_number s) i;
       Some (s\<lparr>opt_vector := vector', opt_arr := arr3, opt_number := opt_number s + 1,
               opt_fault := opt_fault s + 1, opt_out := opt_out s @ print_row i vector' True\<rparr>) } }"

definition opt_start :: "nat \<Rightarrow> ref_mem \<Rightarrow> int list \<Rightarrow> opt_state" where
  "opt_start page_frame mem arr =
     \<lparr>opt_vector = replicate page_frame (-1), opt_arr = arr, opt_number = 0, opt_fault = 0,
      opt_out = print_header ''OPT'' mem page_frame\<rparr>"

definition OPT :: "(nat \<Rightarrow> nat \<Rightarrow> int) \<Rightarrow> nat \<Rightarrow> ref_mem \<Rightarrow> int list \<Rightarrow> opt_state option" where
  "OPT oob page_frame mem arr = do {
     arr' \<leftarrow> opt_init oob mem arr;
     s \<leftarrow> ref_loop (opt_step page_frame mem) mem 0 (opt_start page_frame mem arr');
     Some (s\<lparr>opt_out := opt_out s @ print_footer (opt_fault s)\<rparr>) }"

section \<open>The steps stay inside the arrays\<close>

definition opt_inv :: "nat \<Rightarrow> ref_mem \<Rightarrow> opt_state \<Rightarrow> bool" where
  "opt_inv n mem s \<longleftrightarrow> length mem = 124 \<and> length (opt_vector s) = n \<and> length (opt_arr s) = 31"

lemma opt_again_total:
  assumes "length mem = 124" and "i \<le> 30" and "j \<le> 30"
  shows "\<exists>b. opt_again mem j k i = Some b"
  using assms
proof (induction mem j k i rule: opt_again.induct)
  case (1 mem j k i)
  show ?case
  proof (cases "k \<le> i")
    case True
    with "1.prems" obtain vj vk where v: "rd_int mem j = Some vj" "rd_int mem k = Some vk"
      by (simp add: rd_int_in)
    with "1.IH" [OF True v] "1.prems" True show ?thesis by (subst opt_again.simps) auto
  next
    case False
    then have "opt_again mem j k i = Some False" by (subst opt_again.simps) simp
    then show ?thesis by blast
  qed
qed

lemma opt_kill_total:
  assumes "length mem = 124" and "i \<le> 30" and "length arr = 31"
  shows "\<exists>arr'. opt_kill mem i arr = Some arr' \<and> length arr' = 31"
  unfolding opt_kill_def
proof (rule for_upto_rule [where I = "\<lambda>_ a. length a = 31"])
  fix k :: nat and t :: "int list" assume k: "k < i div 2" and t: "length t = 31"
  from k assms(2) have "2 * k \<le> 30" by linarith
  then obtain b where "opt_again mem (2 * k) (2 * k + 2) i = Some b"
    using opt_again_total [OF assms(1,2)] by blast
  with k t assms(2) show "\<exists>t'. do { again \<leftarrow> opt_again mem (2 * k) (2 * k + 2) i;
      if again then wr t k (-1) else Some t } = Some t' \<and> length t' = 31" by auto
qed (use assms in auto)

lemma opt_age_total:
  assumes "i \<le> 30" and "length arr = 31"
  shows "\<exists>arr'. opt_age i arr = Some arr' \<and> length arr' = 31"
  unfolding opt_age_def
  by (rule for_upto_rule [where I = "\<lambda>_ a. length a = 31"]) (use assms in auto)

lemma max_indx_total:
  assumes "i \<le> 30" and "length arr = 31"
  shows "\<exists>m. max_indx i arr = Some m \<and> m \<le> i div 2"
  unfolding max_indx_def
  by (rule for_upto_rule [where I = "\<lambda>_ m. m \<le> i div 2"]) (use assms in auto)

lemma vector_update_total:
  assumes "length mem = 124" and "i \<le> 30" and "length arr = 31" and "length vector = n"
  shows "\<exists>vector' arr'. vector_update n mem arr vector k i = Some (vector', arr') \<and>
           length vector' = n \<and> length arr' = 31"
proof (cases "k < n")
  case True
  with assms show ?thesis by (simp add: vector_update_def)
next
  case False
  obtain m where m: "max_indx i arr = Some m" "m \<le> i div 2" using max_indx_total assms by blast
  have "\<exists>p. for_upto 0 n (\<lambda>i' (vector, arr). do {
          x \<leftarrow> rd vector i';
          c \<leftarrow> rd mem (m * 2);
          if x = schar c - 48
          then do {
            d \<leftarrow> rd mem i;
            vector' \<leftarrow> wr vector i' (schar d - 48);
            arr' \<leftarrow> wr arr m (-1);
            Some (vector', arr') }
          else Some (vector, arr) }) (vector, arr) = Some p \<and> length (fst p) = n \<and> length (snd p) = 31"
    by (rule for_upto_rule [where I = "\<lambda>_ p. length (fst p) = n \<and> length (snd p) = 31"])
       (use assms m in auto)
  with m False show ?thesis by (auto simp: vector_update_def)
qed

interpretation opt: paging "opt_step n mem" "\<lambda>i r. i \<le> 30" "opt_inv n mem" opt_vector opt_fault for n mem
proof (unfold_locales, goal_cases)
  case (1 s i r)
  then have s: "length mem = 124" "length (opt_vector s) = n" "length (opt_arr s) = 31"
    by (auto simp: opt_inv_def)
  obtain arr1 where 1: "opt_kill mem i (opt_arr s) = Some arr1" "length arr1 = 31"
    using opt_kill_total [OF s(1) 1(2) s(3)] by blast
  obtain arr2 where 2: "opt_age i arr1 = Some arr2" "length arr2 = 31"
    using opt_age_total [OF \<open>i \<le> 30\<close> 1(2)] by blast
  obtain vector' arr3 where 3: "vector_update n mem arr2 (opt_vector s) (opt_number s) i = Some (vector', arr3)"
      "length vector' = n" "length arr3 = 31"
    using vector_update_total [OF s(1) \<open>i \<le> 30\<close> 2(2) s(2)] by blast
  show ?case using s 1 2 3 by (simp add: opt_step_def opt_inv_def)
next
  case (2 s i r s')
  then show ?case by (auto simp: opt_step_def opt_inv_def split: Option.bind_splits)
next
  case (3 s i r s')
  then show ?case by (auto simp: opt_step_def opt_inv_def split: Option.bind_splits)
qed

section \<open>The bytes beyond the array do not matter\<close>

text \<open>Two distance tables that agree on the entries a run can reach.\<close>

definition arr_agree :: "int list \<Rightarrow> int list \<Rightarrow> bool" where
  "arr_agree a b \<longleftrightarrow> length a = 31 \<and> length b = 31 \<and> take 15 a = take 15 b"

lemma arr_agree_rd: "arr_agree a b \<Longrightarrow> k < 15 \<Longrightarrow> rd a k = rd b k"
  by (auto simp: arr_agree_def rd_def) (metis nth_take)

lemma arr_agree_wr: "arr_agree a b \<Longrightarrow> k < 15 \<Longrightarrow> rel_option arr_agree (wr a k v) (wr b k v)"
  by (auto simp: arr_agree_def take_update_swap)

lemma opt_cnt_oob:
  assumes "length line \<le> 61" and "i \<le> 28" and "even j" and "j \<le> 30"
  shows "opt_cnt oob (page_reference_mem line) i j c = opt_cnt oob' (page_reference_mem line) i j c"
  using assms(3,4)
proof (induction "30 - j" arbitrary: j c rule: less_induct)
  case less
  let ?m = "page_reference_mem line"
  have in_range: "ref_view oob ?m i k = ref_view oob' ?m i k" if "k \<le> 30" for k
    using that assms(1) by (simp add: ref_view_def rd_int_in length_page_reference_mem)
  show ?case
  proof (cases "16 \<le> j")
    case True
    then have "ref_view o' ?m i j = 0" for o'
      using less.prems rd_int_zero [OF assms(1) True] by (simp add: ref_view_def)
    then show ?thesis using less.prems by (simp add: opt_cnt.simps [of _ _ _ j])
  next
    case False
    with less.hyps [of "j + 2"] less.prems in_range assms(2) show ?thesis
      by (simp add: opt_cnt.simps [of _ _ _ j])
  qed
qed

lemma opt_init_agree:
  assumes "length line \<le> 61" and "length arr = 31"
  shows "rel_option arr_agree (opt_init oob (page_reference_mem line) arr)
           (opt_init oob' (page_reference_mem line) arr)"
  unfolding opt_init_def
proof (rule for_upto_sim)
  fix k :: nat and s t :: "int list" assume "k < 31" and st: "arr_agree s t"
  show "rel_option arr_agree
      (wr s k (opt_cnt oob (page_reference_mem line) (2 * k) (2 * k + 2) 1))
      (wr t k (opt_cnt oob' (page_reference_mem line) (2 * k) (2 * k + 2) 1))"
  proof (cases "k < 15")
    case True
    with opt_cnt_oob [OF assms(1), of "2 * k" "2 * k + 2" oob 1 oob'] st show ?thesis
      by (simp add: arr_agree_wr)
  next
    case False
    with st \<open>k < 31\<close> show ?thesis by (auto simp: arr_agree_def)
  qed
qed (use assms in \<open>simp add: arr_agree_def\<close>)

lemma opt_kill_agree:
  assumes "arr_agree a b" and "i \<le> 28"
  shows "rel_option arr_agree (opt_kill mem i a) (opt_kill mem i b)"
  unfolding opt_kill_def
  by (rule for_upto_sim)
     (use assms in \<open>auto intro!: rel_option_bind [where Q = "(=)"] arr_agree_wr simp: option.rel_eq\<close>)

lemma opt_age_agree:
  assumes "arr_agree a b" and "i \<le> 28"
  shows "rel_option arr_agree (opt_age i a) (opt_age i b)"
  unfolding opt_age_def
  by (rule for_upto_sim)
     (use assms in \<open>auto intro!: rel_option_bind [where Q = "(=)"] arr_agree_wr simp: option.rel_eq arr_agree_rd\<close>)

lemma max_indx_agree:
  assumes "arr_agree a b" and "i \<le> 28"
  shows "max_indx i a = max_indx i b"
proof -
  have "rel_option (\<lambda>m m'. m = m' \<and> m < 15) (max_indx i a) (max_indx i b)"
    unfolding max_indx_def
    by (rule for_upto_sim)
       (use assms in \<open>auto intro!: rel_option_bind [where Q = "(=)"] simp: option.rel_eq arr_agree_rd\<close>)
  then show ?thesis by (cases "max_indx i a"; cases "max_indx i b") auto
qed

lemma vector_update_agree:
  assumes "arr_agree a b" and "i \<le> 28"
  shows "rel_option (rel_prod (=) arr_agree)
    (vector_update n mem a v k i) (vector_update n mem b v k i)"
proof (cases "k < n")
  case True
  with assms(1) show ?thesis
    by (auto simp: vector_update_def option.rel_eq intro!: rel_option_bind [where Q = "(=)"])
next
  case False
  have m: "\<exists>m. max_indx i a = Some m \<and> m \<le> i div 2"
    using max_indx_total [of i a] assms by (simp add: arr_agree_def)
  then obtain m where m: "max_indx i a = Some m" "max_indx i b = Some m" "m < 15"
    using max_indx_agree [OF assms] assms(2) by auto
  have "rel_option (rel_prod (=) arr_agree)
     (do { x \<leftarrow> rd u j; c \<leftarrow> rd mem (m * 2); if x = schar c - 48
           then do { d \<leftarrow> rd mem i; u' \<leftarrow> wr u j (schar d - 48); a' \<leftarrow> wr a m (-1); Some (u', a') }
           else Some (u, a) })
     (do { x \<leftarrow> rd u j; c \<leftarrow> rd mem (m * 2); if x = schar c - 48
           then do { d \<leftarrow> rd mem i; u' \<leftarrow> wr u j (schar d - 48); b' \<leftarrow> wr b m (-1); Some (u', b') }
           else Some (u, b) })" if "arr_agree a b" for a b u j
  proof -
    have "m < length a" "m < length b" using that m(3) by (auto simp: arr_agree_def)
    with arr_agree_wr [OF that m(3), of "-1"] that show ?thesis
      by (auto intro!: rel_option_bind [where Q = "(=)"] simp: option.rel_eq)
  qed
  then have "rel_option (rel_prod (=) arr_agree)
     (for_upto 0 n (\<lambda>j (u, a). do { x \<leftarrow> rd u j; c \<leftarrow> rd mem (m * 2); if x = schar c - 48
           then do { d \<leftarrow> rd mem i; u' \<leftarrow> wr u j (schar d - 48); a' \<leftarrow> wr a m (-1); Some (u', a') }
           else Some (u, a) }) (v, a))
     (for_upto 0 n (\<lambda>j (u, a). do { x \<leftarrow> rd u j; c \<leftarrow> rd mem (m * 2); if x = schar c - 48
           then do { d \<leftarrow> rd mem i; u' \<leftarrow> wr u j (schar d - 48); a' \<leftarrow> wr a m (-1); Some (u', a') }
           else Some (u, a) }) (v, b))"
    using assms(1) by (intro for_upto_sim) auto
  with m False show ?thesis by (simp add: vector_update_def)
qed

text \<open>States equal but for the unreachable part of the table.\<close>

definition opt_agree :: "opt_state \<Rightarrow> opt_state \<Rightarrow> bool" where
  "opt_agree s t \<longleftrightarrow> arr_agree (opt_arr s) (opt_arr t) \<and> opt_vector s = opt_vector t \<and>
     opt_number s = opt_number t \<and> opt_fault s = opt_fault t \<and> opt_out s = opt_out t"

lemma opt_step_agree:
  assumes "opt_agree s t" and "i \<le> 28"
  shows "rel_option opt_agree (opt_step n mem i r s) (opt_step n mem i r t)"
proof -
  have eqs: "opt_vector t = opt_vector s" "opt_number t = opt_number s" "opt_fault t = opt_fault s"
      "opt_out t = opt_out s" and arr: "arr_agree (opt_arr s) (opt_arr t)"
    using assms(1) by (auto simp: opt_agree_def)
  show ?thesis
    unfolding opt_step_def eqs
  proof (rule rel_option_bind [OF opt_kill_agree [OF arr assms(2)]],
         rule rel_option_bind [OF opt_age_agree [OF _ assms(2)]], assumption)
    fix a b assume ab: "arr_agree a b"
    show "rel_option opt_agree
      (do { hit \<leftarrow> find_page n (opt_vector s) r;
        if hit then Some (s\<lparr>opt_arr := a, opt_out := opt_out s @ print_row i (opt_vector s) False\<rparr>)
        else do { (v, a') \<leftarrow> vector_update n mem a (opt_vector s) (opt_number s) i;
          Some (s\<lparr>opt_vector := v, opt_arr := a', opt_number := opt_number s + 1,
            opt_fault := opt_fault s + 1, opt_out := opt_out s @ print_row i v True\<rparr>) } })
      (do { hit \<leftarrow> find_page n (opt_vector s) r;
        if hit then Some (t\<lparr>opt_arr := b, opt_out := opt_out s @ print_row i (opt_vector s) False\<rparr>)
        else do { (v, b') \<leftarrow> vector_update n mem b (opt_vector s) (opt_number s) i;
          Some (t\<lparr>opt_vector := v, opt_arr := b', opt_number := opt_number s + 1,
            opt_fault := opt_fault s + 1, opt_out := opt_out s @ print_row i v True\<rparr>) } })"
      by (rule rel_option_bind [where Q = "(=)"])
         (auto simp: option.rel_eq opt_agree_def eqs ab
           intro!: rel_option_bind [OF vector_update_agree [OF ab assms(2)]])
  qed
qed

lemma opt_run_agree:
  assumes "opt_agree s t" and "\<forall>(i, r) \<in> set rs. i \<le> 28"
  shows "rel_option opt_agree (run_refs (opt_step n mem) rs s) (run_refs (opt_step n mem) rs t)"
  using assms
proof (induction rs arbitrary: s t)
  case (Cons x rs)
  obtain i r where x: "x = (i, r)" by (cases x)
  with Cons.prems have "rel_option opt_agree (opt_step n mem i r s) (opt_step n mem i r t)"
    by (intro opt_step_agree) auto
  then show ?case
    unfolding x run_refs.simps using Cons by (auto elim!: rel_option_bind)
qed simp

end
