(* ===== verification/Paging_Main.thy ===== *)
theory Paging_Main
  imports Paging_FIFO Paging_SCR Paging_LRU Paging_OPT
begin

text \<open>
  The \<open>main\<close> of the page replacement simulator (assignment 5) and the properties of
  the whole program: the four algorithms on the buffer that \<open>fgets\<close> fills.
\<close>

datatype paging_result =
    Paging_Exit int string
  | Paging_Output string

text \<open>
  \<open>fopen\<close> is the file system: the contents of a readable file. A negative
  \<open>page_frame\<close> makes \<open>malloc\<close> fail and \<open>memset\<close> write through the null pointer.
\<close>

definition paging_main ::
    "(string \<Rightarrow> string option) \<Rightarrow> (nat \<Rightarrow> nat \<Rightarrow> int) \<Rightarrow> string list \<Rightarrow> paging_result option" where
  "paging_main fopen oob argv =
     (if length argv \<noteq> 2 then Some (Paging_Exit 1 (''input arguments error'' @ [NL]))
      else case fopen (argv ! 1) of
        None \<Rightarrow> Some (Paging_Exit 1 (''file open error : '' @ argv ! 1 @ [NL]))
      | Some content \<Rightarrow>
          (let (page_frame, rest) =
                 (case scan_int content of
                    Some (v, r) \<Rightarrow> (wrap32 v, dropWhile isspace r)
                  | None \<Rightarrow> (0, dropWhile isspace content));
               mem = page_reference_mem (fst (fgets_line 62 rest));
               n = nat page_frame
           in if page_frame < 0 then None
              else do {
                o1 \<leftarrow> OPT oob n mem (replicate 31 0);
                f \<leftarrow> FIFO n mem;
                l \<leftarrow> LRU n mem;
                c \<leftarrow> SCR n mem;
                Some (Paging_Output (opt_out o1 @ fifo_out f @ lru_out l @ scr_out c)) }))"

abbreviation input_mem :: "string \<Rightarrow> ref_mem" where
  "input_mem input \<equiv> page_reference_mem (fst (fgets_line 62 input))"

abbreviation input_refs :: "string \<Rightarrow> (nat \<times> int) list" where
  "input_refs input \<equiv> refs_from (input_mem input) 0"

lemma input_len: "length (fst (fgets_line 62 input)) \<le> 61"
  using length_fgets_line [of 62 input] by simp

lemma input_pages: "CHR ''/'' \<notin> set input \<Longrightarrow> -1 \<notin> snd ` set (input_refs input)"
  using set_fgets_line [of 62 input] by (intro refs_from_page input_len) auto

lemma input_pages_ok: "CHR ''/'' \<notin> set input \<Longrightarrow> \<forall>(i, r) \<in> set (input_refs input). r \<noteq> -1"
  using input_pages [of input] by force

lemma input_loop: "ref_loop step (input_mem input) 0 s = run_refs step (input_refs input) s"
  by (rule ref_loop_run_refs_from [OF input_len]) auto

section \<open>The algorithms on an input line\<close>

lemma abs_out [simp]:
  "fifo_abs (f\<lparr>fifo_out := x\<rparr>) = fifo_abs f"
  "scr_abs (c\<lparr>scr_out := x\<rparr>) = scr_abs c"
  "lru_abs (l\<lparr>lru_out := x\<rparr>) = lru_abs l"
  by (simp_all add: fifo_abs_def scr_abs_def scr_hand_def lru_abs_def)

lemma FIFO_total:
  assumes "0 < n" and "CHR ''/'' \<notin> set input"
  shows "\<exists>s. run_refs (fifo_step n) (input_refs input) (fifo_start n (input_mem input)) = Some s \<and>
           fifo_inv n s \<and>
           FIFO n (input_mem input) = Some (s\<lparr>fifo_out := fifo_out s @ print_footer (fifo_fault s)\<rparr>)"
  using fifo.run_total [OF fifo_start_inv [OF assms(1), of "input_mem input"] input_pages_ok [OF assms(2)]]
  by (auto simp: FIFO_def input_loop)

lemma SCR_total:
  assumes "0 < n" and "CHR ''/'' \<notin> set input"
  shows "\<exists>s. run_refs (scr_step n) (input_refs input) (scr_start n (input_mem input)) = Some s \<and>
           scr_inv n s \<and>
           SCR n (input_mem input) = Some (s\<lparr>scr_out := scr_out s @ print_footer (scr_fault s)\<rparr>)"
  using scr.run_total [OF scr_start_inv [OF assms(1), of "input_mem input"] input_pages_ok [OF assms(2)]]
  by (auto simp: SCR_def input_loop)

text \<open>
  C2. FIFO is a bounded queue: on any input line and any positive number of frames the
  run of \<open>FIFO\<close> ends without leaving its arrays, and the circular array read from the
  cursor, with the fault count, is what the queue specification computes from the
  visited references.
\<close>

theorem fifo_refines_queue:
  assumes "0 < n" and "CHR ''/'' \<notin> set input"
  shows "\<exists>s. FIFO n (input_mem input) = Some s \<and>
           fifo_abs s = fold (\<lambda>(i, r). fifo_spec n r) (input_refs input) ([], 0)"
proof -
  from FIFO_total [OF assms] obtain s where
    s: "run_refs (fifo_step n) (input_refs input) (fifo_start n (input_mem input)) = Some s"
    and F: "FIFO n (input_mem input) = Some (s\<lparr>fifo_out := fifo_out s @ print_footer (fifo_fault s)\<rparr>)"
    by blast
  from fifo_run_abs [OF fifo_start_inv [OF assms(1)] input_pages [OF assms(2)] s]
  have "fifo_abs s = fold (\<lambda>(i, r). fifo_spec n r) (input_refs input) ([], 0)"
    by (simp add: fifo_start_abs)
  with F show ?thesis by simp
qed

theorem fifo_refines_queue_witness:
  "\<exists>s. FIFO 2 (input_mem ''1 2 3 4 5 6 7 8 1 2 1 2'') = Some s \<and>
     fifo_abs s = fold (\<lambda>(i, r). fifo_spec 2 r) (input_refs ''1 2 3 4 5 6 7 8 1 2 1 2'') ([], 0)"
  by (rule fifo_refines_queue) simp_all

text \<open>
  C13. SCR is second chance: the clock with its reference bits, read from the hand,
  is what the specification computes: the victim is the first page with a clear bit,
  the pages before it lose their bit and move behind. In particular the \<open>while (1)\<close>
  search always ends.
\<close>

theorem scr_refines_second_chance:
  assumes "0 < n" and "CHR ''/'' \<notin> set input"
  shows "\<exists>s. SCR n (input_mem input) = Some s \<and>
           scr_abs s = fold (\<lambda>(i, r). scr_spec n r) (input_refs input) ([], 0)"
proof -
  from SCR_total [OF assms] obtain s where
    s: "run_refs (scr_step n) (input_refs input) (scr_start n (input_mem input)) = Some s"
    and F: "SCR n (input_mem input) = Some (s\<lparr>scr_out := scr_out s @ print_footer (scr_fault s)\<rparr>)"
    by blast
  from scr_run_abs [OF scr_start_inv [OF assms(1)] input_pages [OF assms(2)] s]
  have "scr_abs s = fold (\<lambda>(i, r). scr_spec n r) (input_refs input) ([], 0)"
    by (simp add: scr_start_abs)
  with F show ?thesis by simp
qed

theorem scr_refines_second_chance_witness:
  "\<exists>s. SCR 2 (input_mem ''1 2 3 4 5 6 7 8 1 2 1 2'') = Some s \<and>
     scr_abs s = fold (\<lambda>(i, r). scr_spec 2 r) (input_refs ''1 2 3 4 5 6 7 8 1 2 1 2'') ([], 0)"
  by (rule scr_refines_second_chance) simp_all

text \<open>
  C14. LRU evicts the least recently used page, provided the references that fill the
  frames are pairwise different: then the fault count and the set of resident pages
  are those of the LRU specification.
\<close>

theorem lru_refines_recency:
  assumes "0 < n" and "CHR ''/'' \<notin> set input" and "distinct (map snd (take n (input_refs input)))"
  shows "\<exists>s. LRU n (input_mem input) = Some s \<and>
           lru_abs s = fold (\<lambda>(i, r). lru_spec n r) (input_refs input) ([], 0) \<and>
           set (lru_page s) - {-1} = set (fst (lru_abs s))"
proof -
  from lru_run_spec [OF assms(1) input_pages [OF assms(2)] assms(3), of "input_mem input"] obtain s where
    "run_refs (lru_step n) (input_refs input) (lru_start n (input_mem input)) = Some s"
    "lru_abs s = fold (\<lambda>(i, r). lru_spec n r) (input_refs input) ([], 0)"
    "set (lru_page s) - {-1} = set (fst (lru_abs s))" by blast
  then show ?thesis by (auto simp: LRU_def input_loop)
qed

theorem lru_refines_recency_witness:
  "\<exists>s. LRU 2 (input_mem ''1 2 3 4 5 6 7 8 1 2 3 4 9'') = Some s \<and>
     lru_abs s = fold (\<lambda>(i, r). lru_spec 2 r) (input_refs ''1 2 3 4 5 6 7 8 1 2 3 4 9'') ([], 0) \<and>
     set (lru_page s) - {-1} = set (fst (lru_abs s))"
proof (rule lru_refines_recency)
  show "distinct (map snd (take 2 (input_refs ''1 2 3 4 5 6 7 8 1 2 3 4 9'')))" by code_simp
qed simp_all

text \<open>
  Without that proviso LRU is wrong: on the pages a b b c d e e with three frames
  the program counts 6 faults where LRU has 5, because the hit on b while the frames
  are being filled duplicates b in the stack and drops a.
\<close>

theorem lru_warmup_hit_breaks_recency:
  "map_option lru_fault (LRU 3 (input_mem ''1 0 0 0 2 0 0 0 2 0 0 0 3 0 0 0 4 0 0 0 5 0 0 0 5 0 ''))
     = Some 6 \<and>
   snd (fold (\<lambda>(i, r). lru_spec 3 r)
      (input_refs ''1 0 0 0 2 0 0 0 2 0 0 0 3 0 0 0 4 0 0 0 5 0 0 0 5 0 '') ([], 0)) = 5"
proof
  show "map_option lru_fault (LRU 3 (input_mem ''1 0 0 0 2 0 0 0 2 0 0 0 3 0 0 0 4 0 0 0 5 0 0 0 5 0 ''))
     = Some 6" by code_simp
  show "snd (fold (\<lambda>(i, r). lru_spec 3 r)
      (input_refs ''1 0 0 0 2 0 0 0 2 0 0 0 3 0 0 0 4 0 0 0 5 0 0 0 5 0 '') ([], 0)) = 5" by code_simp
qed

text \<open>
  FIFO and second chance fault at least once per distinct page, at most once per
  reference, and exactly once per distinct page when the pages fit into the frames.
\<close>

theorem demand_paging_fault_bounds:
  assumes "0 < n" and "CHR ''/'' \<notin> set input"
  shows "\<exists>f c. FIFO n (input_mem input) = Some f \<and> SCR n (input_mem input) = Some c \<and>
     (let pages = snd ` set (input_refs input); refs = length (input_refs input) in
        card pages \<le> fifo_fault f \<and> fifo_fault f \<le> refs \<and>
        card pages \<le> scr_fault c \<and> scr_fault c \<le> refs \<and>
        (card pages \<le> n \<longrightarrow> fifo_fault f = card pages \<and> scr_fault c = card pages))"
proof -
  let ?m = "input_mem input" and ?rs = "input_refs input"
  note ok = input_pages_ok [OF assms(2)]
  from FIFO_total [OF assms] obtain f where f: "run_refs (fifo_step n) ?rs (fifo_start n ?m) = Some f"
    and F: "FIFO n ?m = Some (f\<lparr>fifo_out := fifo_out f @ print_footer (fifo_fault f)\<rparr>)" by blast
  from SCR_total [OF assms] obtain c where c: "run_refs (scr_step n) ?rs (scr_start n ?m) = Some c"
    and C: "SCR n ?m = Some (c\<lparr>scr_out := scr_out c @ print_footer (scr_fault c)\<rparr>)" by blast
  note fi = fifo_start_inv [OF assms(1), of ?m] and ci = scr_start_inv [OF assms(1), of ?m]
  have fr: "fifo.resident (fifo_start n ?m) = {}" "fifo_fault (fifo_start n ?m) = 0"
      "length (fifo_queue (fifo_start n ?m)) = n"
    and cr: "scr.resident (scr_start n ?m) = {}" "scr_fault (scr_start n ?m) = 0"
      "length (scr_queue (scr_start n ?m)) = n"
    by (auto simp: fifo.resident_def scr.resident_def fifo_start_def scr_start_def)
  show ?thesis
    using fifo.run_compulsory [OF fi ok f] fifo.run_total [OF fi ok] f F fr
      fifo.run_all_fit [OF fi ok f] scr.run_compulsory [OF ci ok c] scr.run_total [OF ci ok] c C cr
      scr.run_all_fit [OF ci ok c]
    by (auto simp: Let_def)
qed

theorem demand_paging_fault_bounds_witness:
  "\<exists>f c. FIFO 2 (input_mem ''1 2 3 4 5 6 7 8 1 2'') = Some f \<and>
     SCR 2 (input_mem ''1 2 3 4 5 6 7 8 1 2'') = Some c \<and>
     (let pages = snd ` set (input_refs ''1 2 3 4 5 6 7 8 1 2'');
          refs = length (input_refs ''1 2 3 4 5 6 7 8 1 2'') in
        card pages \<le> fifo_fault f \<and> fifo_fault f \<le> refs \<and>
        card pages \<le> scr_fault c \<and> scr_fault c \<le> refs \<and>
        (card pages \<le> 2 \<longrightarrow> fifo_fault f = card pages \<and> scr_fault c = card pages))"
  by (rule demand_paging_fault_bounds) simp_all


lemma input_index_ok: "\<forall>(i, r) \<in> set (input_refs input). i \<le> 28"
  using refs_from_index [OF input_len, of 0 input] by auto

lemma opt_init_total:
  assumes "length arr = 31"
  shows "\<exists>arr'. opt_init oob mem arr = Some arr' \<and> length arr' = 31"
  unfolding opt_init_def
  by (rule for_upto_rule [where I = "\<lambda>k arr. length arr = 31"]) (use assms in auto)

lemma OPT_total:
  "\<exists>s. OPT oob n (input_mem input) (replicate 31 0) = Some s \<and> length (opt_vector s) = n \<and>
     opt_fault s \<le> length (input_refs input)"
proof -
  obtain arr where arr: "opt_init oob (input_mem input) (replicate 31 0) = Some arr" "length arr = 31"
    using opt_init_total [of "replicate 31 0"] by auto
  let ?s = "opt_start n (input_mem input) arr"
  have start: "opt_inv n (input_mem input) ?s" "length (opt_vector ?s) = n" "opt_fault ?s = 0"
    using arr(2) length_page_reference_mem [OF input_len] by (simp_all add: opt_inv_def opt_start_def)
  have "\<forall>(i, r) \<in> set (input_refs input). i \<le> 30" using input_index_ok [of input] by auto
  from opt.run_total [OF start(1) this] show ?thesis using start(2,3) arr(1)
    by (auto simp: OPT_def input_loop)
qed

lemma LRU_total:
  assumes "0 < n" and "CHR ''/'' \<notin> set input"
  shows "\<exists>s. LRU n (input_mem input) = Some s"
  using lru.run_total [OF lru_start_inv [OF assms(1), of "input_mem input"] input_pages_ok [OF assms(2)]]
  by (auto simp: LRU_def input_loop)

text \<open>
  C22. \<open>OPT\<close> reads \<open>page_reference[32]\<close> and beyond, past the end of the array, but what it
  finds there does not matter: for any number of frames and any input line the run ends,
  and the printed table, the frames and the fault count are the same whatever those
  reads return; there is at most one fault per reference.
\<close>

theorem opt_ignores_out_of_bounds:
  "\<exists>out vector fault. fault \<le> length (input_refs input) \<and> length vector = n \<and>
     (\<forall>oob. \<exists>s. OPT oob n (input_mem input) (replicate 31 0) = Some s \<and>
        opt_out s = out \<and> opt_vector s = vector \<and> opt_fault s = fault)"
proof -
  let ?m = "input_mem input"
  have agree: "rel_option opt_agree (OPT oob n ?m (replicate 31 0)) (OPT oob' n ?m (replicate 31 0))" for oob oob'
    unfolding OPT_def input_loop
    by (rule rel_option_bind [OF opt_init_agree [OF input_len]], simp,
        rule rel_option_bind [OF opt_run_agree [OF _ input_index_ok]])
       (auto simp: opt_agree_def opt_start_def)
  obtain s where s: "OPT (\<lambda>_ _. 0) n ?m (replicate 31 0) = Some s" "length (opt_vector s) = n"
    "opt_fault s \<le> length (input_refs input)" using OPT_total by blast
  have "\<exists>t. OPT oob n ?m (replicate 31 0) = Some t \<and> opt_out t = opt_out s \<and>
      opt_vector t = opt_vector s \<and> opt_fault t = opt_fault s" for oob
    using agree [of oob "\<lambda>_ _. 0"] s(1)
    by (cases "OPT oob n ?m (replicate 31 0)") (auto simp: opt_agree_def)
  with s(2,3) show ?thesis by blast
qed

text \<open>
  The program on a readable file whose first line is a positive frame count and whose
  second line has no \<open>/\<close>: it never leaves its arrays, whatever lies behind
  \<open>page_reference\<close>, and prints the four tables in the order OPT, FIFO, LRU, Second-Chance.
\<close>

theorem paging_main_output:
  assumes "fopen f = Some content" and "scan_int content = Some (v, rest)" and "0 < wrap32 v"
    and "input = dropWhile isspace rest" and "CHR ''/'' \<notin> set input" and "n = nat (wrap32 v)"
  shows "\<exists>opt fi lr sc.
     OPT oob n (input_mem input) (replicate 31 0) = Some opt \<and> FIFO n (input_mem input) = Some fi \<and>
     LRU n (input_mem input) = Some lr \<and> SCR n (input_mem input) = Some sc \<and>
     paging_main fopen oob [prog, f] =
       Some (Paging_Output (opt_out opt @ fifo_out fi @ lru_out lr @ scr_out sc))"
proof -
  have n: "0 < n" using assms(3,6) by simp
  from OPT_total obtain opt where "OPT oob n (input_mem input) (replicate 31 0) = Some opt" by blast
  moreover from FIFO_total [OF n assms(5)] obtain fi where "FIFO n (input_mem input) = Some fi" by blast
  moreover from LRU_total [OF n assms(5)] obtain lr where "LRU n (input_mem input) = Some lr" by blast
  moreover from SCR_total [OF n assms(5)] obtain sc where "SCR n (input_mem input) = Some sc" by blast
  moreover note assms
  ultimately show ?thesis by (simp add: paging_main_def)
qed

abbreviation sample_file :: "string \<Rightarrow> string option" where
  "sample_file \<equiv> (\<lambda>p. if p = ''in'' then Some (CHR ''3'' # NL # ''2 3 2 1 5 2 4 5'') else None)"

theorem paging_main_output_witness:
  "\<exists>opt fi lr sc.
     OPT (\<lambda>_ _. 0) 3 (input_mem ''2 3 2 1 5 2 4 5'') (replicate 31 0) = Some opt \<and>
     FIFO 3 (input_mem ''2 3 2 1 5 2 4 5'') = Some fi \<and>
     LRU 3 (input_mem ''2 3 2 1 5 2 4 5'') = Some lr \<and> SCR 3 (input_mem ''2 3 2 1 5 2 4 5'') = Some sc \<and>
     paging_main sample_file (\<lambda>_ _. 0) [''prog'', ''in''] =
       Some (Paging_Output (opt_out opt @ fifo_out fi @ lru_out lr @ scr_out sc))"
proof (rule paging_main_output)
  show "sample_file ''in'' = Some (CHR ''3'' # NL # ''2 3 2 1 5 2 4 5'')" by simp
  show "scan_int (CHR ''3'' # NL # ''2 3 2 1 5 2 4 5'') = Some (3, NL # ''2 3 2 1 5 2 4 5'')" by code_simp
  show "0 < wrap32 3" by code_simp
  show "3 = nat (wrap32 3)" by code_simp
  show "''2 3 2 1 5 2 4 5'' = dropWhile isspace (NL # ''2 3 2 1 5 2 4 5'')" by code_simp
qed simp

text \<open>
  The loops see at most 8 of the up to 31 references of a line: the chars are read
  back four at a time as ints, and with the step of two every reference is the first
  char of an eight byte group, mixed with the three chars that follow it.
\<close>

theorem eight_references_at_most:
  "length (input_refs input) \<le> 8 \<and> list_all (\<lambda>(i, r). even i \<and> i \<le> 14) (input_refs input)"
  using length_refs_from [OF input_len, of 0 input] refs_from_index [OF input_len, of 0 input]
  by (simp add: list_all_iff)

end
