(* ===== verification/Life.thy ===== *)
theory Life
  imports Prelude
begin

text \<open>
  The cellular automaton of the design assignment: the grid of chars, the neighbour
  count with its nine border cases, the rule for the next generation and the text
  form of a grid (cells separated by blanks, rows ended by newlines). A grid is a
  list of rows; the rows of the C program may be wider than the \<open>n\<close> cells in use,
  because later generations are stored in rows of \<open>2 * n\<close> chars.
\<close>

type_synonym grid = "char list list"

section \<open>The code\<close>

text \<open>\<open>matrix[i][j]\<close> with int indices.\<close>

definition cell :: "grid \<Rightarrow> int \<Rightarrow> int \<Rightarrow> char option" where
  "cell matrix i j =
     (if i < 0 \<or> j < 0 then None else do { row \<leftarrow> rd matrix (nat i); rd row (nat j) })"

text \<open>A sequence of statements \<open>if (matrix[a][b] == '1') ret++;\<close>.\<close>

fun count_live :: "grid \<Rightarrow> (int \<times> int) list \<Rightarrow> nat \<Rightarrow> nat option" where
  "count_live matrix [] ret = Some ret"
| "count_live matrix ((a, b) # ps) ret = do {
     c \<leftarrow> cell matrix a b;
     count_live matrix ps (if c = CHR ''1'' then ret + 1 else ret) }"

definition living_cell_count :: "grid \<Rightarrow> int \<Rightarrow> int \<Rightarrow> int \<Rightarrow> int \<Rightarrow> nat option" where
  "living_cell_count matrix i j horizontal vertical =
     count_live matrix
      (if i = 0 then
         if j = 0 then [(0, 1), (1, 0), (1, 1)]
         else if j = vertical then [(0, vertical - 1), (1, vertical), (1, vertical - 1)]
         else [(i, j - 1), (i, j + 1), (i + 1, j - 1), (i + 1, j), (i + 1, j + 1)]
       else if i = horizontal then
         if j = 0 then [(horizontal - 1, 0), (horizontal - 1, 1), (horizontal, 1)]
         else if j = vertical then
           [(horizontal - 1, vertical), (horizontal - 1, vertical - 1), (horizontal, vertical - 1)]
         else [(i, j - 1), (i, j + 1), (i - 1, j - 1), (i - 1, j), (i - 1, j + 1)]
       else
         if j = 0 then [(i - 1, 0), (i + 1, 1), (i - 1, 1), (i, 1), (i + 1, 0)]
         else if j = vertical then
           [(i - 1, vertical), (i + 1, vertical), (i - 1, vertical - 1), (i, vertical - 1), (i + 1, vertical - 1)]
         else
           [(i, j - 1), (i - 1, j - 1), (i + 1, j - 1), (i - 1, j), (i + 1, j),
            (i - 1, j + 1), (i, j + 1), (i + 1, j + 1)]) 0"

definition set_cell :: "grid \<Rightarrow> nat \<Rightarrow> nat \<Rightarrow> char \<Rightarrow> grid option" where
  "set_cell g i j c = do { row \<leftarrow> rd g i; row' \<leftarrow> wr row j c; wr g i row' }"

text \<open>The row \<open>i\<close> of the next generation; \<open>horizontal\<close> and \<open>vertical\<close> are the last indices.\<close>

definition get_next_generation_matrix :: "grid \<Rightarrow> grid \<Rightarrow> nat \<Rightarrow> int \<Rightarrow> int \<Rightarrow> grid option" where
  "get_next_generation_matrix matrix next_generation i horizontal vertical =
     for_upto 0 (nat (vertical + 1)) (\<lambda>j next. do {
       tmp \<leftarrow> living_cell_count matrix (int i) (int j) horizontal vertical;
       c \<leftarrow> cell matrix (int i) (int j);
       if c = CHR ''0''
       then set_cell next i j (if tmp = 4 then CHR ''1'' else CHR ''0'')
       else set_cell next i j (if tmp \<le> 2 \<or> tmp \<ge> 7 then CHR ''0'' else CHR ''1'') }) next_generation"

text \<open>
  A row of text: the loops over \<open>k < n\<close> that fill \<open>tmp_write[2k]\<close> and \<open>tmp_write[2k+1]\<close>.
\<close>

definition format_row :: "nat \<Rightarrow> char list \<Rightarrow> char list \<Rightarrow> char list option" where
  "format_row n row buf =
     for_upto 0 n (\<lambda>k buf. do {
       c \<leftarrow> rd row k;
       buf' \<leftarrow> wr buf (2 * k) c;
       wr buf' (2 * k + 1) (if k = n - 1 then NL else CHR '' '') }) buf"

text \<open>\<open>for (j = 0; j < w; j += 2) matrix[i][j/2] = buf[j];\<close>\<close>

definition parse_row :: "nat \<Rightarrow> char list \<Rightarrow> char list \<Rightarrow> char list option" where
  "parse_row w buf row =
     for_upto 0 ((w + 1) div 2) (\<lambda>k row. do { c \<leftarrow> rd buf (2 * k); wr row k c }) row"

section \<open>Specification\<close>

text \<open>The eight positions around a cell, and the living ones among those inside the grid.\<close>

definition around :: "int \<Rightarrow> int \<Rightarrow> (int \<times> int) list" where
  "around i j = [(i - 1, j - 1), (i - 1, j), (i - 1, j + 1), (i, j - 1), (i, j + 1),
                 (i + 1, j - 1), (i + 1, j), (i + 1, j + 1)]"

definition alive :: "nat \<Rightarrow> nat \<Rightarrow> grid \<Rightarrow> int \<times> int \<Rightarrow> bool" where
  "alive m n g p = (case p of (a, b) \<Rightarrow>
     0 \<le> a \<and> a < int m \<and> 0 \<le> b \<and> b < int n \<and> g ! nat a ! nat b = CHR ''1'')"

definition neighbours :: "nat \<Rightarrow> nat \<Rightarrow> grid \<Rightarrow> nat \<Rightarrow> nat \<Rightarrow> nat" where
  "neighbours m n g i j = length (filter (alive m n g) (around (int i) (int j)))"

definition life_rule :: "char \<Rightarrow> nat \<Rightarrow> char" where
  "life_rule c k =
     (if c = CHR ''0'' then if k = 4 then CHR ''1'' else CHR ''0''
      else if 3 \<le> k \<and> k \<le> 6 then CHR ''1'' else CHR ''0'')"

definition life_row :: "nat \<Rightarrow> nat \<Rightarrow> grid \<Rightarrow> nat \<Rightarrow> char list" where
  "life_row m n g i = map (\<lambda>j. life_rule (g ! i ! j) (neighbours m n g i j)) [0..<n]"

definition life_next :: "nat \<Rightarrow> nat \<Rightarrow> grid \<Rightarrow> grid" where
  "life_next m n g = map (life_row m n g) [0..<m]"

definition text_row :: "char list \<Rightarrow> char list" where
  "text_row row = concat (map (\<lambda>k. [row ! k, if k = length row - 1 then NL else CHR '' '']) [0..<length row])"

definition text_grid :: "grid \<Rightarrow> char list" where
  "text_grid g = concat (map text_row g)"

text \<open>A grid in memory: \<open>m\<close> rows with room for at least \<open>n\<close> cells.\<close>

definition room :: "nat \<Rightarrow> nat \<Rightarrow> grid \<Rightarrow> bool" where
  "room m n g \<longleftrightarrow> length g = m \<and> (\<forall>row \<in> set g. n \<le> length row)"

text \<open>A grid of exactly \<open>m\<close> by \<open>n\<close> cells, and the part of a grid in memory that is in use.\<close>

definition is_grid :: "nat \<Rightarrow> nat \<Rightarrow> grid \<Rightarrow> bool" where
  "is_grid m n g \<longleftrightarrow> length g = m \<and> (\<forall>row \<in> set g. length row = n)"

section \<open>The neighbour count\<close>

lemma cell_in: "room m n g \<Longrightarrow> 0 \<le> a \<Longrightarrow> a < int m \<Longrightarrow> 0 \<le> b \<Longrightarrow> b < int n \<Longrightarrow>
    cell g a b = Some (g ! nat a ! nat b)"
proof -
  assume h: "room m n g" "0 \<le> a" "a < int m" "0 \<le> b" "b < int n"
  then have "nat a < length g" "n \<le> length (g ! nat a)" by (auto simp: room_def)
  with h show ?thesis by (simp add: cell_def)
qed

lemma count_live_filter:
  assumes "room m n g" and "list_all (\<lambda>(a, b). 0 \<le> a \<and> a < int m \<and> 0 \<le> b \<and> b < int n) ps"
  shows "count_live g ps ret = Some (ret + length (filter (alive m n g) ps))"
  using assms(2)
proof (induction ps arbitrary: ret)
  case (Cons p ps)
  obtain a b where "p = (a, b)" by (cases p)
  with Cons assms(1) show ?case by (simp add: cell_in alive_def)
qed simp

lemma count_filter_Cons:
  "length (filter P []) = 0" "length (filter P (x # xs)) = of_bool (P x) + length (filter P xs)"
  by simp_all

lemma living_cell_count_neighbours:
  assumes "room m n g" and "2 \<le> m" and "2 \<le> n" and "i < m" and "j < n"
  shows "living_cell_count g (int i) (int j) (int m - 1) (int n - 1) = Some (neighbours m n g i j)"
proof -
  have out: "\<not> alive m n g (a, b)" if "a < 0 \<or> int m \<le> a \<or> b < 0 \<or> int n \<le> b" for a b
    using that by (auto simp: alive_def)
  have ij: "int i < int m" "int j < int n" using assms by simp_all
  consider "i = 0" | "int i = int m - 1" "i \<noteq> 0" | "i \<noteq> 0" "int i \<noteq> int m - 1" by blast
  note rows = this
  consider "j = 0" | "int j = int n - 1" "j \<noteq> 0" | "j \<noteq> 0" "int j \<noteq> int n - 1" by blast
  note cols = this
  note defs = living_cell_count_def neighbours_def around_def count_live_filter [OF assms(1)] out
    count_filter_Cons
  show ?thesis
  proof (cases rule: rows)
    case 1
    then show ?thesis
      using assms(2,3) ij
      by (cases rule: cols) (simp_all add: defs ac_simps del: count_live.simps filter.simps)
  next
    case 2
    then show ?thesis
      using assms(2,3) ij
      by (cases rule: cols) (simp_all add: defs ac_simps del: count_live.simps filter.simps)
  next
    case 3
    then show ?thesis
      using assms(2,3) ij
      by (cases rule: cols) (simp_all add: defs ac_simps del: count_live.simps filter.simps)
  qed
qed


section \<open>Rows\<close>

lemma life_rule_code:
  "(if c = CHR ''0'' then if k = 4 then CHR ''1'' else CHR ''0''
    else if k \<le> 2 \<or> k \<ge> 7 then CHR ''0'' else CHR ''1'') = life_rule c k"
  by (auto simp: life_rule_def)

lemma set_cell_in: "i < length g \<Longrightarrow> j < length (g ! i) \<Longrightarrow>
    set_cell g i j c = Some (g[i := (g ! i)[j := c]])"
  by (simp add: set_cell_def)

lemma get_next_generation_row:
  assumes "room m n g" and "room m n nx" and "2 \<le> m" and "2 \<le> n" and "i < m"
  shows "get_next_generation_matrix g nx i (int m - 1) (int n - 1) =
         Some (nx[i := life_row m n g i @ drop n (nx ! i)])"
proof -
  let ?f = "\<lambda>j. life_rule (g ! i ! j) (neighbours m n g i j)"
  let ?row = "\<lambda>j. map ?f [0..<j] @ drop j (nx ! i)"
  have len: "i < length nx" "n \<le> length (nx ! i)" using assms(2,5) by (auto simp: room_def)
  have "\<exists>t. for_upto 0 n (\<lambda>j next. do {
       tmp \<leftarrow> living_cell_count g (int i) (int j) (int m - 1) (int n - 1);
       c \<leftarrow> cell g (int i) (int j);
       if c = CHR ''0''
       then set_cell next i j (if tmp = 4 then CHR ''1'' else CHR ''0'')
       else set_cell next i j (if tmp \<le> 2 \<or> tmp \<ge> 7 then CHR ''0'' else CHR ''1'') }) nx = Some t \<and>
     t = nx[i := ?row n]"
  proof (rule for_upto_rule [where I = "\<lambda>k t. t = nx[i := ?row k]"])
    fix k t assume k: "k < n" and t: "t = nx[i := ?row k]"
    have "set_cell t i k c = Some (nx[i := (?row k)[k := c]])" for c
      using len k by (simp add: set_cell_in t)
    moreover have "(?row k)[k := ?f k] = ?row (Suc k)"
      using len k by (intro fill_map_step) simp
    moreover have "cell g (int i) (int k) = Some (g ! i ! k)"
      using assms k by (simp add: cell_in)
    moreover note living_cell_count_neighbours [OF assms(1,3,4,5) k]
    ultimately show "\<exists>t'. (do {
       tmp \<leftarrow> living_cell_count g (int i) (int k) (int m - 1) (int n - 1);
       c \<leftarrow> cell g (int i) (int k);
       if c = CHR ''0''
       then set_cell t i k (if tmp = 4 then CHR ''1'' else CHR ''0'')
       else set_cell t i k (if tmp \<le> 2 \<or> tmp \<ge> 7 then CHR ''0'' else CHR ''1'') }) = Some t' \<and>
       t' = nx[i := ?row (Suc k)]"
      using life_rule_code [of "g ! i ! k" "neighbours m n g i k"] by (auto split: if_splits)
  qed (use len in simp_all)
  then show ?thesis by (simp add: get_next_generation_matrix_def life_row_def)
qed

lemma length_text_row [simp]: "length (text_row row) = 2 * length row"
  by (simp add: text_row_def length_concat sum_list_triv comp_def)

lemma pairs_step:
  assumes "2 * k + 1 < length xs"
  shows "((concat (map (\<lambda>k. [f k, g k]) [0..<k]) @ drop (2 * k) xs)[2 * k := f k])[2 * k + 1 := g k] =
         concat (map (\<lambda>k. [f k, g k]) [0..<Suc k]) @ drop (2 * Suc k) xs"
proof -
  have l: "length (concat (map (\<lambda>k. [f k, g k]) [0..<k])) = 2 * k"
    by (simp add: length_concat sum_list_triv comp_def)
  have "drop (2 * k) xs = xs ! (2 * k) # xs ! (2 * k + 1) # drop (2 * Suc k) xs"
    using assms by (simp add: Cons_nth_drop_Suc)
  then show ?thesis by (simp add: list_update_append l)
qed

lemma format_row_text:
  assumes "n \<le> length row" and "length buf = 2 * n"
  shows "format_row n row buf = Some (text_row (take n row))"
proof -
  let ?g = "\<lambda>k. if k = n - 1 then NL else CHR '' ''"
  have "\<exists>t. format_row n row buf = Some t \<and> t = concat (map (\<lambda>k. [row ! k, ?g k]) [0..<n]) @ drop (2 * n) buf"
    unfolding format_row_def
  proof (rule for_upto_rule [where I = "\<lambda>k t. t = concat (map (\<lambda>k. [row ! k, ?g k]) [0..<k]) @ drop (2 * k) buf"])
    fix k t assume k: "k < n" and t: "t = concat (map (\<lambda>k. [row ! k, ?g k]) [0..<k]) @ drop (2 * k) buf"
    have "length t = 2 * n"
      using k assms by (simp add: t length_concat sum_list_triv comp_def)
    with k assms pairs_step [of k buf "\<lambda>k. row ! k" ?g] t
    show "\<exists>t'. (do { c \<leftarrow> rd row k; buf' \<leftarrow> wr t (2 * k) c; wr buf' (2 * k + 1) (?g k) }) = Some t' \<and>
       t' = concat (map (\<lambda>k. [row ! k, ?g k]) [0..<Suc k]) @ drop (2 * Suc k) buf" by simp
  qed simp_all
  moreover have "concat (map (\<lambda>k. [row ! k, ?g k]) [0..<n]) = text_row (take n row)"
    using assms(1) by (auto simp: text_row_def min_absorb2 intro!: arg_cong [where f = concat])
  ultimately show ?thesis using assms(2) by simp
qed

lemma nth_text_row: "k < length row \<Longrightarrow> text_row row ! (2 * k) = row ! k"
proof -
  have "k < length row \<Longrightarrow> k \<le> n \<Longrightarrow> n \<le> length row \<Longrightarrow> k < n \<Longrightarrow>
    concat (map (\<lambda>k. [row ! k, f k]) [0..<n]) ! (2 * k) = row ! k" for f :: "nat \<Rightarrow> char" and n
  proof (induction n)
    case (Suc n)
    have "length (concat (map (\<lambda>k. [row ! k, f k]) [0..<n])) = 2 * n"
      by (simp add: length_concat sum_list_triv comp_def)
    with Suc show ?case by (cases "k = n") (auto simp: nth_append)
  qed simp
  then show "k < length row \<Longrightarrow> text_row row ! (2 * k) = row ! k" by (simp add: text_row_def)
qed

lemma parse_row_cells:
  assumes "2 * n \<le> length buf" and "n \<le> length row"
  shows "parse_row (2 * n) buf row = Some (map (\<lambda>k. buf ! (2 * k)) [0..<n] @ drop n row)"
proof -
  have "(2 * n + 1) div 2 = n" by simp
  moreover have "for_upto 0 n (\<lambda>k row. do { c \<leftarrow> rd buf (2 * k); wr row k c }) row =
      Some (map (\<lambda>k. buf ! (2 * k)) [0..<n] @ drop n row)"
    by (rule for_upto_fill) (use assms in simp_all)
  ultimately show ?thesis by (simp add: parse_row_def)
qed

text \<open>Reading back a row that was printed.\<close>

lemma parse_text_row:
  assumes "length r = n" and "n \<le> length row"
  shows "parse_row (2 * n) (text_row r @ rest) row = Some (r @ drop n row)"
proof -
  have "map (\<lambda>k. (text_row r @ rest) ! (2 * k)) [0..<n] = r"
    using assms(1) by (intro nth_equalityI) (simp_all add: nth_append nth_text_row)
  with parse_row_cells [of n "text_row r @ rest" row] assms show ?thesis by simp
qed

end
