(* ===== verification/Life_Run.thy ===== *)
theory Life_Run
  imports Life
begin

text \<open>
  The three drivers of the cellular automaton: sequential, one child process per block
  of rows, one thread per block of rows. Every generation is written to a file
  \<open>gen_k.matrix\<close> and read back for the next one; the last file becomes
  \<open>output.matrix\<close>.

  The files are a map from names to contents. Memory that \<open>malloc\<close> or a fresh local
  array leaves undefined is filled with the parameter \<open>junk\<close>. Opening a file for
  writing, \<open>fork\<close> and \<open>pthread_create\<close> succeed. The times and process ids that are
  printed are not modelled.
\<close>

section \<open>Files\<close>

text \<open>\<open>read(fd, buf, len)\<close> at position \<open>pos\<close>: a failed \<open>open\<close> leaves the buffer alone.\<close>

definition file_read :: "char list option \<Rightarrow> nat \<Rightarrow> nat \<Rightarrow> char list \<Rightarrow> char list \<times> nat" where
  "file_read fd pos len buf =
     (case fd of None \<Rightarrow> (buf, 0)
      | Some content \<Rightarrow> (let d = take len (drop pos content) in (d @ drop (length d) buf, length d)))"

text \<open>\<open>lseek\<close> and \<open>write\<close>: a gap before the position reads as zero bytes.\<close>

definition file_write :: "char list \<Rightarrow> nat \<Rightarrow> char list \<Rightarrow> char list" where
  "file_write content pos d =
     (let c = content @ replicate (pos - length content) NUL
      in take pos c @ d @ drop (pos + length d) c)"

definition file_rename :: "(string \<Rightarrow> char list option) \<Rightarrow> string \<Rightarrow> string \<Rightarrow> (string \<Rightarrow> char list option)" where
  "file_rename fs old new =
     (case fs old of None \<Rightarrow> fs | Some c \<Rightarrow> if old = new then fs else fs(old := None, new := Some c))"

section \<open>Loading the first generation\<close>

record life_state =
  life_files :: "string \<Rightarrow> char list option"
  life_m :: nat
  life_n :: nat
  tmp_buffer :: "char list"
  generation_filename :: string

function scan_width :: "nat \<Rightarrow> char list \<Rightarrow> nat \<Rightarrow> nat option" where
  "scan_width i buf n =
     (if i < 20010
      then do { c \<leftarrow> rd buf i; if c = NL then Some (i + 1) else scan_width (Suc i) buf n }
      else Some n)"
  by pat_completeness auto
termination
  by (relation "measure (\<lambda>(i, _, _). 20010 - i)") auto

declare scan_width.simps [simp del]

function count_rows :: "char list \<Rightarrow> nat \<Rightarrow> nat \<Rightarrow> char list \<Rightarrow> nat \<Rightarrow> nat \<times> char list" where
  "count_rows content pos n buf m =
     (if n = 0 \<or> length content \<le> pos then (m, buf)
      else case file_read (Some content) pos n buf of (buf', k) \<Rightarrow>
             count_rows content (pos + k) n buf' (m + 1))"
  by pat_completeness auto
termination
  by (relation "measure (\<lambda>(content, pos, _, _, _). length content - pos)")
     (auto simp: file_read_def Let_def)

declare count_rows.simps [simp del]

text \<open>Rows \<open>0 .. m - 1\<close> of \<open>width\<close> chars, each read into the same buffer.\<close>

definition read_rows ::
    "char list option \<Rightarrow> nat \<Rightarrow> nat \<Rightarrow> char list \<Rightarrow> grid \<Rightarrow> (grid \<times> char list \<times> nat) option" where
  "read_rows fd m width buf matrix =
     for_upto 0 m (\<lambda>i (matrix, buf, pos).
       case file_read fd pos width buf of (buf', k) \<Rightarrow> do {
         row \<leftarrow> rd matrix i;
         row' \<leftarrow> parse_row width buf' row;
         matrix' \<leftarrow> wr matrix i row';
         Some (matrix', buf', pos + k) }) (matrix, buf, 0)"

text \<open>
  The common first part of the three cases. When the file cannot be opened in the
  first round, \<open>read\<close> never returns 0 and \<open>m++\<close> overflows.
\<close>

definition life_load :: "char \<Rightarrow> string list \<Rightarrow> life_state \<Rightarrow> (life_state \<times> grid \<times> grid) option" where
  "life_load junk argv s =
     (let fd = (if 1 < length argv then life_files s (argv ! 1) else None);
          buf1 = fst (file_read fd 0 20010 (tmp_buffer s))
      in do {
        n \<leftarrow> scan_width 0 buf1 (life_n s);
        (m, buf2) \<leftarrow>
          (if life_m s \<noteq> 0 then Some (life_m s, buf1)
           else case fd of None \<Rightarrow> None | Some content \<Rightarrow> Some (count_rows content 0 n buf1 0));
        (matrix, buf3, _) \<leftarrow> read_rows fd m n buf2 (replicate m (replicate (n div 2) junk));
        Some (s\<lparr>life_m := m, life_n := n div 2, tmp_buffer := buf3\<rparr>,
              matrix, replicate m (replicate (n div 2) junk)) })"

section \<open>One generation\<close>

text \<open>\<open>sprintf\<close> into \<open>char generation_filename[20]\<close>.\<close>

definition gen_name :: "nat \<Rightarrow> string" where
  "gen_name k = ''gen_'' @ show_nat k @ ''.matrix''"

definition sprintf_gen_name :: "nat \<Rightarrow> string option" where
  "sprintf_gen_name k = (if length (gen_name k) < 20 then Some (gen_name k) else None)"

definition seq_generation ::
    "char \<Rightarrow> nat \<Rightarrow> life_state \<times> grid \<times> grid \<Rightarrow> (life_state \<times> grid \<times> grid) option" where
  "seq_generation junk generation_count = (\<lambda>(s, matrix, next).
     (let m = life_m s; n = life_n s in do {
        (matrix1, buf, _) \<leftarrow>
          (if generation_count \<noteq> 0
           then do {
             name \<leftarrow> sprintf_gen_name generation_count;
             read_rows (life_files s name) m (2 * n) (tmp_buffer s) matrix }
           else Some (matrix, tmp_buffer s, 0));
        name \<leftarrow> sprintf_gen_name (generation_count + 1);
        matrix2 \<leftarrow> for_upto 0 m (\<lambda>i next.
          get_next_generation_matrix matrix1 next i (int m - 1) (int n - 1)) next;
        next2 \<leftarrow> for_upto 0 m (\<lambda>i next. do {
          row \<leftarrow> rd matrix2 i;
          old \<leftarrow> rd next i;
          row' \<leftarrow> format_row n row old;
          wr next i row' }) (replicate m (replicate (2 * n) junk));
        Some (s\<lparr>life_files := (life_files s)(name := Some (concat next2)), tmp_buffer := buf,
                generation_filename := name\<rparr>, matrix2, next2) }))"

text \<open>Reading the last generation back, in the process and thread cases: a fresh buffer per row.\<close>

definition reload_rows :: "char \<Rightarrow> char list option \<Rightarrow> nat \<Rightarrow> nat \<Rightarrow> grid \<Rightarrow> (grid \<times> nat) option" where
  "reload_rows junk fd m n matrix =
     for_upto 0 m (\<lambda>i (matrix, pos).
       case file_read fd pos (2 * n) (replicate (2 * n) junk) of (buf, k) \<Rightarrow> do {
         row \<leftarrow> rd matrix i;
         row' \<leftarrow> parse_row (2 * n) buf row;
         matrix' \<leftarrow> wr matrix i row';
         Some (matrix', pos + k) }) (matrix, 0)"

text \<open>The indices and offsets of the workers are ints: a value that does not fit is undefined.\<close>

definition c_int :: "nat \<Rightarrow> nat option" where
  "c_int x = (if x < 2 ^ 31 then Some x else None)"

lemma c_int_fits [simp]: "x < 2 ^ 31 \<Longrightarrow> c_int x = Some x"
  by (simp add: c_int_def)

lemma c_int_cases: "c_int x = None \<or> c_int x = Some x"
  by (simp add: c_int_def)

text \<open>One row of a worker: find its place \<open>index*2*n\<close> in the file, compute it, format it, write it.\<close>

definition write_row ::
    "char \<Rightarrow> nat \<Rightarrow> nat \<Rightarrow> grid \<Rightarrow> nat \<Rightarrow> grid \<times> char list \<Rightarrow> (grid \<times> char list) option" where
  "write_row junk m n matrix index = (\<lambda>(next, file). do {
     twice \<leftarrow> c_int (index * 2);
     offset \<leftarrow> c_int (twice * n);
     next' \<leftarrow> get_next_generation_matrix matrix next index (int m - 1) (int n - 1);
     row \<leftarrow> rd next' index;
     txt \<leftarrow> format_row n row (replicate (2 * n) junk);
     Some (next', file_write file offset txt) })"

definition handle_number :: "nat \<Rightarrow> nat \<Rightarrow> nat" where
  "handle_number m workers = (if m mod workers \<noteq> 0 then m div workers + 1 else m div workers)"

text \<open>The child process \<open>i\<close>: its stores into \<open>next_generation_matrix\<close> stay in its own memory.\<close>

function child_rows ::
    "char \<Rightarrow> nat \<Rightarrow> nat \<Rightarrow> nat \<Rightarrow> grid \<Rightarrow> nat \<Rightarrow> nat \<Rightarrow> grid \<times> char list \<Rightarrow> (grid \<times> char list) option" where
  "child_rows junk m n handle matrix i j st =
     (if j < handle
      then do {
        index \<leftarrow> c_int (i * handle + j);
        if index = m then Some st
        else do {
          st' \<leftarrow> write_row junk m n matrix index st;
          child_rows junk m n handle matrix i (Suc j) st' } }
      else Some st)"
  by pat_completeness auto
termination
  by (relation "measure (\<lambda>(_, _, _, handle, _, _, j, _). handle - j)") auto

declare child_rows.simps [simp del]

definition reload_par ::
    "char \<Rightarrow> nat \<Rightarrow> life_state \<Rightarrow> grid \<Rightarrow> grid option" where
  "reload_par junk generation_count s matrix =
     (if generation_count \<noteq> 0
      then do {
        name \<leftarrow> sprintf_gen_name generation_count;
        (matrix', _) \<leftarrow> reload_rows junk (life_files s name) (life_m s) (life_n s) matrix;
        Some matrix' }
      else Some matrix)"

text \<open>The parent waits for child \<open>i\<close> before it forks child \<open>i + 1\<close>.\<close>

definition process_generation ::
    "char \<Rightarrow> nat \<Rightarrow> nat \<Rightarrow> life_state \<times> grid \<times> grid \<Rightarrow> (life_state \<times> grid \<times> grid) option" where
  "process_generation junk process_number generation_count = (\<lambda>(s, matrix, next).
     (let m = life_m s; n = life_n s; handle = handle_number m process_number in do {
        matrix1 \<leftarrow> reload_par junk generation_count s matrix;
        name \<leftarrow> sprintf_gen_name (generation_count + 1);
        file \<leftarrow> for_upto 0 process_number (\<lambda>i file. do {
          (_, file') \<leftarrow> child_rows junk m n handle matrix1 i 0 (next, file);
          Some file' }) [];
        Some (s\<lparr>life_files := (life_files s)(name := Some file), generation_filename := name\<rparr>,
              matrix1, next) }))"

text \<open>
  The threads share \<open>next_generation_matrix\<close> and the file. \<open>pc\<close> holds the loop variable
  of each thread; one tick of a thread is one round of its loop, and a thread that has
  left its loop does nothing. \<open>pthread_join\<close> lets every thread finish: after the
  schedule each thread gets enough ticks to do so.
\<close>

definition thread_tick ::
    "char \<Rightarrow> nat \<Rightarrow> nat \<Rightarrow> nat \<Rightarrow> grid \<Rightarrow> nat \<Rightarrow> nat list \<times> grid \<times> char list \<Rightarrow>
     (nat list \<times> grid \<times> char list) option" where
  "thread_tick junk m n handle matrix k = (\<lambda>(pc, st).
     if k < length pc \<and> pc ! k < handle
     then do {
       index \<leftarrow> c_int (k * handle + pc ! k);
       if index \<ge> m then Some (pc[k := handle], st)
       else do {
         st' \<leftarrow> write_row junk m n matrix index st;
         Some (pc[k := Suc (pc ! k)], st') } }
     else Some (pc, st))"

fun thread_ticks ::
    "char \<Rightarrow> nat \<Rightarrow> nat \<Rightarrow> nat \<Rightarrow> grid \<Rightarrow> nat list \<Rightarrow> nat list \<times> grid \<times> char list \<Rightarrow>
     (nat list \<times> grid \<times> char list) option" where
  "thread_ticks junk m n handle matrix [] st = Some st"
| "thread_ticks junk m n handle matrix (k # ks) st = do {
     st' \<leftarrow> thread_tick junk m n handle matrix k st;
     thread_ticks junk m n handle matrix ks st' }"

definition join_ticks :: "nat \<Rightarrow> nat \<Rightarrow> nat list" where
  "join_ticks thread_number handle = concat (map (\<lambda>k. replicate handle k) [0..<thread_number])"

definition thread_generation ::
    "char \<Rightarrow> nat \<Rightarrow> (nat \<Rightarrow> nat list) \<Rightarrow> nat \<Rightarrow> life_state \<times> grid \<times> grid \<Rightarrow>
     (life_state \<times> grid \<times> grid) option" where
  "thread_generation junk thread_number sched generation_count = (\<lambda>(s, matrix, next).
     (let m = life_m s; n = life_n s; handle = handle_number m thread_number in do {
        matrix1 \<leftarrow> reload_par junk generation_count s matrix;
        name \<leftarrow> sprintf_gen_name (generation_count + 1);
        (_, next', file) \<leftarrow> thread_ticks junk m n handle matrix1
          (sched generation_count @ join_ticks thread_number handle)
          (replicate thread_number 0, next, []);
        Some (s\<lparr>life_files := (life_files s)(name := Some file), generation_filename := name\<rparr>,
              matrix1, next') }))"

section \<open>The menu\<close>

text \<open>
  \<open>while (generation_number--)\<close> with a negative number counts down past the least int.
\<close>

definition run_generations ::
    "(nat \<Rightarrow> life_state \<times> grid \<times> grid \<Rightarrow> (life_state \<times> grid \<times> grid) option) \<Rightarrow> int \<Rightarrow>
     life_state \<times> grid \<times> grid \<Rightarrow> life_state option" where
  "run_generations generation generation_number st =
     (if generation_number < 0 then None
      else do {
        (s, _, _) \<leftarrow> for_upto 0 (nat generation_number) generation st;
        Some (s\<lparr>life_files := file_rename (life_files s) (generation_filename s) ''output.matrix''\<rparr>) })"

text \<open>One round of the menu after the inputs \<open>N\<close>, \<open>generation_number\<close> and the number of workers.\<close>

definition life_round ::
    "char \<Rightarrow> string list \<Rightarrow> int \<Rightarrow> int \<Rightarrow> int \<Rightarrow> (nat \<Rightarrow> nat list) \<Rightarrow> life_state \<Rightarrow> life_state option" where
  "life_round junk argv N generation_number workers sched s =
     (if N = 2 then do {
        st \<leftarrow> life_load junk argv s;
        run_generations (seq_generation junk) generation_number st }
      else if N = 3 then do {
        st \<leftarrow> life_load junk argv s;
        if workers = 0 then None
        else run_generations (process_generation junk (nat workers)) generation_number st }
      else if N = 4 then do {
        st \<leftarrow> life_load junk argv s;
        if workers = 0 then None
        else run_generations (thread_generation junk (nat workers) sched) generation_number st }
      else Some s)"

text \<open>The menu loop on a list of inputs; input 1 leaves it.\<close>

fun life_main ::
    "char \<Rightarrow> string list \<Rightarrow> (int \<times> int \<times> int \<times> (nat \<Rightarrow> nat list)) list \<Rightarrow> life_state \<Rightarrow> life_state option" where
  "life_main junk argv [] s = Some s"
| "life_main junk argv ((N, generation_number, workers, sched) # cmds) s =
     (if N = 1 then Some s
      else do {
        s' \<leftarrow> life_round junk argv N generation_number workers sched s;
        life_main junk argv cmds s' })"


section \<open>File names\<close>

lemma sprintf_gen_name_fits: "int k < 10 ^ 8 \<Longrightarrow> sprintf_gen_name k = Some (gen_name k)"
  using length_show_uint [of "int k" 7] by (simp add: sprintf_gen_name_def gen_name_def show_nat_def)

lemma gen_name_not_output: "gen_name k \<noteq> ''output.matrix''"
  by (simp add: gen_name_def)

section \<open>Files of equally long rows\<close>

lemma length_concat_rows: "\<forall>r \<in> set rs. length r = w \<Longrightarrow> length (concat rs) = length rs * w"
  by (induction rs) auto

lemma drop_concat_rows: "\<forall>r \<in> set rs. length r = w \<Longrightarrow> drop (i * w) (concat rs) = concat (drop i rs)"
proof (induction rs arbitrary: i)
  case (Cons r rs)
  then show ?case by (cases i) auto
qed simp

lemma take_concat_rows: "\<forall>r \<in> set rs. length r = w \<Longrightarrow> take (i * w) (concat rs) = concat (take i rs)"
proof (induction rs arbitrary: i)
  case (Cons r rs)
  then show ?case by (cases i) auto
qed simp

definition put_row :: "nat \<Rightarrow> nat \<Rightarrow> char list \<Rightarrow> grid \<Rightarrow> grid" where
  "put_row w i row rs = (rs @ replicate (Suc i - length rs) (replicate w NUL))[i := row]"

lemma put_row_facts:
  assumes "\<forall>r \<in> set rs. length r = w" and "length row = w"
  shows "\<forall>r \<in> set (put_row w i row rs). length r = w" and "length (put_row w i row rs) = max (length rs) (Suc i)"
    and "j < length rs \<Longrightarrow> j \<noteq> i \<Longrightarrow> put_row w i row rs ! j = rs ! j" and "put_row w i row rs ! i = row"
proof -
  have sub: "set (put_row w i row rs) \<subseteq> insert row (set rs \<union> {replicate w NUL})"
    unfolding put_row_def using set_update_subset_insert by fastforce
  show "\<forall>r \<in> set (put_row w i row rs). length r = w" using assms sub by auto
qed (auto simp: put_row_def nth_append)

lemma concat_replicate_rows: "concat (replicate k (replicate w c)) = replicate (k * w) c"
  by (induction k) (auto simp: replicate_add)

lemma replicate_update_last: "(replicate (Suc k) x)[k := y] = replicate k x @ [y]"
  by (induction k) auto

text \<open>Writing row \<open>i\<close> at its offset is replacing row \<open>i\<close>, with zero rows in between.\<close>

lemma file_write_rows:
  assumes rows: "\<forall>r \<in> set rs. length r = w" and row: "length row = w"
  shows "file_write (concat rs) (i * w) row = concat (put_row w i row rs)"
proof (cases "i < length rs")
  case True
  then have len: "i * w \<le> length rs * w" by simp
  have "put_row w i row rs = take i rs @ row # drop (Suc i) rs"
    using True by (simp add: put_row_def upd_conv_take_nth_drop)
  moreover have "drop (i * w + w) (concat rs) = concat (drop (Suc i) rs)"
    using drop_concat_rows [OF rows, of "Suc i"] by (simp add: add.commute)
  ultimately show ?thesis
    using len row take_concat_rows [OF rows, of i]
    by (simp add: file_write_def Let_def length_concat_rows [OF rows])
next
  case False
  then have len: "length rs * w \<le> i * w" by simp
  have "Suc i - length rs = Suc (i - length rs)" using False by simp
  then have "put_row w i row rs = rs @ replicate (i - length rs) (replicate w NUL) @ [row]"
    using False by (simp add: put_row_def list_update_append replicate_update_last del: replicate_Suc)
  then show ?thesis
    using False len trans_le_add1 [OF len, of w] row
    by (simp add: file_write_def Let_def length_concat_rows [OF rows] concat_replicate_rows diff_mult_distrib)
qed

text \<open>The rows in \<open>D\<close> have their final text \<open>txt\<close>.\<close>

definition rows_done :: "nat \<Rightarrow> nat \<Rightarrow> (nat \<Rightarrow> char list) \<Rightarrow> nat set \<Rightarrow> char list \<Rightarrow> bool" where
  "rows_done m w txt D file \<longleftrightarrow> D \<subseteq> {..<m} \<and>
     (\<exists>rs. file = concat rs \<and> (\<forall>r \<in> set rs. length r = w) \<and> length rs \<le> m \<and>
           (\<forall>i \<in> D. i < length rs \<and> rs ! i = txt i))"

lemma rows_done_empty: "rows_done m w txt {} []"
  by (auto simp: rows_done_def intro: exI [of _ "[]"])

lemma rows_done_write:
  assumes "rows_done m w txt D file" and "i < m" and "length (txt i) = w"
  shows "rows_done m w txt (insert i D) (file_write file (i * w) (txt i))"
proof -
  obtain rs where rs: "file = concat rs" "\<forall>r \<in> set rs. length r = w" "length rs \<le> m"
    "\<forall>i \<in> D. i < length rs \<and> rs ! i = txt i" and D: "D \<subseteq> {..<m}"
    using assms(1) by (auto simp: rows_done_def)
  note put = put_row_facts [OF rs(2) assms(3), where i = i]
  have "\<forall>j \<in> insert i D. j < length (put_row w i (txt i) rs) \<and> put_row w i (txt i) rs ! j = txt j"
  proof
    fix j assume "j \<in> insert i D"
    then show "j < length (put_row w i (txt i) rs) \<and> put_row w i (txt i) rs ! j = txt j"
      using put(2,4) put(3) rs(4) by (cases "j = i") auto
  qed
  with put(1,2) rs(1,3) file_write_rows [OF rs(2) assms(3), of i] assms(2) D show ?thesis
    unfolding rows_done_def by (intro conjI exI [of _ "put_row w i (txt i) rs"]) auto
qed

lemma rows_done_all: "rows_done m w txt {..<m} file \<Longrightarrow> file = concat (map txt [0..<m])"
  by (auto simp: rows_done_def intro!: arg_cong [where f = concat] nth_equalityI)


section \<open>Reading a generation back\<close>

lemma text_grid_rows: "is_grid m n g \<Longrightarrow> \<forall>r \<in> set (map text_row g). length r = 2 * n"
  by (auto simp: is_grid_def)

lemma length_text_grid: "is_grid m n g \<Longrightarrow> length (text_grid g) = m * (2 * n)"
  using length_concat_rows [OF text_grid_rows, of m n g] by (simp add: text_grid_def is_grid_def)

lemma file_read_row:
  assumes "is_grid m n g" and "i < m"
  shows "file_read (Some (text_grid g)) (i * (2 * n)) (2 * n) buf = (text_row (g ! i) @ drop (2 * n) buf, 2 * n)"
proof -
  have "drop (i * (2 * n)) (text_grid g) = concat (drop i (map text_row g))"
    unfolding text_grid_def using text_grid_rows [OF assms(1)] by (rule drop_concat_rows)
  also have "drop i (map text_row g) = text_row (g ! i) # map text_row (drop (Suc i) g)"
    using assms by (auto simp: is_grid_def drop_map simp flip: Cons_nth_drop_Suc)
  finally have "drop (i * (2 * n)) (text_grid g) = text_row (g ! i) @ text_grid (drop (Suc i) g)"
    by (simp add: text_grid_def)
  moreover have "length (g ! i) = n" using assms by (auto simp: is_grid_def)
  ultimately show ?thesis by (simp add: file_read_def)
qed

text \<open>The first \<open>i\<close> rows of \<open>matrix\<close> hold the first \<open>i\<close> rows of \<open>g\<close>.\<close>

definition loaded :: "nat \<Rightarrow> nat \<Rightarrow> grid \<Rightarrow> nat \<Rightarrow> grid \<Rightarrow> bool" where
  "loaded m n g i matrix \<longleftrightarrow> room m n matrix \<and> (\<forall>k < i. take n (matrix ! k) = g ! k)"

lemma room_update: "room m n g \<Longrightarrow> n \<le> length row \<Longrightarrow> room m n (g[i := row])"
  using set_update_subset_insert [of g i row] by (auto simp: room_def)

lemma loaded_step:
  assumes "loaded m n g i matrix" and "is_grid m n g" and "i < m"
  shows "\<exists>row row' matrix'. rd matrix i = Some row \<and>
           parse_row (2 * n) (text_row (g ! i) @ rest) row = Some row' \<and>
           wr matrix i row' = Some matrix' \<and> loaded m n g (Suc i) matrix'"
proof -
  have row: "i < length matrix" "n \<le> length (matrix ! i)" "length (g ! i) = n" and r: "room m n matrix"
    using assms by (auto simp: loaded_def room_def is_grid_def)
  let ?m = "matrix[i := g ! i @ drop n (matrix ! i)]"
  have "room m n ?m" using r row by (intro room_update) simp_all
  moreover have "take n (?m ! k) = g ! k" if "k < Suc i" for k
    using that row assms(1) by (cases "k = i") (auto simp: loaded_def)
  ultimately show ?thesis
    using row by (simp add: parse_text_row loaded_def)
qed

lemma loaded_all: "loaded m n g m matrix \<Longrightarrow> is_grid m n g \<Longrightarrow> map (take n) matrix = g"
  by (auto simp: loaded_def room_def is_grid_def intro!: nth_equalityI)

lemma read_rows_text:
  assumes g: "is_grid m n g" and "room m n matrix" and "2 * n \<le> length buf"
  shows "\<exists>matrix' buf'. read_rows (Some (text_grid g)) m (2 * n) buf matrix = Some (matrix', buf', m * (2 * n)) \<and>
           room m n matrix' \<and> map (take n) matrix' = g \<and> length buf' = length buf"
proof -
  have "\<exists>t. read_rows (Some (text_grid g)) m (2 * n) buf matrix = Some t \<and>
      (case t of (matrix', buf', pos) \<Rightarrow> loaded m n g m matrix' \<and> length buf' = length buf \<and> pos = m * (2 * n))"
    unfolding read_rows_def
  proof (rule for_upto_rule [where I = "\<lambda>i (matrix', buf', pos).
      loaded m n g i matrix' \<and> length buf' = length buf \<and> pos = i * (2 * n)"])
    fix k and t :: "grid \<times> char list \<times> nat" assume k: "k < m" and t: "case t of (matrix', buf', pos) \<Rightarrow>
      loaded m n g k matrix' \<and> length buf' = length buf \<and> pos = k * (2 * n)"
    obtain matrix' buf' where t': "t = (matrix', buf', k * (2 * n))" "loaded m n g k matrix'"
      "length buf' = length buf" using t by (cases t) auto
    have "length (g ! k) = n" using g k by (auto simp: is_grid_def)
    with loaded_step [OF t'(2) g k, of "drop (2 * n) buf'"] assms(3) t'(1,3)
    show "\<exists>t'. (case t of (matrix, buf, pos) \<Rightarrow>
       case file_read (Some (text_grid g)) pos (2 * n) buf of (buf', k') \<Rightarrow> do {
         row \<leftarrow> rd matrix k; row' \<leftarrow> parse_row (2 * n) buf' row;
         matrix' \<leftarrow> wr matrix k row'; Some (matrix', buf', pos + k') }) = Some t' \<and>
       (case t' of (matrix', buf', pos) \<Rightarrow>
          loaded m n g (Suc k) matrix' \<and> length buf' = length buf \<and> pos = Suc k * (2 * n))"
      by (auto simp: file_read_row [OF g k])
  qed (use assms in \<open>auto simp: loaded_def\<close>)
  then show ?thesis using loaded_all [OF _ g] by (auto simp: loaded_def)
qed

lemma reload_rows_text:
  assumes g: "is_grid m n g" and "room m n matrix"
  shows "\<exists>matrix'. reload_rows junk (Some (text_grid g)) m n matrix = Some (matrix', m * (2 * n)) \<and>
           room m n matrix' \<and> map (take n) matrix' = g"
proof -
  have "\<exists>t. reload_rows junk (Some (text_grid g)) m n matrix = Some t \<and>
      (case t of (matrix', pos) \<Rightarrow> loaded m n g m matrix' \<and> pos = m * (2 * n))"
    unfolding reload_rows_def
  proof (rule for_upto_rule [where I = "\<lambda>i (matrix', pos). loaded m n g i matrix' \<and> pos = i * (2 * n)"])
    fix k t assume k: "k < m" and t: "case t of (matrix', pos) \<Rightarrow> loaded m n g k matrix' \<and> pos = k * (2 * n)"
    obtain matrix' where t': "t = (matrix', k * (2 * n))" "loaded m n g k matrix'" using t by (cases t) auto
    with loaded_step [OF t'(2) g k, of "[]"]
    show "\<exists>t'. (case t of (matrix, pos) \<Rightarrow>
       case file_read (Some (text_grid g)) pos (2 * n) (replicate (2 * n) junk) of (buf, k') \<Rightarrow> do {
         row \<leftarrow> rd matrix k; row' \<leftarrow> parse_row (2 * n) buf row;
         matrix' \<leftarrow> wr matrix k row'; Some (matrix', pos + k') }) = Some t' \<and>
       (case t' of (matrix', pos) \<Rightarrow> loaded m n g (Suc k) matrix' \<and> pos = Suc k * (2 * n))"
      by (auto simp: file_read_row [OF g k])
  qed (use assms in \<open>auto simp: loaded_def\<close>)
  then show ?thesis using loaded_all [OF _ g] by (auto simp: loaded_def)
qed


section \<open>The next generation\<close>

lemma life_row_used:
  assumes "room m n matrix" and "map (take n) matrix = g" and "i < m"
  shows "life_row m n matrix i = life_row m n g i"
proof -
  have eq: "matrix ! a ! b = g ! a ! b" if "a < m" "b < n" for a b
    using that assms(1) by (auto simp: assms(2) [symmetric] room_def)
  have "alive m n matrix = alive m n g"
    using eq by (auto simp: alive_def nat_less_iff fun_eq_iff)
  then have "neighbours m n matrix i j = neighbours m n g i j" for j
    by (simp add: neighbours_def)
  with eq assms(3) show ?thesis by (simp add: life_row_def)
qed

lemma length_life_row [simp]: "length (life_row m n g i) = n"
  by (simp add: life_row_def)

lemma is_grid_life_next: "is_grid m n (life_next m n g)"
  by (auto simp: is_grid_def life_next_def)

lemma text_grid_life_next: "text_grid (life_next m n g) = concat (map (\<lambda>i. text_row (life_row m n g i)) [0..<m])"
  by (simp add: text_grid_def life_next_def comp_def)

lemma row_offset_fits:
  assumes "i < m" and "2 \<le> n" and "m * (2 * n) < 2 ^ 31"
  shows "c_int (i * 2) = Some (i * 2)" "c_int (i * 2 * n) = Some (i * (2 * n))" "m < 2 ^ 31"
proof -
  have "i * (2 * n) \<le> m * (2 * n)" using assms(1) by (intro mult_le_mono1) simp
  then have "i * (2 * n) < 2 ^ 31" using assms(3) by (rule le_less_trans)
  then have "i * 2 * n < 2 ^ 31" by (simp only: mult.assoc)
  then show "c_int (i * 2 * n) = Some (i * (2 * n))" by (simp add: mult.assoc)
  have "i * 2 \<le> i * 2 * n" "m \<le> m * (2 * n)" using assms(2) by simp_all
  then have "i * 2 < 2 ^ 31" and m: "m < 2 ^ 31" using \<open>i * 2 * n < 2 ^ 31\<close> assms(3) by (blast intro: le_less_trans)+
  then show "c_int (i * 2) = Some (i * 2)" by (intro c_int_fits)
  show "m < 2 ^ 31" by (rule m)
qed

lemma write_row_life:
  assumes "room m n matrix" and "map (take n) matrix = g" and "room m n nx" and "2 \<le> m" and "2 \<le> n" and "i < m"
    and "m * (2 * n) < 2 ^ 31"
  shows "\<exists>nx'. write_row junk m n matrix i (nx, file) =
                 Some (nx', file_write file (i * (2 * n)) (text_row (life_row m n g i))) \<and> room m n nx'"
proof -
  let ?nx = "nx[i := life_row m n matrix i @ drop n (nx ! i)]"
  have "i < length nx" using assms by (simp add: room_def)
  moreover have "room m n ?nx" using assms(3) by (rule room_update) simp
  moreover note get_next_generation_row [OF assms(1,3,4,5,6)] life_row_used [OF assms(1,2,6)]
  moreover have "format_row n (life_row m n g i @ r) (replicate (2 * n) junk) = Some (text_row (life_row m n g i))" for r
    by (subst format_row_text) simp_all
  moreover note row_offset_fits(1,2) [OF assms(6,5,7)]
  ultimately show ?thesis by (simp add: write_row_def)
qed

text \<open>A row below the grid: the first neighbour it reads does not exist.\<close>

lemma write_row_outside:
  assumes "room m n matrix" and "2 \<le> m" and "2 \<le> n" and "m < i"
  shows "write_row junk m n matrix i (nx, file) = None"
proof -
  have "cell matrix (int i - 1) 0 = None"
    using assms by (auto simp: cell_def room_def Option.bind_eq_None_conv nat_diff_distrib')
  then have "living_cell_count matrix (int i) 0 (int m - 1) (int n - 1) = None"
    using assms by (simp add: living_cell_count_def)
  then have "get_next_generation_matrix matrix nx i (int m - 1) (int n - 1) = None"
    using assms(3) by (simp add: get_next_generation_matrix_def for_upto_step)
  then show ?thesis by (auto simp: write_row_def Option.bind_eq_None_conv)
qed

text \<open>
  What the state between two generations represents: the grid \<open>g\<close> after \<open>k\<close>
  generations, in memory before the first one and in the last file afterwards.
\<close>

fun life_repr :: "nat \<Rightarrow> nat \<Rightarrow> nat \<Rightarrow> grid \<Rightarrow> life_state \<times> grid \<times> grid \<Rightarrow> bool" where
  "life_repr m n k g (s, matrix, next) \<longleftrightarrow>
     life_m s = m \<and> life_n s = n \<and> 2 * n \<le> length (tmp_buffer s) \<and> room m n matrix \<and> room m n next \<and>
     is_grid m n g \<and>
     (if k = 0 then map (take n) matrix = g
      else life_files s (gen_name k) = Some (text_grid g) \<and> generation_filename s = gen_name k)"

lemma reload_par_text:
  assumes "life_repr m n k g (s, matrix, nx)" and "int k < 10 ^ 8"
  shows "\<exists>matrix'. reload_par junk k s matrix = Some matrix' \<and> room m n matrix' \<and> map (take n) matrix' = g"
proof (cases "k = 0")
  case False
  with assms reload_rows_text [of m n g matrix junk] show ?thesis
    by (auto simp: reload_par_def sprintf_gen_name_fits [OF assms(2)])
qed (use assms in \<open>auto simp: reload_par_def\<close>)

lemma next_grid_loop:
  assumes "room m n matrix" and "map (take n) matrix = g" and "room m n nx" and "2 \<le> m" and "2 \<le> n"
  shows "\<exists>nx'. for_upto 0 m (\<lambda>i nx. get_next_generation_matrix matrix nx i (int m - 1) (int n - 1)) nx = Some nx' \<and>
           loaded m n (life_next m n g) m nx'"
proof (rule for_upto_rule [where I = "\<lambda>k. loaded m n (life_next m n g) k"])
  fix k t assume k: "k < m" and t: "loaded m n (life_next m n g) k t"
  have kt: "k < length t" and rt: "room m n t" using t k by (auto simp: loaded_def room_def)
  let ?t = "t[k := life_row m n matrix k @ drop n (t ! k)]"
  have "room m n ?t" using rt by (rule room_update) simp
  moreover have "take n (?t ! j) = life_next m n g ! j" if "j < Suc k" for j
    using that k kt t life_row_used [OF assms(1,2) k]
    by (cases "j = k") (auto simp: loaded_def life_next_def)
  ultimately show "\<exists>t'. get_next_generation_matrix matrix t k (int m - 1) (int n - 1) = Some t' \<and>
      loaded m n (life_next m n g) (Suc k) t'"
    using get_next_generation_row [OF assms(1) rt assms(4,5) k] by (auto simp: loaded_def)
qed (use assms in \<open>simp_all add: loaded_def\<close>)

lemma format_loop:
  assumes "room m n matrix" and "map (take n) matrix = g"
  shows "for_upto 0 m (\<lambda>i nx. do { row \<leftarrow> rd matrix i; old \<leftarrow> rd nx i; row' \<leftarrow> format_row n row old; wr nx i row' })
           (replicate m (replicate (2 * n) junk)) = Some (map text_row g)"
proof -
  have "for_upto 0 m (\<lambda>i nx. do { row \<leftarrow> rd matrix i; old \<leftarrow> rd nx i; row' \<leftarrow> format_row n row old; wr nx i row' })
      (replicate m (replicate (2 * n) junk)) =
    Some (map (\<lambda>i. text_row (take n (matrix ! i))) [0..<m] @ drop m (replicate m (replicate (2 * n) junk)))"
  proof (rule for_upto_fill)
    fix k ys assume k: "k < m"
      and ys: "ys = map (\<lambda>i. text_row (take n (matrix ! i))) [0..<k] @ drop k (replicate m (replicate (2 * n) junk))"
    have "rd ys k = Some (replicate (2 * n) junk)" using k by (simp add: ys nth_append)
    moreover have "rd matrix k = Some (matrix ! k)" "n \<le> length (matrix ! k)" using k assms(1) by (auto simp: room_def)
    ultimately show "(do { row \<leftarrow> rd matrix k; old \<leftarrow> rd ys k; row' \<leftarrow> format_row n row old; wr ys k row' }) =
        wr ys k (text_row (take n (matrix ! k)))" by (simp add: format_row_text)
  qed simp
  moreover have "map (\<lambda>i. text_row (take n (matrix ! i))) [0..<m] = map text_row g"
    using assms by (auto simp: room_def intro!: nth_equalityI)
  ultimately show ?thesis by simp
qed


section \<open>What a driver promises to the menu\<close>

text \<open>
  \<open>life_engine\<close>: for a grid of at least two by two cells that suits the driver, one
  generation ends and turns a state for \<open>g\<close> into a state for the successor of \<open>g\<close>.
\<close>

locale life_engine =
  fixes generation :: "nat \<Rightarrow> life_state \<times> grid \<times> grid \<Rightarrow> (life_state \<times> grid \<times> grid) option"
    and suits :: "nat \<Rightarrow> nat \<Rightarrow> bool"
  assumes generation_step: "suits m n \<Longrightarrow> 2 \<le> m \<Longrightarrow> 2 \<le> n \<Longrightarrow> life_repr m n k g st \<Longrightarrow> int (Suc k) < 10 ^ 8 \<Longrightarrow>
      \<exists>st'. generation k st = Some st' \<and> life_repr m n (Suc k) (life_next m n g) st'"
begin

lemma run:
  assumes "suits m n" and "2 \<le> m" and "2 \<le> n" and "life_repr m n 0 g st" and "int gens < 10 ^ 8"
  shows "\<exists>st'. for_upto 0 gens generation st = Some st' \<and> life_repr m n gens ((life_next m n ^^ gens) g) st'"
proof (rule for_upto_rule [where I = "\<lambda>k. life_repr m n k ((life_next m n ^^ k) g)"])
  fix k t assume "k < gens" and t: "life_repr m n k ((life_next m n ^^ k) g) t"
  then have "int (Suc k) < 10 ^ 8" using assms(5) by linarith
  from generation_step [OF assms(1-3) t this]
  show "\<exists>t'. generation k t = Some t' \<and> life_repr m n (Suc k) ((life_next m n ^^ Suc k) g) t'" by simp
qed (use assms in simp_all)

lemma run_output:
  assumes "suits m n" and "2 \<le> m" and "2 \<le> n" and "life_repr m n 0 g st" and "int gens < 10 ^ 8" and "0 < gens"
  shows "\<exists>s. run_generations generation (int gens) st = Some s \<and>
             life_files s ''output.matrix'' = Some (text_grid ((life_next m n ^^ gens) g)) \<and> life_m s = m"
proof -
  from run [OF assms(1-5)] obtain s matrix nx where
    "for_upto 0 gens generation st = Some (s, matrix, nx)"
    "life_repr m n gens ((life_next m n ^^ gens) g) (s, matrix, nx)" by (metis prod_cases3)
  with assms(6) show ?thesis by (simp add: run_generations_def file_rename_def gen_name_not_output)
qed

end

interpretation seq: life_engine "seq_generation junk" "\<lambda>m n. True" for junk
proof (unfold_locales, goal_cases)
  case (1 m n k g st)
  obtain s matrix nx where st: "st = (s, matrix, nx)" by (cases st)
  have repr: "life_m s = m" "life_n s = n" "2 * n \<le> length (tmp_buffer s)" "room m n matrix" "room m n nx"
    "is_grid m n g" using 1 st by simp_all
  have k: "int k < 10 ^ 8" using 1 by simp
  obtain matrix1 buf pos where load: "(if k \<noteq> 0 then do { name \<leftarrow> sprintf_gen_name k;
        read_rows (life_files s name) m (2 * n) (tmp_buffer s) matrix } else Some (matrix, tmp_buffer s, 0)) =
      Some (matrix1, buf, pos)" and m1: "room m n matrix1" "map (take n) matrix1 = g" "length buf = length (tmp_buffer s)"
    using 1 st read_rows_text [OF repr(6,4,3)] by (cases "k = 0") (auto simp: sprintf_gen_name_fits [OF k])
  obtain nx1 where nx1: "for_upto 0 m (\<lambda>i nx. get_next_generation_matrix matrix1 nx i (int m - 1) (int n - 1)) nx = Some nx1"
    "loaded m n (life_next m n g) m nx1" using next_grid_loop [OF m1(1,2) repr(5)] 1 by blast
  have nx1': "room m n nx1" "map (take n) nx1 = life_next m n g"
    using nx1(2) loaded_all [OF nx1(2) is_grid_life_next] by (simp_all add: loaded_def)
  have "room m n (map text_row (life_next m n g))"
    using is_grid_life_next [of m n g] by (auto simp: room_def is_grid_def)
  with nx1 nx1' format_loop [OF nx1'] load m1 repr is_grid_life_next [of m n g] sprintf_gen_name_fits [OF 1(5)]
  show ?case by (simp add: st seq_generation_def text_grid_def)
qed

section \<open>The process driver\<close>

lemma handle_number_covers: "0 < p \<Longrightarrow> m \<le> p * handle_number m p"
proof -
  assume p: "0 < p"
  have m: "m = p * (m div p) + m mod p" by simp
  moreover have "m mod p \<le> p" using p by (simp add: less_imp_le)
  ultimately have "m \<le> p * (m div p) + p" by linarith
  moreover have "m \<le> p * (m div p)" if "m mod p = 0" using m that by simp
  ultimately show ?thesis by (simp add: handle_number_def)
qed

lemma handle_number_limit: "0 < p \<Longrightarrow> p * handle_number m p \<le> m + p"
proof -
  have "p * (m div p) \<le> m" by simp
  then have "p * (m div p) \<le> m + p" by linarith
  then show ?thesis by (simp add: handle_number_def)
qed

lemma handle_number_pos: "0 < m \<Longrightarrow> 0 < p \<Longrightarrow> 0 < handle_number m p"
  using handle_number_covers [of p m] by (cases "handle_number m p") auto

lemma child_rows_life:
  assumes "room m n matrix" and "map (take n) matrix = g" and "2 \<le> m" and "2 \<le> n"
    and "room m n nx" and "rows_done m (2 * n) (\<lambda>i. text_row (life_row m n g i)) D out"
    and "j \<le> h" and "i * h + j \<le> m" and fits: "m * (2 * n) < 2 ^ 31"
  shows "\<exists>nx' out'. child_rows junk m n h matrix i j (nx, out) = Some (nx', out') \<and> room m n nx' \<and>
     rows_done m (2 * n) (\<lambda>i. text_row (life_row m n g i)) (D \<union> {i * h + j ..< min (i * h + h) m}) out'"
  using assms(5-8)
proof (induction "h - j" arbitrary: j nx out D)
  case 0
  then show ?case by (subst child_rows.simps) simp
next
  case (Suc d)
  have idx: "c_int (i * h + j) = Some (i * h + j)"
    using Suc.prems(4) row_offset_fits(3) [of 0 m n] assms(3,4) fits by (intro c_int_fits) simp
  show ?case
  proof (cases "i * h + j = m")
    case True
    with Suc idx show ?thesis by (subst child_rows.simps) simp
  next
    case False
    let ?i = "i * h + j" and ?txt = "\<lambda>i. text_row (life_row m n g i)"
    have i: "?i < m" using False Suc.prems by simp
    obtain nx1 where w: "write_row junk m n matrix ?i (nx, out) = Some (nx1, file_write out (?i * (2 * n)) (?txt ?i))"
      "room m n nx1" using write_row_life [OF assms(1,2) Suc.prems(1) assms(3,4) i fits] by blast
    have "rows_done m (2 * n) ?txt (insert ?i D) (file_write out (?i * (2 * n)) (?txt ?i))"
      using Suc.prems(2) i by (rule rows_done_write) simp
    moreover have "d = h - Suc j" "Suc j \<le> h" "i * h + Suc j \<le> m" using Suc.hyps(2) i by auto
    ultimately
    obtain nx2 out2 where r: "child_rows junk m n h matrix i (Suc j) (nx1, file_write out (?i * (2 * n)) (?txt ?i)) =
        Some (nx2, out2)" "room m n nx2"
      "rows_done m (2 * n) ?txt (insert ?i D \<union> {i * h + Suc j ..< min (i * h + h) m}) out2"
      using Suc.hyps(1) [OF _ w(2)] by blast
    have "insert ?i D \<union> {i * h + Suc j ..< min (i * h + h) m} = D \<union> {?i ..< min (i * h + h) m}"
      using i Suc.hyps(2) by auto
    moreover have "j < h" using Suc.hyps(2) by simp
    ultimately show ?thesis using r w False idx by (subst child_rows.simps) simp
  qed
qed

text \<open>The block of every child must begin inside the grid.\<close>

definition blocks_fit :: "nat \<Rightarrow> nat \<Rightarrow> bool" where
  "blocks_fit p m \<longleftrightarrow> 0 < p \<and> (p - 1) * handle_number m p \<le> m"

lemma children_life:
  assumes "room m n matrix" and "map (take n) matrix = g" and "2 \<le> m" and "2 \<le> n" and "room m n nx"
    and "blocks_fit p m" and fits: "m * (2 * n) < 2 ^ 31"
  shows "for_upto 0 p (\<lambda>i out. do {
           (_, out') \<leftarrow> child_rows junk m n (handle_number m p) matrix i 0 (nx, out); Some out' }) [] =
         Some (text_grid (life_next m n g))"
proof -
  let ?h = "handle_number m p" and ?txt = "\<lambda>i. text_row (life_row m n g i)"
  have "\<exists>out. for_upto 0 p (\<lambda>i out. do {
      (_, out') \<leftarrow> child_rows junk m n ?h matrix i 0 (nx, out); Some out' }) [] = Some out \<and>
    rows_done m (2 * n) ?txt {..<min (p * ?h) m} out"
  proof (rule for_upto_rule [where I = "\<lambda>i. rows_done m (2 * n) ?txt {..<min (i * ?h) m}"])
    fix k out assume k: "k < p" and d: "rows_done m (2 * n) ?txt {..<min (k * ?h) m} out"
    have "k * ?h \<le> (p - 1) * ?h" using k by (intro mult_le_mono1) simp
    also have "\<dots> \<le> m" using assms(6) by (simp add: blocks_fit_def)
    finally have kh: "k * ?h \<le> m" .
    then have "{..<min (k * ?h) m} \<union> {k * ?h + 0 ..< min (k * ?h + ?h) m} = {..<min (Suc k * ?h) m}"
      by (auto simp: min_def)
    with child_rows_life [OF assms(1-5) d, of 0 ?h k junk] kh fits
    show "\<exists>out'. (do { (_, out') \<leftarrow> child_rows junk m n ?h matrix k 0 (nx, out); Some out' }) = Some out' \<and>
        rows_done m (2 * n) ?txt {..<min (Suc k * ?h) m} out'" by auto
  qed (simp_all add: rows_done_empty lessThan_0)
  moreover have "min (p * ?h) m = m"
    using assms(6) handle_number_covers [of p m] by (simp add: blocks_fit_def)
  ultimately show ?thesis by (auto dest: rows_done_all simp: text_grid_life_next)
qed

interpretation process: life_engine "process_generation junk p" "\<lambda>m n. blocks_fit p m \<and> m * (2 * n) < 2 ^ 31" for junk p
proof (unfold_locales, goal_cases)
  case (1 m n k g st)
  obtain s matrix nx where st: "st = (s, matrix, nx)" by (cases st)
  have k: "int k < 10 ^ 8" using 1 by simp
  obtain matrix1 where m1: "reload_par junk k s matrix = Some matrix1" "room m n matrix1" "map (take n) matrix1 = g"
    using reload_par_text [OF 1(4) [unfolded st] k] by blast
  have "room m n nx" using 1 st by simp
  with children_life [OF m1(2,3) 1(2,3) _ conjunct1 [OF 1(1)] conjunct2 [OF 1(1)]] m1 1 is_grid_life_next [of m n g] sprintf_gen_name_fits [OF 1(5)]
  show ?case by (simp add: st process_generation_def)
qed


section \<open>The thread driver\<close>

text \<open>The rows that threads at loop positions \<open>pc\<close> have finished, with \<open>h\<close> rows per thread.\<close>

definition thread_rows :: "nat \<Rightarrow> nat \<Rightarrow> nat list \<Rightarrow> nat set" where
  "thread_rows m h pc = {i. i < m \<and> i div h < length pc \<and> i mod h < pc ! (i div h)}"

lemma block_div_mod: "j < h \<Longrightarrow> (k * h + j) div h = k \<and> (k * h + j) mod h = (j :: nat)"
  by simp

lemma thread_rows_tick:
  assumes "k < length pc" and "pc ! k < h" and "k * h + pc ! k < m"
  shows "thread_rows m h (pc[k := Suc (pc ! k)]) = insert (k * h + pc ! k) (thread_rows m h pc)"
proof -
  note here = block_div_mod [OF assms(2), of k]
  have "i = k * h + pc ! k" if "i div h = k" "i mod h = pc ! k" for i
    using that div_mult_mod_eq [of i h] by simp
  then show ?thesis
    using assms here by (auto simp: thread_rows_def nth_list_update less_Suc_eq split: if_splits)
qed

lemma thread_rows_break:
  assumes "k < length pc" and "m \<le> k * h + pc ! k" and "pc ! k < h"
  shows "thread_rows m h (pc[k := h]) = thread_rows m h pc"
proof -
  have "i mod h < pc ! k" if "i div h = k" "i < m" for i
    using that assms(2) div_mult_mod_eq [of i h] by simp
  then show ?thesis
    using assms by (auto simp: thread_rows_def nth_list_update split: if_splits)
qed

text \<open>The invariant of the threads on the shared memory and the file.\<close>

fun thread_inv :: "nat \<Rightarrow> nat \<Rightarrow> nat \<Rightarrow> grid \<Rightarrow> nat list \<times> grid \<times> char list \<Rightarrow> bool" where
  "thread_inv m n h g (pc, nx, out) \<longleftrightarrow> (\<forall>k < length pc. pc ! k \<le> h) \<and> room m n nx \<and>
     rows_done m (2 * n) (\<lambda>i. text_row (life_row m n g i)) (thread_rows m h pc) out"

lemma thread_tick_inv:
  assumes "room m n matrix" and "map (take n) matrix = g" and "2 \<le> m" and "2 \<le> n"
    and "thread_inv m n h g (pc, nx, out)" and fits: "m * (2 * n) < 2 ^ 31" "length pc * h < 2 ^ 31"
  shows "\<exists>pc' st'. thread_tick junk m n h matrix k (pc, nx, out) = Some (pc', st') \<and>
     thread_inv m n h g (pc', st') \<and> length pc' = length pc \<and>
     (\<forall>j < length pc. pc ! j \<le> pc' ! j) \<and> (k < length pc \<longrightarrow> min h (Suc (pc ! k)) \<le> pc' ! k)"
proof (cases "k < length pc \<and> pc ! k < h")
  case False
  with assms(5) show ?thesis by (auto simp: thread_tick_def)
next
  case True
  let ?i = "k * h + pc ! k"
  have "Suc k * h \<le> length pc * h" using True by (intro mult_le_mono1) simp
  then have idx: "c_int ?i = Some ?i" using True fits(2) by (intro c_int_fits) simp
  show ?thesis
  proof (cases "m \<le> ?i")
    case out: True
    with True idx assms(5) thread_rows_break [of k pc m h] show ?thesis
      by (auto simp: thread_tick_def nth_list_update)
  next
    case False
    then have i: "?i < m" by simp
    have nx: "room m n nx" using assms(5) by simp
    obtain nx' where "write_row junk m n matrix ?i (nx, out) =
        Some (nx', file_write out (?i * (2 * n)) (text_row (life_row m n g ?i)))" "room m n nx'"
      using write_row_life [OF assms(1,2) nx assms(3,4) i fits(1)] by blast
    moreover have "rows_done m (2 * n) (\<lambda>i. text_row (life_row m n g i))
        (insert ?i (thread_rows m h pc)) (file_write out (?i * (2 * n)) (text_row (life_row m n g ?i)))"
      using rows_done_write [of m "2 * n" "\<lambda>i. text_row (life_row m n g i)", OF _ i] assms(5) by simp
    ultimately show ?thesis
      using True i idx assms(5) thread_rows_tick [of k pc h m]
      by (auto simp: thread_tick_def Let_def nth_list_update)
  qed
qed

lemma thread_ticks_inv:
  assumes "room m n matrix" and "map (take n) matrix = g" and "2 \<le> m" and "2 \<le> n"
    and "thread_inv m n h g (pc, nx, out)" and fits: "m * (2 * n) < 2 ^ 31" "length pc * h < 2 ^ 31"
  shows "\<exists>pc' st'. thread_ticks junk m n h matrix ks (pc, nx, out) = Some (pc', st') \<and>
     thread_inv m n h g (pc', st') \<and> length pc' = length pc \<and>
     (\<forall>k < length pc. min h (pc ! k + count_list ks k) \<le> pc' ! k)"
  using assms(5,7)
proof (induction ks arbitrary: pc nx out)
  case (Cons k ks)
  from thread_tick_inv [OF assms(1-4) Cons.prems(1) fits(1) Cons.prems(2), of junk k]
  obtain pc1 nx1 out1 where t: "thread_tick junk m n h matrix k (pc, nx, out) = Some (pc1, nx1, out1)"
    "thread_inv m n h g (pc1, nx1, out1)" "length pc1 = length pc"
    "\<forall>j < length pc. pc ! j \<le> pc1 ! j" "k < length pc \<longrightarrow> min h (Suc (pc ! k)) \<le> pc1 ! k" by auto
  from Cons.IH [OF t(2)] Cons.prems(2) obtain pc2 st2 where
    u: "thread_ticks junk m n h matrix ks (pc1, nx1, out1) = Some (pc2, st2)"
    "thread_inv m n h g (pc2, st2)" "length pc2 = length pc"
    "\<forall>j < length pc. min h (pc1 ! j + count_list ks j) \<le> pc2 ! j" using t(3) by auto
  have "min h (pc ! j + count_list (k # ks) j) \<le> pc2 ! j" if "j < length pc" for j
    using that t(4,5) u(4) by (cases "j = k") (fastforce simp: min_def split: if_splits)+
  with t u show ?case by auto
qed simp

lemma count_join_ticks: "k < p \<Longrightarrow> h \<le> count_list (join_ticks p h) k"
proof -
  have r: "count_list (replicate h j) k = (if j = k then h else 0)" for j h
    by (induction h) auto
  have "k < p \<Longrightarrow> count_list (join_ticks p h) k = h" for p
    by (induction p) (auto simp: join_ticks_def count_list_append r count_list_0_iff)
  then show "k < p \<Longrightarrow> h \<le> count_list (join_ticks p h) k" by simp
qed

lemma threads_life:
  assumes "room m n matrix" and "map (take n) matrix = g" and "2 \<le> m" and "2 \<le> n" and "room m n nx" and "0 < p"
    and fits: "m * (2 * n) < 2 ^ 31" "m + p < 2 ^ 31"
  shows "\<exists>pc' nx'. thread_ticks junk m n (handle_number m p) matrix (ks @ join_ticks p (handle_number m p))
           (replicate p 0, nx, []) = Some (pc', nx', text_grid (life_next m n g)) \<and> room m n nx'"
proof -
  let ?h = "handle_number m p"
  have h: "0 < ?h" using assms(3,6) by (intro handle_number_pos) auto
  have "thread_rows m ?h (replicate p 0) = {}" by (auto simp: thread_rows_def)
  then have "thread_inv m n ?h g (replicate p 0, nx, [])" using assms(5) by (simp add: rows_done_empty)
  from thread_ticks_inv [OF assms(1-4) this fits(1), of junk "ks @ join_ticks p ?h"] handle_number_limit [of p m] assms(6) fits(2)
  obtain pc' nx' out where r: "thread_ticks junk m n ?h matrix (ks @ join_ticks p ?h) (replicate p 0, nx, []) = Some (pc', nx', out)"
    "thread_inv m n ?h g (pc', nx', out)" "length pc' = p"
    and c: "\<forall>k < p. min ?h (count_list ks k + count_list (join_ticks p ?h) k) \<le> pc' ! k" by auto
  have full: "?h \<le> pc' ! k" if "k < p" for k
    using that c count_join_ticks [OF that, of ?h] by (auto simp: min_def split: if_splits)
  have "i div ?h < p" if "i < m" for i
    using that handle_number_covers [OF assms(6), of m] h by (simp add: div_less_iff_less_mult)
  moreover have "i mod ?h < ?h" for i using h by simp
  ultimately have "thread_rows m ?h pc' = {..<m}"
    using full r(3) by (fastforce simp: thread_rows_def intro: less_le_trans)
  with r show ?thesis by (auto simp: text_grid_life_next dest: rows_done_all)
qed

interpretation thread: life_engine "thread_generation junk p sched" "\<lambda>m n. 0 < p \<and> m * (2 * n) < 2 ^ 31 \<and> m + p < 2 ^ 31" for junk p sched
proof (unfold_locales, goal_cases)
  case (1 m n k g st)
  obtain s matrix nx where st: "st = (s, matrix, nx)" by (cases st)
  have k: "int k < 10 ^ 8" using 1 by simp
  obtain matrix1 where m1: "reload_par junk k s matrix = Some matrix1" "room m n matrix1" "map (take n) matrix1 = g"
    using reload_par_text [OF 1(4) [unfolded st] k] by blast
  have "room m n nx" using 1 st by simp
  from threads_life [OF m1(2,3) 1(2,3) this, of p junk "sched k"] 1(1)
  obtain pc' nx' where "thread_ticks junk m n (handle_number m p) matrix1 (sched k @ join_ticks p (handle_number m p))
           (replicate p 0, nx, []) = Some (pc', nx', text_grid (life_next m n g))" "room m n nx'" by blast
  with m1 1 is_grid_life_next [of m n g] sprintf_gen_name_fits [OF 1(5)]
  show ?case by (simp add: st thread_generation_def)
qed

end
