(* ===== verification/Life_Main.thy ===== *)
theory Life_Main
  imports Life_Run
begin

text \<open>
  The cellular automaton as a whole: loading the initial grid and the properties of the
  three drivers as the menu runs them.
\<close>

section \<open>Loading\<close>

lemma nth_text_row_sep:
  "k < length row \<Longrightarrow> text_row row ! (2 * k + 1) = (if k = length row - 1 then NL else CHR '' '')"
proof -
  have "k < n \<Longrightarrow> concat (map (\<lambda>k. [row ! k, f k]) [0..<n]) ! (2 * k + 1) = f k" for f :: "nat \<Rightarrow> char" and n
  proof (induction n)
    case (Suc n)
    have "length (concat (map (\<lambda>k. [row ! k, f k]) [0..<n])) = 2 * n"
      by (simp add: length_concat sum_list_triv comp_def)
    with Suc show ?case by (cases "k = n") (auto simp: nth_append)
  qed simp
  then show "k < length row \<Longrightarrow> text_row row ! (2 * k + 1) = (if k = length row - 1 then NL else CHR '' '')"
    by (simp add: text_row_def)
qed

lemma text_row_newline:
  assumes "row \<noteq> []" and "NL \<notin> set row"
  shows "text_row row ! (2 * length row - 1) = NL" and "k < 2 * length row - 1 \<Longrightarrow> text_row row ! k \<noteq> NL"
proof -
  obtain l where l: "length row = Suc l" using assms(1) by (cases row) auto
  then show "text_row row ! (2 * length row - 1) = NL" using nth_text_row_sep [of l row] by simp
next
  assume k: "k < 2 * length row - 1"
  show "text_row row ! k \<noteq> NL"
  proof (cases "even k")
    case True
    then obtain j where j: "k = 2 * j" by blast
    with k have "j < length row" by simp
    with j assms(2) nth_text_row [of j row] show ?thesis by (metis nth_mem)
  next
    case False
    then obtain j where "k = 2 * j + 1" by (blast elim: oddE)
    with k nth_text_row_sep [of j row] show ?thesis by auto
  qed
qed

lemma scan_width_first:
  assumes "i \<le> j" and "j < 20010" and "j < length buf" and "buf ! j = NL" and "\<forall>k < j. buf ! k \<noteq> NL"
  shows "scan_width i buf n = Some (j + 1)"
  using assms(1)
proof (induction "j - i" arbitrary: i)
  case 0
  with assms show ?case by (subst scan_width.simps) simp
next
  case (Suc d)
  then have "scan_width (Suc i) buf n = Some (j + 1)" by (intro Suc.hyps(1)) auto
  with Suc assms show ?case by (subst scan_width.simps) simp
qed

lemma count_rows_all:
  assumes "length content = m * w" and "0 < w" and "i \<le> m" and "w \<le> length buf"
  shows "\<exists>buf'. count_rows content (i * w) w buf c = (c + (m - i), buf') \<and> length buf' = length buf"
  using assms(3,4)
proof (induction "m - i" arbitrary: i buf c)
  case 0
  with assms show ?case by (subst count_rows.simps) simp
next
  case (Suc d)
  then have i: "i < m" by simp
  then have "Suc i * w \<le> m * w" by (intro mult_le_mono1) simp
  then have more: "i * w + w \<le> m * w" by (simp add: add.commute)
  obtain buf1 where r: "file_read (Some content) (i * w) w buf = (buf1, w)" "length buf1 = length buf"
    using more assms(1) Suc.prems(2) by (simp add: file_read_def Let_def min_absorb2)
  have "\<exists>buf'. count_rows content (Suc i * w) w buf1 (c + 1) = (c + 1 + (m - Suc i), buf') \<and> length buf' = length buf1"
    by (rule Suc.hyps(1)) (use Suc r i in auto)
  then obtain buf' where "count_rows content (i * w + w) w buf1 (c + 1) = (c + (m - i), buf')" "length buf' = length buf"
    using i r(2) by (auto simp: add.commute Suc_diff_Suc)
  moreover have "\<not> (w = 0 \<or> length content \<le> i * w)" using i assms(1,2) by simp
  ultimately show ?case using r(1) by (subst count_rows.simps) simp
qed

text \<open>A file that holds a grid: at least one row and column, cells that are not newlines.\<close>

definition grid_file :: "nat \<Rightarrow> nat \<Rightarrow> grid \<Rightarrow> bool" where
  "grid_file m n g \<longleftrightarrow> is_grid m n g \<and> 0 < m \<and> 0 < n \<and> 2 * n \<le> 20010 \<and> (\<forall>row \<in> set g. NL \<notin> set row)"

text \<open>The state at the beginning of a round: no round yet, or earlier rounds on a grid of \<open>m\<close> rows.\<close>

definition round_start :: "nat \<Rightarrow> life_state \<Rightarrow> bool" where
  "round_start m s \<longleftrightarrow> length (tmp_buffer s) = 20010 \<and> (life_m s = 0 \<or> life_m s = m)"

lemma file_read_length: "len \<le> length buf \<Longrightarrow> length (fst (file_read fd pos len buf)) = length buf"
  by (auto simp: file_read_def Let_def split: option.splits)

lemma first_read:
  assumes "grid_file m n g" and "length buf = 20010"
  shows "scan_width 0 (fst (file_read (Some (text_grid g)) 0 20010 buf)) n0 = Some (2 * n)"
proof -
  obtain r rs where g: "g = r # rs" using assms(1) by (cases g) (auto simp: grid_file_def is_grid_def)
  have r: "length r = n" "NL \<notin> set r" "r \<noteq> []" and n: "0 < n" "2 * n \<le> 20010"
    using assms(1) g by (auto simp: grid_file_def is_grid_def)
  let ?b = "fst (file_read (Some (text_grid g)) 0 20010 buf)"
  have prefix: "?b ! k = text_row r ! k" if "k < 2 * n" for k
    using that n r(1) by (simp add: file_read_def Let_def g text_grid_def nth_append)
  have "scan_width 0 ?b n0 = Some (2 * n - 1 + 1)"
  proof (rule scan_width_first)
    show "?b ! (2 * n - 1) = NL" using prefix [of "2 * n - 1"] n text_row_newline(1) [OF r(3,2)] r(1) by simp
    show "\<forall>k < 2 * n - 1. ?b ! k \<noteq> NL" using prefix text_row_newline(2) [OF r(3,2)] r(1) by simp
    show "2 * n - 1 < length ?b" using n assms(2) file_read_length [of 20010 buf] by simp
  qed (use n in simp_all)
  with n show ?thesis by simp
qed

lemma life_load_text:
  assumes g: "grid_file m n g" and s: "round_start m s" and f: "life_files s path = Some (text_grid g)"
  shows "\<exists>st. life_load junk [prog, path] s = Some st \<and> life_repr m n 0 g st"
proof -
  let ?b = "fst (file_read (Some (text_grid g)) 0 20010 (tmp_buffer s))"
  have gg: "is_grid m n g" and n: "0 < n" "2 * n \<le> 20010" and m: "0 < m" using g by (auto simp: grid_file_def)
  have b: "length ?b = 20010" using s file_read_length [of 20010 "tmp_buffer s"] by (simp add: round_start_def)
  note w = first_read [OF g, of "tmp_buffer s" "life_n s"]
  from count_rows_all [OF length_text_grid [OF gg], of 0 ?b 0] n b obtain buf2 where
    "count_rows (text_grid g) 0 (2 * n) ?b 0 = (m, buf2)" "length buf2 = 20010" by auto
  with s b obtain buf3 where c: "(if life_m s \<noteq> 0 then Some (life_m s, ?b)
      else Some (count_rows (text_grid g) 0 (2 * n) ?b 0)) = Some (m, buf3)" "length buf3 = 20010"
    by (cases "life_m s = 0") (simp_all add: round_start_def)
  have room: "room m n (replicate m (replicate n junk))" by (auto simp: room_def)
  from read_rows_text [OF gg room, of buf3] n c(2) obtain matrix buf4 where
    "read_rows (Some (text_grid g)) m (2 * n) buf3 (replicate m (replicate n junk)) = Some (matrix, buf4, m * (2 * n))"
    "room m n matrix" "map (take n) matrix = g" "length buf4 = 20010" by auto
  with s c(1) w f gg n room show ?thesis
    by (auto simp: life_load_def Let_def round_start_def)
qed

section \<open>Properties\<close>

lemma around_iff: "(a, b) \<in> set (around i j) \<longleftrightarrow> (a, b) \<noteq> (i, j) \<and> \<bar>a - i\<bar> \<le> 1 \<and> \<bar>b - j\<bar> \<le> 1"
proof -
  have near: "\<bar>x - y\<bar> \<le> 1 \<longleftrightarrow> x = y - 1 \<or> x = y \<or> x = y + 1" for x y :: int by arith
  show ?thesis unfolding near around_def by (cases "a = i"; cases "b = j") auto
qed

lemma neighbours_card:
  "neighbours m n g i j = card {(a, b). a < m \<and> b < n \<and> (a, b) \<noteq> (i, j) \<and>
     \<bar>int a - int i\<bar> \<le> 1 \<and> \<bar>int b - int j\<bar> \<le> 1 \<and> g ! a ! b = CHR ''1''}" (is "_ = card ?N")
proof -
  have "distinct (around (int i) (int j))" by (simp add: around_def)
  then have "neighbours m n g i j = card {p \<in> set (around (int i) (int j)). alive m n g p}"
    unfolding neighbours_def by (simp flip: set_filter add: distinct_card)
  also have "{p \<in> set (around (int i) (int j)). alive m n g p} = map_prod int int ` ?N" (is "?A = _")
  proof (intro equalityI subsetI)
    fix p assume p: "p \<in> ?A"
    obtain a b where ab: "p = (a, b)" by (cases p)
    with p have a: "a = int (nat a)" "b = int (nat b)" "nat a < m" "nat b < n" "g ! nat a ! nat b = CHR ''1''"
      by (auto simp: alive_def nat_less_iff)
    from p ab have r: "(a, b) \<noteq> (int i, int j)" "\<bar>a - int i\<bar> \<le> 1" "\<bar>b - int j\<bar> \<le> 1"
      by (simp_all add: around_iff)
    have "(nat a, nat b) \<in> ?N" using a r by auto
    moreover have "p = map_prod int int (nat a, nat b)" using ab a(1,2) by simp
    ultimately show "p \<in> map_prod int int ` ?N" by (rule rev_image_eqI)
  next
    fix p assume "p \<in> map_prod int int ` ?N"
    then obtain a b where ab: "p = (int a, int b)" "(a, b) \<in> ?N" by auto
    then have "(int a, int b) \<in> set (around (int i) (int j))" by (simp add: around_iff)
    with ab show "p \<in> ?A" by (simp add: alive_def)
  qed
  also have "card (map_prod int int ` ?N) = card ?N"
    by (rule card_image) (auto intro: inj_on_subset [OF prod.inj_map])
  finally show ?thesis .
qed

text \<open>
  C23. The nine border cases of \<open>living_cell_count\<close> are the Moore neighbourhood: on every
  cell of a grid of at least two rows and two columns no read leaves the grid and the
  result is the number of living cells at distance at most one, the cell itself excluded.
\<close>

theorem living_cell_count_correct:
  assumes "is_grid m n g" and "2 \<le> m" and "2 \<le> n" and "i < m" and "j < n"
  shows "living_cell_count g (int i) (int j) (int m - 1) (int n - 1) =
     Some (card {(a, b). a < m \<and> b < n \<and> (a, b) \<noteq> (i, j) \<and>
       \<bar>int a - int i\<bar> \<le> 1 \<and> \<bar>int b - int j\<bar> \<le> 1 \<and> g ! a ! b = CHR ''1''})"
proof -
  have "room m n g" using assms(1) by (auto simp: is_grid_def room_def)
  from living_cell_count_neighbours [OF this assms(2-5)] show ?thesis by (simp add: neighbours_card)
qed

abbreviation sample_grid :: grid where
  "sample_grid \<equiv> [''011'', ''110'', ''101'', ''010'', ''111'']"

theorem living_cell_count_correct_witness:
  "living_cell_count sample_grid (int 2) (int 1) (int 5 - 1) (int 3 - 1) =
     Some (card {(a, b). a < 5 \<and> b < 3 \<and> (a, b) \<noteq> (2, 1) \<and>
       \<bar>int a - int 2\<bar> \<le> 1 \<and> \<bar>int b - int 1\<bar> \<le> 1 \<and> sample_grid ! a ! b = CHR ''1''})"
  by (rule living_cell_count_correct) (simp_all add: is_grid_def)

text \<open>
  The sequential driver: for a file that holds a grid of at least two by two cells
  and \<open>gens\<close> generations (fewer than 10 to the 8, so that the file names fit their
  buffer), the round ends and \<open>output.matrix\<close> holds the grid after \<open>gens\<close> applications of
  the rule, in the format of the input.
\<close>

theorem life_sequential_output:
  assumes "grid_file m n g" and "2 \<le> m" and "2 \<le> n" and "round_start m s"
    and "life_files s path = Some (text_grid g)" and "0 < gens" and "int gens < 10 ^ 8"
  shows "\<exists>s'. life_round junk [prog, path] 2 (int gens) workers sched s = Some s' \<and>
     life_files s' ''output.matrix'' = Some (text_grid ((life_next m n ^^ gens) g)) \<and> life_m s' = m"
proof -
  obtain st where "life_load junk [prog, path] s = Some st" "life_repr m n 0 g st"
    using life_load_text [OF assms(1,4,5)] by blast
  with seq.run_output [OF TrueI assms(2,3) _ assms(7,6), of g st junk] show ?thesis
    by (simp add: life_round_def)
qed

abbreviation sample_state :: life_state where
  "sample_state \<equiv> \<lparr>life_files = (\<lambda>f. if f = ''in'' then Some (text_grid sample_grid) else None),
     life_m = 0, life_n = 0, tmp_buffer = replicate 20010 NUL, generation_filename = []\<rparr>"

lemma sample_ok: "grid_file 5 3 sample_grid" "round_start 5 sample_state"
  "life_files sample_state ''in'' = Some (text_grid sample_grid)"
  by (simp_all add: grid_file_def is_grid_def round_start_def)

theorem life_sequential_output_witness:
  "\<exists>s'. life_round NUL [''prog'', ''in''] 2 (int 3) 0 (\<lambda>_. []) sample_state = Some s' \<and>
     life_files s' ''output.matrix'' = Some (text_grid ((life_next 5 3 ^^ 3) sample_grid)) \<and> life_m s' = 5"
  by (rule life_sequential_output [OF sample_ok(1) _ _ sample_ok(2,3)]) simp_all




text \<open>
  The process driver gives the same output file when the block of every child starts
  inside the grid or right behind it, and the file is smaller than 2 to the 31 bytes.
\<close>

theorem life_process_output:
  assumes "grid_file m n g" and "2 \<le> m" and "2 \<le> n" and "round_start m s"
    and "life_files s path = Some (text_grid g)" and "0 < gens" and "int gens < 10 ^ 8"
    and "0 < p" and "(p - 1) * handle_number m p \<le> m" and "m * (2 * n) < 2 ^ 31"
  shows "\<exists>s'. life_round junk [prog, path] 3 (int gens) (int p) sched s = Some s' \<and>
     life_files s' ''output.matrix'' = Some (text_grid ((life_next m n ^^ gens) g)) \<and> life_m s' = m"
proof -
  have "blocks_fit p m" using assms(8,9) by (simp add: blocks_fit_def)
  moreover obtain st where "life_load junk [prog, path] s = Some st" "life_repr m n 0 g st"
    using life_load_text [OF assms(1,4,5)] by blast
  moreover note process.run_output [OF _ assms(2,3) _ assms(7,6), of p g st junk]
  ultimately show ?thesis using assms(8,10) by (simp add: life_round_def)
qed

theorem life_process_output_witness:
  "\<exists>s'. life_round NUL [''prog'', ''in''] 3 (int 3) (int 3) (\<lambda>_. []) sample_state = Some s' \<and>
     life_files s' ''output.matrix'' = Some (text_grid ((life_next 5 3 ^^ 3) sample_grid)) \<and> life_m s' = 5"
  by (rule life_process_output [OF sample_ok(1) _ _ sample_ok(2,3)]) (simp_all add: handle_number_def)

lemma for_upto_fails:
  assumes "k < n" and "\<And>t. body k t = None" and "i \<le> k"
  shows "for_upto i n body s = None"
  using assms(3)
proof (induction "k - i" arbitrary: i s)
  case 0
  with assms(1,2) show ?case by (simp add: for_upto_step)
next
  case (Suc d)
  then have "i < n" "d = k - Suc i" "Suc i \<le> k" using assms(1) by auto
  with Suc.hyps(1) [of "Suc i"] show ?case by (cases "body i s") (simp_all add: for_upto_step)
qed

lemma child_outside:
  assumes "room m n matrix" and "2 \<le> m" and "2 \<le> n" and "0 < h" and "m < i * h"
  shows "child_rows junk m n h matrix i 0 st = None"
  using write_row_outside [OF assms(1-3,5), of junk "fst st" "snd st"] assms(4,5) c_int_cases [of "i * h"]
  by (subst child_rows.simps) auto

text \<open>
  When the block of some child starts further down, as for 5 rows and 4 processes
  with 2 rows each, the test \<open>index == m\<close> misses and the child computes a row outside the
  matrix: the round has undefined behaviour.
\<close>

theorem life_process_outside:
  assumes "grid_file m n g" and "2 \<le> m" and "2 \<le> n" and "round_start m s"
    and "life_files s path = Some (text_grid g)" and "0 < gens"
    and "0 < p" and "m < (p - 1) * handle_number m p"
  shows "life_round junk [prog, path] 3 (int gens) (int p) sched s = None"
proof -
  obtain s0 matrix nx where st: "life_load junk [prog, path] s = Some (s0, matrix, nx)"
    and r: "life_repr m n 0 g (s0, matrix, nx)"
    using life_load_text [OF assms(1,4,5)] by (metis prod_cases3)
  let ?h = "handle_number m p"
  have h: "0 < ?h" using assms(2,7) by (intro handle_number_pos) auto
  have room: "room m n matrix" using r by simp
  note out = child_outside [OF room assms(2,3) h assms(8)]
  have loop: "for_upto 0 p (\<lambda>i f. do { (_, f') \<leftarrow> child_rows junk m n ?h matrix i 0 (nx, f); Some f' }) [] = None"
    by (rule for_upto_fails [where k = "p - 1"]) (use assms(7) out in simp_all)
  have gen: "process_generation junk p 0 (s0, matrix, nx) = None"
    using r loop by (simp add: process_generation_def reload_par_def Let_def Option.bind_eq_None_conv)
  have "for_upto 0 gens (process_generation junk p) (s0, matrix, nx) = None"
    using assms(6) gen by (simp add: for_upto_step)
  then have "run_generations (process_generation junk p) (int gens) (s0, matrix, nx) = None"
    by (simp add: run_generations_def)
  with st assms(7) show ?thesis by (simp add: life_round_def)
qed

theorem life_process_outside_witness:
  "life_round NUL [''prog'', ''in''] 3 (int 1) (int 4) (\<lambda>_. []) sample_state = None"
  by (rule life_process_outside [OF sample_ok(1) _ _ sample_ok(2,3)]) (simp_all add: handle_number_def)

text \<open>
  Loading is the inverse of printing: on a file that holds the text of a grid the
  loader leaves exactly that grid in memory, with its dimensions, whatever the memory and
  the read buffer held before.
\<close>

theorem load_text_roundtrip:
  assumes "grid_file m n g" and "round_start m s" and "life_files s path = Some (text_grid g)"
  shows "\<exists>s' matrix nx. life_load junk [prog, path] s = Some (s', matrix, nx) \<and>
     life_m s' = m \<and> life_n s' = n \<and> map (take n) matrix = g"
proof -
  obtain s' matrix nx where "life_load junk [prog, path] s = Some (s', matrix, nx)"
    "life_repr m n 0 g (s', matrix, nx)" using life_load_text [OF assms] by (metis prod_cases3)
  then show ?thesis by simp
qed

theorem load_text_roundtrip_witness:
  "\<exists>s' matrix nx. life_load NUL [''prog'', ''in''] sample_state = Some (s', matrix, nx) \<and>
     life_m s' = 5 \<and> life_n s' = 3 \<and> map (take 3) matrix = sample_grid"
  by (rule load_text_roundtrip [OF sample_ok])

end
