(* ===== verification/Intersection.thy ===== *)
theory Intersection
  imports Prelude
begin

text \<open>
  The traffic intersection (assignment 6): the shared state, the waiting set of vehicles
  in \<open>arr[15]\<close>, and the body that each of the four vehicle threads executes between two
  waits on its condition variable.

  \<open>start_list[indx]\<close> is evaluated even when \<open>indx\<close> has reached the length of the list;
  the parameter \<open>junk\<close> is what such a read returns, and also the value of the
  uninitialised \<open>ret\<close> in \<open>getItem\<close>. The parameter \<open>rnd\<close> is the sequence of results of
  \<open>rand\<close>; \<open>rand_pos\<close> counts the calls.
\<close>

record ix_state =
  tick :: nat
  input :: nat
  start_list :: "int list"
  indx :: nat
  P1 :: nat
  P2 :: nat
  P3 :: nat
  P4 :: nat
  passed :: int
  arr :: "int list"
  howMany :: nat
  rand_pos :: nat
  ix_out :: string

section \<open>The waiting set\<close>

definition printMovingCar :: "ix_state \<Rightarrow> ix_state" where
  "printMovingCar s = s\<lparr>passed := 0, ix_out := ix_out s @ ''tick : '' @ show_nat (tick s) @ [NL] @ ''============='' @ [NL] @
      ''Passed Vehicle'' @ [NL] @ ''Car '' @ (if passed s \<noteq> 0 then show_int (passed s) else []) @ [NL]\<rparr>"

definition print_waiting :: "ix_state \<Rightarrow> string option" where
  "print_waiting s =
     (if tick s > 1
      then for_upto 0 (howMany s) (\<lambda>i out. do { x \<leftarrow> rd (arr s) i; Some (out @ show_int x @ '' '') }) []
      else Some [])"

definition printWaitingList :: "ix_state \<Rightarrow> ix_state option" where
  "printWaitingList s = do {
     cars \<leftarrow> print_waiting s;
     Some (s\<lparr>ix_out := ix_out s @ ''Waiting Vehicle'' @ [NL] @ ''Car '' @ cars @ [NL] @ ''==========='' @ [NL]\<rparr>) }"

definition next_start :: "int \<Rightarrow> ix_state \<Rightarrow> int" where
  "next_start junk s = (case rd (start_list s) (indx s) of Some x \<Rightarrow> x | None \<Rightarrow> junk)"

definition addSet :: "int \<Rightarrow> ix_state \<Rightarrow> ix_state option" where
  "addSet add s =
     (if indx s < input s
      then do {
        a \<leftarrow> wr (arr s) (howMany s) add;
        Some (s\<lparr>arr := a, howMany := howMany s + 1, indx := indx s + 1\<rparr>) }
      else Some s)"

definition shift_left :: "nat \<Rightarrow> nat \<Rightarrow> int list \<Rightarrow> int list option" where
  "shift_left i n a = for_upto i n (\<lambda>j a. do { x \<leftarrow> rd a (j + 1); wr a j x }) a"

definition getItem :: "int \<Rightarrow> (nat \<Rightarrow> nat) \<Rightarrow> ix_state \<Rightarrow> (int \<times> ix_state) option" where
  "getItem junk rnd s =
     (if howMany s \<noteq> 0
      then do {
        let ret_index = rnd (rand_pos s) mod howMany s;
        ret \<leftarrow> rd (arr s) ret_index;
        a \<leftarrow> shift_left ret_index (howMany s - 1) (arr s);
        Some (ret, s\<lparr>arr := a, howMany := howMany s - 1, rand_pos := rand_pos s + 1\<rparr>) }
      else Some (junk, s))"

definition isEmpty :: "ix_state \<Rightarrow> bool" where
  "isEmpty s \<longleftrightarrow> howMany s \<le> 0"

function find_car_from :: "nat \<Rightarrow> nat \<Rightarrow> int list \<Rightarrow> int \<Rightarrow> nat option option" where
  "find_car_from i n a c =
     (if i < n then do { x \<leftarrow> rd a i; if x = c then Some (Some i) else find_car_from (Suc i) n a c }
      else Some None)"
  by pat_completeness auto
termination
  by (relation "measure (\<lambda>(i, n, _, _). n - i)") auto

declare find_car_from.simps [simp del]

definition find_car :: "int \<Rightarrow> ix_state \<Rightarrow> bool option" where
  "find_car n s = do { r \<leftarrow> find_car_from 0 (howMany s) (arr s) n; Some (r \<noteq> None) }"

definition removeItem :: "int \<Rightarrow> ix_state \<Rightarrow> ix_state option" where
  "removeItem n s = do {
     r \<leftarrow> find_car_from 0 (howMany s) (arr s) n;
     a \<leftarrow> (case r of Some i \<Rightarrow> shift_left i (howMany s - 1) (arr s) | None \<Rightarrow> Some (arr s));
     Some (s\<lparr>arr := a, howMany := (if howMany s > 0 then howMany s - 1 else howMany s)\<rparr>) }"

section \<open>The thread bodies\<close>

definition total_passed :: "ix_state \<Rightarrow> nat" where
  "total_passed s = P1 s + P2 s + P3 s + P4 s"

definition count_passed :: "int \<Rightarrow> ix_state \<Rightarrow> ix_state" where
  "count_passed k s =
     (if k = 1 then s\<lparr>P1 := P1 s + 1\<rparr> else if k = 2 then s\<lparr>P2 := P2 s + 1\<rparr>
      else if k = 3 then s\<lparr>P3 := P3 s + 1\<rparr> else s\<lparr>P4 := P4 s + 1\<rparr>)"

text \<open>The start point whose vehicles may cross together with those of \<open>k\<close>.\<close>

definition opposite :: "int \<Rightarrow> int" where
  "opposite k = (if k = 1 then 3 else if k = 2 then 4 else if k = 3 then 1 else 2)"

text \<open>
  What a thread does at the end of its body: signal the thread of a waiting vehicle and
  go back to its own wait, jump to \<open>GO\<close>, wake everybody up and exit, or go back to the
  wait without a signal.
\<close>

datatype ix_action = Signal int | Go_Again | Finish | No_Signal

text \<open>The body of thread \<open>k\<close> from the label \<open>GO\<close>.\<close>

definition thread_body :: "int \<Rightarrow> (nat \<Rightarrow> nat) \<Rightarrow> int \<Rightarrow> ix_state \<Rightarrow> (ix_state \<times> ix_action) option" where
  "thread_body junk rnd k s = do {
     s1 \<leftarrow> printWaitingList (printMovingCar s);
     let s2 = count_passed k (s1\<lparr>tick := tick s1 + 1\<rparr>);
     s3 \<leftarrow> addSet (next_start junk s2) s2;
     let s4 = s3\<lparr>passed := k\<rparr>;
     found \<leftarrow> find_car (opposite k) s4;
     if found
     then do {
       s5 \<leftarrow> removeItem (opposite k) s4;
       Some (s5, Signal (opposite k)) }
     else do {
       s5 \<leftarrow> printWaitingList (printMovingCar s4);
       let s6 = s5\<lparr>tick := tick s5 + 1\<rparr>;
       s7 \<leftarrow> addSet (next_start junk s6) s6;
       (item, s8) \<leftarrow> getItem junk rnd s7;
       if total_passed s8 = input s8
       then do {
         s9 \<leftarrow> printWaitingList (printMovingCar s8);
         Some (s9, Finish) }
       else if item = k then Some (s8, Go_Again)
       else if 1 \<le> item \<and> item \<le> 4 then Some (s8, Signal item)
       else Some (s8, No_Signal) } }"

section \<open>The waiting set as a list\<close>

definition waiting :: "ix_state \<Rightarrow> int list" where
  "waiting s = take (howMany s) (arr s)"

definition set_ok :: "ix_state \<Rightarrow> bool" where
  "set_ok s \<longleftrightarrow> length (arr s) = 15 \<and> howMany s \<le> 15"

lemma length_waiting: "set_ok s \<Longrightarrow> length (waiting s) = howMany s"
  by (simp add: waiting_def set_ok_def)

lemma shift_left_take:
  assumes "i \<le> n" and "n < length a"
  shows "\<exists>b. shift_left i n a = Some b \<and> length b = length a \<and> take n b = take i a @ drop (Suc i) (take (Suc n) a)"
proof -
  have "\<exists>b. shift_left i n a = Some b \<and> length b = length a \<and>
     (\<forall>j < length a. b ! j = (if i \<le> j \<and> j < n then a ! Suc j else a ! j))"
    unfolding shift_left_def
  proof (rule for_upto_rule [where I = "\<lambda>k b. length b = length a \<and>
      (\<forall>j < length a. b ! j = (if i \<le> j \<and> j < k then a ! Suc j else a ! j))"])
    fix k b assume "i \<le> k" "k < n" and b: "length b = length a \<and>
      (\<forall>j < length a. b ! j = (if i \<le> j \<and> j < k then a ! Suc j else a ! j))"
    with assms show "\<exists>b'. (do { x \<leftarrow> rd b (k + 1); wr b k x }) = Some b' \<and> length b' = length a \<and>
       (\<forall>j < length a. b' ! j = (if i \<le> j \<and> j < Suc k then a ! Suc j else a ! j))"
      by (auto simp: nth_list_update less_Suc_eq)
  qed (use assms in auto)
  then obtain b where b: "shift_left i n a = Some b" "length b = length a"
    "\<forall>j < length a. b ! j = (if i \<le> j \<and> j < n then a ! Suc j else a ! j)" by blast
  have "take n b = take i a @ drop (Suc i) (take (Suc n) a)"
    using assms b(2,3) by (intro nth_equalityI) (auto simp: nth_append)
  with b show ?thesis by blast
qed

lemma mset_delete_nth: "i < length xs \<Longrightarrow> mset xs = add_mset (xs ! i) (mset (take i xs @ drop (Suc i) xs))"
  by (subst id_take_nth_drop [of i xs]) simp_all

lemma addSet_waiting:
  assumes "set_ok s" and "indx s < input s \<Longrightarrow> howMany s < 15"
  shows "\<exists>s'. addSet x s = Some s' \<and> set_ok s' \<and>
     s' = s\<lparr>arr := arr s', howMany := howMany s', indx := indx s'\<rparr> \<and>
     indx s' = (if indx s < input s then indx s + 1 else indx s) \<and>
     waiting s' = (if indx s < input s then waiting s @ [x] else waiting s)"
  using assms by (auto simp: addSet_def set_ok_def waiting_def take_Suc_conv_app_nth)

lemma getItem_waiting:
  assumes "set_ok s" and "waiting s \<noteq> []"
  shows "\<exists>x s'. getItem junk rnd s = Some (x, s') \<and> set_ok s' \<and>
     s' = s\<lparr>arr := arr s', howMany := howMany s', rand_pos := rand_pos s'\<rparr> \<and>
     mset (waiting s) = add_mset x (mset (waiting s'))"
proof -
  have n: "0 < howMany s" "length (arr s) = 15" "howMany s \<le> 15"
    using assms by (auto simp: set_ok_def waiting_def)
  let ?i = "rnd (rand_pos s) mod howMany s"
  have i: "?i < howMany s" using n by simp
  then have "?i \<le> howMany s - 1" "howMany s - 1 < length (arr s)" using n by linarith+
  from shift_left_take [OF this] n obtain a where
    a: "shift_left ?i (howMany s - 1) (arr s) = Some a" "length a = 15"
      "take (howMany s - 1) a = take ?i (arr s) @ drop (Suc ?i) (waiting s)" by (auto simp: waiting_def)
  have "take ?i (arr s) = take ?i (waiting s)" "waiting s ! ?i = arr s ! ?i"
    using i by (simp_all add: waiting_def min_absorb1)
  with mset_delete_nth [of ?i "waiting s"] i a(3) length_waiting [OF assms(1)]
  have "mset (waiting s) = add_mset (arr s ! ?i) (mset (take (howMany s - 1) a))" by simp
  moreover have "rd (arr s) ?i = Some (arr s ! ?i)" using i n by (intro rd_in) linarith
  ultimately show ?thesis
    using n a(1,2) by (simp add: getItem_def Let_def set_ok_def waiting_def [of "_\<lparr>rand_pos := _\<rparr>"])
qed

lemma find_car_from_result:
  assumes "n \<le> length a"
  shows "\<exists>r. find_car_from i n a c = Some r \<and>
     (case r of Some j \<Rightarrow> i \<le> j \<and> j < n \<and> a ! j = c | None \<Rightarrow> \<forall>j. i \<le> j \<and> j < n \<longrightarrow> a ! j \<noteq> c)"
  using assms
proof (induction i n a c rule: find_car_from.induct)
  case (1 i n a c)
  show ?case
  proof (cases "i < n")
    case True
    with "1.prems" have rd: "rd a i = Some (a ! i)" by simp
    show ?thesis
    proof (cases "a ! i = c")
      case hit: True
      with True rd show ?thesis by (subst find_car_from.simps) simp
    next
      case miss: False
      from "1.IH" [OF True rd miss "1.prems"] obtain r where r: "find_car_from (Suc i) n a c = Some r"
        "case r of Some j \<Rightarrow> Suc i \<le> j \<and> j < n \<and> a ! j = c | None \<Rightarrow> \<forall>j. Suc i \<le> j \<and> j < n \<longrightarrow> a ! j \<noteq> c" by blast
      have "find_car_from i n a c = Some r" using True rd miss r(1) by (subst find_car_from.simps) simp
      moreover have "case r of Some j \<Rightarrow> i \<le> j \<and> j < n \<and> a ! j = c | None \<Rightarrow> \<forall>j. i \<le> j \<and> j < n \<longrightarrow> a ! j \<noteq> c"
        using r(2) miss by (auto split: option.splits) (metis Suc_leI le_neq_implies_less)
      ultimately show ?thesis by blast
    qed
  next
    case False
    then show ?thesis by (subst find_car_from.simps) simp
  qed
qed

lemma find_car_waiting: "set_ok s \<Longrightarrow> find_car c s = Some (c \<in> set (waiting s))"
proof -
  assume s: "set_ok s"
  then have n: "howMany s \<le> length (arr s)" by (simp add: set_ok_def)
  from find_car_from_result [OF n, of 0 c] obtain r where
    "find_car_from 0 (howMany s) (arr s) c = Some r"
    "case r of Some j \<Rightarrow> j < howMany s \<and> arr s ! j = c | None \<Rightarrow> \<forall>j < howMany s. arr s ! j \<noteq> c"
    by (auto split: option.splits)
  then show ?thesis
    using n by (cases r) (auto simp: find_car_def waiting_def in_set_conv_nth)
qed

lemma removeItem_waiting:
  assumes "set_ok s" and "c \<in> set (waiting s)"
  shows "\<exists>s'. removeItem c s = Some s' \<and> set_ok s' \<and> s' = s\<lparr>arr := arr s', howMany := howMany s'\<rparr> \<and>
     mset (waiting s) = add_mset c (mset (waiting s'))"
proof -
  have n: "howMany s \<le> length (arr s)" "length (arr s) = 15" "howMany s \<le> 15" using assms by (auto simp: set_ok_def)
  from find_car_from_result [OF n(1), of 0 c] obtain r where r:
    "find_car_from 0 (howMany s) (arr s) c = Some r"
    "case r of Some j \<Rightarrow> j < howMany s \<and> arr s ! j = c | None \<Rightarrow> \<forall>j < howMany s. arr s ! j \<noteq> c"
    by (auto split: option.splits)
  with assms(2) obtain i where i: "r = Some i" "i < howMany s" "arr s ! i = c"
    by (cases r) (auto simp: waiting_def in_set_conv_nth)
  then have "i \<le> howMany s - 1" "howMany s - 1 < length (arr s)" using n by simp_all
  from shift_left_take [OF this] n i(2) obtain a where
    a: "shift_left i (howMany s - 1) (arr s) = Some a" "length a = 15"
      "take (howMany s - 1) a = take i (arr s) @ drop (Suc i) (waiting s)" by (auto simp: waiting_def)
  have "take i (arr s) = take i (waiting s)" "waiting s ! i = c"
    using i by (simp_all add: waiting_def min_absorb1)
  with mset_delete_nth [of i "waiting s"] i(2) a(3) length_waiting [OF assms(1)]
  have "mset (waiting s) = add_mset c (mset (take (howMany s - 1) a))" by simp
  then show ?thesis
    using i n a(1,2) r(1) by (simp add: removeItem_def set_ok_def waiting_def [of "_\<lparr>howMany := _\<rparr>"])
qed

end
