(* ===== verification/Intersection_Run.thy ===== *)
theory Intersection_Run
  imports Intersection
begin

text \<open>
  The four vehicle threads together. A vehicle is always in exactly one place: not yet
  arrived, waiting in the set, crossing (its thread has the turn) or passed. The first part
  shows that a thread body keeps this book-keeping, the second part models the threads
  with their condition variables as a step relation.
\<close>

section \<open>The threads and the main program\<close>

text \<open>
  A thread is on its way to \<open>pthread_cond_wait\<close> (after its creation or after it signalled
  another thread), waits, has been woken up, is at the label \<open>GO\<close>, or has exited. A signal
  for a thread that does not wait is lost. \<open>pthread_cond_wait\<close> may also return without a signal; the steps take such
  spurious wake-ups only with the parameter \<open>spur\<close>. A body is one step, which is right as long as
  no two threads are in their bodies at the same time, since each thread has a mutex of its own.
\<close>

datatype ix_phase = Starting | Waiting | Woken | Going | Exited

record ix_config =
  main_done :: bool
  phase :: "int \<Rightarrow> ix_phase"
  shared :: ix_state

definition signal_car :: "int \<Rightarrow> (int \<Rightarrow> ix_phase) \<Rightarrow> (int \<Rightarrow> ix_phase)" where
  "signal_car j ph = (if ph j = Waiting then ph(j := Woken) else ph)"

text \<open>The end of a body of thread \<open>k\<close>.\<close>

definition end_body :: "int \<Rightarrow> ix_action \<Rightarrow> (int \<Rightarrow> ix_phase) \<Rightarrow> (int \<Rightarrow> ix_phase)" where
  "end_body k act ph =
     (case act of
        Signal j \<Rightarrow> signal_car j (ph(k := Starting))
      | Go_Again \<Rightarrow> ph(k := Going)
      | No_Signal \<Rightarrow> ph(k := Starting)
      | Finish \<Rightarrow> fold signal_car (filter (\<lambda>j. j \<noteq> k) [1, 2, 3, 4]) (ph(k := Exited)))"

definition first_item :: "int \<Rightarrow> ix_state \<Rightarrow> int" where
  "first_item junk s = (case rd (start_list s) 0 of Some x \<Rightarrow> x | None \<Rightarrow> junk)"

inductive ix_step :: "bool \<Rightarrow> int \<Rightarrow> (nat \<Rightarrow> nat) \<Rightarrow> ix_config \<Rightarrow> ix_config \<Rightarrow> bool" for spur junk rnd where
  wait: "1 \<le> k \<Longrightarrow> k \<le> 4 \<Longrightarrow> phase c k = Starting \<Longrightarrow> ix_step spur junk rnd c (c\<lparr>phase := (phase c)(k := Waiting)\<rparr>)"
| main_signal: "\<not> main_done c \<Longrightarrow>
    ix_step spur junk rnd c (c\<lparr>main_done := True, phase := signal_car (first_item junk (shared c)) (phase c)\<rparr>)"
| leave: "1 \<le> k \<Longrightarrow> k \<le> 4 \<Longrightarrow> phase c k = Woken \<Longrightarrow> total_passed (shared c) = input (shared c) \<Longrightarrow>
    ix_step spur junk rnd c (c\<lparr>phase := (phase c)(k := Exited)\<rparr>)"
| body: "1 \<le> k \<Longrightarrow> k \<le> 4 \<Longrightarrow> phase c k = Going \<or> phase c k = Woken \<and> total_passed (shared c) \<noteq> input (shared c) \<Longrightarrow>
    thread_body junk rnd k (shared c) = Some (s', act) \<Longrightarrow>
    ix_step spur junk rnd c (c\<lparr>phase := end_body k act (phase c), shared := s'\<rparr>)"
| spurious: "spur \<Longrightarrow> 1 \<le> k \<Longrightarrow> k \<le> 4 \<Longrightarrow> phase c k = Waiting \<Longrightarrow>
    ix_step spur junk rnd c (c\<lparr>phase := (phase c)(k := Woken)\<rparr>)"

inductive_cases ix_stepE: "ix_step spur junk rnd c c'"

text \<open>The state after the creation of the threads, for \<open>n\<close> vehicles.\<close>

definition ix_start :: "(nat \<Rightarrow> nat) \<Rightarrow> nat \<Rightarrow> ix_state" where
  "ix_start rnd n =
     (let cars = map (\<lambda>i. int (rnd i mod 4) + 1) [0..<n]
      in \<lparr>tick = 1, input = n, start_list = cars, indx = 1, P1 = 0, P2 = 0, P3 = 0, P4 = 0, passed = 0,
          arr = replicate 15 0, howMany = 0, rand_pos = n,
          ix_out = ''Total number of vehicles : '' @ ''Start point : '' @ concat (map (\<lambda>x. show_int x @ '' '') cars) @ [NL]\<rparr>)"

definition ix_init :: "(nat \<Rightarrow> nat) \<Rightarrow> nat \<Rightarrow> ix_config" where
  "ix_init rnd n = \<lparr>main_done = False, phase = (\<lambda>_. Starting), shared = ix_start rnd n\<rparr>"

text \<open>
  The run in which no signal is lost: every thread reaches its wait before it is
  signalled, so the turn passes from body to body.
\<close>

datatype ix_result = Ix_Undefined | Ix_Lost ix_state | Ix_Running int ix_state | Ix_Done ix_state

fun ix_run :: "int \<Rightarrow> (nat \<Rightarrow> nat) \<Rightarrow> nat \<Rightarrow> int \<Rightarrow> ix_state \<Rightarrow> ix_result" where
  "ix_run junk rnd 0 k s = Ix_Running k s"
| "ix_run junk rnd (Suc f) k s =
     (case thread_body junk rnd k s of
        None \<Rightarrow> Ix_Undefined
      | Some (s', Signal j) \<Rightarrow> ix_run junk rnd f j s'
      | Some (s', Go_Again) \<Rightarrow> ix_run junk rnd f k s'
      | Some (s', Finish) \<Rightarrow> Ix_Done s'
      | Some (s', No_Signal) \<Rightarrow> Ix_Lost s')"

definition ix_report :: "ix_state \<Rightarrow> string" where
  "ix_report s = ix_out s @ ''Number of vehicles passed from each start point'' @ [NL] @
     ''P1 : '' @ show_nat (P1 s) @ [NL] @ ''P2 : '' @ show_nat (P2 s) @ [NL] @
     ''P3 : '' @ show_nat (P3 s) @ [NL] @ ''P4 : '' @ show_nat (P4 s) @ [NL] @
     ''Total time : '' @ show_nat (tick s) @ '' ticks'' @ [NL]"

section \<open>The book-keeping of vehicles\<close>

definition crossed :: "ix_state \<Rightarrow> int multiset" where
  "crossed s = replicate_mset (P1 s) 1 + replicate_mset (P2 s) 2 + replicate_mset (P3 s) 3 + replicate_mset (P4 s) 4"

text \<open>\<open>m\<close> is the vehicle that has the turn, or nothing.\<close>

definition ix_base :: "ix_state \<Rightarrow> int multiset \<Rightarrow> bool" where
  "ix_base s m \<longleftrightarrow> set_ok s \<and> length (start_list s) = input s \<and> set (start_list s) \<subseteq> {1..4} \<and>
     indx s \<le> input s \<and> mset (take (indx s) (start_list s)) = crossed s + m + mset (waiting s)"

lemma size_crossed: "size (crossed s) = total_passed s"
  by (simp add: crossed_def total_passed_def)

lemma ix_base_size:
  assumes "ix_base s m"
  shows "indx s = total_passed s + size m + howMany s"
proof -
  have "length (take (indx s) (start_list s)) = indx s" using assms by (auto simp: ix_base_def)
  then have "indx s = size (mset (take (indx s) (start_list s)))" by (simp only: size_mset)
  also have "\<dots> = size (crossed s + m + mset (waiting s))" using assms by (simp only: ix_base_def)
  finally show ?thesis using assms by (simp add: ix_base_def size_crossed length_waiting)
qed

lemma ix_base_frame [simp]:
  "ix_base (s\<lparr>tick := t\<rparr>) m = ix_base s m" "ix_base (s\<lparr>passed := p\<rparr>) m = ix_base s m"
  "ix_base (s\<lparr>ix_out := w\<rparr>) m = ix_base s m" "ix_base (s\<lparr>rand_pos := r\<rparr>) m = ix_base s m"
  "total_passed (s\<lparr>tick := t\<rparr>) = total_passed s" "total_passed (s\<lparr>passed := p\<rparr>) = total_passed s"
  "total_passed (s\<lparr>ix_out := w\<rparr>) = total_passed s" "total_passed (s\<lparr>rand_pos := r\<rparr>) = total_passed s"
  "total_passed (s\<lparr>arr := a\<rparr>) = total_passed s" "total_passed (s\<lparr>howMany := h\<rparr>) = total_passed s"
  "total_passed (s\<lparr>indx := i\<rparr>) = total_passed s"
  "crossed (s\<lparr>arr := a\<rparr>) = crossed s" "crossed (s\<lparr>howMany := h\<rparr>) = crossed s"
  "crossed (s\<lparr>indx := i\<rparr>) = crossed s" "crossed (s\<lparr>rand_pos := r\<rparr>) = crossed s"
  by (simp_all add: ix_base_def set_ok_def crossed_def waiting_def total_passed_def)

lemma print_waiting_total: "set_ok s \<Longrightarrow> \<exists>w. print_waiting s = Some w"
proof -
  assume "set_ok s"
  then have "for_upto 0 (howMany s) (\<lambda>i out. do { x \<leftarrow> rd (arr s) i; Some (out @ show_int x @ '' '') }) [] =
      Some (fold (\<lambda>i out. out @ show_int (arr s ! i) @ '' '') [0..<howMany s] [])"
    by (intro for_upto_fold) (simp add: set_ok_def)
  then show ?thesis by (auto simp: print_waiting_def)
qed

lemma print_step:
  assumes "ix_base s m"
  shows "\<exists>w. printWaitingList (printMovingCar s) = Some (s\<lparr>passed := 0, ix_out := w\<rparr>)"
proof -
  obtain v where v: "printMovingCar s = s\<lparr>passed := 0, ix_out := v\<rparr>" by (auto simp: printMovingCar_def)
  have "set_ok (s\<lparr>passed := 0, ix_out := v\<rparr>)" using assms by (simp add: ix_base_def set_ok_def)
  from print_waiting_total [OF this] obtain w where
    "print_waiting (s\<lparr>passed := 0, ix_out := v\<rparr>) = Some w" by blast
  then show ?thesis unfolding v printWaitingList_def by auto
qed

lemma add_step:
  assumes "ix_base s m" and "indx s < input s \<Longrightarrow> howMany s < 15"
  shows "\<exists>s'. addSet (next_start junk s) s = Some s' \<and> ix_base s' m \<and>
     s' = s\<lparr>arr := arr s', howMany := howMany s', indx := indx s'\<rparr> \<and>
     indx s' = (if indx s < input s then indx s + 1 else indx s)"
proof -
  have ok: "set_ok s" using assms(1) by (simp add: ix_base_def)
  from addSet_waiting [OF ok assms(2), of "next_start junk s"] obtain s' where
    s': "addSet (next_start junk s) s = Some s'" "set_ok s'"
      "s' = s\<lparr>arr := arr s', howMany := howMany s', indx := indx s'\<rparr>"
      "indx s' = (if indx s < input s then indx s + 1 else indx s)"
      "waiting s' = (if indx s < input s then waiting s @ [next_start junk s] else waiting s)" by blast
  have eq: "start_list s' = start_list s" "input s' = input s" "crossed s' = crossed s"
    by (subst s'(3), simp)+
  have "mset (take (indx s') (start_list s)) = crossed s + m + mset (waiting s')"
    using assms(1) s'(4,5) by (auto simp: ix_base_def next_start_def take_Suc_conv_app_nth)
  with assms(1) s' eq have "ix_base s' m" by (auto simp: ix_base_def)
  with s' show ?thesis by blast
qed

lemma count_step:
  assumes "ix_base s (add_mset k m)" and "1 \<le> k" and "k \<le> 4"
  shows "ix_base (count_passed k s) m" and "total_passed (count_passed k s) = Suc (total_passed s)"
proof -
  have "crossed (count_passed k s) = add_mset k (crossed s)"
    using assms(2,3) by (auto simp: count_passed_def crossed_def)
  moreover have "set_ok (count_passed k s) = set_ok s" "start_list (count_passed k s) = start_list s"
    "input (count_passed k s) = input s" "indx (count_passed k s) = indx s" "waiting (count_passed k s) = waiting s"
    by (simp_all add: count_passed_def set_ok_def waiting_def)
  ultimately show "ix_base (count_passed k s) m" using assms(1) by (simp add: ix_base_def)
  show "total_passed (count_passed k s) = Suc (total_passed s)"
    by (simp add: count_passed_def total_passed_def)
qed

lemma waiting_range: "ix_base s m \<Longrightarrow> x \<in> set (waiting s) \<Longrightarrow> 1 \<le> x \<and> x \<le> 4"
proof -
  assume s: "ix_base s m" and x: "x \<in> set (waiting s)"
  then have "x \<in># mset (take (indx s) (start_list s))" by (simp add: ix_base_def)
  then have "x \<in> set (start_list s)" by (auto dest: in_set_takeD)
  with s show ?thesis by (auto simp: ix_base_def)
qed

lemma get_step:
  assumes "ix_base s {#}" and "waiting s \<noteq> []"
  shows "\<exists>x s'. getItem junk rnd s = Some (x, s') \<and> ix_base s' {#x#} \<and> 1 \<le> x \<and> x \<le> 4 \<and>
     s' = s\<lparr>arr := arr s', howMany := howMany s', rand_pos := rand_pos s'\<rparr>"
proof -
  have ok: "set_ok s" using assms(1) by (simp add: ix_base_def)
  from getItem_waiting [OF ok assms(2), of junk rnd] obtain x s' where
    g: "getItem junk rnd s = Some (x, s')" "set_ok s'"
      "s' = s\<lparr>arr := arr s', howMany := howMany s', rand_pos := rand_pos s'\<rparr>"
      "mset (waiting s) = add_mset x (mset (waiting s'))" by blast
  have eq: "start_list s' = start_list s" "input s' = input s" "indx s' = indx s" "crossed s' = crossed s"
    by (subst g(3), simp)+
  have "x \<in> set (waiting s)" using g(4) by (metis set_mset_mset union_single_eq_member add_mset_add_single)
  then have "1 \<le> x \<and> x \<le> 4" by (rule waiting_range [OF assms(1)])
  moreover have "ix_base s' {#x#}" using assms(1) g eq by (simp add: ix_base_def)
  ultimately show ?thesis using g by blast
qed

lemma remove_step:
  assumes "ix_base s {#}" and "c \<in> set (waiting s)"
  shows "\<exists>s'. removeItem c s = Some s' \<and> ix_base s' {#c#} \<and> s' = s\<lparr>arr := arr s', howMany := howMany s'\<rparr>"
proof -
  have ok: "set_ok s" using assms(1) by (simp add: ix_base_def)
  from removeItem_waiting [OF ok assms(2)] obtain s' where
    g: "removeItem c s = Some s'" "set_ok s'" "s' = s\<lparr>arr := arr s', howMany := howMany s'\<rparr>"
      "mset (waiting s) = add_mset c (mset (waiting s'))" by blast
  have eq: "start_list s' = start_list s" "input s' = input s" "indx s' = indx s" "crossed s' = crossed s"
    by (subst g(3), simp)+
  have "ix_base s' {#c#}" using assms(1) g eq by (simp add: ix_base_def)
  with g show ?thesis by blast
qed

section \<open>One thread body\<close>

text \<open>Vehicle \<open>k\<close> has the turn: at most two vehicles arrive per vehicle that passed.\<close>

definition ix_turn :: "int \<Rightarrow> ix_state \<Rightarrow> bool" where
  "ix_turn k s \<longleftrightarrow> ix_base s {#k#} \<and> 1 \<le> k \<and> k \<le> 4 \<and> input s \<le> 30 \<and> indx s \<le> 2 * total_passed s + 1 \<and>
     (indx s = input s \<or> total_passed s + 1 \<le> indx s) \<and>
     total_passed s + 1 \<le> tick s \<and> tick s \<le> 2 * total_passed s + 1"

definition ix_finished :: "ix_state \<Rightarrow> bool" where
  "ix_finished s \<longleftrightarrow> total_passed s = input s \<and> crossed s = mset (start_list s) \<and>
     input s + 2 \<le> tick s \<and> tick s \<le> 2 * input s + 1"


lemma room_left:
  assumes "ix_base s m" and "input s \<le> 30" and "indx s \<le> 2 * total_passed s" and "indx s < input s" and "m = {#}"
  shows "howMany s < 15"
  using ix_base_size [OF assms(1)] assms by simp

text \<open>From the label \<open>GO\<close> up to the test for the opposite vehicle.\<close>

lemma body_first:
  assumes base: "ix_base s {#k#}" and k: "1 \<le> k" "k \<le> 4" and room: "indx s < input s \<Longrightarrow> howMany s < 15"
  shows "\<exists>w s3. printWaitingList (printMovingCar s) = Some (s\<lparr>passed := 0, ix_out := w\<rparr>) \<and>
     (let s2 = count_passed k (s\<lparr>passed := 0, ix_out := w, tick := tick s + 1\<rparr>)
      in addSet (next_start junk s2) s2 = Some s3) \<and>
     ix_base s3 {#} \<and> input s3 = input s \<and> start_list s3 = start_list s \<and> total_passed s3 = Suc (total_passed s) \<and> tick s3 = tick s + 1 \<and>
     indx s3 = (if indx s < input s then indx s + 1 else indx s)"
proof -
  obtain w where w: "printWaitingList (printMovingCar s) = Some (s\<lparr>passed := 0, ix_out := w\<rparr>)"
    using print_step [OF base] by blast
  let ?s1 = "s\<lparr>passed := 0, ix_out := w, tick := tick s + 1\<rparr>"
  let ?s2 = "count_passed k ?s1"
  have b2: "ix_base ?s2 {#}" "total_passed ?s2 = Suc (total_passed s)"
    using count_step [of ?s1 k "{#}"] base k by simp_all
  have f: "indx ?s2 = indx s" "input ?s2 = input s" "tick ?s2 = tick s + 1" "start_list ?s2 = start_list s"
    "howMany ?s2 = howMany s" by (simp_all add: count_passed_def)
  have "howMany ?s2 < 15" if "indx ?s2 < input ?s2" using that room f by simp
  from add_step [OF b2(1) this, of junk] obtain s3 where s3: "addSet (next_start junk ?s2) ?s2 = Some s3"
    "ix_base s3 {#}" "s3 = ?s2\<lparr>arr := arr s3, howMany := howMany s3, indx := indx s3\<rparr>"
    "indx s3 = (if indx ?s2 < input ?s2 then indx ?s2 + 1 else indx ?s2)" by blast
  have "input s3 = input s" "total_passed s3 = Suc (total_passed s)" "tick s3 = tick s + 1" "start_list s3 = start_list s"
    using b2 f by (subst s3(3), simp)+
  moreover have "indx s3 = (if indx s < input s then indx s + 1 else indx s)" using s3(4) f by simp
  ultimately show ?thesis using w s3(1,2) unfolding Let_def by blast
qed

text \<open>The second half: nobody from the opposite side waits.\<close>

lemma body_second:
  assumes "ix_base s4 {#}" and room: "indx s4 < input s4 \<Longrightarrow> howMany s4 < 15"
    and "indx s4 = input s4 \<or> total_passed s4 + 1 \<le> indx s4"
  shows "\<exists>w s7 item s8. printWaitingList (printMovingCar s4) = Some (s4\<lparr>passed := 0, ix_out := w\<rparr>) \<and>
     (let s6 = s4\<lparr>passed := 0, ix_out := w, tick := tick s4 + 1\<rparr> in addSet (next_start junk s6) s6 = Some s7) \<and>
     getItem junk rnd s7 = Some (item, s8) \<and> input s8 = input s4 \<and> start_list s8 = start_list s4 \<and>
     total_passed s8 = total_passed s4 \<and> tick s8 = tick s4 + 1 \<and>
     (if total_passed s4 = input s4 then ix_base s8 {#} \<and> indx s8 = input s4
      else ix_base s8 {#item#} \<and> 1 \<le> item \<and> item \<le> 4 \<and> indx s8 \<le> indx s4 + 1)"
proof -
  obtain w where w: "printWaitingList (printMovingCar s4) = Some (s4\<lparr>passed := 0, ix_out := w\<rparr>)"
    using print_step [OF assms(1)] by blast
  let ?s6 = "s4\<lparr>passed := 0, ix_out := w, tick := tick s4 + 1\<rparr>"
  have b6: "ix_base ?s6 {#}" using assms(1) by simp
  have "howMany ?s6 < 15" if "indx ?s6 < input ?s6" using that room by simp
  from add_step [OF b6 this, of junk] obtain s7 where s7: "addSet (next_start junk ?s6) ?s6 = Some s7"
    "ix_base s7 {#}" "s7 = ?s6\<lparr>arr := arr s7, howMany := howMany s7, indx := indx s7\<rparr>"
    and "indx s7 = (if indx ?s6 < input ?s6 then indx ?s6 + 1 else indx ?s6)" by blast
  then have i7: "indx s7 = (if indx s4 < input s4 then indx s4 + 1 else indx s4)" by simp
  have f7: "input s7 = input s4" "total_passed s7 = total_passed s4" "tick s7 = tick s4 + 1" "start_list s7 = start_list s4"
    by (subst s7(3), simp)+
  have le: "indx s4 \<le> input s4" using assms(1) by (simp add: ix_base_def)
  have size: "indx s7 = total_passed s4 + howMany s7" using ix_base_size [OF s7(2)] f7 by simp
  show ?thesis
  proof (cases "total_passed s4 = input s4")
    case True
    then have "howMany s7 = 0" "indx s7 = input s4" using size i7 le by (auto split: if_splits)
    then have "getItem junk rnd s7 = Some (junk, s7)" by (simp add: getItem_def)
    with w s7 f7 True \<open>indx s7 = input s4\<close> show ?thesis unfolding Let_def by auto
  next
    case False
    have "total_passed s4 < indx s7" using False assms(3) i7 le size by (auto split: if_splits)
    then have "waiting s7 \<noteq> []" using size s7(2) by (auto simp: ix_base_def set_ok_def waiting_def)
    from get_step [OF s7(2) this, of junk rnd] obtain item s8 where
      g: "getItem junk rnd s7 = Some (item, s8)" "ix_base s8 {#item#}" "1 \<le> item" "item \<le> 4"
        "s8 = s7\<lparr>arr := arr s8, howMany := howMany s8, rand_pos := rand_pos s8\<rparr>" by blast
    have "input s8 = input s4" "total_passed s8 = total_passed s4" "tick s8 = tick s4 + 1"
      "start_list s8 = start_list s4" "indx s8 = indx s7"
      using f7 by (subst g(5), simp)+
    moreover have "indx s8 \<le> indx s4 + 1" using \<open>indx s8 = indx s7\<close> i7 by simp
    ultimately show ?thesis using w s7(1) g(1-4) False unfolding Let_def by auto
  qed
qed

definition ix_next :: "int \<Rightarrow> ix_state \<Rightarrow> ix_state \<Rightarrow> ix_action \<Rightarrow> bool" where
  "ix_next k s s' act \<longleftrightarrow> input s' = input s \<and> start_list s' = start_list s \<and> total_passed s' = Suc (total_passed s) \<and>
     (case act of Signal j \<Rightarrow> j \<noteq> k \<and> ix_turn j s' | Go_Again \<Rightarrow> ix_turn k s' | Finish \<Rightarrow> ix_finished s' | No_Signal \<Rightarrow> False)"

lemma finished_frame: "ix_finished (s\<lparr>passed := p, ix_out := w\<rparr>) = ix_finished s"
  by (simp add: ix_finished_def crossed_def)

lemma all_arrived: "ix_base s {#} \<Longrightarrow> indx s = input s \<Longrightarrow> total_passed s = input s \<Longrightarrow> crossed s = mset (start_list s)"
proof -
  assume s: "ix_base s {#}" "indx s = input s" "total_passed s = input s"
  then have "waiting s = []" using ix_base_size [OF s(1)] by (simp add: waiting_def)
  moreover have "take (indx s) (start_list s) = start_list s" using s by (simp add: ix_base_def)
  moreover have "mset (take (indx s) (start_list s)) = crossed s + {#} + mset (waiting s)"
    using s(1) by (simp only: ix_base_def)
  ultimately show ?thesis by simp
qed

lemma thread_body_turn:
  assumes "ix_turn k s"
  shows "\<exists>s' act. thread_body junk rnd k s = Some (s', act) \<and> ix_next k s s' act"
proof -
  have t: "input s \<le> 30" "indx s \<le> 2 * total_passed s + 1" "total_passed s + 1 \<le> tick s" "tick s \<le> 2 * total_passed s + 1"
    and k: "1 \<le> k" "k \<le> 4" and base: "ix_base s {#k#}" using assms by (simp_all add: ix_turn_def)
  have ix: "total_passed s + 1 \<le> indx s" "indx s \<le> input s"
    using ix_base_size [OF base] base by (simp_all add: ix_base_def)
  have "howMany s < 15" if "indx s < input s" using ix_base_size [OF base] that t by simp
  from body_first [OF base k this, of junk] obtain w s3 where
    first: "printWaitingList (printMovingCar s) = Some (s\<lparr>passed := 0, ix_out := w\<rparr>)"
      "addSet (next_start junk (count_passed k (s\<lparr>passed := 0, ix_out := w, tick := tick s + 1\<rparr>)))
         (count_passed k (s\<lparr>passed := 0, ix_out := w, tick := tick s + 1\<rparr>)) = Some s3"
    and s3: "ix_base s3 {#}" "input s3 = input s" "start_list s3 = start_list s" "total_passed s3 = Suc (total_passed s)"
      "tick s3 = tick s + 1" "indx s3 = (if indx s < input s then indx s + 1 else indx s)"
    unfolding Let_def by blast
  let ?s4 = "s3\<lparr>passed := k\<rparr>"
  have b4: "ix_base ?s4 {#}" using s3 by simp
  have find: "find_car (opposite k) ?s4 = Some (opposite k \<in> set (waiting ?s4))"
    using b4 by (intro find_car_waiting) (simp add: ix_base_def)
  have opp: "1 \<le> opposite k" "opposite k \<le> 4" "opposite k \<noteq> k" using k by (auto simp: opposite_def)
  show ?thesis
  proof (cases "opposite k \<in> set (waiting ?s4)")
    case True
    from remove_step [OF b4 True] obtain s5 where s5: "removeItem (opposite k) ?s4 = Some s5"
      "ix_base s5 {#opposite k#}" "s5 = ?s4\<lparr>arr := arr s5, howMany := howMany s5\<rparr>" by blast
    have f: "input s5 = input s" "total_passed s5 = Suc (total_passed s)" "tick s5 = tick s + 1"
      "start_list s5 = start_list s" "indx s5 = indx s3"
      using s3 by (subst s5(3), simp)+
    have "ix_next k s s5 (Signal (opposite k))"
      using s5(2) f s3(6) t ix opp ix_base_size [OF s5(2)] by (auto simp: ix_next_def ix_turn_def split: if_splits)
    with first find True s5(1) show ?thesis by (auto simp: thread_body_def Let_def)
  next
    case False
    have "indx ?s4 \<le> 2 * total_passed ?s4" "indx ?s4 = input ?s4 \<or> total_passed ?s4 + 1 \<le> indx ?s4"
      using s3 t ix by (auto split: if_splits)
    moreover have "howMany ?s4 < 15" if "indx ?s4 < input ?s4"
      by (rule room_left [OF b4 _ _ that]) (use s3 t calculation in simp_all)
    ultimately obtain w' s7 item s8 where
      second: "printWaitingList (printMovingCar ?s4) = Some (?s4\<lparr>passed := 0, ix_out := w'\<rparr>)"
        "addSet (next_start junk (?s4\<lparr>passed := 0, ix_out := w', tick := tick ?s4 + 1\<rparr>))
           (?s4\<lparr>passed := 0, ix_out := w', tick := tick ?s4 + 1\<rparr>) = Some s7"
        "getItem junk rnd s7 = Some (item, s8)"
      and raw: "input s8 = input ?s4" "start_list s8 = start_list ?s4" "total_passed s8 = total_passed ?s4" "tick s8 = tick ?s4 + 1"
        "if total_passed ?s4 = input ?s4 then ix_base s8 {#} \<and> indx s8 = input ?s4
         else ix_base s8 {#item#} \<and> 1 \<le> item \<and> item \<le> 4 \<and> indx s8 \<le> indx ?s4 + 1"
      using body_second [OF b4, of junk rnd] unfolding Let_def by blast
    have s8: "input s8 = input s" "start_list s8 = start_list s" "total_passed s8 = Suc (total_passed s)" "tick s8 = tick s + 2"
        "if Suc (total_passed s) = input s then ix_base s8 {#} \<and> indx s8 = input s
         else ix_base s8 {#item#} \<and> 1 \<le> item \<and> item \<le> 4 \<and> indx s8 \<le> indx s3 + 1"
      using raw s3(1-5) by (simp_all split: if_splits)
    note run = first find second
    show ?thesis
    proof (cases "Suc (total_passed s) = input s")
      case fin: True
      with s8 have b8: "ix_base s8 {#}" "indx s8 = input s8" "total_passed s8 = input s8" by simp_all
      from print_step [OF b8(1)] obtain v where v: "printWaitingList (printMovingCar s8) = Some (s8\<lparr>passed := 0, ix_out := v\<rparr>)"
        by blast
      have "ix_finished s8" using all_arrived [OF b8] b8 s8 t fin by (simp add: ix_finished_def)
      then have "ix_next k s (s8\<lparr>passed := 0, ix_out := v\<rparr>) Finish"
        using s8 by (simp add: ix_next_def finished_frame)
      with run False v b8 show ?thesis by (auto simp: thread_body_def Let_def)
    next
      case more: False
      with s8 have b8: "ix_base s8 {#item#}" "1 \<le> item" "item \<le> 4" "indx s8 \<le> indx s3 + 1" by simp_all
      then have "ix_turn item s8"
        using s8 s3(6) t ix_base_size [OF b8(1)] by (auto simp: ix_turn_def split: if_splits)
      then have "ix_next k s s8 (if item = k then Go_Again else Signal item)"
        using s8(1-3) by (cases "item = k") (simp_all add: ix_next_def)
      with run False more b8 s8 show ?thesis by (auto simp: thread_body_def Let_def)
    qed
  qed
qed


lemma ix_turn_bounds:
  assumes "ix_turn k s"
  shows "total_passed s < indx s" and "indx s \<le> input s" and "length (start_list s) = input s"
proof -
  have base: "ix_base s {#k#}" using assms by (simp add: ix_turn_def)
  show "total_passed s < indx s" using ix_base_size [OF base] by simp
  show "indx s \<le> input s" "length (start_list s) = input s" using base by (simp_all add: ix_base_def)
qed

section \<open>The run without lost signals\<close>

lemma ix_start_turn:
  assumes "0 < n" and "n \<le> 30"
  shows "ix_turn (first_item junk (ix_start rnd n)) (ix_start rnd n)"
proof -
  let ?s = "ix_start rnd n"
  obtain x xs where l: "start_list ?s = x # xs" using assms(1) by (cases n) (auto simp: ix_start_def upt_conv_Cons simp del: upt_Suc)
  have f: "length (start_list ?s) = n" "set (start_list ?s) \<subseteq> {1..4}" "input ?s = n" "indx ?s = 1" "tick ?s = 1"
    "arr ?s = replicate 15 0" "howMany ?s = 0" "crossed ?s = {#}" "total_passed ?s = 0"
    by (auto simp: ix_start_def Let_def crossed_def total_passed_def)
  have x: "first_item junk ?s = x" by (simp add: first_item_def l)
  moreover have "1 \<le> x \<and> x \<le> 4" using f(2) l by auto
  ultimately show ?thesis using f l assms by (simp add: ix_turn_def ix_base_def set_ok_def waiting_def)
qed

lemma ix_run_finishes:
  assumes "ix_turn k s" and "f = input s - total_passed s"
  shows "\<exists>s'. ix_run junk rnd f k s = Ix_Done s' \<and> ix_finished s' \<and> input s' = input s \<and> start_list s' = start_list s"
  using assms
proof (induction f arbitrary: k s)
  case 0
  from ix_turn_bounds [OF 0(1)] 0(2) show ?case by simp
next
  case (Suc f)
  from thread_body_turn [OF Suc.prems(1), of junk rnd] obtain s' act where
    b: "thread_body junk rnd k s = Some (s', act)" "ix_next k s s' act" by blast
  then have n: "input s' = input s" "start_list s' = start_list s" "total_passed s' = Suc (total_passed s)"
    by (simp_all add: ix_next_def)
  then have f: "f = input s' - total_passed s'" using Suc.prems(2) by simp
  show ?case
  proof (cases act)
    case (Signal j)
    with b(2) have "ix_turn j s'" by (simp add: ix_next_def)
    from Suc.IH [OF this f] n Signal b(1) show ?thesis by simp
  next
    case Go_Again
    with b(2) have "ix_turn k s'" by (simp add: ix_next_def)
    from Suc.IH [OF this f] n Go_Again b(1) show ?thesis by simp
  qed (use b n in \<open>simp_all add: ix_next_def\<close>)
qed

section \<open>All interleavings\<close>

text \<open>
  In every reachable configuration the vehicle threads are not started yet, or exactly
  one of them has the turn, or the signal that hands over the turn was lost, or all
  vehicles have passed.
\<close>

definition idle :: "ix_phase \<Rightarrow> bool" where
  "idle p \<longleftrightarrow> p = Starting \<or> p = Waiting"

definition ix_inv :: "nat \<Rightarrow> int list \<Rightarrow> ix_config \<Rightarrow> bool" where
  "ix_inv n cars c \<longleftrightarrow> (input (shared c) = n \<and> start_list (shared c) = cars) \<and>
     (\<not> main_done c \<and> (\<forall>j. idle (phase c j)) \<and> ix_turn (first_item 0 (shared c)) (shared c) \<or>
      main_done c \<and> (\<exists>k. ix_turn k (shared c) \<and> (phase c k = Woken \<or> phase c k = Going \<or> idle (phase c k)) \<and>
         (\<forall>j. j \<noteq> k \<longrightarrow> idle (phase c j))) \<or>
      main_done c \<and> ix_finished (shared c) \<and> (\<forall>j. phase c j \<noteq> Going))"


lemma idle_simps [simp]: "idle Starting" "idle Waiting" "\<not> idle Woken" "\<not> idle Going" "\<not> idle Exited"
  by (simp_all add: idle_def)

lemma signal_car_other [simp]: "j \<noteq> k \<Longrightarrow> signal_car j ph k = ph k"
  by (simp add: signal_car_def)

lemma signal_car_self: "idle (ph k) \<Longrightarrow> signal_car k ph k = Woken \<or> idle (signal_car k ph k)"
  by (simp add: signal_car_def)

lemma fold_signal_car: "ph k \<noteq> Going \<Longrightarrow> fold signal_car js ph k \<noteq> Going"
  by (induction js arbitrary: ph) (auto simp: signal_car_def)

lemma ix_turn_not_full: "ix_turn k s \<Longrightarrow> total_passed s \<noteq> input s"
  using ix_turn_bounds [of k s] by simp

lemma ix_turn_first: "ix_turn k s \<Longrightarrow> first_item junk s = first_item 0 s"
proof -
  assume "ix_turn k s"
  from ix_turn_bounds [OF this] have "0 < length (start_list s)" by linarith
  then show ?thesis by (simp add: first_item_def)
qed

lemma ix_inv_cases:
  assumes "ix_inv n cars c"
  obtains (ready) "input (shared c) = n \<and> start_list (shared c) = cars" "\<not> main_done c" "\<forall>j. idle (phase c j)" "ix_turn (first_item 0 (shared c)) (shared c)"
  | (turn) k where "input (shared c) = n \<and> start_list (shared c) = cars" "main_done c" "ix_turn k (shared c)"
      "phase c k = Woken \<or> phase c k = Going \<or> idle (phase c k)" "\<forall>j. j \<noteq> k \<longrightarrow> idle (phase c j)"
  | (fin) "input (shared c) = n \<and> start_list (shared c) = cars" "main_done c" "ix_finished (shared c)" "\<forall>j. phase c j \<noteq> Going"
  using assms unfolding ix_inv_def by blast

lemma ix_inv_turn:
  "input (shared c) = n \<and> start_list (shared c) = cars \<Longrightarrow> main_done c \<Longrightarrow> ix_turn k (shared c) \<Longrightarrow>
   phase c k = Woken \<or> phase c k = Going \<or> idle (phase c k) \<Longrightarrow> (\<And>j. j \<noteq> k \<Longrightarrow> idle (phase c j)) \<Longrightarrow> ix_inv n cars c"
  unfolding ix_inv_def by blast

lemma ix_inv_step:
  assumes "ix_step False junk rnd c c'" and "ix_inv n cars c"
  shows "ix_inv n cars c'"
  using assms
proof cases
  case (wait k)
  from assms(2) show ?thesis
  proof (cases rule: ix_inv_cases)
    case ready
    with wait show ?thesis by (simp add: ix_inv_def)
  next
    case (turn j)
    show ?thesis by (rule ix_inv_turn [where k = j]) (use wait turn in auto)
  next
    case fin
    with wait show ?thesis by (simp add: ix_inv_def)
  qed
next
  case main_signal
  let ?k = "first_item 0 (shared c)"
  have t: "ix_turn ?k (shared c)" "\<And>j. idle (phase c j)" "input (shared c) = n \<and> start_list (shared c) = cars"
    using assms(2) main_signal by (auto simp: ix_inv_def)
  have "first_item junk (shared c) = ?k" using t(1) by (rule ix_turn_first)
  with main_signal t signal_car_self [of "phase c" ?k] show ?thesis
    by (intro ix_inv_turn [where k = ?k]) auto
next
  case (leave k)
  then have "\<not> ix_turn j (shared c)" for j using ix_turn_not_full by blast
  with assms(2) leave show ?thesis by (cases rule: ix_inv_cases) (simp_all add: ix_inv_def)
next
  case (body k s' act)
  have busy: "\<not> idle (phase c k)" using body by auto
  have more: "\<not> (ix_finished (shared c) \<and> (\<forall>j. phase c j \<noteq> Going))"
    using body by (auto simp: ix_finished_def)
  from assms(2) have t: "ix_turn k (shared c) \<and> (\<forall>j. j \<noteq> k \<longrightarrow> idle (phase c j)) \<and> main_done c \<and> input (shared c) = n \<and> start_list (shared c) = cars"
  proof (cases rule: ix_inv_cases)
    case (turn j)
    with busy have "j = k" by metis
    with turn show ?thesis by blast
  qed (use busy more in blast)+
  then have t: "ix_turn k (shared c)" "\<And>j. j \<noteq> k \<Longrightarrow> idle (phase c j)" "main_done c" "input (shared c) = n \<and> start_list (shared c) = cars"
    by simp_all
  from thread_body_turn [OF t(1), of junk rnd] body have nx: "ix_next k (shared c) s' act" by auto
  then have inp: "input s' = n \<and> start_list s' = cars" using t(4) by (simp add: ix_next_def)
  show ?thesis
  proof (cases act)
    case (Signal j)
    with nx have "ix_turn j s'" "j \<noteq> k" by (simp_all add: ix_next_def)
    moreover have "idle (((phase c)(k := Starting)) j)" using t(2) \<open>j \<noteq> k\<close> by simp
    ultimately show ?thesis
      using body(1) Signal inp t(2,3) signal_car_self [of "(phase c)(k := Starting)" j]
      by (intro ix_inv_turn [where k = j]) (auto simp: end_body_def)
  next
    case Go_Again
    with nx have "ix_turn k s'" by (simp add: ix_next_def)
    with body(1) Go_Again inp t(2,3) show ?thesis
      by (intro ix_inv_turn [where k = k]) (auto simp: end_body_def)
  next
    case Finish
    with nx have "ix_finished s'" by (simp add: ix_next_def)
    moreover have "end_body k Finish (phase c) j \<noteq> Going" for j
    proof -
      have "((phase c)(k := Exited)) j \<noteq> Going" using t(2) [of j] by (auto simp: idle_def)
      then show ?thesis unfolding end_body_def by (simp only: ix_action.case) (rule fold_signal_car)
    qed
    ultimately show ?thesis using body(1) Finish inp t(3) unfolding ix_inv_def by simp
  next
    case No_Signal
    with nx show ?thesis by (simp add: ix_next_def)
  qed
qed simp

lemma ix_inv_reachable:
  assumes "(ix_step False junk rnd)\<^sup>*\<^sup>* (ix_init rnd n) c" and "0 < n" and "n \<le> 30"
  shows "ix_inv n (start_list (ix_start rnd n)) c"
  using assms(1)
proof (induction rule: rtranclp_induct)
  case base
  have "input (ix_start rnd n) = n" by (simp add: ix_start_def Let_def)
  with ix_start_turn [OF assms(2,3), of 0 rnd] show ?case by (simp add: ix_inv_def ix_init_def)
next
  case (step c c')
  then show ?case by (blast intro: ix_inv_step)
qed

end
