(* ===== verification/Intersection_Main.thy ===== *)
theory Intersection_Main
  imports Intersection_Run
begin

text \<open>
  Properties of the intersection: what the program reports, that no interleaving of its
  threads breaks the book-keeping, and the two ways in which it can fail.
\<close>

lemma finished_counts:
  assumes "ix_finished s" and "start_list s = cars"
  shows "P1 s = count_list cars 1" "P2 s = count_list cars 2" "P3 s = count_list cars 3" "P4 s = count_list cars 4"
proof -
  have "count (crossed s) x = count_list cars x" for x
    using assms by (simp add: ix_finished_def count_mset)
  from this [of 1] this [of 2] this [of 3] this [of 4]
  show "P1 s = count_list cars 1" "P2 s = count_list cars 2" "P3 s = count_list cars 3" "P4 s = count_list cars 4"
    by (simp_all add: crossed_def)
qed

text \<open>
  C24. For 1 to 30 vehicles the run in which no signal is lost ends: every vehicle passes
  exactly once (the reported number for each start point is the number of vehicles that
  start there), after at least \<open>n + 1\<close> and at most \<open>2 n\<close> ticks, whatever \<open>rand\<close> returns and
  whatever lies behind \<open>start_list\<close>.
\<close>

theorem intersection_passes_all:
  assumes "0 < n" and "n \<le> 30"
  shows "\<exists>s. ix_run junk rnd n (first_item junk (ix_start rnd n)) (ix_start rnd n) = Ix_Done s \<and>
     (let cars = start_list (ix_start rnd n) in
        P1 s = count_list cars 1 \<and> P2 s = count_list cars 2 \<and> P3 s = count_list cars 3 \<and> P4 s = count_list cars 4) \<and>
     P1 s + P2 s + P3 s + P4 s = n \<and> n + 2 \<le> tick s \<and> tick s \<le> 2 * n + 1"
proof -
  let ?s = "ix_start rnd n"
  have f: "n = input ?s - total_passed ?s" "input ?s = n"
    by (simp_all add: ix_start_def Let_def total_passed_def)
  from ix_run_finishes [OF ix_start_turn [OF assms, of junk rnd] f(1), of junk rnd] f(2)
  obtain s where s: "ix_run junk rnd n (first_item junk ?s) ?s = Ix_Done s" "ix_finished s"
    "input s = n" "start_list s = start_list ?s" by auto
  with finished_counts [OF s(2,4)] show ?thesis
    unfolding Let_def by (intro exI [of _ s]) (simp add: ix_finished_def total_passed_def)
qed

theorem intersection_passes_all_witness:
  "\<exists>s. ix_run 0 (\<lambda>i. i * i) 7 (first_item 0 (ix_start (\<lambda>i. i * i) 7)) (ix_start (\<lambda>i. i * i) 7) = Ix_Done s \<and>
     (let cars = start_list (ix_start (\<lambda>i. i * i) 7) in
        P1 s = count_list cars 1 \<and> P2 s = count_list cars 2 \<and> P3 s = count_list cars 3 \<and> P4 s = count_list cars 4) \<and>
     P1 s + P2 s + P3 s + P4 s = 7 \<and> 7 + 2 \<le> tick s \<and> tick s \<le> 2 * 7 + 1"
  by (rule intersection_passes_all) simp_all

text \<open>
  Every interleaving of the four threads and the main program in which no wait ends without a signal is safe for 1 to 30
  vehicles: a thread that is about to run its body runs it without leaving \<open>arr\<close> while all
  other threads are at or before their wait; and once a thread has exited, every vehicle
  has passed exactly once. This holds for whatever the read of \<open>start_list[indx]\<close> behind the last vehicle returns. With a
  spurious wake-up it fails, as \<open>intersection_spurious_race\<close> shows.
\<close>

theorem intersection_interleavings_safe:
  assumes "(ix_step False junk rnd)\<^sup>*\<^sup>* (ix_init rnd n) c" and "0 < n" and "n \<le> 30"
  shows "(phase c k = Going \<or> phase c k = Woken \<and> total_passed (shared c) \<noteq> n \<longrightarrow>
       thread_body junk rnd k (shared c) \<noteq> None \<and>
       (\<forall>j. j \<noteq> k \<longrightarrow> phase c j = Starting \<or> phase c j = Waiting)) \<and>
     (phase c k = Exited \<longrightarrow>
       (let cars = start_list (ix_start rnd n); s = shared c in
        P1 s = count_list cars 1 \<and> P2 s = count_list cars 2 \<and> P3 s = count_list cars 3 \<and> P4 s = count_list cars 4))"
proof -
  from ix_inv_reachable [OF assms(1-3)] show ?thesis
  proof (cases rule: ix_inv_cases)
    case ready
    then have "idle (phase c k)" by blast
    then show ?thesis by auto
  next
    case (turn i)
    show ?thesis
    proof (cases "idle (phase c k)")
      case True
      then show ?thesis by auto
    next
      case False
      with turn(5) have "i = k" by metis
      with turn(4) False have "phase c k \<noteq> Exited" by auto
      moreover from thread_body_turn [OF turn(3), of junk rnd] \<open>i = k\<close>
      have "thread_body junk rnd k (shared c) \<noteq> None" by auto
      moreover have "\<forall>j. j \<noteq> k \<longrightarrow> phase c j = Starting \<or> phase c j = Waiting"
        using turn(5) \<open>i = k\<close> by (simp add: idle_def)
      ultimately show ?thesis by simp
    qed
  next
    case fin
    with finished_counts [OF fin(3)] show ?thesis by (auto simp: Let_def ix_finished_def)
  qed
qed

text \<open>A first run: the thread of vehicle 1 waits and is signalled by the main program.\<close>

definition sample_config :: ix_config where
  "sample_config = \<lparr>main_done = True, phase = (\<lambda>_. Starting)(1 := Woken), shared = ix_start (\<lambda>_. 0) 2\<rparr>"

lemma sample_config_reachable: "(ix_step False 0 (\<lambda>_. 0))\<^sup>*\<^sup>* (ix_init (\<lambda>_. 0) 2) sample_config"
proof -
  let ?c = "(ix_init (\<lambda>_. 0) 2)\<lparr>phase := (\<lambda>_. Starting)(1 := Waiting)\<rparr>"
  have "ix_step False 0 (\<lambda>_. 0) (ix_init (\<lambda>_. 0) 2) ?c"
    using ix_step.wait [of 1 "ix_init (\<lambda>_. 0) 2" False 0 "\<lambda>_. 0"] by (simp add: ix_init_def)
  moreover have "first_item 0 (ix_start (\<lambda>_. 0) 2) = 1" by (simp add: first_item_def ix_start_def Let_def)
  then have "ix_step False 0 (\<lambda>_. 0) ?c sample_config"
    using ix_step.main_signal [of ?c False 0 "\<lambda>_. 0"] by (simp add: ix_init_def sample_config_def signal_car_def)
  ultimately show ?thesis by (meson converse_rtranclp_into_rtranclp rtranclp.rtrancl_refl)
qed

theorem intersection_interleavings_safe_witness:
  "thread_body 0 (\<lambda>_. 0) 1 (shared sample_config) \<noteq> None \<and>
   (phase sample_config 2 = Starting \<or> phase sample_config 2 = Waiting)"
  using intersection_interleavings_safe [OF sample_config_reachable, of 1]
  by (simp add: sample_config_def ix_start_def Let_def total_passed_def)

lemma wait_all:
  assumes "\<And>k. phase c k = Starting"
  shows "(ix_step False junk rnd)\<^sup>*\<^sup>* c
    (c\<lparr>phase := (phase c)(1 := Waiting, 2 := Waiting, 3 := Waiting, 4 := Waiting)\<rparr>)"
proof -
  let ?c1 = "c\<lparr>phase := (phase c)(1 := Waiting)\<rparr>"
  let ?c2 = "c\<lparr>phase := (phase c)(1 := Waiting, 2 := Waiting)\<rparr>"
  let ?c3 = "c\<lparr>phase := (phase c)(1 := Waiting, 2 := Waiting, 3 := Waiting)\<rparr>"
  let ?c4 = "c\<lparr>phase := (phase c)(1 := Waiting, 2 := Waiting, 3 := Waiting, 4 := Waiting)\<rparr>"
  have "ix_step False junk rnd c ?c1" using ix_step.wait [of 1 c False junk rnd] assms by simp
  moreover have "ix_step False junk rnd ?c1 ?c2" using ix_step.wait [of 2 ?c1 False junk rnd] assms by simp
  moreover have "ix_step False junk rnd ?c2 ?c3" using ix_step.wait [of 3 ?c2 False junk rnd] assms by simp
  moreover have "ix_step False junk rnd ?c3 ?c4" using ix_step.wait [of 4 ?c3 False junk rnd] assms by simp
  ultimately show ?thesis by (meson converse_rtranclp_into_rtranclp rtranclp.rtrancl_refl)
qed

text \<open>
  The waits have no predicate and the threads no common mutex, so one spurious wake-up is enough to have two threads about to run
  their bodies on the shared state at the same time.
\<close>

theorem intersection_spurious_race:
  "\<exists>c i j. (ix_step True junk rnd)\<^sup>*\<^sup>* (ix_init rnd (Suc n)) c \<and> i \<noteq> j \<and> phase c i = Woken \<and> phase c j = Woken \<and>
     total_passed (shared c) < input (shared c)"
proof -
  let ?c = "ix_init rnd (Suc n)"
  let ?k = "first_item junk (shared ?c)"
  have k: "1 \<le> ?k" "?k \<le> 4" by (simp_all add: ix_init_def ix_start_def first_item_def Let_def upt_rec)
  define j :: int where "j = (if ?k = 1 then 2 else 1)"
  have j: "1 \<le> j" "j \<le> 4" "j \<noteq> ?k" by (simp_all add: j_def)
  let ?w = "?c\<lparr>phase := (phase ?c)(?k := Waiting)\<rparr>"
  let ?v = "?c\<lparr>phase := (phase ?c)(?k := Waiting, j := Waiting)\<rparr>"
  let ?m = "?v\<lparr>main_done := True, phase := signal_car ?k (phase ?v)\<rparr>"
  let ?s = "?m\<lparr>phase := (phase ?m)(j := Woken)\<rparr>"
  have "ix_step True junk rnd ?c ?w" using ix_step.wait [of ?k ?c True junk rnd] k by (simp add: ix_init_def)
  moreover have "ix_step True junk rnd ?w ?v" using ix_step.wait [of j ?w True junk rnd] j by (simp add: ix_init_def)
  moreover have "ix_step True junk rnd ?v ?m" using ix_step.main_signal [of ?v True junk rnd] by (simp add: ix_init_def)
  moreover have "ix_step True junk rnd ?m ?s" using ix_step.spurious [of True j ?m junk rnd] j by (simp add: signal_car_def)
  ultimately have "(ix_step True junk rnd)\<^sup>*\<^sup>* ?c ?s" by (meson converse_rtranclp_into_rtranclp rtranclp.rtrancl_refl)
  moreover have "total_passed (shared ?s) < input (shared ?s)"
    by (simp add: ix_init_def ix_start_def Let_def total_passed_def)
  moreover have "phase ?s ?k = Woken" "phase ?s j = Woken" using j(3) by (simp_all add: signal_car_def)
  ultimately show ?thesis using j(3) by blast
qed

text \<open>
  C25. A signal can be lost: if the main program signals before the thread of the first
  vehicle waits, a configuration is reachable in which all four threads wait, no vehicle
  has passed and nothing can happen any more (but a spurious wake-up).
\<close>

theorem intersection_lost_signal:
  "\<exists>c. (ix_step False junk rnd)\<^sup>*\<^sup>* (ix_init rnd (Suc n)) c \<and> (\<nexists>c'. ix_step False junk rnd c c') \<and>
     phase c 1 = Waiting \<and> phase c 2 = Waiting \<and> phase c 3 = Waiting \<and> phase c 4 = Waiting \<and>
     total_passed (shared c) < input (shared c)"
proof -
  let ?c = "(ix_init rnd (Suc n))\<lparr>main_done := True\<rparr>"
  let ?d = "?c\<lparr>phase := (phase ?c)(1 := Waiting, 2 := Waiting, 3 := Waiting, 4 := Waiting)\<rparr>"
  have "ix_step False junk rnd (ix_init rnd (Suc n)) ?c"
    using ix_step.main_signal [of "ix_init rnd (Suc n)" False junk rnd] by (simp add: ix_init_def signal_car_def)
  moreover have "(ix_step False junk rnd)\<^sup>*\<^sup>* ?c ?d" by (rule wait_all) (simp add: ix_init_def)
  ultimately have "(ix_step False junk rnd)\<^sup>*\<^sup>* (ix_init rnd (Suc n)) ?d" by (rule converse_rtranclp_into_rtranclp)
  moreover have all: "phase ?d k = Waiting" if "1 \<le> k" "k \<le> 4" for k
  proof -
    have "k = 1 \<or> k = 2 \<or> k = 3 \<or> k = 4" using that by arith
    then show ?thesis by auto
  qed
  moreover have "\<not> ix_step False junk rnd ?d c'" for c'
  proof
    assume "ix_step False junk rnd ?d c'"
    then show False
    proof cases
      case (wait k)
      then show False using all [of k] by simp
    next
      case (leave k)
      then show False using all [of k] by simp
    next
      case (body k s' act)
      then show False using all [of k] by simp
    qed simp
  qed
  moreover have "total_passed (shared ?d) < input (shared ?d)"
    by (simp add: ix_init_def ix_start_def Let_def total_passed_def)
  ultimately show ?thesis by (intro exI [of _ ?d]) auto
qed

section \<open>Overflow of the waiting set\<close>

text \<open>All vehicles start at point 1, \<open>j\<close> of them have passed, two have arrived for each.\<close>

definition one_sided :: "nat \<Rightarrow> ix_state \<Rightarrow> bool" where
  "one_sided j s \<longleftrightarrow> ix_base s {#1#} \<and> set (start_list s) \<subseteq> {1} \<and> 31 \<le> input s \<and>
     total_passed s = j \<and> indx s = 2 * j + 1"

lemma one_sided_prefix:
  assumes "one_sided j s" and "j \<le> 14"
  shows "\<exists>s6. ix_base s6 {#} \<and> set (start_list s6) \<subseteq> {1} \<and> 31 \<le> input s6 \<and> total_passed s6 = Suc j \<and>
     indx s6 = 2 * j + 2 \<and> howMany s6 = Suc j \<and>
     thread_body junk rnd 1 s = do {
       s7 \<leftarrow> addSet (next_start junk s6) s6;
       (item, s8) \<leftarrow> getItem junk rnd s7;
       if total_passed s8 = input s8
       then do { s9 \<leftarrow> printWaitingList (printMovingCar s8); Some (s9, Finish) }
       else if item = 1 then Some (s8, Go_Again)
       else if 1 \<le> item \<and> item \<le> 4 then Some (s8, Signal item)
       else Some (s8, No_Signal) }"
proof -
  have base: "ix_base s {#1#}" and s: "set (start_list s) \<subseteq> {1}" "31 \<le> input s" "total_passed s = j" "indx s = 2 * j + 1"
    using assms(1) by (simp_all add: one_sided_def)
  have "howMany s < 15" using ix_base_size [OF base] s assms(2) by simp
  then obtain w s3 where
    first: "printWaitingList (printMovingCar s) = Some (s\<lparr>passed := 0, ix_out := w\<rparr>)"
      "addSet (next_start junk (count_passed 1 (s\<lparr>passed := 0, ix_out := w, tick := tick s + 1\<rparr>)))
         (count_passed 1 (s\<lparr>passed := 0, ix_out := w, tick := tick s + 1\<rparr>)) = Some s3"
    and raw: "ix_base s3 {#}" "input s3 = input s" "start_list s3 = start_list s" "total_passed s3 = Suc (total_passed s)"
      "indx s3 = (if indx s < input s then indx s + 1 else indx s)"
    using body_first [OF base, of junk] unfolding Let_def by auto
  have s3: "set (start_list s3) \<subseteq> {1}" "31 \<le> input s3" "total_passed s3 = Suc j" "indx s3 = 2 * j + 2" "howMany s3 = Suc j"
    using raw s assms(2) ix_base_size [OF raw(1)] by auto
  let ?s4 = "s3\<lparr>passed := 1\<rparr>"
  have b4: "ix_base ?s4 {#}" using raw(1) by simp
  have "set (waiting ?s4) \<subseteq> {1}"
  proof
    fix x assume "x \<in> set (waiting ?s4)"
    then have "x \<in># mset (take (indx ?s4) (start_list ?s4))" using b4 unfolding ix_base_def by simp
    then show "x \<in> {1}" using s3(1) by (auto dest: in_set_takeD)
  qed
  then have find: "find_car (opposite 1) ?s4 = Some False"
    using b4 find_car_waiting [of ?s4 3] by (auto simp: ix_base_def opposite_def)
  from print_step [OF b4] obtain v where
    v: "printWaitingList (printMovingCar ?s4) = Some (?s4\<lparr>passed := 0, ix_out := v\<rparr>)" by blast
  let ?s6 = "?s4\<lparr>passed := 0, ix_out := v, tick := tick ?s4 + 1\<rparr>"
  have "ix_base ?s6 {#}" using raw(1) by simp
  with s3 first find v show ?thesis
    by (intro exI [of _ ?s6]) (simp add: thread_body_def Let_def)
qed

lemma one_sided_step:
  assumes "one_sided j s" and "j < 14"
  shows "\<exists>s'. thread_body junk rnd 1 s = Some (s', Go_Again) \<and> one_sided (Suc j) s'"
proof -
  from one_sided_prefix [OF assms(1), of junk rnd] assms(2) obtain s6 where
    s6: "ix_base s6 {#}" "set (start_list s6) \<subseteq> {1}" "31 \<le> input s6" "total_passed s6 = Suc j"
      "indx s6 = 2 * j + 2" "howMany s6 = Suc j"
    and run: "thread_body junk rnd 1 s = do {
       s7 \<leftarrow> addSet (next_start junk s6) s6;
       (item, s8) \<leftarrow> getItem junk rnd s7;
       if total_passed s8 = input s8
       then do { s9 \<leftarrow> printWaitingList (printMovingCar s8); Some (s9, Finish) }
       else if item = 1 then Some (s8, Go_Again)
       else if 1 \<le> item \<and> item \<le> 4 then Some (s8, Signal item)
       else Some (s8, No_Signal) }" by auto
  have "howMany s6 < 15" using s6(6) assms(2) by simp
  from add_step [OF s6(1) this, of junk] obtain s7 where
    s7: "addSet (next_start junk s6) s6 = Some s7" "ix_base s7 {#}"
      "s7 = s6\<lparr>arr := arr s7, howMany := howMany s7, indx := indx s7\<rparr>"
      "indx s7 = (if indx s6 < input s6 then indx s6 + 1 else indx s6)" by blast
  have i7: "indx s7 = 2 * j + 3" using s7(4) s6 assms(2) by simp
  have f7: "start_list s7 = start_list s6" "input s7 = input s6" "total_passed s7 = Suc j"
    using s6 by (subst s7(3), simp)+
  have "howMany s7 \<noteq> 0" using ix_base_size [OF s7(2)] f7 i7 by simp
  then have ne: "waiting s7 \<noteq> []" using s7(2) by (auto simp: ix_base_def set_ok_def waiting_def)
  from get_step [OF s7(2) ne, of junk rnd] obtain x s8 where
    g: "getItem junk rnd s7 = Some (x, s8)" "ix_base s8 {#x#}"
      "s8 = s7\<lparr>arr := arr s8, howMany := howMany s8, rand_pos := rand_pos s8\<rparr>" by blast
  have f8: "start_list s8 = start_list s6" "input s8 = input s6" "total_passed s8 = Suc j" "indx s8 = 2 * j + 3"
    using f7 i7 by (subst g(3), simp)+
  have "x \<in># mset (take (indx s8) (start_list s8))" using g(2) unfolding ix_base_def by simp
  then have "x = 1" using s6(2) f8(1) by (auto dest: in_set_takeD)
  with run s7(1) g(1,2) f8 s6(2,3) assms(2) show ?thesis by (simp add: one_sided_def)
qed

lemma one_sided_overflow:
  assumes "one_sided 14 s"
  shows "thread_body junk rnd 1 s = None"
proof -
  from one_sided_prefix [OF assms, of junk rnd] obtain s6 where
    s6: "ix_base s6 {#}" "31 \<le> input s6" "indx s6 = 30" "howMany s6 = 15"
    and run: "thread_body junk rnd 1 s = do {
       s7 \<leftarrow> addSet (next_start junk s6) s6;
       (item, s8) \<leftarrow> getItem junk rnd s7;
       if total_passed s8 = input s8
       then do { s9 \<leftarrow> printWaitingList (printMovingCar s8); Some (s9, Finish) }
       else if item = 1 then Some (s8, Go_Again)
       else if 1 \<le> item \<and> item \<le> 4 then Some (s8, Signal item)
       else Some (s8, No_Signal) }" by auto
  have "length (arr s6) \<le> 15" using s6(1) by (simp add: ix_base_def set_ok_def)
  then have "addSet (next_start junk s6) s6 = None" using s6(2-4) by (simp add: addSet_def wr_def)
  with run show ?thesis by simp
qed

lemma one_sided_run: "one_sided j s \<Longrightarrow> j \<le> 14 \<Longrightarrow> ix_run junk rnd (15 - j + f) 1 s = Ix_Undefined"
proof (induction "14 - j" arbitrary: j s)
  case 0
  then have "j = 14" by simp
  with one_sided_overflow 0 show ?case by simp
next
  case (Suc d)
  then have j: "j < 14" "15 - j + f = Suc (15 - Suc j + f)" "d = 14 - Suc j" by auto
  from one_sided_step [OF Suc.prems(1) j(1), of junk rnd] obtain s' where
    s': "thread_body junk rnd 1 s = Some (s', Go_Again)" "one_sided (Suc j) s'" by blast
  with Suc.hyps(1) [OF j(3) s'(2)] j show ?case by (simp add: j(2))
qed

text \<open>
  With more than 30 vehicles the waiting set can overflow: if all of them start at
  point 1, two vehicles arrive for each one that passes and the sixteenth waiting vehicle
  is stored behind \<open>arr[15]\<close>.
\<close>

theorem intersection_overflow:
  assumes "31 \<le> n" and "\<And>i. i < n \<Longrightarrow> rnd i mod 4 = 0"
  shows "ix_run junk rnd n (first_item junk (ix_start rnd n)) (ix_start rnd n) = Ix_Undefined"
proof -
  let ?s = "ix_start rnd n"
  have cars: "start_list ?s = replicate n 1"
    using assms(2) by (auto simp: ix_start_def Let_def intro!: nth_equalityI)
  have f: "input ?s = n" "indx ?s = 1" "arr ?s = replicate 15 0" "howMany ?s = 0" "crossed ?s = {#}" "total_passed ?s = 0"
    by (simp_all add: ix_start_def Let_def crossed_def total_passed_def)
  obtain k where k: "n = Suc k" using assms(1) by (cases n) auto
  have "one_sided 0 ?s"
    using cars f assms(1) k by (simp add: one_sided_def ix_base_def set_ok_def waiting_def)
  moreover have "first_item junk ?s = 1" using cars k by (simp add: first_item_def)
  moreover have "n = 15 - 0 + (n - 15)" using assms(1) by simp
  ultimately show ?thesis using one_sided_run [of 0 ?s junk rnd "n - 15"] by simp
qed

theorem intersection_overflow_witness:
  "ix_run 0 (\<lambda>_. 0) 31 (first_item 0 (ix_start (\<lambda>_. 0) 31)) (ix_start (\<lambda>_. 0) 31) = Ix_Undefined"
  by (rule intersection_overflow) simp_all

end
