(* ===== verification/Calc.thy ===== *)
theory Calc
  imports Prelude
begin

text \<open>
  The calculator of assignment 3: the parser of the test program, the four system calls
  it uses and its main loop. Arithmetic on \<open>int\<close> that leaves the 32-bit range is
  undefined, also in the intermediate results.
\<close>

definition int32 :: "int \<Rightarrow> int option" where
  "int32 x = (if -(2 ^ 31) \<le> x \<and> x < 2 ^ 31 then Some x else None)"

section \<open>The parser\<close>

text \<open>\<open>*a * 10 + c - '0'\<close>, evaluated from left to right.\<close>

definition push_digit :: "int \<Rightarrow> char \<Rightarrow> int option" where
  "push_digit a c = do {
     x \<leftarrow> int32 (a * 10);
     y \<leftarrow> int32 (x + schar c);
     int32 (y - 48) }"

text \<open>
  The first loop of \<open>parse_token\<close> on the string from position \<open>i\<close> on: the value of \<open>*a\<close> and,
  if an operator was found, the operator and the rest of the string behind it.
\<close>

fun scan_first :: "int \<Rightarrow> string \<Rightarrow> (int \<times> (char \<times> string) option) option" where
  "scan_first a [] = Some (a, None)"
| "scan_first a (c # cs) =
     (if \<not> isdigit c then Some (a, Some (c, cs))
      else do { a' \<leftarrow> push_digit a c; scan_first a' cs })"

fun scan_second :: "int \<Rightarrow> string \<Rightarrow> int option" where
  "scan_second b [] = Some b"
| "scan_second b (c # cs) = do { b' \<leftarrow> push_digit b c; scan_second b' cs }"

text \<open>Without an operator \<open>index\<close> keeps its value \<open>-1\<close> and \<open>buffer[-1]\<close> is read.\<close>

definition parse_token :: "string \<Rightarrow> (int \<times> int \<times> char) option" where
  "parse_token buffer =
     (let s = cstr buffer;
          check = (s \<noteq> [] \<and> hd s = CHR ''-'')
      in do {
        (a, r) \<leftarrow> scan_first 0 (if check then tl s else s);
        a' \<leftarrow> (if check then int32 (a * -1) else Some a);
        (ch, rest) \<leftarrow> r;
        let check2 = (rest \<noteq> [] \<and> hd rest = CHR ''-'');
        b \<leftarrow> scan_second 0 (if check2 then tl rest else rest);
        b' \<leftarrow> (if check2 then int32 (b * -1) else Some b);
        Some (a', b', ch) })"

section \<open>The system calls\<close>

text \<open>
  User memory as the ints at the writable addresses; \<open>put_user\<close> fails on other addresses,
  and the return value is not tested.
\<close>

type_synonym user_mem = "int \<Rightarrow> int option"

definition put_user :: "int \<Rightarrow> int \<Rightarrow> user_mem \<Rightarrow> user_mem" where
  "put_user x ptr mem = (case mem ptr of None \<Rightarrow> mem | Some _ \<Rightarrow> mem(ptr := Some x))"

text \<open>The remainder of C: it has the sign of the dividend; the quotient must fit.\<close>

definition c_rem :: "int \<Rightarrow> int \<Rightarrow> int option" where
  "c_rem a b =
     (if b = 0 \<or> a = -(2 ^ 31) \<and> b = -1 then None else Some (sgn a * (\<bar>a\<bar> mod \<bar>b\<bar>)))"

definition sys_print_add :: "int \<Rightarrow> int \<Rightarrow> int \<Rightarrow> user_mem \<Rightarrow> (user_mem \<times> int) option" where
  "sys_print_add a b ptr mem = do { add \<leftarrow> int32 (a + b); Some (put_user add ptr mem, 0) }"

definition sys_print_min :: "int \<Rightarrow> int \<Rightarrow> int \<Rightarrow> user_mem \<Rightarrow> (user_mem \<times> int) option" where
  "sys_print_min a b ptr mem = do { min \<leftarrow> int32 (a - b); Some (put_user min ptr mem, 0) }"

definition sys_print_mul :: "int \<Rightarrow> int \<Rightarrow> int \<Rightarrow> user_mem \<Rightarrow> (user_mem \<times> int) option" where
  "sys_print_mul a b ptr mem = do { mul \<leftarrow> int32 (a * b); Some (put_user mul ptr mem, 0) }"

definition sys_print_mod :: "int \<Rightarrow> int \<Rightarrow> int \<Rightarrow> user_mem \<Rightarrow> (user_mem \<times> int) option" where
  "sys_print_mod a b ptr mem = do { r \<leftarrow> c_rem a b; Some (put_user r ptr mem, 0) }"

section \<open>The main loop\<close>

definition calc_syscall :: "char \<Rightarrow> int \<Rightarrow> int \<Rightarrow> int \<Rightarrow> user_mem \<Rightarrow> user_mem option" where
  "calc_syscall ch a b ptr mem =
     (if ch = CHR ''+'' then map_option fst (sys_print_add a b ptr mem)
      else if ch = CHR ''-'' then map_option fst (sys_print_min a b ptr mem)
      else if ch = CHR ''*'' then map_option fst (sys_print_mul a b ptr mem)
      else if ch = CHR ''%'' then map_option fst (sys_print_mod a b ptr mem)
      else Some mem)"

text \<open>
  One round: \<open>gets\<close> into \<open>buffer[1024]\<close>, the system call, the output. \<open>ptr\<close> is never
  initialised; the parameter is the address it happens to hold.
\<close>

definition calc_line :: "int \<Rightarrow> user_mem \<Rightarrow> string \<Rightarrow> (user_mem \<times> string) option" where
  "calc_line ptr mem line =
     (if length line < 1024
      then do {
        (a, b, ch) \<leftarrow> parse_token (line @ replicate (1024 - length line) NUL);
        mem' \<leftarrow> calc_syscall ch a b ptr mem;
        r \<leftarrow> mem' ptr;
        Some (mem', show_int a @ '' '' @ [ch] @ '' '' @ show_int b @ '' =  '' @ show_int r @ [NL]) }
      else None)"

fun calc_main :: "int \<Rightarrow> user_mem \<Rightarrow> string list \<Rightarrow> string option" where
  "calc_main ptr mem [] = Some []"
| "calc_main ptr mem (line # ls) = do {
     (mem', out) \<leftarrow> calc_line ptr mem line;
     rest \<leftarrow> calc_main ptr mem' ls;
     Some (out @ rest) }"

section \<open>Lemmas\<close>

lemma isdigit_schar: "isdigit c \<Longrightarrow> schar c = uchar c \<and> 48 \<le> uchar c \<and> uchar c \<le> 57"
  by (auto simp: isdigit_def schar_def)

lemma push_digit_in:
  assumes "isdigit c" and "0 \<le> a" and "a * 10 + (uchar c - 48) \<le> 2147483599"
  shows "push_digit a c = Some (a * 10 + (uchar c - 48))"
proof -
  note d = isdigit_schar [OF assms(1)]
  have "a * 10 + schar c \<le> 2147483647" using assms(3) d by linarith
  with assms d show ?thesis by (simp add: push_digit_def int32_def)
qed

lemma digits_val_mono: "0 \<le> a \<Longrightarrow> \<forall>c \<in> set ds. isdigit c \<Longrightarrow> a \<le> digits_val a ds"
proof (induction ds arbitrary: a)
  case (Cons c ds)
  then have "48 \<le> uchar c" using isdigit_schar by auto
  then have "a \<le> a * 10 + (uchar c - 48)" "0 \<le> a * 10 + (uchar c - 48)" using Cons.prems(1) by auto
  with Cons show ?case by fastforce
qed simp

lemma scan_second_digits:
  assumes "\<forall>c \<in> set ds. isdigit c" and "0 \<le> b" and "digits_val b ds \<le> 2147483599"
  shows "scan_second b ds = Some (digits_val b ds)"
  using assms
proof (induction ds arbitrary: b)
  case (Cons c ds)
  let ?b = "b * 10 + (uchar c - 48)"
  have "0 \<le> ?b" using Cons.prems isdigit_schar [of c] by auto
  moreover have "?b \<le> digits_val ?b ds" using \<open>0 \<le> ?b\<close> Cons.prems(1) by (intro digits_val_mono) auto
  ultimately show ?case using Cons by (simp add: push_digit_in)
qed simp

lemma scan_first_digits:
  assumes "\<forall>c \<in> set ds. isdigit c" and "0 \<le> a" and "digits_val a ds \<le> 2147483599" and "\<not> isdigit ch"
  shows "scan_first a (ds @ ch # rest) = Some (digits_val a ds, Some (ch, rest))"
  using assms
proof (induction ds arbitrary: a)
  case (Cons c ds)
  let ?a = "a * 10 + (uchar c - 48)"
  have "0 \<le> ?a" using Cons.prems isdigit_schar [of c] by auto
  moreover have "?a \<le> digits_val ?a ds" using \<open>0 \<le> ?a\<close> Cons.prems(1) by (intro digits_val_mono) auto
  ultimately show ?case using Cons by (simp add: push_digit_in)
qed simp


text \<open>A printed number is an optional sign and digits.\<close>

definition sign_digits :: "int \<Rightarrow> string" where
  "sign_digits x = show_uint \<bar>x\<bar>"

lemma show_int_sign: "show_int x = (if x < 0 then CHR ''-'' # sign_digits x else sign_digits x)"
  by (simp add: show_int_def sign_digits_def)

lemma sign_digits_digits: "\<forall>c \<in> set (sign_digits x). isdigit c"
  unfolding sign_digits_def by (rule show_uint_digits) simp

lemma sign_digits_val: "digits_val 0 (sign_digits x) = \<bar>x\<bar>"
  by (simp add: sign_digits_def digits_val_show_uint)

lemma sign_digits_hd: "sign_digits x \<noteq> []" "hd (sign_digits x) \<noteq> CHR ''-''"
proof -
  show ne: "sign_digits x \<noteq> []" by (simp add: sign_digits_def)
  then have "isdigit (hd (sign_digits x))" using sign_digits_digits [of x] by (meson hd_in_set)
  then show "hd (sign_digits x) \<noteq> CHR ''-''" by (auto simp: isdigit_def uchar_def)
qed

lemma show_int_hd: "hd (show_int x @ ys) = CHR ''-'' \<longleftrightarrow> x < 0"
  using sign_digits_hd [of x] by (simp add: show_int_sign)

lemma show_int_tl: "(if x < 0 then tl (show_int x @ ys) else show_int x @ ys) = sign_digits x @ ys"
  by (simp add: show_int_sign)

lemma digit_not_NUL: "isdigit c \<Longrightarrow> c \<noteq> NUL"
  by (auto simp: isdigit_def uchar_def)

lemma show_int_no_NUL: "NUL \<notin> set (show_int x)"
proof -
  have "NUL \<notin> set (sign_digits x)" using sign_digits_digits [of x] digit_not_NUL by blast
  then show ?thesis by (simp add: show_int_sign)
qed

lemma cstr_padded: "NUL \<notin> set s \<Longrightarrow> cstr (s @ replicate k NUL) = s"
proof -
  assume "NUL \<notin> set s"
  then have "takeWhile (\<lambda>c. c \<noteq> NUL) (s @ replicate k NUL) = s @ takeWhile (\<lambda>c. c \<noteq> NUL) (replicate k NUL)"
    by (intro takeWhile_append2) auto
  then show ?thesis by (simp add: cstr_def takeWhile_replicate)
qed

lemma parse_token_show:
  assumes "\<bar>a\<bar> \<le> 2147483599" and "\<bar>b\<bar> \<le> 2147483599" and "\<not> isdigit op" and "op \<noteq> NUL"
  shows "parse_token (show_int a @ op # show_int b @ replicate k NUL) = Some (a, b, op)"
proof -
  have "cstr ((show_int a @ op # show_int b) @ replicate k NUL) = show_int a @ op # show_int b"
    using assms(4) show_int_no_NUL by (intro cstr_padded) auto
  then have s: "cstr (show_int a @ op # show_int b @ replicate k NUL) = show_int a @ op # show_int b" by simp
  have ne: "show_int x @ ys \<noteq> []" for x ys using sign_digits_hd(1) [of x] by (simp add: show_int_sign)
  have first: "scan_first 0 (sign_digits a @ op # show_int b) = Some (\<bar>a\<bar>, Some (op, show_int b))"
    using scan_first_digits [OF sign_digits_digits, of 0 a op "show_int b"] assms by (simp add: sign_digits_val)
  have second: "scan_second 0 (sign_digits b) = Some \<bar>b\<bar>"
    using scan_second_digits [OF sign_digits_digits, of 0 b] assms by (simp add: sign_digits_val)
  have neg: "(if x < 0 then int32 (\<bar>x\<bar> * -1) else Some \<bar>x\<bar>) = Some x" if "\<bar>x\<bar> \<le> 2147483599" for x
    using that by (auto simp: int32_def)
  have ha: "(show_int a @ op # show_int b \<noteq> [] \<and> hd (show_int a @ op # show_int b) = CHR ''-'') = (a < 0)"
    using ne show_int_hd by blast
  have hb: "(show_int b \<noteq> [] \<and> hd (show_int b) = CHR ''-'') = (b < 0)"
    using ne [of b "[]"] show_int_hd [of b "[]"] by simp
  have tb: "(if b < 0 then tl (show_int b) else show_int b) = sign_digits b" by (simp add: show_int_sign)
  show ?thesis
    unfolding parse_token_def Let_def s ha show_int_tl first Option.bind.bind_lunit neg [OF assms(1)] prod.case
      hb tb second neg [OF assms(2)] by simp
qed

text \<open>
  C26. Printing and parsing: an expression \<open>a op b\<close> whose operands have absolute value at
  most 2147483599 is parsed back to its parts. (The bound is sharp for the code as written:
  \<open>*a * 10 + c\<close> is formed before 48 is subtracted.)
\<close>

theorem parse_token_roundtrip:
  assumes "\<bar>a\<bar> \<le> 2147483599" and "\<bar>b\<bar> \<le> 2147483599" and "op \<in> set ''+-*%''"
  shows "parse_token (show_int a @ op # show_int b @ replicate k NUL) = Some (a, b, op)"
  using assms(3) by (intro parse_token_show [OF assms(1,2)]) (auto simp: isdigit_def uchar_def)

theorem parse_token_roundtrip_witness:
  "parse_token (show_int (-17) @ CHR ''-'' # show_int (-2147483599) @ replicate 3 NUL) = Some (-17, -2147483599, CHR ''-'')"
  by (rule parse_token_roundtrip) simp_all

text \<open>What a system call should store.\<close>

definition calc_spec :: "char \<Rightarrow> int \<Rightarrow> int \<Rightarrow> int option" where
  "calc_spec op a b =
     (if op = CHR ''+'' then int32 (a + b) else if op = CHR ''-'' then int32 (a - b)
      else if op = CHR ''*'' then int32 (a * b)
      else if b = 0 then None else Some (sgn a * (\<bar>a\<bar> mod \<bar>b\<bar>)))"

text \<open>
  One line of the calculator: if \<open>ptr\<close> happens to hold a writable address and the
  result of the operation exists, the line \<open>a op b\<close> is answered with that result.
\<close>

theorem calc_line_answers:
  assumes "\<bar>a\<bar> \<le> 2147483599" and "\<bar>b\<bar> \<le> 2147483599" and "op \<in> set ''+-*%''"
    and "calc_spec op a b = Some r" and "mem ptr = Some old" and "length (show_int a @ op # show_int b) < 1024"
  shows "calc_line ptr mem (show_int a @ op # show_int b) =
     Some (mem(ptr := Some r), show_int a @ '' '' @ [op] @ '' '' @ show_int b @ '' =  '' @ show_int r @ [NL])"
proof -
  have p: "parse_token ((show_int a @ op # show_int b) @ replicate k NUL) = Some (a, b, op)" for k
    using assms(3) parse_token_show [OF assms(1,2), of op k] by (auto simp: isdigit_def uchar_def)
  have "calc_syscall op a b ptr mem = Some (mem(ptr := Some r))"
    using assms(1-5) by (auto simp: calc_syscall_def calc_spec_def sys_print_add_def sys_print_min_def
      sys_print_mul_def sys_print_mod_def put_user_def c_rem_def split: if_splits)
  with p assms(6) show ?thesis unfolding calc_line_def by simp
qed

theorem calc_line_answers_witness:
  "calc_line 8 [8 \<mapsto> 0] (show_int (-7) @ CHR ''%'' # show_int 3) =
     Some ([8 \<mapsto> 0](8 := Some (-1)), show_int (-7) @ '' '' @ [CHR ''%''] @ '' '' @ show_int 3 @ '' =  '' @ show_int (-1) @ [NL])"
proof (rule calc_line_answers)
  show "calc_spec (CHR ''%'') (-7) 3 = Some (-1)" by code_simp
  show "length (show_int (-7) @ CHR ''%'' # show_int 3) < 1024" by code_simp
qed simp_all

end
