(* ===== verification/Fileutils.thy ===== *)
theory Fileutils
  imports Prelude
begin

text \<open>
  The small file utilities: \<open>mychmod\<close> (numeric modes and the symbolic mode that only
  prints its parts) and \<open>mytouch\<close>. The file system is the modes, respectively the
  contents, of the existing files; access rights always suffice.
\<close>

section \<open>mychmod\<close>

datatype util_result = Util_Error string | Util_Exit string "string \<Rightarrow> int option"

text \<open>\<open>tmp << k\<close> on int: undefined for a negative operand or shift, or out of range.\<close>

definition shl :: "int \<Rightarrow> int \<Rightarrow> int option" where
  "shl x k = (if x < 0 \<or> k < 0 \<or> 32 \<le> k then None
              else let y = x * 2 ^ nat k in if y < 2 ^ 31 then Some y else None)"

text \<open>The loops \<open>bit += tmp << ((hi - i) * 3)\<close> over \<open>i .. strlen - 1\<close>.\<close>

function mode_bits :: "int \<Rightarrow> nat \<Rightarrow> string \<Rightarrow> int \<Rightarrow> int option" where
  "mode_bits hi i arg acc =
     (if i < length arg
      then do {
        b \<leftarrow> shl (schar (arg ! i) - 48) ((hi - int i) * 3);
        if acc + b < 2 ^ 31 then mode_bits hi (Suc i) arg (acc + b) else None }
      else Some acc)"
  by pat_completeness auto
termination
  by (relation "measure (\<lambda>(_, i, arg, _). length arg - i)") auto

declare mode_bits.simps [simp del]

definition digit_bits :: "string \<Rightarrow> int option" where
  "digit_bits arg =
     (if length arg = 3 then mode_bits 2 0 arg 0
      else do { b \<leftarrow> shl (schar (hd arg) - 48) 9; mode_bits 3 1 arg b })"

definition digit_mode :: "string list \<Rightarrow> (string \<Rightarrow> int option) \<Rightarrow> util_result option" where
  "digit_mode argv modes =
     (if length argv \<le> 2 \<or> modes (argv ! 2) = None then Some (Util_Error (''error'' @ [NL]))
      else do {
        mode \<leftarrow> digit_bits (argv ! 1);
        Some (Util_Exit [] (modes(argv ! 2 := Some (mode mod 4096)))) })"

text \<open>\<open>strtok(s, ",")\<close> until it returns a null pointer.\<close>

function strtok_all :: "string \<Rightarrow> string list" where
  "strtok_all s =
     (let t = dropWhile (\<lambda>c. c = CHR '','') s
      in if t = [] then []
         else takeWhile (\<lambda>c. c \<noteq> CHR '','') t # strtok_all (dropWhile (\<lambda>c. c \<noteq> CHR '','') t))"
  by pat_completeness auto
termination
proof (relation "measure length", goal_cases)
  case (2 s t)
  have "t \<noteq> [] \<Longrightarrow> length (dropWhile (\<lambda>c. c \<noteq> CHR '','') t) < length t" if "hd t \<noteq> CHR '',''"
    using that by (cases t) (auto simp: le_imp_less_Suc length_dropWhile_le)
  moreover have "t \<noteq> [] \<Longrightarrow> hd t \<noteq> CHR '',''" using 2 hd_dropWhile [of "\<lambda>c. c = CHR '',''" s] by auto
  moreover have "length t \<le> length s" using 2 by (simp add: length_dropWhile_le)
  ultimately show ?case using 2 by fastforce
qed simp

declare strtok_all.simps [simp del]

definition english_mode :: "string list \<Rightarrow> (string \<Rightarrow> int option) \<Rightarrow> util_result" where
  "english_mode argv modes = Util_Exit (concat (map (\<lambda>t. t @ [NL]) (strtok_all (argv ! 1)))) modes"

definition isalpha :: "char \<Rightarrow> bool" where
  "isalpha c \<longleftrightarrow> 65 \<le> uchar c \<and> uchar c \<le> 90 \<or> 97 \<le> uchar c \<and> uchar c \<le> 122"

definition mychmod_main :: "string list \<Rightarrow> (string \<Rightarrow> int option) \<Rightarrow> util_result option" where
  "mychmod_main argv modes =
     (if length argv \<le> 1 then None
      else let c = (case argv ! 1 of [] \<Rightarrow> NUL | c # _ \<Rightarrow> c) in
        if isdigit c then digit_mode argv modes
        else if isalpha c then Some (english_mode argv modes)
        else Some (Util_Error (''error'' @ [NL])))"

section \<open>mytouch\<close>

text \<open>
  \<open>open(argv[1], O_RDWR | O_TRUNC)\<close> empties an existing file and fails on a missing one;
  the two time fields are copied from an uninitialised buffer into another local and
  never used.
\<close>

definition mytouch_main ::
    "string list \<Rightarrow> (string \<Rightarrow> char list option) \<Rightarrow> (string \<Rightarrow> char list option) \<times> (int \<times> string)" where
  "mytouch_main argv files =
     (if length argv = 2
      then case files (argv ! 1) of
             None \<Rightarrow> (files, 1, ''error'' @ [NL])
           | Some _ \<Rightarrow> (files(argv ! 1 := Some []), 0, [])
      else (files, 1, ''error'' @ [NL]))"

section \<open>Properties\<close>

definition octal_digit :: "char \<Rightarrow> bool" where
  "octal_digit c \<longleftrightarrow> 48 \<le> uchar c \<and> uchar c \<le> 55"

definition octal :: "string \<Rightarrow> int" where
  "octal ds = fold (\<lambda>c v. v * 8 + (uchar c - 48)) ds 0"

lemma shl_digit:
  assumes "octal_digit c"
  shows "shl (schar c - 48) 0 = Some (uchar c - 48)" "shl (schar c - 48) 3 = Some ((uchar c - 48) * 8)"
    "shl (schar c - 48) 6 = Some ((uchar c - 48) * 64)" "shl (schar c - 48) 9 = Some ((uchar c - 48) * 512)"
  using assms by (simp_all add: shl_def octal_digit_def schar_def)

lemma octal_digit_range: "octal_digit c \<Longrightarrow> 48 \<le> uchar c \<and> uchar c \<le> 55"
  by (simp add: octal_digit_def)

lemmas digit_steps = digit_bits_def mode_bits.simps octal_def shl_digit

lemma digit_bits_short:
  assumes "list_all octal_digit ds" and "ds \<noteq> []" and "length ds \<le> 4"
  shows "digit_bits ds = Some (octal ds * (if length ds < 3 then 8 ^ (4 - length ds) else 1))"
proof -
  consider a where "ds = [a]" | a b where "ds = [a, b]" | a b c where "ds = [a, b, c]"
    | a b c d where "ds = [a, b, c, d]"
    using assms(2,3) by (auto simp: neq_Nil_conv le_Suc_eq length_Suc_conv numeral_eq_Suc)
  then show ?thesis
  proof cases
    case (1 a)
    then show ?thesis using assms(1) octal_digit_range [of a] by (simp add: digit_steps)
  next
    case (2 a b)
    then show ?thesis using assms(1) octal_digit_range [of a] octal_digit_range [of b] by (simp add: digit_steps)
  next
    case (3 a b c)
    then show ?thesis
      using assms(1) octal_digit_range [of a] octal_digit_range [of b] octal_digit_range [of c]
      by (simp add: digit_steps)
  next
    case (4 a b c d)
    then show ?thesis
      using assms(1) octal_digit_range [of a] octal_digit_range [of b] octal_digit_range [of c] octal_digit_range [of d]
      by (simp add: digit_steps)
  qed
qed


lemma octal_bounds: "list_all octal_digit ds \<Longrightarrow> 0 \<le> octal ds \<and> octal ds < 8 ^ length ds"
proof (induction ds rule: rev_induct)
  case (snoc c ds)
  then show ?case using octal_digit_range [of c] by (auto simp: octal_def)
qed (simp add: octal_def)

lemma octal_arg:
  assumes "list_all octal_digit ds" and "ds \<noteq> []"
  shows "isdigit (case ds of [] \<Rightarrow> NUL | c # _ \<Rightarrow> c)"
  using assms by (cases ds) (auto simp: isdigit_def octal_digit_def)

lemma mychmod_digits:
  assumes "list_all octal_digit ds" and "ds \<noteq> []" and "modes path = Some old"
  shows "mychmod_main [prog, ds, path] modes =
     do { m \<leftarrow> digit_bits ds; Some (Util_Exit [] (modes(path := Some (m mod 4096)))) }"
  using octal_arg [OF assms(1,2)] assms(3) by (simp add: mychmod_main_def digit_mode_def)

text \<open>
  \<open>mychmod\<close> with a mode of three or four octal digits sets the mode of an existing file
  to the value of those digits in base eight.
\<close>

theorem chmod_octal:
  assumes "list_all octal_digit ds" and "length ds = 3 \<or> length ds = 4" and "modes path = Some old"
  shows "mychmod_main [prog, ds, path] modes = Some (Util_Exit [] (modes(path := Some (octal ds))))"
proof -
  have "octal ds < 8 ^ 4" using octal_bounds [OF assms(1)] assms(2) by auto
  then have "octal ds mod 4096 = octal ds" using octal_bounds [OF assms(1)] by simp
  moreover have ne: "ds \<noteq> []" and l: "length ds \<le> 4" "\<not> length ds < 3" using assms(2) by auto
  moreover note mychmod_digits [OF assms(1) ne, of modes path old prog] digit_bits_short [OF assms(1) ne l(1)]
  ultimately show ?thesis using assms(3) by simp
qed

theorem chmod_octal_witness:
  "mychmod_main [''mychmod'', ''4755'', ''f''] [''f'' \<mapsto> 420] =
     Some (Util_Exit [] ([''f'' \<mapsto> 420](''f'' := Some (octal ''4755''))))"
proof (rule chmod_octal)
  show "list_all octal_digit ''4755''" by code_simp
qed simp_all

lemma mode_bits_too_long: "i \<le> 4 \<Longrightarrow> 4 < length arg \<Longrightarrow> mode_bits 3 i arg acc = None"
proof (induction "4 - i" arbitrary: i acc)
  case 0
  then show ?case by (subst mode_bits.simps) (simp add: shl_def)
next
  case (Suc d)
  then have "mode_bits 3 (Suc i) arg x = None" for x by (intro Suc.hyps(1)) auto
  with Suc show ?case by (subst mode_bits.simps) (simp split: Option.bind_split)
qed

text \<open>
  Other numbers of digits go wrong: one or two digits are taken as the leading digits
  of a four digit mode (\<open>mychmod 75 f\<close> sets 07500), and from five digits on the shift
  distance becomes negative.
\<close>

theorem chmod_other_lengths:
  assumes "list_all octal_digit ds" and "ds \<noteq> []" and "length ds \<noteq> 3" and "length ds \<noteq> 4" and "modes path = Some old"
  shows "mychmod_main [prog, ds, path] modes =
     (if length ds \<le> 2 then Some (Util_Exit [] (modes(path := Some (octal ds * 8 ^ (4 - length ds))))) else None)"
proof (cases "length ds \<le> 2")
  case True
  have "octal ds * 8 ^ (4 - length ds) < 8 ^ length ds * 8 ^ (4 - length ds)"
    using octal_bounds [OF assms(1)] by (intro mult_strict_right_mono) simp_all
  also have "(8 :: int) ^ length ds * 8 ^ (4 - length ds) = 8 ^ 4"
    using True by (subst power_add [symmetric]) simp
  finally have "octal ds * 8 ^ (4 - length ds) mod 4096 = octal ds * 8 ^ (4 - length ds)"
    using octal_bounds [OF assms(1)] by simp
  moreover have "digit_bits ds = Some (octal ds * 8 ^ (4 - length ds))"
    using digit_bits_short [OF assms(1,2)] True by simp
  moreover note mychmod_digits [OF assms(1,2), of modes path old prog]
  ultimately show ?thesis using True assms(5) by simp
next
  case False
  then have "4 < length ds" using assms(3,4) by simp
  then have "digit_bits ds = None"
    using mode_bits_too_long [of 1 ds] by (simp add: digit_bits_def split: Option.bind_split)
  with mychmod_digits [OF assms(1,2), of modes path old prog] assms(5) False show ?thesis by simp
qed

theorem chmod_other_lengths_witness:
  "mychmod_main [''mychmod'', ''75'', ''f''] [''f'' \<mapsto> 420] =
     (if length ''75'' \<le> 2 then Some (Util_Exit [] ([''f'' \<mapsto> 420](''f'' := Some (octal ''75'' * 8 ^ (4 - length ''75''))))) else None)"
proof (rule chmod_other_lengths)
  show "list_all octal_digit ''75''" by code_simp
qed simp_all

end
