(* ===== verification/Exchange_Sort.thy ===== *)
theory Exchange_Sort
  imports Prelude
begin

text \<open>
  The sorting loops of \<open>myls\<close>: \<open>for (i = 0; i < n; i++) for (j = 0; j < i; j++)
  if (a[i] < a[j]) swap\<close>. The comparison is a parameter; the interface \<open>exchange_order\<close>
  says what it has to satisfy for the loops to sort.
\<close>

section \<open>The loops\<close>

definition swap :: "nat \<Rightarrow> nat \<Rightarrow> 'a list \<Rightarrow> 'a list option" where
  "swap i j xs = do {
     x \<leftarrow> rd xs i;
     y \<leftarrow> rd xs j;
     xs' \<leftarrow> wr xs i y;
     wr xs' j x }"

definition exch_pass :: "('a \<Rightarrow> 'a \<Rightarrow> bool) \<Rightarrow> nat \<Rightarrow> 'a list \<Rightarrow> 'a list option" where
  "exch_pass lt i xs =
     for_upto 0 i (\<lambda>j xs. do {
       x \<leftarrow> rd xs i;
       y \<leftarrow> rd xs j;
       if lt x y then swap i j xs else Some xs }) xs"

definition exch_sort :: "('a \<Rightarrow> 'a \<Rightarrow> bool) \<Rightarrow> 'a list \<Rightarrow> 'a list option" where
  "exch_sort lt xs = for_upto 0 (length xs) (\<lambda>i. exch_pass lt i) xs"

section \<open>Correctness\<close>

lemma swap_in: "i < length xs \<Longrightarrow> j < length xs \<Longrightarrow> swap i j xs = Some (xs[i := xs ! j, j := xs ! i])"
  by (simp add: swap_def)

lemma mset_swap_nth: "i < length xs \<Longrightarrow> j < length xs \<Longrightarrow> mset (xs[i := xs ! j, j := xs ! i]) = mset xs"
  by (rule mset_swap)

locale exchange_order =
  fixes lt :: "'a \<Rightarrow> 'a \<Rightarrow> bool"
  assumes lt_asym: "lt x y \<Longrightarrow> \<not> lt y x"
    and le_trans: "\<not> lt y x \<Longrightarrow> \<not> lt z y \<Longrightarrow> \<not> lt z x"
begin

definition ordered :: "nat \<Rightarrow> 'a list \<Rightarrow> bool" where
  "ordered n xs \<longleftrightarrow> (\<forall>a b. a < b \<longrightarrow> b < n \<longrightarrow> \<not> lt (xs ! b) (xs ! a))"

lemma pass_step:
  assumes "ordered i zs" and "\<forall>k < j. \<not> lt (zs ! i) (zs ! k)" and "j < i" and "i < length zs"
    and "lt (zs ! i) (zs ! j)"
  shows "ordered i (zs[i := zs ! j, j := zs ! i])"
    and "\<forall>k < Suc j. \<not> lt (zs[i := zs ! j, j := zs ! i] ! i) (zs[i := zs ! j, j := zs ! i] ! k)"
proof -
  have up: "\<not> lt (zs ! b) (zs ! i)" if "j < b" "b < i" for b
    using that assms(1) le_trans [of "zs ! j" "zs ! i" "zs ! b"] lt_asym [OF assms(5)]
    by (auto simp: ordered_def)
  show "ordered i (zs[i := zs ! j, j := zs ! i])"
    unfolding ordered_def
  proof (intro allI impI)
    fix a b assume ab: "a < b" "b < i"
    then have len: "a < length zs" "b < length zs" using assms(4) by auto
    consider "a = j" | "b = j" | "a \<noteq> j" "b \<noteq> j" by blast
    then show "\<not> lt (zs[i := zs ! j, j := zs ! i] ! b) (zs[i := zs ! j, j := zs ! i] ! a)"
    proof cases
      case 1
      with ab up [of b] len assms(4) show ?thesis by (simp add: nth_list_update)
    next
      case 2
      with ab assms(2) len show ?thesis by (simp add: nth_list_update)
    next
      case 3
      with ab assms(1) len show ?thesis by (simp add: nth_list_update ordered_def)
    qed
  qed
  show "\<forall>k < Suc j. \<not> lt (zs[i := zs ! j, j := zs ! i] ! i) (zs[i := zs ! j, j := zs ! i] ! k)"
  proof (intro allI impI)
    fix k assume "k < Suc j"
    then consider "k = j" | "k < j" by linarith
    then show "\<not> lt (zs[i := zs ! j, j := zs ! i] ! i) (zs[i := zs ! j, j := zs ! i] ! k)"
    proof cases
      case 1
      with assms(3,4) lt_asym [OF assms(5)] show ?thesis by (simp add: nth_list_update)
    next
      case 2
      with assms(1,3,4) show ?thesis by (simp add: nth_list_update ordered_def)
    qed
  qed
qed

lemma exch_pass_ordered:
  assumes "ordered i xs" and "i < length xs"
  shows "\<exists>ys. exch_pass lt i xs = Some ys \<and> length ys = length xs \<and> mset ys = mset xs \<and> ordered (Suc i) ys"
proof -
  have "\<exists>ys. exch_pass lt i xs = Some ys \<and> (length ys = length xs \<and> mset ys = mset xs \<and> ordered i ys \<and>
      (\<forall>k < i. \<not> lt (ys ! i) (ys ! k)))"
    unfolding exch_pass_def
  proof (rule for_upto_rule [where I = "\<lambda>j zs. length zs = length xs \<and> mset zs = mset xs \<and> ordered i zs \<and>
      (\<forall>k < j. \<not> lt (zs ! i) (zs ! k))"])
    fix j zs assume j: "j < i" and zs: "length zs = length xs \<and> mset zs = mset xs \<and> ordered i zs \<and>
      (\<forall>k < j. \<not> lt (zs ! i) (zs ! k))"
    then have len: "i < length zs" "j < length zs" using assms(2) by auto
    show "\<exists>t'. (do { x \<leftarrow> rd zs i; y \<leftarrow> rd zs j; if lt x y then swap i j zs else Some zs }) = Some t' \<and>
      length t' = length xs \<and> mset t' = mset xs \<and> ordered i t' \<and> (\<forall>k < Suc j. \<not> lt (t' ! i) (t' ! k))"
    proof (cases "lt (zs ! i) (zs ! j)")
      case True
      from zs have o: "ordered i zs" "\<forall>k < j. \<not> lt (zs ! i) (zs ! k)" by auto
      from pass_step [OF o j len(1) True] mset_swap_nth [OF len] zs len True show ?thesis
        by (simp add: swap_in)
    next
      case False
      with zs len show ?thesis by (auto simp: less_Suc_eq)
    qed
  qed (use assms in auto)
  then obtain ys where ys: "exch_pass lt i xs = Some ys" "length ys = length xs" "mset ys = mset xs"
    "ordered i ys" "\<forall>k < i. \<not> lt (ys ! i) (ys ! k)" by blast
  then have "ordered (Suc i) ys" by (auto simp: ordered_def less_Suc_eq)
  with ys show ?thesis by blast
qed

lemma exch_sort_ordered:
  "\<exists>ys. exch_sort lt xs = Some ys \<and> mset ys = mset xs \<and> ordered (length xs) ys"
proof -
  have "\<exists>ys. exch_sort lt xs = Some ys \<and> (length ys = length xs \<and> mset ys = mset xs \<and> ordered (length xs) ys)"
    unfolding exch_sort_def
  proof (rule for_upto_rule [where I = "\<lambda>i zs. length zs = length xs \<and> mset zs = mset xs \<and> ordered i zs"])
    fix k zs assume "k < length xs" and zs: "length zs = length xs \<and> mset zs = mset xs \<and> ordered k zs"
    with exch_pass_ordered [of k zs]
    show "\<exists>ys. exch_pass lt k zs = Some ys \<and> length ys = length xs \<and> mset ys = mset xs \<and> ordered (Suc k) ys"
      by simp
  qed (simp_all add: ordered_def)
  then show ?thesis by blast
qed

lemma exch_sort_sorted:
  "\<exists>ys. exch_sort lt xs = Some ys \<and> mset ys = mset xs \<and> sorted_wrt (\<lambda>x y. \<not> lt y x) ys"
proof -
  from exch_sort_ordered [of xs] obtain ys where
    ys: "exch_sort lt xs = Some ys" "mset ys = mset xs" "ordered (length xs) ys" by blast
  moreover have "length ys = length xs" using ys(2) by (rule mset_eq_length)
  ultimately show ?thesis by (auto simp: sorted_wrt_iff_nth_less ordered_def)
qed

end

section \<open>Orders of names and times\<close>

text \<open>\<open>strcmp(s, t) < 0\<close>: the first different chars compared as unsigned chars.\<close>

fun strcmp_lt :: "string \<Rightarrow> string \<Rightarrow> bool" where
  "strcmp_lt [] [] = False"
| "strcmp_lt [] (y # ys) = True"
| "strcmp_lt (x # xs) [] = False"
| "strcmp_lt (x # xs) (y # ys) = (if x = y then strcmp_lt xs ys else uchar x < uchar y)"

lemma uchar_inject: "uchar x = uchar y \<longleftrightarrow> x = y"
  by (simp add: uchar_def)

lemma strcmp_lt_asym: "strcmp_lt s t \<Longrightarrow> \<not> strcmp_lt t s"
  by (induction s t rule: strcmp_lt.induct) (auto split: if_splits)

lemma strcmp_le_trans: "\<not> strcmp_lt t s \<Longrightarrow> \<not> strcmp_lt u t \<Longrightarrow> \<not> strcmp_lt u s"
proof (induction s arbitrary: t u)
  case Nil
  then show ?case by (cases u; cases t) auto
next
  case (Cons x s)
  obtain y t' where t: "t = y # t'" using Cons.prems(1) by (cases t) auto
  obtain z u' where u: "u = z # u'" using Cons.prems(2) t by (cases u) auto
  show ?case
  proof (cases "x = y \<and> y = z")
    case True
    with Cons t u show ?thesis by auto
  next
    case False
    with Cons.prems t u uchar_inject show ?thesis by (fastforce split: if_splits)
  qed
qed

lemma strcmp_total: "\<not> strcmp_lt s t \<Longrightarrow> \<not> strcmp_lt t s \<Longrightarrow> s = t"
  using uchar_inject by (induction s t rule: strcmp_lt.induct) (fastforce split: if_splits)+

interpretation names: exchange_order strcmp_lt
  by unfold_locales (auto dest: strcmp_lt_asym strcmp_le_trans)

end
