(* ===== verification/Myls.thy ===== *)
theory Myls
  imports Exchange_Sort
begin

text \<open>
  The directory lister \<open>myls\<close> with its options \<open>-l -i -t -r\<close>. The parallel arrays
  \<open>arr\<close>, \<open>arr_l\<close> and \<open>rewrite_time\<close> are one list of triples in the option modes; the plain
  mode uses only the names. What the system answers (directory contents with the result of
  \<open>lstat\<close>, user and group names, \<open>ctime\<close>) is the record \<open>ls_env\<close>.

  The program does not copy the names: \<open>arr\<close> holds pointers \<open>d->d_name\<close> into the buffer of the open directory, and the sorting loops
  exchange names with \<open>strcpy\<close> inside that buffer. The buffers are therefore part of the state: \<open>ls_bufs\<close> has one for
  every \<open>opendir\<close>, none of which is closed before the end, and a name is a pointer to a byte of one of them. The lines of \<open>arr_l\<close> have
  storage of their own, 1024 chars each, and are values.
\<close>

record ls_stat =
  st_mode :: nat
  st_nlink :: int
  st_uid :: int
  st_gid :: int
  st_size :: int
  st_mtime :: int
  st_ino :: int

text \<open>
  One call of \<open>readdir\<close>: the contents of the buffer after the call (a call may read the next part of the directory into it), the
  offset of the name in the buffer, and what \<open>lstat\<close> answers for the path.
\<close>

record dir_call =
  d_buf :: "char list"
  d_name :: nat
  d_stat :: "ls_stat option"

record ls_env =
  readdir :: "string \<Rightarrow> dir_call list option"
  pw_name :: "int \<Rightarrow> string option"
  gr_name :: "int \<Rightarrow> string option"
  ctime :: "int \<Rightarrow> string"

type_synonym ls_ptr = "nat \<times> nat"
type_synonym ls_entry = "ls_ptr \<times> string \<times> int"

record ls_state =
  ls_bufs :: "char list list"
  ls_names :: "ls_ptr list"
  ls_entries :: "ls_entry list"
  ls_st :: ls_stat
  ls_perms :: string
  check_for_option :: bool
  ls_out :: string

datatype ls_result = Ls_Error | Ls_State ls_state

section \<open>Strings in the buffers\<close>

definition str_at :: "char list list \<Rightarrow> ls_ptr \<Rightarrow> string option" where
  "str_at m p =
     (if fst p < length m \<and> NUL \<in> set (drop (snd p) (m ! fst p)) then Some (cstr (drop (snd p) (m ! fst p))) else None)"

definition strcpy_to :: "ls_ptr \<Rightarrow> string \<Rightarrow> char list list \<Rightarrow> char list list option" where
  "strcpy_to p t m =
     (if fst p < length m \<and> snd p + length t < length (m ! fst p)
      then Some (m[fst p := take (snd p) (m ! fst p) @ t @ [NUL] @ drop (snd p + length t + 1) (m ! fst p)]) else None)"

text \<open>\<open>strcpy\<close> between places that overlap is undefined.\<close>

definition overlap :: "ls_ptr \<Rightarrow> ls_ptr \<Rightarrow> nat \<Rightarrow> bool" where
  "overlap p q k \<longleftrightarrow> fst p = fst q \<and> snd p \<le> snd q + k \<and> snd q \<le> snd p + k"

text \<open>Exchanging two names through \<open>char change[1024]\<close>.\<close>

definition strcpy_swap :: "ls_ptr \<Rightarrow> ls_ptr \<Rightarrow> char list list \<Rightarrow> char list list option" where
  "strcpy_swap p q m = do {
     change \<leftarrow> str_at m p;
     y \<leftarrow> str_at m q;
     if 1024 \<le> length change \<or> overlap p q (length y) then None
     else do { m1 \<leftarrow> strcpy_to p y m; strcpy_to q change m1 } }"

text \<open>
  The sorting loops: \<open>cmp\<close> compares two entries, whose first components are pointers; the names are exchanged by \<open>strcpy\<close>, the
  other components by value.
\<close>

definition mem_pass ::
    "(char list list \<Rightarrow> ls_ptr \<times> 'a \<Rightarrow> ls_ptr \<times> 'a \<Rightarrow> bool option) \<Rightarrow> nat \<Rightarrow>
     char list list \<times> (ls_ptr \<times> 'a) list \<Rightarrow> (char list list \<times> (ls_ptr \<times> 'a) list) option" where
  "mem_pass cmp i st =
     for_upto 0 i (\<lambda>j (m, es). do {
       e \<leftarrow> rd es i;
       f \<leftarrow> rd es j;
       lt \<leftarrow> cmp m e f;
       if lt
       then do {
         m' \<leftarrow> strcpy_swap (fst e) (fst f) m;
         es1 \<leftarrow> wr es i (fst e, snd f);
         es2 \<leftarrow> wr es1 j (fst f, snd e);
         Some (m', es2) }
       else Some (m, es) }) st"

definition mem_sort ::
    "(char list list \<Rightarrow> ls_ptr \<times> 'a \<Rightarrow> ls_ptr \<times> 'a \<Rightarrow> bool option) \<Rightarrow>
     char list list \<times> (ls_ptr \<times> 'a) list \<Rightarrow> (char list list \<times> (ls_ptr \<times> 'a) list) option" where
  "mem_sort cmp st = for_upto 0 (length (snd st)) (mem_pass cmp) st"

definition cmp_name :: "char list list \<Rightarrow> ls_ptr \<times> 'a \<Rightarrow> ls_ptr \<times> 'a \<Rightarrow> bool option" where
  "cmp_name m e f = do { x \<leftarrow> str_at m (fst e); y \<leftarrow> str_at m (fst f); Some (strcmp_lt x y) }"

definition cmp_time :: "char list list \<Rightarrow> ls_entry \<Rightarrow> ls_entry \<Rightarrow> bool option" where
  "cmp_time m e f = Some (snd (snd e) > snd (snd f))"

definition cmp_same_time_name :: "char list list \<Rightarrow> ls_entry \<Rightarrow> ls_entry \<Rightarrow> bool option" where
  "cmp_same_time_name m e f = (if snd (snd e) = snd (snd f) then cmp_name m e f else Some False)"

text \<open>The first of the pointers whose string is \<open>name\<close>.\<close>

fun find_name :: "char list list \<Rightarrow> string \<Rightarrow> ls_ptr list \<Rightarrow> ls_ptr option option" where
  "find_name m name [] = Some None"
| "find_name m name (p # ps) = do { x \<leftarrow> str_at m p; if x = name then Some (Some p) else find_name m name ps }"

section \<open>Types, permissions and lines\<close>

definition type_char :: "nat \<Rightarrow> char option" where
  "type_char mode =
     (let t = mode div 4096 mod 16 in
      if t = 8 then Some (CHR ''-'') else if t = 4 then Some (CHR ''d'') else if t = 2 then Some (CHR ''c'')
      else if t = 6 then Some (CHR ''b'') else if t = 10 then Some (CHR ''l'') else if t = 1 then Some (CHR ''p'')
      else if t = 12 then Some (CHR ''s'') else None)"

text \<open>\<open>perms\<close> is static: what earlier calls set is still there.\<close>

definition perm :: "nat \<Rightarrow> string \<Rightarrow> string option" where
  "perm mode perms =
     for_upto 0 3 (\<lambda>i perms. do {
       p1 \<leftarrow> (if odd (mode div 2 ^ (8 - 3 * i)) then wr perms (3 * i) (CHR ''r'') else Some perms);
       p2 \<leftarrow> (if odd (mode div 2 ^ (7 - 3 * i)) then wr p1 (3 * i + 1) (CHR ''w'') else Some p1);
       if odd (mode div 2 ^ (6 - 3 * i)) then wr p2 (3 * i + 2) (CHR ''x'') else Some p2 }) perms"

definition pad_left :: "nat \<Rightarrow> string \<Rightarrow> string" where
  "pad_left w s = replicate (w - length s) (CHR '' '') @ s"

text \<open>\<open>sprintf\<close> into a buffer of 1024 chars.\<close>

definition fits :: "string \<Rightarrow> string option" where
  "fits s = (if length s < 1024 then Some s else None)"

definition long_line :: "ls_env \<Rightarrow> string \<Rightarrow> ls_stat \<Rightarrow> string \<Rightarrow> (string \<times> string) option" where
  "long_line env file st perms = do {
     t \<leftarrow> type_char (st_mode st);
     p \<leftarrow> perm (st_mode st) perms;
     u \<leftarrow> pw_name env (st_uid st);
     g \<leftarrow> gr_name env (st_gid st);
     line \<leftarrow> fits ([t] @ p @ '' '' @ pad_left 3 (show_int (st_nlink st)) @ '' '' @ u @ '' '' @ g @ '' '' @
       pad_left 9 (show_int (st_size st)) @ '' '' @ take 12 (drop 4 (ctime env (st_mtime st))) @ '' '' @ file @ [NL]);
     Some (line, p) }"

section \<open>Collecting entries\<close>

definition dot :: "string \<Rightarrow> bool" where
  "dot name \<longleftrightarrow> name = ''.'' \<or> name = ''..''"

definition add_name :: "ls_ptr \<Rightarrow> ls_state \<Rightarrow> ls_state option" where
  "add_name p s =
     (if length (ls_names s) < 1024 then Some (s\<lparr>ls_names := ls_names s @ [p]\<rparr>) else None)"

definition add_entry :: "ls_entry \<Rightarrow> ls_state \<Rightarrow> ls_state option" where
  "add_entry e s =
     (if length (ls_entries s) < 1024 then Some (s\<lparr>ls_entries := ls_entries s @ [e]\<rparr>) else None)"

text \<open>An action of the loops: on the pointer to the name, the name and its \<open>stat\<close>.\<close>

type_synonym ls_action = "ls_ptr \<Rightarrow> string \<Rightarrow> ls_stat \<Rightarrow> ls_state \<Rightarrow> ls_state option"

text \<open>
  The loop over the directory with the buffer \<open>b\<close>: \<open>readdir\<close>, \<open>sprintf\<close> of the path, \<open>lstat\<close> (the test of its result is
  never true, a failure leaves the old data), then the action of the caller.
\<close>

fun ls_scan :: "nat \<Rightarrow> string \<Rightarrow> ls_action \<Rightarrow> dir_call list \<Rightarrow> ls_state \<Rightarrow> ls_state option" where
  "ls_scan b dir act [] s = Some s"
| "ls_scan b dir act (d # ds) s = do {
     let s1 = s\<lparr>ls_bufs := (ls_bufs s)[b := d_buf d]\<rparr>;
     name \<leftarrow> str_at (ls_bufs s1) (b, d_name d);
     _ \<leftarrow> fits (dir @ ''/'' @ name);
     let st = (case d_stat d of Some x \<Rightarrow> x | None \<Rightarrow> ls_st s);
     s' \<leftarrow> act (b, d_name d) name st (s1\<lparr>ls_st := st\<rparr>);
     ls_scan b dir act ds s' }"

text \<open>\<open>opendir\<close> gives a new buffer, in which the loop works.\<close>

definition scan_dir :: "string \<Rightarrow> ls_action \<Rightarrow> dir_call list \<Rightarrow> ls_state \<Rightarrow> ls_state option" where
  "scan_dir dir act ds s = ls_scan (length (ls_bufs s)) dir act ds (s\<lparr>ls_bufs := ls_bufs s @ [[]]\<rparr>)"

text \<open>\<open>rewrite_time\<close> has ints.\<close>

definition add_long :: "ls_env \<Rightarrow> ls_action" where
  "add_long env p file st s = do {
     (line, perms) \<leftarrow> long_line env file st (ls_perms s);
     add_entry (p, line, wrap32 (st_mtime st)) (s\<lparr>ls_perms := perms\<rparr>) }"

definition set_minus_l_option :: "ls_env \<Rightarrow> ls_action" where
  "set_minus_l_option env p file st s = (if \<not> dot file then add_long env p file st s else Some s)"

text \<open>The first entry whose name contains \<open>file\<close> gets the inode number in front of its line.\<close>

fun mark_inode :: "char list list \<Rightarrow> string \<Rightarrow> string \<Rightarrow> ls_entry list \<Rightarrow> ls_entry list option" where
  "mark_inode m file num [] = Some []"
| "mark_inode m file num ((p, line, t) # es) = do {
     name \<leftarrow> str_at m p;
     if strstr name file
     then do { line' \<leftarrow> fits (num @ '' '' @ line); Some ((p, line', t) # es) }
     else do { es' \<leftarrow> mark_inode m file num es; Some ((p, line, t) # es') } }"

definition set_minus_i_option :: ls_action where
  "set_minus_i_option p file st s =
     (if \<not> dot file
      then if check_for_option s
           then do {
             es \<leftarrow> mark_inode (ls_bufs s) file (pad_left 7 (show_int (st_ino st))) (ls_entries s);
             Some (s\<lparr>ls_entries := es\<rparr>) }
           else do {
             line \<leftarrow> fits (pad_left 7 (show_int (st_ino st)) @ '' '' @ file @ [NL]);
             add_entry (p, line, wrap32 (st_mtime st)) s }
      else Some s)"

text \<open>\<open>set_minus_t_option\<close> and \<open>set_minus_r_option\<close> have the same body.\<close>

definition set_minus_t_option :: ls_action where
  "set_minus_t_option p file st s =
     (if \<not> dot file \<and> \<not> check_for_option s
      then do { line \<leftarrow> fits (file @ [NL]); add_entry (p, line, wrap32 (st_mtime st)) s }
      else Some s)"

section \<open>The listing functions\<close>

definition no_files :: "string \<Rightarrow> string" where
  "no_files name = ''NO FILES : '' @ name @ [NL]"

definition report_missing :: "string \<Rightarrow> ls_state \<Rightarrow> ls_state option" where
  "report_missing name s = do {
     r \<leftarrow> find_name (ls_bufs s) name (map fst (ls_entries s));
     Some (if r \<noteq> None then s else s\<lparr>ls_out := ls_out s @ no_files name\<rparr>) }"

text \<open>The target of an option function: \<open>.\<close> or \<open>argv[2]\<close>.\<close>

definition ls_target :: "string list \<Rightarrow> string" where
  "ls_target argv = (if length argv = 2 then ''.'' else argv ! 2)"

definition sort_by_name :: "ls_state \<Rightarrow> ls_result option" where
  "sort_by_name s = do {
     (m, es) \<leftarrow> mem_sort cmp_name (ls_bufs s, ls_entries s);
     Some (Ls_State (s\<lparr>ls_bufs := m, ls_entries := es\<rparr>)) }"

definition sort_by_time :: "ls_state \<Rightarrow> ls_result option" where
  "sort_by_time s = do {
     st \<leftarrow> mem_sort cmp_time (ls_bufs s, ls_entries s);
     (m, es) \<leftarrow> mem_sort cmp_same_time_name st;
     Some (Ls_State (s\<lparr>ls_bufs := m, ls_entries := es\<rparr>)) }"

text \<open>\<open>for (i = 0; i < n / 2; i++)\<close> swap \<open>arr_l[i]\<close> and \<open>arr_l[n - i - 1]\<close>; the other arrays stay.\<close>

definition reverse_lines :: "string list \<Rightarrow> string list option" where
  "reverse_lines ls = for_upto 0 (length ls div 2) (\<lambda>i xs. swap i (length ls - i - 1) xs) ls"

definition reverse_entries :: "ls_state \<Rightarrow> ls_result option" where
  "reverse_entries s = do {
     ls \<leftarrow> reverse_lines (map (fst \<circ> snd) (ls_entries s));
     Some (Ls_State (s\<lparr>ls_entries := map2 (\<lambda>(n, _, t) l. (n, l, t)) (ls_entries s) ls\<rparr>)) }"

text \<open>The common frame: open the target, or look for a file of that name in the current directory.\<close>

definition ls_option ::
    "ls_env \<Rightarrow> string list \<Rightarrow> ls_action \<Rightarrow> ls_action \<Rightarrow> (ls_state \<Rightarrow> ls_result option) \<Rightarrow> ls_state \<Rightarrow> ls_result option" where
  "ls_option env argv each single finish s =
     (let dir = ls_target argv in
      case readdir env dir of
        Some ds \<Rightarrow> do { s' \<leftarrow> scan_dir dir each ds s; finish s' }
      | None \<Rightarrow>
          (case readdir env ''.'' of
             None \<Rightarrow> Some Ls_Error
           | Some ds \<Rightarrow> do {
               s1 \<leftarrow> scan_dir ''.'' (\<lambda>p name st s. if name = dir then single p name st s else Some s) ds s;
               s2 \<leftarrow> report_missing dir s1;
               finish s2 }))"

definition myls_minus_l_option :: "ls_env \<Rightarrow> string list \<Rightarrow> ls_state \<Rightarrow> ls_result option" where
  "myls_minus_l_option env argv = ls_option env argv (set_minus_l_option env) (add_long env) sort_by_name"

definition single_inode :: ls_action where
  "single_inode p file st s =
     (if check_for_option s
      then do {
        es \<leftarrow> mark_inode (ls_bufs s) file (show_int (st_ino st)) (ls_entries s);
        Some (s\<lparr>ls_entries := es\<rparr>) }
      else do {
        line \<leftarrow> fits (show_int (st_ino st) @ '' '' @ file);
        add_entry (p, line, wrap32 (st_mtime st)) s })"

definition myls_minus_i_option :: "ls_env \<Rightarrow> string list \<Rightarrow> ls_state \<Rightarrow> ls_result option" where
  "myls_minus_i_option env argv = ls_option env argv set_minus_i_option single_inode sort_by_name"

definition single_name :: ls_action where
  "single_name p file st s =
     (if \<not> check_for_option s
      then do { line \<leftarrow> fits (file @ [NL]); add_entry (p, line, wrap32 (st_mtime st)) s }
      else Some s)"

definition myls_minus_t_option :: "ls_env \<Rightarrow> string list \<Rightarrow> ls_state \<Rightarrow> ls_result option" where
  "myls_minus_t_option env argv = ls_option env argv set_minus_t_option single_name sort_by_time"

definition myls_minus_r_option :: "ls_env \<Rightarrow> string list \<Rightarrow> ls_state \<Rightarrow> ls_result option" where
  "myls_minus_r_option env argv = ls_option env argv set_minus_t_option single_name reverse_entries"

text \<open>Plain listing of \<open>argv[1]\<close>, or of the one file of that name in the current directory.\<close>

definition list_name :: ls_action where
  "list_name p name st s = (if \<not> dot name then add_name p s else Some s)"

definition myls :: "ls_env \<Rightarrow> string list \<Rightarrow> ls_state \<Rightarrow> ls_result option" where
  "myls env argv s =
     (let dir = (if length argv = 1 then ''.'' else argv ! 1) in
      case readdir env dir of
        Some ds \<Rightarrow> do {
          s' \<leftarrow> scan_dir dir list_name ds s;
          (m, _) \<leftarrow> mem_sort cmp_name (ls_bufs s', map (\<lambda>p. (p, ())) (ls_names s'));
          Some (Ls_State (s'\<lparr>ls_bufs := m\<rparr>)) }
      | None \<Rightarrow>
          (case readdir env ''.'' of
             None \<Rightarrow> Some Ls_Error
           | Some ds \<Rightarrow> do {
               s' \<leftarrow> scan_dir ''.'' list_name ds s;
               r \<leftarrow> find_name (ls_bufs s') dir (ls_names s');
               Some (Ls_State
                 (case r of Some p \<Rightarrow> s'\<lparr>ls_names := [p]\<rparr>
                  | None \<Rightarrow> s'\<lparr>ls_out := ls_out s' @ no_files dir\<rparr>)) }))"

text \<open>What the loop over \<open>arr\<close> prints.\<close>

definition listing :: "ls_state \<Rightarrow> string list option" where
  "listing s = those (map (str_at (ls_bufs s)) (ls_names s))"

section \<open>The main program\<close>

text \<open>No argument contains a minus sign: list the arguments one by one.\<close>

fun main_plain :: "ls_env \<Rightarrow> string list \<Rightarrow> string \<Rightarrow> ls_state \<Rightarrow> (string \<times> int) option" where
  "main_plain env (prog # arg # rest) out s = do {
     r \<leftarrow> myls env (prog # arg # rest) (s\<lparr>ls_names := [], ls_out := []\<rparr>);
     case r of
       Ls_Error \<Rightarrow> Some (out @ ''error'' @ [NL], 1)
     | Ls_State s' \<Rightarrow> do {
         names \<leftarrow> listing s';
         main_plain env (arg # rest) (out @ ls_out s' @ concat (map (\<lambda>n. n @ [NL]) names) @ [NL]) s' } }"
| "main_plain env _ out s = Some (out, 0)"

text \<open>The positions of the arguments with a minus sign, the program name included.\<close>

definition option_positions :: "string list \<Rightarrow> nat list" where
  "option_positions argv = filter (\<lambda>i. CHR ''-'' \<in> set (argv ! i)) [0..<length argv]"

text \<open>
  The two nested loops that move the options to the front, with the positions they record;
  \<open>option[k]\<close> for \<open>k\<close> beyond the number of options is never read.
\<close>

definition has_minus :: "string \<Rightarrow> bool" where
  "has_minus a \<longleftrightarrow> CHR ''-'' \<in> set a"

definition gather_options ::
    "nat \<Rightarrow> string list \<times> nat list \<times> nat \<Rightarrow> (string list \<times> nat list \<times> nat) option" where
  "gather_options argc =
     for_upto 2 argc (\<lambda>i. for_upto i argc (\<lambda>j (argv, opts, k). do {
       a \<leftarrow> rd argv i;
       b \<leftarrow> rd argv j;
       if \<not> has_minus a \<and> has_minus b
       then do { argv' \<leftarrow> swap i j argv; Some (argv', opts[k := i], k + 1) }
       else Some (argv, opts, k) }))"

text \<open>
  Every further option is removed at its recorded position; the branch that would append
  its letters to \<open>argv[1]\<close> tests \<open>strstr(argv[1], tmp1)\<close> with \<open>tmp1\<close> a copy of \<open>argv[1]\<close>
  and is never taken.
\<close>

definition drop_at :: "nat \<Rightarrow> 'a list \<Rightarrow> 'a list" where
  "drop_at k xs = (if k < length xs then take k xs @ drop (Suc k) xs else butlast xs)"

definition drop_options :: "nat list \<Rightarrow> string list \<Rightarrow> string list" where
  "drop_options opts argv = fold drop_at (tl opts) argv"

definition main_args :: "string list \<Rightarrow> string list option" where
  "main_args argv =
     (let opts = option_positions argv in do {
        argv1 \<leftarrow> swap 1 (hd opts) argv;
        (argv2, opts2, _) \<leftarrow> gather_options (length argv) (argv1, opts, 1);
        let argv3 = drop_options opts2 argv2;
        rest \<leftarrow> exch_sort strcmp_lt (drop 2 argv3);
        Some (take 2 argv3 @ rest) })"

text \<open>One option of the combined argument \<open>argv[1]\<close>, if its letter occurs in it.\<close>

definition run_option ::
    "char \<Rightarrow> (string list \<Rightarrow> ls_state \<Rightarrow> ls_result option) \<Rightarrow> string list \<Rightarrow> ls_result \<Rightarrow> ls_result option" where
  "run_option letter f argv r =
     (case r of
        Ls_Error \<Rightarrow> Some Ls_Error
      | Ls_State s \<Rightarrow>
          if letter \<in> set (argv ! 1) \<and> argv ! 1 \<noteq> [] \<and> hd (argv ! 1) = CHR ''-''
          then do {
            r' \<leftarrow> f argv s;
            Some (case r' of Ls_Error \<Rightarrow> Ls_Error | Ls_State s' \<Rightarrow> Ls_State (s'\<lparr>check_for_option := True\<rparr>)) }
          else Some (Ls_State s))"

definition run_options :: "ls_env \<Rightarrow> string list \<Rightarrow> ls_state \<Rightarrow> ls_result option" where
  "run_options env argv s = do {
     r1 \<leftarrow> run_option (CHR ''l'') (myls_minus_l_option env) argv
             (Ls_State (s\<lparr>ls_entries := [], check_for_option := False, ls_out := []\<rparr>));
     r2 \<leftarrow> run_option (CHR ''i'') (myls_minus_i_option env) argv r1;
     r3 \<leftarrow> run_option (CHR ''t'') (myls_minus_t_option env) argv r2;
     run_option (CHR ''r'') (myls_minus_r_option env) argv r3 }"

function main_options :: "ls_env \<Rightarrow> string list \<Rightarrow> string \<Rightarrow> ls_state \<Rightarrow> (string \<times> int) option" where
  "main_options env argv out s = do {
     r \<leftarrow> run_options env argv s;
     case r of
       Ls_Error \<Rightarrow> Some (out @ ''error'' @ [NL], 1)
     | Ls_State s' \<Rightarrow>
         let out' = out @ ls_out s' @ concat (map (fst \<circ> snd) (ls_entries s')) @ [NL, NL] in
         if length argv \<le> 3 then Some (out', 0)
         else main_options env (take 2 argv @ drop 3 argv) out' s' }"
  by pat_completeness auto
termination
  by (relation "measure (\<lambda>(_, argv, _, _). length argv)") auto

declare main_options.simps [simp del]

text \<open>
  Without arguments \<open>malloc(strlen("."))\<close> reserves one byte and \<open>strcpy\<close> writes two.
\<close>

definition myls_main :: "ls_env \<Rightarrow> string list \<Rightarrow> ls_state \<Rightarrow> (string \<times> int) option" where
  "myls_main env argv s =
     (if length argv \<le> 1 then None
      else if option_positions argv = [] then main_plain env argv [] s
      else do { argv' \<leftarrow> main_args argv; main_options env argv' [] s })"

end
