(* ===== verification/Myls_Main.thy ===== *)
theory Myls_Main
  imports Myls
begin

text \<open>
  Properties of \<open>myls\<close>: the order and completeness of its listings, and the places where
  options and permission strings go wrong.
\<close>

section \<open>Names in a buffer\<close>

lemma cstr_append: "NUL \<notin> set y \<Longrightarrow> cstr (y @ NUL # zs) = y"
  by (induction y) (auto simp: cstr_def)

lemma str_at_iff:
  "str_at m p = Some y \<longleftrightarrow>
     fst p < length m \<and> NUL \<notin> set y \<and> take (length y + 1) (drop (snd p) (m ! fst p)) = y @ [NUL]"
proof -
  let ?d = "drop (snd p) (m ! fst p)"
  have "NUL \<in> set ?d \<and> cstr ?d = y \<longleftrightarrow> NUL \<notin> set y \<and> take (length y + 1) ?d = y @ [NUL]"
  proof (intro iffI conjI; (elim conjE)?)
    assume a: "NUL \<in> set ?d" "cstr ?d = y"
    show "NUL \<notin> set y" using a(2) by (auto simp: cstr_def dest: set_takeWhileD)
    obtain us vs where "?d = us @ NUL # vs" "NUL \<notin> set us" using split_list_first [OF a(1)] by blast
    then show "take (length y + 1) ?d = y @ [NUL]" using a(2) by (simp add: cstr_append)
  next
    assume b: "NUL \<notin> set y" "take (length y + 1) ?d = y @ [NUL]"
    then have "?d = y @ NUL # drop (length y + 1) ?d" using append_take_drop_id [of "length y + 1" ?d] by (metis append.assoc append_Cons append_Nil)
    then show "NUL \<in> set ?d" "cstr ?d = y" using cstr_append [OF b(1)] by (metis in_set_conv_decomp, metis)
  qed
  then show ?thesis by (auto simp: str_at_def)
qed

text \<open>Two names with room for \<open>L\<close> chars and the end of the string each.\<close>

definition apart :: "nat \<Rightarrow> ls_ptr \<Rightarrow> ls_ptr \<Rightarrow> bool" where
  "apart L p q \<longleftrightarrow> fst p \<noteq> fst q \<or> snd p + L < snd q \<or> snd q + L < snd p"

lemma strcpy_to_writes:
  assumes "fst p < length m" and "snd p + length t < length (m ! fst p)" and "NUL \<notin> set t"
  obtains m' where "strcpy_to p t m = Some m'" "str_at m' p = Some t" "length m' = length m"
    "\<And>b. length (m' ! b) = length (m ! b)"
    "\<And>q y. apart L p q \<Longrightarrow> length t \<le> L \<Longrightarrow> length y \<le> L \<Longrightarrow> str_at m q = Some y \<Longrightarrow> str_at m' q = Some y"
proof -
  let ?B = "m ! fst p"
  let ?B' = "take (snd p) ?B @ t @ [NUL] @ drop (snd p + length t + 1) ?B"
  let ?m = "m[fst p := ?B']"
  have "strcpy_to p t m = Some ?m" using assms(1,2) by (simp add: strcpy_to_def)
  moreover have "str_at ?m p = Some t" unfolding str_at_iff using assms by simp
  moreover have "length (?m ! b) = length (m ! b)" for b
    using assms(1,2) by (cases "b = fst p") simp_all
  moreover have "str_at ?m q = Some y" if ap: "apart L p q" "length t \<le> L" "length y \<le> L" "str_at m q = Some y" for q y
  proof (cases "fst q = fst p")
    case True
    have "take (length y + 1) (drop (snd q) ?B') = take (length y + 1) (drop (snd q) ?B)"
    proof (cases "snd p + L < snd q")
      case True
      then have k: "snd q = snd p + length t + 1 + (snd q - (snd p + length t + 1))" (is "_ = _ + ?k") using ap(2) by linarith
      have "drop (snd p + length t + 1 + k) ?B' = drop (snd p + length t + 1 + k) ?B" for k using assms(2) by (simp add: ac_simps)
      from this [of ?k] have "drop (snd q) ?B' = drop (snd q) ?B" by (simp only: k [symmetric])
      then show ?thesis by simp
    next
      case False
      then have "snd q + L < snd p" using ap(1) \<open>fst q = fst p\<close> by (simp add: apart_def)
      then show ?thesis using ap(3) assms(2) by (simp add: take_drop min_def)
    qed
    then show ?thesis using ap(4) True assms(1) unfolding str_at_iff by simp
  next
    case False
    then show ?thesis using ap(4) unfolding str_at_iff by simp
  qed
  ultimately show ?thesis using that [of ?m] by simp
qed

text \<open>Every pointer has room for all the names, and the pointers do not disturb each other.\<close>

definition slot_ok :: "nat \<Rightarrow> char list list \<Rightarrow> ls_ptr \<Rightarrow> bool" where
  "slot_ok L m p \<longleftrightarrow> fst p < length m \<and> snd p + L < length (m ! fst p) \<and> (\<exists>x. str_at m p = Some x \<and> length x \<le> L)"

definition slots_ok :: "nat \<Rightarrow> char list list \<Rightarrow> ls_ptr list \<Rightarrow> bool" where
  "slots_ok L m ps \<longleftrightarrow> L < 1024 \<and>
     (\<forall>i < length ps. slot_ok L m (ps ! i)) \<and>
     (\<forall>i j. i < length ps \<and> j < length ps \<and> i \<noteq> j \<longrightarrow> apart L (ps ! i) (ps ! j))"

lemma strcpy_swap_ok:
  assumes ok: "slots_ok L m ps" and ij: "i < length ps" "j < length ps" "i \<noteq> j"
  obtains m' where "strcpy_swap (ps ! i) (ps ! j) m = Some m'" "slots_ok L m' ps"
    "str_at m' (ps ! i) = str_at m (ps ! j)" "str_at m' (ps ! j) = str_at m (ps ! i)"
    "\<And>k. k < length ps \<Longrightarrow> k \<noteq> i \<Longrightarrow> k \<noteq> j \<Longrightarrow> str_at m' (ps ! k) = str_at m (ps ! k)"
proof -
  let ?p = "ps ! i" and ?q = "ps ! j"
  have slot: "slot_ok L m (ps ! k)" if "k < length ps" for k using ok that by (simp add: slots_ok_def)
  have ap: "apart L (ps ! k) (ps ! l)" if "k < length ps" "l < length ps" "k \<noteq> l" for k l
    using ok that by (simp add: slots_ok_def)
  note ends = slot [unfolded slot_ok_def, THEN conjunct1] slot [unfolded slot_ok_def, THEN conjunct2, THEN conjunct1]
  obtain x y where x: "str_at m ?p = Some x" "length x \<le> L" and y: "str_at m ?q = Some y" "length y \<le> L"
    using slot [OF ij(1)] slot [OF ij(2)] by (auto simp: slot_ok_def)
  have nul: "NUL \<notin> set x" "NUL \<notin> set y" using x(1) y(1) by (simp_all add: str_at_iff)
  obtain m1 where m1: "strcpy_to ?p y m = Some m1" "str_at m1 ?p = Some y" "length m1 = length m"
    "\<And>b. length (m1 ! b) = length (m ! b)"
    "\<And>q z. apart L ?p q \<Longrightarrow> length y \<le> L \<Longrightarrow> length z \<le> L \<Longrightarrow> str_at m q = Some z \<Longrightarrow> str_at m1 q = Some z"
    by (rule strcpy_to_writes [of ?p m y L]) (use ends(1) [OF ij(1)] ends(2) [OF ij(1)] y(2) nul in simp_all)
  obtain m2 where m2: "strcpy_to ?q x m1 = Some m2" "str_at m2 ?q = Some x" "length m2 = length m1"
    "\<And>b. length (m2 ! b) = length (m1 ! b)"
    "\<And>q z. apart L ?q q \<Longrightarrow> length x \<le> L \<Longrightarrow> length z \<le> L \<Longrightarrow> str_at m1 q = Some z \<Longrightarrow> str_at m2 q = Some z"
    by (rule strcpy_to_writes [of ?q m1 x L]) (use ends(1) [OF ij(2)] ends(2) [OF ij(2)] x(2) nul m1(3,4) in simp_all)
  have "\<not> overlap ?p ?q (length y)" using ap [OF ij] y(2) by (auto simp: overlap_def apart_def)
  moreover have "length x < 1024" using ok x(2) by (simp add: slots_ok_def)
  ultimately have run: "strcpy_swap ?p ?q m = Some m2" using x y m1(1) m2(1) by (simp add: strcpy_swap_def)
  have p2: "str_at m2 ?p = Some y" using m2(5) [of ?p y] ap [of j i] ij x(2) y(2) m1(2) by simp
  have other: "str_at m2 (ps ! k) = str_at m (ps ! k)" if k: "k < length ps" "k \<noteq> i" "k \<noteq> j" for k
  proof -
    obtain z where z: "str_at m (ps ! k) = Some z" "length z \<le> L" using slot [OF k(1)] by (auto simp: slot_ok_def)
    have "str_at m1 (ps ! k) = Some z" by (rule m1(5) [OF ap [OF ij(1) k(1) k(2) [symmetric]] y(2) z(2,1)])
    then have "str_at m2 (ps ! k) = Some z" by (rule m2(5) [OF ap [OF ij(2) k(1) k(3) [symmetric]] x(2) z(2)])
    then show ?thesis using z(1) by simp
  qed
  have "\<exists>z. str_at m2 (ps ! k) = Some z \<and> length z \<le> L" if k: "k < length ps" for k
  proof -
    consider "k = i" | "k = j" | "k \<noteq> i" "k \<noteq> j" by blast
    then show ?thesis using p2 m2(2) other [OF k] x(2) y(2) slot [OF k] by cases (simp_all add: slot_ok_def)
  qed
  then have "slot_ok L m2 (ps ! k)" if "k < length ps" for k
    using ends(1) [OF that] ends(2) [OF that] that by (simp add: slot_ok_def m1(3,4) m2(3,4))
  then have "slots_ok L m2 ps" using ok by (simp add: slots_ok_def)
  then show ?thesis using that [OF run] p2 m2(2) x(1) y(1) other by simp
qed

section \<open>The sorting loops on the buffers and on values\<close>

text \<open>The entries with the names that the pointers stand for.\<close>

definition vals :: "char list list \<times> (ls_ptr \<times> 'a) list \<Rightarrow> (string \<times> 'a) list" where
  "vals st = map (\<lambda>(p, x). (the (str_at (fst st) p), x)) (snd st)"

lemma mem_swap_vals:
  assumes ok: "slots_ok L m (map fst es)" and ij: "i < length es" "j < length es" "i \<noteq> j"
  obtains m' where "strcpy_swap (fst (es ! i)) (fst (es ! j)) m = Some m'" "slots_ok L m' (map fst es)"
    "vals (m', es[i := (fst (es ! i), snd (es ! j)), j := (fst (es ! j), snd (es ! i))]) =
       (vals (m, es))[i := vals (m, es) ! j, j := vals (m, es) ! i]"
proof -
  obtain m' where m': "strcpy_swap (map fst es ! i) (map fst es ! j) m = Some m'" "slots_ok L m' (map fst es)"
    "str_at m' (map fst es ! i) = str_at m (map fst es ! j)" "str_at m' (map fst es ! j) = str_at m (map fst es ! i)"
    "\<And>k. k < length (map fst es) \<Longrightarrow> k \<noteq> i \<Longrightarrow> k \<noteq> j \<Longrightarrow> str_at m' (map fst es ! k) = str_at m (map fst es ! k)"
    by (rule strcpy_swap_ok [OF ok, of i j]) (use ij in auto)
  have "vals (m', es[i := (fst (es ! i), snd (es ! j)), j := (fst (es ! j), snd (es ! i))]) =
      (vals (m, es))[i := vals (m, es) ! j, j := vals (m, es) ! i]"
    by (rule nth_equalityI) (use ij m'(3-5) in \<open>auto simp: vals_def nth_list_update split_beta\<close>)
  then show ?thesis using that m'(1,2) ij by simp
qed

text \<open>While every pointer has room for every name, the loops do to the values what they would do to an array of strings.\<close>

definition compares ::
    "nat \<Rightarrow> (char list list \<Rightarrow> ls_ptr \<times> 'a \<Rightarrow> ls_ptr \<times> 'a \<Rightarrow> bool option) \<Rightarrow> (string \<times> 'a \<Rightarrow> string \<times> 'a \<Rightarrow> bool) \<Rightarrow> bool" where
  "compares L cmp lt \<longleftrightarrow> (\<forall>m e f. slot_ok L m (fst e) \<and> slot_ok L m (fst f) \<longrightarrow>
     cmp m e f = Some (lt (the (str_at m (fst e)), snd e) (the (str_at m (fst f)), snd f)))"

lemma mem_sort_vals:
  fixes es :: "(ls_ptr \<times> 'a) list"
  assumes ok: "slots_ok L m (map fst es)" and cmp: "compares L cmp lt"
  shows "rel_option (\<lambda>st vs. slots_ok L (fst st) (map fst (snd st)) \<and> map fst (snd st) = map fst es \<and> vals st = vs)
    (mem_sort cmp (m, es)) (exch_sort lt (vals (m, es)))"
proof -
  let ?R = "\<lambda>(st :: char list list \<times> (ls_ptr \<times> 'a) list) vs. slots_ok L (fst st) (map fst (snd st)) \<and> map fst (snd st) = map fst es \<and> vals st = vs"
  have len: "length (vals (m, es)) = length es" by (simp add: vals_def)
  show ?thesis unfolding mem_sort_def exch_sort_def len snd_conv
  proof (rule for_upto_sim)
    fix i st vs assume i: "i < length es" and r: "?R st vs"
    show "rel_option ?R (mem_pass cmp i st) (exch_pass lt i vs)"
      unfolding mem_pass_def exch_pass_def
    proof (rule for_upto_sim)
      fix j st vs assume j: "j < i" and r: "?R st vs"
      obtain m1 es1 where st: "st = (m1, es1)" by (cases st)
      have len1: "length es1 = length es" using r st map_eq_imp_length_eq by (metis snd_conv)
      have ij: "i < length es1" "j < length es1" "i \<noteq> j" using i j len1 by auto
      have vs: "vs = vals (m1, es1)" and ok1: "slots_ok L m1 (map fst es1)" and same: "map fst es1 = map fst es" using r st by auto
      have nth: "vals (m1, es1) ! k = (the (str_at m1 (fst (es1 ! k))), snd (es1 ! k))" if "k < length es1" for k
        using that by (simp add: vals_def split_beta)
      have "slot_ok L m1 (fst (es1 ! k))" if "k < length es1" for k
        using ok1 that by (simp add: slots_ok_def)
      then have c: "cmp m1 (es1 ! i) (es1 ! j) = Some (lt (vs ! i) (vs ! j))"
        using cmp [unfolded compares_def, rule_format, of m1 "es1 ! i" "es1 ! j"] ij nth unfolding vs by simp
      have lv: "length vs = length es1" by (simp add: vs vals_def)
      obtain m' where m': "strcpy_swap (fst (es1 ! i)) (fst (es1 ! j)) m1 = Some m'" "slots_ok L m' (map fst es1)"
        "vals (m', es1[i := (fst (es1 ! i), snd (es1 ! j)), j := (fst (es1 ! j), snd (es1 ! i))]) =
           (vals (m1, es1))[i := vals (m1, es1) ! j, j := vals (m1, es1) ! i]"
        by (rule mem_swap_vals [OF ok1 ij])
      have keep: "map fst (es1[i := (fst (es1 ! i), snd (es1 ! j)), j := (fst (es1 ! j), snd (es1 ! i))]) = map fst es1"
        using ij by (intro nth_equalityI) (auto simp: nth_list_update)
      show "rel_option ?R
          ((\<lambda>(m, es). do { e \<leftarrow> rd es i; f \<leftarrow> rd es j; lt \<leftarrow> cmp m e f;
             if lt then do { m' \<leftarrow> strcpy_swap (fst e) (fst f) m; es1 \<leftarrow> wr es i (fst e, snd f); es2 \<leftarrow> wr es1 j (fst f, snd e);
               Some (m', es2) } else Some (m, es) }) st)
          (do { x \<leftarrow> rd vs i; y \<leftarrow> rd vs j; if lt x y then swap i j vs else Some vs })"
        using ij lv c m' keep same r by (simp add: st swap_in vs)
    qed (rule r)
  qed (use ok in simp)
qed

lemma mem_sort_run:
  assumes "slots_ok L m (map fst es)" and "compares L cmp lt" and "exch_sort lt (vals (m, es)) = Some vs"
  obtains m' es' where "mem_sort cmp (m, es) = Some (m', es')" "slots_ok L m' (map fst es')" "map fst es' = map fst es" "vals (m', es') = vs"
  using mem_sort_vals [OF assms(1,2)] assms(3) by (cases "mem_sort cmp (m, es)") auto

section \<open>Orders\<close>

type_synonym ls_value = "string \<times> string \<times> int"

definition name_lt :: "string \<times> 'a \<Rightarrow> string \<times> 'a \<Rightarrow> bool" where
  "name_lt e f = strcmp_lt (fst e) (fst f)"

definition time_gt :: "ls_value \<Rightarrow> ls_value \<Rightarrow> bool" where
  "time_gt e f = (snd (snd e) > snd (snd f))"

definition same_time_name_lt :: "ls_value \<Rightarrow> ls_value \<Rightarrow> bool" where
  "same_time_name_lt e f = (snd (snd e) = snd (snd f) \<and> strcmp_lt (fst e) (fst f))"

text \<open>Later times first, names in ascending order among equal times.\<close>

definition time_name_lt :: "ls_value \<Rightarrow> ls_value \<Rightarrow> bool" where
  "time_name_lt e f = (time_gt e f \<or> same_time_name_lt e f)"

lemma compares_orders:
  "compares L cmp_name name_lt" "compares L cmp_time time_gt" "compares L cmp_same_time_name same_time_name_lt"
  by (auto simp: compares_def slot_ok_def cmp_name_def name_lt_def cmp_time_def time_gt_def cmp_same_time_name_def same_time_name_lt_def)

interpretation entry_names: exchange_order name_lt
  by unfold_locales (auto simp: name_lt_def dest: strcmp_lt_asym strcmp_le_trans)

interpretation entry_times: exchange_order time_gt
  by unfold_locales (auto simp: time_gt_def)

interpretation entry_times_names: exchange_order time_name_lt
proof unfold_locales
  fix x y z :: ls_value
  show "time_name_lt x y \<Longrightarrow> \<not> time_name_lt y x"
    by (auto simp: time_name_lt_def time_gt_def same_time_name_lt_def dest: strcmp_lt_asym)
  show "\<not> time_name_lt y x \<Longrightarrow> \<not> time_name_lt z y \<Longrightarrow> \<not> time_name_lt z x"
    using strcmp_le_trans [of "fst y" "fst x" "fst z"]
    by (auto simp: time_name_lt_def time_gt_def same_time_name_lt_def)
qed

text \<open>On a list in descending order of time the second comparison acts like the combined one.\<close>

definition times_desc :: "ls_value list \<Rightarrow> bool" where
  "times_desc es \<longleftrightarrow> (\<forall>a b. a < b \<longrightarrow> b < length es \<longrightarrow> \<not> time_gt (es ! b) (es ! a))"

lemma times_desc_times: "times_desc es \<Longrightarrow> map (snd \<circ> snd) es = map (snd \<circ> snd) es' \<Longrightarrow> times_desc es'"
proof -
  assume d: "times_desc es" and m: "map (snd \<circ> snd) es = map (snd \<circ> snd) es'"
  have l: "length es' = length es" using map_eq_imp_length_eq [OF m] by simp
  have "snd (snd (es ! k)) = snd (snd (es' ! k))" if "k < length es" for k
    using that l arg_cong [OF m, of "\<lambda>xs. xs ! k"] by simp
  with d l show ?thesis by (simp add: times_desc_def time_gt_def)
qed

lemma swap_same_times:
  assumes "i < length es" and "j < length es" and "snd (snd (es ! i)) = snd (snd (es ! j))"
  shows "map (snd \<circ> snd) (es[i := es ! j, j := es ! i]) = map (snd \<circ> snd) es"
  using assms by (auto simp: nth_list_update intro!: nth_equalityI)

lemma second_pass:
  assumes "times_desc es"
  shows "exch_sort same_time_name_lt es = exch_sort time_name_lt es"
proof -
  let ?T = "map (snd \<circ> snd) es"
  let ?R = "\<lambda>(xs :: ls_value list) ys. xs = ys \<and> map (snd \<circ> snd) xs = ?T"
  have "rel_option ?R (exch_sort same_time_name_lt es) (exch_sort time_name_lt es)"
    unfolding exch_sort_def
  proof (rule for_upto_sim)
    fix i xs ys assume i: "i < length es" and r: "?R xs ys"
    show "rel_option ?R (exch_pass same_time_name_lt i xs) (exch_pass time_name_lt i ys)"
      unfolding exch_pass_def
    proof (rule for_upto_sim)
      fix j us vs assume j: "j < i" and u: "?R us vs"
      have len: "length us = length es" using u map_eq_imp_length_eq by blast
      with i j have ij: "i < length us" "j < length us" by auto
      have "times_desc us" using times_desc_times [OF assms] u by metis
      with ij j have "\<not> time_gt (us ! i) (us ! j)" by (simp add: times_desc_def)
      then have eq: "time_name_lt (us ! i) (us ! j) = same_time_name_lt (us ! i) (us ! j)"
        by (simp add: time_name_lt_def)
      have "map (snd \<circ> snd) (us[i := us ! j, j := us ! i]) = ?T" if "same_time_name_lt (us ! i) (us ! j)"
        using that conjunct2 [OF u] swap_same_times [OF ij] unfolding same_time_name_lt_def by metis
      moreover have uv: "vs = us" and uT: "map (snd \<circ> snd) us = ?T" using u by blast+
      ultimately show "rel_option ?R
          (do { x \<leftarrow> rd us i; y \<leftarrow> rd us j; if same_time_name_lt x y then swap i j us else Some us })
          (do { x \<leftarrow> rd vs i; y \<leftarrow> rd vs j; if time_name_lt x y then swap i j vs else Some vs })"
        unfolding uv using eq ij by (simp add: swap_in)
    qed (rule r)
  qed simp
  then show ?thesis by (auto elim: option.rel_cases)
qed

lemma sort_by_time_correct:
  assumes "slots_ok L (ls_bufs s) (map fst (ls_entries s))"
  shows "\<exists>m es. sort_by_time s = Some (Ls_State (s\<lparr>ls_bufs := m, ls_entries := es\<rparr>)) \<and> map fst es = map fst (ls_entries s) \<and>
     slots_ok L m (map fst es) \<and> mset (vals (m, es)) = mset (vals (ls_bufs s, ls_entries s)) \<and>
     sorted_wrt (\<lambda>e f. \<not> time_name_lt f e) (vals (m, es))"
proof -
  obtain vs where vs: "exch_sort time_gt (vals (ls_bufs s, ls_entries s)) = Some vs" "mset vs = mset (vals (ls_bufs s, ls_entries s))"
    "sorted_wrt (\<lambda>x y. \<not> time_gt y x) vs" using entry_times.exch_sort_sorted by blast
  obtain m1 es1 where one: "mem_sort cmp_time (ls_bufs s, ls_entries s) = Some (m1, es1)" "slots_ok L m1 (map fst es1)"
    "map fst es1 = map fst (ls_entries s)" "vals (m1, es1) = vs" by (rule mem_sort_run [OF assms compares_orders(2) vs(1)])
  have "times_desc vs" using vs(3) by (auto simp: times_desc_def sorted_wrt_iff_nth_less)
  then have second: "exch_sort same_time_name_lt vs = exch_sort time_name_lt vs" by (rule second_pass)
  obtain ws where ws: "exch_sort time_name_lt vs = Some ws" "mset ws = mset vs"
    "sorted_wrt (\<lambda>x y. \<not> time_name_lt y x) ws" using entry_times_names.exch_sort_sorted by blast
  have "exch_sort same_time_name_lt (vals (m1, es1)) = Some ws" using second ws(1) one(4) by simp
  then obtain m2 es2 where two: "mem_sort cmp_same_time_name (m1, es1) = Some (m2, es2)" "slots_ok L m2 (map fst es2)"
    "map fst es2 = map fst es1" "vals (m2, es2) = ws" by (rule mem_sort_run [OF one(2) compares_orders(3)])
  have "sort_by_time s = Some (Ls_State (s\<lparr>ls_bufs := m2, ls_entries := es2\<rparr>))" using one(1) two(1) by (simp add: sort_by_time_def)
  then show ?thesis using one(3) two(2-4) ws(2,3) vs(2) by (intro exI [of _ m2] exI [of _ es2]) simp
qed

section \<open>Collecting\<close>

text \<open>
  A directory that fits into one buffer \<open>buf\<close>, is listed at path \<open>dir\<close> without any array overflowing, and whose entries have room for the longest
  name each.
\<close>

definition entry_name :: "char list \<Rightarrow> dir_call \<Rightarrow> string" where
  "entry_name buf d = the (str_at [buf] (0, d_name d))"

definition dir_fits :: "nat \<Rightarrow> char list \<Rightarrow> string \<Rightarrow> dir_call list \<Rightarrow> bool" where
  "dir_fits L buf dir ds \<longleftrightarrow> length ds < 1024 \<and> length dir + 1 + L < 1023 \<and> (\<forall>d \<in> set ds. d_buf d = buf) \<and>
     slots_ok L [buf] (map (\<lambda>d. (0, d_name d)) ds)"

lemma str_at_buffer: "b < length m \<Longrightarrow> m ! b = buf \<Longrightarrow> str_at m (b, off) = str_at [buf] (0, off)"
  by (simp add: str_at_def)

lemma dir_slot:
  assumes "dir_fits L buf dir ds" and "d \<in> set ds"
  shows "slot_ok L [buf] (0, d_name d)"
proof -
  obtain i where "i < length ds" "d = ds ! i" using assms(2) by (metis in_set_conv_nth)
  then show ?thesis using assms(1) by (simp add: dir_fits_def slots_ok_def)
qed

lemma dir_entry:
  assumes "dir_fits L buf dir ds" and "d \<in> set ds" and "b < length m"
  shows "str_at (m[b := d_buf d]) (b, d_name d) = Some (entry_name buf d)" "d_buf d = buf" "length (entry_name buf d) \<le> L"
    "fits (dir @ ''/'' @ entry_name buf d) = Some (dir @ ''/'' @ entry_name buf d)"
    "fits (entry_name buf d @ [NL]) = Some (entry_name buf d @ [NL])"
proof -
  show b: "d_buf d = buf" using assms(1,2) by (simp add: dir_fits_def)
  obtain x where x: "str_at [buf] (0, d_name d) = Some x" "length x \<le> L" using dir_slot [OF assms(1,2)] by (auto simp: slot_ok_def)
  then show "str_at (m[b := d_buf d]) (b, d_name d) = Some (entry_name buf d)" "length (entry_name buf d) \<le> L"
    using str_at_buffer [of b "m[b := buf]" buf] assms(3) b by (simp_all add: entry_name_def)
  then show "fits (dir @ ''/'' @ entry_name buf d) = Some (dir @ ''/'' @ entry_name buf d)"
    "fits (entry_name buf d @ [NL]) = Some (entry_name buf d @ [NL])" using assms(1) by (simp_all add: fits_def dir_fits_def)
qed

text \<open>What a loop leaves in the buffers.\<close>

definition filled :: "nat \<Rightarrow> char list \<Rightarrow> dir_call list \<Rightarrow> char list list \<Rightarrow> char list list" where
  "filled b buf ds m = (if ds = [] then m else m[b := buf])"

lemma filled_step: "filled b buf ds (m[b := buf]) = m[b := buf]" "b < length m \<Longrightarrow> b < length (filled b buf ds m)"
  by (simp_all add: filled_def)

lemma scan_names:
  assumes "dir_fits L buf dir ds0" and "set ds \<subseteq> set ds0" and "b < length (ls_bufs s)" and "length (ls_names s) + length ds < 1024"
  shows "\<exists>s'. ls_scan b dir list_name ds s = Some s' \<and> ls_bufs s' = filled b buf ds (ls_bufs s) \<and>
     ls_names s' = ls_names s @ map (\<lambda>d. (b, d_name d)) (filter (\<lambda>d. \<not> dot (entry_name buf d)) ds)"
  using assms(2-)
proof (induction ds arbitrary: s)
  case (Cons d ds)
  let ?m = "(ls_bufs s)[b := buf]" and ?st = "case d_stat d of Some x \<Rightarrow> x | None \<Rightarrow> ls_st s"
  have mem: "d \<in> set ds0" using Cons.prems(1) by simp
  note d = dir_entry [OF assms(1) mem Cons.prems(2)]
  let ?s = "s\<lparr>ls_bufs := ?m, ls_st := ?st,
     ls_names := ls_names s @ (if dot (entry_name buf d) then [] else [(b, d_name d)])\<rparr>"
  have act: "list_name (b, d_name d) (entry_name buf d) ?st (s\<lparr>ls_bufs := ?m, ls_st := ?st\<rparr>) = Some ?s"
    using Cons.prems(3) by (simp add: list_name_def add_name_def)
  have room: "length (ls_names ?s) + length ds < 1024" using Cons.prems(3) by simp
  obtain s' where "ls_scan b dir list_name ds ?s = Some s'" "ls_bufs s' = filled b buf ds ?m"
      "ls_names s' = ls_names ?s @ map (\<lambda>d. (b, d_name d)) (filter (\<lambda>d. \<not> dot (entry_name buf d)) ds)"
    using Cons.IH [of ?s] Cons.prems(1,2) room by auto
  moreover have "ls_scan b dir list_name (d # ds) s = ls_scan b dir list_name ds ?s"
    using d act by (simp add: Let_def)
  ultimately show ?case by (auto simp: filled_def)
qed (simp add: filled_def)

lemma scan_times:
  assumes "dir_fits L buf dir ds0" and "set ds \<subseteq> set ds0" and "b < length (ls_bufs s)" and "length (ls_entries s) + length ds < 1024"
    and "\<forall>d \<in> set ds. d_stat d \<noteq> None" and "\<not> check_for_option s"
  shows "\<exists>s'. ls_scan b dir set_minus_t_option ds s = Some s' \<and> ls_bufs s' = filled b buf ds (ls_bufs s) \<and>
     ls_entries s' = ls_entries s @ map (\<lambda>d. ((b, d_name d), entry_name buf d @ [NL], wrap32 (st_mtime (the (d_stat d)))))
       (filter (\<lambda>d. \<not> dot (entry_name buf d)) ds)"
  using assms(2-)
proof (induction ds arbitrary: s)
  case (Cons d ds)
  obtain st where st: "d_stat d = Some st" using Cons.prems(4) by auto
  let ?m = "(ls_bufs s)[b := buf]" and ?e = "((b, d_name d), entry_name buf d @ [NL], wrap32 (st_mtime st))"
  have mem: "d \<in> set ds0" using Cons.prems(1) by simp
  note d = dir_entry [OF assms(1) mem Cons.prems(2)]
  let ?s = "s\<lparr>ls_bufs := ?m, ls_st := st, ls_entries := ls_entries s @ (if dot (entry_name buf d) then [] else [?e])\<rparr>"
  have act: "set_minus_t_option (b, d_name d) (entry_name buf d) st (s\<lparr>ls_bufs := ?m, ls_st := st\<rparr>) = Some ?s"
    using Cons.prems(3,5) d(5) by (simp add: set_minus_t_option_def add_entry_def)
  have room: "length (ls_entries ?s) + length ds < 1024" using Cons.prems(3) by simp
  obtain s' where "ls_scan b dir set_minus_t_option ds ?s = Some s'" "ls_bufs s' = filled b buf ds ?m"
      "ls_entries s' = ls_entries ?s @ map (\<lambda>d. ((b, d_name d), entry_name buf d @ [NL], wrap32 (st_mtime (the (d_stat d)))))
         (filter (\<lambda>d. \<not> dot (entry_name buf d)) ds)"
    using Cons.IH [of ?s] Cons.prems(1,2,4,5) room by auto
  moreover have "ls_scan b dir set_minus_t_option (d # ds) s = ls_scan b dir set_minus_t_option ds ?s"
    using d act st by (simp add: Let_def)
  ultimately show ?case using st by (auto simp: filled_def)
qed (simp add: filled_def)

text \<open>The entries of the directory are good slots of the buffer that the loop leaves, also without the dots.\<close>

lemma scanned_slots:
  assumes fit: "dir_fits L buf dir ds" and b: "b = length m" and xs: "xs = filter P ds"
  shows "slots_ok L (filled b buf ds (m @ [[]])) (map (\<lambda>d. (b, d_name d)) xs)"
    "\<forall>d \<in> set xs. str_at (filled b buf ds (m @ [[]])) (b, d_name d) = Some (entry_name buf d)"
proof -
  let ?m = "filled b buf ds (m @ [[]])"
  have at: "str_at ?m (b, d_name d) = str_at [buf] (0, d_name d)" "slot_ok L ?m (b, d_name d) = slot_ok L [buf] (0, d_name d)" if "d \<in> set ds" for d
  proof -
    have "?m = m @ [buf]" using that b by (auto simp: filled_def)
    then show "str_at ?m (b, d_name d) = str_at [buf] (0, d_name d)" "slot_ok L ?m (b, d_name d) = slot_ok L [buf] (0, d_name d)"
      using str_at_buffer [of b "m @ [buf]" buf] b by (simp_all add: slot_ok_def nth_append)
  qed
  have slot: "slot_ok L [buf] (0, d_name d)" if "d \<in> set ds" for d
    using fit that by (rule dir_slot)
  have L: "L < 1024" and pair: "sorted_wrt (\<lambda>d e. apart L (0, d_name d) (0, d_name e)) ds"
    using fit by (auto simp: dir_fits_def slots_ok_def sorted_wrt_iff_nth_less)
  then have "sorted_wrt (\<lambda>d e. apart L (0, d_name d) (0, d_name e)) xs" unfolding xs by (intro sorted_wrt_filter)
  then have ap: "apart L (b, d_name (xs ! i)) (b, d_name (xs ! j))" if "i < length xs" "j < length xs" "i \<noteq> j" for i j
    using that by (cases "i < j") (auto simp: sorted_wrt_iff_nth_less apart_def dest!: nat_neq_iff [THEN iffD1])
  have mem: "xs ! i \<in> set ds" if "i < length xs" for i using that nth_mem [OF that] by (simp add: xs)
  show "slots_ok L ?m (map (\<lambda>d. (b, d_name d)) xs)"
    using L slot at(2) mem ap by (simp add: slots_ok_def)
  show "\<forall>d \<in> set xs. str_at ?m (b, d_name d) = Some (entry_name buf d)"
    using slot at(1) by (fastforce simp: xs slot_ok_def entry_name_def)
qed

section \<open>Properties\<close>

lemma those_strings:
  assumes "slots_ok L m ps"
  shows "those (map (str_at m) ps) = Some (map (\<lambda>p. the (str_at m p)) ps)"
proof -
  have "\<forall>p \<in> set ps. \<exists>x. str_at m p = Some x" using assms unfolding slots_ok_def slot_ok_def by (metis in_set_conv_nth)
  then show ?thesis by (induction ps) auto
qed

text \<open>
  C28. The plain listing of a directory, whose names are exchanged by \<open>strcpy\<close> inside the buffer of \<open>readdir\<close>. If the directory has fewer than
  1024 entries, fits into one such buffer, and every entry has room for the longest name, then no \<open>strcpy\<close> leaves its entry, and
  the listing has every name but \<open>.\<close> and \<open>..\<close> exactly
  as often as the directory has it, in ascending order. The theorem after it shows what happens without that room.
\<close>

theorem myls_sorted:
  assumes "readdir env dir = Some ds" and "dir_fits L buf dir ds" and "ls_names s = []"
  shows "\<exists>s' names. myls env [prog, dir] s = Some (Ls_State s') \<and> listing s' = Some names \<and>
     sorted_wrt (\<lambda>x y. \<not> strcmp_lt y x) names \<and>
     mset names = mset (filter (\<lambda>n. \<not> dot n) (map (entry_name buf) ds))"
proof -
  define b where "b = length (ls_bufs s)"
  define m where "m = filled b buf ds (ls_bufs s @ [[]])"
  define xs where "xs = filter (\<lambda>d. \<not> dot (entry_name buf d)) ds"
  define ps where "ps = map (\<lambda>d. (b, d_name d)) xs"
  have "length ds < 1024" using assms(2) by (simp add: dir_fits_def)
  then obtain s1 where s1: "scan_dir dir list_name ds s = Some s1" "ls_bufs s1 = m" "ls_names s1 = ps"
    using scan_names [OF assms(2) subset_refl, of b "s\<lparr>ls_bufs := ls_bufs s @ [[]]\<rparr>"] assms(3)
    by (auto simp: scan_dir_def b_def m_def ps_def xs_def)
  have slots: "slots_ok L m ps" and at: "\<forall>d \<in> set xs. str_at m (b, d_name d) = Some (entry_name buf d)"
    using scanned_slots [OF assms(2) b_def xs_def] by (simp_all add: m_def ps_def)
  then have names: "map (\<lambda>p. the (str_at m p)) ps = filter (\<lambda>n. \<not> dot n) (map (entry_name buf) ds)"
    unfolding ps_def xs_def filter_map by (simp add: comp_def cong: map_cong)
  define es where "es = map (\<lambda>p. (p, ())) ps"
  have es: "map fst es = ps" "map fst (vals (m, es)) = map (\<lambda>p. the (str_at m p)) ps" by (simp_all add: es_def vals_def comp_def)
  have good: "slots_ok L m (map fst es)" using slots es(1) by simp
  obtain vs where vs: "exch_sort name_lt (vals (m, es)) = Some vs" "mset vs = mset (vals (m, es))"
    "sorted_wrt (\<lambda>x y. \<not> name_lt y x) vs" using entry_names.exch_sort_sorted by blast
  obtain m' es' where run: "mem_sort cmp_name (m, es) = Some (m', es')" "slots_ok L m' (map fst es')" "map fst es' = map fst es"
    "vals (m', es') = vs" by (rule mem_sort_run [OF good compares_orders(1) vs(1)])
  let ?s' = "s1\<lparr>ls_bufs := m'\<rparr>"
  have "map (\<lambda>p. the (str_at m' p)) (map fst es') = map fst vs" unfolding run(4) [symmetric] by (simp add: vals_def split_beta)
  moreover have "ls_names s1 = map fst es'" using run(3) es(1) s1(3) by simp
  ultimately have "listing ?s' = Some (map fst vs)" using those_strings [OF run(2)] by (simp add: listing_def)
  moreover have "myls env [prog, dir] s = Some (Ls_State ?s')"
    using assms(1) s1 run(1) by (simp add: myls_def es_def)
  moreover have "sorted_wrt (\<lambda>x y. \<not> strcmp_lt y x) (map fst vs)" using vs(3) by (simp add: sorted_wrt_map name_lt_def)
  moreover have "mset (map fst vs) = mset (map fst (vals (m, es)))" using vs(2) by (simp only: mset_map)
  ultimately show ?thesis using es(2) names by (intro exI [of _ ?s'] exI [of _ "map fst vs"]) simp
qed

abbreviation no_stat :: ls_stat where
  "no_stat \<equiv> \<lparr>st_mode = 0, st_nlink = 0, st_uid = 0, st_gid = 0, st_size = 0, st_mtime = 0, st_ino = 0\<rparr>"

abbreviation ls_start :: ls_state where
  "ls_start \<equiv> \<lparr>ls_bufs = [], ls_names = [], ls_entries = [], ls_st = no_stat, ls_perms = ''---------'', check_for_option = False, ls_out = []\<rparr>"

text \<open>A buffer with the names b, ., a and c.\<close>

definition sample_buf :: "char list" where
  "sample_buf = [CHR ''b'', NUL, CHR ''.'', NUL, CHR ''a'', NUL, CHR ''c'', NUL]"

definition sample_dir :: "dir_call list" where
  "sample_dir = [\<lparr>d_buf = sample_buf, d_name = 0, d_stat = Some (no_stat\<lparr>st_mtime := 5\<rparr>)\<rparr>, \<lparr>d_buf = sample_buf, d_name = 2, d_stat = Some no_stat\<rparr>,
     \<lparr>d_buf = sample_buf, d_name = 4, d_stat = Some (no_stat\<lparr>st_mtime := 5\<rparr>)\<rparr>, \<lparr>d_buf = sample_buf, d_name = 6, d_stat = Some (no_stat\<lparr>st_mtime := 9\<rparr>)\<rparr>]"

definition dir_env :: "dir_call list \<Rightarrow> ls_env" where
  "dir_env ds = \<lparr>readdir = (\<lambda>d. if d = ''d'' then Some ds else None), pw_name = (\<lambda>_. None), gr_name = (\<lambda>_. None), ctime = (\<lambda>_. [])\<rparr>"

lemma sample_dir_fits: "dir_fits 1 sample_buf ''d'' sample_dir"
proof -
  let ?ps = "[(0, 0), (0, 2), (0, 4), (0, 6)]"
  have "list_all (slot_ok 1 [sample_buf]) ?ps" by (simp add: slot_ok_def sample_buf_def str_at_def cstr_def)
  moreover have "list_all (\<lambda>i. list_all (\<lambda>j. i \<noteq> j \<longrightarrow> apart 1 (?ps ! i) (?ps ! j)) [0..<4]) [0..<4]"
    by (simp add: apart_def upt_rec)
  ultimately have "slots_ok 1 [sample_buf] ?ps" by (simp add: slots_ok_def list_all_length)
  then show ?thesis by (simp add: dir_fits_def sample_dir_def)
qed

theorem myls_sorted_witness:
  "\<exists>s' names. myls (dir_env sample_dir) [''myls'', ''d''] ls_start = Some (Ls_State s') \<and> listing s' = Some names \<and>
     sorted_wrt (\<lambda>x y. \<not> strcmp_lt y x) names \<and> mset names = {#''a'', ''b'', ''c''#}"
proof -
  have "readdir (dir_env sample_dir) ''d'' = Some sample_dir" "ls_names ls_start = []" by (simp_all add: dir_env_def)
  moreover have "filter (\<lambda>n. \<not> dot n) (map (entry_name sample_buf) sample_dir) = [''b'', ''a'', ''c'']"
    by (simp add: sample_dir_def sample_buf_def entry_name_def str_at_def cstr_def dot_def)
  ultimately show ?thesis using myls_sorted [OF _ sample_dir_fits, of "dir_env sample_dir" ls_start "''myls''"] by (auto simp: add_mset_commute)
qed

text \<open>
  Without that room names are lost. With the entries packed as the kernel packs them, the name behind a header of 19 bytes and the next entry at the
  next multiple of 8, the directory with the names b and thirty times a is listed as thirty times a and six times a: the longer name is copied
  over the end of the first entry into the second one.
\<close>

definition packed :: "string \<Rightarrow> char list" where
  "packed name = replicate 19 (CHR 0x01) @ name @ replicate (8 - (19 + length name) mod 8) NUL"

definition packed_buf :: "char list" where
  "packed_buf = packed ''b'' @ packed (replicate 30 (CHR ''a''))"

definition packed_dir :: "dir_call list" where
  "packed_dir = [\<lparr>d_buf = packed_buf, d_name = 19, d_stat = Some no_stat\<rparr>, \<lparr>d_buf = packed_buf, d_name = 43, d_stat = Some no_stat\<rparr>]"

theorem myls_loses_name:
  "map (entry_name packed_buf) packed_dir = [''b'', replicate 30 (CHR ''a'')] \<and>
   (case myls (dir_env packed_dir) [''myls'', ''d''] ls_start of Some (Ls_State s') \<Rightarrow> listing s' | _ \<Rightarrow> None) =
     Some [replicate 30 (CHR ''a''), replicate 6 (CHR ''a'')]"
  by code_simp

text \<open>
  \<open>myls -t\<close> on a directory with that room: the two sorting passes together give the order by
  modification time, latest first, and by name among equal times; every entry is listed
  once.
\<close>

theorem myls_time_order:
  assumes "readdir env dir = Some ds" and "dir_fits L buf dir ds" and "\<forall>d \<in> set ds. d_stat d \<noteq> None"
    and "ls_entries s = []" and "\<not> check_for_option s"
  shows "\<exists>s'. myls_minus_t_option env [prog, ''-t'', dir] s = Some (Ls_State s') \<and>
     sorted_wrt (\<lambda>e f. \<not> time_name_lt f e) (vals (ls_bufs s', ls_entries s')) \<and>
     mset (vals (ls_bufs s', ls_entries s')) =
       mset (map (\<lambda>d. (entry_name buf d, entry_name buf d @ [NL], wrap32 (st_mtime (the (d_stat d))))) (filter (\<lambda>d. \<not> dot (entry_name buf d)) ds))"
proof -
  let ?m = "filled (length (ls_bufs s)) buf ds (ls_bufs s @ [[]])"
  let ?es = "map (\<lambda>d. ((length (ls_bufs s), d_name d), entry_name buf d @ [NL], wrap32 (st_mtime (the (d_stat d))))) (filter (\<lambda>d. \<not> dot (entry_name buf d)) ds)"
  have "length ds < 1024" using assms(2) by (simp add: dir_fits_def)
  then obtain s1 where s1: "scan_dir dir set_minus_t_option ds s = Some s1" "ls_bufs s1 = ?m" "ls_entries s1 = ?es"
    using scan_times [OF assms(2) subset_refl, of "length (ls_bufs s)" "s\<lparr>ls_bufs := ls_bufs s @ [[]]\<rparr>"] assms(3-5)
    by (auto simp: scan_dir_def)
  note slots = scanned_slots [OF assms(2) refl refl, where m = "ls_bufs s" and P = "\<lambda>d. \<not> dot (entry_name buf d)"]
  have "map fst ?es = map (\<lambda>d. (length (ls_bufs s), d_name d)) (filter (\<lambda>d. \<not> dot (entry_name buf d)) ds)" by simp
  then have "slots_ok L (ls_bufs s1) (map fst (ls_entries s1))" using slots(1) s1(2,3) by (simp only:)
  from sort_by_time_correct [OF this] obtain m es where
    "sort_by_time s1 = Some (Ls_State (s1\<lparr>ls_bufs := m, ls_entries := es\<rparr>))" "mset (vals (m, es)) = mset (vals (ls_bufs s1, ls_entries s1))"
    "sorted_wrt (\<lambda>e f. \<not> time_name_lt f e) (vals (m, es))" by blast
  moreover have "vals (ls_bufs s1, ls_entries s1) =
      map (\<lambda>d. (entry_name buf d, entry_name buf d @ [NL], wrap32 (st_mtime (the (d_stat d))))) (filter (\<lambda>d. \<not> dot (entry_name buf d)) ds)"
    using slots(2) by (auto simp: vals_def s1(2,3))
  ultimately show ?thesis using s1(1) assms(1) by (simp add: myls_minus_t_option_def ls_option_def ls_target_def)
qed

lemma reverse_step:
  assumes "k < n div 2" and "length zs = n"
    and "\<forall>j < n. zs ! j = (if j < k \<or> n - k \<le> j then xs ! (n - Suc j) else xs ! j)"
  shows "\<forall>j < n. zs[k := zs ! (n - k - 1), n - k - 1 := zs ! k] ! j =
     (if j < Suc k \<or> n - Suc k \<le> j then xs ! (n - Suc j) else xs ! j)"
proof (intro allI impI)
  fix j assume j: "j < n"
  have k: "k < n" "n - k - 1 < n" "k \<noteq> n - k - 1" "k < n - k - 1" using assms(1) by auto
  have vals: "zs ! k = xs ! k" "zs ! (n - k - 1) = xs ! (n - k - 1)"
    using assms(3) k by auto
  consider "j = k" | "j = n - k - 1" | "j \<noteq> k" "j \<noteq> n - k - 1" by blast
  then show "zs[k := zs ! (n - k - 1), n - k - 1 := zs ! k] ! j =
     (if j < Suc k \<or> n - Suc k \<le> j then xs ! (n - Suc j) else xs ! j)"
  proof cases
    case 1
    with k vals assms(2) show ?thesis by (simp add: nth_list_update)
  next
    case 2
    with k vals assms(2) show ?thesis by (simp add: nth_list_update)
  next
    case 3
    then have "(j < Suc k \<or> n - Suc k \<le> j) = (j < k \<or> n - k \<le> j)" using j k by auto
    with 3 j assms(2,3) show ?thesis by (simp add: nth_list_update)
  qed
qed

text \<open>
  The loop of \<open>-r\<close> over the first half of the lines reverses them, for even and odd
  numbers of lines, and never leaves the array.
\<close>

theorem reverse_lines_rev: "reverse_lines ls = Some (rev ls)"
proof -
  let ?n = "length ls"
  have "\<exists>zs. reverse_lines ls = Some zs \<and> (length zs = ?n \<and>
      (\<forall>j < ?n. zs ! j = (if j < ?n div 2 \<or> ?n - ?n div 2 \<le> j then ls ! (?n - Suc j) else ls ! j)))"
    unfolding reverse_lines_def
  proof (rule for_upto_rule [where I = "\<lambda>k zs. length zs = ?n \<and>
      (\<forall>j < ?n. zs ! j = (if j < k \<or> ?n - k \<le> j then ls ! (?n - Suc j) else ls ! j))"])
    fix k zs assume k: "k < ?n div 2" and zs: "length zs = ?n \<and>
      (\<forall>j < ?n. zs ! j = (if j < k \<or> ?n - k \<le> j then ls ! (?n - Suc j) else ls ! j))"
    from k have "k < ?n" "?n - k - 1 < ?n" by auto
    with reverse_step [OF k, of zs ls] zs
    show "\<exists>t'. swap k (?n - k - 1) zs = Some t' \<and> length t' = ?n \<and>
      (\<forall>j < ?n. t' ! j = (if j < Suc k \<or> ?n - Suc k \<le> j then ls ! (?n - Suc j) else ls ! j))"
      by (simp add: swap_in)
  qed auto
  then obtain zs where zs: "reverse_lines ls = Some zs" "length zs = ?n"
    "\<forall>j < ?n. zs ! j = (if j < ?n div 2 \<or> ?n - ?n div 2 \<le> j then ls ! (?n - Suc j) else ls ! j)" by blast
  have "zs ! j = ls ! (?n - Suc j)" if j: "j < ?n" for j
  proof (cases "j < ?n div 2 \<or> ?n - ?n div 2 \<le> j")
    case False
    then have "j = ?n - Suc j" using j by linarith
    with zs(3) j show ?thesis by auto
  qed (use zs(3) j in auto)
  with zs(2) have "zs = rev ls" by (intro nth_equalityI) (simp_all add: rev_nth)
  with zs(1) show ?thesis by simp
qed

section \<open>Permission strings and combined options\<close>

definition perm_char :: "nat \<Rightarrow> string \<Rightarrow> nat \<Rightarrow> char" where
  "perm_char m p k = (if odd (m div 2 ^ (8 - k)) then ''rwx'' ! (k mod 3) else p ! k)"

lemma if_wr: "k < length q \<Longrightarrow> (if b then wr q k c else Some q) = Some (q[k := if b then c else q ! k])"
  by auto

lemma perm_eq:
  assumes "length p = 9"
  shows "\<exists>q. perm m p = Some q \<and> length q = 9 \<and> (\<forall>k < 9. q ! k = perm_char m p k)"
proof -
  have "\<exists>q. perm m p = Some q \<and> (length q = 9 \<and> (\<forall>k < 9. q ! k = (if k < 3 * 3 then perm_char m p k else p ! k)))"
    unfolding perm_def
  proof (rule for_upto_rule [where I = "\<lambda>i q. length q = 9 \<and>
      (\<forall>k < 9. q ! k = (if k < 3 * i then perm_char m p k else p ! k))"])
    fix i q assume i: "i < 3" and q: "length q = 9 \<and> (\<forall>k < 9. q ! k = (if k < 3 * i then perm_char m p k else p ! k))"
    let ?q = "q[3 * i := perm_char m p (3 * i), 3 * i + 1 := perm_char m p (3 * i + 1), 3 * i + 2 := perm_char m p (3 * i + 2)]"
    have len: "3 * i < 9" "3 * i + 1 < 9" "3 * i + 2 < 9" using i by auto
    have old: "q ! (3 * i) = p ! (3 * i)" "q ! (3 * i + 1) = p ! (3 * i + 1)" "q ! (3 * i + 2) = p ! (3 * i + 2)"
      using q len by auto
    have three: "3 * i mod 3 = 0" "Suc (3 * i) mod 3 = 1" "Suc (Suc (3 * i)) mod 3 = 2" by presburger+
    have c: "perm_char m p (3 * i) = (if odd (m div 2 ^ (8 - 3 * i)) then CHR ''r'' else p ! (3 * i))"
      "perm_char m p (3 * i + 1) = (if odd (m div 2 ^ (7 - 3 * i)) then CHR ''w'' else p ! (3 * i + 1))"
      "perm_char m p (3 * i + 2) = (if odd (m div 2 ^ (6 - 3 * i)) then CHR ''x'' else p ! (3 * i + 2))"
      using three by (simp_all add: perm_char_def diff_diff_add [symmetric] del: diff_diff_left)
    have run: "(do {
       p1 \<leftarrow> (if odd (m div 2 ^ (8 - 3 * i)) then wr q (3 * i) (CHR ''r'') else Some q);
       p2 \<leftarrow> (if odd (m div 2 ^ (7 - 3 * i)) then wr p1 (3 * i + 1) (CHR ''w'') else Some p1);
       if odd (m div 2 ^ (6 - 3 * i)) then wr p2 (3 * i + 2) (CHR ''x'') else Some p2 }) = Some ?q"
      using len q old by (simp add: if_wr c [simplified])
    have "?q ! k = (if k < 3 * Suc i then perm_char m p k else p ! k)" if "k < 9" for k
    proof -
      consider "k = 3 * i" | "k = 3 * i + 1" | "k = 3 * i + 2" | "k < 3 * i" | "3 * i + 2 < k" by linarith
      then show ?thesis using that q len by cases (auto simp: nth_list_update)
    qed
    with run q show "\<exists>t'. (do {
       p1 \<leftarrow> (if odd (m div 2 ^ (8 - 3 * i)) then wr q (3 * i) (CHR ''r'') else Some q);
       p2 \<leftarrow> (if odd (m div 2 ^ (7 - 3 * i)) then wr p1 (3 * i + 1) (CHR ''w'') else Some p1);
       if odd (m div 2 ^ (6 - 3 * i)) then wr p2 (3 * i + 2) (CHR ''x'') else Some p2 }) = Some t' \<and>
       length t' = 9 \<and> (\<forall>k < 9. t' ! k = (if k < 3 * Suc i then perm_char m p k else p ! k))" by auto
  qed (use assms in auto)
  then show ?thesis by auto
qed

text \<open>
  The permission string is never reset: after a file with mode \<open>m1\<close> the string for a
  file with mode \<open>m2\<close> shows the permissions of both.
\<close>

theorem perm_accumulates:
  "\<exists>p q. perm m1 ''---------'' = Some p \<and> perm m2 p = Some q \<and> perm (or m1 m2) ''---------'' = Some q"
proof -
  obtain p where p: "perm m1 ''---------'' = Some p" "length p = 9" "\<forall>k < 9. p ! k = perm_char m1 ''---------'' k"
    using perm_eq [of "''---------''" m1] by auto
  obtain q where q: "perm m2 p = Some q" "length q = 9" "\<forall>k < 9. q ! k = perm_char m2 p k"
    using perm_eq [OF p(2), of m2] by auto
  obtain r where r: "perm (or m1 m2) ''---------'' = Some r" "length r = 9"
    "\<forall>k < 9. r ! k = perm_char (or m1 m2) ''---------'' k"
    using perm_eq [of "''---------''" "or m1 m2"] by auto
  have odd_or: "odd ((or m1 m2) div 2 ^ k) = (odd (m1 div 2 ^ k) \<or> odd (m2 div 2 ^ k))" for k
    by (simp add: bit_or_iff flip: bit_iff_odd)
  have "r ! k = q ! k" if "k < 9" for k
    using that p(3) q(3) r(3) by (simp add: perm_char_def odd_or)
  then have "r = q" using q(2) r(2) by (intro nth_equalityI) auto
  with p q r show ?thesis by blast
qed

text \<open>
  Of two options that are given separately the second is dropped: \<open>myls -l -t d\<close> is
  run as \<open>myls -l d\<close>.
\<close>

theorem second_option_dropped:
  assumes "has_minus o1" and "has_minus o2" and "\<not> has_minus prog" and "\<not> has_minus d"
  shows "main_args [prog, o1, o2, d] = Some [prog, o1, d]"
proof -
  have pos: "option_positions [prog, o1, o2, d] = [1, 2]"
    using assms by (simp add: option_positions_def has_minus_def upt_rec)
  have gather: "gather_options 4 ([prog, o1, o2, d], [1, 2], 1) = Some ([prog, o1, o2, d], [1, 2], 1)"
    using assms by (simp add: gather_options_def for_upto_step eval_nat_numeral)
  have one: "exch_sort strcmp_lt [d] = Some [d]"
    by (simp add: exch_sort_def exch_pass_def for_upto_step)
  have len: "length [prog, o1, o2, d] = 4" and sw: "swap 1 1 [prog, o1, o2, d] = Some [prog, o1, o2, d]"
    by (simp_all add: swap_def)
  show ?thesis
    unfolding main_args_def pos Let_def list.sel len sw Option.bind.bind_lunit gather prod.case
    using one by (simp add: drop_options_def drop_at_def)
qed

theorem second_option_dropped_witness:
  "main_args [''myls'', ''-l'', ''-t'', ''d''] = Some [''myls'', ''-l'', ''d'']"
  by (rule second_option_dropped) (simp_all add: has_minus_def)

end
