(* ===== verification/Procfs.thy ===== *)
theory Procfs
  imports Complex_Main Prelude
begin

text \<open>
  The part that \<open>top\<close> and \<open>ps\<close> of assignment 2 share: reading \<open>/proc\<close>. The files,
  directories, links and attributes of the system are the record \<open>sys_env\<close>. A function
  that calls \<open>exit\<close> returns \<open>Sys_Exit\<close>, one that gives up on a process \<open>Sys_Skip\<close>.

  Percentages are exact rationals (with the infinity and the not-a-number that a division
  by zero gives); the rounding of \<open>long double\<close> is not modelled. The field \<open>start\<close> is
  computed but neither copied nor printed and is left out, as is the array \<open>cpu_time\<close>, which
  is written and never read; the bound of that write stays. The environment does not change
  between two reads of one scan of \<open>/proc\<close>.
\<close>

record sys_stat =
  is_dir :: bool
  is_chr :: bool
  sys_uid :: int
  sys_rdev :: int

record sys_env =
  sys_file :: "string \<Rightarrow> string option"
  sys_stat_of :: "string \<Rightarrow> sys_stat option"
  sys_list :: "string \<Rightarrow> string list option"
  sys_access :: "string \<Rightarrow> bool"
  sys_link :: "string \<Rightarrow> string option"
  sys_pw :: "int \<Rightarrow> string option"
  hertz :: nat
  utmp_types :: "int list"
  utc_offset :: int

datatype 'a sys_result = Sys_Exit | Sys_Skip | Sys_Ok 'a

datatype ld = Ld rat | Ld_Inf | Ld_NaN

record my_proc =
  pid :: nat
  uid :: int
  user_name :: string
  cpu_percent :: ld
  mem_percent :: ld
  vsz :: nat
  rss :: nat
  shr :: nat
  priority :: int
  nice :: int
  tty :: string
  stat :: string
  time_text :: string
  cmd :: string
  cmd_option :: string

section \<open>Numbers and lines\<close>

text \<open>\<open>sscanf(ptr, "%lu", &x)\<close> on a text that begins with a digit.\<close>

definition scan_ulong :: "string \<Rightarrow> nat" where
  "scan_ulong s = nat (min (digits_val 0 (takeWhile isdigit s)) (2 ^ 64 - 1))"

text \<open>\<open>atol\<close> saturates at the bounds of \<open>long\<close>, \<open>atoi\<close> truncates that value to an \<open>int\<close>.\<close>

definition atol :: "string \<Rightarrow> int" where
  "atol s = (case scan_int s of Some (v, _) \<Rightarrow> max (- (2 ^ 63)) (min v (2 ^ 63 - 1)) | None \<Rightarrow> 0)"

definition atoi :: "string \<Rightarrow> int" where
  "atoi s = wrap32 (atol s)"

definition to_kb :: "nat \<Rightarrow> nat" where
  "to_kb ul = nat ((int ul * 1024) mod 2 ^ 64 div 1000)"

text \<open>The line in the buffer after \<open>k\<close> calls of \<open>fgets\<close> with a cleared buffer before each.\<close>

fun nth_line :: "nat \<Rightarrow> string \<Rightarrow> string \<times> string" where
  "nth_line 0 content = ([], content)"
| "nth_line (Suc 0) content = fgets_line 1024 content"
| "nth_line (Suc (Suc k)) content = nth_line (Suc k) (snd (fgets_line 1024 content))"

text \<open>\<open>while (*ptr < '0' || *ptr > '9') ptr++;\<close> on a buffer of 1024 bytes.\<close>

definition skip_to_digit :: "string \<Rightarrow> string option" where
  "skip_to_digit line = (case dropWhile (\<lambda>c. \<not> isdigit c) line of [] \<Rightarrow> None | s \<Rightarrow> Some s)"

definition get_total_memory :: "sys_env \<Rightarrow> nat sys_result option" where
  "get_total_memory env =
     (case sys_file env ''/proc/meminfo'' of
        None \<Rightarrow> Some Sys_Exit
      | Some content \<Rightarrow> do {
          s \<leftarrow> skip_to_digit (fst (fgets_line 1024 content));
          Some (Sys_Ok (to_kb (scan_ulong s))) })"

text \<open>
  \<open>sscanf(buf, "%Lf", &time)\<close> on a plain decimal number, truncated to \<open>unsigned long\<close>;
  without a number the variable stays uninitialised.
\<close>

definition get_uptime :: "sys_env \<Rightarrow> nat sys_result option" where
  "get_uptime env =
     (case sys_file env ''/proc/uptime'' of
        None \<Rightarrow> Some Sys_Exit
      | Some content \<Rightarrow>
          (let ds = takeWhile isdigit (dropWhile isspace (fst (fgets_line 1024 content)))
           in if ds = [] \<or> 2 ^ 64 \<le> digits_val 0 ds then None
              else Some (Sys_Ok (nat (digits_val 0 ds)))))"

section \<open>Terminals\<close>

function words :: "string \<Rightarrow> string list" where
  "words s =
     (let t = dropWhile isspace s
      in if t = [] then []
         else takeWhile (\<lambda>c. \<not> isspace c) t # words (dropWhile (\<lambda>c. \<not> isspace c) t))"
  by pat_completeness auto
termination
proof (relation "measure length", goal_cases)
  case (2 s t)
  have "\<not> isspace (hd t)" using 2 hd_dropWhile [of isspace s] by auto
  with 2 have "length (dropWhile (\<lambda>c. \<not> isspace c) t) < length t" by (intro length_dropWhile_less) auto
  moreover have "length t \<le> length s" using 2 by (simp add: length_dropWhile_le)
  ultimately show ?case by simp
qed simp

declare words.simps [simp del]

text \<open>The first 32 words of \<open>/proc/pid/stat\<close>, each read into 32 bytes.\<close>

definition stat_tokens :: "string \<Rightarrow> string list option" where
  "stat_tokens content =
     (let ws = take 32 (words content)
      in if \<forall>w \<in> set ws. length w < 32 then Some (ws @ replicate (32 - length ws) []) else None)"

text \<open>
  The first character device in \<open>/dev\<close> with the number of the terminal; \<open>cap\<close> is the size
  of the buffer for its name.
\<close>

fun find_dev :: "sys_env \<Rightarrow> nat \<Rightarrow> int \<Rightarrow> string list \<Rightarrow> string sys_result option" where
  "find_dev env cap tty_nr [] = Some (Sys_Ok ''?'')"
| "find_dev env cap tty_nr (name # names) =
     (case sys_stat_of env (''/dev/'' @ name) of
        None \<Rightarrow> Some Sys_Exit
      | Some st \<Rightarrow>
          if is_chr st \<and> sys_rdev st = tty_nr mod 2 ^ 64
          then if length name < cap then Some (Sys_Ok name) else None
          else find_dev env cap tty_nr names)"

definition get_tty :: "sys_env \<Rightarrow> nat \<Rightarrow> string \<Rightarrow> string sys_result option" where
  "get_tty env cap path =
     (let zero_path = path @ ''/fd/0'' in
      if \<not> sys_access env zero_path
      then if 32 \<le> length (path @ ''/stat'') then None
           else case sys_file env (path @ ''/stat'') of
             None \<Rightarrow> Some (Sys_Ok [])
           | Some content \<Rightarrow>
               (let tmp = (case drop 6 (words content) of [] \<Rightarrow> [] | w # _ \<Rightarrow> w) in
                case sys_list env ''/dev'' of
                  None \<Rightarrow> Some Sys_Exit
                | Some names \<Rightarrow> if 1024 \<le> length tmp then None else find_dev env cap (atoi tmp) names)
      else case sys_link env zero_path of
             None \<Rightarrow> Some Sys_Exit
           | Some symbolic \<Rightarrow>
               if 1024 \<le> length symbolic then None
               else if symbolic = ''/dev/null'' then Some (Sys_Ok ''?'')
               else if take 5 symbolic = ''/dev/''
               then let t = takeWhile (\<lambda>c. \<not> isspace c) (dropWhile isspace (drop 5 symbolic)) in
                    if length t < cap then Some (Sys_Ok t) else None
               else Some (Sys_Ok []))"

text \<open>The terminal of the program itself is cut behind the first digits after position 4.\<close>

definition cut_tty :: "string \<Rightarrow> string" where
  "cut_tty t = take 4 t @ takeWhile isdigit (drop 4 t)"

section \<open>One process\<close>

definition proc_user :: "string \<Rightarrow> string option" where
  "proc_user pw_name =
     (if length pw_name < 32
      then Some (if take 8 pw_name = ''systemd-'' then ''systemd+'' else pw_name)
      else None)"

definition ld_percent :: "nat \<Rightarrow> nat \<Rightarrow> ld" where
  "ld_percent num den =
     (if den = 0 then if num = 0 then Ld_NaN else Ld_Inf
      else Ld (of_int (int num) / of_int (int den) * 100))"

definition first_number :: "string \<Rightarrow> nat \<Rightarrow> nat" where
  "first_number line old =
     (case dropWhile (\<lambda>c. \<not> isdigit c) line of [] \<Rightarrow> old | s \<Rightarrow> scan_ulong s)"

text \<open>
  Rows 18, 22 and 24 of \<open>/proc/pid/status\<close>, if row 18 is \<open>VmSize\<close>. The text is cut behind
  \<open>VmSize\<close> before the number is read, which matters if the number follows at once.
\<close>

definition read_status :: "string \<Rightarrow> nat \<times> nat \<times> nat" where
  "read_status content =
     (let (row18, rest) = nth_line 18 content in
      if take 6 row18 \<noteq> ''VmSize'' then (0, 0, 0)
      else let (row22, rest') = nth_line 4 rest;
               row24 = fst (nth_line 2 rest')
           in ((if 6 < length row18 \<and> isdigit (row18 ! 6) then 0 else first_number row18 0),
               first_number row22 0, first_number row24 0))"

text \<open>
  The loop over \<open>/proc/pid/cmdline\<close>: a zero byte followed by another one, or the end of the
  file, ends it; the first char behind a single zero byte is appended twice.
\<close>

function cmdline_loop :: "string \<Rightarrow> string \<Rightarrow> string" where
  "cmdline_loop content acc =
     (case content of
        [] \<Rightarrow> acc
      | c # rest \<Rightarrow>
          if c \<noteq> NUL then cmdline_loop rest (acc @ [c])
          else (case rest of
                  [] \<Rightarrow> acc
                | d # rest' \<Rightarrow> if d = NUL then acc else cmdline_loop rest' (acc @ [d, d])))"
  by pat_completeness auto
termination
  by (relation "measure (\<lambda>(content, _). length content)") auto

declare cmdline_loop.simps [simp del]

definition pad2 :: "int \<Rightarrow> string" where
  "pad2 x = (let s = show_int x in if length s < 2 then CHR ''0'' # s else s)"

text \<open>The product \<open>min * 3600\<close> is computed in \<open>int\<close>.\<close>

definition top_time :: "nat \<Rightarrow> string option" where
  "top_time ticks =
     (let min = wrap32 (int ticks div 3600) in
      if min * 3600 < - (2 ^ 31) \<or> 2 ^ 31 \<le> min * 3600 then None
      else let sec = wrap32 ((int ticks - min * 3600) mod 2 ^ 64 div 60)
           in Some (pad2 min @ '':'' @ pad2 sec @ ''.'' @ pad2 (int ticks - min * 3600 - sec * 60)))"

definition ps_time :: "nat \<Rightarrow> string option" where
  "ps_time ticks =
     (let hour = wrap32 (int ticks div 60); min = wrap32 (int ticks div 3600) in
      if min * 3600 < - (2 ^ 31) \<or> 2 ^ 31 \<le> min * 3600 then None
      else let sec = wrap32 ((int ticks - min * 3600) mod 2 ^ 64 div 60)
           in Some (pad2 hour @ '':'' @ pad2 min @ '':'' @ pad2 sec))"

text \<open>
  \<open>sscanf(token, "(%s", cmd)\<close> and the removal of the last char; without the parenthesis
  nothing is stored and \<open>cmd[-1]\<close> is written.
\<close>

definition proc_cmd :: "string \<Rightarrow> string option" where
  "proc_cmd token =
     (case token of
        c # rest \<Rightarrow> if c = CHR ''('' \<and> rest \<noteq> [] then Some (butlast rest) else None
      | [] \<Rightarrow> None)"

definition init_proc :: my_proc where
  "init_proc =
     \<lparr>pid = 0, uid = 0, user_name = [], cpu_percent = Ld 0, mem_percent = Ld 0, vsz = 0, rss = 0, shr = 0,
      priority = 0, nice = 0, tty = [], stat = [], time_text = [], cmd = [], cmd_option = []\<rparr>"

text \<open>
  The first half of \<open>add_proc_list\<close>, up to the end of \<open>status\<close>: the words of \<open>stat\<close>, the
  ticks of the process and the record filled so far.
\<close>

definition start_proc ::
    "sys_env \<Rightarrow> nat \<Rightarrow> nat \<Rightarrow> string \<Rightarrow> (string list \<times> nat \<times> my_proc) sys_result option" where
  "start_proc env uptime total_mem path =
     (if \<not> sys_access env (path @ ''/stat'') then Some Sys_Skip
      else case sys_file env (path @ ''/stat'') of
        None \<Rightarrow> Some Sys_Skip
      | Some content \<Rightarrow> do {
          tok \<leftarrow> stat_tokens content;
          case sys_stat_of env (path @ ''/stat'') of
            None \<Rightarrow> Some Sys_Skip
          | Some st \<Rightarrow> do {
              pw \<leftarrow> sys_pw env (sys_uid st);
              user \<leftarrow> proc_user pw;
              let ticks = nat ((atol (tok ! 13) mod 2 ^ 64 + atol (tok ! 14) mod 2 ^ 64) mod 2 ^ 64);
              let start = nat (atol (tok ! 21) mod 2 ^ 64);
              let p = nat (atol (tok ! 0) mod 2 ^ 64);
              _ \<leftarrow> (if int p < 32768 \<and> hertz env \<noteq> 0 \<and> length (path @ ''/status'') < 32 then Some () else None);
              let cpu = ld_percent (ticks div hertz env) (nat ((int uptime - int (start div hertz env)) mod 2 ^ 64));
              case sys_file env (path @ ''/status'') of
                None \<Rightarrow> Some Sys_Skip
              | Some status \<Rightarrow>
                  (let (v, r, h) = read_status status;
                       mem = (if take 6 (fst (nth_line 18 status)) \<noteq> ''VmSize'' then Ld 0 else ld_percent r total_mem)
                   in Some (Sys_Ok (tok, ticks,
                        init_proc\<lparr>pid := p, uid := sys_uid st, user_name := user, cpu_percent := cpu,
                          mem_percent := mem, vsz := v, rss := r, shr := h\<rparr>))) } })"

text \<open>The rest: the fields from the words of \<open>stat\<close> and the command line.\<close>

definition finish_proc ::
    "sys_env \<Rightarrow> string \<Rightarrow> string list \<Rightarrow> string \<Rightarrow> string \<Rightarrow> my_proc \<Rightarrow> my_proc sys_result option" where
  "finish_proc env path tok tty_text time_txt p = do {
     command \<leftarrow> proc_cmd (tok ! 1);
     case sys_file env (path @ ''/cmdline'') of
       None \<Rightarrow> Some Sys_Skip
     | Some content \<Rightarrow>
         (let opt = cmdline_loop content [] in
          if 1124 \<le> length opt then None
          else Some (Sys_Ok (p\<lparr>tty := tty_text, priority := atoi (tok ! 17), nice := atoi (tok ! 18),
                 stat := tok ! 2, time_text := time_txt, cmd := command,
                 cmd_option := (if opt = [] then ''['' @ command @ '']'' else opt)\<rparr>))) }"

text \<open>
  \<open>add_proc_list\<close> of both programs, up to the store into \<open>proc_list\<close>: \<open>tty_of\<close> and
  \<open>time_fmt\<close> are where they differ.
\<close>

definition add_proc ::
    "sys_env \<Rightarrow> nat \<Rightarrow> nat \<Rightarrow> (nat \<Rightarrow> string option) \<Rightarrow> (string \<Rightarrow> string sys_result option) \<Rightarrow> string
     \<Rightarrow> my_proc sys_result option" where
  "add_proc env uptime total_mem time_fmt tty_of path = do {
     r \<leftarrow> start_proc env uptime total_mem path;
     case r of
       Sys_Ok (tok, ticks, p) \<Rightarrow> do {
         tt \<leftarrow> tty_of path;
         case tt of
           Sys_Ok tty_text \<Rightarrow> do {
             time_txt \<leftarrow> time_fmt ticks;
             finish_proc env path tok tty_text time_txt p }
         | _ \<Rightarrow> Some Sys_Exit }
     | Sys_Skip \<Rightarrow> Some Sys_Skip
     | Sys_Exit \<Rightarrow> Some Sys_Exit }"

text \<open>A name in \<open>/proc\<close> that belongs to a process.\<close>

definition pid_dir :: "sys_env \<Rightarrow> string \<Rightarrow> bool sys_result" where
  "pid_dir env name =
     (case sys_stat_of env (''/proc/'' @ name) of
        None \<Rightarrow> Sys_Exit
      | Some st \<Rightarrow> Sys_Ok (is_dir st \<and> list_all isdigit name))"

text \<open>
  The loop over \<open>/proc\<close>: \<open>visit\<close> is the body for one name; the list holds the first
  \<open>proc_cnt\<close> elements of \<open>proc_list\<close>. The code does not test for a full list: to store a process behind its 4096 elements is undefined, the
  value \<open>None\<close>.
\<close>

fun search_loop ::
    "(string \<Rightarrow> my_proc sys_result option) \<Rightarrow> string list \<Rightarrow> my_proc list \<Rightarrow> my_proc list sys_result option" where
  "search_loop visit [] procs = Some (Sys_Ok procs)"
| "search_loop visit (name # names) procs = do {
     r \<leftarrow> visit name;
     case r of
       Sys_Exit \<Rightarrow> Some Sys_Exit
     | Sys_Skip \<Rightarrow> search_loop visit names procs
     | Sys_Ok p \<Rightarrow> if length procs < 4096 then search_loop visit names (procs @ [p]) else None }"

section \<open>Formatted numbers\<close>

definition right_align :: "nat \<Rightarrow> string \<Rightarrow> string" where
  "right_align w s = replicate (w - length s) CHR '' '' @ s"

text \<open>
  \<open>%w.kLf\<close> of a value that is not negative: rounded to \<open>k\<close> digits, halves to even; zero
  divided by zero has its sign bit set.
\<close>

definition round_even :: "rat \<Rightarrow> int" where
  "round_even q =
     (let f = \<lfloor>q\<rfloor>; r = q - of_int f
      in if r < 1 / 2 then f else if 1 / 2 < r then f + 1 else if even f then f else f + 1)"

definition zero_pad :: "nat \<Rightarrow> string \<Rightarrow> string" where
  "zero_pad w s = replicate (w - length s) CHR ''0'' @ s"

definition fixed_text :: "nat \<Rightarrow> rat \<Rightarrow> string" where
  "fixed_text k q =
     (let n = round_even (q * 10 ^ k)
      in show_int (n div 10 ^ k) @ ''.'' @ zero_pad k (show_int (n mod 10 ^ k)))"

definition ld_text :: "nat \<Rightarrow> nat \<Rightarrow> ld \<Rightarrow> string" where
  "ld_text w k x =
     right_align w (case x of Ld q \<Rightarrow> fixed_text k q | Ld_Inf \<Rightarrow> ''inf'' | Ld_NaN \<Rightarrow> ''-nan'')"

text \<open>\<open>%LF\<close> differs from \<open>%Lf\<close> in the case of the letters.\<close>

definition ld_text_upper :: "nat \<Rightarrow> nat \<Rightarrow> ld \<Rightarrow> string" where
  "ld_text_upper w k x =
     right_align w (case x of Ld q \<Rightarrow> fixed_text k q | Ld_Inf \<Rightarrow> ''INF'' | Ld_NaN \<Rightarrow> ''-NAN'')"

text \<open>\<open>%Lf\<close> of \<open>sscanf\<close> on a plain decimal number.\<close>

definition scan_ld :: "string \<Rightarrow> (rat \<times> string) option" where
  "scan_ld s =
     (let t = dropWhile isspace s; whole = takeWhile isdigit t; u = dropWhile isdigit t;
          frac = (if take 1 u = ''.'' then takeWhile isdigit (tl u) else []);
          rest = (if take 1 u = ''.'' then dropWhile isdigit (tl u) else u)
      in if whole = [] then None
         else Some (of_int (digits_val 0 whole) + of_int (digits_val 0 frac) / 10 ^ length frac, rest))"

fun scan_lds :: "nat \<Rightarrow> string \<Rightarrow> rat list option" where
  "scan_lds 0 s = Some []"
| "scan_lds (Suc k) s = do { (q, rest) \<leftarrow> scan_ld s; qs \<leftarrow> scan_lds k rest; Some (q # qs) }"

end
