(* ===== verification/Bubble_Sort.thy ===== *)
theory Bubble_Sort
  imports Exchange_Sort
begin

text \<open>
  The sorting loop of \<open>top\<close>: \<open>for (i = n-1; i > 0; i--) for (j = 0; j < i; j++)
  if (after(a[j], a[j+1])) swap\<close>. The interface \<open>bubble_order\<close> says what the comparison has
  to satisfy on the elements that occur for the loop to sort.
\<close>

section \<open>The loops\<close>

definition bubble_pass :: "('a \<Rightarrow> 'a \<Rightarrow> bool) \<Rightarrow> nat \<Rightarrow> 'a list \<Rightarrow> 'a list option" where
  "bubble_pass after i xs =
     for_upto 0 i (\<lambda>j xs. do {
       x \<leftarrow> rd xs j;
       y \<leftarrow> rd xs (j + 1);
       if after x y then swap j (j + 1) xs else Some xs }) xs"

definition bubble_sort :: "('a \<Rightarrow> 'a \<Rightarrow> bool) \<Rightarrow> 'a list \<Rightarrow> 'a list option" where
  "bubble_sort after xs = for_downto (length xs - 1) (bubble_pass after) xs"

section \<open>Correctness\<close>

locale bubble_order =
  fixes after :: "'a \<Rightarrow> 'a \<Rightarrow> bool" and ok :: "'a \<Rightarrow> bool"
  assumes asym: "ok x \<Longrightarrow> ok y \<Longrightarrow> after x y \<Longrightarrow> \<not> after y x"
    and trans: "ok x \<Longrightarrow> ok y \<Longrightarrow> ok z \<Longrightarrow> \<not> after x y \<Longrightarrow> \<not> after y z \<Longrightarrow> \<not> after x z"
begin

text \<open>Every element behind position \<open>i\<close> is in its place.\<close>

definition settled :: "nat \<Rightarrow> 'a list \<Rightarrow> bool" where
  "settled i xs \<longleftrightarrow> (\<forall>a b. a < b \<longrightarrow> i < b \<longrightarrow> b < length xs \<longrightarrow> \<not> after (xs ! a) (xs ! b))"

definition highest :: "nat \<Rightarrow> 'a list \<Rightarrow> bool" where
  "highest j xs \<longleftrightarrow> (\<forall>a < j. \<not> after (xs ! a) (xs ! j))"

lemma settled_swap:
  assumes "settled i xs" and "Suc j \<le> i" and "i < length xs"
  shows "settled i (xs[j := xs ! Suc j, Suc j := xs ! j])"
  unfolding settled_def
proof (intro allI impI)
  fix a b assume ab: "a < b" "i < b" "b < length (xs[j := xs ! Suc j, Suc j := xs ! j])"
  have s: "\<not> after (xs ! c) (xs ! b)" if "c < b" for c
    using assms(1) ab that by (auto simp: settled_def)
  have b: "xs[j := xs ! Suc j, Suc j := xs ! j] ! b = xs ! b" using ab assms by simp
  consider "a = j" | "a = Suc j" | "a \<noteq> j" "a \<noteq> Suc j" by blast
  then show "\<not> after (xs[j := xs ! Suc j, Suc j := xs ! j] ! a) (xs[j := xs ! Suc j, Suc j := xs ! j] ! b)"
  proof cases
    case 1
    then show ?thesis using s [of "Suc j"] b ab assms by simp
  next
    case 2
    then show ?thesis using s [of j] b ab assms by simp
  next
    case 3
    then show ?thesis using s [of a] b ab by simp
  qed
qed

lemma highest_swap:
  assumes "highest j xs" and "Suc j < length xs" and "after (xs ! j) (xs ! Suc j)" and "list_all ok xs"
  shows "highest (Suc j) (xs[j := xs ! Suc j, Suc j := xs ! j])"
proof -
  have "\<not> after (xs ! Suc j) (xs ! j)"
    using assms by (intro asym) (auto simp: list_all_length)
  with assms(1,2) show ?thesis by (auto simp: highest_def nth_list_update less_Suc_eq)
qed

lemma highest_keep:
  assumes "highest j xs" and "Suc j < length xs" and "\<not> after (xs ! j) (xs ! Suc j)" and "list_all ok xs"
  shows "highest (Suc j) xs"
  unfolding highest_def
proof (intro allI impI)
  fix a assume a: "a < Suc j"
  show "\<not> after (xs ! a) (xs ! Suc j)"
  proof (cases "a = j")
    case False
    with a have "\<not> after (xs ! a) (xs ! j)" using assms(1) by (simp add: highest_def)
    with a assms(2-4) show ?thesis
      by (intro trans [of "xs ! a" "xs ! j" "xs ! Suc j"]) (auto simp: list_all_length)
  qed (use assms(3) in simp)
qed

definition pass_inv :: "nat \<Rightarrow> 'a list \<Rightarrow> nat \<Rightarrow> 'a list \<Rightarrow> bool" where
  "pass_inv i xs j zs \<longleftrightarrow> mset zs = mset xs \<and> settled i zs \<and> highest j zs"

lemma pass_inv_step:
  assumes "pass_inv i xs j zs" and "j < i" and "i < length xs" and "list_all ok xs"
  shows "\<exists>zs'. (do { x \<leftarrow> rd zs j; y \<leftarrow> rd zs (j + 1); if after x y then swap j (j + 1) zs else Some zs })
      = Some zs' \<and> pass_inv i xs (Suc j) zs'"
proof -
  have zs: "mset zs = mset xs" "settled i zs" "highest j zs" using assms(1) by (auto simp: pass_inv_def)
  have len: "length zs = length xs" using zs(1) by (rule mset_eq_length)
  have ok: "list_all ok zs" using zs(1) assms(4) by (metis list.pred_set mset_eq_setD)
  have j: "j < length zs" "Suc j < length zs" using assms(2,3) len by auto
  show ?thesis
  proof (cases "after (zs ! j) (zs ! Suc j)")
    case True
    with highest_swap [OF zs(3) j(2) True ok] settled_swap [OF zs(2)] mset_swap_nth [OF j] zs(1) j assms(2,3) len
    show ?thesis by (simp add: swap_in pass_inv_def)
  next
    case False
    with highest_keep [OF zs(3) j(2) False ok] zs j show ?thesis by (simp add: pass_inv_def)
  qed
qed

lemma bubble_pass_settles:
  assumes "settled (Suc i) xs" and "Suc i < length xs" and "list_all ok xs"
  shows "\<exists>ys. bubble_pass after (Suc i) xs = Some ys \<and> mset ys = mset xs \<and> settled i ys"
proof -
  have "\<exists>ys. bubble_pass after (Suc i) xs = Some ys \<and> pass_inv (Suc i) xs (Suc i) ys"
    unfolding bubble_pass_def
  proof (rule for_upto_rule [where I = "pass_inv (Suc i) xs"])
    show "pass_inv (Suc i) xs 0 xs" using assms(1) by (simp add: pass_inv_def highest_def)
  qed (use assms(2,3) pass_inv_step in auto)
  then obtain ys where ys: "bubble_pass after (Suc i) xs = Some ys" "mset ys = mset xs"
    "settled (Suc i) ys" "highest (Suc i) ys" by (auto simp: pass_inv_def)
  have "settled i ys" unfolding settled_def
  proof (intro allI impI)
    fix a b assume "a < b" "i < b" "b < length ys"
    with ys(3,4) show "\<not> after (ys ! a) (ys ! b)"
      by (cases "b = Suc i") (auto simp: settled_def highest_def)
  qed
  with ys show ?thesis by blast
qed

lemma bubble_sort_sorts:
  assumes "list_all ok xs"
  shows "\<exists>ys. bubble_sort after xs = Some ys \<and> mset ys = mset xs \<and> sorted_wrt (\<lambda>x y. \<not> after x y) ys"
proof -
  have "\<exists>ys. bubble_sort after xs = Some ys \<and> (mset ys = mset xs \<and> settled 0 ys)"
    unfolding bubble_sort_def
  proof (rule for_downto_rule [where I = "\<lambda>i ys. mset ys = mset xs \<and> settled i ys"])
    show "mset xs = mset xs \<and> settled (length xs - 1) xs" by (auto simp: settled_def)
  next
    fix k t assume k: "k < length xs - 1" and t: "mset t = mset xs \<and> settled (Suc k) t"
    have "length t = length xs" using t mset_eq_length by blast
    moreover have "list_all ok t" using t assms by (metis list.pred_set mset_eq_setD)
    ultimately have "\<exists>ys. bubble_pass after (Suc k) t = Some ys \<and> mset ys = mset t \<and> settled k ys"
      using k t by (intro bubble_pass_settles) auto
    with t show "\<exists>t'. bubble_pass after (Suc k) t = Some t' \<and> mset t' = mset xs \<and> settled k t'" by auto
  qed
  then show ?thesis by (auto simp: settled_def sorted_wrt_iff_nth_less)
qed

end

end
