(* ===== verification/Top.thy ===== *)
theory Top
  imports Procfs Bubble_Sort
begin

text \<open>
  \<open>top.c\<close> of assignment 2: the scan of \<open>/proc\<close>, the order of the processes, the frame and
  the loop over the keys. A frame is the list of its \<open>mvprintw\<close> calls, row, column and text;
  ncurses itself is not modelled. \<open>sorted\<close> holds pointers into \<open>proc_list\<close>; here it holds the
  records they point to, which do not change between the sort and the frame.
\<close>

type_synonym draw = "int \<times> int \<times> string"

section \<open>The processes\<close>

definition top_add_proc :: "sys_env \<Rightarrow> nat \<Rightarrow> nat \<Rightarrow> string \<Rightarrow> my_proc sys_result option" where
  "top_add_proc env uptime total_mem path = add_proc env uptime total_mem top_time (\<lambda>_. Some (Sys_Ok [])) path"

definition top_visit :: "sys_env \<Rightarrow> nat \<Rightarrow> nat \<Rightarrow> string \<Rightarrow> my_proc sys_result option" where
  "top_visit env uptime total_mem name =
     (case pid_dir env name of
        Sys_Exit \<Rightarrow> Some Sys_Exit
      | Sys_Skip \<Rightarrow> Some Sys_Skip
      | Sys_Ok is_pid \<Rightarrow>
          if is_pid then top_add_proc env uptime total_mem (''/proc/'' @ name)
          else Some Sys_Skip)"

definition search_process :: "sys_env \<Rightarrow> nat \<Rightarrow> my_proc list \<Rightarrow> my_proc list sys_result option" where
  "search_process env total_mem procs = do {
     u \<leftarrow> get_uptime env;
     case u of
       Sys_Ok uptime \<Rightarrow>
         (case sys_list env ''/proc'' of
            None \<Rightarrow> Some Sys_Exit
          | Some names \<Rightarrow> search_loop (top_visit env uptime total_mem) names procs)
     | _ \<Rightarrow> Some Sys_Exit }"

definition ld_less :: "ld \<Rightarrow> ld \<Rightarrow> bool" where
  "ld_less x y =
     (case (x, y) of (Ld a, Ld b) \<Rightarrow> a < b | (Ld _, Ld_Inf) \<Rightarrow> True | _ \<Rightarrow> False)"

definition compare_cpu :: "my_proc \<Rightarrow> my_proc \<Rightarrow> bool" where
  "compare_cpu a b =
     (if ld_less (cpu_percent a) (cpu_percent b) then True
      else if ld_less (cpu_percent b) (cpu_percent a) then False
      else if pid b < pid a then True else False)"

definition sort_cpu :: "my_proc list \<Rightarrow> my_proc list option" where
  "sort_cpu procs = bubble_sort compare_cpu procs"

section \<open>The summary lines\<close>

text \<open>\<open>localtime\<close> in a zone with a fixed offset: day of the year, hour, minute, second.\<close>

definition year_days :: "int \<Rightarrow> int" where
  "year_days y = (if y mod 4 = 0 \<and> (y mod 100 \<noteq> 0 \<or> y mod 400 = 0) then 366 else 365)"

function yday_from :: "int \<Rightarrow> int \<Rightarrow> int" where
  "yday_from y d = (if d < year_days y then d else yday_from (y + 1) (d - year_days y))"
  by pat_completeness auto
termination
  by (relation "measure (\<lambda>(_, d). nat d)") (auto simp: year_days_def split: if_splits)

declare yday_from.simps [simp del]

definition localtime :: "sys_env \<Rightarrow> int \<Rightarrow> int \<times> int \<times> int \<times> int" where
  "localtime env t =
     (let l = t + utc_offset env; s = l mod 86400
      in (if l < 0 then 364 else yday_from 1970 (l div 86400),
          s div 3600, s mod 3600 div 60, s mod 60))"

definition now_time :: "sys_env \<Rightarrow> int \<Rightarrow> string" where
  "now_time env now =
     (case localtime env now of (_, h, m, s) \<Rightarrow>
        ''top - '' @ pad2 h @ '':'' @ pad2 m @ '':'' @ pad2 s @ '' '')"

definition now_uptime :: "sys_env \<Rightarrow> nat \<Rightarrow> string" where
  "now_uptime env uptime =
     (case localtime env (int uptime) of (d, h, m, _) \<Rightarrow>
        if uptime < 60 * 60 then right_align 2 (show_int m) @ '' min''
        else if uptime < 60 * 60 * 24 then right_align 2 (show_int h) @ '':'' @ pad2 m
        else right_align 3 (show_int d) @ '' days, '' @ pad2 h @ '':'' @ pad2 m)"

definition count_user :: "sys_env \<Rightarrow> nat" where
  "count_user env = length (filter (\<lambda>t. t = 7) (utmp_types env))"

definition top_line :: "sys_env \<Rightarrow> int \<Rightarrow> nat \<Rightarrow> draw sys_result option" where
  "top_line env now uptime =
     (case sys_file env ''/proc/loadavg'' of
        None \<Rightarrow> Some Sys_Exit
      | Some content \<Rightarrow> do {
          la \<leftarrow> scan_lds 3 (fst (fgets_line 1024 content));
          Some (Sys_Ok (0, 0,
            now_time env now @ ''up '' @ now_uptime env uptime @ '', '' @ show_int (int (count_user env)) @
            '' users, load average: '' @ ld_text 4 2 (Ld (la ! 0)) @ '', '' @ ld_text 4 2 (Ld (la ! 1)) @
            '', '' @ ld_text 4 2 (Ld (la ! 2)))) })"

text \<open>The counters total, running, sleeping, stopped, zombie.\<close>

fun task_counts :: "my_proc list \<Rightarrow> nat \<times> nat \<times> nat \<times> nat \<Rightarrow> nat \<times> nat \<times> nat \<times> nat" where
  "task_counts [] n = n"
| "task_counts (p # ps) (running, sleeping, stopped, zombie) =
     task_counts ps
       (if stat p = ''R'' then (running + 1, sleeping, stopped, zombie)
        else if stat p = ''D'' then (running, sleeping + 1, stopped, zombie)
        else if stat p = ''S'' then (running, sleeping + 1, stopped, zombie)
        else if stat p = ''T'' then (running, sleeping, stopped + 1, zombie)
        else if stat p = ''t'' then (running, sleeping, stopped + 1, zombie)
        else if stat p = ''Z'' then (running, sleeping, stopped, zombie + 1)
        else (running, sleeping, stopped, zombie))"

definition task_line :: "my_proc list \<Rightarrow> draw" where
  "task_line procs =
     (case task_counts procs (0, 0, 0, 0) of (running, sleeping, stopped, zombie) \<Rightarrow>
        (1, 0, ''Tasks:  '' @ right_align 4 (show_nat (length procs)) @ '' total,  '' @
          right_align 4 (show_nat running) @ '' running, '' @ right_align 4 (show_nat sleeping) @
          '' sleeping,  '' @ right_align 4 (show_nat stopped) @ '' stopped, '' @
          right_align 4 (show_nat zombie) @ '' zombie''))"

text \<open>
  \<open>before_uptime\<close> is a local variable that is zero when it is tested, so the share of the
  ticks is always taken since the start of the system.
\<close>

definition ld_share :: "rat \<Rightarrow> nat \<Rightarrow> ld" where
  "ld_share q den = (if den = 0 then if q = 0 then Ld_NaN else Ld_Inf else Ld (q / of_int (int den) * 100))"

definition cpu_line :: "sys_env \<Rightarrow> nat \<Rightarrow> draw sys_result option" where
  "cpu_line env uptime =
     (case sys_file env ''/proc/stat'' of
        None \<Rightarrow> Some Sys_Exit
      | Some content \<Rightarrow> do {
          s \<leftarrow> skip_to_digit (fst (fgets_line 1024 content));
          ticks \<leftarrow> scan_lds 8 s;
          let tick_cnt = nat ((int uptime * int (hertz env)) mod 2 ^ 64);
          let f = (\<lambda>i. ld_text 4 1 (ld_share (ticks ! i) tick_cnt));
          Some (Sys_Ok (2, 0,
            ''%Cpu(s):  '' @ f 0 @ '' us, '' @ f 2 @ '' sy, '' @ f 1 @ '' ni, '' @ f 3 @ '' id, '' @
            f 4 @ '' wa, '' @ f 5 @ '' hi, '' @ f 6 @ '' si, '' @ f 7 @ '' st'' @ [NL])) })"

text \<open>
  The rest of \<open>/proc/meminfo\<close> and the number of lines read so far; without a line the
  buffer is not initialised.
\<close>

definition read_meminfo :: "nat \<Rightarrow> string \<times> nat \<Rightarrow> (nat \<times> string \<times> nat) option" where
  "read_meminfo limit f =
     (let (content, indx) = f in
      if limit \<le> indx then None
      else let (line, rest) = nth_line (limit - indx) content in do {
        s \<leftarrow> skip_to_digit line;
        Some (scan_ulong s, rest, limit) })"

record mem_figures =
  mem_total :: nat
  mem_free :: nat
  mem_available :: nat
  buffer :: nat
  cached :: nat
  swap_total :: nat
  swap_free :: nat
  s_reclaimable :: nat

definition meminfo :: "string \<Rightarrow> mem_figures option" where
  "meminfo content = do {
     (a, f) \<leftarrow> read_meminfo 1 (content, 0);
     (b, f) \<leftarrow> read_meminfo 2 f;
     (c, f) \<leftarrow> read_meminfo 3 f;
     (d, f) \<leftarrow> read_meminfo 4 f;
     (e, f) \<leftarrow> read_meminfo 5 f;
     (g, f) \<leftarrow> read_meminfo 15 f;
     (h, f) \<leftarrow> read_meminfo 16 f;
     (i, f) \<leftarrow> read_meminfo 24 f;
     Some \<lparr>mem_total = a, mem_free = b, mem_available = c, buffer = d, cached = e,
           swap_total = g, swap_free = h, s_reclaimable = i\<rparr> }"

definition mem_used :: "mem_figures \<Rightarrow> nat" where
  "mem_used m =
     nat ((int (mem_total m) - int (mem_free m) - int (buffer m) - int (cached m) - int (s_reclaimable m)) mod 2 ^ 64)"

definition swap_used :: "mem_figures \<Rightarrow> nat" where
  "swap_used m = nat ((int (swap_total m) - int (swap_free m)) mod 2 ^ 64)"

definition mib :: "nat \<Rightarrow> string" where
  "mib n = ld_text 8 1 (Ld (of_int (int n) / 1024))"

definition mem_lines :: "sys_env \<Rightarrow> draw list sys_result option" where
  "mem_lines env =
     (case sys_file env ''/proc/meminfo'' of
        None \<Rightarrow> Some Sys_Exit
      | Some content \<Rightarrow> do {
          m \<leftarrow> meminfo content;
          Some (Sys_Ok
            [(3, 0, ''Mib Mem : '' @ mib (mem_total m) @ '' total,  '' @ mib (mem_free m) @ '' free,  '' @
               mib (mem_used m) @ '' used,  '' @ mib (nat ((int (buffer m) + int (cached m) + int (s_reclaimable m)) mod 2 ^ 64)) @
               '' buff/cache'' @ [NL]),
             (4, 0, ''Mib Swap: '' @ mib (swap_total m) @ '' total,  '' @ mib (swap_free m) @ '' free,  '' @
               mib (swap_used m) @ '' used,  '' @ mib (mem_available m) @ '' avail Mem'' @ [NL])]) })"

section \<open>The columns\<close>

definition cell_text :: "nat \<Rightarrow> my_proc \<Rightarrow> string" where
  "cell_text k p =
     [show_nat (pid p), user_name p, show_int (priority p), show_int (nice p), show_nat (vsz p),
      show_nat (rss p), show_nat (shr p), stat p, ld_text 3 1 (cpu_percent p), ld_text 3 1 (mem_percent p),
      time_text p, cmd p] ! k"

definition column_width :: "my_proc list \<Rightarrow> nat \<Rightarrow> nat" where
  "column_width procs k =
     fold (\<lambda>p w. if w > length (cell_text k p) then w else length (cell_text k p)) procs
       ([3, 4, 2, 2, 4, 3, 3, 1, 4, 3, 4, 7] ! k)"

record layout =
  start_x :: "nat list"
  start_col :: nat
  end_col :: nat
  max_cmd :: int

text \<open>The loop over \<open>start_x\<close>; it returns the column that does not fit any more.\<close>

function lay_loop :: "(nat \<Rightarrow> nat) \<Rightarrow> nat \<Rightarrow> nat list \<Rightarrow> nat list \<times> nat" where
  "lay_loop w i xs =
     (if i < 12
      then let x = w (i - 1) + 2 + xs ! (i - 1); xs' = xs[i := x]
           in if 70 \<le> x then (xs', i) else lay_loop w (i + 1) xs'
      else (xs, i))"
  by pat_completeness auto
termination
  by (relation "measure (\<lambda>(_, i, _). 12 - i)") auto

declare lay_loop.simps [simp del]

definition lay_out :: "nat \<Rightarrow> (nat \<Rightarrow> nat) \<Rightarrow> layout" where
  "lay_out col w =
     (let zero = replicate 12 0 in
      if 11 \<le> col then \<lparr>start_x = zero, start_col = 11, end_col = 12, max_cmd = 70\<rparr>
      else case lay_loop w (col + 1) zero of
        (xs, i) \<Rightarrow>
          if i = 12 then \<lparr>start_x = xs, start_col = col, end_col = 12, max_cmd = 70 - int (xs ! 11)\<rparr>
          else \<lparr>start_x = xs, start_col = col, end_col = i, max_cmd = - 1\<rparr>)"

definition shown :: "layout \<Rightarrow> nat \<Rightarrow> bool" where
  "shown l k \<longleftrightarrow> start_col l \<le> k \<and> k < end_col l"

definition head_cell :: "layout \<Rightarrow> nat \<Rightarrow> int \<Rightarrow> string \<Rightarrow> draw list" where
  "head_cell l k gap t = (if shown l k then [(6, int (start_x l ! k) + gap, t)] else [])"

text \<open>The gap of \<open>PID\<close> is still set when \<open>USER\<close> is drawn.\<close>

definition header_row :: "layout \<Rightarrow> (nat \<Rightarrow> nat) \<Rightarrow> draw list" where
  "header_row l w =
     (let gap = (if shown l 0 then int (w 0) - 3 else 0) in
      map (\<lambda>i. (6, int i, '' '')) [0..<70] @
      head_cell l 0 gap ''PID'' @ head_cell l 1 gap ''USER'' @
      head_cell l 2 (int (w 2) - 2) ''PR'' @ head_cell l 3 (int (w 3) - 2) ''NI'' @
      head_cell l 4 (int (w 4) - 4) ''VIRT'' @ head_cell l 5 (int (w 5) - 3) ''RES'' @
      head_cell l 6 (int (w 6) - 3) ''SHR'' @ head_cell l 7 0 ''S'' @
      head_cell l 8 (int (w 8) - 4) ''%CPU'' @ head_cell l 9 (int (w 9) - 3) ''%MEM'' @
      head_cell l 10 (int (w 10) - 5) ''TIME+'' @
      [(6, int (start_x l ! 11), ''COMMAND'')])"

section \<open>The rows\<close>

definition right_cell :: "layout \<Rightarrow> (nat \<Rightarrow> nat) \<Rightarrow> int \<Rightarrow> nat \<Rightarrow> string \<Rightarrow> draw list" where
  "right_cell l w y k t =
     (if shown l k then [(y, int (start_x l ! k) + (int (w k) - int (length t)), t)] else [])"

definition left_cell :: "layout \<Rightarrow> int \<Rightarrow> nat \<Rightarrow> string \<Rightarrow> draw list" where
  "left_cell l y k t = (if shown l k then [(y, int (start_x l ! k), t)] else [])"

definition proc_cells :: "layout \<Rightarrow> (nat \<Rightarrow> nat) \<Rightarrow> int \<Rightarrow> my_proc \<Rightarrow> draw list" where
  "proc_cells l w y p =
     right_cell l w y 0 (show_nat (pid p)) @ left_cell l y 1 (user_name p) @
     right_cell l w y 2 (show_int (priority p)) @ right_cell l w y 3 (show_int (nice p)) @
     right_cell l w y 4 (show_nat (vsz p)) @ right_cell l w y 5 (show_nat (rss p)) @
     right_cell l w y 6 (show_nat (shr p)) @ left_cell l y 7 (stat p) @
     right_cell l w y 8 (ld_text_upper 3 1 (cpu_percent p)) @
     right_cell l w y 9 (ld_text 3 1 (mem_percent p)) @ left_cell l y 10 (time_text p)"

text \<open>The command: a zero byte is stored at \<open>max_cmd\<close> of its buffer of 1024 bytes.\<close>

definition cmd_cell :: "int \<Rightarrow> layout \<Rightarrow> int \<Rightarrow> my_proc \<Rightarrow> draw list option" where
  "cmd_cell col l y p =
     (let tap = col - 11 in
      if col = 11 \<and> int (length (cmd_option p)) < tap * 8 then Some []
      else let tap' = (if col < 11 then 0 else nat tap);
               buf = cmd p @ replicate (1024 - length (cmd p)) NUL
           in if max_cmd l < 0 then None
              else do {
                buf' \<leftarrow> wr buf (nat (max_cmd l)) NUL;
                if length buf' \<le> tap' * 8 then None
                else Some [(y, int (start_x l ! 11), cstr (drop (tap' * 8) buf'))] })"

fun proc_rows :: "int \<Rightarrow> layout \<Rightarrow> (nat \<Rightarrow> nat) \<Rightarrow> int \<Rightarrow> my_proc list \<Rightarrow> draw list option" where
  "proc_rows col l w y [] = Some []"
| "proc_rows col l w y (p # ps) = do {
     c \<leftarrow> cmd_cell col l y p;
     rest \<leftarrow> proc_rows col l w (y + 1) ps;
     Some (proc_cells l w y p @ c @ rest) }"

definition proc_table :: "int \<Rightarrow> int \<Rightarrow> my_proc list \<Rightarrow> my_proc list \<Rightarrow> draw list option" where
  "proc_table row col procs sorted_procs =
     (if row < 0 \<or> col < 0 then None
      else let w = column_width procs; l = lay_out (nat col) w in do {
        rows \<leftarrow> proc_rows col l w 7 (drop (nat row) sorted_procs);
        Some (header_row l w @ rows) })"

text \<open>\<open>print\<close>.\<close>

definition top_print ::
    "sys_env \<Rightarrow> int \<Rightarrow> int \<Rightarrow> int \<Rightarrow> my_proc list \<Rightarrow> my_proc list \<Rightarrow> draw list sys_result option" where
  "top_print env now row col procs sorted_procs = do {
     u \<leftarrow> get_uptime env;
     case u of
       Sys_Ok uptime \<Rightarrow> do {
         a \<leftarrow> top_line env now uptime;
         case a of
           Sys_Ok la \<Rightarrow> do {
             b \<leftarrow> cpu_line env uptime;
             case b of
               Sys_Ok lb \<Rightarrow> do {
                 c \<leftarrow> mem_lines env;
                 case c of
                   Sys_Ok lc \<Rightarrow> do {
                     t \<leftarrow> proc_table row col procs sorted_procs;
                     Some (Sys_Ok ([la, task_line procs, lb] @ lc @ t)) }
                 | _ \<Rightarrow> Some Sys_Exit }
             | _ \<Rightarrow> Some Sys_Exit }
         | _ \<Rightarrow> Some Sys_Exit }
     | _ \<Rightarrow> Some Sys_Exit }"

section \<open>The keys\<close>

datatype key = KEY_LEFT | KEY_RIGHT | KEY_UP | KEY_DOWN | KEY_Q | KEY_OTHER

record top_state =
  row :: int
  col :: int
  check :: bool
  before :: int
  procs :: "my_proc list"

definition top_key :: "key \<Rightarrow> top_state \<Rightarrow> top_state option" where
  "top_key ch s =
     (case ch of
        KEY_LEFT \<Rightarrow> Some (s\<lparr>col := (if col s - 1 < 0 then 0 else col s - 1), check := True\<rparr>)
      | KEY_RIGHT \<Rightarrow> if 2 ^ 31 \<le> col s + 1 then None else Some (s\<lparr>col := col s + 1, check := True\<rparr>)
      | KEY_UP \<Rightarrow> Some (s\<lparr>row := (if row s - 1 < 0 then 0 else row s - 1), check := True\<rparr>)
      | KEY_DOWN \<Rightarrow>
          Some (s\<lparr>row := (if row s + 1 > int (length (procs s)) then int (length (procs s)) else row s + 1),
                  check := True\<rparr>)
      | _ \<Rightarrow> Some s)"

text \<open>The search, the sort and the frame, on an empty list of processes.\<close>

definition top_refresh :: "sys_env \<Rightarrow> nat \<Rightarrow> int \<Rightarrow> top_state \<Rightarrow> (top_state \<times> draw list) sys_result option" where
  "top_refresh env total_mem now s = do {
     r \<leftarrow> search_process env total_mem [];
     case r of
       Sys_Ok ps \<Rightarrow> do {
         sorted_procs \<leftarrow> sort_cpu ps;
         f \<leftarrow> top_print env now (row s) (col s) ps sorted_procs;
         case f of
           Sys_Ok frame \<Rightarrow> Some (Sys_Ok (s\<lparr>procs := ps, before := now, check := False\<rparr>, frame))
         | _ \<Rightarrow> Some Sys_Exit }
     | _ \<Rightarrow> Some Sys_Exit }"

definition top_turn ::
    "nat \<Rightarrow> sys_env \<Rightarrow> int \<Rightarrow> key \<Rightarrow> top_state \<Rightarrow> (top_state \<times> draw list list) sys_result option" where
  "top_turn total_mem env now ch s = do {
     s \<leftarrow> top_key ch s;
     if check s \<or> 3 \<le> now - before s
     then do {
       r \<leftarrow> top_refresh env total_mem now s;
       case r of
         Sys_Ok (s', frame) \<Rightarrow> Some (Sys_Ok (s', [frame]))
       | _ \<Rightarrow> Some Sys_Exit }
     else Some (Sys_Ok (s, [])) }"

text \<open>
  The loop over the turns: the system and the time of each turn and the key read after it.
  The list of turns ends where the program waits for the next key.
\<close>

fun top_loop ::
    "nat \<Rightarrow> key \<Rightarrow> (sys_env \<times> int \<times> key) list \<Rightarrow> top_state \<Rightarrow> (top_state \<times> draw list list) sys_result option" where
  "top_loop total_mem ch [] s = Some (Sys_Ok (s, []))"
| "top_loop total_mem ch ((env, now, next_key) # turns) s = do {
     r \<leftarrow> top_turn total_mem env now ch s;
     case r of
       Sys_Ok (s', frames) \<Rightarrow>
         if next_key = KEY_Q then Some (Sys_Ok (s', frames))
         else do {
           r' \<leftarrow> top_loop total_mem next_key turns s';
           case r' of
             Sys_Ok (s'', frames') \<Rightarrow> Some (Sys_Ok (s'', frames @ frames'))
           | _ \<Rightarrow> Some Sys_Exit }
     | _ \<Rightarrow> Some Sys_Exit }"

definition top_main ::
    "sys_env \<Rightarrow> int \<Rightarrow> nat \<Rightarrow> (sys_env \<times> int \<times> key) list \<Rightarrow> (top_state \<times> draw list list) sys_result option" where
  "top_main env now my_pid turns = do {
     m \<leftarrow> get_total_memory env;
     case m of
       Sys_Ok total_mem \<Rightarrow> do {
         t \<leftarrow> get_tty env 32 (''/proc/'' @ show_nat my_pid);
         case t of
           Sys_Ok my_tty \<Rightarrow> do {
             r \<leftarrow> top_refresh env total_mem now \<lparr>row = 0, col = 0, check = False, before = now, procs = []\<rparr>;
             case r of
               Sys_Ok (s, frame) \<Rightarrow> do {
                 r' \<leftarrow> top_loop total_mem KEY_OTHER turns s;
                 case r' of
                   Sys_Ok (s', frames) \<Rightarrow> Some (Sys_Ok (s', frame # frames))
                 | _ \<Rightarrow> Some Sys_Exit }
             | _ \<Rightarrow> Some Sys_Exit }
         | _ \<Rightarrow> Some Sys_Exit }
     | _ \<Rightarrow> Some Sys_Exit }"

end
