(* ===== verification/Top_Main.thy ===== *)
theory Top_Main
  imports Top
begin

text \<open>
  What \<open>top\<close> shows: the order of the processes, the columns of the table, the lines of
  \<open>/proc/meminfo\<close> that are read, and the bounds of the cursor that the keys move.
\<close>

section \<open>The order\<close>

lemma ld_less_trichotomy:
  "x \<noteq> Ld_NaN \<Longrightarrow> y \<noteq> Ld_NaN \<Longrightarrow> ld_less x y \<or> ld_less y x \<or> x = y"
  by (cases x; cases y) (auto simp: ld_less_def)

lemma ld_less_asym: "ld_less x y \<Longrightarrow> \<not> ld_less y x"
  by (cases x; cases y) (auto simp: ld_less_def)

lemma ld_less_trans: "ld_less x y \<Longrightarrow> ld_less y z \<Longrightarrow> ld_less x z"
  by (cases x; cases y; cases z) (auto simp: ld_less_def)

lemma ld_less_irrefl [simp]: "\<not> ld_less x x"
  by (cases x) (auto simp: ld_less_def)

definition comes_first :: "my_proc \<Rightarrow> my_proc \<Rightarrow> bool" where
  "comes_first p q \<longleftrightarrow>
     ld_less (cpu_percent q) (cpu_percent p) \<or> (cpu_percent p = cpu_percent q \<and> pid p \<le> pid q)"

lemma not_compare_cpu:
  "cpu_percent p \<noteq> Ld_NaN \<Longrightarrow> cpu_percent q \<noteq> Ld_NaN \<Longrightarrow> \<not> compare_cpu p q \<longleftrightarrow> comes_first p q"
  using ld_less_trichotomy [of "cpu_percent p" "cpu_percent q"] ld_less_asym [of "cpu_percent p" "cpu_percent q"]
  by (auto simp: compare_cpu_def comes_first_def)

lemma comes_first_trans: "comes_first p q \<Longrightarrow> comes_first q r \<Longrightarrow> comes_first p r"
  unfolding comes_first_def using ld_less_trans by (metis order.trans)

interpretation cpu_sort: bubble_order compare_cpu "\<lambda>p. cpu_percent p \<noteq> Ld_NaN"
proof
  fix x y :: my_proc
  assume "cpu_percent x \<noteq> Ld_NaN" "cpu_percent y \<noteq> Ld_NaN" "compare_cpu x y"
  then show "\<not> compare_cpu y x"
    using ld_less_asym [of "cpu_percent x" "cpu_percent y"] by (auto simp: compare_cpu_def split: if_splits)
next
  fix x y z :: my_proc
  assume "cpu_percent x \<noteq> Ld_NaN" "cpu_percent y \<noteq> Ld_NaN" "cpu_percent z \<noteq> Ld_NaN"
    and "\<not> compare_cpu x y" "\<not> compare_cpu y z"
  then show "\<not> compare_cpu x z" using comes_first_trans [of x y z] by (simp add: not_compare_cpu)
qed

text \<open>
  \<open>sort_cpu\<close> stays inside its array, keeps the processes and orders them by descending
  CPU share and, for equal shares, ascending pid, if no share is a not-a-number.
\<close>

theorem top_sort_order:
  assumes "\<forall>p \<in> set ps. cpu_percent p \<noteq> Ld_NaN"
  shows "\<exists>qs. sort_cpu ps = Some qs \<and> mset qs = mset ps \<and>
    sorted_wrt (\<lambda>p q. ld_less (cpu_percent q) (cpu_percent p) \<or>
                      (cpu_percent p = cpu_percent q \<and> pid p \<le> pid q)) qs"
proof -
  have "list_all (\<lambda>p. cpu_percent p \<noteq> Ld_NaN) ps" using assms by (simp add: list_all_iff)
  from cpu_sort.bubble_sort_sorts [OF this] obtain qs where qs: "sort_cpu ps = Some qs"
    "mset qs = mset ps" "sorted_wrt (\<lambda>x y. \<not> compare_cpu x y) qs"
    by (auto simp: sort_cpu_def)
  have "set qs = set ps" using qs(2) by (rule mset_eq_setD)
  then have "sorted_wrt comes_first qs"
    using assms by (intro sorted_wrt_mono_rel [OF _ qs(3)]) (auto simp: not_compare_cpu)
  with qs show ?thesis by (auto simp: comes_first_def [abs_def])
qed

definition sample_proc :: "nat \<Rightarrow> ld \<Rightarrow> my_proc" where
  "sample_proc p c =
     \<lparr>pid = p, uid = 0, user_name = ''root'', cpu_percent = c, mem_percent = Ld 0, vsz = 0, rss = 0, shr = 0,
      priority = 20, nice = 0, tty = [], stat = ''S'', time_text = ''00:00.00'', cmd = ''sh'', cmd_option = ''sh''\<rparr>"

theorem top_sort_order_witness:
  "\<exists>qs. sort_cpu [sample_proc 3 (Ld 1), sample_proc 7 (Ld 2), sample_proc 2 (Ld 1)] = Some qs \<and>
    mset qs = mset [sample_proc 3 (Ld 1), sample_proc 7 (Ld 2), sample_proc 2 (Ld 1)] \<and>
    sorted_wrt (\<lambda>p q. ld_less (cpu_percent q) (cpu_percent p) \<or>
                      (cpu_percent p = cpu_percent q \<and> pid p \<le> pid q)) qs"
  by (rule top_sort_order) (simp add: sample_proc_def)

text \<open>
  a process in its first second has the share 0/0, which compares with nothing; it is
  ordered by its pid alone and separates its neighbours, so a process with a larger share
  can stay below one with a smaller share.
\<close>

theorem top_sort_nan:
  assumes "cpu_percent a = Ld x" and "cpu_percent b = Ld y" and "x < y"
    and "cpu_percent p = ld_percent 0 0" and "pid a \<le> pid p" and "pid p \<le> pid b"
  shows "sort_cpu [a, p, b] = Some [a, p, b] \<and> compare_cpu a b"
proof -
  have c: "\<not> compare_cpu a p" "\<not> compare_cpu p b"
    using assms by (auto simp: compare_cpu_def ld_less_def ld_percent_def)
  have len: "length [a, p, b] - 1 = Suc (Suc 0)" by simp
  have "sort_cpu [a, p, b] = Some [a, p, b]"
    unfolding sort_cpu_def bubble_sort_def len using c
    by (simp add: bubble_pass_def for_upto_step rd_def)
  moreover have "compare_cpu a b" using assms by (simp add: compare_cpu_def ld_less_def)
  ultimately show ?thesis ..
qed

theorem top_sort_nan_witness:
  "sort_cpu [sample_proc 1 (Ld 1), sample_proc 2 Ld_NaN, sample_proc 3 (Ld 5)]
     = Some [sample_proc 1 (Ld 1), sample_proc 2 Ld_NaN, sample_proc 3 (Ld 5)] \<and>
   compare_cpu (sample_proc 1 (Ld 1)) (sample_proc 3 (Ld 5))"
  using top_sort_nan [of "sample_proc 1 (Ld 1)" 1 "sample_proc 3 (Ld 5)" 5 "sample_proc 2 Ld_NaN"]
  by (simp add: sample_proc_def ld_percent_def)

section \<open>The columns\<close>

lemma fold_max_ge:
  fixes f :: "'a \<Rightarrow> nat"
  shows "w \<le> fold (\<lambda>p w. max w (f p)) qs w" and "p \<in> set qs \<Longrightarrow> f p \<le> fold (\<lambda>p w. max w (f p)) qs w"
proof -
  show grow: "w \<le> fold (\<lambda>p w. max w (f p)) qs w" for qs w
    by (induction qs arbitrary: w) (auto intro: order.trans [OF max.cobounded1])
  show "p \<in> set qs \<Longrightarrow> f p \<le> fold (\<lambda>p w. max w (f p)) qs w"
    by (induction qs arbitrary: w) (auto intro: order.trans [OF max.cobounded2 grow])
qed

lemma column_width_max:
  "column_width ps k = fold (\<lambda>p w. max w (length (cell_text k p))) ps ([3, 4, 2, 2, 4, 3, 3, 1, 4, 3, 4, 7] ! k)"
proof -
  have "(if w > n then w else n) = max w n" for w n :: nat by simp
  then show ?thesis by (simp only: column_width_def)
qed

lemma column_width_ge: "p \<in> set ps \<Longrightarrow> length (cell_text k p) \<le> column_width ps k"
  unfolding column_width_max by (rule fold_max_ge(2) [where f = "\<lambda>p. length (cell_text k p)"])

text \<open>The loop over \<open>start_x\<close>.\<close>

lemma lay_loop_spec:
  assumes "lay_loop w i xs = (ys, e)" and "0 < i" and "i \<le> 12" and "length xs = 12"
  shows "length ys = 12 \<and> i \<le> e \<and> e \<le> 12 \<and> (\<forall>j < i. ys ! j = xs ! j) \<and>
    (\<forall>j. i \<le> j \<longrightarrow> j < 12 \<longrightarrow> j \<le> e \<longrightarrow> ys ! j = w (j - 1) + 2 + ys ! (j - 1)) \<and>
    (\<forall>j. i \<le> j \<longrightarrow> j < e \<longrightarrow> ys ! j < 70) \<and> (e < 12 \<longrightarrow> 70 \<le> ys ! e)"
  using assms
proof (induction w i xs arbitrary: ys e rule: lay_loop.induct)
  case (1 w i xs)
  let ?x = "w (i - 1) + 2 + xs ! (i - 1)"
  show ?case
  proof (cases "i < 12 \<and> ?x < 70")
    case True
    then have step: "lay_loop w (i + 1) (xs[i := ?x]) = (ys, e)"
      using "1.prems"(1) by (subst (asm) lay_loop.simps) (simp add: Let_def)
    have ih: "length ys = 12 \<and> i + 1 \<le> e \<and> e \<le> 12 \<and> (\<forall>j < i + 1. ys ! j = xs[i := ?x] ! j) \<and>
      (\<forall>j. i + 1 \<le> j \<longrightarrow> j < 12 \<longrightarrow> j \<le> e \<longrightarrow> ys ! j = w (j - 1) + 2 + ys ! (j - 1)) \<and>
      (\<forall>j. i + 1 \<le> j \<longrightarrow> j < e \<longrightarrow> ys ! j < 70) \<and> (e < 12 \<longrightarrow> 70 \<le> ys ! e)"
      using True "1.prems" by (intro "1.IH" [OF _ refl refl _ step]) auto
    have i: "ys ! i = ?x" "ys ! (i - 1) = xs ! (i - 1)"
      using ih True "1.prems" by auto
    have "ys ! j = w (j - 1) + 2 + ys ! (j - 1)" if "i \<le> j" "j < 12" "j \<le> e" for j
      using that ih i by (cases "j = i") auto
    moreover have "ys ! j < 70" if "i \<le> j" "j < e" for j
      using that ih i True by (cases "j = i") auto
    ultimately show ?thesis using ih by auto
  next
    case False
    then show ?thesis
      using "1.prems" by (subst (asm) lay_loop.simps) (auto simp: Let_def split: if_splits)
  qed
qed

lemma lay_out_frame:
  fixes w :: "nat \<Rightarrow> nat" and c :: nat
  defines "l \<equiv> lay_out c w"
  assumes "shown l k" and "k < 11"
  shows "start_x l ! k < 70 \<and> (k + 1 < end_col l \<longrightarrow> start_x l ! (k + 1) = start_x l ! k + w k + 2)"
proof -
  have c: "c < 11"
  proof (rule ccontr)
    assume "\<not> c < 11"
    then have "start_col l = 11" by (simp add: l_def lay_out_def)
    with assms show False by (simp add: shown_def)
  qed
  obtain ys e where e: "lay_loop w (c + 1) (replicate 12 0) = (ys, e)" by fastforce
  note spec = lay_loop_spec [OF e]
  have l: "start_x l = ys" "start_col l = c" "end_col l = e"
    using c e by (auto simp: l_def lay_out_def)
  have k: "c \<le> k" "k < e" using assms(2) l by (auto simp: shown_def)
  show ?thesis
  proof (cases "k = c")
    case True
    then show ?thesis using spec c k l by auto
  next
    case False
    then show ?thesis using spec c k l assms(3) by auto
  qed
qed

lemma length_ld_text_upper: "length (ld_text_upper w k x) = length (ld_text w k x)"
  by (cases x) (auto simp: ld_text_upper_def ld_text_def right_align_def)

text \<open>
  every cell of a process lies inside its column, the column begins left of column 70,
  and the next column that is shown begins two places behind it.
\<close>

theorem top_cells_in_columns:
  assumes "p \<in> set ps"
    and "(y', x, t) \<in> set (proc_cells (lay_out c (column_width ps)) (column_width ps) y p)"
  shows "\<exists>k < 11. y' = y \<and> shown (lay_out c (column_width ps)) k \<and>
    (let l = lay_out c (column_width ps)
     in int (start_x l ! k) \<le> x \<and> x + int (length t) \<le> int (start_x l ! k + column_width ps k) \<and>
        start_x l ! k < 70 \<and>
        (k + 1 < end_col l \<longrightarrow> start_x l ! (k + 1) = start_x l ! k + column_width ps k + 2))"
proof -
  let ?w = "column_width ps" and ?l = "lay_out c (column_width ps)"
  have cell: "(\<exists>k < 11. y' = y \<and> shown ?l k \<and> length t = length (cell_text k p) \<and>
      (x = int (start_x ?l ! k) + (int (?w k) - int (length t)) \<or> x = int (start_x ?l ! k)))"
    using assms(2)
    by (auto simp: proc_cells_def right_cell_def left_cell_def cell_text_def length_ld_text_upper split: if_splits
        intro: exI [of _ 0] exI [of _ 1] exI [of _ 2] exI [of _ 3] exI [of _ 4] exI [of _ 5] exI [of _ 6]
          exI [of _ 7] exI [of _ 8] exI [of _ 9] exI [of _ 10])
  then obtain k where k: "k < 11" "y' = y" "shown ?l k" "length t = length (cell_text k p)"
    "x = int (start_x ?l ! k) + (int (?w k) - int (length t)) \<or> x = int (start_x ?l ! k)" by blast
  have "length t \<le> ?w k" using column_width_ge [OF assms(1)] k(4) by simp
  with k lay_out_frame [OF k(3,1)] show ?thesis by (auto simp: Let_def)
qed

theorem top_cells_in_columns_witness:
  "\<exists>k < 11. (7 :: int) = 7 \<and> shown (lay_out 0 (column_width [sample_proc 3 (Ld 1)])) k \<and>
    (let l = lay_out 0 (column_width [sample_proc 3 (Ld 1)])
     in int (start_x l ! k) \<le> 2 \<and> 2 + int (length ''3'') \<le> int (start_x l ! k + column_width [sample_proc 3 (Ld 1)] k) \<and>
        start_x l ! k < 70 \<and>
        (k + 1 < end_col l \<longrightarrow> start_x l ! (k + 1) = start_x l ! k + column_width [sample_proc 3 (Ld 1)] k + 2))"
proof (rule top_cells_in_columns)
  show "sample_proc 3 (Ld 1) \<in> set [sample_proc 3 (Ld 1)]" by simp
  have l: "shown (lay_out 0 (column_width [sample_proc 3 (Ld 1)])) 0"
    "start_x (lay_out 0 (column_width [sample_proc 3 (Ld 1)])) ! 0 = 0"
    "column_width [sample_proc 3 (Ld 1)] 0 = 3" "show_nat 3 = ''3''"
    by code_simp+
  show "(7, 2, ''3'') \<in> set (proc_cells (lay_out 0 (column_width [sample_proc 3 (Ld 1)]))
      (column_width [sample_proc 3 (Ld 1)]) 7 (sample_proc 3 (Ld 1)))"
    using l by (simp add: proc_cells_def right_cell_def sample_proc_def)
qed

lemma lay_loop_below:
  assumes "lay_loop w (c + 1) (replicate 12 0) = (ys, e)" and "c < 11"
  shows "c < e" and "e \<le> 12" and "c < j \<Longrightarrow> j < e \<Longrightarrow> ys ! j < 70" and "e < 12 \<Longrightarrow> 70 \<le> ys ! e"
proof -
  have p: "0 < c + 1" "c + 1 \<le> 12" "length (replicate 12 (0 :: nat)) = 12" using assms(2) by simp_all
  note spec = lay_loop_spec [OF assms(1) p]
  from spec show "c < e" "e \<le> 12" by linarith+
  show "ys ! j < 70" if "c < j" "j < e"
    using spec that by (metis Suc_eq_plus1 Suc_leI)
  show "70 \<le> ys ! e" if "e < 12" using spec that by blast
qed

lemma lay_loop_sums:
  assumes "lay_loop w (c + 1) (replicate 12 0) = (ys, e)" and "c < 11" and "c \<le> j" and "j \<le> e" and "j < 12"
  shows "ys ! j = (\<Sum>k = c..<j. w k + 2)"
  using assms(3-5)
proof (induction j rule: dec_induct)
  case base
  then show ?case using lay_loop_spec [OF assms(1)] assms(2) by simp
next
  case (step j)
  then have "ys ! Suc j = w j + 2 + ys ! j" using lay_loop_spec [OF assms(1)] assms(2) by simp
  with step show ?case by simp
qed

lemma lay_out_max_cmd:
  assumes "c < 11"
  shows "(0 \<le> max_cmd (lay_out c w) \<longleftrightarrow> (\<Sum>k = c..<11. w k + 2) < 70) \<and> max_cmd (lay_out c w) \<le> 70"
proof -
  obtain ys e where e: "lay_loop w (c + 1) (replicate 12 0) = (ys, e)" by fastforce
  note b = lay_loop_below [OF e assms]
  show ?thesis
  proof (cases "e = 12")
    case True
    have "ys ! 11 = (\<Sum>k = c..<11. w k + 2)"
      using assms True by (intro lay_loop_sums [OF e]) auto
    moreover have "ys ! 11 < 70" using True assms by (intro b(3)) auto
    moreover have "max_cmd (lay_out c w) = 70 - int (ys ! 11)" using e True assms by (simp add: lay_out_def)
    ultimately show ?thesis by linarith
  next
    case False
    then have "ys ! e = (\<Sum>k = c..<e. w k + 2)"
      using assms b by (intro lay_loop_sums [OF e]) auto
    moreover have "(\<Sum>k = c..<e. w k + 2) \<le> (\<Sum>k = c..<11. w k + 2)"
      using b False by (intro sum_mono2) auto
    moreover have "70 \<le> ys ! e" using False b(2) by (intro b(4)) simp
    moreover have "max_cmd (lay_out c w) = - 1" using e False assms by (simp add: lay_out_def)
    ultimately show ?thesis by linarith
  qed
qed

lemma cmd_cell_defined:
  assumes "length (cmd p) < 1024" and "max_cmd l \<le> 70" and "0 \<le> c"
  shows "cmd_cell c l y p \<noteq> None \<longleftrightarrow> 0 \<le> max_cmd l \<and> c < 139"
  using assms by (auto simp: cmd_cell_def Let_def)

lemma proc_rows_defined:
  assumes "\<forall>p \<in> set ps. length (cmd p) < 1024" and "max_cmd l \<le> 70" and "0 \<le> c"
  shows "proc_rows c l w y ps \<noteq> None \<longleftrightarrow> ps = [] \<or> (0 \<le> max_cmd l \<and> c < 139)"
  using assms(1)
proof (induction ps arbitrary: y)
  case (Cons p ps)
  have "proc_rows c l w y (p # ps) \<noteq> None \<longleftrightarrow> cmd_cell c l y p \<noteq> None \<and> proc_rows c l w (y + 1) ps \<noteq> None"
    by (auto split: bind_splits)
  moreover have "cmd_cell c l y p \<noteq> None \<longleftrightarrow> 0 \<le> max_cmd l \<and> c < 139"
    using Cons.prems assms by (intro cmd_cell_defined) auto
  ultimately show ?case using Cons by auto
qed simp

text \<open>
  C30. For commands shorter than 1024 chars the table is drawn without leaving a buffer exactly if no process is below the cursor,
  or the columns from the cursor on leave room for the command in the 70 places, or the cursor
  stands on the command and fewer than 128 steps behind it. If the columns do not fit,
  \<open>max_cmd\<close> is still -1 and the byte before the command is overwritten.
\<close>

theorem top_table_defined:
  assumes "\<forall>p \<in> set qs. length (cmd p) < 1024" and "0 \<le> r" and "0 \<le> c"
  shows "proc_table r c ps qs \<noteq> None \<longleftrightarrow>
    int (length qs) \<le> r \<or> (c < 11 \<and> (\<Sum>k = nat c..<11. column_width ps k + 2) < 70) \<or> (11 \<le> c \<and> c < 139)"
proof -
  let ?l = "lay_out (nat c) (column_width ps)"
  let ?fits = "(\<Sum>k = nat c..<11. column_width ps k + 2) < 70"
  have max: "max_cmd ?l \<le> 70 \<and> (0 \<le> max_cmd ?l \<longleftrightarrow> 11 \<le> c \<or> ?fits)"
  proof (cases "c < 11")
    case True
    then have "nat c < 11" by simp
    from lay_out_max_cmd [OF this, of "column_width ps"] True show ?thesis by linarith
  next
    case False
    then have "11 \<le> nat c" by simp
    then have "max_cmd ?l = 70" by (simp add: lay_out_def)
    with False show ?thesis by linarith
  qed
  have "proc_table r c ps qs \<noteq> None \<longleftrightarrow> proc_rows c ?l (column_width ps) 7 (drop (nat r) qs) \<noteq> None"
    using assms(2,3) by (auto simp: proc_table_def Let_def split: bind_splits)
  also have "\<dots> \<longleftrightarrow> drop (nat r) qs = [] \<or> (0 \<le> max_cmd ?l \<and> c < 139)"
    using assms max by (intro proc_rows_defined) (auto dest: in_set_dropD)
  finally have "proc_table r c ps qs \<noteq> None \<longleftrightarrow> int (length qs) \<le> r \<or> ((11 \<le> c \<or> ?fits) \<and> c < 139)"
    using max assms(2) by (simp add: nat_le_iff le_nat_iff)
  then show ?thesis by linarith
qed

definition wide_proc :: my_proc where
  "wide_proc = (sample_proc 3 (Ld 1))\<lparr>user_name := ''administrator-account''\<rparr>"

theorem top_table_defined_witness:
  "proc_table 0 0 [sample_proc 3 (Ld 1)] [sample_proc 3 (Ld 1)] \<noteq> None \<and>
   proc_table 0 0 [wide_proc] [wide_proc] = None"
proof -
  have fits: "(\<Sum>k = nat 0..<11. column_width [sample_proc 3 (Ld 1)] k + 2) < 70"
    and wide: "\<not> (\<Sum>k = nat 0..<11. column_width [wide_proc] k + 2) < 70" by code_simp+
  have cmds: "\<forall>p \<in> set [sample_proc 3 (Ld 1)]. length (cmd p) < 1024" "\<forall>p \<in> set [wide_proc]. length (cmd p) < 1024"
    by (simp_all add: wide_proc_def sample_proc_def)
  have nums: "\<not> int (length [wide_proc]) \<le> 0" "(0 :: int) < 11" "\<not> (11 :: int) \<le> 0" "(0 :: int) \<le> 0" by simp_all
  show ?thesis
    using top_table_defined [OF cmds(1) nums(4) nums(4), of "[sample_proc 3 (Ld 1)]"]
      top_table_defined [OF cmds(2) nums(4) nums(4), of "[wide_proc]"] fits wide nums
    by blast
qed

section \<open>The keys\<close>

definition cursor_inv :: "nat \<Rightarrow> top_state \<Rightarrow> bool" where
  "cursor_inv n s \<longleftrightarrow> 0 \<le> row s \<and> 0 \<le> col s \<and> col s \<le> int n"

lemma top_key_inv: "top_key ch s = Some s' \<Longrightarrow> cursor_inv n s \<Longrightarrow> cursor_inv (Suc n) s'"
  by (cases ch) (auto simp: top_key_def cursor_inv_def split: if_splits)

lemma top_refresh_inv:
  assumes "top_refresh env m now s = Some (Sys_Ok (s', frame))" and "cursor_inv n s"
  shows "cursor_inv n s'"
  using assms by (auto simp: top_refresh_def cursor_inv_def split: bind_splits sys_result.splits)

lemma top_turn_inv:
  assumes "top_turn m env now ch s = Some (Sys_Ok (s', frames))" and "cursor_inv n s"
  shows "cursor_inv (Suc n) s' \<and> length frames \<le> 1"
proof -
  obtain t where t: "top_key ch s = Some t" using assms(1) by (auto simp: top_turn_def split: bind_splits)
  have inv: "cursor_inv (Suc n) t" using top_key_inv [OF t assms(2)] .
  show ?thesis
    using assms(1) t inv top_refresh_inv [of env m now t _ _ "Suc n"]
    by (auto simp: top_turn_def split: bind_splits sys_result.splits if_splits)
qed

lemma top_loop_inv:
  assumes "top_loop m ch turns s = Some (Sys_Ok (s', frames))" and "cursor_inv n s"
  shows "cursor_inv (n + length turns) s' \<and> length frames \<le> length turns"
  using assms
proof (induction m ch turns s arbitrary: n s' frames rule: top_loop.induct)
  case (2 m ch env now k turns s)
  obtain t fs where t: "top_turn m env now ch s = Some (Sys_Ok (t, fs))"
    using "2.prems"(1) by (auto split: bind_splits sys_result.splits)
  note turn = top_turn_inv [OF t "2.prems"(2)]
  show ?case
  proof (cases "k = KEY_Q")
    case True
    with t turn "2.prems"(1) show ?thesis by (auto simp: cursor_inv_def)
  next
    case False
    with t "2.prems"(1) obtain fs' where r: "top_loop m k turns t = Some (Sys_Ok (s', fs'))" "frames = fs @ fs'"
      by (auto split: bind_splits sys_result.splits)
    have "cursor_inv (Suc n + length turns) s' \<and> length fs' \<le> length turns"
      using turn by (intro "2.IH" [OF t refl refl False r(1)]) simp
    with turn r(2) show ?thesis by simp
  qed
qed simp

text \<open>
  In every run the cursor stays right of and below the origin and at most as many columns away as keys were read, and there is the
  first frame and at most one more for each turn of the loop.
\<close>

theorem top_main_cursor:
  assumes "top_main env now me turns = Some (Sys_Ok (s, frames))"
  shows "0 \<le> row s \<and> 0 \<le> col s \<and> col s \<le> int (length turns) \<and> 1 \<le> length frames \<and> length frames \<le> length turns + 1"
proof -
  let ?s = "\<lparr>row = 0, col = 0, check = False, before = now, procs = []\<rparr>"
  obtain m t frame fs where r: "top_refresh env m now ?s = Some (Sys_Ok (t, frame))"
    and loop: "top_loop m KEY_OTHER turns t = Some (Sys_Ok (s, fs))" and frames: "frames = frame # fs"
    using assms by (auto simp: top_main_def split: bind_splits sys_result.splits)
  have "cursor_inv 0 t" using top_refresh_inv [OF r, of 0] by (simp add: cursor_inv_def)
  from top_loop_inv [OF loop this] frames show ?thesis by (simp add: cursor_inv_def)
qed

text \<open>A system with one process, for the witnesses.\<close>

definition sample_sys :: sys_env where
  "sample_sys =
     \<lparr>sys_file = map_of
        [(''/proc/meminfo'', concat ((''m 80'' @ [NL]) # replicate 23 (''m 8'' @ [NL]))),
         (''/proc/uptime'', ''90.5 7''), (''/proc/loadavg'', ''0.5 0.25 0''), (''/proc/stat'', ''cpu 1 2 3 4 5 6 7 8''),
         (''/proc/1/stat'', ''1 (sh) S 0 1 1 0 0 0 0 0 0 0 5 6 0 0 20 0 1 0 7 0''), (''/proc/1/status'', ''Name''),
         (''/proc/1/cmdline'', ''sh'')],
      sys_stat_of = map_of
        [(''/proc/1'', \<lparr>is_dir = True, is_chr = False, sys_uid = 0, sys_rdev = 0\<rparr>),
         (''/proc/1/stat'', \<lparr>is_dir = False, is_chr = False, sys_uid = 0, sys_rdev = 0\<rparr>)],
      sys_list = map_of [(''/proc'', [''1''])],
      sys_access = (\<lambda>_. True),
      sys_link = map_of [(''/proc/1/fd/0'', ''/dev/null'')],
      sys_pw = map_of [(0, ''root'')],
      hertz = 1, utmp_types = [7], utc_offset = 0\<rparr>"

theorem top_main_cursor_witness:
  "\<exists>s frames. top_main sample_sys 0 1 [(sample_sys, 1, KEY_DOWN), (sample_sys, 2, KEY_Q)] = Some (Sys_Ok (s, frames)) \<and>
    row s = 1 \<and> length frames = 2 \<and> 0 \<le> col s \<and> col s \<le> 2"
proof -
  let ?turns = "[(sample_sys, 1, KEY_DOWN), (sample_sys, 2, KEY_Q)]"
  have "case top_main sample_sys 0 1 ?turns of
      Some (Sys_Ok (s, frames)) \<Rightarrow> row s = 1 \<and> length frames = 2 | _ \<Rightarrow> False" by code_simp
  then obtain s frames where r: "top_main sample_sys 0 1 ?turns = Some (Sys_Ok (s, frames))"
    "row s = 1" "length frames = 2" by (auto split: option.splits sys_result.splits)
  with top_main_cursor [OF r(1)] show ?thesis by auto
qed

section \<open>The lines of meminfo\<close>

text \<open>A line of \<open>/proc/meminfo\<close>: a label without digits, a number, a unit.\<close>

type_synonym mem_line = "string \<times> nat \<times> string"

definition mem_line_text :: "mem_line \<Rightarrow> string" where
  "mem_line_text m = (case m of (label, n, unit) \<Rightarrow> label @ show_nat n @ unit @ [NL])"

definition mem_line_ok :: "mem_line \<Rightarrow> bool" where
  "mem_line_ok m =
     (case m of (label, n, unit) \<Rightarrow>
        list_all (\<lambda>c. \<not> isdigit c \<and> c \<noteq> NL) label \<and> list_all (\<lambda>c. c \<noteq> NL) unit \<and>
        (unit = [] \<or> \<not> isdigit (hd unit)) \<and> int n < 2 ^ 64 \<and> length (mem_line_text m) < 1024)"

definition mem_line_value :: "mem_line \<Rightarrow> nat" where
  "mem_line_value m = fst (snd m)"

lemma upto_newline_line:
  "list_all (\<lambda>c. c \<noteq> NL) s \<Longrightarrow> length s < k \<Longrightarrow> upto_newline k (s @ NL # rest) = s @ [NL]"
  by (induction k "s @ NL # rest" arbitrary: s rule: upto_newline.induct) (auto simp: Cons_eq_append_conv)

lemma digit_not_NL: "isdigit c \<Longrightarrow> c \<noteq> NL"
  by (auto simp: isdigit_def uchar_def)

lemma mem_line_body: "mem_line_ok (label, n, unit) \<Longrightarrow> list_all (\<lambda>c. c \<noteq> NL) (label @ show_nat n @ unit)"
  using show_uint_digits [of "int n"] digit_not_NL
  by (auto simp: mem_line_ok_def list_all_iff show_nat_def)

lemma fgets_mem_line:
  assumes "mem_line_ok m"
  shows "fgets_line 1024 (mem_line_text m @ rest) = (mem_line_text m, rest)"
proof -
  obtain label n unit where m: "m = (label, n, unit)" by (cases m)
  have "length (label @ show_nat n @ unit) < 1023"
    using assms by (simp add: m mem_line_ok_def mem_line_text_def)
  from upto_newline_line [OF mem_line_body this] assms
  have "upto_newline 1023 (mem_line_text m @ rest) = mem_line_text m"
    by (simp add: m mem_line_text_def)
  then show ?thesis by (simp add: fgets_line_def)
qed

lemma nth_mem_line:
  assumes "\<forall>m \<in> set ms. mem_line_ok m" and "k < length ms"
  shows "nth_line (Suc k) (concat (map mem_line_text ms)) =
    (mem_line_text (ms ! k), concat (map mem_line_text (drop (Suc k) ms)))"
  using assms
proof (induction k arbitrary: ms)
  case 0
  then show ?case by (cases ms) (auto simp: fgets_mem_line)
next
  case (Suc k)
  then show ?case by (cases ms) (auto simp: fgets_mem_line)
qed

lemma mem_line_number:
  assumes "mem_line_ok m"
  shows "\<exists>s. skip_to_digit (mem_line_text m) = Some s \<and> scan_ulong s = mem_line_value m"
proof -
  obtain label n unit where m: "m = (label, n, unit)" by (cases m)
  from assms have ok: "\<forall>c \<in> set label. \<not> isdigit c" "unit = [] \<or> \<not> isdigit (hd unit)" and n: "int n < 2 ^ 64"
    by (simp_all add: m mem_line_ok_def list_all_iff)
  have unit: "takeWhile isdigit (unit @ [NL]) = []"
    using ok(2) digit_not_NL by (cases unit) auto
  have ds: "\<forall>c \<in> set (show_nat n). isdigit c" "show_nat n \<noteq> []"
    using show_uint_digits [of "int n"] by (simp_all add: show_nat_def)
  let ?s = "show_nat n @ unit @ [NL]"
  have "dropWhile (\<lambda>c. \<not> isdigit c) (mem_line_text m) = ?s"
    using ok(1) ds by (cases "show_nat n") (simp_all add: m mem_line_text_def dropWhile_append3)
  then have skip: "skip_to_digit (mem_line_text m) = Some ?s"
    using ds by (auto simp: skip_to_digit_def split: list.splits)
  have "takeWhile isdigit ?s = show_nat n" using ds unit by (simp add: takeWhile_append)
  then have "scan_ulong ?s = n"
    using n digits_val_show_uint [of "int n"] by (simp add: scan_ulong_def show_nat_def)
  with skip show ?thesis by (simp add: m mem_line_value_def)
qed

lemma read_meminfo_line:
  assumes "\<forall>m \<in> set ms. mem_line_ok m" and "i < limit" and "limit \<le> length ms"
  shows "read_meminfo limit (concat (map mem_line_text (drop i ms)), i) =
    Some (mem_line_value (ms ! (limit - 1)), concat (map mem_line_text (drop limit ms)), limit)"
proof -
  have ok: "\<forall>m \<in> set (drop i ms). mem_line_ok m" using assms(1) by (auto dest: in_set_dropD)
  obtain k where k: "limit = Suc (i + k)" using assms(2) less_iff_Suc_add by auto
  have line: "nth_line (limit - i) (concat (map mem_line_text (drop i ms))) =
      (mem_line_text (ms ! (limit - 1)), concat (map mem_line_text (drop limit ms)))"
    using nth_mem_line [OF ok, of k] k assms(3) by (simp add: add.commute)
  have "ms ! (limit - 1) \<in> set ms" using assms(2,3) by (intro nth_mem) simp
  with assms(1) have "mem_line_ok (ms ! (limit - 1))" by blast
  from mem_line_number [OF this] line assms(2) show ?thesis by (auto simp: read_meminfo_def)
qed

text \<open>
  On a \<open>/proc/meminfo\<close> of at least 24 lines the figures are the numbers of the lines
  1 to 5, 15, 16 and 24, whatever their labels are.
\<close>

theorem meminfo_lines:
  assumes "\<forall>m \<in> set ms. mem_line_ok m" and "24 \<le> length ms"
  shows "meminfo (concat (map mem_line_text ms)) =
    Some \<lparr>mem_total = mem_line_value (ms ! 0), mem_free = mem_line_value (ms ! 1),
          mem_available = mem_line_value (ms ! 2), buffer = mem_line_value (ms ! 3),
          cached = mem_line_value (ms ! 4), swap_total = mem_line_value (ms ! 14),
          swap_free = mem_line_value (ms ! 15), s_reclaimable = mem_line_value (ms ! 23)\<rparr>"
  using read_meminfo_line [OF assms(1), of 0 1] read_meminfo_line [OF assms(1), of 1 2]
    read_meminfo_line [OF assms(1), of 2 3] read_meminfo_line [OF assms(1), of 3 4]
    read_meminfo_line [OF assms(1), of 4 5] read_meminfo_line [OF assms(1), of 5 15]
    read_meminfo_line [OF assms(1), of 15 16] read_meminfo_line [OF assms(1), of 16 24] assms(2)
  by (simp add: meminfo_def)

theorem meminfo_lines_witness:
  "meminfo (concat (map mem_line_text (map (\<lambda>n. (''Label: '', n, '' kB'')) [0..<24]))) =
    Some \<lparr>mem_total = 0, mem_free = 1, mem_available = 2, buffer = 3, cached = 4,
          swap_total = 14, swap_free = 15, s_reclaimable = 23\<rparr>"
proof -
  let ?ms = "map (\<lambda>n. (''Label: '', n, '' kB'')) [0..<24]"
  have "\<forall>m \<in> set ?ms. mem_line_ok m" by code_simp
  from meminfo_lines [OF this] show ?thesis by (simp add: mem_line_value_def del: upt_rec_numeral)
qed

end
