(* ===== verification/Ps.thy ===== *)
theory Ps
  imports Procfs
begin

text \<open>
  \<open>ps.c\<close> of assignment 2: the processes of the user on the terminal of the program, one line
  each. The first lemmas are about what both programs read of a process: the words of
  \<open>stat\<close>, the command line.
\<close>

section \<open>The program\<close>

definition ps_add_proc :: "sys_env \<Rightarrow> nat \<Rightarrow> nat \<Rightarrow> string \<Rightarrow> my_proc sys_result option" where
  "ps_add_proc env uptime total_mem path = add_proc env uptime total_mem ps_time (get_tty env 32) path"

definition ps_visit :: "sys_env \<Rightarrow> nat \<Rightarrow> nat \<Rightarrow> int \<Rightarrow> string \<Rightarrow> string \<Rightarrow> my_proc sys_result option" where
  "ps_visit env uptime total_mem my_uid my_tty name =
     (let path = ''/proc/'' @ name in
      case sys_stat_of env path of
        None \<Rightarrow> Some Sys_Exit
      | Some st \<Rightarrow>
          if \<not> is_dir st then Some Sys_Skip
          else if \<not> list_all isdigit name then Some Sys_Skip
          else if sys_uid st \<noteq> my_uid then Some Sys_Skip
          else do {
            t \<leftarrow> get_tty env 1024 path;
            case t of
              Sys_Ok tty_text \<Rightarrow>
                if tty_text = [] \<or> tty_text = ''?'' then Some Sys_Skip
                else if tty_text \<noteq> my_tty then Some Sys_Skip
                else ps_add_proc env uptime total_mem path
            | _ \<Rightarrow> Some Sys_Exit })"

definition ps_search :: "sys_env \<Rightarrow> nat \<Rightarrow> int \<Rightarrow> string \<Rightarrow> my_proc list sys_result option" where
  "ps_search env total_mem my_uid my_tty = do {
     u \<leftarrow> get_uptime env;
     case u of
       Sys_Ok uptime \<Rightarrow>
         (case sys_list env ''/proc'' of
            None \<Rightarrow> Some Sys_Exit
          | Some names \<Rightarrow> search_loop (ps_visit env uptime total_mem my_uid my_tty) names [])
     | _ \<Rightarrow> Some Sys_Exit }"

definition ps_line :: "my_proc \<Rightarrow> string option" where
  "ps_line p =
     (let buf = ''  '' @ show_nat (pid p) @ '' '' @ tty p @ ''    '' @ time_text p @ '' '' @ cmd p
      in if length buf < 1024 then Some (buf @ [NL]) else None)"

fun ps_lines :: "my_proc list \<Rightarrow> string option" where
  "ps_lines [] = Some []"
| "ps_lines (p # ps) = do { l \<leftarrow> ps_line p; ls \<leftarrow> ps_lines ps; Some (l @ ls) }"

definition ps_print :: "my_proc list \<Rightarrow> string option" where
  "ps_print procs = do {
     ls \<leftarrow> ps_lines procs;
     Some (''    PID TTY       TIME CMD'' @ [NL] @ ls) }"

definition ps_main :: "sys_env \<Rightarrow> nat \<Rightarrow> int \<Rightarrow> string sys_result option" where
  "ps_main env my_pid my_uid = do {
     m \<leftarrow> get_total_memory env;
     case m of
       Sys_Ok total_mem \<Rightarrow> do {
         t \<leftarrow> get_tty env 32 (''/proc/'' @ show_nat my_pid);
         case t of
           Sys_Ok my_tty \<Rightarrow> do {
             r \<leftarrow> ps_search env total_mem my_uid (cut_tty my_tty);
             case r of
               Sys_Ok ps \<Rightarrow> do { out \<leftarrow> ps_print ps; Some (Sys_Ok out) }
             | _ \<Rightarrow> Some Sys_Exit }
         | _ \<Rightarrow> Some Sys_Exit }
     | _ \<Rightarrow> Some Sys_Exit }"

section \<open>The processes that are listed\<close>

lemma search_loop_members:
  assumes "search_loop visit names ps = Some (Sys_Ok qs)"
  shows "p \<in> set qs \<longleftrightarrow> p \<in> set ps \<or> (\<exists>n \<in> set names. visit n = Some (Sys_Ok p))"
  using assms
  by (induction visit names ps rule: search_loop.induct)
     (auto split: bind_splits sys_result.splits if_splits)

lemma find_dev_cap:
  "find_dev env a nr names = Some (Sys_Ok t) \<Longrightarrow> find_dev env b nr names = Some (Sys_Ok u) \<Longrightarrow> t = u"
  by (induction names) (auto split: option.splits if_splits)

lemma get_tty_cap:
  assumes "get_tty env a path = Some (Sys_Ok t)" and "get_tty env b path = Some (Sys_Ok u)"
  shows "t = u"
  using assms find_dev_cap
  by (fastforce simp: get_tty_def Let_def split: option.splits if_splits)

lemma finish_proc_tty:
  assumes "finish_proc env path tok t x q = Some (Sys_Ok p)"
  shows "tty p = t"
proof -
  from assms obtain y c where e: "proc_cmd (tok ! 1) = Some y" "sys_file env (path @ ''/cmdline'') = Some c"
    by (cases "proc_cmd (tok ! 1)"; cases "sys_file env (path @ ''/cmdline'')") (simp_all add: finish_proc_def)
  have "\<not> 1124 \<le> length (cmdline_loop c [])"
    using assms e unfolding finish_proc_def by (auto simp only: bind.simps option.case Let_def if_True)
  with assms e show ?thesis by (auto simp: finish_proc_def Let_def)
qed

lemma add_proc_tty:
  assumes "add_proc env up mem fmt tty_of path = Some (Sys_Ok p)"
  shows "tty_of path = Some (Sys_Ok (tty p))"
  using assms finish_proc_tty
  by (fastforce simp: add_proc_def split: bind_splits sys_result.splits)

text \<open>
  C31. if the search of \<open>ps\<close> succeeds, a process is listed exactly if it belongs to a name of
  digits in \<open>/proc\<close> that is a directory of the user, its terminal is that of the program and not
  empty or unknown, and its files could be read; it is then shown with that terminal.
\<close>

theorem ps_lists_own_terminal:
  assumes "ps_search env mem my_uid my_tty = Some (Sys_Ok ps)"
  shows "\<exists>up names. get_uptime env = Some (Sys_Ok up) \<and> sys_list env ''/proc'' = Some names \<and>
    (\<forall>p. p \<in> set ps \<longleftrightarrow>
      (\<exists>name \<in> set names. \<exists>st. sys_stat_of env (''/proc/'' @ name) = Some st \<and> is_dir st \<and>
        list_all isdigit name \<and> sys_uid st = my_uid \<and> my_tty \<noteq> [] \<and> my_tty \<noteq> ''?'' \<and>
        get_tty env 1024 (''/proc/'' @ name) = Some (Sys_Ok my_tty) \<and>
        ps_add_proc env up mem (''/proc/'' @ name) = Some (Sys_Ok p))) \<and>
    (\<forall>p \<in> set ps. tty p = my_tty)"
proof -
  from assms obtain up names where u: "get_uptime env = Some (Sys_Ok up)" "sys_list env ''/proc'' = Some names"
    and loop: "search_loop (ps_visit env up mem my_uid my_tty) names [] = Some (Sys_Ok ps)"
    by (auto simp: ps_search_def split: bind_splits sys_result.splits option.splits)
  let ?listed = "\<lambda>name p. \<exists>st. sys_stat_of env (''/proc/'' @ name) = Some st \<and> is_dir st \<and>
        list_all isdigit name \<and> sys_uid st = my_uid \<and> my_tty \<noteq> [] \<and> my_tty \<noteq> ''?'' \<and>
        get_tty env 1024 (''/proc/'' @ name) = Some (Sys_Ok my_tty) \<and>
        ps_add_proc env up mem (''/proc/'' @ name) = Some (Sys_Ok p)"
  have visit: "ps_visit env up mem my_uid my_tty name = Some (Sys_Ok p) \<longleftrightarrow> ?listed name p" for name p
    by (auto simp: ps_visit_def Let_def split: option.splits bind_splits sys_result.splits if_splits)
  have "p \<in> set ps \<longleftrightarrow> (\<exists>name \<in> set names. ps_visit env up mem my_uid my_tty name = Some (Sys_Ok p))" for p
    using search_loop_members [OF loop] by simp
  then have mem: "p \<in> set ps \<longleftrightarrow> (\<exists>name \<in> set names. ?listed name p)" for p by (simp only: visit)
  have "tty p = my_tty" if "p \<in> set ps" for p
    using mem [of p] that add_proc_tty get_tty_cap unfolding ps_add_proc_def by blast
  with u mem show ?thesis by blast
qed

text \<open>A system with two processes of the user, one of them on another terminal.\<close>

definition ps_sys :: sys_env where
  "ps_sys =
     \<lparr>sys_file = map_of
        [(''/proc/meminfo'', ''m 8''), (''/proc/uptime'', ''9 7''),
         (''/proc/1/stat'', ''1 (sh) S 0 1 1 0 0 0 0 0 0 0 5 6 0 0 20 0 1 0 7 0''), (''/proc/1/status'', ''Name''),
         (''/proc/1/cmdline'', ''sh'')],
      sys_stat_of = map_of
        [(''/proc/1'', \<lparr>is_dir = True, is_chr = False, sys_uid = 3, sys_rdev = 0\<rparr>),
         (''/proc/2'', \<lparr>is_dir = True, is_chr = False, sys_uid = 3, sys_rdev = 0\<rparr>),
         (''/proc/1/stat'', \<lparr>is_dir = False, is_chr = False, sys_uid = 3, sys_rdev = 0\<rparr>)],
      sys_list = map_of [(''/proc'', [''1'', ''2''])],
      sys_access = (\<lambda>_. True),
      sys_link = map_of [(''/proc/1/fd/0'', ''/dev/pts/0''), (''/proc/2/fd/0'', ''/dev/pts/1'')],
      sys_pw = map_of [(3, ''me'')],
      hertz = 1, utmp_types = [], utc_offset = 0\<rparr>"

theorem ps_lists_own_terminal_witness:
  "\<exists>p. ps_search ps_sys 8 3 ''pts/0'' = Some (Sys_Ok [p]) \<and> pid p = 1 \<and> cmd p = ''sh'' \<and> tty p = ''pts/0''"
proof -
  have "case ps_search ps_sys 8 3 ''pts/0'' of Some (Sys_Ok [p]) \<Rightarrow> pid p = 1 \<and> cmd p = ''sh'' | _ \<Rightarrow> False"
    by code_simp
  then obtain p where p: "ps_search ps_sys 8 3 ''pts/0'' = Some (Sys_Ok [p])" "pid p = 1" "cmd p = ''sh''"
    by (auto split: option.splits sys_result.splits list.splits)
  with ps_lists_own_terminal [OF p(1)] show ?thesis by auto
qed

section \<open>The words of stat\<close>

definition word_ok :: "string \<Rightarrow> bool" where
  "word_ok w \<longleftrightarrow> w \<noteq> [] \<and> (\<forall>c \<in> set w. \<not> isspace c)"

fun unwords :: "string list \<Rightarrow> string" where
  "unwords [] = []"
| "unwords [w] = w"
| "unwords (w # ws) = w @ '' '' @ unwords ws"

lemma isspace_blank [simp]: "isspace CHR '' ''"
  by (simp add: isspace_def uchar_def)

lemma words_blank: "words (CHR '' '' # s) = words s"
  by (simp add: words.simps [of s] words.simps [of "CHR '' '' # s"])

lemma words_word:
  assumes "word_ok w"
  shows "words w = [w]" and "words (w @ CHR '' '' # s) = w # words s"
proof -
  have w: "dropWhile isspace (w @ u) = w @ u" for u
    using assms by (cases w) (auto simp: word_ok_def)
  have t: "takeWhile (\<lambda>c. \<not> isspace c) w = w" "dropWhile (\<lambda>c. \<not> isspace c) w = []"
    "takeWhile (\<lambda>c. \<not> isspace c) (w @ CHR '' '' # s) = w"
    "dropWhile (\<lambda>c. \<not> isspace c) (w @ CHR '' '' # s) = CHR '' '' # s"
    using assms by (auto simp: word_ok_def takeWhile_append2 dropWhile_append2)
  have e: "words [] = []" by (simp add: words.simps)
  from assms w [of "[]"] t(1,2) show "words w = [w]"
    by (subst words.simps) (simp add: Let_def e word_ok_def del: dropWhile_eq_Nil_conv takeWhile_eq_all_conv)
  show "words (w @ CHR '' '' # s) = w # words s"
    using assms w [of "CHR '' '' # s"] t by (subst words.simps) (simp add: word_ok_def words_blank)
qed

lemma words_unwords: "list_all word_ok ws \<Longrightarrow> words (unwords ws) = ws"
proof (induction ws rule: unwords.induct)
  case 1
  then show ?case by (simp add: words.simps)
qed (simp_all add: words_word)

lemma stat_tokens_unwords:
  assumes "list_all (\<lambda>w. word_ok w \<and> length w < 32) ws" and "32 \<le> length ws"
  shows "stat_tokens (unwords ws) = Some (take 32 ws)"
proof -
  have "words (unwords ws) = ws" using assms(1) by (intro words_unwords) (simp add: list_all_iff)
  with assms show ?thesis by (auto simp: stat_tokens_def Let_def list_all_iff dest: in_set_takeD)
qed

lemma unwords_command:
  "unwords (p # (CHR ''('' # a @ '' '' @ b @ '')'') # fs) = unwords (p # (CHR ''('' # a) # (b @ '')'') # fs)"
  by (cases fs) simp_all

text \<open>
  The words of a line of \<open>stat\<close> are its fields if the command has no blank. A command
  \<open>(a b)\<close> with one blank takes two words: the last char of \<open>a\<close> is lost from the name, \<open>b)\<close> is
  taken for the state, and every later field is taken from the one before it.
\<close>

theorem stat_blank_in_command:
  assumes "list_all (\<lambda>w. word_ok w \<and> length w < 32) (p # fs)" and "word_ok a" and "word_ok b"
    and "length a < 30" and "length b < 30" and "30 \<le> length fs"
  shows "stat_tokens (unwords (p # (CHR ''('' # a @ '')'') # fs)) = Some (p # (CHR ''('' # a @ '')'') # take 30 fs) \<and>
    proc_cmd (CHR ''('' # a @ '')'') = Some a \<and>
    stat_tokens (unwords (p # (CHR ''('' # a @ '' '' @ b @ '')'') # fs))
      = Some (p # (CHR ''('' # a) # (b @ '')'') # take 29 fs) \<and>
    proc_cmd (CHR ''('' # a) = Some (butlast a)"
proof -
  have paren: "\<not> isspace CHR ''(''" "\<not> isspace CHR '')''" by (simp_all add: isspace_def uchar_def)
  let ?one = "p # (CHR ''('' # a @ '')'') # fs" and ?two = "p # (CHR ''('' # a) # (b @ '')'') # fs"
  have "list_all (\<lambda>w. word_ok w \<and> length w < 32) ?one" "list_all (\<lambda>w. word_ok w \<and> length w < 32) ?two"
    using assms paren by (auto simp: word_ok_def)
  then have "stat_tokens (unwords ?one) = Some (take 32 ?one)" and "stat_tokens (unwords ?two) = Some (take 32 ?two)"
    using assms(6) by (simp_all only: stat_tokens_unwords list.size)
  moreover have "a \<noteq> []" using assms(2) by (simp add: word_ok_def)
  ultimately show ?thesis
    using unwords_command [of p a b fs] by (simp add: proc_cmd_def del: unwords.simps)
qed

theorem stat_blank_in_command_witness:
  "stat_tokens (unwords (''7'' # ''(Web Content)'' # replicate 30 ''S'')) = Some (''7'' # ''(Web'' # ''Content)'' # replicate 29 ''S'') \<and>
   proc_cmd ''(Web'' = Some ''We''"
proof -
  have w: "word_ok ''7''" "word_ok ''S''" "word_ok ''Web''" "word_ok ''Content''"
    by (simp_all add: word_ok_def isspace_def uchar_def)
  then have "list_all (\<lambda>w. word_ok w \<and> length w < 32) (''7'' # replicate 30 ''S'')" by (simp add: list_all_iff)
  from stat_blank_in_command [OF this w(3,4)] show ?thesis by (simp del: unwords.simps replicate.simps)
qed

section \<open>The command line\<close>

lemma cmdline_loop_chars:
  "NUL \<notin> set a \<Longrightarrow> cmdline_loop (a @ rest) acc = cmdline_loop rest (acc @ a)"
  by (induction a arbitrary: acc) (auto simp: cmdline_loop.simps [of "_ # _"])

lemma cmdline_loop_args:
  assumes "\<forall>a \<in> set args. a \<noteq> [] \<and> NUL \<notin> set a"
  shows "cmdline_loop (NUL # concat (map (\<lambda>a. a @ [NUL]) args)) acc = acc @ concat (map (\<lambda>a. hd a # a) args)"
  using assms
proof (induction args arbitrary: acc)
  case Nil
  then show ?case by (simp add: cmdline_loop.simps)
next
  case (Cons a args)
  then obtain c a' where a: "a = c # a'" "c \<noteq> NUL" "NUL \<notin> set a'" by (cases a) auto
  let ?rest = "NUL # concat (map (\<lambda>a. a @ [NUL]) args)"
  have "cmdline_loop (NUL # c # a' @ ?rest) acc = cmdline_loop (a' @ ?rest) (acc @ [c, c])"
    using a(2) by (simp add: cmdline_loop.simps [of "NUL # _"])
  with Cons a show ?case by (simp add: cmdline_loop_chars)
qed

text \<open>
  of a command line the arguments are joined without separator, and the first char of
  every argument but the first appears twice.
\<close>

theorem cmdline_doubles_first_chars:
  assumes "\<forall>a \<in> set (prog # args). a \<noteq> [] \<and> NUL \<notin> set a"
  shows "cmdline_loop (concat (map (\<lambda>a. a @ [NUL]) (prog # args))) [] = prog @ concat (map (\<lambda>a. hd a # a) args)"
  using assms cmdline_loop_args [of args prog] by (simp add: cmdline_loop_chars)

theorem cmdline_doubles_first_chars_witness:
  "cmdline_loop (concat (map (\<lambda>a. a @ [NUL]) [''ls'', ''-l'', ''src''])) [] = ''ls--lssrc''"
  using cmdline_doubles_first_chars [of "''ls''" "[''-l'', ''src'']"] by simp

end
