(* ===== verification/Lscpu.thy ===== *)
theory Lscpu
  imports Procfs
begin

text \<open>
  \<open>lscpu.c\<close> of assignment 2: the lines of \<open>/proc/cpuinfo\<close>, the sizes of the caches of every
  processor under \<open>/sys\<close>, the list of processors that are on line, and the report. A line that
  is shorter than the offset it is read from would show what an earlier line left in the
  buffer; the model gives \<open>None\<close> there.
\<close>

record cpu_info =
  vendor_id :: string
  model_name :: string
  cpu_mhz :: string
  L1d :: int
  L1i :: int
  L2 :: int
  L3 :: int
  online :: string
  flag :: string

definition init_cpu :: cpu_info where
  "init_cpu =
     \<lparr>vendor_id = [], model_name = [], cpu_mhz = [], L1d = 0, L1i = 0, L2 = 0, L3 = 0, online = [], flag = []\<rparr>"

section \<open>cpuinfo\<close>

definition text_at :: "nat \<Rightarrow> nat \<Rightarrow> string \<Rightarrow> string option" where
  "text_at off cap line = (if off \<le> length line \<and> length line - off < cap then Some (drop off line) else None)"

text \<open>One line; the flag says whether it was one of the four that are counted.\<close>

definition cpuinfo_line :: "string \<Rightarrow> cpu_info \<Rightarrow> (cpu_info \<times> bool) option" where
  "cpuinfo_line buf c =
     (if strstr buf ''vendor_id'' then do { t \<leftarrow> text_at 12 100 buf; Some (c\<lparr>vendor_id := t\<rparr>, True) }
      else if strstr buf ''model name'' then do { t \<leftarrow> text_at 13 100 buf; Some (c\<lparr>model_name := t\<rparr>, True) }
      else if strstr buf ''cpu MHz'' then do { t \<leftarrow> text_at 10 100 buf; Some (c\<lparr>cpu_mhz := t\<rparr>, True) }
      else if strstr buf ''flags'' then do { t \<leftarrow> text_at 9 1000 buf; Some (c\<lparr>flag := t\<rparr>, True) }
      else Some (c, False))"

lemma fgets_line_rest: "s \<noteq> [] \<Longrightarrow> length (snd (fgets_line 1000 s)) < length s"
  by (cases s) (simp_all add: fgets_line_def Let_def eval_nat_numeral)

function cpuinfo_loop :: "string \<Rightarrow> nat \<Rightarrow> cpu_info \<Rightarrow> cpu_info option" where
  "cpuinfo_loop content cnt c =
     (if content = [] then Some c
      else case cpuinfo_line (fst (fgets_line 1000 content)) c of
        None \<Rightarrow> None
      | Some (c', counted) \<Rightarrow>
          (let cnt' = (if counted then cnt + 1 else cnt)
           in if cnt' = 4 then Some c' else cpuinfo_loop (snd (fgets_line 1000 content)) cnt' c'))"
  by pat_completeness auto
termination
  by (relation "measure (\<lambda>(content, _, _). length content)") (simp_all add: fgets_line_rest)

declare cpuinfo_loop.simps [simp del]

section \<open>The caches\<close>

definition get_cache_size :: "char \<Rightarrow> string \<Rightarrow> cpu_info \<Rightarrow> cpu_info option" where
  "get_cache_size index buf c =
     (let n = atoi (takeWhile isdigit buf);
          plus = (\<lambda>x. if - (2 ^ 31) \<le> x + n \<and> x + n < 2 ^ 31 then Some (x + n) else None)
      in if index = CHR ''0'' then do { x \<leftarrow> plus (L1d c); Some (c\<lparr>L1d := x\<rparr>) }
         else if index = CHR ''1'' then do { x \<leftarrow> plus (L1i c); Some (c\<lparr>L1i := x\<rparr>) }
         else if index = CHR ''2'' then do { x \<leftarrow> plus (L2 c); Some (c\<lparr>L2 := x\<rparr>) }
         else if index = CHR ''3'' then do { x \<leftarrow> plus (L3 c); Some (c\<lparr>L3 := x\<rparr>) }
         else Some c)"

definition cache_file :: "string \<Rightarrow> nat \<Rightarrow> string" where
  "cache_file name k = ''/sys/devices/system/cpu/'' @ name @ ''/cache/index'' @ [char_of (48 + k)] @ ''/size''"

text \<open>
  The loop over the index files of one processor, from the character \<open>48 + k\<close> on; it ends at
  the first file that is missing. The last of the 80 characters that \<open>path[index]++\<close> reaches
  without leaving \<open>char\<close> is 127.
\<close>

function cache_loop :: "sys_env \<Rightarrow> string \<Rightarrow> nat \<Rightarrow> cpu_info \<Rightarrow> cpu_info option" where
  "cache_loop env name k c =
     (if 80 \<le> k then None
      else case sys_file env (cache_file name k) of
        None \<Rightarrow> Some c
      | Some content \<Rightarrow>
          if content = [] then None
          else do {
            c' \<leftarrow> get_cache_size (char_of (48 + k)) (fst (fgets_line 1000 content)) c;
            cache_loop env name (k + 1) c' })"
  by pat_completeness auto
termination
  by (relation "measure (\<lambda>(_, _, k, _). 80 - k)") simp_all

declare cache_loop.simps [simp del]

definition cpu_name :: "string \<Rightarrow> bool" where
  "cpu_name name \<longleftrightarrow> strstr name ''cpu'' \<and> 3 < length name \<and> isdigit (name ! 3)"

fun cache_dirs :: "sys_env \<Rightarrow> string list \<Rightarrow> cpu_info \<Rightarrow> cpu_info sys_result option" where
  "cache_dirs env [] c = Some (Sys_Ok c)"
| "cache_dirs env (name # names) c =
     (if \<not> cpu_name name then cache_dirs env names c
      else case sys_stat_of env (''/sys/devices/system/cpu/'' @ name) of
        None \<Rightarrow> Some Sys_Exit
      | Some st \<Rightarrow>
          if \<not> is_dir st then cache_dirs env names c
          else do { c' \<leftarrow> cache_loop env name 0 c; cache_dirs env names c' })"

section \<open>The report\<close>

definition get_online :: "sys_env \<Rightarrow> cpu_info \<Rightarrow> cpu_info sys_result option" where
  "get_online env c =
     (case sys_file env ''/sys/devices/system/cpu/online'' of
        None \<Rightarrow> Some Sys_Exit
      | Some content \<Rightarrow>
          if content = [] then None else Some (Sys_Ok (c\<lparr>online := fst (fgets_line 100 content)\<rparr>)))"

text \<open>Division by 1024 towards zero.\<close>

definition c_mib :: "int \<Rightarrow> int" where
  "c_mib x = (if x < 0 then - ((- x) div 1024) else x div 1024)"

definition lscpu_print :: "cpu_info \<Rightarrow> string" where
  "lscpu_print c =
     ''Vendor ID:'' @ replicate 3 TAB @ '' '' @ vendor_id c @
     ''Model name:'' @ replicate 3 TAB @ '' '' @ model_name c @
     ''CPU MHz:  '' @ [TAB] @ replicate 9 CHR '' '' @ [TAB] @ cpu_mhz c @
     ''L1d:'' @ replicate 4 TAB @ '' '' @ show_int (L1d c) @ '' KiB'' @ [NL] @
     ''L1i:'' @ replicate 4 TAB @ '' '' @ show_int (L1i c) @ '' KiB'' @ [NL] @
     ''L2:'' @ replicate 4 TAB @ '' '' @ show_int (c_mib (L2 c)) @ '' MiB'' @ [NL] @
     ''L3:'' @ replicate 4 TAB @ '' '' @ show_int (c_mib (L3 c)) @ '' MiB'' @ [NL] @
     ''On-line CPU(s) list:    '' @ [TAB] @ '' '' @ online c @
     ''flags:'' @ replicate 4 TAB @ '' '' @ flag c"

definition lscpu_main :: "sys_env \<Rightarrow> string sys_result option" where
  "lscpu_main env =
     (case (sys_file env ''/proc/cpuinfo'', sys_list env ''/sys/devices/system/cpu'') of
        (Some content, Some names) \<Rightarrow> do {
          c \<leftarrow> cpuinfo_loop content 0 init_cpu;
          r \<leftarrow> get_online env c;
          case r of
            Sys_Ok c \<Rightarrow> do {
              r' \<leftarrow> cache_dirs env names c;
              case r' of
                Sys_Ok c \<Rightarrow> Some (Sys_Ok (lscpu_print c))
              | _ \<Rightarrow> Some Sys_Exit }
          | _ \<Rightarrow> Some Sys_Exit }
      | _ \<Rightarrow> Some Sys_Exit)"

section \<open>The sums\<close>

text \<open>The size in index \<open>k\<close> of one processor; 0 if one of the files up to \<open>k\<close> is missing.\<close>

definition cache_size :: "sys_env \<Rightarrow> nat \<Rightarrow> string \<Rightarrow> int" where
  "cache_size env k name =
     (if \<forall>j \<le> k. sys_file env (cache_file name j) \<noteq> None
      then atoi (takeWhile isdigit (fst (fgets_line 1000 (the (sys_file env (cache_file name k))))))
      else 0)"

definition level :: "nat \<Rightarrow> cpu_info \<Rightarrow> int" where
  "level k c = [L1d c, L1i c, L2 c, L3 c] ! k"

definition is_cpu_dir :: "sys_env \<Rightarrow> string \<Rightarrow> bool" where
  "is_cpu_dir env name \<longleftrightarrow> cpu_name name \<and>
     (case sys_stat_of env (''/sys/devices/system/cpu/'' @ name) of Some st \<Rightarrow> is_dir st | None \<Rightarrow> False)"

lemma get_cache_size_level:
  assumes "get_cache_size (char_of (48 + j)) buf c = Some c'" and "j < 80" and "k < 4"
  shows "level k c' = level k c + (if j = k then atoi (takeWhile isdigit buf) else 0)"
proof -
  have ix: "(char_of (48 + j) = CHR ''0'') = (j = 0)" "(char_of (48 + j) = CHR ''1'') = (j = 1)"
    "(char_of (48 + j) = CHR ''2'') = (j = 2)" "(char_of (48 + j) = CHR ''3'') = (j = 3)"
    using assms(2) by (simp_all add: char_of_eq_iff take_bit_eq_mod)
  have k: "k = 0 \<or> k = 1 \<or> k = 2 \<or> k = 3" using assms(3) by linarith
  show ?thesis
    using assms(1) k unfolding get_cache_size_def ix
    by (elim disjE) (auto simp: level_def Let_def split: if_split_asm)
qed

lemma cache_loop_level:
  assumes "cache_loop env name j c = Some c'" and "k < 4"
  shows "level k c' = level k c +
    (if j \<le> k \<and> (\<forall>i. j \<le> i \<longrightarrow> i \<le> k \<longrightarrow> sys_file env (cache_file name i) \<noteq> None)
     then atoi (takeWhile isdigit (fst (fgets_line 1000 (the (sys_file env (cache_file name k)))))) else 0)"
  using assms(1)
proof (induction env name j c rule: cache_loop.induct)
  case (1 env name j c)
  show ?case
  proof (cases "sys_file env (cache_file name j)")
    case None
    with "1.prems" have "c' = c" by (subst (asm) cache_loop.simps) (auto split: if_splits)
    with None show ?thesis by auto
  next
    case (Some content)
    with "1.prems" obtain d where d: "j < 80" "content \<noteq> []"
      "get_cache_size (char_of (48 + j)) (fst (fgets_line 1000 content)) c = Some d"
      "cache_loop env name (j + 1) d = Some c'"
      by (subst (asm) cache_loop.simps) (auto split: if_splits bind_splits)
    note step = get_cache_size_level [OF d(3,1) assms(2)]
    have "\<not> 80 \<le> j" using d(1) by simp
    note ih = "1.IH" [OF this Some d(2,3,4)]
    have "(\<forall>i. j \<le> i \<longrightarrow> i \<le> k \<longrightarrow> sys_file env (cache_file name i) \<noteq> None) \<longleftrightarrow>
        (\<forall>i. j + 1 \<le> i \<longrightarrow> i \<le> k \<longrightarrow> sys_file env (cache_file name i) \<noteq> None)"
      using Some by (metis Suc_eq_plus1 Suc_leD Suc_leI le_neq_implies_less option.distinct(1))
    with ih step Some show ?thesis by (cases "j = k") auto
  qed
qed

text \<open>
  if the walk over the processors succeeds, each of L1d, L1i, L2 and L3 has grown by the
  sum of the sizes in index 0, 1, 2 and 3 of the directories of processors; a processor
  counts for an index only if all smaller indices exist.
\<close>

theorem lscpu_cache_sums:
  assumes "cache_dirs env names c = Some (Sys_Ok c')" and "k < 4"
  shows "level k c' = level k c + sum_list (map (cache_size env k) (filter (is_cpu_dir env) names))"
  using assms(1)
proof (induction env names c rule: cache_dirs.induct)
  case (2 env name names c)
  show ?case
  proof (cases "is_cpu_dir env name")
    case True
    then obtain st where st: "cpu_name name" "sys_stat_of env (''/sys/devices/system/cpu/'' @ name) = Some st" "is_dir st"
      by (auto simp: is_cpu_dir_def split: option.splits)
    with "2.prems" obtain d where d: "cache_loop env name 0 c = Some d" "cache_dirs env names d = Some (Sys_Ok c')"
      by (auto split: bind_splits)
    have "level k d = level k c + cache_size env k name"
      using cache_loop_level [OF d(1) assms(2)] by (simp add: cache_size_def)
    moreover have "level k c' = level k d + sum_list (map (cache_size env k) (filter (is_cpu_dir env) names))"
      using st d by (intro "2.IH"(3)) auto
    ultimately show ?thesis using True by simp
  next
    case False
    with 2 show ?thesis by (auto simp: is_cpu_dir_def split: if_splits option.splits)
  qed
qed simp

definition lscpu_sys :: sys_env where
  "lscpu_sys =
     \<lparr>sys_file = map_of
        [(cache_file ''cpu0'' 0, ''32K''), (cache_file ''cpu0'' 1, ''16K''), (cache_file ''cpu1'' 0, ''8K'')],
      sys_stat_of = (\<lambda>_. Some \<lparr>is_dir = True, is_chr = False, sys_uid = 0, sys_rdev = 0\<rparr>),
      sys_list = (\<lambda>_. None), sys_access = (\<lambda>_. True), sys_link = (\<lambda>_. None), sys_pw = (\<lambda>_. None),
      hertz = 1, utmp_types = [], utc_offset = 0\<rparr>"

theorem lscpu_cache_sums_witness:
  "\<exists>c. cache_dirs lscpu_sys [''cpu0'', ''cpuidle'', ''cpu1''] init_cpu = Some (Sys_Ok c) \<and> level 0 c = 40 \<and> level 1 c = 16"
proof -
  let ?names = "[''cpu0'', ''cpuidle'', ''cpu1'']"
  have "case cache_dirs lscpu_sys ?names init_cpu of Some (Sys_Ok c) \<Rightarrow> True | _ \<Rightarrow> False" by code_simp
  then obtain c where c: "cache_dirs lscpu_sys ?names init_cpu = Some (Sys_Ok c)"
    by (auto split: option.splits sys_result.splits)
  have "sum_list (map (cache_size lscpu_sys 0) (filter (is_cpu_dir lscpu_sys) ?names)) = 40"
    "sum_list (map (cache_size lscpu_sys 1) (filter (is_cpu_dir lscpu_sys) ?names)) = 16"
    "level 0 init_cpu = 0" "level 1 init_cpu = 0" by code_simp+
  with lscpu_cache_sums [OF c, of 0] lscpu_cache_sums [OF c, of 1] c show ?thesis by auto
qed

end
