(* ===== verification/Sched_Task.thy ===== *)
theory Sched_Task
  imports Prelude "HOL-Library.Word"
begin

text \<open>
  The scheduler data of assignment 4 (a modified Linux kernel): the parts of \<open>task_struct\<close> and
  its components in \<open>sched.h\<close> that the modelled functions of \<open>core.c\<close> and \<open>stats.h\<close> use.
  Times are 64-bit words that wrap. Tasks are numbers, the store of the tasks is a function.
\<close>

type_synonym u64 = "64 word"

datatype uclamp_id = UCLAMP_MIN | UCLAMP_MAX

definition SCHED_CAPACITY_SCALE :: nat where
  "SCHED_CAPACITY_SCALE = 2 ^ 10"

record uclamp_se =
  se_value :: nat
  bucket_id :: nat
  active :: bool
  user_defined :: bool

record sched_info =
  pcount :: u64
  run_delay :: u64
  last_arrival :: u64
  last_queued :: u64

record load_weight =
  weight :: int
  inv_weight :: int

record sched_entity =
  load :: load_weight
  se_on_rq :: bool
  exec_start :: u64
  sum_exec_runtime :: u64
  vruntime :: u64
  prev_sum_exec_runtime :: u64
  nr_migrations :: u64

record sched_rt_entity =
  rt_timeout :: u64
  time_slice :: int
  rt_on_rq :: bool
  on_list :: bool

datatype sched_class = Stop_Class | Dl_Class | Rt_Class | Fair_Class | Idle_Class

record task =
  task_pid :: int
  state :: int
  on_rq :: int
  prio :: int
  static_prio :: int
  normal_prio :: int
  rt_priority :: int
  policy :: int
  sched_class :: sched_class
  se :: sched_entity
  rt :: sched_rt_entity
  sched_reset_on_fork :: bool
  mm :: bool
  uclamp_req :: "uclamp_id \<Rightarrow> uclamp_se"
  uclamp :: "uclamp_id \<Rightarrow> uclamp_se"
  info :: sched_info
  cpu_burst :: u64

definition TASK_RUNNING :: int where "TASK_RUNNING = 0"
definition TASK_DEAD :: int where "TASK_DEAD = 128"
definition TASK_NEW :: int where "TASK_NEW = 2048"

text \<open>The record of zeros that \<open>memset\<close> leaves.\<close>

definition zero_info :: sched_info where
  "zero_info = \<lparr>pcount = 0, run_delay = 0, last_arrival = 0, last_queued = 0\<rparr>"

text \<open>A task for the examples.\<close>

definition sample_task :: task where
  "sample_task =
     \<lparr>task_pid = 41, state = 0, on_rq = 0, prio = 120, static_prio = 120, normal_prio = 120, rt_priority = 0,
      policy = 0, sched_class = Fair_Class,
      se = \<lparr>load = \<lparr>weight = 1024, inv_weight = 4194304\<rparr>, se_on_rq = False, exec_start = 0, sum_exec_runtime = 0,
             vruntime = 0, prev_sum_exec_runtime = 0, nr_migrations = 0\<rparr>,
      rt = \<lparr>rt_timeout = 0, time_slice = 0, rt_on_rq = False, on_list = False\<rparr>,
      sched_reset_on_fork = False, mm = True,
      uclamp_req = (\<lambda>i. if i = UCLAMP_MIN
        then \<lparr>se_value = 0, bucket_id = 0, active = False, user_defined = False\<rparr>
        else \<lparr>se_value = 1024, bucket_id = 4, active = False, user_defined = False\<rparr>),
      uclamp = (\<lambda>_. \<lparr>se_value = 0, bucket_id = 0, active = False, user_defined = False\<rparr>),
      info = zero_info, cpu_burst = 0\<rparr>"

end
