(* ===== verification/Sched_Info.thy ===== *)
theory Sched_Info
  imports Sched_Task
begin

text \<open>
  \<open>stats.h\<close> of assignment 4, with the configuration options \<open>CONFIG_SCHEDSTATS\<close> and
  \<open>CONFIG_SCHED_INFO\<close>: how long a task waited and, what the assignment adds, how long it ran
  (\<open>cpu_burst\<close>), and the report of \<open>finish_task_switch\<close> for a task that has died. One processor
  with its clock and its tasks; \<open>on\<close> is \<open>sched_info_on()\<close>.
\<close>

record sched_cpu =
  clock :: u64
  rq_run_delay :: u64
  rq_pcount :: u64
  rq_cpu_time :: u64
  idle :: nat
  curr :: nat
  tasks :: "nat \<Rightarrow> task"

section \<open>The functions\<close>

definition upd_task :: "nat \<Rightarrow> (task \<Rightarrow> task) \<Rightarrow> sched_cpu \<Rightarrow> sched_cpu" where
  "upd_task t f c = c\<lparr>tasks := (tasks c)(t := f (tasks c t))\<rparr>"

definition rq_sched_info_arrive :: "u64 \<Rightarrow> sched_cpu \<Rightarrow> sched_cpu" where
  "rq_sched_info_arrive delta c = c\<lparr>rq_run_delay := rq_run_delay c + delta, rq_pcount := rq_pcount c + 1\<rparr>"

definition rq_sched_info_depart :: "u64 \<Rightarrow> sched_cpu \<Rightarrow> sched_cpu" where
  "rq_sched_info_depart delta c = c\<lparr>rq_cpu_time := rq_cpu_time c + delta\<rparr>"

definition rq_sched_info_dequeued :: "u64 \<Rightarrow> sched_cpu \<Rightarrow> sched_cpu" where
  "rq_sched_info_dequeued delta c = c\<lparr>rq_run_delay := rq_run_delay c + delta\<rparr>"

definition sched_info_reset_dequeued :: "task \<Rightarrow> task" where
  "sched_info_reset_dequeued p = p\<lparr>info := (info p)\<lparr>last_queued := 0\<rparr>\<rparr>"

definition waited :: "u64 \<Rightarrow> task \<Rightarrow> u64" where
  "waited now p = (if last_queued (info p) \<noteq> 0 then now - last_queued (info p) else 0)"

definition sched_info_dequeued :: "bool \<Rightarrow> nat \<Rightarrow> sched_cpu \<Rightarrow> sched_cpu" where
  "sched_info_dequeued on t c =
     (let delta = (if on then waited (clock c) (tasks c t) else 0) in
      rq_sched_info_dequeued delta
        (upd_task t (\<lambda>p. let q = sched_info_reset_dequeued p
                         in q\<lparr>info := (info q)\<lparr>run_delay := run_delay (info q) + delta\<rparr>\<rparr>) c))"

definition sched_info_arrive :: "nat \<Rightarrow> sched_cpu \<Rightarrow> sched_cpu" where
  "sched_info_arrive t c =
     (let delta = waited (clock c) (tasks c t) in
      rq_sched_info_arrive delta
        (upd_task t (\<lambda>p. let q = sched_info_reset_dequeued p
                         in q\<lparr>info := (info q)\<lparr>run_delay := run_delay (info q) + delta,
                              last_arrival := clock c, pcount := pcount (info q) + 1\<rparr>\<rparr>) c))"

definition sched_info_queued :: "bool \<Rightarrow> nat \<Rightarrow> sched_cpu \<Rightarrow> sched_cpu" where
  "sched_info_queued on t c =
     (if on \<and> last_queued (info (tasks c t)) = 0
      then upd_task t (\<lambda>p. p\<lparr>info := (info p)\<lparr>last_queued := clock c\<rparr>\<rparr>) c
      else c)"

definition sched_info_depart :: "bool \<Rightarrow> nat \<Rightarrow> sched_cpu \<Rightarrow> sched_cpu" where
  "sched_info_depart on t c =
     (let delta = clock c - last_arrival (info (tasks c t));
          c' = rq_sched_info_depart delta (upd_task t (\<lambda>p. p\<lparr>cpu_burst := cpu_burst p + delta\<rparr>) c)
      in if state (tasks c' t) = TASK_RUNNING then sched_info_queued on t c' else c')"

definition sched_info_switch_raw :: "bool \<Rightarrow> nat \<Rightarrow> nat \<Rightarrow> sched_cpu \<Rightarrow> sched_cpu" where
  "sched_info_switch_raw on prev next c =
     (let c' = (if prev \<noteq> idle c then sched_info_depart on prev c else c)
      in if next \<noteq> idle c' then sched_info_arrive next c' else c')"

definition sched_info_switch :: "bool \<Rightarrow> nat \<Rightarrow> nat \<Rightarrow> sched_cpu \<Rightarrow> sched_cpu" where
  "sched_info_switch on prev next c = (if on then sched_info_switch_raw on prev next c else c)"

text \<open>
  The switch from the current task: \<open>prepare_task_switch\<close>, the change of the current task, and
  the report of \<open>finish_task_switch\<close>.
\<close>

definition task_dead_report :: "task \<Rightarrow> (int \<times> u64) list" where
  "task_dead_report prev = (if state prev = TASK_DEAD then [(task_pid prev, cpu_burst prev)] else [])"

definition switch_to :: "bool \<Rightarrow> nat \<Rightarrow> sched_cpu \<Rightarrow> sched_cpu \<times> (int \<times> u64) list" where
  "switch_to on next c =
     (if next = curr c then (c, [])
      else let prev = curr c; c' = (sched_info_switch on prev next c)\<lparr>curr := next\<rparr>
           in (c', task_dead_report (tasks c' prev)))"

text \<open>What \<open>sched_fork\<close> does to the accounting of a new task.\<close>

definition fork_info :: "bool \<Rightarrow> task \<Rightarrow> task" where
  "fork_info on p = (let q = p\<lparr>cpu_burst := 0\<rparr> in if on then q\<lparr>info := zero_info\<rparr> else q)"

section \<open>Histories\<close>

text \<open>
  What happens on the processor: time passes, a task is queued or dequeued, changes its state,
  is created, or becomes the current task.
\<close>

datatype sched_event =
  Pass nat | Enqueue nat | Dequeue nat | Set_State nat int | Fork nat | Switch nat

definition sched_step :: "bool \<Rightarrow> sched_event \<Rightarrow> sched_cpu \<Rightarrow> sched_cpu \<times> (int \<times> u64) list" where
  "sched_step on e c =
     (case e of
        Pass d \<Rightarrow> (c\<lparr>clock := clock c + of_nat d\<rparr>, [])
      | Enqueue t \<Rightarrow> (sched_info_queued on t c, [])
      | Dequeue t \<Rightarrow> (sched_info_dequeued on t c, [])
      | Set_State t s \<Rightarrow> (upd_task t (\<lambda>p. p\<lparr>state := s\<rparr>) c, [])
      | Fork t \<Rightarrow> (upd_task t (fork_info on) c, [])
      | Switch t \<Rightarrow> switch_to on t c)"

fun sched_run :: "bool \<Rightarrow> sched_event list \<Rightarrow> sched_cpu \<Rightarrow> sched_cpu \<times> (int \<times> u64) list" where
  "sched_run on [] c = (c, [])"
| "sched_run on (e # es) c =
     (let (c', out) = sched_step on e c; (c'', out') = sched_run on es c' in (c'', out @ out'))"

text \<open>
  The specification: the time for which a task has been the current one since its creation,
  and the time for which the processor was not idle.
\<close>

record cpu_spec =
  spec_curr :: nat
  ran :: "nat \<Rightarrow> nat"
  busy :: nat

definition spec_step :: "nat \<Rightarrow> sched_event \<Rightarrow> cpu_spec \<Rightarrow> cpu_spec" where
  "spec_step idle_task e g =
     (case e of
        Pass d \<Rightarrow>
          if spec_curr g = idle_task then g
          else g\<lparr>ran := (ran g)(spec_curr g := ran g (spec_curr g) + d), busy := busy g + d\<rparr>
      | Fork t \<Rightarrow> g\<lparr>ran := (ran g)(t := 0)\<rparr>
      | Switch t \<Rightarrow> g\<lparr>spec_curr := t\<rparr>
      | _ \<Rightarrow> g)"

definition spec_run :: "nat \<Rightarrow> sched_event list \<Rightarrow> cpu_spec \<Rightarrow> cpu_spec" where
  "spec_run idle_task es g = fold (spec_step idle_task) es g"

text \<open>A task is not created while it runs.\<close>

fun events_ok :: "nat \<Rightarrow> sched_event list \<Rightarrow> bool" where
  "events_ok now [] = True"
| "events_ok now (Fork t # es) = (t \<noteq> now \<and> events_ok now es)"
| "events_ok now (Switch t # es) = events_ok t es"
| "events_ok now (_ # es) = events_ok now es"

section \<open>The refinement\<close>

text \<open>The time of a task so far: what is stored, and for the current task what is still running.\<close>

definition burst_so_far :: "sched_cpu \<Rightarrow> nat \<Rightarrow> u64" where
  "burst_so_far c t =
     cpu_burst (tasks c t) + (if t = curr c then clock c - last_arrival (info (tasks c t)) else 0)"

definition burst_inv :: "sched_cpu \<Rightarrow> cpu_spec \<Rightarrow> bool" where
  "burst_inv c g \<longleftrightarrow>
     spec_curr g = curr c \<and>
     (\<forall>t. t \<noteq> idle c \<longrightarrow> burst_so_far c t = of_nat (ran g t)) \<and>
     rq_cpu_time c + (if curr c = idle c then 0 else clock c - last_arrival (info (tasks c (curr c)))) =
       of_nat (busy g)"

named_theorems info_defs \<open>definitions of the accounting functions\<close>

lemmas [info_defs] = upd_task_def rq_sched_info_arrive_def rq_sched_info_depart_def
  rq_sched_info_dequeued_def sched_info_reset_dequeued_def sched_info_queued_def
  sched_info_dequeued_def sched_info_arrive_def sched_info_depart_def Let_def

lemma queued_frame:
  "clock (sched_info_queued on t c) = clock c" "idle (sched_info_queued on t c) = idle c"
  "curr (sched_info_queued on t c) = curr c" "rq_cpu_time (sched_info_queued on t c) = rq_cpu_time c"
  "cpu_burst (tasks (sched_info_queued on t c) u) = cpu_burst (tasks c u)"
  "last_arrival (info (tasks (sched_info_queued on t c) u)) = last_arrival (info (tasks c u))"
  by (auto simp: info_defs)

lemma dequeued_frame:
  "clock (sched_info_dequeued on t c) = clock c" "idle (sched_info_dequeued on t c) = idle c"
  "curr (sched_info_dequeued on t c) = curr c" "rq_cpu_time (sched_info_dequeued on t c) = rq_cpu_time c"
  "cpu_burst (tasks (sched_info_dequeued on t c) u) = cpu_burst (tasks c u)"
  "last_arrival (info (tasks (sched_info_dequeued on t c) u)) = last_arrival (info (tasks c u))"
  by (auto simp: info_defs)

lemma arrive_frame:
  "clock (sched_info_arrive t c) = clock c" "idle (sched_info_arrive t c) = idle c"
  "curr (sched_info_arrive t c) = curr c" "rq_cpu_time (sched_info_arrive t c) = rq_cpu_time c"
  "cpu_burst (tasks (sched_info_arrive t c) u) = cpu_burst (tasks c u)"
  "last_arrival (info (tasks (sched_info_arrive t c) u)) =
     (if u = t then clock c else last_arrival (info (tasks c u)))"
  by (auto simp: info_defs)

lemma depart_frame:
  "clock (sched_info_depart on t c) = clock c" "idle (sched_info_depart on t c) = idle c"
  "curr (sched_info_depart on t c) = curr c"
  "rq_cpu_time (sched_info_depart on t c) = rq_cpu_time c + (clock c - last_arrival (info (tasks c t)))"
  "cpu_burst (tasks (sched_info_depart on t c) u) =
     (if u = t then cpu_burst (tasks c t) + (clock c - last_arrival (info (tasks c t))) else cpu_burst (tasks c u))"
  "last_arrival (info (tasks (sched_info_depart on t c) u)) = last_arrival (info (tasks c u))"
  by (auto simp: info_defs)

lemmas info_frames = queued_frame dequeued_frame arrive_frame depart_frame

lemma switch_frame:
  assumes "prev \<noteq> next"
  shows "clock (sched_info_switch True prev next c) = clock c" "idle (sched_info_switch True prev next c) = idle c"
    "curr (sched_info_switch True prev next c) = curr c"
    "rq_cpu_time (sched_info_switch True prev next c) =
       rq_cpu_time c + (if prev = idle c then 0 else clock c - last_arrival (info (tasks c prev)))"
    "cpu_burst (tasks (sched_info_switch True prev next c) u) = cpu_burst (tasks c u) +
       (if u = prev \<and> prev \<noteq> idle c then clock c - last_arrival (info (tasks c prev)) else 0)"
    "last_arrival (info (tasks (sched_info_switch True prev next c) u)) =
       (if u = next \<and> next \<noteq> idle c then clock c else last_arrival (info (tasks c u)))"
  using assms by (auto simp: sched_info_switch_def sched_info_switch_raw_def Let_def info_frames)

lemma burst_inv_step:
  assumes "burst_inv c g" and "events_ok (curr c) (e # es)"
  shows "burst_inv (fst (sched_step True e c)) (spec_step (idle c) e g) \<and>
    idle (fst (sched_step True e c)) = idle c \<and> events_ok (curr (fst (sched_step True e c))) es"
proof (cases e)
  case (Pass d)
  then show ?thesis
    using assms by (auto simp: sched_step_def spec_step_def burst_inv_def burst_so_far_def algebra_simps)
next
  case (Enqueue t)
  then show ?thesis
    using assms by (auto simp: sched_step_def spec_step_def burst_inv_def burst_so_far_def info_frames)
next
  case (Dequeue t)
  then show ?thesis
    using assms by (auto simp: sched_step_def spec_step_def burst_inv_def burst_so_far_def info_frames)
next
  case (Set_State t s)
  then show ?thesis
    using assms by (auto simp: sched_step_def spec_step_def burst_inv_def burst_so_far_def upd_task_def)
next
  case (Fork t)
  then show ?thesis
    using assms by (auto simp: sched_step_def spec_step_def burst_inv_def burst_so_far_def upd_task_def fork_info_def)
next
  case (Switch t)
  show ?thesis
  proof (cases "t = curr c")
    case True
    with Switch assms show ?thesis
      by (auto simp: sched_step_def spec_step_def switch_to_def burst_inv_def)
  next
    case False
    have "cpu_burst (tasks c (curr c)) + (clock c - last_arrival (info (tasks c (curr c)))) = of_nat (ran g (curr c))"
      if "curr c \<noteq> idle c"
      using assms(1) that by (auto simp: burst_inv_def burst_so_far_def)
    then show ?thesis
      using assms Switch False switch_frame [of "curr c" t c]
      by (auto simp: sched_step_def spec_step_def switch_to_def burst_inv_def burst_so_far_def Let_def)
  qed
qed

lemma burst_inv_run:
  assumes "burst_inv c g" and "events_ok (curr c) es"
  shows "burst_inv (fst (sched_run True es c)) (spec_run (idle c) es g) \<and> idle (fst (sched_run True es c)) = idle c"
  using assms
proof (induction es arbitrary: c g)
  case Nil
  then show ?case by (simp add: spec_run_def)
next
  case (Cons e es)
  note step = burst_inv_step [OF Cons.prems]
  then show ?case
    using Cons.IH [of "fst (sched_step True e c)" "spec_step (idle c) e g"]
    by (auto simp: spec_run_def split: prod.splits)
qed

lemma events_ok_prefix: "events_ok now (es @ es') \<Longrightarrow> events_ok now es"
  by (induction now es rule: events_ok.induct) auto

lemma cpu_burst_after_switch:
  assumes "burst_inv c g" and "curr c \<noteq> idle c" and "t \<noteq> curr c"
  shows "cpu_burst (tasks (fst (switch_to True t c)) (curr c)) = of_nat (ran g (curr c))"
  using assms switch_frame [of "curr c" t c] by (auto simp: switch_to_def Let_def burst_inv_def burst_so_far_def)

text \<open>
  C18. On an idle processor whose tasks have not run, after every history the stored
  \<open>cpu_burst\<close> of a task that is not running is the time it has been the current task since its
  creation, modulo \<open>2 ^ 64\<close>, and the processor time of the run queue is the time it was not
  idle; and a task that has died is reported with exactly that time when another task is
  switched to.
\<close>

theorem cpu_burst_is_run_time:
  assumes "curr c = idle c" and "\<forall>t. cpu_burst (tasks c t) = 0" and "rq_cpu_time c = 0"
    and "events_ok (idle c) (es @ [Switch t])"
  shows "let c' = fst (sched_run True es c);
             g = spec_run (idle c) es \<lparr>spec_curr = idle c, ran = (\<lambda>_. 0), busy = 0\<rparr>
         in spec_curr g = curr c' \<and>
            (\<forall>u. u \<noteq> idle c \<and> u \<noteq> curr c' \<longrightarrow> cpu_burst (tasks c' u) = of_nat (ran g u)) \<and>
            (curr c' = idle c \<longrightarrow> rq_cpu_time c' = of_nat (busy g)) \<and>
            (curr c' \<noteq> idle c \<and> curr c' \<noteq> t \<and> state (tasks (fst (switch_to True t c')) (curr c')) = TASK_DEAD \<longrightarrow>
             snd (switch_to True t c') =
               [(task_pid (tasks (fst (switch_to True t c')) (curr c')), of_nat (ran g (curr c')))])"
proof -
  let ?g0 = "\<lparr>spec_curr = idle c, ran = (\<lambda>_. 0), busy = 0\<rparr>"
  define c' where "c' = fst (sched_run True es c)"
  define g where "g = spec_run (idle c) es ?g0"
  have "burst_inv c ?g0" using assms(1-3) by (auto simp: burst_inv_def burst_so_far_def)
  moreover have "events_ok (curr c) es" using events_ok_prefix assms(1,4) by simp
  ultimately have inv: "burst_inv c' g" "idle c' = idle c"
    using burst_inv_run [of c ?g0 es] by (auto simp: c'_def g_def)
  have dead: "snd (switch_to True t c') = [(task_pid (tasks (fst (switch_to True t c')) (curr c')), of_nat (ran g (curr c')))]"
    if "curr c' \<noteq> idle c" "curr c' \<noteq> t" "state (tasks (fst (switch_to True t c')) (curr c')) = TASK_DEAD"
    using that cpu_burst_after_switch [OF inv(1), of t] inv(2)
    by (auto simp: switch_to_def Let_def task_dead_report_def)
  show ?thesis
    using inv dead unfolding c'_def [symmetric] g_def [symmetric] Let_def
    by (auto simp: burst_inv_def burst_so_far_def)
qed

text \<open>A history in which task 1 runs for 5 units, is preempted by task 2, and dies after 2 more.\<close>

definition sample_cpu :: sched_cpu where
  "sample_cpu =
     \<lparr>clock = 100, rq_run_delay = 0, rq_pcount = 0, rq_cpu_time = 0, idle = 0, curr = 0, tasks = (\<lambda>_. sample_task)\<rparr>"

definition sample_history :: "sched_event list" where
  "sample_history = [Fork 1, Enqueue 1, Pass 3, Switch 1, Pass 5, Switch 2, Pass 4, Switch 1, Pass 2, Set_State 1 128]"

theorem cpu_burst_is_run_time_witness:
  "snd (switch_to True 0 (fst (sched_run True sample_history sample_cpu))) = [(41, 7)]"
proof -
  have h: "curr sample_cpu = idle sample_cpu" "\<forall>t. cpu_burst (tasks sample_cpu t) = 0" "rq_cpu_time sample_cpu = 0"
    "events_ok (idle sample_cpu) (sample_history @ [Switch 0])"
    by (simp_all add: sample_cpu_def sample_task_def sample_history_def)
  let ?c = "fst (sched_run True sample_history sample_cpu)"
  let ?g = "spec_run 0 sample_history \<lparr>spec_curr = 0, ran = (\<lambda>_. 0), busy = 0\<rparr>"
  have g: "spec_curr ?g = 1" "ran ?g 1 = 7" by (simp_all add: spec_run_def spec_step_def sample_history_def)
  have "curr ?c = 1" "state (tasks (fst (switch_to True 0 ?c)) 1) = TASK_DEAD"
    "task_pid (tasks (fst (switch_to True 0 ?c)) 1) = 41"
    by code_simp+
  with cpu_burst_is_run_time [OF h] g show ?thesis by (simp add: sample_cpu_def Let_def)
qed

end
