(* ===== verification/Uclamp.thy ===== *)
theory Uclamp
  imports Sched_Task
begin

text \<open>
  Utilization clamping, \<open>core.c\<close> of assignment 4: the requested and the effective clamp of a
  task, and the buckets of a run queue that count the runnable tasks and give the clamp of the
  run queue. The number of buckets is a configuration option, the clamps of the group of a task
  and the classes that use clamps are outside the sources; they are fields of \<open>uclamp_sys\<close>.
  Counters of tasks do not wrap. An access outside the buckets is \<open>None\<close>.
\<close>

record uclamp_bucket =
  b_value :: nat
  b_tasks :: nat

record uclamp_rq =
  rq_value :: nat
  bucket :: "uclamp_bucket list"

record clamp_rq =
  rq_uclamp :: "uclamp_id \<Rightarrow> uclamp_rq"
  flag_idle :: bool

record uclamp_sys =
  buckets :: nat
  util_min :: nat
  util_max :: nat
  util_min_rt_default :: nat
  uclamp_default :: "uclamp_id \<Rightarrow> uclamp_se"
  uclamp_used :: bool
  uclamp_enabled :: "sched_class \<Rightarrow> bool"
  group_clamp :: "int \<Rightarrow> (uclamp_id \<Rightarrow> uclamp_se) option"

section \<open>Clamp values\<close>

text \<open>\<open>DIV_ROUND_CLOSEST(SCHED_CAPACITY_SCALE, UCLAMP_BUCKETS)\<close>.\<close>

definition bucket_delta :: "nat \<Rightarrow> nat" where
  "bucket_delta n = (SCHED_CAPACITY_SCALE + n div 2) div n"

definition uclamp_bucket_id :: "nat \<Rightarrow> nat \<Rightarrow> nat" where
  "uclamp_bucket_id n v = min (v div bucket_delta n) (n - 1)"

definition uclamp_none :: "uclamp_id \<Rightarrow> nat" where
  "uclamp_none clamp_id = (if clamp_id = UCLAMP_MIN then 0 else SCHED_CAPACITY_SCALE)"

text \<open>The value is a bit field of \<open>bits_per(SCHED_CAPACITY_SCALE)\<close>, that is 11 bits.\<close>

definition uclamp_se_set :: "nat \<Rightarrow> nat \<Rightarrow> bool \<Rightarrow> uclamp_se \<Rightarrow> uclamp_se" where
  "uclamp_se_set n v user s = s\<lparr>se_value := v mod 2 ^ 11, bucket_id := uclamp_bucket_id n v, user_defined := user\<rparr>"

definition uclamp_tg_restrict :: "uclamp_sys \<Rightarrow> task \<Rightarrow> uclamp_id \<Rightarrow> uclamp_se" where
  "uclamp_tg_restrict sys p clamp_id =
     (let uc_req = uclamp_req p clamp_id in
      case group_clamp sys (task_pid p) of
        None \<Rightarrow> uc_req
      | Some tg \<Rightarrow>
          let uc_max = tg clamp_id in
          if se_value uc_req > se_value uc_max \<or> \<not> user_defined uc_req then uc_max else uc_req)"

definition uclamp_eff_get :: "uclamp_sys \<Rightarrow> task \<Rightarrow> uclamp_id \<Rightarrow> uclamp_se" where
  "uclamp_eff_get sys p clamp_id =
     (let uc_req = uclamp_tg_restrict sys p clamp_id; uc_max = uclamp_default sys clamp_id
      in if se_value uc_req > se_value uc_max then uc_max else uc_req)"

definition uclamp_eff_value :: "uclamp_sys \<Rightarrow> task \<Rightarrow> uclamp_id \<Rightarrow> nat" where
  "uclamp_eff_value sys p clamp_id =
     (if active (uclamp p clamp_id) then se_value (uclamp p clamp_id)
      else se_value (uclamp_eff_get sys p clamp_id))"

section \<open>The run queue\<close>

definition set_rq_value :: "uclamp_id \<Rightarrow> nat \<Rightarrow> clamp_rq \<Rightarrow> clamp_rq" where
  "set_rq_value clamp_id v rq =
     rq\<lparr>rq_uclamp := (rq_uclamp rq)(clamp_id := (rq_uclamp rq clamp_id)\<lparr>rq_value := v\<rparr>)\<rparr>"

definition set_buckets :: "uclamp_id \<Rightarrow> uclamp_bucket list \<Rightarrow> clamp_rq \<Rightarrow> clamp_rq" where
  "set_buckets clamp_id bs rq =
     rq\<lparr>rq_uclamp := (rq_uclamp rq)(clamp_id := (rq_uclamp rq clamp_id)\<lparr>bucket := bs\<rparr>)\<rparr>"

definition set_se :: "uclamp_id \<Rightarrow> uclamp_se \<Rightarrow> task \<Rightarrow> task" where
  "set_se clamp_id s p = p\<lparr>uclamp := (uclamp p)(clamp_id := s)\<rparr>"

definition uclamp_idle_value :: "uclamp_id \<Rightarrow> nat \<Rightarrow> clamp_rq \<Rightarrow> clamp_rq \<times> nat" where
  "uclamp_idle_value clamp_id v rq =
     (if clamp_id = UCLAMP_MAX then (rq\<lparr>flag_idle := True\<rparr>, v) else (rq, uclamp_none UCLAMP_MIN))"

definition uclamp_idle_reset :: "uclamp_id \<Rightarrow> nat \<Rightarrow> clamp_rq \<Rightarrow> clamp_rq" where
  "uclamp_idle_reset clamp_id v rq = (if \<not> flag_idle rq then rq else set_rq_value clamp_id v rq)"

text \<open>The search for the topmost bucket with tasks, from bucket \<open>k - 1\<close> down.\<close>

fun top_bucket :: "uclamp_bucket list \<Rightarrow> nat \<Rightarrow> nat option" where
  "top_bucket bs 0 = None"
| "top_bucket bs (Suc k) = (if b_tasks (bs ! k) = 0 then top_bucket bs k else Some (b_value (bs ! k)))"

definition uclamp_rq_max_value :: "uclamp_id \<Rightarrow> nat \<Rightarrow> clamp_rq \<Rightarrow> clamp_rq \<times> nat" where
  "uclamp_rq_max_value clamp_id v rq =
     (let bs = bucket (rq_uclamp rq clamp_id) in
      case top_bucket bs (length bs) of
        Some x \<Rightarrow> (rq, x)
      | None \<Rightarrow> uclamp_idle_value clamp_id v rq)"

definition uclamp_rq_inc_id :: "uclamp_sys \<Rightarrow> uclamp_id \<Rightarrow> clamp_rq \<times> task \<Rightarrow> (clamp_rq \<times> task) option" where
  "uclamp_rq_inc_id sys clamp_id s =
     (case s of (rq, p) \<Rightarrow>
        let uc_se = (uclamp_eff_get sys p clamp_id)\<lparr>active := True\<rparr>; v = se_value uc_se;
            bs = bucket (rq_uclamp rq clamp_id)
        in do {
          b \<leftarrow> rd bs (bucket_id uc_se);
          let tasks1 = b_tasks b + 1;
          let value1 = (if tasks1 = 1 \<or> v > b_value b then v else b_value b);
          bs' \<leftarrow> wr bs (bucket_id uc_se) \<lparr>b_value = value1, b_tasks = tasks1\<rparr>;
          let rq1 = uclamp_idle_reset clamp_id v (set_buckets clamp_id bs' rq);
          let rq2 = (if v > rq_value (rq_uclamp rq1 clamp_id) then set_rq_value clamp_id v rq1 else rq1);
          Some (rq2, set_se clamp_id uc_se p) })"

definition uclamp_rq_dec_id :: "uclamp_id \<Rightarrow> clamp_rq \<times> task \<Rightarrow> (clamp_rq \<times> task) option" where
  "uclamp_rq_dec_id clamp_id s =
     (case s of (rq, p) \<Rightarrow>
        let uc_se = uclamp p clamp_id; bs = bucket (rq_uclamp rq clamp_id) in
        if \<not> active uc_se then Some (rq, p)
        else do {
          b \<leftarrow> rd bs (bucket_id uc_se);
          let b' = b\<lparr>b_tasks := (if b_tasks b \<noteq> 0 then b_tasks b - 1 else 0)\<rparr>;
          bs' \<leftarrow> wr bs (bucket_id uc_se) b';
          let rq1 = set_buckets clamp_id bs' rq;
          let p1 = set_se clamp_id (uc_se\<lparr>active := False\<rparr>) p;
          if b_tasks b' \<noteq> 0 then Some (rq1, p1)
          else if b_value b' \<ge> rq_value (rq_uclamp rq1 clamp_id)
          then (case uclamp_rq_max_value clamp_id (se_value uc_se) rq1 of
                  (rq2, v) \<Rightarrow> Some (set_rq_value clamp_id v rq2, p1))
          else Some (rq1, p1) })"

definition uclamp_rq_inc :: "uclamp_sys \<Rightarrow> clamp_rq \<times> task \<Rightarrow> (clamp_rq \<times> task) option" where
  "uclamp_rq_inc sys s =
     (if \<not> uclamp_used sys \<or> \<not> uclamp_enabled sys (sched_class (snd s)) then Some s
      else do {
        s \<leftarrow> uclamp_rq_inc_id sys UCLAMP_MIN s;
        (rq, p) \<leftarrow> uclamp_rq_inc_id sys UCLAMP_MAX s;
        Some (rq\<lparr>flag_idle := False\<rparr>, p) })"

definition uclamp_rq_dec :: "uclamp_sys \<Rightarrow> clamp_rq \<times> task \<Rightarrow> (clamp_rq \<times> task) option" where
  "uclamp_rq_dec sys s =
     (if \<not> uclamp_used sys \<or> \<not> uclamp_enabled sys (sched_class (snd s)) then Some s
      else do {
        s \<leftarrow> uclamp_rq_dec_id UCLAMP_MIN s;
        uclamp_rq_dec_id UCLAMP_MAX s })"

definition uclamp_update_active :: "uclamp_sys \<Rightarrow> uclamp_id \<Rightarrow> clamp_rq \<times> task \<Rightarrow> (clamp_rq \<times> task) option" where
  "uclamp_update_active sys clamp_id s =
     (if active (uclamp (snd s) clamp_id)
      then do { s \<leftarrow> uclamp_rq_dec_id clamp_id s; uclamp_rq_inc_id sys clamp_id s }
      else Some s)"

definition init_uclamp_rq :: "nat \<Rightarrow> clamp_rq" where
  "init_uclamp_rq n =
     \<lparr>rq_uclamp = (\<lambda>clamp_id. \<lparr>rq_value = uclamp_none clamp_id, bucket = replicate n \<lparr>b_value = 0, b_tasks = 0\<rparr>\<rparr>),
      flag_idle = False\<rparr>"

section \<open>Requests\<close>

definition set_req :: "uclamp_id \<Rightarrow> uclamp_se \<Rightarrow> task \<Rightarrow> task" where
  "set_req clamp_id s p = p\<lparr>uclamp_req := (uclamp_req p)(clamp_id := s)\<rparr>"

text \<open>\<open>rt_task\<close> is outside the sources.\<close>

definition uclamp_update_util_min_rt_default_raw :: "uclamp_sys \<Rightarrow> task \<Rightarrow> task" where
  "uclamp_update_util_min_rt_default_raw sys p =
     (let uc_se = uclamp_req p UCLAMP_MIN in
      if user_defined uc_se then p
      else set_req UCLAMP_MIN (uclamp_se_set (buckets sys) (util_min_rt_default sys) False uc_se) p)"

definition uclamp_update_util_min_rt_default :: "(task \<Rightarrow> bool) \<Rightarrow> uclamp_sys \<Rightarrow> task \<Rightarrow> task" where
  "uclamp_update_util_min_rt_default rt_task sys p =
     (if \<not> rt_task p then p else uclamp_update_util_min_rt_default_raw sys p)"

definition uclamp_post_fork :: "(task \<Rightarrow> bool) \<Rightarrow> uclamp_sys \<Rightarrow> task \<Rightarrow> task" where
  "uclamp_post_fork rt_task sys p = uclamp_update_util_min_rt_default rt_task sys p"

definition uclamp_fork :: "nat \<Rightarrow> task \<Rightarrow> task" where
  "uclamp_fork n p =
     (let p1 = p\<lparr>uclamp := (\<lambda>i. (uclamp p i)\<lparr>active := False\<rparr>)\<rparr> in
      if \<not> sched_reset_on_fork p1 then p1
      else p1\<lparr>uclamp_req := (\<lambda>i. uclamp_se_set n (uclamp_none i) False (uclamp_req p1 i))\<rparr>)"

text \<open>
  The parts of \<open>sched_attr\<close> that concern clamps: the flags for the two values, and the values
  as \<open>int\<close>, where \<open>-1\<close> asks for a reset. The comparison with the scale is signed, since the
  scale is a \<open>long\<close>. \<open>uclamp_validate\<close> is \<open>None\<close> for \<open>-EINVAL\<close>.
\<close>

record clamp_attr =
  flag_min :: bool
  flag_max :: bool
  attr_util_min :: int
  attr_util_max :: int

definition uclamp_validate :: "uclamp_sys \<Rightarrow> task \<Rightarrow> clamp_attr \<Rightarrow> uclamp_sys option" where
  "uclamp_validate sys p attr =
     (let lo = (if flag_min attr then attr_util_min attr else int (se_value (uclamp_req p UCLAMP_MIN)));
          hi = (if flag_max attr then attr_util_max attr else int (se_value (uclamp_req p UCLAMP_MAX)))
      in if flag_min attr \<and> wrap32 (lo + 1) > int SCHED_CAPACITY_SCALE + 1 then None
         else if flag_max attr \<and> wrap32 (hi + 1) > int SCHED_CAPACITY_SCALE + 1 then None
         else if lo \<noteq> - 1 \<and> hi \<noteq> - 1 \<and> lo > hi then None
         else Some (sys\<lparr>uclamp_used := True\<rparr>))"

definition uclamp_reset :: "clamp_attr \<Rightarrow> uclamp_id \<Rightarrow> uclamp_se \<Rightarrow> bool" where
  "uclamp_reset attr clamp_id uc_se \<longleftrightarrow>
     (\<not> (flag_min attr \<or> flag_max attr) \<and> \<not> user_defined uc_se) \<or>
     (clamp_id = UCLAMP_MIN \<and> flag_min attr \<and> attr_util_min attr = - 1) \<or>
     (clamp_id = UCLAMP_MAX \<and> flag_max attr \<and> attr_util_max attr = - 1)"

definition reset_clamp :: "(task \<Rightarrow> bool) \<Rightarrow> uclamp_sys \<Rightarrow> clamp_attr \<Rightarrow> uclamp_id \<Rightarrow> task \<Rightarrow> task" where
  "reset_clamp rt_task sys attr clamp_id p =
     (let uc_se = uclamp_req p clamp_id in
      if \<not> uclamp_reset attr clamp_id uc_se then p
      else let v = (if rt_task p \<and> clamp_id = UCLAMP_MIN then util_min_rt_default sys else uclamp_none clamp_id)
           in set_req clamp_id (uclamp_se_set (buckets sys) v False uc_se) p)"

definition setscheduler_uclamp :: "(task \<Rightarrow> bool) \<Rightarrow> uclamp_sys \<Rightarrow> clamp_attr \<Rightarrow> task \<Rightarrow> task" where
  "setscheduler_uclamp rt_task sys attr p =
     (let p1 = reset_clamp rt_task sys attr UCLAMP_MAX (reset_clamp rt_task sys attr UCLAMP_MIN p) in
      if \<not> (flag_min attr \<or> flag_max attr) then p1
      else let p2 = (if flag_min attr \<and> attr_util_min attr \<noteq> - 1
                     then set_req UCLAMP_MIN (uclamp_se_set (buckets sys) (nat (attr_util_min attr mod 2 ^ 32)) True (uclamp_req p1 UCLAMP_MIN)) p1
                     else p1)
           in if flag_max attr \<and> attr_util_max attr \<noteq> - 1
              then set_req UCLAMP_MAX (uclamp_se_set (buckets sys) (nat (attr_util_max attr mod 2 ^ 32)) True (uclamp_req p2 UCLAMP_MAX)) p2
              else p2)"

text \<open>
  \<open>sysctl_sched_uclamp_handler\<close> without task groups, for a write that \<open>proc_dointvec\<close>
  accepts: it stores the three new values; either they are valid and become the defaults, or
  the old ones are restored.
\<close>

definition sysctl_sched_uclamp_handler ::
    "(task \<Rightarrow> bool) \<Rightarrow> nat \<times> nat \<times> nat \<Rightarrow> uclamp_sys \<times> task list \<Rightarrow> bool \<times> uclamp_sys \<times> task list" where
  "sysctl_sched_uclamp_handler rt_task new s =
     (case (new, s) of ((lo, hi, lo_rt), (sys, ts)) \<Rightarrow>
        if lo > hi \<or> hi > SCHED_CAPACITY_SCALE \<or> lo_rt > SCHED_CAPACITY_SCALE then (False, sys, ts)
        else let sys1 = sys\<lparr>util_min := lo, util_max := hi, util_min_rt_default := lo_rt\<rparr>;
                 d = uclamp_default sys1;
                 d1 = (if lo \<noteq> util_min sys then d(UCLAMP_MIN := uclamp_se_set (buckets sys) lo False (d UCLAMP_MIN)) else d);
                 d2 = (if hi \<noteq> util_max sys then d1(UCLAMP_MAX := uclamp_se_set (buckets sys) hi False (d1 UCLAMP_MAX)) else d1);
                 changed = (lo \<noteq> util_min sys \<or> hi \<noteq> util_max sys \<or> lo_rt \<noteq> util_min_rt_default sys);
                 sys2 = sys1\<lparr>uclamp_default := d2, uclamp_used := (uclamp_used sys \<or> changed)\<rparr>
             in (True, sys2,
                 if lo_rt \<noteq> util_min_rt_default sys
                 then map (uclamp_update_util_min_rt_default rt_task sys2) ts else ts))"

end
