(* ===== verification/Sched_Prio.thy ===== *)
theory Sched_Prio
  imports Uclamp
begin

text \<open>
  Priorities and policies, \<open>core.c\<close> of assignment 4: the weight of a task, \<open>sched_fork\<close>, nice
  values and the \<open>sched_setscheduler\<close> family, as they change the task. The assignment makes
  every new task and every \<open>sched_setscheduler\<close> a \<open>SCHED_FIFO\<close> one. The constants and inline
  functions of headers that are not among the sources are the fields of \<open>sched_hdr\<close>. Run
  queues, locks, class call-backs and the trace of the change are left out; without concurrent
  changes the recheck of \<open>__sched_setscheduler\<close> is never taken.
\<close>

record sched_hdr =
  MAX_DL_PRIO :: int
  MAX_RT_PRIO :: int
  MAX_USER_RT_PRIO :: int
  MIN_NICE :: int
  MAX_NICE :: int
  NICE_WIDTH :: int
  SCHED_NORMAL :: int
  SCHED_FIFO :: int
  nice_to_prio :: "int \<Rightarrow> int"
  prio_to_nice :: "int \<Rightarrow> int"
  nice_to_rlimit :: "int \<Rightarrow> int"
  dl_prio :: "int \<Rightarrow> bool"
  rt_prio :: "int \<Rightarrow> bool"
  dl_policy :: "int \<Rightarrow> bool"
  rt_policy :: "int \<Rightarrow> bool"
  fair_policy :: "int \<Rightarrow> bool"
  idle_policy :: "int \<Rightarrow> bool"
  valid_policy :: "int \<Rightarrow> bool"
  has_reset :: "int \<Rightarrow> bool"
  strip_reset :: "int \<Rightarrow> int"
  scale_load :: "int \<Rightarrow> int"
  WEIGHT_IDLEPRIO :: int
  WMULT_IDLEPRIO :: int
  reweight_task :: "int \<Rightarrow> task \<Rightarrow> task"
  setparam_dl :: "task \<Rightarrow> task"
  top_task_prio :: "task \<Rightarrow> int option"
  rr_timeslice :: int

datatype sched_error =
    EAGAIN | EINVAL | EPERM | EBUSY | ERANGE | EFAULT | ESRCH | E2BIG | ENOMEM | Security int

section \<open>Weights\<close>

definition sched_prio_to_weight :: "int list" where
  "sched_prio_to_weight =
     [88761, 71755, 56483, 46273, 36291, 29154, 23254, 18705, 14949, 11916,
      9548, 7620, 6100, 4904, 3906, 3121, 2501, 1991, 1586, 1277,
      1024, 820, 655, 526, 423, 335, 272, 215, 172, 137,
      110, 87, 70, 56, 45, 36, 29, 23, 18, 15]"

definition sched_prio_to_wmult :: "int list" where
  "sched_prio_to_wmult =
     [48388, 59856, 76040, 92818, 118348, 147320, 184698, 229616, 287308, 360437,
      449829, 563644, 704093, 875809, 1099582, 1376151, 1717300, 2157191, 2708050, 3363326,
      4194304, 5237765, 6557202, 8165337, 10153587, 12820798, 15790321, 19976592, 24970740, 31350126,
      39045157, 49367440, 61356676, 76695844, 95443717, 119304647, 148102320, 186737708, 238609294, 286331153]"

definition set_load :: "int \<Rightarrow> int \<Rightarrow> task \<Rightarrow> task" where
  "set_load w iw p = p\<lparr>se := (se p)\<lparr>load := \<lparr>weight = w, inv_weight = iw\<rparr>\<rparr>\<rparr>"

definition set_load_weight :: "sched_hdr \<Rightarrow> bool \<Rightarrow> task \<Rightarrow> task option" where
  "set_load_weight h update_load p =
     (let k = static_prio p - MAX_RT_PRIO h in
      if idle_policy h (policy p) then Some (set_load (scale_load h (WEIGHT_IDLEPRIO h)) (WMULT_IDLEPRIO h) p)
      else if update_load \<and> sched_class p = Fair_Class then Some (reweight_task h k p)
      else if k < 0 then None
      else do {
        w \<leftarrow> rd sched_prio_to_weight (nat k);
        iw \<leftarrow> rd sched_prio_to_wmult (nat k);
        Some (set_load (scale_load h w) iw p) })"

section \<open>Priorities\<close>

definition normal_prio_of :: "sched_hdr \<Rightarrow> task \<Rightarrow> int" where
  "normal_prio_of h p =
     (if dl_policy h (policy p) then MAX_DL_PRIO h - 1
      else if rt_policy h (policy p) then MAX_RT_PRIO h - 1 - rt_priority p
      else static_prio p)"

definition effective_prio :: "sched_hdr \<Rightarrow> task \<Rightarrow> task \<times> int" where
  "effective_prio h p =
     (let q = p\<lparr>normal_prio := normal_prio_of h p\<rparr>
      in (q, if \<not> rt_prio h (prio q) then normal_prio q else prio q))"

text \<open>\<open>top_task_prio\<close> is the priority of \<open>p->pi_top_task\<close> when the function is called, \<open>None\<close> if there is no such task.\<close>

definition rt_effective_prio :: "sched_hdr \<Rightarrow> task \<Rightarrow> int \<Rightarrow> int" where
  "rt_effective_prio h p x = (case top_task_prio h p of None \<Rightarrow> x | Some y \<Rightarrow> min x y)"

definition class_of_prio :: "sched_hdr \<Rightarrow> int \<Rightarrow> sched_class" where
  "class_of_prio h x = (if dl_prio h x then Dl_Class else if rt_prio h x then Rt_Class else Fair_Class)"

definition task_nice :: "sched_hdr \<Rightarrow> task \<Rightarrow> int" where
  "task_nice h p = prio_to_nice h (static_prio p)"

definition task_prio :: "sched_hdr \<Rightarrow> task \<Rightarrow> int" where
  "task_prio h p = prio p - MAX_RT_PRIO h"

section \<open>Fork\<close>

text \<open>\<open>__sched_fork\<close>: lists, timers and the fields of other subsystems are left out.\<close>

definition sched_fork_init :: "sched_hdr \<Rightarrow> task \<Rightarrow> task" where
  "sched_fork_init h p =
     p\<lparr>on_rq := 0,
       se := (se p)\<lparr>se_on_rq := False, exec_start := 0, sum_exec_runtime := 0, prev_sum_exec_runtime := 0,
                    nr_migrations := 0, vruntime := 0\<rparr>,
       rt := (rt p)\<lparr>rt_timeout := 0, time_slice := rr_timeslice h, rt_on_rq := False, on_list := False\<rparr>\<rparr>"

definition fork_reset :: "sched_hdr \<Rightarrow> task \<Rightarrow> task option" where
  "fork_reset h p = do {
     let q = (if dl_policy h (policy p) \<or> rt_policy h (policy p)
              then p\<lparr>policy := SCHED_NORMAL h, static_prio := nice_to_prio h 0, rt_priority := 0\<rparr>
              else if prio_to_nice h (static_prio p) < 0 then p\<lparr>static_prio := nice_to_prio h 0\<rparr>
              else p);
     r \<leftarrow> set_load_weight h False (q\<lparr>normal_prio := static_prio q, prio := static_prio q\<rparr>);
     Some (r\<lparr>sched_reset_on_fork := False\<rparr>) }"

text \<open>
  \<open>p\<close> is the copy of the parent, \<open>parent_prio\<close> the normal priority of the parent, \<open>n\<close> the
  number of clamp buckets and \<open>on\<close> the value of \<open>sched_info_on()\<close>.
\<close>

definition sched_fork :: "sched_hdr \<Rightarrow> nat \<Rightarrow> bool \<Rightarrow> int \<Rightarrow> task \<Rightarrow> (sched_error + task) option" where
  "sched_fork h n on parent_prio p = do {
     let a = uclamp_fork n ((sched_fork_init h p)\<lparr>state := TASK_NEW, cpu_burst := 0, prio := parent_prio\<rparr>);
     let b = a\<lparr>policy := SCHED_FIFO h\<rparr>;
     c \<leftarrow> (if sched_reset_on_fork b then fork_reset h b else Some b);
     if dl_prio h (prio c) then Some (Inl EAGAIN)
     else let d = c\<lparr>sched_class := (if rt_prio h (prio c) then Rt_Class else Fair_Class)\<rparr>
          in Some (Inr (if on then d\<lparr>info := zero_info\<rparr> else d)) }"

section \<open>Nice values\<close>

definition set_user_nice :: "sched_hdr \<Rightarrow> int \<Rightarrow> task \<Rightarrow> task option" where
  "set_user_nice h nice p =
     (if task_nice h p = nice \<or> nice < MIN_NICE h \<or> nice > MAX_NICE h then Some p
      else if dl_policy h (policy p) \<or> rt_policy h (policy p) then Some (p\<lparr>static_prio := nice_to_prio h nice\<rparr>)
      else do {
        q \<leftarrow> set_load_weight h True (p\<lparr>static_prio := nice_to_prio h nice\<rparr>);
        let (r, x) = effective_prio h q;
        Some (r\<lparr>prio := x\<rparr>) })"

text \<open>The rights of the caller and the answers of other subsystems.\<close>

record sched_ctx =
  cap_sys_nice :: bool
  rlimit_nice :: int
  rlimit_rtprio :: int
  same_owner :: bool
  security :: int
  is_stop :: bool
  checkparam_dl :: bool
  dl_changed :: bool
  rt_group_refuses :: bool
  dl_bw_refuses :: bool
  dl_overflow :: bool

definition can_nice :: "sched_hdr \<Rightarrow> sched_ctx \<Rightarrow> int \<Rightarrow> bool" where
  "can_nice h ctx nice \<longleftrightarrow> nice_to_rlimit h nice \<le> rlimit_nice ctx \<or> cap_sys_nice ctx"

definition clamp_int :: "int \<Rightarrow> int \<Rightarrow> int \<Rightarrow> int" where
  "clamp_int x lo hi = min (max x lo) hi"

definition sys_nice :: "sched_hdr \<Rightarrow> sched_ctx \<Rightarrow> int \<Rightarrow> task \<Rightarrow> (sched_error + task) option" where
  "sys_nice h ctx increment p =
     (let inc = clamp_int increment (- NICE_WIDTH h) (NICE_WIDTH h);
          nice = clamp_int (task_nice h p + inc) (MIN_NICE h) (MAX_NICE h)
      in if inc < 0 \<and> \<not> can_nice h ctx nice then Some (Inl EPERM)
         else if security ctx \<noteq> 0 then Some (Inl (Security (security ctx)))
         else do { q \<leftarrow> set_user_nice h nice p; Some (Inr q) })"

section \<open>Setting the policy\<close>

record sched_attr =
  attr_policy :: int
  attr_priority :: int
  attr_nice :: int
  attr_reset_on_fork :: bool
  attr_keep_params :: bool
  attr_sugov :: bool
  attr_unknown :: bool
  attr_clamp :: clamp_attr

definition setscheduler_params :: "sched_hdr \<Rightarrow> sched_attr \<Rightarrow> task \<Rightarrow> task option" where
  "setscheduler_params h attr p =
     (let pol = (if attr_policy attr = - 1 then policy p else attr_policy attr);
          a = p\<lparr>policy := pol\<rparr>;
          b = (if dl_policy h pol then setparam_dl h a
               else if fair_policy h pol then a\<lparr>static_prio := nice_to_prio h (attr_nice attr)\<rparr>
               else a);
          c = b\<lparr>rt_priority := attr_priority attr\<rparr>
      in set_load_weight h True (c\<lparr>normal_prio := normal_prio_of h c\<rparr>))"

definition setscheduler :: "sched_hdr \<Rightarrow> sched_attr \<Rightarrow> bool \<Rightarrow> task \<Rightarrow> task option" where
  "setscheduler h attr keep_boost p =
     (if attr_keep_params attr then Some p
      else do {
        q \<leftarrow> setscheduler_params h attr p;
        let x = normal_prio_of h q;
        let y = (if keep_boost then rt_effective_prio h q x else x);
        Some (q\<lparr>prio := y, sched_class := class_of_prio h y\<rparr>) })"

text \<open>The checks of \<open>__sched_setscheduler\<close> before the lock is taken.\<close>

definition unprivileged_refused :: "sched_hdr \<Rightarrow> sched_ctx \<Rightarrow> sched_attr \<Rightarrow> int \<Rightarrow> bool \<Rightarrow> task \<Rightarrow> bool" where
  "unprivileged_refused h ctx attr pol reset p \<longleftrightarrow>
     (fair_policy h pol \<and> attr_nice attr < task_nice h p \<and> \<not> can_nice h ctx (attr_nice attr)) \<or>
     (rt_policy h pol \<and>
       ((pol \<noteq> policy p \<and> rlimit_rtprio ctx = 0) \<or>
        (attr_priority attr > rt_priority p \<and> attr_priority attr > rlimit_rtprio ctx))) \<or>
     dl_policy h pol \<or>
     (idle_policy h (policy p) \<and> \<not> idle_policy h pol \<and> \<not> can_nice h ctx (task_nice h p)) \<or>
     \<not> same_owner ctx \<or>
     (sched_reset_on_fork p \<and> \<not> reset)"

definition setscheduler_check ::
    "sched_hdr \<Rightarrow> sched_ctx \<Rightarrow> sched_attr \<Rightarrow> bool \<Rightarrow> int \<Rightarrow> bool \<Rightarrow> task \<Rightarrow> sched_error option" where
  "setscheduler_check h ctx attr user pol reset p =
     (if 0 \<le> attr_policy attr \<and> \<not> valid_policy h pol then Some EINVAL
      else if attr_unknown attr then Some EINVAL
      else if (mm p \<and> attr_priority attr > MAX_USER_RT_PRIO h - 1) \<or>
              (\<not> mm p \<and> attr_priority attr > MAX_RT_PRIO h - 1) then Some EINVAL
      else if (dl_policy h pol \<and> \<not> checkparam_dl ctx) \<or> (rt_policy h pol \<noteq> (attr_priority attr \<noteq> 0)) then Some EINVAL
      else if user \<and> \<not> cap_sys_nice ctx \<and> unprivileged_refused h ctx attr pol reset p then Some EPERM
      else if user \<and> attr_sugov attr then Some EINVAL
      else if user \<and> security ctx \<noteq> 0 then Some (Security (security ctx))
      else None)"

text \<open>The part under the lock: the early return, the refusals, the change.\<close>

definition setscheduler_change ::
    "sched_hdr \<Rightarrow> sched_ctx \<Rightarrow> uclamp_sys \<Rightarrow> sched_attr \<Rightarrow> bool \<Rightarrow> bool \<Rightarrow> int \<Rightarrow> bool \<Rightarrow> task
     \<Rightarrow> (sched_error + task) option" where
  "setscheduler_change h ctx sys attr user pi pol reset p =
     (if is_stop ctx then Some (Inl EINVAL)
      else if pol = policy p \<and> \<not> (fair_policy h pol \<and> attr_nice attr \<noteq> task_nice h p) \<and>
              \<not> (rt_policy h pol \<and> attr_priority attr \<noteq> rt_priority p) \<and> \<not> (dl_policy h pol \<and> dl_changed ctx) \<and>
              \<not> (flag_min (attr_clamp attr) \<or> flag_max (attr_clamp attr))
      then Some (Inr (p\<lparr>sched_reset_on_fork := reset\<rparr>))
      else if user \<and> rt_policy h pol \<and> rt_group_refuses ctx then Some (Inl EPERM)
      else if user \<and> dl_policy h pol \<and> \<not> attr_sugov attr \<and> dl_bw_refuses ctx then Some (Inl EPERM)
      else if (dl_policy h pol \<or> dl_prio h (prio p)) \<and> dl_overflow ctx then Some (Inl EBUSY)
      else do {
        q \<leftarrow> setscheduler h attr pi (p\<lparr>sched_reset_on_fork := reset\<rparr>);
        Some (Inr (setscheduler_uclamp (\<lambda>t. rt_prio h (prio t)) sys (attr_clamp attr) q)) })"

definition sched_setscheduler_raw ::
    "sched_hdr \<Rightarrow> sched_ctx \<Rightarrow> uclamp_sys \<Rightarrow> sched_attr \<Rightarrow> bool \<Rightarrow> bool \<Rightarrow> task
     \<Rightarrow> (uclamp_sys \<times> (sched_error + task)) option" where
  "sched_setscheduler_raw h ctx sys attr user pi p =
     (let pol = (if attr_policy attr < 0 then policy p else attr_policy attr);
          reset = (if attr_policy attr < 0 then sched_reset_on_fork p else attr_reset_on_fork attr)
      in case setscheduler_check h ctx attr user pol reset p of
           Some e \<Rightarrow> Some (sys, Inl e)
         | None \<Rightarrow>
             (case (if flag_min (attr_clamp attr) \<or> flag_max (attr_clamp attr)
                    then uclamp_validate sys p (attr_clamp attr) else Some sys) of
                None \<Rightarrow> Some (sys, Inl EINVAL)
              | Some sys' \<Rightarrow> do {
                  r \<leftarrow> setscheduler_change h ctx sys' attr user pi pol reset p;
                  Some (sys', r) }))"

definition no_clamp :: clamp_attr where
  "no_clamp = \<lparr>flag_min = False, flag_max = False, attr_util_min = 0, attr_util_max = 0\<rparr>"

text \<open>
  \<open>_sched_setscheduler\<close> with the line that the assignment adds. The field \<open>sched_priority\<close> is an
  unsigned 32-bit integer, so a negative priority becomes a huge one.
\<close>

definition sched_setscheduler_attr :: "sched_hdr \<Rightarrow> int \<Rightarrow> int \<Rightarrow> task \<Rightarrow> sched_attr" where
  "sched_setscheduler_attr h pol pri p =
     (let attr = \<lparr>attr_policy = SCHED_FIFO h, attr_priority = pri mod 2 ^ 32, attr_nice = prio_to_nice h (static_prio p),
                  attr_reset_on_fork = False, attr_keep_params = False, attr_sugov = False, attr_unknown = False,
                  attr_clamp = no_clamp\<rparr>
      in if pol \<noteq> - 1 \<and> has_reset h pol
         then attr\<lparr>attr_reset_on_fork := True, attr_policy := strip_reset h pol\<rparr> else attr)"

definition sched_setscheduler ::
    "sched_hdr \<Rightarrow> sched_ctx \<Rightarrow> uclamp_sys \<Rightarrow> int \<Rightarrow> int \<Rightarrow> bool \<Rightarrow> task \<Rightarrow> (uclamp_sys \<times> (sched_error + task)) option" where
  "sched_setscheduler h ctx sys pol pri user p =
     sched_setscheduler_raw h ctx sys (sched_setscheduler_attr h pol pri p) user True p"

definition sched_set_normal ::
    "sched_hdr \<Rightarrow> sched_ctx \<Rightarrow> uclamp_sys \<Rightarrow> int \<Rightarrow> task \<Rightarrow> (uclamp_sys \<times> (sched_error + task)) option" where
  "sched_set_normal h ctx sys nice p =
     sched_setscheduler_raw h ctx sys
       \<lparr>attr_policy = SCHED_NORMAL h, attr_priority = 0, attr_nice = nice, attr_reset_on_fork = False,
        attr_keep_params = False, attr_sugov = False, attr_unknown = False, attr_clamp = no_clamp\<rparr> False True p"

definition sched_set_fifo ::
    "sched_hdr \<Rightarrow> sched_ctx \<Rightarrow> uclamp_sys \<Rightarrow> task \<Rightarrow> (uclamp_sys \<times> (sched_error + task)) option" where
  "sched_set_fifo h ctx sys p = sched_setscheduler h ctx sys (SCHED_FIFO h) (MAX_RT_PRIO h div 2) False p"

definition sched_set_fifo_low ::
    "sched_hdr \<Rightarrow> sched_ctx \<Rightarrow> uclamp_sys \<Rightarrow> task \<Rightarrow> (uclamp_sys \<times> (sched_error + task)) option" where
  "sched_set_fifo_low h ctx sys p = sched_setscheduler h ctx sys (SCHED_FIFO h) 1 False p"

end
