(* ===== verification/Uclamp_Main.thy ===== *)
theory Uclamp_Main
  imports Uclamp
begin

text \<open>
  The invariant of the clamp buckets of a run queue: the counters are the numbers of active
  tasks, and the clamp of the run queue is never below the clamp of an active task. It is kept
  by enqueueing and dequeueing tasks and by requests, and broken by \<open>uclamp_update_active\<close>.
\<close>

section \<open>Buckets\<close>

text \<open>What the search for the topmost bucket needs of the function from values to buckets.\<close>

locale bucketing =
  fixes bid :: "nat \<Rightarrow> nat" and n :: nat
  assumes bid_mono: "v \<le> w \<Longrightarrow> bid v \<le> bid w"
    and bid_less: "bid v < n"
begin

lemma bid_less_imp_less: "bid v < bid w \<Longrightarrow> v < w"
  using bid_mono [of w v] by (cases "v < w") auto

lemma top_bucket_None: "top_bucket bs k = None \<longleftrightarrow> (\<forall>b < k. b_tasks (bs ! b) = 0)"
  by (induction k) (auto simp: less_Suc_eq)

lemma top_bucket_Some:
  assumes "top_bucket bs k = Some x" and "\<forall>b < k. b_tasks (bs ! b) \<noteq> 0 \<longrightarrow> bid (b_value (bs ! b)) = b"
  shows "\<forall>b < k. b_tasks (bs ! b) \<noteq> 0 \<longrightarrow> b_value (bs ! b) \<le> x"
  using assms
proof (induction k)
  case (Suc k)
  show ?case
  proof (cases "b_tasks (bs ! k) = 0")
    case True
    with Suc show ?thesis by (auto simp: less_Suc_eq)
  next
    case False
    with Suc.prems(1) have x: "x = b_value (bs ! k)" by simp
    have "b_value (bs ! b) \<le> x" if "b < k" "b_tasks (bs ! b) \<noteq> 0" for b
      using Suc.prems(2) that False x bid_less_imp_less [of "b_value (bs ! b)" x] by auto
    with x show ?thesis by (auto simp: less_Suc_eq)
  qed
qed simp

end

interpretation clamp_buckets: bucketing "uclamp_bucket_id (Suc m)" "Suc m" for m
  by unfold_locales (auto simp: uclamp_bucket_id_def div_le_mono min_le_iff_disj less_Suc_eq_le)

definition se_ok :: "nat \<Rightarrow> uclamp_se \<Rightarrow> bool" where
  "se_ok n s \<longleftrightarrow> bucket_id s = uclamp_bucket_id n (se_value s)"

lemma uclamp_se_set_ok: "v \<le> SCHED_CAPACITY_SCALE \<Longrightarrow> se_ok n (uclamp_se_set n v u s)"
  by (simp add: se_ok_def uclamp_se_set_def SCHED_CAPACITY_SCALE_def)

section \<open>One clamp of the run queue\<close>

text \<open>The effect of \<open>uclamp_rq_inc_id\<close> and \<open>uclamp_rq_dec_id\<close> on the clamp they work on.\<close>

definition ur_inc :: "bool \<Rightarrow> uclamp_se \<Rightarrow> uclamp_rq \<Rightarrow> uclamp_rq" where
  "ur_inc idle s ur =
     (let v = se_value s; b = bucket ur ! bucket_id s in
      \<lparr>rq_value = max (if idle then v else rq_value ur) v,
       bucket = (bucket ur)[bucket_id s :=
         \<lparr>b_value = (if b_tasks b = 0 \<or> v > b_value b then v else b_value b), b_tasks = b_tasks b + 1\<rparr>]\<rparr>)"

definition ur_dec_buckets :: "uclamp_se \<Rightarrow> uclamp_rq \<Rightarrow> uclamp_bucket list" where
  "ur_dec_buckets s ur =
     (let b = bucket ur ! bucket_id s in (bucket ur)[bucket_id s := b\<lparr>b_tasks := b_tasks b - 1\<rparr>])"

definition ur_dec_empty :: "uclamp_se \<Rightarrow> uclamp_rq \<Rightarrow> bool" where
  "ur_dec_empty s ur \<longleftrightarrow>
     b_tasks (bucket ur ! bucket_id s) \<le> 1 \<and> rq_value ur \<le> b_value (bucket ur ! bucket_id s)"

definition ur_dec :: "uclamp_id \<Rightarrow> uclamp_se \<Rightarrow> uclamp_rq \<Rightarrow> uclamp_rq" where
  "ur_dec i s ur =
     (let bs = ur_dec_buckets s ur in
      if ur_dec_empty s ur
      then \<lparr>rq_value = (case top_bucket bs (length bs) of
                          Some x \<Rightarrow> x | None \<Rightarrow> if i = UCLAMP_MAX then se_value s else 0), bucket = bs\<rparr>
      else \<lparr>rq_value = rq_value ur, bucket = bs\<rparr>)"

lemma inc_id_eq:
  assumes "s = (uclamp_eff_get sys p i)\<lparr>active := True\<rparr>" and "bucket_id s < length (bucket (rq_uclamp rq i))"
  shows "uclamp_rq_inc_id sys i (rq, p) =
    Some (rq\<lparr>rq_uclamp := (rq_uclamp rq)(i := ur_inc (flag_idle rq) s (rq_uclamp rq i))\<rparr>, set_se i s p)"
  using assms(2) unfolding assms(1)
  by (cases "rq_uclamp rq i")
     (auto simp: uclamp_rq_inc_id_def ur_inc_def Let_def uclamp_idle_reset_def set_rq_value_def set_buckets_def max_def)

lemma dec_id_eq:
  assumes "s = uclamp p i" and "active s" and "bucket_id s < length (bucket (rq_uclamp rq i))"
  shows "uclamp_rq_dec_id i (rq, p) =
    Some (rq\<lparr>rq_uclamp := (rq_uclamp rq)(i := ur_dec i s (rq_uclamp rq i)),
             flag_idle := (flag_idle rq \<or> (i = UCLAMP_MAX \<and> ur_dec_empty s (rq_uclamp rq i) \<and>
               top_bucket (ur_dec_buckets s (rq_uclamp rq i)) (length (bucket (rq_uclamp rq i))) = None))\<rparr>,
          set_se i (s\<lparr>active := False\<rparr>) p)"
  using assms(2,3) unfolding assms(1)
  by (cases "rq_uclamp rq i")
     (auto simp: uclamp_rq_dec_id_def ur_dec_def ur_dec_buckets_def ur_dec_empty_def Let_def uclamp_rq_max_value_def
      uclamp_idle_value_def uclamp_none_def set_rq_value_def set_buckets_def split: option.splits)

section \<open>The invariant of one clamp\<close>

text \<open>\<open>S\<close> gives the effective clamp of every task.\<close>

definition members :: "(nat \<Rightarrow> uclamp_se) \<Rightarrow> nat \<Rightarrow> nat set" where
  "members S b = {t. active (S t) \<and> bucket_id (S t) = b}"

definition id_inv :: "nat \<Rightarrow> uclamp_rq \<Rightarrow> (nat \<Rightarrow> uclamp_se) \<Rightarrow> bool" where
  "id_inv n ur S \<longleftrightarrow>
     length (bucket ur) = n \<and> finite {t. active (S t)} \<and>
     (\<forall>b < n. b_tasks (bucket ur ! b) = card (members S b)) \<and>
     (\<forall>t. active (S t) \<longrightarrow> se_ok n (S t) \<and> se_value (S t) \<le> b_value (bucket ur ! bucket_id (S t))) \<and>
     (\<forall>b < n. b_tasks (bucket ur ! b) \<noteq> 0 \<longrightarrow>
        uclamp_bucket_id n (b_value (bucket ur ! b)) = b \<and> b_value (bucket ur ! b) \<le> rq_value ur)"

lemma se_ok_less: "se_ok (Suc m) s \<Longrightarrow> bucket_id s < Suc m"
  by (simp add: se_ok_def clamp_buckets.bid_less)

lemma members_add:
  "\<not> active (S t) \<Longrightarrow> active s \<Longrightarrow>
    members (S(t := s)) b = (if b = bucket_id s then insert t (members S b) else members S b) \<and> t \<notin> members S b"
  by (auto simp: members_def)

lemma members_remove: "\<not> active s \<Longrightarrow> members (S(t := s)) b = members S b - {t}"
  by (auto simp: members_def)

lemma finite_members: "finite {t. active (S t)} \<Longrightarrow> finite (members S b)"
  by (auto simp: members_def intro: finite_subset)

lemma active_below_rq_value:
  assumes "id_inv (Suc m) ur S" and "active (S t)"
  shows "se_value (S t) \<le> rq_value ur"
proof -
  let ?b = "bucket_id (S t)"
  have b: "?b < Suc m" using assms by (auto simp: id_inv_def intro: se_ok_less)
  have "t \<in> members S ?b" using assms(2) by (simp add: members_def)
  moreover have "finite (members S ?b)" using assms(1) by (auto simp: id_inv_def intro: finite_members)
  ultimately have "card (members S ?b) \<noteq> 0" by auto
  then have "b_value (bucket ur ! ?b) \<le> rq_value ur" using assms(1) b by (auto simp: id_inv_def)
  then show ?thesis using assms by (auto simp: id_inv_def intro: order.trans)
qed

lemma ur_inc_inv:
  assumes inv: "id_inv (Suc m) ur S" and new: "\<not> active (S t)" and s: "se_ok (Suc m) s" "active s"
    and idle: "idle \<longrightarrow> (\<forall>u. \<not> active (S u))"
  shows "id_inv (Suc m) (ur_inc idle s ur) (S(t := s))"
proof -
  let ?k = "bucket_id s" and ?v = "se_value s" and ?b = "bucket ur ! bucket_id s"
  let ?nb = "\<lparr>b_value = (if b_tasks ?b = 0 \<or> ?v > b_value ?b then ?v else b_value ?b), b_tasks = b_tasks ?b + 1\<rparr>"
  have k: "?k < Suc m" "length (bucket ur) = Suc m" using s(1) inv by (auto simp: id_inv_def dest: se_ok_less)
  have bs: "bucket (ur_inc idle s ur) = (bucket ur)[?k := ?nb]"
    and val: "rq_value (ur_inc idle s ur) = max (if idle then ?v else rq_value ur) ?v"
    by (simp_all add: ur_inc_def Let_def)
  have nth: "bucket (ur_inc idle s ur) ! b = (if b = ?k then ?nb else bucket ur ! b)" if "b < Suc m" for b
    using that k by (simp add: bs nth_list_update)
  have fin: "finite {u. active ((S(t := s)) u)}"
    using inv by (auto simp: id_inv_def intro: finite_subset [of _ "insert t {u. active (S u)}"])
  have counts: "b_tasks (bucket (ur_inc idle s ur) ! b) = card (members (S(t := s)) b)" if "b < Suc m" for b
    using that inv members_add [of S t s b] new s(2) finite_members [of S b] by (auto simp: nth id_inv_def)
  have bound: "b_value ?b \<le> rq_value ur" if "b_tasks ?b \<noteq> 0" using that inv k by (auto simp: id_inv_def)
  have empty: "b_tasks (bucket ur ! b) = 0" if idle "b < Suc m" for b
    using that idle inv by (auto simp: id_inv_def members_def)
  have clause: "uclamp_bucket_id (Suc m) (b_value (bucket (ur_inc idle s ur) ! b)) = b \<and>
      b_value (bucket (ur_inc idle s ur) ! b) \<le> rq_value (ur_inc idle s ur)"
    if "b < Suc m" "b_tasks (bucket (ur_inc idle s ur) ! b) \<noteq> 0" for b
  proof (cases "b = ?k")
    case True
    then show ?thesis
      using that(1) s(1) inv k bound empty by (auto simp: nth val se_ok_def id_inv_def)
  next
    case False
    then show ?thesis using that inv empty [OF _ that(1)] by (auto simp: nth val id_inv_def le_max_iff_disj)
  qed
  have active: "se_ok (Suc m) ((S(t := s)) u) \<and>
      se_value ((S(t := s)) u) \<le> b_value (bucket (ur_inc idle s ur) ! bucket_id ((S(t := s)) u))"
    if "active ((S(t := s)) u)" for u
  proof (cases "u = t")
    case True
    then show ?thesis using s(1) k(1) by (auto simp: nth)
  next
    case False
    with that inv have u: "se_ok (Suc m) (S u)" "se_value (S u) \<le> b_value (bucket ur ! bucket_id (S u))" "active (S u)"
      by (auto simp: id_inv_def)
    have "card (members S (bucket_id (S u))) \<noteq> 0"
      using u(3) inv finite_members [of S] by (auto simp: id_inv_def members_def)
    then have "b_tasks (bucket ur ! bucket_id (S u)) \<noteq> 0" using inv se_ok_less [OF u(1)] by (simp add: id_inv_def)
    then show ?thesis using False u se_ok_less [OF u(1)] by (auto simp: nth)
  qed
  have len: "length (bucket (ur_inc idle s ur)) = Suc m" using k by (simp add: bs)
  show ?thesis unfolding id_inv_def using len fin counts active clause by blast
qed

lemma ur_dec_inv:
  assumes inv: "id_inv (Suc m) ur S" and t: "active (S t)"
  shows "id_inv (Suc m) (ur_dec i (S t) ur) (S(t := (S t)\<lparr>active := False\<rparr>))"
    and "top_bucket (ur_dec_buckets (S t) ur) (Suc m) = None \<Longrightarrow> u \<noteq> t \<Longrightarrow> \<not> active (S u)"
proof -
  let ?s = "S t" and ?S = "S(t := (S t)\<lparr>active := False\<rparr>)"
  let ?k = "bucket_id ?s" and ?bs = "ur_dec_buckets ?s ur" and ?b = "bucket ur ! bucket_id ?s"
  have k: "?k < Suc m" "length (bucket ur) = Suc m" "length ?bs = Suc m"
    using inv t by (auto simp: id_inv_def ur_dec_buckets_def Let_def dest: se_ok_less)
  have nth: "?bs ! b = (if b = ?k then ?b\<lparr>b_tasks := b_tasks ?b - 1\<rparr> else bucket ur ! b)" if "b < Suc m" for b
    using that k by (simp add: ur_dec_buckets_def Let_def nth_list_update)
  have bucket: "bucket (ur_dec i ?s ur) = ?bs" by (simp add: ur_dec_def Let_def)
  have fin: "finite {u. active (?S u)}" "finite (members S b)" for b
    using inv finite_members by (auto simp: id_inv_def intro: finite_subset [of _ "{u. active (S u)}"])
  have mem: "t \<in> members S ?k" "b \<noteq> ?k \<Longrightarrow> t \<notin> members S b" for b using t by (auto simp: members_def)
  have counts: "b_tasks (?bs ! b) = card (members ?S b)" if "b < Suc m" for b
    using that inv mem fin(2) by (auto simp: nth members_remove id_inv_def card_Diff_singleton)
  have vals: "b_value (?bs ! b) = b_value (bucket ur ! b)" if "b < Suc m" for b using that by (simp add: nth)
  have old: "b_tasks (bucket ur ! b) \<noteq> 0" if "b_tasks (?bs ! b) \<noteq> 0" "b < Suc m" for b
    using that nth [OF that(2)] by (auto split: if_splits)
  have ids: "\<forall>b < Suc m. b_tasks (?bs ! b) \<noteq> 0 \<longrightarrow> uclamp_bucket_id (Suc m) (b_value (?bs ! b)) = b"
    using old vals inv by (auto simp: id_inv_def)
  have bound: "b_value (?bs ! b) \<le> rq_value (ur_dec i ?s ur)" if "b < Suc m" "b_tasks (?bs ! b) \<noteq> 0" for b
  proof (cases "ur_dec_empty ?s ur")
    case True
    have "\<not> (\<forall>b < Suc m. b_tasks (?bs ! b) = 0)" using that by auto
    then have "top_bucket ?bs (Suc m) \<noteq> None" by (simp only: clamp_buckets.top_bucket_None) simp
    then obtain x where x: "top_bucket ?bs (Suc m) = Some x" by blast
    from clamp_buckets.top_bucket_Some [OF x ids] that True x k(3) show ?thesis by (simp add: ur_dec_def Let_def)
  next
    case False
    then show ?thesis using that old vals inv by (auto simp: ur_dec_def Let_def id_inv_def)
  qed
  have active: "se_ok (Suc m) (?S u) \<and> se_value (?S u) \<le> b_value (?bs ! bucket_id (?S u))" if "active (?S u)" for u
  proof -
    from that have u: "u \<noteq> t" "active (S u)" by (auto split: if_splits)
    with inv have ok: "se_ok (Suc m) (S u)" "se_value (S u) \<le> b_value (bucket ur ! bucket_id (S u))"
      by (auto simp: id_inv_def)
    with u vals [OF se_ok_less [OF ok(1)]] show ?thesis by simp
  qed
  show "id_inv (Suc m) (ur_dec i ?s ur) ?S"
    unfolding id_inv_def bucket using k(3) fin(1) counts active ids bound by blast
  assume none: "top_bucket ?bs (Suc m) = None" and u: "u \<noteq> t"
  show "\<not> active (S u)"
  proof
    assume a: "active (S u)"
    then have "bucket_id (S u) < Suc m" using inv by (auto simp: id_inv_def dest: se_ok_less)
    with none counts have "card (members ?S (bucket_id (S u))) = 0"
      by (simp add: clamp_buckets.top_bucket_None del: top_bucket.simps)
    moreover have "u \<in> members ?S (bucket_id (S u))" using a u by (simp add: members_def)
    moreover have "finite (members ?S (bucket_id (S u)))" using fin(1) finite_members by blast
    ultimately show False by auto
  qed
qed

section \<open>Runs\<close>

text \<open>
  Tasks are enqueued and dequeued, and requests are made: \<open>Req\<close> is \<open>uclamp_se_set\<close> on the
  requested clamp, as \<open>__setscheduler_uclamp\<close> does it.
\<close>

datatype clamp_event = Enq nat | Deq nat | Req nat uclamp_id nat bool

type_synonym clamp_state = "clamp_rq \<times> (nat \<Rightarrow> task)"

definition clamp_step :: "uclamp_sys \<Rightarrow> clamp_event \<Rightarrow> clamp_state \<Rightarrow> clamp_state option" where
  "clamp_step sys e s =
     (case s of (rq, ts) \<Rightarrow>
        (case e of
           Enq t \<Rightarrow> do { (rq', p) \<leftarrow> uclamp_rq_inc sys (rq, ts t); Some (rq', ts(t := p)) }
         | Deq t \<Rightarrow> do { (rq', p) \<leftarrow> uclamp_rq_dec sys (rq, ts t); Some (rq', ts(t := p)) }
         | Req t i v user \<Rightarrow>
             Some (rq, ts(t := set_req i (uclamp_se_set (buckets sys) v user (uclamp_req (ts t) i)) (ts t)))))"

fun clamp_run :: "uclamp_sys \<Rightarrow> clamp_event list \<Rightarrow> clamp_state \<Rightarrow> clamp_state option" where
  "clamp_run sys [] s = Some s"
| "clamp_run sys (e # es) s = do { s' \<leftarrow> clamp_step sys e s; clamp_run sys es s' }"

text \<open>A task is not enqueued twice, and requests are at most the scale.\<close>

definition event_ok :: "clamp_event \<Rightarrow> nat set \<Rightarrow> bool" where
  "event_ok e on_queue =
     (case e of Enq t \<Rightarrow> t \<notin> on_queue | Deq t \<Rightarrow> True | Req t i v user \<Rightarrow> v \<le> SCHED_CAPACITY_SCALE)"

fun history_ok :: "clamp_event list \<Rightarrow> nat set \<Rightarrow> bool" where
  "history_ok [] on_queue = True"
| "history_ok (e # es) on_queue =
     (event_ok e on_queue \<and>
      history_ok es (case e of Enq t \<Rightarrow> insert t on_queue | Deq t \<Rightarrow> on_queue - {t} | Req t i v user \<Rightarrow> on_queue))"

definition sys_ok :: "uclamp_sys \<Rightarrow> bool" where
  "sys_ok sys \<longleftrightarrow>
     0 < buckets sys \<and> (\<forall>i. se_ok (buckets sys) (uclamp_default sys i)) \<and>
     (\<forall>g tg i. group_clamp sys g = Some tg \<longrightarrow> se_ok (buckets sys) (tg i))"

definition clamps :: "(nat \<Rightarrow> task) \<Rightarrow> uclamp_id \<Rightarrow> nat \<Rightarrow> uclamp_se" where
  "clamps ts i t = uclamp (ts t) i"

definition clamp_inv :: "uclamp_sys \<Rightarrow> nat set \<Rightarrow> clamp_state \<Rightarrow> bool" where
  "clamp_inv sys on_queue s \<longleftrightarrow>
     (case s of (rq, ts) \<Rightarrow>
        (\<forall>i. id_inv (buckets sys) (rq_uclamp rq i) (clamps ts i)) \<and>
        (\<forall>t. active (clamps ts UCLAMP_MIN t) = active (clamps ts UCLAMP_MAX t)) \<and>
        (\<forall>t i. active (clamps ts i t) \<longrightarrow>
           t \<in> on_queue \<and> uclamp_used sys \<and> uclamp_enabled sys (sched_class (ts t))) \<and>
        (flag_idle rq \<longrightarrow> (\<forall>t i. \<not> active (clamps ts i t))) \<and>
        (\<forall>t i. se_ok (buckets sys) (uclamp_req (ts t) i)))"

lemma uclamp_id_all: "(\<forall>i. P i) \<longleftrightarrow> P UCLAMP_MIN \<and> P UCLAMP_MAX"
  by (metis uclamp_id.exhaust)

lemma uclamp_eff_get_ok:
  assumes "sys_ok sys" and "se_ok (buckets sys) (uclamp_req p i)"
  shows "se_ok (buckets sys) (uclamp_eff_get sys p i)"
  using assms by (auto simp: uclamp_eff_get_def uclamp_tg_restrict_def sys_ok_def Let_def split: option.splits)

lemma se_ok_active [simp]: "se_ok n (s\<lparr>active := a\<rparr>) = se_ok n s"
  by (simp add: se_ok_def)

lemma clamps_set_se: "clamps (ts(t := set_se i s p)) j = (if j = i then (clamps ts i)(t := s) else (clamps ts j)(t := uclamp p j))"
  by (auto simp: clamps_def set_se_def)

lemma clamp_invD:
  assumes "clamp_inv sys Q (rq, ts)"
  shows "id_inv (buckets sys) (rq_uclamp rq i) (clamps ts i)"
    and "active (clamps ts UCLAMP_MIN t) = active (clamps ts UCLAMP_MAX t)"
    and "active (clamps ts i t) \<Longrightarrow> t \<in> Q \<and> uclamp_used sys \<and> uclamp_enabled sys (sched_class (ts t))"
    and "flag_idle rq \<Longrightarrow> \<not> active (clamps ts i t)"
    and "se_ok (buckets sys) (uclamp_req (ts t) i)"
  using assms by (auto simp: clamp_inv_def)

lemma clamp_invI:
  assumes "\<And>i. id_inv (buckets sys) (rq_uclamp rq i) (clamps ts i)"
    and "\<And>t. active (clamps ts UCLAMP_MIN t) = active (clamps ts UCLAMP_MAX t)"
    and "\<And>t i. active (clamps ts i t) \<Longrightarrow> t \<in> Q \<and> uclamp_used sys \<and> uclamp_enabled sys (sched_class (ts t))"
    and "\<And>t i. flag_idle rq \<Longrightarrow> \<not> active (clamps ts i t)"
    and "\<And>t i. se_ok (buckets sys) (uclamp_req (ts t) i)"
  shows "clamp_inv sys Q (rq, ts)"
  using assms by (auto simp: clamp_inv_def)

lemma set_se_simps [simp]:
  "uclamp_req (set_se i s p) = uclamp_req p" "task_pid (set_se i s p) = task_pid p"
  "sched_class (set_se i s p) = sched_class p" "uclamp (set_se i s p) = (uclamp p)(i := s)"
  by (simp_all add: set_se_def)

lemma uclamp_eff_get_set_se [simp]: "uclamp_eff_get sys (set_se j s p) i = uclamp_eff_get sys p i"
  by (simp add: uclamp_eff_get_def uclamp_tg_restrict_def)

lemma uclamp_rq_inc_inv:
  assumes ok: "sys_ok sys" and inv: "clamp_inv sys Q (rq, ts)" and new: "t \<notin> Q"
  shows "\<exists>rq' p. uclamp_rq_inc sys (rq, ts t) = Some (rq', p) \<and> clamp_inv sys (insert t Q) (rq', ts(t := p))"
proof (cases "\<not> uclamp_used sys \<or> \<not> uclamp_enabled sys (sched_class (ts t))")
  case True
  with inv show ?thesis by (auto simp: uclamp_rq_inc_def clamp_inv_def)
next
  case False
  obtain m where m: "buckets sys = Suc m" using ok by (cases "buckets sys") (auto simp: sys_ok_def)
  define s where "s i = (uclamp_eff_get sys (ts t) i)\<lparr>active := True\<rparr>" for i
  let ?ur = "\<lambda>i. ur_inc (flag_idle rq) (s i) (rq_uclamp rq i)"
  let ?p = "set_se UCLAMP_MAX (s UCLAMP_MAX) (set_se UCLAMP_MIN (s UCLAMP_MIN) (ts t))"
  have s: "se_ok (Suc m) (s i)" "active (s i)" for i
    using uclamp_eff_get_ok [OF ok clamp_invD(5) [OF inv]] by (simp_all add: s_def m)
  have idx: "bucket_id (s i) < length (bucket (rq_uclamp rq i))" for i
    using se_ok_less [OF s(1)] clamp_invD(1) [OF inv, of i] by (simp add: id_inv_def m)
  have run: "uclamp_rq_inc sys (rq, ts t) = Some (rq\<lparr>rq_uclamp := ?ur, flag_idle := False\<rparr>, ?p)"
    using False inc_id_eq [of "s UCLAMP_MIN" sys "ts t" UCLAMP_MIN rq]
      inc_id_eq [of "s UCLAMP_MAX" sys "set_se UCLAMP_MIN (s UCLAMP_MIN) (ts t)" UCLAMP_MAX
        "rq\<lparr>rq_uclamp := (rq_uclamp rq)(UCLAMP_MIN := ?ur UCLAMP_MIN)\<rparr>"] idx
    by (simp add: uclamp_rq_inc_def s_def fun_eq_iff uclamp_id_all)
  have clamps: "clamps (ts(t := ?p)) i = (clamps ts i)(t := s i)" for i
    by (cases i) (auto simp: clamps_def)
  have new_t: "\<not> active (clamps ts i t)" for i using clamp_invD(3) [OF inv] new by blast
  have "clamp_inv sys (insert t Q) (rq\<lparr>rq_uclamp := ?ur, flag_idle := False\<rparr>, ts(t := ?p))"
  proof (rule clamp_invI)
    show "id_inv (buckets sys) (rq_uclamp (rq\<lparr>rq_uclamp := ?ur, flag_idle := False\<rparr>) i) (clamps (ts(t := ?p)) i)" for i
      using ur_inc_inv [of m "rq_uclamp rq i" "clamps ts i" t "s i" "flag_idle rq"] new_t s
        clamp_invD(1,4) [OF inv] by (simp add: clamps m)
    show "se_ok (buckets sys) (uclamp_req ((ts(t := ?p)) u) i)" for u i
      using clamp_invD(5) [OF inv] by simp
  qed (use clamp_invD(2,3) [OF inv] s(2) False in \<open>auto simp: clamps split: if_splits\<close>)
  with run show ?thesis by blast
qed

lemma uclamp_rq_dec_inv:
  assumes ok: "sys_ok sys" and inv: "clamp_inv sys Q (rq, ts)"
  shows "\<exists>rq' p. uclamp_rq_dec sys (rq, ts t) = Some (rq', p) \<and> clamp_inv sys (Q - {t}) (rq', ts(t := p))"
proof (cases "active (clamps ts UCLAMP_MIN t)")
  case False
  then have "\<not> active (clamps ts i t)" for i using clamp_invD(2) [OF inv, of t] by (cases i) auto
  then show ?thesis
    using inv by (auto simp: uclamp_rq_dec_def uclamp_rq_dec_id_def clamps_def clamp_inv_def Let_def)
next
  case True
  obtain m where m: "buckets sys = Suc m" using ok by (cases "buckets sys") (auto simp: sys_ok_def)
  have act: "active (clamps ts i t)" for i using True clamp_invD(2) [OF inv, of t] by (cases i) auto
  have fixed: "uclamp_used sys" "uclamp_enabled sys (sched_class (ts t))"
    using clamp_invD(3) [OF inv act] by auto
  have noidle: "\<not> flag_idle rq" using clamp_invD(4) [OF inv, of UCLAMP_MIN t] act by blast
  define s where "s i = clamps ts i t" for i
  let ?ur = "\<lambda>i. ur_dec i (s i) (rq_uclamp rq i)"
  let ?p = "set_se UCLAMP_MAX ((s UCLAMP_MAX)\<lparr>active := False\<rparr>) (set_se UCLAMP_MIN ((s UCLAMP_MIN)\<lparr>active := False\<rparr>) (ts t))"
  have len: "length (bucket (rq_uclamp rq i)) = Suc m" and idx: "bucket_id (s i) < length (bucket (rq_uclamp rq i))" for i
    using act [of i] clamp_invD(1) [OF inv, of i] se_ok_less by (auto simp: id_inv_def m s_def)
  define idle where "idle \<longleftrightarrow> ur_dec_empty (s UCLAMP_MAX) (rq_uclamp rq UCLAMP_MAX) \<and>
    top_bucket (ur_dec_buckets (s UCLAMP_MAX) (rq_uclamp rq UCLAMP_MAX)) (Suc m) = None"
  have idle: "top_bucket (ur_dec_buckets (s UCLAMP_MAX) (rq_uclamp rq UCLAMP_MAX)) (Suc m) = None" if idle
    using that by (simp add: idle_def)
  have "(rq_uclamp rq)(UCLAMP_MIN := ?ur UCLAMP_MIN, UCLAMP_MAX := ?ur UCLAMP_MAX) = ?ur"
    by (simp add: fun_eq_iff uclamp_id_all)
  then have run: "uclamp_rq_dec sys (rq, ts t) = Some (rq\<lparr>rq_uclamp := ?ur, flag_idle := idle\<rparr>, ?p)"
    using fixed noidle act len dec_id_eq [of "s UCLAMP_MIN" "ts t" UCLAMP_MIN rq]
      dec_id_eq [of "s UCLAMP_MAX" "set_se UCLAMP_MIN ((s UCLAMP_MIN)\<lparr>active := False\<rparr>) (ts t)" UCLAMP_MAX
        "rq\<lparr>rq_uclamp := (rq_uclamp rq)(UCLAMP_MIN := ?ur UCLAMP_MIN), flag_idle := False\<rparr>"] idx
    by (simp add: uclamp_rq_dec_def s_def clamps_def idle_def del: top_bucket.simps)
  have clamps: "clamps (ts(t := ?p)) i = (clamps ts i)(t := (clamps ts i t)\<lparr>active := False\<rparr>)" for i
    by (cases i) (auto simp: clamps_def s_def)
  have none: "\<not> active (clamps ts i u)" if idle "u \<noteq> t" for i u
    using ur_dec_inv(2) [OF clamp_invD(1) [OF inv, of UCLAMP_MAX, unfolded m] act, of u] idle [OF that(1)] that(2)
      clamp_invD(2) [OF inv, of u] by (cases i) (auto simp: s_def)
  have "clamp_inv sys (Q - {t}) (rq\<lparr>rq_uclamp := ?ur, flag_idle := idle\<rparr>, ts(t := ?p))"
  proof (rule clamp_invI)
    show "id_inv (buckets sys) (rq_uclamp (rq\<lparr>rq_uclamp := ?ur, flag_idle := idle\<rparr>) i) (clamps (ts(t := ?p)) i)" for i
      using ur_dec_inv(1) [of m "rq_uclamp rq i" "clamps ts i" t i] act clamp_invD(1) [OF inv, of i]
      unfolding clamps m by (simp add: s_def)
    show "\<not> active (clamps (ts(t := ?p)) i u)" if "flag_idle (rq\<lparr>rq_uclamp := ?ur, flag_idle := idle\<rparr>)" for i u
      using that none by (auto simp: clamps)
    show "se_ok (buckets sys) (uclamp_req ((ts(t := ?p)) u) i)" for u i
      using clamp_invD(5) [OF inv] by simp
  qed (use clamp_invD(2,3) [OF inv] in \<open>auto simp: clamps split: if_splits\<close>)
  with run show ?thesis by blast
qed

definition queue_after :: "clamp_event \<Rightarrow> nat set \<Rightarrow> nat set" where
  "queue_after e Q = (case e of Enq t \<Rightarrow> insert t Q | Deq t \<Rightarrow> Q - {t} | Req t i v user \<Rightarrow> Q)"

lemma clamp_step_inv:
  assumes ok: "sys_ok sys" and inv: "clamp_inv sys Q s" and e: "event_ok e Q"
  shows "\<exists>s'. clamp_step sys e s = Some s' \<and> clamp_inv sys (queue_after e Q) s'"
proof -
  obtain rq ts where s: "s = (rq, ts)" by (cases s)
  show ?thesis
  proof (cases e)
    case (Enq t)
    then show ?thesis
      using uclamp_rq_inc_inv [OF ok, of Q rq ts t] inv e
      by (auto simp: s clamp_step_def event_ok_def queue_after_def)
  next
    case (Deq t)
    then show ?thesis
      using uclamp_rq_dec_inv [OF ok, of Q rq ts t] inv by (auto simp: s clamp_step_def queue_after_def)
  next
    case (Req t i v user)
    let ?ts = "ts(t := set_req i (uclamp_se_set (buckets sys) v user (uclamp_req (ts t) i)) (ts t))"
    have same: "clamps ?ts = clamps ts"
      by (auto simp: clamps_def set_req_def fun_eq_iff)
    have "se_ok (buckets sys) (uclamp_req (?ts u) j)" for u j
      using inv e Req uclamp_se_set_ok [of v "buckets sys" user]
      by (auto simp: s clamp_inv_def set_req_def event_ok_def)
    moreover have "sched_class (set_req i x (ts t)) = sched_class (ts t)" for x by (simp add: set_req_def)
    ultimately show ?thesis using inv Req by (simp add: s clamp_step_def queue_after_def clamp_inv_def same)
  qed
qed

lemma clamp_run_inv:
  assumes "sys_ok sys" and "clamp_inv sys Q s" and "history_ok es Q"
  shows "\<exists>s' Q'. clamp_run sys es s = Some s' \<and> clamp_inv sys Q' s'"
  using assms(2,3)
proof (induction es arbitrary: Q s)
  case (Cons e es)
  have e: "event_ok e Q" and es: "history_ok es (queue_after e Q)"
    using Cons.prems(2) by (auto simp: queue_after_def split: clamp_event.splits)
  obtain s' where s': "clamp_step sys e s = Some s'" "clamp_inv sys (queue_after e Q) s'"
    using clamp_step_inv [OF assms(1) Cons.prems(1) e] by blast
  from Cons.IH [OF s'(2) es] s'(1) show ?case by auto
qed auto

lemma init_clamp_inv:
  assumes "sys_ok sys" and "\<forall>t i. \<not> active (uclamp (ts t) i)" and "\<forall>t i. se_ok (buckets sys) (uclamp_req (ts t) i)"
  shows "clamp_inv sys {} (init_uclamp_rq (buckets sys), ts)"
  using assms by (auto simp: clamp_inv_def id_inv_def init_uclamp_rq_def clamps_def members_def)

text \<open>
  C17. From the initial run queue, every history of enqueueing, dequeueing and requests between 0 and \<open>SCHED_CAPACITY_SCALE\<close> (1024) runs
  without leaving the buckets. Afterwards every bucket counts exactly the active tasks whose
  clamp falls into it, and neither clamp of the run queue is below that of an active task. The bound on the requests is
  part of \<open>history_ok\<close>; \<open>uclamp_validate\<close> means to enforce it, but compares signed numbers and lets some negative requests through
  (\<open>uclamp_negative_request\<close>), for which the property fails. A request takes effect when the task is enqueued the next time, and the clamps of a task group do not
  change in such a history; an update of queued tasks can break the property (\<open>uclamp_stale_idle_flag\<close>).
\<close>

theorem uclamp_buckets_correct:
  assumes "sys_ok sys" and "\<forall>t i. \<not> active (uclamp (ts t) i)" and "\<forall>t i. se_ok (buckets sys) (uclamp_req (ts t) i)"
    and "history_ok es {}"
  shows "\<exists>rq' ts'. clamp_run sys es (init_uclamp_rq (buckets sys), ts) = Some (rq', ts') \<and>
    (\<forall>i t. active (uclamp (ts' t) i) \<longrightarrow> se_value (uclamp (ts' t) i) \<le> rq_value (rq_uclamp rq' i)) \<and>
    (\<forall>i b. b < buckets sys \<longrightarrow>
      b_tasks (bucket (rq_uclamp rq' i) ! b) =
        card {t. active (uclamp (ts' t) i) \<and> uclamp_bucket_id (buckets sys) (se_value (uclamp (ts' t) i)) = b})"
proof -
  obtain m where m: "buckets sys = Suc m" using assms(1) by (cases "buckets sys") (auto simp: sys_ok_def)
  obtain rq' ts' Q where run: "clamp_run sys es (init_uclamp_rq (buckets sys), ts) = Some (rq', ts')"
    and inv: "clamp_inv sys Q (rq', ts')"
    using clamp_run_inv [OF assms(1) init_clamp_inv [OF assms(1-3)] assms(4)] by fastforce
  have "se_value (uclamp (ts' t) i) \<le> rq_value (rq_uclamp rq' i)" if "active (uclamp (ts' t) i)" for i t
    using active_below_rq_value [of m "rq_uclamp rq' i" "clamps ts' i" t] clamp_invD(1) [OF inv, of i] that
    by (simp add: m clamps_def)
  moreover have "b_tasks (bucket (rq_uclamp rq' i) ! b) =
      card {t. active (uclamp (ts' t) i) \<and> uclamp_bucket_id (buckets sys) (se_value (uclamp (ts' t) i)) = b}"
    if "b < buckets sys" for i b
  proof -
    have inv_i: "id_inv (buckets sys) (rq_uclamp rq' i) (clamps ts' i)" using clamp_invD(1) [OF inv] .
    have "members (clamps ts' i) b =
        {t. active (uclamp (ts' t) i) \<and> uclamp_bucket_id (buckets sys) (se_value (uclamp (ts' t) i)) = b}"
      using inv_i by (auto simp: id_inv_def members_def clamps_def se_ok_def)
    with inv_i that show ?thesis by (simp add: id_inv_def)
  qed
  ultimately show ?thesis using run by blast
qed

text \<open>A system with five buckets and default clamps at the scale.\<close>

definition sample_clamp_sys :: uclamp_sys where
  "sample_clamp_sys =
     \<lparr>buckets = 5, util_min = 1024, util_max = 1024, util_min_rt_default = 1024,
      uclamp_default = (\<lambda>_. \<lparr>se_value = 1024, bucket_id = 4, active = False, user_defined = False\<rparr>),
      uclamp_used = True, uclamp_enabled = (\<lambda>_. True), group_clamp = (\<lambda>_. None)\<rparr>"

theorem uclamp_buckets_correct_witness:
  "\<exists>rq ts. clamp_run sample_clamp_sys [Req 1 UCLAMP_MIN 300 True, Enq 1, Enq 2, Deq 2]
      (init_uclamp_rq (buckets sample_clamp_sys), \<lambda>_. sample_task) = Some (rq, ts) \<and>
    se_value (uclamp (ts 1) UCLAMP_MIN) = 300 \<and> 300 \<le> rq_value (rq_uclamp rq UCLAMP_MIN)"
proof -
  let ?es = "[Req 1 UCLAMP_MIN 300 True, Enq 1, Enq 2, Deq 2]"
  let ?s0 = "(init_uclamp_rq (buckets sample_clamp_sys), \<lambda>_. sample_task)"
  have "case clamp_run sample_clamp_sys ?es ?s0 of
      Some (rq, ts) \<Rightarrow> active (uclamp (ts 1) UCLAMP_MIN) \<and> se_value (uclamp (ts 1) UCLAMP_MIN) = 300 | None \<Rightarrow> False"
    by code_simp
  then obtain rq ts where r: "clamp_run sample_clamp_sys ?es ?s0 = Some (rq, ts)"
    "active (uclamp (ts 1) UCLAMP_MIN)" "se_value (uclamp (ts 1) UCLAMP_MIN) = 300"
    by (auto split: option.splits)
  have id5: "uclamp_bucket_id 5 1024 = 4" "uclamp_bucket_id 5 0 = 0" by code_simp+
  have "sys_ok sample_clamp_sys" by (simp add: sys_ok_def sample_clamp_sys_def se_ok_def id5)
  moreover have "\<forall>t i. \<not> active (uclamp ((\<lambda>_. sample_task) t) i)"
    "\<forall>t i. se_ok (buckets sample_clamp_sys) (uclamp_req ((\<lambda>_. sample_task) t) i)"
    by (simp_all add: sample_task_def se_ok_def sample_clamp_sys_def id5)
  moreover have "history_ok ?es {}" by (simp add: event_ok_def SCHED_CAPACITY_SCALE_def)
  ultimately have "\<exists>rq' ts'. clamp_run sample_clamp_sys ?es ?s0 = Some (rq', ts') \<and>
      (\<forall>i t. active (uclamp (ts' t) i) \<longrightarrow> se_value (uclamp (ts' t) i) \<le> rq_value (rq_uclamp rq' i))"
    using uclamp_buckets_correct [of sample_clamp_sys "\<lambda>_. sample_task" ?es] by blast
  then have "se_value (uclamp (ts 1) UCLAMP_MIN) \<le> rq_value (rq_uclamp rq UCLAMP_MIN)" using r(1,2) by auto
  then show ?thesis using r(1,3) by auto
qed

section \<open>Where the clamp of the run queue is wrong\<close>

text \<open>
  \<open>uclamp_update_active\<close> on the only task of a run queue leaves the idle flag set; the
  next task that is enqueued then resets both clamps of the run queue, and the run queue no
  longer honours the minimum of 800 that the first, still active task has requested.
\<close>

theorem uclamp_stale_idle_flag:
  "\<exists>rq ts. (do {
      (rq, ts) \<leftarrow> clamp_run sample_clamp_sys [Req 1 UCLAMP_MIN 800 True, Enq 1] (init_uclamp_rq 5, \<lambda>_. sample_task);
      (rq, p) \<leftarrow> uclamp_update_active sample_clamp_sys UCLAMP_MAX (rq, ts 1);
      clamp_run sample_clamp_sys [Enq 2] (rq, ts(1 := p)) }) = Some (rq, ts) \<and>
    active (uclamp (ts 1) UCLAMP_MIN) \<and> se_value (uclamp (ts 1) UCLAMP_MIN) = 800 \<and>
    rq_value (rq_uclamp rq UCLAMP_MIN) = 0"
proof -
  have "case (do {
      (rq, ts) \<leftarrow> clamp_run sample_clamp_sys [Req 1 UCLAMP_MIN 800 True, Enq 1] (init_uclamp_rq 5, \<lambda>_. sample_task);
      (rq, p) \<leftarrow> uclamp_update_active sample_clamp_sys UCLAMP_MAX (rq, ts 1);
      clamp_run sample_clamp_sys [Enq 2] (rq, ts(1 := p)) }) of
    Some (rq, ts) \<Rightarrow> active (uclamp (ts 1) UCLAMP_MIN) \<and> se_value (uclamp (ts 1) UCLAMP_MIN) = 800 \<and>
      rq_value (rq_uclamp rq UCLAMP_MIN) = 0
  | None \<Rightarrow> False" by code_simp
  then show ?thesis by (auto split: option.splits)
qed

text \<open>The first task of a run queue does not lower its maximum clamp, since the idle flag is not set initially.\<close>

lemma uclamp_first_enqueue:
  assumes "sys_ok sys" and "se_ok (buckets sys) (uclamp_req p UCLAMP_MAX)"
    and "se_value (uclamp_eff_get sys p UCLAMP_MAX) \<le> SCHED_CAPACITY_SCALE"
  shows "\<exists>rq p'. uclamp_rq_inc_id sys UCLAMP_MAX (init_uclamp_rq (buckets sys), p) = Some (rq, p') \<and>
    rq_value (rq_uclamp rq UCLAMP_MAX) = SCHED_CAPACITY_SCALE"
proof -
  obtain m where m: "buckets sys = Suc m" using assms(1) by (cases "buckets sys") (auto simp: sys_ok_def)
  let ?s = "(uclamp_eff_get sys p UCLAMP_MAX)\<lparr>active := True\<rparr>"
  have "se_ok (Suc m) ?s" using uclamp_eff_get_ok [OF assms(1,2)] by (simp add: m)
  then have "bucket_id ?s < length (bucket (rq_uclamp (init_uclamp_rq (buckets sys)) UCLAMP_MAX))"
    using se_ok_less by (simp add: init_uclamp_rq_def m)
  from inc_id_eq [OF refl this] assms(3) show ?thesis
    by (simp add: ur_inc_def Let_def init_uclamp_rq_def uclamp_none_def)
qed

text \<open>A request of -2 is accepted as valid and stored as 2046, beyond the scale.\<close>

lemma uclamp_negative_request:
  assumes "attr = \<lparr>flag_min = True, flag_max = False, attr_util_min = - 2, attr_util_max = 0\<rparr>"
  shows "uclamp_validate sys p attr \<noteq> None \<and>
    se_value (uclamp_req (setscheduler_uclamp rt_task sys attr p) UCLAMP_MIN) = 2046"
  unfolding assms
  by (simp add: uclamp_validate_def Let_def SCHED_CAPACITY_SCALE_def setscheduler_uclamp_def reset_clamp_def
      uclamp_reset_def set_req_def uclamp_se_set_def)

end
