(* ===== verification/Sched_Prio_Main.thy ===== *)
theory Sched_Prio_Main
  imports Sched_Prio Uclamp_Main
begin

text \<open>
  What the two changes of assignment 4 to the policy of a task do: a forked task is
  \<open>SCHED_FIFO\<close> by name only and deaf to its nice value, and \<open>sched_setscheduler\<close> accepts
  exactly the requests that carry a real-time priority.
\<close>

section \<open>The headers\<close>

text \<open>
  The values that \<open>linux/sched/prio.h\<close>, \<open>linux/sched/rt.h\<close>, \<open>uapi/linux/sched.h\<close> and the
  scheduler's internal header document: priorities 0 to 99 are real-time and 100 to 139
  belong to nice values -20 to 19; the policies are 0 (normal), 1 (FIFO), 2 (RR), 3 (batch),
  5 (idle) and 6 (deadline).
\<close>

definition prio_header :: "sched_hdr \<Rightarrow> bool" where
  "prio_header h \<longleftrightarrow>
     MAX_DL_PRIO h = 0 \<and> MAX_RT_PRIO h = 100 \<and> MAX_USER_RT_PRIO h = 100 \<and>
     MIN_NICE h = - 20 \<and> MAX_NICE h = 19 \<and> NICE_WIDTH h = 40 \<and>
     nice_to_prio h = (\<lambda>n. n + 120) \<and> prio_to_nice h = (\<lambda>x. x - 120) \<and>
     dl_prio h = (\<lambda>x. x < 0) \<and> rt_prio h = (\<lambda>x. x < 100)"

definition policy_header :: "sched_hdr \<Rightarrow> bool" where
  "policy_header h \<longleftrightarrow>
     SCHED_NORMAL h = 0 \<and> SCHED_FIFO h = 1 \<and> dl_policy h = (\<lambda>q. q = 6) \<and> rt_policy h = (\<lambda>q. q = 1 \<or> q = 2) \<and>
     fair_policy h = (\<lambda>q. q = 0 \<or> q = 3) \<and> idle_policy h = (\<lambda>q. q = 5) \<and>
     valid_policy h = (\<lambda>q. q \<in> {0, 1, 2, 3, 5, 6})"

text \<open>\<open>reweight_task\<close> of the fair class gives the entity the weight of the index it gets.\<close>

definition reweight_law :: "sched_hdr \<Rightarrow> bool" where
  "reweight_law h \<longleftrightarrow> (\<forall>k p. 0 \<le> k \<longrightarrow> k < 40 \<longrightarrow>
     reweight_task h k p = set_load (scale_load h (sched_prio_to_weight ! nat k)) (sched_prio_to_wmult ! nat k) p)"

definition hdr_ok :: "sched_hdr \<Rightarrow> bool" where
  "hdr_ok h \<longleftrightarrow> prio_header h \<and> policy_header h \<and> reweight_law h"

lemmas prio_facts = hdr_ok_def prio_header_def
lemmas policy_facts = hdr_ok_def policy_header_def
lemmas header_facts = prio_facts policy_header_def

definition sample_hdr :: sched_hdr where
  "sample_hdr =
     \<lparr>MAX_DL_PRIO = 0, MAX_RT_PRIO = 100, MAX_USER_RT_PRIO = 100, MIN_NICE = - 20, MAX_NICE = 19, NICE_WIDTH = 40,
      SCHED_NORMAL = 0, SCHED_FIFO = 1, nice_to_prio = (\<lambda>n. n + 120), prio_to_nice = (\<lambda>x. x - 120),
      nice_to_rlimit = (\<lambda>n. 20 - n), dl_prio = (\<lambda>x. x < 0), rt_prio = (\<lambda>x. x < 100),
      dl_policy = (\<lambda>q. q = 6), rt_policy = (\<lambda>q. q = 1 \<or> q = 2), fair_policy = (\<lambda>q. q = 0 \<or> q = 3),
      idle_policy = (\<lambda>q. q = 5), valid_policy = (\<lambda>q. q \<in> {0, 1, 2, 3, 5, 6}),
      has_reset = (\<lambda>q. q \<ge> 2 ^ 30), strip_reset = (\<lambda>q. q - 2 ^ 30), scale_load = (\<lambda>w. w * 2 ^ 10),
      WEIGHT_IDLEPRIO = 3, WMULT_IDLEPRIO = 1431655765,
      reweight_task = (\<lambda>k. set_load (sched_prio_to_weight ! nat k * 2 ^ 10) (sched_prio_to_wmult ! nat k)),
      setparam_dl = (\<lambda>p. p), top_task_prio = (\<lambda>_. None), rr_timeslice = 100\<rparr>"

lemma sample_hdr_ok: "hdr_ok sample_hdr"
  by (simp add: header_facts reweight_law_def sample_hdr_def)

section \<open>Weights\<close>

lemma length_weights [simp]: "length sched_prio_to_weight = 40" "length sched_prio_to_wmult = 40"
  by (simp_all add: sched_prio_to_weight_def sched_prio_to_wmult_def)

text \<open>The inverse weights are \<open>2^32\<close> divided by the weights, rounded to within one.\<close>

lemma wmult_inverse: "list_all2 (\<lambda>w iw. \<bar>2 ^ 32 - w * iw\<bar> \<le> w) sched_prio_to_weight sched_prio_to_wmult"
  by (simp add: sched_prio_to_weight_def sched_prio_to_wmult_def)

lemma weights_decrease: "sorted_wrt (>) sched_prio_to_weight"
  by (simp add: sched_prio_to_weight_def)

definition table_weight :: "sched_hdr \<Rightarrow> task \<Rightarrow> task" where
  "table_weight h p =
     set_load (scale_load h (sched_prio_to_weight ! nat (static_prio p - 100)))
       (sched_prio_to_wmult ! nat (static_prio p - 100)) p"

text \<open>With a static priority of a nice value the tables are never left.\<close>

lemma set_load_weight_eq:
  assumes "hdr_ok h" and "100 \<le> static_prio p" and "static_prio p < 140" and "policy p \<noteq> 5"
  shows "set_load_weight h up p = Some (table_weight h p)"
  using assms by (simp add: set_load_weight_def Let_def table_weight_def header_facts reweight_law_def nat_less_iff)

lemma set_load_fields [simp]:
  "policy (set_load w iw p) = policy p" "static_prio (set_load w iw p) = static_prio p"
  "prio (set_load w iw p) = prio p" "rt_priority (set_load w iw p) = rt_priority p"
  "sched_class (set_load w iw p) = sched_class p" "normal_prio (set_load w iw p) = normal_prio p"
  "weight (load (se (set_load w iw p))) = w" "sched_reset_on_fork (set_load w iw p) = sched_reset_on_fork p"
  by (simp_all add: set_load_def)

lemma table_weight_fields [simp]:
  "policy (table_weight h p) = policy p" "static_prio (table_weight h p) = static_prio p"
  "prio (table_weight h p) = prio p" "rt_priority (table_weight h p) = rt_priority p"
  "sched_class (table_weight h p) = sched_class p" "normal_prio (table_weight h p) = normal_prio p"
  "sched_reset_on_fork (table_weight h p) = sched_reset_on_fork p"
  by (simp_all add: table_weight_def)

lemma set_load_weight_some:
  assumes "hdr_ok h" and "100 \<le> static_prio p" and "static_prio p < 140"
  obtains w iw where "set_load_weight h up p = Some (set_load w iw p)"
proof (cases "policy p = 5")
  case True
  then show ?thesis using assms(1) that by (simp add: set_load_weight_def Let_def header_facts)
next
  case False
  then show ?thesis using set_load_weight_eq [OF assms] that by (simp add: table_weight_def)
qed

section \<open>Nice\<close>

text \<open>For a real-time policy only the static priority changes, for any other the weight and the priority do.\<close>

lemma set_user_nice_rt:
  assumes "hdr_ok h" and "rt_policy h (policy p)" and "- 20 \<le> n" and "n \<le> 19"
  shows "set_user_nice h n p = Some (p\<lparr>static_prio := n + 120\<rparr>)"
  using assms by (auto simp: set_user_nice_def task_nice_def header_facts)

lemma set_user_nice_normal:
  assumes "hdr_ok h" and "policy p = 0" and "- 20 \<le> n" and "n \<le> 19" and "task_nice h p \<noteq> n" and "100 \<le> prio p"
  shows "set_user_nice h n p =
    Some ((table_weight h (p\<lparr>static_prio := n + 120\<rparr>))\<lparr>normal_prio := n + 120, prio := n + 120\<rparr>)"
  using assms
  by (simp add: set_user_nice_def set_load_weight_eq effective_prio_def normal_prio_of_def Let_def header_facts)

definition nice_after :: "int \<Rightarrow> int \<Rightarrow> int" where
  "nice_after old increment = clamp_int (old + clamp_int increment (- 40) 40) (- 20) 19"

lemma nice_after_bounds: "- 20 \<le> nice_after old i" "nice_after old i \<le> 19"
  by (simp_all add: nice_after_def clamp_int_def)

lemma sys_nice_allowed:
  assumes "hdr_ok h" and "cap_sys_nice ctx" and "security ctx = 0"
  shows "sys_nice h ctx i p = map_option Inr (set_user_nice h (nice_after (task_nice h p) i) p)"
  using assms by (simp add: sys_nice_def Let_def nice_after_def can_nice_def header_facts map_conv_bind_option comp_def)


section \<open>Fork\<close>

lemma uclamp_fork_fields [simp]:
  "policy (uclamp_fork n p) = policy p" "prio (uclamp_fork n p) = prio p"
  "static_prio (uclamp_fork n p) = static_prio p" "se (uclamp_fork n p) = se p"
  "sched_reset_on_fork (uclamp_fork n p) = sched_reset_on_fork p"
  by (simp_all add: uclamp_fork_def Let_def)

text \<open>
  The assignment's line in \<open>sched_fork\<close> gives every child the policy \<open>SCHED_FIFO\<close> and
  nothing else. A child of a parent with a normal priority stays in the fair class with the
  parent's weight and priority. From then on a \<open>nice\<close> that is permitted only changes
  the static priority: neither the weight nor the priority that the fair class uses. For
  a task whose policy is still \<open>SCHED_NORMAL\<close> the same call moves the priority
  and gives the weight of the new nice value.
\<close>

theorem forked_fifo_ignores_nice:
  assumes "hdr_ok h" and "100 \<le> parent_prio" and "\<not> sched_reset_on_fork p" and "cap_sys_nice ctx" and "security ctx = 0"
    and "policy q = SCHED_NORMAL h" and "100 \<le> prio q" and "nice_after (task_nice h q) i \<noteq> task_nice h q"
  shows "(\<exists>c. sched_fork h n on parent_prio p = Some (Inr c) \<and> policy c = SCHED_FIFO h \<and>
      sched_class c = Fair_Class \<and> prio c = parent_prio \<and> load (se c) = load (se p) \<and>
      sys_nice h ctx i c = Some (Inr (c\<lparr>static_prio := 120 + nice_after (task_nice h p) i\<rparr>))) \<and>
    (\<exists>q'. sys_nice h ctx i q = Some (Inr q') \<and> prio q' = 120 + nice_after (task_nice h q) i \<and>
      weight (load (se q')) = scale_load h (sched_prio_to_weight ! nat (20 + nice_after (task_nice h q) i)))"
proof
  let ?a = "(uclamp_fork n ((sched_fork_init h p)\<lparr>state := TASK_NEW, cpu_burst := 0, prio := parent_prio\<rparr>))
    \<lparr>policy := SCHED_FIFO h, sched_class := Fair_Class\<rparr>"
  let ?c = "if on then ?a\<lparr>info := zero_info\<rparr> else ?a"
  have fork: "sched_fork h n on parent_prio p = Some (Inr ?c)"
    using assms(1-3) by (simp add: sched_fork_def Let_def sched_fork_init_def header_facts)
  have c: "policy ?c = SCHED_FIFO h" "sched_class ?c = Fair_Class" "prio ?c = parent_prio"
    "load (se ?c) = load (se p)" "task_nice h ?c = task_nice h p"
    by (simp_all add: sched_fork_init_def task_nice_def)
  have "sys_nice h ctx i ?c = Some (Inr (?c\<lparr>static_prio := 120 + nice_after (task_nice h p) i\<rparr>))"
    unfolding sys_nice_allowed [OF assms(1,4,5)] c(5)
    using assms(1) c(1) by (subst set_user_nice_rt) (simp_all add: nice_after_bounds header_facts add.commute)
  with fork c show "\<exists>c. sched_fork h n on parent_prio p = Some (Inr c) \<and> policy c = SCHED_FIFO h \<and>
      sched_class c = Fair_Class \<and> prio c = parent_prio \<and> load (se c) = load (se p) \<and>
      sys_nice h ctx i c = Some (Inr (c\<lparr>static_prio := 120 + nice_after (task_nice h p) i\<rparr>))"
    by blast
  have "policy q = 0" using assms(1,6) by (simp add: header_facts)
  then show "\<exists>q'. sys_nice h ctx i q = Some (Inr q') \<and> prio q' = 120 + nice_after (task_nice h q) i \<and>
      weight (load (se q')) = scale_load h (sched_prio_to_weight ! nat (20 + nice_after (task_nice h q) i))"
    using assms(1,7) assms(8) [symmetric] sys_nice_allowed [OF assms(1,4,5)]
    by (simp add: set_user_nice_normal nice_after_bounds table_weight_def add.commute)
qed

definition sample_ctx :: sched_ctx where
  "sample_ctx =
     \<lparr>cap_sys_nice = True, rlimit_nice = 20, rlimit_rtprio = 0, same_owner = True, security = 0, is_stop = False,
      checkparam_dl = True, dl_changed = False, rt_group_refuses = False, dl_bw_refuses = False, dl_overflow = False\<rparr>"

theorem forked_fifo_ignores_nice_witness:
  "(\<exists>c. sched_fork sample_hdr 5 True 120 sample_task = Some (Inr c) \<and> policy c = 1 \<and> sched_class c = Fair_Class \<and>
      sys_nice sample_hdr sample_ctx 5 c = Some (Inr (c\<lparr>static_prio := 125\<rparr>))) \<and>
    (\<exists>q'. sys_nice sample_hdr sample_ctx 5 sample_task = Some (Inr q') \<and> prio q' = 125 \<and>
      weight (load (se q')) = 335 * 1024)"
proof -
  have s: "SCHED_FIFO sample_hdr = 1" "SCHED_NORMAL sample_hdr = 0" "scale_load sample_hdr = (\<lambda>w. w * 1024)"
    "policy sample_task = 0" "prio sample_task = 120" "\<not> sched_reset_on_fork sample_task"
    "cap_sys_nice sample_ctx" "security sample_ctx = 0"
    and n: "nice_after 0 5 = 5" "task_nice sample_hdr sample_task = 0"
    by (simp_all add: sample_hdr_def sample_task_def sample_ctx_def task_nice_def nice_after_def clamp_int_def)
  have w: "sched_prio_to_weight ! 25 = 335" by (simp add: sched_prio_to_weight_def)
  show ?thesis
    using forked_fifo_ignores_nice [OF sample_hdr_ok, of 120 sample_task sample_ctx sample_task 5 5 True]
    by (auto simp: s n w)
qed


section \<open>Setting the policy\<close>

text \<open>
  Without the reset bit, and for the -1 of \<open>sched_setparam\<close>, \<open>_sched_setscheduler\<close> asks for \<open>SCHED_FIFO\<close>,
  whatever was requested.
\<close>

lemma setscheduler_attr_forced:
  assumes "pol = - 1 \<or> \<not> has_reset h pol"
  shows "sched_setscheduler_attr h pol pri p =
    \<lparr>attr_policy = SCHED_FIFO h, attr_priority = pri mod 2 ^ 32, attr_nice = prio_to_nice h (static_prio p),
     attr_reset_on_fork = False, attr_keep_params = False, attr_sugov = False, attr_unknown = False,
     attr_clamp = no_clamp\<rparr>"
  using assms by (auto simp: sched_setscheduler_attr_def Let_def)

lemma int32_mod_range:
  assumes "- (2 ^ 31) \<le> (x::int)" and "x < 2 ^ 31"
  shows "x mod 2 ^ 32 = (if 0 \<le> x then x else x + 2 ^ 32)"
proof (cases "0 \<le> x")
  case False
  have "(x + 2 ^ 32) mod 2 ^ 32 = x + 2 ^ 32" using assms False by (intro mod_pos_pos_trivial) auto
  then show ?thesis using False by simp
qed (use assms in auto)

lemma setscheduler_refused:
  assumes h: "hdr_ok h" and pol: "pol = - 1 \<or> \<not> has_reset h pol" and range: "- (2 ^ 31) \<le> pri" "pri < 2 ^ 31"
    and pri: "\<not> (1 \<le> pri \<and> pri \<le> 99)"
  shows "sched_setscheduler h ctx sys pol pri user p = Some (sys, Inl EINVAL)"
proof -
  have "pri mod 2 ^ 32 = 0 \<or> 99 < pri mod 2 ^ 32" unfolding int32_mod_range [OF range] using pri range by auto
  then have "setscheduler_check h ctx (sched_setscheduler_attr h pol pri p) user 1 False p = Some EINVAL"
    using h by (auto simp: setscheduler_check_def setscheduler_attr_forced [OF pol] header_facts)
  then show ?thesis
    using h by (simp add: sched_setscheduler_def sched_setscheduler_raw_def Let_def setscheduler_attr_forced [OF pol] header_facts)
qed

lemma setscheduler_accepted:
  assumes h: "hdr_ok h" and pol: "pol = - 1 \<or> \<not> has_reset h pol" and pri: "1 \<le> pri" "pri \<le> 99"
    and user: "user \<Longrightarrow> cap_sys_nice ctx \<and> security ctx = 0"
  shows "sched_setscheduler h ctx sys pol pri user p =
    map_option (Pair sys) (setscheduler_change h ctx sys (sched_setscheduler_attr h pol pri p) user True 1 False p)"
proof -
  have "pri mod 2 ^ 32 = pri" using pri by simp
  then have "setscheduler_check h ctx (sched_setscheduler_attr h pol pri p) user 1 False p = None"
    using h pri user by (auto simp: setscheduler_check_def setscheduler_attr_forced [OF pol] header_facts)
  then show ?thesis
    using h by (simp add: sched_setscheduler_def sched_setscheduler_raw_def Let_def setscheduler_attr_forced [OF pol]
        header_facts no_clamp_def map_conv_bind_option comp_def)
qed


lemma setscheduler_uclamp_fields [simp]:
  "policy (setscheduler_uclamp rtf sys a p) = policy p" "prio (setscheduler_uclamp rtf sys a p) = prio p"
  "rt_priority (setscheduler_uclamp rtf sys a p) = rt_priority p"
  "sched_class (setscheduler_uclamp rtf sys a p) = sched_class p"
  "static_prio (setscheduler_uclamp rtf sys a p) = static_prio p"
  by (simp_all add: setscheduler_uclamp_def reset_clamp_def set_req_def Let_def)

text \<open>\<open>__setscheduler\<close> for \<open>SCHED_FIFO\<close> on a task that is not boosted.\<close>

lemma setscheduler_fifo:
  assumes "hdr_ok h" and "100 \<le> static_prio p" and "static_prio p < 140" and "top_task_prio h = (\<lambda>_. None)"
    and "1 \<le> attr_priority attr" and "attr_priority attr \<le> 99" and "attr_policy attr = 1" and "\<not> attr_keep_params attr"
  shows "\<exists>q. setscheduler h attr keep p = Some q \<and> policy q = 1 \<and> rt_priority q = attr_priority attr \<and>
    prio q = 99 - attr_priority attr \<and> sched_class q = Rt_Class \<and> static_prio q = static_prio p"
  using assms
  by (simp add: setscheduler_def setscheduler_params_def set_load_weight_eq normal_prio_of_def rt_effective_prio_def
      class_of_prio_def Let_def header_facts)

text \<open>What is left in the task.\<close>

definition made_fifo :: "sched_hdr \<Rightarrow> int \<Rightarrow> task \<Rightarrow> task \<Rightarrow> bool" where
  "made_fifo h pri p p' \<longleftrightarrow> policy p' = SCHED_FIFO h \<and> rt_priority p' = pri \<and> task_nice h p' = task_nice h p \<and>
     (policy p \<noteq> SCHED_FIFO h \<or> rt_priority p \<noteq> pri \<longrightarrow> prio p' = 99 - pri \<and> sched_class p' = Rt_Class) \<and>
     (policy p = SCHED_FIFO h \<and> rt_priority p = pri \<longrightarrow> p' = p\<lparr>sched_reset_on_fork := False\<rparr>)"

lemma setscheduler_made_fifo:
  assumes h: "hdr_ok h" and pol: "pol = - 1 \<or> \<not> has_reset h pol" and pri: "1 \<le> pri" "pri \<le> 99"
    and prio: "100 \<le> static_prio p" "static_prio p < 140" "0 \<le> prio p" and boost: "top_task_prio h = (\<lambda>_. None)"
    and stop: "\<not> is_stop ctx"
    and user: "user \<Longrightarrow> cap_sys_nice ctx \<and> security ctx = 0 \<and> \<not> rt_group_refuses ctx"
  shows "\<exists>p'. sched_setscheduler h ctx sys pol pri user p = Some (sys, Inr p') \<and> made_fifo h pri p p'"
proof -
  let ?attr = "sched_setscheduler_attr h pol pri p"
  have attr: "attr_policy ?attr = 1" "attr_priority ?attr = pri" "attr_clamp ?attr = no_clamp"
    "\<not> attr_keep_params ?attr" "\<not> attr_sugov ?attr" "attr_nice ?attr = task_nice h p"
    using h pri by (simp_all add: setscheduler_attr_forced [OF pol] header_facts task_nice_def)
  obtain q where q: "setscheduler h ?attr True (p\<lparr>sched_reset_on_fork := False\<rparr>) = Some q" "policy q = 1"
    "rt_priority q = pri" "prio q = 99 - pri" "sched_class q = Rt_Class" "static_prio q = static_prio p"
    using setscheduler_fifo [OF h, of "p\<lparr>sched_reset_on_fork := False\<rparr>" ?attr] pri prio boost attr by auto
  have "sched_setscheduler h ctx sys pol pri user p =
      map_option (Pair sys) (setscheduler_change h ctx sys ?attr user True 1 False p)"
    using setscheduler_accepted [OF h pol] pri user by blast
  moreover have "setscheduler_change h ctx sys ?attr user True 1 False p =
      Some (Inr (if policy p = 1 \<and> rt_priority p = pri then p\<lparr>sched_reset_on_fork := False\<rparr>
        else setscheduler_uclamp (\<lambda>t. rt_prio h (prio t)) sys no_clamp q))"
    using h prio stop user q(1) by (auto simp: setscheduler_change_def attr no_clamp_def header_facts)
  ultimately show ?thesis using h q(2-6) by (simp add: made_fifo_def task_nice_def header_facts)
qed

text \<open>
  With the assignment's line in \<open>_sched_setscheduler\<close> the requested policy is ignored: for
  every policy without the reset bit (\<open>SCHED_NORMAL\<close> too) a priority outside 1 to 99, and so
  the only valid one for \<open>SCHED_NORMAL\<close>, is refused with \<open>EINVAL\<close>; a priority \<open>r\<close> from 1 to 99 by a
  permitted caller makes the task \<open>SCHED_FIFO\<close> with that priority, and if this
  changes anything the task enters the real-time class with priority \<open>99 - r\<close>. The nice
  value is kept.
\<close>

theorem setscheduler_forces_fifo:
  assumes h: "hdr_ok h" and pol: "\<not> has_reset h pol" and range: "- (2 ^ 31) \<le> pri" "pri < 2 ^ 31"
    and prio: "100 \<le> static_prio p" "static_prio p < 140" "0 \<le> prio p" and boost: "top_task_prio h = (\<lambda>_. None)"
    and stop: "\<not> is_stop ctx"
    and user: "user \<Longrightarrow> cap_sys_nice ctx \<and> security ctx = 0 \<and> \<not> rt_group_refuses ctx"
  shows "if 1 \<le> pri \<and> pri \<le> 99
    then \<exists>p'. sched_setscheduler h ctx sys pol pri user p = Some (sys, Inr p') \<and> made_fifo h pri p p'
    else sched_setscheduler h ctx sys pol pri user p = Some (sys, Inl EINVAL)"
  using setscheduler_made_fifo [OF h _ _ _ prio boost stop user] setscheduler_refused [OF h _ range] pol by simp

theorem setscheduler_forces_fifo_witness:
  "(\<exists>p'. sched_setscheduler sample_hdr sample_ctx sample_clamp_sys 0 10 True sample_task = Some (sample_clamp_sys, Inr p') \<and>
      policy p' = 1 \<and> prio p' = 89 \<and> sched_class p' = Rt_Class) \<and>
    sched_setscheduler sample_hdr sample_ctx sample_clamp_sys 0 0 True sample_task = Some (sample_clamp_sys, Inl EINVAL)"
proof -
  have s: "SCHED_FIFO sample_hdr = 1" "\<not> has_reset sample_hdr 0" "top_task_prio sample_hdr = (\<lambda>_. None)"
    "static_prio sample_task = 120" "prio sample_task = 120" "policy sample_task = 0"
    "cap_sys_nice sample_ctx" "security sample_ctx = 0" "\<not> is_stop sample_ctx" "\<not> rt_group_refuses sample_ctx"
    by (simp_all add: sample_hdr_def sample_task_def sample_ctx_def)
  show ?thesis
    using setscheduler_forces_fifo [OF sample_hdr_ok, of 0 10 sample_task sample_ctx True sample_clamp_sys]
      setscheduler_forces_fifo [OF sample_hdr_ok, of 0 0 sample_task sample_ctx True sample_clamp_sys]
    by (auto simp: s made_fifo_def)
qed

end
