(* ===== verification/Task_Group.thy ===== *)
theory Task_Group
  imports Sched_Prio
begin

text \<open>
  Task groups, \<open>core.c\<close> of assignment 4: the walk over the tree of groups, and the limits of the
  processor time of a group (\<open>cfs_quota_us\<close>, \<open>cfs_period_us\<close>, \<open>cpu.max\<close>). Groups are numbers, the
  store of the groups is a function. Unsigned 64-bit values are integers from 0 to
  \<open>2^64 - 1\<close>, signed ones are converted by \<open>s64\<close>. Calls into \<open>fair.c\<close>, which is not
  among the sources, are recorded in the order in which they happen.
\<close>

definition u64 :: "int \<Rightarrow> int" where
  "u64 x = x mod 2 ^ 64"

definition s64 :: "int \<Rightarrow> int" where
  "s64 x = (x + 2 ^ 63) mod 2 ^ 64 - 2 ^ 63"

record cfs_rq =
  runtime_enabled :: bool
  runtime_remaining :: int
  throttled :: bool

record task_group =
  tg_parent :: "nat option"
  tg_children :: "nat list"
  shares :: int
  cfs_period :: int
  cfs_quota :: int
  hierarchical_quota :: int
  tg_cfs_rq :: "nat \<Rightarrow> cfs_rq"
  tg_uclamp_req :: "uclamp_id \<Rightarrow> uclamp_se"
  tg_uclamp :: "uclamp_id \<Rightarrow> uclamp_se"
  uclamp_pct :: "uclamp_id \<Rightarrow> int"

type_synonym groups = "nat \<Rightarrow> task_group"
type_synonym visitor = "nat \<Rightarrow> groups \<Rightarrow> sched_error option \<times> groups"

section \<open>The walk\<close>

text \<open>
  \<open>walk_tg_tree_from\<close> jumps between the label \<open>down\<close> and the head of the loop over the children of
  \<open>parent\<close>; the latter is reached with the children that are left. A visitor returns \<open>None\<close> for 0.
\<close>

datatype walk_pc = At_Down nat | At_Loop nat "nat list"

definition siblings_after :: "nat \<Rightarrow> nat list \<Rightarrow> nat list" where
  "siblings_after c cs = tl (dropWhile (\<lambda>x. x \<noteq> c) cs)"

partial_function (option) walk_tg ::
    "visitor \<Rightarrow> visitor \<Rightarrow> nat \<Rightarrow> walk_pc \<Rightarrow> groups \<Rightarrow> (sched_error option \<times> groups) option" where
  "walk_tg down up frm pc G =
     (case pc of
        At_Down p \<Rightarrow>
          (case down p G of (ret, G') \<Rightarrow>
             if ret \<noteq> None then Some (ret, G')
             else walk_tg down up frm (At_Loop p (tg_children (G' p))) G')
      | At_Loop p cs \<Rightarrow>
          (case cs of
             c # _ \<Rightarrow> walk_tg down up frm (At_Down c) G
           | [] \<Rightarrow>
               (case up p G of (ret, G') \<Rightarrow>
                  if ret \<noteq> None \<or> p = frm then Some (ret, G')
                  else (case tg_parent (G' p) of
                          None \<Rightarrow> Some (ret, G')
                        | Some q \<Rightarrow> walk_tg down up frm (At_Loop q (siblings_after p (tg_children (G' q)))) G'))))"

definition walk_tg_tree_from :: "nat \<Rightarrow> visitor \<Rightarrow> visitor \<Rightarrow> groups \<Rightarrow> (sched_error option \<times> groups) option" where
  "walk_tg_tree_from frm down up G = walk_tg down up frm (At_Down frm) G"

definition tg_nop :: visitor where
  "tg_nop g G = (None, G)"

text \<open>The tree that the pointers describe, and its recursive visit.\<close>

datatype gtree = Group (root: nat) (subs: "gtree list")

fun ids :: "gtree \<Rightarrow> nat list" where
  "ids (Group g ts) = g # concat (map ids ts)"

fun holds :: "groups \<Rightarrow> gtree \<Rightarrow> bool" where
  "holds G (Group g ts) \<longleftrightarrow>
     tg_children (G g) = map root ts \<and> (\<forall>t \<in> set ts. tg_parent (G (root t)) = Some g \<and> holds G t)"

fun visit :: "visitor \<Rightarrow> visitor \<Rightarrow> gtree \<Rightarrow> groups \<Rightarrow> sched_error option \<times> groups"
  and visits :: "visitor \<Rightarrow> visitor \<Rightarrow> gtree list \<Rightarrow> groups \<Rightarrow> sched_error option \<times> groups" where
  "visit down up (Group g ts) G =
     (case down g G of (ret, G1) \<Rightarrow>
        if ret \<noteq> None then (ret, G1)
        else (case visits down up ts G1 of (ret, G2) \<Rightarrow> if ret \<noteq> None then (ret, G2) else up g G2))"
| "visits down up [] G = (None, G)"
| "visits down up (t # ts) G =
     (case visit down up t G of (ret, G1) \<Rightarrow> if ret \<noteq> None then (ret, G1) else visits down up ts G1)"

section \<open>The walk is the recursive visit\<close>

definition same_shape :: "groups \<Rightarrow> groups \<Rightarrow> bool" where
  "same_shape G H \<longleftrightarrow> (\<forall>g. tg_parent (G g) = tg_parent (H g) \<and> tg_children (G g) = tg_children (H g))"

lemma same_shapeD: "same_shape G H \<Longrightarrow> tg_parent (H g) = tg_parent (G g)" "same_shape G H \<Longrightarrow> tg_children (H g) = tg_children (G g)"
  by (simp_all add: same_shape_def)

lemma same_shape_refl [simp]: "same_shape G G"
  by (simp add: same_shape_def)

lemma same_shape_trans [trans]: "same_shape G H \<Longrightarrow> same_shape H K \<Longrightarrow> same_shape G K"
  by (simp add: same_shape_def)

lemma holds_same_shape: "same_shape G H \<Longrightarrow> holds G t \<Longrightarrow> holds H t"
  by (induction t) (auto simp: same_shape_def)

lemma root_in_ids [simp]: "root t \<in> set (ids t)"
  by (cases t) simp

lemma siblings_after_split:
  assumes "distinct (pre @ c # post)"
  shows "siblings_after c (pre @ c # post) = post"
proof -
  have "\<forall>x \<in> set pre. x \<noteq> c" using assms by auto
  then have "dropWhile (\<lambda>x. x \<noteq> c) (pre @ c # post) = c # post" by (induction pre) auto
  then show ?thesis by (simp add: siblings_after_def)
qed

lemma distinct_roots: "distinct (concat (map ids ts)) \<Longrightarrow> distinct (map root ts)"
proof (induction ts)
  case (Cons t ts)
  have "root t \<noteq> root u" if "u \<in> set ts" for u
  proof
    assume eq: "root t = root u"
    have "root u \<in> (\<Union>x \<in> set ts. set (ids x))" using that root_in_ids by blast
    moreover have "root u \<in> set (ids t)" using root_in_ids [of t] by (simp only: eq)
    ultimately show False using Cons.prems by auto
  qed
  then show ?case using Cons by auto
qed simp

lemma distinct_child: "distinct (concat (map ids ts)) \<Longrightarrow> t \<in> set ts \<Longrightarrow> distinct (ids t)"
  by (induction ts) auto

locale tg_visitors =
  fixes down up :: visitor
  assumes down_shape: "same_shape G (snd (down g G))"
    and up_shape: "same_shape G (snd (up g G))"
begin

lemma visits_shape:
  assumes "\<And>t G. t \<in> set ts \<Longrightarrow> same_shape G (snd (visit down up t G))"
  shows "same_shape G (snd (visits down up ts G))"
  using assms
proof (induction ts arbitrary: G)
  case (Cons t ts)
  have "same_shape G (snd (visit down up t G))" using Cons.prems by simp
  moreover have "same_shape H (snd (visits down up ts H))" for H using Cons by simp
  ultimately show ?case by (auto split: prod.splits dest: same_shape_trans) (metis same_shape_trans snd_conv)
qed simp

lemma visit_shape: "same_shape G (snd (visit down up t G))"
proof (induction t arbitrary: G)
  case (Group g ts)
  obtain r1 G1 where 1: "down g G = (r1, G1)" by force
  obtain r2 G2 where 2: "visits down up ts G1 = (r2, G2)" by force
  have "same_shape G G1" using down_shape [of G g] 1 by simp
  moreover have "same_shape G1 G2" using visits_shape [of ts G1] Group 2 by simp
  moreover have "same_shape G2 (snd (up g G2))" by (rule up_shape)
  ultimately show ?case by (auto simp: 1 2 dest: same_shape_trans)
qed

text \<open>What the walk does below the node \<open>p\<close>, given what it does for each child.\<close>

lemma walk_children:
  assumes "\<And>t G. t \<in> set ts \<Longrightarrow> holds G t \<Longrightarrow> tg_parent (G (root t)) = Some p \<Longrightarrow>
      walk_tg down up frm (At_Down (root t)) G =
      (case visit down up t G of (ret, G') \<Rightarrow> if ret \<noteq> None then Some (ret, G')
       else walk_tg down up frm (At_Loop p (siblings_after (root t) (tg_children (G' p)))) G')"
    and "\<forall>t \<in> set ts. holds G t \<and> tg_parent (G (root t)) = Some p"
    and "tg_children (G p) = pre @ map root ts" and "distinct (tg_children (G p))"
  shows "walk_tg down up frm (At_Loop p (map root ts)) G =
    (case visits down up ts G of (ret, G') \<Rightarrow> if ret \<noteq> None then Some (ret, G')
     else walk_tg down up frm (At_Loop p []) G')"
  using assms
proof (induction ts arbitrary: G pre)
  case (Cons t ts)
  obtain r H where v: "visit down up t G = (r, H)" by force
  have sh: "same_shape G H" using visit_shape [of G t] v by simp
  have kids: "tg_children (H p) = (pre @ [root t]) @ map root ts" "distinct (tg_children (H p))"
    using Cons.prems(3,4) same_shapeD(2) [OF sh] by auto
  then have sib: "siblings_after (root t) (tg_children (H p)) = map root ts"
    using siblings_after_split [of pre "root t" "map root ts"] by simp
  have down: "walk_tg down up frm (At_Loop p (map root (t # ts))) G = walk_tg down up frm (At_Down (root t)) G"
    by (subst walk_tg.simps) simp
  have "\<forall>t \<in> set ts. holds H t \<and> tg_parent (H (root t)) = Some p"
    using Cons.prems(2) holds_same_shape [OF sh] same_shapeD(1) [OF sh] by auto
  then have "walk_tg down up frm (At_Loop p (map root ts)) H =
      (case visits down up ts H of (ret, G') \<Rightarrow> if ret \<noteq> None then Some (ret, G')
       else walk_tg down up frm (At_Loop p []) G')"
    using Cons.IH [of H "pre @ [root t]"] Cons.prems(1) kids by (simp del: append_assoc)
  then show ?case unfolding down using Cons.prems(1) [of t G] Cons.prems(2) by (simp add: v sib)
qed simp

lemma visits_shape_all: "same_shape G (snd (visits down up ts G))"
  by (rule visits_shape) (rule visit_shape)

lemma walk_node:
  assumes kids: "\<And>t G. t \<in> set ts \<Longrightarrow> holds G t \<Longrightarrow> tg_parent (G (root t)) = Some g \<Longrightarrow>
      walk_tg down up frm (At_Down (root t)) G =
      (case visit down up t G of (ret, G') \<Rightarrow> if ret \<noteq> None then Some (ret, G')
       else walk_tg down up frm (At_Loop g (siblings_after (root t) (tg_children (G' g)))) G')"
    and "holds G (Group g ts)" and "distinct (ids (Group g ts))"
  shows "walk_tg down up frm (At_Down g) G =
    (case visit down up (Group g ts) G of (ret, G') \<Rightarrow> if ret \<noteq> None \<or> g = frm then Some (ret, G')
     else (case tg_parent (G g) of None \<Rightarrow> Some (ret, G')
           | Some q \<Rightarrow> walk_tg down up frm (At_Loop q (siblings_after g (tg_children (G' q)))) G'))"
proof -
  obtain r1 G1 where 1: "down g G = (r1, G1)" by force
  obtain r2 G2 where 2: "visits down up ts G1 = (r2, G2)" by force
  obtain r3 G3 where 3: "up g G2 = (r3, G3)" by force
  have s1: "same_shape G G1" using down_shape [of G g] 1 by simp
  have s2: "same_shape G1 G2" using visits_shape_all [of G1 ts] 2 by simp
  have s3: "same_shape G2 G3" using up_shape [of G2 g] 3 by simp
  have h1: "holds G1 (Group g ts)" using holds_same_shape [OF s1] assms(2) by blast
  have "walk_tg down up frm (At_Loop g (map root ts)) G1 =
      (case visits down up ts G1 of (ret, G') \<Rightarrow> if ret \<noteq> None then Some (ret, G')
       else walk_tg down up frm (At_Loop g []) G')"
    using h1 distinct_roots [of ts] assms(3) by (intro walk_children [where pre = "[]"] kids) auto
  moreover have "walk_tg down up frm (At_Loop g []) G2 =
      (if r3 \<noteq> None \<or> g = frm then Some (r3, G3)
       else (case tg_parent (G g) of None \<Rightarrow> Some (r3, G3)
             | Some q \<Rightarrow> walk_tg down up frm (At_Loop q (siblings_after g (tg_children (G3 q)))) G3))"
    using same_shape_trans [OF same_shape_trans [OF s1 s2] s3]
    by (subst walk_tg.simps) (simp add: 3 same_shapeD(1))
  ultimately show ?thesis using h1 by (subst walk_tg.simps) (simp add: 1 2 3)
qed

lemma walk_subtree:
  assumes "holds G t" and "distinct (ids t)" and "frm \<notin> set (ids t)" and "tg_parent (G (root t)) = Some p"
  shows "walk_tg down up frm (At_Down (root t)) G =
    (case visit down up t G of (ret, G') \<Rightarrow> if ret \<noteq> None then Some (ret, G')
     else walk_tg down up frm (At_Loop p (siblings_after (root t) (tg_children (G' p)))) G')"
  using assms
proof (induction t arbitrary: G p)
  case (Group g ts)
  have kids: "walk_tg down up frm (At_Down (root t)) H =
      (case visit down up t H of (ret, G') \<Rightarrow> if ret \<noteq> None then Some (ret, G')
       else walk_tg down up frm (At_Loop g (siblings_after (root t) (tg_children (G' g)))) G')"
    if "t \<in> set ts" "holds H t" "tg_parent (H (root t)) = Some g" for t H
    by (rule Group.IH [OF that(1,2) _ _ that(3)])
      (use that(1) Group.prems(2,3) distinct_child [of ts t] in auto)
  obtain r H where v: "visit down up (Group g ts) G = (r, H)" by force
  have p: "g \<noteq> frm" "tg_parent (G g) = Some p" using Group.prems(3,4) by auto
  have node: "walk_tg down up frm (At_Down g) G =
      (case visit down up (Group g ts) G of (ret, G') \<Rightarrow> if ret \<noteq> None \<or> g = frm then Some (ret, G')
       else (case tg_parent (G g) of None \<Rightarrow> Some (ret, G')
             | Some q \<Rightarrow> walk_tg down up frm (At_Loop q (siblings_after g (tg_children (G' q)))) G'))"
    by (rule walk_node [OF kids Group.prems(1,2)])
  show ?case unfolding gtree.sel node v using p by simp
qed

text \<open>The walk from the root ends, and its result is that of the recursive visit.\<close>

lemma walk_tg_tree_from_visit:
  assumes "holds G t" and "distinct (ids t)"
  shows "walk_tg_tree_from (root t) down up G = Some (visit down up t G)"
proof (cases t)
  case (Group g ts)
  have kids: "walk_tg down up g (At_Down (root t')) H =
      (case visit down up t' H of (ret, G') \<Rightarrow> if ret \<noteq> None then Some (ret, G')
       else walk_tg down up g (At_Loop g (siblings_after (root t') (tg_children (G' g)))) G')"
    if "t' \<in> set ts" "holds H t'" "tg_parent (H (root t')) = Some g" for t' H
    by (rule walk_subtree [OF that(2) _ _ that(3)])
      (use that(1) assms(2) distinct_child [of ts t'] in \<open>auto simp: Group\<close>)
  obtain r H where v: "visit down up (Group g ts) G = (r, H)" by force
  have node: "walk_tg down up g (At_Down g) G =
      (case visit down up (Group g ts) G of (ret, G') \<Rightarrow> if ret \<noteq> None \<or> g = g then Some (ret, G')
       else (case tg_parent (G g) of None \<Rightarrow> Some (ret, G')
             | Some q \<Rightarrow> walk_tg down up g (At_Loop q (siblings_after g (tg_children (G' q)))) G'))"
    by (rule walk_node [OF kids assms [unfolded Group]])
  show ?thesis unfolding walk_tg_tree_from_def Group gtree.sel node v by simp
qed

end

end
