(* ===== verification/Cfs_Bandwidth.thy ===== *)
theory Cfs_Bandwidth
  imports Task_Group
begin

text \<open>
  The limits of the processor time of task groups, \<open>core.c\<close> of assignment 4: reading and writing
  quota and period of a group, and the check that no group gets more than its ancestors.
  The constants of the headers and \<open>unthrottle_cfs_rq\<close> of \<open>fair.c\<close> are the fields of \<open>bw_hdr\<close>; the other
  calls into \<open>fair.c\<close> are recorded.
\<close>

record bw_hdr =
  BW_SHIFT :: nat
  BW_UNIT :: int
  MAX_BW :: int
  RUNTIME_INF :: int
  NSEC_PER_USEC :: int
  NSEC_PER_MSEC :: int
  NSEC_PER_SEC :: int
  unthrottle_cfs_rq :: "cfs_rq \<Rightarrow> cfs_rq"

definition max_cfs_quota_period :: "bw_hdr \<Rightarrow> int" where
  "max_cfs_quota_period h = u64 (1 * NSEC_PER_SEC h)"

definition min_cfs_quota_period :: "bw_hdr \<Rightarrow> int" where
  "min_cfs_quota_period h = u64 (1 * NSEC_PER_MSEC h)"

definition max_cfs_runtime :: "bw_hdr \<Rightarrow> int" where
  "max_cfs_runtime h = u64 (MAX_BW h * NSEC_PER_USEC h)"

definition to_ratio :: "bw_hdr \<Rightarrow> int \<Rightarrow> int \<Rightarrow> int" where
  "to_ratio h period runtime =
     (if runtime = RUNTIME_INF h then BW_UNIT h
      else if period = 0 then 0
      else u64 (runtime * 2 ^ BW_SHIFT h) div period)"

section \<open>Reading\<close>

definition tg_get_cfs_quota :: "bw_hdr \<Rightarrow> task_group \<Rightarrow> int" where
  "tg_get_cfs_quota h tg = (if cfs_quota tg = RUNTIME_INF h then - 1 else s64 (cfs_quota tg div NSEC_PER_USEC h))"

definition tg_get_cfs_period :: "bw_hdr \<Rightarrow> task_group \<Rightarrow> int" where
  "tg_get_cfs_period h tg = s64 (u64 (cfs_period tg) div NSEC_PER_USEC h)"

section \<open>The check of the hierarchy\<close>

record cfs_schedulable_data =
  d_tg :: nat
  d_period :: int
  d_quota :: int

definition normalize_cfs_quota :: "bw_hdr \<Rightarrow> nat \<Rightarrow> cfs_schedulable_data \<Rightarrow> groups \<Rightarrow> int" where
  "normalize_cfs_quota h g d G =
     (let (period, quota) =
        (if g = d_tg d then (d_period d, d_quota d)
         else (u64 (tg_get_cfs_period h (G g)), u64 (tg_get_cfs_quota h (G g))))
      in if quota = RUNTIME_INF h \<or> quota = u64 (- 1) then RUNTIME_INF h else to_ratio h period quota)"

definition set_hierarchical_quota :: "nat \<Rightarrow> int \<Rightarrow> groups \<Rightarrow> groups" where
  "set_hierarchical_quota g q G = G(g := (G g)\<lparr>hierarchical_quota := q\<rparr>)"

text \<open>\<open>dfl\<close> is \<open>cgroup_subsys_on_dfl\<close>, that is version 2 of the control groups.\<close>

definition tg_cfs_schedulable_down :: "bw_hdr \<Rightarrow> bool \<Rightarrow> cfs_schedulable_data \<Rightarrow> visitor" where
  "tg_cfs_schedulable_down h dfl d g G =
     (case tg_parent (G g) of
        None \<Rightarrow> (None, set_hierarchical_quota g (s64 (RUNTIME_INF h)) G)
      | Some p \<Rightarrow>
          let quota = s64 (normalize_cfs_quota h g d G); parent_quota = hierarchical_quota (G p) in
          if dfl then (None, set_hierarchical_quota g (min quota parent_quota) G)
          else if u64 quota = RUNTIME_INF h then (None, set_hierarchical_quota g parent_quota G)
          else if u64 parent_quota \<noteq> RUNTIME_INF h \<and> quota > parent_quota then (Some EINVAL, G)
          else (None, set_hierarchical_quota g quota G))"

definition cfs_schedulable ::
    "bw_hdr \<Rightarrow> bool \<Rightarrow> nat \<Rightarrow> nat \<Rightarrow> int \<Rightarrow> int \<Rightarrow> groups \<Rightarrow> (sched_error option \<times> groups) option" where
  "cfs_schedulable h dfl root_group tg period quota G =
     (let data = (if quota \<noteq> RUNTIME_INF h
                  then \<lparr>d_tg = tg, d_period = period div NSEC_PER_USEC h, d_quota = quota div NSEC_PER_USEC h\<rparr>
                  else \<lparr>d_tg = tg, d_period = period, d_quota = quota\<rparr>)
      in walk_tg_tree_from root_group (tg_cfs_schedulable_down h dfl data) tg_nop G)"

section \<open>Writing\<close>

datatype bw_call = Usage_Inc | Usage_Dec | Refill nat | Start nat

definition reset_cfs_rq :: "bw_hdr \<Rightarrow> bool \<Rightarrow> cfs_rq \<Rightarrow> cfs_rq" where
  "reset_cfs_rq h enabled c =
     (let c1 = c\<lparr>runtime_enabled := enabled, runtime_remaining := 0\<rparr>
      in if throttled c1 then unthrottle_cfs_rq h c1 else c1)"

text \<open>\<open>online\<close> are the processors that are online.\<close>

definition store_bandwidth ::
    "bw_hdr \<Rightarrow> nat set \<Rightarrow> nat \<Rightarrow> int \<Rightarrow> int \<Rightarrow> groups \<Rightarrow> groups \<times> bw_call list" where
  "store_bandwidth h online tg period quota G =
     (let enabled = (quota \<noteq> RUNTIME_INF h); was_enabled = (cfs_quota (G tg) \<noteq> RUNTIME_INF h) in
      (G(tg := (G tg)\<lparr>cfs_period := s64 period, cfs_quota := quota,
          tg_cfs_rq := (\<lambda>i. if i \<in> online then reset_cfs_rq h enabled (tg_cfs_rq (G tg) i) else tg_cfs_rq (G tg) i)\<rparr>),
       (if enabled \<and> \<not> was_enabled then [Usage_Inc] else []) @ [Refill tg] @
       (if enabled then [Start tg] else []) @ (if was_enabled \<and> \<not> enabled then [Usage_Dec] else [])))"

definition tg_set_cfs_bandwidth ::
    "bw_hdr \<Rightarrow> bool \<Rightarrow> nat set \<Rightarrow> nat \<Rightarrow> nat \<Rightarrow> int \<Rightarrow> int \<Rightarrow> groups
     \<Rightarrow> (sched_error option \<times> groups \<times> bw_call list) option" where
  "tg_set_cfs_bandwidth h dfl online root_group tg period quota G =
     (if tg = root_group then Some (Some EINVAL, G, [])
      else if quota < min_cfs_quota_period h \<or> period < min_cfs_quota_period h then Some (Some EINVAL, G, [])
      else if period > max_cfs_quota_period h then Some (Some EINVAL, G, [])
      else if quota \<noteq> RUNTIME_INF h \<and> quota > max_cfs_runtime h then Some (Some EINVAL, G, [])
      else do {
        (ret, G1) \<leftarrow> cfs_schedulable h dfl root_group tg period quota G;
        Some (if ret \<noteq> None then (ret, G1, []) else (None, store_bandwidth h online tg period quota G1)) })"

definition tg_set_cfs_quota ::
    "bw_hdr \<Rightarrow> bool \<Rightarrow> nat set \<Rightarrow> nat \<Rightarrow> nat \<Rightarrow> int \<Rightarrow> groups
     \<Rightarrow> (sched_error option \<times> groups \<times> bw_call list) option" where
  "tg_set_cfs_quota h dfl online root_group tg cfs_quota_us G =
     (let period = u64 (cfs_period (G tg)) in
      if cfs_quota_us < 0 then tg_set_cfs_bandwidth h dfl online root_group tg period (RUNTIME_INF h) G
      else if u64 cfs_quota_us \<le> (2 ^ 64 - 1) div NSEC_PER_USEC h
      then tg_set_cfs_bandwidth h dfl online root_group tg period (u64 (u64 cfs_quota_us * NSEC_PER_USEC h)) G
      else Some (Some EINVAL, G, []))"

definition tg_set_cfs_period ::
    "bw_hdr \<Rightarrow> bool \<Rightarrow> nat set \<Rightarrow> nat \<Rightarrow> nat \<Rightarrow> int \<Rightarrow> groups
     \<Rightarrow> (sched_error option \<times> groups \<times> bw_call list) option" where
  "tg_set_cfs_period h dfl online root_group tg cfs_period_us G =
     (if u64 cfs_period_us > (2 ^ 64 - 1) div NSEC_PER_USEC h then Some (Some EINVAL, G, [])
      else tg_set_cfs_bandwidth h dfl online root_group tg (u64 (u64 cfs_period_us * NSEC_PER_USEC h)) (cfs_quota (G tg)) G)"

section \<open>The visitor\<close>

lemma schedulable_down_shape: "same_shape G (snd (tg_cfs_schedulable_down h dfl d g G))"
  by (auto simp: tg_cfs_schedulable_down_def set_hierarchical_quota_def same_shape_def Let_def split: option.splits)

interpretation cfs_walk: tg_visitors "tg_cfs_schedulable_down h dfl d" tg_nop for h dfl d
  by unfold_locales (simp_all add: schedulable_down_shape tg_nop_def)

end
