(* ===== verification/Cfs_Bandwidth_Main.thy ===== *)
theory Cfs_Bandwidth_Main
  imports Cfs_Bandwidth
begin

text \<open>
  The limits of task groups are set consistently: the walk visits the groups parents first, and
  with version 1 of the control groups a new limit is accepted exactly if it is in range and no
  limited group has a larger share of the processor than a limited ancestor.
\<close>

section \<open>Parents first\<close>

fun run_down :: "visitor \<Rightarrow> nat list \<Rightarrow> groups \<Rightarrow> sched_error option \<times> groups" where
  "run_down down [] G = (None, G)"
| "run_down down (g # gs) G =
     (case down g G of (ret, G1) \<Rightarrow> if ret \<noteq> None then (ret, G1) else run_down down gs G1)"

lemma run_down_append:
  "run_down down (xs @ ys) G =
     (case run_down down xs G of (ret, G1) \<Rightarrow> if ret \<noteq> None then (ret, G1) else run_down down ys G1)"
  by (induction xs arbitrary: G) (auto split: prod.splits)

lemma visits_run_down:
  assumes "\<And>t G. t \<in> set ts \<Longrightarrow> visit down tg_nop t G = run_down down (ids t) G"
  shows "visits down tg_nop ts G = run_down down (concat (map ids ts)) G"
  using assms by (induction ts arbitrary: G) (auto simp: run_down_append split: prod.splits)

lemma visit_run_down: "visit down tg_nop t G = run_down down (ids t) G"
proof (induction t arbitrary: G)
  case (Group g ts)
  have "visits down tg_nop ts H = run_down down (concat (map ids ts)) H" for H
    by (rule visits_run_down) (rule Group.IH)
  moreover have "tg_nop g H = (None, H)" for H by (simp add: tg_nop_def)
  ultimately show ?case by (simp split: prod.split)
qed

lemma run_down_fail:
  assumes "run_down down gs G = (Some e, G')"
  shows "\<exists>pre g post H. gs = pre @ g # post \<and> run_down down pre G = (None, H) \<and> down g H = (Some e, G')"
  using assms
proof (induction gs arbitrary: G)
  case (Cons g gs)
  obtain r H where d: "down g G = (r, H)" by force
  show ?case
  proof (cases r)
    case None
    then have "run_down down gs H = (Some e, G')" using Cons.prems by (simp add: d)
    then obtain pre g' post K where "gs = pre @ g' # post" "run_down down pre H = (None, K)" "down g' K = (Some e, G')"
      using Cons.IH by blast
    then have "g # gs = (g # pre) @ g' # post \<and> run_down down (g # pre) G = (None, K) \<and> down g' K = (Some e, G')"
      by (simp add: d None)
    then show ?thesis by blast
  next
    case (Some _)
    then have "g # gs = [] @ g # gs \<and> run_down down [] G = (None, G) \<and> down g G = (Some e, G')"
      using Cons.prems by (simp add: d)
    then show ?thesis by blast
  qed
qed simp

fun ordered :: "groups \<Rightarrow> nat list \<Rightarrow> bool" where
  "ordered G [] \<longleftrightarrow> True"
| "ordered G (g # gs) \<longleftrightarrow> (\<forall>p. tg_parent (G g) = Some p \<longrightarrow> p \<notin> set (g # gs)) \<and> ordered G gs"

lemma ordered_append:
  "ordered G (xs @ ys) \<longleftrightarrow> ordered G xs \<and> ordered G ys \<and> (\<forall>g \<in> set xs. \<forall>p. tg_parent (G g) = Some p \<longrightarrow> p \<notin> set ys)"
  by (induction xs) auto

lemma parent_in_ids:
  assumes "holds G t" and "g \<in> set (ids t)" and "g \<noteq> root t"
  shows "\<exists>p \<in> set (ids t). tg_parent (G g) = Some p"
  using assms
proof (induction t)
  case (Group r ts)
  then obtain t where t: "t \<in> set ts" "g \<in> set (ids t)" by auto
  show ?case
  proof (cases "g = root t")
    case True
    then show ?thesis using Group.prems(1) t(1) by auto
  next
    case False
    then show ?thesis using Group.IH [OF t(1) _ t(2)] Group.prems(1) t(1) by fastforce
  qed
qed

lemma ordered_forest:
  assumes "\<forall>t \<in> set ts. holds G t \<and> tg_parent (G (root t)) = Some p \<and> ordered G (ids t)"
    and "distinct (p # concat (map ids ts))"
  shows "ordered G (concat (map ids ts))"
  using assms
proof (induction ts)
  case (Cons t ts)
  have "q \<notin> set (concat (map ids ts))" if "g \<in> set (ids t)" "tg_parent (G g) = Some q" for g q
  proof (cases "g = root t")
    case True
    then show ?thesis using Cons.prems that by auto
  next
    case False
    then have "q \<in> set (ids t)" using parent_in_ids [of G t g] Cons.prems(1) that by auto
    then show ?thesis using Cons.prems(2) by auto
  qed
  then show ?case using Cons by (auto simp: ordered_append)
qed simp

lemma ordered_ids:
  assumes "holds G t" and "distinct (ids t)" and "\<forall>p. tg_parent (G (root t)) = Some p \<longrightarrow> p \<notin> set (ids t)"
  shows "ordered G (ids t)"
  using assms
proof (induction t)
  case (Group g ts)
  have "ordered G (ids t)" if "t \<in> set ts" for t
    using Group.IH [OF that] Group.prems(1,2) that distinct_child [of ts t] by auto
  then have "ordered G (concat (map ids ts))"
    using Group.prems(1,2) by (intro ordered_forest [where p = g]) auto
  then show ?case using Group.prems(3) by simp
qed


section \<open>Shares\<close>

text \<open>The documented values of the header constants.\<close>

definition bw_ok :: "bw_hdr \<Rightarrow> bool" where
  "bw_ok h \<longleftrightarrow>
     BW_SHIFT h = 20 \<and> BW_UNIT h = 2 ^ 20 \<and> MAX_BW h = 2 ^ 44 - 1 \<and> RUNTIME_INF h = 2 ^ 64 - 1 \<and>
     NSEC_PER_USEC h = 1000 \<and> NSEC_PER_MSEC h = 1000000 \<and> NSEC_PER_SEC h = 1000000000"

definition limited :: "task_group \<Rightarrow> bool" where
  "limited tg \<longleftrightarrow> cfs_quota tg \<noteq> 2 ^ 64 - 1"

definition valid_bw :: "task_group \<Rightarrow> bool" where
  "valid_bw tg \<longleftrightarrow>
     1000000 \<le> cfs_period tg \<and> cfs_period tg \<le> 1000000000 \<and>
     (limited tg \<longrightarrow> 1000000 \<le> cfs_quota tg \<and> cfs_quota tg \<le> (2 ^ 44 - 1) * 1000)"

text \<open>The share of a group in units of \<open>2 ^ -20\<close> processors, from times in microseconds.\<close>

definition cpu_share :: "task_group \<Rightarrow> int" where
  "cpu_share tg = (cfs_quota tg div 1000) * 2 ^ 20 div (cfs_period tg div 1000)"

lemma s64_id: "- (2 ^ 63) \<le> x \<Longrightarrow> x < 2 ^ 63 \<Longrightarrow> s64 x = x"
  by (simp add: s64_def)

lemma u64_id: "0 \<le> x \<Longrightarrow> x < 2 ^ 64 \<Longrightarrow> u64 x = x"
  by (simp add: u64_def)

lemma bw_limits:
  assumes "bw_ok h"
  shows "min_cfs_quota_period h = 1000000" "max_cfs_quota_period h = 1000000000"
    "max_cfs_runtime h = (2 ^ 44 - 1) * 1000" "RUNTIME_INF h = 2 ^ 64 - 1" "NSEC_PER_USEC h = 1000"
  using assms
  by (simp_all add: bw_ok_def min_cfs_quota_period_def max_cfs_quota_period_def max_cfs_runtime_def u64_def)

text \<open>In the valid range nothing wraps around.\<close>

lemma share_bounds:
  assumes "valid_bw tg" and "limited tg"
  shows "0 \<le> cpu_share tg" "cpu_share tg < 2 ^ 63" "cfs_quota tg div 1000 < 2 ^ 44"
    "1000 \<le> cfs_quota tg div 1000" "1000 \<le> cfs_period tg div 1000" "cfs_period tg div 1000 \<le> 1000000"
proof -
  let ?q = "cfs_quota tg div 1000" and ?p = "cfs_period tg div 1000"
  have q: "1000 \<le> ?q" "?q < 2 ^ 44" and p: "1000 \<le> ?p" "?p \<le> 1000000"
    using assms by (auto simp: valid_bw_def)
  then show "?q < 2 ^ 44" "1000 \<le> ?q" "1000 \<le> ?p" "?p \<le> 1000000" by simp_all
  show "0 \<le> cpu_share tg" using q p by (simp add: cpu_share_def pos_imp_zdiv_nonneg_iff)
  have "cpu_share tg \<le> ?q * 2 ^ 20 div 1000"
    unfolding cpu_share_def using q p by (intro zdiv_mono2) auto
  also have "\<dots> \<le> ?q * 2 ^ 20 div 2" using q by (intro zdiv_mono2) auto
  also have "\<dots> < 2 ^ 63" using q by simp
  finally show "cpu_share tg < 2 ^ 63" .
qed

lemma to_ratio_share:
  assumes "bw_ok h" and "valid_bw tg" and "limited tg"
  shows "to_ratio h (cfs_period tg div 1000) (cfs_quota tg div 1000) = cpu_share tg"
proof -
  note b = share_bounds [OF assms(2,3)]
  have "u64 (cfs_quota tg div 1000 * 2 ^ 20) = cfs_quota tg div 1000 * 2 ^ 20"
    using b(3,4) by (intro u64_id) auto
  then show ?thesis using b assms(1) by (auto simp: to_ratio_def bw_ok_def cpu_share_def)
qed

text \<open>What \<open>normalize_cfs_quota\<close> gives for a stored limit.\<close>

definition norm_share :: "task_group \<Rightarrow> int" where
  "norm_share tg = (if limited tg then cpu_share tg else 2 ^ 64 - 1)"

lemma normalize_stored:
  assumes "bw_ok h" and "valid_bw (G g)" and "g \<noteq> d_tg d"
  shows "normalize_cfs_quota h g d G = norm_share (G g)"
proof (cases "limited (G g)")
  case True
  note b = share_bounds [OF assms(2) True]
  have "tg_get_cfs_quota h (G g) = cfs_quota (G g) div 1000" "tg_get_cfs_period h (G g) = cfs_period (G g) div 1000"
    using True b assms(1,2)
    by (simp_all add: tg_get_cfs_quota_def tg_get_cfs_period_def limited_def bw_ok_def s64_id u64_id valid_bw_def)
  moreover have "u64 (cfs_quota (G g) div 1000) = cfs_quota (G g) div 1000"
    "u64 (cfs_period (G g) div 1000) = cfs_period (G g) div 1000" using b by (simp_all add: u64_id)
  moreover have "cfs_quota (G g) div 1000 \<noteq> 2 ^ 64 - 1" using b by simp
  ultimately show ?thesis
    using assms True to_ratio_share [OF assms(1,2) True]
    by (simp add: normalize_cfs_quota_def norm_share_def bw_limits u64_def)
next
  case False
  then show ?thesis
    using assms by (simp add: normalize_cfs_quota_def norm_share_def tg_get_cfs_quota_def limited_def bw_ok_def u64_def)
qed

lemma normalize_new:
  assumes "bw_ok h" and "valid_bw tg" and "d = (if quota \<noteq> RUNTIME_INF h
      then \<lparr>d_tg = g, d_period = period div NSEC_PER_USEC h, d_quota = quota div NSEC_PER_USEC h\<rparr>
      else \<lparr>d_tg = g, d_period = period, d_quota = quota\<rparr>)" and "cfs_quota tg = quota" and "cfs_period tg = period"
  shows "normalize_cfs_quota h g d G = norm_share tg"
proof (cases "limited tg")
  case True
  then have q: "quota \<noteq> RUNTIME_INF h" using assms(1,4) by (simp add: limited_def bw_ok_def)
  note b = share_bounds [OF assms(2) True]
  show ?thesis
    using q b to_ratio_share [OF assms(1,2) True] True assms(1)
    by (simp add: normalize_cfs_quota_def norm_share_def assms(3) bw_limits u64_def assms(4,5) [symmetric])
next
  case False
  then show ?thesis
    using assms by (simp add: normalize_cfs_quota_def norm_share_def limited_def bw_ok_def)
qed


section \<open>The visitor\<close>

definition same_but_hq :: "groups \<Rightarrow> groups \<Rightarrow> bool" where
  "same_but_hq G H \<longleftrightarrow> (\<forall>g. cfs_quota (H g) = cfs_quota (G g) \<and> cfs_period (H g) = cfs_period (G g) \<and>
     tg_parent (H g) = tg_parent (G g) \<and> tg_children (H g) = tg_children (G g))"

lemma same_but_hq_fields:
  assumes "same_but_hq G H"
  shows "cfs_quota (H g) = cfs_quota (G g)" "cfs_period (H g) = cfs_period (G g)" "tg_parent (H g) = tg_parent (G g)"
    "tg_children (H g) = tg_children (G g)"
  using assms by (simp_all add: same_but_hq_def)

lemma same_but_hq_refl [simp]: "same_but_hq G G"
  by (simp add: same_but_hq_def)

lemma same_but_hq_trans: "same_but_hq G H \<Longrightarrow> same_but_hq H K \<Longrightarrow> same_but_hq G K"
  by (simp add: same_but_hq_def)

lemma same_but_hq_set: "same_but_hq G (set_hierarchical_quota g q G)"
  by (simp add: same_but_hq_def set_hierarchical_quota_def)

lemma set_hq_simps [simp]:
  "hierarchical_quota (set_hierarchical_quota g q G x) = (if x = g then q else hierarchical_quota (G x))"
  "tg_parent (set_hierarchical_quota g q G x) = tg_parent (G x)"
  by (auto simp: set_hierarchical_quota_def)

lemma normalize_same_but_hq: "same_but_hq G H \<Longrightarrow> normalize_cfs_quota h g d H = normalize_cfs_quota h g d G"
  by (simp add: normalize_cfs_quota_def tg_get_cfs_quota_def tg_get_cfs_period_def same_but_hq_fields)

text \<open>The type of \<open>hierarchical_quota\<close>, and the values of \<open>normalize_cfs_quota\<close>.\<close>

definition hq_typed :: "groups \<Rightarrow> bool" where
  "hq_typed G \<longleftrightarrow> (\<forall>g. - (2 ^ 63) \<le> hierarchical_quota (G g) \<and> hierarchical_quota (G g) < 2 ^ 63)"

definition ratio_value :: "int \<Rightarrow> bool" where
  "ratio_value n \<longleftrightarrow> n = 2 ^ 64 - 1 \<or> 0 \<le> n \<and> n < 2 ^ 63"

lemma u64_minus_one_iff: "- (2 ^ 63) \<le> x \<Longrightarrow> x < 2 ^ 63 \<Longrightarrow> u64 x = 2 ^ 64 - 1 \<longleftrightarrow> x = - 1"
proof -
  assume x: "- (2 ^ 63) \<le> x" "x < 2 ^ 63"
  show ?thesis
  proof (cases "0 \<le> x")
    case False
    have "(x + 2 ^ 64) mod 2 ^ 64 = x + 2 ^ 64" using x False by (intro mod_pos_pos_trivial) auto
    then show ?thesis by (auto simp: u64_def)
  qed (use x in \<open>auto simp: u64_def\<close>)
qed

lemma down_step:
  assumes "bw_ok h" and "hq_typed G" and "ratio_value (normalize_cfs_quota h g d G)"
  shows "tg_cfs_schedulable_down h False d g G =
    (case tg_parent (G g) of
       None \<Rightarrow> (None, set_hierarchical_quota g (- 1) G)
     | Some p \<Rightarrow>
         let n = normalize_cfs_quota h g d G; pq = hierarchical_quota (G p) in
         if n = 2 ^ 64 - 1 then (None, set_hierarchical_quota g pq G)
         else if pq \<noteq> - 1 \<and> n > pq then (Some EINVAL, G)
         else (None, set_hierarchical_quota g n G))"
proof -
  have inf: "s64 (2 ^ 64 - 1) = - 1" "u64 (- 1) = 2 ^ 64 - 1" by (simp_all add: s64_def u64_def)
  have pq: "u64 (hierarchical_quota (G p)) = 2 ^ 64 - 1 \<longleftrightarrow> hierarchical_quota (G p) = - 1" for p
    using assms(2) by (intro u64_minus_one_iff) (auto simp: hq_typed_def)
  have n: "s64 n = n" "u64 n = n" if "0 \<le> n" "n < 2 ^ 63" for n using that by (auto intro: s64_id u64_id)
  have "RUNTIME_INF h = 2 ^ 64 - 1" using assms(1) by (simp add: bw_ok_def)
  then show ?thesis
    using assms(3) unfolding tg_cfs_schedulable_down_def ratio_value_def Let_def
    by (auto simp only: inf pq n split: option.splits if_splits)
qed

lemma run_down_preserves:
  assumes "bw_ok h" and "run_down (tg_cfs_schedulable_down h False d) gs G = (ret, H)" and "hq_typed G"
    and "\<forall>g \<in> set gs. ratio_value (normalize_cfs_quota h g d G)"
  shows "same_but_hq G H \<and> hq_typed H \<and> (\<forall>g. g \<notin> set gs \<longrightarrow> hierarchical_quota (H g) = hierarchical_quota (G g))"
  using assms(2-4)
proof (induction gs arbitrary: G)
  case (Cons g gs)
  obtain r K where d: "tg_cfs_schedulable_down h False d g G = (r, K)" by force
  have rv: "ratio_value (normalize_cfs_quota h g d G)" using Cons.prems(3) by simp
  have "(\<exists>q. K = set_hierarchical_quota g q G \<and> - (2 ^ 63) \<le> q \<and> q < 2 ^ 63) \<or> K = G"
    using d Cons.prems(2) rv
    by (auto simp: down_step [OF assms(1) Cons.prems(2) rv] Let_def hq_typed_def ratio_value_def
        split: option.splits if_splits)
  then have K: "same_but_hq G K" "hq_typed K" "\<forall>x. x \<noteq> g \<longrightarrow> hierarchical_quota (K x) = hierarchical_quota (G x)"
    using Cons.prems(2) same_but_hq_set by (auto simp: hq_typed_def)
  show ?case
  proof (cases r)
    case None
    then have "run_down (tg_cfs_schedulable_down h False d) gs K = (ret, H)" using Cons.prems(1) by (simp add: d)
    from Cons.IH [OF this K(2)] Cons.prems(3) K show ?thesis
      by (auto simp: normalize_same_but_hq intro: same_but_hq_trans)
  next
    case (Some e)
    then show ?thesis using Cons.prems(1) K by (auto simp: d)
  qed
qed simp


text \<open>The quota of a group and that of its parent after an accepting walk.\<close>

definition settled :: "(nat \<Rightarrow> int) \<Rightarrow> groups \<Rightarrow> nat \<Rightarrow> bool" where
  "settled N G g \<longleftrightarrow>
     (case tg_parent (G g) of
        None \<Rightarrow> hierarchical_quota (G g) = - 1
      | Some p \<Rightarrow>
          if N g = 2 ^ 64 - 1 then hierarchical_quota (G g) = hierarchical_quota (G p)
          else hierarchical_quota (G g) = N g \<and> (hierarchical_quota (G p) = - 1 \<or> N g \<le> hierarchical_quota (G p)))"

lemma run_down_settles:
  assumes h: "bw_ok h" and "run_down (tg_cfs_schedulable_down h False d) gs G = (None, H)" and "hq_typed G"
    and "\<forall>g \<in> set gs. ratio_value (N g) \<and> normalize_cfs_quota h g d G = N g" and "distinct gs" and "ordered G gs"
  shows "\<forall>g \<in> set gs. settled N H g"
  using assms(2-6)
proof (induction gs arbitrary: G)
  case (Cons g gs)
  let ?D = "tg_cfs_schedulable_down h False d"
  have rv: "ratio_value (normalize_cfs_quota h g d G)" and n: "normalize_cfs_quota h g d G = N g"
    using Cons.prems(3) by auto
  obtain K where d: "?D g G = (None, K)" and run: "run_down ?D gs K = (None, H)"
    using Cons.prems(1) by (auto split: prod.splits if_splits)
  have "run_down ?D [g] G = (None, K)" by (simp add: d)
  from run_down_preserves [OF h this Cons.prems(2)] rv
  have K: "same_but_hq G K" "hq_typed K" by auto
  have N: "\<forall>x \<in> set gs. ratio_value (N x) \<and> normalize_cfs_quota h x d K = N x"
    using Cons.prems(3) by (auto simp: normalize_same_but_hq [OF K(1)])
  have ord: "ordered K gs" using Cons.prems(5) same_but_hq_fields(3) [OF K(1)] by (induction gs) auto
  have rest: "\<forall>x \<in> set gs. settled N H x" using Cons.IH [OF run K(2) N] Cons.prems(4) ord by simp
  have keep: "hierarchical_quota (H x) = hierarchical_quota (K x)" if "x \<notin> set gs" for x
    using run_down_preserves [OF h run K(2)] N that by auto
  have shape: "tg_parent (H g) = tg_parent (G g)"
    using run_down_preserves [OF h run K(2)] N same_but_hq_fields(3) K(1) by metis
  have "settled N H g"
  proof (cases "tg_parent (G g)")
    case None
    then show ?thesis
      using d Cons.prems(4) keep [of g] shape
      by (auto simp: settled_def down_step [OF h Cons.prems(2) rv])
  next
    case (Some p)
    then have "p \<noteq> g" "p \<notin> set gs" using Cons.prems(5) by auto
    then show ?thesis
      using d Cons.prems(4) keep [of g] keep [of p] shape Some
      by (auto simp: settled_def down_step [OF h Cons.prems(2) rv] n Let_def split: if_splits)
  qed
  with rest show ?case by simp
qed simp

section \<open>Ancestors\<close>

definition ancestor :: "groups \<Rightarrow> nat \<Rightarrow> nat \<Rightarrow> bool" where
  "ancestor G = tranclp (\<lambda>p c. tg_parent (G c) = Some p)"

lemma settled_below_ancestor:
  assumes "\<forall>g \<in> S. settled N G g \<and> (\<forall>p. tg_parent (G g) = Some p \<longrightarrow> p \<in> S)" and "\<forall>g \<in> S. ratio_value (N g)"
    and "ancestor G a g" and "g \<in> S" and "N a \<noteq> 2 ^ 64 - 1" and "tg_parent (G a) \<noteq> None"
  shows "hierarchical_quota (G g) \<noteq> - 1 \<and> hierarchical_quota (G g) \<le> N a \<and> a \<in> S"
  using assms(3) [unfolded ancestor_def] assms(4)
proof (induction rule: tranclp_induct)
  case (base y)
  then have "a \<in> S" using assms(1) by blast
  then have "hierarchical_quota (G a) = N a" "0 \<le> N a"
    using assms(1,2,5,6) by (auto simp: settled_def ratio_value_def)
  then show ?case
    using assms(1,2) base \<open>a \<in> S\<close> by (fastforce simp: settled_def ratio_value_def split: if_splits)
next
  case (step y z)
  then have "y \<in> S" using assms(1) by blast
  then have "hierarchical_quota (G y) \<noteq> - 1 \<and> hierarchical_quota (G y) \<le> N a \<and> a \<in> S" using step by blast
  then show ?case
    using assms(1,2) step(2,4) by (fastforce simp: settled_def ratio_value_def split: if_splits)
qed

lemma settled_origin:
  assumes "\<forall>g \<in> set gs. settled N G g"
    and "\<And>i p. i < length gs \<Longrightarrow> tg_parent (G (gs ! i)) = Some p \<Longrightarrow> p \<in> set (take i gs)"
    and "i < length gs" and "hierarchical_quota (G (gs ! i)) \<noteq> - 1"
  shows "\<exists>a \<in> set gs. (a = gs ! i \<or> ancestor G a (gs ! i)) \<and> N a \<noteq> 2 ^ 64 - 1 \<and> hierarchical_quota (G (gs ! i)) = N a"
  using assms(3,4)
proof (induction i rule: less_induct)
  case (less i)
  have set: "settled N G (gs ! i)" using assms(1) less.prems(1) by simp
  then obtain p where p: "tg_parent (G (gs ! i)) = Some p"
    using less.prems(2) by (auto simp: settled_def split: option.splits)
  show ?case
  proof (cases "N (gs ! i) = 2 ^ 64 - 1")
    case False
    then show ?thesis using set p less.prems(1) by (auto simp: settled_def)
  next
    case True
    then have q: "hierarchical_quota (G (gs ! i)) = hierarchical_quota (G p)" using set p by (simp add: settled_def)
    obtain j where j: "j < i" "gs ! j = p"
      using assms(2) [OF less.prems(1) p] less.prems(1) by (auto simp: in_set_conv_nth)
    then obtain a where a: "a \<in> set gs" "a = p \<or> ancestor G a p" "N a \<noteq> 2 ^ 64 - 1" "hierarchical_quota (G p) = N a"
      using less.IH [of j] less.prems q by auto
    then have "ancestor G a (gs ! i)" using p unfolding ancestor_def by (auto intro: tranclp.intros)
    then show ?thesis using a q by auto
  qed
qed


section \<open>The decision\<close>

text \<open>
  The groups form a tree with an unlimited root, and all limits are in range. This is what the
  functions of this theory keep.
\<close>

definition bw_inv :: "gtree \<Rightarrow> groups \<Rightarrow> bool" where
  "bw_inv t G \<longleftrightarrow>
     holds G t \<and> distinct (ids t) \<and> tg_parent (G (root t)) = None \<and> \<not> limited (G (root t)) \<and>
     (\<forall>g \<in> set (ids t). valid_bw (G g)) \<and> hq_typed G"

definition hierarchy_ok :: "gtree \<Rightarrow> groups \<Rightarrow> bool" where
  "hierarchy_ok t G \<longleftrightarrow>
     (\<forall>g \<in> set (ids t). \<forall>a. ancestor G a g \<and> limited (G a) \<and> limited (G g) \<longrightarrow> cpu_share (G g) \<le> cpu_share (G a))"

definition new_limit :: "nat \<Rightarrow> int \<Rightarrow> int \<Rightarrow> groups \<Rightarrow> groups" where
  "new_limit tg period quota G = G(tg := (G tg)\<lparr>cfs_period := period, cfs_quota := quota\<rparr>)"

lemma ancestor_cong: "(\<And>g. tg_parent (H g) = tg_parent (G g)) \<Longrightarrow> ancestor H = ancestor G"
  by (simp add: ancestor_def)

lemma parent_closed:
  assumes "bw_inv t G" and "g \<in> set (ids t)" and "tg_parent (G g) = Some p"
  shows "p \<in> set (ids t)"
proof -
  have "g \<noteq> root t" using assms by (auto simp: bw_inv_def)
  then show ?thesis using parent_in_ids [of G t g] assms by (auto simp: bw_inv_def)
qed

lemma ancestor_closed:
  assumes "bw_inv t G" and "ancestor G a g" and "g \<in> set (ids t)"
  shows "a \<in> set (ids t)"
  using assms(2) [unfolded ancestor_def] assms(3)
  by (induction rule: tranclp_induct) (use assms(1) parent_closed in blast)+

lemma ids_ordered: "bw_inv t G \<Longrightarrow> ordered G (ids t)"
  by (rule ordered_ids) (auto simp: bw_inv_def)

lemma parents_before:
  assumes "bw_inv t G" and "ids t = pre @ post" and "i < length pre" and "tg_parent (G (pre ! i)) = Some p"
  shows "p \<in> set (take i pre)"
proof -
  have split: "ids t = take i pre @ pre ! i # drop (Suc i) pre @ post"
    using assms(2,3) id_take_nth_drop [of i pre] by simp
  then have "p \<in> set (ids t)" using parent_closed [OF assms(1) _ assms(4)] by simp
  moreover have "p \<notin> set (pre ! i # drop (Suc i) pre @ post)"
    using ids_ordered [OF assms(1)] assms(4) unfolding split by (simp only: ordered_append ordered.simps) auto
  ultimately show ?thesis using split by (auto simp only: set_append)
qed

lemma norm_share_value: "valid_bw tg \<Longrightarrow> ratio_value (norm_share tg)"
  using share_bounds(1,2) by (simp add: norm_share_def ratio_value_def)

lemma norm_share_limited: "valid_bw tg \<Longrightarrow> norm_share tg = 2 ^ 64 - 1 \<longleftrightarrow> \<not> limited tg"
  using share_bounds(2) [of tg] by (auto simp: norm_share_def)

text \<open>An accepting walk shows that the hierarchy is respected.\<close>

lemma settled_hierarchy:
  assumes "bw_inv t G" and "\<And>g. g \<in> set (ids t) \<Longrightarrow> valid_bw (G' g)" and "\<And>g. tg_parent (G' g) = tg_parent (G g)"
    and "\<And>g. tg_parent (H g) = tg_parent (G g)" and "\<not> limited (G' (root t))"
    and "\<forall>g \<in> set (ids t). settled (\<lambda>g. norm_share (G' g)) H g"
  shows "hierarchy_ok t G'"
  unfolding hierarchy_ok_def
proof (intro ballI allI impI)
  let ?N = "\<lambda>g. norm_share (G' g)"
  fix g a assume g: "g \<in> set (ids t)" and lim: "ancestor G' a g \<and> limited (G' a) \<and> limited (G' g)"
  have anc: "ancestor G a g" "ancestor H a g"
    using lim ancestor_cong [of G' G] ancestor_cong [of H G] assms(3,4) by simp_all
  have a: "a \<in> set (ids t)" using ancestor_closed [OF assms(1) anc(1) g] .
  moreover have "a \<noteq> root t" using lim assms(5) by auto
  ultimately have pa: "tg_parent (H a) \<noteq> None"
    using parent_in_ids [of G t a] assms(1,4) by (auto simp: bw_inv_def)
  have na: "?N a \<noteq> 2 ^ 64 - 1" "?N g \<noteq> 2 ^ 64 - 1"
    using lim norm_share_limited [OF assms(2)] a g by blast+
  have "hierarchical_quota (H g) \<noteq> - 1 \<and> hierarchical_quota (H g) \<le> ?N a \<and> a \<in> set (ids t)"
    using assms(2,4,6) parent_closed [OF assms(1)] norm_share_value
    by (intro settled_below_ancestor [where N = ?N, OF _ _ anc(2) g na(1) pa]) auto
  moreover have "settled ?N H g" using assms(6) g by blast
  ultimately have "?N g \<le> ?N a" using na(2) by (auto simp: settled_def split: option.splits)
  then show "cpu_share (G' g) \<le> cpu_share (G' a)" using lim by (simp add: norm_share_def)
qed

lemma refused_hierarchy:
  assumes "bw_ok h" and "bw_inv t G" and "\<And>g. g \<in> set (ids t) \<Longrightarrow> valid_bw (G' g)"
    and "\<And>g. tg_parent (G' g) = tg_parent (G g)"
    and "\<And>g. g \<in> set (ids t) \<Longrightarrow> normalize_cfs_quota h g d G = norm_share (G' g)"
    and "run_down (tg_cfs_schedulable_down h False d) (ids t) G = (Some e, H)"
  shows "e = EINVAL \<and> \<not> hierarchy_ok t G'"
proof -
  let ?N = "\<lambda>g. norm_share (G' g)" and ?D = "tg_cfs_schedulable_down h False d"
  obtain pre g post K where split: "ids t = pre @ g # post" and pre: "run_down ?D pre G = (None, K)"
    and fail: "?D g K = (Some e, H)" using run_down_fail [OF assms(6)] by blast
  have typed: "hq_typed G" using assms(2) by (simp add: bw_inv_def)
  have N: "\<forall>x \<in> set (ids t). ratio_value (?N x) \<and> normalize_cfs_quota h x d G = ?N x"
    using assms(3,5) norm_share_value by auto
  then have K: "same_but_hq G K" "hq_typed K" using run_down_preserves [OF assms(1) pre typed] split by auto
  have ng: "normalize_cfs_quota h g d K = ?N g" "ratio_value (normalize_cfs_quota h g d K)"
    using N split by (auto simp: normalize_same_but_hq [OF K(1)])
  obtain p where p: "tg_parent (K g) = Some p" "?N g \<noteq> 2 ^ 64 - 1" "hierarchical_quota (K p) \<noteq> - 1"
    "hierarchical_quota (K p) < ?N g" "e = EINVAL"
    using fail unfolding down_step [OF assms(1) K(2) ng(2)] ng(1)
    by (auto simp: Let_def split: option.splits if_splits)
  have par: "tg_parent (K x) = tg_parent (G x)" for x by (rule same_but_hq_fields(3) [OF K(1)])
  have "ordered G (pre @ g # post)" "distinct (pre @ g # post)"
    using ids_ordered [OF assms(2)] assms(2) split by (simp_all add: bw_inv_def)
  then have set: "\<forall>x \<in> set pre. settled ?N K x"
    using run_down_settles [OF assms(1) pre typed] N split by (simp add: ordered_append)
  have "p \<in> set (take (length pre) (pre @ [g]))"
    using parents_before [OF assms(2), of "pre @ [g]" post "length pre" p] split p(1) par by simp
  then obtain i where i: "i < length pre" "pre ! i = p" by (auto simp: in_set_conv_nth)
  have "q \<in> set (take j pre)" if "j < length pre" "tg_parent (K (pre ! j)) = Some q" for j q
    using parents_before [OF assms(2) split that(1)] that(2) par by simp
  from settled_origin [OF set this i(1)] p(3) i(2)
  obtain a where a: "a \<in> set pre" "a = p \<or> ancestor K a p" "?N a \<noteq> 2 ^ 64 - 1" "hierarchical_quota (K p) = ?N a"
    by auto
  then have "ancestor K a g" using p(1) unfolding ancestor_def by (auto intro: tranclp.intros)
  then have anc: "ancestor G' a g" using ancestor_cong [of K G'] par assms(4) by simp
  have mem: "a \<in> set (ids t)" "g \<in> set (ids t)" using a(1) split by auto
  then have lim: "limited (G' a)" "limited (G' g)" using a(3) p(2) norm_share_limited assms(3) by blast+
  then have "\<not> cpu_share (G' g) \<le> cpu_share (G' a)" using a(4) p(4) by (simp add: norm_share_def)
  then show ?thesis using p(5) anc lim mem(2) unfolding hierarchy_ok_def by blast
qed


lemma cfs_schedulable_run:
  assumes "bw_inv t G"
  shows "\<exists>d. cfs_schedulable h dfl (root t) tg period quota G =
      Some (run_down (tg_cfs_schedulable_down h dfl d) (ids t) G) \<and> d_tg d = tg \<and>
    d = (if quota \<noteq> RUNTIME_INF h
         then \<lparr>d_tg = tg, d_period = period div NSEC_PER_USEC h, d_quota = quota div NSEC_PER_USEC h\<rparr>
         else \<lparr>d_tg = tg, d_period = period, d_quota = quota\<rparr>)"
  using assms cfs_walk.walk_tg_tree_from_visit [of G t]
  by (simp add: cfs_schedulable_def Let_def visit_run_down bw_inv_def)

lemma cfs_schedulable_decides:
  assumes h: "bw_ok h" and inv: "bw_inv t G" and tg: "tg \<in> set (ids t)" "tg \<noteq> root t"
    and valid: "valid_bw (new_limit tg period quota G tg)"
  shows "\<exists>H. cfs_schedulable h False (root t) tg period quota G =
      Some (if hierarchy_ok t (new_limit tg period quota G) then None else Some EINVAL, H) \<and> same_but_hq G H \<and> hq_typed H"
proof -
  let ?G = "new_limit tg period quota G" and ?D = "\<lambda>d. tg_cfs_schedulable_down h False d"
  obtain d where run: "cfs_schedulable h False (root t) tg period quota G = Some (run_down (?D d) (ids t) G)"
    and d: "d_tg d = tg" "d = (if quota \<noteq> RUNTIME_INF h
         then \<lparr>d_tg = tg, d_period = period div NSEC_PER_USEC h, d_quota = quota div NSEC_PER_USEC h\<rparr>
         else \<lparr>d_tg = tg, d_period = period, d_quota = quota\<rparr>)"
    using cfs_schedulable_run [OF inv] by blast
  obtain ret H where res: "run_down (?D d) (ids t) G = (ret, H)" by force
  have ok: "valid_bw (?G g)" if "g \<in> set (ids t)" for g
    using valid inv that by (cases "g = tg") (auto simp: bw_inv_def new_limit_def)
  have norm: "normalize_cfs_quota h g d G = norm_share (?G g)" if "g \<in> set (ids t)" for g
  proof (cases "g = tg")
    case True
    then show ?thesis using normalize_new [OF h valid d(2)] by (simp add: new_limit_def)
  next
    case False
    then show ?thesis using normalize_stored [OF h, of G g d] inv that d(1) by (simp add: bw_inv_def new_limit_def)
  qed
  have typed: "hq_typed G" using inv by (simp add: bw_inv_def)
  have N: "\<forall>g \<in> set (ids t). ratio_value (norm_share (?G g)) \<and> normalize_cfs_quota h g d G = norm_share (?G g)"
    using norm ok norm_share_value by auto
  then have keep: "same_but_hq G H" "hq_typed H" using run_down_preserves [OF h res typed] by auto
  have par: "tg_parent (?G g) = tg_parent (G g)" for g by (simp add: new_limit_def)
  have "ret = (if hierarchy_ok t ?G then None else Some EINVAL)"
  proof (cases ret)
    case None
    have "distinct (ids t)" using inv by (simp add: bw_inv_def)
    then have "\<forall>g \<in> set (ids t). settled (\<lambda>g. norm_share (?G g)) H g"
      using run_down_settles [OF h res [unfolded None] typed N] ids_ordered [OF inv] by simp
    moreover have "\<not> limited (?G (root t))" using inv tg(2) by (auto simp: bw_inv_def new_limit_def)
    ultimately have "hierarchy_ok t ?G"
      using settled_hierarchy [OF inv ok par same_but_hq_fields(3) [OF keep(1)]] by blast
    then show ?thesis using None by simp
  next
    case (Some e)
    then show ?thesis using refused_hierarchy [OF h inv ok par norm res [unfolded Some]] by simp
  qed
  then show ?thesis using run res keep by auto
qed

lemma in_range_iff:
  assumes "bw_ok h" and "quota < 2 ^ 64"
  shows "valid_bw (new_limit tg period quota G tg) \<longleftrightarrow>
    \<not> (quota < min_cfs_quota_period h \<or> period < min_cfs_quota_period h) \<and> \<not> period > max_cfs_quota_period h \<and>
    \<not> (quota \<noteq> RUNTIME_INF h \<and> quota > max_cfs_runtime h)"
  unfolding bw_limits [OF assms(1)] by (auto simp: valid_bw_def limited_def new_limit_def)

lemma bw_inv_same_but_hq: "bw_inv t G \<Longrightarrow> same_but_hq G H \<Longrightarrow> hq_typed H \<Longrightarrow> bw_inv t H"
  using holds_same_shape [of G H t]
  by (auto simp: bw_inv_def valid_bw_def limited_def same_but_hq_fields same_shape_def)

lemma store_bandwidth_inv:
  assumes "bw_inv t G" and "tg \<noteq> root t" and "valid_bw (new_limit tg period quota G tg)"
    and "store_bandwidth h online tg period quota G = (G', calls)"
  shows "bw_inv t G'" "cfs_quota (G' g) = cfs_quota (new_limit tg period quota G g)"
    "cfs_period (G' g) = cfs_period (new_limit tg period quota G g)"
proof -
  have p: "s64 period = period" using assms(3) by (intro s64_id) (auto simp: valid_bw_def new_limit_def)
  have lim: "cfs_quota (G' g) = cfs_quota (new_limit tg period quota G g)"
    "cfs_period (G' g) = cfs_period (new_limit tg period quota G g)"
    "hierarchical_quota (G' g) = hierarchical_quota (G g)" for g
    using assms(4) p by (auto simp: store_bandwidth_def Let_def new_limit_def)
  then show "cfs_quota (G' g) = cfs_quota (new_limit tg period quota G g)"
    "cfs_period (G' g) = cfs_period (new_limit tg period quota G g)" by auto
  have valid: "valid_bw (G' g)" if "g \<in> set (ids t)" for g
    using assms(1,3) that lim by (cases "g = tg") (auto simp: bw_inv_def valid_bw_def limited_def new_limit_def)
  have sh: "same_shape G G'" using assms(4) by (auto simp: store_bandwidth_def Let_def same_shape_def)
  then show "bw_inv t G'"
    using assms(1,2) lim valid holds_same_shape [OF sh, of t] same_shapeD [OF sh]
    by (auto simp: bw_inv_def limited_def new_limit_def hq_typed_def)
qed

lemma set_bandwidth_result:
  assumes "bw_ok h" and "bw_inv t G" and "tg \<in> set (ids t)" and "tg \<noteq> root t"
    and "0 \<le> quota" and "quota < 2 ^ 64"
  shows "\<exists>G' calls. tg_set_cfs_bandwidth h False online (root t) tg period quota G =
      Some (if valid_bw (new_limit tg period quota G tg) \<and> hierarchy_ok t (new_limit tg period quota G)
            then None else Some EINVAL, G', calls) \<and> bw_inv t G' \<and>
    (if valid_bw (new_limit tg period quota G tg) \<and> hierarchy_ok t (new_limit tg period quota G)
     then \<forall>g. cfs_quota (G' g) = cfs_quota (new_limit tg period quota G g) \<and>
       cfs_period (G' g) = cfs_period (new_limit tg period quota G g)
     else calls = [] \<and> (\<forall>g. cfs_quota (G' g) = cfs_quota (G g) \<and> cfs_period (G' g) = cfs_period (G g)))"
proof -
  let ?G = "new_limit tg period quota G"
  note unfold = tg_set_cfs_bandwidth_def in_range_iff [OF assms(1,6), of tg period G]
  show ?thesis
  proof (cases "valid_bw (?G tg)")
    case False
    then have "tg_set_cfs_bandwidth h False online (root t) tg period quota G = Some (Some EINVAL, G, [])"
      using assms(4) unfolding unfold by auto
    then show ?thesis using False assms(2) by auto
  next
    case True
    obtain H where H: "cfs_schedulable h False (root t) tg period quota G =
        Some (if hierarchy_ok t ?G then None else Some EINVAL, H)" and keep: "same_but_hq G H" "hq_typed H"
      using cfs_schedulable_decides [OF assms(1-4) True] by blast
    have set: "tg_set_cfs_bandwidth h False online (root t) tg period quota G =
        Some (if hierarchy_ok t ?G then (None, store_bandwidth h online tg period quota H) else (Some EINVAL, H, []))"
      using True assms(4) H unfolding unfold by auto
    have inv: "bw_inv t H" by (rule bw_inv_same_but_hq [OF assms(2) keep])
    have lim: "cfs_quota (H g) = cfs_quota (G g)" "cfs_period (H g) = cfs_period (G g)" for g
      using same_but_hq_fields [OF keep(1)] by auto
    have new: "cfs_quota (new_limit tg period quota H g) = cfs_quota (?G g)"
      "cfs_period (new_limit tg period quota H g) = cfs_period (?G g)" for g using lim by (simp_all add: new_limit_def)
    obtain G' calls where st: "store_bandwidth h online tg period quota H = (G', calls)" by force
    have valid: "valid_bw (new_limit tg period quota H tg)" using True by (simp add: valid_bw_def limited_def new_limit_def)
    note stored = store_bandwidth_inv [OF inv assms(4) valid st]
    show ?thesis using True set st inv lim stored new by (cases "hierarchy_ok t ?G") auto
  qed
qed

text \<open>
  C29. \<open>tg_set_cfs_bandwidth\<close> with version 1 of the control groups always returns. It accepts a quota
  and a period exactly if they are in range and, with them, no limited group of the tree has a
  larger share of the processor than a limited ancestor; then it stores them and nothing else
  changes in the limits. Otherwise it returns \<open>EINVAL\<close>, makes no call and leaves all
  limits as they were. The invariant of the tree is kept. In particular the 64-bit arithmetic
  of the check never wraps around.
\<close>

theorem cfs_bandwidth_decides:
  assumes "bw_ok h" and "bw_inv t G" and "tg \<in> set (ids t)" and "tg \<noteq> root t"
    and "0 \<le> quota" and "quota < 2 ^ 64"
  shows "\<exists>G' calls. tg_set_cfs_bandwidth h False online (root t) tg period quota G =
      Some (if valid_bw (new_limit tg period quota G tg) \<and> hierarchy_ok t (new_limit tg period quota G)
            then None else Some EINVAL, G', calls) \<and> bw_inv t G' \<and>
    (if valid_bw (new_limit tg period quota G tg) \<and> hierarchy_ok t (new_limit tg period quota G)
     then \<forall>g. cfs_quota (G' g) = cfs_quota (new_limit tg period quota G g) \<and>
       cfs_period (G' g) = cfs_period (new_limit tg period quota G g)
     else calls = [] \<and> (\<forall>g. cfs_quota (G' g) = cfs_quota (G g) \<and> cfs_period (G' g) = cfs_period (G g)))"
  using set_bandwidth_result [OF assms] by blast

text \<open>Three groups, one below the other; the middle one has half a processor.\<close>

definition sample_bw :: bw_hdr where
  "sample_bw =
     \<lparr>BW_SHIFT = 20, BW_UNIT = 2 ^ 20, MAX_BW = 2 ^ 44 - 1, RUNTIME_INF = 2 ^ 64 - 1, NSEC_PER_USEC = 1000,
      NSEC_PER_MSEC = 1000000, NSEC_PER_SEC = 1000000000, unthrottle_cfs_rq = (\<lambda>c. c\<lparr>throttled := False\<rparr>)\<rparr>"

definition sample_group :: "nat option \<Rightarrow> nat list \<Rightarrow> int \<Rightarrow> task_group" where
  "sample_group p cs q =
     \<lparr>tg_parent = p, tg_children = cs, shares = 1048576, cfs_period = 100000000, cfs_quota = q, hierarchical_quota = 0,
      tg_cfs_rq = (\<lambda>_. \<lparr>runtime_enabled = False, runtime_remaining = 0, throttled = False\<rparr>),
      tg_uclamp_req = (\<lambda>_. \<lparr>se_value = 0, bucket_id = 0, active = False, user_defined = False\<rparr>),
      tg_uclamp = (\<lambda>_. \<lparr>se_value = 0, bucket_id = 0, active = False, user_defined = False\<rparr>), uclamp_pct = (\<lambda>_. 0)\<rparr>"

definition sample_groups :: groups where
  "sample_groups = (\<lambda>_. sample_group None [] (2 ^ 64 - 1))
     (0 := sample_group None [1] (2 ^ 64 - 1), 1 := sample_group (Some 0) [2] 50000000,
      2 := sample_group (Some 1) [] (2 ^ 64 - 1))"

definition sample_tree :: gtree where
  "sample_tree = Group 0 [Group 1 [Group 2 []]]"

lemma sample_bw_inv: "bw_inv sample_tree sample_groups"
  by (auto simp: bw_inv_def sample_tree_def sample_groups_def sample_group_def valid_bw_def limited_def hq_typed_def)

theorem cfs_bandwidth_decides_witness:
  "\<exists>G' calls. tg_set_cfs_bandwidth sample_bw False {0} 0 2 100000000 80000000 sample_groups =
    Some (Some EINVAL, G', calls) \<and> cfs_quota (G' 2) = 2 ^ 64 - 1"
proof -
  let ?G = "new_limit 2 100000000 80000000 sample_groups"
  have s: "cfs_quota (sample_groups 2) = 2 ^ 64 - 1" "root sample_tree = 0" "2 \<in> set (ids sample_tree)"
    by (simp_all add: sample_groups_def sample_group_def sample_tree_def)
  have "ancestor ?G 1 2" unfolding ancestor_def
    by (rule tranclp.r_into_trancl) (simp add: new_limit_def sample_groups_def sample_group_def)
  moreover have "limited (?G 1)" "limited (?G 2)" "\<not> cpu_share (?G 2) \<le> cpu_share (?G 1)"
    by (simp_all add: new_limit_def sample_groups_def sample_group_def limited_def cpu_share_def)
  ultimately have no: "\<not> hierarchy_ok sample_tree ?G" using s(3) unfolding hierarchy_ok_def by blast
  have "bw_ok sample_bw" by (simp add: bw_ok_def sample_bw_def)
  from cfs_bandwidth_decides [OF this sample_bw_inv s(3), of 80000000 "{0}" 100000000]
  show ?thesis using no s by auto
qed

text \<open>
  With version 2 the minimum of two signed values is taken, and no limit is -1: a group without a
  limit of its own below a limited one is recorded as unlimited.
\<close>

lemma hierarchical_quota_v2_unlimited:
  assumes "bw_ok h" and "tg_parent (G g) = Some p" and "normalize_cfs_quota h g d G = RUNTIME_INF h"
    and "0 \<le> hierarchical_quota (G p)"
  shows "tg_cfs_schedulable_down h True d g G = (None, set_hierarchical_quota g (- 1) G)"
  using assms by (simp add: tg_cfs_schedulable_down_def bw_ok_def s64_def min_def)


section \<open>The walk\<close>

text \<open>
  \<open>walk_tg_tree_from\<close>, written with jumps into a loop body, returns for every finite tree of
  groups and all visitors that leave the pointers of the tree alone, and its result is that of the
  recursive visit: \<open>down\<close> before the children of a group, \<open>up\<close> after them, children in order, and
  the first visitor that fails ends the walk with its result.
\<close>

theorem walk_tg_tree_visits:
  assumes "\<And>g G. same_shape G (snd (down g G))" and "\<And>g G. same_shape G (snd (up g G))"
    and "holds G t" and "distinct (ids t)"
  shows "walk_tg_tree_from (root t) down up G = Some (visit down up t G)"
  by (rule tg_visitors.walk_tg_tree_from_visit) (use assms in \<open>auto intro: tg_visitors.intro\<close>)

theorem walk_tg_tree_visits_witness:
  "\<exists>H. walk_tg_tree_from 0 (tg_cfs_schedulable_down sample_bw False \<lparr>d_tg = 2, d_period = 100000, d_quota = 20000\<rparr>)
      tg_nop sample_groups = Some (None, H) \<and>
    hierarchical_quota (H 0) = - 1 \<and> hierarchical_quota (H 1) = 524288 \<and> hierarchical_quota (H 2) = 209715"
proof -
  let ?D = "tg_cfs_schedulable_down sample_bw False \<lparr>d_tg = 2, d_period = 100000, d_quota = 20000\<rparr>"
  have "case visit ?D tg_nop sample_tree sample_groups of (r, H) \<Rightarrow>
    r = None \<and> hierarchical_quota (H 0) = - 1 \<and> hierarchical_quota (H 1) = 524288 \<and> hierarchical_quota (H 2) = 209715"
    by code_simp
  moreover have "root sample_tree = 0" by (simp add: sample_tree_def)
  moreover have "holds sample_groups sample_tree" "distinct (ids sample_tree)"
    using sample_bw_inv by (simp_all add: bw_inv_def)
  ultimately show ?thesis
    using walk_tg_tree_visits [of ?D tg_nop sample_groups sample_tree] schedulable_down_shape
    by (auto simp: tg_nop_def split: prod.splits)
qed

end
