(* ===== verification/Group_Knobs.thy ===== *)
theory Group_Knobs
  imports Cfs_Bandwidth_Main Sched_Prio_Main
begin

text \<open>
  The files of a control group that hold its weight (\<open>shares\<close>, \<open>weight\<close>, \<open>weight.nice\<close>) and its quota,
  \<open>core.c\<close> of assignment 4. \<open>sched_group_set_shares\<close> of \<open>fair.c\<close> and the header functions are
  the fields of \<open>knob_hdr\<close>. What is written to a file is what is read from it.
\<close>

record knob_hdr =
  scale_shares :: "int \<Rightarrow> int"
  scale_load_down :: "int \<Rightarrow> int"
  MAX_SHARES :: int
  CGROUP_WEIGHT_MIN :: int
  CGROUP_WEIGHT_DFL :: int
  CGROUP_WEIGHT_MAX :: int
  sched_group_set_shares :: "int \<Rightarrow> task_group \<Rightarrow> sched_error option \<times> task_group"

text \<open>\<open>DIV_ROUND_CLOSEST_ULL\<close>.\<close>

definition div_round_closest :: "int \<Rightarrow> int \<Rightarrow> int" where
  "div_round_closest x d = u64 (x + d div 2) div d"

definition cpu_shares_write_u64 :: "knob_hdr \<Rightarrow> int \<Rightarrow> task_group \<Rightarrow> sched_error option \<times> task_group" where
  "cpu_shares_write_u64 k shareval tg =
     sched_group_set_shares k
       (scale_shares k (if shareval > scale_load_down k (2 ^ 64 - 1) then MAX_SHARES k else shareval)) tg"

definition cpu_shares_read_u64 :: "knob_hdr \<Rightarrow> task_group \<Rightarrow> int" where
  "cpu_shares_read_u64 k tg = u64 (scale_load_down k (shares tg))"

definition cpu_weight_read_u64 :: "knob_hdr \<Rightarrow> task_group \<Rightarrow> int" where
  "cpu_weight_read_u64 k tg =
     div_round_closest (u64 (u64 (scale_load_down k (shares tg)) * CGROUP_WEIGHT_DFL k)) 1024"

definition cpu_weight_write_u64 :: "knob_hdr \<Rightarrow> int \<Rightarrow> task_group \<Rightarrow> sched_error option \<times> task_group" where
  "cpu_weight_write_u64 k w tg =
     (if w < CGROUP_WEIGHT_MIN k \<or> w > CGROUP_WEIGHT_MAX k then (Some ERANGE, tg)
      else sched_group_set_shares k
             (scale_shares k (div_round_closest (u64 (w * 1024)) (CGROUP_WEIGHT_DFL k))) tg)"

text \<open>The loop over the weights; the result is the index (\<open>prio\<close>) behind the loop.\<close>

fun nice_search :: "int list \<Rightarrow> int \<Rightarrow> int \<Rightarrow> int \<Rightarrow> int" where
  "nice_search [] w last_delta k = k"
| "nice_search (x # xs) w last_delta k =
     (let delta = wrap32 \<bar>s64 (x - w)\<bar>
      in if delta \<ge> last_delta then k else nice_search xs w delta (k + 1))"

definition cpu_weight_nice_read_s64 :: "sched_hdr \<Rightarrow> knob_hdr \<Rightarrow> task_group \<Rightarrow> int" where
  "cpu_weight_nice_read_s64 h k tg =
     prio_to_nice h
       (nice_search sched_prio_to_weight (scale_load_down k (shares tg)) (2 ^ 31 - 1) 0 - 1 + MAX_RT_PRIO h)"

definition cpu_weight_nice_write_s64 ::
    "sched_hdr \<Rightarrow> knob_hdr \<Rightarrow> int \<Rightarrow> task_group \<Rightarrow> (sched_error option \<times> task_group) option" where
  "cpu_weight_nice_write_s64 h k nice tg =
     (if nice < MIN_NICE h \<or> nice > MAX_NICE h then Some (Some ERANGE, tg)
      else let idx = nice_to_prio h nice - MAX_RT_PRIO h in
           if idx < 0 then None
           else do {
             w \<leftarrow> rd sched_prio_to_weight (nat idx);
             Some (sched_group_set_shares k (scale_shares k w) tg) })"

section \<open>The documented behaviour outside the sources\<close>

definition knob_ok :: "knob_hdr \<Rightarrow> bool" where
  "knob_ok k \<longleftrightarrow>
     scale_shares k = (\<lambda>w. u64 (w * 1024)) \<and> scale_load_down k = (\<lambda>w. if w = 0 then 0 else max 2 (w div 1024)) \<and>
     MAX_SHARES k = 2 ^ 18 \<and> CGROUP_WEIGHT_MIN k = 1 \<and> CGROUP_WEIGHT_DFL k = 100 \<and> CGROUP_WEIGHT_MAX k = 10000 \<and>
     sched_group_set_shares k = (\<lambda>s tg. if tg_parent tg = None then (Some EINVAL, tg)
       else (None, tg\<lparr>shares := max (2 * 1024) (min s (2 ^ 18 * 1024))\<rparr>))"

definition sample_knobs :: knob_hdr where
  "sample_knobs =
     \<lparr>scale_shares = (\<lambda>w. u64 (w * 1024)), scale_load_down = (\<lambda>w. if w = 0 then 0 else max 2 (w div 1024)),
      MAX_SHARES = 2 ^ 18, CGROUP_WEIGHT_MIN = 1, CGROUP_WEIGHT_DFL = 100, CGROUP_WEIGHT_MAX = 10000,
      sched_group_set_shares = (\<lambda>s tg. if tg_parent tg = None then (Some EINVAL, tg)
        else (None, tg\<lparr>shares := max (2 * 1024) (min s (2 ^ 18 * 1024))\<rparr>))\<rparr>"

lemma sample_knobs_ok: "knob_ok sample_knobs"
  by (simp add: knob_ok_def sample_knobs_def)

section \<open>Round trips\<close>

lemma set_shares_stored:
  assumes "knob_ok k" and "2 \<le> w" and "w \<le> 2 ^ 18" and "tg_parent tg \<noteq> None"
  shows "sched_group_set_shares k (scale_shares k w) tg = (None, tg\<lparr>shares := w * 1024\<rparr>)"
    "scale_load_down k (w * 1024) = w"
  using assms by (simp_all add: knob_ok_def u64_id max_def min_def)

lemma weight_rounding:
  assumes "1 \<le> w" and "w \<le> (10000::int)"
  shows "((w * 1024 + 50) div 100 * 100 + 512) div 1024 = w"
proof -
  let ?s = "(w * 1024 + 50) div 100"
  have "?s * 100 \<le> w * 1024 + 50" "w * 1024 + 50 < ?s * 100 + 100"
    using div_mult_mod_eq [of "w * 1024 + 50" 100] pos_mod_bound [of 100 "w * 1024 + 50"]
      pos_mod_sign [of 100 "w * 1024 + 50"] by linarith+
  then show ?thesis by (intro int_div_pos_eq [where r = "?s * 100 + 512 - w * 1024"]) auto
qed

lemma cpu_weight_stored:
  assumes "knob_ok k" and "1 \<le> w" and "w \<le> 10000" and "tg_parent tg \<noteq> None"
  shows "\<exists>tg'. cpu_weight_write_u64 k w tg = (None, tg') \<and> cpu_weight_read_u64 k tg' = w"
proof -
  let ?s = "(w * 1024 + 50) div 100"
  have s: "2 \<le> ?s" "?s \<le> 2 ^ 18" using assms(2,3) by simp_all
  have "cpu_weight_write_u64 k w tg = (None, tg\<lparr>shares := ?s * 1024\<rparr>)"
    using assms set_shares_stored(1) [OF assms(1) s assms(4)]
    by (simp add: cpu_weight_write_u64_def knob_ok_def div_round_closest_def u64_id)
  moreover have "cpu_weight_read_u64 k (tg\<lparr>shares := ?s * 1024\<rparr>) = w"
    using assms(1) s set_shares_stored(2) [OF assms(1) s assms(4)] weight_rounding [OF assms(2,3)]
    by (simp add: cpu_weight_read_u64_def knob_ok_def div_round_closest_def u64_id)
  ultimately show ?thesis by blast
qed

lemma nice_search_table:
  "list_all (\<lambda>i. nice_search sched_prio_to_weight (sched_prio_to_weight ! i) (2 ^ 31 - 1) 0 = int i + 1 \<and>
     2 \<le> sched_prio_to_weight ! i \<and> sched_prio_to_weight ! i \<le> 2 ^ 18) [0..<40]"
  by code_simp


lemma cpu_weight_nice_stored:
  assumes "hdr_ok h" and "knob_ok k" and "- 20 \<le> n" and "n \<le> 19" and "tg_parent tg \<noteq> None"
  shows "\<exists>tg'. cpu_weight_nice_write_s64 h k n tg = Some (None, tg') \<and> cpu_weight_nice_read_s64 h k tg' = n"
proof -
  let ?i = "nat (n + 20)" and ?w = "sched_prio_to_weight ! nat (n + 20)"
  have "?i \<in> set [0..<40]" using assms(3,4) by auto
  with nice_search_table have w: "nice_search sched_prio_to_weight ?w (2 ^ 31 - 1) 0 = int ?i + 1" "2 \<le> ?w" "?w \<le> 2 ^ 18"
    unfolding list_all_iff by blast+
  have idx: "rd sched_prio_to_weight ?i = Some ?w" using assms(3,4) by (intro rd_in) auto
  have n20: "n + 120 - 100 = n + 20" by simp
  have "cpu_weight_nice_write_s64 h k n tg = Some (None, tg\<lparr>shares := ?w * 1024\<rparr>)"
    using assms set_shares_stored(1) [OF assms(2) w(2,3) assms(5)] idx
    by (simp add: cpu_weight_nice_write_s64_def header_facts n20 Let_def)
  moreover have "cpu_weight_nice_read_s64 h k (tg\<lparr>shares := ?w * 1024\<rparr>) = n"
    using assms(1,3) w(1) set_shares_stored(2) [OF assms(2) w(2,3) assms(5)]
    by (simp add: cpu_weight_nice_read_s64_def header_facts)
  ultimately show ?thesis by blast
qed

text \<open>
  C32. The comment of \<open>cpu_weight_write_u64\<close> promises that the conversion to shares and back keeps the
  weight over the entire range: a group that is not the root reads back every weight from 1 to
  10000 and every nice value from -20 to 19 that was written, and anything else is refused
  with \<open>ERANGE\<close> without a change.
\<close>

theorem group_weight_roundtrip:
  assumes "hdr_ok h" and "knob_ok k" and "tg_parent tg \<noteq> None"
  shows "(if 1 \<le> w \<and> w \<le> 10000
      then \<exists>tg'. cpu_weight_write_u64 k w tg = (None, tg') \<and> cpu_weight_read_u64 k tg' = w
      else cpu_weight_write_u64 k w tg = (Some ERANGE, tg)) \<and>
    (if - 20 \<le> n \<and> n \<le> 19
      then \<exists>tg'. cpu_weight_nice_write_s64 h k n tg = Some (None, tg') \<and> cpu_weight_nice_read_s64 h k tg' = n
      else cpu_weight_nice_write_s64 h k n tg = Some (Some ERANGE, tg))"
proof
  show "if 1 \<le> w \<and> w \<le> 10000
      then \<exists>tg'. cpu_weight_write_u64 k w tg = (None, tg') \<and> cpu_weight_read_u64 k tg' = w
      else cpu_weight_write_u64 k w tg = (Some ERANGE, tg)"
    using cpu_weight_stored [OF assms(2) _ _ assms(3)] assms(2) by (auto simp: cpu_weight_write_u64_def knob_ok_def)
  show "if - 20 \<le> n \<and> n \<le> 19
      then \<exists>tg'. cpu_weight_nice_write_s64 h k n tg = Some (None, tg') \<and> cpu_weight_nice_read_s64 h k tg' = n
      else cpu_weight_nice_write_s64 h k n tg = Some (Some ERANGE, tg)"
    using cpu_weight_nice_stored [OF assms(1,2) _ _ assms(3)] assms(1)
    by (auto simp: cpu_weight_nice_write_s64_def header_facts)
qed

theorem group_weight_roundtrip_witness:
  "(\<exists>tg'. cpu_weight_write_u64 sample_knobs 37 (sample_groups 1) = (None, tg') \<and> cpu_weight_read_u64 sample_knobs tg' = 37) \<and>
    (\<exists>tg'. cpu_weight_nice_write_s64 sample_hdr sample_knobs (- 7) (sample_groups 1) = Some (None, tg') \<and>
      cpu_weight_nice_read_s64 sample_hdr sample_knobs tg' = - 7)"
proof -
  have "tg_parent (sample_groups 1) \<noteq> None" by (simp add: sample_groups_def sample_group_def)
  from group_weight_roundtrip [OF sample_hdr_ok sample_knobs_ok this, of 37 "- 7"] show ?thesis by simp
qed

text \<open>A quota that is accepted is read back, in microseconds.\<close>

lemma cfs_quota_roundtrip:
  assumes "bw_ok h" and "- (2 ^ 63) \<le> us" and "us < 2 ^ 63"
    and "tg_set_cfs_quota h dfl online root_group tg us G = Some (None, G', calls)"
  shows "tg_get_cfs_quota h (G' tg) = (if us < 0 then - 1 else us)"
proof -
  let ?q = "if us < 0 then 2 ^ 64 - 1 else us * 1000"
  have inf: "RUNTIME_INF h = 2 ^ 64 - 1" "NSEC_PER_USEC h = 1000" using assms(1) by (simp_all add: bw_ok_def)
  have "us < 0 \<or> us \<le> (2 ^ 64 - 1) div 1000"
    using assms(2-4) by (auto simp: tg_set_cfs_quota_def inf u64_id Let_def split: if_splits)
  then have "us < 0 \<or> u64 us = us \<and> us * 1000 < 2 ^ 64" using u64_id [of us] assms(3) by (cases "us < 0") auto
  then have "tg_set_cfs_bandwidth h dfl online root_group tg (u64 (cfs_period (G tg))) ?q G = Some (None, G', calls)"
    using assms(4) by (auto simp: tg_set_cfs_quota_def inf u64_id Let_def split: if_splits)
  then have "cfs_quota (G' tg) = ?q"
    by (auto simp: tg_set_cfs_bandwidth_def store_bandwidth_def Let_def split: if_splits bind_splits prod.splits)
  moreover have "us * 1000 \<noteq> 2 ^ 64 - 1"
  proof
    assume "us * 1000 = 2 ^ 64 - 1"
    then have "even (us * 1000) \<longleftrightarrow> even ((2::int) ^ 64 - 1)" by (rule arg_cong)
    then show False by simp
  qed
  ultimately show ?thesis using assms(3) by (auto simp: tg_get_cfs_quota_def inf s64_id)
qed

end
