(* ===== verification/Group_Clamp.thy ===== *)
theory Group_Clamp
  imports Group_Knobs
begin

text \<open>
  Utilization clamps of task groups, \<open>core.c\<close> of assignment 4: a request of a group is capped by the
  clamp of its parent, and a change is propagated down the tree. The order of
  \<open>css_for_each_descendant_pre\<close>, a function of another file, is that of the tree it is given;
  \<open>cgroup_parse_float\<close> and the iterator over the tasks of a group are parameters.
\<close>

section \<open>Effective clamps\<close>

definition capped :: "groups \<Rightarrow> nat \<Rightarrow> uclamp_id \<Rightarrow> nat" where
  "capped G g clamp_id =
     (let eff = se_value (tg_uclamp_req (G g) clamp_id) in
      case tg_parent (G g) of
        None \<Rightarrow> eff
      | Some p \<Rightarrow>
          let m = se_value (tg_uclamp (G p) clamp_id) in if eff > m then m else eff)"

definition eff_clamp :: "groups \<Rightarrow> nat \<Rightarrow> uclamp_id \<Rightarrow> nat" where
  "eff_clamp G g clamp_id =
     (if clamp_id = UCLAMP_MIN then min (capped G g UCLAMP_MIN) (capped G g UCLAMP_MAX) else capped G g clamp_id)"

definition put_clamp :: "nat \<Rightarrow> nat \<Rightarrow> uclamp_se \<Rightarrow> uclamp_se" where
  "put_clamp n v s = s\<lparr>se_value := v mod 2 ^ 11, bucket_id := uclamp_bucket_id n v\<rparr>"

text \<open>The body of the loop for one group: the clamps that change, and the new groups.\<close>

definition update_group :: "nat \<Rightarrow> nat \<Rightarrow> groups \<Rightarrow> uclamp_id list \<times> groups" where
  "update_group n g G =
     (let eff = eff_clamp G g; uc_se = tg_uclamp (G g);
          changed = filter (\<lambda>i. eff i \<noteq> se_value (uc_se i)) [UCLAMP_MIN, UCLAMP_MAX]
      in (changed, G(g := (G g)\<lparr>tg_uclamp := (\<lambda>i. if i \<in> set changed then put_clamp n (eff i) (uc_se i) else uc_se i)\<rparr>)))"

fun tree_size :: "gtree \<Rightarrow> nat" where
  "tree_size (Group g ts) = Suc (sum_list (map tree_size ts))"

text \<open>
  The traversal: after a group without a change the groups below it are skipped
  (\<open>css_rightmost_descendant\<close>). The calls of \<open>uclamp_update_active_tasks\<close> are recorded.
\<close>

function update_eff :: "nat \<Rightarrow> gtree list \<Rightarrow> groups \<Rightarrow> groups \<times> (nat \<times> uclamp_id list) list" where
  "update_eff n [] G = (G, [])"
| "update_eff n (Group g ts # rest) G =
     (case update_group n g G of (changed, G') \<Rightarrow>
        if changed = [] then update_eff n rest G'
        else (case update_eff n (ts @ rest) G' of (G'', calls) \<Rightarrow> (G'', (g, changed) # calls)))"
  by pat_completeness auto
termination
  by (relation "measure (\<lambda>(_, ts, _). sum_list (map tree_size ts))") auto

definition cpu_util_update_eff :: "nat \<Rightarrow> gtree \<Rightarrow> groups \<Rightarrow> groups \<times> (nat \<times> uclamp_id list) list" where
  "cpu_util_update_eff n t G = update_eff n [t] G"

text \<open>The tasks of a group are brought up to date one by one, on the run queue they share.\<close>

fun update_clamps :: "uclamp_sys \<Rightarrow> uclamp_id list \<Rightarrow> clamp_rq \<times> task \<Rightarrow> (clamp_rq \<times> task) option" where
  "update_clamps sys [] s = Some s"
| "update_clamps sys (i # is) s = do { s' \<leftarrow> uclamp_update_active sys i s; update_clamps sys is s' }"

fun uclamp_update_active_tasks ::
    "uclamp_sys \<Rightarrow> uclamp_id list \<Rightarrow> nat list \<Rightarrow> clamp_rq \<times> (nat \<Rightarrow> task) \<Rightarrow> (clamp_rq \<times> (nat \<Rightarrow> task)) option" where
  "uclamp_update_active_tasks sys changed [] s = Some s"
| "uclamp_update_active_tasks sys changed (p # ps) (rq, ts) = do {
     (rq', q) \<leftarrow> update_clamps sys changed (rq, ts p);
     uclamp_update_active_tasks sys changed ps (rq', ts(p := q)) }"

section \<open>Requests\<close>

definition alloc_uclamp_sched_group :: "nat \<Rightarrow> nat \<Rightarrow> nat \<Rightarrow> groups \<Rightarrow> groups" where
  "alloc_uclamp_sched_group n tg parent G =
     G(tg := (G tg)\<lparr>tg_uclamp_req := (\<lambda>i. uclamp_se_set n (uclamp_none i) False (tg_uclamp_req (G tg) i)),
                    tg_uclamp := tg_uclamp (G parent)\<rparr>)"

definition uclamp_update_root_tg :: "nat \<Rightarrow> uclamp_sys \<Rightarrow> gtree \<Rightarrow> groups \<Rightarrow> groups \<times> (nat \<times> uclamp_id list) list" where
  "uclamp_update_root_tg n sys t G =
     (let r = root t; req = tg_uclamp_req (G r);
          req' = (\<lambda>i. if i = UCLAMP_MIN then uclamp_se_set n (util_min sys) False (req i)
                       else uclamp_se_set n (util_max sys) False (req i))
      in cpu_util_update_eff n t (G(r := (G r)\<lparr>tg_uclamp_req := req'\<rparr>)))"

text \<open>\<open>init_uclamp\<close>: the run queues of the processors, the defaults, the first task and the root group.\<close>

definition init_uclamp ::
    "nat \<Rightarrow> nat set \<Rightarrow> nat \<Rightarrow> (nat \<Rightarrow> clamp_rq) \<times> uclamp_sys \<times> task \<times> groups
     \<Rightarrow> (nat \<Rightarrow> clamp_rq) \<times> uclamp_sys \<times> task \<times> groups" where
  "init_uclamp n cpus root_group s =
     (case s of (rqs, sys, init_task, G) \<Rightarrow>
        let uc_max = uclamp_se_set n (uclamp_none UCLAMP_MAX) False
              \<lparr>se_value = 0, bucket_id = 0, active = False, user_defined = False\<rparr>
        in ((\<lambda>c. if c \<in> cpus then init_uclamp_rq n else rqs c),
            sys\<lparr>uclamp_default := (\<lambda>_. uc_max)\<rparr>,
            init_task\<lparr>uclamp_req := (\<lambda>i. uclamp_se_set n (uclamp_none i) False (uclamp_req init_task i))\<rparr>,
            G(root_group := (G root_group)\<lparr>tg_uclamp_req := (\<lambda>_. uc_max), tg_uclamp := (\<lambda>_. uc_max)\<rparr>)))"

definition UCLAMP_PERCENT_SCALE :: int where
  "UCLAMP_PERCENT_SCALE = 100 * 100"

definition strim :: "string \<Rightarrow> string" where
  "strim s = rev (dropWhile isspace (rev (dropWhile isspace s)))"

text \<open>The request: the percentage times 100, and the utilization.\<close>

definition capacity_from_percent :: "(string \<Rightarrow> sched_error + int) \<Rightarrow> string \<Rightarrow> sched_error + int \<times> int" where
  "capacity_from_percent cgroup_parse_float buf =
     (if strim buf \<noteq> ''max''
      then (case cgroup_parse_float (strim buf) of
              Inl e \<Rightarrow> Inl e
            | Inr percent \<Rightarrow>
                if u64 percent > UCLAMP_PERCENT_SCALE then Inl ERANGE
                else Inr (percent, div_round_closest (u64 (percent * 2 ^ 10)) UCLAMP_PERCENT_SCALE))
      else Inr (UCLAMP_PERCENT_SCALE, int SCHED_CAPACITY_SCALE))"

definition cpu_uclamp_write ::
    "(string \<Rightarrow> sched_error + int) \<Rightarrow> nat \<Rightarrow> gtree \<Rightarrow> uclamp_id \<Rightarrow> string \<Rightarrow> uclamp_sys \<times> groups
     \<Rightarrow> sched_error + uclamp_sys \<times> groups \<times> (nat \<times> uclamp_id list) list" where
  "cpu_uclamp_write cgroup_parse_float n t clamp_id buf s =
     (case (s, capacity_from_percent cgroup_parse_float buf) of
        (_, Inl e) \<Rightarrow> Inl e
      | ((sys, G), Inr (percent, util)) \<Rightarrow>
          let tg = root t; req = tg_uclamp_req (G tg);
              req' = (if int (se_value (req clamp_id)) \<noteq> util
                      then req(clamp_id := uclamp_se_set n (nat util) False (req clamp_id)) else req);
              G' = G(tg := (G tg)\<lparr>tg_uclamp_req := req', uclamp_pct := (uclamp_pct (G tg))(clamp_id := percent)\<rparr>)
          in Inr (sys\<lparr>uclamp_used := True\<rparr>, cpu_util_update_eff n t G'))"

text \<open>\<open>%0*u\<close> with width 2.\<close>

definition cpu_uclamp_print :: "uclamp_id \<Rightarrow> task_group \<Rightarrow> string" where
  "cpu_uclamp_print clamp_id tg =
     (if se_value (tg_uclamp_req tg clamp_id) = SCHED_CAPACITY_SCALE then ''max'' @ [CHR 10]
      else let percent = u64 (uclamp_pct tg clamp_id); r = percent mod 100
           in show_int (percent div 100) @ ''.'' @ (if r < 10 then ''0'' else []) @ show_int r @ [CHR 10])"


section \<open>The invariant of the tree\<close>

text \<open>What the effective clamps of a group should be.\<close>

definition clamp_limit :: "groups \<Rightarrow> nat \<Rightarrow> uclamp_id \<Rightarrow> nat" where
  "clamp_limit G g i =
     (case tg_parent (G g) of
        None \<Rightarrow> se_value (tg_uclamp_req (G g) i)
      | Some p \<Rightarrow> min (se_value (tg_uclamp_req (G g) i)) (se_value (tg_uclamp (G p) i)))"

definition eff_ok :: "groups \<Rightarrow> nat \<Rightarrow> bool" where
  "eff_ok G g \<longleftrightarrow>
     se_value (tg_uclamp (G g) UCLAMP_MAX) = clamp_limit G g UCLAMP_MAX \<and>
     se_value (tg_uclamp (G g) UCLAMP_MIN) = min (clamp_limit G g UCLAMP_MIN) (clamp_limit G g UCLAMP_MAX)"

lemma capped_eq: "capped G g i = clamp_limit G g i"
  by (simp add: capped_def clamp_limit_def Let_def min_def split: option.split)

lemma eff_ok_iff: "eff_ok G g \<longleftrightarrow> (\<forall>i. se_value (tg_uclamp (G g) i) = eff_clamp G g i)"
proof -
  have "(\<forall>i. P i) \<longleftrightarrow> P UCLAMP_MAX \<and> P UCLAMP_MIN" for P by (metis uclamp_id.exhaust)
  then show ?thesis by (simp add: eff_ok_def eff_clamp_def capped_eq)
qed

text \<open>The values are bit fields of 11 bits.\<close>

definition clamp_typed :: "groups \<Rightarrow> bool" where
  "clamp_typed G \<longleftrightarrow> (\<forall>g i. se_value (tg_uclamp_req (G g) i) < 2 ^ 11 \<and> se_value (tg_uclamp (G g) i) < 2 ^ 11)"

definition only_clamps :: "groups \<Rightarrow> groups \<Rightarrow> bool" where
  "only_clamps G H \<longleftrightarrow>
     (\<forall>g. tg_parent (H g) = tg_parent (G g) \<and> tg_children (H g) = tg_children (G g) \<and>
     shares (H g) = shares (G g) \<and> cfs_period (H g) = cfs_period (G g) \<and> cfs_quota (H g) = cfs_quota (G g) \<and>
     hierarchical_quota (H g) = hierarchical_quota (G g) \<and> tg_cfs_rq (H g) = tg_cfs_rq (G g) \<and>
     tg_uclamp_req (H g) = tg_uclamp_req (G g) \<and> uclamp_pct (H g) = uclamp_pct (G g))"

lemma only_clamps_refl [simp]: "only_clamps G G"
  by (simp add: only_clamps_def)

lemma only_clamps_trans: "only_clamps G H \<Longrightarrow> only_clamps H K \<Longrightarrow> only_clamps G K"
  by (simp add: only_clamps_def)

lemma only_clamps_fields:
  assumes "only_clamps G H"
  shows "tg_parent (H g) = tg_parent (G g)" "tg_children (H g) = tg_children (G g)" "tg_uclamp_req (H g) = tg_uclamp_req (G g)"
  using assms by (simp_all add: only_clamps_def)

lemma only_clamps_shape: "only_clamps G H \<Longrightarrow> same_shape G H"
  by (simp add: same_shape_def only_clamps_fields)

lemma eff_clamp_typed: "clamp_typed G \<Longrightarrow> eff_clamp G g i < 2 ^ 11"
  by (auto simp: eff_clamp_def capped_def clamp_typed_def Let_def min_def split: option.splits)

lemma eff_clamp_cong:
  assumes "tg_parent (H x) = tg_parent (G x)" and "tg_uclamp_req (H x) = tg_uclamp_req (G x)"
    and "\<And>p. tg_parent (G x) = Some p \<Longrightarrow> tg_uclamp (H p) = tg_uclamp (G p)"
  shows "eff_clamp H x i = eff_clamp G x i"
  using assms by (cases "tg_parent (G x)") (simp_all add: eff_clamp_def capped_def)

lemma eff_ok_transfer:
  assumes "H x = G x" and "\<And>p. tg_parent (G x) = Some p \<Longrightarrow> H p = G p"
  shows "eff_ok H x \<longleftrightarrow> eff_ok G x"
  using eff_clamp_cong [of H x G] assms by (simp add: eff_ok_iff)

lemma update_group_result:
  assumes "clamp_typed G" and "update_group n g G = (ch, H)" and "tg_parent (G g) \<noteq> Some g"
  shows "only_clamps G H" "clamp_typed H" "eff_ok H g" "x \<noteq> g \<Longrightarrow> H x = G x" "ch = [] \<Longrightarrow> H = G"
    "ch = filter (\<lambda>i. se_value (tg_uclamp (H g) i) \<noteq> se_value (tg_uclamp (G g) i)) [UCLAMP_MIN, UCLAMP_MAX]"
proof -
  let ?u = "\<lambda>i. if i \<in> set ch then put_clamp n (eff_clamp G g i) (tg_uclamp (G g) i) else tg_uclamp (G g) i"
  have ch: "ch = filter (\<lambda>i. eff_clamp G g i \<noteq> se_value (tg_uclamp (G g) i)) [UCLAMP_MIN, UCLAMP_MAX]"
    and H: "H = G(g := (G g)\<lparr>tg_uclamp := ?u\<rparr>)"
    using assms(2) by (auto simp: update_group_def Let_def)
  have mem: "i \<in> set ch \<longleftrightarrow> eff_clamp G g i \<noteq> se_value (tg_uclamp (G g) i)" for i
    unfolding ch by (cases i) auto
  have val: "se_value (?u i) = eff_clamp G g i" for i
    using mem eff_clamp_typed [OF assms(1), of g i] by (auto simp: put_clamp_def)
  show oc: "only_clamps G H"
    by (simp add: only_clamps_def H)
  show "clamp_typed H"
    unfolding clamp_typed_def
  proof (intro allI conjI)
    fix x i
    show "se_value (tg_uclamp_req (H x) i) < 2 ^ 11"
      using assms(1) only_clamps_fields(3) [OF oc] by (simp add: clamp_typed_def)
    show "se_value (tg_uclamp (H x) i) < 2 ^ 11"
    proof (cases "x = g")
      case True
      then have "tg_uclamp (H x) i = ?u i" by (simp add: H)
      then show ?thesis using val [of i] eff_clamp_typed [OF assms(1), of g i] by simp
    next
      case False
      then show ?thesis using assms(1) by (simp add: H clamp_typed_def)
    qed
  qed
  have Hg: "tg_uclamp (H g) = ?u" by (simp add: H)
  have "eff_clamp H g i = eff_clamp G g i" for i
    by (rule eff_clamp_cong) (use only_clamps_fields [OF oc] assms(3) in \<open>auto simp: H\<close>)
  then show "eff_ok H g" using val unfolding eff_ok_iff Hg by simp
  show "x \<noteq> g \<Longrightarrow> H x = G x" by (simp add: H)
  show "H = G" if "ch = []" unfolding H using that by simp
  show "ch = filter (\<lambda>i. se_value (tg_uclamp (H g) i) \<noteq> se_value (tg_uclamp (G g) i)) [UCLAMP_MIN, UCLAMP_MAX]"
    unfolding Hg val by (rule ch)
qed

definition forest_ok :: "groups \<Rightarrow> gtree list \<Rightarrow> bool" where
  "forest_ok G ts \<longleftrightarrow>
     distinct (concat (map ids ts)) \<and>
     (\<forall>t \<in> set ts. holds G t \<and> (\<forall>p. tg_parent (G (root t)) = Some p \<longrightarrow> p \<notin> set (concat (map ids ts))) \<and>
        (\<forall>g \<in> set (ids t). g \<noteq> root t \<longrightarrow> eff_ok G g))"


lemma forest_ok_parent:
  assumes "forest_ok G ts" and "t \<in> set ts" and "x \<in> set (ids t)" and "tg_parent (G x) = Some p"
  shows "p \<in> set (ids t) \<or> (x = root t \<and> p \<notin> set (concat (map ids ts)))"
proof (cases "x = root t")
  case True
  then show ?thesis using assms by (auto simp: forest_ok_def)
next
  case False
  then show ?thesis using parent_in_ids [of G t x] assms by (auto simp: forest_ok_def)
qed

lemma forest_ok_step:
  assumes "forest_ok G (Group g ts # rest)" and "only_clamps G H" and "\<And>x. x \<noteq> g \<Longrightarrow> H x = G x"
  shows "forest_ok H (ts @ rest)"
proof -
  note f = assms(1) [unfolded forest_ok_def]
  have d: "distinct (g # concat (map ids ts) @ concat (map ids rest))" using f by simp
  have hold: "holds H t" if "t \<in> set (ts @ rest)" for t
    using that f holds_same_shape [OF only_clamps_shape [OF assms(2)], of t] by auto
  have par: "tg_parent (H x) = tg_parent (G x)" for x by (rule only_clamps_fields(1) [OF assms(2)])
  have top: "p \<notin> set (concat (map ids (ts @ rest)))" if "t \<in> set (ts @ rest)" "tg_parent (H (root t)) = Some p" for t p
    using that f d by (auto simp: par)
  have eff: "eff_ok H x" if t: "t \<in> set (ts @ rest)" and x: "x \<in> set (ids t)" "x \<noteq> root t" for t x
  proof -
    have "x \<noteq> g" using d t x(1) by auto
    moreover obtain p where p: "tg_parent (G x) = Some p" "p \<in> set (ids t)"
      using parent_in_ids [OF _ x, of G] t f by auto
    moreover have "p \<noteq> g" using d t p(2) by auto
    moreover have "eff_ok G x"
    proof (cases "t \<in> set rest")
      case True
      then show ?thesis using f x by auto
    next
      case False
      then have "x \<in> set (ids (Group g ts))" using t x(1) by auto
      then show ?thesis using f \<open>x \<noteq> g\<close> by auto
    qed
    ultimately show ?thesis using eff_ok_transfer [of H x G] assms(3) by auto
  qed
  show ?thesis unfolding forest_ok_def using d hold top eff by auto
qed


definition clamp_changes :: "groups \<Rightarrow> groups \<Rightarrow> nat \<Rightarrow> uclamp_id list" where
  "clamp_changes G H g =
     filter (\<lambda>i. se_value (tg_uclamp (H g) i) \<noteq> se_value (tg_uclamp (G g) i)) [UCLAMP_MIN, UCLAMP_MAX]"

lemma update_eff_correct:
  assumes "update_eff n ts G = (H, calls)" and "clamp_typed G" and "forest_ok G ts"
  shows "only_clamps G H \<and> clamp_typed H \<and> (\<forall>g. g \<notin> set (concat (map ids ts)) \<longrightarrow> H g = G g) \<and>
    (\<forall>g \<in> set (concat (map ids ts)). eff_ok H g) \<and>
    (\<forall>g c. (g, c) \<in> set calls \<longleftrightarrow> c = clamp_changes G H g \<and> c \<noteq> [])"
  using assms
proof (induction n ts G arbitrary: H calls rule: update_eff.induct)
  case (1 n G)
  then show ?case by (auto simp: clamp_changes_def)
next
  case (2 n g ts rest G)
  obtain ch G1 where u: "update_group n g G = (ch, G1)" by force
  have self: "tg_parent (G g) \<noteq> Some g" using 2(5) by (auto simp: forest_ok_def)
  note r = update_group_result [OF 2(4) u self]
  have par: "tg_parent (G1 x) = tg_parent (G x)" for x by (rule only_clamps_fields(1) [OF r(1)])
  note f = 2(5) [unfolded forest_ok_def]
  show ?case
  proof (cases "ch = []")
    case True
    have run: "update_eff n rest G1 = (H, calls)" using 2(3) by (simp add: u True)
    have rest: "forest_ok G1 rest" using f r(5) [OF True] by (auto simp: forest_ok_def)
    note ih = 2(1) [OF u [symmetric] True run r(2) rest]
    have keep: "H x = G x" if "x \<notin> set (concat (map ids rest))" for x using ih that r(5) [OF True] by simp
    have "eff_ok H x" if x: "x \<in> set (ids (Group g ts))" for x
    proof -
      have "x \<notin> set (concat (map ids rest))" using f x by auto
      moreover have "p \<notin> set (concat (map ids rest))" if "tg_parent (G x) = Some p" for p
        using forest_ok_parent [OF 2(5) _ x that] f by auto
      moreover have "eff_ok G x" using f x r(3) r(5) [OF True] by (cases "x = g") auto
      ultimately show ?thesis using eff_ok_transfer [of H x G] keep by auto
    qed
    then show ?thesis using ih r(5) [OF True] by auto
  next
    case False
    obtain calls' where run: "update_eff n (ts @ rest) G1 = (H, calls')" and calls: "calls = (g, ch) # calls'"
      using 2(3) False by (auto simp: u split: prod.splits)
    have ok: "forest_ok G1 (ts @ rest)" by (rule forest_ok_step [OF 2(5) r(1,4)])
    note ih = 2(2) [OF u [symmetric] False run r(2) ok]
    have g: "g \<notin> set (concat (map ids (ts @ rest)))" using f by auto
    then have Hg: "H g = G1 g" using ih by blast
    have "p \<notin> set (concat (map ids (ts @ rest)))" if "tg_parent (G1 g) = Some p" for p using f that par by auto
    then have "eff_ok H g" using eff_ok_transfer [of H g G1] ih Hg r(3) by blast
    moreover have "ch = clamp_changes G H g" using r(6) Hg by (simp add: clamp_changes_def)
    moreover have "clamp_changes G H x = clamp_changes G1 H x" if "x \<noteq> g" for x
      using r(4) [OF that] by (simp add: clamp_changes_def)
    moreover have "clamp_changes G1 H g = []" using Hg by (simp add: clamp_changes_def)
    moreover have "only_clamps G H" using ih r(1) only_clamps_trans by blast
    moreover have "(x, c) \<in> set calls \<longleftrightarrow> c = clamp_changes G H x \<and> c \<noteq> []" for x c
      using ih calculation(2-4) False unfolding calls by (cases "x = g") auto
    ultimately show ?thesis using ih r(4) g by auto
  qed
qed


text \<open>
  C15. After \<open>cpu_util_update_eff\<close> every group of the tree has as effective clamps its request capped by
  the effective clamps of its parent, with the minimum capped by the maximum, provided that this
  was so before for all groups but the topmost one, although the subtrees below an unchanged
  group are skipped. Nothing but effective clamps changes, groups outside the tree are untouched,
  and the tasks of exactly those groups are updated whose clamps have changed, for exactly the
  clamps that have changed.
\<close>

theorem group_clamps_propagate:
  assumes "clamp_typed G" and "holds G t" and "distinct (ids t)"
    and "\<forall>p. tg_parent (G (root t)) = Some p \<longrightarrow> p \<notin> set (ids t)"
    and "\<forall>g \<in> set (ids t). g \<noteq> root t \<longrightarrow> eff_ok G g"
  shows "\<exists>H calls. cpu_util_update_eff n t G = (H, calls) \<and> (\<forall>g \<in> set (ids t). eff_ok H g) \<and>
    only_clamps G H \<and> (\<forall>g. g \<notin> set (ids t) \<longrightarrow> H g = G g) \<and>
    (\<forall>g c. (g, c) \<in> set calls \<longleftrightarrow> c = clamp_changes G H g \<and> c \<noteq> [])"
proof -
  obtain H calls where run: "update_eff n [t] G = (H, calls)" by force
  have "forest_ok G [t]" using assms(2-5) by (auto simp: forest_ok_def)
  from update_eff_correct [OF run assms(1) this] run show ?thesis by (auto simp: cpu_util_update_eff_def)
qed

text \<open>The middle one of three groups lowers its maximum to 300.\<close>

definition sample_clamps :: groups where
  "sample_clamps = (\<lambda>g. (sample_groups g)
     \<lparr>tg_uclamp_req := (\<lambda>i. \<lparr>se_value = (if i = UCLAMP_MIN then 0 else if g = 1 then 300 else 1024), bucket_id = 0,
        active = False, user_defined = False\<rparr>),
      tg_uclamp := (\<lambda>i. \<lparr>se_value = (if i = UCLAMP_MIN then 0 else 1024), bucket_id = 0, active = False, user_defined = False\<rparr>)\<rparr>)"

theorem group_clamps_propagate_witness:
  "\<exists>H calls. cpu_util_update_eff 5 (Group 1 [Group 2 []]) sample_clamps = (H, calls) \<and>
    se_value (tg_uclamp (H 1) UCLAMP_MAX) = 300 \<and> se_value (tg_uclamp (H 2) UCLAMP_MAX) = 300"
proof -
  let ?t = "Group 1 [Group 2 []]" and ?G = sample_clamps
  have p: "tg_parent (?G 0) = None" "tg_parent (?G 1) = Some 0" "tg_parent (?G 2) = Some 1"
    "tg_children (?G 1) = [2]" "tg_children (?G 2) = []"
    by (simp_all add: sample_clamps_def sample_groups_def sample_group_def)
  note p = p p [unfolded One_nat_def]
  have v: "se_value (tg_uclamp (?G g) i) = (if i = UCLAMP_MIN then 0 else 1024)"
    "se_value (tg_uclamp_req (?G g) i) = (if i = UCLAMP_MIN then 0 else if g = 1 then 300 else 1024)" for g i
    by (simp_all add: sample_clamps_def)
  have "clamp_typed ?G" by (simp add: clamp_typed_def v)
  moreover have "holds ?G ?t" "distinct (ids ?t)" by (simp_all add: p)
  moreover have "\<forall>q. tg_parent (?G (root ?t)) = Some q \<longrightarrow> q \<notin> set (ids ?t)" by (simp add: p)
  moreover have "eff_ok ?G 2" by (simp add: eff_ok_iff eff_clamp_def capped_def p v)
  then have "\<forall>g \<in> set (ids ?t). g \<noteq> root ?t \<longrightarrow> eff_ok ?G g" by simp
  ultimately obtain H calls where H: "cpu_util_update_eff 5 ?t ?G = (H, calls)" "\<forall>g \<in> set (ids ?t). eff_ok H g"
    "only_clamps ?G H" "\<forall>g. g \<notin> set (ids ?t) \<longrightarrow> H g = ?G g"
    using group_clamps_propagate [of ?G ?t 5] by blast
  note o = only_clamps_fields [OF H(3)]
  have "H 0 = ?G 0" using H(4) by simp
  then have "se_value (tg_uclamp (H 1) UCLAMP_MAX) = 300"
    using H(2) by (simp add: eff_ok_iff eff_clamp_def capped_def o p v)
  moreover from this have "se_value (tg_uclamp (H 2) UCLAMP_MAX) = 300"
    using H(2) by (simp add: eff_ok_iff eff_clamp_def capped_def o p v)
  ultimately show ?thesis using H(1) by blast
qed

text \<open>A request of 99.96 percent is rounded to the full scale and then shown as \<open>max\<close>.\<close>

lemma uclamp_print_rounds:
  assumes "cgroup_parse_float ''99.96'' = Inr 9996"
  shows "capacity_from_percent cgroup_parse_float ''99.96'' = Inr (9996, 1024)"
proof -
  have "strim ''99.96'' = ''99.96''" by code_simp
  then show ?thesis
    using assms by (simp add: capacity_from_percent_def UCLAMP_PERCENT_SCALE_def div_round_closest_def u64_def)
qed


text \<open>The root group starts with effective clamps that match its requests, so that the invariant holds initially.\<close>

lemma init_uclamp_eff_ok:
  assumes "tg_parent (G r) = None" and "init_uclamp n cpus r (rqs, sys, p, G) = (rqs', sys', p', G')"
  shows "eff_ok G' r"
  using assms by (auto simp: init_uclamp_def Let_def eff_ok_iff eff_clamp_def capped_def uclamp_se_set_def)

text \<open>A new group starts with the effective clamps of its parent; only its minimum may differ from them.\<close>

lemma alloc_uclamp_eff:
  assumes "tg \<noteq> parent" and "se_value (tg_uclamp (G parent) UCLAMP_MAX) \<le> SCHED_CAPACITY_SCALE"
    and "tg_parent (G tg) = Some parent" and "H = alloc_uclamp_sched_group n tg parent G"
  shows "eff_clamp H tg UCLAMP_MAX = se_value (tg_uclamp (H tg) UCLAMP_MAX)" "eff_clamp H tg UCLAMP_MIN = 0"
  using assms
  by (auto simp: alloc_uclamp_sched_group_def eff_clamp_def capped_def Let_def uclamp_se_set_def uclamp_none_def
      SCHED_CAPACITY_SCALE_def)

end
