(* ===== verification/Sched_Queue.thy ===== *)
theory Sched_Queue
  imports Sched_Info Uclamp_Main
begin

text \<open>
  Queueing a task, \<open>core.c\<close> of assignment 4: \<open>enqueue_task\<close> and \<open>dequeue_task\<close> put together the
  accounting of \<open>stats.h\<close>, the pressure stall hooks of \<open>stats.h\<close> and the clamps. The
  pressure stall flags of a task are kept by \<open>psi_task_change\<close> of another file, which complains
  about a call that sets a flag that is set or clears one that is not; the hooks never
  cause such a call. The call-backs of the scheduling classes are recorded.
\<close>

section \<open>Pressure stall hooks\<close>

datatype psi_flag = TSK_IOWAIT | TSK_MEMSTALL | TSK_RUNNING | TSK_ONCPU

record psi_task =
  in_iowait :: bool
  in_memstall :: bool
  wake_requeue :: bool

text \<open>A call of \<open>psi_task_change\<close>: the flags to clear and the flags to set.\<close>

type_synonym psi_call = "psi_flag set \<times> psi_flag set"

definition psi_enqueue :: "bool \<Rightarrow> bool \<Rightarrow> psi_task \<Rightarrow> psi_task \<times> psi_call option" where
  "psi_enqueue disabled wakeup p =
     (if disabled then (p, None)
      else if \<not> wakeup \<or> wake_requeue p
      then (if wake_requeue p then p\<lparr>wake_requeue := False\<rparr> else p,
            Some ({}, {TSK_RUNNING} \<union> (if in_memstall p then {TSK_MEMSTALL} else {})))
      else (p, Some (if in_iowait p then {TSK_IOWAIT} else {}, {TSK_RUNNING})))"

definition psi_dequeue :: "bool \<Rightarrow> bool \<Rightarrow> psi_task \<Rightarrow> psi_call option" where
  "psi_dequeue disabled sleep p =
     (if disabled then None
      else if \<not> sleep then Some ({TSK_RUNNING} \<union> (if in_memstall p then {TSK_MEMSTALL} else {}), {})
      else Some ({TSK_RUNNING} \<union> {TSK_ONCPU}, if in_iowait p then {TSK_IOWAIT} else {}))"

definition psi_ttwu_dequeue :: "bool \<Rightarrow> psi_task \<Rightarrow> psi_task \<times> psi_call option" where
  "psi_ttwu_dequeue disabled p =
     (if disabled then (p, None)
      else if in_iowait p \<or> in_memstall p
      then (p\<lparr>wake_requeue := True\<rparr>,
            Some ((if in_iowait p then {TSK_IOWAIT} else {}) \<union> (if in_memstall p then {TSK_MEMSTALL} else {}), {}))
      else (p, None))"

section \<open>Queueing\<close>

record queue_flags =
  noclock :: bool
  saved :: bool
  slept :: bool

datatype class_call = Class_Enqueue nat | Class_Dequeue nat

record queue_state =
  cpu :: sched_cpu
  clamp :: clamp_rq
  psi :: "nat \<Rightarrow> psi_task"
  psi_calls :: "(nat \<times> psi_call) list"
  class_calls :: "class_call list"

definition psi_log :: "nat \<Rightarrow> psi_call option \<Rightarrow> queue_state \<Rightarrow> queue_state" where
  "psi_log t c s = (case c of None \<Rightarrow> s | Some x \<Rightarrow> s\<lparr>psi_calls := psi_calls s @ [(t, x)]\<rparr>)"

text \<open>
  \<open>now\<close> is the clock that \<open>update_rq_clock\<close> reads, \<open>on\<close> the value of \<open>sched_info_on()\<close>. In the flags,
  \<open>saved\<close> is \<open>ENQUEUE_RESTORE\<close> or \<open>DEQUEUE_SAVE\<close>, and \<open>slept\<close> is \<open>ENQUEUE_WAKEUP\<close> or
  \<open>DEQUEUE_SLEEP\<close>.
\<close>

definition update_clock :: "u64 \<Rightarrow> queue_flags \<Rightarrow> queue_state \<Rightarrow> queue_state" where
  "update_clock now fl s = (if noclock fl then s else s\<lparr>cpu := (cpu s)\<lparr>clock := now\<rparr>\<rparr>)"

definition set_clamped :: "nat \<Rightarrow> clamp_rq \<times> task \<Rightarrow> queue_state \<Rightarrow> queue_state" where
  "set_clamped t r s = s\<lparr>clamp := fst r, cpu := upd_task t (\<lambda>_. snd r) (cpu s)\<rparr>"

definition enqueue_task ::
    "uclamp_sys \<Rightarrow> bool \<Rightarrow> bool \<Rightarrow> u64 \<Rightarrow> queue_flags \<Rightarrow> nat \<Rightarrow> queue_state \<Rightarrow> queue_state option" where
  "enqueue_task sys on psi_off now fl t s0 =
     (let s1 = update_clock now fl s0;
          s2 = (if \<not> saved fl
                then (case psi_enqueue psi_off (slept fl) (psi s1 t) of (q, c) \<Rightarrow>
                        psi_log t c (s1\<lparr>cpu := sched_info_queued on t (cpu s1), psi := (psi s1)(t := q)\<rparr>))
                else s1)
      in do {
        r \<leftarrow> uclamp_rq_inc sys (clamp s2, tasks (cpu s2) t);
        let s3 = set_clamped t r s2;
        Some (s3\<lparr>class_calls := class_calls s3 @ [Class_Enqueue t]\<rparr>) })"

definition dequeue_task ::
    "uclamp_sys \<Rightarrow> bool \<Rightarrow> bool \<Rightarrow> u64 \<Rightarrow> queue_flags \<Rightarrow> nat \<Rightarrow> queue_state \<Rightarrow> queue_state option" where
  "dequeue_task sys on psi_off now fl t s0 =
     (let s1 = update_clock now fl s0;
          s2 = (if \<not> saved fl
                then psi_log t (psi_dequeue psi_off (slept fl) (psi s1 t)) (s1\<lparr>cpu := sched_info_dequeued on t (cpu s1)\<rparr>)
                else s1)
      in do {
        r \<leftarrow> uclamp_rq_dec sys (clamp s2, tasks (cpu s2) t);
        let s3 = set_clamped t r s2;
        Some (s3\<lparr>class_calls := class_calls s3 @ [Class_Dequeue t]\<rparr>) })"

text \<open>\<open>queued\<close> and \<open>migrating\<close> are \<open>TASK_ON_RQ_QUEUED\<close> and \<open>TASK_ON_RQ_MIGRATING\<close> of a header.\<close>

definition set_on_rq :: "nat \<Rightarrow> int \<Rightarrow> queue_state \<Rightarrow> queue_state" where
  "set_on_rq t v s = s\<lparr>cpu := upd_task t (\<lambda>p. p\<lparr>on_rq := v\<rparr>) (cpu s)\<rparr>"

definition activate_task ::
    "int \<Rightarrow> uclamp_sys \<Rightarrow> bool \<Rightarrow> bool \<Rightarrow> u64 \<Rightarrow> queue_flags \<Rightarrow> nat \<Rightarrow> queue_state \<Rightarrow> queue_state option" where
  "activate_task queued sys on psi_off now fl t s = do {
     s' \<leftarrow> enqueue_task sys on psi_off now fl t s;
     Some (set_on_rq t queued s') }"

definition deactivate_task ::
    "int \<Rightarrow> uclamp_sys \<Rightarrow> bool \<Rightarrow> bool \<Rightarrow> u64 \<Rightarrow> queue_flags \<Rightarrow> nat \<Rightarrow> queue_state \<Rightarrow> queue_state option" where
  "deactivate_task migrating sys on psi_off now fl t s =
     dequeue_task sys on psi_off now fl t (set_on_rq t (if slept fl then 0 else migrating) s)"

section \<open>The life of a task\<close>

datatype phase = Sleeping | Waking | Queued | On_Cpu | Moving

record psi_config =
  ph :: phase
  pt :: psi_task
  pf :: "psi_flag set"
  consistent :: bool

text \<open>What \<open>psi_task_change\<close> documents: the flags of the task are changed, and the call is checked.\<close>

definition psi_task_change :: "psi_call option \<Rightarrow> psi_config \<Rightarrow> psi_config" where
  "psi_task_change c s =
     (case c of None \<Rightarrow> s
      | Some (clr, st) \<Rightarrow> s\<lparr>pf := (pf s - clr) \<union> st, consistent := consistent s \<and> st \<inter> pf s = {} \<and> clr \<subseteq> pf s\<rparr>)"

definition enter :: "phase \<Rightarrow> psi_task \<times> psi_call option \<Rightarrow> psi_config \<Rightarrow> psi_config" where
  "enter x r s = psi_task_change (snd r) (s\<lparr>ph := x, pt := fst r\<rparr>)"

text \<open>
  A task sleeps, is woken up (and possibly moved to another run queue first), runs, is preempted, and
  is moved while it is queued. While it runs it may enter and leave waiting for input and memory
  stalls; the latter tell \<open>psi_task_change\<close> themselves.
\<close>

inductive psi_step :: "psi_config \<Rightarrow> psi_config \<Rightarrow> bool" where
  wake: "ph s = Sleeping \<Longrightarrow> psi_step s (enter Queued (psi_enqueue False True (pt s)) s)"
| wake_moved: "ph s = Sleeping \<Longrightarrow> psi_step s (enter Waking (psi_ttwu_dequeue False (pt s)) s)"
| wake_arrived: "ph s = Waking \<Longrightarrow> psi_step s (enter Queued (psi_enqueue False True (pt s)) s)"
| move_out: "ph s = Queued \<Longrightarrow> psi_step s (enter Moving (pt s, psi_dequeue False False (pt s)) s)"
| move_in: "ph s = Moving \<Longrightarrow> psi_step s (enter Queued (psi_enqueue False False (pt s)) s)"
| switch_in: "ph s = Queued \<Longrightarrow> psi_step s (enter On_Cpu (pt s, Some ({}, {TSK_ONCPU})) s)"
| preempt: "ph s = On_Cpu \<Longrightarrow> psi_step s (enter Queued (pt s, Some ({TSK_ONCPU}, {})) s)"
| sleep: "ph s = On_Cpu \<Longrightarrow> psi_step s (enter Sleeping (pt s, psi_dequeue False True (pt s)) s)"
| iowait: "ph s = On_Cpu \<Longrightarrow> psi_step s (s\<lparr>pt := (pt s)\<lparr>in_iowait := b\<rparr>\<rparr>)"
| stall: "ph s = On_Cpu \<Longrightarrow> \<not> in_memstall (pt s) \<Longrightarrow>
    psi_step s (enter On_Cpu ((pt s)\<lparr>in_memstall := True\<rparr>, Some ({}, {TSK_MEMSTALL})) s)"
| unstall: "ph s = On_Cpu \<Longrightarrow> in_memstall (pt s) \<Longrightarrow>
    psi_step s (enter On_Cpu ((pt s)\<lparr>in_memstall := False\<rparr>, Some ({TSK_MEMSTALL}, {})) s)"

inductive_cases psi_stepE: "psi_step s s'"

definition expected_flags :: "psi_config \<Rightarrow> psi_flag set" where
  "expected_flags s =
     (if ph s = Moving \<or> ph s = Waking then {}
      else (if in_memstall (pt s) then {TSK_MEMSTALL} else {}) \<union>
        (case ph s of Sleeping \<Rightarrow> if in_iowait (pt s) then {TSK_IOWAIT} else {}
         | On_Cpu \<Rightarrow> {TSK_RUNNING, TSK_ONCPU} | _ \<Rightarrow> {TSK_RUNNING}))"

definition psi_inv :: "psi_config \<Rightarrow> bool" where
  "psi_inv s \<longleftrightarrow> consistent s \<and> pf s = expected_flags s \<and>
     (wake_requeue (pt s) \<longleftrightarrow> ph s = Waking \<and> (in_iowait (pt s) \<or> in_memstall (pt s)))"

lemmas psi_defs = psi_enqueue_def psi_dequeue_def psi_ttwu_dequeue_def enter_def psi_task_change_def

lemma psi_step_inv:
  assumes "psi_step s s'" and "psi_inv s"
  shows "psi_inv s'"
  using assms by (elim psi_stepE) (auto simp: psi_inv_def expected_flags_def psi_defs)


definition new_task :: "bool \<Rightarrow> bool \<Rightarrow> psi_config" where
  "new_task io mem =
     \<lparr>ph = Moving, pt = \<lparr>in_iowait = io, in_memstall = mem, wake_requeue = False\<rparr>, pf = {}, consistent = True\<rparr>"

text \<open>
  C27. In every life of a task (sleep, wake-up, wake-up with migration, move between run queues,
  preemption, waits for input and memory stalls in any order) the hooks of \<open>stats.h\<close> only make
  consistent calls of \<open>psi_task_change\<close>: no flag is set twice or cleared while it is not set. After
  every step the flags are those of the state of the task: \<open>TSK_RUNNING\<close> exactly while it is
  queued, \<open>TSK_ONCPU\<close> while it runs, \<open>TSK_IOWAIT\<close> while it sleeps on input, \<open>TSK_MEMSTALL\<close> during a
  stall, and none while it is between two run queues.
\<close>

theorem psi_hooks_consistent:
  assumes "psi_step\<^sup>*\<^sup>* (new_task io mem) s"
  shows "consistent s \<and> pf s = expected_flags s"
proof -
  have "psi_inv s" using assms
  proof (induction rule: rtranclp_induct)
    case base
    then show ?case by (simp add: psi_inv_def expected_flags_def new_task_def)
  next
    case (step y z)
    then show ?case using psi_step_inv by blast
  qed
  then show ?thesis by (simp add: psi_inv_def)
qed

text \<open>A task that starts, waits for input, is woken up on another processor and runs again.\<close>

theorem psi_hooks_consistent_witness:
  "\<exists>s. psi_step\<^sup>*\<^sup>* (new_task False False) s \<and> ph s = On_Cpu \<and> in_iowait (pt s) \<and> consistent s \<and>
    pf s = {TSK_RUNNING, TSK_ONCPU}"
proof -
  let ?on = "\<lambda>s. enter On_Cpu (pt s, Some ({}, {TSK_ONCPU})) s"
  let ?s1 = "enter Queued (psi_enqueue False False (pt (new_task False False))) (new_task False False)"
  let ?s2 = "?on ?s1"
  let ?s3 = "?s2\<lparr>pt := (pt ?s2)\<lparr>in_iowait := True\<rparr>\<rparr>"
  let ?s4 = "enter Sleeping (pt ?s3, psi_dequeue False True (pt ?s3)) ?s3"
  let ?s5 = "enter Waking (psi_ttwu_dequeue False (pt ?s4)) ?s4"
  let ?s6 = "enter Queued (psi_enqueue False True (pt ?s5)) ?s5"
  let ?s7 = "?on ?s6"
  have ph: "ph (enter x r s) = x" for x r s by (auto simp: enter_def psi_task_change_def split: option.split)
  have "psi_step (new_task False False) ?s1" by (rule move_in) (simp add: new_task_def)
  moreover have "psi_step ?s1 ?s2" by (rule switch_in) (rule ph)
  moreover have "psi_step ?s2 ?s3" by (rule iowait) (rule ph)
  moreover have "psi_step ?s3 ?s4" by (rule sleep) (simp add: ph)
  moreover have "psi_step ?s4 ?s5" by (rule wake_moved) (rule ph)
  moreover have "psi_step ?s5 ?s6" by (rule wake_arrived) (rule ph)
  moreover have "psi_step ?s6 ?s7" by (rule switch_in) (rule ph)
  ultimately have run: "psi_step\<^sup>*\<^sup>* (new_task False False) ?s7" by (meson converse_rtranclp_into_rtranclp r_into_rtranclp)
  have pt: "pt (enter x r s) = fst r" for x r s by (auto simp: enter_def psi_task_change_def split: option.split)
  have io: "in_iowait (pt ?s7)" "\<not> in_memstall (pt ?s7)"
    by (simp_all add: pt psi_enqueue_def psi_ttwu_dequeue_def new_task_def)
  then have "expected_flags ?s7 = {TSK_RUNNING, TSK_ONCPU}" by (auto simp: expected_flags_def ph)
  then show ?thesis using psi_hooks_consistent [OF run] run io ph by blast
qed

section \<open>Saving and restoring\<close>

text \<open>Taking a task off its queue to change it, and putting it back, leaves no trace in the accounting.\<close>

lemma uclamp_inc_id_info: "uclamp_rq_inc_id sys i (rq, p) = Some (rq', p') \<Longrightarrow> info p' = info p \<and> cpu_burst p' = cpu_burst p"
  by (auto simp: uclamp_rq_inc_id_def set_se_def Let_def split: bind_splits)

lemma uclamp_dec_id_info: "uclamp_rq_dec_id i (rq, p) = Some (rq', p') \<Longrightarrow> info p' = info p \<and> cpu_burst p' = cpu_burst p"
  by (auto simp: uclamp_rq_dec_id_def set_se_def Let_def split: bind_splits if_splits prod.splits)

lemma uclamp_inc_info: "uclamp_rq_inc sys (rq, p) = Some (rq', p') \<Longrightarrow> info p' = info p \<and> cpu_burst p' = cpu_burst p"
  by (fastforce simp: uclamp_rq_inc_def split: if_splits bind_splits dest: uclamp_inc_id_info)

lemma uclamp_dec_info: "uclamp_rq_dec sys (rq, p) = Some (rq', p') \<Longrightarrow> info p' = info p \<and> cpu_burst p' = cpu_burst p"
  by (fastforce simp: uclamp_rq_dec_def split: if_splits bind_splits dest: uclamp_dec_id_info)

definition same_accounting :: "queue_state \<Rightarrow> queue_state \<Rightarrow> bool" where
  "same_accounting s s' \<longleftrightarrow> psi s' = psi s \<and> psi_calls s' = psi_calls s \<and>
     (\<forall>x. info (tasks (cpu s') x) = info (tasks (cpu s) x) \<and> cpu_burst (tasks (cpu s') x) = cpu_burst (tasks (cpu s) x))"

lemma set_clamped_accounting:
  assumes "info (snd r) = info (tasks (cpu s) t)" and "cpu_burst (snd r) = cpu_burst (tasks (cpu s) t)"
  shows "same_accounting s ((set_clamped t r s)\<lparr>class_calls := c\<rparr>)"
  using assms by (simp add: same_accounting_def set_clamped_def upd_task_def)

lemma update_clock_accounting:
  "same_accounting (update_clock now fl s) s' \<Longrightarrow> same_accounting s s'"
  by (simp add: same_accounting_def update_clock_def split: if_splits)

lemma enqueue_saved:
  assumes "saved fl" and "enqueue_task sys on off now fl t s = Some s'"
  shows "same_accounting s s'"
proof -
  let ?s = "update_clock now fl s"
  obtain r where r: "uclamp_rq_inc sys (clamp ?s, tasks (cpu ?s) t) = Some r"
    and s': "s' = (set_clamped t r ?s)\<lparr>class_calls := class_calls (set_clamped t r ?s) @ [Class_Enqueue t]\<rparr>"
    using assms by (auto simp: enqueue_task_def Let_def split: bind_splits)
  have "same_accounting ?s s'" unfolding s'
    by (rule set_clamped_accounting) (use uclamp_inc_info r in \<open>cases r; auto\<close>)+
  then show ?thesis by (rule update_clock_accounting)
qed

lemma dequeue_saved:
  assumes "saved fl" and "dequeue_task sys on off now fl t s = Some s'"
  shows "same_accounting s s'"
proof -
  let ?s = "update_clock now fl s"
  obtain r where r: "uclamp_rq_dec sys (clamp ?s, tasks (cpu ?s) t) = Some r"
    and s': "s' = (set_clamped t r ?s)\<lparr>class_calls := class_calls (set_clamped t r ?s) @ [Class_Dequeue t]\<rparr>"
    using assms by (auto simp: dequeue_task_def Let_def split: bind_splits)
  have "same_accounting ?s s'" unfolding s'
    by (rule set_clamped_accounting) (use uclamp_dec_info r in \<open>cases r; auto\<close>)+
  then show ?thesis by (rule update_clock_accounting)
qed

end
