(* ===== verification/Wake_Q.thy ===== *)
theory Wake_Q
  imports Prelude "HOL-Library.Word"
begin

unbundle bit_operations_syntax

text \<open>
  Deferred wake-ups of \<open>core.c\<close>: the queue of \<open>wake_q_add\<close> and \<open>wake_up_q\<close>, whose links lie in the
  tasks and are claimed with \<open>cmpxchg\<close>, and the lock-free flag updates of \<open>resched_curr\<close>. Several
  contexts, each with a queue head of its own, add tasks and drain their queues at the same time:
  every access to a link that another context may touch is one step. The linked lists refine plain
  queues, a task is in at most one queue, and every accepted wake-up is delivered once, in order.
\<close>

section \<open>The linked queue\<close>

text \<open>
  The link of a task is \<open>NULL\<close>, \<open>WAKE_Q_TAIL\<close> or the node of a task; \<open>lastp\<close> of a head is the address of
  the pointer to write next, its own \<open>first\<close> or the link of a task.
\<close>

datatype wptr = Null | Wake_Q_Tail | Node nat

datatype wslot = First_Slot | Next_Slot nat

record wake_q_head =
  first :: wptr
  lastp :: wslot

text \<open>
  What the owner of a head does: it fills the queue, or it is in the loop of \<open>wake_up_q\<close> with the
  given \<open>node\<close>, or it is about to wake up a task it has taken off.
\<close>

datatype wq_pc = Filling | Looping wptr | Waking nat wptr

datatype wq_event = Accepted nat nat | Refused nat nat | Woken nat nat

record wq_state =
  link :: "nat \<Rightarrow> wptr"
  usage :: "nat \<Rightarrow> int"
  head :: "nat \<Rightarrow> wake_q_head"
  pc :: "nat \<Rightarrow> wq_pc"
  events :: "wq_event list"

definition put_slot :: "nat \<Rightarrow> wslot \<Rightarrow> wptr \<Rightarrow> wq_state \<Rightarrow> wq_state" where
  "put_slot h sl v s =
     (case sl of First_Slot \<Rightarrow> s\<lparr>head := (head s)(h := (head s h)\<lparr>first := v\<rparr>)\<rparr>
      | Next_Slot u \<Rightarrow> s\<lparr>link := (link s)(u := v)\<rparr>)"

definition wake_q_add_raw :: "nat \<Rightarrow> nat \<Rightarrow> wq_state \<Rightarrow> bool \<times> wq_state" where
  "wake_q_add_raw h t s =
     (if link s t \<noteq> Null then (False, s\<lparr>events := events s @ [Refused h t]\<rparr>)
      else let s1 = s\<lparr>link := (link s)(t := Wake_Q_Tail), events := events s @ [Accepted h t]\<rparr>;
               s2 = put_slot h (lastp (head s1 h)) (Node t) s1
           in (True, s2\<lparr>head := (head s2)(h := (head s2 h)\<lparr>lastp := Next_Slot t\<rparr>)\<rparr>))"

definition add_usage :: "nat \<Rightarrow> int \<Rightarrow> wq_state \<Rightarrow> wq_state" where
  "add_usage t d s = s\<lparr>usage := (usage s)(t := usage s t + d)\<rparr>"

definition wake_q_add :: "nat \<Rightarrow> nat \<Rightarrow> wq_state \<Rightarrow> wq_state" where
  "wake_q_add h t s = (case wake_q_add_raw h t s of (ok, s1) \<Rightarrow> if ok then add_usage t 1 s1 else s1)"

definition wake_q_add_safe :: "nat \<Rightarrow> nat \<Rightarrow> wq_state \<Rightarrow> wq_state" where
  "wake_q_add_safe h t s = (case wake_q_add_raw h t s of (ok, s1) \<Rightarrow> if \<not> ok then add_usage t (-1) s1 else s1)"

text \<open>
  The loop of \<open>wake_up_q\<close> in two parts: take the node off its list, then wake the task up and drop
  the reference. \<open>None\<close> is a use of a link that is no node.
\<close>

definition take_off :: "wptr \<Rightarrow> wq_state \<Rightarrow> (nat \<times> wptr \<times> wq_state) option" where
  "take_off node s =
     (case node of Node t \<Rightarrow> Some (t, link s t, s\<lparr>link := (link s)(t := Null)\<rparr>) | _ \<Rightarrow> None)"

definition deliver :: "nat \<Rightarrow> nat \<Rightarrow> wq_state \<Rightarrow> wq_state" where
  "deliver h t s = add_usage t (-1) (s\<lparr>events := events s @ [Woken h t]\<rparr>)"

partial_function (option) wake_up_loop :: "nat \<Rightarrow> wptr \<Rightarrow> wq_state \<Rightarrow> wq_state option" where
  "wake_up_loop h node s =
     (if node = Wake_Q_Tail then Some s
      else do {
        (t, rest, s1) \<leftarrow> take_off node s;
        wake_up_loop h rest (deliver h t s1) })"

definition wake_up_q :: "nat \<Rightarrow> wq_state \<Rightarrow> wq_state option" where
  "wake_up_q h s = wake_up_loop h (first (head s h)) s"

section \<open>Contexts that run together\<close>

text \<open>
  One step of a context. A head is local to its context and is spent when its loop is over;
  \<open>Define\<close> is the declaration of a new one, which starts with an empty list. \<open>None\<close> is a step
  that the program of the context does not take now.
\<close>

datatype wq_op = Add nat nat | Add_Safe nat nat | Drain nat | Unlink nat | Wake nat | Define nat

definition new_head :: wake_q_head where
  "new_head = \<lparr>first = Wake_Q_Tail, lastp = First_Slot\<rparr>"

fun wq_exec :: "wq_op \<Rightarrow> wq_state \<Rightarrow> wq_state option" where
  "wq_exec (Add h t) s = (if pc s h = Filling then Some (wake_q_add h t s) else None)"
| "wq_exec (Add_Safe h t) s = (if pc s h = Filling then Some (wake_q_add_safe h t s) else None)"
| "wq_exec (Drain h) s =
     (if pc s h = Filling then Some (s\<lparr>pc := (pc s)(h := Looping (first (head s h)))\<rparr>) else None)"
| "wq_exec (Unlink h) s =
     (case pc s h of Looping node \<Rightarrow> do {
        (t, rest, s1) \<leftarrow> take_off node s;
        Some (s1\<lparr>pc := (pc s1)(h := Waking t rest)\<rparr>) }
      | _ \<Rightarrow> None)"
| "wq_exec (Wake h) s =
     (case pc s h of Waking t rest \<Rightarrow>
        let s1 = deliver h t s in Some (s1\<lparr>pc := (pc s1)(h := Looping rest)\<rparr>)
      | _ \<Rightarrow> None)"
| "wq_exec (Define h) s =
     (if pc s h = Looping Wake_Q_Tail
      then Some (s\<lparr>head := (head s)(h := new_head), pc := (pc s)(h := Filling)\<rparr>) else None)"

fun wq_run :: "wq_op list \<Rightarrow> wq_state \<Rightarrow> wq_state option" where
  "wq_run [] s = Some s"
| "wq_run (e # es) s = do { s1 \<leftarrow> wq_exec e s; wq_run es s1 }"

definition wq_init :: "(nat \<Rightarrow> int) \<Rightarrow> wq_state" where
  "wq_init n = \<lparr>link = (\<lambda>_. Null), usage = n, head = (\<lambda>_. new_head), pc = (\<lambda>_. Filling), events = []\<rparr>"

section \<open>The abstract queues\<close>

text \<open>The wake-ups that the queue of a context accepted and those it has delivered, in order.\<close>

fun accepted :: "nat \<Rightarrow> wq_event list \<Rightarrow> nat list" where
  "accepted h [] = []"
| "accepted h (Accepted k t # es) = (if k = h then t # accepted h es else accepted h es)"
| "accepted h (_ # es) = accepted h es"

fun woken :: "nat \<Rightarrow> wq_event list \<Rightarrow> nat list" where
  "woken h [] = []"
| "woken h (Woken k t # es) = (if k = h then t # woken h es else woken h es)"
| "woken h (_ # es) = woken h es"

lemma accepted_append [simp]: "accepted h (es @ fs) = accepted h es @ accepted h fs"
  by (induction h es rule: accepted.induct) auto

lemma woken_append [simp]: "woken h (es @ fs) = woken h es @ woken h fs"
  by (induction h es rule: woken.induct) auto

text \<open>\<open>chain f p ts q\<close>: following the links from \<open>p\<close> leads through the tasks \<open>ts\<close> to \<open>q\<close>.\<close>

fun chain :: "(nat \<Rightarrow> wptr) \<Rightarrow> wptr \<Rightarrow> nat list \<Rightarrow> wptr \<Rightarrow> bool" where
  "chain f p [] q \<longleftrightarrow> p = q"
| "chain f p (t # ts) q \<longleftrightarrow> p = Node t \<and> chain f (f t) ts q"

lemma chain_upd_other [simp]: "u \<notin> set ts \<Longrightarrow> chain (f(u := v)) p ts q = chain f p ts q"
  by (induction ts arbitrary: p) auto

lemma chain_snoc:
  assumes "chain f p ts q" and "distinct ts" and "ts \<noteq> []" and "t \<notin> set ts"
  shows "chain (f(t := q', last ts := Node t)) p (ts @ [t]) q'"
  using assms
proof (induction ts arbitrary: p)
  case (Cons u ts)
  then show ?case by (cases "ts = []") auto
qed simp

text \<open>The tasks that a context still has to take off, and the one it is about to wake up.\<close>

definition in_hand :: "wq_pc \<Rightarrow> nat list" where
  "in_hand c = (case c of Waking t _ \<Rightarrow> [t] | _ \<Rightarrow> [])"

definition represents :: "wq_state \<Rightarrow> nat \<Rightarrow> nat list \<Rightarrow> bool" where
  "represents s h ts \<longleftrightarrow>
     (case pc s h of
        Filling \<Rightarrow> chain (link s) (first (head s h)) ts Wake_Q_Tail \<and>
          lastp (head s h) = (if ts = [] then First_Slot else Next_Slot (last ts))
      | Looping node \<Rightarrow> chain (link s) node ts Wake_Q_Tail
      | Waking _ rest \<Rightarrow> chain (link s) rest ts Wake_Q_Tail)"

definition wq_rel :: "wq_state \<Rightarrow> (nat \<Rightarrow> nat list) \<Rightarrow> bool" where
  "wq_rel s q \<longleftrightarrow>
     (\<forall>h. represents s h (q h)) \<and> (\<forall>h. distinct (q h)) \<and>
     (\<forall>h k. h \<noteq> k \<longrightarrow> set (q h) \<inter> set (q k) = {}) \<and>
     (\<forall>t. link s t \<noteq> Null \<longleftrightarrow> (\<exists>h. t \<in> set (q h))) \<and>
     (\<forall>h. accepted h (events s) = woken h (events s) @ in_hand (pc s h) @ q h)"

text \<open>What the operations do to the abstract queues.\<close>

fun aq_exec :: "wq_op \<Rightarrow> (nat \<Rightarrow> nat list) \<Rightarrow> nat \<Rightarrow> nat list" where
  "aq_exec (Add h t) q = (if \<exists>k. t \<in> set (q k) then q else q(h := q h @ [t]))"
| "aq_exec (Add_Safe h t) q = (if \<exists>k. t \<in> set (q k) then q else q(h := q h @ [t]))"
| "aq_exec (Unlink h) q = q(h := tl (q h))"
| "aq_exec _ q = q"

section \<open>Refinement\<close>

lemma pc_add_usage [simp]:
  "pc (add_usage t d s) = pc s" "link (add_usage t d s) = link s" "head (add_usage t d s) = head s"
  "events (add_usage t d s) = events s"
  by (simp_all add: add_usage_def)

lemma represents_cong:
  "link s' = link s \<Longrightarrow> head s' h = head s h \<Longrightarrow> pc s' h = pc s h \<Longrightarrow> represents s' h ts = represents s h ts"
  unfolding represents_def by (cases "pc s h") auto

lemma represents_add_usage [simp]: "represents (add_usage t d s) h ts = represents s h ts"
  by (rule represents_cong) simp_all

lemma represents_events [simp]: "represents (s\<lparr>events := es\<rparr>) h ts = represents s h ts"
  by (rule represents_cong) simp_all

lemma wq_rel_add_usage [simp]: "wq_rel (add_usage t d s) q = wq_rel s q"
  by (simp add: wq_rel_def)

lemma wq_rel_refused: "wq_rel s q \<Longrightarrow> wq_rel (s\<lparr>events := events s @ [Refused h t]\<rparr>) q"
  by (simp add: wq_rel_def)

lemma pc_put_slot [simp]:
  "pc (put_slot h sl v s) = pc s" "events (put_slot h sl v s) = events s"
  "usage (put_slot h sl v s) = usage s"
  by (simp_all add: put_slot_def split: wslot.split)

lemma add_accepted_represents:
  assumes "wq_rel s q" and "pc s h = Filling" and "\<forall>k. t \<notin> set (q k)"
    and s': "s' = snd (wake_q_add_raw h t s)" and "link s t = Null"
  shows "represents s' k ((q(h := q h @ [t])) k)"
proof -
  have rep: "represents s h (q h)" "represents s k (q k)" and "distinct (q h)"
    and disj: "k \<noteq> h \<Longrightarrow> set (q k) \<inter> set (q h) = {}"
    using assms(1) by (auto simp: wq_rel_def)
  show ?thesis
  proof (cases "q h = []")
    case True
    with assms rep disj show ?thesis
      by (auto simp: represents_def wake_q_add_raw_def put_slot_def split: wq_pc.splits)
  next
    case False
    have "last (q h) \<notin> set (q k)" if "k \<noteq> h"
      using disj [OF that] False last_in_set [OF False] by blast
    with False assms rep \<open>distinct (q h)\<close> show ?thesis
      by (auto simp: represents_def wake_q_add_raw_def put_slot_def intro: chain_snoc split: wq_pc.splits)
  qed
qed

lemma wq_rel_add_raw:
  assumes rel: "wq_rel s q" and pc: "pc s h = Filling"
  shows "wq_rel (snd (wake_q_add_raw h t s)) (aq_exec (Add h t) q)"
proof (cases "link s t = Null")
  case False
  with rel have "\<exists>k. t \<in> set (q k)" by (simp add: wq_rel_def)
  with False show ?thesis using wq_rel_refused [OF rel] by (simp add: wake_q_add_raw_def)
next
  case True
  let ?s = "snd (wake_q_add_raw h t s)" and ?q = "q(h := q h @ [t])"
  from True rel have no: "\<forall>k. t \<notin> set (q k)" by (auto simp: wq_rel_def)
  have lastp: "lastp (head s h) = (if q h = [] then First_Slot else Next_Slot (last (q h)))"
    using rel pc by (auto simp: wq_rel_def represents_def dest: spec [of _ h])
  have "q h \<noteq> [] \<Longrightarrow> link s (last (q h)) \<noteq> Null"
    using rel last_in_set [of "q h"] unfolding wq_rel_def by blast
  then have link: "link ?s u \<noteq> Null \<longleftrightarrow> link s u \<noteq> Null \<or> u = t" for u
    using True lastp by (cases "q h = []") (auto simp: wake_q_add_raw_def put_slot_def Let_def)
  have ev: "events ?s = events s @ [Accepted h t]" and pc': "pc ?s = pc s"
    using True by (simp_all add: wake_q_add_raw_def Let_def)
  have "wq_rel ?s ?q"
    unfolding wq_rel_def
  proof (intro conjI allI impI)
    fix k show "represents ?s k (?q k)"
      by (rule add_accepted_represents [OF rel pc no refl True])
  next
    fix k show "distinct (?q k)" using rel no by (simp add: wq_rel_def)
  next
    fix k j :: nat assume "k \<noteq> j"
    with rel have "set (q k) \<inter> set (q j) = {}" by (simp add: wq_rel_def)
    then show "set (?q k) \<inter> set (?q j) = {}" using \<open>k \<noteq> j\<close> no by (auto split: if_splits)
  next
    fix u show "link ?s u \<noteq> Null \<longleftrightarrow> (\<exists>k. u \<in> set (?q k))"
      using rel by (auto simp: link wq_rel_def split: if_splits)
  next
    fix k show "accepted k (events ?s) = woken k (events ?s) @ in_hand (pc ?s k) @ ?q k"
      using rel by (simp add: ev pc' wq_rel_def)
  qed
  with no show ?thesis by simp
qed

lemma wq_rel_add:
  assumes "wq_rel s q" and "pc s h = Filling"
  shows "wq_rel (wake_q_add h t s) (aq_exec (Add h t) q)"
    and "wq_rel (wake_q_add_safe h t s) (aq_exec (Add_Safe h t) q)"
  using wq_rel_add_raw [OF assms, of t]
  unfolding wake_q_add_def wake_q_add_safe_def split_beta aq_exec.simps
  by (cases "fst (wake_q_add_raw h t s)"; simp)+

lemma chain_Node: "chain f (Node t) ts Wake_Q_Tail \<Longrightarrow> ts = t # tl ts \<and> chain f (f t) (tl ts) Wake_Q_Tail"
  by (cases ts) auto

lemma wq_rel_unlink:
  assumes rel: "wq_rel s q" and pc: "pc s h = Looping (Node t)"
  shows "wq_rel (s\<lparr>link := (link s)(t := Null), pc := (pc s)(h := Waking t (link s t))\<rparr>) (q(h := tl (q h)))"
    (is "wq_rel ?s ?q")
proof -
  from rel pc have q: "q h = t # tl (q h)" and ch: "chain (link s) (link s t) (tl (q h)) Wake_Q_Tail"
    using chain_Node [of "link s" t "q h"] by (auto simp: wq_rel_def represents_def dest: spec [of _ h])
  have dist: "distinct (t # tl (q h))" using rel q by (metis wq_rel_def)
  have away: "t \<notin> set (q k)" if "k \<noteq> h" for k
    using rel q that unfolding wq_rel_def by (metis disjoint_iff list.set_intros(1))
  show ?thesis
    unfolding wq_rel_def
  proof (intro conjI allI impI)
    fix k show "represents ?s k (?q k)"
      using rel ch dist away [of k] unfolding wq_rel_def
      by (cases "k = h") (auto simp: represents_def split: wq_pc.splits dest: spec [of _ k])
  next
    fix k show "distinct (?q k)" using rel by (simp add: wq_rel_def distinct_tl)
  next
    fix k j :: nat assume "k \<noteq> j"
    with rel have "set (q k) \<inter> set (q j) = {}" by (simp add: wq_rel_def)
    moreover have "set (tl (q h)) \<subseteq> set (q h)" by (cases "q h") auto
    ultimately show "set (?q k) \<inter> set (?q j) = {}" by (auto split: if_splits)
  next
    fix u
    have "(\<exists>k. u \<in> set (?q k)) \<longleftrightarrow> u \<noteq> t \<and> (\<exists>k. u \<in> set (q k))"
      using q dist away by (metis distinct.simps(2) fun_upd_apply list.set_intros(2) set_ConsD)
    with rel show "link ?s u \<noteq> Null \<longleftrightarrow> (\<exists>k. u \<in> set (?q k))" by (simp add: wq_rel_def)
  next
    fix k show "accepted k (events ?s) = woken k (events ?s) @ in_hand (pc ?s k) @ ?q k"
      using rel q pc by (cases "k = h") (auto simp: wq_rel_def in_hand_def dest: spec [of _ h])
  qed
qed

text \<open>A step of one context that leaves the links alone.\<close>

lemma wq_rel_local:
  assumes rel: "wq_rel s q" and h: "represents s' h (q h)"
    and other: "link s' = link s" "\<And>k. k \<noteq> h \<Longrightarrow> head s' k = head s k \<and> pc s' k = pc s k"
    and ev: "\<And>k. accepted k (events s') = woken k (events s') @ in_hand (pc s' k) @ q k"
  shows "wq_rel s' q"
proof -
  have "represents s' k (q k)" for k
    using rel h other represents_cong [of s' s k "q k"] by (cases "k = h") (auto simp: wq_rel_def)
  with rel other(1) ev show ?thesis by (simp add: wq_rel_def)
qed

lemma wq_relD:
  assumes "wq_rel s q"
  shows "represents s h (q h)" and "accepted h (events s) = woken h (events s) @ in_hand (pc s h) @ q h"
  using assms by (simp_all add: wq_rel_def)

lemma wq_rel_deliver:
  assumes rel: "wq_rel s q" and pc: "pc s h = Waking t rest"
  shows "wq_rel ((deliver h t s)\<lparr>pc := (pc s)(h := Looping rest)\<rparr>) q"
  by (rule wq_rel_local [OF rel, where h = h])
     (use wq_relD [OF rel] wq_relD [OF rel, of h] pc in
       \<open>auto simp: deliver_def add_usage_def represents_def in_hand_def\<close>)

lemma wq_rel_drain:
  assumes rel: "wq_rel s q" and pc: "pc s h = Filling"
  shows "wq_rel (s\<lparr>pc := (pc s)(h := Looping (first (head s h)))\<rparr>) q"
  by (rule wq_rel_local [OF rel, where h = h])
     (use wq_relD [OF rel] wq_relD [OF rel, of h] pc in \<open>auto simp: represents_def in_hand_def\<close>)

lemma chain_tail [simp]: "chain f Wake_Q_Tail ts q \<longleftrightarrow> ts = [] \<and> q = Wake_Q_Tail"
  by (cases ts) auto

lemma wq_rel_define:
  assumes rel: "wq_rel s q" and pc: "pc s h = Looping Wake_Q_Tail"
  shows "wq_rel (s\<lparr>head := (head s)(h := new_head), pc := (pc s)(h := Filling)\<rparr>) q"
  by (rule wq_rel_local [OF rel, where h = h])
     (use wq_relD [OF rel] wq_relD [OF rel, of h] pc in \<open>auto simp: represents_def in_hand_def new_head_def\<close>)

lemma wq_exec_refines:
  assumes "wq_rel s q" and "wq_exec e s = Some s'"
  shows "wq_rel s' (aq_exec e q)"
proof (cases e)
  case (Add h t)
  with assms have "s' = wake_q_add h t s" "pc s h = Filling" by (auto split: if_splits)
  with wq_rel_add(1) [OF assms(1), of h t] show ?thesis unfolding Add by simp
next
  case (Add_Safe h t)
  with assms have "s' = wake_q_add_safe h t s" "pc s h = Filling" by (auto split: if_splits)
  with wq_rel_add(2) [OF assms(1), of h t] show ?thesis unfolding Add_Safe by simp
next
  case (Unlink h)
  with assms show ?thesis
    by (auto simp: take_off_def split: wq_pc.splits wptr.splits bind_splits intro: wq_rel_unlink)
qed (use assms wq_rel_drain wq_rel_define wq_rel_deliver in
     \<open>auto simp: Let_def deliver_def split: if_splits wq_pc.splits\<close>)

lemma wq_run_refines:
  "wq_rel s q \<Longrightarrow> wq_run es s = Some s' \<Longrightarrow> wq_rel s' (fold aq_exec es q)"
proof (induction es arbitrary: s q)
  case (Cons e es)
  from Cons.prems(2) obtain s1 where "wq_exec e s = Some s1" and run: "wq_run es s1 = Some s'"
    by (auto split: bind_splits)
  then have "wq_rel s1 (aq_exec e q)" using wq_exec_refines Cons.prems(1) by blast
  from Cons.IH [OF this run] show ?case by simp
qed simp

lemma wq_rel_init: "wq_rel (wq_init n) (\<lambda>_. [])"
  by (simp add: wq_rel_def represents_def wq_init_def new_head_def in_hand_def)

text \<open>References: what \<open>get_task_struct\<close> and \<open>put_task_struct\<close> did to the count of a task.\<close>

fun safe_adds :: "nat \<Rightarrow> wq_op list \<Rightarrow> int" where
  "safe_adds t [] = 0"
| "safe_adds t (Add_Safe h u # es) = (if u = t then 1 else 0) + safe_adds t es"
| "safe_adds t (_ # es) = safe_adds t es"

fun outstanding :: "nat \<Rightarrow> wq_event list \<Rightarrow> int" where
  "outstanding t [] = 0"
| "outstanding t (Accepted h u # es) = (if u = t then 1 else 0) + outstanding t es"
| "outstanding t (Woken h u # es) = (if u = t then -1 else 0) + outstanding t es"
| "outstanding t (_ # es) = outstanding t es"

lemma outstanding_append [simp]: "outstanding t (es @ fs) = outstanding t es + outstanding t fs"
  by (induction t es rule: outstanding.induct) auto

lemma usage_exec:
  assumes "wq_exec e s = Some s'"
  shows "usage s' t - outstanding t (events s') = usage s t - outstanding t (events s) - safe_adds t [e]"
  using assms
  by (cases e)
     (auto simp: wake_q_add_def wake_q_add_safe_def wake_q_add_raw_def add_usage_def take_off_def deliver_def Let_def
        split: if_splits wq_pc.splits wptr.splits bind_splits)

lemma safe_adds_Cons: "safe_adds t (e # es) = safe_adds t [e] + safe_adds t es"
  by (cases e) auto

lemma usage_run:
  "wq_run es s = Some s' \<Longrightarrow>
     usage s' t - outstanding t (events s') = usage s t - outstanding t (events s) - safe_adds t es"
proof (induction es arbitrary: s)
  case (Cons e es)
  from Cons.prems obtain s1 where e: "wq_exec e s = Some s1" and run: "wq_run es s1 = Some s'"
    by (auto split: bind_splits)
  show ?case using usage_exec [OF e, of t] Cons.IH [OF run] safe_adds_Cons [of t e es] by linarith
qed simp

text \<open>Outstanding wake-ups of a task, context by context.\<close>

fun event_ctx :: "wq_event \<Rightarrow> nat" where
  "event_ctx (Accepted h _) = h"
| "event_ctx (Refused h _) = h"
| "event_ctx (Woken h _) = h"

lemma outstanding_sum:
  assumes "finite H" and "event_ctx ` set es \<subseteq> H"
  shows "outstanding t es = (\<Sum>h\<in>H. int (count_list (accepted h es) t) - int (count_list (woken h es) t))"
  using assms
proof (induction t es rule: outstanding.induct)
  case (2 t h u es)
  then have "outstanding t es = (\<Sum>k\<in>H. int (count_list (accepted k es) t) - int (count_list (woken k es) t))"
    and h: "h \<in> H" by auto
  moreover have "(\<Sum>k\<in>H. int (count_list (accepted k (Accepted h u # es)) t) - int (count_list (woken k (Accepted h u # es)) t)) =
      (\<Sum>k\<in>H. (if k = h then if u = t then 1 else 0 else 0) +
        (int (count_list (accepted k es) t) - int (count_list (woken k es) t)))"
    by (rule sum.cong) auto
  ultimately show ?case using \<open>finite H\<close> by (simp add: sum.distrib)
next
  case (3 t h u es)
  then have "outstanding t es = (\<Sum>k\<in>H. int (count_list (accepted k es) t) - int (count_list (woken k es) t))"
    and h: "h \<in> H" by auto
  moreover have "(\<Sum>k\<in>H. int (count_list (accepted k (Woken h u # es)) t) - int (count_list (woken k (Woken h u # es)) t)) =
      (\<Sum>k\<in>H. (if k = h then if u = t then -1 else 0 else 0) +
        (int (count_list (accepted k es) t) - int (count_list (woken k es) t)))"
    by (rule sum.cong) auto
  ultimately show ?case using \<open>finite H\<close> by (simp add: sum.distrib)
qed auto

lemma outstanding_nil:
  assumes "\<And>h. accepted h es = woken h es"
  shows "outstanding t es = 0"
  using outstanding_sum [of "event_ctx ` set es" es t] assms by simp

text \<open>The whole loop, run by one context alone.\<close>

lemma wake_up_loop_chain:
  assumes "chain (link s) node ts Wake_Q_Tail" and "distinct ts"
  shows "\<exists>s'. wake_up_loop h node s = Some s' \<and> link s' = (\<lambda>t. if t \<in> set ts then Null else link s t) \<and>
      events s' = events s @ map (Woken h) ts \<and> head s' = head s \<and> pc s' = pc s \<and>
      (\<forall>t. usage s' t = usage s t - (if t \<in> set ts then 1 else 0))"
  using assms
proof (induction ts arbitrary: node s)
  case Nil
  then show ?case by (subst wake_up_loop.simps) simp
next
  case (Cons t ts)
  let ?s = "deliver h t (s\<lparr>link := (link s)(t := Null)\<rparr>)"
  have "wake_up_loop h node s = wake_up_loop h (link s t) ?s"
    using Cons.prems by (subst wake_up_loop.simps) (simp add: take_off_def)
  moreover have "chain (link ?s) (link s t) ts Wake_Q_Tail" and "distinct ts"
    using Cons.prems by (simp_all add: deliver_def)
  from Cons.IH [OF this] obtain s' where
    "wake_up_loop h (link s t) ?s = Some s'" "link s' = (\<lambda>u. if u \<in> set ts then Null else link ?s u)"
    "events s' = events ?s @ map (Woken h) ts" "head s' = head ?s" "pc s' = pc ?s"
    "\<forall>u. usage s' u = usage ?s u - (if u \<in> set ts then 1 else 0)" by blast
  ultimately show ?case using Cons.prems(2) by (auto simp: deliver_def add_usage_def fun_eq_iff)
qed

section \<open>Properties of the queue\<close>

definition queues_after :: "wq_op list \<Rightarrow> nat \<Rightarrow> nat list" where
  "queues_after es = fold aq_exec es (\<lambda>_. [])"

lemma wq_run_rel: "wq_run es (wq_init n) = Some s \<Longrightarrow> wq_rel s (queues_after es)"
  unfolding queues_after_def by (rule wq_run_refines [OF wq_rel_init])

lemma link_not_Null: "represents s h ts \<Longrightarrow> pc s h = Looping node \<Longrightarrow> node \<noteq> Null"
  by (cases ts) (auto simp: represents_def)

text \<open>
  C10. In every history of any number of contexts that add tasks to their queues and drain them,
  step by step and in any order, the links in the tasks refine plain queues of which no two share a
  task: a context that drains its queue always stands on a node or at the end, the wake-ups
  it accepted are those it delivered, the one in its hands and its queue, in this order, and
  the reference count of a task has changed by the wake-ups that are outstanding and by the references
  that callers of \<open>wake_q_add_safe\<close> gave away.
\<close>

theorem wake_q_refines:
  assumes "wq_run es (wq_init n) = Some s"
  shows "represents s h (queues_after es h) \<and> distinct (queues_after es h) \<and>
    (h \<noteq> k \<longrightarrow> set (queues_after es h) \<inter> set (queues_after es k) = {}) \<and>
    pc s h \<noteq> Looping Null \<and>
    accepted h (events s) = woken h (events s) @ in_hand (pc s h) @ queues_after es h \<and>
    usage s t = n t + outstanding t (events s) - safe_adds t es"
proof -
  note rel = wq_run_rel [OF assms]
  have "usage s t = n t + outstanding t (events s) - safe_adds t es"
    using usage_run [OF assms, of t] by (simp add: wq_init_def)
  moreover have "pc s h \<noteq> Looping Null" using link_not_Null [OF wq_relD(1) [OF rel]] by blast
  ultimately show ?thesis using rel by (simp add: wq_rel_def)
qed

definition sample_history :: "wq_op list" where
  "sample_history = [Add 0 5, Add_Safe 1 5, Add 1 6, Add_Safe 0 7, Drain 0, Unlink 0, Add 1 5]"

lemmas wq_eval = wq_init_def sample_history_def wake_q_add_def wake_q_add_safe_def wake_q_add_raw_def
  put_slot_def add_usage_def take_off_def deliver_def new_head_def

lemma sample_history_run:
  "\<exists>s. wq_run sample_history (wq_init (\<lambda>_. 1)) = Some s \<and> pc s 0 = Waking 5 (Node 7) \<and> pc s 1 = Filling \<and>
    woken 0 (events s) = []"
  by (simp add: wq_eval)

lemma sample_queues: "queues_after sample_history 0 = [7]" "queues_after sample_history 1 = [6, 5]"
  by (auto simp: queues_after_def sample_history_def)

theorem wake_q_refines_witness:
  "\<exists>s. wq_run sample_history (wq_init (\<lambda>_. 1)) = Some s \<and> accepted 0 (events s) = [5, 7]"
proof -
  obtain s where s: "wq_run sample_history (wq_init (\<lambda>_. 1)) = Some s" "pc s 0 = Waking 5 (Node 7)"
    "woken 0 (events s) = []" using sample_history_run by auto
  show ?thesis using wake_q_refines [OF s(1), of 0] s by (simp add: sample_queues in_hand_def)
qed

text \<open>
  At any moment of such a history a context that fills its queue can call \<open>wake_up_q\<close>: the loop
  ends, it wakes up exactly the tasks of the queue, in the order in which they were added, so
  that all wake-ups the context ever accepted are delivered; each of them can be queued again, no other link
  changes, and each loses one reference.
\<close>

theorem wake_up_q_delivers:
  assumes "wq_run es (wq_init n) = Some s" and "pc s h = Filling"
  shows "\<exists>s'. wake_up_q h s = Some s' \<and> events s' = events s @ map (Woken h) (queues_after es h) \<and>
    accepted h (events s') = woken h (events s') \<and>
    (\<forall>t. link s' t = (if t \<in> set (queues_after es h) then Null else link s t)) \<and>
    (\<forall>t. usage s' t = usage s t - (if t \<in> set (queues_after es h) then 1 else 0))"
proof -
  note rel = wq_run_rel [OF assms(1)]
  have ch: "chain (link s) (first (head s h)) (queues_after es h) Wake_Q_Tail"
    using wq_relD(1) [OF rel, of h] assms(2) by (simp add: represents_def)
  have dist: "distinct (queues_after es h)" using rel by (simp add: wq_rel_def)
  have "woken h (map (Woken h) ts) = ts" "accepted h (map (Woken h) ts) = []" for ts
    by (induction ts) auto
  with wake_up_loop_chain [OF ch dist, of h] wq_relD(2) [OF rel, of h] assms(2) show ?thesis
    by (auto simp: wake_up_q_def in_hand_def)
qed

theorem wake_up_q_delivers_witness:
  "\<exists>s s'. wq_run sample_history (wq_init (\<lambda>_. 1)) = Some s \<and> wake_up_q 1 s = Some s' \<and>
    events s' = events s @ [Woken 1 6, Woken 1 5]"
proof -
  obtain s where s: "wq_run sample_history (wq_init (\<lambda>_. 1)) = Some s" "pc s 1 = Filling"
    using sample_history_run by auto
  show ?thesis using wake_up_q_delivers [OF s, unfolded sample_queues] s(1) by auto
qed

text \<open>
  When no context has anything left to do, every task has the references it started with, less
  those that callers of \<open>wake_q_add_safe\<close> gave away.
\<close>

lemma wake_q_balanced:
  assumes "wq_run es (wq_init n) = Some s"
    and "\<And>h. queues_after es h = [] \<and> in_hand (pc s h) = []"
  shows "usage s t = n t - safe_adds t es"
proof -
  have "outstanding t (events s) = 0"
    by (rule outstanding_nil) (use wq_relD(2) [OF wq_run_rel [OF assms(1)]] assms(2) in simp)
  then show ?thesis using usage_run [OF assms(1), of t] by (simp add: wq_init_def)
qed

end
