(* ===== verification/Sched_Pick.thy ===== *)
theory Sched_Pick
  imports Sched_Task
begin

text \<open>
  Choosing the next task, \<open>pick_next_task\<close> of \<open>core.c\<close>. The scheduling classes are other files: their
  operations on a run queue of type \<open>'r\<close> are arguments of the model, and what the choice relies on
  is the predicate \<open>classes_ok\<close>. With it the choice never falls through to \<open>BUG()\<close>, no
  task of a higher class is left waiting, also when the shortcut for the fair class is taken, the previous task has been put
  back exactly when another choice needs it, and no class that ran before loses its turn to pull work from other CPUs.
\<close>

section \<open>The scheduling classes\<close>

fun rank :: "sched_class \<Rightarrow> nat" where
  "rank Stop_Class = 4"
| "rank Dl_Class = 3"
| "rank Rt_Class = 2"
| "rank Fair_Class = 1"
| "rank Idle_Class = 0"

definition all_classes :: "sched_class list" where
  "all_classes = [Stop_Class, Dl_Class, Rt_Class, Fair_Class, Idle_Class]"

text \<open>\<open>for_class_range (class, from, &idle_sched_class)\<close>.\<close>

definition class_range :: "sched_class \<Rightarrow> sched_class list" where
  "class_range from = filter (\<lambda>c. rank c \<le> rank from \<and> c \<noteq> Idle_Class) all_classes"

datatype fair_pick = Retry_Task | No_Task | Picked nat

record 'r class_ops =
  nr_running :: "'r \<Rightarrow> nat"
  h_nr_running :: "'r \<Rightarrow> nat"
  balance :: "sched_class \<Rightarrow> nat \<Rightarrow> 'r \<Rightarrow> bool \<times> 'r"
  put_prev_task :: "nat \<Rightarrow> 'r \<Rightarrow> 'r"
  class_pick :: "sched_class \<Rightarrow> 'r \<Rightarrow> nat option \<times> 'r"
  pick_next_task_fair :: "nat \<Rightarrow> 'r \<Rightarrow> fair_pick \<times> 'r"
  class_dequeue :: "nat \<Rightarrow> 'r \<Rightarrow> 'r"
  class_enqueue :: "nat \<Rightarrow> 'r \<Rightarrow> 'r"

section \<open>The choice\<close>

fun balance_pass :: "'r class_ops \<Rightarrow> nat \<Rightarrow> sched_class list \<Rightarrow> 'r \<Rightarrow> 'r" where
  "balance_pass ops prev [] r = r"
| "balance_pass ops prev (c # cs) r =
     (case balance ops c prev r of (found, r') \<Rightarrow> if found then r' else balance_pass ops prev cs r')"

definition put_prev_task_balance :: "'r class_ops \<Rightarrow> (nat \<Rightarrow> sched_class) \<Rightarrow> nat \<Rightarrow> 'r \<Rightarrow> 'r" where
  "put_prev_task_balance ops cls prev r =
     put_prev_task ops prev (balance_pass ops prev (class_range (cls prev)) r)"

fun pick_loop :: "'r class_ops \<Rightarrow> sched_class list \<Rightarrow> 'r \<Rightarrow> nat option \<times> 'r" where
  "pick_loop ops [] r = (None, r)"
| "pick_loop ops (c # cs) r =
     (case class_pick ops c r of (Some p, r') \<Rightarrow> (Some p, r') | (None, r') \<Rightarrow> pick_loop ops cs r')"

definition pick_restart :: "'r class_ops \<Rightarrow> (nat \<Rightarrow> sched_class) \<Rightarrow> nat \<Rightarrow> 'r \<Rightarrow> nat option \<times> 'r" where
  "pick_restart ops cls prev r = pick_loop ops all_classes (put_prev_task_balance ops cls prev r)"

text \<open>The result \<open>None\<close> is \<open>BUG()\<close>.\<close>

definition pick_next_task :: "'r class_ops \<Rightarrow> (nat \<Rightarrow> sched_class) \<Rightarrow> nat \<Rightarrow> 'r \<Rightarrow> nat option \<times> 'r" where
  "pick_next_task ops cls prev r =
     (if rank (cls prev) \<le> rank Fair_Class \<and> nr_running ops r = h_nr_running ops r
      then case pick_next_task_fair ops prev r of
             (Retry_Task, r') \<Rightarrow> pick_restart ops cls prev r'
           | (No_Task, r') \<Rightarrow> class_pick ops Idle_Class (put_prev_task ops prev r')
           | (Picked p, r') \<Rightarrow> (Some p, r')
      else pick_restart ops cls prev r)"

section \<open>What the classes promise\<close>

text \<open>
  \<open>runnable r c\<close> is the number of tasks of class \<open>c\<close> that can run and \<open>current r\<close> the task that is set up as the running
  one in the data of its class, \<open>None\<close> after \<open>put_prev_task\<close>. A class is asked to pick only while no task is set up; it
  then sets up one of its own tasks whenever it has one. The idle class always has one. \<open>nr_running\<close> counts the tasks of the other
  classes and \<open>h_nr_running\<close> those of the fair class. Balancing may bring in any tasks; it is called while the previous
  task is still set up, leaves it so, and answers true only when a task of that class or a higher one can run.
  \<open>pick_next_task_fair\<close> also starts with the previous task set up, and puts it back itself when it picks a task. It drops the lock when
  it pulls tasks from other CPUs; a task of a higher class that appears meanwhile makes it answer \<open>RETRY_TASK\<close>.
\<close>

definition pick_law :: "'r class_ops \<Rightarrow> (nat \<Rightarrow> sched_class) \<Rightarrow> ('r \<Rightarrow> nat option) \<Rightarrow> ('r \<Rightarrow> sched_class \<Rightarrow> nat) \<Rightarrow> bool" where
  "pick_law ops cls current runnable \<longleftrightarrow>
     (\<forall>c r x r'. current r = None \<and> class_pick ops c r = (x, r') \<longrightarrow>
        runnable r' = runnable r \<and> (x = None \<longleftrightarrow> runnable r c = 0) \<and> current r' = x \<and> (\<forall>p. x = Some p \<longrightarrow> cls p = c))"

definition count_law :: "'r class_ops \<Rightarrow> ('r \<Rightarrow> sched_class \<Rightarrow> nat) \<Rightarrow> bool" where
  "count_law ops runnable \<longleftrightarrow>
     (\<forall>r. 0 < runnable r Idle_Class \<and> h_nr_running ops r = runnable r Fair_Class \<and>
        nr_running ops r = runnable r Stop_Class + runnable r Dl_Class + runnable r Rt_Class + runnable r Fair_Class)"

definition put_law :: "'r class_ops \<Rightarrow> ('r \<Rightarrow> nat option) \<Rightarrow> ('r \<Rightarrow> sched_class \<Rightarrow> nat) \<Rightarrow> bool" where
  "put_law ops current runnable \<longleftrightarrow>
     (\<forall>prev r. current r = Some prev \<longrightarrow> current (put_prev_task ops prev r) = None \<and> runnable (put_prev_task ops prev r) = runnable r)"

definition balance_law :: "'r class_ops \<Rightarrow> ('r \<Rightarrow> nat option) \<Rightarrow> ('r \<Rightarrow> sched_class \<Rightarrow> nat) \<Rightarrow> bool" where
  "balance_law ops current runnable \<longleftrightarrow>
     (\<forall>c prev r found r'. current r = Some prev \<and> balance ops c prev r = (found, r') \<longrightarrow>
        current r' = Some prev \<and> (found \<longrightarrow> (\<exists>d. rank c \<le> rank d \<and> 0 < runnable r' d)))"

definition fair_law :: "'r class_ops \<Rightarrow> (nat \<Rightarrow> sched_class) \<Rightarrow> ('r \<Rightarrow> nat option) \<Rightarrow> ('r \<Rightarrow> sched_class \<Rightarrow> nat) \<Rightarrow> bool" where
  "fair_law ops cls current runnable \<longleftrightarrow>
     (\<forall>prev r x r'. current r = Some prev \<and> pick_next_task_fair ops prev r = (x, r') \<longrightarrow>
        (case x of
           Retry_Task \<Rightarrow> current r' = Some prev
         | No_Task \<Rightarrow> current r' = Some prev \<and> runnable r' Fair_Class = 0 \<and> (\<forall>c. runnable r c = 0 \<longrightarrow> runnable r' c = 0)
         | Picked p \<Rightarrow> cls p = Fair_Class \<and> current r' = Some p \<and> 0 < runnable r' Fair_Class \<and>
             (\<forall>c. c \<noteq> Fair_Class \<and> runnable r c = 0 \<longrightarrow> runnable r' c = 0)))"

definition classes_ok ::
    "'r class_ops \<Rightarrow> (nat \<Rightarrow> sched_class) \<Rightarrow> ('r \<Rightarrow> nat option) \<Rightarrow> ('r \<Rightarrow> sched_class \<Rightarrow> nat) \<Rightarrow> bool" where
  "classes_ok ops cls current runnable \<longleftrightarrow>
     pick_law ops cls current runnable \<and> count_law ops runnable \<and> put_law ops current runnable \<and> balance_law ops current runnable \<and>
     fair_law ops cls current runnable"

lemma class_pick_ok:
  "classes_ok ops cls current runnable \<Longrightarrow> current r = None \<Longrightarrow> class_pick ops c r = (x, r') \<Longrightarrow>
     runnable r' = runnable r \<and> (x = None \<longleftrightarrow> runnable r c = 0) \<and> current r' = x \<and> (\<forall>p. x = Some p \<longrightarrow> cls p = c)"
  unfolding classes_ok_def pick_law_def by blast

lemma idle_runnable: "classes_ok ops cls current runnable \<Longrightarrow> 0 < runnable r Idle_Class"
  by (simp add: classes_ok_def count_law_def)

lemma only_fair:
  "classes_ok ops cls current runnable \<Longrightarrow> nr_running ops r = h_nr_running ops r \<Longrightarrow> 1 < rank d \<Longrightarrow> runnable r d = 0"
  by (cases d) (simp_all add: classes_ok_def count_law_def)

lemma put_prev_ok:
  "classes_ok ops cls current runnable \<Longrightarrow> current r = Some prev \<Longrightarrow>
     current (put_prev_task ops prev r) = None \<and> runnable (put_prev_task ops prev r) = runnable r"
  unfolding classes_ok_def put_law_def by blast

lemma balance_ok:
  "classes_ok ops cls current runnable \<Longrightarrow> current r = Some prev \<Longrightarrow> balance ops c prev r = (found, r') \<Longrightarrow>
     current r' = Some prev \<and> (found \<longrightarrow> (\<exists>d. rank c \<le> rank d \<and> 0 < runnable r' d))"
  unfolding classes_ok_def balance_law_def by blast

lemma pick_fair_ok:
  "classes_ok ops cls current runnable \<Longrightarrow> current r = Some prev \<Longrightarrow> pick_next_task_fair ops prev r = (x, r') \<Longrightarrow>
     (case x of
        Retry_Task \<Rightarrow> current r' = Some prev
      | No_Task \<Rightarrow> current r' = Some prev \<and> runnable r' Fair_Class = 0 \<and> (\<forall>c. runnable r c = 0 \<longrightarrow> runnable r' c = 0)
      | Picked p \<Rightarrow> cls p = Fair_Class \<and> current r' = Some p \<and> 0 < runnable r' Fair_Class \<and>
          (\<forall>c. c \<noteq> Fair_Class \<and> runnable r c = 0 \<longrightarrow> runnable r' c = 0))"
  unfolding classes_ok_def fair_law_def by blast

text \<open>The task is one that can run, no task of a higher class can, and it is the one that is set up.\<close>

definition highest :: "(nat \<Rightarrow> sched_class) \<Rightarrow> ('r \<Rightarrow> nat option) \<Rightarrow> ('r \<Rightarrow> sched_class \<Rightarrow> nat) \<Rightarrow> nat \<Rightarrow> 'r \<Rightarrow> bool" where
  "highest cls current runnable p r \<longleftrightarrow>
     0 < runnable r (cls p) \<and> (\<forall>c. rank (cls p) < rank c \<longrightarrow> runnable r c = 0) \<and> current r = Some p"

lemma pick_loop_highest:
  assumes ok: "classes_ok ops cls current runnable"
    and "Idle_Class \<in> set cs" and "sorted_wrt (\<lambda>c d. rank d < rank c) cs"
    and "\<forall>c. c \<notin> set cs \<longrightarrow> runnable r c = 0" and "current r = None"
  shows "\<exists>p r'. pick_loop ops cs r = (Some p, r') \<and> highest cls current runnable p r' \<and> runnable r' = runnable r"
  using assms(2-)
proof (induction cs arbitrary: r)
  case (Cons c cs)
  obtain x r' where pick: "class_pick ops c r = (x, r')" by fastforce
  note picked = class_pick_ok [OF ok Cons.prems(4) pick]
  show ?case
  proof (cases x)
    case None
    then have zero: "runnable r c = 0" and same: "runnable r' = runnable r" using picked by simp_all
    then have "c \<noteq> Idle_Class" using idle_runnable [OF ok, of r] by auto
    then have "\<exists>p r''. pick_loop ops cs r' = (Some p, r'') \<and> highest cls current runnable p r'' \<and> runnable r'' = runnable r'"
      using Cons.prems zero picked None by (intro Cons.IH) (auto simp: same, metis)
    with None pick same show ?thesis by auto
  next
    case (Some p)
    have "runnable r d = 0" if "rank c < rank d" for d
    proof -
      from that Cons.prems(2) have "d \<notin> set (c # cs)" by (metis less_asym less_irrefl set_ConsD sorted_wrt.simps(2))
      with Cons.prems(3) show ?thesis by blast
    qed
    then show ?thesis using pick Some picked by (auto simp: highest_def)
  qed
qed simp

lemma balance_pass_current:
  assumes "classes_ok ops cls current runnable" and "current r = Some prev"
  shows "current (balance_pass ops prev cs r) = Some prev"
  using assms(2)
proof (induction cs arbitrary: r)
  case (Cons c cs)
  then show ?case using balance_ok [OF assms(1) Cons.prems] by (auto split: prod.splits)
qed simp

lemma all_classes_all: "c \<in> set all_classes"
  by (cases c) (simp_all add: all_classes_def)

lemma pick_restart_highest:
  assumes ok: "classes_ok ops cls current runnable" and "current r = Some prev"
  shows "\<exists>p r'. pick_restart ops cls prev r = (Some p, r') \<and> highest cls current runnable p r' \<and>
    runnable r' = runnable (balance_pass ops prev (class_range (cls prev)) r)"
proof -
  let ?b = "balance_pass ops prev (class_range (cls prev)) r"
  have "current ?b = Some prev" by (rule balance_pass_current [OF assms])
  note put = put_prev_ok [OF ok this]
  have "Idle_Class \<in> set all_classes" "sorted_wrt (\<lambda>c d. rank d < rank c) all_classes" by (simp_all add: all_classes_def)
  then have "\<exists>p r'. pick_loop ops all_classes (put_prev_task ops prev ?b) = (Some p, r') \<and> highest cls current runnable p r' \<and>
      runnable r' = runnable (put_prev_task ops prev ?b)"
    using put all_classes_all by (intro pick_loop_highest [OF ok]) auto
  then show ?thesis using put by (auto simp: pick_restart_def put_prev_task_balance_def)
qed

lemma pick_highest:
  assumes ok: "classes_ok ops cls current runnable" and cur: "current r = Some prev"
  shows "\<exists>p r'. pick_next_task ops cls prev r = (Some p, r') \<and> highest cls current runnable p r'"
proof (cases "rank (cls prev) \<le> rank Fair_Class \<and> nr_running ops r = h_nr_running ops r")
  case False
  then have "pick_next_task ops cls prev r = pick_restart ops cls prev r" by (auto simp: pick_next_task_def)
  then show ?thesis using pick_restart_highest [OF ok cur] by auto
next
  case True
  obtain x r' where fair: "pick_next_task_fair ops prev r = (x, r')" by fastforce
  note fair_ok = pick_fair_ok [OF ok cur fair] and none = only_fair [OF ok conjunct2 [OF True]]
  show ?thesis
  proof (cases x)
    case Retry_Task
    with True fair fair_ok show ?thesis using pick_restart_highest [OF ok, of r' prev] by (auto simp: pick_next_task_def)
  next
    case No_Task
    then have put: "current (put_prev_task ops prev r') = None" "runnable (put_prev_task ops prev r') = runnable r'"
      using put_prev_ok [OF ok, of r' prev] fair_ok by simp_all
    have zero: "0 < rank c \<Longrightarrow> runnable r' c = 0" for c using No_Task fair_ok none [of c] by (cases c) auto
    obtain y s where idle: "class_pick ops Idle_Class (put_prev_task ops prev r') = (y, s)" by fastforce
    note picked = class_pick_ok [OF ok put(1) idle]
    then obtain p where "y = Some p" using idle_runnable [OF ok, of r'] put(2) by (cases y) auto
    with True fair No_Task idle picked put(2) zero idle_runnable [OF ok, of r'] show ?thesis
      by (auto simp: pick_next_task_def highest_def)
  next
    case (Picked p)
    have "runnable r' c = 0" if "1 < rank c" for c using that Picked fair_ok none [of c] by (cases c) auto
    with True fair Picked fair_ok show ?thesis by (auto simp: pick_next_task_def highest_def)
  qed
qed

section \<open>Who was asked\<close>

text \<open>The same operations on a run queue that also keeps the calls made so far, the last one first.\<close>

datatype class_call = Balance sched_class | Put nat | Pick sched_class | Pick_Fair

definition logged :: "'r class_ops \<Rightarrow> ('r \<times> class_call list) class_ops" where
  "logged ops =
     \<lparr>nr_running = (\<lambda>(r, l). nr_running ops r),
      h_nr_running = (\<lambda>(r, l). h_nr_running ops r),
      balance = (\<lambda>c prev (r, l). case balance ops c prev r of (found, r') \<Rightarrow> (found, (r', Balance c # l))),
      put_prev_task = (\<lambda>prev (r, l). (put_prev_task ops prev r, Put prev # l)),
      class_pick = (\<lambda>c (r, l). case class_pick ops c r of (x, r') \<Rightarrow> (x, (r', Pick c # l))),
      pick_next_task_fair = (\<lambda>prev (r, l). case pick_next_task_fair ops prev r of (x, r') \<Rightarrow> (x, (r', Pick_Fair # l))),
      class_dequeue = (\<lambda>t (r, l). (class_dequeue ops t r, l)),
      class_enqueue = (\<lambda>t (r, l). (class_enqueue ops t r, l))\<rparr>"

lemma logged_simps [simp]:
  "nr_running (logged ops) (r, l) = nr_running ops r"
  "h_nr_running (logged ops) (r, l) = h_nr_running ops r"
  "balance (logged ops) c prev (r, l) = (fst (balance ops c prev r), (snd (balance ops c prev r), Balance c # l))"
  "put_prev_task (logged ops) prev (r, l) = (put_prev_task ops prev r, Put prev # l)"
  "class_pick (logged ops) c (r, l) = (fst (class_pick ops c r), (snd (class_pick ops c r), Pick c # l))"
  "pick_next_task_fair (logged ops) prev (r, l) = (fst (pick_next_task_fair ops prev r), (snd (pick_next_task_fair ops prev r), Pick_Fair # l))"
  by (simp_all add: logged_def split_beta)

lemma balance_pass_logged: "fst (balance_pass (logged ops) prev cs (r, l)) = balance_pass ops prev cs r"
  by (induction cs arbitrary: r l) (auto simp: split_beta)

lemma pick_loop_logged:
  "\<exists>l'. pick_loop (logged ops) cs (r, l) = (fst (pick_loop ops cs r), (snd (pick_loop ops cs r), l')) \<and> set l \<subseteq> set l'"
proof (induction cs arbitrary: r l)
  case (Cons c cs)
  show ?case using Cons.IH [of "snd (class_pick ops c r)" "Pick c # l"] by (cases "class_pick ops c r"; cases "fst (class_pick ops c r)") auto
qed simp

lemma balance_pass_asks:
  assumes ok: "classes_ok ops cls current runnable" and "current r = Some prev" and "sorted_wrt (\<lambda>c d. rank d < rank c) cs"
  shows "\<forall>c \<in> set cs. Balance c \<in> set (snd (balance_pass (logged ops) prev cs (r, l))) \<or>
      (\<exists>d. rank c < rank d \<and> 0 < runnable (balance_pass ops prev cs r) d)"
    "set l \<subseteq> set (snd (balance_pass (logged ops) prev cs (r, l)))"
proof -
  have "(\<forall>c \<in> set cs. Balance c \<in> set (snd (balance_pass (logged ops) prev cs (r, l))) \<or>
      (\<exists>d. rank c < rank d \<and> 0 < runnable (balance_pass ops prev cs r) d)) \<and>
    set l \<subseteq> set (snd (balance_pass (logged ops) prev cs (r, l)))"
    using assms(2,3)
  proof (induction cs arbitrary: r l)
    case (Cons c cs)
    obtain found r' where b: "balance ops c prev r = (found, r')" by fastforce
    note bal = balance_ok [OF ok Cons.prems(1) b]
    show ?case
    proof (cases found)
      case True
      then obtain d where "rank c \<le> rank d" "0 < runnable r' d" using bal by blast
      then show ?thesis using Cons.prems(2) True b by (auto intro: less_le_trans)
    next
      case False
      have "(\<forall>b \<in> set cs. Balance b \<in> set (snd (balance_pass (logged ops) prev cs (r', Balance c # l))) \<or>
          (\<exists>d. rank b < rank d \<and> 0 < runnable (balance_pass ops prev cs r') d)) \<and>
        set (Balance c # l) \<subseteq> set (snd (balance_pass (logged ops) prev cs (r', Balance c # l)))"
        using Cons.IH [of r' "Balance c # l"] bal Cons.prems(2) by simp
      then show ?thesis using False b by simp
    qed
  qed simp
  then show "\<forall>c \<in> set cs. Balance c \<in> set (snd (balance_pass (logged ops) prev cs (r, l))) \<or>
      (\<exists>d. rank c < rank d \<and> 0 < runnable (balance_pass ops prev cs r) d)"
    "set l \<subseteq> set (snd (balance_pass (logged ops) prev cs (r, l)))" by blast+
qed

text \<open>A class from which the choice went away, between that of the previous task and that of the chosen one, had its turn to pull tasks.\<close>

definition asked :: "(nat \<Rightarrow> sched_class) \<Rightarrow> nat \<Rightarrow> nat \<Rightarrow> class_call list \<Rightarrow> bool" where
  "asked cls prev p l \<longleftrightarrow>
     (\<forall>c. rank (cls p) < rank c \<and> rank c \<le> rank (cls prev) \<longrightarrow> Balance c \<in> set l \<or> c = Fair_Class \<and> Pick_Fair \<in> set l)"

lemma class_range_sorted: "sorted_wrt (\<lambda>c d. rank d < rank c) (class_range c)"
  by (simp add: class_range_def all_classes_def)

lemma pick_restart_asks:
  assumes ok: "classes_ok ops cls current runnable" and cur: "current r = Some prev"
    and pick: "pick_restart ops cls prev r = (Some p, r')"
  shows "\<exists>l'. pick_restart (logged ops) cls prev (r, l) = (Some p, (r', l')) \<and> asked cls prev p l'"
proof -
  let ?cs = "class_range (cls prev)"
  let ?b = "balance_pass ops prev ?cs r"
  obtain lb where b: "balance_pass (logged ops) prev ?cs (r, l) = (?b, lb)" by (metis balance_pass_logged prod.collapse)
  obtain l' where l': "pick_restart (logged ops) cls prev (r, l) = (Some p, (r', l'))" "set (Put prev # lb) \<subseteq> set l'"
    using pick_loop_logged [of ops all_classes "put_prev_task ops prev ?b" "Put prev # lb"] pick
    unfolding pick_restart_def put_prev_task_balance_def b logged_simps by fastforce
  have high: "highest cls current runnable p r'" "runnable r' = runnable ?b"
    using pick_restart_highest [OF ok cur] unfolding pick by blast+
  have "Balance c \<in> set l'" if c: "rank (cls p) < rank c" "rank c \<le> rank (cls prev)" for c
  proof -
    have "c \<in> set ?cs" using c all_classes_all [of c] by (auto simp: class_range_def)
    moreover have "\<not> (\<exists>d. rank c < rank d \<and> 0 < runnable ?b d)" using high c(1) by (auto simp: highest_def)
    ultimately show ?thesis using balance_pass_asks(1) [OF ok cur class_range_sorted, of "cls prev" l] l'(2) b by auto
  qed
  then show ?thesis using l' by (auto simp: asked_def)
qed

text \<open>
  C16. With scheduling classes that keep their documented behaviour, whatever the balancing brings in,
  \<open>pick_next_task\<close> always returns a task and never reaches \<open>BUG()\<close>: a task that can run, of the highest class
  that has one, which is set up as the running task in place of the previous one. No class asked to pick or to balance
  meets the previous task in a state it does not expect. Every class below or equal to that of the previous task that the
  choice passes over has had its turn to pull tasks from other CPUs: its \<open>balance\<close> is among the calls,
  or for the fair class on the shortcut the call of \<open>pick_next_task_fair\<close>. The shortcut for run queues with fair tasks only, its retry and its fall
  back to the idle task give this as well as the loop over the classes.
\<close>

theorem pick_next_task_highest:
  assumes ok: "classes_ok ops cls current runnable" and cur: "current r = Some prev"
  shows "\<exists>p r' l. pick_next_task ops cls prev r = (Some p, r') \<and> highest cls current runnable p r' \<and>
    pick_next_task (logged ops) cls prev (r, []) = (Some p, (r', l)) \<and> asked cls prev p l"
proof -
  obtain p r' where p: "pick_next_task ops cls prev r = (Some p, r')" "highest cls current runnable p r'"
    using pick_highest [OF assms] by blast
  have "\<exists>l. pick_next_task (logged ops) cls prev (r, []) = (Some p, (r', l)) \<and> asked cls prev p l"
  proof (cases "rank (cls prev) \<le> rank Fair_Class \<and> nr_running ops r = h_nr_running ops r")
    case False
    then show ?thesis using p(1) pick_restart_asks [OF assms] by (auto simp: pick_next_task_def)
  next
    case True
    obtain x q where fair: "pick_next_task_fair ops prev r = (x, q)" by fastforce
    note fair_ok = pick_fair_ok [OF ok cur fair]
    have only: "c = Fair_Class" if "rank (cls p) < rank c" "rank c \<le> rank (cls prev)" for c using that True by (cases c) auto
    show ?thesis
    proof (cases x)
      case Retry_Task
      then show ?thesis using True fair fair_ok p(1) pick_restart_asks [OF ok] by (simp add: pick_next_task_def)
    next
      case No_Task
      then show ?thesis using True fair p(1) only by (auto simp: pick_next_task_def asked_def)
    next
      case (Picked t)
      then show ?thesis using True fair p(1) only by (auto simp: pick_next_task_def asked_def)
    qed
  qed
  with p show ?thesis by blast
qed

text \<open>A run queue that only counts the tasks of each class, with one task for each class.\<close>

definition sample_class_ops :: "(sched_class \<Rightarrow> nat) class_ops" where
  "sample_class_ops =
     \<lparr>nr_running = (\<lambda>r. r Stop_Class + r Dl_Class + r Rt_Class + r Fair_Class),
      h_nr_running = (\<lambda>r. r Fair_Class),
      balance = (\<lambda>c prev r. (0 < r c, r)),
      put_prev_task = (\<lambda>prev r. r),
      class_pick = (\<lambda>c r. (if c = Idle_Class \<or> 0 < r c then Some (rank c) else None, r)),
      pick_next_task_fair = (\<lambda>prev r. (if 0 < r Fair_Class then Picked (rank Fair_Class) else No_Task, r)),
      class_dequeue = (\<lambda>t r. r), class_enqueue = (\<lambda>t r. r)\<rparr>"

definition sample_class_of :: "nat \<Rightarrow> sched_class" where
  "sample_class_of t = (if t = 4 then Stop_Class else if t = 3 then Dl_Class else if t = 2 then Rt_Class
     else if t = 1 then Fair_Class else Idle_Class)"

lemma sample_class_of_rank [simp]: "sample_class_of (rank c) = c"
  by (cases c) (simp_all add: sample_class_of_def)

text \<open>
  The same with the task that is set up; balancing the real-time class always finds another real-time task, and a class picks nothing while a task
  is set up.
\<close>

definition sample_pulling_ops :: "((sched_class \<Rightarrow> nat) \<times> nat option) class_ops" where
  "sample_pulling_ops =
     \<lparr>nr_running = (\<lambda>(r, q). r Stop_Class + r Dl_Class + r Rt_Class + r Fair_Class),
      h_nr_running = (\<lambda>(r, q). r Fair_Class),
      balance = (\<lambda>c prev (r, q). if c = Rt_Class then (True, (r(c := Suc (r c)), q)) else (0 < r c, (r, q))),
      put_prev_task = (\<lambda>prev (r, q). (r, None)),
      class_pick = (\<lambda>c (r, q). if q = None \<and> (c = Idle_Class \<or> 0 < r c) then (Some (rank c), (r, Some (rank c))) else (None, (r, q))),
      pick_next_task_fair = (\<lambda>prev (r, q). if 0 < r Fair_Class then (Picked (rank Fair_Class), (r, Some (rank Fair_Class))) else (No_Task, (r, q))),
      class_dequeue = (\<lambda>t r. r), class_enqueue = (\<lambda>t r. r)\<rparr>"

lemma sample_pulling_ok:
  "classes_ok sample_pulling_ops sample_class_of snd (\<lambda>(r, q) c. if c = Idle_Class then 1 else r c)"
proof -
  have "pick_law sample_pulling_ops sample_class_of snd (\<lambda>(r, q) c. if c = Idle_Class then 1 else r c)"
    unfolding pick_law_def sample_pulling_ops_def by (auto split: if_splits)
  moreover have "balance_law sample_pulling_ops snd (\<lambda>(r, q) c. if c = Idle_Class then 1 else r c)"
    by (simp add: balance_law_def sample_pulling_ops_def) (metis le_refl rank.simps(5))
  moreover have "fair_law sample_pulling_ops sample_class_of snd (\<lambda>(r, q) c. if c = Idle_Class then 1 else r c)"
    unfolding fair_law_def sample_pulling_ops_def by (auto split: if_splits simp: sample_class_of_def)
  ultimately show ?thesis
    by (simp add: classes_ok_def count_law_def put_law_def) (simp add: sample_pulling_ops_def)
qed

text \<open>A real-time task goes to sleep on a run queue with one fair task: the shortcut is not taken, and a real-time task is pulled.\<close>

theorem pick_next_task_highest_witness:
  "\<exists>p r' l. pick_next_task (logged sample_pulling_ops) sample_class_of 2 ((\<lambda>c. if c = Fair_Class then 1 else 0, Some 2), []) = (Some p, (r', l)) \<and>
     sample_class_of p = Rt_Class \<and> snd r' = Some p \<and> asked sample_class_of 2 p l \<and> l = [Pick Rt_Class, Pick Dl_Class, Pick Stop_Class, Put 2, Balance Rt_Class]"
proof -
  let ?r = "(\<lambda>c. if c = Fair_Class then 1 else 0, Some 2)"
  have p: "pick_next_task (logged sample_pulling_ops) sample_class_of 2 (?r, []) =
      (Some 2, ((\<lambda>c. if c = Fair_Class then 1 else 0)(Rt_Class := 1), Some 2), [Pick Rt_Class, Pick Dl_Class, Pick Stop_Class, Put 2, Balance Rt_Class])"
    by (simp add: pick_next_task_def pick_restart_def put_prev_task_balance_def class_range_def all_classes_def logged_def
        sample_pulling_ops_def sample_class_of_def)
  have "snd ?r = Some 2" by simp
  from pick_next_task_highest [OF sample_pulling_ok this] p show ?thesis by (auto simp: sample_class_of_def)
qed

end
