(* ===== verification/Rq_Clock.thy ===== *)
theory Rq_Clock
  imports Sched_Task
begin

text \<open>
  The clocks of a run queue, \<open>update_rq_clock\<close> of \<open>core.c\<close>: the wall clock, and the clock of the tasks,
  which stands still while interrupts run and while the hypervisor takes the CPU away. Times
  are 64-bit words; \<open>s64\<close> values are the same words read with their sign. The clock sources
  and the configuration are arguments.
\<close>

section \<open>The model\<close>

record rq_clock =
  wall :: u64
  clock_task :: u64
  prev_irq_time :: u64
  prev_steal_time_rq :: u64
  req_skip :: bool
  act_skip :: bool
  updated :: bool
  double_warnings :: nat
  irq_loads :: "u64 list"
  pelt_deltas :: "u64 list"

record clock_config =
  irq_accounting :: bool
  steal_accounting :: bool
  nontask_capacity :: bool
  sched_debug :: bool
  warn_double :: bool

text \<open>One reading of the clock sources: the scheduler clock, the interrupt time and the stolen time.\<close>

record reading =
  now :: u64
  irq_time :: u64
  steal_clock :: u64

text \<open>What is taken out of \<open>delta\<close> for a source that has advanced from \<open>prev\<close> to \<open>cur\<close>.\<close>

definition taken :: "u64 \<Rightarrow> u64 \<Rightarrow> u64 \<Rightarrow> u64" where
  "taken cur prev delta = (if sint (cur - prev) > sint delta then delta else cur - prev)"

definition update_rq_clock_task :: "clock_config \<Rightarrow> reading \<Rightarrow> u64 \<Rightarrow> rq_clock \<Rightarrow> rq_clock" where
  "update_rq_clock_task cfg r delta rq =
     (let irq_delta = (if irq_accounting cfg then taken (irq_time r) (prev_irq_time rq) delta else 0);
          delta1 = delta - irq_delta;
          steal = (if steal_accounting cfg then taken (steal_clock r) (prev_steal_time_rq rq) delta1 else 0);
          delta2 = delta1 - steal
      in rq\<lparr>prev_irq_time := prev_irq_time rq + irq_delta, prev_steal_time_rq := prev_steal_time_rq rq + steal,
           clock_task := clock_task rq + delta2,
           irq_loads := irq_loads rq @ (if irq_delta + steal \<noteq> 0 \<and> nontask_capacity cfg then [irq_delta + steal] else []),
           pelt_deltas := pelt_deltas rq @ [delta2]\<rparr>)"

definition update_rq_clock :: "clock_config \<Rightarrow> reading \<Rightarrow> rq_clock \<Rightarrow> rq_clock" where
  "update_rq_clock cfg r rq =
     (if act_skip rq then rq
      else let rq1 = (if sched_debug cfg
                then rq\<lparr>double_warnings := double_warnings rq + (if warn_double cfg \<and> updated rq then 1 else 0),
                        updated := True\<rparr>
                else rq);
               delta = now r - wall rq1
           in if sint delta < 0 then rq1
              else update_rq_clock_task cfg r delta (rq1\<lparr>wall := wall rq1 + delta\<rparr>))"

text \<open>The flags \<open>RQCF_REQ_SKIP\<close>, \<open>RQCF_ACT_SKIP\<close> and \<open>RQCF_UPDATED\<close> are neighbouring bits: a shift promotes them.\<close>

definition promote_flags :: "rq_clock \<Rightarrow> rq_clock" where
  "promote_flags rq = rq\<lparr>req_skip := False, act_skip := req_skip rq, updated := act_skip rq\<rparr>"

definition clear_skip :: "rq_clock \<Rightarrow> rq_clock" where
  "clear_skip rq = rq\<lparr>req_skip := False, act_skip := False\<rparr>"

section \<open>The clocks\<close>

lemma sint_diff_within:
  fixes a b :: u64
  assumes "0 \<le> sint b" and "sint b \<le> sint a"
  shows "sint (a - b) = sint a - sint b"
proof -
  have "- (2 ^ 63) \<le> sint a - sint b \<and> sint a - sint b < 2 ^ 63"
    using assms sint_less [of a] by simp
  then show ?thesis by (simp add: sint_word_ariths signed_take_bit_int_eq_self)
qed

text \<open>A source that has not gone backwards gives up at most \<open>delta\<close>, and is never overtaken.\<close>

lemma taken_bounds:
  assumes "0 \<le> sint delta" and "0 \<le> sint (cur - prev)"
  shows "0 \<le> sint (taken cur prev delta)" and "sint (taken cur prev delta) \<le> sint delta"
    and "sint (delta - taken cur prev delta) = sint delta - sint (taken cur prev delta)"
    and "sint (cur - (prev + taken cur prev delta)) = sint (cur - prev) - sint (taken cur prev delta)"
proof -
  show pos: "0 \<le> sint (taken cur prev delta)" and le: "sint (taken cur prev delta) \<le> sint delta"
    using assms by (auto simp: taken_def)
  show "sint (delta - taken cur prev delta) = sint delta - sint (taken cur prev delta)"
    by (rule sint_diff_within [OF pos le])
  have "sint (cur - prev - taken cur prev delta) = sint (cur - prev) - sint (taken cur prev delta)"
    using pos by (intro sint_diff_within) (auto simp: taken_def)
  then show "sint (cur - (prev + taken cur prev delta)) = sint (cur - prev) - sint (taken cur prev delta)"
    by (simp add: algebra_simps)
qed

text \<open>The clock sources have not gone backwards since the last update.\<close>

definition sources_ok :: "reading \<Rightarrow> rq_clock \<Rightarrow> bool" where
  "sources_ok r rq \<longleftrightarrow> 0 \<le> sint (irq_time r - prev_irq_time rq) \<and> 0 \<le> sint (steal_clock r - prev_steal_time_rq rq)"

lemma clock_split:
  "wall (update_rq_clock cfg r rq) - wall rq =
     (clock_task (update_rq_clock cfg r rq) - clock_task rq) +
     (prev_irq_time (update_rq_clock cfg r rq) - prev_irq_time rq) +
     (prev_steal_time_rq (update_rq_clock cfg r rq) - prev_steal_time_rq rq)"
  by (simp add: update_rq_clock_def update_rq_clock_task_def Let_def)

lemma clock_task_step:
  assumes "sources_ok r rq"
  shows "0 \<le> sint (clock_task (update_rq_clock cfg r rq) - clock_task rq)" (is "0 \<le> ?d")
    and "sint (clock_task (update_rq_clock cfg r rq) - clock_task rq) \<le> max 0 (sint (now r - wall rq))"
    and "sources_ok r (update_rq_clock cfg r rq)"
    and "0 \<le> sint (prev_irq_time (update_rq_clock cfg r rq) - prev_irq_time rq)"
    and "0 \<le> sint (prev_steal_time_rq (update_rq_clock cfg r rq) - prev_steal_time_rq rq)"
proof -
  define delta where "delta = now r - wall rq"
  define i where "i = (if irq_accounting cfg then taken (irq_time r) (prev_irq_time rq) delta else 0)"
  define st where "st = (if steal_accounting cfg then taken (steal_clock r) (prev_steal_time_rq rq) (delta - i) else 0)"
  have ok: "0 \<le> sint (irq_time r - prev_irq_time rq)" "0 \<le> sint (steal_clock r - prev_steal_time_rq rq)"
    using assms by (simp_all add: sources_ok_def)
  have i: "0 \<le> sint i" "sint (delta - i) = sint delta - sint i" "0 \<le> sint (delta - i)"
      "0 \<le> sint (irq_time r - (prev_irq_time rq + i))" if "0 \<le> sint delta"
    using taken_bounds [OF that ok(1)] that ok(1) by (auto simp: i_def taken_def)
  have st: "0 \<le> sint st" "sint (delta - i - st) = sint (delta - i) - sint st" "0 \<le> sint (delta - i - st)"
      "0 \<le> sint (steal_clock r - (prev_steal_time_rq rq + st))" if "0 \<le> sint delta"
    using taken_bounds [OF i(3) [OF that] ok(2)] i(3) [OF that] ok(2) by (auto simp: st_def taken_def)
  have run: "clock_task (update_rq_clock cfg r rq) - clock_task rq = delta - i - st"
    "prev_irq_time (update_rq_clock cfg r rq) = prev_irq_time rq + i"
    "prev_steal_time_rq (update_rq_clock cfg r rq) = prev_steal_time_rq rq + st"
    if "\<not> act_skip rq" "0 \<le> sint delta"
    using that by (simp_all add: update_rq_clock_def update_rq_clock_task_def Let_def delta_def i_def st_def)
  have stay: "clock_task (update_rq_clock cfg r rq) = clock_task rq"
    "prev_irq_time (update_rq_clock cfg r rq) = prev_irq_time rq"
    "prev_steal_time_rq (update_rq_clock cfg r rq) = prev_steal_time_rq rq"
    if "act_skip rq \<or> sint delta < 0"
    using that by (auto simp: update_rq_clock_def Let_def delta_def)
  consider (skip) "act_skip rq \<or> sint delta < 0" | (go) "\<not> act_skip rq" "0 \<le> sint delta" by linarith
  then have "0 \<le> ?d \<and> ?d \<le> max 0 (sint delta) \<and> sources_ok r (update_rq_clock cfg r rq) \<and>
      0 \<le> sint (prev_irq_time (update_rq_clock cfg r rq) - prev_irq_time rq) \<and>
      0 \<le> sint (prev_steal_time_rq (update_rq_clock cfg r rq) - prev_steal_time_rq rq)"
  proof cases
    case skip
    with stay [OF skip] ok show ?thesis by (simp add: sources_ok_def)
  next
    case go
    with i [OF go(2)] st [OF go(2)] show ?thesis by (simp add: run [OF go] sources_ok_def)
  qed
  then show "0 \<le> ?d" "?d \<le> max 0 (sint (now r - wall rq))" "sources_ok r (update_rq_clock cfg r rq)"
    "0 \<le> sint (prev_irq_time (update_rq_clock cfg r rq) - prev_irq_time rq)"
    "0 \<le> sint (prev_steal_time_rq (update_rq_clock cfg r rq) - prev_steal_time_rq rq)"
    by (simp_all add: delta_def)
qed

lemma clock_wall:
  "wall (update_rq_clock cfg r rq) = (if act_skip rq \<or> sint (now r - wall rq) < 0 then wall rq else now r)"
  by (simp add: update_rq_clock_def update_rq_clock_task_def Let_def)

text \<open>
  C33. An update of the run queue clock sets it to the scheduler clock, unless the update is skipped or the scheduler clock is behind, and
  divides the time that has passed exactly, modulo
  \<open>2\<^sup>64\<close>, among the task clock, the interrupt time and the stolen time that it accounts for. While the
  interrupt and steal clocks do not run backwards, none of the four values ever runs backwards, the task clock
  never runs faster than the wall clock, and the accounted times never overtake their clocks, so that
  what did not fit is left for the next update.
\<close>

theorem rq_clock_splits_time:
  assumes "sources_ok r rq"
  shows "wall (update_rq_clock cfg r rq) = (if act_skip rq \<or> sint (now r - wall rq) < 0 then wall rq else now r) \<and>
     wall (update_rq_clock cfg r rq) - wall rq =
       (clock_task (update_rq_clock cfg r rq) - clock_task rq) +
       (prev_irq_time (update_rq_clock cfg r rq) - prev_irq_time rq) +
       (prev_steal_time_rq (update_rq_clock cfg r rq) - prev_steal_time_rq rq) \<and>
     0 \<le> sint (wall (update_rq_clock cfg r rq) - wall rq) \<and>
     0 \<le> sint (clock_task (update_rq_clock cfg r rq) - clock_task rq) \<and>
     0 \<le> sint (prev_irq_time (update_rq_clock cfg r rq) - prev_irq_time rq) \<and>
     0 \<le> sint (prev_steal_time_rq (update_rq_clock cfg r rq) - prev_steal_time_rq rq) \<and>
     sint (clock_task (update_rq_clock cfg r rq) - clock_task rq) \<le> sint (wall (update_rq_clock cfg r rq) - wall rq) \<and>
     sources_ok r (update_rq_clock cfg r rq)"
proof -
  have "sint (clock_task (update_rq_clock cfg r rq) - clock_task rq) \<le> sint (wall (update_rq_clock cfg r rq) - wall rq)"
  proof (cases "act_skip rq \<or> sint (now r - wall rq) < 0")
    case True
    then have "clock_task (update_rq_clock cfg r rq) = clock_task rq" by (auto simp: update_rq_clock_def Let_def)
    then show ?thesis using True by (simp add: clock_wall)
  next
    case False
    then show ?thesis using clock_task_step(2) [OF assms, of cfg] by (simp add: clock_wall)
  qed
  moreover have "0 \<le> sint (wall (update_rq_clock cfg r rq) - wall rq)" by (simp add: clock_wall)
  ultimately show ?thesis using clock_wall [of cfg r rq] clock_split [of cfg r rq] clock_task_step [OF assms, of cfg] by blast
qed

definition sample_rq_clock :: rq_clock where
  "sample_rq_clock =
     \<lparr>wall = 100, clock_task = 90, prev_irq_time = 8, prev_steal_time_rq = 2, req_skip = False, act_skip = False, updated = False,
      double_warnings = 0, irq_loads = [], pelt_deltas = []\<rparr>"

definition sample_clock_config :: clock_config where
  "sample_clock_config =
     \<lparr>irq_accounting = True, steal_accounting = True, nontask_capacity = True, sched_debug = True, warn_double = True\<rparr>"

definition sample_reading :: reading where
  "sample_reading = \<lparr>now = 120, irq_time = 20, steal_clock = 30\<rparr>"

theorem rq_clock_splits_time_witness:
  "clock_task (update_rq_clock sample_clock_config sample_reading sample_rq_clock) = 90 \<and>
   sources_ok sample_reading (update_rq_clock sample_clock_config sample_reading sample_rq_clock)"
proof -
  have "sources_ok sample_reading sample_rq_clock"
    by (simp add: sources_ok_def sample_rq_clock_def sample_reading_def)
  from rq_clock_splits_time [OF this, of sample_clock_config]
  have "sources_ok sample_reading (update_rq_clock sample_clock_config sample_reading sample_rq_clock)" by blast
  then show ?thesis
    by (simp add: update_rq_clock_def update_rq_clock_task_def taken_def sample_rq_clock_def sample_clock_config_def
      sample_reading_def)
qed

end
