(* ===== verification/Resched.thy ===== *)
theory Resched
  imports Prelude "HOL-Library.Word"
begin

unbundle bit_operations_syntax

text \<open>
  Asking a CPU to reschedule, \<open>core.c\<close>: the flag words of the tasks are changed without a lock by
  loops around \<open>cmpxchg\<close> while other CPUs change the same word, and \<open>resched_curr\<close> decides from the
  old value whether the other CPU needs an interrupt. The interference of the other
  CPUs is a list of functions on the word, one for each attempt of the loop; \<open>None\<close> is a loop that is
  still trying when the list ends.
\<close>

section \<open>Loops around cmpxchg\<close>

type_synonym flags = "32 word"

type_synonym others = "(flags \<Rightarrow> flags) list"

definition cmpxchg :: "flags \<Rightarrow> flags \<Rightarrow> flags \<Rightarrow> flags \<times> flags" where
  "cmpxchg mem old new = (mem, if mem = old then new else mem)"

fun fetch_or_loop :: "others \<Rightarrow> flags \<Rightarrow> flags \<Rightarrow> flags \<Rightarrow> (flags \<times> flags) option" where
  "fetch_or_loop [] bits val mem = None"
| "fetch_or_loop (e # es) bits val mem =
     (case cmpxchg (e mem) val (val OR bits) of (old, mem') \<Rightarrow>
        if old = val then Some (old, mem') else fetch_or_loop es bits old mem')"

text \<open>The result is the old value and the new content of the word.\<close>

definition fetch_or :: "others \<Rightarrow> flags \<Rightarrow> flags \<Rightarrow> (flags \<times> flags) option" where
  "fetch_or es mem bits = fetch_or_loop es bits mem mem"

text \<open>The bits \<open>_TIF_NEED_RESCHED\<close> and \<open>_TIF_POLLING_NRFLAG\<close> are those of the architecture.\<close>

record tif =
  need_resched :: flags
  polling :: flags

definition set_nr_and_not_polling :: "tif \<Rightarrow> others \<Rightarrow> flags \<Rightarrow> (bool \<times> flags) option" where
  "set_nr_and_not_polling tif es mem = do {
     (old, mem') \<leftarrow> fetch_or es mem (need_resched tif);
     Some (old AND polling tif = 0, mem') }"

fun set_nr_if_polling_loop :: "tif \<Rightarrow> others \<Rightarrow> flags \<Rightarrow> flags \<Rightarrow> (bool \<times> flags) option" where
  "set_nr_if_polling_loop tif [] val mem = None"
| "set_nr_if_polling_loop tif (e # es) val mem =
     (if val AND polling tif = 0 then Some (False, mem)
      else if val AND need_resched tif \<noteq> 0 then Some (True, mem)
      else case cmpxchg (e mem) val (val OR need_resched tif) of (old, mem') \<Rightarrow>
        if old = val then Some (True, mem') else set_nr_if_polling_loop tif es old mem')"

definition set_nr_if_polling :: "tif \<Rightarrow> others \<Rightarrow> flags \<Rightarrow> (bool \<times> flags) option" where
  "set_nr_if_polling tif es mem = set_nr_if_polling_loop tif es mem mem"

section \<open>Rescheduling a CPU\<close>

text \<open>
  The run queues with their current tasks, the flag words of the tasks, the flag of the local CPU
  that \<open>set_preempt_need_resched\<close> folds into its preemption count, and what is sent.
\<close>

datatype notice = Ipi nat | Without_Ipi nat

record resched_sys =
  curr_of :: "nat \<Rightarrow> nat"
  flags_of :: "nat \<Rightarrow> flags"
  online :: "nat \<Rightarrow> bool"
  folded :: bool
  notices :: "notice list"

definition resched_curr :: "tif \<Rightarrow> nat \<Rightarrow> others \<Rightarrow> nat \<Rightarrow> resched_sys \<Rightarrow> resched_sys option" where
  "resched_curr tif this es n s =
     (let c = curr_of s n in
      if flags_of s c AND need_resched tif \<noteq> 0 then Some s
      else if n = this
      then Some (s\<lparr>flags_of := (flags_of s)(c := flags_of s c OR need_resched tif), folded := True\<rparr>)
      else do {
        (ipi, f) \<leftarrow> set_nr_and_not_polling tif es (flags_of s c);
        Some (s\<lparr>flags_of := (flags_of s)(c := f),
          notices := notices s @ [if ipi then Ipi n else Without_Ipi n]\<rparr>) })"

definition resched_cpu :: "tif \<Rightarrow> nat \<Rightarrow> others \<Rightarrow> nat \<Rightarrow> resched_sys \<Rightarrow> resched_sys option" where
  "resched_cpu tif this es n s =
     (if online s n \<or> n = this then resched_curr tif this es n s else Some s)"

section \<open>Atomicity\<close>

text \<open>The content of the word after the first changes of the other CPUs.\<close>

definition after_others :: "others \<Rightarrow> nat \<Rightarrow> flags \<Rightarrow> flags" where
  "after_others es k mem = fold (\<lambda>e m. e m) (take k es) mem"

lemma after_others_Suc [simp]: "after_others (e # es) (Suc k) mem = after_others es k (e mem)"
  by (simp add: after_others_def)

lemma after_others_0 [simp]: "after_others es 0 mem = mem"
  by (simp add: after_others_def)

lemma fetch_or_loop_atomic:
  assumes "fetch_or_loop es bits val mem = Some (old, mem')"
  shows "\<exists>k. 0 < k \<and> k \<le> length es \<and> old = after_others es k mem \<and> mem' = old OR bits"
  using assms
proof (induction es bits val mem rule: fetch_or_loop.induct)
  case (2 e es bits val mem)
  show ?case
  proof (cases "e mem = val")
    case True
    with "2.prems" show ?thesis by (intro exI [of _ 1]) (auto simp: cmpxchg_def)
  next
    case False
    then obtain k where "0 < k" "k \<le> length es" "old = after_others es k (e mem)" "mem' = old OR bits"
      using "2.IH" [of "e mem" "e mem"] "2.prems" by (auto simp: cmpxchg_def)
    then show ?thesis by (intro exI [of _ "Suc k"]) simp
  qed
qed simp

text \<open>An attempt succeeds when nothing was changed since the one before.\<close>

lemma fetch_or_loop_returns:
  assumes "k < length es" and "after_others es (Suc k) mem = (if k = 0 then val else after_others es k mem)"
  shows "fetch_or_loop es bits val mem \<noteq> None"
  using assms
proof (induction es arbitrary: k val mem)
  case (Cons e es)
  show ?case
  proof (cases "e mem = val")
    case False
    with Cons.prems obtain j where k: "k = Suc j" by (cases k) auto
    have "fetch_or_loop es bits (e mem) (e mem) \<noteq> None"
      by (rule Cons.IH [of j]) (use Cons.prems in \<open>auto simp: k\<close>)
    with False show ?thesis by (simp add: cmpxchg_def)
  qed (simp add: cmpxchg_def)
qed simp

lemma set_nr_if_polling_loop_atomic:
  assumes "set_nr_if_polling_loop tif es val mem = Some (b, mem')" and "val = mem"
  shows "\<exists>k. k \<le> length es \<and> b = (after_others es k mem AND polling tif \<noteq> 0) \<and>
    mem' = (if b then after_others es k mem OR (if after_others es k mem AND need_resched tif = 0 then need_resched tif else 0)
      else after_others es k mem)"
  using assms
proof (induction tif es val mem rule: set_nr_if_polling_loop.induct)
  case (2 tif e es val mem)
  consider (off) "mem AND polling tif = 0" | (on) "mem AND polling tif \<noteq> 0" "mem AND need_resched tif \<noteq> 0"
    | (swap) "mem AND polling tif \<noteq> 0" "mem AND need_resched tif = 0" "e mem = mem"
    | (again) "mem AND polling tif \<noteq> 0" "mem AND need_resched tif = 0" "e mem \<noteq> mem" by blast
  then show ?case
  proof cases
    case again
    then obtain k where "k \<le> length es" "b = (after_others es k (e mem) AND polling tif \<noteq> 0)"
      "mem' = (if b then after_others es k (e mem) OR (if after_others es k (e mem) AND need_resched tif = 0 then need_resched tif else 0)
        else after_others es k (e mem))"
      using "2.IH" [of "e mem" "e mem"] "2.prems" by (auto simp: cmpxchg_def)
    then show ?thesis by (intro exI [of _ "Suc k"]) simp
  qed (use "2.prems" in \<open>intro exI [of _ 0], auto simp: cmpxchg_def\<close>)+
qed simp

text \<open>
  The loop of \<open>fetch_or\<close> is an atomic operation: whatever the other CPUs do to the word
  between its attempts, the value it returns is the content of the word at one moment of the
  loop, and at that moment the word becomes this value with the bits set. The loop ends as soon
  as the word is left alone between two attempts.
\<close>

theorem fetch_or_atomic:
  "(\<forall>old mem'. fetch_or es mem bits = Some (old, mem') \<longrightarrow>
      (\<exists>k. 0 < k \<and> k \<le> length es \<and> old = after_others es k mem \<and> mem' = old OR bits)) \<and>
   ((\<exists>k < length es. after_others es (Suc k) mem = after_others es k mem) \<longrightarrow> fetch_or es mem bits \<noteq> None)"
proof -
  have "fetch_or es mem bits \<noteq> None"
    if "k < length es" "after_others es (Suc k) mem = after_others es k mem" for k
    unfolding fetch_or_def by (rule fetch_or_loop_returns [of k]) (use that in auto)
  then show ?thesis using fetch_or_loop_atomic [of es bits mem mem] unfolding fetch_or_def by blast
qed

theorem fetch_or_atomic_witness:
  "fetch_or [\<lambda>m. m OR 8, id] 1 (2 :: flags) \<noteq> None"
proof -
  have "after_others [\<lambda>m. m OR 8, id] (Suc 1) (1 :: flags) = after_others [\<lambda>m. m OR 8, id] 1 1" by simp
  then show ?thesis using fetch_or_atomic [of "[\<lambda>m. m OR 8, id]" 1 2] by (auto intro: exI [of _ 1])
qed

text \<open>
  \<open>resched_cpu\<close> on a CPU that is online, with the word left alone at some attempt, returns with
  the current task of that CPU marked. When it was not marked before, the local CPU is marked
  for its preemption count and nothing is sent, and another CPU is sent an interrupt exactly
  when the word it replaced did not say that the CPU polls; no other task is touched.
\<close>

theorem resched_cpu_marks:
  assumes "online s n \<or> n = this"
    and "\<exists>k < length es. after_others es (Suc k) (flags_of s (curr_of s n)) = after_others es k (flags_of s (curr_of s n))"
    and "need_resched tif \<noteq> 0"
  shows "\<exists>s' m. resched_cpu tif this es n s = Some s' \<and>
    flags_of s' (curr_of s n) AND need_resched tif \<noteq> 0 \<and>
    (\<forall>t. t \<noteq> curr_of s n \<longrightarrow> flags_of s' t = flags_of s t) \<and>
    (flags_of s (curr_of s n) AND need_resched tif \<noteq> 0 \<longrightarrow> s' = s) \<and>
    (flags_of s (curr_of s n) AND need_resched tif = 0 \<longrightarrow>
      (if n = this then folded s' \<and> notices s' = notices s
       else flags_of s' (curr_of s n) = m OR need_resched tif \<and>
         (\<exists>k \<le> length es. m = after_others es k (flags_of s (curr_of s n))) \<and>
         notices s' = notices s @ [if m AND polling tif = 0 then Ipi n else Without_Ipi n]))"
proof -
  let ?c = "curr_of s n" and ?nr = "need_resched tif"
  have or: "(x OR ?nr) AND ?nr = ?nr" for x by (auto simp: bit_eq_iff bit_simps)
  consider (old) "flags_of s ?c AND ?nr \<noteq> 0" | (here) "flags_of s ?c AND ?nr = 0" "n = this"
    | (there) "flags_of s ?c AND ?nr = 0" "n \<noteq> this" by blast
  then show ?thesis
  proof cases
    case there
    from assms(2) have "fetch_or_loop es ?nr (flags_of s ?c) (flags_of s ?c) \<noteq> None"
      using fetch_or_loop_returns [of _ es "flags_of s ?c" "flags_of s ?c" ?nr] by (metis after_others_0)
    then obtain m f where mf: "fetch_or es (flags_of s ?c) ?nr = Some (m, f)"
      unfolding fetch_or_def by (metis option.exhaust surj_pair)
    then obtain k where k: "k \<le> length es" "m = after_others es k (flags_of s ?c)" "f = m OR ?nr"
      unfolding fetch_or_def using fetch_or_loop_atomic by blast
    with there mf assms show ?thesis
      by (intro exI [of _ "s\<lparr>flags_of := (flags_of s)(?c := f),
          notices := notices s @ [if m AND polling tif = 0 then Ipi n else Without_Ipi n]\<rparr>"] exI [of _ m])
        (auto simp: resched_cpu_def resched_curr_def set_nr_and_not_polling_def or Let_def)
  qed (use assms or in \<open>auto simp: resched_cpu_def resched_curr_def Let_def\<close>)
qed

end
