(* ===== verification/Sched_Switch.thy ===== *)
theory Sched_Switch
  imports Sched_Pick Rq_Clock Resched
begin

unbundle bit_operations_syntax

text \<open>
  Sleeping and waking up, \<open>core.c\<close>: \<open>__schedule\<close>, \<open>try_to_wake_up\<close> with the functions it is made of, and the
  migration of queued tasks, on any number of CPUs. The state of a CPU has its clocks
  (\<open>Rq_Clock\<close>), the state of its scheduling classes (\<open>Sched_Pick\<close>), its counters and the list of tasks
  that other CPUs asked it to wake up; the flags and the current tasks are those of \<open>Resched\<close>.
  The accounting of \<open>activate_task\<close> and \<open>deactivate_task\<close> is the subject of \<open>Sched_Queue\<close>; here they move the task
  into and out of its class.
\<close>

section \<open>State\<close>

definition TASK_UNINTERRUPTIBLE :: int where "TASK_UNINTERRUPTIBLE = 2"
definition TASK_WAKING :: int where "TASK_WAKING = 512"
definition TASK_NOLOAD :: int where "TASK_NOLOAD = 1024"

datatype on_rq_state = Off_Rq | Queued_Rq

record wtask =
  tstate :: int
  on_queue :: on_rq_state
  on_cpu :: bool
  task_cpu :: nat
  wake_cpu :: nat
  iowait :: bool
  contributes :: bool
  frozen :: bool
  remote_wakeup :: bool
  nvcsw :: nat
  nivcsw :: nat
  migrations :: nat

record 'r cpu_rq =
  classes :: 'r
  clocks :: rq_clock
  nr_switches :: nat
  nr_uninterruptible :: int
  nr_iowait :: int
  wake_list :: "nat list"
  ttwu_pending :: bool
  idle_stamp :: u64
  avg_idle :: u64
  max_idle_balance_cost :: u64

datatype sw_call =
    Dequeued nat nat | Enqueued nat nat bool | Switched nat nat nat | Psi_Switch nat nat bool | Psi_Ttwu_Dequeue nat
  | Blkio_Start nat | Blkio_End nat | Migrate_Switch nat nat | Task_Woken nat nat | Class_Preempt nat nat
  | Balance_Callbacks nat

record 'r wsys =
  wt :: "nat \<Rightarrow> wtask"
  rqs :: "nat \<Rightarrow> 'r cpu_rq"
  marks :: resched_sys
  calls :: "sw_call list"

text \<open>
  Everything outside this file: the classes, pending signals, the answer of \<open>check_preempt_curr\<close> of a class
  (whether it asks for a reschedule), whether a class has a \<open>task_woken\<close> operation, the choice of a CPU, the
  configuration and the clock sources.
\<close>

record 'r wenv =
  ops :: "'r class_ops"
  class_of :: "nat \<Rightarrow> sched_class"
  signal_pending_state :: "int \<Rightarrow> nat \<Rightarrow> bool"
  class_preempts :: "'r \<Rightarrow> nat \<Rightarrow> nat \<Rightarrow> bool"
  has_task_woken :: "sched_class \<Rightarrow> bool"
  select_rq :: "nat \<Rightarrow> nat \<Rightarrow> nat"
  cpu_active :: "nat \<Rightarrow> bool"
  share_cache :: "nat \<Rightarrow> nat \<Rightarrow> bool"
  ttwu_queue_feature :: bool
  update_avg :: "u64 \<Rightarrow> u64 \<Rightarrow> u64"
  tif_bits :: tif
  clock_cfg :: clock_config
  read_clock :: reading

record wake_flags =
  migrated :: bool
  wf_on_cpu :: bool

abbreviation upd_wt :: "nat \<Rightarrow> (wtask \<Rightarrow> wtask) \<Rightarrow> 'r wsys \<Rightarrow> 'r wsys" where
  "upd_wt t f s \<equiv> s\<lparr>wt := (wt s)(t := f (wt s t))\<rparr>"

abbreviation upd_rq :: "nat \<Rightarrow> ('r cpu_rq \<Rightarrow> 'r cpu_rq) \<Rightarrow> 'r wsys \<Rightarrow> 'r wsys" where
  "upd_rq c f s \<equiv> s\<lparr>rqs := (rqs s)(c := f (rqs s c))\<rparr>"

abbreviation note_call :: "sw_call \<Rightarrow> 'r wsys \<Rightarrow> 'r wsys" where
  "note_call x s \<equiv> s\<lparr>calls := calls s @ [x]\<rparr>"

abbreviation curr :: "'r wsys \<Rightarrow> nat \<Rightarrow> nat" where
  "curr s c \<equiv> curr_of (marks s) c"

section \<open>Preemption\<close>

text \<open>With the run queue locked the flag word is left alone: the interference is the identity.\<close>

definition resched :: "'r wenv \<Rightarrow> nat \<Rightarrow> nat \<Rightarrow> 'r wsys \<Rightarrow> 'r wsys option" where
  "resched env this c s = do {
     m \<leftarrow> resched_curr (tif_bits env) this [id] c (marks s);
     Some (s\<lparr>marks := m\<rparr>) }"

definition check_preempt_curr :: "'r wenv \<Rightarrow> nat \<Rightarrow> nat \<Rightarrow> nat \<Rightarrow> 'r wsys \<Rightarrow> 'r wsys option" where
  "check_preempt_curr env this c p s =
     (let cur = curr s c in do {
        s1 \<leftarrow> (if class_of env p = class_of env cur
               then (let s0 = note_call (Class_Preempt c p) s
                     in if class_preempts env (classes (rqs s c)) cur p then resched env this c s0 else Some s0)
               else if rank (class_of env cur) < rank (class_of env p) then resched env this c s
               else Some s);
        Some (if on_queue (wt s1 cur) = Queued_Rq \<and> flags_of (marks s1) cur AND need_resched (tif_bits env) \<noteq> 0
              then upd_rq c (\<lambda>q. q\<lparr>clocks := (clocks q)\<lparr>req_skip := True\<rparr>\<rparr>) s1 else s1) })"

definition update_clock_of :: "'r wenv \<Rightarrow> nat \<Rightarrow> 'r wsys \<Rightarrow> 'r wsys" where
  "update_clock_of env c s =
     upd_rq c (\<lambda>q. q\<lparr>clocks := update_rq_clock (clock_cfg env) (read_clock env) (clocks q)\<rparr>) s"

text \<open>\<open>nclk\<close> is the flag \<open>ENQUEUE_NOCLOCK\<close> or \<open>DEQUEUE_NOCLOCK\<close>, \<open>wakeup\<close> is \<open>ENQUEUE_WAKEUP\<close>.\<close>

definition activate :: "'r wenv \<Rightarrow> nat \<Rightarrow> nat \<Rightarrow> bool \<Rightarrow> bool \<Rightarrow> 'r wsys \<Rightarrow> 'r wsys" where
  "activate env c p nclk wakeup s =
     (let s1 = (if nclk then s else update_clock_of env c s)
      in upd_wt p (\<lambda>t. t\<lparr>on_queue := Queued_Rq\<rparr>)
        (upd_rq c (\<lambda>q. q\<lparr>classes := class_enqueue (ops env) p (classes q)\<rparr>) (note_call (Enqueued c p wakeup) s1)))"

definition deactivate :: "'r wenv \<Rightarrow> nat \<Rightarrow> nat \<Rightarrow> bool \<Rightarrow> 'r wsys \<Rightarrow> 'r wsys" where
  "deactivate env c p nclk s =
     (let s1 = (if nclk then s else update_clock_of env c s)
      in upd_wt p (\<lambda>t. t\<lparr>on_queue := Off_Rq\<rparr>)
        (upd_rq c (\<lambda>q. q\<lparr>classes := class_dequeue (ops env) p (classes q)\<rparr>) (note_call (Dequeued c p) s1)))"

section \<open>The switch\<close>

text \<open>The part of \<open>__schedule\<close> that takes a task off the queue when it goes to sleep.\<close>

definition go_to_sleep :: "'r wenv \<Rightarrow> nat \<Rightarrow> nat \<Rightarrow> 'r wsys \<Rightarrow> 'r wsys" where
  "go_to_sleep env c prev s =
     (let st = tstate (wt s prev) in
      if signal_pending_state env st prev then upd_wt prev (\<lambda>t. t\<lparr>tstate := TASK_RUNNING\<rparr>) s
      else let load = (st AND TASK_UNINTERRUPTIBLE \<noteq> 0 \<and> st AND TASK_NOLOAD = 0 \<and> \<not> frozen (wt s prev));
               s1 = upd_wt prev (\<lambda>t. t\<lparr>contributes := load\<rparr>) s;
               s2 = (if load then upd_rq c (\<lambda>q. q\<lparr>nr_uninterruptible := nr_uninterruptible q + 1\<rparr>) s1 else s1);
               s3 = deactivate env c prev True s2
           in if iowait (wt s3 prev)
              then note_call (Blkio_Start prev) (upd_rq c (\<lambda>q. q\<lparr>nr_iowait := nr_iowait q + 1\<rparr>) s3)
              else s3)"

definition clear_need_resched :: "'r wenv \<Rightarrow> nat \<Rightarrow> 'r wsys \<Rightarrow> 'r wsys" where
  "clear_need_resched env t s =
     s\<lparr>marks := (marks s)\<lparr>flags_of := (flags_of (marks s))(t := flags_of (marks s) t AND NOT (need_resched (tif_bits env))),
                          folded := False\<rparr>\<rparr>"

text \<open>
  The switch to another task up to \<open>prepare_task\<close>: the previous task still is on the CPU until \<open>finish_task\<close>.
\<close>

definition switch_tasks :: "nat \<Rightarrow> nat \<Rightarrow> nat \<Rightarrow> bool \<Rightarrow> 'r wsys \<Rightarrow> 'r wsys" where
  "switch_tasks c prev nxt voluntary s3 =
     (let s4 = upd_rq c (\<lambda>q. q\<lparr>nr_switches := nr_switches q + 1\<rparr>) s3;
          s5 = s4\<lparr>marks := (marks s4)\<lparr>curr_of := (curr_of (marks s4))(c := nxt)\<rparr>\<rparr>;
          s6 = upd_wt prev (\<lambda>t. if voluntary then t\<lparr>nvcsw := nvcsw t + 1\<rparr> else t\<lparr>nivcsw := nivcsw t + 1\<rparr>) s5;
          s7 = s6\<lparr>calls := calls s6 @ [Migrate_Switch c prev,
                   Psi_Switch prev nxt (on_queue (wt s6 prev) \<noteq> Queued_Rq), Switched c prev nxt]\<rparr>
      in upd_wt nxt (\<lambda>t. t\<lparr>on_cpu := True\<rparr>) s7)"

text \<open>\<open>None\<close> is \<open>BUG()\<close>.\<close>

definition schedule_raw :: "'r wenv \<Rightarrow> bool \<Rightarrow> nat \<Rightarrow> 'r wsys \<Rightarrow> 'r wsys option" where
  "schedule_raw env preempt c s =
     (let prev = curr s c;
          s1 = update_clock_of env c (upd_rq c (\<lambda>q. q\<lparr>clocks := promote_flags (clocks q)\<rparr>) s);
          voluntary = (\<not> preempt \<and> tstate (wt s1 prev) \<noteq> TASK_RUNNING);
          s2 = (if voluntary then go_to_sleep env c prev s1 else s1)
      in case pick_next_task (ops env) (class_of env) prev (classes (rqs s2 c)) of
           (None, _) \<Rightarrow> None
         | (Some nxt, r) \<Rightarrow>
             let s3 = clear_need_resched env prev (upd_rq c (\<lambda>q. q\<lparr>classes := r\<rparr>) s2)
             in Some (if nxt \<noteq> prev then switch_tasks c prev nxt voluntary s3
                  else note_call (Balance_Callbacks c) (upd_rq c (\<lambda>q. q\<lparr>clocks := clear_skip (clocks q)\<rparr>) s3)))"

definition finish_task :: "nat \<Rightarrow> 'r wsys \<Rightarrow> 'r wsys" where
  "finish_task prev s = upd_wt prev (\<lambda>t. t\<lparr>on_cpu := False\<rparr>) s"

section \<open>Waking up\<close>

definition ttwu_do_wakeup :: "'r wenv \<Rightarrow> nat \<Rightarrow> nat \<Rightarrow> nat \<Rightarrow> 'r wsys \<Rightarrow> 'r wsys option" where
  "ttwu_do_wakeup env this c p s = do {
     s1 \<leftarrow> check_preempt_curr env this c p s;
     let s2 = upd_wt p (\<lambda>t. t\<lparr>tstate := TASK_RUNNING\<rparr>) s1;
     let s3 = (if has_task_woken env (class_of env p) then note_call (Task_Woken c p) s2 else s2);
     Some (if idle_stamp (rqs s3 c) \<noteq> 0
           then upd_rq c (\<lambda>q. q\<lparr>avg_idle := min (update_avg env (avg_idle q) (wall (clocks q) - idle_stamp q))
                                    (2 * max_idle_balance_cost q), idle_stamp := 0\<rparr>) s3
           else s3) }"

definition ttwu_do_activate :: "'r wenv \<Rightarrow> nat \<Rightarrow> nat \<Rightarrow> nat \<Rightarrow> wake_flags \<Rightarrow> 'r wsys \<Rightarrow> 'r wsys option" where
  "ttwu_do_activate env this c p wfl s =
     (let s1 = (if contributes (wt s p)
                then upd_rq c (\<lambda>q. q\<lparr>nr_uninterruptible := nr_uninterruptible q - 1\<rparr>) s else s);
          s2 = (if \<not> migrated wfl \<and> iowait (wt s1 p)
                then upd_rq (task_cpu (wt s1 p)) (\<lambda>q. q\<lparr>nr_iowait := nr_iowait q - 1\<rparr>) (note_call (Blkio_End p) s1)
                else s1)
      in ttwu_do_wakeup env this c p (activate env c p True True s2))"

definition ttwu_runnable :: "'r wenv \<Rightarrow> nat \<Rightarrow> nat \<Rightarrow> 'r wsys \<Rightarrow> (bool \<times> 'r wsys) option" where
  "ttwu_runnable env this p s =
     (let c = task_cpu (wt s p) in
      if on_queue (wt s p) = Queued_Rq
      then do {
        s1 \<leftarrow> ttwu_do_wakeup env this c p (update_clock_of env c s);
        Some (True, s1) }
      else Some (False, s))"

definition set_task_cpu :: "nat \<Rightarrow> nat \<Rightarrow> 'r wsys \<Rightarrow> 'r wsys" where
  "set_task_cpu p c s =
     upd_wt p (\<lambda>t. t\<lparr>migrations := (if task_cpu t \<noteq> c then migrations t + 1 else migrations t),
       task_cpu := c, wake_cpu := c\<rparr>) s"

definition ttwu_queue_cond :: "'r wenv \<Rightarrow> nat \<Rightarrow> nat \<Rightarrow> wake_flags \<Rightarrow> 'r wsys \<Rightarrow> bool" where
  "ttwu_queue_cond env this c wfl s =
     (if \<not> cpu_active env c then False
      else if \<not> share_cache env this c then True
      else if wf_on_cpu wfl \<and> nr_running (ops env) (classes (rqs s c)) \<le> 1 then True
      else False)"

definition ttwu_queue_wakelist_raw :: "nat \<Rightarrow> nat \<Rightarrow> wake_flags \<Rightarrow> 'r wsys \<Rightarrow> 'r wsys" where
  "ttwu_queue_wakelist_raw p c wfl s =
     upd_rq c (\<lambda>q. q\<lparr>ttwu_pending := True, wake_list := wake_list q @ [p]\<rparr>)
       (upd_wt p (\<lambda>t. t\<lparr>remote_wakeup := migrated wfl\<rparr>) s)"

definition ttwu_queue_wakelist ::
    "'r wenv \<Rightarrow> nat \<Rightarrow> nat \<Rightarrow> nat \<Rightarrow> wake_flags \<Rightarrow> 'r wsys \<Rightarrow> bool \<times> 'r wsys" where
  "ttwu_queue_wakelist env this p c wfl s =
     (if ttwu_queue_feature env \<and> ttwu_queue_cond env this c wfl s
      then (if c = this then (False, s) else (True, ttwu_queue_wakelist_raw p c wfl s))
      else (False, s))"

definition ttwu_queue :: "'r wenv \<Rightarrow> nat \<Rightarrow> nat \<Rightarrow> nat \<Rightarrow> wake_flags \<Rightarrow> 'r wsys \<Rightarrow> 'r wsys option" where
  "ttwu_queue env this p c wfl s =
     (case ttwu_queue_wakelist env this p c wfl s of
        (True, s1) \<Rightarrow> Some s1
      | (False, s1) \<Rightarrow> ttwu_do_activate env this c p wfl (update_clock_of env c s1))"

text \<open>The end of \<open>try_to_wake_up\<close>: choose a CPU, move the task there and queue it.\<close>

definition ttwu_place :: "'r wenv \<Rightarrow> nat \<Rightarrow> nat \<Rightarrow> 'r wsys \<Rightarrow> 'r wsys option" where
  "ttwu_place env this p s2 =
     (let c = select_rq env p (wake_cpu (wt s2 p));
          moved = (task_cpu (wt s2 p) \<noteq> c);
          s3 = (if moved \<and> iowait (wt s2 p)
                then upd_rq (task_cpu (wt s2 p)) (\<lambda>q. q\<lparr>nr_iowait := nr_iowait q - 1\<rparr>) (note_call (Blkio_End p) s2)
                else s2);
          s4 = (if moved then set_task_cpu p c (note_call (Psi_Ttwu_Dequeue p) s3) else s3)
      in ttwu_queue env this p c \<lparr>migrated = moved, wf_on_cpu = False\<rparr> s4)"

text \<open>
  \<open>try_to_wake_up\<close> on the CPU \<open>this\<close>. The result tells whether the state changed. \<open>None\<close> is a wake-up
  that has to wait for another CPU to finish with the task.
\<close>

definition try_to_wake_up :: "'r wenv \<Rightarrow> nat \<Rightarrow> nat \<Rightarrow> int \<Rightarrow> 'r wsys \<Rightarrow> (bool \<times> 'r wsys) option" where
  "try_to_wake_up env this p st_mask s =
     (if p = curr s this
      then Some (if tstate (wt s p) AND st_mask = 0 then (False, s)
                 else (True, upd_wt p (\<lambda>t. t\<lparr>tstate := TASK_RUNNING\<rparr>) s))
      else if tstate (wt s p) AND st_mask = 0 then Some (False, s)
      else do {
        (done, s1) \<leftarrow> (if on_queue (wt s p) \<noteq> Off_Rq then ttwu_runnable env this p s else Some (False, s));
        if done then Some (True, s1)
        else let s2 = upd_wt p (\<lambda>t. t\<lparr>tstate := TASK_WAKING\<rparr>) s1;
                 w = (if on_cpu (wt s2 p)
                      then ttwu_queue_wakelist env this p (task_cpu (wt s2 p)) \<lparr>migrated = False, wf_on_cpu = True\<rparr> s2
                      else (False, s2))
             in if fst w then Some (True, snd w)
                else if on_cpu (wt s2 p) then None
                else do {
                  s3 \<leftarrow> ttwu_place env this p s2;
                  Some (True, s3) } })"

text \<open>The CPU \<open>c\<close> takes the tasks off its list; a task that is still on its old CPU is waited for.\<close>

fun ttwu_pending_loop :: "'r wenv \<Rightarrow> nat \<Rightarrow> nat list \<Rightarrow> 'r wsys \<Rightarrow> 'r wsys option" where
  "ttwu_pending_loop env c [] s = Some s"
| "ttwu_pending_loop env c (p # ps) s =
     (if on_cpu (wt s p) then None
      else let s1 = (if task_cpu (wt s p) \<noteq> c then set_task_cpu p c s else s)
           in do {
             s2 \<leftarrow> ttwu_do_activate env c c p \<lparr>migrated = remote_wakeup (wt s1 p), wf_on_cpu = False\<rparr> s1;
             ttwu_pending_loop env c ps s2 })"

text \<open>Taking the whole list off is the work of the interrupt that calls \<open>sched_ttwu_pending\<close>.\<close>

definition sched_ttwu_pending :: "'r wenv \<Rightarrow> nat \<Rightarrow> 'r wsys \<Rightarrow> 'r wsys option" where
  "sched_ttwu_pending env c s =
     (let ps = wake_list (rqs s c) in
      if ps = [] then Some s
      else ttwu_pending_loop env c ps
        (update_clock_of env c (upd_rq c (\<lambda>q. q\<lparr>wake_list := [], ttwu_pending := False\<rparr>) s)))"

definition wake_up_new_task :: "'r wenv \<Rightarrow> nat \<Rightarrow> nat \<Rightarrow> 'r wsys \<Rightarrow> 'r wsys option" where
  "wake_up_new_task env this p s =
     (let c = select_rq env p (task_cpu (wt s p));
          s1 = upd_wt p (\<lambda>t. t\<lparr>tstate := TASK_RUNNING, task_cpu := c, wake_cpu := c\<rparr>) s
      in do {
        s2 \<leftarrow> check_preempt_curr env this c p (activate env c p True False (update_clock_of env c s1));
        Some (if has_task_woken env (class_of env p) then note_call (Task_Woken c p) s2 else s2) })"

section \<open>Moving a queued task\<close>

definition move_queued_task :: "'r wenv \<Rightarrow> nat \<Rightarrow> nat \<Rightarrow> nat \<Rightarrow> 'r wsys \<Rightarrow> 'r wsys option" where
  "move_queued_task env this p c s =
     (let s1 = set_task_cpu p c (deactivate env (task_cpu (wt s p)) p True s)
      in if task_cpu (wt s1 p) \<noteq> c then None
         else check_preempt_curr env this c p (activate env c p False False s1))"

definition migrate_swap_task_raw :: "'r wenv \<Rightarrow> nat \<Rightarrow> nat \<Rightarrow> nat \<Rightarrow> 'r wsys \<Rightarrow> 'r wsys option" where
  "migrate_swap_task_raw env this p c s =
     (if on_queue (wt s p) = Queued_Rq
      then check_preempt_curr env this c p
             (activate env c p False False (set_task_cpu p c (deactivate env (task_cpu (wt s p)) p False s)))
      else Some (upd_wt p (\<lambda>t. t\<lparr>wake_cpu := c\<rparr>) s))"

end
