(* ===== verification/Sched_Switch_Main.thy ===== *)
theory Sched_Switch_Main
  imports Sched_Switch
begin

text \<open>
  Sleeping and waking up: the counters. The part of the state that matters for them is a view, every
  function of \<open>Sched_Switch\<close> is characterised on views, and the invariant is kept by every
  interleaving of switches, wake-ups, pending wake-ups, new tasks and moves on any number of CPUs.
\<close>

section \<open>Views\<close>

record wview =
  vq :: "nat \<Rightarrow> bool"
  vst :: "nat \<Rightarrow> int"
  vcpu :: "nat \<Rightarrow> nat"
  vio :: "nat \<Rightarrow> bool"
  vload :: "nat \<Rightarrow> bool"
  vrem :: "nat \<Rightarrow> bool"
  vun :: "nat \<Rightarrow> int"
  vwait :: "nat \<Rightarrow> int"
  vlist :: "nat \<Rightarrow> nat list"
  vcurr :: "nat \<Rightarrow> nat"
  vlog :: "nat \<Rightarrow> bool list"

text \<open>The moves of a task into and out of the queues, from the calls.\<close>

fun queue_moves :: "nat \<Rightarrow> sw_call list \<Rightarrow> bool list" where
  "queue_moves t [] = []"
| "queue_moves t (Enqueued c p b # xs) = (if p = t then True # queue_moves t xs else queue_moves t xs)"
| "queue_moves t (Dequeued c p # xs) = (if p = t then False # queue_moves t xs else queue_moves t xs)"
| "queue_moves t (_ # xs) = queue_moves t xs"

lemma queue_moves_append [simp]: "queue_moves t (xs @ ys) = queue_moves t xs @ queue_moves t ys"
  by (induction t xs rule: queue_moves.induct) auto

definition view :: "'r wsys \<Rightarrow> wview" where
  "view s =
     \<lparr>vq = (\<lambda>t. on_queue (wt s t) = Queued_Rq), vst = (\<lambda>t. tstate (wt s t)), vcpu = (\<lambda>t. task_cpu (wt s t)),
      vio = (\<lambda>t. iowait (wt s t)), vload = (\<lambda>t. contributes (wt s t)), vrem = (\<lambda>t. remote_wakeup (wt s t)),
      vun = (\<lambda>c. nr_uninterruptible (rqs s c)), vwait = (\<lambda>c. nr_iowait (rqs s c)),
      vlist = (\<lambda>c. wake_list (rqs s c)), vcurr = curr_of (marks s), vlog = (\<lambda>t. queue_moves t (calls s))\<rparr>"

lemma resched_curr_curr: "resched_curr tif this es n m = Some m' \<Longrightarrow> curr_of m' = curr_of m"
  by (auto simp: resched_curr_def Let_def split: if_splits bind_splits)

lemma view_resched: "resched env this c s = Some s' \<Longrightarrow> view s' = view s"
  by (auto simp: resched_def view_def split: bind_splits dest: resched_curr_curr)

lemma view_update_clock [simp]: "view (update_clock_of env c s) = view s"
  by (simp add: view_def update_clock_of_def fun_eq_iff)

lemma view_check_preempt:
  assumes "check_preempt_curr env this c p s = Some s'"
  shows "view s' = view s"
proof -
  have noted: "view (note_call (Class_Preempt c p) s) = view s" by (simp add: view_def)
  obtain s1 where "view s1 = view s"
    and "s' = s1 \<or> s' = upd_rq c (\<lambda>q. q\<lparr>clocks := (clocks q)\<lparr>req_skip := True\<rparr>\<rparr>) s1"
    using assms noted
    by (auto simp: check_preempt_curr_def Let_def split: bind_splits if_splits dest!: view_resched)
  moreover have "view (upd_rq c (\<lambda>q. q\<lparr>clocks := (clocks q)\<lparr>req_skip := True\<rparr>\<rparr>) s1) = view s1" for s1 :: "'a wsys"
    by (simp add: view_def fun_eq_iff)
  ultimately show ?thesis by auto
qed

lemma view_activate:
  "view (activate env c p nclk w s) =
     (view s)\<lparr>vq := (vq (view s))(p := True), vlog := (vlog (view s))(p := vlog (view s) p @ [True])\<rparr>"
  by (auto simp: view_def activate_def update_clock_of_def fun_eq_iff)

lemma view_deactivate:
  "view (deactivate env c p nclk s) =
     (view s)\<lparr>vq := (vq (view s))(p := False), vlog := (vlog (view s))(p := vlog (view s) p @ [False])\<rparr>"
  by (auto simp: view_def deactivate_def update_clock_of_def fun_eq_iff)

lemma view_set_task_cpu: "view (set_task_cpu p c s) = (view s)\<lparr>vcpu := (vcpu (view s))(p := c)\<rparr>"
  by (auto simp: view_def set_task_cpu_def fun_eq_iff)

lemma view_set_state: "view (upd_wt p (\<lambda>t. t\<lparr>tstate := x\<rparr>) s) = (view s)\<lparr>vst := (vst (view s))(p := x)\<rparr>"
  by (auto simp: view_def fun_eq_iff)

lemma view_do_wakeup:
  assumes "ttwu_do_wakeup env this c p s = Some s'"
  shows "view s' = (view s)\<lparr>vst := (vst (view s))(p := TASK_RUNNING)\<rparr>"
proof -
  obtain s1 where s1: "check_preempt_curr env this c p s = Some s1"
    using assms by (auto simp: ttwu_do_wakeup_def split: bind_splits)
  have "view s' = (view s1)\<lparr>vst := (vst (view s1))(p := TASK_RUNNING)\<rparr>"
    using assms s1 by (auto simp: ttwu_do_wakeup_def Let_def view_def fun_eq_iff split: if_splits)
  then show ?thesis by (simp add: view_check_preempt [OF s1])
qed

definition take_wait :: "nat \<Rightarrow> wview \<Rightarrow> wview" where
  "take_wait p v = v\<lparr>vwait := (vwait v)(vcpu v p := vwait v (vcpu v p) - of_bool (vio v p))\<rparr>"

definition enter_queue :: "nat \<Rightarrow> nat \<Rightarrow> wview \<Rightarrow> wview" where
  "enter_queue c p v =
     v\<lparr>vun := (vun v)(c := vun v c - of_bool (vload v p)), vq := (vq v)(p := True),
       vlog := (vlog v)(p := vlog v p @ [True]), vst := (vst v)(p := TASK_RUNNING)\<rparr>"

lemma view_do_activate:
  assumes "ttwu_do_activate env this c p wfl s = Some s'"
  shows "view s' = enter_queue c p (if migrated wfl then view s else take_wait p (view s))"
proof -
  define s1 where "s1 = (if contributes (wt s p)
    then upd_rq c (\<lambda>q. q\<lparr>nr_uninterruptible := nr_uninterruptible q - 1\<rparr>) s else s)"
  define s2 where "s2 = (if \<not> migrated wfl \<and> iowait (wt s1 p)
    then upd_rq (task_cpu (wt s1 p)) (\<lambda>q. q\<lparr>nr_iowait := nr_iowait q - 1\<rparr>) (note_call (Blkio_End p) s1) else s1)"
  have "ttwu_do_wakeup env this c p (activate env c p True True s2) = Some s'"
    using assms unfolding ttwu_do_activate_def s1_def s2_def by (simp only: Let_def)
  then have "view s' = (view (activate env c p True True s2))
      \<lparr>vst := (vst (view (activate env c p True True s2)))(p := TASK_RUNNING)\<rparr>"
    by (rule view_do_wakeup)
  moreover have "view s1 = (view s)\<lparr>vun := (vun (view s))(c := vun (view s) c - of_bool (vload (view s) p))\<rparr>"
    by (auto simp: s1_def view_def fun_eq_iff)
  moreover have "view s2 = (if migrated wfl then view s1 else take_wait p (view s1))"
    by (auto simp: s2_def take_wait_def view_def fun_eq_iff)
  ultimately show ?thesis by (simp add: view_activate enter_queue_def take_wait_def)
qed

definition leave_queue :: "nat \<Rightarrow> nat \<Rightarrow> bool \<Rightarrow> wview \<Rightarrow> wview" where
  "leave_queue c p ld v =
     v\<lparr>vload := (vload v)(p := ld), vun := (vun v)(c := vun v c + of_bool ld), vq := (vq v)(p := False),
       vlog := (vlog v)(p := vlog v p @ [False]), vwait := (vwait v)(c := vwait v c + of_bool (vio v p))\<rparr>"

lemma view_go_to_sleep:
  "view (go_to_sleep env c p s) = (view s)\<lparr>vst := (vst (view s))(p := TASK_RUNNING)\<rparr> \<or>
   (\<exists>ld. view (go_to_sleep env c p s) = leave_queue c p ld (view s))"
proof (cases "signal_pending_state env (tstate (wt s p)) p")
  case True
  then show ?thesis by (simp add: go_to_sleep_def view_set_state)
next
  case False
  define ld where "ld = (tstate (wt s p) AND TASK_UNINTERRUPTIBLE \<noteq> 0 \<and> tstate (wt s p) AND TASK_NOLOAD = 0 \<and>
    \<not> frozen (wt s p))"
  define s1 where "s1 = upd_wt p (\<lambda>t. t\<lparr>contributes := ld\<rparr>) s"
  define s2 where "s2 = (if ld then upd_rq c (\<lambda>q. q\<lparr>nr_uninterruptible := nr_uninterruptible q + 1\<rparr>) s1 else s1)"
  define s3 where "s3 = deactivate env c p True s2"
  have "go_to_sleep env c p s = (if iowait (wt s3 p)
      then note_call (Blkio_Start p) (upd_rq c (\<lambda>q. q\<lparr>nr_iowait := nr_iowait q + 1\<rparr>) s3) else s3)"
    using False unfolding go_to_sleep_def s3_def s2_def s1_def ld_def by (simp only: Let_def if_False)
  moreover have "view \<dots> = (view s3)\<lparr>vwait := (vwait (view s3))(c := vwait (view s3) c + of_bool (vio (view s3) p))\<rparr>"
    by (auto simp: view_def fun_eq_iff)
  moreover have "view s3 = (view s2)\<lparr>vq := (vq (view s2))(p := False), vlog := (vlog (view s2))(p := vlog (view s2) p @ [False])\<rparr>"
    by (simp add: s3_def view_deactivate)
  moreover have "view s2 = (view s1)\<lparr>vun := (vun (view s1))(c := vun (view s1) c + of_bool ld)\<rparr>"
    by (auto simp: s2_def view_def fun_eq_iff)
  moreover have "view s1 = (view s)\<lparr>vload := (vload (view s))(p := ld)\<rparr>"
    by (auto simp: s1_def view_def fun_eq_iff)
  ultimately show ?thesis by (auto simp: leave_queue_def)
qed

lemma view_switch_tasks:
  "view (switch_tasks c prev nxt vol s) = (view s)\<lparr>vcurr := (vcurr (view s))(c := nxt)\<rparr>"
proof -
  define s5 where "s5 = (upd_rq c (\<lambda>q. q\<lparr>nr_switches := nr_switches q + 1\<rparr>) s)
    \<lparr>marks := (marks s)\<lparr>curr_of := (curr_of (marks s))(c := nxt)\<rparr>\<rparr>"
  define s6 where "s6 = upd_wt prev (\<lambda>t. if vol then t\<lparr>nvcsw := nvcsw t + 1\<rparr> else t\<lparr>nivcsw := nivcsw t + 1\<rparr>) s5"
  have "view s6 = view s5" by (auto simp: s6_def view_def fun_eq_iff)
  moreover have "view s5 = (view s)\<lparr>vcurr := (vcurr (view s))(c := nxt)\<rparr>" by (auto simp: s5_def view_def fun_eq_iff)
  moreover have "view (upd_wt nxt (\<lambda>t. t\<lparr>on_cpu := True\<rparr>) (s6\<lparr>calls := calls s6 @ [Migrate_Switch c prev,
      Psi_Switch prev nxt (on_queue (wt s6 prev) \<noteq> Queued_Rq), Switched c prev nxt]\<rparr>)) = view s6"
    by (auto simp: view_def fun_eq_iff)
  moreover have "switch_tasks c prev nxt vol s = upd_wt nxt (\<lambda>t. t\<lparr>on_cpu := True\<rparr>) (s6\<lparr>calls := calls s6 @ [Migrate_Switch c prev,
      Psi_Switch prev nxt (on_queue (wt s6 prev) \<noteq> Queued_Rq), Switched c prev nxt]\<rparr>)"
    unfolding switch_tasks_def Let_def s6_def s5_def by simp
  ultimately show ?thesis by simp
qed

text \<open>A switch changes the state, puts the previous task to sleep or leaves it queued; then it sets the current task.\<close>

lemma view_schedule:
  assumes "schedule_raw env preempt c s = Some s'"
  shows "\<exists>nxt v. (v = view s \<or> v = (view s)\<lparr>vst := (vst (view s))(curr s c := TASK_RUNNING)\<rparr> \<or>
      (\<exists>ld. v = leave_queue c (curr s c) ld (view s))) \<and> view s' = v\<lparr>vcurr := (vcurr v)(c := nxt)\<rparr>"
proof -
  define prev where "prev = curr s c"
  define s1 where "s1 = update_clock_of env c (upd_rq c (\<lambda>q. q\<lparr>clocks := promote_flags (clocks q)\<rparr>) s)"
  define vol where "vol = (\<not> preempt \<and> tstate (wt s1 prev) \<noteq> TASK_RUNNING)"
  define s2 where "s2 = (if vol then go_to_sleep env c prev s1 else s1)"
  have s1: "view s1 = view s"
    by (simp add: s1_def) (simp add: view_def fun_eq_iff)
  have s2: "view s2 = view s \<or> view s2 = (view s)\<lparr>vst := (vst (view s))(prev := TASK_RUNNING)\<rparr> \<or>
      (\<exists>ld. view s2 = leave_queue c prev ld (view s))"
    using view_go_to_sleep [of env c prev s1] by (auto simp: s2_def s1)
  obtain nxt r where pick: "pick_next_task (ops env) (class_of env) prev (classes (rqs s2 c)) = (Some nxt, r)"
    using assms unfolding schedule_raw_def Let_def prev_def [symmetric] s1_def [symmetric] vol_def [symmetric] s2_def [symmetric]
    by (auto split: prod.splits option.splits)
  define s3 where "s3 = clear_need_resched env prev (upd_rq c (\<lambda>q. q\<lparr>classes := r\<rparr>) s2)"
  have s3: "view s3 = view s2" by (simp add: s3_def view_def clear_need_resched_def fun_eq_iff)
  have curr: "curr s3 c = prev"
  proof -
    have "vcurr (view s2) c = prev" using s2 by (auto simp: leave_queue_def view_def prev_def)
    then show ?thesis using s3 by (metis view_def wview.select_convs(10))
  qed
  have "view s' = (view s3)\<lparr>vcurr := (vcurr (view s3))(c := nxt)\<rparr>"
  proof (cases "nxt = prev")
    case True
    then have "s' = note_call (Balance_Callbacks c) (upd_rq c (\<lambda>q. q\<lparr>clocks := clear_skip (clocks q)\<rparr>) s3)"
      using assms pick unfolding schedule_raw_def Let_def prev_def [symmetric] s1_def [symmetric] vol_def [symmetric]
        s2_def [symmetric] s3_def [symmetric] by (simp add: s3_def)
    then show ?thesis using True curr by (simp add: view_def fun_eq_iff)
  next
    case False
    have "s' = switch_tasks c prev nxt vol s3"
      using assms pick False unfolding schedule_raw_def Let_def prev_def [symmetric] s1_def [symmetric] vol_def [symmetric]
        s2_def [symmetric] by (simp add: s3_def)
    then show ?thesis by (simp add: view_switch_tasks)
  qed
  with s2 show ?thesis unfolding s3 prev_def by blast
qed

section \<open>The invariant of the counters\<close>

text \<open>
  A queue is entered and left in turn. \<open>A\<close> is the set of tasks that are on their way from one CPU to another in
  the middle of a wake-up and that \<open>nr_iowait\<close> no longer counts.
\<close>

fun replay :: "bool \<Rightarrow> bool list \<Rightarrow> bool option" where
  "replay q [] = Some q"
| "replay q (b # bs) = (if b = q then None else replay b bs)"

lemma replay_snoc: "replay q bs = Some r \<Longrightarrow> replay q (bs @ [b]) = (if b = r then None else Some b)"
  by (induction q bs rule: replay.induct) (auto split: if_splits)

definition counted :: "nat set \<Rightarrow> wview \<Rightarrow> nat \<Rightarrow> nat \<Rightarrow> bool" where
  "counted A v c t \<longleftrightarrow> \<not> vq v t \<and> vio v t \<and> vcpu v t = c \<and> t \<notin> A \<and> \<not> (vrem v t \<and> t \<in> set (vlist v (vcpu v t)))"

definition wait_ok :: "nat set \<Rightarrow> nat set \<Rightarrow> nat set \<Rightarrow> wview \<Rightarrow> bool" where
  "wait_ok A T C v \<longleftrightarrow> (\<forall>c\<in>C. vwait v c = (\<Sum>t\<in>T. of_bool (counted A v c t)))"

definition load_ok :: "nat set \<Rightarrow> nat set \<Rightarrow> wview \<Rightarrow> bool" where
  "load_ok T C v \<longleftrightarrow> (\<Sum>c\<in>C. vun v c) = (\<Sum>t\<in>T. of_bool (\<not> vq v t \<and> vload v t))"

definition lists_ok :: "nat set \<Rightarrow> nat set \<Rightarrow> wview \<Rightarrow> bool" where
  "lists_ok A T v \<longleftrightarrow>
     (\<forall>c. distinct (vlist v c)) \<and>
     (\<forall>c. \<forall>t\<in>set (vlist v c). t \<in> T \<and> \<not> vq v t \<and> vst v t = TASK_WAKING \<and> vcpu v t = c \<and> t \<notin> A)"

definition tasks_ok :: "nat set \<Rightarrow> nat set \<Rightarrow> wview \<Rightarrow> bool" where
  "tasks_ok T C v \<longleftrightarrow>
     (\<forall>t\<in>T. vcpu v t \<in> C) \<and>
     (\<forall>c\<in>C. vcurr v c \<in> T \<and> vq v (vcurr v c) \<and> vcpu v (vcurr v c) = c) \<and>
     (\<forall>t\<in>T. vst v t = TASK_NEW \<longrightarrow> \<not> vq v t \<and> \<not> vload v t \<and> \<not> vio v t)"

definition log_ok :: "(nat \<Rightarrow> bool) \<Rightarrow> wview \<Rightarrow> bool" where
  "log_ok q0 v \<longleftrightarrow> (\<forall>t. replay (q0 t) (vlog v t) = Some (vq v t))"

definition vinv :: "(nat \<Rightarrow> bool) \<Rightarrow> nat set \<Rightarrow> nat set \<Rightarrow> nat set \<Rightarrow> wview \<Rightarrow> bool" where
  "vinv q0 A T C v \<longleftrightarrow> finite T \<and> finite C \<and>
     wait_ok A T C v \<and> load_ok T C v \<and> lists_ok A T v \<and> tasks_ok T C v \<and> log_ok q0 v"

lemma sum_change:
  fixes f g :: "nat \<Rightarrow> int"
  assumes "finite T" and "p \<in> T" and "\<And>t. t \<in> T \<Longrightarrow> t \<noteq> p \<Longrightarrow> f t = g t"
  shows "sum f T = sum g T + (f p - g p)"
  using assms by (simp add: sum.remove [of T p])

lemma wait_ok_change:
  assumes ok: "wait_ok A T C v" and p: "finite T" "p \<in> T"
    and other: "\<And>t c. t \<in> T \<Longrightarrow> t \<noteq> p \<Longrightarrow> counted A' v' c t = counted A v c t"
    and wait: "\<And>c. c \<in> C \<Longrightarrow> vwait v' c = vwait v c + (of_bool (counted A' v' c p) - of_bool (counted A v c p))"
  shows "wait_ok A' T C v'"
  unfolding wait_ok_def
proof
  fix c assume c: "c \<in> C"
  have "(\<Sum>t\<in>T. of_bool (counted A' v' c t)) =
      (\<Sum>t\<in>T. of_bool (counted A v c t)) + (of_bool (counted A' v' c p) - of_bool (counted A v c p) :: int)"
    by (rule sum_change [OF p]) (simp add: other)
  with ok c show "vwait v' c = (\<Sum>t\<in>T. of_bool (counted A' v' c t))" by (simp add: wait wait_ok_def)
qed

lemma load_ok_change:
  assumes ok: "load_ok T C v" and p: "finite T" "p \<in> T" and c: "finite C" "c \<in> C"
    and other: "\<And>t. t \<noteq> p \<Longrightarrow> vq v' t = vq v t \<and> vload v' t = vload v t" "\<And>d. d \<noteq> c \<Longrightarrow> vun v' d = vun v d"
    and un: "vun v' c = vun v c + (of_bool (\<not> vq v' p \<and> vload v' p) - of_bool (\<not> vq v p \<and> vload v p))"
  shows "load_ok T C v'"
proof -
  have "(\<Sum>t\<in>T. of_bool (\<not> vq v' t \<and> vload v' t)) = (\<Sum>t\<in>T. of_bool (\<not> vq v t \<and> vload v t)) +
      (of_bool (\<not> vq v' p \<and> vload v' p) - of_bool (\<not> vq v p \<and> vload v p) :: int)"
    by (rule sum_change [OF p]) (simp add: other)
  moreover have "(\<Sum>d\<in>C. vun v' d) = (\<Sum>d\<in>C. vun v d) + (vun v' c - vun v c)"
    by (rule sum_change [OF c]) (simp add: other)
  ultimately show ?thesis using ok un by (simp add: load_ok_def)
qed

text \<open>A task that sleeps, is on no list and is not accounted for.\<close>

definition loose :: "nat set \<Rightarrow> nat \<Rightarrow> wview \<Rightarrow> bool" where
  "loose T p v \<longleftrightarrow> p \<in> T \<and> \<not> vq v p \<and> (\<forall>c. p \<notin> set (vlist v c))"

lemma vinv_take_wait:
  assumes "vinv q0 A T C v" and "loose T p v" and "p \<notin> A"
  shows "vinv q0 (insert p A) T C (take_wait p v)"
proof -
  have "wait_ok (insert p A) T C (take_wait p v)"
    by (rule wait_ok_change [of A T C v p]) (use assms in \<open>auto simp: vinv_def loose_def take_wait_def counted_def\<close>)
  moreover have "lists_ok (insert p A) T (take_wait p v)"
    using assms by (auto simp: vinv_def lists_ok_def loose_def take_wait_def)
  ultimately show ?thesis using assms
    by (simp add: vinv_def take_wait_def load_ok_def tasks_ok_def log_ok_def)
qed

lemma vinv_set_cpu:
  assumes "vinv q0 A T C v" and "loose T p v" and "p \<in> A" and "c \<in> C"
  shows "vinv q0 A T C (v\<lparr>vcpu := (vcpu v)(p := c)\<rparr>)"
proof -
  have "wait_ok A T C (v\<lparr>vcpu := (vcpu v)(p := c)\<rparr>)"
    by (rule wait_ok_change [of A T C v p]) (use assms in \<open>auto simp: vinv_def loose_def counted_def\<close>)
  moreover have "lists_ok A T (v\<lparr>vcpu := (vcpu v)(p := c)\<rparr>)"
    using assms by (auto simp: vinv_def lists_ok_def loose_def)
  moreover have "tasks_ok T C (v\<lparr>vcpu := (vcpu v)(p := c)\<rparr>)"
    using assms by (auto simp: vinv_def tasks_ok_def loose_def)
  ultimately show ?thesis using assms by (simp add: vinv_def load_ok_def log_ok_def)
qed

lemma vinv_enter_queue:
  assumes "vinv q0 A T C v" and "loose T p v" and "p \<in> A" and "c \<in> C"
  shows "vinv q0 (A - {p}) T C (enter_queue c p v)"
proof -
  have "wait_ok (A - {p}) T C (enter_queue c p v)"
    by (rule wait_ok_change [of A T C v p]) (use assms in \<open>auto simp: vinv_def loose_def counted_def enter_queue_def\<close>)
  moreover have "load_ok T C (enter_queue c p v)"
    by (rule load_ok_change [of T C v p c]) (use assms in \<open>auto simp: vinv_def loose_def enter_queue_def\<close>)
  moreover have "lists_ok (A - {p}) T (enter_queue c p v)"
    using assms by (auto simp: vinv_def lists_ok_def loose_def enter_queue_def)
  moreover have "tasks_ok T C (enter_queue c p v)"
    using assms by (auto simp: vinv_def tasks_ok_def enter_queue_def TASK_RUNNING_def TASK_NEW_def)
  moreover have "log_ok q0 (enter_queue c p v)"
    using assms by (auto simp: vinv_def log_ok_def enter_queue_def loose_def replay_snoc)
  ultimately show ?thesis using assms(1) by (simp add: vinv_def)
qed

definition enter_list :: "nat \<Rightarrow> bool \<Rightarrow> wview \<Rightarrow> wview" where
  "enter_list p r v =
     v\<lparr>vrem := (vrem v)(p := r), vlist := (vlist v)(vcpu v p := vlist v (vcpu v p) @ [p])\<rparr>"

lemma vinv_enter_list:
  assumes "vinv q0 A T C v" and "loose T p v" and "vst v p = TASK_WAKING" and "r \<longleftrightarrow> p \<in> A"
  shows "vinv q0 (A - {p}) T C (enter_list p r v)"
proof -
  have "wait_ok (A - {p}) T C (enter_list p r v)"
    by (rule wait_ok_change [of A T C v p]) (use assms in \<open>auto simp: vinv_def loose_def counted_def enter_list_def\<close>)
  moreover have "lists_ok (A - {p}) T (enter_list p r v)"
    using assms by (auto simp: vinv_def lists_ok_def loose_def enter_list_def)
  moreover have "load_ok T C (enter_list p r v)" "tasks_ok T C (enter_list p r v)" "log_ok q0 (enter_list p r v)"
    using assms by (simp_all add: vinv_def load_ok_def tasks_ok_def log_ok_def enter_list_def)
  ultimately show ?thesis using assms(1) by (simp add: vinv_def)
qed

lemma vinv_leave_queue:
  assumes "vinv q0 {} T C v" and "p \<in> T" and "vq v p" and "vcpu v p = c" and "c \<in> C"
  shows "wait_ok {} T C (leave_queue c p ld v)" "load_ok T C (leave_queue c p ld v)" "lists_ok {} T (leave_queue c p ld v)"
    "log_ok q0 (leave_queue c p ld v)"
proof -
  have no: "p \<notin> set (vlist v d)" for d using assms by (auto simp: vinv_def lists_ok_def)
  show "wait_ok {} T C (leave_queue c p ld v)"
    by (rule wait_ok_change [of "{}" T C v p]) (use assms no in \<open>auto simp: vinv_def counted_def leave_queue_def\<close>)
  show "load_ok T C (leave_queue c p ld v)"
    by (rule load_ok_change [of T C v p c]) (use assms in \<open>auto simp: vinv_def leave_queue_def\<close>)
  show "lists_ok {} T (leave_queue c p ld v)" using assms no by (auto simp: vinv_def lists_ok_def leave_queue_def)
  show "log_ok q0 (leave_queue c p ld v)"
    using assms by (auto simp: vinv_def log_ok_def leave_queue_def replay_snoc)
qed

lemma vinv_set_state:
  assumes "vinv q0 A T C v" and "\<And>c. p \<notin> set (vlist v c)" and "x \<noteq> TASK_NEW"
  shows "vinv q0 A T C (v\<lparr>vst := (vst v)(p := x)\<rparr>)"
  using assms
  by (auto simp: vinv_def wait_ok_def counted_def load_ok_def lists_ok_def tasks_ok_def log_ok_def)

text \<open>A queued task that runs nowhere moves to another queue.\<close>

definition move_queue :: "nat \<Rightarrow> nat \<Rightarrow> wview \<Rightarrow> wview" where
  "move_queue c p v =
     v\<lparr>vcpu := (vcpu v)(p := c), vq := (vq v)(p := True), vlog := (vlog v)(p := vlog v p @ [False, True])\<rparr>"

lemma vinv_move_queue:
  assumes "vinv q0 {} T C v" and "p \<in> T" and "vq v p" and "c \<in> C" and "\<And>d. d \<in> C \<Longrightarrow> vcurr v d \<noteq> p"
  shows "vinv q0 {} T C (move_queue c p v)"
proof -
  have "wait_ok {} T C (move_queue c p v)"
    by (rule wait_ok_change [of "{}" T C v p]) (use assms in \<open>auto simp: vinv_def counted_def move_queue_def\<close>)
  moreover have "load_ok T C (move_queue c p v)"
    by (rule load_ok_change [of T C v p c]) (use assms in \<open>auto simp: vinv_def move_queue_def\<close>)
  moreover have "lists_ok {} T (move_queue c p v)"
    using assms by (auto simp: vinv_def lists_ok_def move_queue_def)
  moreover have "tasks_ok T C (move_queue c p v)"
    using assms by (auto simp: vinv_def tasks_ok_def move_queue_def)
  moreover have "replay (q0 p) (vlog v p @ [False, True]) = Some True"
    using assms replay_snoc [of "q0 p" "vlog v p" True False] replay_snoc [of "q0 p" "vlog v p @ [False]" False True]
    by (auto simp: vinv_def log_ok_def)
  then have "log_ok q0 (move_queue c p v)" using assms by (auto simp: vinv_def log_ok_def move_queue_def)
  ultimately show ?thesis using assms(1) by (simp add: vinv_def)
qed

text \<open>A CPU takes its list off.\<close>

lemma vinv_take_list:
  assumes "vinv q0 {} T C v"
  shows "vinv q0 {t \<in> set (vlist v c). vrem v t} T C (v\<lparr>vlist := (vlist v)(c := [])\<rparr>)"
proof -
  have "counted {t \<in> set (vlist v c). vrem v t} (v\<lparr>vlist := (vlist v)(c := [])\<rparr>) d t = counted {} v d t" for d t
    using assms by (auto simp: vinv_def lists_ok_def counted_def)
  with assms have "wait_ok {t \<in> set (vlist v c). vrem v t} T C (v\<lparr>vlist := (vlist v)(c := [])\<rparr>)"
    by (simp add: vinv_def wait_ok_def)
  moreover have "t \<notin> set (vlist v c)" if "t \<in> set (vlist v d)" "d \<noteq> c" for t d
    using assms that unfolding vinv_def lists_ok_def by metis
  then have "lists_ok {t \<in> set (vlist v c). vrem v t} T (v\<lparr>vlist := (vlist v)(c := [])\<rparr>)"
    using assms by (auto simp: vinv_def lists_ok_def)
  ultimately show ?thesis using assms by (simp add: vinv_def load_ok_def tasks_ok_def log_ok_def)
qed

section \<open>Every step keeps it\<close>

lemma vinv_activate:
  assumes inv: "vinv q0 A T C v" and p: "loose T p v" and A: "m \<longleftrightarrow> p \<in> A" and c: "c \<in> C"
  shows "vinv q0 (A - {p}) T C (enter_queue c p (if m then v else take_wait p v))"
proof (cases m)
  case True
  with vinv_enter_queue [OF inv p] A c show ?thesis by simp
next
  case False
  then have "vinv q0 (insert p A) T C (take_wait p v)" using vinv_take_wait [OF inv p] A by simp
  moreover have "loose T p (take_wait p v)" using p by (simp add: loose_def take_wait_def)
  ultimately have "vinv q0 (insert p A - {p}) T C (enter_queue c p (take_wait p v))"
    by (rule vinv_enter_queue) (use c in auto)
  with False A show ?thesis by simp
qed

lemma view_wakelist:
  assumes "ttwu_queue_wakelist env this p c wfl s = (True, s')" and "task_cpu (wt s p) = c"
  shows "view s' = enter_list p (migrated wfl) (view s)"
  using assms
  by (auto simp: ttwu_queue_wakelist_def ttwu_queue_wakelist_raw_def enter_list_def view_def fun_eq_iff split: if_splits)

lemma ttwu_queue_vinv:
  assumes run: "ttwu_queue env this p c wfl s = Some s'" and inv: "vinv q0 A T C (view s)"
    and p: "loose T p (view s)" and c: "c \<in> C" "task_cpu (wt s p) = c" and A: "migrated wfl \<longleftrightarrow> p \<in> A"
    and st: "tstate (wt s p) = TASK_WAKING"
  shows "vinv q0 (A - {p}) T C (view s')"
proof (cases "ttwu_queue_wakelist env this p c wfl s")
  case (Pair b s1)
  show ?thesis
  proof (cases b)
    case True
    then have "s' = s1" using run Pair by (simp add: ttwu_queue_def)
    then have "view s' = enter_list p (migrated wfl) (view s)" using view_wakelist Pair True c by metis
    then show ?thesis using vinv_enter_list [OF inv p _ A] st by (simp add: view_def)
  next
    case False
    then have "s1 = s" using Pair by (auto simp: ttwu_queue_wakelist_def split: if_splits)
    then have "ttwu_do_activate env this c p wfl (update_clock_of env c s) = Some s'"
      using run Pair False by (simp add: ttwu_queue_def)
    from view_do_activate [OF this, unfolded view_update_clock] vinv_activate [OF inv p A c(1)] show ?thesis by simp
  qed
qed

lemma ttwu_place_vinv:
  assumes run: "ttwu_place env this p s = Some s'" and inv: "vinv q0 {} T C (view s)" and p: "loose T p (view s)"
    and st: "tstate (wt s p) = TASK_WAKING" and sel: "\<And>c. select_rq env p c \<in> C"
  shows "vinv q0 {} T C (view s')"
proof -
  define c where "c = select_rq env p (wake_cpu (wt s p))"
  define s3 where "s3 = (if iowait (wt s p)
    then upd_rq (task_cpu (wt s p)) (\<lambda>q. q\<lparr>nr_iowait := nr_iowait q - 1\<rparr>) (note_call (Blkio_End p) s) else s)"
  define s4 where "s4 = set_task_cpu p c (note_call (Psi_Ttwu_Dequeue p) s3)"
  have c: "c \<in> C" using sel by (simp add: c_def)
  show ?thesis
  proof (cases "task_cpu (wt s p) = c")
    case True
    with run have "ttwu_queue env this p c \<lparr>migrated = False, wf_on_cpu = False\<rparr> s = Some s'"
      by (simp add: ttwu_place_def Let_def c_def [symmetric])
    from ttwu_queue_vinv [OF this inv p c True _ st] show ?thesis by simp
  next
    case False
    with run have "ttwu_queue env this p c \<lparr>migrated = True, wf_on_cpu = False\<rparr> s4 = Some s'"
      unfolding ttwu_place_def c_def [symmetric] by (simp add: Let_def s3_def s4_def)
    moreover have "view s3 = take_wait p (view s)" by (auto simp: s3_def take_wait_def view_def fun_eq_iff)
    moreover have "view (note_call (Psi_Ttwu_Dequeue p) s3) = view s3" by (simp add: view_def)
    ultimately have v4: "view s4 = (take_wait p (view s))\<lparr>vcpu := (vcpu (take_wait p (view s)))(p := c)\<rparr>"
      and q: "ttwu_queue env this p c \<lparr>migrated = True, wf_on_cpu = False\<rparr> s4 = Some s'"
      by (simp_all add: s4_def view_set_task_cpu)
    have loose: "loose T p (take_wait p (view s))" using p by (simp add: loose_def take_wait_def)
    have "vinv q0 (insert p {}) T C (take_wait p (view s))" by (rule vinv_take_wait [OF inv p]) simp
    then have "vinv q0 (insert p {}) T C (view s4)" unfolding v4 by (rule vinv_set_cpu [OF _ loose _ c]) simp
    moreover have "loose T p (view s4)" using loose by (simp add: v4 loose_def)
    ultimately have "vinv q0 ({p} - {p}) T C (view s')"
      by (rule ttwu_queue_vinv [OF q _ _ c])
         (use st in \<open>simp_all add: s4_def s3_def set_task_cpu_def\<close>)
    then show ?thesis by simp
  qed
qed

lemma wake_mask:
  assumes "x AND m \<noteq> 0" and "m AND y = (0 :: int)"
  shows "x \<noteq> y"
  using assms by (auto simp: and.commute)

lemma wake_vinv:
  assumes run: "try_to_wake_up env this p m s = Some (b, s')" and inv: "vinv q0 {} T C (view s)"
    and p: "p \<in> T" and mask: "m AND TASK_WAKING = 0" "m AND TASK_NEW = 0" and sel: "\<And>c. select_rq env p c \<in> C"
  shows "vinv q0 {} T C (view s')"
proof (cases "tstate (wt s p) AND m = 0")
  case True
  then have "s' = s" using run by (auto simp: try_to_wake_up_def split: if_splits)
  with inv show ?thesis by simp
next
  case False
  have st: "tstate (wt s p) \<noteq> TASK_WAKING" by (rule wake_mask [OF False mask(1)])
  have nolist: "p \<notin> set (vlist (view s) c)" for c
    using inv st by (auto simp: vinv_def lists_ok_def) (auto simp: view_def)
  have run_state: "vinv q0 {} T C ((view s)\<lparr>vst := (vst (view s))(p := x)\<rparr>)" if "x \<noteq> TASK_NEW" for x
    by (rule vinv_set_state [OF inv nolist that])
  consider (curr) "p = curr s this" | (queued) "p \<noteq> curr s this" "on_queue (wt s p) = Queued_Rq"
    | (off) "p \<noteq> curr s this" "on_queue (wt s p) = Off_Rq" by (metis on_rq_state.exhaust)
  then show ?thesis
  proof cases
    case curr
    with False run have "s' = upd_wt p (\<lambda>t. t\<lparr>tstate := TASK_RUNNING\<rparr>) s" by (simp add: try_to_wake_up_def)
    with run_state [of TASK_RUNNING] show ?thesis by (simp add: view_set_state TASK_RUNNING_def TASK_NEW_def)
  next
    case queued
    with False run obtain s1 where
      "ttwu_do_wakeup env this (task_cpu (wt s p)) p (update_clock_of env (task_cpu (wt s p)) s) = Some s1" "s' = s1"
      by (auto simp: try_to_wake_up_def ttwu_runnable_def Let_def split: bind_splits if_splits)
    with view_do_wakeup [OF this(1)] run_state [of TASK_RUNNING] show ?thesis
      by (simp add: TASK_RUNNING_def TASK_NEW_def)
  next
    case off
    define s2 where "s2 = upd_wt p (\<lambda>t. t\<lparr>tstate := TASK_WAKING\<rparr>) s"
    have v2: "view s2 = (view s)\<lparr>vst := (vst (view s))(p := TASK_WAKING)\<rparr>" by (simp add: s2_def view_set_state)
    then have inv2: "vinv q0 {} T C (view s2)"
      using run_state [of TASK_WAKING] by (simp add: TASK_WAKING_def TASK_NEW_def)
    have loose2: "loose T p (view s2)" using p off(2) nolist by (simp add: loose_def v2) (simp add: view_def)
    show ?thesis
    proof (cases "ttwu_place env this p s2 = Some s'")
      case True
      then show ?thesis by (rule ttwu_place_vinv [OF _ inv2 loose2 _ sel]) (simp add: s2_def)
    next
      case placed: False
      have "on_cpu (wt s2 p) = on_cpu (wt s p)" by (simp add: s2_def)
      with placed run off False have
        "ttwu_queue_wakelist env this p (task_cpu (wt s2 p)) \<lparr>migrated = False, wf_on_cpu = True\<rparr> s2 = (True, s')"
        unfolding try_to_wake_up_def s2_def [symmetric]
        by (auto simp: Let_def s2_def [symmetric] split: bind_splits if_splits) (auto simp: prod_eq_iff)
      from view_wakelist [OF this] vinv_enter_list [OF inv2 loose2, of False] show ?thesis
        by (simp add: v2)
    qed
  qed
qed

text \<open>The list of pending wake-ups.\<close>

lemma pending_loop_vinv:
  assumes "ttwu_pending_loop env c ps s = Some s'" and "vinv q0 {t \<in> set ps. vrem (view s) t} T C (view s)"
    and "\<And>t. t \<in> set ps \<Longrightarrow> loose T t (view s) \<and> vcpu (view s) t = c" and "distinct ps" and "c \<in> C"
  shows "vinv q0 {} T C (view s')"
  using assms
proof (induction ps arbitrary: s)
  case (Cons p ps)
  have cpu: "task_cpu (wt s p) = c" using Cons.prems(3) [of p] by (simp add: view_def)
  from Cons.prems(1) cpu obtain s2 where
    act: "ttwu_do_activate env c c p \<lparr>migrated = remote_wakeup (wt s p), wf_on_cpu = False\<rparr> s = Some s2"
    and rest: "ttwu_pending_loop env c ps s2 = Some s'"
    by (auto split: bind_splits if_splits)
  let ?A = "{t \<in> set (p # ps). vrem (view s) t}"
  have v2: "view s2 = enter_queue c p (if vrem (view s) p then view s else take_wait p (view s))"
    using view_do_activate [OF act] by (simp add: view_def)
  have other: "loose T t (view s2)" "vcpu (view s2) t = c" "vrem (view s2) t = vrem (view s) t" if "t \<in> set ps" for t
    using Cons.prems(3) [of t] Cons.prems(4) that by (auto simp: v2 loose_def enter_queue_def take_wait_def)
  have "vinv q0 (?A - {p}) T C (view s2)"
    unfolding v2 using Cons.prems(2,3,5) by (intro vinv_activate) auto
  moreover have "?A - {p} = {t \<in> set ps. vrem (view s2) t}" using Cons.prems(4) other(3) by auto
  ultimately have "vinv q0 {t \<in> set ps. vrem (view s2) t} T C (view s2)" by simp
  then show ?case
    by (rule Cons.IH [OF rest]) (use other Cons.prems(4,5) in auto)
qed simp

lemma pending_vinv:
  assumes run: "sched_ttwu_pending env c s = Some s'" and inv: "vinv q0 {} T C (view s)" and c: "c \<in> C"
  shows "vinv q0 {} T C (view s')"
proof (cases "wake_list (rqs s c) = []")
  case True
  with run inv show ?thesis by (simp add: sched_ttwu_pending_def)
next
  case False
  let ?ps = "wake_list (rqs s c)"
  define s1 where "s1 = update_clock_of env c (upd_rq c (\<lambda>q. q\<lparr>wake_list := [], ttwu_pending := False\<rparr>) s)"
  have loop: "ttwu_pending_loop env c ?ps s1 = Some s'" using run False by (simp add: sched_ttwu_pending_def s1_def)
  have v1: "view s1 = (view s)\<lparr>vlist := (vlist (view s))(c := [])\<rparr>"
    unfolding s1_def view_update_clock by (auto simp: view_def fun_eq_iff)
  have ps: "?ps = vlist (view s) c" by (simp add: view_def)
  have mem: "t \<in> T" "\<not> vq (view s) t" "vcpu (view s) t = d" if "t \<in> set (vlist (view s) d)" for t d
    using inv that by (auto simp: vinv_def lists_ok_def)
  show ?thesis
  proof (rule pending_loop_vinv [OF loop])
    show "vinv q0 {t \<in> set ?ps. vrem (view s1) t} T C (view s1)"
      using vinv_take_list [OF inv, of c] by (simp add: v1 ps)
    show "distinct ?ps" using inv by (simp add: vinv_def lists_ok_def ps)
    fix t assume t: "t \<in> set ?ps"
    then have "t \<notin> set (vlist (view s) d)" if "d \<noteq> c" for d using mem(3) [of t] that ps by metis
    with t mem [of t c] show "loose T t (view s1) \<and> vcpu (view s1) t = c" by (simp add: v1 ps loose_def)
  qed (rule c)
qed

lemma new_vinv:
  assumes run: "wake_up_new_task env this p s = Some s'" and inv: "vinv q0 {} T C (view s)"
    and p: "p \<in> T" "tstate (wt s p) = TASK_NEW" and sel: "\<And>c. select_rq env p c \<in> C"
  shows "vinv q0 {} T C (view s')"
proof -
  define c where "c = select_rq env p (task_cpu (wt s p))"
  define s1 where "s1 = upd_wt p (\<lambda>t. t\<lparr>tstate := TASK_RUNNING, task_cpu := c, wake_cpu := c\<rparr>) s"
  have new: "vst (view s) p = TASK_NEW" using p(2) by (simp add: view_def)
  then have fresh: "\<not> vq (view s) p" "\<not> vload (view s) p" "\<not> vio (view s) p"
    using inv p(1) by (auto simp: vinv_def tasks_ok_def)
  have nolist: "p \<notin> set (vlist (view s) d)" for d
    using inv new by (auto simp: vinv_def lists_ok_def TASK_NEW_def TASK_WAKING_def)
  have loose: "loose T p (view s)" using p(1) fresh nolist by (simp add: loose_def)
  have same: "take_wait p (view s) = view s" using fresh by (simp add: take_wait_def)
  have "vinv q0 {p} T C (view s)" using vinv_take_wait [OF inv loose] by (simp add: same)
  then have "vinv q0 {p} T C ((view s)\<lparr>vcpu := (vcpu (view s))(p := c)\<rparr>)" (is "vinv _ _ _ _ ?v")
    by (rule vinv_set_cpu [OF _ loose]) (simp_all add: c_def sel)
  then have "vinv q0 ({p} - {p}) T C (enter_queue c p ?v)"
    by (rule vinv_enter_queue) (use loose sel in \<open>simp_all add: loose_def c_def\<close>)
  moreover have "enter_queue c p ?v = view (activate env c p True False (update_clock_of env c s1))"
    unfolding view_activate view_update_clock using fresh(2)
    by (auto simp: enter_queue_def s1_def view_def fun_eq_iff)
  moreover obtain s2 where
    "check_preempt_curr env this c p (activate env c p True False (update_clock_of env c s1)) = Some s2"
    "view s' = view s2"
    using run unfolding wake_up_new_task_def c_def [symmetric]
    by (auto simp: Let_def s1_def [symmetric] view_def split: bind_splits if_splits)
  ultimately show ?thesis by (simp add: view_check_preempt)
qed

lemma move_view:
  assumes "move_queued_task env this p c s = Some s' \<or>
    migrate_swap_task_raw env this p c s = Some s' \<and> on_queue (wt s p) = Queued_Rq"
  shows "view s' = move_queue c p (view s)"
proof -
  obtain b where "check_preempt_curr env this c p
      (activate env c p False False (set_task_cpu p c (deactivate env (task_cpu (wt s p)) p b s))) = Some s'"
    using assms by (auto simp: move_queued_task_def migrate_swap_task_raw_def Let_def split: if_splits)
  from view_check_preempt [OF this] show ?thesis
    by (simp add: view_activate view_set_task_cpu view_deactivate move_queue_def)
qed

section \<open>The system\<close>

text \<open>
  One step of the system with the tasks \<open>T\<close> and the CPUs \<open>C\<close>. A running task changes its own state and
  says whether it waits for input; nobody sets the states \<open>TASK_WAKING\<close> and \<open>TASK_NEW\<close> by hand or wakes tasks
  by them. The scheduling classes pick tasks of their own run queue.
\<close>

inductive wstep :: "'r wenv \<Rightarrow> nat set \<Rightarrow> nat set \<Rightarrow> 'r wsys \<Rightarrow> 'r wsys \<Rightarrow> bool" for env T C where
  switch: "c \<in> C \<Longrightarrow> schedule_raw env preempt c s = Some s' \<Longrightarrow> curr s' c \<in> T \<Longrightarrow>
    on_queue (wt s' (curr s' c)) = Queued_Rq \<Longrightarrow> task_cpu (wt s' (curr s' c)) = c \<Longrightarrow> wstep env T C s s'"
| finish: "wstep env T C s (finish_task p s)"
| wake: "p \<in> T \<Longrightarrow> m AND TASK_WAKING = 0 \<Longrightarrow> m AND TASK_NEW = 0 \<Longrightarrow>
    try_to_wake_up env this p m s = Some (b, s') \<Longrightarrow> wstep env T C s s'"
| pending: "c \<in> C \<Longrightarrow> sched_ttwu_pending env c s = Some s' \<Longrightarrow> wstep env T C s s'"
| fresh: "p \<in> T \<Longrightarrow> tstate (wt s p) = TASK_NEW \<Longrightarrow> wake_up_new_task env this p s = Some s' \<Longrightarrow> wstep env T C s s'"
| move: "p \<in> T \<Longrightarrow> c \<in> C \<Longrightarrow> on_queue (wt s p) = Queued_Rq \<Longrightarrow> \<forall>d\<in>C. curr s d \<noteq> p \<Longrightarrow>
    move_queued_task env this p c s = Some s' \<Longrightarrow> wstep env T C s s'"
| swap: "p \<in> T \<Longrightarrow> c \<in> C \<Longrightarrow> \<forall>d\<in>C. curr s d \<noteq> p \<Longrightarrow> migrate_swap_task_raw env this p c s = Some s' \<Longrightarrow> wstep env T C s s'"
| own: "c \<in> C \<Longrightarrow> x \<noteq> TASK_NEW \<Longrightarrow>
    wstep env T C s (upd_wt (curr s c) (\<lambda>t. t\<lparr>tstate := x, iowait := io, frozen := fr\<rparr>) s)"

inductive_cases wstepE: "wstep env T C s s'"

lemma schedule_vinv:
  assumes run: "schedule_raw env preempt c s = Some s'" and inv: "vinv q0 {} T C (view s)" and c: "c \<in> C"
    and nxt: "curr s' c \<in> T" "on_queue (wt s' (curr s' c)) = Queued_Rq" "task_cpu (wt s' (curr s' c)) = c"
  shows "vinv q0 {} T C (view s')"
proof -
  obtain x v where v: "v = view s \<or> v = (view s)\<lparr>vst := (vst (view s))(curr s c := TASK_RUNNING)\<rparr> \<or>
      (\<exists>ld. v = leave_queue c (curr s c) ld (view s))" and s': "view s' = v\<lparr>vcurr := (vcurr v)(c := x)\<rparr>"
    using view_schedule [OF run] by blast
  have cur: "curr s c = vcurr (view s) c" by (simp add: view_def)
  have currs: "vcurr (view s) d \<in> T" "vq (view s) (vcurr (view s) d)" "vcpu (view s) (vcurr (view s) d) = d" if "d \<in> C" for d
    using inv that by (simp_all add: vinv_def tasks_ok_def)
  then have prev: "curr s c \<in> T" "vq (view s) (curr s c)" "vcpu (view s) (curr s c) = c"
    and others: "d \<in> C \<Longrightarrow> d \<noteq> c \<Longrightarrow> vcurr (view s) d \<noteq> curr s c" for d
    using c unfolding cur by (blast, blast, blast, metis)
  then have nolist: "curr s c \<notin> set (vlist (view s) d)" for d using inv by (auto simp: vinv_def lists_ok_def)
  have parts: "wait_ok {} T C v" "load_ok T C v" "lists_ok {} T v" "log_ok q0 v"
    using v inv vinv_leave_queue [OF inv prev c] vinv_set_state [OF inv nolist, of TASK_RUNNING]
    by (auto simp: vinv_def TASK_RUNNING_def TASK_NEW_def)
  have "vst (view s) (curr s c) \<noteq> TASK_NEW" using inv prev by (auto simp: vinv_def tasks_ok_def)
  then have same: "vcpu v = vcpu (view s)" "vcurr v = vcurr (view s)" "vio v = vio (view s)"
    "\<And>t. t \<noteq> curr s c \<Longrightarrow> vq v t = vq (view s) t \<and> vload v t = vload (view s) t \<and> vst v t = vst (view s) t"
    "vst v (curr s c) \<noteq> TASK_NEW"
    using v by (auto simp: leave_queue_def TASK_RUNNING_def TASK_NEW_def)
  have "vcurr (view s') c = x" "vq (view s') = vq v" "vcpu (view s') = vcpu v" using s' by simp_all
  moreover have "vcurr (view s') c \<in> T" "vq (view s') (vcurr (view s') c)" "vcpu (view s') (vcurr (view s') c) = c"
    using nxt by (simp_all add: view_def)
  ultimately have x: "x \<in> T" "vq v x" "vcpu v x = c" by simp_all
  have "tasks_ok T C (view s')"
    unfolding s' tasks_ok_def
  proof (intro conjI ballI impI)
    fix d assume d: "d \<in> C"
    let ?n = "vcurr (v\<lparr>vcurr := (vcurr v)(c := x)\<rparr>) d"
    show "?n \<in> T" "vq (v\<lparr>vcurr := (vcurr v)(c := x)\<rparr>) ?n" "vcpu (v\<lparr>vcurr := (vcurr v)(c := x)\<rparr>) ?n = d"
      using x currs [OF d] others [OF d] by (cases "d = c"; simp add: same)+
  next
    fix t assume t: "t \<in> T"
    show "vcpu (v\<lparr>vcurr := (vcurr v)(c := x)\<rparr>) t \<in> C" using inv t by (simp add: same vinv_def tasks_ok_def)
    assume "vst (v\<lparr>vcurr := (vcurr v)(c := x)\<rparr>) t = TASK_NEW"
    then have "t \<noteq> curr s c" using same(5) by auto
    then have "vst (view s) t = TASK_NEW" using same(4) [of t] \<open>vst _ t = TASK_NEW\<close> by simp
    then have "\<not> vq v t \<and> \<not> vload v t \<and> \<not> vio v t"
      using inv t same(4) [OF \<open>t \<noteq> curr s c\<close>] by (simp add: same(3) vinv_def tasks_ok_def)
    then show "\<not> vq (v\<lparr>vcurr := (vcurr v)(c := x)\<rparr>) t" "\<not> vload (v\<lparr>vcurr := (vcurr v)(c := x)\<rparr>) t"
      "\<not> vio (v\<lparr>vcurr := (vcurr v)(c := x)\<rparr>) t" by simp_all
  qed
  with parts inv show ?thesis
    unfolding vinv_def s' by (simp add: wait_ok_def counted_def load_ok_def lists_ok_def log_ok_def)
qed

lemma own_vinv:
  assumes inv: "vinv q0 {} T C (view s)" and c: "c \<in> C" and x: "x \<noteq> TASK_NEW"
  shows "vinv q0 {} T C (view (upd_wt (curr s c) (\<lambda>t. t\<lparr>tstate := x, iowait := io, frozen := fr\<rparr>) s))"
proof -
  let ?p = "curr s c"
  have cur: "?p = vcurr (view s) c" by (simp add: view_def)
  have p: "vq (view s) ?p" using inv c unfolding cur by (auto simp: vinv_def tasks_ok_def)
  then have nolist: "?p \<notin> set (vlist (view s) d)" for d using inv by (auto simp: vinv_def lists_ok_def)
  have "view (upd_wt ?p (\<lambda>t. t\<lparr>tstate := x, iowait := io, frozen := fr\<rparr>) s) =
      (view s)\<lparr>vst := (vst (view s))(?p := x), vio := (vio (view s))(?p := io)\<rparr>"
    by (auto simp: view_def fun_eq_iff)
  moreover have "counted {} ((view s)\<lparr>vst := (vst (view s))(?p := x), vio := (vio (view s))(?p := io)\<rparr>) d t =
      counted {} (view s) d t" for d t
    using p by (auto simp: counted_def)
  ultimately show ?thesis using inv p nolist x
    by (auto simp: vinv_def wait_ok_def load_ok_def lists_ok_def tasks_ok_def log_ok_def)
qed

lemma wstep_vinv:
  assumes "wstep env T C s s'" and inv: "vinv q0 {} T C (view s)" and sel: "\<And>p c. select_rq env p c \<in> C"
  shows "vinv q0 {} T C (view s')"
  using assms(1)
proof (cases rule: wstep.cases)
  case (finish p)
  then have "view s' = view s" by (auto simp: finish_task_def view_def fun_eq_iff)
  with inv show ?thesis by simp
next
  case (move p c this)
  then have "vinv q0 {} T C (move_queue c p (view s))"
    by (intro vinv_move_queue [OF inv]) (auto simp: view_def)
  with move move_view [of env this p c s s'] show ?thesis by simp
next
  case (swap p c this)
  show ?thesis
  proof (cases "on_queue (wt s p) = Queued_Rq")
    case True
    with swap have "vinv q0 {} T C (move_queue c p (view s))"
      by (intro vinv_move_queue [OF inv]) (auto simp: view_def)
    with True swap move_view [of env this p c s s'] show ?thesis by simp
  next
    case False
    with swap have "s' = upd_wt p (\<lambda>t. t\<lparr>wake_cpu := c\<rparr>) s" by (simp add: migrate_swap_task_raw_def)
    then have "view s' = view s" by (simp add: view_def fun_eq_iff)
    with inv show ?thesis by simp
  qed
qed (use inv sel in \<open>auto intro: schedule_vinv wake_vinv pending_vinv new_vinv own_vinv\<close>)

text \<open>The system at the start: tasks run or are new, nothing is counted.\<close>

definition boot :: "nat set \<Rightarrow> nat set \<Rightarrow> 'r wsys \<Rightarrow> bool" where
  "boot T C s \<longleftrightarrow> finite T \<and> finite C \<and> calls s = [] \<and>
     (\<forall>c. wake_list (rqs s c) = []) \<and> (\<forall>c\<in>C. nr_iowait (rqs s c) = 0 \<and> nr_uninterruptible (rqs s c) = 0) \<and>
     (\<forall>t\<in>T. task_cpu (wt s t) \<in> C) \<and>
     (\<forall>t\<in>T. if on_queue (wt s t) = Queued_Rq then tstate (wt s t) \<noteq> TASK_NEW
        else tstate (wt s t) = TASK_NEW \<and> \<not> contributes (wt s t) \<and> \<not> iowait (wt s t)) \<and>
     (\<forall>c\<in>C. curr s c \<in> T \<and> on_queue (wt s (curr s c)) = Queued_Rq \<and> task_cpu (wt s (curr s c)) = c)"

lemma boot_vinv: "boot T C s \<Longrightarrow> vinv (\<lambda>t. on_queue (wt s t) = Queued_Rq) {} T C (view s)"
  unfolding boot_def vinv_def
  by (auto simp: wait_ok_def counted_def load_ok_def lists_ok_def tasks_ok_def log_ok_def view_def split: if_splits
    intro!: sum.neutral [symmetric])

lemma reach_vinv:
  assumes "(wstep env T C)\<^sup>*\<^sup>* s0 s" and "boot T C s0" and "\<And>p c. select_rq env p c \<in> C"
  shows "vinv (\<lambda>t. on_queue (wt s0 t) = Queued_Rq) {} T C (view s)"
  using assms(1)
proof (induction rule: rtranclp_induct)
  case base
  show ?case by (rule boot_vinv [OF assms(2)])
next
  case (step s s')
  then show ?case using wstep_vinv [OF _ _ assms(3)] by blast
qed

text \<open>
  C11. From a system at its start, in every interleaving of switches, wake-ups, pending wake-ups of
  other CPUs, new tasks and moves on any CPUs, the counters stay exact: \<open>nr_iowait\<close> of a CPU is the number of its
  tasks that sleep waiting for input (less those that a waker already sends to another CPU), the sum of
  \<open>nr_uninterruptible\<close> over the CPUs, which is not exact for a single one, is the number of sleeping tasks that
  contribute to the load, and every task enters and leaves the queues in turn: it is never queued twice
  and never taken off twice.
\<close>

theorem wakeup_counters:
  assumes "(wstep env T C)\<^sup>*\<^sup>* s0 s" and "boot T C s0" and "\<And>p c. select_rq env p c \<in> C"
  shows "(\<forall>c\<in>C. nr_iowait (rqs s c) = int (card {t \<in> T. on_queue (wt s t) = Off_Rq \<and> iowait (wt s t) \<and>
      task_cpu (wt s t) = c \<and> \<not> (remote_wakeup (wt s t) \<and> t \<in> set (wake_list (rqs s c)))})) \<and>
    (\<Sum>c\<in>C. nr_uninterruptible (rqs s c)) = int (card {t \<in> T. on_queue (wt s t) = Off_Rq \<and> contributes (wt s t)}) \<and>
    replay (on_queue (wt s0 t) = Queued_Rq) (queue_moves t (calls s)) = Some (on_queue (wt s t) = Queued_Rq)"
proof -
  have inv: "vinv (\<lambda>t. on_queue (wt s0 t) = Queued_Rq) {} T C (view s)" by (rule reach_vinv [OF assms])
  then have fin: "finite T" by (simp add: vinv_def)
  have off: "on_queue x \<noteq> Queued_Rq \<longleftrightarrow> on_queue x = Off_Rq" for x :: wtask by (cases "on_queue x") simp_all
  have card: "(\<Sum>t\<in>T. of_bool (P t) :: int) = int (card {t \<in> T. P t})" for P
    using fin by (simp add: sum_of_bool_eq Int_def)
  have "nr_iowait (rqs s c) = int (card {t \<in> T. counted {} (view s) c t})" if "c \<in> C" for c
    using inv that card [of "counted {} (view s) c"] by (simp add: vinv_def wait_ok_def) (simp add: view_def)
  moreover have "counted {} (view s) c t \<longleftrightarrow> on_queue (wt s t) = Off_Rq \<and> iowait (wt s t) \<and>
      task_cpu (wt s t) = c \<and> \<not> (remote_wakeup (wt s t) \<and> t \<in> set (wake_list (rqs s c)))" for c t
    by (auto simp: counted_def view_def off)
  moreover have "(\<Sum>c\<in>C. nr_uninterruptible (rqs s c)) = int (card {t \<in> T. on_queue (wt s t) = Off_Rq \<and> contributes (wt s t)})"
    using inv card [of "\<lambda>t. on_queue (wt s t) = Off_Rq \<and> contributes (wt s t)"]
    by (simp add: vinv_def load_ok_def view_def off)
  moreover have "replay (on_queue (wt s0 t) = Queued_Rq) (queue_moves t (calls s)) = Some (on_queue (wt s t) = Queued_Rq)"
    using inv by (simp add: vinv_def log_ok_def) (simp add: view_def)
  ultimately show ?thesis by simp
qed

text \<open>One CPU with the idle task 0, which runs, and the new task 1.\<close>

definition sample_wenv :: "(sched_class \<Rightarrow> nat) wenv" where
  "sample_wenv =
     \<lparr>ops = sample_class_ops, class_of = (\<lambda>t. if t = 0 then Idle_Class else Fair_Class), signal_pending_state = (\<lambda>_ _. False),
      class_preempts = (\<lambda>_ _ _. False), has_task_woken = (\<lambda>_. False), select_rq = (\<lambda>_ _. 0),
      cpu_active = (\<lambda>_. True), share_cache = (\<lambda>_ _. True), ttwu_queue_feature = True, update_avg = (\<lambda>a x. x),
      tif_bits = \<lparr>need_resched = 8, polling = 16\<rparr>, clock_cfg = sample_clock_config, read_clock = sample_reading\<rparr>"

definition sample_wtask :: wtask where
  "sample_wtask =
     \<lparr>tstate = TASK_NEW, on_queue = Off_Rq, on_cpu = False, task_cpu = 0, wake_cpu = 0, iowait = False, contributes = False,
      frozen = False, remote_wakeup = False, nvcsw = 0, nivcsw = 0, migrations = 0\<rparr>"

definition sample_wsys :: "(sched_class \<Rightarrow> nat) wsys" where
  "sample_wsys =
     \<lparr>wt = (\<lambda>t. if t = 0 then sample_wtask\<lparr>tstate := TASK_RUNNING, on_queue := Queued_Rq, on_cpu := True\<rparr> else sample_wtask),
      rqs = (\<lambda>_. \<lparr>classes = (\<lambda>_. 0), clocks = sample_rq_clock, nr_switches = 0, nr_uninterruptible = 0, nr_iowait = 0,
        wake_list = [], ttwu_pending = False, idle_stamp = 0, avg_idle = 0, max_idle_balance_cost = 0\<rparr>),
      marks = \<lparr>curr_of = (\<lambda>_. 0), flags_of = (\<lambda>_. 0), online = (\<lambda>_. True), folded = False, notices = []\<rparr>, calls = []\<rparr>"

lemma sample_boot: "boot {0, 1} {0} sample_wsys"
  by (auto simp: boot_def sample_wsys_def sample_wtask_def TASK_RUNNING_def TASK_NEW_def)

lemma sample_new:
  "\<exists>s. wake_up_new_task sample_wenv 0 1 sample_wsys = Some s \<and> queue_moves 1 (calls s) = [True]"
  by (simp add: wake_up_new_task_def check_preempt_curr_def activate_def update_clock_of_def resched_def resched_curr_def
    sample_wenv_def sample_wsys_def sample_wtask_def Let_def)

theorem wakeup_counters_witness:
  "\<exists>s. wake_up_new_task sample_wenv 0 1 sample_wsys = Some s \<and> on_queue (wt s 1) = Queued_Rq"
proof -
  obtain s where s: "wake_up_new_task sample_wenv 0 1 sample_wsys = Some s" "queue_moves 1 (calls s) = [True]"
    using sample_new by blast
  have "wstep sample_wenv {0, 1} {0} sample_wsys s"
    by (rule wstep.fresh [OF _ _ s(1)]) (simp_all add: sample_wsys_def sample_wtask_def)
  then have reach: "(wstep sample_wenv {0, 1} {0})\<^sup>*\<^sup>* sample_wsys s" by blast
  have "replay (on_queue (wt sample_wsys 1) = Queued_Rq) (queue_moves 1 (calls s)) = Some (on_queue (wt s 1) = Queued_Rq)"
    using wakeup_counters [OF reach sample_boot, of 1] by (simp add: sample_wenv_def)
  with s show ?thesis by (auto simp: sample_wsys_def sample_wtask_def)
qed

end
