(* ===== verification/Sched_Affinity.thy ===== *)
theory Sched_Affinity
  imports Prelude
begin

text \<open>
  Changing the CPU affinity of a task, \<open>core.c\<close>: \<open>set_cpus_allowed_ptr\<close> by any number of callers at once, against a
  task that runs, sleeps, wakes up, is balanced and disables its migration. A caller that has to wait
  installs a request that lives in its own stack frame; later callers share it, a CPU stopper or
  \<open>migrate_enable\<close> completes it. The sections that hold the lock of the task are one step each;
  the completion that follows such a section concerns a request that nobody can find any more and is
  part of the step. The target task is the only one; callers are numbers, and so are their requests.
\<close>

section \<open>State\<close>

text \<open>A pointer to a mask: to the mask of the task itself, or to another one.\<close>

datatype mask_ptr = Own_Mask | Other_Mask "nat set"

datatype sca_flags = Sca_None | Sca_Check | Sca_Migrate_Disable | Sca_Migrate_Enable

record set_affinity_pending =
  pend_refs :: int
  stop_pending :: bool
  completed :: bool

text \<open>
  A caller is not in the function, waits for the completion of a request, waits until its own request is
  released by the others, or is back with a result.
\<close>

datatype caller = Outside | Waiting nat | Draining | Back int

datatype stop_work = Migration_Work nat nat | Push_Work nat

datatype aff_call = Dequeue_Save | Put_Prev | Set_Allowed | Enqueue_Restore | Set_Next

record aff_state =
  cpus_mask :: "nat set"
  nr_cpus_allowed :: nat
  cpus_ptr :: mask_ptr
  migration_disabled :: nat
  cur_cpu :: nat
  wakeup_cpu :: nat
  queued :: bool
  running :: bool
  waking :: bool
  push_flag :: bool
  push_busy :: "nat \<Rightarrow> bool"
  nr_pinned :: "nat \<Rightarrow> int"
  migration_pending :: "nat option"
  pendings :: "nat \<Rightarrow> set_affinity_pending"
  works :: "stop_work list"
  callers :: "nat \<Rightarrow> caller"
  warned :: bool
  aff_calls :: "aff_call list"

text \<open>
  The rest of the system: the flags of the task, the CPUs, the choice \<open>cpumask_any_distribute\<close> of an element of a
  mask (\<open>nr_cpu_ids\<close> or more for the empty one), and the answer of \<open>find_lock_rq\<close> of the class.
\<close>

record aff_env =
  kthread :: bool
  per_cpu_kthread :: bool
  no_setaffinity :: bool
  active_mask :: "nat set"
  online_mask :: "nat set"
  balance_push :: "nat \<Rightarrow> bool"
  any_distribute :: "nat set \<Rightarrow> nat"
  nr_cpu_ids :: nat
  find_lock_rq :: "aff_state \<Rightarrow> nat option"

definition EINVAL :: int where "EINVAL = 22"
definition EBUSY :: int where "EBUSY = 16"

definition deref :: "aff_state \<Rightarrow> mask_ptr \<Rightarrow> nat set" where
  "deref s q = (case q of Own_Mask \<Rightarrow> cpus_mask s | Other_Mask m \<Rightarrow> m)"

definition allowed :: "aff_state \<Rightarrow> nat set" where
  "allowed s = deref s (cpus_ptr s)"

definition is_migration_disabled :: "aff_state \<Rightarrow> bool" where
  "is_migration_disabled s \<longleftrightarrow> migration_disabled s \<noteq> 0"

definition is_cpu_allowed :: "aff_env \<Rightarrow> nat \<Rightarrow> aff_state \<Rightarrow> bool" where
  "is_cpu_allowed env c s =
     (if c \<notin> allowed s then False
      else if is_migration_disabled s then c \<in> online_mask env
      else if \<not> kthread env then c \<in> active_mask env
      else if per_cpu_kthread env then c \<in> online_mask env
      else if balance_push env c then False
      else c \<in> online_mask env)"

abbreviation upd_pending :: "nat \<Rightarrow> (set_affinity_pending \<Rightarrow> set_affinity_pending) \<Rightarrow> aff_state \<Rightarrow> aff_state" where
  "upd_pending i f s \<equiv> s\<lparr>pendings := (pendings s)(i := f (pendings s i))\<rparr>"

abbreviation set_caller :: "nat \<Rightarrow> caller \<Rightarrow> aff_state \<Rightarrow> aff_state" where
  "set_caller k x s \<equiv> s\<lparr>callers := (callers s)(k := x)\<rparr>"

abbreviation warn :: "aff_state \<Rightarrow> aff_state" where
  "warn s \<equiv> s\<lparr>warned := True\<rparr>"

section \<open>Changing the mask\<close>

definition set_cpus_allowed_common :: "mask_ptr \<Rightarrow> sca_flags \<Rightarrow> aff_state \<Rightarrow> aff_state" where
  "set_cpus_allowed_common new flags s =
     (if flags = Sca_Migrate_Enable \<or> flags = Sca_Migrate_Disable then s\<lparr>cpus_ptr := new\<rparr>
      else s\<lparr>cpus_mask := deref s new, nr_cpus_allowed := card (deref s new)\<rparr>)"

definition do_set_cpus_allowed_raw :: "mask_ptr \<Rightarrow> sca_flags \<Rightarrow> aff_state \<Rightarrow> aff_state" where
  "do_set_cpus_allowed_raw new flags s =
     (set_cpus_allowed_common new flags s)
       \<lparr>aff_calls := aff_calls s @ (if queued s then [Dequeue_Save] else []) @ (if running s then [Put_Prev] else []) @
          [Set_Allowed] @ (if queued s then [Enqueue_Restore] else []) @ (if running s then [Set_Next] else [])\<rparr>"

definition do_set_cpus_allowed :: "nat set \<Rightarrow> aff_state \<Rightarrow> aff_state" where
  "do_set_cpus_allowed m s = do_set_cpus_allowed_raw (Other_Mask m) Sca_None s"

definition migrate_disable_switch :: "nat \<Rightarrow> aff_state \<Rightarrow> aff_state" where
  "migrate_disable_switch c s =
     (if migration_disabled s = 0 then s
      else if cpus_ptr s \<noteq> Own_Mask then s
      else do_set_cpus_allowed_raw (Other_Mask {c}) Sca_Migrate_Disable s)"

definition migrate_disable :: "aff_state \<Rightarrow> aff_state" where
  "migrate_disable s =
     (if migration_disabled s \<noteq> 0 then s\<lparr>migration_disabled := migration_disabled s + 1\<rparr>
      else s\<lparr>nr_pinned := (nr_pinned s)(cur_cpu s := nr_pinned s (cur_cpu s) + 1), migration_disabled := 1\<rparr>)"

section \<open>Moving the task\<close>

text \<open>The first part of \<open>affine_move_task\<close>: the task may stay where it is.\<close>

definition affine_stay :: "sca_flags \<Rightarrow> nat \<Rightarrow> aff_state \<Rightarrow> aff_state" where
  "affine_stay flags k s =
     (let push = (flags = Sca_Migrate_Enable \<and> push_flag s \<and> \<not> push_busy s (cur_cpu s));
          s1 = (if push then s\<lparr>push_busy := (push_busy s)(cur_cpu s := True)\<rparr> else s);
          s2 = (case migration_pending s1 of
                  Some i \<Rightarrow> if \<not> stop_pending (pendings s1 i)
                    then upd_pending i (\<lambda>q. q\<lparr>completed := True\<rparr>) (s1\<lparr>migration_pending := None\<rparr>) else s1
                | None \<Rightarrow> s1);
          s3 = (if push then s2\<lparr>works := works s2 @ [Push_Work (cur_cpu s)]\<rparr> else s2)
      in set_caller k (Back 0) s3)"

text \<open>Install a request, or join the one that is there.\<close>

definition affine_install :: "nat \<Rightarrow> aff_state \<Rightarrow> aff_state" where
  "affine_install k s =
     (case migration_pending s of
        None \<Rightarrow> (upd_pending k (\<lambda>q. q\<lparr>pend_refs := 1, completed := False\<rparr>) s)\<lparr>migration_pending := Some k\<rparr>
      | Some i \<Rightarrow> upd_pending i (\<lambda>q. q\<lparr>pend_refs := pend_refs q + 1\<rparr>) s)"

definition affine_move_task :: "aff_env \<Rightarrow> sca_flags \<Rightarrow> nat \<Rightarrow> nat \<Rightarrow> aff_state \<Rightarrow> aff_state" where
  "affine_move_task env flags dest k s =
     (if cur_cpu s \<in> cpus_mask s then affine_stay flags k s
      else let s1 = (if flags \<noteq> Sca_Migrate_Enable then affine_install k s else s)
           in case migration_pending s1 of
                None \<Rightarrow> set_caller k (Back (- EINVAL)) (warn s1)
              | Some i \<Rightarrow>
                  if running s1 \<or> waking s1
                  then let queue = (\<not> stop_pending (pendings s1 i));
                           s2 = upd_pending i (\<lambda>q. q\<lparr>stop_pending := True\<rparr>) s1;
                           s3 = (if flags = Sca_Migrate_Enable then s2\<lparr>push_flag := False\<rparr> else s2);
                           s4 = (if queue then s3\<lparr>works := works s3 @ [Migration_Work (cur_cpu s) i]\<rparr> else s3)
                       in if flags = Sca_Migrate_Enable then set_caller k (Back 0) s4 else set_caller k (Waiting i) s4
                  else let s2 = (if \<not> is_migration_disabled s1
                             then (let t = (if queued s1 then s1\<lparr>cur_cpu := dest, wakeup_cpu := dest\<rparr> else s1)
                                   in if \<not> stop_pending (pendings t i)
                                      then upd_pending i (\<lambda>q. q\<lparr>completed := True\<rparr>) (t\<lparr>migration_pending := None\<rparr>) else t)
                             else s1)
                       in set_caller k (Waiting i) s2)"

text \<open>The end of \<open>affine_move_task\<close>, after \<open>wait_for_completion\<close>.\<close>

definition affine_completed :: "nat \<Rightarrow> aff_state \<Rightarrow> aff_state option" where
  "affine_completed k s =
     (case callers s k of
        Waiting i \<Rightarrow> if completed (pendings s i)
          then Some (set_caller k Draining (upd_pending i (\<lambda>q. q\<lparr>pend_refs := pend_refs q - 1\<rparr>) s)) else None
      | _ \<Rightarrow> None)"

definition affine_return :: "nat \<Rightarrow> aff_state \<Rightarrow> aff_state option" where
  "affine_return k s =
     (if callers s k = Draining \<and> pend_refs (pendings s k) = 0
      then Some (set_caller k (Back 0) (if stop_pending (pendings s k) then warn s else s)) else None)"

text \<open>\<open>self\<close> tells whether the caller is the task itself.\<close>

definition set_cpus_allowed_ptr_raw ::
    "aff_env \<Rightarrow> sca_flags \<Rightarrow> mask_ptr \<Rightarrow> bool \<Rightarrow> nat \<Rightarrow> aff_state \<Rightarrow> aff_state" where
  "set_cpus_allowed_ptr_raw env flags new self k s0 =
     (let s = upd_pending k (\<lambda>_. \<lparr>pend_refs = 0, stop_pending = False, completed = False\<rparr>) s0;
          valid = (if kthread env \<or> is_migration_disabled s then online_mask env else active_mask env);
          m = deref s new
      in if flags = Sca_Check \<and> no_setaffinity env then set_caller k (Back (- EINVAL)) s
         else if flags \<noteq> Sca_Migrate_Enable \<and> cpus_mask s = m then set_caller k (Back 0) s
         else if flags \<noteq> Sca_Migrate_Enable \<and> self \<and> is_migration_disabled s \<and> cur_cpu s \<notin> m
         then set_caller k (Back (- EBUSY)) (warn s)
         else let dest = any_distribute env (valid \<inter> m)
              in if nr_cpu_ids env \<le> dest then set_caller k (Back (- EINVAL)) s
                 else affine_move_task env flags dest k (do_set_cpus_allowed_raw new flags s))"

definition set_cpus_allowed_ptr :: "aff_env \<Rightarrow> nat set \<Rightarrow> bool \<Rightarrow> nat \<Rightarrow> aff_state \<Rightarrow> aff_state" where
  "set_cpus_allowed_ptr env m self k s = set_cpus_allowed_ptr_raw env Sca_None (Other_Mask m) self k s"

text \<open>The task itself calls \<open>migrate_enable\<close>; the number \<open>k\<close> names its call of \<open>__set_cpus_allowed_ptr\<close>.\<close>

definition migrate_enable :: "aff_env \<Rightarrow> nat \<Rightarrow> aff_state \<Rightarrow> aff_state" where
  "migrate_enable env k s =
     (if 1 < migration_disabled s then s\<lparr>migration_disabled := migration_disabled s - 1\<rparr>
      else let s1 = (if cpus_ptr s \<noteq> Own_Mask
                  then set_cpus_allowed_ptr_raw env Sca_Migrate_Enable Own_Mask True k s else s)
           in s1\<lparr>migration_disabled := 0, nr_pinned := (nr_pinned s1)(cur_cpu s1 := nr_pinned s1 (cur_cpu s1) - 1)\<rparr>)"

section \<open>The stoppers\<close>

definition migrate_task_raw :: "aff_env \<Rightarrow> nat \<Rightarrow> aff_state \<Rightarrow> aff_state" where
  "migrate_task_raw env dest s =
     (if \<not> is_cpu_allowed env dest s then s else s\<lparr>cur_cpu := dest, wakeup_cpu := dest\<rparr>)"

text \<open>
  \<open>migration_cpu_stop\<close> on the CPU \<open>c\<close> with the request \<open>i\<close> and the destination \<open>-1\<close>, any CPU. Pending wake-ups of this CPU are
  flushed first.
\<close>

definition flush_wakeups :: "nat \<Rightarrow> aff_state \<Rightarrow> aff_state" where
  "flush_wakeups c s = (if waking s \<and> cur_cpu s = c then s\<lparr>waking := False, queued := True\<rparr> else s)"

definition migration_cpu_stop :: "aff_env \<Rightarrow> nat \<Rightarrow> nat option \<Rightarrow> nat option \<Rightarrow> aff_state \<Rightarrow> aff_state" where
  "migration_cpu_stop env c pending dest0 s0 =
     (let s = flush_wakeups c s0;
          uninstall = (\<lambda>t. case pending of Some i \<Rightarrow> if migration_pending t = Some i then t\<lparr>migration_pending := None\<rparr> else t
                         | None \<Rightarrow> t);
          clear = (\<lambda>t. case pending of Some i \<Rightarrow> upd_pending i (\<lambda>q. q\<lparr>stop_pending := False\<rparr>) t | None \<Rightarrow> t);
          complete = (\<lambda>t. case pending of Some i \<Rightarrow> upd_pending i (\<lambda>q. q\<lparr>completed := True\<rparr>) t | None \<Rightarrow> t)
      in if cur_cpu s = c
         then (if is_migration_disabled s then clear s
               else let s1 = uninstall s
                    in if dest0 = None \<and> cur_cpu s1 \<in> cpus_mask s1 then complete (clear s1)
                       else let dest = (case dest0 of None \<Rightarrow> any_distribute env (cpus_mask s1) | Some d \<Rightarrow> d);
                                s2 = (if queued s1 then migrate_task_raw env dest s1 else s1\<lparr>wakeup_cpu := dest\<rparr>)
                            in complete (clear s2))
         else case pending of
                None \<Rightarrow> s
              | Some i \<Rightarrow>
                  if cur_cpu s \<in> allowed s then complete (clear (uninstall s))
                  else (let s1 = (if stop_pending (pendings s i) then s else warn s)
                        in s1\<lparr>works := works s1 @ [Migration_Work (cur_cpu s1) i]\<rparr>))"

definition push_cpu_stop :: "aff_env \<Rightarrow> nat \<Rightarrow> aff_state \<Rightarrow> aff_state" where
  "push_cpu_stop env c s =
     (let s1 = (if cur_cpu s \<noteq> c then s
                else if is_migration_disabled s then s\<lparr>push_flag := True\<rparr>
                else let t = s\<lparr>push_flag := False\<rparr>
                     in case find_lock_rq env t of None \<Rightarrow> t
                        | Some d \<Rightarrow> if cur_cpu t = c then t\<lparr>cur_cpu := d, wakeup_cpu := d\<rparr> else t)
      in s1\<lparr>push_busy := (push_busy s1)(c := False)\<rparr>)"

end
