(* ===== verification/Sched_Affinity_Main.thy ===== *)
theory Sched_Affinity_Main
  imports Sched_Affinity
begin

text \<open>
  The affinity protocol: the requests in the stack frames of their callers are never used after the caller is
  back, and nobody waits for nothing; and the task ends up where it may run.
\<close>

section \<open>Requests and callers\<close>

fun stop_ids :: "stop_work list \<Rightarrow> nat list" where
  "stop_ids [] = []"
| "stop_ids (Migration_Work c i # ws) = i # stop_ids ws"
| "stop_ids (Push_Work c # ws) = stop_ids ws"

lemma stop_ids_append [simp]: "stop_ids (ws @ vs) = stop_ids ws @ stop_ids vs"
  by (induction ws rule: stop_ids.induct) auto

lemma stop_ids_mem: "i \<in> set (stop_ids ws) \<longleftrightarrow> (\<exists>c. Migration_Work c i \<in> set ws)"
  by (induction ws rule: stop_ids.induct) auto

lemma stop_ids_remove1_push [simp]: "stop_ids (remove1 (Push_Work c) ws) = stop_ids ws"
  by (induction ws rule: stop_ids.induct) auto

lemma stop_ids_remove1:
  assumes "Migration_Work c i \<in> set ws" and "distinct (stop_ids ws)"
  shows "distinct (stop_ids (remove1 (Migration_Work c i) ws))"
    and "set (stop_ids (remove1 (Migration_Work c i) ws)) = set (stop_ids ws) - {i}"
  using assms by (induction ws rule: stop_ids.induct) (auto simp: stop_ids_mem)

definition idle_caller :: "caller \<Rightarrow> bool" where
  "idle_caller x \<longleftrightarrow> x = Outside \<or> (\<exists>r. x = Back r)"

definition waiters :: "(nat \<Rightarrow> caller) \<Rightarrow> nat \<Rightarrow> nat set" where
  "waiters cs i = {k. cs k = Waiting i}"

text \<open>
  A request counts its waiters; it has a stopper exactly while \<open>stop_pending\<close> is set, and then it is the installed
  one; the owner of the installed one waits for it, and a stopper or \<open>migrate_enable\<close> is going to
  complete it (\<open>pin\<close> is: migration disabled, and the task has been switched out since); who waits, waits for a completed request
  or the installed one, whose owner is still in the function.
\<close>

definition frames_ok ::
    "(nat \<Rightarrow> caller) \<Rightarrow> (nat \<Rightarrow> set_affinity_pending) \<Rightarrow> nat option \<Rightarrow> stop_work list \<Rightarrow> bool \<Rightarrow> bool" where
  "frames_ok cs ps mp ws pin \<longleftrightarrow>
     (\<forall>i. finite (waiters cs i) \<and> pend_refs (ps i) = int (card (waiters cs i))) \<and>
     distinct (stop_ids ws) \<and> (\<forall>i. stop_pending (ps i) \<longleftrightarrow> i \<in> set (stop_ids ws)) \<and>
     (\<forall>i. stop_pending (ps i) \<longrightarrow> mp = Some i) \<and>
     (\<forall>i. mp = Some i \<longrightarrow> \<not> completed (ps i) \<and> cs i = Waiting i \<and> (stop_pending (ps i) \<or> pin)) \<and>
     (\<forall>k i. cs k = Waiting i \<longrightarrow> (completed (ps i) \<or> mp = Some i) \<and> (cs i = Waiting i \<or> cs i = Draining))"

lemma framesD:
  assumes "frames_ok cs ps mp ws pin"
  shows "finite (waiters cs i)" "pend_refs (ps i) = int (card (waiters cs i))" "distinct (stop_ids ws)"
    "stop_pending (ps i) \<longleftrightarrow> i \<in> set (stop_ids ws)" "stop_pending (ps i) \<Longrightarrow> mp = Some i"
    "mp = Some i \<Longrightarrow> \<not> completed (ps i)" "mp = Some i \<Longrightarrow> cs i = Waiting i"
    "mp = Some i \<Longrightarrow> \<not> stop_pending (ps i) \<Longrightarrow> pin"
    "cs k = Waiting i \<Longrightarrow> mp \<noteq> Some i \<Longrightarrow> completed (ps i)"
    "cs k = Waiting i \<Longrightarrow> cs i \<noteq> Waiting i \<Longrightarrow> cs i = Draining"
  using assms unfolding frames_ok_def by blast+

lemma framesI:
  assumes "\<And>i. finite (waiters cs i)" and "\<And>i. pend_refs (ps i) = int (card (waiters cs i))" and "distinct (stop_ids ws)"
    and "\<And>i. stop_pending (ps i) \<longleftrightarrow> i \<in> set (stop_ids ws)" and "\<And>i. stop_pending (ps i) \<Longrightarrow> mp = Some i"
    and "\<And>i. mp = Some i \<Longrightarrow> \<not> completed (ps i)" and "\<And>i. mp = Some i \<Longrightarrow> cs i = Waiting i"
    and "\<And>i. mp = Some i \<Longrightarrow> \<not> stop_pending (ps i) \<Longrightarrow> pin"
    and "\<And>k i. cs k = Waiting i \<Longrightarrow> mp \<noteq> Some i \<Longrightarrow> completed (ps i)"
    and "\<And>k i. cs k = Waiting i \<Longrightarrow> cs i \<noteq> Waiting i \<Longrightarrow> cs i = Draining"
  shows "frames_ok cs ps mp ws pin"
  using assms unfolding frames_ok_def by blast

lemma frames_pin:
  assumes "frames_ok cs ps mp ws pin" and "\<And>i. mp = Some i \<Longrightarrow> stop_pending (ps i) \<or> pin'"
  shows "frames_ok cs ps mp ws pin'"
  using assms unfolding frames_ok_def by blast

lemma frames_idle:
  assumes "frames_ok cs ps mp ws pin" and "idle_caller (cs k)"
  shows "mp \<noteq> Some k" "\<not> stop_pending (ps k)" "k \<notin> set (stop_ids ws)" "cs j \<noteq> Waiting k" "waiters cs k = {}"
proof -
  have k: "cs k \<noteq> Waiting i" "cs k \<noteq> Draining" for i using assms(2) by (auto simp: idle_caller_def)
  show mp: "mp \<noteq> Some k" using framesD(7) [OF assms(1)] k by blast
  show st: "\<not> stop_pending (ps k)" using framesD(5) [OF assms(1)] mp by blast
  show "k \<notin> set (stop_ids ws)" using framesD(4) [OF assms(1)] st by blast
  show no: "cs j \<noteq> Waiting k" for j using framesD(10) [OF assms(1)] k by blast
  show "waiters cs k = {}" using no by (simp add: waiters_def)
qed

lemma frames_reset:
  assumes ok: "frames_ok cs ps mp ws pin" and k: "idle_caller (cs k)"
  shows "frames_ok cs (ps(k := \<lparr>pend_refs = 0, stop_pending = False, completed = False\<rparr>)) mp ws pin"
  by (rule framesI) (use frames_idle(1-3,5) [OF assms] frames_idle(4) [OF assms] framesD [OF ok] in \<open>auto split: if_splits\<close>)

text \<open>A caller leaves that waits for nothing and whose request nobody waits for.\<close>

fun is_waiting :: "caller \<Rightarrow> bool" where
  "is_waiting (Waiting i) \<longleftrightarrow> True"
| "is_waiting _ \<longleftrightarrow> False"

lemma frames_leave:
  assumes ok: "frames_ok cs ps mp ws pin" and k: "\<not> is_waiting (cs k)" "waiters cs k = {}" and x: "\<not> is_waiting x"
  shows "frames_ok (cs(k := x)) ps mp ws pin"
proof -
  have w: "waiters (cs(k := x)) i = waiters cs i" for i using k(1) x by (auto simp: waiters_def)
  have no: "cs j \<noteq> Waiting k" for j using k(2) by (auto simp: waiters_def)
  have mp: "mp \<noteq> Some k" using framesD(7) [OF ok] k(1) by fastforce
  show ?thesis
    by (rule framesI) (use w no mp k(1) x framesD [OF ok] in \<open>auto split: if_splits\<close>)
qed

lemma frames_complete:
  assumes ok: "frames_ok cs ps (Some i) ws pin" and st: "\<not> stop_pending (ps i)"
  shows "frames_ok cs (ps(i := (ps i)\<lparr>completed := True\<rparr>)) None ws pin'"
proof -
  have "\<not> stop_pending (ps j)" for j using framesD(5) [OF ok, of j] st by auto
  then show ?thesis by (intro framesI) (use framesD [OF ok] in \<open>auto split: if_splits\<close>)
qed

lemma frames_join:
  assumes ok: "frames_ok cs ps (Some i) ws pin" and k: "idle_caller (cs k)"
  shows "frames_ok (cs(k := Waiting i)) (ps(i := (ps i)\<lparr>pend_refs := pend_refs (ps i) + 1\<rparr>)) (Some i) ws pin"
proof -
  note no = frames_idle(4) [OF ok k]
  have i: "cs i = Waiting i" "k \<noteq> i" "k \<notin> waiters cs i"
    using framesD(7) [OF ok, of i] k by (auto simp: idle_caller_def waiters_def)
  have same: "waiters (cs(k := Waiting i)) i = insert k (waiters cs i)" by (auto simp: waiters_def)
  have other: "waiters (cs(k := Waiting i)) j = waiters cs j" if "j \<noteq> i" for j
    using that k by (auto simp: waiters_def idle_caller_def)
  have fin: "finite (waiters (cs(k := Waiting i)) j)" for j using framesD(1) [OF ok, of j] same other by (cases "j = i") auto
  have refs: "pend_refs ((ps(i := (ps i)\<lparr>pend_refs := pend_refs (ps i) + 1\<rparr>)) j) = int (card (waiters (cs(k := Waiting i)) j))" for j
    using framesD(1,2) [OF ok, of j] i(3) same other [of j] by (cases "j = i") auto
  show ?thesis
  proof (rule framesI)
    fix j assume "stop_pending ((ps(i := (ps i)\<lparr>pend_refs := pend_refs (ps i) + 1\<rparr>)) j)"
    then show "Some i = Some j" using framesD(5) [OF ok, of j] by (auto split: if_splits)
  next
    fix l j assume "(cs(k := Waiting i)) l = Waiting j" and "Some i \<noteq> Some j"
    then show "completed ((ps(i := (ps i)\<lparr>pend_refs := pend_refs (ps i) + 1\<rparr>)) j)"
      using framesD(9) [OF ok, of l j] by (auto split: if_splits)
  next
    fix l j assume "(cs(k := Waiting i)) l = Waiting j" and "(cs(k := Waiting i)) j \<noteq> Waiting j"
    then show "(cs(k := Waiting i)) j = Draining" using framesD(10) [OF ok, of l j] no [of l] i by (auto split: if_splits)
  qed (use fin refs i framesD(3,4) [OF ok] framesD(6,8) [OF ok, of i] in \<open>auto split: if_splits\<close>)
qed

lemma frames_install:
  assumes ok: "frames_ok cs ps None ws pin" and k: "idle_caller (cs k)"
  shows "frames_ok (cs(k := Waiting k)) (ps(k := (ps k)\<lparr>pend_refs := 1, completed := False\<rparr>)) (Some k) ws True"
proof -
  note no = frames_idle(4) [OF ok k]
  have same: "waiters (cs(k := Waiting k)) k = {k}" using no by (auto simp: waiters_def)
  have other: "waiters (cs(k := Waiting k)) j = waiters cs j" if "j \<noteq> k" for j
    using that k by (auto simp: waiters_def idle_caller_def)
  have nostop: "\<not> stop_pending (ps j)" for j using framesD(5) [OF ok, of j] by auto
  have fin: "finite (waiters (cs(k := Waiting k)) j)" for j using framesD(1) [OF ok, of j] same other by (cases "j = k") auto
  have refs: "pend_refs ((ps(k := (ps k)\<lparr>pend_refs := 1, completed := False\<rparr>)) j) = int (card (waiters (cs(k := Waiting k)) j))" for j
    using framesD(2) [OF ok, of j] same other [of j] by (cases "j = k") auto
  show ?thesis
    by (rule framesI) (use fin refs no nostop framesD(3,4,9,10) [OF ok] in \<open>auto split: if_splits\<close>)
qed

lemma frames_stop:
  assumes ok: "frames_ok cs ps (Some i) ws pin" and "\<not> stop_pending (ps i)"
  shows "frames_ok cs (ps(i := (ps i)\<lparr>stop_pending := True\<rparr>)) (Some i) (ws @ [Migration_Work c i]) pin'"
  by (rule framesI) (use framesD [OF ok] assms(2) in \<open>auto split: if_splits\<close>)

lemma frames_push: "frames_ok cs ps mp (ws @ [Push_Work c]) pin = frames_ok cs ps mp ws pin"
  "frames_ok cs ps mp (remove1 (Push_Work c) ws) pin = frames_ok cs ps mp ws pin"
  by (simp_all add: frames_ok_def)

text \<open>A stopper takes its work off the list.\<close>

lemma frames_work:
  assumes ok: "frames_ok cs ps mp ws pin" and w: "Migration_Work c i \<in> set ws"
  shows "mp = Some i" and "stop_pending (ps i)"
    and "frames_ok cs (ps(i := (ps i)\<lparr>stop_pending := False\<rparr>)) mp (remove1 (Migration_Work c i) ws) True"
    and "frames_ok cs ps mp (remove1 (Migration_Work c i) ws @ [Migration_Work d i]) pin"
proof -
  have i: "i \<in> set (stop_ids ws)" using w by (auto simp: stop_ids_mem)
  then show mp: "mp = Some i" and "stop_pending (ps i)" using framesD(4,5) [OF ok, of i] by auto
  note rm = stop_ids_remove1 [OF w framesD(3) [OF ok]]
  show "frames_ok cs (ps(i := (ps i)\<lparr>stop_pending := False\<rparr>)) mp (remove1 (Migration_Work c i) ws) True"
    by (rule framesI) (use framesD [OF ok] rm mp in \<open>auto split: if_splits\<close>)
  show "frames_ok cs ps mp (remove1 (Migration_Work c i) ws @ [Migration_Work d i]) pin"
    by (rule framesI) (use framesD [OF ok] rm i in auto)
qed

lemma frames_released:
  assumes ok: "frames_ok cs ps mp ws pin" and k: "cs k = Waiting i" and c: "completed (ps i)"
  shows "frames_ok (cs(k := Draining)) (ps(i := (ps i)\<lparr>pend_refs := pend_refs (ps i) - 1\<rparr>)) mp ws pin"
proof -
  have same: "waiters (cs(k := Draining)) i = waiters cs i - {k}" by (auto simp: waiters_def)
  have other: "waiters (cs(k := Draining)) j = waiters cs j" if "j \<noteq> i" for j using that k by (auto simp: waiters_def)
  have mem: "k \<in> waiters cs i" using k by (simp add: waiters_def)
  then have pos: "0 < card (waiters cs i)"
    using framesD(1) [OF ok, of i] card_gt_0_iff [of "waiters cs i"] by auto
  have fin: "finite (waiters (cs(k := Draining)) j)" for j using framesD(1) [OF ok, of j] same other by (cases "j = i") auto
  have refs: "pend_refs ((ps(i := (ps i)\<lparr>pend_refs := pend_refs (ps i) - 1\<rparr>)) j) = int (card (waiters (cs(k := Draining)) j))" for j
    using framesD(1,2) [OF ok, of j] same other [of j] mem pos by (cases "j = i") (auto simp: of_nat_diff)
  have mp: "mp \<noteq> Some i" using framesD(6) [OF ok, of i] c by auto
  then have "mp \<noteq> Some k" using framesD(7) [OF ok, of k] k by auto
  then show ?thesis
    by (intro framesI) (use fin refs mp framesD(3-10) [OF ok] in \<open>auto split: if_splits\<close>)
qed

section \<open>The functions\<close>

definition fr :: "aff_state \<Rightarrow> bool \<Rightarrow> bool" where
  "fr s pin \<longleftrightarrow> frames_ok (callers s) (pendings s) (migration_pending s) (works s) pin"

lemma fr_back: "fr s pin \<Longrightarrow> idle_caller (callers s k) \<Longrightarrow> fr (set_caller k (Back r) s) pin"
  unfolding fr_def using frames_idle(5) [of "callers s"]
  by (auto simp: idle_caller_def intro!: frames_leave)

lemma affine_stay_fr:
  assumes ok: "fr s True" and k: "idle_caller (callers s k)"
  shows "fr (affine_stay flags k s) pin"
proof -
  define s1 where "s1 = (if flags = Sca_Migrate_Enable \<and> push_flag s \<and> \<not> push_busy s (cur_cpu s)
    then s\<lparr>push_busy := (push_busy s)(cur_cpu s := True)\<rparr> else s)"
  define s2 where "s2 = (case migration_pending s1 of
      Some i \<Rightarrow> if \<not> stop_pending (pendings s1 i)
        then upd_pending i (\<lambda>q. q\<lparr>completed := True\<rparr>) (s1\<lparr>migration_pending := None\<rparr>) else s1
    | None \<Rightarrow> s1)"
  define s3 where "s3 = (if flags = Sca_Migrate_Enable \<and> push_flag s \<and> \<not> push_busy s (cur_cpu s)
    then s2\<lparr>works := works s2 @ [Push_Work (cur_cpu s)]\<rparr> else s2)"
  have "fr s1 True" using ok by (simp add: s1_def fr_def)
  then have "fr s2 pin"
    unfolding s2_def fr_def
    by (auto split: option.split intro: frames_complete frames_pin)
  then have "fr s3 pin" by (simp add: s3_def fr_def frames_push)
  moreover have "callers s3 = callers s" by (simp add: s3_def s2_def s1_def split: option.split)
  ultimately show ?thesis using fr_back [of s3 pin k 0] k
    unfolding affine_stay_def Let_def s1_def [symmetric] s2_def [symmetric] s3_def [symmetric] by simp
qed

text \<open>Installing or joining and then waiting.\<close>

lemma affine_install_fr:
  assumes ok: "fr s True" and k: "idle_caller (callers s k)"
  shows "\<exists>i. migration_pending (affine_install k s) = Some i \<and> fr (set_caller k (Waiting i) (affine_install k s)) True"
proof (cases "migration_pending s")
  case None
  with frames_install [of "callers s" "pendings s" "works s" True k] ok k show ?thesis
    by (simp add: affine_install_def fr_def)
next
  case (Some i)
  with frames_join [of "callers s" "pendings s" i "works s" True k] ok k show ?thesis
    by (simp add: affine_install_def fr_def)
qed

lemma affine_install_same:
  "callers (affine_install k s) = callers s" "works (affine_install k s) = works s" "running (affine_install k s) = running s"
  "waking (affine_install k s) = waking s" "queued (affine_install k s) = queued s"
  "migration_disabled (affine_install k s) = migration_disabled s" "cpus_ptr (affine_install k s) = cpus_ptr s"
  "cpus_mask (affine_install k s) = cpus_mask s" "cur_cpu (affine_install k s) = cur_cpu s" "warned (affine_install k s) = warned s"
  by (simp_all add: affine_install_def split: option.split)

text \<open>The two ways on: a stopper is asked, or the task is moved and the request completed.\<close>

lemma ask_stopper_fr:
  assumes "fr s True" and "migration_pending s = Some i"
  shows "fr (if \<not> stop_pending (pendings s i)
    then (upd_pending i (\<lambda>q. q\<lparr>stop_pending := True\<rparr>) s)\<lparr>works := works s @ [Migration_Work c i]\<rparr>
    else upd_pending i (\<lambda>q. q\<lparr>stop_pending := True\<rparr>) s) pin"
proof (cases "stop_pending (pendings s i)")
  case True
  then have "upd_pending i (\<lambda>q. q\<lparr>stop_pending := True\<rparr>) s = s" by (simp add: fun_upd_idem)
  with True assms show ?thesis by (auto simp: fr_def intro: frames_pin)
next
  case False
  with assms frames_stop [of "callers s" "pendings s" i "works s" True c] show ?thesis by (simp add: fr_def)
qed

lemma try_complete_fr:
  assumes "fr s True" and "migration_pending s = Some i"
  shows "fr (if \<not> stop_pending (pendings s i)
    then upd_pending i (\<lambda>q. q\<lparr>completed := True\<rparr>) (s\<lparr>migration_pending := None\<rparr>) else s) pin"
  using assms by (auto simp: fr_def intro: frames_complete frames_pin)

lemma fr_cong:
  "fr s pin \<Longrightarrow> callers s' = callers s \<Longrightarrow> pendings s' = pendings s \<Longrightarrow> migration_pending s' = migration_pending s \<Longrightarrow>
   works s' = works s \<Longrightarrow> fr s' pin"
  by (simp add: fr_def)

lemma affine_move_enable_fr:
  assumes ok: "fr s True" and k: "idle_caller (callers s k)" and run: "running s" and away: "cur_cpu s \<notin> cpus_mask s"
  shows "fr (affine_move_task env Sca_Migrate_Enable dest k s) pin"
proof (cases "migration_pending s")
  case None
  then have "fr s pin" using ok by (auto simp: fr_def intro: frames_pin)
  then have "fr (set_caller k (Back (- EINVAL)) s) pin" using k by (rule fr_back)
  then show ?thesis using away None by (auto simp: affine_move_task_def elim: fr_cong)
next
  case (Some i)
  define t where "t = (if \<not> stop_pending (pendings s i)
    then (upd_pending i (\<lambda>q. q\<lparr>stop_pending := True\<rparr>) s)\<lparr>works := works s @ [Migration_Work (cur_cpu s) i]\<rparr>
    else upd_pending i (\<lambda>q. q\<lparr>stop_pending := True\<rparr>) s)"
  have "fr t pin" unfolding t_def by (rule ask_stopper_fr [OF ok Some])
  moreover have "idle_caller (callers t k)" using k by (simp add: t_def)
  ultimately have "fr (set_caller k (Back 0) t) pin" by (rule fr_back)
  then show ?thesis using away Some run
    by (auto simp: affine_move_task_def t_def Let_def elim!: fr_cong)
qed

lemma affine_move_wait_fr:
  assumes ok: "fr s True" and k: "idle_caller (callers s k)" and fl: "flags \<noteq> Sca_Migrate_Enable" and away: "cur_cpu s \<notin> cpus_mask s"
  shows "fr (affine_move_task env flags dest k s) (migration_disabled s \<noteq> 0 \<and> \<not> running s \<and> \<not> waking s)"
proof -
  let ?s1 = "affine_install k s"
  obtain i where i: "migration_pending ?s1 = Some i" and t: "fr (set_caller k (Waiting i) ?s1) True" (is "fr ?t True")
    using affine_install_fr [OF ok k] by blast
  have it: "migration_pending ?t = Some i" using i by simp
  consider (stop) "running s \<or> waking s" | (move) "\<not> running s" "\<not> waking s" "migration_disabled s = 0"
    | (stay) "\<not> running s" "\<not> waking s" "migration_disabled s \<noteq> 0" by blast
  then show ?thesis
  proof cases
    case stop
    then have "affine_move_task env flags dest k s = set_caller k (Waiting i) (if \<not> stop_pending (pendings ?s1 i)
        then (upd_pending i (\<lambda>q. q\<lparr>stop_pending := True\<rparr>) ?s1)\<lparr>works := works ?s1 @ [Migration_Work (cur_cpu s) i]\<rparr>
        else upd_pending i (\<lambda>q. q\<lparr>stop_pending := True\<rparr>) ?s1)"
      using fl away i by (auto simp: affine_move_task_def affine_install_same Let_def)
    then show ?thesis using ask_stopper_fr [OF t it, of "cur_cpu s"] by (auto simp: fr_def split: if_splits)
  next
    case move
    let ?u = "if queued s then ?s1\<lparr>cur_cpu := dest, wakeup_cpu := dest\<rparr> else ?s1"
    have "affine_move_task env flags dest k s = set_caller k (Waiting i) (if \<not> stop_pending (pendings ?u i)
        then upd_pending i (\<lambda>q. q\<lparr>completed := True\<rparr>) (?u\<lparr>migration_pending := None\<rparr>) else ?u)"
      using move fl away i by (simp add: affine_move_task_def affine_install_same is_migration_disabled_def Let_def)
    then show ?thesis using try_complete_fr [OF t it] by (auto simp: fr_def split: if_splits)
  next
    case stay
    then have "affine_move_task env flags dest k s = ?t"
      using fl away i by (simp add: affine_move_task_def affine_install_same is_migration_disabled_def)
    with stay t show ?thesis by simp
  qed
qed

lemma affine_move_fr:
  assumes "fr s True" and "idle_caller (callers s k)" and "flags = Sca_Migrate_Enable \<Longrightarrow> running s"
  shows "fr (affine_move_task env flags dest k s) (migration_disabled s \<noteq> 0 \<and> \<not> running s \<and> \<not> waking s)"
proof (cases "cur_cpu s \<in> cpus_mask s")
  case True
  then show ?thesis using affine_stay_fr [OF assms(1,2)] by (simp add: affine_move_task_def)
next
  case False
  then show ?thesis using assms affine_move_enable_fr affine_move_wait_fr by metis
qed

text \<open>What it does to the task.\<close>

lemma affine_stay_task:
  "cpus_mask (affine_stay flags k s) = cpus_mask s" "cpus_ptr (affine_stay flags k s) = cpus_ptr s"
  "migration_disabled (affine_stay flags k s) = migration_disabled s" "cur_cpu (affine_stay flags k s) = cur_cpu s"
  "queued (affine_stay flags k s) = queued s" "running (affine_stay flags k s) = running s"
  "waking (affine_stay flags k s) = waking s" "warned (affine_stay flags k s) = warned s"
  by (simp_all add: affine_stay_def Let_def split: option.split)

lemma affine_move_task_same:
  "cpus_mask (affine_move_task env flags dest k s) = cpus_mask s" "cpus_ptr (affine_move_task env flags dest k s) = cpus_ptr s"
  "migration_disabled (affine_move_task env flags dest k s) = migration_disabled s"
  "queued (affine_move_task env flags dest k s) = queued s" "running (affine_move_task env flags dest k s) = running s"
  "waking (affine_move_task env flags dest k s) = waking s"
  by (simp_all add: affine_move_task_def affine_stay_task affine_install_same Let_def split: option.split)

lemma affine_move_task_place:
  assumes "flags = Sca_Migrate_Enable \<Longrightarrow> running s"
  shows "cur_cpu (affine_move_task env flags dest k s) \<noteq> cur_cpu s \<Longrightarrow> migration_disabled s = 0 \<and> \<not> running s \<and> \<not> waking s"
    and "cur_cpu s \<notin> cpus_mask s \<Longrightarrow> migration_pending (affine_move_task env flags dest k s) = None \<Longrightarrow>
      queued s \<or> waking s \<or> migration_disabled s \<noteq> 0 \<Longrightarrow>
      cur_cpu (affine_move_task env flags dest k s) = dest \<or> flags = Sca_Migrate_Enable \<and> migration_pending s = None"
    and "warned (affine_move_task env flags dest k s) = warned s \<or>
      flags = Sca_Migrate_Enable \<and> migration_pending s = None \<and> cur_cpu s \<notin> cpus_mask s"
    and "cur_cpu s \<in> cpus_mask s \<Longrightarrow> cur_cpu (affine_move_task env flags dest k s) = cur_cpu s"
  using assms
  by (auto simp: affine_move_task_def affine_stay_task affine_install_same affine_install_def is_migration_disabled_def Let_def
    split: option.splits if_splits)

section \<open>The invariant\<close>

definition pinned :: "aff_state \<Rightarrow> bool" where
  "pinned s \<longleftrightarrow> migration_disabled s \<noteq> 0 \<and> cpus_ptr s \<noteq> Own_Mask"

definition pin_ok :: "aff_state \<Rightarrow> bool" where
  "pin_ok s \<longleftrightarrow>
     (migration_disabled s \<noteq> 0 \<and> \<not> running s \<longrightarrow> cpus_ptr s = Other_Mask {cur_cpu s}) \<and>
     (cpus_ptr s = Own_Mask \<or> migration_disabled s \<noteq> 0 \<and> cpus_ptr s = Other_Mask {cur_cpu s}) \<and>
     (running s \<longrightarrow> queued s) \<and> \<not> (queued s \<and> waking s)"

text \<open>The mask always has an online CPU; only the restricted histories ask for active CPUs alone.\<close>

definition mask_ok :: "bool \<Rightarrow> aff_env \<Rightarrow> aff_state \<Rightarrow> bool" where
  "mask_ok strict env s \<longleftrightarrow>
     online_mask env \<inter> cpus_mask s \<noteq> {} \<and> (\<forall>c \<in> cpus_mask s. c < nr_cpu_ids env) \<and> (strict \<longrightarrow> cpus_mask s \<subseteq> active_mask env)"

text \<open>With no request installed, a task that is queued, or on its way, or cannot be moved, is where it may run.\<close>

definition place_ok :: "aff_state \<Rightarrow> bool" where
  "place_ok s \<longleftrightarrow> \<not> warned s \<and>
     (migration_pending s = None \<and> (queued s \<or> waking s \<or> migration_disabled s \<noteq> 0) \<longrightarrow> cur_cpu s \<in> cpus_mask s)"

definition aff_inv :: "bool \<Rightarrow> aff_env \<Rightarrow> aff_state \<Rightarrow> bool" where
  "aff_inv strict env s \<longleftrightarrow> fr s (pinned s) \<and> pin_ok s \<and> mask_ok strict env s \<and> (strict \<longrightarrow> place_ok s)"

text \<open>
  No CPU goes on- or offline: active CPUs are online, none is being emptied, and the choice of a CPU from a
  mask that is not empty is one of them, and no CPU for an empty one; the class looks for a CPU in the mask of the task.
\<close>

definition env_ok :: "aff_env \<Rightarrow> bool" where
  "env_ok env \<longleftrightarrow>
     active_mask env \<subseteq> online_mask env \<and> (\<forall>c\<in>online_mask env. c < nr_cpu_ids env) \<and> (\<forall>c. \<not> balance_push env c) \<and>
     (\<forall>M. M \<noteq> {} \<and> (\<forall>c\<in>M. c < nr_cpu_ids env) \<longrightarrow> any_distribute env M \<in> M) \<and> nr_cpu_ids env \<le> any_distribute env {} \<and>
     (\<forall>s d. find_lock_rq env s = Some d \<longrightarrow> d \<in> cpus_mask s)"

text \<open>
  With \<open>strict\<close> all requests are for masks of active CPUs, the task itself does not ask to leave its CPU while its migration is
  disabled, and a stopper that finds the task on another CPU does not run while the task has its migration disabled
  there. With \<open>False\<close> there are no such restrictions.
\<close>

inductive aff_step :: "bool \<Rightarrow> aff_env \<Rightarrow> aff_state \<Rightarrow> aff_state \<Rightarrow> bool" for strict env where
  call: "idle_caller (callers s k) \<Longrightarrow> flags = Sca_None \<or> flags = Sca_Check \<Longrightarrow> (\<forall>c \<in> m. c < nr_cpu_ids env) \<Longrightarrow> (self \<Longrightarrow> running s) \<Longrightarrow>
    (strict \<Longrightarrow> m \<subseteq> active_mask env \<and> (self \<longrightarrow> migration_disabled s = 0 \<or> cur_cpu s \<in> m)) \<Longrightarrow>
    aff_step strict env s (set_cpus_allowed_ptr_raw env flags (Other_Mask m) self k s)"
| released: "affine_completed k s = Some s' \<Longrightarrow> aff_step strict env s s'"
| leave: "affine_return k s = Some s' \<Longrightarrow> aff_step strict env s s'"
| disable: "running s \<Longrightarrow> aff_step strict env s (migrate_disable s)"
| enable: "running s \<Longrightarrow> migration_disabled s \<noteq> 0 \<Longrightarrow> idle_caller (callers s k) \<Longrightarrow>
    aff_step strict env s (migrate_enable env k s)"
| switch_in: "queued s \<Longrightarrow> aff_step strict env s (s\<lparr>running := True\<rparr>)"
| switch_out: "running s \<Longrightarrow>
    aff_step strict env s (migrate_disable_switch (cur_cpu s) (s\<lparr>queued := stays, running := False\<rparr>))"
| wake: "\<not> queued s \<Longrightarrow> \<not> waking s \<Longrightarrow> c \<in> allowed s \<Longrightarrow>
    aff_step strict env s (s\<lparr>waking := True, cur_cpu := c, wakeup_cpu := c\<rparr>)"
| woken: "aff_step strict env s (flush_wakeups c s)"
| balanced: "queued s \<Longrightarrow> \<not> running s \<Longrightarrow> migration_disabled s = 0 \<Longrightarrow> c \<in> allowed s \<Longrightarrow>
    aff_step strict env s (s\<lparr>cur_cpu := c, wakeup_cpu := c\<rparr>)"
| stopper: "Migration_Work c i \<in> set (works s) \<Longrightarrow> \<not> (running s \<and> cur_cpu s = c) \<Longrightarrow>
    (strict \<Longrightarrow> cur_cpu s = c \<or> migration_disabled s = 0) \<Longrightarrow>
    aff_step strict env s
      (migration_cpu_stop env c (Some i) None (s\<lparr>works := remove1 (Migration_Work c i) (works s)\<rparr>))"
| pusher: "Push_Work c \<in> set (works s) \<Longrightarrow> \<not> (running s \<and> cur_cpu s = c) \<Longrightarrow>
    aff_step strict env s (push_cpu_stop env c (s\<lparr>works := remove1 (Push_Work c) (works s)\<rparr>))"
| exec: "\<not> (running s \<and> cur_cpu s = c) \<Longrightarrow> aff_step strict env s (migration_cpu_stop env c None (Some d) s)"

text \<open>Steps that leave the task alone.\<close>

definition same_task :: "aff_state \<Rightarrow> aff_state \<Rightarrow> bool" where
  "same_task s s' \<longleftrightarrow> cpus_mask s' = cpus_mask s \<and> cpus_ptr s' = cpus_ptr s \<and> migration_disabled s' = migration_disabled s \<and>
     cur_cpu s' = cur_cpu s \<and> queued s' = queued s \<and> running s' = running s \<and> waking s' = waking s \<and> warned s' = warned s"

lemma same_taskD:
  assumes "same_task s s'"
  shows "pinned s' = pinned s" "pin_ok s' = pin_ok s" "mask_ok strict env s' = mask_ok strict env s"
    "migration_pending s' = migration_pending s \<Longrightarrow> place_ok s' = place_ok s"
  using assms by (simp_all add: same_task_def pinned_def pin_ok_def mask_ok_def place_ok_def)

lemma aff_inv_same:
  assumes "aff_inv strict env s" and "same_task s s'" and "migration_pending s' = migration_pending s" and "fr s' (pinned s)"
  shows "aff_inv strict env s'"
  using assms same_taskD [OF assms(2)] by (simp add: aff_inv_def)

lemma pinnedI: "pin_ok s \<Longrightarrow> fr s (migration_disabled s \<noteq> 0 \<and> \<not> running s \<and> \<not> waking s) \<Longrightarrow> fr s (pinned s)"
  by (auto simp: fr_def pin_ok_def pinned_def frames_ok_def)

lemma affine_move_place_ok:
  assumes "flags = Sca_Migrate_Enable \<Longrightarrow> running s" and "\<not> warned s" and "dest \<in> cpus_mask s"
    and "flags = Sca_Migrate_Enable \<Longrightarrow> migration_pending s = None \<Longrightarrow> cur_cpu s \<in> cpus_mask s"
  shows "place_ok (affine_move_task env flags dest k s)"
proof (cases "cur_cpu s \<in> cpus_mask s")
  case True
  then show ?thesis using assms(2) by (simp add: place_ok_def affine_move_task_def affine_stay_task)
next
  case False
  then have some: "flags = Sca_Migrate_Enable \<Longrightarrow> migration_pending s \<noteq> None" using assms(4) by blast
  moreover have "warned (affine_move_task env flags dest k s) = warned s \<or>
      flags = Sca_Migrate_Enable \<and> migration_pending s = None \<and> cur_cpu s \<notin> cpus_mask s"
    by (rule affine_move_task_place(3)) (rule assms(1))
  ultimately have "\<not> warned (affine_move_task env flags dest k s)" using assms(2) by auto
  moreover have "cur_cpu (affine_move_task env flags dest k s) = dest"
    if "migration_pending (affine_move_task env flags dest k s) = None" "queued s \<or> waking s \<or> migration_disabled s \<noteq> 0"
    using affine_move_task_place(2) [OF _ False that] assms(1) some by blast
  ultimately show ?thesis using assms(3) unfolding place_ok_def affine_move_task_same by metis
qed

lemma env_pick: "env_ok env \<Longrightarrow> M \<noteq> {} \<Longrightarrow> \<forall>c\<in>M. c < nr_cpu_ids env \<Longrightarrow> any_distribute env M \<in> M"
  by (simp add: env_ok_def)

lemma env_none: "env_ok env \<Longrightarrow> any_distribute env M < nr_cpu_ids env \<Longrightarrow> M \<noteq> {}"
  by (auto simp: env_ok_def)

lemma call_inv:
  assumes inv: "aff_inv strict env s" and env: "env_ok env" and k: "idle_caller (callers s k)"
    and fl: "flags = Sca_None \<or> flags = Sca_Check" and m: "\<forall>c \<in> m. c < nr_cpu_ids env" and self: "self \<Longrightarrow> running s"
    and strict: "strict \<Longrightarrow> m \<subseteq> active_mask env \<and> (self \<longrightarrow> migration_disabled s = 0 \<or> cur_cpu s \<in> m)"
  shows "aff_inv strict env (set_cpus_allowed_ptr_raw env flags (Other_Mask m) self k s)"
proof -
  define s1 where "s1 = upd_pending k (\<lambda>_. \<lparr>pend_refs = 0, stop_pending = False, completed = False\<rparr>) s"
  have fr1: "fr s1 (pinned s)" and k1: "idle_caller (callers s1 k)"
    using inv k frames_reset by (auto simp: aff_inv_def s1_def fr_def)
  have early: "aff_inv strict env (set_caller k (Back r) s1)" for r
    by (rule aff_inv_same [OF inv]) (use fr_back [OF fr1 k1, of r] in \<open>simp_all add: same_task_def s1_def\<close>)
  have busy: "aff_inv strict env (set_caller k (Back r) (warn s1))" if "\<not> strict" for r
    using inv fr_back [OF fr1 k1, of r] that by (simp add: aff_inv_def fr_def pin_ok_def mask_ok_def pinned_def s1_def)
  define valid where "valid = (if kthread env \<or> is_migration_disabled s1 then online_mask env else active_mask env)"
  define dest where "dest = any_distribute env (valid \<inter> m)"
  have dest: "dest \<in> valid" "dest \<in> m" "online_mask env \<inter> m \<noteq> {}" if "dest < nr_cpu_ids env"
  proof -
    have "valid \<inter> m \<noteq> {}" using env_none [OF env] that unfolding dest_def by blast
    then show "dest \<in> valid" "dest \<in> m" using env_pick [OF env, of "valid \<inter> m"] m by (auto simp: dest_def)
    then show "online_mask env \<inter> m \<noteq> {}" using env by (auto simp: valid_def env_ok_def split: if_splits)
  qed
  define s2 where "s2 = do_set_cpus_allowed_raw (Other_Mask m) flags s1"
  have s2: "cpus_mask s2 = m" "cpus_ptr s2 = cpus_ptr s" "migration_disabled s2 = migration_disabled s" "running s2 = running s"
      "queued s2 = queued s" "waking s2 = waking s" "cur_cpu s2 = cur_cpu s" "warned s2 = warned s"
    using fl by (auto simp: s2_def s1_def do_set_cpus_allowed_raw_def set_cpus_allowed_common_def deref_def)
  have "fr s2 True" using fr1 fl
    by (auto simp: s2_def do_set_cpus_allowed_raw_def set_cpus_allowed_common_def fr_def intro: frames_pin)
  moreover have k2: "idle_caller (callers s2 k)" using k1 fl
    by (auto simp: s2_def do_set_cpus_allowed_raw_def set_cpus_allowed_common_def)
  ultimately have fr3: "fr (affine_move_task env flags dest k s2) (migration_disabled s2 \<noteq> 0 \<and> \<not> running s2 \<and> \<not> waking s2)"
    using fl by (intro affine_move_fr) auto
  let ?s3 = "affine_move_task env flags dest k s2"
  have place: "cur_cpu ?s3 \<noteq> cur_cpu s \<Longrightarrow> migration_disabled s = 0 \<and> \<not> running s"
    using affine_move_task_place(1) [of flags s2 env dest k] fl s2 by auto
  have "pin_ok s" using inv by (simp add: aff_inv_def)
  then have pin: "pin_ok ?s3"
    using place by (cases "cur_cpu ?s3 = cur_cpu s") (auto simp: pin_ok_def affine_move_task_same s2)
  have moved: "aff_inv strict env ?s3" if d: "dest < nr_cpu_ids env"
  proof -
    have "place_ok ?s3" if "place_ok s"
      by (rule affine_move_place_ok) (use that fl s2 dest [OF d] in \<open>auto simp: place_ok_def\<close>)
    moreover have "fr ?s3 (pinned ?s3)"
      by (rule pinnedI [OF pin]) (use fr3 in \<open>simp add: affine_move_task_same\<close>)
    moreover have "mask_ok strict env ?s3" using m dest [OF d] strict s2(1) by (simp add: mask_ok_def affine_move_task_same)
    ultimately show ?thesis using pin inv by (simp add: aff_inv_def)
  qed
  have "set_cpus_allowed_ptr_raw env flags (Other_Mask m) self k s =
      (if flags = Sca_Check \<and> no_setaffinity env then set_caller k (Back (- EINVAL)) s1
       else if cpus_mask s1 = m then set_caller k (Back 0) s1
       else if self \<and> is_migration_disabled s1 \<and> cur_cpu s1 \<notin> m then set_caller k (Back (- EBUSY)) (warn s1)
       else if nr_cpu_ids env \<le> dest then set_caller k (Back (- EINVAL)) s1 else ?s3)"
  proof -
    have "flags \<noteq> Sca_Migrate_Enable" using fl by auto
    moreover have "deref s1 (Other_Mask m) = m" by (simp add: deref_def)
    ultimately show ?thesis
      unfolding set_cpus_allowed_ptr_raw_def s1_def [symmetric] Let_def
      by (simp only: valid_def [symmetric] dest_def [symmetric] s2_def [symmetric]) simp
  qed
  moreover have "\<not> strict" if "self \<and> is_migration_disabled s1 \<and> cur_cpu s1 \<notin> m"
    using that strict by (auto simp: is_migration_disabled_def s1_def)
  ultimately show ?thesis using early busy moved by (simp add: not_le)
qed

lemma enable_inv:
  assumes inv: "aff_inv strict env s" and env: "env_ok env" and k: "idle_caller (callers s k)"
    and run: "running s" and dis: "migration_disabled s \<noteq> 0"
  shows "aff_inv strict env (migrate_enable env k s)"
proof -
  consider (nested) "1 < migration_disabled s" | (own) "migration_disabled s = 1" "cpus_ptr s = Own_Mask"
    | (pinned) "migration_disabled s = 1" "cpus_ptr s \<noteq> Own_Mask" using dis by linarith
  then show ?thesis
  proof cases
    case nested
    let ?s' = "s\<lparr>migration_disabled := migration_disabled s - 1\<rparr>"
    have "fr ?s' (pinned ?s')" using inv nested by (simp add: aff_inv_def fr_def pinned_def)
    moreover have "pin_ok ?s'" "mask_ok strict env ?s'" "place_ok s \<Longrightarrow> place_ok ?s'"
      using inv run nested by (simp_all add: aff_inv_def pin_ok_def mask_ok_def place_ok_def)
    ultimately show ?thesis using inv nested by (simp add: migrate_enable_def aff_inv_def)
  next
    case own
    let ?s' = "s\<lparr>migration_disabled := 0, nr_pinned := (nr_pinned s)(cur_cpu s := nr_pinned s (cur_cpu s) - 1)\<rparr>"
    have "fr s False" using inv own by (simp add: aff_inv_def pinned_def)
    then have "fr ?s' (pinned ?s')" by (simp add: fr_def pinned_def)
    moreover have "pin_ok ?s'" "mask_ok strict env ?s'" "place_ok s \<Longrightarrow> place_ok ?s'"
      using inv run own by (simp_all add: aff_inv_def pin_ok_def mask_ok_def place_ok_def)
    ultimately show ?thesis using inv own by (simp add: migrate_enable_def aff_inv_def)
  next
    case pinned
    define s1 where "s1 = upd_pending k (\<lambda>_. \<lparr>pend_refs = 0, stop_pending = False, completed = False\<rparr>) s"
    define dest where "dest = any_distribute env (online_mask env \<inter> cpus_mask s)"
    define s2 where "s2 = do_set_cpus_allowed_raw Own_Mask Sca_Migrate_Enable s1"
    let ?s3 = "affine_move_task env Sca_Migrate_Enable dest k s2"
    have s2: "cpus_mask s2 = cpus_mask s" "cpus_ptr s2 = Own_Mask" "migration_disabled s2 = 1" "running s2" "waking s2 = waking s"
      "queued s2 = queued s" "cur_cpu s2 = cur_cpu s" "warned s2 = warned s" "migration_pending s2 = migration_pending s"
      using pinned run by (auto simp: s2_def s1_def do_set_cpus_allowed_raw_def set_cpus_allowed_common_def)
    have "fr s1 (pinned s)" and "idle_caller (callers s1 k)"
      using inv k frames_reset by (auto simp: aff_inv_def s1_def fr_def)
    then have "fr s2 True" and "idle_caller (callers s2 k)"
      by (auto simp: s2_def do_set_cpus_allowed_raw_def set_cpus_allowed_common_def fr_def intro: frames_pin)
    then have fr3: "fr ?s3 False" using affine_move_fr [of s2 k Sca_Migrate_Enable env dest] s2 by simp
    have "online_mask env \<inter> cpus_mask s \<noteq> {}" using inv by (simp add: aff_inv_def mask_ok_def)
    moreover have "\<forall>c \<in> online_mask env \<inter> cpus_mask s. c < nr_cpu_ids env" using inv by (auto simp: aff_inv_def mask_ok_def)
    ultimately have pick: "any_distribute env (online_mask env \<inter> cpus_mask s) \<in> online_mask env \<inter> cpus_mask s"
      by (rule env_pick [OF env])
    then have "dest \<in> online_mask env" by (simp add: dest_def)
    then have "dest < nr_cpu_ids env" using env by (simp add: env_ok_def)
    then have "set_cpus_allowed_ptr_raw env Sca_Migrate_Enable Own_Mask True k s = ?s3"
      using pinned unfolding set_cpus_allowed_ptr_raw_def s1_def [symmetric]
      by (simp add: Let_def deref_def is_migration_disabled_def dest_def s2_def s1_def)
    then have eq: "migrate_enable env k s =
        ?s3\<lparr>migration_disabled := 0, nr_pinned := (nr_pinned ?s3)(cur_cpu ?s3 := nr_pinned ?s3 (cur_cpu ?s3) - 1)\<rparr>"
      using pinned by (simp add: migrate_enable_def Let_def)
    have cur: "cur_cpu ?s3 = cur_cpu s"
      using affine_move_task_place(1) [of Sca_Migrate_Enable s2 env dest k] s2 by auto
    have "place_ok ?s3" if "place_ok s"
      by (rule affine_move_place_ok)
        (use that s2 pinned pick in \<open>auto simp: place_ok_def dest_def\<close>)
    then have "place_ok (migrate_enable env k s)" if "place_ok s" using that by (auto simp: eq place_ok_def)
    moreover have "fr (migrate_enable env k s) (pinned (migrate_enable env k s))"
      using fr3 by (simp add: eq fr_def Sched_Affinity_Main.pinned_def)
    moreover have "pin_ok (migrate_enable env k s)" "mask_ok strict env (migrate_enable env k s)"
      using inv s2 run by (simp_all add: eq aff_inv_def pin_ok_def mask_ok_def affine_move_task_same)
    ultimately show ?thesis using inv by (simp add: aff_inv_def)
  qed
qed

lemma switch_out_inv:
  assumes inv: "aff_inv strict env s" and run: "running s"
  shows "aff_inv strict env (migrate_disable_switch (cur_cpu s) (s\<lparr>queued := stays, running := False\<rparr>))" (is "aff_inv _ _ ?s")
proof -
  have same: "callers ?s = callers s" "pendings ?s = pendings s" "migration_pending ?s = migration_pending s" "works ?s = works s"
    "cpus_mask ?s = cpus_mask s" "migration_disabled ?s = migration_disabled s" "cur_cpu ?s = cur_cpu s" "queued ?s = stays"
    "running ?s = False" "waking ?s = waking s" "warned ?s = warned s"
    "cpus_ptr ?s = (if migration_disabled s \<noteq> 0 then Other_Mask {cur_cpu s} else Own_Mask)"
    using inv
    by (auto simp: migrate_disable_switch_def do_set_cpus_allowed_raw_def set_cpus_allowed_common_def aff_inv_def pin_ok_def)
  have "fr s (pinned ?s)"
    using inv by (auto simp: aff_inv_def fr_def pinned_def same intro: frames_pin [where pin = "pinned s", unfolded pinned_def])
  then have "fr ?s (pinned ?s)" by (simp add: fr_def same)
  then show ?thesis using inv run by (auto simp: aff_inv_def pin_ok_def mask_ok_def place_ok_def same)
qed

lemma allowed_works [simp]: "allowed (s\<lparr>works := ws\<rparr>) = allowed s"
  by (simp add: allowed_def deref_def split: mask_ptr.split)

lemma flush_inv:
  assumes inv: "aff_inv strict env s"
  shows "aff_inv strict env (flush_wakeups c s)"
proof (cases "waking s \<and> cur_cpu s = c")
  case True
  let ?s = "s\<lparr>waking := False, queued := True\<rparr>"
  have "fr ?s (pinned ?s)" using inv by (simp add: aff_inv_def fr_def pinned_def)
  moreover have "pin_ok ?s" "mask_ok strict env ?s" using inv by (simp_all add: aff_inv_def pin_ok_def mask_ok_def)
  moreover have "place_ok s \<Longrightarrow> place_ok ?s" using True by (simp add: place_ok_def)
  ultimately show ?thesis using inv True by (simp add: flush_wakeups_def aff_inv_def)
qed (use inv in \<open>auto simp: flush_wakeups_def\<close>)

lemma flush_same:
  "callers (flush_wakeups c s) = callers s" "pendings (flush_wakeups c s) = pendings s" "works (flush_wakeups c s) = works s"
  "migration_pending (flush_wakeups c s) = migration_pending s" "cur_cpu (flush_wakeups c s) = cur_cpu s"
  "migration_disabled (flush_wakeups c s) = migration_disabled s" "running (flush_wakeups c s) = running s"
  "waking (flush_wakeups c s) \<Longrightarrow> cur_cpu s \<noteq> c"
  by (auto simp: flush_wakeups_def split: if_splits)

lemma flush_works: "flush_wakeups c (s\<lparr>works := ws\<rparr>) = (flush_wakeups c s)\<lparr>works := ws\<rparr>"
  by (simp add: flush_wakeups_def)

text \<open>The stopper completes its request, wherever it leaves the task.\<close>

definition stop_done :: "nat \<Rightarrow> nat \<Rightarrow> aff_state \<Rightarrow> aff_state" where
  "stop_done c i s = s\<lparr>works := remove1 (Migration_Work c i) (works s), migration_pending := None,
     pendings := (pendings s)(i := (pendings s i)\<lparr>stop_pending := False, completed := True\<rparr>)\<rparr>"

lemma stop_done_inv:
  assumes inv: "aff_inv strict env s" and w: "Migration_Work c i \<in> set (works s)" and mask: "cpus_mask t = cpus_mask s"
    and pin: "pin_ok t" and place: "strict \<Longrightarrow> place_ok s \<Longrightarrow> place_ok (t\<lparr>migration_pending := None\<rparr>)"
    and same: "callers t = callers s" "pendings t = pendings s" "works t = works s"
  shows "aff_inv strict env (stop_done c i t)"
proof -
  have ok: "frames_ok (callers s) (pendings s) (migration_pending s) (works s) (pinned s)" using inv by (simp add: aff_inv_def fr_def)
  note fw = frames_work [OF ok w]
  have "frames_ok (callers s) ((pendings s)(i := (pendings s i)\<lparr>stop_pending := False\<rparr>)) (Some i)
      (remove1 (Migration_Work c i) (works s)) True" using fw(1,3) by simp
  from frames_complete [OF this] have "fr (stop_done c i t) (pinned (stop_done c i t))"
    by (simp add: fr_def stop_done_def same)
  moreover have "pin_ok (stop_done c i t)" "mask_ok strict env (stop_done c i t)"
    using pin inv by (simp_all add: stop_done_def pin_ok_def mask_ok_def aff_inv_def mask)
  moreover have "place_ok (stop_done c i t)" if "strict" "place_ok s"
    using place [OF that] by (simp add: stop_done_def place_ok_def)
  ultimately show ?thesis using inv by (simp add: aff_inv_def)
qed

lemma stopper_inv:
  assumes inv0: "aff_inv strict env s0" and env: "env_ok env" and w0: "Migration_Work c i \<in> set (works s0)"
    and off: "\<not> (running s0 \<and> cur_cpu s0 = c)" and strict: "strict \<Longrightarrow> cur_cpu s0 = c \<or> migration_disabled s0 = 0"
  shows "aff_inv strict env (migration_cpu_stop env c (Some i) None (s0\<lparr>works := remove1 (Migration_Work c i) (works s0)\<rparr>))"
proof -
  define s where "s = flush_wakeups c s0"
  have inv: "aff_inv strict env s" unfolding s_def by (rule flush_inv [OF inv0])
  have w: "Migration_Work c i \<in> set (works s)" using w0 by (simp add: s_def flush_same)
  have off: "\<not> (running s \<and> cur_cpu s = c)" and strict: "strict \<Longrightarrow> cur_cpu s = c \<or> migration_disabled s = 0"
    and awake: "cur_cpu s = c \<Longrightarrow> \<not> waking s"
    using off strict flush_same(8) [of c s0] by (auto simp: s_def flush_same)
  have ok: "frames_ok (callers s) (pendings s) (migration_pending s) (works s) (pinned s)" and pin: "pin_ok s"
    using inv by (simp_all add: aff_inv_def fr_def)
  note fw = frames_work [OF ok w]
  let ?w = "remove1 (Migration_Work c i) (works s)"
  have eq: "s0\<lparr>works := remove1 (Migration_Work c i) (works s0)\<rparr> = s0\<lparr>works := ?w\<rparr>" by (simp add: s_def flush_same)
  have fl: "flush_wakeups c (s0\<lparr>works := ?w\<rparr>) = s\<lparr>works := ?w\<rparr>" by (simp add: flush_works s_def)
  consider (disabled) "cur_cpu s = c" "migration_disabled s \<noteq> 0" | (fine) "cur_cpu s = c" "migration_disabled s = 0" "c \<in> cpus_mask s"
    | (move) "cur_cpu s = c" "migration_disabled s = 0" "c \<notin> cpus_mask s"
    | (moved) "cur_cpu s \<noteq> c" "cur_cpu s \<in> allowed s" | (chase) "cur_cpu s \<noteq> c" "cur_cpu s \<notin> allowed s" by blast
  then show ?thesis
  proof cases
    case disabled
    let ?t = "s\<lparr>works := ?w, pendings := (pendings s)(i := (pendings s i)\<lparr>stop_pending := False\<rparr>)\<rparr>"
    have "pinned s" using pin disabled off by (auto simp: pin_ok_def pinned_def)
    then have "fr ?t (pinned s)" using fw(3) by (simp add: fr_def)
    then have "aff_inv strict env ?t" by (intro aff_inv_same [OF inv]) (simp_all add: same_task_def)
    then show ?thesis using disabled by (simp add: eq migration_cpu_stop_def fl is_migration_disabled_def)
  next
    case fine
    have "aff_inv strict env (stop_done c i s)"
      by (rule stop_done_inv [OF inv w]) (use pin fine in \<open>auto simp: place_ok_def\<close>)
    then show ?thesis using fine fw(1)
      by (simp add: eq migration_cpu_stop_def fl is_migration_disabled_def stop_done_def)
  next
    case move
    define d where "d = any_distribute env (cpus_mask s)"
    let ?u = "s\<lparr>works := ?w, migration_pending := None\<rparr>"
    define t where "t = (if \<not> queued s then s\<lparr>wakeup_cpu := d\<rparr>
      else if is_cpu_allowed env d ?u then s\<lparr>cur_cpu := d, wakeup_cpu := d\<rparr> else s)"
    have mask: "cpus_mask s \<noteq> {}" "\<forall>c \<in> cpus_mask s. c < nr_cpu_ids env" "strict \<Longrightarrow> cpus_mask s \<subseteq> active_mask env"
      using inv by (auto simp: aff_inv_def mask_ok_def)
    have d: "d \<in> cpus_mask s" unfolding d_def by (rule env_pick [OF env mask(1,2)])
    have own: "cpus_ptr s = Own_Mask" using pin move by (auto simp: pin_ok_def)
    have allow: "is_cpu_allowed env d ?u" if strict
      using env d mask(3) [OF that] move own by (auto simp: is_cpu_allowed_def is_migration_disabled_def allowed_def deref_def env_ok_def)
    have "aff_inv strict env (stop_done c i t)"
    proof (rule stop_done_inv [OF inv w])
      show "pin_ok t" using pin move own by (auto simp: t_def pin_ok_def)
      show "place_ok (t\<lparr>migration_pending := None\<rparr>)" if "strict" "place_ok s"
        using that(2) d awake move allow [OF that(1)] by (auto simp: t_def place_ok_def)
    qed (simp_all add: t_def)
    moreover have "migration_cpu_stop env c (Some i) None (s0\<lparr>works := ?w\<rparr>) = stop_done c i t"
      using move fw(1)
      by (intro aff_state.equality; cases "queued s";
        simp add: migration_cpu_stop_def fl is_migration_disabled_def stop_done_def migrate_task_raw_def d_def t_def Let_def)
    ultimately show ?thesis by (simp add: eq)
  next
    case moved
    have "aff_inv strict env (stop_done c i s)"
    proof (rule stop_done_inv [OF inv w])
      show "place_ok (s\<lparr>migration_pending := None\<rparr>)" if "strict" "place_ok s"
      proof -
        have "cpus_ptr s = Own_Mask" using strict [OF that(1)] moved pin by (auto simp: pin_ok_def)
        then show ?thesis using moved that(2) by (simp add: place_ok_def allowed_def deref_def)
      qed
    qed (use pin in simp_all)
    then show ?thesis using moved fw(1)
      by (simp add: eq migration_cpu_stop_def fl stop_done_def Let_def)
  next
    case chase
    let ?t = "s\<lparr>works := ?w @ [Migration_Work (cur_cpu s) i]\<rparr>"
    have "fr ?t (pinned s)" using fw(4) by (simp add: fr_def)
    then have "aff_inv strict env ?t" by (intro aff_inv_same [OF inv]) (simp_all add: same_task_def)
    then show ?thesis using chase fw(2)
      by (simp add: eq migration_cpu_stop_def fl Let_def)
  qed
qed

lemma pusher_inv:
  assumes inv: "aff_inv strict env s" and env: "env_ok env" and off: "\<not> (running s \<and> cur_cpu s = c)"
  shows "aff_inv strict env (push_cpu_stop env c (s\<lparr>works := remove1 (Push_Work c) (works s)\<rparr>))"
proof -
  let ?s = "push_cpu_stop env c (s\<lparr>works := remove1 (Push_Work c) (works s)\<rparr>)"
  have pin: "pin_ok s" using inv by (simp add: aff_inv_def)
  have same: "callers ?s = callers s" "pendings ?s = pendings s" "migration_pending ?s = migration_pending s"
    "works ?s = remove1 (Push_Work c) (works s)" "cpus_mask ?s = cpus_mask s" "cpus_ptr ?s = cpus_ptr s"
    "migration_disabled ?s = migration_disabled s" "queued ?s = queued s" "running ?s = running s" "waking ?s = waking s"
    "warned ?s = warned s"
    by (simp_all add: push_cpu_stop_def Let_def split: option.split)
  have cur: "cur_cpu ?s = cur_cpu s \<or> cur_cpu s = c \<and> migration_disabled s = 0 \<and> cur_cpu ?s \<in> cpus_mask s"
  proof -
    let ?u = "s\<lparr>works := remove1 (Push_Work c) (works s), push_flag := False\<rparr>"
    have "d \<in> cpus_mask s" if "find_lock_rq env ?u = Some d" for d
    proof -
      have "d \<in> cpus_mask ?u" using env that unfolding env_ok_def by blast
      then show ?thesis by simp
    qed
    then show ?thesis
      by (cases "find_lock_rq env ?u") (simp_all add: push_cpu_stop_def Let_def is_migration_disabled_def)
  qed
  have "fr ?s (pinned ?s)" using inv by (simp add: aff_inv_def fr_def same frames_push pinned_def)
  moreover have "pin_ok ?s" using pin cur off by (auto simp: pin_ok_def same)
  moreover have "mask_ok strict env ?s" using inv by (simp add: aff_inv_def mask_ok_def same)
  moreover have "place_ok s \<Longrightarrow> place_ok ?s" using cur by (auto simp: place_ok_def same)
  ultimately show ?thesis using inv by (simp add: aff_inv_def)
qed

lemma exec_inv:
  assumes inv0: "aff_inv strict env s0" and off: "\<not> (running s0 \<and> cur_cpu s0 = c)"
  shows "aff_inv strict env (migration_cpu_stop env c None (Some d) s0)"
proof -
  define s where "s = flush_wakeups c s0"
  have inv: "aff_inv strict env s" unfolding s_def by (rule flush_inv [OF inv0])
  have off: "\<not> (running s \<and> cur_cpu s = c)" using off by (simp add: s_def flush_same)
  have pin: "pin_ok s" using inv by (simp add: aff_inv_def)
  have awake: "cur_cpu s = c \<Longrightarrow> \<not> waking s" using flush_same(8) [of c s0] by (auto simp: s_def flush_same)
  consider (none) "cur_cpu s \<noteq> c \<or> is_migration_disabled s"
    | (sleeps) "cur_cpu s = c" "\<not> is_migration_disabled s" "\<not> queued s \<or> \<not> is_cpu_allowed env d s"
    | (move) "cur_cpu s = c" "\<not> is_migration_disabled s" "queued s" "is_cpu_allowed env d s" by blast
  then show ?thesis
  proof cases
    case none
    then have "migration_cpu_stop env c None (Some d) s0 = s" by (auto simp: migration_cpu_stop_def s_def [symmetric] Let_def)
    with inv show ?thesis by simp
  next
    case sleeps
    let ?t = "if queued s then s else s\<lparr>wakeup_cpu := d\<rparr>"
    have "aff_inv strict env ?t"
      by (rule aff_inv_same [OF inv]) (use inv in \<open>simp_all add: same_task_def aff_inv_def fr_def\<close>)
    with sleeps show ?thesis
      by (cases "queued s") (simp_all add: migration_cpu_stop_def s_def [symmetric] migrate_task_raw_def Let_def)
  next
    case move
    let ?t = "s\<lparr>cur_cpu := d, wakeup_cpu := d\<rparr>"
    have own: "cpus_ptr s = Own_Mask" using pin move by (auto simp: pin_ok_def is_migration_disabled_def)
    have "d \<in> cpus_mask s" using move own by (auto simp: is_cpu_allowed_def allowed_def deref_def split: if_splits)
    then have "place_ok s \<Longrightarrow> place_ok ?t" by (simp add: place_ok_def)
    moreover have "fr ?t (pinned ?t)" "mask_ok strict env ?t" using inv by (simp_all add: aff_inv_def fr_def pinned_def mask_ok_def)
    moreover have "pin_ok ?t" using pin own move by (auto simp: pin_ok_def is_migration_disabled_def)
    ultimately have "aff_inv strict env ?t" using inv by (simp add: aff_inv_def)
    with move show ?thesis by (simp add: migration_cpu_stop_def s_def [symmetric] migrate_task_raw_def Let_def)
  qed
qed

lemma released_inv:
  assumes inv: "aff_inv strict env s" and run: "affine_completed k s = Some s'"
  shows "aff_inv strict env s'"
proof -
  obtain i where i: "callers s k = Waiting i" "completed (pendings s i)"
    and s': "s' = set_caller k Draining (upd_pending i (\<lambda>q. q\<lparr>pend_refs := pend_refs q - 1\<rparr>) s)"
    using run by (auto simp: affine_completed_def split: caller.splits if_splits)
  have ok: "frames_ok (callers s) (pendings s) (migration_pending s) (works s) (pinned s)" using inv by (simp add: aff_inv_def fr_def)
  show ?thesis
    by (rule aff_inv_same [OF inv]) (use frames_released [OF ok i] in \<open>simp_all add: s' same_task_def fr_def\<close>)
qed

lemma leave_inv:
  assumes inv: "aff_inv strict env s" and run: "affine_return k s = Some s'"
  shows "aff_inv strict env s'"
proof -
  have k: "callers s k = Draining" "pend_refs (pendings s k) = 0"
    and s': "s' = set_caller k (Back 0) (if stop_pending (pendings s k) then warn s else s)"
    using run by (auto simp: affine_return_def split: if_splits)
  have ok: "frames_ok (callers s) (pendings s) (migration_pending s) (works s) (pinned s)" using inv by (simp add: aff_inv_def fr_def)
  have "waiters (callers s) k = {}" using framesD(1,2) [OF ok, of k] k(2) by simp
  then have "fr (set_caller k (Back 0) s) (pinned s)"
    using frames_leave [OF ok, of k "Back 0"] k(1) by (simp add: fr_def)
  moreover have "\<not> stop_pending (pendings s k)" using framesD(5,7) [OF ok, of k] k(1) by auto
  ultimately show ?thesis
    by (intro aff_inv_same [OF inv]) (simp_all add: s' same_task_def)
qed

lemma aff_step_inv:
  assumes "aff_step strict env s s'" and inv: "aff_inv strict env s" and env: "env_ok env"
  shows "aff_inv strict env s'"
  using assms(1)
proof (cases rule: aff_step.cases)
  case disable
  have "fr (migrate_disable s) (pinned (migrate_disable s))"
    using inv disable by (auto simp: aff_inv_def fr_def pinned_def pin_ok_def migrate_disable_def)
  moreover have "pin_ok (migrate_disable s)" "mask_ok strict env (migrate_disable s)" "place_ok s \<Longrightarrow> place_ok (migrate_disable s)"
    using inv disable by (auto simp: aff_inv_def pin_ok_def mask_ok_def place_ok_def migrate_disable_def)
  ultimately show ?thesis using inv disable by (simp add: aff_inv_def)
next
  case switch_in
  have "fr (s\<lparr>running := True\<rparr>) (pinned (s\<lparr>running := True\<rparr>))" using inv by (simp add: aff_inv_def fr_def pinned_def)
  moreover have "pin_ok (s\<lparr>running := True\<rparr>)" "mask_ok strict env (s\<lparr>running := True\<rparr>)" "place_ok s \<Longrightarrow> place_ok (s\<lparr>running := True\<rparr>)"
    using inv switch_in by (auto simp: aff_inv_def pin_ok_def mask_ok_def place_ok_def)
  ultimately show ?thesis using inv switch_in by (simp add: aff_inv_def)
next
  case (wake c)
  let ?t = "s\<lparr>waking := True, cur_cpu := c, wakeup_cpu := c\<rparr>"
  have pin: "pin_ok s" using inv by (simp add: aff_inv_def)
  then have c: "if migration_disabled s \<noteq> 0 then c = cur_cpu s else cpus_ptr s = Own_Mask \<and> c \<in> cpus_mask s"
    using wake by (auto simp: pin_ok_def allowed_def deref_def)
  have "fr ?t (pinned ?t)" "mask_ok strict env ?t" using inv by (simp_all add: aff_inv_def fr_def pinned_def mask_ok_def)
  moreover have "pin_ok ?t" using pin c wake by (auto simp: pin_ok_def split: if_splits)
  moreover have "place_ok s \<Longrightarrow> place_ok ?t" using c by (auto simp: place_ok_def split: if_splits)
  ultimately show ?thesis using inv wake by (simp add: aff_inv_def)
next
  case (balanced c)
  let ?t = "s\<lparr>cur_cpu := c, wakeup_cpu := c\<rparr>"
  have pin: "pin_ok s" using inv by (simp add: aff_inv_def)
  then have "cpus_ptr s = Own_Mask" using balanced by (auto simp: pin_ok_def)
  then have c: "c \<in> cpus_mask s" using balanced by (simp add: allowed_def deref_def)
  have "fr ?t (pinned ?t)" "mask_ok strict env ?t" using inv by (simp_all add: aff_inv_def fr_def pinned_def mask_ok_def)
  moreover have "pin_ok ?t" using pin balanced \<open>cpus_ptr s = Own_Mask\<close> by (simp add: pin_ok_def)
  moreover have "place_ok s \<Longrightarrow> place_ok ?t" using c by (simp add: place_ok_def)
  ultimately show ?thesis using inv balanced by (simp add: aff_inv_def)
qed (use inv env in \<open>auto intro: call_inv enable_inv switch_out_inv flush_inv stopper_inv pusher_inv exec_inv released_inv leave_inv\<close>)

section \<open>Properties\<close>

definition aff_start :: "aff_env \<Rightarrow> aff_state \<Rightarrow> bool" where
  "aff_start env s \<longleftrightarrow>
     (\<forall>k. callers s k = Outside) \<and> (\<forall>i. pendings s i = \<lparr>pend_refs = 0, stop_pending = False, completed = False\<rparr>) \<and>
     migration_pending s = None \<and> works s = [] \<and> migration_disabled s = 0 \<and> cpus_ptr s = Own_Mask \<and> \<not> warned s \<and>
     \<not> waking s \<and> (running s \<longrightarrow> queued s) \<and> cur_cpu s \<in> cpus_mask s \<and>
     online_mask env \<inter> cpus_mask s \<noteq> {} \<and> (\<forall>c \<in> cpus_mask s. c < nr_cpu_ids env)"

lemma aff_start_inv: "aff_start env s \<Longrightarrow> (strict \<Longrightarrow> cpus_mask s \<subseteq> active_mask env) \<Longrightarrow> aff_inv strict env s"
  by (auto simp: aff_start_def aff_inv_def fr_def frames_ok_def waiters_def pin_ok_def mask_ok_def place_ok_def)

lemma aff_reach_inv:
  assumes "(aff_step strict env)\<^sup>*\<^sup>* s0 s" and "aff_start env s0" and "env_ok env" and "strict \<Longrightarrow> cpus_mask s0 \<subseteq> active_mask env"
  shows "aff_inv strict env s"
  using assms(1)
proof (induction rule: rtranclp_induct)
  case base
  show ?case by (rule aff_start_inv [OF assms(2,4)])
next
  case (step s s')
  then show ?case using aff_step_inv assms(3) by blast
qed

text \<open>
  C4. A request for a change of affinity lives in the stack frame of the caller that made it. In every
  interleaving, for requests with any masks, as long as no CPU goes on- or offline: when a caller is not inside the function, nothing refers to its frame
  any more: its request is
  not installed in the task, no stopper is going to work on it and no other caller waits for it.
  And no caller waits in vain: its request is completed, or it is the installed one and
  a stopper is queued for it or the task is pinned to its CPU and will find it when it enables its migration.
  The counters of every request agree with that: \<open>refs\<close> is the number of callers that wait for it, and
  \<open>stop_pending\<close> is set exactly while a stopper is queued for it, of which there is never more than one.
\<close>

theorem affinity_requests_safe:
  assumes "(aff_step False env)\<^sup>*\<^sup>* s0 s" and "aff_start env s0" and "env_ok env"
  shows "(idle_caller (callers s k) \<longrightarrow>
      migration_pending s \<noteq> Some k \<and> (\<forall>c. Migration_Work c k \<notin> set (works s)) \<and> (\<forall>j. callers s j \<noteq> Waiting k)) \<and>
    (callers s k = Waiting i \<longrightarrow> completed (pendings s i) \<or>
      migration_pending s = Some i \<and>
        ((\<exists>c. Migration_Work c i \<in> set (works s)) \<or> migration_disabled s \<noteq> 0 \<and> cpus_ptr s = Other_Mask {cur_cpu s})) \<and>
    finite {j. callers s j = Waiting i} \<and> pend_refs (pendings s i) = int (card {j. callers s j = Waiting i}) \<and>
    (stop_pending (pendings s i) \<longleftrightarrow> (\<exists>c. Migration_Work c i \<in> set (works s))) \<and> distinct (stop_ids (works s))"
proof -
  have inv: "aff_inv False env s" by (rule aff_reach_inv [OF assms]) simp
  then have ok: "frames_ok (callers s) (pendings s) (migration_pending s) (works s) (pinned s)" by (simp add: aff_inv_def fr_def)
  have "pinned s \<Longrightarrow> migration_disabled s \<noteq> 0 \<and> cpus_ptr s = Other_Mask {cur_cpu s}"
    using inv by (auto simp: pinned_def aff_inv_def pin_ok_def)
  moreover have stop: "stop_pending (pendings s i) \<longleftrightarrow> (\<exists>c. Migration_Work c i \<in> set (works s))"
    using framesD(4) [OF ok, of i] by (simp add: stop_ids_mem)
  ultimately have "callers s k = Waiting i \<longrightarrow> completed (pendings s i) \<or>
      migration_pending s = Some i \<and>
        ((\<exists>c. Migration_Work c i \<in> set (works s)) \<or> migration_disabled s \<noteq> 0 \<and> cpus_ptr s = Other_Mask {cur_cpu s})"
    using framesD(8,9) [OF ok] by blast
  then show ?thesis using frames_idle [OF ok, of k] framesD(1-3) [OF ok] stop by (simp add: stop_ids_mem waiters_def)
qed

definition race_env :: aff_env where
  "race_env =
     \<lparr>kthread = False, per_cpu_kthread = False, no_setaffinity = False, active_mask = {0, 1, 2}, online_mask = {0, 1, 2},
      balance_push = (\<lambda>_. False), any_distribute = (\<lambda>M. if 0 \<in> M then 0 else if 1 \<in> M then 1 else if 2 \<in> M then 2 else 3),
      nr_cpu_ids = 3, find_lock_rq = (\<lambda>_. None)\<rparr>"

lemma race_env_ok: "env_ok race_env"
proof -
  have "c = 0 \<or> c = 1 \<or> c = 2" if "c < 3" for c :: nat using that by linarith
  then show ?thesis unfolding env_ok_def race_env_def by (auto split: if_splits)
qed

text \<open>A task on CPU 0 that runs, and may run anywhere.\<close>

definition race0 :: aff_state where
  "race0 =
     \<lparr>cpus_mask = {0, 1, 2}, nr_cpus_allowed = 3, cpus_ptr = Own_Mask, migration_disabled = 0, cur_cpu = 0, wakeup_cpu = 0,
      queued = True, running = True, waking = False, push_flag = False, push_busy = (\<lambda>_. False), nr_pinned = (\<lambda>_. 0),
      migration_pending = None, pendings = (\<lambda>_. \<lparr>pend_refs = 0, stop_pending = False, completed = False\<rparr>), works = [],
      callers = (\<lambda>_. Outside), warned = False, aff_calls = []\<rparr>"

lemma race0_start: "aff_start race_env race0"
  by (auto simp: aff_start_def race0_def race_env_def)

definition race1 :: aff_state where
  "race1 = set_cpus_allowed_ptr_raw race_env Sca_None (Other_Mask {1}) False 7 race0"

lemma race1_eval:
  "callers race1 = (\<lambda>_. Outside)(7 := Waiting 7)" "works race1 = [Migration_Work 0 7]" "migration_pending race1 = Some 7"
  "cpus_mask race1 = {1}" "cpus_ptr race1 = Own_Mask" "migration_disabled race1 = 0" "cur_cpu race1 = 0" "queued race1" "running race1"
  "\<not> waking race1" "pendings race1 7 = \<lparr>pend_refs = 1, stop_pending = True, completed = False\<rparr>" "\<not> warned race1"
  by (simp_all add: race1_def race0_def race_env_def set_cpus_allowed_ptr_raw_def do_set_cpus_allowed_raw_def
    set_cpus_allowed_common_def affine_move_task_def affine_install_def is_migration_disabled_def deref_def Let_def)

lemma race1_step: "aff_step strict race_env race0 race1"
  unfolding race1_def
  by (rule aff_step.call) (simp_all add: race0_def race_env_def idle_caller_def)

theorem affinity_requests_safe_witness:
  "idle_caller (callers race1 3) \<and> callers race1 7 = Waiting 7 \<and>
    (\<forall>c. Migration_Work c 3 \<notin> set (works race1)) \<and> (\<exists>c. Migration_Work c 7 \<in> set (works race1)) \<and>
    pend_refs (pendings race1 7) = int (card {j. callers race1 j = Waiting 7}) \<and> pend_refs (pendings race1 7) = 1"
proof -
  have reach: "(aff_step False race_env)\<^sup>*\<^sup>* race0 race1" using race1_step by blast
  note safe = affinity_requests_safe [OF reach race0_start race_env_ok]
  have "idle_caller (callers race1 3)" "callers race1 7 = Waiting 7" by (simp_all add: race1_eval idle_caller_def)
  moreover have "pend_refs (pendings race1 7) = 1" by (simp add: race1_eval)
  ultimately show ?thesis using safe [of 3 7] safe [of 7 7] by (auto simp: race1_eval)
qed

text \<open>
  C9. Requests for masks of active CPUs, while no CPU goes on- or offline, when the task itself does not ask to
  leave its CPU while its migration is disabled, and as long as no stopper that comes too late meets the task on another CPU with its migration disabled: none of
  the warnings of the protocol fires, and whenever all callers are back, or no request is installed, which is when the last
  caller was told that the change is done, the task is on a CPU of its mask if it is queued, on
  its way to a queue, or has its migration disabled. What happens outside these limits is shown below:
  \<open>affinity_late_stopper\<close> for the late stopper and \<open>stopper_picks_offline\<close> for a mask with a CPU that is not active.
\<close>

theorem affinity_takes_effect:
  assumes "(aff_step True env)\<^sup>*\<^sup>* s0 s" and "aff_start env s0" and "env_ok env" and "cpus_mask s0 \<subseteq> active_mask env"
  shows "\<not> warned s \<and>
    (((\<forall>k. idle_caller (callers s k)) \<or> migration_pending s = None) \<and> (queued s \<or> waking s \<or> migration_disabled s \<noteq> 0) \<longrightarrow>
      cur_cpu s \<in> cpus_mask s)"
proof -
  have inv: "aff_inv True env s" by (rule aff_reach_inv [OF assms])
  then have ok: "frames_ok (callers s) (pendings s) (migration_pending s) (works s) (pinned s)" by (simp add: aff_inv_def fr_def)
  have "migration_pending s = None" if "\<forall>k. idle_caller (callers s k)"
    using frames_idle(1) [OF ok] that by (cases "migration_pending s") auto
  then show ?thesis using inv by (auto simp: aff_inv_def place_ok_def)
qed

text \<open>Caller 7 asks for CPU 1, the task is preempted, the stopper moves it, and the caller returns.\<close>

definition moved2 :: aff_state where
  "moved2 = migrate_disable_switch (cur_cpu race1) (race1\<lparr>queued := True, running := False\<rparr>)"
definition moved3 :: aff_state where
  "moved3 = migration_cpu_stop race_env 0 (Some 7) None (moved2\<lparr>works := remove1 (Migration_Work 0 7) (works moved2)\<rparr>)"
definition moved4 :: aff_state where
  "moved4 = set_caller 7 Draining (upd_pending 7 (\<lambda>q. q\<lparr>pend_refs := pend_refs q - 1\<rparr>) moved3)"
definition moved5 :: aff_state where "moved5 = set_caller 7 (Back 0) moved4"

lemmas race_simps = set_cpus_allowed_ptr_raw_def do_set_cpus_allowed_raw_def set_cpus_allowed_common_def affine_move_task_def
  affine_install_def is_migration_disabled_def deref_def allowed_def migrate_disable_switch_def flush_wakeups_def
  migrate_disable_def migration_cpu_stop_def migrate_enable_def race_env_def Let_def

lemma moved2_eval:
  "callers moved2 = callers race1" "works moved2 = [Migration_Work 0 7]" "migration_pending moved2 = Some 7" "pendings moved2 = pendings race1"
  "cpus_mask moved2 = {1}" "cpus_ptr moved2 = Own_Mask" "migration_disabled moved2 = 0" "cur_cpu moved2 = 0"
  "queued moved2" "\<not> running moved2" "\<not> waking moved2"
  by (simp_all add: moved2_def race1_eval race_simps)

lemma moved3_eval:
  "callers moved3 = callers race1" "works moved3 = []" "pendings moved3 7 = \<lparr>pend_refs = 1, stop_pending = False, completed = True\<rparr>"
  "cpus_mask moved3 = {1}" "queued moved3"
  by (simp_all add: moved3_def moved2_eval race1_eval race_simps migrate_task_raw_def is_cpu_allowed_def)

lemma moved_reach: "(aff_step True race_env)\<^sup>*\<^sup>* race0 moved5"
proof -
  let ?R = "aff_step True race_env"
  have "?R race0 race1" by (rule race1_step)
  moreover have "?R race1 moved2" unfolding moved2_def by (rule aff_step.switch_out) (simp add: race1_eval)
  moreover have "?R moved2 moved3" unfolding moved3_def by (rule aff_step.stopper) (simp_all add: moved2_eval)
  moreover have "affine_completed 7 moved3 = Some moved4" by (simp add: affine_completed_def moved3_eval race1_eval moved4_def)
  then have "?R moved3 moved4" by (rule aff_step.released)
  moreover have "affine_return 7 moved4 = Some moved5"
    by (simp add: affine_return_def moved5_def moved4_def moved3_eval)
  then have "?R moved4 moved5" by (rule aff_step.leave)
  ultimately show ?thesis by (meson rtranclp.rtrancl_into_rtrancl rtranclp.rtrancl_refl)
qed

theorem affinity_takes_effect_witness:
  "cur_cpu race0 = 0 \<and> callers moved5 7 = Back 0 \<and> queued moved5 \<and> cpus_mask moved5 = {1} \<and> cur_cpu moved5 = 1"
proof -
  have "cpus_mask race0 \<subseteq> active_mask race_env" by (simp add: race0_def race_env_def)
  note effect = affinity_takes_effect [OF moved_reach race0_start race_env_ok this]
  have "callers moved5 7 = Back 0" "queued moved5" "cpus_mask moved5 = {1}" "\<forall>k. idle_caller (callers moved5 k)"
    by (simp_all add: moved5_def moved4_def moved3_eval race1_eval idle_caller_def)
  with effect show ?thesis by (simp add: race0_def)
qed

section \<open>A stopper that comes too late\<close>

text \<open>
  \<open>migration_cpu_stop\<close> accepts a task on another CPU when that is a CPU of \<open>cpus_ptr\<close>. For a task with its migration
  disabled that is always so, whatever its mask is. The history: task on CPU 0, caller 7 asks for CPU 1 and a stopper is
  queued on CPU 0; before it runs the task sleeps, is woken up on CPU 1, disables its migration and is preempted;
  caller 8 asks for CPU 2 and joins the request; the stopper completes it.
\<close>

definition race2 :: aff_state where
  "race2 = migrate_disable_switch (cur_cpu race1) (race1\<lparr>queued := False, running := False\<rparr>)"
definition race3 :: aff_state where "race3 = race2\<lparr>waking := True, cur_cpu := 1, wakeup_cpu := 1\<rparr>"
definition race4 :: aff_state where "race4 = flush_wakeups 1 race3"
definition race5 :: aff_state where "race5 = race4\<lparr>running := True\<rparr>"
definition race6 :: aff_state where "race6 = migrate_disable race5"
definition race7 :: aff_state where
  "race7 = migrate_disable_switch (cur_cpu race6) (race6\<lparr>queued := True, running := False\<rparr>)"
definition race8 :: aff_state where
  "race8 = set_cpus_allowed_ptr_raw race_env Sca_None (Other_Mask {2}) False 8 race7"
definition race9 :: aff_state where
  "race9 = migration_cpu_stop race_env 0 (Some 7) None (race8\<lparr>works := remove1 (Migration_Work 0 7) (works race8)\<rparr>)"
definition race10 :: aff_state where
  "race10 = set_caller 8 Draining (upd_pending 7 (\<lambda>q. q\<lparr>pend_refs := pend_refs q - 1\<rparr>) race9)"
definition race11 :: aff_state where "race11 = set_caller 8 (Back 0) race10"
definition race12 :: aff_state where "race12 = race11\<lparr>running := True\<rparr>"
definition race13 :: aff_state where "race13 = migrate_enable race_env 9 race12"

lemma race7_eval:
  "callers race7 = callers race1" "works race7 = works race1" "migration_pending race7 = Some 7" "pendings race7 = pendings race1"
  "cpus_mask race7 = {1}" "cpus_ptr race7 = Other_Mask {1}" "migration_disabled race7 = 1" "cur_cpu race7 = 1"
  "queued race7" "\<not> running race7" "\<not> waking race7"
  by (simp_all add: race7_def race6_def race5_def race4_def race3_def race2_def race1_eval race_simps)

lemma race1_pendings8: "pendings race1 8 = \<lparr>pend_refs = 0, stop_pending = False, completed = False\<rparr>"
  by (simp add: race1_def race0_def race_simps)

lemma race8_eval:
  "callers race8 = (callers race1)(8 := Waiting 7)" "works race8 = [Migration_Work 0 7]" "migration_pending race8 = Some 7"
  "pendings race8 7 = \<lparr>pend_refs = 2, stop_pending = True, completed = False\<rparr>"
  "pendings race8 8 = \<lparr>pend_refs = 0, stop_pending = False, completed = False\<rparr>"
  "cpus_mask race8 = {2}" "cpus_ptr race8 = Other_Mask {1}" "migration_disabled race8 = 1" "cur_cpu race8 = 1"
  "queued race8" "\<not> running race8" "\<not> waking race8"
  by (simp_all add: race8_def race7_eval race1_eval race_simps)

lemma race9_eval:
  "callers race9 = (callers race1)(8 := Waiting 7)" "works race9 = []" "migration_pending race9 = None"
  "pendings race9 7 = \<lparr>pend_refs = 2, stop_pending = False, completed = True\<rparr>"
  "pendings race9 8 = \<lparr>pend_refs = 0, stop_pending = False, completed = False\<rparr>"
  "cpus_mask race9 = {2}" "cpus_ptr race9 = Other_Mask {1}" "migration_disabled race9 = 1" "cur_cpu race9 = 1"
  "queued race9" "\<not> running race9" "\<not> waking race9"
  by (simp_all add: race9_def race8_eval race_simps)

lemma race13_eval:
  "callers race13 8 = Back 0" "migration_pending race13 = None" "cpus_mask race13 = {2}" "cur_cpu race13 = 1" "running race13"
  "migration_disabled race13 = 0" "works race13 = []" "warned race13"
  by (simp_all add: race13_def race12_def race11_def race10_def race9_eval race_simps)

lemma race_reach: "(aff_step False race_env)\<^sup>*\<^sup>* race0 race13"
proof -
  let ?R = "aff_step False race_env"
  have "?R race0 race1" by (rule race1_step)
  moreover have "?R race1 race2" unfolding race2_def by (rule aff_step.switch_out) (simp add: race1_eval)
  moreover have "?R race2 race3" unfolding race3_def
    by (rule aff_step.wake) (simp_all add: race2_def race1_eval race_simps)
  moreover have "?R race3 race4" unfolding race4_def by (rule aff_step.woken)
  moreover have "?R race4 race5" unfolding race5_def
    by (rule aff_step.switch_in) (simp add: race4_def race3_def race2_def race1_eval race_simps)
  moreover have "?R race5 race6" unfolding race6_def by (rule aff_step.disable) (simp add: race5_def)
  moreover have "?R race6 race7" unfolding race7_def
    by (rule aff_step.switch_out) (simp add: race6_def race5_def migrate_disable_def)
  moreover have "?R race7 race8" unfolding race8_def
    by (rule aff_step.call) (simp_all add: race7_eval race1_eval race_env_def idle_caller_def)
  moreover have "?R race8 race9" unfolding race9_def by (rule aff_step.stopper) (simp_all add: race8_eval)
  moreover have "affine_completed 8 race9 = Some race10" by (simp add: affine_completed_def race9_eval race10_def)
  then have "?R race9 race10" by (rule aff_step.released)
  moreover have "affine_return 8 race10 = Some race11"
    by (simp add: affine_return_def race11_def race10_def race9_eval)
  then have "?R race10 race11" by (rule aff_step.leave)
  moreover have "?R race11 race12" unfolding race12_def
    by (rule aff_step.switch_in) (simp add: race11_def race10_def race9_eval)
  moreover have "?R race12 race13" unfolding race13_def
    by (rule aff_step.enable) (simp_all add: race12_def race11_def race10_def race9_eval race1_eval idle_caller_def)
  ultimately show ?thesis by (meson rtranclp.rtrancl_into_rtrancl rtranclp.rtrancl_refl)
qed

text \<open>
  Without that restriction the guarantee fails: there is a history at whose end caller 8 is back with
  success, nobody waits and no stopper is queued, and the task runs on CPU 1 with its migration enabled and a mask that
  only has CPU 2; on the way \<open>affine_move_task\<close> warned that it found no request.
\<close>

theorem affinity_late_stopper:
  "\<exists>s. (aff_step False race_env)\<^sup>*\<^sup>* race0 s \<and> callers s 8 = Back 0 \<and> migration_pending s = None \<and> works s = [] \<and>
    running s \<and> migration_disabled s = 0 \<and> cur_cpu s \<notin> cpus_mask s \<and> warned s"
  using race_reach race13_eval by (intro exI [of _ race13]) simp

text \<open>
  The stopper also takes the destination from the whole mask, not from its usable part: if the CPU it picks is offline,
  \<open>__migrate_task\<close> leaves the task where it is, and the request is completed all the same.
\<close>

lemma stopper_picks_offline:
  assumes "cur_cpu s = c" "migration_disabled s = 0" "c \<notin> cpus_mask s" "queued s" "\<not> waking s" "migration_pending s = Some i"
    "\<not> kthread env" "any_distribute env (cpus_mask s) \<notin> active_mask env"
  shows "cur_cpu (migration_cpu_stop env c (Some i) None s) = c"
    and "completed (pendings (migration_cpu_stop env c (Some i) None s) i)"
  using assms
  by (simp_all add: migration_cpu_stop_def flush_wakeups_def is_migration_disabled_def migrate_task_raw_def is_cpu_allowed_def Let_def)

end
