(* ===== verification/User_Mem.thy ===== *)
theory User_Mem
  imports Sched_Prio
begin

text \<open>
  The memory of the calling process as the system calls of \<open>core.c\<close> see it. The functions that copy between
  kernel and user space are outside the sources: they are the fields of \<open>uaccess\<close>, and \<open>uaccess_ok\<close> states what
  their comments document. \<open>from_user m a n\<close> reads \<open>n\<close> bytes at address \<open>a\<close>, \<open>None\<close> is a fault;
  \<open>to_user\<close> tells whether it succeeded and may have changed the memory also if not.
\<close>

type_synonym byte = "8 word"

record 'm uaccess =
  from_user :: "'m \<Rightarrow> nat \<Rightarrow> nat \<Rightarrow> byte list option"
  to_user :: "nat \<Rightarrow> byte list \<Rightarrow> 'm \<Rightarrow> bool \<times> 'm"
  struct_from_user :: "'m \<Rightarrow> nat \<Rightarrow> nat \<Rightarrow> nat \<Rightarrow> sched_error + byte list"
  accessible :: "nat \<Rightarrow> nat \<Rightarrow> bool"

definition reads_ok :: "'m uaccess \<Rightarrow> bool" where
  "reads_ok acc \<longleftrightarrow>
     (\<forall>m a n bs. from_user acc m a n = Some bs \<longrightarrow> length bs = n \<and>
        (\<forall>i k. i + k \<le> n \<longrightarrow> from_user acc m (a + i) k = Some (take k (drop i bs))))"

definition writes_ok :: "'m uaccess \<Rightarrow> bool" where
  "writes_ok acc \<longleftrightarrow>
     (\<forall>m a bs m'. to_user acc a bs m = (True, m') \<longrightarrow> from_user acc m' a (length bs) = Some bs)"

text \<open>
  \<open>copy_struct_from_user\<close> for a structure that has \<open>k\<close> bytes in the kernel and \<open>n\<close> in user space: a shorter
  one is filled up with zeros, of a longer one the unknown part has to be zero.
\<close>

definition struct_copy :: "nat \<Rightarrow> byte list \<Rightarrow> sched_error + byte list" where
  "struct_copy k bs =
     (if length bs \<le> k then Inr (bs @ replicate (k - length bs) 0)
      else if list_all (\<lambda>b. b = 0) (drop k bs) then Inr (take k bs) else Inl E2BIG)"

definition uaccess_ok :: "'m uaccess \<Rightarrow> bool" where
  "uaccess_ok acc \<longleftrightarrow> reads_ok acc \<and> writes_ok acc \<and>
     (\<forall>m a k n bs. from_user acc m a n = Some bs \<longrightarrow> struct_from_user acc m a k n = struct_copy k bs)"

lemma read_sub:
  assumes "uaccess_ok acc" and "from_user acc m a n = Some bs" and "i + k \<le> n"
  shows "from_user acc m (a + i) k = Some (take k (drop i bs))"
  using assms by (auto simp: uaccess_ok_def reads_ok_def)

lemma read_written:
  assumes "uaccess_ok acc" and "to_user acc a bs m = (True, m')" and "n = length bs"
  shows "from_user acc m' a n = Some bs"
  using assms by (auto simp: uaccess_ok_def writes_ok_def)

lemma struct_read:
  assumes "uaccess_ok acc" and "from_user acc m a n = Some bs"
  shows "struct_from_user acc m a k n = struct_copy k bs"
  using assms by (auto simp: uaccess_ok_def)

lemma struct_copy_same [simp]: "length bs = k \<Longrightarrow> struct_copy k bs = Inr bs"
  by (simp add: struct_copy_def)

section \<open>Bytes of integers\<close>

definition le_bytes :: "nat \<Rightarrow> int \<Rightarrow> byte list" where
  "le_bytes n x = map (\<lambda>i. word_of_int (x div 256 ^ i)) [0..<n]"

fun le_int :: "byte list \<Rightarrow> int" where
  "le_int [] = 0"
| "le_int (b # bs) = uint b + 256 * le_int bs"

lemma length_le_bytes [simp]: "length (le_bytes n x) = n"
  by (simp add: le_bytes_def)

lemma le_bytes_Suc: "le_bytes (Suc n) x = word_of_int x # le_bytes n (x div 256)"
proof -
  have "x div 256 ^ Suc i = x div 256 div 256 ^ i" for i :: nat
    by (simp add: div_mult2_eq flip: zdiv_zmult2_eq)
  then show ?thesis by (simp add: le_bytes_def upt_conv_Cons map_Suc_upt [symmetric] del: upt_Suc power_Suc)
qed

lemma le_int_bytes: "le_int (le_bytes n x) = x mod 256 ^ n"
proof (induction n arbitrary: x)
  case 0
  then show ?case by (simp add: le_bytes_def)
next
  case (Suc n)
  have "uint (word_of_int x :: byte) = x mod 256" by (simp add: uint_word_of_int)
  then show ?case using Suc by (simp add: le_bytes_Suc zmod_zmult2_eq)
qed

text \<open>The same for a signed 32-bit integer.\<close>

lemma wrap32_le_bytes: "- (2 ^ 31) \<le> x \<Longrightarrow> x < 2 ^ 31 \<Longrightarrow> wrap32 (le_int (le_bytes 4 x)) = x"
  using wrap32_id [of x] by (simp add: le_int_bytes wrap32_def mod_add_left_eq)

section \<open>A memory of bytes\<close>

text \<open>The instance that the examples use: addresses that are mapped hold a byte.\<close>

type_synonym flat_mem = "nat \<Rightarrow> byte option"

definition flat_read :: "flat_mem \<Rightarrow> nat \<Rightarrow> nat \<Rightarrow> byte list option" where
  "flat_read m a n = those (map m [a..<a + n])"

definition flat_write :: "nat \<Rightarrow> byte list \<Rightarrow> flat_mem \<Rightarrow> bool \<times> flat_mem" where
  "flat_write a bs m =
     (if list_all (\<lambda>i. m i \<noteq> None) [a..<a + length bs]
      then (True, \<lambda>i. if a \<le> i \<and> i < a + length bs then Some (bs ! (i - a)) else m i) else (False, m))"

definition flat_access :: "flat_mem uaccess" where
  "flat_access =
     \<lparr>from_user = flat_read, to_user = flat_write,
      struct_from_user = (\<lambda>m a k n. case flat_read m a n of None \<Rightarrow> Inl EFAULT | Some bs \<Rightarrow> struct_copy k bs),
      accessible = (\<lambda>_ _. True)\<rparr>"

lemma those_eq_Some: "those xs = Some ys \<longleftrightarrow> xs = map Some ys"
  by (induction xs arbitrary: ys) (auto split: option.splits simp: Cons_eq_map_conv)

lemma flat_read_sub:
  assumes "flat_read m a n = Some bs"
  shows "length bs = n" and "i + k \<le> n \<Longrightarrow> flat_read m (a + i) k = Some (take k (drop i bs))"
proof -
  have r: "map m [a..<a + n] = map Some bs" using assms by (simp add: flat_read_def those_eq_Some)
  then have "length (map m [a..<a + n]) = length (map Some bs)" by (rule arg_cong)
  then show "length bs = n" by simp
  assume "i + k \<le> n"
  then have "map m [a + i..<a + i + k] = take k (drop i (map m [a..<a + n]))" by (simp add: take_map drop_map)
  then show "flat_read m (a + i) k = Some (take k (drop i bs))"
    by (simp add: flat_read_def those_eq_Some r take_map drop_map)
qed

lemma flat_access_ok: "uaccess_ok flat_access"
proof -
  have "flat_read m' a (length bs) = Some bs" if "flat_write a bs m = (True, m')" for a bs m m'
    using that by (auto simp: flat_write_def flat_read_def those_eq_Some intro!: nth_equalityI split: if_splits)
  then show ?thesis
    by (simp add: uaccess_ok_def reads_ok_def writes_ok_def flat_access_def flat_read_sub)
qed

end
