(* ===== verification/Sched_Syscalls.thy ===== *)
theory Sched_Syscalls
  imports User_Mem Sched_Prio_Main
begin

text \<open>
  The system calls of \<open>core.c\<close> that set and read policies and priorities: they check their arguments, copy
  structures from and to user space, find the task and call what \<open>Sched_Prio\<close> models. The layout of the
  structures is that of a header outside the sources, so it is the parameter \<open>attr_layout\<close>.
\<close>

section \<open>Structures and system\<close>

text \<open>
  \<open>struct sched_attr\<close> as the system calls see it: its size, the flag \<open>SCHED_FLAG_KEEP_POLICY\<close> and the fields
  that \<open>__sched_setscheduler\<close> uses. The deadline parameters are outside the model of the task.
\<close>

record uattr =
  ua_size :: nat
  ua_keep_policy :: bool
  ua_attr :: sched_attr

record attr_layout =
  attr_sizeof :: nat
  size_ver0 :: nat
  size_ver1 :: nat
  page_size :: nat
  size_offset :: nat
  dec_u32 :: "byte list \<Rightarrow> nat"
  enc_u32 :: "nat \<Rightarrow> byte list"
  dec_attr :: "byte list \<Rightarrow> uattr"
  enc_attr :: "uattr \<Rightarrow> byte list"
  param_sizeof :: nat
  dec_param :: "byte list \<Rightarrow> int"
  enc_param :: "int \<Rightarrow> byte list"

record 'm proc_sys =
  umem :: 'm
  ptasks :: "nat \<Rightarrow> task"
  clamp_sys :: uclamp_sys

text \<open>
  The caller and the answers of other subsystems. The policies that the calls name besides \<open>SCHED_NORMAL\<close>
  and \<open>SCHED_FIFO\<close> and the bit \<open>SCHED_RESET_ON_FORK\<close> are constants of a header.
\<close>

record sys_env =
  find_task_by_vpid :: "int \<Rightarrow> nat option"
  current :: nat
  rights :: "nat \<Rightarrow> sched_ctx"
  getscheduler_denied :: "nat \<Rightarrow> int"
  getparam_dl :: "task \<Rightarrow> uattr \<Rightarrow> uattr"
  add_reset_bit :: "int \<Rightarrow> int"
  SCHED_RR :: int
  SCHED_BATCH :: int
  SCHED_IDLE :: int
  SCHED_DEADLINE :: int
  rr_interval :: "(sched_class \<Rightarrow> (nat \<Rightarrow> nat) option)"
  jiffies_to_timespec :: "nat \<Rightarrow> int \<times> int"
  enc_timespec :: "int \<times> int \<Rightarrow> byte list"

definition find_process_by_pid :: "sys_env \<Rightarrow> int \<Rightarrow> nat option" where
  "find_process_by_pid env pid = (if pid \<noteq> 0 then find_task_by_vpid env pid else Some (current env))"

text \<open>What the inner functions leave behind: the task is stored, or the error is returned.\<close>

definition store_result ::
    "nat \<Rightarrow> (uclamp_sys \<times> (sched_error + task)) option \<Rightarrow> 'm proc_sys \<Rightarrow> ((sched_error + int) \<times> 'm proc_sys) option" where
  "store_result t r s =
     (case r of None \<Rightarrow> None
      | Some (c, Inl e) \<Rightarrow> Some (Inl e, s\<lparr>clamp_sys := c\<rparr>)
      | Some (c, Inr p) \<Rightarrow> Some (Inr 0, s\<lparr>clamp_sys := c, ptasks := (ptasks s)(t := p)\<rparr>))"

section \<open>Setting\<close>

definition do_sched_setscheduler ::
    "sched_hdr \<Rightarrow> 'm uaccess \<Rightarrow> attr_layout \<Rightarrow> sys_env \<Rightarrow> int \<Rightarrow> int \<Rightarrow> nat \<Rightarrow> 'm proc_sys
     \<Rightarrow> ((sched_error + int) \<times> 'm proc_sys) option" where
  "do_sched_setscheduler h acc lay env pid pol param s =
     (if param = 0 \<or> pid < 0 then Some (Inl EINVAL, s)
      else case from_user acc (umem s) param (param_sizeof lay) of
             None \<Rightarrow> Some (Inl EFAULT, s)
           | Some bs \<Rightarrow>
               (case find_process_by_pid env pid of
                  None \<Rightarrow> Some (Inl ESRCH, s)
                | Some t \<Rightarrow> store_result t
                    (sched_setscheduler h (rights env t) (clamp_sys s) pol (dec_param lay bs) True (ptasks s t)) s))"

definition sys_sched_setscheduler ::
    "sched_hdr \<Rightarrow> 'm uaccess \<Rightarrow> attr_layout \<Rightarrow> sys_env \<Rightarrow> int \<Rightarrow> int \<Rightarrow> nat \<Rightarrow> 'm proc_sys
     \<Rightarrow> ((sched_error + int) \<times> 'm proc_sys) option" where
  "sys_sched_setscheduler h acc lay env pid pol param s =
     (if pol < 0 then Some (Inl EINVAL, s) else do_sched_setscheduler h acc lay env pid pol param s)"

text \<open>\<open>SETPARAM_POLICY\<close> is -1.\<close>

definition sys_sched_setparam ::
    "sched_hdr \<Rightarrow> 'm uaccess \<Rightarrow> attr_layout \<Rightarrow> sys_env \<Rightarrow> int \<Rightarrow> nat \<Rightarrow> 'm proc_sys
     \<Rightarrow> ((sched_error + int) \<times> 'm proc_sys) option" where
  "sys_sched_setparam h acc lay env pid param s = do_sched_setscheduler h acc lay env pid (- 1) param s"

definition sched_setattr ::
    "sched_hdr \<Rightarrow> sched_ctx \<Rightarrow> uclamp_sys \<Rightarrow> sched_attr \<Rightarrow> task \<Rightarrow> (uclamp_sys \<times> (sched_error + task)) option" where
  "sched_setattr h ctx sys attr p = sched_setscheduler_raw h ctx sys attr True True p"

definition err_size :: "'m uaccess \<Rightarrow> attr_layout \<Rightarrow> nat \<Rightarrow> 'm \<Rightarrow> (sched_error + uattr) \<times> 'm" where
  "err_size acc lay addr m = (Inl E2BIG, snd (to_user acc (addr + size_offset lay) (enc_u32 lay (attr_sizeof lay)) m))"

definition sched_copy_attr :: "sched_hdr \<Rightarrow> 'm uaccess \<Rightarrow> attr_layout \<Rightarrow> nat \<Rightarrow> 'm \<Rightarrow> (sched_error + uattr) \<times> 'm" where
  "sched_copy_attr h acc lay addr m =
     (case from_user acc m (addr + size_offset lay) 4 of
        None \<Rightarrow> (Inl EFAULT, m)
      | Some sb \<Rightarrow>
          (let size = (if dec_u32 lay sb = 0 then size_ver0 lay else dec_u32 lay sb) in
           if size < size_ver0 lay \<or> page_size lay < size then err_size acc lay addr m
           else case struct_from_user acc m addr (attr_sizeof lay) size of
                  Inl e \<Rightarrow> if e = E2BIG then err_size acc lay addr m else (Inl e, m)
                | Inr kb \<Rightarrow>
                    (let a = ua_attr (dec_attr lay kb) in
                     if (flag_min (attr_clamp a) \<or> flag_max (attr_clamp a)) \<and> size < size_ver1 lay then (Inl EINVAL, m)
                     else (Inr ((dec_attr lay kb)\<lparr>ua_attr := a\<lparr>attr_nice :=
                       clamp_int (attr_nice a) (MIN_NICE h) (MAX_NICE h)\<rparr>\<rparr>), m))))"

definition sys_sched_setattr ::
    "sched_hdr \<Rightarrow> 'm uaccess \<Rightarrow> attr_layout \<Rightarrow> sys_env \<Rightarrow> int \<Rightarrow> nat \<Rightarrow> nat \<Rightarrow> 'm proc_sys
     \<Rightarrow> ((sched_error + int) \<times> 'm proc_sys) option" where
  "sys_sched_setattr h acc lay env pid addr flags s =
     (if addr = 0 \<or> pid < 0 \<or> flags \<noteq> 0 then Some (Inl EINVAL, s)
      else case sched_copy_attr h acc lay addr (umem s) of
             (Inl e, m) \<Rightarrow> Some (Inl e, s\<lparr>umem := m\<rparr>)
           | (Inr ua, m) \<Rightarrow>
               (let s1 = s\<lparr>umem := m\<rparr>;
                    attr = (if ua_keep_policy ua then (ua_attr ua)\<lparr>attr_policy := - 1\<rparr> else ua_attr ua)
                in if attr_policy (ua_attr ua) < 0 then Some (Inl EINVAL, s1)
                   else case find_process_by_pid env pid of
                          None \<Rightarrow> Some (Inl ESRCH, s1)
                        | Some t \<Rightarrow> store_result t (sched_setattr h (rights env t) (clamp_sys s1) attr (ptasks s1 t)) s1))"

section \<open>Reading\<close>

definition sys_sched_getscheduler :: "sys_env \<Rightarrow> int \<Rightarrow> 'm proc_sys \<Rightarrow> sched_error + int" where
  "sys_sched_getscheduler env pid s =
     (if pid < 0 then Inl EINVAL
      else case find_process_by_pid env pid of
             None \<Rightarrow> Inl ESRCH
           | Some t \<Rightarrow>
               if getscheduler_denied env t \<noteq> 0 then Inl (Security (getscheduler_denied env t))
               else Inr (if sched_reset_on_fork (ptasks s t) then add_reset_bit env (policy (ptasks s t))
                         else policy (ptasks s t)))"

definition user_write :: "'m uaccess \<Rightarrow> nat \<Rightarrow> byte list \<Rightarrow> 'm proc_sys \<Rightarrow> (sched_error + int) \<times> 'm proc_sys" where
  "user_write acc addr bs s =
     (case to_user acc addr bs (umem s) of (ok, m) \<Rightarrow> (if ok then Inr 0 else Inl EFAULT, s\<lparr>umem := m\<rparr>))"

definition sys_sched_getparam ::
    "sched_hdr \<Rightarrow> 'm uaccess \<Rightarrow> attr_layout \<Rightarrow> sys_env \<Rightarrow> int \<Rightarrow> nat \<Rightarrow> 'm proc_sys \<Rightarrow> (sched_error + int) \<times> 'm proc_sys" where
  "sys_sched_getparam h acc lay env pid param s =
     (if param = 0 \<or> pid < 0 then (Inl EINVAL, s)
      else case find_process_by_pid env pid of
             None \<Rightarrow> (Inl ESRCH, s)
           | Some t \<Rightarrow>
               if getscheduler_denied env t \<noteq> 0 then (Inl (Security (getscheduler_denied env t)), s)
               else user_write acc param
                 (enc_param lay (if rt_policy h (policy (ptasks s t)) then rt_priority (ptasks s t) else 0)) s)"

definition zero_uattr :: uattr where
  "zero_uattr = \<lparr>ua_size = 0, ua_keep_policy = False, ua_attr =
     \<lparr>attr_policy = 0, attr_priority = 0, attr_nice = 0, attr_reset_on_fork = False, attr_keep_params = False,
      attr_sugov = False, attr_unknown = False, attr_clamp = no_clamp\<rparr>\<rparr>"

definition sched_attr_copy_to_user ::
    "'m uaccess \<Rightarrow> attr_layout \<Rightarrow> nat \<Rightarrow> uattr \<Rightarrow> nat \<Rightarrow> 'm proc_sys \<Rightarrow> (sched_error + int) \<times> 'm proc_sys" where
  "sched_attr_copy_to_user acc lay addr kattr usize s =
     (if \<not> accessible acc addr usize then (Inl EFAULT, s)
      else let size = min usize (attr_sizeof lay)
           in user_write acc addr (take size (enc_attr lay (kattr\<lparr>ua_size := size\<rparr>))) s)"

text \<open>What \<open>sched_getattr\<close> fills in for a task.\<close>

definition kernel_attr :: "sched_hdr \<Rightarrow> sys_env \<Rightarrow> task \<Rightarrow> uattr" where
  "kernel_attr h env p =
     (let a = (ua_attr zero_uattr)\<lparr>attr_policy := policy p, attr_reset_on_fork := sched_reset_on_fork p\<rparr>;
          k = (if dl_policy h (policy p) then getparam_dl env p (zero_uattr\<lparr>ua_attr := a\<rparr>)
               else if rt_policy h (policy p) then zero_uattr\<lparr>ua_attr := a\<lparr>attr_priority := rt_priority p\<rparr>\<rparr>
               else zero_uattr\<lparr>ua_attr := a\<lparr>attr_nice := task_nice h p\<rparr>\<rparr>)
      in k\<lparr>ua_attr := (ua_attr k)\<lparr>attr_clamp := (attr_clamp (ua_attr k))
           \<lparr>attr_util_min := int (se_value (uclamp_req p UCLAMP_MIN)),
            attr_util_max := int (se_value (uclamp_req p UCLAMP_MAX))\<rparr>\<rparr>\<rparr>)"

definition sys_sched_getattr ::
    "sched_hdr \<Rightarrow> 'm uaccess \<Rightarrow> attr_layout \<Rightarrow> sys_env \<Rightarrow> int \<Rightarrow> nat \<Rightarrow> nat \<Rightarrow> nat \<Rightarrow> 'm proc_sys
     \<Rightarrow> (sched_error + int) \<times> 'm proc_sys" where
  "sys_sched_getattr h acc lay env pid addr usize flags s =
     (if addr = 0 \<or> pid < 0 \<or> page_size lay < usize \<or> usize < size_ver0 lay \<or> flags \<noteq> 0 then (Inl EINVAL, s)
      else case find_process_by_pid env pid of
             None \<Rightarrow> (Inl ESRCH, s)
           | Some t \<Rightarrow>
               if getscheduler_denied env t \<noteq> 0 then (Inl (Security (getscheduler_denied env t)), s)
               else sched_attr_copy_to_user acc lay addr (kernel_attr h env (ptasks s t)) usize s)"

definition sys_sched_get_priority_max :: "sched_hdr \<Rightarrow> sys_env \<Rightarrow> int \<Rightarrow> sched_error + int" where
  "sys_sched_get_priority_max h env pol =
     (if pol = SCHED_FIFO h \<or> pol = SCHED_RR env then Inr (MAX_USER_RT_PRIO h - 1)
      else if pol = SCHED_DEADLINE env \<or> pol = SCHED_NORMAL h \<or> pol = SCHED_BATCH env \<or> pol = SCHED_IDLE env then Inr 0
      else Inl EINVAL)"

definition sys_sched_get_priority_min :: "sched_hdr \<Rightarrow> sys_env \<Rightarrow> int \<Rightarrow> sched_error + int" where
  "sys_sched_get_priority_min h env pol =
     (if pol = SCHED_FIFO h \<or> pol = SCHED_RR env then Inr 1
      else if pol = SCHED_DEADLINE env \<or> pol = SCHED_NORMAL h \<or> pol = SCHED_BATCH env \<or> pol = SCHED_IDLE env then Inr 0
      else Inl EINVAL)"

definition sched_rr_get_interval :: "sys_env \<Rightarrow> int \<Rightarrow> 'm proc_sys \<Rightarrow> sched_error + int \<times> int" where
  "sched_rr_get_interval env pid s =
     (if pid < 0 then Inl EINVAL
      else case find_process_by_pid env pid of
             None \<Rightarrow> Inl ESRCH
           | Some t \<Rightarrow>
               if getscheduler_denied env t \<noteq> 0 then Inl (Security (getscheduler_denied env t))
               else Inr (jiffies_to_timespec env
                 (case rr_interval env (sched_class (ptasks s t)) of None \<Rightarrow> 0 | Some f \<Rightarrow> f t)))"

definition sys_sched_rr_get_interval ::
    "'m uaccess \<Rightarrow> sys_env \<Rightarrow> int \<Rightarrow> nat \<Rightarrow> 'm proc_sys \<Rightarrow> (sched_error + int) \<times> 'm proc_sys" where
  "sys_sched_rr_get_interval acc env pid interval s =
     (case sched_rr_get_interval env pid s of
        Inl e \<Rightarrow> (Inl e, s)
      | Inr ts \<Rightarrow> user_write acc interval (enc_timespec env ts) s)"

end
