(* ===== verification/Sched_Syscalls_Main.thy ===== *)
theory Sched_Syscalls_Main
  imports Sched_Syscalls
begin

text \<open>
  What a process reads back after it has set the policy of a task, which priorities are accepted, and what the
  changed line of \<open>_sched_setscheduler\<close> makes of \<open>sched_setparam\<close>.
\<close>

section \<open>The headers\<close>

text \<open>The values that fit into the fields of \<open>struct sched_attr\<close>.\<close>

definition int32 :: "int \<Rightarrow> bool" where
  "int32 x \<longleftrightarrow> - (2 ^ 31) \<le> x \<and> x < 2 ^ 31"

definition attr_fits :: "uattr \<Rightarrow> bool" where
  "attr_fits a \<longleftrightarrow> ua_size a < 2 ^ 32 \<and> int32 (attr_policy (ua_attr a)) \<and> int32 (attr_nice (ua_attr a)) \<and>
     0 \<le> attr_priority (ua_attr a) \<and> attr_priority (ua_attr a) < 2 ^ 32 \<and>
     int32 (attr_util_min (attr_clamp (ua_attr a))) \<and> int32 (attr_util_max (attr_clamp (ua_attr a)))"

text \<open>Structures are read as they were written, and the size is where \<open>get_user\<close> looks for it.\<close>

definition layout_ok :: "attr_layout \<Rightarrow> bool" where
  "layout_ok lay \<longleftrightarrow>
     0 < size_ver0 lay \<and> size_ver0 lay \<le> size_ver1 lay \<and> size_ver1 lay \<le> attr_sizeof lay \<and>
     attr_sizeof lay \<le> page_size lay \<and> page_size lay < 2 ^ 32 \<and> size_offset lay + 4 \<le> size_ver0 lay \<and>
     (\<forall>a. attr_fits a \<longrightarrow> length (enc_attr lay a) = attr_sizeof lay \<and> dec_attr lay (enc_attr lay a) = a \<and>
        dec_u32 lay (take 4 (drop (size_offset lay) (enc_attr lay a))) = ua_size a) \<and>
     (\<forall>x. int32 x \<longrightarrow> length (enc_param lay x) = param_sizeof lay \<and> dec_param lay (enc_param lay x) = x)"

lemma layout_attr:
  assumes "layout_ok lay" and "attr_fits a"
  shows "length (enc_attr lay a) = attr_sizeof lay" "dec_attr lay (enc_attr lay a) = a"
    "dec_u32 lay (take 4 (drop (size_offset lay) (enc_attr lay a))) = ua_size a"
  using assms by (simp_all add: layout_ok_def)

section \<open>Copying\<close>

text \<open>A structure that the process has written is copied, its nice value is limited.\<close>

definition limited :: "sched_attr \<Rightarrow> sched_attr" where
  "limited a = a\<lparr>attr_nice := clamp_int (attr_nice a) (- 20) 19\<rparr>"

lemma copy_attr_written:
  assumes h: "hdr_ok h" and acc: "uaccess_ok acc" and lay: "layout_ok lay" and fits: "attr_fits a"
    and size: "ua_size a = attr_sizeof lay" and w: "to_user acc addr (enc_attr lay a) m0 = (True, m)"
  shows "sched_copy_attr h acc lay addr m = (Inr (a\<lparr>ua_attr := limited (ua_attr a)\<rparr>), m)"
proof -
  note l = layout_attr [OF lay fits]
  have r: "from_user acc m addr (attr_sizeof lay) = Some (enc_attr lay a)"
    using read_written [OF acc w] l(1) by simp
  have b: "0 < size_ver0 lay" "size_ver0 lay \<le> attr_sizeof lay" "size_ver1 lay \<le> attr_sizeof lay"
    "attr_sizeof lay \<le> page_size lay" "size_offset lay + 4 \<le> attr_sizeof lay"
    using lay by (auto simp: layout_ok_def)
  have "from_user acc m (addr + size_offset lay) 4 = Some (take 4 (drop (size_offset lay) (enc_attr lay a)))"
    using read_sub [OF acc r b(5)] .
  moreover have "struct_from_user acc m addr (attr_sizeof lay) (attr_sizeof lay) = Inr (enc_attr lay a)"
    using struct_read [OF acc r, of "attr_sizeof lay"] l(1) by simp
  ultimately show ?thesis
    using b h by (simp add: sched_copy_attr_def l size Let_def limited_def header_facts)
qed

section \<open>What a request leaves in the task\<close>

lemma set_load_requests [simp]: "uclamp_req (set_load w iw p) = uclamp_req p"
  by (simp add: set_load_def)

lemma setscheduler_sets:
  assumes "hdr_ok h" and "100 \<le> static_prio p" "static_prio p < 140" and "- 20 \<le> attr_nice attr" "attr_nice attr \<le> 19"
    and "attr_policy attr \<in> {0, 1, 2, 3, 5}" and "\<not> attr_keep_params attr"
  obtains q where "setscheduler h attr keep p = Some q" "policy q = attr_policy attr" "rt_priority q = attr_priority attr"
    "static_prio q = (if fair_policy h (attr_policy attr) then attr_nice attr + 120 else static_prio p)"
    "sched_reset_on_fork q = sched_reset_on_fork p" "uclamp_req q = uclamp_req p"
proof -
  let ?b = "if fair_policy h (attr_policy attr) then p\<lparr>policy := attr_policy attr, static_prio := attr_nice attr + 120\<rparr>
    else p\<lparr>policy := attr_policy attr\<rparr>"
  let ?c = "?b\<lparr>rt_priority := attr_priority attr\<rparr>"
  let ?d = "?c\<lparr>normal_prio := normal_prio_of h ?c\<rparr>"
  obtain w iw where "set_load_weight h True ?d = Some (set_load w iw ?d)"
    by (rule set_load_weight_some [OF assms(1), of ?d]) (use assms(2-5) in auto)
  moreover have "\<not> dl_policy h (attr_policy attr)" "attr_policy attr \<noteq> - 1" "nice_to_prio h (attr_nice attr) = attr_nice attr + 120"
    using assms(1,6) by (auto simp: header_facts)
  ultimately have "setscheduler_params h attr p = Some (set_load w iw ?d)"
    by (cases "fair_policy h (attr_policy attr)") (simp_all add: setscheduler_params_def Let_def)
  then show ?thesis using assms(7) that by (simp add: setscheduler_def Let_def)
qed

definition clamp_value :: "uclamp_id \<Rightarrow> task \<Rightarrow> int" where
  "clamp_value i p = int (se_value (uclamp_req p i))"

lemma setscheduler_uclamp_value:
  shows "flag_min a \<Longrightarrow> 0 \<le> attr_util_min a \<Longrightarrow> attr_util_min a \<le> 1024 \<Longrightarrow>
      clamp_value UCLAMP_MIN (setscheduler_uclamp rtf sys a p) = attr_util_min a"
    and "flag_max a \<Longrightarrow> 0 \<le> attr_util_max a \<Longrightarrow> attr_util_max a \<le> 1024 \<Longrightarrow>
      clamp_value UCLAMP_MAX (setscheduler_uclamp rtf sys a p) = attr_util_max a"
  by (auto simp: setscheduler_uclamp_def clamp_value_def Let_def set_req_def uclamp_se_set_def mod_pos_pos_trivial
      nat_mod_as_int)

lemma setscheduler_uclamp_small:
  assumes "\<And>i. clamp_value i p < 2048"
  shows "clamp_value i (setscheduler_uclamp rtf sys a p) < 2048"
  using assms by (cases i)
    (auto simp: setscheduler_uclamp_def reset_clamp_def clamp_value_def Let_def set_req_def uclamp_se_set_def)

lemma setscheduler_uclamp_reset [simp]: "sched_reset_on_fork (setscheduler_uclamp rtf sys a p) = sched_reset_on_fork p"
  by (simp add: setscheduler_uclamp_def reset_clamp_def set_req_def Let_def)

text \<open>
  A request by a privileged caller for a policy other than \<open>SCHED_DEADLINE\<close> that names a priority of the policy and
  clamps that are in order.
\<close>

definition prio_fits :: "int \<Rightarrow> int \<Rightarrow> bool" where
  "prio_fits pol x \<longleftrightarrow> (if pol = 1 \<or> pol = 2 then 1 \<le> x \<and> x \<le> 99 else x = 0)"

definition clamps_fit :: "uclamp_sys \<Rightarrow> clamp_attr \<Rightarrow> task \<Rightarrow> bool" where
  "clamps_fit sys a p \<longleftrightarrow>
     (flag_min a \<longrightarrow> 0 \<le> attr_util_min a \<and> attr_util_min a \<le> 1024) \<and>
     (flag_max a \<longrightarrow> 0 \<le> attr_util_max a \<and> attr_util_max a \<le> 1024) \<and>
     (flag_min a \<or> flag_max a \<longrightarrow> uclamp_validate sys p a \<noteq> None)"

definition caller_ok :: "sched_ctx \<Rightarrow> bool" where
  "caller_ok ctx \<longleftrightarrow> cap_sys_nice ctx \<and> security ctx = 0 \<and> \<not> is_stop ctx \<and> \<not> rt_group_refuses ctx"

definition task_ok :: "task \<Rightarrow> bool" where
  "task_ok p \<longleftrightarrow> 0 \<le> prio p \<and> 100 \<le> static_prio p \<and> static_prio p < 140 \<and> (\<forall>i. clamp_value i p < 2048)"

definition request_ok :: "uclamp_sys \<Rightarrow> sched_attr \<Rightarrow> task \<Rightarrow> bool" where
  "request_ok sys a p \<longleftrightarrow> attr_policy a \<in> {0, 1, 2, 3, 5} \<and> prio_fits (attr_policy a) (attr_priority a) \<and>
     \<not> attr_unknown a \<and> \<not> attr_sugov a \<and> \<not> attr_keep_params a \<and> clamps_fit sys (attr_clamp a) p"

text \<open>\<open>p'\<close> is as the request wants it.\<close>

definition satisfies :: "sched_hdr \<Rightarrow> sched_attr \<Rightarrow> task \<Rightarrow> task \<Rightarrow> bool" where
  "satisfies h a p p' \<longleftrightarrow> policy p' = attr_policy a \<and> sched_reset_on_fork p' = attr_reset_on_fork a \<and>
     (rt_policy h (attr_policy a) \<longrightarrow> rt_priority p' = attr_priority a) \<and>
     static_prio p' = (if fair_policy h (attr_policy a) then attr_nice a + 120 else static_prio p) \<and>
     (flag_min (attr_clamp a) \<longrightarrow> clamp_value UCLAMP_MIN p' = attr_util_min (attr_clamp a)) \<and>
     (flag_max (attr_clamp a) \<longrightarrow> clamp_value UCLAMP_MAX p' = attr_util_max (attr_clamp a)) \<and>
     (\<forall>i. clamp_value i p' < 2048)"

lemma check_passes:
  assumes "hdr_ok h" and "caller_ok ctx" and "request_ok sys a p"
  shows "setscheduler_check h ctx a user (attr_policy a) reset p = None"
  using assms
  by (auto simp: setscheduler_check_def header_facts caller_ok_def request_ok_def prio_fits_def split: if_splits)

lemma change_satisfies:
  assumes h: "hdr_ok h" and c: "caller_ok ctx" and t: "task_ok p" and r: "request_ok sys a p"
    and n: "- 20 \<le> attr_nice a" "attr_nice a \<le> 19"
  shows "\<exists>p'. setscheduler_change h ctx sys' a user pi (attr_policy a) (attr_reset_on_fork a) p = Some (Inr p') \<and> satisfies h a p p'"
proof -
  let ?p = "p\<lparr>sched_reset_on_fork := attr_reset_on_fork a\<rparr>"
  let ?same = "attr_policy a = policy p \<and> \<not> (fair_policy h (attr_policy a) \<and> attr_nice a \<noteq> task_nice h p) \<and>
    \<not> (rt_policy h (attr_policy a) \<and> attr_priority a \<noteq> rt_priority p) \<and> \<not> (flag_min (attr_clamp a) \<or> flag_max (attr_clamp a))"
  obtain q where q: "setscheduler h a pi ?p = Some q" "policy q = attr_policy a" "rt_priority q = attr_priority a"
    "static_prio q = (if fair_policy h (attr_policy a) then attr_nice a + 120 else static_prio ?p)"
    "sched_reset_on_fork q = attr_reset_on_fork a" "uclamp_req q = uclamp_req ?p"
    by (rule setscheduler_sets [OF h, of ?p a pi]) (use t r n in \<open>auto simp: task_ok_def request_ok_def\<close>)
  have no: "\<not> is_stop ctx" "\<not> rt_group_refuses ctx" "\<not> dl_policy h (attr_policy a)" "\<not> dl_prio h (prio p)"
    using c t r h by (auto simp: request_ok_def caller_ok_def task_ok_def header_facts)
  have eq: "setscheduler_change h ctx sys' a user pi (attr_policy a) (attr_reset_on_fork a) p =
      Some (Inr (if ?same then ?p else setscheduler_uclamp (\<lambda>x. rt_prio h (prio x)) sys' (attr_clamp a) q))"
    using no q(1) by (cases ?same; auto simp: setscheduler_change_def)
  have cv: "clamp_value i q = clamp_value i p" for i using q(6) by (simp add: clamp_value_def)
  have "satisfies h a p ?p" if ?same
    using that t h by (auto simp: satisfies_def task_ok_def clamp_value_def task_nice_def header_facts)
  moreover have "satisfies h a p (setscheduler_uclamp (\<lambda>x. rt_prio h (prio x)) sys' (attr_clamp a) q)"
    using r t q(2-5) setscheduler_uclamp_value [of "attr_clamp a"] setscheduler_uclamp_small [of q] cv
    by (simp add: satisfies_def request_ok_def clamps_fit_def task_ok_def)
  ultimately show ?thesis using eq by auto
qed

lemma setattr_satisfies:
  assumes "hdr_ok h" and "caller_ok ctx" and "task_ok p" and "request_ok sys a p" and "- 20 \<le> attr_nice a" "attr_nice a \<le> 19"
  shows "\<exists>sys' p'. sched_setattr h ctx sys a p = Some (sys', Inr p') \<and> satisfies h a p p'"
proof -
  have pos: "\<not> attr_policy a < 0" using assms(4) by (auto simp: request_ok_def)
  have "\<exists>sys'. (if flag_min (attr_clamp a) \<or> flag_max (attr_clamp a) then uclamp_validate sys p (attr_clamp a) else Some sys) = Some sys'"
    using assms(4) by (auto simp: request_ok_def clamps_fit_def)
  then obtain sys' where "(if flag_min (attr_clamp a) \<or> flag_max (attr_clamp a) then uclamp_validate sys p (attr_clamp a) else Some sys) = Some sys'" ..
  then show ?thesis
    using change_satisfies [OF assms, of sys' True True] check_passes [OF assms(1,2,4), of True "attr_reset_on_fork a"] pos
    by (auto simp: sched_setattr_def sched_setscheduler_raw_def Let_def)
qed

section \<open>Setting and reading\<close>

text \<open>What is read back: the nice value of a real-time task is not reported, that of an idle one is not set.\<close>

definition read_back :: "sched_hdr \<Rightarrow> sched_attr \<Rightarrow> sched_attr \<Rightarrow> bool" where
  "read_back h a k \<longleftrightarrow> attr_policy k = attr_policy a \<and> attr_priority k = attr_priority a \<and>
     attr_reset_on_fork k = attr_reset_on_fork a \<and>
     (fair_policy h (attr_policy a) \<longrightarrow> attr_nice k = clamp_int (attr_nice a) (- 20) 19) \<and>
     (rt_policy h (attr_policy a) \<longrightarrow> attr_nice k = 0) \<and>
     (flag_min (attr_clamp a) \<longrightarrow> attr_util_min (attr_clamp k) = attr_util_min (attr_clamp a)) \<and>
     (flag_max (attr_clamp a) \<longrightarrow> attr_util_max (attr_clamp k) = attr_util_max (attr_clamp a))"

lemma kernel_attr_eq:
  assumes "\<not> dl_policy h (policy p)"
  shows "kernel_attr h env p = \<lparr>ua_size = 0, ua_keep_policy = False, ua_attr =
    \<lparr>attr_policy = policy p, attr_priority = (if rt_policy h (policy p) then rt_priority p else 0),
     attr_nice = (if rt_policy h (policy p) then 0 else task_nice h p), attr_reset_on_fork = sched_reset_on_fork p,
     attr_keep_params = False, attr_sugov = False, attr_unknown = False,
     attr_clamp = \<lparr>flag_min = False, flag_max = False, attr_util_min = clamp_value UCLAMP_MIN p,
       attr_util_max = clamp_value UCLAMP_MAX p\<rparr>\<rparr>\<rparr>"
  using assms by (simp add: kernel_attr_def zero_uattr_def no_clamp_def clamp_value_def)

lemma request_policy:
  assumes "hdr_ok h" and "request_ok sys a p"
  shows "\<not> dl_policy h (attr_policy a)" "int32 (attr_policy a)" "fair_policy h (attr_policy a) \<Longrightarrow> \<not> rt_policy h (attr_policy a)"
    "rt_policy h (attr_policy a) \<Longrightarrow> 1 \<le> attr_priority a \<and> attr_priority a \<le> 99"
    "\<not> rt_policy h (attr_policy a) \<Longrightarrow> attr_priority a = 0"
  using assms by (auto simp: request_ok_def prio_fits_def int32_def header_facts)

lemma kernel_attr_read_back:
  assumes h: "hdr_ok h" and t: "task_ok p" and r: "request_ok sys (limited a) p" and s: "satisfies h (limited a) p p'"
    and n: "n < 2 ^ 32"
  shows "attr_fits ((kernel_attr h env p')\<lparr>ua_size := n\<rparr>)" "read_back h a (ua_attr (kernel_attr h env p'))"
proof -
  have l: "attr_policy (limited a) = attr_policy a" "attr_priority (limited a) = attr_priority a"
    "attr_clamp (limited a) = attr_clamp a" "attr_reset_on_fork (limited a) = attr_reset_on_fork a"
    "attr_nice (limited a) = clamp_int (attr_nice a) (- 20) 19"
    by (simp_all add: limited_def)
  note pol = request_policy [OF h r, unfolded l]
  have p': "policy p' = attr_policy a" "sched_reset_on_fork p' = attr_reset_on_fork a"
    and rt: "rt_policy h (attr_policy a) \<Longrightarrow> rt_priority p' = attr_priority a"
    and sp: "static_prio p' = (if fair_policy h (attr_policy a) then clamp_int (attr_nice a) (- 20) 19 + 120 else static_prio p)"
    and cl: "flag_min (attr_clamp a) \<Longrightarrow> clamp_value UCLAMP_MIN p' = attr_util_min (attr_clamp a)"
      "flag_max (attr_clamp a) \<Longrightarrow> clamp_value UCLAMP_MAX p' = attr_util_max (attr_clamp a)"
    and cv: "clamp_value i p' < 2048" for i
    using s by (simp_all add: satisfies_def l)
  have tn: "task_nice h p' = static_prio p' - 120" using h by (simp add: task_nice_def header_facts)
  have nice: "- 20 \<le> task_nice h p'" "task_nice h p' < 20"
    using t unfolding tn sp by (auto simp: clamp_int_def task_ok_def)
  have cv0: "0 \<le> clamp_value i p'" for i by (simp add: clamp_value_def)
  have dl: "\<not> dl_policy h (policy p')" using pol(1) p'(1) by simp
  have i32: "int32 (clamp_value i p')" "int32 (task_nice h p')" "int32 0" for i
    using cv [of i] cv0 [of i] nice by (simp_all add: int32_def)
  have "0 \<le> (if rt_policy h (attr_policy a) then rt_priority p' else 0) \<and>
      (if rt_policy h (attr_policy a) then rt_priority p' else 0) < 2 ^ 32"
    using pol(4) rt by (cases "rt_policy h (attr_policy a)") simp_all
  then show "attr_fits ((kernel_attr h env p')\<lparr>ua_size := n\<rparr>)"
    unfolding kernel_attr_eq [OF dl] using n pol(2) i32 by (simp add: attr_fits_def p'(1))
  show "read_back h a (ua_attr (kernel_attr h env p'))"
    unfolding kernel_attr_eq [OF dl] using pol(3,5) rt sp cl by (simp add: read_back_def p' tn)
qed

text \<open>The next attribute record that is copied out is found in user memory.\<close>

lemma getattr_reads:
  assumes acc: "uaccess_ok acc" and lay: "layout_ok lay" and t: "find_process_by_pid env pid = Some t" "0 \<le> pid"
    and denied: "getscheduler_denied env t = 0" and buf: "addr \<noteq> 0" "accessible acc addr (attr_sizeof lay)"
    and w: "\<And>bs. length bs = attr_sizeof lay \<Longrightarrow> fst (to_user acc addr bs (umem s))"
    and k: "k = (kernel_attr h env (ptasks s t))\<lparr>ua_size := attr_sizeof lay\<rparr>" "attr_fits k"
  shows "\<exists>m. sys_sched_getattr h acc lay env pid addr (attr_sizeof lay) 0 s = (Inr 0, s\<lparr>umem := m\<rparr>) \<and>
    map_option (dec_attr lay) (from_user acc m addr (attr_sizeof lay)) = Some k"
proof -
  note l = layout_attr [OF lay k(2)]
  obtain m where m: "to_user acc addr (enc_attr lay k) (umem s) = (True, m)"
    using w [of "enc_attr lay k"] l(1) by (cases "to_user acc addr (enc_attr lay k) (umem s)") simp
  have "size_ver0 lay \<le> attr_sizeof lay" "attr_sizeof lay \<le> page_size lay" using lay by (auto simp: layout_ok_def)
  then have "sys_sched_getattr h acc lay env pid addr (attr_sizeof lay) 0 s = (Inr 0, s\<lparr>umem := m\<rparr>)"
    using t denied buf m l(1)
    by (simp add: sys_sched_getattr_def sched_attr_copy_to_user_def user_write_def k(1) [symmetric])
  moreover have "from_user acc m addr (attr_sizeof lay) = Some (enc_attr lay k)"
    using read_written [OF acc m] l(1) by simp
  ultimately show ?thesis using l(2) by auto
qed

text \<open>
  C19. Setting and reading attributes. A privileged process writes a \<open>struct sched_attr\<close> for a policy other than
  \<open>SCHED_DEADLINE\<close>, with a priority of that policy and clamps in order, and calls \<open>sched_setattr\<close>; then it calls
  \<open>sched_getattr\<close> with a buffer that can be written. Both calls succeed, no other task is
  touched, and the structure in the buffer has the policy, priority, reset flag and clamps that were requested and, for
  \<open>SCHED_NORMAL\<close> and \<open>SCHED_BATCH\<close>, the nice value limited to -20 to 19.
\<close>

theorem setattr_getattr_roundtrip:
  assumes h: "hdr_ok h" and acc: "uaccess_ok acc" and lay: "layout_ok lay"
    and t: "find_process_by_pid env pid = Some t" "0 \<le> pid"
    and caller: "caller_ok (rights env t)" "getscheduler_denied env t = 0"
    and req: "task_ok (ptasks s t)" "request_ok (clamp_sys s) (limited (ua_attr a)) (ptasks s t)"
    and a: "attr_fits a" "ua_size a = attr_sizeof lay" "\<not> ua_keep_policy a"
    and w: "to_user acc addr (enc_attr lay a) m0 = (True, umem s)" "addr \<noteq> 0"
    and buf: "addr' \<noteq> 0" "accessible acc addr' (attr_sizeof lay)"
      "\<And>bs. length bs = attr_sizeof lay \<Longrightarrow> fst (to_user acc addr' bs (umem s))"
  shows "\<exists>s1 m k. sys_sched_setattr h acc lay env pid addr 0 s = Some (Inr 0, s1) \<and>
    (\<forall>u. u = t \<or> ptasks s1 u = ptasks s u) \<and>
    sys_sched_getattr h acc lay env pid addr' (attr_sizeof lay) 0 s1 = (Inr 0, s1\<lparr>umem := m\<rparr>) \<and>
    map_option (dec_attr lay) (from_user acc m addr' (attr_sizeof lay)) = Some k \<and> read_back h (ua_attr a) (ua_attr k)"
proof -
  let ?a = "limited (ua_attr a)"
  have n: "- 20 \<le> attr_nice ?a" "attr_nice ?a \<le> 19" by (simp_all add: limited_def clamp_int_def)
  obtain c p' where p': "sched_setattr h (rights env t) (clamp_sys s) ?a (ptasks s t) = Some (c, Inr p')"
    and sat: "satisfies h ?a (ptasks s t) p'"
    using setattr_satisfies [OF h caller(1) req n] by blast
  let ?s = "s\<lparr>clamp_sys := c, ptasks := (ptasks s)(t := p')\<rparr>"
  have "0 \<le> attr_policy (ua_attr a)" using req(2) by (auto simp: request_ok_def limited_def)
  then have set_ok: "sys_sched_setattr h acc lay env pid addr 0 s = Some (Inr 0, ?s)"
    using t w(2) a(3) p'
    by (simp add: sys_sched_setattr_def copy_attr_written [OF h acc lay a(1,2) w(1)] Let_def store_result_def limited_def)
  have "attr_sizeof lay < 2 ^ 32" using lay by (auto simp: layout_ok_def)
  note k = kernel_attr_read_back [OF h req sat this, of env]
  obtain m where "sys_sched_getattr h acc lay env pid addr' (attr_sizeof lay) 0 ?s = (Inr 0, ?s\<lparr>umem := m\<rparr>)"
    "map_option (dec_attr lay) (from_user acc m addr' (attr_sizeof lay)) =
       Some ((kernel_attr h env p')\<lparr>ua_size := attr_sizeof lay\<rparr>)"
    using getattr_reads [OF acc lay t caller(2) buf(1,2), of ?s _ h] buf(3) k(1) by auto
  with set_ok k(2) show ?thesis by (intro exI [of _ ?s] exI) (auto intro!: exI)
qed

subsection \<open>An example\<close>

text \<open>The layout of a 64-bit machine; of the flags without a meaning only the eighth is decoded.\<close>

definition flag_bits :: "uattr \<Rightarrow> bool list" where
  "flag_bits a =
     [attr_reset_on_fork (ua_attr a), False, False, ua_keep_policy a, attr_keep_params (ua_attr a),
      flag_min (attr_clamp (ua_attr a)), flag_max (attr_clamp (ua_attr a)), attr_unknown (ua_attr a)] @
     replicate 20 False @ [attr_sugov (ua_attr a)]"

definition sample_enc :: "uattr \<Rightarrow> byte list" where
  "sample_enc a =
     le_bytes 4 (int (ua_size a)) @ le_bytes 4 (attr_policy (ua_attr a)) @ le_bytes 8 (horner_sum of_bool 2 (flag_bits a)) @
     le_bytes 4 (attr_nice (ua_attr a)) @ le_bytes 4 (attr_priority (ua_attr a)) @ replicate 24 0 @
     le_bytes 4 (attr_util_min (attr_clamp (ua_attr a))) @ le_bytes 4 (attr_util_max (attr_clamp (ua_attr a)))"

definition slice :: "nat \<Rightarrow> nat \<Rightarrow> byte list \<Rightarrow> int" where
  "slice i n bs = le_int (take n (drop i bs))"

definition sample_dec :: "byte list \<Rightarrow> uattr" where
  "sample_dec bs = (let f = slice 8 8 bs in
     \<lparr>ua_size = nat (slice 0 4 bs), ua_keep_policy = bit f 3, ua_attr =
       \<lparr>attr_policy = wrap32 (slice 4 4 bs), attr_priority = slice 20 4 bs, attr_nice = wrap32 (slice 16 4 bs),
        attr_reset_on_fork = bit f 0, attr_keep_params = bit f 4, attr_sugov = bit f 28, attr_unknown = bit f 7,
        attr_clamp = \<lparr>flag_min = bit f 5, flag_max = bit f 6, attr_util_min = wrap32 (slice 48 4 bs),
          attr_util_max = wrap32 (slice 52 4 bs)\<rparr>\<rparr>\<rparr>)"

definition sample_layout :: attr_layout where
  "sample_layout =
     \<lparr>attr_sizeof = 56, size_ver0 = 48, size_ver1 = 56, page_size = 4096, size_offset = 0,
      dec_u32 = (\<lambda>bs. nat (le_int bs)), enc_u32 = (\<lambda>n. le_bytes 4 (int n)), dec_attr = sample_dec, enc_attr = sample_enc,
      param_sizeof = 4, dec_param = (\<lambda>bs. wrap32 (le_int bs)), enc_param = le_bytes 4\<rparr>"

lemma flag_bit: "bit (le_int (le_bytes 8 (horner_sum of_bool 2 bs))) n \<longleftrightarrow> n < 64 \<and> n < length bs \<and> bs ! n"
proof -
  have "le_int (le_bytes 8 (horner_sum of_bool 2 bs)) = take_bit 64 (horner_sum of_bool 2 bs)"
    by (simp add: le_int_bytes take_bit_eq_mod)
  then show ?thesis by (simp add: bit_take_bit_iff bit_horner_sum_bit_iff conj_commute)
qed

lemma slices [simp]:
  "slice 0 4 (sample_enc a) = le_int (le_bytes 4 (int (ua_size a)))"
  "slice 4 4 (sample_enc a) = le_int (le_bytes 4 (attr_policy (ua_attr a)))"
  "slice 16 4 (sample_enc a) = le_int (le_bytes 4 (attr_nice (ua_attr a)))"
  "slice 20 4 (sample_enc a) = le_int (le_bytes 4 (attr_priority (ua_attr a)))"
  "slice 48 4 (sample_enc a) = le_int (le_bytes 4 (attr_util_min (attr_clamp (ua_attr a))))"
  "slice 52 4 (sample_enc a) = le_int (le_bytes 4 (attr_util_max (attr_clamp (ua_attr a))))"
  by (simp_all add: slice_def sample_enc_def)

lemma flags_decoded [simp]:
  "bit (slice 8 8 (sample_enc a)) 0 = attr_reset_on_fork (ua_attr a)" "bit (slice 8 8 (sample_enc a)) 3 = ua_keep_policy a"
  "bit (slice 8 8 (sample_enc a)) 4 = attr_keep_params (ua_attr a)" "bit (slice 8 8 (sample_enc a)) 28 = attr_sugov (ua_attr a)"
  "bit (slice 8 8 (sample_enc a)) 5 = flag_min (attr_clamp (ua_attr a))" "bit (slice 8 8 (sample_enc a)) 7 = attr_unknown (ua_attr a)"
  "bit (slice 8 8 (sample_enc a)) 6 = flag_max (attr_clamp (ua_attr a))"
proof -
  have "bit (slice 8 8 (sample_enc a)) n \<longleftrightarrow> n < 64 \<and> n < length (flag_bits a) \<and> flag_bits a ! n" for n
    unfolding flag_bit [symmetric] by (simp add: slice_def sample_enc_def)
  note b = this [unfolded flag_bits_def]
  show "bit (slice 8 8 (sample_enc a)) 0 = attr_reset_on_fork (ua_attr a)" "bit (slice 8 8 (sample_enc a)) 3 = ua_keep_policy a"
    "bit (slice 8 8 (sample_enc a)) 4 = attr_keep_params (ua_attr a)" "bit (slice 8 8 (sample_enc a)) 28 = attr_sugov (ua_attr a)"
    "bit (slice 8 8 (sample_enc a)) 5 = flag_min (attr_clamp (ua_attr a))" "bit (slice 8 8 (sample_enc a)) 7 = attr_unknown (ua_attr a)"
    "bit (slice 8 8 (sample_enc a)) 6 = flag_max (attr_clamp (ua_attr a))"
    unfolding b by (simp_all add: nth_append)
qed

lemma sample_layout_ok: "layout_ok sample_layout"
proof -
  have "sample_dec (sample_enc a) = a" if "attr_fits a" for a
  proof -
    have "wrap32 (le_int (le_bytes 4 x)) = x" if "int32 x" for x using that by (simp add: int32_def wrap32_le_bytes)
    then show ?thesis
      using that by (simp add: attr_fits_def sample_dec_def Let_def le_int_bytes [of 4 "int (ua_size a)"]
        le_int_bytes [of 4 "attr_priority (ua_attr a)"])
  qed
  moreover have "nat (le_int (take 4 (sample_enc a))) = ua_size a" if "attr_fits a" for a
    using that by (simp add: attr_fits_def sample_enc_def le_int_bytes)
  moreover have "length (sample_enc a) = 56" for a by (simp add: sample_enc_def)
  ultimately show ?thesis
    by (simp add: layout_ok_def sample_layout_def int32_def wrap32_le_bytes)
qed

definition sample_env :: sys_env where
  "sample_env =
     \<lparr>find_task_by_vpid = (\<lambda>pid. if pid = 41 then Some 1 else None), current = 2, rights = (\<lambda>_. sample_ctx),
      getscheduler_denied = (\<lambda>_. 0), getparam_dl = (\<lambda>_ k. k), add_reset_bit = (\<lambda>x. x + 2 ^ 30),
      SCHED_RR = 2, SCHED_BATCH = 3, SCHED_IDLE = 5, SCHED_DEADLINE = 6, rr_interval = (\<lambda>_. None),
      jiffies_to_timespec = (\<lambda>n. (int n div 250, int n mod 250 * 4000000)),
      enc_timespec = (\<lambda>(x, y). le_bytes 8 x @ le_bytes 8 y)\<rparr>"

definition sample_uattr :: uattr where
  "sample_uattr = \<lparr>ua_size = 56, ua_keep_policy = False, ua_attr =
     \<lparr>attr_policy = 2, attr_priority = 50, attr_nice = 0, attr_reset_on_fork = True, attr_keep_params = False,
      attr_sugov = False, attr_unknown = False,
      attr_clamp = \<lparr>flag_min = True, flag_max = False, attr_util_min = 300, attr_util_max = 0\<rparr>\<rparr>\<rparr>"

definition sample_memory :: flat_mem where
  "sample_memory a = (if 1000 \<le> a \<and> a < 2000 then Some 0 else None)"

text \<open>A process that has stored bytes at address 1000.\<close>

definition sample_proc :: "byte list \<Rightarrow> flat_mem proc_sys" where
  "sample_proc bs = \<lparr>umem = snd (flat_write 1000 bs sample_memory), ptasks = (\<lambda>_. sample_task), clamp_sys = sample_clamp_sys\<rparr>"

lemma sample_write:
  assumes "1000 \<le> a" and "a + length bs \<le> 2000" and "length cs \<le> 900"
  shows "flat_write 1000 cs sample_memory = (True, umem (sample_proc cs))" "fst (flat_write a bs (umem (sample_proc cs)))"
  using assms by (auto simp: flat_write_def sample_memory_def sample_proc_def list_all_iff)

theorem setattr_getattr_roundtrip_witness:
  "\<exists>s1 m k. sys_sched_setattr sample_hdr flat_access sample_layout sample_env 41 1000 0 (sample_proc (sample_enc sample_uattr))
      = Some (Inr 0, s1) \<and>
    sys_sched_getattr sample_hdr flat_access sample_layout sample_env 41 1500 56 0 s1 = (Inr 0, s1\<lparr>umem := m\<rparr>) \<and>
    map_option sample_dec (flat_read m 1500 56) = Some k \<and> attr_policy (ua_attr k) = 2 \<and> attr_priority (ua_attr k) = 50 \<and>
    attr_reset_on_fork (ua_attr k) \<and> attr_util_min (attr_clamp (ua_attr k)) = 300"
proof -
  let ?s = "sample_proc (sample_enc sample_uattr)"
  have lay: "attr_sizeof sample_layout = 56" "enc_attr sample_layout = sample_enc" "dec_attr sample_layout = sample_dec"
    and acc: "to_user flat_access = flat_write" "from_user flat_access = flat_read" "accessible flat_access = (\<lambda>_ _. True)"
    and env: "find_process_by_pid sample_env 41 = Some 1" "rights sample_env 1 = sample_ctx" "getscheduler_denied sample_env 1 = 0"
    and s: "ptasks ?s 1 = sample_task" "clamp_sys ?s = sample_clamp_sys"
    and len: "length (sample_enc sample_uattr) = 56"
    by (simp_all add: sample_layout_def flat_access_def sample_env_def find_process_by_pid_def sample_proc_def sample_enc_def)
  have ok: "caller_ok sample_ctx" "task_ok sample_task"
    by (auto simp: caller_ok_def sample_ctx_def task_ok_def sample_task_def clamp_value_def)
  have req: "request_ok sample_clamp_sys (limited (ua_attr sample_uattr)) sample_task"
    by (simp add: request_ok_def limited_def sample_uattr_def prio_fits_def clamps_fit_def uclamp_validate_def
        SCHED_CAPACITY_SCALE_def sample_task_def)
  have a: "attr_fits sample_uattr" "ua_size sample_uattr = 56" "\<not> ua_keep_policy sample_uattr"
    by (simp_all add: attr_fits_def sample_uattr_def int32_def)
  have res: "attr_policy k = 2 \<and> attr_priority k = 50 \<and> attr_reset_on_fork k \<and> attr_util_min (attr_clamp k) = 300"
    if "read_back sample_hdr (ua_attr sample_uattr) k" for k
    using that by (simp add: read_back_def sample_uattr_def)
  show ?thesis
    using setattr_getattr_roundtrip [OF sample_hdr_ok flat_access_ok sample_layout_ok env(1), of ?s sample_uattr 1000 sample_memory 1500]
      env s ok req a res sample_write(1) [of 1500 "[]" "sample_enc sample_uattr"] sample_write(2) [of 1500 _ "sample_enc sample_uattr"] len
    unfolding lay acc by simp blast
qed

section \<open>Priorities\<close>

text \<open>The further policies of \<open>uapi/linux/sched.h\<close>.\<close>

definition env_ok :: "sys_env \<Rightarrow> bool" where
  "env_ok env \<longleftrightarrow> SCHED_RR env = 2 \<and> SCHED_BATCH env = 3 \<and> SCHED_IDLE env = 5 \<and> SCHED_DEADLINE env = 6"

text \<open>The verdict that the two system calls for the range of a policy promise.\<close>

definition range_verdict :: "sched_hdr \<Rightarrow> sys_env \<Rightarrow> int \<Rightarrow> int \<Rightarrow> sched_error option" where
  "range_verdict h env pol x =
     (case (sys_sched_get_priority_min h env pol, sys_sched_get_priority_max h env pol) of
        (Inr lo, Inr hi) \<Rightarrow> if lo \<le> x \<and> x \<le> hi then None else Some EINVAL
      | _ \<Rightarrow> Some EINVAL)"

text \<open>
  C34. \<open>sched_get_priority_min\<close> and \<open>sched_get_priority_max\<close> tell the truth: for a privileged caller and a process
  the checks of \<open>__sched_setscheduler\<close> refuse a policy exactly if these calls do not know it, and accept a priority
  (an unsigned number) exactly if it lies between the two bounds.
\<close>

theorem priority_range_exact:
  assumes h: "hdr_ok h" and env: "env_ok env" and ctx: "cap_sys_nice ctx" "security ctx = 0" "checkparam_dl ctx"
    and attr: "0 \<le> attr_policy a" "0 \<le> attr_priority a" "\<not> attr_unknown a" "\<not> attr_sugov a" and mm: "mm p"
  shows "setscheduler_check h ctx a user (attr_policy a) reset p = range_verdict h env (attr_policy a) (attr_priority a)"
proof (cases "attr_policy a \<in> {0, 1, 2, 3, 5, 6}")
  case True
  then show ?thesis
    using h env ctx attr mm
    by (auto simp: range_verdict_def sys_sched_get_priority_min_def sys_sched_get_priority_max_def env_ok_def
        setscheduler_check_def header_facts)
next
  case False
  then show ?thesis
    using h env attr
    by (auto simp: range_verdict_def sys_sched_get_priority_min_def sys_sched_get_priority_max_def env_ok_def
        setscheduler_check_def header_facts)
qed

theorem priority_range_exact_witness:
  "setscheduler_check sample_hdr sample_ctx (ua_attr sample_uattr) True 2 False sample_task = None \<and>
   setscheduler_check sample_hdr sample_ctx ((ua_attr sample_uattr)\<lparr>attr_priority := 100\<rparr>) True 2 False sample_task = Some EINVAL"
proof -
  let ?a = "(ua_attr sample_uattr)\<lparr>attr_priority := 100\<rparr>"
  have e: "env_ok sample_env" by (simp add: env_ok_def sample_env_def)
  have c: "cap_sys_nice sample_ctx" "security sample_ctx = 0" "checkparam_dl sample_ctx" by (simp_all add: sample_ctx_def)
  have m: "mm sample_task" by (simp add: sample_task_def)
  have p: "attr_policy (ua_attr sample_uattr) = 2" "attr_priority (ua_attr sample_uattr) = 50"
    and r: "range_verdict sample_hdr sample_env 2 50 = None" "range_verdict sample_hdr sample_env 2 100 = Some EINVAL"
    by (simp_all add: range_verdict_def sys_sched_get_priority_min_def sys_sched_get_priority_max_def sample_hdr_def sample_env_def
        sample_uattr_def)
  have a1: "0 \<le> attr_policy (ua_attr sample_uattr)" "0 \<le> attr_priority (ua_attr sample_uattr)"
      "\<not> attr_unknown (ua_attr sample_uattr)" "\<not> attr_sugov (ua_attr sample_uattr)"
    and a2: "0 \<le> attr_policy ?a" "0 \<le> attr_priority ?a" "\<not> attr_unknown ?a" "\<not> attr_sugov ?a"
    by (simp_all add: sample_uattr_def)
  show ?thesis
    using priority_range_exact [OF sample_hdr_ok e c a1 m, of True False] priority_range_exact [OF sample_hdr_ok e c a2 m, of True False]
    by (simp add: p r)
qed

section \<open>Setting only the priority\<close>

text \<open>
  C35. \<open>sched_setparam\<close> passes -1 so that the policy stays as it is, but the line that the assignment adds to
  \<open>_sched_setscheduler\<close> overrides it. A process writes a priority and calls \<open>sched_setparam\<close> with the rights to
  do so: 0, the only priority of a \<open>SCHED_NORMAL\<close> task, is refused with \<open>EINVAL\<close> like every number outside 1 to 99, and
  any other makes the task \<open>SCHED_FIFO\<close>, whatever its policy was. Nothing else changes.
\<close>

theorem setparam_changes_policy:
  assumes h: "hdr_ok h" and acc: "uaccess_ok acc" and lay: "layout_ok lay" and boost: "top_task_prio h = (\<lambda>_. None)"
    and t: "find_process_by_pid env pid = Some t" "0 \<le> pid" and caller: "caller_ok (rights env t)" and p: "task_ok (ptasks s t)"
    and pri: "int32 pri" and w: "to_user acc addr (enc_param lay pri) m0 = (True, umem s)" "addr \<noteq> 0"
  shows "if 1 \<le> pri \<and> pri \<le> 99
    then \<exists>p'. sys_sched_setparam h acc lay env pid addr s = Some (Inr 0, s\<lparr>ptasks := (ptasks s)(t := p')\<rparr>) \<and>
      made_fifo h pri (ptasks s t) p'
    else sys_sched_setparam h acc lay env pid addr s = Some (Inl EINVAL, s)"
proof -
  have l: "length (enc_param lay pri) = param_sizeof lay" "dec_param lay (enc_param lay pri) = pri"
    using lay pri by (simp_all add: layout_ok_def)
  have "from_user acc (umem s) addr (param_sizeof lay) = Some (enc_param lay pri)"
    using read_written [OF acc w(1)] l(1) by simp
  then have eq: "sys_sched_setparam h acc lay env pid addr s =
      store_result t (sched_setscheduler h (rights env t) (clamp_sys s) (- 1) pri True (ptasks s t)) s"
    using t w(2) by (simp add: sys_sched_setparam_def do_sched_setscheduler_def l(2))
  show ?thesis
  proof (cases "1 \<le> pri \<and> pri \<le> 99")
    case True
    then show ?thesis
      using setscheduler_made_fifo [OF h, of "- 1" pri "ptasks s t" "rights env t" True "clamp_sys s"] p caller boost
      by (auto simp: eq store_result_def task_ok_def caller_ok_def)
  next
    case False
    have "sched_setscheduler h (rights env t) (clamp_sys s) (- 1) pri True (ptasks s t) = Some (clamp_sys s, Inl EINVAL)"
      by (rule setscheduler_refused [OF h]) (use pri False in \<open>auto simp: int32_def\<close>)
    then show ?thesis using False by (auto simp: eq store_result_def)
  qed
qed

theorem setparam_changes_policy_witness:
  "(\<exists>s1. sys_sched_setparam sample_hdr flat_access sample_layout sample_env 41 1000 (sample_proc (le_bytes 4 7)) = Some (Inr 0, s1) \<and>
      policy (ptasks (sample_proc (le_bytes 4 7)) 1) = 0 \<and> policy (ptasks s1 1) = 1) \<and>
   sys_sched_setparam sample_hdr flat_access sample_layout sample_env 41 1000 (sample_proc (le_bytes 4 0)) =
     Some (Inl EINVAL, sample_proc (le_bytes 4 0))"
proof -
  have lay: "enc_param sample_layout = le_bytes 4" and acc: "to_user flat_access = flat_write"
    and env: "find_process_by_pid sample_env 41 = Some 1" "rights sample_env 1 = sample_ctx"
    and s: "ptasks (sample_proc bs) 1 = sample_task" "policy sample_task = 0" for bs
    by (simp_all add: sample_layout_def flat_access_def sample_env_def find_process_by_pid_def sample_proc_def sample_task_def)
  have ok: "caller_ok sample_ctx" "task_ok sample_task" "top_task_prio sample_hdr = (\<lambda>_. None)" "SCHED_FIFO sample_hdr = 1"
    by (auto simp: caller_ok_def sample_ctx_def task_ok_def sample_task_def clamp_value_def sample_hdr_def)
  have w: "flat_write 1000 (le_bytes 4 x) sample_memory = (True, umem (sample_proc (le_bytes 4 x)))" for x
    using sample_write(1) [of 1000 "[]" "le_bytes 4 x"] by simp
  note sp = setparam_changes_policy [OF sample_hdr_ok flat_access_ok sample_layout_ok ok(3) env(1), unfolded lay acc env(2), OF _ ok(1)]
  have "\<exists>p'. sys_sched_setparam sample_hdr flat_access sample_layout sample_env 41 1000 (sample_proc (le_bytes 4 7)) =
      Some (Inr 0, (sample_proc (le_bytes 4 7))\<lparr>ptasks := (ptasks (sample_proc (le_bytes 4 7)))(1 := p')\<rparr>) \<and>
      made_fifo sample_hdr 7 sample_task p'"
    using sp [OF _ _ _ w [of 7]] ok(2) s by (simp add: int32_def)
  moreover have "sys_sched_setparam sample_hdr flat_access sample_layout sample_env 41 1000 (sample_proc (le_bytes 4 0)) =
      Some (Inl EINVAL, sample_proc (le_bytes 4 0))"
    using sp [OF _ _ _ w [of 0]] ok(2) s by (simp add: int32_def)
  ultimately show ?thesis using s ok(4) by (auto simp: made_fifo_def)
qed

end
