(* ===== verification/Affinity_Syscalls.thy ===== *)
theory Affinity_Syscalls
  imports Sched_Affinity Sched_Syscalls_Main
begin

text \<open>
  \<open>sched_setaffinity\<close> and \<open>sched_getaffinity\<close> of \<open>core.c\<close>: masks of CPUs come from and go to user memory
  as bytes, and the new mask is checked again against the cpuset of the task after it has been set. They are built on
  \<open>Sched_Affinity\<close> (\<open>__set_cpus_allowed_ptr\<close>) and \<open>User_Mem\<close>. Error numbers are those of \<open>errno-base.h\<close>.
\<close>

definition ESRCH_code :: int where "ESRCH_code = 3"
definition EPERM_code :: int where "EPERM_code = 1"
definition ENOMEM_code :: int where "ENOMEM_code = 12"
definition EFAULT_code :: int where "EFAULT_code = 14"

section \<open>Masks as bytes\<close>

definition mask_of_bytes :: "byte list \<Rightarrow> nat set" where
  "mask_of_bytes bs = {c. c < 8 * length bs \<and> bit (bs ! (c div 8)) (c mod 8)}"

definition byte_of_mask :: "nat set \<Rightarrow> nat \<Rightarrow> byte" where
  "byte_of_mask m i = horner_sum of_bool 2 (map (\<lambda>j. 8 * i + j \<in> m) [0..<8])"

definition bytes_of_mask :: "nat \<Rightarrow> nat set \<Rightarrow> byte list" where
  "bytes_of_mask n m = map (byte_of_mask m) [0..<n]"

section \<open>Setting\<close>

text \<open>
  The answers of other subsystems: the two allocations, owner and capability, the security module, the flag
  \<open>PF_NO_SETAFFINITY\<close> is in \<open>aff_env\<close>; for a deadline task under admission control the CPUs of its root domain;
  \<open>mask_bytes\<close> is \<open>cpumask_size()\<close> and \<open>fresh\<close> the content of an allocated mask.
\<close>

record mask_env =
  mask_allocs :: bool
  owner_or_cap :: bool
  setscheduler_denied :: int
  dl_span :: "nat set option"
  mask_bytes :: nat
  fresh :: "byte list"

text \<open>
  The loop at the label \<open>again\<close>. An element of the list is what the system does until the caller \<open>k\<close> of
  \<open>__set_cpus_allowed_ptr\<close> is back, and the cpuset that is read afterwards. \<open>None\<close> is a call that is still
  inside.
\<close>

fun setaffinity_loop ::
    "aff_env \<Rightarrow> bool \<Rightarrow> nat \<Rightarrow> ((aff_state \<Rightarrow> aff_state) \<times> nat set) list \<Rightarrow> nat set \<Rightarrow> aff_state \<Rightarrow> (int \<times> aff_state) option" where
  "setaffinity_loop env self k [] new_mask s = None"
| "setaffinity_loop env self k ((w, cpus_allowed) # ws) new_mask s =
     (let s1 = w (set_cpus_allowed_ptr_raw env Sca_Check (Other_Mask new_mask) self k s)
      in case callers s1 k of
           Back r \<Rightarrow>
             if r = 0
             then if new_mask \<subseteq> cpus_allowed then Some (0, s1) else setaffinity_loop env self k ws cpus_allowed s1
             else Some (r, s1)
         | _ \<Rightarrow> None)"

definition setaffinity_task ::
    "aff_env \<Rightarrow> mask_env \<Rightarrow> bool \<Rightarrow> nat \<Rightarrow> nat set \<Rightarrow> ((aff_state \<Rightarrow> aff_state) \<times> nat set) list \<Rightarrow> nat set \<Rightarrow> aff_state
     \<Rightarrow> (int \<times> aff_state) option" where
  "setaffinity_task env menv self k cpuset ws in_mask s =
     (if no_setaffinity env then Some (- Sched_Affinity.EINVAL, s)
      else if \<not> mask_allocs menv then Some (- ENOMEM_code, s)
      else if \<not> owner_or_cap menv then Some (- EPERM_code, s)
      else if setscheduler_denied menv \<noteq> 0 then Some (setscheduler_denied menv, s)
      else if \<not> (case dl_span menv of None \<Rightarrow> True | Some span \<Rightarrow> span \<subseteq> in_mask \<inter> cpuset) then Some (- Sched_Affinity.EBUSY, s)
      else setaffinity_loop env self k ws (in_mask \<inter> cpuset) s)"

text \<open>The tasks, each with its affinity, and the memory of the caller.\<close>

record 'm aff_sys =
  amem :: 'm
  affs :: "nat \<Rightarrow> aff_state"

definition sched_setaffinity ::
    "(nat \<Rightarrow> aff_env) \<Rightarrow> mask_env \<Rightarrow> sys_env \<Rightarrow> nat \<Rightarrow> (nat \<Rightarrow> nat set) \<Rightarrow> ((aff_state \<Rightarrow> aff_state) \<times> nat set) list
     \<Rightarrow> int \<Rightarrow> nat set \<Rightarrow> 'm aff_sys \<Rightarrow> (int \<times> 'm aff_sys) option" where
  "sched_setaffinity aenv menv env k cpuset ws pid in_mask s =
     (case find_process_by_pid env pid of
        None \<Rightarrow> Some (- ESRCH_code, s)
      | Some t \<Rightarrow>
          map_option (\<lambda>(r, a). (r, s\<lparr>affs := (affs s)(t := a)\<rparr>))
            (setaffinity_task (aenv t) menv (t = current env) k (cpuset t) ws in_mask (affs s t)))"

definition get_user_cpu_mask :: "'m uaccess \<Rightarrow> mask_env \<Rightarrow> nat \<Rightarrow> nat \<Rightarrow> 'm \<Rightarrow> byte list option" where
  "get_user_cpu_mask acc menv addr len m =
     (let new_mask = (if len < mask_bytes menv then replicate (mask_bytes menv) 0 else fresh menv);
          n = (if mask_bytes menv < len then mask_bytes menv else len)
      in map_option (\<lambda>bs. bs @ drop n new_mask) (from_user acc m addr n))"

definition sys_sched_setaffinity ::
    "'m uaccess \<Rightarrow> (nat \<Rightarrow> aff_env) \<Rightarrow> mask_env \<Rightarrow> sys_env \<Rightarrow> nat \<Rightarrow> (nat \<Rightarrow> nat set)
     \<Rightarrow> ((aff_state \<Rightarrow> aff_state) \<times> nat set) list \<Rightarrow> int \<Rightarrow> nat \<Rightarrow> nat \<Rightarrow> 'm aff_sys \<Rightarrow> (int \<times> 'm aff_sys) option" where
  "sys_sched_setaffinity acc aenv menv env k cpuset ws pid len addr s =
     (if \<not> mask_allocs menv then Some (- ENOMEM_code, s)
      else case get_user_cpu_mask acc menv addr len (amem s) of
             None \<Rightarrow> Some (- EFAULT_code, s)
           | Some bs \<Rightarrow> sched_setaffinity aenv menv env k cpuset ws pid (mask_of_bytes bs) s)"

section \<open>Reading\<close>

definition sched_getaffinity :: "nat set \<Rightarrow> sys_env \<Rightarrow> int \<Rightarrow> 'm aff_sys \<Rightarrow> int \<times> nat set" where
  "sched_getaffinity cpu_active_mask env pid s =
     (case find_process_by_pid env pid of
        None \<Rightarrow> (- ESRCH_code, {})
      | Some t \<Rightarrow>
          if getscheduler_denied env t \<noteq> 0 then (getscheduler_denied env t, {})
          else (0, cpus_mask (affs s t) \<inter> cpu_active_mask))"

text \<open>\<open>len\<close> is an \<open>unsigned int\<close>, and so is its product with 8.\<close>

definition sys_sched_getaffinity ::
    "'m uaccess \<Rightarrow> nat set \<Rightarrow> nat \<Rightarrow> mask_env \<Rightarrow> sys_env \<Rightarrow> int \<Rightarrow> nat \<Rightarrow> nat \<Rightarrow> 'm aff_sys \<Rightarrow> int \<times> 'm aff_sys" where
  "sys_sched_getaffinity acc cpu_active_mask nr_cpus menv env pid len addr s =
     (if len * 8 mod 2 ^ 32 < nr_cpus then (- Sched_Affinity.EINVAL, s)
      else if len mod 8 \<noteq> 0 then (- Sched_Affinity.EINVAL, s)
      else if \<not> mask_allocs menv then (- ENOMEM_code, s)
      else case sched_getaffinity cpu_active_mask env pid s of (ret, cpus) \<Rightarrow>
             if ret \<noteq> 0 then (ret, s)
             else let retlen = min len (mask_bytes menv)
                  in case to_user acc addr (take retlen (bytes_of_mask (mask_bytes menv) cpus)) (amem s) of
                       (ok, m) \<Rightarrow> (if ok then int retlen else - EFAULT_code, s\<lparr>amem := m\<rparr>))"

section \<open>Masks and bytes\<close>

lemma bit_byte_of_mask: "j < 8 \<Longrightarrow> bit (byte_of_mask m i) j \<longleftrightarrow> 8 * i + j \<in> m"
  by (simp add: byte_of_mask_def bit_horner_sum_bit_iff del: upt_Suc upt_rec_numeral)

lemma length_bytes_of_mask [simp]: "length (bytes_of_mask n m) = n"
  by (simp add: bytes_of_mask_def)

lemma mask_of_take:
  assumes "k \<le> n"
  shows "mask_of_bytes (take k (bytes_of_mask n m)) = m \<inter> {..<8 * k}"
proof -
  have "bit (bytes_of_mask n m ! (c div 8)) (c mod 8) \<longleftrightarrow> c \<in> m" if "c < 8 * k" for c
    using that assms by (simp add: bytes_of_mask_def bit_byte_of_mask)
  then show ?thesis using assms by (auto simp: mask_of_bytes_def)
qed

lemma mask_of_padded: "mask_of_bytes (bs @ replicate n 0) = mask_of_bytes bs"
proof -
  have "bit ((bs @ replicate n 0) ! (c div 8)) (c mod 8) \<longleftrightarrow> c < 8 * length bs \<and> bit (bs ! (c div 8)) (c mod 8)"
    if "c < 8 * length (bs @ replicate n 0)" for c
  proof (cases "c div 8 < length bs")
    case True
    then show ?thesis by (auto simp: nth_append)
  next
    case False
    then have "(bs @ replicate n 0) ! (c div 8) = 0" using that by (simp add: nth_append)
    moreover have "\<not> c < 8 * length bs" using False by linarith
    ultimately show ?thesis by simp
  qed
  then show ?thesis by (auto simp: mask_of_bytes_def)
qed

text \<open>What the process wrote is what the kernel reads, up to the CPUs that the kernel's mask has no room for.\<close>

lemma mask_of_take_bytes: "mask_of_bytes (take n bs) = mask_of_bytes bs \<inter> {..<8 * n}"
  by (auto simp: mask_of_bytes_def min_def)

lemma mask_of_bytes_bound: "x \<in> mask_of_bytes bs \<Longrightarrow> x < 8 * length bs"
  by (simp add: mask_of_bytes_def)

lemma get_user_cpu_mask_reads:
  assumes acc: "uaccess_ok acc" and w: "from_user acc m addr len = Some bs" and f: "length (fresh menv) = mask_bytes menv"
  shows "\<exists>ks. get_user_cpu_mask acc menv addr len m = Some ks \<and> mask_of_bytes ks = mask_of_bytes bs \<inter> {..<8 * mask_bytes menv}"
proof -
  have len: "length bs = len" using acc w by (auto simp: uaccess_ok_def reads_ok_def)
  show ?thesis
  proof (cases "len < mask_bytes menv")
    case True
    then have "mask_of_bytes bs \<subseteq> {..<8 * mask_bytes menv}" using len by (auto simp: mask_of_bytes_def)
    then show ?thesis using True w len by (auto simp: get_user_cpu_mask_def mask_of_padded)
  next
    case False
    have "from_user acc m addr (mask_bytes menv) = Some (take (mask_bytes menv) bs)"
      using read_sub [OF acc w, of 0 "mask_bytes menv"] False by simp
    then show ?thesis using False f len w by (auto simp: get_user_cpu_mask_def mask_of_take_bytes dest: mask_of_bytes_bound)
  qed
qed

section \<open>The loop\<close>

lemma move_task_mask [simp]: "cpus_mask (affine_move_task env flags dest k s) = cpus_mask s"
  by (simp add: affine_move_task_def affine_stay_def affine_install_def Let_def split: option.splits)

text \<open>\<open>__set_cpus_allowed_ptr\<close> has set the mask when it waits or returns success.\<close>

lemma set_caller_neq: "callers R k \<noteq> x \<Longrightarrow> R \<noteq> set_caller k x t"
  by (erule contrapos_nn) simp

lemma allowed_ptr_mask:
  assumes "\<And>r. callers (set_cpus_allowed_ptr_raw env Sca_Check (Other_Mask m) self k s) k = Back r \<Longrightarrow> r = 0"
  shows "cpus_mask (set_cpus_allowed_ptr_raw env Sca_Check (Other_Mask m) self k s) = m"
proof -
  let ?s = "upd_pending k (\<lambda>_. \<lparr>pend_refs = 0, stop_pending = False, completed = False\<rparr>) s"
  have mv: "cpus_mask (affine_move_task env Sca_Check d k (do_set_cpus_allowed_raw (Other_Mask m) Sca_Check ?s)) = m" for d
    by (simp add: do_set_cpus_allowed_raw_def set_cpus_allowed_common_def deref_def)
  let ?d = "any_distribute env ((if kthread env \<or> is_migration_disabled ?s then online_mask env else active_mask env) \<inter> m)"
  define R where "R = set_cpus_allowed_ptr_raw env Sca_Check (Other_Mask m) self k s"
  have R: "R = set_caller k (Back (- Sched_Affinity.EINVAL)) ?s \<or> R = set_caller k (Back (- Sched_Affinity.EBUSY)) (warn ?s) \<or>
      R = affine_move_task env Sca_Check ?d k (do_set_cpus_allowed_raw (Other_Mask m) Sca_Check ?s) \<or>
      R = set_caller k (Back 0) ?s \<and> cpus_mask s = m"
    by (simp add: R_def set_cpus_allowed_ptr_raw_def Let_def deref_def)
  have c: "callers R k \<noteq> Back (- Sched_Affinity.EINVAL)" "callers R k \<noteq> Back (- Sched_Affinity.EBUSY)"
    using assms [of "- Sched_Affinity.EINVAL", folded R_def] assms [of "- Sched_Affinity.EBUSY", folded R_def]
    by (auto simp: Sched_Affinity.EINVAL_def Sched_Affinity.EBUSY_def)
  have "cpus_mask R = m"
    using R
  proof (elim disjE conjE)
    assume "R = set_caller k (Back (- Sched_Affinity.EINVAL)) ?s"
    then show ?thesis using set_caller_neq [OF c(1)] by blast
  next
    assume "R = set_caller k (Back (- Sched_Affinity.EBUSY)) (warn ?s)"
    then show ?thesis using set_caller_neq [OF c(2)] by blast
  next
    assume "R = affine_move_task env Sca_Check ?d k (do_set_cpus_allowed_raw (Other_Mask m) Sca_Check ?s)"
    then show ?thesis using mv by simp
  next
    assume "R = set_caller k (Back 0) ?s" "cpus_mask s = m"
    then show ?thesis by simp
  qed
  then show ?thesis by (simp only: R_def)
qed

text \<open>
  What the system does brings the caller back, and leaves it with the result that it has got already.
\<close>

definition comes_back :: "nat \<Rightarrow> (aff_state \<Rightarrow> aff_state) \<Rightarrow> bool" where
  "comes_back k w \<longleftrightarrow> (\<forall>a. (\<exists>r. callers (w a) k = Back r) \<and> (\<forall>r. callers a k = Back r \<longrightarrow> callers (w a) k = Back r))"

text \<open>The masks that the loop sets one after the other: the first one, then the readings of the cpuset.\<close>

definition attempt :: "((aff_state \<Rightarrow> aff_state) \<times> nat set) list \<Rightarrow> nat set \<Rightarrow> nat \<Rightarrow> nat set" where
  "attempt ws new_mask i = (new_mask # map snd ws) ! i"

definition fits_at :: "((aff_state \<Rightarrow> aff_state) \<times> nat set) list \<Rightarrow> nat set \<Rightarrow> nat \<Rightarrow> bool" where
  "fits_at ws new_mask i \<longleftrightarrow> i < length ws \<and> attempt ws new_mask i \<subseteq> snd (ws ! i)"

lemma fits_at_Cons [simp]:
  "fits_at (x # ws) new_mask 0 \<longleftrightarrow> new_mask \<subseteq> snd x"
  "fits_at (x # ws) new_mask (Suc i) \<longleftrightarrow> fits_at ws (snd x) i"
  by (simp_all add: fits_at_def attempt_def)

text \<open>
  C36. \<open>sched_setaffinity\<close> reads the cpuset again after it has set the mask, and tries again with what it
  has read if the mask is not inside. Whatever the rest of the system does meanwhile, as long as it brings
  the caller back, the loop returns when an attempt is inside the reading that follows it, so at the latest when two
  successive readings agree. If it returns success it does so at the first such attempt, and what it
  has set last is that mask.
\<close>

theorem setaffinity_respects_cpuset:
  assumes "list_all (\<lambda>(w, _). comes_back k w) ws" and "fits_at ws new_mask i"
  shows "\<exists>r s'. setaffinity_loop env self k ws new_mask s = Some (r, s') \<and>
    (r = 0 \<longrightarrow> (\<exists>j a. j \<le> i \<and> fits_at ws new_mask j \<and> (\<forall>l < j. \<not> fits_at ws new_mask l) \<and>
      cpus_mask a = attempt ws new_mask j \<and> s' = fst (ws ! j) a))"
  using assms
proof (induction ws arbitrary: new_mask i s)
  case Nil
  then show ?case by (simp add: fits_at_def)
next
  case (Cons x ws)
  obtain w c where x: "x = (w, c)" by force
  let ?a = "set_cpus_allowed_ptr_raw env Sca_Check (Other_Mask new_mask) self k s"
  have cb: "comes_back k w" using Cons.prems(1) x by simp
  then obtain r where r: "callers (w ?a) k = Back r" by (auto simp: comes_back_def)
  show ?case
  proof (cases "r = 0")
    case False
    then show ?thesis using r x by simp
  next
    case r0: True
    have set_ok: "cpus_mask ?a = new_mask"
      by (rule allowed_ptr_mask) (use cb r r0 in \<open>auto simp: comes_back_def\<close>)
    show ?thesis
    proof (cases "new_mask \<subseteq> c")
      case True
      then show ?thesis using r r0 x set_ok by (auto simp: attempt_def intro!: exI [of _ 0] exI [of _ ?a])
    next
      case False
      then obtain i' where i: "i = Suc i'" "fits_at ws c i'" using Cons.prems(2) x by (cases i) auto
      obtain r' s' where IH: "setaffinity_loop env self k ws c (w ?a) = Some (r', s')"
        "r' = 0 \<longrightarrow> (\<exists>j a. j \<le> i' \<and> fits_at ws c j \<and> (\<forall>l < j. \<not> fits_at ws c l) \<and>
          cpus_mask a = attempt ws c j \<and> s' = fst (ws ! j) a)"
        using Cons.IH [of c i' "w ?a"] Cons.prems(1) i(2) by auto
      have "\<exists>j a. j \<le> i \<and> fits_at (x # ws) new_mask j \<and> (\<forall>l < j. \<not> fits_at (x # ws) new_mask l) \<and>
          cpus_mask a = attempt (x # ws) new_mask j \<and> s' = fst ((x # ws) ! j) a" if r1: "r' = 0"
      proof -
        obtain j a where j: "j \<le> i'" "fits_at ws c j" "\<forall>l < j. \<not> fits_at ws c l" "cpus_mask a = attempt ws c j"
          "s' = fst (ws ! j) a" using IH(2) r1 by blast
        have "\<not> fits_at (x # ws) new_mask l" if "l < Suc j" for l
          using that j(3) False x by (cases l) auto
        then show ?thesis using j i x by (intro exI [of _ "Suc j"] exI [of _ a]) (simp add: attempt_def)
      qed
      then show ?thesis using IH(1) False r r0 x by simp
    qed
  qed
qed

subsection \<open>An example\<close>

text \<open>A task that sleeps on CPU 0 of four; nothing else happens.\<close>

definition sample_aenv :: aff_env where
  "sample_aenv =
     \<lparr>kthread = False, per_cpu_kthread = False, no_setaffinity = False, active_mask = {0, 1, 2, 3}, online_mask = {0, 1, 2, 3},
      balance_push = (\<lambda>_. False), any_distribute = (\<lambda>M. if 0 \<in> M then 0 else if 1 \<in> M then 1 else if 2 \<in> M then 2 else 3),
      nr_cpu_ids = 4, find_lock_rq = (\<lambda>_. None)\<rparr>"

definition sample_aff :: aff_state where
  "sample_aff =
     \<lparr>cpus_mask = {0, 1, 2, 3}, nr_cpus_allowed = 4, cpus_ptr = Own_Mask, migration_disabled = 0, cur_cpu = 0, wakeup_cpu = 0,
      queued = False, running = False, waking = False, push_flag = False, push_busy = (\<lambda>_. False), nr_pinned = (\<lambda>_. 0),
      migration_pending = None, pendings = (\<lambda>_. \<lparr>pend_refs = 0, stop_pending = False, completed = False\<rparr>), works = [],
      callers = (\<lambda>_. Outside), warned = False, aff_calls = []\<rparr>"

text \<open>The caller is back, with success unless it was back before.\<close>

definition finish_call :: "nat \<Rightarrow> aff_state \<Rightarrow> aff_state" where
  "finish_call k s = (case callers s k of Back r \<Rightarrow> s | _ \<Rightarrow> set_caller k (Back 0) s)"

lemma finish_call_back: "comes_back k (finish_call k)" and finish_call_mask: "cpus_mask (finish_call k a) = cpus_mask a"
  by (auto simp: comes_back_def finish_call_def split: caller.splits)

theorem setaffinity_respects_cpuset_witness:
  "\<exists>r s'. setaffinity_loop sample_aenv False 9 [(finish_call 9, {0}), (finish_call 9, {0})] {0, 1} sample_aff = Some (r, s') \<and>
    (r = 0 \<longrightarrow> cpus_mask s' = {0})"
proof -
  let ?ws = "[(finish_call 9, {0::nat}), (finish_call 9, {0})]"
  have "list_all (\<lambda>(w, _). comes_back 9 w) ?ws" by (simp add: finish_call_back)
  moreover have one: "fits_at ?ws {0, 1} 1" "\<not> fits_at ?ws {0, 1} 0" by (simp_all add: fits_at_def attempt_def)
  ultimately obtain r s' where r: "setaffinity_loop sample_aenv False 9 ?ws {0, 1} sample_aff = Some (r, s')"
    "r = 0 \<longrightarrow> (\<exists>j a. j \<le> 1 \<and> fits_at ?ws {0, 1} j \<and> cpus_mask a = attempt ?ws {0, 1} j \<and> s' = fst (?ws ! j) a)"
    using setaffinity_respects_cpuset [of 9 ?ws "{0, 1}" 1 sample_aenv False sample_aff] by blast
  have "cpus_mask s' = {0}" if "r = 0"
  proof -
    obtain j a where "j \<le> 1" "fits_at ?ws {0, 1} j" and a: "cpus_mask a = attempt ?ws {0, 1} j" "s' = fst (?ws ! j) a"
      using r(2) \<open>r = 0\<close> by blast
    then have "j = 1" using one(2) by (cases j) auto
    then show ?thesis using a by (simp add: attempt_def finish_call_mask)
  qed
  then show ?thesis using r(1) by blast
qed

section \<open>Setting and reading\<close>

lemma setaffinity_one:
  assumes "setaffinity_task env menv self k cs [(w, cs')] m s = Some (0, s')" and "comes_back k w"
    and "\<And>a. cpus_mask (w a) = cpus_mask a"
  shows "cpus_mask s' = m \<inter> cs"
proof -
  have loop: "setaffinity_loop env self k [(w, cs')] (m \<inter> cs) s = Some (0, s')"
    using assms(1)
    by (auto simp: setaffinity_task_def Sched_Affinity.EINVAL_def Sched_Affinity.EBUSY_def ENOMEM_code_def EPERM_code_def
        simp del: setaffinity_loop.simps split: if_splits)
  let ?a = "set_cpus_allowed_ptr_raw env Sca_Check (Other_Mask (m \<inter> cs)) self k s"
  obtain r where r: "callers (w ?a) k = Back r" using assms(2) by (auto simp: comes_back_def)
  then have "r = 0" "s' = w ?a" using loop by (auto simp: Let_def split: if_splits)
  moreover have "cpus_mask ?a = m \<inter> cs"
    by (rule allowed_ptr_mask) (use assms(2) r \<open>r = 0\<close> in \<open>auto simp: comes_back_def\<close>)
  ultimately show ?thesis using assms(3) by simp
qed

lemma getaffinity_reads:
  assumes acc: "uaccess_ok acc" and t: "find_process_by_pid env pid = Some t" "getscheduler_denied env t = 0"
    and len: "nr_cpus \<le> len * 8 mod 2 ^ 32" "len mod 8 = 0" "mask_allocs menv"
    and cpus: "act \<subseteq> {..<nr_cpus}" "nr_cpus \<le> 8 * mask_bytes menv"
    and w: "\<And>bs. length bs \<le> len \<Longrightarrow> fst (to_user acc addr bs (amem s))"
  shows "\<exists>m. sys_sched_getaffinity acc act nr_cpus menv env pid len addr s = (int (min len (mask_bytes menv)), s\<lparr>amem := m\<rparr>) \<and>
    map_option mask_of_bytes (from_user acc m addr (min len (mask_bytes menv))) = Some (cpus_mask (affs s t) \<inter> act)"
proof -
  let ?n = "min len (mask_bytes menv)"
  let ?M = "cpus_mask (affs s t) \<inter> act"
  let ?bs = "take ?n (bytes_of_mask (mask_bytes menv) ?M)"
  obtain m where m: "to_user acc addr ?bs (amem s) = (True, m)"
    using w [of ?bs] by (cases "to_user acc addr ?bs (amem s)") simp
  have get: "sys_sched_getaffinity acc act nr_cpus menv env pid len addr s = (int ?n, s\<lparr>amem := m\<rparr>)"
    using t len m by (simp add: sys_sched_getaffinity_def sched_getaffinity_def)
  have "nr_cpus \<le> len * 8" using len(1) by (rule le_trans [OF _ mod_less_eq_dividend])
  then have "nr_cpus \<le> 8 * ?n" using cpus(2) by (simp add: min_def)
  then have "?M \<inter> {..<8 * ?n} = ?M" using cpus(1) by fastforce
  then have "mask_of_bytes ?bs = ?M" using mask_of_take [of ?n "mask_bytes menv" ?M] by simp
  moreover have "from_user acc m addr ?n = Some ?bs" using read_written [OF acc m] by simp
  ultimately show ?thesis using get by auto
qed

text \<open>
  C21. A process writes a mask of CPUs of any length, \<open>sched_setaffinity\<close> returns success after one attempt and
  nothing else changes the mask; then \<open>sched_getaffinity\<close> with any length that it accepts, also one whose number of
  bits wraps around at 32 bits, stays inside the buffer, leaves no CPU out, and what it has written are
  the requested CPUs that are in the cpuset and active.
\<close>

theorem affinity_mask_roundtrip:
  assumes acc: "uaccess_ok acc" and t: "find_process_by_pid env pid = Some t" "getscheduler_denied env t = 0"
    and fresh: "length (fresh menv) = mask_bytes menv" and bs: "from_user acc (amem s) addr len = Some bs"
    and set_ok: "sys_sched_setaffinity acc aenv menv env k cpuset [(w, cs)] pid len addr s = Some (0, s1)"
    and w: "comes_back k w" "\<And>a. cpus_mask (w a) = cpus_mask a"
    and len': "nr_cpus \<le> len' * 8 mod 2 ^ 32" "len' mod 8 = 0"
    and cpus: "act \<subseteq> {..<nr_cpus}" "nr_cpus \<le> 8 * mask_bytes menv"
    and buf: "\<And>bs. length bs \<le> len' \<Longrightarrow> fst (to_user acc addr' bs (amem s))"
  shows "\<exists>n m. n \<le> len' \<and> sys_sched_getaffinity acc act nr_cpus menv env pid len' addr' s1 = (int n, s1\<lparr>amem := m\<rparr>) \<and>
    map_option mask_of_bytes (from_user acc m addr' n) = Some (mask_of_bytes bs \<inter> cpuset t \<inter> act)"
proof -
  have alloc: "mask_allocs menv" using set_ok by (auto simp: sys_sched_setaffinity_def ENOMEM_code_def split: if_splits)
  obtain ks where ks: "get_user_cpu_mask acc menv addr len (amem s) = Some ks"
    "mask_of_bytes ks = mask_of_bytes bs \<inter> {..<8 * mask_bytes menv}"
    using get_user_cpu_mask_reads [OF acc bs fresh] by blast
  have "sched_setaffinity aenv menv env k cpuset [(w, cs)] pid (mask_of_bytes ks) s = Some (0, s1)"
    using set_ok ks(1) alloc by (simp add: sys_sched_setaffinity_def)
  then obtain a where a: "setaffinity_task (aenv t) menv (t = current env) k (cpuset t) [(w, cs)] (mask_of_bytes ks) (affs s t) = Some (0, a)"
    and s1: "s1 = s\<lparr>affs := (affs s)(t := a)\<rparr>"
    using t(1) by (auto simp: sched_setaffinity_def)
  have mem: "amem s1 = amem s" and "affs s1 t = a" by (simp_all add: s1)
  then have mask_t: "cpus_mask (affs s1 t) = mask_of_bytes bs \<inter> {..<8 * mask_bytes menv} \<inter> cpuset t"
    using setaffinity_one [OF a w] ks(2) by simp
  have "cpus_mask (affs s1 t) \<inter> act = mask_of_bytes bs \<inter> cpuset t \<inter> act" unfolding mask_t using cpus by fastforce
  then show ?thesis
    using getaffinity_reads [OF acc t len' alloc cpus, of addr' s1] buf mem by (intro exI [of _ "min len' (mask_bytes menv)"]) simp
qed

definition sample_menv :: mask_env where
  "sample_menv = \<lparr>mask_allocs = True, owner_or_cap = True, setscheduler_denied = 0, dl_span = None, mask_bytes = 8, fresh = replicate 8 7\<rparr>"

definition sample_aff_sys :: "flat_mem aff_sys" where
  "sample_aff_sys = \<lparr>amem = umem (sample_proc (bytes_of_mask 1 {0, 1})), affs = (\<lambda>_. sample_aff)\<rparr>"

lemma sample_mask: "mask_of_bytes (bytes_of_mask 1 {0, 1}) = {0, 1}"
  using mask_of_take [of 1 1 "{0, 1}"] by auto

lemma sample_mask_read: "flat_read (amem sample_aff_sys) 1000 1 = Some (bytes_of_mask 1 {0, 1})"
  using read_written [OF flat_access_ok, of 1000 "bytes_of_mask 1 {0, 1}" sample_memory] sample_write(1) [of 1000 "[]" "bytes_of_mask 1 {0, 1}"]
  by (simp add: sample_aff_sys_def flat_access_def)

lemma sample_set_mask:
  "\<exists>s1. sys_sched_setaffinity flat_access (\<lambda>_. sample_aenv) sample_menv sample_env 9 (\<lambda>_. {1, 2, 0}) [(finish_call 9, {1, 2, 0})]
     41 1 1000 sample_aff_sys = Some (0, s1)"
proof -
  have "mask_of_bytes (bytes_of_mask 1 {0, 1} @ replicate 7 0) = {0, 1}" unfolding mask_of_padded by (rule sample_mask)
  then have "sys_sched_setaffinity flat_access (\<lambda>_. sample_aenv) sample_menv sample_env 9 (\<lambda>_. {1, 2, 0})
      [(finish_call 9, {1, 2, 0})] 41 1 1000 sample_aff_sys =
    sched_setaffinity (\<lambda>_. sample_aenv) sample_menv sample_env 9 (\<lambda>_. {1, 2, 0}) [(finish_call 9, {1, 2, 0})] 41 {0, 1} sample_aff_sys"
    using sample_mask_read by (simp add: sys_sched_setaffinity_def get_user_cpu_mask_def flat_access_def sample_menv_def Let_def)
  then show ?thesis
    by (simp add: sched_setaffinity_def sample_env_def find_process_by_pid_def setaffinity_task_def sample_menv_def sample_aenv_def
        sample_aff_sys_def sample_aff_def set_cpus_allowed_ptr_raw_def do_set_cpus_allowed_raw_def set_cpus_allowed_common_def
        affine_move_task_def affine_stay_def is_migration_disabled_def deref_def finish_call_def Let_def)
qed

theorem affinity_mask_roundtrip_witness:
  "\<exists>s1 n m. sys_sched_setaffinity flat_access (\<lambda>_. sample_aenv) sample_menv sample_env 9 (\<lambda>_. {1, 2, 0}) [(finish_call 9, {1, 2, 0})]
     41 1 1000 sample_aff_sys = Some (0, s1) \<and>
   sys_sched_getaffinity flat_access {1, 2, 3} 4 sample_menv sample_env 41 16 1500 s1 = (int n, s1\<lparr>amem := m\<rparr>) \<and>
   map_option mask_of_bytes (flat_read m 1500 n) = Some {1}"
proof -
  obtain s1 where s1: "sys_sched_setaffinity flat_access (\<lambda>_. sample_aenv) sample_menv sample_env 9 (\<lambda>_. {1, 2, 0})
      [(finish_call 9, {1, 2, 0})] 41 1 1000 sample_aff_sys = Some (0, s1)"
    using sample_set_mask by blast
  have acc: "to_user flat_access = flat_write" "from_user flat_access = flat_read" by (simp_all add: flat_access_def)
  have env: "find_process_by_pid sample_env 41 = Some 1" "getscheduler_denied sample_env 1 = 0"
    and menv: "length (fresh sample_menv) = mask_bytes sample_menv" "mask_bytes sample_menv = 8"
    by (simp_all add: sample_env_def find_process_by_pid_def sample_menv_def)
  have buf: "fst (flat_write 1500 bs (amem sample_aff_sys))" if "length bs \<le> 16" for bs
    using sample_write(2) [of 1500 bs "bytes_of_mask 1 {0, 1}"] that by (simp add: sample_aff_sys_def)
  have "\<exists>n m. n \<le> 16 \<and> sys_sched_getaffinity flat_access {1, 2, 3} 4 sample_menv sample_env 41 16 1500 s1 = (int n, s1\<lparr>amem := m\<rparr>) \<and>
      map_option mask_of_bytes (flat_read m 1500 n) = Some ({0, 1} \<inter> {1, 2, 0} \<inter> {1, 2, 3})"
    using affinity_mask_roundtrip [OF flat_access_ok env menv(1) _ s1 finish_call_back finish_call_mask, of "bytes_of_mask 1 {0, 1}" 4 16 "{1, 2, 3}" 1500]
      sample_mask_read buf menv(2) unfolding acc sample_mask by simp
  then show ?thesis using s1 by auto
qed

end
