(* ===== verification/Sched_Pi.thy ===== *)
theory Sched_Pi
  imports Sched_Prio_Main
begin

text \<open>
  Priority inheritance, \<open>core.c\<close>: \<open>rt_mutex_setprio\<close> lends a task the priority of the donor that waits for it, and takes it
  back. The model has all tasks, their donors, and the calls to the scheduling classes in order. The field
  \<open>dl.pi_se\<close> points to the deadline parameters of a task, so it is a task number here. Together with fork, nice and
  \<open>sched_setscheduler\<close> it keeps class and priority of every task consistent.
\<close>

section \<open>State\<close>

datatype pi_call =
    Dequeue bool
  | Put_Prev
  | Enqueue bool bool bool
  | Set_Next
  | Switched_From sched_class
  | Switched_To sched_class
  | Prio_Changed sched_class int
  | Balance_Callbacks

record pi_sys =
  pt :: "nat \<Rightarrow> task"
  pi_top_task :: "nat \<Rightarrow> nat option"
  pi_se :: "nat \<Rightarrow> nat"
  pi_queued :: "nat \<Rightarrow> bool"
  pi_running :: "nat \<Rightarrow> bool"
  pi_calls :: "pi_call list"
  pi_warned :: bool

text \<open>
  The rest of the system: \<open>dl_entity_preempt\<close>, which tasks are idle tasks or blocked on an rt mutex, and which
  classes have a \<open>switched_from\<close>.
\<close>

record pi_env =
  dl_entity_preempt :: "nat \<Rightarrow> nat \<Rightarrow> bool"
  is_idle :: "nat \<Rightarrow> bool"
  pi_blocked :: "nat \<Rightarrow> bool"
  has_switched_from :: "sched_class \<Rightarrow> bool"

abbreviation pi_note :: "pi_call list \<Rightarrow> pi_sys \<Rightarrow> pi_sys" where
  "pi_note cs s \<equiv> s\<lparr>pi_calls := pi_calls s @ cs\<rparr>"

abbreviation upd_pt :: "nat \<Rightarrow> (task \<Rightarrow> task) \<Rightarrow> pi_sys \<Rightarrow> pi_sys" where
  "upd_pt p f s \<equiv> s\<lparr>pt := (pt s)(p := f (pt s p))\<rparr>"

section \<open>Operations\<close>

definition rt_effective_prio_raw :: "pi_sys \<Rightarrow> nat option \<Rightarrow> int \<Rightarrow> int" where
  "rt_effective_prio_raw s pi x = (case pi of None \<Rightarrow> x | Some d \<Rightarrow> min x (prio (pt s d)))"

definition check_class_changed :: "sched_hdr \<Rightarrow> pi_env \<Rightarrow> nat \<Rightarrow> sched_class \<Rightarrow> int \<Rightarrow> pi_sys \<Rightarrow> pi_sys" where
  "check_class_changed h env p prev_class oldprio s =
     (if prev_class \<noteq> sched_class (pt s p)
      then pi_note ((if has_switched_from env prev_class then [Switched_From prev_class] else []) @
             [Switched_To (sched_class (pt s p))]) s
      else if oldprio \<noteq> prio (pt s p) \<or> dl_prio h (prio (pt s p))
      then pi_note [Prio_Changed (sched_class (pt s p)) oldprio] s else s)"

text \<open>
  The class for the new priority, and the flags \<open>ENQUEUE_REPLENISH\<close> and \<open>ENQUEUE_HEAD\<close>. \<open>None\<close> is the use of a donor
  that is not there.
\<close>

definition switch_class :: "sched_hdr \<Rightarrow> pi_env \<Rightarrow> nat \<Rightarrow> nat option \<Rightarrow> int \<Rightarrow> int \<Rightarrow> pi_sys \<Rightarrow> (bool \<times> bool \<times> pi_sys) option" where
  "switch_class h env p pi x oldprio s =
     (if dl_prio h x
      then if \<not> dl_prio h (normal_prio (pt s p)) \<or>
              (case pi of None \<Rightarrow> False | Some d \<Rightarrow> dl_prio h (prio (pt s d)) \<and> dl_entity_preempt env d p)
           then case pi of None \<Rightarrow> None
                | Some d \<Rightarrow> Some (True, False, upd_pt p (\<lambda>t. t\<lparr>sched_class := Dl_Class\<rparr>) (s\<lparr>pi_se := (pi_se s)(p := pi_se s d)\<rparr>))
           else Some (False, False, upd_pt p (\<lambda>t. t\<lparr>sched_class := Dl_Class\<rparr>) (s\<lparr>pi_se := (pi_se s)(p := p)\<rparr>))
      else let s1 = (if dl_prio h oldprio then s\<lparr>pi_se := (pi_se s)(p := p)\<rparr> else s)
           in if rt_prio h x then Some (False, oldprio < x, upd_pt p (\<lambda>t. t\<lparr>sched_class := Rt_Class\<rparr>) s1)
              else Some (False, False, upd_pt p (\<lambda>t. t\<lparr>sched_class := Fair_Class,
                rt := (if rt_prio h oldprio then (rt t)\<lparr>rt_timeout := 0\<rparr> else rt t)\<rparr>) s1))"

definition rt_mutex_setprio :: "sched_hdr \<Rightarrow> pi_env \<Rightarrow> nat \<Rightarrow> nat option \<Rightarrow> pi_sys \<Rightarrow> pi_sys option" where
  "rt_mutex_setprio h env p pi s =
     (let x = rt_effective_prio_raw s pi (normal_prio (pt s p)) in
      if pi_top_task s p = pi \<and> x = prio (pt s p) \<and> \<not> dl_prio h x then Some s
      else let s1 = s\<lparr>pi_top_task := (pi_top_task s)(p := pi)\<rparr> in
           if x = prio (pt s p) \<and> \<not> dl_prio h x then Some (pi_note [Balance_Callbacks] s1)
           else if is_idle env p
           then Some (pi_note [Balance_Callbacks] (s1\<lparr>pi_warned := (pi_warned s \<or> \<not> pi_running s p \<or> pi_blocked env p)\<rparr>))
           else let oldprio = prio (pt s p);
                    prev_class = sched_class (pt s p);
                    s2 = pi_note ((if pi_queued s p then [Dequeue (oldprio \<noteq> x)] else []) @
                           (if pi_running s p then [Put_Prev] else [])) s1
                in do {
                  (replenish, head, s3) \<leftarrow> switch_class h env p pi x oldprio s2;
                  let s4 = upd_pt p (\<lambda>t. t\<lparr>prio := x\<rparr>) s3;
                  let s5 = pi_note ((if pi_queued s p then [Enqueue (oldprio \<noteq> x) replenish head] else []) @
                             (if pi_running s p then [Set_Next] else [])) s4;
                  Some (pi_note [Balance_Callbacks] (check_class_changed h env p prev_class oldprio s5)) })"

section \<open>One call\<close>

text \<open>What \<open>rt_mutex_setprio\<close> leaves in the task.\<close>

definition boosted :: "sched_hdr \<Rightarrow> int \<Rightarrow> task \<Rightarrow> task" where
  "boosted h x t = t\<lparr>prio := x, sched_class := class_of_prio h x,
     rt := (if rt_prio h (prio t) \<and> \<not> rt_prio h x then (rt t)\<lparr>rt_timeout := 0\<rparr> else rt t)\<rparr>"

definition class_ok :: "sched_hdr \<Rightarrow> task \<Rightarrow> bool" where
  "class_ok h t \<longleftrightarrow> sched_class t = class_of_prio h (prio t)"

lemma boosted_same: "class_ok h t \<Longrightarrow> x = prio t \<Longrightarrow> boosted h x t = t"
  by (simp add: boosted_def class_ok_def)

lemma boosted_fields [simp]:
  "prio (boosted h x t) = x" "sched_class (boosted h x t) = class_of_prio h x" "normal_prio (boosted h x t) = normal_prio t"
  "static_prio (boosted h x t) = static_prio t" "policy (boosted h x t) = policy t"
  "rt_priority (boosted h x t) = rt_priority t"
  by (simp_all add: boosted_def)

text \<open>What happens to the deadline parameters that a task uses: without a donor, or outside the deadline class, they are its own again.\<close>

definition lent :: "sched_hdr \<Rightarrow> nat \<Rightarrow> nat option \<Rightarrow> int \<Rightarrow> int \<Rightarrow> (nat \<Rightarrow> nat) \<Rightarrow> (nat \<Rightarrow> nat) \<Rightarrow> bool" where
  "lent h p pi x oldprio e e' \<longleftrightarrow> (\<forall>q. q \<noteq> p \<longrightarrow> e' q = e q) \<and> (dl_prio h x \<and> pi = None \<longrightarrow> e' p = p) \<and>
     (\<not> dl_prio h x \<longrightarrow> e' p = (if dl_prio h oldprio then p else e p))"

lemma switch_class_boosts:
  assumes h: "hdr_ok h" and donor: "\<not> dl_prio h (normal_prio (pt s p)) \<Longrightarrow> dl_prio h x \<Longrightarrow> pi \<noteq> None"
    and old: "oldprio = prio (pt s p)"
  shows "\<exists>r hd e. switch_class h env p pi x oldprio s =
    Some (r, hd, s\<lparr>pi_se := e, pt := (pt s)(p := (boosted h x (pt s p))\<lparr>prio := prio (pt s p)\<rparr>)\<rparr>) \<and> lent h p pi x oldprio (pi_se s) e"
proof -
  have dl: "dl_prio h x \<Longrightarrow> class_of_prio h x = Dl_Class \<and> rt_prio h x"
    and ndl: "\<not> dl_prio h x \<Longrightarrow> class_of_prio h x = (if rt_prio h x then Rt_Class else Fair_Class)"
    using h by (auto simp: class_of_prio_def header_facts)
  show ?thesis
  proof (cases "dl_prio h x")
    case True
    then show ?thesis
      using donor dl by (cases pi) (auto simp: switch_class_def boosted_def old lent_def)
  next
    case False
    then have "switch_class h env p pi x oldprio s = Some (False, rt_prio h x \<and> oldprio < x,
        s\<lparr>pi_se := (if dl_prio h oldprio then (pi_se s)(p := p) else pi_se s),
          pt := (pt s)(p := (boosted h x (pt s p))\<lparr>prio := prio (pt s p)\<rparr>)\<rparr>)"
      using ndl by (simp add: switch_class_def boosted_def old Let_def)
    moreover have "lent h p pi x oldprio (pi_se s) (if dl_prio h oldprio then (pi_se s)(p := p) else pi_se s)"
      using False by (simp add: lent_def)
    ultimately show ?thesis by blast
  qed
qed

text \<open>The outcome of a call, except for the calls to the classes.\<close>

definition setprio_done :: "sched_hdr \<Rightarrow> nat \<Rightarrow> nat option \<Rightarrow> pi_sys \<Rightarrow> pi_sys \<Rightarrow> bool" where
  "setprio_done h p pi s s' \<longleftrightarrow>
     pt s' = (pt s)(p := boosted h (rt_effective_prio_raw s pi (normal_prio (pt s p))) (pt s p)) \<and>
     pi_top_task s' = (pi_top_task s)(p := pi) \<and> pi_queued s' = pi_queued s \<and> pi_running s' = pi_running s \<and>
     pi_warned s' = pi_warned s \<and>
     lent h p pi (rt_effective_prio_raw s pi (normal_prio (pt s p))) (prio (pt s p)) (pi_se s) (pi_se s')"

lemma check_class_fields [simp]:
  "pt (check_class_changed h env p c x s) = pt s" "pi_top_task (check_class_changed h env p c x s) = pi_top_task s"
  "pi_queued (check_class_changed h env p c x s) = pi_queued s" "pi_running (check_class_changed h env p c x s) = pi_running s"
  "pi_warned (check_class_changed h env p c x s) = pi_warned s" "pi_se (check_class_changed h env p c x s) = pi_se s"
  by (simp_all add: check_class_changed_def)

lemma setprio_result:
  assumes h: "hdr_ok h" and ok: "class_ok h (pt s p)" and idle: "\<not> is_idle env p"
  shows "\<exists>s'. rt_mutex_setprio h env p pi s = Some s' \<and> setprio_done h p pi s s'"
proof -
  let ?t = "pt s p"
  define x where "x = rt_effective_prio_raw s pi (normal_prio ?t)"
  note def = rt_mutex_setprio_def [of h env p pi s, folded x_def] setprio_done_def [of h p pi s, folded x_def]
  show ?thesis
  proof (cases "x = prio ?t \<and> \<not> dl_prio h x")
    case True
    then have "lent h p pi x (prio ?t) (pi_se s) (pi_se s)" by (auto simp: lent_def)
    then show ?thesis using True boosted_same [OF ok, of x] by (auto simp: def Let_def)
  next
    case False
    have donor: "pi \<noteq> None" if "\<not> dl_prio h (normal_prio ?t)" "dl_prio h x"
      using that by (cases pi) (auto simp: x_def rt_effective_prio_raw_def)
    let ?s2 = "pi_note ((if pi_queued s p then [Dequeue (prio ?t \<noteq> x)] else []) @ (if pi_running s p then [Put_Prev] else []))
      (s\<lparr>pi_top_task := (pi_top_task s)(p := pi)\<rparr>)"
    obtain r hd e where "switch_class h env p pi x (prio ?t) ?s2 =
        Some (r, hd, ?s2\<lparr>pi_se := e, pt := (pt s)(p := (boosted h x ?t)\<lparr>prio := prio ?t\<rparr>)\<rparr>)" "lent h p pi x (prio ?t) (pi_se s) e"
      using switch_class_boosts [OF h, of ?s2 p x pi "prio ?t" env] donor by auto
    then show ?thesis using False idle by (auto simp: def Let_def boosted_def)
  qed
qed

section \<open>Histories\<close>

text \<open>Calls for any tasks, each with the donor that the rt mutexes of the task name then.\<close>

fun pi_run :: "sched_hdr \<Rightarrow> pi_env \<Rightarrow> (nat \<times> nat option) list \<Rightarrow> pi_sys \<Rightarrow> pi_sys option" where
  "pi_run h env [] s = Some s"
| "pi_run h env ((p, pi) # cs) s = do { s' \<leftarrow> rt_mutex_setprio h env p pi s; pi_run h env cs s' }"

text \<open>What inheritance may change of a task: its priority, its class and the real-time timeout.\<close>

definition same_base :: "task \<Rightarrow> task \<Rightarrow> bool" where
  "same_base t0 t \<longleftrightarrow>
     t = t0\<lparr>prio := prio t, sched_class := sched_class t, rt := (rt t0)\<lparr>rt_timeout := rt_timeout (rt t)\<rparr>\<rparr>"

definition pi_inv :: "sched_hdr \<Rightarrow> (nat \<Rightarrow> task) \<Rightarrow> pi_sys \<Rightarrow> bool" where
  "pi_inv h ts s \<longleftrightarrow> (\<forall>t. same_base (ts t) (pt s t) \<and> class_ok h (pt s t) \<and> prio (pt s t) \<le> normal_prio (pt s t) \<and>
     (pi_top_task s t = None \<longrightarrow> prio (pt s t) = normal_prio (pt s t)) \<and>
     (pi_top_task s t = None \<or> \<not> dl_prio h (prio (pt s t)) \<longrightarrow> pi_se s t = t))"

lemma timeout_reset: "r = r0\<lparr>rt_timeout := y\<rparr> \<Longrightarrow> r\<lparr>rt_timeout := z\<rparr> = r0\<lparr>rt_timeout := z\<rparr>"
  by simp

lemma same_base_boosted: "same_base t0 t \<Longrightarrow> same_base t0 (boosted h x t)"
  unfolding same_base_def boosted_def by (cases t, cases t0) (auto intro: timeout_reset)

lemma setprio_inv:
  assumes "pi_inv h ts s" and "setprio_done h p pi s s'"
  shows "pi_inv h ts s'"
proof -
  let ?x = "rt_effective_prio_raw s pi (normal_prio (pt s p))"
  have x: "?x \<le> normal_prio (pt s p)" "pi = None \<Longrightarrow> ?x = normal_prio (pt s p)"
    by (auto simp: rt_effective_prio_raw_def split: option.splits)
  have l: "lent h p pi ?x (prio (pt s p)) (pi_se s) (pi_se s')" and pt': "pt s' = (pt s)(p := boosted h ?x (pt s p))"
    and top: "pi_top_task s' = (pi_top_task s)(p := pi)" using assms(2) by (simp_all add: setprio_done_def)
  have "pi_se s' t = t" if "pi_top_task s' t = None \<or> \<not> dl_prio h (prio (pt s' t))" for t
  proof (cases "t = p")
    case True
    then show ?thesis using that l assms(1) unfolding pt' top pi_inv_def lent_def by (cases "dl_prio h ?x") auto
  next
    case False
    then show ?thesis using that l assms(1) unfolding pt' top pi_inv_def lent_def by auto
  qed
  then show ?thesis
    using assms(1) same_base_boosted [of "ts p" "pt s p" h] x unfolding pi_inv_def pt' top by (auto simp: class_ok_def)
qed

lemma pi_run_inv:
  assumes "hdr_ok h" and "pi_inv h ts s" and "list_all (\<lambda>(p, _). \<not> is_idle env p) cs"
  shows "\<exists>s'. pi_run h env cs s = Some s' \<and> pi_inv h ts s' \<and> pi_warned s' = pi_warned s"
  using assms(2,3)
proof (induction cs arbitrary: s)
  case (Cons c cs)
  obtain p pi where c: "c = (p, pi)" by force
  then obtain s1 where s1: "rt_mutex_setprio h env p pi s = Some s1" "setprio_done h p pi s s1"
    using setprio_result [OF assms(1), of s p env pi] Cons.prems by (auto simp: pi_inv_def)
  obtain s' where "pi_run h env cs s1 = Some s'" "pi_inv h ts s'" "pi_warned s' = pi_warned s1"
    using Cons.IH [OF setprio_inv [OF Cons.prems(1) s1(2)]] Cons.prems(2) c by auto
  then show ?case using s1 c by (auto simp: setprio_done_def)
qed simp

text \<open>Tasks that nobody boosts.\<close>

definition unboosted :: "sched_hdr \<Rightarrow> pi_sys \<Rightarrow> bool" where
  "unboosted h s \<longleftrightarrow>
     (\<forall>t. class_ok h (pt s t) \<and> prio (pt s t) = normal_prio (pt s t) \<and> pi_top_task s t = None \<and> pi_se s t = t)"

text \<open>
  C6. Priority inheritance is undone without a trace. From a system without boosted tasks, every history of calls
  of \<open>rt_mutex_setprio\<close> for any tasks but idle ones, which the code refuses to boost, is defined (a missing donor is never used) and raises no warning.
  After it every task is in the class of its priority, its priority is not below its own one, a task outside the deadline class uses its own
  deadline parameters (\<open>dl.pi_se\<close>), and a task that
  has no donor is the task it was before, with its own priority, class and deadline parameters; only the real-time timeout may have been reset.
\<close>

theorem inheritance_undone:
  assumes "hdr_ok h" and "unboosted h s" and "list_all (\<lambda>(p, _). \<not> is_idle env p) cs"
  shows "\<exists>s'. pi_run h env cs s = Some s' \<and> pi_warned s' = pi_warned s \<and>
    (\<forall>t. class_ok h (pt s' t) \<and> prio (pt s' t) \<le> normal_prio (pt s t) \<and> (\<not> dl_prio h (prio (pt s' t)) \<longrightarrow> pi_se s' t = t) \<and>
      (pi_top_task s' t = None \<longrightarrow> pi_se s' t = t \<and>
        pt s' t = (pt s t)\<lparr>rt := (rt (pt s t))\<lparr>rt_timeout := rt_timeout (rt (pt s' t))\<rparr>\<rparr>))"
proof -
  have "pi_inv h (pt s) s" using assms(2) by (simp add: pi_inv_def unboosted_def same_base_def)
  then obtain s' where s': "pi_run h env cs s = Some s'" "pi_inv h (pt s) s'" "pi_warned s' = pi_warned s"
    using pi_run_inv [OF assms(1) _ assms(3)] by blast
  have n: "normal_prio (pt s' t) = normal_prio (pt s t)" for t
  proof -
    have "same_base (pt s t) (pt s' t)" using s'(2) by (simp add: pi_inv_def)
    then have "normal_prio (pt s' t) = normal_prio ((pt s t)\<lparr>prio := prio (pt s' t), sched_class := sched_class (pt s' t),
        rt := (rt (pt s t))\<lparr>rt_timeout := rt_timeout (rt (pt s' t))\<rparr>\<rparr>)"
      unfolding same_base_def by (rule arg_cong)
    then show ?thesis by simp
  qed
  have "pt s' t = (pt s t)\<lparr>rt := (rt (pt s t))\<lparr>rt_timeout := rt_timeout (rt (pt s' t))\<rparr>\<rparr>" if "pi_top_task s' t = None" for t
  proof -
    have p: "prio (pt s' t) = prio (pt s t)" using s'(2) assms(2) n that by (simp add: pi_inv_def unboosted_def)
    then have c: "sched_class (pt s' t) = sched_class (pt s t)"
      using s'(2) assms(2) by (simp add: pi_inv_def unboosted_def class_ok_def)
    have "same_base (pt s t) (pt s' t)" using s'(2) by (simp add: pi_inv_def)
    then show ?thesis unfolding same_base_def p c by simp
  qed
  then show ?thesis using s' n by (auto simp: pi_inv_def)
qed

definition sample_pi_env :: pi_env where
  "sample_pi_env = \<lparr>dl_entity_preempt = (\<lambda>_ _. False), is_idle = (\<lambda>_. False), pi_blocked = (\<lambda>_. False),
     has_switched_from = (\<lambda>c. c = Rt_Class)\<rparr>"

text \<open>Task 2 is a real-time task, the others are normal.\<close>

definition sample_pi :: pi_sys where
  "sample_pi = \<lparr>pt = (\<lambda>t. if t = 2 then sample_task\<lparr>prio := 50, normal_prio := 50, sched_class := Rt_Class\<rparr> else sample_task),
     pi_top_task = (\<lambda>_. None), pi_se = (\<lambda>t. t), pi_queued = (\<lambda>_. True), pi_running = (\<lambda>t. t = 1), pi_calls = [],
     pi_warned = False\<rparr>"

theorem inheritance_undone_witness:
  "\<exists>s'. pi_run sample_hdr sample_pi_env [(1, Some 2), (3, Some 1), (1, None)] sample_pi = Some s' \<and>
    prio (pt s' 3) = 50 \<and> sched_class (pt s' 3) = Rt_Class \<and> prio (pt s' 1) = 120 \<and> sched_class (pt s' 1) = Fair_Class"
proof -
  let ?cs = "[(1, Some 2), (3, Some 1), (1, None)]"
  have "unboosted sample_hdr sample_pi" "list_all (\<lambda>(p, _). \<not> is_idle sample_pi_env p) ?cs"
    by (simp_all add: unboosted_def class_ok_def class_of_prio_def sample_hdr_def sample_pi_def sample_pi_env_def sample_task_def)
  from inheritance_undone [OF sample_hdr_ok this] obtain s' where s': "pi_run sample_hdr sample_pi_env ?cs sample_pi = Some s'"
    "\<And>t. class_ok sample_hdr (pt s' t)"
    "\<And>t. pi_top_task s' t = None \<Longrightarrow> pt s' t = (pt sample_pi t)\<lparr>rt := (rt (pt sample_pi t))\<lparr>rt_timeout := rt_timeout (rt (pt s' t))\<rparr>\<rparr>"
    by blast
  have "map_option (\<lambda>s. (prio (pt s 3), pi_top_task s 1)) (pi_run sample_hdr sample_pi_env ?cs sample_pi) = Some (50, None)"
    by (simp add: rt_mutex_setprio_def rt_effective_prio_raw_def switch_class_def check_class_changed_def sample_pi_def
        sample_pi_env_def sample_hdr_def sample_task_def Let_def)
  then have r: "prio (pt s' 3) = 50" "pi_top_task s' 1 = None" using s'(1) by simp_all
  have p1: "prio (pt s' 1) = 120" by (subst s'(3) [OF r(2)]) (simp add: sample_pi_def sample_task_def)
  have "sched_class (pt s' 3) = Rt_Class" "sched_class (pt s' 1) = Fair_Class"
    using s'(2) [of 3] s'(2) [of 1] r(1) p1 by (simp_all add: class_ok_def class_of_prio_def sample_hdr_def)
  then show ?thesis using s'(1) r(1) p1 by blast
qed

end
