(* ===== verification/Sched_Typed.thy ===== *)
theory Sched_Typed
  imports Sched_Pi
begin

text \<open>
  A type invariant of tasks under every operation of \<open>core.c\<close> that changes policies and priorities: fork, nice, the
  \<open>sched_setscheduler\<close> family and priority inheritance, by any tasks in any order. It is what keeps the accesses to the
  tables of weights inside the tables and the task in the class of its priority.
\<close>

text \<open>The loads of the table and of the idle policy, with the inverse weights that belong to them.\<close>

definition table_load :: "sched_hdr \<Rightarrow> nat \<Rightarrow> load_weight" where
  "table_load h k = \<lparr>weight = scale_load h (sched_prio_to_weight ! k), inv_weight = sched_prio_to_wmult ! k\<rparr>"

definition idle_load :: "sched_hdr \<Rightarrow> load_weight" where
  "idle_load h = \<lparr>weight = scale_load h (WEIGHT_IDLEPRIO h), inv_weight = WMULT_IDLEPRIO h\<rparr>"

text \<open>A task with a fair policy has the weight of its nice value; with a real-time or deadline policy the weight is one of the table, but may be an old one.\<close>

definition weight_ok :: "sched_hdr \<Rightarrow> task \<Rightarrow> bool" where
  "weight_ok h t \<longleftrightarrow>
     (if idle_policy h (policy t) then load (se t) = idle_load h
      else if rt_policy h (policy t) \<or> dl_policy h (policy t) then load (se t) = idle_load h \<or> (\<exists>k < 40. load (se t) = table_load h k)
      else load (se t) = table_load h (nat (static_prio t - 100)))"

definition typed :: "sched_hdr \<Rightarrow> task \<Rightarrow> bool" where
  "typed h t \<longleftrightarrow> class_ok h t \<and> 100 \<le> static_prio t \<and> static_prio t < 140 \<and> valid_policy h (policy t) \<and>
     0 \<le> rt_priority t \<and> rt_priority t \<le> 99 \<and> - 1 \<le> normal_prio t \<and> normal_prio t < 140 \<and> - 1 \<le> prio t \<and> prio t < 140 \<and> weight_ok h t"

lemma weight_ok_cong:
  "load (se t') = load (se t) \<Longrightarrow> policy t' = policy t \<Longrightarrow> static_prio t' = static_prio t \<Longrightarrow> weight_ok h t' = weight_ok h t"
  by (simp add: weight_ok_def)

lemma typed_cong:
  "load (se t') = load (se t) \<Longrightarrow> policy t' = policy t \<Longrightarrow> static_prio t' = static_prio t \<Longrightarrow> rt_priority t' = rt_priority t \<Longrightarrow>
   normal_prio t' = normal_prio t \<Longrightarrow> prio t' = prio t \<Longrightarrow> sched_class t' = sched_class t \<Longrightarrow> typed h t' = typed h t"
  by (simp only: typed_def class_ok_def weight_ok_def)

lemma weight_ok_rt:
  assumes "hdr_ok h" and "weight_ok h t" and "100 \<le> static_prio t" and "static_prio t < 140" and "load (se t') = load (se t)" and "rt_policy h (policy t') \<or> dl_policy h (policy t')"
  shows "weight_ok h t'"
proof -
  have "\<not> idle_policy h (policy t')" using assms(1,6) by (auto simp: header_facts)
  moreover have "nat (static_prio t - 100) < 40" using assms(3,4) by simp
  ultimately show ?thesis using assms(2,5,6) by (auto simp: weight_ok_def split: if_splits)
qed

lemma set_load_weight_ok:
  assumes "hdr_ok h" and "100 \<le> static_prio p" and "static_prio p < 140"
  obtains w iw where "set_load_weight h up p = Some (set_load w iw p)" "weight_ok h (set_load w iw p)"
proof (cases "policy p = 5")
  case True
  then have i: "idle_policy h (policy p)" using assms(1) by (simp add: header_facts)
  show ?thesis
    by (rule that [of "scale_load h (WEIGHT_IDLEPRIO h)" "WMULT_IDLEPRIO h"])
      (simp_all add: set_load_weight_def Let_def i weight_ok_def idle_load_def set_load_def)
next
  case False
  then have i: "\<not> idle_policy h (policy p)" and k: "nat (static_prio p - 100) < 40" using assms by (simp_all add: header_facts)
  show ?thesis
    by (rule that [OF set_load_weight_eq [OF assms False, unfolded table_weight_def]])
      (use i k in \<open>auto simp: weight_ok_def table_load_def set_load_def\<close>)
qed

text \<open>\<open>__setparam_dl\<close> of \<open>deadline.c\<close> stores deadline parameters and nothing else of the task.\<close>

definition dl_law :: "sched_hdr \<Rightarrow> bool" where
  "dl_law h \<longleftrightarrow> (\<forall>p. static_prio (setparam_dl h p) = static_prio p \<and> policy (setparam_dl h p) = policy p)"

text \<open>The priority of a donor is one of a task.\<close>

definition donor_typed :: "sched_hdr \<Rightarrow> bool" where
  "donor_typed h \<longleftrightarrow> (\<forall>p y. top_task_prio h p = Some y \<longrightarrow> - 1 \<le> y)"

lemma normal_prio_bound:
  assumes "hdr_ok h" and "100 \<le> static_prio p" and "static_prio p < 140" and "0 \<le> rt_priority p" and "rt_priority p \<le> 99"
  shows "normal_prio_of h p < 140" "- 1 \<le> normal_prio_of h p"
  using assms by (simp_all add: normal_prio_of_def header_facts)

section \<open>Fork\<close>

lemma fork_reset_typed:
  assumes h: "hdr_ok h" and s: "100 \<le> static_prio p" "static_prio p < 140" and p: "valid_policy h (policy p)" "0 \<le> rt_priority p" "rt_priority p \<le> 99"
  shows "\<exists>q. fork_reset h p = Some q \<and> 100 \<le> static_prio q \<and> static_prio q < 140 \<and> valid_policy h (policy q) \<and>
    0 \<le> rt_priority q \<and> rt_priority q \<le> 99 \<and> normal_prio q = static_prio q \<and> prio q = static_prio q \<and> weight_ok h q"
proof -
  define q where "q = (if dl_policy h (policy p) \<or> rt_policy h (policy p)
              then p\<lparr>policy := SCHED_NORMAL h, static_prio := nice_to_prio h 0, rt_priority := 0\<rparr>
              else if prio_to_nice h (static_prio p) < 0 then p\<lparr>static_prio := nice_to_prio h 0\<rparr>
              else p)"
  let ?r = "q\<lparr>normal_prio := static_prio q, prio := static_prio q\<rparr>"
  have q: "100 \<le> static_prio q" "static_prio q < 140" "valid_policy h (policy q)" "0 \<le> rt_priority q" "rt_priority q \<le> 99"
    using s p h by (auto simp: q_def header_facts)
  obtain w iw where w: "set_load_weight h False ?r = Some (set_load w iw ?r)" "weight_ok h (set_load w iw ?r)"
    by (rule set_load_weight_ok [OF h, of ?r False]) (use q in auto)
  moreover have "weight_ok h ((set_load w iw ?r)\<lparr>sched_reset_on_fork := False\<rparr>)"
    using w(2) weight_ok_cong [of "(set_load w iw ?r)\<lparr>sched_reset_on_fork := False\<rparr>" "set_load w iw ?r" h] by simp
  ultimately show ?thesis using q by (simp add: fork_reset_def q_def [symmetric] Let_def)
qed

lemma fork_typed:
  assumes h: "hdr_ok h" and p: "typed h p"
  shows "\<exists>r. sched_fork h n on (normal_prio p) p = Some r \<and> (\<forall>c. r = Inr c \<longrightarrow> typed h c)"
proof -
  define b where "b = (uclamp_fork n ((sched_fork_init h p)\<lparr>state := TASK_NEW, cpu_burst := 0, prio := normal_prio p\<rparr>))\<lparr>policy := SCHED_FIFO h\<rparr>"
  have bf: "static_prio b = static_prio p" "prio b = normal_prio p" "normal_prio b = normal_prio p" "rt_priority b = rt_priority p"
    "policy b = SCHED_FIFO h" "load (se b) = load (se p)"
    by (simp_all add: b_def sched_fork_init_def uclamp_fork_def Let_def)
  have val: "valid_policy h (policy b)" and rtp: "rt_policy h (policy b) \<or> dl_policy h (policy b)" using h by (simp_all add: bf header_facts)
  have wb: "weight_ok h b" by (rule weight_ok_rt [OF h _ _ _ bf(6) rtp]) (use p in \<open>auto simp: typed_def\<close>)
  have "\<exists>c. (if sched_reset_on_fork b then fork_reset h b else Some b) = Some c \<and> 100 \<le> static_prio c \<and> static_prio c < 140 \<and>
      valid_policy h (policy c) \<and> 0 \<le> rt_priority c \<and> rt_priority c \<le> 99 \<and> - 1 \<le> normal_prio c \<and> normal_prio c < 140 \<and>
      - 1 \<le> prio c \<and> prio c < 140 \<and> weight_ok h c"
    using fork_reset_typed [OF h, of b] p val wb by (auto simp: typed_def bf)
  then obtain c where c: "(if sched_reset_on_fork b then fork_reset h b else Some b) = Some c" "100 \<le> static_prio c" "static_prio c < 140"
      "valid_policy h (policy c)" "0 \<le> rt_priority c" "rt_priority c \<le> 99" "- 1 \<le> normal_prio c" "normal_prio c < 140" "- 1 \<le> prio c" "prio c < 140" "weight_ok h c" by blast
  have "sched_fork h n on (normal_prio p) p =
      (if dl_prio h (prio c) then Some (Inl EAGAIN)
       else let d = c\<lparr>sched_class := (if rt_prio h (prio c) then Rt_Class else Fair_Class)\<rparr>
            in Some (Inr (if on then d\<lparr>info := zero_info\<rparr> else d)))"
    unfolding sched_fork_def Let_def b_def [symmetric] c(1) by simp
  moreover have "typed h (c\<lparr>sched_class := (if rt_prio h (prio c) then Rt_Class else Fair_Class)\<rparr>)" (is "typed h ?d") if "\<not> dl_prio h (prio c)"
    using c(2-) that weight_ok_cong [of ?d c h] by (simp add: typed_def class_ok_def class_of_prio_def)
  moreover have "typed h (d\<lparr>info := zero_info\<rparr>) = typed h d" for d by (rule typed_cong) simp_all
  ultimately show ?thesis by (simp add: Let_def)
qed

section \<open>Nice\<close>

lemma nice_typed:
  assumes h: "hdr_ok h" and p: "typed h p"
  shows "\<exists>r. sys_nice h ctx i p = Some r \<and> (\<forall>q. r = Inr q \<longrightarrow> typed h q)"
proof -
  let ?n = "clamp_int (task_nice h p + clamp_int i (- NICE_WIDTH h) (NICE_WIDTH h)) (MIN_NICE h) (MAX_NICE h)"
  have n: "- 20 \<le> ?n" "?n \<le> 19" "nice_to_prio h ?n = ?n + 120" using h by (simp_all add: header_facts clamp_int_def)
  have "\<exists>q. set_user_nice h ?n p = Some q \<and> typed h q"
  proof (cases "task_nice h p = ?n \<or> dl_policy h (policy p) \<or> rt_policy h (policy p)")
    case True
    show ?thesis
    proof (cases "task_nice h p = ?n")
      case False
      then have rtp: "rt_policy h (policy p) \<or> dl_policy h (policy p)" using True by blast
      let ?q = "p\<lparr>static_prio := ?n + 120\<rparr>"
      have "weight_ok h ?q" by (rule weight_ok_rt [OF h, of p]) (use p rtp in \<open>auto simp: typed_def\<close>)
      moreover have "set_user_nice h ?n p = Some ?q" using False rtp n h by (auto simp: set_user_nice_def header_facts)
      ultimately show ?thesis using p n by (simp add: typed_def class_ok_def)
    qed (use p in \<open>simp add: set_user_nice_def\<close>)
  next
    case False
    let ?p = "p\<lparr>static_prio := ?n + 120\<rparr>"
    obtain w iw where w: "set_load_weight h True ?p = Some (set_load w iw ?p)" "weight_ok h (set_load w iw ?p)"
      by (rule set_load_weight_ok [OF h, of ?p True]) (use n in auto)
    have np: "normal_prio_of h (set_load w iw ?p) = ?n + 120" using False by (simp add: normal_prio_of_def)
    have "\<not> ?n < MIN_NICE h" "\<not> MAX_NICE h < ?n" using n h by (simp_all add: header_facts)
    then have "set_user_nice h ?n p = Some ((set_load w iw ?p)\<lparr>normal_prio := ?n + 120,
        prio := (if \<not> rt_prio h (prio p) then ?n + 120 else prio p)\<rparr>)"
      using False w np n(3) by (simp add: set_user_nice_def effective_prio_def Let_def)
    moreover have "class_of_prio h (?n + 120) = Fair_Class" "\<not> rt_prio h (prio p) \<Longrightarrow> class_of_prio h (prio p) = Fair_Class"
      using h n by (auto simp: class_of_prio_def header_facts)
    moreover have "weight_ok h ((set_load w iw ?p)\<lparr>normal_prio := ?n + 120, prio := y\<rparr>)" for y
      using w(2) weight_ok_cong [of "(set_load w iw ?p)\<lparr>normal_prio := ?n + 120, prio := y\<rparr>" "set_load w iw ?p" h] by simp
    ultimately show ?thesis using p n by (auto simp: typed_def class_ok_def)
  qed
  then show ?thesis by (auto simp: sys_nice_def Let_def)
qed

section \<open>Setting the policy\<close>

text \<open>The attributes that reach \<open>__sched_setscheduler\<close>: the nice value has been limited, a priority is unsigned.\<close>

definition attr_typed :: "sched_attr \<Rightarrow> bool" where
  "attr_typed a \<longleftrightarrow> - 1 \<le> attr_policy a \<and> 0 \<le> attr_priority a \<and> - 20 \<le> attr_nice a \<and> attr_nice a \<le> 19"

lemma setscheduler_typed:
  assumes h: "hdr_ok h" "dl_law h" "donor_typed h" and p: "typed h p" and a: "- 20 \<le> attr_nice a" "attr_nice a \<le> 19" "0 \<le> attr_priority a"
    "attr_priority a \<le> 99" "attr_policy a = - 1 \<or> valid_policy h (attr_policy a)"
  shows "\<exists>q. setscheduler h a keep p = Some q \<and> typed h q"
proof (cases "attr_keep_params a")
  case True
  then show ?thesis using p by (simp add: setscheduler_def)
next
  case False
  define pol where "pol = (if attr_policy a = - 1 then policy p else attr_policy a)"
  define b where "b = (if dl_policy h pol then setparam_dl h (p\<lparr>policy := pol\<rparr>)
    else if fair_policy h pol then p\<lparr>policy := pol, static_prio := nice_to_prio h (attr_nice a)\<rparr> else p\<lparr>policy := pol\<rparr>)"
  define c where "c = b\<lparr>rt_priority := attr_priority a\<rparr>"
  let ?d = "c\<lparr>normal_prio := normal_prio_of h c\<rparr>"
  have c: "100 \<le> static_prio c" "static_prio c < 140" "policy c = pol" "rt_priority c = attr_priority a"
    using p a h by (auto simp: c_def b_def typed_def dl_law_def header_facts)
  have pol: "valid_policy h pol" using a(5) p by (auto simp: pol_def typed_def)
  obtain w iw where w: "set_load_weight h True ?d = Some (set_load w iw ?d)" "weight_ok h (set_load w iw ?d)"
    by (rule set_load_weight_ok [OF h(1), of ?d True]) (use c in auto)
  then have "setscheduler_params h a p = Some (set_load w iw ?d)"
    by (simp add: setscheduler_params_def pol_def [symmetric] Let_def c_def b_def)
  moreover have "weight_ok h ((set_load w iw ?d)\<lparr>prio := y, sched_class := k\<rparr>)" for y k
    using w(2) weight_ok_cong [of "(set_load w iw ?d)\<lparr>prio := y, sched_class := k\<rparr>" "set_load w iw ?d" h] by simp
  moreover have n: "normal_prio_of h c < 140" "- 1 \<le> normal_prio_of h c" using normal_prio_bound [OF h(1) c(1,2)] c(4) a(3,4) by simp_all
  moreover have "normal_prio_of h (set_load w iw ?d) = normal_prio_of h c" by (simp add: normal_prio_of_def)
  moreover have "rt_effective_prio h q x \<le> x" "- 1 \<le> x \<Longrightarrow> - 1 \<le> rt_effective_prio h q x" for q x
    using h(3) by (auto simp: rt_effective_prio_def donor_typed_def split: option.splits)
  then have "rt_effective_prio h q (normal_prio_of h c) < 140" "- 1 \<le> rt_effective_prio h q (normal_prio_of h c)" for q using n le_less_trans by blast+
  ultimately show ?thesis
    using False c pol a(3,4) by (simp add: setscheduler_def typed_def class_ok_def Let_def)
qed

lemma check_limits:
  assumes h: "hdr_ok h" and c: "setscheduler_check h ctx a user pol reset p = None"
  shows "attr_priority a \<le> 99" "0 \<le> attr_policy a \<Longrightarrow> valid_policy h pol"
proof -
  have "MAX_USER_RT_PRIO h = 100" "MAX_RT_PRIO h = 100" using h by (simp_all add: header_facts)
  then have "setscheduler_check h ctx a user pol reset p \<noteq> None" if "\<not> attr_priority a \<le> 99"
    using that by (simp add: setscheduler_check_def)
  then show "attr_priority a \<le> 99" using c by blast
  show "valid_policy h pol" if "0 \<le> attr_policy a" using c that by (simp add: setscheduler_check_def split: if_splits)
qed

lemma raw_typed:
  assumes h: "hdr_ok h" "dl_law h" "donor_typed h" and p: "typed h p" and a: "attr_typed a"
  shows "\<exists>sys' r. sched_setscheduler_raw h ctx sys a user pi p = Some (sys', r) \<and> (\<forall>q. r = Inr q \<longrightarrow> typed h q)"
proof -
  define pol where "pol = (if attr_policy a < 0 then policy p else attr_policy a)"
  define reset where "reset = (if attr_policy a < 0 then sched_reset_on_fork p else attr_reset_on_fork a)"
  have tr: "typed h (p\<lparr>sched_reset_on_fork := reset\<rparr>)" using p typed_cong [of "p\<lparr>sched_reset_on_fork := reset\<rparr>" p h] by simp
  show ?thesis
  proof (cases "setscheduler_check h ctx a user pol reset p")
    case None
    then have "attr_priority a \<le> 99" "0 \<le> attr_policy a \<Longrightarrow> valid_policy h (attr_policy a)"
      using check_limits [OF h(1) None] by (simp_all add: pol_def)
    moreover have "attr_policy a = - 1" if "attr_policy a < 0" using that a by (simp add: attr_typed_def)
    ultimately have "attr_priority a \<le> 99" "attr_policy a = - 1 \<or> valid_policy h (attr_policy a)" by (cases "attr_policy a < 0"; auto)+
    then obtain q where q: "setscheduler h a pi (p\<lparr>sched_reset_on_fork := reset\<rparr>) = Some q" "typed h q"
      using setscheduler_typed [OF h tr, of a pi] a unfolding attr_typed_def by blast
    have u: "typed h (setscheduler_uclamp rtf sys' cl q)" for rtf sys' cl
    proof -
      have "typed h (setscheduler_uclamp rtf sys' cl q) = typed h q"
        by (rule typed_cong) (simp_all add: setscheduler_uclamp_def reset_clamp_def set_req_def Let_def)
      then show ?thesis using q(2) by simp
    qed
    have "\<exists>r. setscheduler_change h ctx sys' a user pi pol reset p = Some r \<and> (\<forall>q. r = Inr q \<longrightarrow> typed h q)" for sys'
      using q(1) u tr by (simp add: setscheduler_change_def)
    then obtain r where r: "\<And>sys'. setscheduler_change h ctx sys' a user pi pol reset p = Some (r sys')"
      "\<And>sys' q. r sys' = Inr q \<Longrightarrow> typed h q" by metis
    show ?thesis
    proof (cases "if flag_min (attr_clamp a) \<or> flag_max (attr_clamp a) then uclamp_validate sys p (attr_clamp a) else Some sys")
      case None
      then show ?thesis using \<open>setscheduler_check h ctx a user pol reset p = None\<close>
        by (simp add: sched_setscheduler_raw_def pol_def [symmetric] reset_def [symmetric] Let_def)
    next
      case (Some sys')
      then show ?thesis using \<open>setscheduler_check h ctx a user pol reset p = None\<close> r
        by (simp add: sched_setscheduler_raw_def pol_def [symmetric] reset_def [symmetric] Let_def)
    qed
  next
    case (Some e)
    then show ?thesis by (simp add: sched_setscheduler_raw_def pol_def [symmetric] reset_def [symmetric] Let_def)
  qed
qed

section \<open>All operations\<close>

text \<open>\<open>rt_mutex_get_top_task\<close> reads \<open>pi_top_task\<close> of the task, so the donor is the one that the state names.\<close>

definition with_donor :: "sched_hdr \<Rightarrow> pi_sys \<Rightarrow> nat \<Rightarrow> sched_hdr" where
  "with_donor h s p = h\<lparr>top_task_prio := (\<lambda>_. map_option (\<lambda>d. prio (pt s d)) (pi_top_task s p))\<rparr>"

lemma with_donor_same:
  "hdr_ok (with_donor h s p) = hdr_ok h" "dl_law (with_donor h s p) = dl_law h" "typed (with_donor h s p) = typed h"
  by (simp_all add: with_donor_def header_facts reweight_law_def dl_law_def fun_eq_iff typed_def class_ok_def class_of_prio_def weight_ok_def
      table_load_def idle_load_def)

lemma with_donor_typed: "\<forall>t. typed h (pt s t) \<Longrightarrow> donor_typed (with_donor h s p)"
  by (auto simp: donor_typed_def with_donor_def typed_def)

text \<open>
  One operation on one of the tasks; the effect of the operations of \<open>Sched_Prio\<close> on the state is that of the system calls that
  use them. The copy that becomes the child has no donor.
\<close>

inductive prio_step :: "sched_hdr \<Rightarrow> pi_env \<Rightarrow> pi_sys \<Rightarrow> pi_sys \<Rightarrow> bool" for h env where
  fork: "sched_fork h n on (normal_prio (pt s p)) (pt s p) = Some (Inr c) \<Longrightarrow>
    prio_step h env s (s\<lparr>pt := (pt s)(q := c), pi_top_task := (pi_top_task s)(q := None), pi_se := (pi_se s)(q := q)\<rparr>)"
| nice: "sys_nice h ctx i (pt s p) = Some (Inr c) \<Longrightarrow> prio_step h env s (s\<lparr>pt := (pt s)(p := c)\<rparr>)"
| policy: "attr_typed a \<Longrightarrow> sched_setscheduler_raw (with_donor h s p) ctx sys a user pi (pt s p) = Some (sys', Inr c) \<Longrightarrow>
    prio_step h env s (s\<lparr>pt := (pt s)(p := c)\<rparr>)"
| inherit: "rt_mutex_setprio h env p d s = Some s' \<Longrightarrow> prio_step h env s s'"
| queueing: "prio_step h env s (s\<lparr>pi_queued := q, pi_running := r\<rparr>)"

lemma boosted_typed: "typed h t \<Longrightarrow> - 1 \<le> x \<Longrightarrow> x < 140 \<Longrightarrow> typed h (boosted h x t)"
  by (simp add: typed_def class_ok_def weight_ok_def) (simp add: boosted_def)

lemma inherit_typed:
  assumes h: "hdr_ok h" and t: "\<forall>t. typed h (pt s t)"
  shows "\<exists>s'. rt_mutex_setprio h env p d s = Some s' \<and> (\<forall>t. typed h (pt s' t))"
proof (cases "is_idle env p")
  case False
  have "rt_effective_prio_raw s d (normal_prio (pt s p)) < 140" "- 1 \<le> rt_effective_prio_raw s d (normal_prio (pt s p))"
    using t by (auto simp: rt_effective_prio_raw_def typed_def min_less_iff_disj split: option.splits)
  then show ?thesis
    using setprio_result [OF h, of s p env d] t False boosted_typed [of h "pt s p"] by (auto simp: setprio_done_def typed_def)
next
  case True
  then show ?thesis using t by (simp add: rt_mutex_setprio_def Let_def)
qed

lemma step_typed:
  assumes "prio_step h env s s'" and "hdr_ok h" "dl_law h" and "\<forall>t. typed h (pt s t)"
  shows "\<forall>t. typed h (pt s' t)"
  using assms(1)
proof cases
  case (fork n on p c q)
  then show ?thesis using fork_typed [OF assms(2), of "pt s p" n on] assms(4) by auto
next
  case (nice ctx i p c)
  then show ?thesis using nice_typed [OF assms(2), of "pt s p" ctx i] assms(4) by auto
next
  case (policy a p ctx sys user pi sys' c)
  then show ?thesis using raw_typed [of "with_donor h s p" "pt s p" a ctx sys user pi] assms(2-4) with_donor_typed [OF assms(4)] by (auto simp: with_donor_same)
next
  case (inherit p d)
  then show ?thesis using inherit_typed [OF assms(2,4), of env p d] by auto
next
  case (queueing q r)
  then show ?thesis using assms(4) by simp
qed

text \<open>
  C5. Type safety of tasks. From well-typed tasks, in every history of forks, nice, changes of policy and priority
  inheritance, every task is in the class of its effective priority, its static priority is that of a nice value, its
  policy is a valid one, its real-time priority is at most 99, its effective and normal priority are between -1 and 139, and its load is consistent: with a fair
  policy it is the weight and inverse weight of the nice value, with the idle policy that of \<open>WEIGHT_IDLEPRIO\<close>, and with any other policy
  still a pair of the table. Therefore every further
  operation is defined: none reads outside the tables of weights or uses a donor that is not there.
\<close>

theorem task_types_kept:
  assumes "(prio_step h env)\<^sup>*\<^sup>* s0 s" and "hdr_ok h" "dl_law h" and "\<forall>t. typed h (pt s0 t)" and "attr_typed a"
  shows "typed h (pt s t) \<and> sched_fork h n on (normal_prio (pt s t)) (pt s t) \<noteq> None \<and> sys_nice h ctx i (pt s t) \<noteq> None \<and>
    sched_setscheduler_raw (with_donor h s t) ctx sys a user pi (pt s t) \<noteq> None \<and> rt_mutex_setprio h env t d s \<noteq> None"
proof -
  have all: "\<forall>t. typed h (pt s t)"
    using assms(1,4)
  proof (induction rule: rtranclp_induct)
    case (step s s')
    then show ?case using step_typed [OF step.hyps(2) assms(2,3)] by blast
  qed
  then have t: "typed h (pt s t)" by simp
  then show ?thesis
    using fork_typed [OF assms(2) t, of n on] nice_typed [OF assms(2) t, of ctx i] raw_typed [of "with_donor h s t" "pt s t" a ctx sys user pi]
      assms(2,3,5) with_donor_typed [OF all] inherit_typed [OF assms(2) all, of env t d] by (auto simp: with_donor_same)
qed

text \<open>A task forks, the child asks for a nicer place and is then boosted by a real-time task.\<close>

definition sample_parent :: task where
  "sample_parent = set_load (1024 * 1024) 4194304 sample_task"

definition sample_typed :: pi_sys where
  "sample_typed = sample_pi\<lparr>pt := (\<lambda>t. set_load (1024 * 1024) 4194304 (pt sample_pi t))\<rparr>"

lemma sample_typed_ok: "\<forall>t. typed sample_hdr (pt sample_typed t)"
  by (simp add: typed_def class_ok_def class_of_prio_def weight_ok_def table_load_def sample_hdr_def sample_typed_def sample_pi_def
      sample_task_def set_load_def sched_prio_to_weight_def sched_prio_to_wmult_def)

theorem task_types_kept_witness:
  "\<exists>s1 s2. prio_step sample_hdr sample_pi_env sample_typed s1 \<and> prio_step sample_hdr sample_pi_env s1 s2 \<and> prio (pt s2 7) = 50 \<and>
    typed sample_hdr (pt s2 7) \<and> sys_nice sample_hdr sample_ctx (- 3) (pt s2 7) \<noteq> None"
proof -
  have f: "map_option (\<lambda>r. case r of Inl e \<Rightarrow> 0 | Inr c \<Rightarrow> normal_prio c) (sched_fork sample_hdr 5 True 120 sample_parent) = Some 120"
    by (simp add: sched_fork_def sched_fork_init_def uclamp_fork_def sample_hdr_def sample_parent_def sample_task_def set_load_def Let_def)
  then obtain r where r: "sched_fork sample_hdr 5 True 120 sample_parent = Some r" "(case r of Inl e \<Rightarrow> 0 | Inr c \<Rightarrow> normal_prio c) = 120"
    by (auto simp: map_option_eq_Some)
  then obtain c where c: "sched_fork sample_hdr 5 True 120 sample_parent = Some (Inr c)" "normal_prio c = 120" by (cases r) auto
  define s1 where "s1 = sample_typed\<lparr>pt := (pt sample_typed)(7 := c), pi_top_task := (pi_top_task sample_typed)(7 := None),
    pi_se := (pi_se sample_typed)(7 := 7)\<rparr>"
  have st1: "prio_step sample_hdr sample_pi_env sample_typed s1"
    unfolding s1_def by (rule prio_step.fork [where p = 1 and n = 5 and on = True]) (use c in \<open>simp add: sample_typed_def sample_parent_def sample_pi_def sample_task_def set_load_def\<close>)
  then have t1: "\<forall>t. typed sample_hdr (pt s1 t)"
    using step_typed [OF _ sample_hdr_ok _ sample_typed_ok] by (simp add: dl_law_def sample_hdr_def)
  obtain s2 where s2: "rt_mutex_setprio sample_hdr sample_pi_env 7 (Some 2) s1 = Some s2" "setprio_done sample_hdr 7 (Some 2) s1 s2"
    using setprio_result [OF sample_hdr_ok, of s1 7 sample_pi_env "Some 2"] t1 by (auto simp: typed_def sample_pi_env_def)
  have p: "prio (pt s2 7) = 50"
    using s2(2) c(2) by (simp add: setprio_done_def rt_effective_prio_raw_def s1_def sample_typed_def sample_pi_def)
  have st2: "prio_step sample_hdr sample_pi_env s1 s2" by (rule prio_step.inherit [OF s2(1)])
  have "(prio_step sample_hdr sample_pi_env)\<^sup>*\<^sup>* sample_typed s2" using st1 st2 by simp
  moreover have "dl_law sample_hdr" "attr_typed (sched_setscheduler_attr sample_hdr 0 1 sample_task)"
    by (simp_all add: dl_law_def sample_hdr_def attr_typed_def sched_setscheduler_attr_def sample_task_def)
  ultimately have "typed sample_hdr (pt s2 7)" "sys_nice sample_hdr sample_ctx (- 3) (pt s2 7) \<noteq> None"
    using task_types_kept [OF _ sample_hdr_ok _ sample_typed_ok] by blast+
  then show ?thesis using st1 st2 p by blast
qed

end
