(* ===== verification/Sched_Fallback.thy ===== *)
theory Sched_Fallback
  imports Sched_Affinity
begin

text \<open>
  Placing a task, \<open>core.c\<close>: \<open>select_task_rq\<close> asks the class of the task and, if the answer is no CPU on which the task may
  run, \<open>select_fallback_rq\<close> looks for one, first on the same node, then anywhere, and widens the mask of the
  task step by step if there is none.
\<close>

section \<open>Operations\<close>

text \<open>
  The node of a CPU (\<open>None\<close> for -1) and its CPUs, the possible CPUs, whether cpusets are configured, and
  \<open>cpuset_cpus_allowed_fallback\<close>; the answers of the class and of \<open>cpumask_any\<close>.
\<close>

record place_env =
  cpu_to_node :: "nat \<Rightarrow> nat option"
  cpumask_of_node :: "nat \<Rightarrow> nat set"
  possible_mask :: "nat set"
  config_cpusets :: bool
  cpuset_fallback :: "aff_state \<Rightarrow> aff_state"
  class_select :: "aff_state \<Rightarrow> nat"
  mask_any :: "nat set \<Rightarrow> nat"

datatype fallback_state = Cpuset | Possible | Fail

text \<open>\<open>for_each_cpu\<close> with a body that leaves the loop at the first CPU with a property.\<close>

definition first_cpu :: "aff_env \<Rightarrow> nat set \<Rightarrow> (nat \<Rightarrow> bool) \<Rightarrow> nat option" where
  "first_cpu env m P = List.find (\<lambda>c. c \<in> m \<and> P c) [0..<nr_cpu_ids env]"

fun severity :: "fallback_state \<Rightarrow> nat" where
  "severity Cpuset = 2" | "severity Possible = 1" | "severity Fail = 0"

text \<open>The endless loop; \<open>None\<close> is \<open>BUG()\<close>.\<close>

function fallback_loop :: "aff_env \<Rightarrow> place_env \<Rightarrow> fallback_state \<Rightarrow> aff_state \<Rightarrow> (nat \<times> fallback_state \<times> aff_state) option" where
  "fallback_loop env penv st s =
     (case first_cpu env (allowed s) (\<lambda>c. is_cpu_allowed env c s) of
        Some c \<Rightarrow> Some (c, st, s)
      | None \<Rightarrow>
          (case st of
             Cpuset \<Rightarrow> if config_cpusets penv then fallback_loop env penv Possible (cpuset_fallback penv s)
                      else fallback_loop env penv Fail (do_set_cpus_allowed (possible_mask penv) s)
           | Possible \<Rightarrow> fallback_loop env penv Fail (do_set_cpus_allowed (possible_mask penv) s)
           | Fail \<Rightarrow> None))"
  by pat_completeness auto
termination by (relation "measure (\<lambda>(_, _, st, _). severity st)") auto

declare fallback_loop.simps [simp del]

text \<open>
  The result is the CPU, whether the mask of a process was widened, and the task. In that case the code prints a message, unless the task is exiting
  or \<open>printk_ratelimit\<close> suppresses it.
\<close>

definition select_fallback_rq :: "aff_env \<Rightarrow> place_env \<Rightarrow> nat \<Rightarrow> aff_state \<Rightarrow> (nat \<times> bool \<times> aff_state) option" where
  "select_fallback_rq env penv cpu s =
     (case (case cpu_to_node penv cpu of None \<Rightarrow> None
            | Some nid \<Rightarrow> first_cpu env (cpumask_of_node penv nid) (\<lambda>c. c \<in> active_mask env \<and> c \<in> allowed s)) of
        Some c \<Rightarrow> Some (c, False, s)
      | None \<Rightarrow> map_option (\<lambda>(c, st, s'). (c, st \<noteq> Cpuset \<and> \<not> kthread env, s')) (fallback_loop env penv Cpuset s))"

definition select_task_rq :: "aff_env \<Rightarrow> place_env \<Rightarrow> aff_state \<Rightarrow> (nat \<times> bool \<times> aff_state) option" where
  "select_task_rq env penv s =
     (let cpu = (if nr_cpus_allowed s > 1 \<and> \<not> is_migration_disabled s then class_select penv s else mask_any penv (allowed s))
      in if is_cpu_allowed env cpu s then Some (cpu, False, s) else select_fallback_rq env penv (cur_cpu s) s)"

text \<open>The stopper that takes a task off a CPU that is going down.\<close>

definition balance_push_cpu_stop :: "aff_env \<Rightarrow> place_env \<Rightarrow> nat \<Rightarrow> aff_state \<Rightarrow> aff_state option" where
  "balance_push_cpu_stop env penv rq_cpu s =
     (if cur_cpu s = rq_cpu \<and> queued s
      then map_option (\<lambda>(c, _, s'). migrate_task_raw env c s') (select_fallback_rq env penv rq_cpu s)
      else Some s)"

section \<open>Searching\<close>

lemma first_cpu_Some: "first_cpu env m P = Some c \<Longrightarrow> c \<in> m \<and> P c \<and> c < nr_cpu_ids env"
  by (auto simp: first_cpu_def find_Some_iff)

lemma first_cpu_None: "first_cpu env m P = None \<longleftrightarrow> (\<forall>c < nr_cpu_ids env. c \<in> m \<longrightarrow> \<not> P c)"
  by (auto simp: first_cpu_def find_None_iff)

lemma first_cpu_is_allowed:
  "first_cpu env (allowed s) (\<lambda>c. is_cpu_allowed env c s) = None \<longleftrightarrow> (\<forall>c < nr_cpu_ids env. \<not> is_cpu_allowed env c s)"
  by (auto simp: first_cpu_None is_cpu_allowed_def)

text \<open>What the loop does not change: it sets masks.\<close>

definition only_masks :: "aff_state \<Rightarrow> aff_state \<Rightarrow> bool" where
  "only_masks s s' \<longleftrightarrow> cpus_ptr s' = cpus_ptr s \<and> migration_disabled s' = migration_disabled s \<and> cur_cpu s' = cur_cpu s \<and>
     queued s' = queued s \<and> running s' = running s \<and> migration_pending s' = migration_pending s \<and> callers s' = callers s"

lemma only_masks_refl [simp]: "only_masks s s"
  by (simp add: only_masks_def)

lemma only_masks_trans: "only_masks s t \<Longrightarrow> only_masks t u \<Longrightarrow> only_masks s u"
  by (simp add: only_masks_def)

lemma do_set_only_masks: "only_masks s (do_set_cpus_allowed m s)"
  by (simp add: only_masks_def do_set_cpus_allowed_def do_set_cpus_allowed_raw_def set_cpus_allowed_common_def)

lemma do_set_allowed: "cpus_ptr s = Own_Mask \<Longrightarrow> allowed (do_set_cpus_allowed m s) = m"
  by (simp add: allowed_def do_set_cpus_allowed_def do_set_cpus_allowed_raw_def set_cpus_allowed_common_def deref_def)

text \<open>
  The documented behaviour of the headers and of \<open>cpuset.c\<close>: active CPUs are online and possible, and the fallback of the
  cpuset sets some mask.
\<close>

definition place_ok :: "aff_env \<Rightarrow> place_env \<Rightarrow> bool" where
  "place_ok env penv \<longleftrightarrow> active_mask env \<subseteq> online_mask env \<and> active_mask env \<subseteq> possible_mask penv \<and>
     active_mask env \<subseteq> {..<nr_cpu_ids env} \<and> (\<forall>s. \<exists>m. cpuset_fallback penv s = do_set_cpus_allowed m s)"

lemma loop_result:
  assumes "place_ok env penv" and "fallback_loop env penv st s = Some (c, st', s')"
  shows "is_cpu_allowed env c s' \<and> c < nr_cpu_ids env \<and> only_masks s s' \<and> severity st' \<le> severity st \<and> (st' = st \<longrightarrow> s' = s)"
  using assms(2)
proof (induction st arbitrary: s rule: measure_induct_rule [where f = severity])
  case (less st)
  show ?case
  proof (cases "first_cpu env (allowed s) (\<lambda>c. is_cpu_allowed env c s)")
    case (Some d)
    then show ?thesis using less.prems first_cpu_Some [OF Some] by (simp add: fallback_loop.simps [of env penv st s])
  next
    case None
    note step = fallback_loop.simps [of env penv st s, unfolded None, simplified]
    have cs: "only_masks s (cpuset_fallback penv s)"
      using assms(1) do_set_only_masks by (metis place_ok_def)
    have "\<exists>st1 s1. fallback_loop env penv st1 s1 = Some (c, st', s') \<and> severity st1 < severity st \<and> only_masks s s1"
    proof (cases st)
      case Cpuset
      then show ?thesis
        using less.prems step cs do_set_only_masks [of s "possible_mask penv"]
        by (cases "config_cpusets penv")
          (force intro: exI [of _ Possible] exI [of _ "cpuset_fallback penv s"],
            force intro: exI [of _ Fail] exI [of _ "do_set_cpus_allowed (possible_mask penv) s"])
    next
      case Possible
      then show ?thesis
        using less.prems step do_set_only_masks [of s "possible_mask penv"]
        by (intro exI [of _ Fail] exI [of _ "do_set_cpus_allowed (possible_mask penv) s"]) simp
    next
      case Fail
      then show ?thesis using less.prems step by simp
    qed
    then obtain st1 s1 where s1: "fallback_loop env penv st1 s1 = Some (c, st', s')" "severity st1 < severity st" "only_masks s s1"
      by blast
    then show ?thesis using less.IH [OF s1(2,1)] only_masks_trans [OF s1(3)] by force
  qed
qed

lemma loop_widened:
  assumes "fallback_loop env penv Cpuset s = Some (c, st, s')" and "st \<noteq> Cpuset"
  shows "\<forall>d < nr_cpu_ids env. \<not> is_cpu_allowed env d s"
  using assms by (cases "first_cpu env (allowed s) (\<lambda>c. is_cpu_allowed env c s)")
    (auto simp: fallback_loop.simps [of env penv Cpuset s] first_cpu_is_allowed)

text \<open>A process, pinned to an online CPU or not pinned at all, with an active CPU in the system.\<close>

definition placeable :: "aff_env \<Rightarrow> aff_state \<Rightarrow> bool" where
  "placeable env s \<longleftrightarrow> \<not> kthread env \<and> active_mask env \<noteq> {} \<and>
     (cpus_ptr s = Own_Mask \<or> is_migration_disabled s \<and> (\<exists>c \<in> online_mask env. c < nr_cpu_ids env \<and> cpus_ptr s = Other_Mask {c}))"

lemma loop_found: "first_cpu env (allowed s) (\<lambda>c. is_cpu_allowed env c s) \<noteq> None \<Longrightarrow> fallback_loop env penv st s \<noteq> None"
  by (auto simp: fallback_loop.simps [of env penv st s])

lemma loop_possible:
  "fallback_loop env penv Fail (do_set_cpus_allowed (possible_mask penv) s) \<noteq> None \<Longrightarrow> fallback_loop env penv Possible s \<noteq> None"
  by (subst fallback_loop.simps) (simp split: option.split)

lemma loop_cpuset:
  "fallback_loop env penv Fail (do_set_cpus_allowed (possible_mask penv) s) \<noteq> None \<Longrightarrow>
   fallback_loop env penv Possible (cpuset_fallback penv s) \<noteq> None \<Longrightarrow> fallback_loop env penv Cpuset s \<noteq> None"
  by (subst fallback_loop.simps) (simp split: option.split)

lemma fallback_defined:
  assumes ok: "place_ok env penv" and p: "placeable env s"
  shows "fallback_loop env penv Cpuset s \<noteq> None"
proof (cases "cpus_ptr s = Own_Mask")
  case True
  obtain c where c: "c \<in> active_mask env" "c \<in> online_mask env" "c \<in> possible_mask penv" "c < nr_cpu_ids env"
    using p ok by (auto simp: placeable_def place_ok_def)
  have fail: "fallback_loop env penv Fail (do_set_cpus_allowed (possible_mask penv) t) \<noteq> None" if "cpus_ptr t = Own_Mask" for t
  proof -
    have "is_cpu_allowed env c (do_set_cpus_allowed (possible_mask penv) t)"
      using c p do_set_allowed [OF that] by (simp add: is_cpu_allowed_def placeable_def)
    then show ?thesis using c(4) by (intro loop_found) (auto simp: first_cpu_is_allowed)
  qed
  obtain m where m: "cpuset_fallback penv s = do_set_cpus_allowed m s" using ok unfolding place_ok_def by blast
  have "cpus_ptr (cpuset_fallback penv s) = Own_Mask" using do_set_only_masks [of s m] True by (simp add: m only_masks_def)
  then have "fallback_loop env penv Possible (cpuset_fallback penv s) \<noteq> None" by (intro loop_possible fail)
  then show ?thesis by (intro loop_cpuset fail True)
next
  case False
  then obtain c where "c \<in> online_mask env" "c < nr_cpu_ids env" "cpus_ptr s = Other_Mask {c}" "is_migration_disabled s"
    using p by (auto simp: placeable_def)
  then have "is_cpu_allowed env c s" by (simp add: is_cpu_allowed_def allowed_def deref_def)
  then show ?thesis using \<open>c < nr_cpu_ids env\<close> by (intro loop_found) (auto simp: first_cpu_is_allowed)
qed

text \<open>
  C37. Placing a process never ends in \<open>BUG()\<close>: whatever CPU its class proposes, \<open>select_task_rq\<close> returns a CPU on
  which it may run. The masks of the task are changed, and that is reported, only if it could run on no CPU at all; nothing
  else of the task changes.
\<close>

theorem select_task_rq_allowed:
  assumes "place_ok env penv" and "placeable env s"
  shows "\<exists>c told s'. select_task_rq env penv s = Some (c, told, s') \<and> is_cpu_allowed env c s' \<and> only_masks s s' \<and>
    (if told then \<forall>d < nr_cpu_ids env. \<not> is_cpu_allowed env d s else s' = s)"
proof -
  define cpu where "cpu = (if nr_cpus_allowed s > 1 \<and> \<not> is_migration_disabled s then class_select penv s else mask_any penv (allowed s))"
  note def = select_task_rq_def [of env penv s, folded cpu_def, unfolded Let_def]
  show ?thesis
  proof (cases "is_cpu_allowed env cpu s")
    case False
    define node where "node = (case cpu_to_node penv (cur_cpu s) of None \<Rightarrow> None
      | Some nid \<Rightarrow> first_cpu env (cpumask_of_node penv nid) (\<lambda>c. c \<in> active_mask env \<and> c \<in> allowed s))"
    note fb = select_fallback_rq_def [of env penv "cur_cpu s" s, folded node_def]
    show ?thesis
    proof (cases node)
      case (Some c)
      then have "c \<in> active_mask env" "c \<in> allowed s" by (auto simp: node_def split: option.splits dest: first_cpu_Some)
      then have "is_cpu_allowed env c s" using assms by (auto simp: is_cpu_allowed_def placeable_def place_ok_def)
      then show ?thesis using False Some by (auto simp: def fb)
    next
      case None
      obtain c st s' where r: "fallback_loop env penv Cpuset s = Some (c, st, s')" using fallback_defined [OF assms] by force
      have "\<not> kthread env" using assms(2) by (simp add: placeable_def)
      then show ?thesis
        using loop_result [OF assms(1) r] loop_widened [OF r] False None r by (cases "st = Cpuset") (auto simp: def fb)
    qed
  qed (auto simp: def)
qed

text \<open>A task that is allowed on CPU 2 only, which is not active: the mask is widened.\<close>

definition lost_env :: aff_env where
  "lost_env =
     \<lparr>kthread = False, per_cpu_kthread = False, no_setaffinity = False, active_mask = {1}, online_mask = {1, 2},
      balance_push = (\<lambda>_. False), any_distribute = (\<lambda>_. 1), nr_cpu_ids = 3, find_lock_rq = (\<lambda>_. None)\<rparr>"

definition lost_place :: place_env where
  "lost_place = \<lparr>cpu_to_node = (\<lambda>_. Some 0), cpumask_of_node = (\<lambda>_. {0, 1, 2}), possible_mask = {0, 1, 2}, config_cpusets = True,
     cpuset_fallback = do_set_cpus_allowed {2}, class_select = (\<lambda>s. cur_cpu s), mask_any = (\<lambda>_. 2)\<rparr>"

definition lost_task :: aff_state where
  "lost_task =
     \<lparr>cpus_mask = {2}, nr_cpus_allowed = 1, cpus_ptr = Own_Mask, migration_disabled = 0, cur_cpu = 2, wakeup_cpu = 2,
      queued = False, running = False, waking = False, push_flag = False, push_busy = (\<lambda>_. False), nr_pinned = (\<lambda>_. 0),
      migration_pending = None, pendings = (\<lambda>_. \<lparr>pend_refs = 0, stop_pending = False, completed = False\<rparr>), works = [],
      callers = (\<lambda>_. Outside), warned = False, aff_calls = []\<rparr>"

theorem select_task_rq_allowed_witness:
  "\<exists>c told s'. select_task_rq lost_env lost_place lost_task = Some (c, told, s') \<and> is_cpu_allowed lost_env c s' \<and> c = 1"
proof -
  have "place_ok lost_env lost_place" "placeable lost_env lost_task"
    by (auto simp: place_ok_def placeable_def lost_env_def lost_place_def lost_task_def)
  from select_task_rq_allowed [OF this] obtain c told s' where
    r: "select_task_rq lost_env lost_place lost_task = Some (c, told, s')" "is_cpu_allowed lost_env c s'" "only_masks lost_task s'" by blast
  have "c \<in> active_mask lost_env" using r(2,3) by (auto simp: is_cpu_allowed_def only_masks_def is_migration_disabled_def lost_task_def lost_env_def split: if_splits)
  then show ?thesis using r by (simp add: lost_env_def)
qed

text \<open>A CPU that is not active any more gets rid of every process that may migrate.\<close>

lemma push_leaves_cpu:
  assumes ok: "place_ok env penv" and p: "placeable env s" and t: "\<not> is_migration_disabled s" and c: "c \<notin> active_mask env"
  shows "\<exists>s'. balance_push_cpu_stop env penv c s = Some s' \<and> (queued s \<longrightarrow> cur_cpu s' \<noteq> c)"
proof (cases "cur_cpu s = c \<and> queued s")
  case True
  have kt: "\<not> kthread env" using p by (simp add: placeable_def)
  define node where "node = (case cpu_to_node penv c of None \<Rightarrow> None
    | Some nid \<Rightarrow> first_cpu env (cpumask_of_node penv nid) (\<lambda>d. d \<in> active_mask env \<and> d \<in> allowed s))"
  note fb = select_fallback_rq_def [of env penv c s, folded node_def]
  obtain d told s' where r: "select_fallback_rq env penv c s = Some (d, told, s')" "is_cpu_allowed env d s'" "is_migration_disabled s' = is_migration_disabled s"
  proof (cases node)
    case None
    then obtain d st s' where l: "fallback_loop env penv Cpuset s = Some (d, st, s')" using fallback_defined [OF ok p] by auto
    then show ?thesis using loop_result [OF ok l] that None by (auto simp: fb only_masks_def is_migration_disabled_def)
  next
    case (Some d)
    then have "d \<in> active_mask env" "d \<in> allowed s" using first_cpu_Some by (auto simp: node_def split: option.splits)
    then show ?thesis using that [of d False s] Some t kt by (simp add: fb is_cpu_allowed_def)
  qed
  then have "d \<in> active_mask env" using t kt by (auto simp: is_cpu_allowed_def split: if_splits)
  then show ?thesis using True r c by (auto simp: balance_push_cpu_stop_def migrate_task_raw_def)
next
  case False
  then show ?thesis by (auto simp: balance_push_cpu_stop_def)
qed

end
