(* ===== verification/Group_Max.thy ===== *)
theory Group_Max
  imports Cfs_Bandwidth_Main
begin

text \<open>
  The file \<open>cpu.max\<close> of a task group, \<open>core.c\<close>: its text is a quota, or \<open>max\<close>, and a period in microseconds. What is shown
  can be written back; numbers that are too large wrap around.
\<close>

section \<open>Scanning\<close>

text \<open>
  \<open>%llu\<close>: white space is skipped, at least one digit is needed, the value wraps at 64 bits.
\<close>

definition scan_u64 :: "string \<Rightarrow> (int \<times> string) option" where
  "scan_u64 s =
     (let t = dropWhile isspace s; ds = takeWhile isdigit t
      in if ds = [] then None else Some (u64 (digits_val 0 ds), dropWhile isdigit t))"

text \<open>\<open>%20s\<close>: white space is skipped, then up to 20 other characters are taken.\<close>

definition scan_word :: "string \<Rightarrow> string \<times> string" where
  "scan_word s =
     (let t = dropWhile isspace s; tok = take 20 (takeWhile (\<lambda>c. \<not> isspace c) t) in (tok, drop (length tok) t))"

section \<open>The file\<close>

definition cpu_period_quota_print :: "int \<Rightarrow> int \<Rightarrow> string" where
  "cpu_period_quota_print period quota =
     (if quota < 0 then ''max'' else show_int quota) @ '' '' @ show_int period @ [CHR 0x0A]"

text \<open>\<open>period\<close> is the value that the caller has stored. \<open>sscanf\<close> converts nothing exactly for an empty text.\<close>

definition cpu_period_quota_parse :: "bw_hdr \<Rightarrow> string \<Rightarrow> int \<Rightarrow> sched_error + int \<times> int" where
  "cpu_period_quota_parse h buf period =
     (if buf = [] then Inl EINVAL
      else let (tok, rest) = scan_word buf;
               p = u64 ((case scan_u64 rest of Some (v, _) \<Rightarrow> v | None \<Rightarrow> period) * NSEC_PER_USEC h)
           in case scan_u64 tok of
                Some (q, _) \<Rightarrow> Inr (p, u64 (q * NSEC_PER_USEC h))
              | None \<Rightarrow> if tok = ''max'' then Inr (p, RUNTIME_INF h) else Inl EINVAL)"

definition cpu_max_show :: "bw_hdr \<Rightarrow> task_group \<Rightarrow> string" where
  "cpu_max_show h tg = cpu_period_quota_print (tg_get_cfs_period h tg) (tg_get_cfs_quota h tg)"

definition cpu_max_write ::
    "bw_hdr \<Rightarrow> bool \<Rightarrow> nat set \<Rightarrow> nat \<Rightarrow> nat \<Rightarrow> string \<Rightarrow> groups \<Rightarrow> ((sched_error + nat) \<times> groups \<times> bw_call list) option" where
  "cpu_max_write h dfl online root_group tg buf G =
     (case cpu_period_quota_parse h buf (u64 (tg_get_cfs_period h (G tg))) of
        Inl e \<Rightarrow> Some (Inl e, G, [])
      | Inr (period, quota) \<Rightarrow>
          map_option (\<lambda>(ret, r). (case ret of Some e \<Rightarrow> Inl e | None \<Rightarrow> Inr (length buf), r))
            (tg_set_cfs_bandwidth h dfl online root_group tg period quota G))"

section \<open>Reading what was printed\<close>

lemma digit_no_space: "isdigit c \<Longrightarrow> \<not> isspace c"
  by (auto simp: isdigit_def isspace_def)

lemma spaces [simp]: "isspace CHR '' ''" "\<not> isspace CHR ''m''" "\<not> isspace CHR ''a''" "\<not> isspace CHR ''x''" "\<not> isdigit CHR '' ''"
  "\<not> isdigit CHR ''m''" "\<not> isdigit CHR 0x0A"
  by (simp_all add: isspace_def isdigit_def uchar_def)

lemma takeWhile_stop: "(\<And>x. x \<in> set xs \<Longrightarrow> P x) \<Longrightarrow> \<not> P y \<Longrightarrow> takeWhile P (xs @ y # ys) = xs"
  by (induction xs) auto

lemma hd_show_uint: "0 \<le> x \<Longrightarrow> isdigit (hd (show_uint x))"
  using show_uint_digits [of x] by simp

lemma dropWhile_show: "0 \<le> x \<Longrightarrow> dropWhile isspace (show_uint x @ ys) = show_uint x @ ys"
  using hd_show_uint [of x] digit_no_space by (cases "show_uint x") auto

lemma scan_u64_show:
  assumes "0 \<le> x" and "\<not> isdigit c" and "x < 2 ^ 64"
  shows "scan_u64 (show_uint x @ c # ys) = Some (x, c # ys)" "scan_u64 (show_uint x) = Some (x, [])"
proof -
  have d: "\<And>c. c \<in> set (show_uint x) \<Longrightarrow> isdigit c" using show_uint_digits [OF assms(1)] by blast
  then have t: "takeWhile isdigit (show_uint x @ c # ys) = show_uint x" "takeWhile isdigit (show_uint x) = show_uint x"
    using assms(2) by (auto simp: takeWhile_stop takeWhile_eq_all_conv)
  have "dropWhile isdigit (show_uint x @ c # ys) = c # ys" "dropWhile isdigit (show_uint x) = []"
    using d assms(2) by (auto simp: dropWhile_append dropWhile_eq_Nil_conv)
  then show "scan_u64 (show_uint x @ c # ys) = Some (x, c # ys)" "scan_u64 (show_uint x) = Some (x, [])"
    using dropWhile_show [OF assms(1), of "c # ys"] dropWhile_show [OF assms(1), of "[]"] assms
    by (simp_all add: scan_u64_def Let_def t digits_val_show_uint u64_def)
qed

lemma scan_word_show:
  assumes "0 \<le> x" and "x < 10 ^ 20"
  shows "scan_word (show_uint x @ CHR '' '' # ys) = (show_uint x, CHR '' '' # ys)"
proof -
  have "\<And>c. c \<in> set (show_uint x) \<Longrightarrow> \<not> isspace c" using show_uint_digits [OF assms(1)] digit_no_space by blast
  then have "takeWhile (\<lambda>c. \<not> isspace c) (show_uint x @ CHR '' '' # ys) = show_uint x" by (intro takeWhile_stop) auto
  moreover have "length (show_uint x) \<le> 20" using length_show_uint [of x 19] assms by simp
  ultimately show ?thesis using dropWhile_show [OF assms(1)] by (simp add: scan_word_def Let_def)
qed

lemma scan_word_max: "scan_word (''max'' @ CHR '' '' # ys) = (''max'', CHR '' '' # ys)"
  by (simp add: scan_word_def)

text \<open>A text that has been printed is read as the numbers in it, in nanoseconds.\<close>

lemma parse_print:
  assumes h: "bw_ok h" and p: "0 \<le> period" "period * 1000 < 2 ^ 64" and q: "quota * 1000 < 2 ^ 64"
  shows "cpu_period_quota_parse h (cpu_period_quota_print period quota) any =
    Inr (period * 1000, if quota < 0 then 2 ^ 64 - 1 else quota * 1000)"
proof -
  have s: "scan_u64 (CHR '' '' # show_uint period @ [CHR 0x0A]) = Some (period, [CHR 0x0A])"
    using scan_u64_show(1) [OF p(1), of "CHR 0x0A" "[]"] p(2) by (simp add: scan_u64_def)
  have n: "u64 (x * 1000) = x * 1000" if "0 \<le> x" "x * 1000 < 2 ^ 64" for x using that by (simp add: u64_def)
  show ?thesis
  proof (cases "quota < 0")
    case True
    then show ?thesis
      using scan_word_max [of "show_uint period @ [CHR 0x0A]"] s p h
      by (simp add: cpu_period_quota_parse_def cpu_period_quota_print_def show_int_def n bw_ok_def)
        (simp add: scan_u64_def)
  next
    case False
    then have "scan_word (show_uint quota @ CHR '' '' # show_uint period @ [CHR 0x0A]) = (show_uint quota, CHR '' '' # show_uint period @ [CHR 0x0A])"
      using q by (intro scan_word_show) auto
    then show ?thesis
      using False s p q h scan_u64_show(2) [of quota "CHR '' ''"]
      by (simp add: cpu_period_quota_parse_def cpu_period_quota_print_def show_int_def n bw_ok_def)
  qed
qed

section \<open>Properties\<close>

definition whole_usec :: "task_group \<Rightarrow> bool" where
  "whole_usec tg \<longleftrightarrow> 1000 dvd cfs_period tg \<and> (limited tg \<longrightarrow> 1000 dvd cfs_quota tg)"

lemma parse_show:
  assumes h: "bw_ok h" and tg: "valid_bw tg" "whole_usec tg"
  shows "cpu_period_quota_parse h (cpu_max_show h tg) any = Inr (cfs_period tg, cfs_quota tg)"
proof -
  have p: "tg_get_cfs_period h tg = cfs_period tg div 1000" "0 \<le> cfs_period tg div 1000" "cfs_period tg div 1000 * 1000 = cfs_period tg"
    using h tg by (auto simp: tg_get_cfs_period_def bw_ok_def valid_bw_def whole_usec_def u64_def s64_def)
  have lim: "cfs_period tg < 2 ^ 64" using tg by (simp add: valid_bw_def)
  show ?thesis
  proof (cases "limited tg")
    case False
    then have "tg_get_cfs_quota h tg = - 1" "cfs_quota tg = 2 ^ 64 - 1"
      using h by (simp_all add: tg_get_cfs_quota_def bw_ok_def limited_def)
    then show ?thesis using parse_print [OF h, of "cfs_period tg div 1000" "- 1" any] p lim by (simp add: cpu_max_show_def)
  next
    case True
    then have q: "1000 dvd cfs_quota tg" "0 \<le> cfs_quota tg div 1000" "cfs_quota tg < 2 ^ 63" "cfs_quota tg \<noteq> 2 ^ 64 - 1"
      using tg by (auto simp: valid_bw_def whole_usec_def limited_def)
    then have "tg_get_cfs_quota h tg = cfs_quota tg div 1000" "cfs_quota tg div 1000 * 1000 = cfs_quota tg"
      using h by (auto simp: tg_get_cfs_quota_def bw_ok_def s64_def)
    then show ?thesis
      using parse_print [OF h, of "cfs_period tg div 1000" "cfs_quota tg div 1000" any] p lim q by (simp add: cpu_max_show_def)
  qed
qed

lemma set_bandwidth_stores:
  assumes "tg_set_cfs_bandwidth h dfl online r g period quota G = Some (None, G', calls)"
  shows "cfs_period (G' g) = s64 period \<and> cfs_quota (G' g) = quota"
  using assms
  by (auto simp: tg_set_cfs_bandwidth_def store_bandwidth_def Let_def Option.bind_eq_Some_conv split: if_splits)

text \<open>
  C38. The limits of a group can be copied through \<open>cpu.max\<close>: the text that is shown for a group with valid limits in whole
  microseconds is always understood, as these limits; if writing it to a group succeeds, the
  whole text is consumed and that group has the same quota and period.
\<close>

theorem cpu_max_roundtrip:
  assumes "bw_ok h" and "valid_bw tg" and "whole_usec tg"
  shows "cpu_period_quota_parse h (cpu_max_show h tg) any = Inr (cfs_period tg, cfs_quota tg) \<and>
    (cpu_max_write h dfl online r g (cpu_max_show h tg) G = Some (Inr n, G', calls) \<longrightarrow>
      n = length (cpu_max_show h tg) \<and> cfs_period (G' g) = cfs_period tg \<and> cfs_quota (G' g) = cfs_quota tg)"
proof -
  note p = parse_show [OF assms]
  have "s64 (cfs_period tg) = cfs_period tg" using assms(2) by (simp add: valid_bw_def s64_def)
  then show ?thesis
    using set_bandwidth_stores [of h dfl online r g "cfs_period tg" "cfs_quota tg" G G' calls] p
    by (auto simp: cpu_max_write_def p split: option.splits)
qed

theorem cpu_max_roundtrip_witness:
  "\<exists>n G' calls. cpu_max_write sample_bw False {0} 0 2 (cpu_max_show sample_bw (sample_group None [] 20000000)) sample_groups
     = Some (Inr n, G', calls) \<and> cfs_quota (G' 2) = 20000000 \<and> cfs_period (G' 2) = 100000000"
proof -
  let ?d = "\<lparr>d_tg = 2, d_period = 100000, d_quota = 20000\<rparr>"
  let ?tg = "sample_group None [] 20000000"
  have h: "bw_ok sample_bw" by (simp add: bw_ok_def sample_bw_def)
  have tg: "valid_bw ?tg" "whole_usec ?tg" "cfs_period ?tg = 100000000" "cfs_quota ?tg = 20000000"
    by (simp_all add: valid_bw_def whole_usec_def limited_def sample_group_def)
  have "holds sample_groups sample_tree" "distinct (ids sample_tree)" "root sample_tree = 0"
    using sample_bw_inv by (simp_all add: bw_inv_def sample_tree_def)
  then have "walk_tg_tree_from 0 (tg_cfs_schedulable_down sample_bw False ?d) tg_nop sample_groups =
      Some (visit (tg_cfs_schedulable_down sample_bw False ?d) tg_nop sample_tree sample_groups)"
    using cfs_walk.walk_tg_tree_from_visit [of sample_groups sample_tree sample_bw False ?d] by simp
  moreover have "fst (visit (tg_cfs_schedulable_down sample_bw False ?d) tg_nop sample_tree sample_groups) = None" by code_simp
  moreover have "NSEC_PER_USEC sample_bw = 1000" "RUNTIME_INF sample_bw = 2 ^ 64 - 1" by (simp_all add: sample_bw_def)
  ultimately have "\<exists>G1. cfs_schedulable sample_bw False 0 2 100000000 20000000 sample_groups = Some (None, G1)"
    by (simp add: cfs_schedulable_def prod_eq_iff)
  moreover have "min_cfs_quota_period sample_bw = 1000000" "max_cfs_quota_period sample_bw = 1000000000"
    "max_cfs_runtime sample_bw = 17592186044415000" by code_simp+
  ultimately have "\<exists>G' calls. tg_set_cfs_bandwidth sample_bw False {0} 0 2 100000000 20000000 sample_groups = Some (None, G', calls)"
    by (auto simp: tg_set_cfs_bandwidth_def store_bandwidth_def Let_def)
  then obtain n G' calls where w: "cpu_max_write sample_bw False {0} 0 2 (cpu_max_show sample_bw ?tg) sample_groups = Some (Inr n, G', calls)"
    using parse_show [OF h tg(1,2)] tg(3,4) by (auto simp: cpu_max_write_def)
  then show ?thesis
    using cpu_max_roundtrip [OF h tg(1,2), of 0 False "{0}" 0 2 sample_groups n G' calls] tg(3,4) by auto
qed

text \<open>
  Numbers that do not fit wrap around: a quota of 18446744073710552 microseconds, more than five hundred
  thousand years, is refused when it is written to \<open>cfs_quota_us\<close>, but \<open>cpu.max\<close> takes it for a quota of about one millisecond.
\<close>

theorem cpu_max_wraps:
  assumes "bw_ok h"
  shows "cpu_period_quota_parse h ''18446744073710552 100000'' any = Inr (100000000, 1000384) \<and>
    min_cfs_quota_period h \<le> 1000384 \<and>
    tg_set_cfs_quota h dfl online r g 18446744073710552 G = Some (Some EINVAL, G, [])"
proof -
  have "scan_word ''18446744073710552 100000'' = (''18446744073710552'', '' 100000'')"
    "scan_u64 '' 100000'' = Some (100000, [])" "scan_u64 ''18446744073710552'' = Some (18446744073710552, [])"
    by code_simp+
  then show ?thesis
    using assms by (simp add: cpu_period_quota_parse_def bw_ok_def min_cfs_quota_period_def tg_set_cfs_quota_def u64_def Let_def)
qed

theorem cpu_max_wraps_witness:
  "cpu_period_quota_parse sample_bw ''18446744073710552 100000'' 0 = Inr (100000000, 1000384) \<and>
   tg_set_cfs_quota sample_bw False {0} 0 2 18446744073710552 sample_groups = Some (Some EINVAL, sample_groups, [])"
  using cpu_max_wraps [of sample_bw 0 False "{0}" 0 2 sample_groups] by (simp add: bw_ok_def sample_bw_def)

end
