(* ===== verification/Group_Tree.thy ===== *)
theory Group_Tree
  imports Group_Clamp
begin

text \<open>
  The life of task groups and the moves of tasks between them, \<open>core.c\<close>: groups are allocated, brought online, taken
  offline and freed on behalf of the control groups, and tasks are placed in them. The state has the groups, the list
  \<open>task_groups\<close>, the groups that are allocated, the tasks with their group, and the calls to other files in order.
  \<open>None\<close> is undefined behaviour: the removal of an element from a list that it is not in, or freeing what is not allocated.
\<close>

section \<open>State\<close>

datatype tg_call =
    Free_Parts nat
  | Online_Fair nat
  | Unregister_Fair nat
  | Update_Clock nat
  | Dequeue_From nat nat
  | Put_Prev_Task nat
  | Change_Group nat nat bool
  | Set_Task_Rq nat nat
  | Enqueue_To nat nat
  | Set_Next_Task nat
  | Resched_Curr nat

record tg_sys =
  gs :: groups
  task_groups :: "nat list"
  allocated :: "nat set"
  css_parent :: "nat \<Rightarrow> nat option"
  task_css :: "nat \<Rightarrow> nat"
  sched_task_group :: "nat \<Rightarrow> nat"
  gt_queued :: "nat \<Rightarrow> bool"
  gt_running :: "nat \<Rightarrow> bool"
  gt_new :: "nat \<Rightarrow> bool"
  tg_calls :: "tg_call list"

text \<open>
  The rest of the kernel: the root group, whether the control groups are of version 2 (\<open>cgroup_subsys_on_dfl\<close>), what \<open>alloc_fair_sched_group\<close> and \<open>alloc_rt_sched_group\<close> store in a
  group, \<open>autogroup_task_group\<close>, which tasks are of a class with \<open>task_change_group\<close>, and \<open>sched_rt_can_attach\<close>.
\<close>

record tg_env =
  root_task_group :: nat
  on_dfl :: bool
  fair_group_init :: "nat \<Rightarrow> task_group \<Rightarrow> task_group"
  autogroup_task_group :: "nat \<Rightarrow> nat \<Rightarrow> nat"
  has_task_change_group :: "nat \<Rightarrow> bool"
  sched_rt_can_attach :: "nat \<Rightarrow> nat \<Rightarrow> bool"

abbreviation tg_note :: "tg_call list \<Rightarrow> tg_sys \<Rightarrow> tg_sys" where
  "tg_note cs s \<equiv> s\<lparr>tg_calls := tg_calls s @ cs\<rparr>"

text \<open>What \<open>__GFP_ZERO\<close> leaves; the list of the children is set up when the group goes online.\<close>

definition zero_group :: task_group where
  "zero_group =
     \<lparr>tg_parent = None, tg_children = [], shares = 0, cfs_period = 0, cfs_quota = 0, hierarchical_quota = 0,
      tg_cfs_rq = (\<lambda>_. \<lparr>runtime_enabled = False, runtime_remaining = 0, throttled = False\<rparr>),
      tg_uclamp_req = (\<lambda>_. \<lparr>se_value = 0, bucket_id = 0, active = False, user_defined = False\<rparr>),
      tg_uclamp = (\<lambda>_. \<lparr>se_value = 0, bucket_id = 0, active = False, user_defined = False\<rparr>), uclamp_pct = (\<lambda>_. 0)\<rparr>"

section \<open>Groups\<close>

definition sched_free_group :: "nat \<Rightarrow> tg_sys \<Rightarrow> tg_sys option" where
  "sched_free_group tg s =
     (if tg \<in> allocated s then Some (tg_note [Free_Parts tg] (s\<lparr>allocated := allocated s - {tg}\<rparr>)) else None)"

text \<open>
  \<open>mem\<close> is the answer of \<open>kmem_cache_alloc\<close>, \<open>fair\<close> and \<open>rt_ok\<close> are those of \<open>alloc_fair_sched_group\<close> and
  \<open>alloc_rt_sched_group\<close>.
\<close>

definition sched_create_group ::
    "tg_env \<Rightarrow> nat \<Rightarrow> nat option \<Rightarrow> bool \<Rightarrow> bool \<Rightarrow> nat \<Rightarrow> tg_sys \<Rightarrow> ((sched_error + nat) \<times> tg_sys) option" where
  "sched_create_group env n mem fair rt_ok parent s =
     (case mem of
        None \<Rightarrow> Some (Inl ENOMEM, s)
      | Some tg \<Rightarrow>
          let s1 = s\<lparr>gs := (gs s)(tg := zero_group), allocated := insert tg (allocated s)\<rparr> in
          if \<not> fair then map_option (\<lambda>s'. (Inl ENOMEM, s')) (sched_free_group tg s1)
          else let s2 = s1\<lparr>gs := (gs s1)(tg := fair_group_init env parent (gs s1 tg))\<rparr> in
               if \<not> rt_ok then map_option (\<lambda>s'. (Inl ENOMEM, s')) (sched_free_group tg s2)
               else Some (Inr tg, s2\<lparr>gs := alloc_uclamp_sched_group n tg parent (gs s2)\<rparr>))"

definition sched_online_group :: "nat \<Rightarrow> nat \<Rightarrow> tg_sys \<Rightarrow> tg_sys" where
  "sched_online_group tg parent s =
     (let G1 = (gs s)(tg := (gs s tg)\<lparr>tg_parent := Some parent, tg_children := []\<rparr>);
          G2 = G1(parent := (G1 parent)\<lparr>tg_children := tg # tg_children (G1 parent)\<rparr>)
      in tg_note [Online_Fair tg] (s\<lparr>task_groups := tg # task_groups s, gs := G2\<rparr>))"

definition sched_offline_group :: "nat \<Rightarrow> tg_sys \<Rightarrow> tg_sys option" where
  "sched_offline_group tg s =
     (case tg_parent (gs s tg) of
        None \<Rightarrow> None
      | Some parent \<Rightarrow>
          if tg \<in> set (task_groups s) \<and> tg \<in> set (tg_children (gs s parent))
          then Some ((tg_note [Unregister_Fair tg] s)
            \<lparr>task_groups := remove1 tg (task_groups s),
             gs := (gs s)(parent := (gs s parent)\<lparr>tg_children := remove1 tg (tg_children (gs s parent))\<rparr>)\<rparr>)
          else None)"

section \<open>Tasks\<close>

text \<open>\<open>move\<close> tells \<open>TASK_MOVE_GROUP\<close> from \<open>TASK_SET_GROUP\<close>.\<close>

definition sched_change_group :: "tg_env \<Rightarrow> nat \<Rightarrow> bool \<Rightarrow> tg_sys \<Rightarrow> tg_sys" where
  "sched_change_group env t move s =
     (let tg = autogroup_task_group env t (task_css s t)
      in tg_note [if has_task_change_group env t then Change_Group t tg move else Set_Task_Rq t tg]
           (s\<lparr>sched_task_group := (sched_task_group s)(t := tg)\<rparr>))"

definition sched_move_task :: "tg_env \<Rightarrow> nat \<Rightarrow> tg_sys \<Rightarrow> tg_sys" where
  "sched_move_task env t s =
     (let running = gt_running s t; queued = gt_queued s t;
          s1 = tg_note ([Update_Clock t] @ (if queued then [Dequeue_From (sched_task_group s t) t] else []) @
                 (if running then [Put_Prev_Task t] else [])) s;
          s2 = sched_change_group env t True s1
      in tg_note ((if queued then [Enqueue_To (sched_task_group s2 t) t] else []) @
           (if running then [Set_Next_Task t, Resched_Curr t] else [])) s2)"

section \<open>Control groups\<close>

definition cpu_cgroup_css_alloc ::
    "tg_env \<Rightarrow> nat \<Rightarrow> nat option \<Rightarrow> bool \<Rightarrow> bool \<Rightarrow> nat option \<Rightarrow> tg_sys \<Rightarrow> ((sched_error + nat) \<times> tg_sys) option" where
  "cpu_cgroup_css_alloc env n mem fair rt_ok parent_css s =
     (case parent_css of
        None \<Rightarrow> Some (Inr (root_task_group env), s)
      | Some parent \<Rightarrow>
          (case sched_create_group env n mem fair rt_ok parent s of
             None \<Rightarrow> None
           | Some (Inl _, s') \<Rightarrow> Some (Inl ENOMEM, s')
           | Some (Inr tg, s') \<Rightarrow> Some (Inr tg, s')))"

text \<open>\<open>t\<close> is the tree of control groups at \<open>css\<close>.\<close>

definition cpu_cgroup_css_online :: "nat \<Rightarrow> gtree \<Rightarrow> tg_sys \<Rightarrow> tg_sys \<times> (nat \<times> uclamp_id list) list" where
  "cpu_cgroup_css_online n t s =
     (let s1 = (case css_parent s (root t) of None \<Rightarrow> s | Some parent \<Rightarrow> sched_online_group (root t) parent s)
      in case cpu_util_update_eff n t (gs s1) of (G, updates) \<Rightarrow> (s1\<lparr>gs := G\<rparr>, updates))"

definition cpu_cgroup_css_released :: "nat \<Rightarrow> tg_sys \<Rightarrow> tg_sys option" where
  "cpu_cgroup_css_released css s = sched_offline_group css s"

definition cpu_cgroup_css_free :: "nat \<Rightarrow> tg_sys \<Rightarrow> tg_sys option" where
  "cpu_cgroup_css_free css s = sched_free_group css s"

definition cpu_cgroup_fork :: "tg_env \<Rightarrow> nat \<Rightarrow> tg_sys \<Rightarrow> tg_sys" where
  "cpu_cgroup_fork env t s = sched_change_group env t False (tg_note [Update_Clock t] s)"

text \<open>A \<open>cgroup_taskset\<close> is a list of tasks with their new control groups.\<close>

fun cpu_cgroup_can_attach :: "tg_env \<Rightarrow> (nat \<times> nat) list \<Rightarrow> tg_sys \<Rightarrow> sched_error option" where
  "cpu_cgroup_can_attach env [] s = None"
| "cpu_cgroup_can_attach env ((t, css) # tset) s =
     (if \<not> sched_rt_can_attach env css t then Some EINVAL
      else if gt_new s t then Some EINVAL
      else cpu_cgroup_can_attach env tset s)"

fun cpu_cgroup_attach :: "tg_env \<Rightarrow> (nat \<times> nat) list \<Rightarrow> tg_sys \<Rightarrow> tg_sys" where
  "cpu_cgroup_attach env [] s = s"
| "cpu_cgroup_attach env ((t, css) # tset) s = cpu_cgroup_attach env tset (sched_move_task env t s)"

section \<open>Trees\<close>

text \<open>The tree with a new leaf \<open>g\<close> as the first child of \<open>p\<close>, and the tree without the subtree at \<open>g\<close>.\<close>

fun add_under :: "nat \<Rightarrow> nat \<Rightarrow> gtree \<Rightarrow> gtree" where
  "add_under p g (Group r ts) = Group r ((if r = p then [Group g []] else []) @ map (add_under p g) ts)"

fun prune :: "nat \<Rightarrow> gtree \<Rightarrow> gtree" where
  "prune g (Group r ts) = Group r (map (prune g) (filter (\<lambda>t. root t \<noteq> g) ts))"

lemma root_add_under [simp]: "root (add_under p g t) = root t"
  by (cases t) simp

lemma root_prune [simp]: "root (prune g t) = root t"
  by (cases t) simp

lemma child_in_ids: "u \<in> set ts \<Longrightarrow> root u \<in> set (concat (map ids ts))"
  by simp (metis root_in_ids)

lemma mset_add_under: "mset (ids (add_under p g t)) = mset (ids t) + replicate_mset (count (mset (ids t)) p) g"
proof (induction t)
  case (Group r ts)
  have "mset (concat (map ids (map (add_under p g) ts))) =
      mset (concat (map ids ts)) + replicate_mset (count (mset (concat (map ids ts))) p) g"
    using Group.IH by (induction ts) (auto simp: multiset_eq_iff)
  then show ?case by (cases "r = p") (simp_all add: comp_def)
qed

lemma ids_add_under:
  assumes "distinct (ids t)" and "p \<in> set (ids t)" and "g \<notin> set (ids t)"
  shows "distinct (ids (add_under p g t))" "set (ids (add_under p g t)) = insert g (set (ids t))"
proof -
  have m: "mset (ids (add_under p g t)) = mset (g # ids t)"
    using assms(1,2) by (simp add: mset_add_under distinct_count_atmost_1)
  show "distinct (ids (add_under p g t))" using mset_eq_imp_distinct_iff [OF m] assms(1,3) by simp
  show "set (ids (add_under p g t)) = insert g (set (ids t))" using mset_eq_setD [OF m] by simp
qed

text \<open>A group without children is alone in its subtree.\<close>

lemma mset_prune:
  assumes "holds G t" and "tg_children (G g) = []" and "root t \<noteq> g"
  shows "mset (ids (prune g t)) = filter_mset (\<lambda>x. x \<noteq> g) (mset (ids t))"
  using assms
proof (induction t)
  case (Group r ts)
  have leaf: "u = Group g []" if "u \<in> set ts" "root u = g" for u
    using Group.prems(1,2) that by (cases u) auto
  have sub: "mset (ids (prune g u)) = filter_mset (\<lambda>x. x \<noteq> g) (mset (ids u))" if "u \<in> set ts" "root u \<noteq> g" for u
    using Group.IH [OF that(1)] Group.prems that by auto
  have "mset (concat (map ids (map (prune g) (filter (\<lambda>t. root t \<noteq> g) ts)))) = filter_mset (\<lambda>x. x \<noteq> g) (mset (concat (map ids ts)))"
    using leaf sub
  proof (induction ts)
    case (Cons u ts)
    then show ?case using Cons.prems(1) [of u] Cons.prems(2) [of u] by (cases "root u = g") auto
  qed simp
  then show ?case using Group.prems(3) by simp
qed

lemma ids_prune:
  assumes "holds G t" and "distinct (ids t)" and "tg_children (G g) = []" and "root t \<noteq> g"
  shows "distinct (ids (prune g t))" "set (ids (prune g t)) = set (ids t) - {g}"
proof -
  have "mset (ids (prune g t)) = mset (filter (\<lambda>x. x \<noteq> g) (ids t))"
    using mset_prune [OF assms(1,3,4)] by simp
  then have "distinct (ids (prune g t)) \<longleftrightarrow> distinct (filter (\<lambda>x. x \<noteq> g) (ids t))" "set (ids (prune g t)) = set (filter (\<lambda>x. x \<noteq> g) (ids t))"
    using mset_eq_imp_distinct_iff mset_eq_setD by blast+
  then show "distinct (ids (prune g t))" "set (ids (prune g t)) = set (ids t) - {g}" using assms(2) by auto
qed

lemma holds_add_under:
  assumes "holds G t" and "g \<notin> set (ids t)"
    and "\<And>x. x \<noteq> g \<Longrightarrow> tg_parent (H x) = tg_parent (G x) \<and> tg_children (H x) = (if x = p then [g] else []) @ tg_children (G x)"
    and "tg_parent (H g) = Some p" and "tg_children (H g) = []"
  shows "holds H (add_under p g t)"
  using assms(1,2)
proof (induction t)
  case (Group r ts)
  have ng: "root u \<noteq> g" if "u \<in> set ts" for u using Group.prems(2) child_in_ids [OF that] by auto
  have "holds H (add_under p g u) \<and> tg_parent (H (root u)) = Some r" if u: "u \<in> set ts" for u
    using Group.IH [OF u] Group.prems u assms(3) [OF ng [OF u]] by auto
  moreover have "tg_children (H r) = (if r = p then [g] else []) @ map root ts" using Group.prems assms(3) [of r] by auto
  ultimately show ?case using assms(4,5) by (auto simp: comp_def)
qed

lemma holds_prune:
  assumes "holds G t" and "distinct (ids t)" and "tg_parent (G g) = Some q"
    and "\<And>x. tg_parent (H x) = tg_parent (G x) \<and> tg_children (H x) = (if x = q then remove1 g (tg_children (G x)) else tg_children (G x))"
  shows "holds H (prune g t)"
  using assms(1,2)
proof (induction t)
  case (Group r ts)
  have d: "distinct (map root ts)" using Group.prems(2) distinct_roots [of ts] by simp
  have "tg_children (H r) = filter (\<lambda>x. x \<noteq> g) (map root ts)"
  proof (cases "r = q")
    case True
    moreover have "remove1 g (map root ts) = filter (\<lambda>x. x \<noteq> g) (map root ts)"
      using d by (simp only: distinct_remove1_removeAll removeAll_filter_not_eq) (metis (full_types))
    ultimately show ?thesis using Group.prems(1) assms(4) by simp
  next
    case False
    then have "root u \<noteq> g" if "u \<in> set ts" for u using Group.prems(1) assms(3) that by auto
    then show ?thesis using Group.prems(1) assms(4) False by (auto simp: filter_id_conv)
  qed
  moreover have "map root (map (prune g) (filter (\<lambda>t. root t \<noteq> g) ts)) = filter (\<lambda>x. x \<noteq> g) (map root ts)"
    by (simp add: filter_map comp_def)
  ultimately show ?case using Group.IH Group.prems distinct_child [of ts] assms(4) by auto
qed

text \<open>The pointers determine the tree.\<close>

lemma holds_unique: "holds G t \<Longrightarrow> holds G u \<Longrightarrow> root t = root u \<Longrightarrow> t = u"
proof (induction t arbitrary: u)
  case (Group r ts)
  obtain us where u: "u = Group r us" using Group.prems(3) by (cases u) auto
  have roots: "map root ts = map root us" using Group.prems(1,2) u by simp
  have "ts = us"
  proof (rule nth_equalityI)
    show "length ts = length us" using map_eq_imp_length_eq [OF roots] .
    fix i assume i: "i < length ts"
    then have "root (ts ! i) = root (us ! i)" using roots by (metis map_eq_imp_length_eq nth_map)
    then show "ts ! i = us ! i"
      using Group.IH [of "ts ! i" "us ! i"] Group.prems u i map_eq_imp_length_eq [OF roots] by simp
  qed
  then show ?case using u by simp
qed

lemma subtree_exists:
  assumes "holds G t" and "g \<in> set (ids t)" and "distinct (ids t)" and "\<forall>p. tg_parent (G (root t)) = Some p \<longrightarrow> p \<notin> set (ids t)"
  shows "\<exists>u. holds G u \<and> root u = g \<and> set (ids u) \<subseteq> set (ids t) \<and> distinct (ids u) \<and>
    (\<forall>p. tg_parent (G g) = Some p \<longrightarrow> p \<notin> set (ids u))"
  using assms
proof (induction t)
  case (Group r ts)
  show ?case
  proof (cases "g = r")
    case True
    then show ?thesis using Group.prems by (intro exI [of _ "Group r ts"]) auto
  next
    case False
    then obtain u where u: "u \<in> set ts" "g \<in> set (ids u)" using Group.prems(2) by auto
    then have "distinct (ids u)" "holds G u" "tg_parent (G (root u)) = Some r" "r \<notin> set (ids u)"
      using Group.prems(1,3) distinct_child [of ts u] by auto
    then obtain v where "holds G v \<and> root v = g \<and> set (ids v) \<subseteq> set (ids u) \<and> distinct (ids v) \<and>
        (\<forall>p. tg_parent (G g) = Some p \<longrightarrow> p \<notin> set (ids v))"
      using Group.IH [OF u(1)] u(2) by auto
    then show ?thesis using u(1) by (intro exI [of _ v]) auto
  qed
qed

end
