(* ===== verification/Group_Tree_Main.thy ===== *)
theory Group_Tree_Main
  imports Group_Tree
begin

text \<open>
  Histories of task groups: the control groups create, show, remove and free groups, tasks come, go and are moved, quotas and
  clamps are set. All of them together keep the tree of groups, the limits and the clamps in it, and the queues of tasks.
\<close>

section \<open>Histories\<close>

text \<open>
  What the control groups know besides: in which phase of its life a group is, and the tasks that exist. \<open>A\<close> are the groups that
  \<open>autogroup.c\<close> has made; they are children of the root group and stay online while tasks are in them.
\<close>

datatype css_phase = Css_None | Css_New | Css_Online | Css_Released

record tg_world =
  core :: tg_sys
  phase :: "nat \<Rightarrow> css_phase"
  alive :: "nat set"

text \<open>A group holds a reference to its parent until it has been freed.\<close>

definition childless :: "tg_world \<Rightarrow> nat \<Rightarrow> bool" where
  "childless w g \<longleftrightarrow> (\<forall>c. phase w c \<noteq> Css_None \<longrightarrow> css_parent (core w) c \<noteq> Some g)"

inductive tg_step :: "bw_hdr \<Rightarrow> tg_env \<Rightarrow> nat \<Rightarrow> tg_world \<Rightarrow> tg_world \<Rightarrow> bool" for h env n where
  failed: "phase w p = Css_Online \<Longrightarrow> \<forall>g. mem = Some g \<longrightarrow> g \<notin> allocated (core w) \<Longrightarrow>
    cpu_cgroup_css_alloc env n mem fair rt_ok (Some p) (core w) = Some (Inl e, s) \<Longrightarrow> tg_step h env n w (w\<lparr>core := s\<rparr>)"
| created: "phase w p = Css_Online \<Longrightarrow> \<forall>g. mem = Some g \<longrightarrow> g \<notin> allocated (core w) \<Longrightarrow>
    cpu_cgroup_css_alloc env n mem fair rt_ok (Some p) (core w) = Some (Inr g, s) \<Longrightarrow>
    tg_step h env n w (w\<lparr>core := s\<lparr>css_parent := (css_parent s)(g := Some p)\<rparr>, phase := (phase w)(g := Css_New)\<rparr>)"
| shown: "phase w g = Css_New \<Longrightarrow> cpu_cgroup_css_online n (Group g []) (core w) = (s, updates) \<Longrightarrow>
    tg_step h env n w (w\<lparr>core := s, phase := (phase w)(g := Css_Online)\<rparr>)"
| released: "phase w g = Css_Online \<Longrightarrow> g \<noteq> root_task_group env \<Longrightarrow> childless w g \<Longrightarrow>
    \<forall>t \<in> alive w. task_css (core w) t \<noteq> g \<Longrightarrow> cpu_cgroup_css_released g (core w) = Some s \<Longrightarrow>
    tg_step h env n w (w\<lparr>core := s, phase := (phase w)(g := Css_Released)\<rparr>)"
| freed: "phase w g = Css_New \<or> phase w g = Css_Released \<Longrightarrow> childless w g \<Longrightarrow> cpu_cgroup_css_free g (core w) = Some s \<Longrightarrow>
    tg_step h env n w (w\<lparr>core := s, phase := (phase w)(g := Css_None)\<rparr>)"
| forked: "t \<notin> alive w \<Longrightarrow> q \<in> alive w \<Longrightarrow>
    tg_step h env n w (w\<lparr>core := cpu_cgroup_fork env t ((core w)\<lparr>task_css := (task_css (core w))(t := task_css (core w) q),
      gt_new := (gt_new (core w))(t := True)\<rparr>), alive := insert t (alive w)\<rparr>)"
| woken: "t \<in> alive w \<Longrightarrow> \<not> gt_queued (core w) t \<Longrightarrow>
    tg_step h env n w (w\<lparr>core := tg_note [Enqueue_To (sched_task_group (core w) t) t]
      ((core w)\<lparr>gt_queued := (gt_queued (core w))(t := True), gt_new := (gt_new (core w))(t := False)\<rparr>)\<rparr>)"
| slept: "gt_queued (core w) t \<Longrightarrow>
    tg_step h env n w (w\<lparr>core := tg_note [Dequeue_From (sched_task_group (core w) t) t]
      ((core w)\<lparr>gt_queued := (gt_queued (core w))(t := False)\<rparr>)\<rparr>)"
| switched: "tg_step h env n w (w\<lparr>core := (core w)\<lparr>gt_running := r\<rparr>\<rparr>)"
| exited: "\<not> gt_queued (core w) t \<Longrightarrow> tg_step h env n w (w\<lparr>alive := alive w - {t}\<rparr>)"
| attached: "cpu_cgroup_can_attach env tset (core w) = None \<Longrightarrow> fst ` set tset \<subseteq> alive w \<Longrightarrow>
    \<forall>c \<in> snd ` set tset. phase w c = Css_Online \<Longrightarrow>
    tg_step h env n w (w\<lparr>core := cpu_cgroup_attach env tset ((core w)\<lparr>task_css :=
      (\<lambda>t. case map_of tset t of Some c \<Rightarrow> c | None \<Rightarrow> task_css (core w) t)\<rparr>)\<rparr>)"
| regrouped: "t \<in> alive w \<Longrightarrow> tg_step h env n w (w\<lparr>core := sched_move_task env t (core w)\<rparr>)"
| limit: "phase w g = Css_Online \<Longrightarrow> 0 \<le> quota \<Longrightarrow> quota < 2 ^ 64 \<Longrightarrow>
    tg_set_cfs_bandwidth h (on_dfl env) cpus (root_task_group env) g period quota (gs (core w)) = Some (ret, G, calls) \<Longrightarrow>
    tg_step h env n w (w\<lparr>core := (core w)\<lparr>gs := G\<rparr>\<rparr>)"
| request: "phase w (root u) = Css_Online \<Longrightarrow> holds (gs (core w)) u \<Longrightarrow>
    cpu_uclamp_write parse n u i buf (sys, gs (core w)) = Inr (sys', G, updates) \<Longrightarrow>
    tg_step h env n w (w\<lparr>core := (core w)\<lparr>gs := G\<rparr>\<rparr>)"

text \<open>
  What is assumed of \<open>fair.c\<close> and \<open>autogroup.c\<close>: a new group has no limit and no place in the tree yet; a task is in the
  group of its control group or in one of the groups \<open>A\<close>.
\<close>

definition tg_env_ok :: "tg_env \<Rightarrow> nat set \<Rightarrow> bool" where
  "tg_env_ok env A \<longleftrightarrow>
     (\<forall>p tg. let x = fair_group_init env p tg in valid_bw x \<and> \<not> limited x \<and> hierarchical_quota x = hierarchical_quota tg \<and>
        tg_parent x = tg_parent tg \<and> tg_children x = tg_children tg \<and> tg_uclamp x = tg_uclamp tg \<and>
        tg_uclamp_req x = tg_uclamp_req tg) \<and>
     (\<forall>t g. autogroup_task_group env t g = g \<or> autogroup_task_group env t g \<in> A)"

section \<open>The invariant\<close>

text \<open>The queues of the groups, from the calls of the scheduling classes.\<close>

fun queue_call :: "tg_call \<Rightarrow> (nat \<times> nat) set \<Rightarrow> (nat \<times> nat) set" where
  "queue_call (Dequeue_From g t) S = S - {(g, t)}"
| "queue_call (Enqueue_To g t) S = insert (g, t) S"
| "queue_call _ S = S"

definition queued_in :: "tg_call list \<Rightarrow> (nat \<times> nat) set" where
  "queued_in cs = fold queue_call cs {}"

definition queues_ok :: "tg_sys \<Rightarrow> bool" where
  "queues_ok s \<longleftrightarrow> queued_in (tg_calls s) = {(g, t). gt_queued s t \<and> g = sched_task_group s t}"

text \<open>With version 1 of the control groups a limited group has no larger share than a limited ancestor; version 2 accepts every quota.\<close>

definition shares_ok :: "bool \<Rightarrow> gtree \<Rightarrow> groups \<Rightarrow> bool" where
  "shares_ok dfl t G \<longleftrightarrow> dfl \<or> hierarchy_ok t G"

definition tree_ok :: "bool \<Rightarrow> gtree \<Rightarrow> groups \<Rightarrow> bool" where
  "tree_ok dfl t G \<longleftrightarrow> bw_inv t G \<and> shares_ok dfl t G \<and> clamp_typed G \<and> (\<forall>g \<in> set (ids t). eff_ok G g)"

definition css_ok :: "tg_env \<Rightarrow> nat set \<Rightarrow> gtree \<Rightarrow> tg_world \<Rightarrow> bool" where
  "css_ok env A t w \<longleftrightarrow>
     root t = root_task_group env \<and> phase w (root t) = Css_Online \<and>
     distinct (task_groups (core w)) \<and> set (task_groups (core w)) = set (ids t) \<and>
     set (ids t) = {g. phase w g = Css_Online} \<union> A \<and> (\<forall>a \<in> A. phase w a = Css_None) \<and>
     allocated (core w) = {g. phase w g \<noteq> Css_None} \<union> A \<and>
     (\<forall>g. phase w g \<noteq> Css_None \<and> g \<noteq> root t \<longrightarrow> css_parent (core w) g \<noteq> None \<and> phase w (the (css_parent (core w) g)) = Css_Online) \<and>
     (\<forall>g \<in> set (ids t). g \<noteq> root t \<longrightarrow> tg_parent (gs (core w) g) = (if g \<in> A then Some (root t) else css_parent (core w) g)) \<and>
     (\<forall>g. phase w g = Css_New \<longrightarrow> valid_bw (gs (core w) g) \<and> \<not> limited (gs (core w) g))"

definition tasks_ok :: "nat set \<Rightarrow> tg_world \<Rightarrow> bool" where
  "tasks_ok A w \<longleftrightarrow>
     (\<forall>t \<in> alive w. phase w (task_css (core w) t) = Css_Online \<and>
        (sched_task_group (core w) t = task_css (core w) t \<or> sched_task_group (core w) t \<in> A)) \<and>
     (\<forall>t. gt_queued (core w) t \<longrightarrow> t \<in> alive w) \<and> queues_ok (core w)"

definition world_ok :: "tg_env \<Rightarrow> nat set \<Rightarrow> gtree \<Rightarrow> tg_world \<Rightarrow> bool" where
  "world_ok env A t w \<longleftrightarrow> tree_ok (on_dfl env) t (gs (core w)) \<and> css_ok env A t w \<and> tasks_ok A w"

section \<open>Pointers outside the change\<close>

lemma holds_cong: "(\<And>x. x \<in> set (ids t) \<Longrightarrow> tg_parent (H x) = tg_parent (G x) \<and> tg_children (H x) = tg_children (G x)) \<Longrightarrow>
  holds G t \<Longrightarrow> holds H t"
proof (induction t)
  case (Group r ts)
  have "holds H u \<and> tg_parent (H (root u)) = Some r" if u: "u \<in> set ts" for u
  proof -
    have "set (ids u) \<subseteq> set (ids (Group r ts))" using u by auto
    then show ?thesis using Group.IH [OF u] Group.prems u root_in_ids [of u] by (metis holds.simps subsetD)
  qed
  then show ?case using Group.prems by simp
qed

lemma children_in_ids: "holds G t \<Longrightarrow> p \<in> set (ids t) \<Longrightarrow> x \<in> set (tg_children (G p)) \<Longrightarrow> x \<in> set (ids t) \<and> tg_parent (G x) = Some p"
proof (induction t)
  case (Group r ts)
  show ?case
  proof (cases "p = r")
    case True
    then obtain u where "u \<in> set ts" "x = root u" using Group.prems by auto
    then show ?thesis using Group.prems(1) True child_in_ids [of u ts] by simp
  next
    case False
    then obtain u where u: "u \<in> set ts" "p \<in> set (ids u)" using Group.prems(2) by auto
    then show ?thesis using Group.IH [OF u(1)] Group.prems(1,3) by auto
  qed
qed

lemma in_children:
  "holds G t \<Longrightarrow> x \<in> set (ids t) \<Longrightarrow> x \<noteq> root t \<Longrightarrow> \<exists>p \<in> set (ids t). tg_parent (G x) = Some p \<and> x \<in> set (tg_children (G p))"
proof (induction t)
  case (Group r ts)
  then obtain u where u: "u \<in> set ts" "x \<in> set (ids u)" by auto
  show ?case
  proof (cases "x = root u")
    case True
    then show ?thesis using Group.prems(1) u(1) by auto
  next
    case False
    then show ?thesis using Group.IH [OF u(1) _ u(2)] Group.prems(1) u(1) by fastforce
  qed
qed

lemma ancestor_agree:
  assumes "ancestor H a g" and "g \<in> S" and "\<And>x. x \<in> S \<Longrightarrow> tg_parent (H x) = tg_parent (G x)"
    and "\<And>x p. x \<in> S \<Longrightarrow> tg_parent (G x) = Some p \<Longrightarrow> p \<in> S"
  shows "ancestor G a g"
  using assms(1,2) unfolding ancestor_def
proof (induction rule: tranclp_induct)
  case (base y)
  then show ?case using assms(3) by (auto intro: tranclp.r_into_trancl)
next
  case (step y z)
  then have "y \<in> S" "tg_parent (G z) = Some y" using assms(3,4) by auto
  then show ?case using step.IH by (auto intro: tranclp.trancl_into_trancl)
qed

lemma hierarchy_sub:
  assumes inv: "bw_inv t G" and ok: "hierarchy_ok t G" and new: "\<And>x. x \<in> set (ids u) \<Longrightarrow> x \<in> set (ids t) \<or> \<not> limited (H x)"
    and same: "\<And>x. x \<in> set (ids t) \<Longrightarrow> tg_parent (H x) = tg_parent (G x) \<and> cfs_quota (H x) = cfs_quota (G x) \<and> cfs_period (H x) = cfs_period (G x)"
  shows "hierarchy_ok u H"
  unfolding hierarchy_ok_def
proof (intro ballI allI impI, elim conjE)
  fix g a
  assume g: "g \<in> set (ids u)" and an: "ancestor H a g" and lim: "limited (H a)" "limited (H g)"
  have gt: "g \<in> set (ids t)" using new g lim by blast
  then have an': "ancestor G a g" using ancestor_agree [OF an] same parent_closed [OF inv] by blast
  have "a \<in> set (ids t)" by (rule ancestor_closed [OF inv an' gt])
  then show "cpu_share (H g) \<le> cpu_share (H a)"
    using ok an' gt lim same unfolding hierarchy_ok_def limited_def cpu_share_def by metis
qed

lemma shares_sub:
  assumes "bw_inv t G" and "shares_ok dfl t G" and "\<And>x. x \<in> set (ids u) \<Longrightarrow> x \<in> set (ids t) \<or> \<not> limited (H x)"
    and "\<And>x. x \<in> set (ids t) \<Longrightarrow> tg_parent (H x) = tg_parent (G x) \<and> cfs_quota (H x) = cfs_quota (G x) \<and> cfs_period (H x) = cfs_period (G x)"
  shows "shares_ok dfl u H"
  using hierarchy_sub [OF assms(1) _ assms(3,4)] assms(2) by (auto simp: shares_ok_def)

lemma eff_ok_fields:
  assumes "tg_parent (H x) = tg_parent (G x)" and "tg_uclamp_req (H x) = tg_uclamp_req (G x)" and "tg_uclamp (H x) = tg_uclamp (G x)"
    and "\<And>p. tg_parent (G x) = Some p \<Longrightarrow> tg_uclamp (H p) = tg_uclamp (G p)"
  shows "eff_ok H x \<longleftrightarrow> eff_ok G x"
  using eff_clamp_cong [of H x G] assms by (simp add: eff_ok_iff)

lemma tree_ok_frame:
  assumes ok: "tree_ok (on_dfl env) t G" and same: "\<And>x. x \<in> set (ids t) \<Longrightarrow> H x = G x" and typed: "hq_typed H" "clamp_typed H"
  shows "tree_ok (on_dfl env) t H"
proof -
  have inv: "bw_inv t G" using ok by (simp add: tree_ok_def)
  have "bw_inv t H"
    using inv same typed(1) holds_cong [of t H G] root_in_ids [of t] unfolding bw_inv_def by metis
  moreover have "shares_ok (on_dfl env) t H" by (rule shares_sub [OF inv]) (use ok same in \<open>auto simp: tree_ok_def\<close>)
  moreover have "eff_ok H x" if "x \<in> set (ids t)" for x
    using eff_ok_fields [of H x G] same parent_closed [OF inv that] ok that by (auto simp: tree_ok_def)
  ultimately show ?thesis using typed(2) by (simp add: tree_ok_def)
qed

section \<open>Creating and freeing\<close>

lemma css_okD:
  assumes "css_ok env A t w"
  shows "root t = root_task_group env" "phase w (root t) = Css_Online" "distinct (task_groups (core w))"
    "set (task_groups (core w)) = set (ids t)" "set (ids t) = {g. phase w g = Css_Online} \<union> A" "a \<in> A \<Longrightarrow> phase w a = Css_None"
    "allocated (core w) = {g. phase w g \<noteq> Css_None} \<union> A"
    "phase w g \<noteq> Css_None \<Longrightarrow> g \<noteq> root t \<Longrightarrow> css_parent (core w) g \<noteq> None \<and> phase w (the (css_parent (core w) g)) = Css_Online"
    "g \<in> set (ids t) \<Longrightarrow> g \<noteq> root t \<Longrightarrow> tg_parent (gs (core w) g) = (if g \<in> A then Some (root t) else css_parent (core w) g)"
    "phase w g = Css_New \<Longrightarrow> valid_bw (gs (core w) g) \<and> \<not> limited (gs (core w) g)"
  using assms by (auto simp: css_ok_def)

text \<open>The memory of a new group is written before it is known to the control groups.\<close>

lemma written_fresh:
  assumes ok: "world_ok env A t w" and fresh: "g \<notin> allocated (core w)"
    and x: "- (2 ^ 63) \<le> hierarchical_quota x" "hierarchical_quota x < 2 ^ 63"
      "\<And>i. se_value (tg_uclamp_req x i) < 2 ^ 11" "\<And>i. se_value (tg_uclamp x i) < 2 ^ 11"
  shows "world_ok env A t (w\<lparr>core := (core w)\<lparr>gs := (gs (core w))(g := x), tg_calls := tg_calls (core w) @ [Free_Parts g]\<rparr>\<rparr>)" (is ?P)
    "tree_ok (on_dfl env) t ((gs (core w))(g := x))" (is ?Q)
proof -
  have css: "css_ok env A t w" and tree: "tree_ok (on_dfl env) t (gs (core w))" and tasks: "tasks_ok A w" using ok by (auto simp: world_ok_def)
  have gt: "g \<notin> set (ids t)" "phase w g = Css_None" using css_okD(5,7) [OF css] fresh by auto
  have "hq_typed (gs (core w))" "clamp_typed (gs (core w))" using tree by (auto simp: tree_ok_def bw_inv_def)
  then have "hq_typed ((gs (core w))(g := x))" "clamp_typed ((gs (core w))(g := x))"
    using x by (auto simp: hq_typed_def clamp_typed_def)
  then show q: ?Q using tree gt by (intro tree_ok_frame [OF tree]) auto
  have "css_ok env A t (w\<lparr>core := (core w)\<lparr>gs := (gs (core w))(g := x), tg_calls := tg_calls (core w) @ [Free_Parts g]\<rparr>\<rparr>)"
    using css gt by (auto simp: css_ok_def)
  moreover have "tasks_ok A (w\<lparr>core := (core w)\<lparr>gs := (gs (core w))(g := x), tg_calls := tg_calls (core w) @ [Free_Parts g]\<rparr>\<rparr>)"
    using tasks by (auto simp: tasks_ok_def queues_ok_def queued_in_def)
  ultimately show ?P using q by (simp add: world_ok_def)
qed

lemma zero_group_typed:
  "hierarchical_quota zero_group = 0" "se_value (tg_uclamp_req zero_group i) = 0" "se_value (tg_uclamp zero_group i) = 0"
  by (simp_all add: zero_group_def)

lemma failed_ok:
  assumes env: "tg_env_ok env A" and ok: "world_ok env A t w" and fresh: "\<forall>g. mem = Some g \<longrightarrow> g \<notin> allocated (core w)"
    and r: "cpu_cgroup_css_alloc env n mem fair rt_ok (Some p) (core w) = Some (Inl e, s)"
  shows "world_ok env A t (w\<lparr>core := s\<rparr>)"
proof (cases mem)
  case None
  then have "s = core w" using r by (simp add: cpu_cgroup_css_alloc_def sched_create_group_def)
  then show ?thesis using ok by (cases w) simp
next
  case (Some g)
  then have g: "g \<notin> allocated (core w)" using fresh by simp
  let ?x = "fair_group_init env p zero_group"
  have x: "hierarchical_quota ?x = 0" "tg_uclamp ?x = tg_uclamp zero_group" "tg_uclamp_req ?x = tg_uclamp_req zero_group"
    using env zero_group_typed unfolding tg_env_ok_def Let_def by auto
  have "s = (core w)\<lparr>gs := (gs (core w))(g := if fair then ?x else zero_group), tg_calls := tg_calls (core w) @ [Free_Parts g]\<rparr>"
    using r Some g
    by (auto simp: cpu_cgroup_css_alloc_def sched_create_group_def sched_free_group_def Let_def split: if_splits)
  then show ?thesis
    using written_fresh(1) [OF ok g, of ?x] written_fresh(1) [OF ok g, of zero_group] x zero_group_typed by simp
qed

lemma created_ok:
  assumes env: "tg_env_ok env A" and ok: "world_ok env A t w" and fresh: "\<forall>g. mem = Some g \<longrightarrow> g \<notin> allocated (core w)"
    and p: "phase w p = Css_Online"
    and r: "cpu_cgroup_css_alloc env n mem fair rt_ok (Some p) (core w) = Some (Inr g, s)"
  shows "world_ok env A t (w\<lparr>core := s\<lparr>css_parent := (css_parent s)(g := Some p)\<rparr>, phase := (phase w)(g := Css_New)\<rparr>)"
proof -
  have css: "css_ok env A t w" and tree: "tree_ok (on_dfl env) t (gs (core w))" and tasks: "tasks_ok A w" using ok by (auto simp: world_ok_def)
  define x where "x = (fair_group_init env p zero_group)\<lparr>tg_uclamp_req := (\<lambda>i. uclamp_se_set n (uclamp_none i) False
      (tg_uclamp_req zero_group i)), tg_uclamp := tg_uclamp (gs (core w) p)\<rparr>"
  have fair: "valid_bw (fair_group_init env p zero_group)" "\<not> limited (fair_group_init env p zero_group)"
    "hierarchical_quota (fair_group_init env p zero_group) = 0" "tg_uclamp_req (fair_group_init env p zero_group) = tg_uclamp_req zero_group"
    using env zero_group_typed unfolding tg_env_ok_def Let_def by auto
  have g: "mem = Some g" "g \<notin> allocated (core w)" using r fresh
    by (auto simp: cpu_cgroup_css_alloc_def sched_create_group_def sched_free_group_def Let_def split: option.splits if_splits)
  have gt: "g \<notin> set (ids t)" "phase w g = Css_None" "g \<notin> A" using css_okD(5,7) [OF css] g(2) by auto
  have "p \<noteq> g" using p gt by auto
  then have s: "s = (core w)\<lparr>gs := (gs (core w))(g := x), allocated := insert g (allocated (core w))\<rparr>"
    using r g(1) fair(4)
    by (auto simp: cpu_cgroup_css_alloc_def sched_create_group_def sched_free_group_def alloc_uclamp_sched_group_def x_def Let_def
        split: if_splits)
  have lim: "valid_bw x" "\<not> limited x" "hierarchical_quota x = 0" using fair by (auto simp: x_def valid_bw_def limited_def)
  have "clamp_typed (gs (core w))" using tree by (simp add: tree_ok_def)
  then have "tree_ok (on_dfl env) t (gs s)"
    using written_fresh(2) [OF ok g(2), of x] lim(3) by (simp add: s) (simp add: x_def uclamp_se_set_def clamp_typed_def)
  moreover have "css_ok env A t (w\<lparr>core := s\<lparr>css_parent := (css_parent s)(g := Some p)\<rparr>, phase := (phase w)(g := Css_New)\<rparr>)"
    using css gt p lim unfolding css_ok_def by (auto simp: s)
  moreover have "tasks_ok A (w\<lparr>core := s\<lparr>css_parent := (css_parent s)(g := Some p)\<rparr>, phase := (phase w)(g := Css_New)\<rparr>)"
    using tasks gt by (auto simp: tasks_ok_def queues_ok_def s)
  ultimately show ?thesis by (simp add: world_ok_def)
qed

lemma freed_ok:
  assumes ok: "world_ok env A t w" and g: "phase w g = Css_New \<or> phase w g = Css_Released"
    and r: "cpu_cgroup_css_free g (core w) = Some s"
  shows "world_ok env A t (w\<lparr>core := s, phase := (phase w)(g := Css_None)\<rparr>)"
proof -
  have s: "s = tg_note [Free_Parts g] ((core w)\<lparr>allocated := allocated (core w) - {g}\<rparr>)"
    using r by (auto simp: cpu_cgroup_css_free_def sched_free_group_def split: if_splits)
  have gt: "g \<notin> A" "g \<notin> set (ids t)" using g ok by (auto simp: world_ok_def css_ok_def)
  have "css_ok env A t (w\<lparr>core := s, phase := (phase w)(g := Css_None)\<rparr>)"
    using ok g gt unfolding world_ok_def css_ok_def by (auto simp: s)
  moreover have "tasks_ok A (w\<lparr>core := s, phase := (phase w)(g := Css_None)\<rparr>)"
    using ok g by (auto simp: world_ok_def tasks_ok_def queues_ok_def queued_in_def s)
  ultimately show ?thesis using ok by (simp add: world_ok_def s)
qed

section \<open>Going online and offline\<close>

lemma online_tree:
  assumes ok: "tree_ok (on_dfl env) t G" and g: "g \<notin> set (ids t)" "valid_bw (G g)" "\<not> limited (G g)" and p: "p \<in> set (ids t)"
    and G1: "G1 = (G(g := (G g)\<lparr>tg_parent := Some p, tg_children := []\<rparr>))(p := (G p)\<lparr>tg_children := g # tg_children (G p)\<rparr>)"
    and r: "cpu_util_update_eff n (Group g []) G1 = (H, updates)"
  shows "tree_ok (on_dfl env) (add_under p g t) H" "\<And>x. x \<noteq> g \<Longrightarrow> H x = G1 x" "tg_parent (H g) = Some p"
proof -
  have inv: "bw_inv t G" and typed: "clamp_typed G" "hq_typed G" using ok by (auto simp: tree_ok_def bw_inv_def)
  have pg: "p \<noteq> g" using g p by auto
  have f1: "tg_parent (G1 x) = (if x = g then Some p else tg_parent (G x))" "tg_children (G1 g) = []"
    "x \<noteq> g \<Longrightarrow> tg_children (G1 x) = (if x = p then [g] else []) @ tg_children (G x)" "tg_uclamp (G1 x) = tg_uclamp (G x)"
    "tg_uclamp_req (G1 x) = tg_uclamp_req (G x)" "cfs_quota (G1 x) = cfs_quota (G x)" "cfs_period (G1 x) = cfs_period (G x)"
    "hierarchical_quota (G1 x) = hierarchical_quota (G x)" for x
    using pg by (simp_all add: G1)
  have "clamp_typed G1" using typed(1) by (simp add: clamp_typed_def f1)
  moreover have "forest_ok G1 [Group g []]" using pg by (simp add: forest_ok_def f1)
  ultimately have H: "only_clamps G1 H" "clamp_typed H" "\<And>x. x \<noteq> g \<Longrightarrow> H x = G1 x" "eff_ok H g"
    using update_eff_correct [of n "[Group g []]" G1 H updates] r by (auto simp: cpu_util_update_eff_def)
  show "\<And>x. x \<noteq> g \<Longrightarrow> H x = G1 x" by (rule H(3))
  have f: "tg_parent (H x) = tg_parent (G1 x)" "tg_children (H x) = tg_children (G1 x)" "cfs_quota (H x) = cfs_quota (G x)"
    "cfs_period (H x) = cfs_period (G x)" "hierarchical_quota (H x) = hierarchical_quota (G x)" for x
    using H(1) f1 by (simp_all add: only_clamps_def)
  show "tg_parent (H g) = Some p" by (simp add: f f1)
  have in_t: "x \<noteq> g" if "x \<in> set (ids t)" for x using that g(1) by auto
  have lim: "limited (H x) \<longleftrightarrow> limited (G x)" "valid_bw (H x) \<longleftrightarrow> valid_bw (G x)" for x by (simp_all add: limited_def valid_bw_def f)
  note b = inv [unfolded bw_inv_def]
  have "holds H (add_under p g t)" by (rule holds_add_under [of G]) (use b g in \<open>auto simp: f f1\<close>)
  then have "bw_inv (add_under p g t) H"
    using b g ids_add_under [of t p g] p typed(2) in_t [OF root_in_ids]
    by (auto simp: bw_inv_def lim f f1 hq_typed_def)
  moreover have "shares_ok (on_dfl env) (add_under p g t) H"
  proof (rule shares_sub [OF inv])
    show "shares_ok (on_dfl env) t G" using ok by (simp add: tree_ok_def)
    show "x \<in> set (ids t) \<or> \<not> limited (H x)" if "x \<in> set (ids (add_under p g t))" for x
      using that ids_add_under(2) [of t p g] b p g by (auto simp: lim)
    show "tg_parent (H x) = tg_parent (G x) \<and> cfs_quota (H x) = cfs_quota (G x) \<and> cfs_period (H x) = cfs_period (G x)"
      if "x \<in> set (ids t)" for x using in_t [OF that] by (simp add: f f1)
  qed
  moreover have "eff_ok H x" if x: "x \<in> set (ids t)" for x
  proof -
    have "tg_uclamp (H q) = tg_uclamp (G q)" if "tg_parent (G x) = Some q" for q
      using H(3) in_t [OF parent_closed [OF inv x that]] by (simp add: f1)
    then show ?thesis
      using eff_ok_fields [of H x G] H(3) [OF in_t [OF x]] in_t [OF x] ok x by (simp add: f1 tree_ok_def)
  qed
  ultimately show "tree_ok (on_dfl env) (add_under p g t) H"
    using H(2,4) ids_add_under(2) [of t p g] b p g by (auto simp: tree_ok_def)
qed

lemma shown_ok:
  assumes ok: "world_ok env A t w" and g: "phase w g = Css_New"
    and r: "cpu_cgroup_css_online n (Group g []) (core w) = (s, updates)"
  shows "\<exists>u. world_ok env A u (w\<lparr>core := s, phase := (phase w)(g := Css_Online)\<rparr>)"
proof -
  have css: "css_ok env A t w" and tree: "tree_ok (on_dfl env) t (gs (core w))" and tasks: "tasks_ok A w" using ok by (auto simp: world_ok_def)
  note c = css_okD [OF css]
  have gt: "g \<noteq> root t" "g \<notin> A" "g \<notin> set (ids t)" using c(2,5) c(6) [of g] g by auto
  obtain p where p: "css_parent (core w) g = Some p" "phase w p = Css_Online" using c(8) [of g] gt g by auto
  have pt: "p \<in> set (ids t)" "p \<noteq> g" using p(2) c(5) g by auto
  let ?G = "gs (core w)"
  let ?G1 = "(?G(g := (?G g)\<lparr>tg_parent := Some p, tg_children := []\<rparr>))(p := (?G p)\<lparr>tg_children := g # tg_children (?G p)\<rparr>)"
  obtain H where H: "cpu_util_update_eff n (Group g []) ?G1 = (H, updates)"
    and s: "s = tg_note [Online_Fair g] ((core w)\<lparr>task_groups := g # task_groups (core w), gs := H\<rparr>)"
    using r p(1) pt(2) by (auto simp: cpu_cgroup_css_online_def sched_online_group_def Let_def split: prod.splits)
  note o = online_tree [OF tree gt(3) _ _ pt(1) refl H]
  have lim: "valid_bw (?G g)" "\<not> limited (?G g)" using c(10) [OF g] by auto
  note o = o [OF lim]
  have i: "set (ids (add_under p g t)) = insert g (set (ids t))"
    using ids_add_under(2) [of t p g] pt gt tree by (auto simp: tree_ok_def bw_inv_def)
  have par: "tg_parent (H x) = (if x = g then Some p else tg_parent (?G x))" for x using o(2) [of x] o(3) by auto
  have same: "limited (H x) = limited (?G x)" "valid_bw (H x) = valid_bw (?G x)" if "x \<noteq> g" for x
    using o(2) [OF that] that by (auto simp: limited_def valid_bw_def)
  have "css_ok env A (add_under p g t) (w\<lparr>core := s, phase := (phase w)(g := Css_Online)\<rparr>)"
    unfolding css_ok_def using c gt p g by (auto simp: s i par same)
  moreover have "tasks_ok A (w\<lparr>core := s, phase := (phase w)(g := Css_Online)\<rparr>)"
    using tasks by (auto simp: tasks_ok_def queues_ok_def queued_in_def s)
  ultimately have "world_ok env A (add_under p g t) (w\<lparr>core := s, phase := (phase w)(g := Css_Online)\<rparr>)"
    using o(1) by (simp add: world_ok_def s)
  then show ?thesis by blast
qed

lemma offline_tree:
  assumes ok: "tree_ok (on_dfl env) t G" and g: "g \<in> set (ids t)" "g \<noteq> root t" "tg_children (G g) = []" and q: "tg_parent (G g) = Some q"
    and H: "H = G(q := (G q)\<lparr>tg_children := remove1 g (tg_children (G q))\<rparr>)"
  shows "tree_ok (on_dfl env) (prune g t) H" "set (ids (prune g t)) = set (ids t) - {g}"
proof -
  have inv: "bw_inv t G" and typed: "clamp_typed G" "hq_typed G" using ok by (auto simp: tree_ok_def bw_inv_def)
  note b = inv [unfolded bw_inv_def]
  have i: "distinct (ids (prune g t))" "set (ids (prune g t)) = set (ids t) - {g}"
    using ids_prune [of G t g] b g by auto
  then show "set (ids (prune g t)) = set (ids t) - {g}" by simp
  have f: "tg_parent (H x) = tg_parent (G x)" "cfs_quota (H x) = cfs_quota (G x)" "cfs_period (H x) = cfs_period (G x)"
    "hierarchical_quota (H x) = hierarchical_quota (G x)" "tg_uclamp (H x) = tg_uclamp (G x)" "tg_uclamp_req (H x) = tg_uclamp_req (G x)"
    "tg_children (H x) = (if x = q then remove1 g (tg_children (G x)) else tg_children (G x))" for x by (simp_all add: H)
  have lim: "limited (H x) \<longleftrightarrow> limited (G x)" "valid_bw (H x) \<longleftrightarrow> valid_bw (G x)" for x by (simp_all add: limited_def valid_bw_def f)
  have "holds H (prune g t)" by (rule holds_prune [of G]) (use b q in \<open>auto simp: f\<close>)
  then have "bw_inv (prune g t) H" using b i typed(2) by (auto simp: bw_inv_def lim f hq_typed_def)
  moreover have "shares_ok (on_dfl env) (prune g t) H"
    by (rule shares_sub [OF inv]) (use ok i f in \<open>auto simp: tree_ok_def\<close>)
  moreover have "eff_ok H x \<longleftrightarrow> eff_ok G x" for x by (rule eff_ok_fields) (simp_all add: f)
  ultimately show "tree_ok (on_dfl env) (prune g t) H" using ok i f by (auto simp: tree_ok_def clamp_typed_def)
qed

lemma offline_defined:
  assumes ok: "tree_ok (on_dfl env) t (gs s)" and g: "g \<in> set (ids t)" "g \<noteq> root t" and l: "set (task_groups s) = set (ids t)"
  shows "\<exists>q. tg_parent (gs s g) = Some q \<and> q \<in> set (ids t) \<and> sched_offline_group g s = Some ((tg_note [Unregister_Fair g] s)
    \<lparr>task_groups := remove1 g (task_groups s),
     gs := (gs s)(q := (gs s q)\<lparr>tg_children := remove1 g (tg_children (gs s q))\<rparr>)\<rparr>)"
proof -
  have "holds (gs s) t" using ok by (simp add: tree_ok_def bw_inv_def)
  from in_children [OF this g] obtain q where "q \<in> set (ids t)" "tg_parent (gs s g) = Some q" "g \<in> set (tg_children (gs s q))" by blast
  then show ?thesis using g(1) l by (simp add: sched_offline_group_def)
qed

lemma released_ok:
  assumes ok: "world_ok env A t w" and g: "phase w g = Css_Online" "g \<noteq> root_task_group env" "childless w g"
    and nt: "\<forall>t \<in> alive w. task_css (core w) t \<noteq> g" and r: "cpu_cgroup_css_released g (core w) = Some s"
  shows "\<exists>u. world_ok env A u (w\<lparr>core := s, phase := (phase w)(g := Css_Released)\<rparr>)"
proof -
  have css: "css_ok env A t w" and tree: "tree_ok (on_dfl env) t (gs (core w))" and tasks: "tasks_ok A w" using ok by (auto simp: world_ok_def)
  note c = css_okD [OF css]
  let ?G = "gs (core w)"
  have gt: "g \<in> set (ids t)" "g \<noteq> root t" "g \<notin> A" using c(1,5) c(6) [of g] g(1,2) by auto
  have hold: "holds ?G t" using tree by (simp add: tree_ok_def bw_inv_def)
  have leaf: "tg_children (?G g) = []"
  proof (rule ccontr)
    assume "tg_children (?G g) \<noteq> []"
    then obtain x where x: "x \<in> set (tg_children (?G g))" by (cases "tg_children (?G g)") auto
    then have "x \<in> set (ids t)" "tg_parent (?G x) = Some g" using children_in_ids [OF hold gt(1) x] by auto
    moreover from this have "x \<noteq> root t" using tree by (auto simp: tree_ok_def bw_inv_def)
    ultimately show False using c(9) [of x] c(5) g(3) gt(2) by (auto simp: childless_def split: if_splits)
  qed
  obtain q where q: "tg_parent (?G g) = Some q" and s: "s = (tg_note [Unregister_Fair g] (core w))
    \<lparr>task_groups := remove1 g (task_groups (core w)), gs := ?G(q := (?G q)\<lparr>tg_children := remove1 g (tg_children (?G q))\<rparr>)\<rparr>"
    using offline_defined [OF tree gt(1,2) c(4)] r by (auto simp: cpu_cgroup_css_released_def)
  note o = offline_tree [OF tree gt(1,2) leaf q refl]
  have par: "the (css_parent (core w) x) \<noteq> g" if "phase w x \<noteq> Css_None" "x \<noteq> root t" for x
    using c(8) [OF that] g(3) that by (auto simp: childless_def)
  have "css_ok env A (prune g t) (w\<lparr>core := s, phase := (phase w)(g := Css_Released)\<rparr>)"
    unfolding css_ok_def using c gt g(1) par by (auto simp: s o(2) limited_def valid_bw_def) (use c(1) par in blast)+
  moreover have "tasks_ok A (w\<lparr>core := s, phase := (phase w)(g := Css_Released)\<rparr>)"
    using tasks nt by (auto simp: tasks_ok_def queues_ok_def queued_in_def s)
  ultimately have "world_ok env A (prune g t) (w\<lparr>core := s, phase := (phase w)(g := Css_Released)\<rparr>)"
    using o(1) by (simp add: world_ok_def s)
  then show ?thesis by blast
qed

section \<open>Limits and requests\<close>

text \<open>A change of the values of groups that are in the tree, with the pointers as they were.\<close>

lemma world_ok_values:
  assumes ok: "world_ok env A t w" and tree: "tree_ok (on_dfl env) t G" and par: "\<And>x. tg_parent (G x) = tg_parent (gs (core w) x)"
    and new: "\<And>x. x \<notin> set (ids t) \<Longrightarrow> cfs_quota (G x) = cfs_quota (gs (core w) x) \<and> cfs_period (G x) = cfs_period (gs (core w) x)"
  shows "world_ok env A t (w\<lparr>core := (core w)\<lparr>gs := G\<rparr>\<rparr>)"
proof -
  have css: "css_ok env A t w" using ok by (simp add: world_ok_def)
  have "valid_bw (G x) \<and> \<not> limited (G x)" if "phase w x = Css_New" for x
  proof -
    have "x \<notin> set (ids t)" using css_okD(5) [OF css] css_okD(6) [OF css, of x] that by auto
    then show ?thesis using css_okD(10) [OF css that] new [of x] by (simp add: valid_bw_def limited_def)
  qed
  then have "css_ok env A t (w\<lparr>core := (core w)\<lparr>gs := G\<rparr>\<rparr>)" using css par by (auto simp: css_ok_def)
  then show ?thesis using ok tree by (simp add: world_ok_def tasks_ok_def queues_ok_def)
qed

lemma run_down_frame:
  "run_down (tg_cfs_schedulable_down h dfl d) xs G = (ret, H) \<Longrightarrow>
   tg_uclamp (H x) = tg_uclamp (G x) \<and> tg_uclamp_req (H x) = tg_uclamp_req (G x) \<and> tg_parent (H x) = tg_parent (G x)"
proof (induction xs arbitrary: G)
  case (Cons y xs)
  obtain r1 G1 where d: "tg_cfs_schedulable_down h dfl d y G = (r1, G1)" by force
  then have "tg_uclamp (G1 x) = tg_uclamp (G x) \<and> tg_uclamp_req (G1 x) = tg_uclamp_req (G x) \<and> tg_parent (G1 x) = tg_parent (G x)"
    by (auto simp: tg_cfs_schedulable_down_def set_hierarchical_quota_def Let_def split: option.splits if_splits)
  then show ?case using Cons d by (auto split: if_splits option.splits)
qed simp

lemma bandwidth_frame:
  assumes "bw_inv t G" and "tg_set_cfs_bandwidth h dfl cpus (root t) g period quota G = Some (ret, H, calls)"
  shows "tg_uclamp (H x) = tg_uclamp (G x) \<and> tg_uclamp_req (H x) = tg_uclamp_req (G x) \<and> tg_parent (H x) = tg_parent (G x)"
proof -
  obtain d where "cfs_schedulable h dfl (root t) g period quota G = Some (run_down (tg_cfs_schedulable_down h dfl d) (ids t) G)"
    using cfs_schedulable_run [OF assms(1)] by blast
  moreover obtain r1 G1 where run: "run_down (tg_cfs_schedulable_down h dfl d) (ids t) G = (r1, G1)" by force
  ultimately show ?thesis
    using assms(2) run_down_frame [OF run, of x]
    by (auto simp: tg_set_cfs_bandwidth_def store_bandwidth_def Let_def split: if_splits)
qed

lemma s64_typed: "- (2 ^ 63) \<le> s64 x \<and> s64 x < 2 ^ 63"
proof -
  have "0 \<le> (x + 2 ^ 63) mod 2 ^ 64" "(x + 2 ^ 63) mod 2 ^ 64 < 2 ^ 64" by simp_all
  then show ?thesis by (simp add: s64_def)
qed

lemma run_down_v2:
  assumes "hq_typed G"
  shows "\<exists>H. run_down (tg_cfs_schedulable_down h True d) xs G = (None, H) \<and> same_but_hq G H \<and> hq_typed H"
  using assms
proof (induction xs arbitrary: G)
  case (Cons g xs)
  let ?q = "case tg_parent (G g) of None \<Rightarrow> s64 (RUNTIME_INF h) | Some p \<Rightarrow> min (s64 (normalize_cfs_quota h g d G)) (hierarchical_quota (G p))"
  have "tg_cfs_schedulable_down h True d g G = (None, set_hierarchical_quota g ?q G)"
    by (simp add: tg_cfs_schedulable_down_def Let_def split: option.splits)
  moreover have "- (2 ^ 63) \<le> ?q \<and> ?q < 2 ^ 63"
    using Cons.prems s64_typed [of "RUNTIME_INF h"] s64_typed [of "normalize_cfs_quota h g d G"] by (auto simp: hq_typed_def min_def split: option.splits)
  ultimately obtain q where q: "tg_cfs_schedulable_down h True d g G = (None, set_hierarchical_quota g q G)" "- (2 ^ 63) \<le> q \<and> q < 2 ^ 63" by blast
  let ?K = "set_hierarchical_quota g q G"
  have "hq_typed ?K" using Cons.prems q(2) by (auto simp: hq_typed_def)
  then obtain H where "run_down (tg_cfs_schedulable_down h True d) xs ?K = (None, H)" "same_but_hq ?K H" "hq_typed H" using Cons.IH by blast
  then show ?case using q(1) same_but_hq_trans [OF same_but_hq_set] by auto
qed simp

text \<open>With version 2 a quota is accepted exactly if it is in range.\<close>

lemma set_bandwidth_v2:
  assumes "bw_ok h" and "bw_inv t G" and "g \<noteq> root t" and "quota < 2 ^ 64"
  shows "\<exists>G' calls. tg_set_cfs_bandwidth h True cpus (root t) g period quota G =
      Some (if valid_bw (new_limit g period quota G g) then None else Some EINVAL, G', calls) \<and> bw_inv t G' \<and>
    (\<forall>x. if valid_bw (new_limit g period quota G g)
      then cfs_quota (G' x) = cfs_quota (new_limit g period quota G x) \<and> cfs_period (G' x) = cfs_period (new_limit g period quota G x)
      else cfs_quota (G' x) = cfs_quota (G x) \<and> cfs_period (G' x) = cfs_period (G x))"
proof (cases "valid_bw (new_limit g period quota G g)")
  case False
  then show ?thesis using assms(2,3) by (auto simp: tg_set_cfs_bandwidth_def in_range_iff [OF assms(1,4), of g period G])
next
  case True
  obtain d where d: "cfs_schedulable h True (root t) g period quota G = Some (run_down (tg_cfs_schedulable_down h True d) (ids t) G)"
    using cfs_schedulable_run [OF assms(2)] by blast
  obtain H where H: "run_down (tg_cfs_schedulable_down h True d) (ids t) G = (None, H)" "same_but_hq G H" "hq_typed H"
    using run_down_v2 [of G h d "ids t"] assms(2) by (auto simp: bw_inv_def)
  have inv: "bw_inv t H" by (rule bw_inv_same_but_hq [OF assms(2) H(2,3)])
  have lim: "cfs_quota (H x) = cfs_quota (G x)" "cfs_period (H x) = cfs_period (G x)" for x using same_but_hq_fields [OF H(2)] by auto
  obtain G' calls where st: "store_bandwidth h cpus g period quota H = (G', calls)" by force
  have valid: "valid_bw (new_limit g period quota H g)" using True by (simp add: valid_bw_def limited_def new_limit_def)
  note stored = store_bandwidth_inv [OF inv assms(3) valid st]
  have "tg_set_cfs_bandwidth h True cpus (root t) g period quota G = Some (None, G', calls)"
    using True d H(1) st assms(3) by (auto simp: tg_set_cfs_bandwidth_def in_range_iff [OF assms(1,4), of g period G])
  then show ?thesis using True stored lim by (auto simp: new_limit_def)
qed

lemma limit_ok:
  assumes h: "bw_ok h" and ok: "world_ok env A t w" and g: "phase w g = Css_Online" and q: "0 \<le> quota" "quota < 2 ^ 64"
    and r: "tg_set_cfs_bandwidth h (on_dfl env) cpus (root_task_group env) g period quota (gs (core w)) = Some (ret, G, calls)"
  shows "world_ok env A t (w\<lparr>core := (core w)\<lparr>gs := G\<rparr>\<rparr>)"
proof -
  let ?G = "gs (core w)"
  have css: "css_ok env A t w" and tree: "tree_ok (on_dfl env) t ?G" using ok by (auto simp: world_ok_def)
  note c = css_okD [OF css]
  have gt: "g \<in> set (ids t)" using g c(5) by auto
  have inv: "bw_inv t ?G" using tree by (simp add: tree_ok_def)
  show ?thesis
  proof (cases "g = root t")
    case True
    then have "G = ?G" using r c(1) by (simp add: tg_set_cfs_bandwidth_def)
    then show ?thesis using ok by (cases w) simp
  next
    case False
    define acc where "acc \<longleftrightarrow> valid_bw (new_limit g period quota ?G g) \<and> shares_ok (on_dfl env) t (new_limit g period quota ?G)"
    have b: "bw_inv t G" "if acc then \<forall>x. cfs_quota (G x) = cfs_quota (new_limit g period quota ?G x) \<and>
        cfs_period (G x) = cfs_period (new_limit g period quota ?G x)
      else \<forall>x. cfs_quota (G x) = cfs_quota (?G x) \<and> cfs_period (G x) = cfs_period (?G x)"
      using set_bandwidth_result [OF h inv gt False q, of cpus period] set_bandwidth_v2 [OF h inv False q(2), of cpus period] r c(1)
      by (cases "on_dfl env"; auto simp: acc_def shares_ok_def split: if_splits)+
    have f: "tg_uclamp (G x) = tg_uclamp (?G x) \<and> tg_uclamp_req (G x) = tg_uclamp_req (?G x) \<and> tg_parent (G x) = tg_parent (?G x)" for x
      using bandwidth_frame [OF inv r [folded c(1)]] .
    have "shares_ok (on_dfl env) t G"
    proof (cases acc)
      case True
      have "tg_parent (new_limit g period quota ?G x) = tg_parent (?G x)" for x by (simp add: new_limit_def)
      then have "ancestor G = ancestor (new_limit g period quota ?G)" using f by (intro ancestor_cong) simp
      then show ?thesis using True b(2) unfolding acc_def shares_ok_def hierarchy_ok_def limited_def cpu_share_def by simp
    next
      case False
      have "ancestor G = ancestor ?G" using f by (intro ancestor_cong) simp
      then show ?thesis using tree False b(2) unfolding tree_ok_def shares_ok_def hierarchy_ok_def limited_def cpu_share_def by simp
    qed
    moreover have "eff_ok G x \<longleftrightarrow> eff_ok ?G x" for x by (rule eff_ok_fields) (simp_all add: f)
    ultimately have "tree_ok (on_dfl env) t G" using tree b(1) f by (auto simp: tree_ok_def clamp_typed_def)
    moreover have "cfs_quota (G x) = cfs_quota (?G x) \<and> cfs_period (G x) = cfs_period (?G x)" if "x \<notin> set (ids t)" for x
      using b(2) that gt by (cases acc) (auto simp: new_limit_def)
    ultimately show ?thesis using world_ok_values [OF ok] f by auto
  qed
qed

lemma uclamp_write_request:
  assumes r: "cpu_uclamp_write parse n u i buf (sys, G) = Inr (sys', H, updates)" and typed: "clamp_typed G"
  shows "\<exists>req pct. cpu_util_update_eff n u (G(root u := (G (root u))\<lparr>tg_uclamp_req := req, uclamp_pct := pct\<rparr>)) = (H, updates) \<and>
    (\<forall>j. se_value (req j) < 2 ^ 11)"
proof -
  obtain percent util where cap: "capacity_from_percent parse buf = Inr (percent, util)"
    using r by (cases "capacity_from_percent parse buf") (auto simp: cpu_uclamp_write_def)
  let ?r = "tg_uclamp_req (G (root u))"
  let ?req = "if int (se_value (?r i)) \<noteq> util then ?r(i := uclamp_se_set n (nat util) False (?r i)) else ?r"
  have "\<forall>j. se_value (?req j) < 2 ^ 11" using typed by (auto simp: clamp_typed_def uclamp_se_set_def)
  moreover have "cpu_util_update_eff n u (G(root u := (G (root u))\<lparr>tg_uclamp_req := ?req,
      uclamp_pct := (uclamp_pct (G (root u)))(i := percent)\<rparr>)) = (H, updates)"
    using r cap by (simp add: cpu_uclamp_write_def Let_def)
  ultimately show ?thesis by blast
qed

lemma request_ok:
  assumes ok: "world_ok env A t w" and u: "phase w (root u) = Css_Online" "holds (gs (core w)) u"
    and r: "cpu_uclamp_write parse n u i buf (sys, gs (core w)) = Inr (sys', G, updates)"
  shows "world_ok env A t (w\<lparr>core := (core w)\<lparr>gs := G\<rparr>\<rparr>)"
proof -
  let ?G = "gs (core w)"
  have css: "css_ok env A t w" and tree: "tree_ok (on_dfl env) t ?G" using ok by (auto simp: world_ok_def)
  have inv: "bw_inv t ?G" and eff: "\<And>x. x \<in> set (ids t) \<Longrightarrow> eff_ok ?G x" and typed: "clamp_typed ?G"
    using tree by (auto simp: tree_ok_def)
  note b = inv [unfolded bw_inv_def]
  have gt: "root u \<in> set (ids t)" using u(1) css_okD(5) [OF css] by auto
  have "\<forall>p. tg_parent (?G (root t)) = Some p \<longrightarrow> p \<notin> set (ids t)" using b by simp
  then obtain v where "holds ?G v" "root v = root u" "set (ids v) \<subseteq> set (ids t)" "distinct (ids v)"
    "\<forall>p. tg_parent (?G (root u)) = Some p \<longrightarrow> p \<notin> set (ids v)"
    using subtree_exists [of ?G t "root u"] b gt by auto
  then have ut: "set (ids u) \<subseteq> set (ids t)" "distinct (ids u)" "\<forall>p. tg_parent (?G (root u)) = Some p \<longrightarrow> p \<notin> set (ids u)"
    using holds_unique [of ?G v u] u(2) by auto
  obtain req pct where G1: "cpu_util_update_eff n u (?G(root u := (?G (root u))\<lparr>tg_uclamp_req := req, uclamp_pct := pct\<rparr>)) = (G, updates)"
    and req: "\<And>j. se_value (req j) < 2 ^ 11"
    using uclamp_write_request [OF r typed] by metis
  define G1 where "G1 = ?G(root u := (?G (root u))\<lparr>tg_uclamp_req := req, uclamp_pct := pct\<rparr>)"
  have f1: "tg_parent (G1 x) = tg_parent (?G x)" "tg_children (G1 x) = tg_children (?G x)" "tg_uclamp (G1 x) = tg_uclamp (?G x)"
    "x \<noteq> root u \<Longrightarrow> tg_uclamp_req (G1 x) = tg_uclamp_req (?G x)" "cfs_quota (G1 x) = cfs_quota (?G x)"
    "cfs_period (G1 x) = cfs_period (?G x)" "hierarchical_quota (G1 x) = hierarchical_quota (?G x)" for x by (simp_all add: G1_def)
  have t1: "clamp_typed G1" using typed req by (auto simp: clamp_typed_def G1_def)
  have h1: "holds G1 u" by (rule holds_cong [OF _ u(2)]) (simp add: f1)
  have e1: "eff_ok G1 x" if "x \<in> set (ids t)" "x \<noteq> root u" for x
    using eff_ok_fields [of G1 x ?G] eff [OF that(1)] that(2) f1 by simp
  have "forest_ok G1 [u]" using h1 ut e1 by (auto simp: forest_ok_def f1)
  then have r1: "only_clamps G1 G" "clamp_typed G" "\<And>x. x \<notin> set (ids u) \<Longrightarrow> G x = G1 x" "\<And>x. x \<in> set (ids u) \<Longrightarrow> eff_ok G x"
    using update_eff_correct [of n "[u]" G1 G updates] G1 t1 by (auto simp: cpu_util_update_eff_def G1_def)
  have f: "tg_parent (G x) = tg_parent (?G x)" "tg_children (G x) = tg_children (?G x)" "cfs_quota (G x) = cfs_quota (?G x)"
    "cfs_period (G x) = cfs_period (?G x)" "hierarchical_quota (G x) = hierarchical_quota (?G x)" for x
    using r1(1) f1 by (simp_all add: only_clamps_def)
  have "eff_ok G x" if x: "x \<in> set (ids t)" for x
  proof (cases "x \<in> set (ids u)")
    case False
    have "q \<notin> set (ids u)" if q: "tg_parent (?G x) = Some q" for q
    proof
      assume qu: "q \<in> set (ids u)"
      have "x \<noteq> root t" using b q by auto
      then have "x \<in> set (tg_children (?G q))" using in_children [of ?G t x] b x q by auto
      then show False using children_in_ids [OF u(2) qu] False by blast
    qed
    moreover have "x \<noteq> root u" using False by auto
    ultimately show ?thesis using eff_ok_fields [of G x G1] e1 [OF x] r1(3) False by (simp add: f1)
  qed (rule r1(4))
  moreover have "holds G t" by (rule holds_cong [of t G ?G]) (use b f in auto)
  then have "bw_inv t G" using b by (auto simp: bw_inv_def f hq_typed_def valid_bw_def limited_def)
  moreover have "shares_ok (on_dfl env) t G" by (rule shares_sub [OF inv]) (use tree f in \<open>auto simp: tree_ok_def\<close>)
  ultimately have "tree_ok (on_dfl env) t G" using r1(2) by (simp add: tree_ok_def)
  then show ?thesis using world_ok_values [OF ok] f by auto
qed

section \<open>Tasks\<close>

lemma queued_in_append: "queued_in (cs @ ds) = fold queue_call ds (queued_in cs)"
  by (simp add: queued_in_def)

text \<open>\<open>sched_move_task\<close> takes the task off the queue of its old group and puts it on that of the new one.\<close>

lemma move_task_effect:
  assumes "s' = sched_move_task env t s"
  shows "gs s' = gs s" "task_groups s' = task_groups s" "allocated s' = allocated s" "css_parent s' = css_parent s"
    "task_css s' = task_css s" "gt_queued s' = gt_queued s" "gt_running s' = gt_running s" "gt_new s' = gt_new s"
    "sched_task_group s' = (sched_task_group s)(t := autogroup_task_group env t (task_css s t))"
    "queues_ok s \<Longrightarrow> queues_ok s'"
  using assms by (auto simp: sched_move_task_def sched_change_group_def queues_ok_def queued_in_append Let_def)

lemma attach_effect:
  "gs (cpu_cgroup_attach env tset s) = gs s \<and> task_groups (cpu_cgroup_attach env tset s) = task_groups s \<and>
   allocated (cpu_cgroup_attach env tset s) = allocated s \<and> css_parent (cpu_cgroup_attach env tset s) = css_parent s \<and>
   task_css (cpu_cgroup_attach env tset s) = task_css s \<and> gt_queued (cpu_cgroup_attach env tset s) = gt_queued s \<and>
   (\<forall>t. sched_task_group (cpu_cgroup_attach env tset s) t =
     (if t \<in> fst ` set tset then autogroup_task_group env t (task_css s t) else sched_task_group s t)) \<and>
   (queues_ok s \<longrightarrow> queues_ok (cpu_cgroup_attach env tset s))"
proof (induction tset arbitrary: s)
  case (Cons tc tset)
  obtain t c where tc: "tc = (t, c)" by force
  note m = move_task_effect [OF refl, where s = s and t = t and env = env]
  show ?case using Cons [of "sched_move_task env t s"] m by (auto simp: tc)
qed simp

text \<open>Steps of tasks leave the groups alone.\<close>

lemma world_ok_tasks:
  assumes ok: "world_ok env A t w"
    and same: "gs s = gs (core w)" "task_groups s = task_groups (core w)" "allocated s = allocated (core w)" "css_parent s = css_parent (core w)"
    and tasks: "tasks_ok A (w\<lparr>core := s, alive := L\<rparr>)"
  shows "world_ok env A t (w\<lparr>core := s, alive := L\<rparr>)"
  using assms by (auto simp: world_ok_def css_ok_def)

lemma attached_ok:
  assumes env: "tg_env_ok env A" and ok: "world_ok env A t w" and online: "\<forall>c \<in> snd ` set tset. phase w c = Css_Online"
    and s: "s = cpu_cgroup_attach env tset ((core w)\<lparr>task_css := (\<lambda>t. case map_of tset t of Some c \<Rightarrow> c | None \<Rightarrow> task_css (core w) t)\<rparr>)"
  shows "world_ok env A t (w\<lparr>core := s\<rparr>)"
proof -
  let ?f = "\<lambda>t. case map_of tset t of Some c \<Rightarrow> c | None \<Rightarrow> task_css (core w) t"
  note e = attach_effect [of env tset "(core w)\<lparr>task_css := ?f\<rparr>", folded s, simplified]
  have tasks: "tasks_ok A w" using ok by (simp add: world_ok_def)
  have q: "queues_ok s" using e tasks by (auto simp: tasks_ok_def queues_ok_def)
  have new: "phase w (?f x) = Css_Online" if "x \<in> alive w" for x
    using tasks that online by (auto simp: tasks_ok_def image_iff split: option.splits dest!: map_of_SomeD)
  have grp: "sched_task_group s x = task_css s x \<or> sched_task_group s x \<in> A" if x: "x \<in> alive w" for x
  proof (cases "x \<in> fst ` set tset")
    case True
    then show ?thesis using e env by (auto simp: tg_env_ok_def)
  next
    case False
    then have "map_of tset x = None" by (simp add: map_of_eq_None_iff)
    then show ?thesis using e False tasks x by (auto simp: tasks_ok_def)
  qed
  have "task_css s = ?f" "gt_queued s = gt_queued (core w)" using e by auto
  then have "tasks_ok A (w\<lparr>core := s, alive := alive w\<rparr>)"
    using q new grp tasks unfolding tasks_ok_def by auto
  then have "world_ok env A t (w\<lparr>core := s, alive := alive w\<rparr>)" using e by (intro world_ok_tasks [OF ok]) auto
  then show ?thesis by (cases w) simp
qed

section \<open>All histories\<close>

lemma step_ok:
  assumes "tg_step h env n w w'" and h: "bw_ok h" and env: "tg_env_ok env A" and ok: "world_ok env A t w"
  shows "\<exists>u. world_ok env A u w'"
  using assms(1)
proof cases
  case (failed p mem fair rt_ok e s)
  then show ?thesis using failed_ok [OF env ok] by blast
next
  case (created p mem fair rt_ok g s)
  then show ?thesis using created_ok [OF env ok] by blast
next
  case (shown g s updates)
  then show ?thesis using shown_ok [OF ok] by blast
next
  case (released g s)
  then show ?thesis using released_ok [OF ok] by blast
next
  case (freed g s)
  then show ?thesis using freed_ok [OF ok] by blast
next
  case (forked x q)
  have "tasks_ok A w'"
    using ok env forked unfolding world_ok_def tg_env_ok_def
    by (auto simp: tasks_ok_def queues_ok_def queued_in_append cpu_cgroup_fork_def sched_change_group_def Let_def)
  then show ?thesis
    using world_ok_tasks [OF ok, of "core w'" "alive w'"] forked(1) by (auto simp: cpu_cgroup_fork_def sched_change_group_def Let_def)
next
  case (woken x)
  then have "tasks_ok A w'" using ok by (auto simp: world_ok_def tasks_ok_def queues_ok_def queued_in_append)
  then show ?thesis using world_ok_tasks [OF ok, of "core w'" "alive w'"] woken(1) by auto
next
  case (slept x)
  then have "tasks_ok A w'" using ok by (auto simp: world_ok_def tasks_ok_def queues_ok_def queued_in_append)
  then show ?thesis using world_ok_tasks [OF ok, of "core w'" "alive w'"] slept(1) by auto
next
  case (switched r)
  then have "tasks_ok A w'" using ok by (auto simp: world_ok_def tasks_ok_def queues_ok_def)
  then show ?thesis using world_ok_tasks [OF ok, of "core w'" "alive w'"] switched(1) by auto
next
  case (exited x)
  then have "tasks_ok A w'" using ok by (auto simp: world_ok_def tasks_ok_def queues_ok_def)
  then show ?thesis using world_ok_tasks [OF ok, of "core w'" "alive w'"] exited(1) by auto
next
  case (attached tset)
  then show ?thesis using attached_ok [OF env ok _ refl] by blast
next
  case (regrouped x)
  note m = move_task_effect [OF refl, where s = "core w" and t = x and env = env]
  have "tasks_ok A w'"
    using ok env regrouped m unfolding world_ok_def tg_env_ok_def tasks_ok_def by auto
  then show ?thesis using world_ok_tasks [OF ok, of "core w'" "alive w'"] regrouped(1) m by auto
next
  case (limit g quota cpus period ret G calls)
  then show ?thesis using limit_ok [OF h ok] by blast
next
  case (request u parse i buf sys sys' G updates)
  then show ?thesis using request_ok [OF ok] by blast
qed

text \<open>A system with the root group only, and the groups \<open>A\<close> below it.\<close>

definition tg_start :: "tg_env \<Rightarrow> nat set \<Rightarrow> tg_world \<Rightarrow> bool" where
  "tg_start env A w \<longleftrightarrow> (\<exists>t. world_ok env A t w \<and> {g. phase w g \<noteq> Css_None} = {root_task_group env})"

text \<open>
  C1. The tree of task groups in every history. Groups are created, which may fail at each of its allocations, brought online,
  released and freed in the order that control groups keep; tasks fork, sleep, wake, exit and are moved; quotas and clamps are written. Then
  the pointers between the groups always form a tree with the root group on top, whose groups are exactly those in \<open>task_groups\<close>, each
  once. With version 1 of the control groups (\<open>\<not> on_dfl env\<close>) no limited group has a larger share of the processor than a limited ancestor; version 2
  accepts every quota in range. All effective clamps are those that the
  requests and the parents give, every task is in a group of the tree, and the queue of a group holds exactly the queued
  tasks of that group. Whatever has been allocated is known to the control groups until it is freed, and removing or freeing a group
  is always defined: no list is corrupted and nothing is freed twice.
\<close>

theorem task_groups_kept:
  assumes "(tg_step h env n)\<^sup>*\<^sup>* w0 w" and "tg_start env A w0" and "bw_ok h" and "tg_env_ok env A"
  shows "\<exists>t. root t = root_task_group env \<and> holds (gs (core w)) t \<and> distinct (ids t) \<and>
    distinct (task_groups (core w)) \<and> set (task_groups (core w)) = set (ids t) \<and>
    (\<not> on_dfl env \<longrightarrow> hierarchy_ok t (gs (core w))) \<and> (\<forall>g \<in> set (ids t). eff_ok (gs (core w)) g) \<and>
    (\<forall>x \<in> alive w. sched_task_group (core w) x \<in> set (ids t)) \<and>
    (\<forall>g x. (g, x) \<in> queued_in (tg_calls (core w)) \<longleftrightarrow> gt_queued (core w) x \<and> sched_task_group (core w) x = g) \<and>
    allocated (core w) = {g. phase w g \<noteq> Css_None} \<union> A \<and>
    (\<forall>g. phase w g = Css_Online \<and> g \<noteq> root_task_group env \<longrightarrow> cpu_cgroup_css_released g (core w) \<noteq> None) \<and>
    (\<forall>g. phase w g \<noteq> Css_None \<longrightarrow> cpu_cgroup_css_free g (core w) \<noteq> None)"
proof -
  have "\<exists>t. world_ok env A t w"
    using assms(1)
  proof (induction rule: rtranclp_induct)
    case base
    then show ?case using assms(2) by (auto simp: tg_start_def)
  next
    case (step w w')
    then show ?case using step_ok [OF step.hyps(2) assms(3,4)] by blast
  qed
  then obtain t where ok: "tree_ok (on_dfl env) t (gs (core w))" "css_ok env A t w" "tasks_ok A w" by (auto simp: world_ok_def)
  note c = css_okD [OF ok(2)]
  have "cpu_cgroup_css_released g (core w) \<noteq> None" if "phase w g = Css_Online" "g \<noteq> root_task_group env" for g
    using offline_defined [OF ok(1) _ _ c(4), of g] that c(1,5) by (auto simp: cpu_cgroup_css_released_def)
  moreover have "cpu_cgroup_css_free g (core w) \<noteq> None" if "phase w g \<noteq> Css_None" for g
    using that c(7) by (simp add: cpu_cgroup_css_free_def sched_free_group_def)
  moreover have "\<forall>x \<in> alive w. sched_task_group (core w) x \<in> set (ids t)"
    using ok(3) c(5) unfolding tasks_ok_def by (metis (mono_tags, lifting) UnI1 UnI2 mem_Collect_eq)
  ultimately show ?thesis
    using ok c(1,3,4,7) by (intro exI [of _ t]) (auto simp: tree_ok_def bw_inv_def shares_ok_def tasks_ok_def queues_ok_def)
qed

text \<open>A group is created below the root, brought online, and the queued task 1 is moved into it.\<close>

definition sample_tg_env :: tg_env where
  "sample_tg_env =
     \<lparr>root_task_group = 0, on_dfl = False, fair_group_init = (\<lambda>_ tg. tg\<lparr>shares := 1048576, cfs_period := 100000000, cfs_quota := 2 ^ 64 - 1\<rparr>),
      autogroup_task_group = (\<lambda>_ g. g), has_task_change_group = (\<lambda>_. True), sched_rt_can_attach = (\<lambda>_ _. True)\<rparr>"

definition sample_tg_world :: tg_world where
  "sample_tg_world =
     \<lparr>core = \<lparr>gs = (\<lambda>_. sample_group None [] (2 ^ 64 - 1)), task_groups = [0], allocated = {0}, css_parent = (\<lambda>_. None),
        task_css = (\<lambda>_. 0), sched_task_group = (\<lambda>_. 0), gt_queued = (\<lambda>t. t = 1), gt_running = (\<lambda>_. False),
        gt_new = (\<lambda>_. False), tg_calls = [Enqueue_To 0 1]\<rparr>,
      phase = (\<lambda>_. Css_None)(0 := Css_Online), alive = {1}\<rparr>"

lemma sample_tg_start: "tg_start sample_tg_env {} sample_tg_world" "tg_env_ok sample_tg_env {}"
proof -
  have "tree_ok (on_dfl sample_tg_env) (Group 0 []) (gs (core sample_tg_world))"
    by (auto simp: tree_ok_def bw_inv_def shares_ok_def hierarchy_ok_def clamp_typed_def eff_ok_def clamp_limit_def sample_tg_world_def sample_group_def
        valid_bw_def limited_def hq_typed_def)
  moreover have "css_ok sample_tg_env {} (Group 0 []) sample_tg_world"
    by (auto simp: css_ok_def sample_tg_env_def sample_tg_world_def split: if_splits)
  moreover have "tasks_ok {} sample_tg_world"
    by (auto simp: tasks_ok_def queues_ok_def queued_in_def sample_tg_world_def)
  ultimately have "world_ok sample_tg_env {} (Group 0 []) sample_tg_world" by (simp add: world_ok_def)
  moreover have "{g. phase sample_tg_world g \<noteq> Css_None} = {root_task_group sample_tg_env}"
    by (auto simp: sample_tg_world_def sample_tg_env_def)
  ultimately show "tg_start sample_tg_env {} sample_tg_world" unfolding tg_start_def by blast
  show "tg_env_ok sample_tg_env {}" by (simp add: tg_env_ok_def sample_tg_env_def valid_bw_def limited_def)
qed

lemma online_tasks:
  assumes "cpu_cgroup_css_online n t s = (s', updates)"
  shows "task_css s' = task_css s" "gt_new s' = gt_new s" "gt_queued s' = gt_queued s"
  using assms by (auto simp: cpu_cgroup_css_online_def sched_online_group_def Let_def split: option.splits prod.splits)

theorem task_groups_kept_witness:
  "\<exists>w t. (tg_step sample_bw sample_tg_env 5)\<^sup>*\<^sup>* sample_tg_world w \<and> root t = 0 \<and> holds (gs (core w)) t \<and> 3 \<in> set (ids t) \<and>
    (3, 1) \<in> queued_in (tg_calls (core w)) \<and> (0, 1) \<notin> queued_in (tg_calls (core w))"
proof -
  let ?w0 = sample_tg_world and ?env = sample_tg_env
  obtain s1 where s1: "cpu_cgroup_css_alloc ?env 5 (Some 3) True True (Some 0) (core ?w0) = Some (Inr 3, s1)"
    "task_css s1 = task_css (core ?w0)" "gt_new s1 = gt_new (core ?w0)" "gt_queued s1 = gt_queued (core ?w0)"
    by (simp add: cpu_cgroup_css_alloc_def sched_create_group_def Let_def)
  let ?w1 = "?w0\<lparr>core := s1\<lparr>css_parent := (css_parent s1)(3 := Some 0)\<rparr>, phase := (phase ?w0)(3 := Css_New)\<rparr>"
  have "tg_step sample_bw ?env 5 ?w0 ?w1"
    by (rule tg_step.created [OF _ _ s1(1)]) (simp_all add: sample_tg_world_def)
  moreover obtain s2 updates where s2: "cpu_cgroup_css_online 5 (Group 3 []) (core ?w1) = (s2, updates)" by force
  define w2 where "w2 = ?w1\<lparr>core := s2, phase := (phase ?w1)(3 := Css_Online)\<rparr>"
  have w2: "core w2 = s2" "alive w2 = {1}" "phase w2 3 = Css_Online" by (simp_all add: w2_def sample_tg_world_def)
  have "tg_step sample_bw ?env 5 ?w1 w2" unfolding w2_def by (rule tg_step.shown [OF _ s2]) simp
  moreover note o = online_tasks [OF s2]
  let ?s = "cpu_cgroup_attach ?env [(1, 3)] (s2\<lparr>task_css := (\<lambda>t. case map_of [(1, 3)] t of Some c \<Rightarrow> c | None \<Rightarrow> task_css s2 t)\<rparr>)"
  have "cpu_cgroup_can_attach ?env [(1, 3)] (core w2) = None" "fst ` set [(1, 3)] \<subseteq> alive w2"
    "\<forall>c \<in> snd ` set [(1, 3)]. phase w2 c = Css_Online"
    using o(2) s1(3) w2 by (simp_all add: sample_tg_world_def sample_tg_env_def)
  from tg_step.attached [OF this] have "tg_step sample_bw ?env 5 w2 (w2\<lparr>core := ?s\<rparr>)" unfolding w2(1) .
  ultimately have run: "(tg_step sample_bw ?env 5)\<^sup>*\<^sup>* ?w0 (w2\<lparr>core := ?s\<rparr>)" by (meson converse_rtranclp_into_rtranclp rtranclp.rtrancl_refl)
  have "bw_ok sample_bw" by (simp add: bw_ok_def sample_bw_def)
  from task_groups_kept [OF run sample_tg_start(1) this sample_tg_start(2)] obtain t where
    t: "root t = 0" "holds (gs ?s) t" "\<forall>x \<in> {1}. sched_task_group ?s x \<in> set (ids t)"
      "\<forall>g x. (g, x) \<in> queued_in (tg_calls ?s) \<longleftrightarrow> gt_queued ?s x \<and> sched_task_group ?s x = g"
    by (auto simp: w2 sample_tg_env_def)
  have "sched_task_group ?s 1 = 3" "gt_queued ?s 1"
    using attach_effect [of ?env "[(1, 3)]"] o(3) s1(4) by (simp_all add: sample_tg_env_def sample_tg_world_def)
  then show ?thesis using run t by (intro exI [of _ "w2\<lparr>core := ?s\<rparr>"] exI [of _ t]) auto
qed

end
