(* ===== verification/Context_Switch.thy ===== *)
theory Context_Switch
  imports Sched_Info "HOL-Library.Multiset"
begin

text \<open>
  The context switch, \<open>core.c\<close>: a kernel thread has no address space of its own and runs in the one of the task before it.
  \<open>context_switch\<close> lends it, \<open>finish_task_switch\<close>, which the next task executes, gives it back, and drops what a dead task has
  left. Between the two other CPUs go on. Address spaces, tasks and CPUs are numbers; \<open>mm_count\<close> are the references
  to an address space. \<open>None\<close> is the use of a null pointer or the drop of a reference that does not exist.
\<close>

section \<open>State\<close>

datatype cs_call =
    Switch_Mm nat
  | Lazy_Tlb nat
  | Callback nat
  | Free_Mm nat
  | Report nat
  | Class_Task_Dead nat
  | Put_Stack nat
  | Put_Task nat
  | Put_User_Tid nat

text \<open>\<open>leaving\<close> is the task that a CPU has switched away from and not yet finished with.\<close>

record mm_sys =
  mm :: "nat \<Rightarrow> nat option"
  active_mm :: "nat \<Rightarrow> nat option"
  mm_count :: "nat \<Rightarrow> nat"
  cs_curr :: "nat \<Rightarrow> nat"
  prev_mm :: "nat \<Rightarrow> nat option"
  leaving :: "nat \<Rightarrow> nat option"
  cs_on_cpu :: "nat \<Rightarrow> bool"
  cs_state :: "nat \<Rightarrow> int"
  preempt_count :: "nat \<Rightarrow> int"
  balance_callback :: "nat \<Rightarrow> nat list"
  cs_calls :: "cs_call list"
  cs_warned :: bool

text \<open>Which tasks are of a class with \<open>task_dead\<close>, and which have \<open>set_child_tid\<close>.\<close>

record cs_env =
  has_task_dead :: "nat \<Rightarrow> bool"
  has_child_tid :: "nat \<Rightarrow> bool"

abbreviation cs_note :: "cs_call list \<Rightarrow> mm_sys \<Rightarrow> mm_sys" where
  "cs_note cs s \<equiv> s\<lparr>cs_calls := cs_calls s @ cs\<rparr>"

definition mmgrab :: "nat \<Rightarrow> mm_sys \<Rightarrow> mm_sys" where
  "mmgrab x s = s\<lparr>mm_count := (mm_count s)(x := mm_count s x + 1)\<rparr>"

definition mmdrop :: "nat \<Rightarrow> mm_sys \<Rightarrow> mm_sys option" where
  "mmdrop x s =
     (if mm_count s x = 0 then None
      else Some (cs_note (if mm_count s x = 1 then [Free_Mm x] else []) (s\<lparr>mm_count := (mm_count s)(x := mm_count s x - 1)\<rparr>)))"

section \<open>Operations\<close>

definition prepare_task :: "nat \<Rightarrow> mm_sys \<Rightarrow> mm_sys" where
  "prepare_task nxt s = s\<lparr>cs_on_cpu := (cs_on_cpu s)(nxt := True)\<rparr>"

fun do_balance_callbacks :: "nat list \<Rightarrow> mm_sys \<Rightarrow> mm_sys" where
  "do_balance_callbacks [] s = s"
| "do_balance_callbacks (f # fs) s = do_balance_callbacks fs (cs_note [Callback f] s)"

definition splice_balance_callbacks :: "nat \<Rightarrow> mm_sys \<Rightarrow> nat list \<times> mm_sys" where
  "splice_balance_callbacks c s =
     (let hd = balance_callback s c in (hd, if hd \<noteq> [] then s\<lparr>balance_callback := (balance_callback s)(c := [])\<rparr> else s))"

text \<open>The run queue lock is a spin lock, so its release enables preemption once.\<close>

definition finish_lock_switch :: "nat \<Rightarrow> mm_sys \<Rightarrow> mm_sys" where
  "finish_lock_switch c s =
     (let (hd, s1) = splice_balance_callbacks c s; s2 = do_balance_callbacks hd s1
      in s2\<lparr>preempt_count := (preempt_count s2)(c := preempt_count s2 c - 1)\<rparr>)"

text \<open>Up to \<open>switch_to\<close>; what the next task does then is \<open>finish_task_switch\<close>.\<close>

definition context_switch :: "nat \<Rightarrow> nat \<Rightarrow> nat \<Rightarrow> mm_sys \<Rightarrow> mm_sys option" where
  "context_switch c prev nxt s =
     (let s1 = prepare_task nxt s in
      case mm s1 nxt of
        None \<Rightarrow>
          let s2 = cs_note [Lazy_Tlb nxt] (s1\<lparr>active_mm := (active_mm s1)(nxt := active_mm s1 prev)\<rparr>) in
          if mm s2 prev \<noteq> None
          then (case active_mm s2 prev of None \<Rightarrow> None | Some x \<Rightarrow> Some (mmgrab x (s2\<lparr>leaving := (leaving s2)(c := Some prev)\<rparr>)))
          else Some (s2\<lparr>active_mm := (active_mm s2)(prev := None), leaving := (leaving s2)(c := Some prev)\<rparr>)
      | Some x \<Rightarrow>
          let s2 = cs_note [Switch_Mm x] s1 in
          if mm s2 prev = None
          then Some (s2\<lparr>prev_mm := (prev_mm s2)(c := active_mm s2 prev), active_mm := (active_mm s2)(prev := None),
                 leaving := (leaving s2)(c := Some prev)\<rparr>)
          else Some (s2\<lparr>leaving := (leaving s2)(c := Some prev)\<rparr>))"

definition finish_task_switch :: "cs_env \<Rightarrow> nat \<Rightarrow> nat \<Rightarrow> mm_sys \<Rightarrow> mm_sys option" where
  "finish_task_switch env c prev s =
     (let old = prev_mm s c;
          s1 = (if preempt_count s c \<noteq> 2 then s\<lparr>cs_warned := True, preempt_count := (preempt_count s)(c := 2)\<rparr> else s);
          s2 = s1\<lparr>prev_mm := (prev_mm s1)(c := None)\<rparr>;
          prev_state = cs_state s2 prev;
          s3 = s2\<lparr>cs_on_cpu := (cs_on_cpu s2)(prev := False)\<rparr>;
          s4 = (finish_lock_switch c s3)\<lparr>leaving := (leaving s3)(c := None)\<rparr>
      in do {
           s5 \<leftarrow> (case old of None \<Rightarrow> Some s4 | Some x \<Rightarrow> mmdrop x s4);
           Some (if prev_state = TASK_DEAD
                 then cs_note ([Report prev] @ (if has_task_dead env prev then [Class_Task_Dead prev] else []) @ [Put_Stack prev, Put_Task prev]) s5
                 else s5) })"

text \<open>The first thing that a new task does; \<open>schedule\<close> ends with the same \<open>preempt_enable\<close> for the others.\<close>

definition schedule_tail :: "cs_env \<Rightarrow> nat \<Rightarrow> nat \<Rightarrow> mm_sys \<Rightarrow> mm_sys option" where
  "schedule_tail env c prev s = do {
     s1 \<leftarrow> finish_task_switch env c prev s;
     let s2 = s1\<lparr>preempt_count := (preempt_count s1)(c := preempt_count s1 c - 1)\<rparr>;
     Some (cs_note (if has_child_tid env (cs_curr s2 c) then [Put_User_Tid (cs_curr s2 c)] else []) s2) }"

section \<open>Histories\<close>

text \<open>
  \<open>N\<close> CPUs. A task is chosen that runs nowhere and is not dead. New tasks get an address space, a new one or that of another
  task, or none; \<open>exit_mm\<close> of \<open>exit.c\<close> leaves the address space of the current task, which keeps running in it as a borrower
  until it is switched out. The address space 0 is the one of the kernel and is never freed.
\<close>

definition in_use :: "mm_sys \<Rightarrow> nat \<Rightarrow> bool" where
  "in_use s x \<longleftrightarrow> x = 0 \<or> (\<exists>t. mm s t = Some x)"

definition exit_mm :: "nat \<Rightarrow> nat \<Rightarrow> mm_sys \<Rightarrow> mm_sys option" where
  "exit_mm t x s =
     (let s1 = (mmgrab x s)\<lparr>mm := (mm s)(t := None)\<rparr>
      in if in_use s1 x then Some s1 else mmdrop x s1)"

inductive cs_step :: "nat \<Rightarrow> cs_env \<Rightarrow> mm_sys \<Rightarrow> mm_sys \<Rightarrow> bool" for N env where
  switch: "c < N \<Longrightarrow> leaving s c = None \<Longrightarrow> \<not> cs_on_cpu s nxt \<Longrightarrow> cs_state s nxt \<noteq> TASK_DEAD \<Longrightarrow> cs_state s nxt \<noteq> TASK_NEW \<Longrightarrow>
    context_switch c (cs_curr s c) nxt (s\<lparr>cs_curr := (cs_curr s)(c := nxt), preempt_count := (preempt_count s)(c := preempt_count s c + 2)\<rparr>) = Some s' \<Longrightarrow>
    cs_step N env s s'"
| finish: "c < N \<Longrightarrow> leaving s c = Some prev \<Longrightarrow> finish_task_switch env c prev s = Some s' \<Longrightarrow>
    cs_step N env s (s'\<lparr>preempt_count := (preempt_count s')(c := preempt_count s' c - 1)\<rparr>)"
| first: "c < N \<Longrightarrow> leaving s c = Some prev \<Longrightarrow> schedule_tail env c prev s = Some s' \<Longrightarrow> cs_step N env s s'"
| new_mm: "\<not> cs_on_cpu s t \<Longrightarrow> cs_state s t = TASK_NEW \<Longrightarrow> mm_count s x = 0 \<Longrightarrow> \<not> in_use s x \<Longrightarrow>
    cs_step N env s (s\<lparr>mm := (mm s)(t := Some x), active_mm := (active_mm s)(t := Some x), mm_count := (mm_count s)(x := 1),
      cs_state := (cs_state s)(t := TASK_RUNNING)\<rparr>)"
| shared_mm: "\<not> cs_on_cpu s t \<Longrightarrow> cs_state s t = TASK_NEW \<Longrightarrow> mm s q = Some x \<Longrightarrow>
    cs_step N env s (s\<lparr>mm := (mm s)(t := Some x), active_mm := (active_mm s)(t := Some x), cs_state := (cs_state s)(t := TASK_RUNNING)\<rparr>)"
| kthread: "\<not> cs_on_cpu s t \<Longrightarrow> cs_state s t = TASK_NEW \<Longrightarrow> cs_step N env s (s\<lparr>cs_state := (cs_state s)(t := TASK_RUNNING)\<rparr>)"
| leave_mm: "c < N \<Longrightarrow> leaving s c = None \<Longrightarrow> mm s (cs_curr s c) = Some x \<Longrightarrow> exit_mm (cs_curr s c) x s = Some s' \<Longrightarrow> cs_step N env s s'"
| die: "c < N \<Longrightarrow> leaving s c = None \<Longrightarrow> mm s (cs_curr s c) = None \<Longrightarrow>
    cs_step N env s (s\<lparr>cs_state := (cs_state s)(cs_curr s c := TASK_DEAD)\<rparr>)"
| set_state: "cs_state s t \<noteq> TASK_DEAD \<Longrightarrow> cs_state s t \<noteq> TASK_NEW \<Longrightarrow> v \<noteq> TASK_DEAD \<Longrightarrow> v \<noteq> TASK_NEW \<Longrightarrow>
    cs_step N env s (s\<lparr>cs_state := (cs_state s)(t := v)\<rparr>)"
| callbacks: "cs_step N env s (s\<lparr>balance_callback := f\<rparr>)"

section \<open>References\<close>

definition borrowed :: "mm_sys \<Rightarrow> nat \<Rightarrow> nat option" where
  "borrowed s c = (if mm s (cs_curr s c) = None then active_mm s (cs_curr s c) else None)"

definition refs :: "nat \<Rightarrow> (nat \<Rightarrow> nat option) \<Rightarrow> nat \<Rightarrow> nat" where
  "refs N f x = card {c. c < N \<and> f c = Some x}"

lemma refs_upd:
  assumes "c < N"
  shows "refs N (f(c := v)) x + (if f c = Some x then 1 else 0) = refs N f x + (if v = Some x then 1 else 0)"
proof -
  let ?S = "{d. d < N \<and> d \<noteq> c \<and> f d = Some x}"
  have fin: "finite ?S" by simp
  have "{d. d < N \<and> f d = Some x} = (if f c = Some x then insert c ?S else ?S)"
    "{d. d < N \<and> (f(c := v)) d = Some x} = (if v = Some x then insert c ?S else ?S)" using assms by auto
  then show ?thesis using fin by (simp add: refs_def)
qed

lemma refs_cong: "(\<And>c. c < N \<Longrightarrow> f c = g c) \<Longrightarrow> refs N f x = refs N g x"
  unfolding refs_def by (metis (mono_tags, lifting))

lemma refs_pos: "c < N \<Longrightarrow> f c = Some x \<Longrightarrow> refs N f x > 0"
  by (auto simp: refs_def card_gt_0_iff)

definition counted :: "nat \<Rightarrow> mm_sys \<Rightarrow> bool" where
  "counted N s \<longleftrightarrow> (\<forall>x. mm_count s x = (if in_use s x then 1 else 0) + refs N (borrowed s) x + refs N (prev_mm s) x)"

definition placed :: "nat \<Rightarrow> mm_sys \<Rightarrow> bool" where
  "placed N s \<longleftrightarrow>
     (\<forall>t. cs_on_cpu s t \<longleftrightarrow> (\<exists>c < N. t = cs_curr s c \<or> leaving s c = Some t)) \<and>
     (\<forall>c < N. \<forall>d < N. leaving s d \<noteq> Some (cs_curr s c)) \<and> (\<forall>c < N. \<forall>d < N. cs_curr s c = cs_curr s d \<longrightarrow> c = d) \<and>
     (\<forall>c < N. \<forall>d < N. \<forall>t. leaving s c = Some t \<and> leaving s d = Some t \<longrightarrow> c = d) \<and>
     (\<forall>c < N. preempt_count s c = (if leaving s c = None then 0 else 2)) \<and> \<not> cs_warned s"

definition spaces_ok :: "nat \<Rightarrow> mm_sys \<Rightarrow> bool" where
  "spaces_ok N s \<longleftrightarrow>
     (\<forall>t x. mm s t = Some x \<longrightarrow> active_mm s t = Some x) \<and> (\<forall>c < N. active_mm s (cs_curr s c) \<noteq> None) \<and>
     (\<forall>t. mm s t = None \<and> active_mm s t \<noteq> None \<longrightarrow> (\<exists>c < N. t = cs_curr s c)) \<and>
     (\<forall>c < N. leaving s c = None \<longrightarrow> prev_mm s c = None) \<and>
     (\<forall>t. cs_state s t = TASK_NEW \<longrightarrow> mm s t = None \<and> active_mm s t = None \<and> \<not> cs_on_cpu s t)"

text \<open>A dead task is reported once, when its last CPU has finished with it.\<close>

definition reported :: "mm_sys \<Rightarrow> bool" where
  "reported s \<longleftrightarrow> (\<forall>t. count (mset (cs_calls s)) (Report t) = (if cs_state s t = TASK_DEAD \<and> \<not> cs_on_cpu s t then 1 else 0))"

definition cs_inv :: "nat \<Rightarrow> mm_sys \<Rightarrow> bool" where
  "cs_inv N s \<longleftrightarrow> placed N s \<and> spaces_ok N s \<and> counted N s \<and> reported s"

lemma task_states: "TASK_DEAD \<noteq> TASK_NEW" "TASK_RUNNING \<noteq> TASK_NEW" "TASK_RUNNING \<noteq> TASK_DEAD"
  by (simp_all add: TASK_DEAD_def TASK_NEW_def TASK_RUNNING_def)

section \<open>Switching\<close>

text \<open>What a switch from \<open>prev\<close> to \<open>nxt\<close> changes, in one formula for the four cases.\<close>

definition switched :: "nat \<Rightarrow> nat \<Rightarrow> nat \<Rightarrow> mm_sys \<Rightarrow> mm_sys \<Rightarrow> bool" where
  "switched c prev nxt s s' \<longleftrightarrow>
     mm s' = mm s \<and> cs_curr s' = (cs_curr s)(c := nxt) \<and> leaving s' = (leaving s)(c := Some prev) \<and>
     cs_on_cpu s' = (cs_on_cpu s)(nxt := True) \<and> cs_state s' = cs_state s \<and> cs_warned s' = cs_warned s \<and>
     preempt_count s' = (preempt_count s)(c := preempt_count s c + 2) \<and>
     mset (cs_calls s') = mset (cs_calls s) + {#if mm s nxt = None then Lazy_Tlb nxt else Switch_Mm (the (mm s nxt))#} \<and>
     active_mm s' = (let a = (if mm s nxt = None then (active_mm s)(nxt := active_mm s prev) else active_mm s)
       in if mm s prev = None then a(prev := None) else a) \<and>
     prev_mm s' = (if mm s nxt \<noteq> None \<and> mm s prev = None then (prev_mm s)(c := active_mm s prev) else prev_mm s) \<and>
     mm_count s' = (if mm s nxt = None \<and> mm s prev \<noteq> None
       then (mm_count s)(the (active_mm s prev) := mm_count s (the (active_mm s prev)) + 1) else mm_count s)"

lemma context_switch_switched:
  assumes "prev = cs_curr s c" and "prev \<noteq> nxt" and "active_mm s prev \<noteq> None"
  shows "\<exists>s'. context_switch c prev nxt (s\<lparr>cs_curr := (cs_curr s)(c := nxt),
      preempt_count := (preempt_count s)(c := preempt_count s c + 2)\<rparr>) = Some s' \<and> switched c prev nxt s s'"
  using assms by (cases "mm s nxt"; cases "mm s prev") (auto simp: context_switch_def prepare_task_def switched_def mmgrab_def Let_def)

lemma ex_less_split: "c < N \<Longrightarrow> (\<exists>d < (N::nat). Q d) \<longleftrightarrow> Q c \<or> (\<exists>d < N. d \<noteq> c \<and> Q d)"
  by auto

lemma placedI:
  assumes "\<And>t. cs_on_cpu s t \<longleftrightarrow> (\<exists>c < N. t = cs_curr s c \<or> leaving s c = Some t)"
    and "\<And>c d. c < N \<Longrightarrow> d < N \<Longrightarrow> leaving s d \<noteq> Some (cs_curr s c)"
    and "\<And>c d. c < N \<Longrightarrow> d < N \<Longrightarrow> cs_curr s c = cs_curr s d \<Longrightarrow> c = d"
    and "\<And>c d t. c < N \<Longrightarrow> d < N \<Longrightarrow> leaving s c = Some t \<Longrightarrow> leaving s d = Some t \<Longrightarrow> c = d"
    and "\<And>c. c < N \<Longrightarrow> preempt_count s c = (if leaving s c = None then 0 else 2)" and "\<not> cs_warned s"
  shows "placed N s"
  unfolding placed_def by (intro conjI allI impI) (use assms in blast)+

lemma placed_apart:
  assumes "placed N s" and "c < N" and "d < N"
  shows "leaving s d \<noteq> Some (cs_curr s c)" "c \<noteq> d \<Longrightarrow> cs_curr s c \<noteq> cs_curr s d" "c \<noteq> d \<Longrightarrow> leaving s c = Some t \<Longrightarrow> leaving s d \<noteq> Some t"
  using assms unfolding placed_def by blast+

lemma placed_on: "placed N s \<Longrightarrow> cs_on_cpu s t \<longleftrightarrow> (\<exists>c < N. t = cs_curr s c \<or> leaving s c = Some t)"
  by (simp add: placed_def)

lemma switch_placed:
  assumes pl: "placed N s" and c: "c < N" "leaving s c = None" and nxt: "\<not> cs_on_cpu s nxt" and sw: "switched c (cs_curr s c) nxt s s'"
  shows "placed N s'"
proof -
  have w: "cs_curr s' = (cs_curr s)(c := nxt)" "leaving s' = (leaving s)(c := Some (cs_curr s c))"
    "cs_on_cpu s' = (cs_on_cpu s)(nxt := True)" "preempt_count s' = (preempt_count s)(c := preempt_count s c + 2)" "cs_warned s' = cs_warned s"
    using sw by (simp_all add: switched_def)
  have free: "cs_curr s d \<noteq> nxt" "leaving s d \<noteq> Some nxt" if "d < N" for d using that nxt placed_on [OF pl] by auto
  have "cs_on_cpu s' t \<longleftrightarrow> (\<exists>d < N. t = cs_curr s' d \<or> leaving s' d = Some t)" for t
  proof -
    have "(\<exists>d < N. t = cs_curr s' d \<or> leaving s' d = Some t) \<longleftrightarrow> (t = nxt \<or> cs_curr s c = t) \<or> (\<exists>d < N. d \<noteq> c \<and> (t = cs_curr s d \<or> leaving s d = Some t))"
      by (subst ex_less_split [OF c(1)]) (auto simp: w)
    moreover have "cs_on_cpu s t \<longleftrightarrow> t = cs_curr s c \<or> (\<exists>d < N. d \<noteq> c \<and> (t = cs_curr s d \<or> leaving s d = Some t))"
      unfolding placed_on [OF pl] ex_less_split [OF c(1), of "\<lambda>d. t = cs_curr s d \<or> leaving s d = Some t"] using c(2) by simp
    ultimately show ?thesis using w(3) by auto
  qed
  moreover have "leaving s' e \<noteq> Some (cs_curr s' d)" if "d < N" "e < N" for d e
    using placed_apart [OF pl that] placed_apart(2) [OF pl that(1) c(1)] free that by (auto simp: w)
  moreover have "d = e" if "d < N" "e < N" "cs_curr s' d = cs_curr s' e" for d e
    using placed_apart(2) [OF pl that(1,2)] free [OF that(1)] free [OF that(2)] that(3) by (auto simp: w split: if_splits)
  moreover have "d = e" if "d < N" "e < N" "leaving s' d = Some t" "leaving s' e = Some t" for d e t
    using placed_apart(3) [OF pl that(1,2)] placed_apart(1) [OF pl c(1) that(2)] placed_apart(1) [OF pl c(1) that(1)] that(3,4)
    by (auto simp: w split: if_splits)
  moreover have "preempt_count s' d = (if leaving s' d = None then 0 else 2)" if "d < N" for d using pl c that by (auto simp: placed_def w)
  moreover have "\<not> cs_warned s'" using pl w(5) by (simp add: placed_def)
  ultimately show ?thesis by (rule placedI)
qed

lemma switch_spaces:
  assumes sp: "spaces_ok N s" and pl: "placed N s" and c: "c < N" "leaving s c = None" and nxt: "\<not> cs_on_cpu s nxt" "cs_state s nxt \<noteq> TASK_NEW"
    and sw: "switched c (cs_curr s c) nxt s s'"
  shows "spaces_ok N s'"
proof -
  let ?p = "cs_curr s c"
  have w: "mm s' = mm s" "cs_curr s' = (cs_curr s)(c := nxt)" "leaving s' = (leaving s)(c := Some ?p)" "cs_state s' = cs_state s"
    "cs_on_cpu s' = (cs_on_cpu s)(nxt := True)"
    "prev_mm s' = (if mm s nxt \<noteq> None \<and> mm s ?p = None then (prev_mm s)(c := active_mm s ?p) else prev_mm s)"
    and a: "active_mm s' t = (if t = ?p \<and> mm s t = None then None else if t = nxt \<and> mm s t = None then active_mm s ?p else active_mm s t)" for t
    using sw by (auto simp: switched_def Let_def)
  have pn: "?p \<noteq> nxt" and on: "cs_on_cpu s ?p" using nxt(1) c(1) placed_on [OF pl] by auto
  have other: "cs_curr s d \<noteq> ?p" "cs_curr s d \<noteq> nxt" if "d < N" "d \<noteq> c" for d
    using placed_apart(2) [OF pl that(1) c(1) that(2)] nxt(1) that(1) placed_on [OF pl] by auto
  have user: "mm s t = Some x \<Longrightarrow> active_mm s t = Some x" for t x using sp by (simp add: spaces_ok_def)
  have run: "d < N \<Longrightarrow> active_mm s (cs_curr s d) \<noteq> None" for d using sp by (simp add: spaces_ok_def)
  have lent: "mm s t = None \<Longrightarrow> active_mm s t \<noteq> None \<Longrightarrow> \<exists>d < N. t = cs_curr s d" for t using sp by (simp add: spaces_ok_def)
  have "\<exists>d < N. t = cs_curr s' d" if t: "mm s' t = None" "active_mm s' t \<noteq> None" for t
  proof (cases "t = nxt")
    case True
    then show ?thesis using c(1) by (auto simp: w)
  next
    case False
    then obtain d where "d < N" "t = cs_curr s d" "t \<noteq> ?p" using lent [of t] t by (auto simp: a w(1) split: if_splits)
    then show ?thesis by (auto simp: w intro!: exI [of _ d])
  qed
  moreover have "active_mm s' (cs_curr s' d) \<noteq> None" if "d < N" for d
    using run [OF that] run [OF c(1)] other [OF that] pn user by (cases "d = c"; cases "mm s nxt") (auto simp: w a)
  moreover have "mm s' t = None \<and> active_mm s' t = None \<and> \<not> cs_on_cpu s' t" if "cs_state s' t = TASK_NEW" for t
    using sp that nxt(2) on by (auto simp: spaces_ok_def w a)
  moreover have "active_mm s' t = Some x" if "mm s' t = Some x" for t x using user [of t x] that by (simp add: w(1) a)
  moreover have "prev_mm s' d = None" if "d < N" "leaving s' d = None" for d
    using sp that by (auto simp: spaces_ok_def w split: if_splits)
  ultimately show ?thesis unfolding spaces_ok_def by blast
qed

lemma switch_inv:
  assumes inv: "cs_inv N s" and c: "c < N" "leaving s c = None" and nxt: "\<not> cs_on_cpu s nxt" "cs_state s nxt \<noteq> TASK_DEAD" "cs_state s nxt \<noteq> TASK_NEW"
    and sw: "switched c (cs_curr s c) nxt s s'"
  shows "cs_inv N s'"
proof -
  let ?p = "cs_curr s c"
  note w = sw [unfolded switched_def Let_def]
  have pl: "placed N s" and sp: "spaces_ok N s" and cnt: "counted N s" and rep: "reported s" using inv by (auto simp: cs_inv_def)
  have pn: "?p \<noteq> nxt" using nxt c pl by (auto simp: placed_def)
  have other: "cs_curr s d \<noteq> ?p" "cs_curr s d \<noteq> nxt" if "d < N" "d \<noteq> c" for d
    using that c nxt pl by (auto simp: placed_def)
  have "placed N s'" by (rule switch_placed [OF pl c nxt(1) sw])
  moreover have "spaces_ok N s'" by (rule switch_spaces [OF sp pl c nxt(1,3) sw])
  moreover have "reported s'"
    using rep w nxt(1,2) by (auto simp: reported_def)
  moreover have "counted N s'"
  proof -
    let ?v = "if mm s nxt = None then active_mm s ?p else None"
    have b: "borrowed s' d = ((borrowed s)(c := ?v)) d" if "d < N" for d
      using w pn other [OF that] by (cases "d = c") (auto simp: borrowed_def)
    have use: "in_use s' = in_use s" using w by (auto simp: in_use_def)
    have free: "prev_mm s c = None" using sp c by (auto simp: spaces_ok_def)
    obtain x where x: "active_mm s ?p = Some x" using sp c by (auto simp: spaces_ok_def)
    show ?thesis
      unfolding counted_def
    proof
      fix z
      have m: "mm_count s z = (if in_use s z then 1 else 0) + refs N (borrowed s) z + refs N (prev_mm s) z" using cnt by (simp add: counted_def)
      have "refs N (borrowed s') z = refs N ((borrowed s)(c := ?v)) z" by (rule refs_cong) (rule b)
      then have r1: "refs N (borrowed s') z + (if borrowed s c = Some z then 1 else 0) = refs N (borrowed s) z + (if ?v = Some z then 1 else 0)"
        using refs_upd [OF c(1), of "borrowed s" ?v z] by (simp only:)
      have r2: "refs N ((prev_mm s)(c := Some x)) z = refs N (prev_mm s) z + (if x = z then 1 else 0)"
        using refs_upd [OF c(1), of "prev_mm s" "Some x" z] free by simp
      have "mm_count s' z = (if mm s nxt = None \<and> mm s ?p \<noteq> None \<and> z = x then mm_count s z + 1 else mm_count s z)"
        "prev_mm s' = (if mm s nxt \<noteq> None \<and> mm s ?p = None then (prev_mm s)(c := Some x) else prev_mm s)"
        using w x by auto
      then show "mm_count s' z = (if in_use s' z then 1 else 0) + refs N (borrowed s') z + refs N (prev_mm s') z"
        using m r1 r2 x by (cases "mm s nxt"; cases "mm s ?p") (auto simp: use borrowed_def split: if_splits)
    qed
  qed
  ultimately show ?thesis by (simp add: cs_inv_def)
qed

section \<open>Finishing\<close>

definition finished :: "int \<Rightarrow> nat \<Rightarrow> nat \<Rightarrow> mm_sys \<Rightarrow> mm_sys \<Rightarrow> bool" where
  "finished k c prev s s' \<longleftrightarrow>
     mm s' = mm s \<and> active_mm s' = active_mm s \<and> cs_curr s' = cs_curr s \<and> cs_state s' = cs_state s \<and> cs_warned s' = cs_warned s \<and>
     leaving s' = (leaving s)(c := None) \<and> prev_mm s' = (prev_mm s)(c := None) \<and> cs_on_cpu s' = (cs_on_cpu s)(prev := False) \<and>
     preempt_count s' = (preempt_count s)(c := k) \<and>
     mm_count s' = (case prev_mm s c of None \<Rightarrow> mm_count s | Some x \<Rightarrow> (mm_count s)(x := mm_count s x - 1)) \<and>
     (\<forall>t. count (mset (cs_calls s')) (Report t) = count (mset (cs_calls s)) (Report t) + (if t = prev \<and> cs_state s prev = TASK_DEAD then 1 else 0))"

lemma do_balance_callbacks_eq: "do_balance_callbacks fs s = cs_note (map Callback fs) s"
  by (induction fs arbitrary: s) simp_all

lemma finish_lock_switch_eq:
  "finish_lock_switch c s = (cs_note (map Callback (balance_callback s c)) s)
     \<lparr>balance_callback := (balance_callback s)(c := []), preempt_count := (preempt_count s)(c := preempt_count s c - 1)\<rparr>"
  by (cases "balance_callback s c") (auto simp: finish_lock_switch_def splice_balance_callbacks_def do_balance_callbacks_eq fun_upd_idem)

lemma no_reports: "count (image_mset Callback M) (Report t) = 0"
  by (induction M) simp_all

lemma finish_task_switch_finished:
  assumes "preempt_count s c = 2" and "\<And>x. prev_mm s c = Some x \<Longrightarrow> mm_count s x \<noteq> 0"
  shows "\<exists>s'. finish_task_switch env c prev s = Some s' \<and> finished 1 c prev s s'"
proof (cases "prev_mm s c")
  case None
  then show ?thesis using assms(1) by (auto simp: finish_task_switch_def finished_def finish_lock_switch_eq no_reports Let_def)
next
  case (Some x)
  then show ?thesis
    using assms by (auto simp: finish_task_switch_def finished_def finish_lock_switch_eq mmdrop_def no_reports Let_def)
qed

lemma schedule_tail_finished:
  assumes "preempt_count s c = 2" and "\<And>x. prev_mm s c = Some x \<Longrightarrow> mm_count s x \<noteq> 0"
  shows "\<exists>s'. schedule_tail env c prev s = Some s' \<and> finished 0 c prev s s'"
proof -
  obtain s1 where "finish_task_switch env c prev s = Some s1" "finished 1 c prev s s1"
    using finish_task_switch_finished [OF assms] by blast
  then show ?thesis by (auto simp: schedule_tail_def finished_def Let_def)
qed

lemma finish_inv:
  assumes inv: "cs_inv N s" and c: "c < N" "leaving s c = Some prev" and f: "finished 0 c prev s s'"
  shows "cs_inv N s'"
proof -
  note w = f [unfolded finished_def]
  have pl: "placed N s" and sp: "spaces_ok N s" and cnt: "counted N s" and rep: "reported s" using inv by (auto simp: cs_inv_def)
  have on: "cs_on_cpu s prev" using placed_on [OF pl] c by auto
  have gone: "cs_curr s d \<noteq> prev" "d \<noteq> c \<Longrightarrow> leaving s d \<noteq> Some prev" if "d < N" for d
    using placed_apart(1) [OF pl that c(1)] placed_apart(3) [OF pl c(1) that, of prev] c(2) by auto
  have "placed N s'"
  proof (rule placedI)
    show "cs_on_cpu s' t \<longleftrightarrow> (\<exists>d < N. t = cs_curr s' d \<or> leaving s' d = Some t)" for t
    proof -
      let ?R = "\<exists>d < N. d \<noteq> c \<and> (t = cs_curr s d \<or> leaving s d = Some t)"
      have "(\<exists>d < N. t = cs_curr s' d \<or> leaving s' d = Some t) \<longleftrightarrow> t = cs_curr s c \<or> ?R"
        using w by (subst ex_less_split [OF c(1)]) auto
      moreover have "cs_on_cpu s t \<longleftrightarrow> t = cs_curr s c \<or> t = prev \<or> ?R"
        unfolding placed_on [OF pl] using c(2) by (subst ex_less_split [OF c(1)]) auto
      moreover have "?R \<Longrightarrow> t \<noteq> prev" "cs_curr s c \<noteq> prev" using gone c(1) by auto
      ultimately show ?thesis using w by auto
    qed
    show "leaving s' e \<noteq> Some (cs_curr s' d)" if "d < N" "e < N" for d e using placed_apart(1) [OF pl that] w by auto
    show "d = e" if "d < N" "e < N" "cs_curr s' d = cs_curr s' e" for d e using placed_apart(2) [OF pl that(1,2)] that(3) w by auto
    show "d = e" if "d < N" "e < N" "leaving s' d = Some t" "leaving s' e = Some t" for d e t
      using placed_apart(3) [OF pl that(1,2), of t] that(3,4) w by (auto split: if_splits)
    show "preempt_count s' d = (if leaving s' d = None then 0 else 2)" if "d < N" for d using pl that w by (auto simp: placed_def)
    show "\<not> cs_warned s'" using pl w by (simp add: placed_def)
  qed
  moreover have "spaces_ok N s'" using sp w unfolding spaces_ok_def by auto
  moreover have "reported s'" using rep w on by (auto simp: reported_def)
  moreover have "counted N s'"
    unfolding counted_def
  proof
    fix z
    have b: "borrowed s' = borrowed s" "in_use s' = in_use s" using w by (auto simp: borrowed_def in_use_def)
    have m: "mm_count s z = (if in_use s z then 1 else 0) + refs N (borrowed s) z + refs N (prev_mm s) z" using cnt by (simp add: counted_def)
    have "refs N ((prev_mm s)(c := None)) z + (if prev_mm s c = Some z then 1 else 0) = refs N (prev_mm s) z"
      using refs_upd [OF c(1), of "prev_mm s" None z] by simp
    moreover have "mm_count s' z = (if prev_mm s c = Some z then mm_count s z - 1 else mm_count s z)" "prev_mm s' = (prev_mm s)(c := None)"
      using w by (auto split: option.splits)
    ultimately show "mm_count s' z = (if in_use s' z then 1 else 0) + refs N (borrowed s') z + refs N (prev_mm s') z"
      using m by (auto simp: b split: if_splits)
  qed
  ultimately show ?thesis by (simp add: cs_inv_def)
qed

lemma count_pos:
  assumes "cs_inv N s"
  shows "c < N \<Longrightarrow> prev_mm s c = Some x \<Longrightarrow> mm_count s x \<noteq> 0" "in_use s x \<Longrightarrow> mm_count s x \<noteq> 0"
    "c < N \<Longrightarrow> active_mm s (cs_curr s c) = Some x \<Longrightarrow> mm_count s x \<noteq> 0"
proof -
  have m: "mm_count s x = (if in_use s x then 1 else 0) + refs N (borrowed s) x + refs N (prev_mm s) x" for x
    using assms by (simp add: cs_inv_def counted_def)
  show "mm_count s x \<noteq> 0" if "c < N" "prev_mm s c = Some x" using m [of x] refs_pos [of c N "prev_mm s" x, OF that] by simp
  show "mm_count s x \<noteq> 0" if "in_use s x" using m [of x] that by simp
  show "mm_count s x \<noteq> 0" if "c < N" "active_mm s (cs_curr s c) = Some x"
  proof (cases "mm s (cs_curr s c)")
    case None
    then show ?thesis using m [of x] refs_pos [of c N "borrowed s" x] that by (simp add: borrowed_def)
  next
    case (Some y)
    then have "y = x" using assms that(2) by (auto simp: cs_inv_def spaces_ok_def)
    then show ?thesis using m [of x] Some by (auto simp: in_use_def)
  qed
qed

section \<open>The other steps\<close>

lemma exit_mm_result:
  assumes inv: "cs_inv N s" and x: "mm s (cs_curr s c) = Some x"
  shows "\<exists>s'. exit_mm (cs_curr s c) x s = Some s'"
  using count_pos(2) [OF inv, of x] by (auto simp: exit_mm_def mmdrop_def mmgrab_def Let_def)

lemma leave_mm_inv:
  assumes inv: "cs_inv N s" and c: "c < N" and x: "mm s (cs_curr s c) = Some x" and r: "exit_mm (cs_curr s c) x s = Some s'"
  shows "cs_inv N s'"
proof -
  let ?p = "cs_curr s c"
  have pl: "placed N s" and sp: "spaces_ok N s" and cnt: "counted N s" and rep: "reported s" using inv by (auto simp: cs_inv_def)
  define left where "left \<longleftrightarrow> in_use (s\<lparr>mm := (mm s)(?p := None)\<rparr>) x"
  have left: "in_use ((mmgrab x s)\<lparr>mm := (mm s)(?p := None)\<rparr>) x = left" by (simp add: left_def in_use_def)
  have w: "mm s' = (mm s)(?p := None)" "active_mm s' = active_mm s" "cs_curr s' = cs_curr s" "prev_mm s' = prev_mm s" "leaving s' = leaving s"
    "cs_on_cpu s' = cs_on_cpu s" "cs_state s' = cs_state s" "preempt_count s' = preempt_count s" "cs_warned s' = cs_warned s"
    "mm_count s' = (mm_count s)(x := mm_count s x + (if left then 1 else 0))"
    "count (mset (cs_calls s')) (Report t) = count (mset (cs_calls s)) (Report t)" for t
    using r unfolding exit_mm_def Let_def left by (cases left; auto simp: mmdrop_def mmgrab_def split: if_splits)+
  have "placed N s'" using pl by (simp add: placed_def w)
  moreover have "active_mm s ?p = Some x" using sp x by (auto simp: spaces_ok_def)
  then have "spaces_ok N s'" using sp c unfolding spaces_ok_def by (auto simp: w)
  moreover have "reported s'" using rep by (simp add: reported_def w)
  moreover have "counted N s'"
    unfolding counted_def
  proof
    fix z
    have m: "mm_count s z = (if in_use s z then 1 else 0) + refs N (borrowed s) z + refs N (prev_mm s) z" using cnt by (simp add: counted_def)
    have "borrowed s' d = ((borrowed s)(c := Some x)) d" if "d < N" for d
      using \<open>active_mm s ?p = Some x\<close> placed_apart(2) [OF pl that c] by (auto simp: borrowed_def w)
    then have "refs N (borrowed s') z = refs N ((borrowed s)(c := Some x)) z" by (rule refs_cong)
    then have b: "refs N (borrowed s') z = refs N (borrowed s) z + (if x = z then 1 else 0)"
      using refs_upd [OF c, of "borrowed s" "Some x" z] x by (simp add: borrowed_def)
    have "in_use s' z \<longleftrightarrow> (if z = x then left else in_use s z)"
      unfolding in_use_def left_def w using x by (auto split: if_splits) (metis option.inject)
    moreover have "in_use s x" using x by (auto simp: in_use_def)
    ultimately show "mm_count s' z = (if in_use s' z then 1 else 0) + refs N (borrowed s') z + refs N (prev_mm s') z"
      using m b by (auto simp: w)
  qed
  ultimately show ?thesis by (simp add: cs_inv_def)
qed

text \<open>Steps that only concern a new task, or the state of a task.\<close>

lemma new_task_inv:
  assumes inv: "cs_inv N s" and t: "\<not> cs_on_cpu s t" "cs_state s t = TASK_NEW"
    and w: "mm s' = (mm s)(t := v)" "active_mm s' = (active_mm s)(t := v)" "cs_curr s' = cs_curr s" "prev_mm s' = prev_mm s" "leaving s' = leaving s"
      "cs_on_cpu s' = cs_on_cpu s" "cs_state s' = (cs_state s)(t := TASK_RUNNING)" "preempt_count s' = preempt_count s" "cs_warned s' = cs_warned s" "cs_calls s' = cs_calls s"
    and count: "\<And>z. mm_count s' z = mm_count s z + (if in_use s' z \<and> \<not> in_use s z then 1 else 0)"
  shows "cs_inv N s'"
proof -
  have pl: "placed N s" and sp: "spaces_ok N s" and cnt: "counted N s" and rep: "reported s" using inv by (auto simp: cs_inv_def)
  have old: "mm s t = None" "active_mm s t = None" using sp t(2) by (auto simp: spaces_ok_def)
  have not_curr: "cs_curr s d \<noteq> t" if "d < N" for d using t(1) that placed_on [OF pl] by auto
  have use: "in_use s z \<Longrightarrow> in_use s' z" for z unfolding in_use_def w using old(1) by (metis fun_upd_apply option.distinct(1))
  have "placed N s'" using pl by (simp add: placed_def w)
  moreover have "spaces_ok N s'" using sp not_curr task_states old unfolding spaces_ok_def by (auto simp: w)
  moreover have "reported s'" using rep t task_states by (auto simp: reported_def w)
  moreover have "borrowed s' d = borrowed s d" if "d < N" for d using not_curr [OF that] by (simp add: borrowed_def w)
  then have "refs N (borrowed s') z = refs N (borrowed s) z" for z by (rule refs_cong)
  then have "counted N s'" using cnt count use by (auto simp: counted_def w)
  ultimately show ?thesis by (simp add: cs_inv_def)
qed

lemma state_inv:
  assumes inv: "cs_inv N s" and t: "cs_state s t \<noteq> TASK_DEAD" "v \<noteq> TASK_NEW" and v: "v = TASK_DEAD \<Longrightarrow> cs_on_cpu s t"
  shows "cs_inv N (s\<lparr>cs_state := (cs_state s)(t := v)\<rparr>)"
  using assms
  by (auto simp: cs_inv_def placed_def spaces_ok_def counted_def reported_def borrowed_def in_use_def refs_def)

lemma cs_step_inv:
  assumes "cs_step N env s s'" and inv: "cs_inv N s"
  shows "cs_inv N s'"
  using assms(1)
proof cases
  case (switch c nxt)
  have "active_mm s (cs_curr s c) \<noteq> None" "cs_curr s c \<noteq> nxt"
    using inv switch by (auto simp: cs_inv_def spaces_ok_def placed_def)
  then have "switched c (cs_curr s c) nxt s s'" using context_switch_switched [of "cs_curr s c" s c nxt] switch by auto
  then show ?thesis using switch_inv [OF inv] switch by blast
next
  case (finish c prev s1)
  then have p: "preempt_count s c = 2" using inv by (auto simp: cs_inv_def placed_def)
  then have "finished 1 c prev s s1" using finish_task_switch_finished [OF p, of env prev] count_pos(1) [OF inv] finish by auto
  then have "finished 0 c prev s s'" using finish(1) by (simp add: finished_def)
  then show ?thesis using finish_inv [OF inv] finish by blast
next
  case (first c prev)
  then have p: "preempt_count s c = 2" using inv by (auto simp: cs_inv_def placed_def)
  then have "finished 0 c prev s s'" using schedule_tail_finished [OF p, of env prev] count_pos(1) [OF inv] first by auto
  then show ?thesis using finish_inv [OF inv] first by blast
next
  case (new_mm t x)
  have "mm s t = None" using inv new_mm by (auto simp: cs_inv_def spaces_ok_def)
  then have "in_use s' z \<longleftrightarrow> z = x \<or> in_use s z" for z unfolding new_mm(1) in_use_def by simp (metis option.distinct(1))
  then show ?thesis by (intro new_task_inv [OF inv new_mm(2,3), of s' "Some x"]) (use new_mm in auto)
next
  case (shared_mm t q x)
  have "mm s t = None" using inv shared_mm by (auto simp: cs_inv_def spaces_ok_def)
  then have "in_use s' z \<longleftrightarrow> in_use s z" for z unfolding shared_mm(1) in_use_def using shared_mm(4) by simp (metis option.distinct(1))
  then show ?thesis by (intro new_task_inv [OF inv shared_mm(2,3), of s' "Some x"]) (use shared_mm in auto)
next
  case (kthread t)
  then have "mm s t = None" "active_mm s t = None" using inv by (auto simp: cs_inv_def spaces_ok_def)
  then show ?thesis by (intro new_task_inv [OF inv kthread(2,3), of s' None]) (use kthread in \<open>auto simp: in_use_def\<close>)
next
  case (leave_mm c x)
  then show ?thesis using leave_mm_inv [OF inv] by blast
next
  case (die c)
  show ?thesis
  proof (cases "cs_state s (cs_curr s c) = TASK_DEAD")
    case True
    then have "s' = s" using die by (simp add: fun_upd_idem)
    then show ?thesis using inv by simp
  next
    case False
    then show ?thesis using state_inv [OF inv, of "cs_curr s c" TASK_DEAD] die inv task_states by (auto simp: cs_inv_def placed_def)
  qed
next
  case (set_state t v)
  then show ?thesis using state_inv [OF inv] by auto
next
  case (callbacks f)
  have "borrowed s' = borrowed s" "in_use s' = in_use s" by (auto simp: callbacks borrowed_def in_use_def)
  then have "counted N s' = counted N s" by (simp add: counted_def callbacks)
  moreover have "placed N s' = placed N s" "spaces_ok N s' = spaces_ok N s" "reported s' = reported s"
    by (simp_all add: callbacks placed_def spaces_ok_def reported_def)
  ultimately show ?thesis using inv by (simp add: cs_inv_def)
qed

text \<open>Every CPU runs its idle task in the address space of the kernel.\<close>

definition cs_boot :: "nat \<Rightarrow> mm_sys" where
  "cs_boot N = \<lparr>mm = (\<lambda>_. None), active_mm = (\<lambda>t. if t < N then Some 0 else None), mm_count = (\<lambda>x. if x = 0 then N + 1 else 0),
     cs_curr = (\<lambda>c. c), prev_mm = (\<lambda>_. None), leaving = (\<lambda>_. None), cs_on_cpu = (\<lambda>t. t < N),
     cs_state = (\<lambda>t. if t < N then TASK_RUNNING else TASK_NEW), preempt_count = (\<lambda>_. 0), balance_callback = (\<lambda>_. []),
     cs_calls = [], cs_warned = False\<rparr>"

lemma cs_boot_inv: "cs_inv N (cs_boot N)"
proof -
  have "refs N (borrowed (cs_boot N)) x = (if x = 0 then N else 0)" "refs N (prev_mm (cs_boot N)) x = 0" for x
    by (auto simp: refs_def borrowed_def cs_boot_def)
  then have "counted N (cs_boot N)" by (simp add: counted_def in_use_def cs_boot_def)
  moreover have "placed N (cs_boot N)" "spaces_ok N (cs_boot N)" "reported (cs_boot N)"
    using task_states by (auto simp: placed_def spaces_ok_def reported_def cs_boot_def TASK_DEAD_def TASK_NEW_def TASK_RUNNING_def)
  ultimately show ?thesis by (simp add: cs_inv_def)
qed

text \<open>
  C3. Address spaces across context switches. In every history of switches on \<open>N\<close> CPUs, with new tasks and exits, no CPU ever runs in
  an address space that has been freed, and an address space with no user is freed as soon as no CPU has borrowed it and no switch away from a
  borrower is still to be finished: the count is exactly the number of these references. A task that has died is reported, with its
  processor time, exactly once, after its last CPU has left it. A switch and its completion are always defined,
  whatever happens on other CPUs in between, and the preemption count is never corrupted.
\<close>

theorem context_switch_safe:
  assumes "(cs_step N env)\<^sup>*\<^sup>* (cs_boot N) s"
  shows "(\<forall>c < N. \<exists>x. active_mm s (cs_curr s c) = Some x \<and> mm_count s x > 0) \<and>
    (\<forall>x. mm_count s x = (if in_use s x then 1 else 0) + card {c. c < N \<and> mm s (cs_curr s c) = None \<and> active_mm s (cs_curr s c) = Some x} +
      card {c. c < N \<and> prev_mm s c = Some x}) \<and>
    (\<forall>t. count (mset (cs_calls s)) (Report t) = (if cs_state s t = TASK_DEAD \<and> \<not> cs_on_cpu s t then 1 else 0)) \<and>
    \<not> cs_warned s \<and>
    (\<forall>c < N. \<forall>nxt. leaving s c = None \<and> \<not> cs_on_cpu s nxt \<longrightarrow> context_switch c (cs_curr s c) nxt s \<noteq> None) \<and>
    (\<forall>c < N. \<forall>prev. leaving s c = Some prev \<longrightarrow> finish_task_switch env c prev s \<noteq> None)"
proof -
  have inv: "cs_inv N s"
    using assms by (induction rule: rtranclp_induct) (use cs_boot_inv cs_step_inv in blast)+
  have run: "\<exists>x. active_mm s (cs_curr s c) = Some x" if "c < N" for c using inv that by (auto simp: cs_inv_def spaces_ok_def)
  then have "\<exists>x. active_mm s (cs_curr s c) = Some x \<and> mm_count s x > 0" if "c < N" for c
    using count_pos(3) [OF inv that] that by blast
  moreover have "mm_count s x = (if in_use s x then 1 else 0) + card {c. c < N \<and> mm s (cs_curr s c) = None \<and> active_mm s (cs_curr s c) = Some x} +
      card {c. c < N \<and> prev_mm s c = Some x}" for x
  proof -
    have "{c. c < N \<and> borrowed s c = Some x} = {c. c < N \<and> mm s (cs_curr s c) = None \<and> active_mm s (cs_curr s c) = Some x}"
      by (auto simp: borrowed_def)
    then show ?thesis using inv by (simp add: cs_inv_def counted_def refs_def)
  qed
  moreover have "context_switch c (cs_curr s c) nxt s \<noteq> None" if "c < N" "\<not> cs_on_cpu s nxt" for c nxt
    using run [OF that(1)] inv that by (auto simp: context_switch_def prepare_task_def cs_inv_def placed_def Let_def split: option.splits)
  moreover have "finish_task_switch env c prev s \<noteq> None" if "c < N" "leaving s c = Some prev" for c prev
    using finish_task_switch_finished [of s c env prev] count_pos(1) [OF inv that(1)] inv that by (auto simp: cs_inv_def placed_def)
  ultimately show ?thesis using inv by (auto simp: cs_inv_def reported_def placed_def)
qed

text \<open>A new user task replaces the idle task of a CPU.\<close>

theorem context_switch_safe_witness:
  "\<exists>s. (cs_step 1 \<lparr>has_task_dead = (\<lambda>_. False), has_child_tid = (\<lambda>_. False)\<rparr>)\<^sup>*\<^sup>* (cs_boot 1) s \<and>
    cs_curr s 0 = 5 \<and> mm_count s 7 = 1 \<and> mm_count s 0 = 2 \<and> prev_mm s 0 = Some 0"
proof -
  let ?env = "\<lparr>has_task_dead = (\<lambda>_. False), has_child_tid = (\<lambda>_. False)\<rparr>" and ?b = "cs_boot 1"
  let ?s1 = "?b\<lparr>mm := (mm ?b)(5 := Some 7), active_mm := (active_mm ?b)(5 := Some 7), mm_count := (mm_count ?b)(7 := 1),
    cs_state := (cs_state ?b)(5 := TASK_RUNNING)\<rparr>"
  have "cs_step 1 ?env ?b ?s1" by (rule cs_step.new_mm) (simp_all add: cs_boot_def in_use_def)
  moreover obtain s where s: "context_switch 0 (cs_curr ?s1 0) 5
      (?s1\<lparr>cs_curr := (cs_curr ?s1)(0 := 5), preempt_count := (preempt_count ?s1)(0 := preempt_count ?s1 0 + 2)\<rparr>) = Some s"
    and w: "switched 0 (cs_curr ?s1 0) 5 ?s1 s"
    using context_switch_switched [of "cs_curr ?s1 0" ?s1 0 5] by (auto simp: cs_boot_def)
  have "cs_step 1 ?env ?s1 s" by (rule cs_step.switch [OF _ _ _ _ _ s]) (simp_all add: cs_boot_def TASK_DEAD_def TASK_NEW_def TASK_RUNNING_def)
  ultimately have run: "(cs_step 1 ?env)\<^sup>*\<^sup>* ?b s" by (meson converse_rtranclp_into_rtranclp rtranclp.rtrancl_refl)
  have f: "cs_curr s 0 = 5" "mm s 5 = Some 7" "active_mm s 5 = Some 7" "prev_mm s 0 = Some 0" "mm s t = Some x \<longleftrightarrow> t = 5 \<and> x = 7" for t x
    using w by (auto simp: switched_def Let_def cs_boot_def split: if_splits)
  have "mm_count s x = (if in_use s x then 1 else 0) + card {c. c < 1 \<and> mm s (cs_curr s c) = None \<and> active_mm s (cs_curr s c) = Some x} +
      card {c. c < 1 \<and> prev_mm s c = Some x}" for x
    using context_switch_safe [OF run] by blast
  moreover have "{c. c < 1 \<and> prev_mm s c = Some x} = (if x = 0 then {0} else {})" for x using f(4) by auto
  ultimately have "mm_count s 7 = 1" "mm_count s 0 = 2" using f by (auto simp: in_use_def)
  then show ?thesis using run f by blast
qed

end
