(* ===== verification/Tick_Remote.thy ===== *)
theory Tick_Remote
  imports Sched_Task
begin

text \<open>
  The remote tick of CPUs that have stopped their own, \<open>core.c\<close>: a delayed work per CPU that queues itself again, started and stopped with
  the CPU through an atomic state. Start, stop and the parts of the work interleave in any way that the workqueue allows.
\<close>

section \<open>State\<close>

definition TICK_SCHED_REMOTE_OFFLINE :: int where "TICK_SCHED_REMOTE_OFFLINE = 0"
definition TICK_SCHED_REMOTE_OFFLINING :: int where "TICK_SCHED_REMOTE_OFFLINING = 1"
definition TICK_SCHED_REMOTE_RUNNING :: int where "TICK_SCHED_REMOTE_RUNNING = 2"

lemmas tick_states = TICK_SCHED_REMOTE_OFFLINE_def TICK_SCHED_REMOTE_OFFLINING_def TICK_SCHED_REMOTE_RUNNING_def

text \<open>
  \<open>pending\<close>: the work is queued; \<open>body\<close>: its function runs and has not yet read the state; \<open>again\<close>: it has decided to queue itself.
\<close>

record tick_work =
  tw_state :: int
  pending :: bool
  body :: bool
  again :: bool
  tw_warned :: bool
  reinit_active :: bool

definition queue_delayed_work :: "tick_work \<Rightarrow> tick_work" where
  "queue_delayed_work w = w\<lparr>pending := True\<rparr>"

text \<open>\<open>INIT_DELAYED_WORK\<close> must not be applied to a work that is queued or will queue itself.\<close>

definition init_delayed_work :: "tick_work \<Rightarrow> tick_work" where
  "init_delayed_work w = w\<lparr>reinit_active := (reinit_active w \<or> pending w \<or> body w \<or> again w), pending := False\<rparr>"

section \<open>Operations\<close>

definition sched_tick_start :: "bool \<Rightarrow> tick_work \<Rightarrow> tick_work" where
  "sched_tick_start housekeeping w =
     (if housekeeping then w
      else let os = tw_state w;
               w1 = w\<lparr>tw_state := TICK_SCHED_REMOTE_RUNNING, tw_warned := (tw_warned w \<or> os = TICK_SCHED_REMOTE_RUNNING)\<rparr>
           in if os = TICK_SCHED_REMOTE_OFFLINE then queue_delayed_work (init_delayed_work w1) else w1)"

definition sched_tick_stop :: "bool \<Rightarrow> tick_work \<Rightarrow> tick_work" where
  "sched_tick_stop housekeeping w =
     (if housekeeping then w
      else let os = tw_state w
           in w\<lparr>tw_state := TICK_SCHED_REMOTE_OFFLINING, tw_warned := (tw_warned w \<or> os \<noteq> TICK_SCHED_REMOTE_RUNNING)\<rparr>)"

text \<open>
  The tick itself: whether the tick of the CPU is stopped, whether it is offline, its current task, whether that is the idle task, and the
  two clocks, at 64 bits. The calls are recorded; the flag is the warning about a late tick.
\<close>

datatype tick_call = Update_Rq_Clock | Task_Tick nat | Calc_Load_Nohz

record tick_rq =
  tick_stopped :: bool
  cpu_offline :: bool
  tick_curr :: nat
  curr_idle :: bool
  clock_task_now :: u64
  exec_start :: u64

definition sched_tick_remote_tick :: "tick_rq \<Rightarrow> tick_call list \<times> bool" where
  "sched_tick_remote_tick rq =
     (if \<not> tick_stopped rq then ([], False)
      else if cpu_offline rq then ([], False)
      else ([Update_Rq_Clock, Task_Tick (tick_curr rq), Calc_Load_Nohz],
            \<not> curr_idle rq \<and> clock_task_now rq - exec_start rq > 1000000000 * 3))"

text \<open>\<open>atomic_fetch_add_unless\<close>: the old value, and the new one.\<close>

definition fetch_add_unless :: "int \<Rightarrow> int \<Rightarrow> int \<Rightarrow> int \<times> int" where
  "fetch_add_unless v a u = (v, if v = u then v else v + a)"

definition sched_tick_remote_state :: "tick_work \<Rightarrow> tick_work" where
  "sched_tick_remote_state w =
     (let (os, new) = fetch_add_unless (tw_state w) (- 1) TICK_SCHED_REMOTE_RUNNING
      in w\<lparr>tw_state := new, tw_warned := (tw_warned w \<or> os = TICK_SCHED_REMOTE_OFFLINE), body := False,
           again := (os = TICK_SCHED_REMOTE_RUNNING)\<rparr>)"

definition sched_tick_remote_requeue :: "tick_work \<Rightarrow> tick_work" where
  "sched_tick_remote_requeue w = (if again w then (queue_delayed_work w)\<lparr>again := False\<rparr> else w)"

text \<open>The function as a whole, when nothing interferes.\<close>

definition sched_tick_remote :: "tick_rq \<Rightarrow> tick_work \<Rightarrow> tick_work \<times> tick_call list \<times> bool" where
  "sched_tick_remote rq w =
     (sched_tick_remote_requeue (sched_tick_remote_state (w\<lparr>pending := False, body := True\<rparr>)), sched_tick_remote_tick rq)"

section \<open>Interleavings\<close>

text \<open>The CPU goes up and down alternately; \<open>up\<close> tells whether it is up. The workqueue runs a work once per queueing, and never twice at the same time.\<close>

inductive tick_step :: "tick_work \<times> bool \<Rightarrow> tick_work \<times> bool \<Rightarrow> bool" where
  start: "tick_step (w, False) (sched_tick_start False w, True)"
| stop: "tick_step (w, True) (sched_tick_stop False w, False)"
| run: "pending w \<Longrightarrow> \<not> body w \<Longrightarrow> \<not> again w \<Longrightarrow> tick_step (w, up) (w\<lparr>pending := False, body := True\<rparr>, up)"
| decide: "body w \<Longrightarrow> tick_step (w, up) (sched_tick_remote_state w, up)"
| requeue: "again w \<Longrightarrow> tick_step (w, up) (sched_tick_remote_requeue w, up)"

inductive_cases tick_stepE: "tick_step s s'"

text \<open>How many of the three places the work is in.\<close>

definition activity :: "tick_work \<Rightarrow> nat" where
  "activity w = (if pending w then 1 else 0) + (if body w then 1 else 0) + (if again w then 1 else 0)"

definition tick_inv :: "tick_work \<times> bool \<Rightarrow> bool" where
  "tick_inv s \<longleftrightarrow> (case s of (w, up) \<Rightarrow>
     \<not> tw_warned w \<and> \<not> reinit_active w \<and>
     (tw_state w = TICK_SCHED_REMOTE_OFFLINE \<and> \<not> up \<and> activity w = 0 \<or>
      tw_state w = TICK_SCHED_REMOTE_OFFLINING \<and> \<not> up \<and> activity w = 1 \<or>
      tw_state w = TICK_SCHED_REMOTE_RUNNING \<and> up \<and> activity w = 1))"

lemmas tick_defs = sched_tick_start_def sched_tick_stop_def sched_tick_remote_state_def sched_tick_remote_requeue_def
  queue_delayed_work_def init_delayed_work_def fetch_add_unless_def activity_def

lemma tick_step_inv: "tick_step s s' \<Longrightarrow> tick_inv s \<Longrightarrow> tick_inv s'"
  by (erule tick_stepE) (auto simp: tick_inv_def tick_defs tick_states Let_def split: if_splits)

text \<open>What the work does next when start and stop leave it alone.\<close>

definition work_step :: "tick_work \<Rightarrow> tick_work" where
  "work_step w =
     (if again w then sched_tick_remote_requeue w
      else if body w then sched_tick_remote_state w
      else if pending w then w\<lparr>pending := False, body := True\<rparr> else w)"

definition tick_off :: tick_work where
  "tick_off = \<lparr>tw_state = TICK_SCHED_REMOTE_OFFLINE, pending = False, body = False, again = False, tw_warned = False, reinit_active = False\<rparr>"

text \<open>
  C8. The remote tick survives every interleaving of going up and down with its work: no warning is raised and no work is set up again while it
  is active. While the CPU is up there is exactly one work, which is queued again within three steps, so that the tick is never lost and
  never doubled. After the CPU went down the work ends in at most four steps, and the state is offline then.
\<close>

theorem tick_remote_never_lost:
  assumes "tick_step\<^sup>*\<^sup>* (tick_off, False) (w, up)"
  shows "\<not> tw_warned w \<and> \<not> reinit_active w \<and>
    (if up then tw_state w = TICK_SCHED_REMOTE_RUNNING \<and> activity w = 1 \<and> (\<exists>k \<le> 3. pending ((work_step ^^ k) w))
     else tw_state ((work_step ^^ 4) w) = TICK_SCHED_REMOTE_OFFLINE \<and> activity ((work_step ^^ 4) w) = 0)"
proof -
  have "tick_inv (w, up)"
    using assms
  proof (induction rule: rtranclp_induct)
    case base
    then show ?case by (simp add: tick_inv_def tick_off_def activity_def)
  next
    case (step s s')
    then show ?case using tick_step_inv by blast
  qed
  then have ok: "\<not> tw_warned w" "\<not> reinit_active w" and st: "tw_state w = TICK_SCHED_REMOTE_OFFLINE \<and> \<not> up \<and> activity w = 0 \<or>
      tw_state w = TICK_SCHED_REMOTE_OFFLINING \<and> \<not> up \<and> activity w = 1 \<or>
      tw_state w = TICK_SCHED_REMOTE_RUNNING \<and> up \<and> activity w = 1"
    by (auto simp: tick_inv_def)
  have steps: "(work_step ^^ 4) w = work_step (work_step (work_step (work_step w)))" by (simp add: numeral_eq_Suc)
  show ?thesis
  proof (cases up)
    case True
    then have run: "tw_state w = TICK_SCHED_REMOTE_RUNNING" "activity w = 1" using st by auto
    then consider "pending w" | "pending (work_step w)" | "pending (work_step (work_step w))"
      by (auto simp: work_step_def tick_defs tick_states split: if_splits)
    then have "\<exists>k \<le> 3. pending ((work_step ^^ k) w)"
      by cases (auto intro: exI [of _ 0] exI [of _ 1] exI [of _ 2] simp: numeral_eq_Suc)
    then show ?thesis using True run ok by simp
  next
    case False
    then show ?thesis using st ok unfolding steps by (auto simp: work_step_def tick_defs tick_states Let_def split: if_splits)
  qed
qed

text \<open>The CPU goes down while the work has decided to queue itself again, and comes back at once.\<close>

theorem tick_remote_never_lost_witness:
  "\<exists>w. tick_step\<^sup>*\<^sup>* (tick_off, False) (w, True) \<and> again w \<and> activity w = 1"
proof -
  let ?a = "sched_tick_start False tick_off"
  let ?b = "?a\<lparr>pending := False, body := True\<rparr>"
  let ?c = "sched_tick_remote_state ?b"
  let ?d = "sched_tick_stop False ?c"
  let ?e = "sched_tick_start False ?d"
  have "tick_step (tick_off, False) (?a, True)" "tick_step (?c, True) (?d, False)" "tick_step (?d, False) (?e, True)" by (rule tick_step.intros)+
  moreover have "tick_step (?a, True) (?b, True)" by (rule tick_step.run) (simp_all add: tick_defs tick_off_def tick_states)
  moreover have "tick_step (?b, True) (?c, True)" by (rule tick_step.decide) simp
  ultimately have run: "tick_step\<^sup>*\<^sup>* (tick_off, False) (?e, True)" by (meson converse_rtranclp_into_rtranclp rtranclp.rtrancl_refl)
  moreover have "again ?e" by (simp add: tick_defs tick_off_def tick_states)
  moreover have "activity ?e = 1" using tick_remote_never_lost [OF run] by simp
  ultimately show ?thesis by blast
qed

end
