(* ===== verification/Cpu_Hotplug.thy ===== *)
theory Cpu_Hotplug
  imports Tick_Remote Sched_Prio
begin

text \<open>
  CPUs that come and go, \<open>core.c\<close>: the callbacks that make a CPU active and inactive for the scheduler, with the run queues, the root
  domains, the callback that pushes tasks away, the number of cores with several threads and the CPUs that are down for a suspend. The
  work of \<open>topology.c\<close>, \<open>cpuset.c\<close> and the classes is recorded as calls; root domains are not rebuilt.
\<close>

section \<open>State\<close>

datatype hp_call =
    Rq_Online nat
  | Rq_Offline nat
  | Numa_Set nat
  | Numa_Clear nat
  | One_Domain
  | Force_Rebuild
  | Update_Active_Cpus
  | Update_Clock_Of nat
  | Dump_Tasks nat
  | Wake_Hotplug nat
  | Stop_Push nat nat
  | Load_Migrate nat
  | Update_Max_Interval
  | Nohz_Exit_Idle nat
  | Hrtick_Clear nat

datatype balance_cb = No_Callback | Push_Callback | Class_Callback

record hp_sys =
  online_mask :: "nat set"
  active_cpus :: "nat set"
  rq_online :: "nat \<Rightarrow> bool"
  rq_rd :: "nat \<Rightarrow> nat option"
  rd_span :: "nat \<Rightarrow> nat set"
  rd_online :: "nat \<Rightarrow> nat set"
  push_flag :: "nat \<Rightarrow> bool"
  rq_callback :: "nat \<Rightarrow> balance_cb"
  sched_smt_present :: int
  num_cpus_frozen :: int
  ticks :: "nat \<Rightarrow> tick_work"
  hp_calls :: "hp_call list"
  hp_warned :: bool

text \<open>
  The core of a CPU, the housekeeping CPUs, whether the domains have been built; during a callback, whether it is part of suspend or resume.
\<close>

record hp_env =
  core_of :: "nat \<Rightarrow> nat"
  housekeeping_cpu :: "nat \<Rightarrow> bool"
  smp_initialized :: bool

abbreviation hp_note :: "hp_call list \<Rightarrow> hp_sys \<Rightarrow> hp_sys" where
  "hp_note cs s \<equiv> s\<lparr>hp_calls := hp_calls s @ cs\<rparr>"

definition cpu_smt_mask :: "hp_env \<Rightarrow> nat \<Rightarrow> hp_sys \<Rightarrow> nat set" where
  "cpu_smt_mask env c s = {d \<in> online_mask s. core_of env d = core_of env c}"

section \<open>Pushing tasks away\<close>

text \<open>
  The current task and what is known of it, the tasks of the run queue and whether the control thread waits.
\<close>

record push_rq =
  push_task :: nat
  push_task_stays :: bool
  nr_running :: nat
  has_pinned :: bool
  hotplug_waiting :: bool

text \<open>\<open>push_task_stays\<close>: the idle task, a kernel thread of this CPU, or a task with migration disabled.\<close>

definition balance_push :: "nat \<Rightarrow> push_rq \<Rightarrow> hp_sys \<Rightarrow> hp_sys" where
  "balance_push c q s =
     (let s1 = s\<lparr>rq_callback := (rq_callback s)(c := Push_Callback)\<rparr>
      in if push_task_stays q
         then if nr_running q = 0 \<and> \<not> has_pinned q \<and> hotplug_waiting q then hp_note [Wake_Hotplug c] s1 else s1
         else hp_note [Stop_Push c (push_task q)] s1)"

definition balance_push_set :: "nat \<Rightarrow> bool \<Rightarrow> hp_sys \<Rightarrow> hp_sys" where
  "balance_push_set c on s =
     (let s1 = s\<lparr>push_flag := (push_flag s)(c := on)\<rparr>
      in if on then s1\<lparr>hp_warned := (hp_warned s1 \<or> rq_callback s1 c \<noteq> No_Callback), rq_callback := (rq_callback s1)(c := Push_Callback)\<rparr>
         else if rq_callback s1 c = Push_Callback then s1\<lparr>rq_callback := (rq_callback s1)(c := No_Callback)\<rparr> else s1)"

section \<open>Run queues and domains\<close>

definition set_rq_online :: "nat \<Rightarrow> nat \<Rightarrow> hp_sys \<Rightarrow> hp_sys" where
  "set_rq_online c r s =
     (if \<not> rq_online s c
      then hp_note [Rq_Online c] (s\<lparr>rd_online := (rd_online s)(r := insert c (rd_online s r)), rq_online := (rq_online s)(c := True)\<rparr>)
      else s)"

definition set_rq_offline :: "nat \<Rightarrow> nat \<Rightarrow> hp_sys \<Rightarrow> hp_sys" where
  "set_rq_offline c r s =
     (if rq_online s c
      then hp_note [Rq_Offline c] (s\<lparr>rd_online := (rd_online s)(r := rd_online s r - {c}), rq_online := (rq_online s)(c := False)\<rparr>)
      else s)"

definition cpuset_cpu_active :: "bool \<Rightarrow> hp_sys \<Rightarrow> hp_sys" where
  "cpuset_cpu_active frozen s =
     (if frozen
      then let s1 = (hp_note [One_Domain] s)\<lparr>num_cpus_frozen := num_cpus_frozen s - 1\<rparr>
           in if num_cpus_frozen s1 \<noteq> 0 then s1 else hp_note [Force_Rebuild, Update_Active_Cpus] s1
      else hp_note [Update_Active_Cpus] s)"

definition cpuset_cpu_inactive :: "bool \<Rightarrow> bool \<Rightarrow> hp_sys \<Rightarrow> sched_error option \<times> hp_sys" where
  "cpuset_cpu_inactive frozen dl_cpu_busy s =
     (if \<not> frozen
      then if dl_cpu_busy then (Some EBUSY, s) else (None, hp_note [Update_Active_Cpus] s)
      else (None, (hp_note [One_Domain] s)\<lparr>num_cpus_frozen := num_cpus_frozen s + 1\<rparr>))"

text \<open>\<open>None\<close> is \<open>BUG()\<close>: the CPU is outside the span of its root domain.\<close>

definition on_domain :: "nat \<Rightarrow> (nat \<Rightarrow> hp_sys \<Rightarrow> hp_sys) \<Rightarrow> hp_sys \<Rightarrow> hp_sys option" where
  "on_domain c f s = (case rq_rd s c of None \<Rightarrow> Some s | Some r \<Rightarrow> if c \<in> rd_span s r then Some (f r s) else None)"

section \<open>Callbacks\<close>

definition sched_cpu_activate :: "hp_env \<Rightarrow> bool \<Rightarrow> nat \<Rightarrow> hp_sys \<Rightarrow> hp_sys option" where
  "sched_cpu_activate env frozen c s =
     (let s1 = balance_push_set c False s;
          s2 = (if card (cpu_smt_mask env c s1) = 2 then s1\<lparr>sched_smt_present := sched_smt_present s1 + 1\<rparr> else s1);
          s3 = s2\<lparr>active_cpus := insert c (active_cpus s2)\<rparr>;
          s4 = (if smp_initialized env then cpuset_cpu_active frozen (hp_note [Numa_Set c] s3) else s3)
      in on_domain c (set_rq_online c) s4)"

definition sched_cpu_deactivate :: "hp_env \<Rightarrow> bool \<Rightarrow> bool \<Rightarrow> nat \<Rightarrow> hp_sys \<Rightarrow> (sched_error option \<times> hp_sys) option" where
  "sched_cpu_deactivate env frozen dl_cpu_busy c s = do {
     let s1 = balance_push_set c True (s\<lparr>active_cpus := active_cpus s - {c}\<rparr>);
     s2 \<leftarrow> on_domain c (\<lambda>r x. set_rq_offline c r (hp_note [Update_Clock_Of c] x)) s1;
     let s3 = (if card (cpu_smt_mask env c s2) = 2 then s2\<lparr>sched_smt_present := sched_smt_present s2 - 1\<rparr> else s2);
     Some (if \<not> smp_initialized env then (None, s3)
           else case cpuset_cpu_inactive frozen dl_cpu_busy s3 of
                  (Some e, s4) \<Rightarrow> let s5 = balance_push_set c False s4 in (Some e, s5\<lparr>active_cpus := insert c (active_cpus s5)\<rparr>)
                | (None, s4) \<Rightarrow> (None, hp_note [Numa_Clear c] s4)) }"

definition sched_cpu_starting :: "hp_env \<Rightarrow> nat \<Rightarrow> hp_sys \<Rightarrow> hp_sys" where
  "sched_cpu_starting env c s =
     hp_note [Update_Max_Interval] (s\<lparr>ticks := (ticks s)(c := sched_tick_start (housekeeping_cpu env c) (ticks s c))\<rparr>)"

text \<open>\<open>vacated\<close>: the stopper is the last task and there are no pinned ones.\<close>

definition sched_cpu_dying :: "hp_env \<Rightarrow> bool \<Rightarrow> nat \<Rightarrow> hp_sys \<Rightarrow> hp_sys" where
  "sched_cpu_dying env vacated c s =
     (let s1 = s\<lparr>ticks := (ticks s)(c := sched_tick_stop (housekeeping_cpu env c) (ticks s c))\<rparr>;
          s2 = (if \<not> vacated then (hp_note [Dump_Tasks c] s1)\<lparr>hp_warned := True\<rparr> else s1);
          s3 = balance_push_set c False s2
      in hp_note [Load_Migrate c, Update_Max_Interval, Nohz_Exit_Idle c, Hrtick_Clear c] s3)"

section \<open>Histories\<close>

text \<open>
  CPUs below \<open>N\<close> go up and down one at a time, as the hotplug lock demands; \<open>F\<close> are the CPUs that are down for a suspend. Between
  \<open>sched_cpu_deactivate\<close> and \<open>sched_cpu_dying\<close> the callback runs any number of times.
\<close>

inductive hp_step :: "nat \<Rightarrow> hp_env \<Rightarrow> hp_sys \<times> nat set \<Rightarrow> hp_sys \<times> nat set \<Rightarrow> bool" for N env where
  up: "c < N \<Longrightarrow> c \<notin> online_mask s \<Longrightarrow> s1 = sched_cpu_starting env c s \<Longrightarrow>
    sched_cpu_activate env (c \<in> F) c (s1\<lparr>online_mask := insert c (online_mask s1)\<rparr>) = Some s2 \<Longrightarrow> hp_step N env (s, F) (s2, F - {c})"
| down: "c \<in> online_mask s \<Longrightarrow> sched_cpu_deactivate env frozen busy c s = Some (None, s1) \<Longrightarrow>
    s2 = sched_cpu_dying env True c (fold (balance_push c) qs s1) \<Longrightarrow>
    hp_step N env (s, F) (s2\<lparr>online_mask := online_mask s2 - {c}\<rparr>, if frozen then insert c F else F)"
| tick: "tick_step (ticks s c, c \<in> online_mask s) (w, c \<in> online_mask s) \<Longrightarrow> hp_step N env (s, F) (s\<lparr>ticks := (ticks s)(c := w)\<rparr>, F)"

inductive_cases hp_stepE: "hp_step N env x y"

text \<open>The cores of which several CPUs are online.\<close>

definition smt_cores :: "hp_env \<Rightarrow> nat set \<Rightarrow> nat set" where
  "smt_cores env M = {k. card {c \<in> M. core_of env c = k} \<ge> 2}"

lemma smt_cores_insert:
  assumes "finite M" and "c \<notin> M"
  shows "finite (smt_cores env M)"
    "card (smt_cores env (insert c M)) = card (smt_cores env M) + (if card {d \<in> insert c M. core_of env d = core_of env c} = 2 then 1 else 0)"
proof -
  let ?k = "core_of env c" and ?on = "\<lambda>S k. {d \<in> S. core_of env d = k}"
  have "k \<in> core_of env ` M" if "k \<in> smt_cores env M" for k
  proof -
    have "card (?on M k) \<noteq> 0" using that by (auto simp: smt_cores_def)
    then have "?on M k \<noteq> {}" by (metis card.empty)
    then show ?thesis by auto
  qed
  then show fin: "finite (smt_cores env M)" using assms(1) by (meson finite_imageI finite_subset subsetI)
  have new: "?on (insert c M) ?k = insert c (?on M ?k)" by auto
  have other: "?on (insert c M) k = ?on M k" if "k \<noteq> ?k" for k using that by auto
  have n: "card (?on (insert c M) ?k) = Suc (card (?on M ?k))" using assms unfolding new by simp
  have eq: "smt_cores env (insert c M) = (if card (?on M ?k) \<ge> 1 then insert ?k (smt_cores env M) else smt_cores env M)"
  proof (rule set_eqI)
    fix k
    show "k \<in> smt_cores env (insert c M) \<longleftrightarrow> k \<in> (if card (?on M ?k) \<ge> 1 then insert ?k (smt_cores env M) else smt_cores env M)"
      using n other [of k] by (cases "k = ?k") (auto simp: smt_cores_def)
  qed
  show "card (smt_cores env (insert c M)) = card (smt_cores env M) + (if card (?on (insert c M) ?k) = 2 then 1 else 0)"
    unfolding eq n using fin by (auto simp: smt_cores_def card_insert_if)
qed

definition hp_inv :: "nat \<Rightarrow> hp_env \<Rightarrow> hp_sys \<times> nat set \<Rightarrow> bool" where
  "hp_inv N env x \<longleftrightarrow> (case x of (s, F) \<Rightarrow>
     online_mask s \<subseteq> {..<N} \<and> active_cpus s = online_mask s \<and> (\<forall>c. rq_online s c \<longleftrightarrow> c \<in> online_mask s) \<and>
     (\<forall>c < N. \<exists>r. rq_rd s c = Some r \<and> c \<in> rd_span s r) \<and> (\<forall>r. rd_online s r = {c \<in> online_mask s. rq_rd s c = Some r}) \<and>
     (\<forall>c. \<not> push_flag s c \<and> rq_callback s c = No_Callback) \<and> \<not> hp_warned s \<and>
     sched_smt_present s = int (card (smt_cores env (online_mask s))) \<and>
     finite F \<and> F \<inter> online_mask s = {} \<and> num_cpus_frozen s = int (card F) \<and>
     (\<forall>c. \<not> housekeeping_cpu env c \<longrightarrow> tick_inv (ticks s c, c \<in> online_mask s)))"

text \<open>The effect of the callbacks on everything but the calls. The names of the domains, their spans and the online CPUs stay.\<close>

definition went_up :: "hp_env \<Rightarrow> bool \<Rightarrow> nat \<Rightarrow> nat \<Rightarrow> hp_sys \<Rightarrow> hp_sys \<Rightarrow> bool" where
  "went_up env frozen c r s s' \<longleftrightarrow>
     online_mask s' = online_mask s \<and> rq_rd s' = rq_rd s \<and> rd_span s' = rd_span s \<and> ticks s' = ticks s \<and> hp_warned s' = hp_warned s \<and>
     active_cpus s' = insert c (active_cpus s) \<and> rq_online s' = (rq_online s)(c := True) \<and>
     rd_online s' = (rd_online s)(r := insert c (rd_online s r)) \<and> push_flag s' = (push_flag s)(c := False) \<and> rq_callback s' = rq_callback s \<and>
     sched_smt_present s' = sched_smt_present s + (if card (cpu_smt_mask env c s) = 2 then 1 else 0) \<and>
     num_cpus_frozen s' = num_cpus_frozen s - (if frozen then 1 else 0)"

definition went_down :: "hp_env \<Rightarrow> bool \<Rightarrow> nat \<Rightarrow> nat \<Rightarrow> hp_sys \<Rightarrow> hp_sys \<Rightarrow> bool" where
  "went_down env frozen c r s s' \<longleftrightarrow>
     online_mask s' = online_mask s \<and> rq_rd s' = rq_rd s \<and> rd_span s' = rd_span s \<and> ticks s' = ticks s \<and> hp_warned s' = hp_warned s \<and>
     rq_online s' = (rq_online s)(c := False) \<and> rd_online s' = (rd_online s)(r := rd_online s r - {c}) \<and>
     sched_smt_present s' = sched_smt_present s - (if card (cpu_smt_mask env c s) = 2 then 1 else 0) \<and>
     num_cpus_frozen s' = num_cpus_frozen s + (if frozen then 1 else 0)"

lemma hp_invD:
  assumes "hp_inv N env (s, F)"
  shows "online_mask s \<subseteq> {..<N}" "active_cpus s = online_mask s" "rq_online s c \<longleftrightarrow> c \<in> online_mask s"
    "c < N \<Longrightarrow> \<exists>r. rq_rd s c = Some r \<and> c \<in> rd_span s r" "rd_online s r = {c \<in> online_mask s. rq_rd s c = Some r}"
    "\<not> push_flag s c" "rq_callback s c = No_Callback" "\<not> hp_warned s" "sched_smt_present s = int (card (smt_cores env (online_mask s)))"
    "finite F" "F \<inter> online_mask s = {}" "num_cpus_frozen s = int (card F)"
    "\<not> housekeeping_cpu env c \<Longrightarrow> tick_inv (ticks s c, c \<in> online_mask s)"
  using assms unfolding hp_inv_def by simp_all

lemma activate_effect:
  assumes "rq_rd s c = Some r" and "c \<in> rd_span s r" and "smp_initialized env" and "rq_callback s c = No_Callback" and "\<not> rq_online s c"
  shows "\<exists>s'. sched_cpu_activate env frozen c s = Some s' \<and> went_up env frozen c r s s'"
  using assms
  by (simp add: sched_cpu_activate_def balance_push_set_def cpu_smt_mask_def cpuset_cpu_active_def on_domain_def set_rq_online_def went_up_def Let_def)

lemma deactivate_effect:
  assumes "rq_rd s c = Some r" and "c \<in> rd_span s r" and "smp_initialized env" and "rq_callback s c = No_Callback" and "rq_online s c"
    and "failed \<longleftrightarrow> busy \<and> \<not> frozen"
  shows "\<exists>s'. sched_cpu_deactivate env frozen busy c s = Some (if failed then Some EBUSY else None, s') \<and> went_down env frozen c r s s' \<and>
    push_flag s' = (push_flag s)(c := \<not> failed) \<and> rq_callback s' = (rq_callback s)(c := if failed then No_Callback else Push_Callback) \<and>
    active_cpus s' = (if failed then insert c (active_cpus s) else active_cpus s - {c})"
  using assms
  by (cases frozen; cases busy)
    (simp_all add: sched_cpu_deactivate_def balance_push_set_def cpu_smt_mask_def cpuset_cpu_inactive_def on_domain_def set_rq_offline_def went_down_def Let_def)

text \<open>States that differ in the calls only.\<close>

definition hp_same :: "hp_sys \<Rightarrow> hp_sys \<Rightarrow> bool" where
  "hp_same s s' \<longleftrightarrow>
     online_mask s' = online_mask s \<and> active_cpus s' = active_cpus s \<and> rq_online s' = rq_online s \<and> rq_rd s' = rq_rd s \<and>
     rd_span s' = rd_span s \<and> rd_online s' = rd_online s \<and> push_flag s' = push_flag s \<and> rq_callback s' = rq_callback s \<and>
     sched_smt_present s' = sched_smt_present s \<and> num_cpus_frozen s' = num_cpus_frozen s \<and> ticks s' = ticks s \<and> hp_warned s' = hp_warned s"

lemma push_effect: "rq_callback s c = Push_Callback \<Longrightarrow> hp_same s (fold (balance_push c) qs s)"
proof (induction qs arbitrary: s)
  case (Cons q qs)
  have "hp_same s (balance_push c q s)" using Cons.prems by (simp add: hp_same_def balance_push_def Let_def fun_upd_idem)
  then show ?case using Cons.IH [of "balance_push c q s"] Cons.prems by (simp add: hp_same_def)
qed (simp add: hp_same_def)

lemma dying_effect:
  assumes "rq_callback s c = Push_Callback" and "s' = sched_cpu_dying env True c s"
  shows "online_mask s' = online_mask s" "active_cpus s' = active_cpus s" "rq_online s' = rq_online s" "rq_rd s' = rq_rd s"
    "rd_span s' = rd_span s" "rd_online s' = rd_online s" "push_flag s' = (push_flag s)(c := False)"
    "rq_callback s' = (rq_callback s)(c := No_Callback)" "sched_smt_present s' = sched_smt_present s" "num_cpus_frozen s' = num_cpus_frozen s"
    "ticks s' = (ticks s)(c := sched_tick_stop (housekeeping_cpu env c) (ticks s c))" "hp_warned s' = hp_warned s"
  using assms by (simp_all add: sched_cpu_dying_def balance_push_set_def Let_def)

lemma up_inv:
  assumes inv: "hp_inv N env (s, F)" and env: "smp_initialized env" and c: "c < N" "c \<notin> online_mask s"
    and s1: "s1 = sched_cpu_starting env c s"
    and r: "sched_cpu_activate env (c \<in> F) c (s1\<lparr>online_mask := insert c (online_mask s1)\<rparr>) = Some s2"
  shows "hp_inv N env (s2, F - {c})"
proof -
  note i = hp_invD [OF inv]
  let ?s = "s1\<lparr>online_mask := insert c (online_mask s1)\<rparr>"
  have f: "online_mask s1 = online_mask s" "active_cpus s1 = active_cpus s" "rq_online s1 = rq_online s" "rq_rd s1 = rq_rd s" "rd_span s1 = rd_span s"
    "rd_online s1 = rd_online s" "push_flag s1 = push_flag s" "rq_callback s1 = rq_callback s" "sched_smt_present s1 = sched_smt_present s"
    "num_cpus_frozen s1 = num_cpus_frozen s" "hp_warned s1 = hp_warned s" "ticks s1 = (ticks s)(c := sched_tick_start (housekeeping_cpu env c) (ticks s c))"
    by (simp_all add: s1 sched_cpu_starting_def)
  obtain rd where rd: "rq_rd s c = Some rd" "c \<in> rd_span s rd" using i(4) c(1) by blast
  have w: "went_up env (c \<in> F) c rd ?s s2"
    using activate_effect [of ?s c rd env "c \<in> F"] rd env i(3) [of c] i(7) [of c] c(2) r by (auto simp: f)
  note w = w [unfolded went_up_def, simplified]
  have fin: "finite (online_mask s)" using i(1) finite_subset by blast
  have "sched_smt_present s2 = int (card (smt_cores env (online_mask s2)))"
    using smt_cores_insert [OF fin c(2), of env] w i(9) by (simp add: f cpu_smt_mask_def)
  moreover have "num_cpus_frozen s2 = int (card (F - {c}))" using w i(10,12) card_gt_0_iff [of F] by (auto simp: f card_Diff_singleton_if of_nat_diff)
  moreover have "tick_inv (ticks s2 d, d \<in> online_mask s2)" if d: "\<not> housekeeping_cpu env d" for d
  proof (cases "d = c")
    case True
    have "tick_inv (ticks s c, False)" using i(13) [of c] c(2) d True by simp
    then have "tick_inv (sched_tick_start False (ticks s c), True)" using tick_step_inv tick_step.start by blast
    then show ?thesis using True d w by (simp add: f)
  next
    case False
    then show ?thesis using i(13) [OF d] w by (simp add: f)
  qed
  moreover have "rd_online s2 r = {d \<in> online_mask s2. rq_rd s2 d = Some r}" for r using w i(5) rd by (auto simp: f)
  moreover have "active_cpus s2 = online_mask s2" "rq_online s2 d \<longleftrightarrow> d \<in> online_mask s2" "\<not> push_flag s2 d" "rq_callback s2 d = No_Callback" for d
    using w i(2,3,6,7) by (auto simp: f)
  moreover have "online_mask s2 \<subseteq> {..<N}" "(F - {c}) \<inter> online_mask s2 = {}" "\<not> hp_warned s2" using w i(1,8,11) c(1) by (auto simp: f)
  moreover have "\<exists>r. rq_rd s2 d = Some r \<and> d \<in> rd_span s2 r" if "d < N" for d using w i(4) [OF that] by (simp add: f)
  ultimately show ?thesis using i(10) unfolding hp_inv_def by simp
qed

lemma down_inv:
  assumes inv: "hp_inv N env (s, F)" and env: "smp_initialized env" and c: "c \<in> online_mask s"
    and r: "sched_cpu_deactivate env frozen busy c s = Some (None, s1)" and s2: "s2 = sched_cpu_dying env True c (fold (balance_push c) qs s1)"
  shows "hp_inv N env (s2\<lparr>online_mask := online_mask s2 - {c}\<rparr>, if frozen then insert c F else F)"
proof -
  note i = hp_invD [OF inv]
  obtain rd where rd: "rq_rd s c = Some rd" "c \<in> rd_span s rd" using i(1) i(4) [of c] c by blast
  have nf: "\<not> (busy \<and> \<not> frozen)"
    using deactivate_effect [of s c rd env "busy \<and> \<not> frozen" busy frozen] rd env i(3) [of c] i(7) [of c] c r by (auto split: if_splits)
  then have w: "went_down env frozen c rd s s1" "push_flag s1 = (push_flag s)(c := True)" "rq_callback s1 = (rq_callback s)(c := Push_Callback)"
    "active_cpus s1 = active_cpus s - {c}"
    using deactivate_effect [of s c rd env False busy frozen] rd env i(3) [of c] i(7) [of c] c r by auto
  have p: "hp_same s1 (fold (balance_push c) qs s1)" using push_effect w(3) by simp
  have cb: "rq_callback (fold (balance_push c) qs s1) c = Push_Callback" using p w(3) by (simp add: hp_same_def)
  note f = dying_effect [OF cb s2] p [unfolded hp_same_def] w(2-4) w(1) [unfolded went_down_def]
  have fin: "finite (online_mask s - {c})" using i(1) finite_subset by blast
  have ins: "insert c (online_mask s - {c}) = online_mask s" using c by auto
  have "sched_smt_present s2 = int (card (smt_cores env (online_mask s2 - {c})))"
    using smt_cores_insert(2) [OF fin, of c env, unfolded ins] f i(9) by (simp add: cpu_smt_mask_def)
  moreover have "num_cpus_frozen s2 = int (card (if frozen then insert c F else F))" using f i(10-12) c by (auto simp: card_insert_if)
  moreover have "tick_inv (ticks s2 d, d \<in> online_mask s2 - {c})" if d: "\<not> housekeeping_cpu env d" for d
  proof (cases "d = c")
    case True
    have "tick_inv (ticks s c, True)" using i(13) [of c] c d True by simp
    then have "tick_inv (sched_tick_stop False (ticks s c), False)" using tick_step_inv tick_step.stop by blast
    then show ?thesis using True d f by simp
  next
    case False
    then show ?thesis using i(13) [OF d] f by simp
  qed
  moreover have "rd_online s2 r = {d \<in> online_mask s2 - {c}. rq_rd s2 d = Some r}" for r using f i(5) rd by auto
  moreover have "active_cpus s2 = online_mask s2 - {c}" "rq_online s2 d \<longleftrightarrow> d \<in> online_mask s2 - {c}" "\<not> push_flag s2 d" "rq_callback s2 d = No_Callback" for d
    using f i(2,3,6,7) by auto
  moreover have "online_mask s2 - {c} \<subseteq> {..<N}" "(if frozen then insert c F else F) \<inter> (online_mask s2 - {c}) = {}" "\<not> hp_warned s2"
    using f i(1,8,11) by auto
  moreover have "\<exists>r. rq_rd s2 d = Some r \<and> d \<in> rd_span s2 r" if "d < N" for d using f i(4) [OF that] by simp
  ultimately show ?thesis using i(10) unfolding hp_inv_def by simp
qed

definition hp_start :: "nat \<Rightarrow> hp_env \<Rightarrow> hp_sys \<Rightarrow> bool" where
  "hp_start N env s \<longleftrightarrow> hp_inv N env (s, {}) \<and> smp_initialized env"

text \<open>
  C7. Going up and down is balanced. As long as no callback refuses, in every history of CPUs that are brought up and taken down, also for a
  suspend, and of remote ticks in between: exactly the CPUs that are online are active, have their run queue online and are in the online mask of their root
  domain; the callback that pushes tasks away is installed on none of them; \<open>sched_smt_present\<close> is the number of cores with two or
  more CPUs online, \<open>num_cpus_frozen\<close> the number of CPUs that are down for the suspend, and nothing warns. The next callback
  for a CPU is defined.
\<close>

theorem hotplug_balanced:
  assumes "(hp_step N env)\<^sup>*\<^sup>* (s0, {}) (s, F)" and "hp_start N env s0"
  shows "active_cpus s = online_mask s \<and> (\<forall>c. rq_online s c \<longleftrightarrow> c \<in> online_mask s) \<and>
    (\<forall>r. rd_online s r = {c \<in> online_mask s. rq_rd s c = Some r}) \<and> (\<forall>c. \<not> push_flag s c \<and> rq_callback s c = No_Callback) \<and>
    sched_smt_present s = int (card {k. card {c \<in> online_mask s. core_of env c = k} \<ge> 2}) \<and> num_cpus_frozen s = int (card F) \<and>
    \<not> hp_warned s \<and>
    (\<forall>c < N. if c \<in> online_mask s then sched_cpu_deactivate env frozen busy c s \<noteq> None else sched_cpu_activate env frozen c s \<noteq> None)"
proof -
  have env: "smp_initialized env" using assms(2) by (simp add: hp_start_def)
  have inv: "hp_inv N env (s, F)"
    using assms(1)
  proof (induction rule: rtranclp_induct)
    case base
    then show ?case using assms(2) by (simp add: hp_start_def)
  next
    case (step x y)
    from step.hyps(2) step.IH show ?case
    proof (cases rule: hp_step.cases)
      case (tick s1 c w F1)
      then have "tick_inv (w, c \<in> online_mask s1)" if "\<not> housekeeping_cpu env c" using that step.IH tick_step_inv hp_invD(13) by blast
      then show ?thesis using step.IH unfolding tick hp_inv_def by simp
    qed (use up_inv [OF _ env] down_inv [OF _ env] in blast)+
  qed
  note i = hp_invD [OF inv]
  have "if c \<in> online_mask s then sched_cpu_deactivate env frozen busy c s \<noteq> None else sched_cpu_activate env frozen c s \<noteq> None" if c: "c < N" for c
  proof -
    obtain r where "rq_rd s c = Some r" "c \<in> rd_span s r" using i(4) [OF c] by blast
    then show ?thesis
      using deactivate_effect [of s c r env "busy \<and> \<not> frozen" busy frozen] activate_effect [of s c r env frozen] env i(3) [of c] i(7) [of c] by auto
  qed
  then show ?thesis using i by (simp add: smt_cores_def)
qed

text \<open>Two CPUs of one core; the second one comes up.\<close>

definition sample_hp_env :: hp_env where
  "sample_hp_env = \<lparr>core_of = (\<lambda>_. 0), housekeeping_cpu = (\<lambda>c. c = 0), smp_initialized = True\<rparr>"

definition sample_hp :: hp_sys where
  "sample_hp = \<lparr>online_mask = {0}, active_cpus = {0}, rq_online = (\<lambda>c. c = 0), rq_rd = (\<lambda>_. Some 0), rd_span = (\<lambda>_. {0, 1}),
     rd_online = (\<lambda>r. if r = 0 then {0} else {}), push_flag = (\<lambda>_. False), rq_callback = (\<lambda>_. No_Callback), sched_smt_present = 0,
     num_cpus_frozen = 0, ticks = (\<lambda>_. tick_off), hp_calls = [], hp_warned = False\<rparr>"

lemma sample_hp_start: "hp_start 2 sample_hp_env sample_hp"
proof -
  have "{c \<in> {0::nat}. (0::nat) = k} = (if k = 0 then {0} else {})" for k by auto
  then have "smt_cores sample_hp_env {0} = {}" by (auto simp: smt_cores_def sample_hp_env_def)
  moreover have "c < 2 \<Longrightarrow> c = 0 \<or> c = 1" for c :: nat by auto
  ultimately show ?thesis
    by (auto simp: hp_start_def hp_inv_def sample_hp_def sample_hp_env_def tick_inv_def tick_off_def activity_def less_2_cases_iff)
qed

theorem hotplug_balanced_witness:
  "\<exists>s. (hp_step 2 sample_hp_env)\<^sup>*\<^sup>* (sample_hp, {}) (s, {}) \<and> online_mask s = {0, 1} \<and> active_cpus s = {0, 1} \<and> sched_smt_present s = 1"
proof -
  let ?env = sample_hp_env
  let ?s1 = "sched_cpu_starting ?env 1 sample_hp"
  let ?s = "?s1\<lparr>online_mask := insert 1 (online_mask ?s1)\<rparr>"
  obtain s where s: "sched_cpu_activate ?env False 1 ?s = Some s" "went_up ?env False 1 0 ?s s"
    using activate_effect [of ?s 1 0 ?env False] by (auto simp: sched_cpu_starting_def sample_hp_def sample_hp_env_def)
  have "hp_step 2 ?env (sample_hp, {}) (s, {} - {1})"
    by (rule hp_step.up [OF _ _ refl]) (use s(1) in \<open>simp_all add: sample_hp_def\<close>)
  then have run: "(hp_step 2 ?env)\<^sup>*\<^sup>* (sample_hp, {}) (s, {})" by simp
  have o: "online_mask s = {0, 1}" using s(2) by (auto simp: went_up_def sched_cpu_starting_def sample_hp_def)
  have "{c \<in> {0, 1::nat}. (0::nat) = k} = (if k = 0 then {0, 1} else {})" for k by auto
  then have "{k. card {c \<in> {0, 1::nat}. (0::nat) = k} \<ge> 2} = {0}" by auto
  then have "sched_smt_present s = 1 \<and> active_cpus s = {0, 1}"
    using hotplug_balanced [OF run sample_hp_start, of False False] by (simp add: o sample_hp_env_def)
  then show ?thesis using run o by blast
qed

text \<open>
  C39. A refused deactivation is not undone. When \<open>sched_cpu_deactivate\<close> finds deadline tasks that need the CPU, it returns \<open>EBUSY\<close> with
  the CPU active again, but the run queue stays offline, outside the online mask of its root domain, and
  \<open>sched_smt_present\<close> has lost a core whose two CPUs are still running.
\<close>

theorem refused_deactivation_unbalanced:
  assumes "hp_inv N env (s, F)" and "smp_initialized env" and "c \<in> online_mask s" and "rq_rd s c = Some r" and "card (cpu_smt_mask env c s) = 2"
  shows "\<exists>s'. sched_cpu_deactivate env False True c s = Some (Some EBUSY, s') \<and> c \<in> active_cpus s' \<and> c \<in> online_mask s' \<and>
    \<not> rq_online s' c \<and> c \<notin> rd_online s' r \<and> sched_smt_present s' = int (card (smt_cores env (online_mask s'))) - 1"
proof -
  note i = hp_invD [OF assms(1)]
  have "c \<in> rd_span s r" using i(1) i(4) [of c] assms(3,4) by auto
  then show ?thesis
    using deactivate_effect [of s c r env True True False] assms i(3) [of c] i(7) [of c] i(9) by (auto simp: went_down_def)
qed

theorem refused_deactivation_unbalanced_witness:
  "\<exists>s s'. sched_cpu_deactivate sample_hp_env False True 1 s = Some (Some EBUSY, s') \<and> 1 \<in> active_cpus s' \<and> \<not> rq_online s' 1"
proof -
  let ?env = sample_hp_env
  let ?s1 = "sched_cpu_starting ?env 1 sample_hp"
  let ?s = "?s1\<lparr>online_mask := insert 1 (online_mask ?s1)\<rparr>"
  have inv0: "hp_inv 2 ?env (sample_hp, {})" "smp_initialized ?env" using sample_hp_start by (simp_all add: hp_start_def)
  obtain s where s: "sched_cpu_activate ?env False 1 ?s = Some s" "went_up ?env False 1 0 ?s s"
    using activate_effect [of ?s 1 0 ?env False] by (auto simp: sched_cpu_starting_def sample_hp_def sample_hp_env_def)
  have inv: "hp_inv 2 ?env (s, {} - {1})"
    by (rule up_inv [OF inv0 _ _ refl]) (use s(1) in \<open>simp_all add: sample_hp_def\<close>)
  have f: "online_mask s = {0, 1}" "rq_rd s 1 = Some 0" using s(2) by (auto simp: went_up_def sched_cpu_starting_def sample_hp_def)
  moreover have "cpu_smt_mask ?env 1 s = {0, 1}" by (auto simp: cpu_smt_mask_def f sample_hp_env_def)
  ultimately show ?thesis using refused_deactivation_unbalanced [OF inv inv0(2), of 1 0] by auto
qed

end
