(* ===== verification/Cfs_Test.thy ===== *)
theory Cfs_Test
  imports Sched_Prio_Main
begin

text \<open>
  The two programs that measure the scheduler of assignment 4, \<open>CFS.c\<close> and \<open>CFS_nice.c\<close>: 21 children in three groups fill a small
  array over and over, and the parent prints when they end. In \<open>CFS_nice.c\<close> each group asks for another nice value first. The
  programs run on the changed kernel, so a child is what \<open>sched_fork\<close> makes of its parent.
\<close>

section \<open>The programs\<close>

definition MAXSIZE1 :: nat where "MAXSIZE1 = 20000"
definition MAXSIZE2 :: nat where "MAXSIZE2 = 50000"
definition MAXSIZE3 :: nat where "MAXSIZE3 = 100000"

text \<open>For other arguments \<open>size\<close> is not initialised.\<close>

definition vector_size :: "int \<Rightarrow> nat option" where
  "vector_size n = (if n = 0 then Some MAXSIZE1 else if n = 1 then Some MAXSIZE2 else if n = 2 then Some MAXSIZE3 else None)"

definition vector_store :: "nat \<Rightarrow> nat \<Rightarrow> int list list \<Rightarrow> int list list option" where
  "vector_store i j arr = do {
     row \<leftarrow> rd arr (i mod 10);
     row' \<leftarrow> wr row (j mod 10) (10 * 10);
     wr arr (i mod 10) row' }"

definition vector_calculate :: "int \<Rightarrow> int list list \<Rightarrow> int list list option" where
  "vector_calculate n arr = do {
     size \<leftarrow> vector_size n;
     for_upto 0 size (\<lambda>i. for_upto 0 size (vector_store i)) arr }"

datatype cfs_line = Fork_Error | Process_Starts int | Process_Ends int | Group_Time int | All_End | Total_Time int

text \<open>The loop of forks: the first one that fails.\<close>

function fork_loop :: "(nat \<Rightarrow> int) \<Rightarrow> nat \<Rightarrow> nat option" where
  "fork_loop forks i = (if i < 21 then if forks i < 0 then Some i else fork_loop forks (i + 1) else None)"
  by pat_completeness auto
termination by (relation "measure (\<lambda>(_, i). 21 - i)") auto

declare fork_loop.simps [simp del]

text \<open>
  The parent: exit status and output, for the results of \<open>fork\<close>, of \<open>wait\<close> and of the clock, in seconds. Both programs have the same one.
\<close>

definition cfs_main :: "(nat \<Rightarrow> int) \<Rightarrow> (nat \<Rightarrow> int) \<Rightarrow> (nat \<Rightarrow> int) \<Rightarrow> int \<Rightarrow> int \<Rightarrow> int \<times> cfs_line list" where
  "cfs_main forks waits clock start stop =
     (case fork_loop forks 0 of
        Some i \<Rightarrow> (1, [Fork_Error])
      | None \<Rightarrow>
          (0, concat (map (\<lambda>i. Process_Ends (waits i) # (if i mod 7 = 6 then [Group_Time (clock i - start)] else [])) [0..<21]) @
              [All_End, Total_Time (stop - start)]))"

text \<open>A child: what it prints, and its array.\<close>

definition cfs_child :: "nat \<Rightarrow> int \<Rightarrow> int list list \<Rightarrow> (cfs_line list \<times> int list list) option" where
  "cfs_child i pid arr = map_option (\<lambda>a. ([Process_Starts pid], a)) (vector_calculate (int i div 7) arr)"

definition nice_increment :: "nat \<Rightarrow> int option" where
  "nice_increment i = (if i div 7 = 0 then Some 10 else if i div 7 = 1 then Some 0 else if i div 7 = 2 then Some (- 15) else None)"

text \<open>The task of a child in the kernel; the result of \<open>nice\<close> is not looked at.\<close>

definition cfs_task :: "sched_hdr \<Rightarrow> nat \<Rightarrow> bool \<Rightarrow> task \<Rightarrow> (sched_error + task) option" where
  "cfs_task h n on parent = sched_fork h n on (normal_prio parent) parent"

definition cfs_nice_task :: "sched_hdr \<Rightarrow> sched_ctx \<Rightarrow> nat \<Rightarrow> bool \<Rightarrow> nat \<Rightarrow> task \<Rightarrow> (sched_error + task) option" where
  "cfs_nice_task h ctx n on i parent = do {
     r \<leftarrow> sched_fork h n on (normal_prio parent) parent;
     (case (r, nice_increment i) of
        (Inr c, Some inc) \<Rightarrow>
          map_option (\<lambda>r'. case r' of Inl _ \<Rightarrow> Inr c | Inr c' \<Rightarrow> Inr c') (sys_nice h ctx inc c)
      | _ \<Rightarrow> Some r) }"

section \<open>The array\<close>

definition filled :: "nat \<Rightarrow> nat \<Rightarrow> nat \<Rightarrow> int list list \<Rightarrow> bool" where
  "filled i m j arr \<longleftrightarrow> length arr = 10 \<and> (\<forall>r < 10. length (arr ! r) = 10) \<and>
     (\<forall>r < 10. \<forall>k < 10. r < i \<or> r = m \<and> k < j \<longrightarrow> arr ! r ! k = 100)"

lemma vector_store_filled:
  assumes "filled i (i mod 10) j arr"
  shows "\<exists>arr'. vector_store i j arr = Some arr' \<and> filled i (i mod 10) (Suc j) arr'"
proof -
  let ?r = "i mod 10" and ?k = "j mod 10"
  let ?a = "arr[?r := (arr ! ?r)[?k := 100]]"
  have l: "length arr = 10" "length (arr ! ?r) = 10" using assms by (auto simp: filled_def)
  then have "vector_store i j arr = Some ?a" by (simp add: vector_store_def rd_in wr_in)
  moreover have "filled i ?r (Suc j) ?a"
  proof -
    have "?a ! r ! k = 100" if "r < 10" "k < 10" "r < i \<or> r = ?r \<and> k < Suc j" for r k
    proof (cases "r = ?r \<and> k = ?k")
      case False
      then have "?a ! r ! k = arr ! r ! k" using l by (cases "r = ?r") auto
      moreover have "r < i \<or> r = ?r \<and> k < j" using that False by (auto simp: less_Suc_eq)
      ultimately show ?thesis using assms that(1,2) unfolding filled_def by metis
    qed (use l in simp)
    then show ?thesis using assms l by (auto simp: filled_def nth_list_update)
  qed
  ultimately show ?thesis by blast
qed

lemma vector_row_filled:
  assumes "10 \<le> sz" and "filled i (i mod 10) 0 arr"
  shows "\<exists>arr'. for_upto 0 sz (vector_store i) arr = Some arr' \<and> filled (Suc i) 0 0 arr'"
proof -
  obtain a where a: "for_upto 0 sz (vector_store i) arr = Some a" "filled i (i mod 10) sz a"
    using for_upto_rule [of "\<lambda>j a. filled i (i mod 10) j a" 0 arr sz "vector_store i"] assms(2) vector_store_filled by auto
  have "a ! r ! k = 100" if "r < 10" "k < 10" "r < Suc i" for r k
  proof -
    have "r < i \<or> r = i mod 10 \<and> k < sz" using that assms(1) by (cases "r = i") auto
    then show ?thesis using a(2) that(1,2) unfolding filled_def by blast
  qed
  then show ?thesis using a by (auto simp: filled_def)
qed

lemma vector_calculate_fills:
  assumes "n \<in> {0, 1, 2}" and "length arr = 10" and "\<forall>r < 10. length (arr ! r) = 10"
  shows "vector_calculate n arr = Some (replicate 10 (replicate 10 100))"
proof -
  obtain sz where s: "vector_size n = Some sz" "10 \<le> sz" using assms(1) by (auto simp: vector_size_def MAXSIZE1_def MAXSIZE2_def MAXSIZE3_def)
  have step: "\<exists>t. for_upto 0 sz (vector_store i) a = Some t \<and> filled (Suc i) 0 0 t" if "filled i 0 0 a" for i a
    by (rule vector_row_filled [OF s(2)]) (use that in \<open>simp add: filled_def\<close>)
  obtain a where a: "for_upto 0 sz (\<lambda>i. for_upto 0 sz (vector_store i)) arr = Some a" "filled sz 0 0 a"
    using for_upto_rule [of "\<lambda>i a. filled i 0 0 a" 0 arr sz "\<lambda>i. for_upto 0 sz (vector_store i)"] assms(2,3) step by (auto simp: filled_def)
  have "a = replicate 10 (replicate 10 100)"
    by (rule nth_equalityI) (use a(2) s(2) in \<open>auto simp: filled_def intro!: nth_equalityI\<close>)
  then show ?thesis using a(1) s(1) by (simp add: vector_calculate_def)
qed

section \<open>What is measured\<close>

lemma nice_rt_only_static:
  assumes "hdr_ok h" and "rt_policy h (policy c)"
  shows "\<exists>r. sys_nice h ctx inc c = Some r \<and> (\<forall>c'. r = Inr c' \<longrightarrow> (\<exists>x. c' = c\<lparr>static_prio := x\<rparr>))"
proof -
  let ?n = "clamp_int (task_nice h c + clamp_int inc (- NICE_WIDTH h) (NICE_WIDTH h)) (MIN_NICE h) (MAX_NICE h)"
  have "- 20 \<le> ?n" "?n \<le> 19" using assms(1) by (simp_all add: header_facts clamp_int_def)
  then have "set_user_nice h ?n c = Some (c\<lparr>static_prio := ?n + 120\<rparr>)" by (rule set_user_nice_rt [OF assms])
  then show ?thesis by (auto simp: sys_nice_def Let_def)
qed

text \<open>
  C40. \<open>CFS_nice.c\<close> measures the same as \<open>CFS.c\<close> on the changed kernel. For every parent with a normal priority that has not set
  \<open>SCHED_RESET_ON_FORK\<close>, with or without the right to
  raise priorities, each of the 21 children has, after its call of \<open>nice\<close>, the weight, priority, class and policy that it
  has in \<open>CFS.c\<close>: the tasks differ in the static priority at most, which the fair class does not use. The programs themselves never set the
  flag; a parent with it makes its children \<open>SCHED_NORMAL\<close> again, and then their nice values count.
\<close>

theorem cfs_nice_same_tasks:
  assumes "hdr_ok h" and "100 \<le> normal_prio p" and "\<not> sched_reset_on_fork p"
  shows "\<exists>c. cfs_task h n on p = Some (Inr c) \<and> sched_class c = Fair_Class \<and>
    (\<forall>i < 21. \<exists>x. cfs_nice_task h ctx n on i p = Some (Inr (c\<lparr>static_prio := x\<rparr>)))"
proof -
  obtain c where c: "sched_fork h n on (normal_prio p) p = Some (Inr c)" "policy c = SCHED_FIFO h" "sched_class c = Fair_Class"
    using assms by (auto simp: sched_fork_def Let_def sched_fork_init_def header_facts)
  have rt: "rt_policy h (policy c)" using assms(1) c(2) by (simp add: header_facts)
  have "\<exists>x. cfs_nice_task h ctx n on i p = Some (Inr (c\<lparr>static_prio := x\<rparr>))" if "i < 21" for i
  proof -
    have "i div 7 = 0 \<or> i div 7 = 1 \<or> i div 7 = 2" using that by auto
    then obtain inc where inc: "nice_increment i = Some inc" by (auto simp: nice_increment_def)
    obtain r where r: "sys_nice h ctx inc c = Some r" "\<forall>c'. r = Inr c' \<longrightarrow> (\<exists>x. c' = c\<lparr>static_prio := x\<rparr>)"
      using nice_rt_only_static [OF assms(1) rt] by blast
    have same: "\<exists>x. c = c\<lparr>static_prio := x\<rparr>" by (rule exI [of _ "static_prio c"]) simp
    show ?thesis
    proof (cases r)
      case (Inl e)
      then have "cfs_nice_task h ctx n on i p = Some (Inr c)" using c(1) inc r(1) by (simp add: cfs_nice_task_def)
      then show ?thesis using same by simp
    next
      case (Inr c')
      then have "cfs_nice_task h ctx n on i p = Some (Inr c')" using c(1) inc r(1) by (simp add: cfs_nice_task_def)
      then show ?thesis using r(2) Inr by simp
    qed
  qed
  then show ?thesis using c by (auto simp: cfs_task_def)
qed

theorem cfs_nice_same_tasks_witness:
  "\<exists>c x. cfs_task sample_hdr 5 True sample_task = Some (Inr c) \<and> cfs_nice_task sample_hdr sample_ctx 5 True 20 sample_task = Some (Inr (c\<lparr>static_prio := x\<rparr>))"
proof -
  have "100 \<le> normal_prio sample_task" "\<not> sched_reset_on_fork sample_task" by (simp_all add: sample_task_def)
  then show ?thesis using cfs_nice_same_tasks [OF sample_hdr_ok, of sample_task 5 True sample_ctx] by fastforce
qed

text \<open>The parent of a run without failures reports each child, and the time after each seven.\<close>

lemma fork_loop_None: "\<forall>i < 21. 0 \<le> forks i \<Longrightarrow> i \<le> 21 \<Longrightarrow> fork_loop forks i = None"
proof (induction forks i rule: fork_loop.induct)
  case (1 forks i)
  show ?case
  proof (cases "i < 21")
    case True
    then have "\<not> forks i < 0" using "1.prems"(1) by (simp add: not_less)
    moreover have "fork_loop forks (i + 1) = None" by (rule "1.IH") (use True "1.prems" calculation in auto)
    ultimately show ?thesis by (subst fork_loop.simps) simp
  qed (simp add: fork_loop.simps)
qed

lemma filter_concat_map: "filter P (concat (map f xs)) = concat (map (\<lambda>x. filter P (f x)) xs)"
  by (induction xs) auto

lemma cfs_main_reports:
  assumes "\<forall>i < 21. 0 \<le> forks i"
  shows "fst (cfs_main forks waits clock start stop) = 0"
    "filter (\<lambda>l. \<exists>p. l = Process_Ends p) (snd (cfs_main forks waits clock start stop)) = map (\<lambda>i. Process_Ends (waits i)) [0..<21]"
    "length (filter (\<lambda>l. \<exists>t. l = Group_Time t) (snd (cfs_main forks waits clock start stop))) = 3"
proof -
  have f: "fork_loop forks 0 = None" using fork_loop_None [OF assms, of 0] by simp
  then show "fst (cfs_main forks waits clock start stop) = 0" by (simp add: cfs_main_def)
  have "concat (map (\<lambda>i. [Process_Ends (waits i)]) xs) = map (\<lambda>i. Process_Ends (waits i)) xs" for xs by (induction xs) auto
  moreover have "filter (\<lambda>l. \<exists>p. l = Process_Ends p) (if i mod 7 = 6 then [Group_Time t] else []) = []" for i :: nat and t by simp
  ultimately show "filter (\<lambda>l. \<exists>p. l = Process_Ends p) (snd (cfs_main forks waits clock start stop)) = map (\<lambda>i. Process_Ends (waits i)) [0..<21]"
    using f by (simp add: cfs_main_def filter_concat_map)
  have e: "[0..<21::nat] = [0,1,2,3,4,5,6,7,8,9,10,11,12,13,14,15,16,17,18,19,20]" by (simp add: upt_rec)
  show "length (filter (\<lambda>l. \<exists>t. l = Group_Time t) (snd (cfs_main forks waits clock start stop))) = 3"
    using f unfolding cfs_main_def e by simp
qed

end
