(* ===== verification/Wait_Inactive.thy ===== *)
theory Wait_Inactive
  imports Sched_Switch_Main
begin

unbundle bit_operations_syntax

text \<open>
  Waiting for a task to leave its CPU, \<open>wait_task_inactive\<close> of \<open>core.c\<close>. The loop reads the task while other CPUs change
  it, so it consumes the list of what it sees, one element per unlocked read and one per visit under the lock. What it is worth to its callers,
  debuggers for instance, follows from the steps of \<open>Sched_Switch_Main\<close>: the result is the count of voluntary switches, and a
  task cannot run and sleep again without counting one.
\<close>

section \<open>The loop\<close>

datatype spin = Spin_Waiting | Spin_Changed "wtask list" | Spin_Left "wtask list"

text \<open>The busy loop without locks; each round reads \<open>on_cpu\<close> and, if a state is asked for, the state.\<close>

fun spin_running :: "int \<Rightarrow> wtask list \<Rightarrow> spin" where
  "spin_running m [] = Spin_Waiting"
| "spin_running m [t] = (if \<not> on_cpu t then Spin_Left [] else Spin_Waiting)"
| "spin_running m (t # t' # ts) =
     (if \<not> on_cpu t then Spin_Left (t' # ts)
      else if m \<noteq> 0 then (if tstate t' \<noteq> m then Spin_Changed ts else spin_running m ts)
      else spin_running m (t' # ts))"

definition LONG_MIN :: "64 word" where "LONG_MIN = 2 ^ 63"

text \<open>What is computed under the lock.\<close>

definition switch_number :: "int \<Rightarrow> wtask \<Rightarrow> 64 word" where
  "switch_number m t = (if m = 0 \<or> tstate t = m then of_nat (nvcsw t) OR LONG_MIN else 0)"

lemma length_spin_running:
  "spin_running m ts = Spin_Left us \<Longrightarrow> length us < length ts"
  by (induction m ts rule: spin_running.induct) (auto split: if_splits)

text \<open>\<open>None\<close>: the caller still waits. The result comes with what has not been read.\<close>

function wait_task_inactive :: "int \<Rightarrow> wtask list \<Rightarrow> (64 word \<times> wtask list) option" where
  "wait_task_inactive m ts =
     (case spin_running m ts of
        Spin_Waiting \<Rightarrow> None
      | Spin_Changed us \<Rightarrow> Some (0, us)
      | Spin_Left [] \<Rightarrow> None
      | Spin_Left (t # us) \<Rightarrow>
          let ncsw = switch_number m t
          in if ncsw = 0 then Some (0, us)
             else if on_cpu t then wait_task_inactive m us
             else if on_queue t = Queued_Rq then wait_task_inactive m us
             else Some (ncsw, us))"
  by pat_completeness auto
termination by (relation "measure (\<lambda>(_, ts). length ts)") (auto dest!: length_spin_running)

declare wait_task_inactive.simps [simp del]

text \<open>The reads end with the visit that gave the result.\<close>

definition inactive_task :: "wtask \<Rightarrow> bool" where
  "inactive_task t \<longleftrightarrow> \<not> on_cpu t \<and> on_queue t = Off_Rq"

lemma spin_running_suffix: "spin_running m ts = Spin_Left us \<Longrightarrow> us \<noteq> [] \<Longrightarrow> last us = last ts"
  by (induction m ts rule: spin_running.induct) (auto split: if_splits)

lemma spin_running_changed: "spin_running m ts = Spin_Changed us \<Longrightarrow> m \<noteq> 0"
  by (induction m ts rule: spin_running.induct) (auto split: if_splits)

lemma wait_result:
  assumes "wait_task_inactive m ts = Some (n, [])" and "n \<noteq> 0"
  shows "ts \<noteq> [] \<and> inactive_task (last ts) \<and> n = switch_number m (last ts) \<and> (m = 0 \<or> tstate (last ts) = m)"
  using assms
proof (induction m ts rule: wait_task_inactive.induct)
  case (1 m ts)
  have "ts \<noteq> []" using "1.prems"(1) by (subst (asm) wait_task_inactive.simps) auto
  obtain t us where spin: "spin_running m ts = Spin_Left (t # us)"
    using "1.prems" by (subst (asm) wait_task_inactive.simps) (auto split: spin.splits list.splits)
  have l: "last (t # us) = last ts" using spin_running_suffix [OF spin] by simp
  show ?case
  proof (cases "on_cpu t \<or> on_queue t = Queued_Rq")
    case True
    then have w: "wait_task_inactive m us = Some (n, [])"
      using "1.prems" spin by (subst (asm) wait_task_inactive.simps) (auto simp: Let_def split: if_splits)
    have nz: "switch_number m t \<noteq> 0"
      using "1.prems" spin by (subst (asm) wait_task_inactive.simps) (auto simp: Let_def split: if_splits)
    have "us \<noteq> [] \<and> inactive_task (last us) \<and> n = switch_number m (last us) \<and> (m = 0 \<or> tstate (last us) = m)"
      using "1.IH" [OF spin refl refl nz] "1.IH"(2) [OF spin refl refl nz] True w "1.prems"(2) by blast
    then show ?thesis using l \<open>ts \<noteq> []\<close> by auto
  next
    case False
    then have "us = [] \<and> n = switch_number m t"
      using "1.prems" spin by (subst (asm) wait_task_inactive.simps) (auto simp: Let_def split: if_splits)
    moreover from this have "m = 0 \<or> tstate t = m" using "1.prems"(2) by (auto simp: switch_number_def split: if_splits)
    ultimately show ?thesis using l False \<open>ts \<noteq> []\<close> by (cases "on_queue t") (auto simp: inactive_task_def)
  qed
qed

text \<open>The wait ends: it is enough that the last three things that are seen agree.\<close>

lemma spin_running_inactive:
  assumes "\<forall>t \<in> set us. inactive_task t \<and> (m = 0 \<or> tstate t = m)" and "length us = 3"
  shows "spin_running m (ts @ us) \<noteq> Spin_Waiting \<and>
    (\<forall>vs. spin_running m (ts @ us) = Spin_Left vs \<longrightarrow> vs \<noteq> [] \<and> ((\<exists>ts'. vs = ts' @ us) \<or> set vs \<subseteq> set us))"
  using assms
proof (induction m ts rule: spin_running.induct)
  case (1 m)
  then obtain a b c where "us = [a, b, c]" by (auto simp: numeral_3_eq_3 length_Suc_conv)
  then show ?case using 1 by (auto simp: inactive_task_def)
next
  case (2 m t)
  then obtain a b c where "us = [a, b, c]" by (auto simp: numeral_3_eq_3 length_Suc_conv)
  then show ?case using 2 by (auto simp: inactive_task_def)
next
  case (3 m t t' ts)
  show ?case
  proof (cases "on_cpu t")
    case False
    then show ?thesis by (auto intro: exI [of _ "t' # ts"])
  next
    case True
    then show ?thesis using 3 by (cases "m \<noteq> 0"; cases "tstate t' \<noteq> m") auto
  qed
qed

lemma switch_number_nonzero: "m = 0 \<or> tstate t = m \<Longrightarrow> switch_number m t \<noteq> 0"
proof -
  assume "m = 0 \<or> tstate t = m"
  then have "bit (switch_number m t) 63" by (auto simp: switch_number_def LONG_MIN_def bit_or_iff bit_exp_iff)
  then show ?thesis by auto
qed

lemma wait_returns:
  assumes "\<forall>t \<in> set us. inactive_task t \<and> (m = 0 \<or> tstate t = m)" and "length us = 3"
  shows "\<exists>r. wait_task_inactive m (ts @ us) = Some r"
proof (induction "length ts" arbitrary: ts rule: less_induct)
  case less
  note sp = spin_running_inactive [OF assms, of ts]
  show ?case
  proof (cases "spin_running m (ts @ us)")
    case (Spin_Left vs)
    then obtain t ws where vs: "vs = t # ws" using sp by (cases vs) auto
    show ?thesis
    proof (cases "switch_number m t \<noteq> 0 \<and> (on_cpu t \<or> on_queue t = Queued_Rq)")
      case True
      then have "t \<notin> set us" using assms(1) by (auto simp: inactive_task_def)
      then obtain ts' where "vs = ts' @ us" using sp Spin_Left vs by auto
      moreover from this obtain ts'' where "ts' = t # ts''" using vs \<open>t \<notin> set us\<close> assms(2) by (cases ts') auto
      ultimately have ws: "ws = ts'' @ us" "length ts'' < length ts"
        using vs length_spin_running [OF Spin_Left] by auto
      then obtain r where "wait_task_inactive m ws = Some r" using less [of ts''] by auto
      then show ?thesis using True Spin_Left vs by (subst wait_task_inactive.simps) (auto simp: Let_def)
    next
      case False
      then show ?thesis using Spin_Left vs by (subst wait_task_inactive.simps) (auto simp: Let_def)
    qed
  qed (use sp in \<open>auto simp: wait_task_inactive.simps\<close>)
qed

section \<open>Running and sleeping\<close>

text \<open>How often a task has gone to sleep, the coming time included.\<close>

definition sleeps :: "'r wsys \<Rightarrow> nat \<Rightarrow> nat" where
  "sleeps s p = nvcsw (wt s p) + (if on_queue (wt s p) = Queued_Rq then 1 else 0)"

definition step_ok :: "nat \<Rightarrow> 'r wsys \<Rightarrow> 'r wsys \<Rightarrow> bool" where
  "step_ok p s s' \<longleftrightarrow> nvcsw (wt s p) \<le> nvcsw (wt s' p) \<and> sleeps s p \<le> sleeps s' p \<and>
     (on_cpu (wt s' p) \<longrightarrow> on_cpu (wt s p) \<or> on_queue (wt s' p) = Queued_Rq)"

text \<open>Steps that never take a task off a queue for good.\<close>

definition keeps :: "nat \<Rightarrow> 'r wsys \<Rightarrow> 'r wsys \<Rightarrow> bool" where
  "keeps p s s' \<longleftrightarrow> nvcsw (wt s' p) = nvcsw (wt s p) \<and> on_cpu (wt s' p) = on_cpu (wt s p) \<and>
     (on_queue (wt s p) = Queued_Rq \<longrightarrow> on_queue (wt s' p) = Queued_Rq)"

lemma keeps_refl [simp]: "keeps p s s"
  by (simp add: keeps_def)

lemma keeps_trans: "keeps p s t \<Longrightarrow> keeps p t u \<Longrightarrow> keeps p s u"
  by (simp add: keeps_def)

lemma keeps_step: "keeps p s s' \<Longrightarrow> step_ok p s s'"
  by (auto simp: keeps_def step_ok_def sleeps_def)

lemma keeps_same: "wt s' = wt s \<Longrightarrow> keeps p s s'"
  by (simp add: keeps_def)

lemma keeps_check_preempt:
  assumes "check_preempt_curr env this c q s = Some s'"
  shows "wt s' = wt s"
  using assms by (auto simp: check_preempt_curr_def resched_def Let_def split: if_splits bind_splits)

lemma wt_update_clock [simp]: "wt (update_clock_of env c s) = wt s"
  by (simp add: update_clock_of_def)

lemma keeps_activate: "keeps p s (activate env c q nclk w s)"
  by (auto simp: keeps_def activate_def Let_def)

lemma wt_activate [simp]: "wt (activate env c q nclk w s) = (wt s)(q := (wt s q)\<lparr>on_queue := Queued_Rq\<rparr>)"
  by (auto simp: activate_def Let_def)

lemma wt_deactivate [simp]: "wt (deactivate env c q nclk s) = (wt s)(q := (wt s q)\<lparr>on_queue := Off_Rq\<rparr>)"
  by (auto simp: deactivate_def Let_def)

lemma keeps_do_wakeup: "ttwu_do_wakeup env this c q s = Some s' \<Longrightarrow> keeps p s s'"
  by (auto simp: ttwu_do_wakeup_def keeps_def Let_def dest!: keeps_check_preempt split: if_splits bind_splits)

lemma keeps_do_activate:
  assumes "ttwu_do_activate env this c q wfl s = Some s'"
  shows "keeps p s s'"
proof -
  obtain s2 where "wt s2 = wt s" "ttwu_do_wakeup env this c q (activate env c q True True s2) = Some s'"
    by (rule that [OF _ assms [unfolded ttwu_do_activate_def Let_def]]) simp
  then show ?thesis using keeps_do_wakeup keeps_activate keeps_trans keeps_same by metis
qed

lemma keeps_set_task_cpu [simp]: "keeps p s (set_task_cpu q c s)"
  by (simp add: keeps_def set_task_cpu_def)

lemma keeps_wakelist: "ttwu_queue_wakelist env this q c wfl s = (b, s') \<Longrightarrow> keeps p s s'"
  by (auto simp: ttwu_queue_wakelist_def ttwu_queue_wakelist_raw_def keeps_def split: if_splits)

lemma keeps_queue:
  assumes "ttwu_queue env this q c wfl s = Some s'"
  shows "keeps p s s'"
proof -
  obtain b s1 where w: "ttwu_queue_wakelist env this q c wfl s = (b, s1)" by fastforce
  show ?thesis
  proof (cases b)
    case False
    then have "ttwu_do_activate env this c q wfl (update_clock_of env c s1) = Some s'" using assms w by (simp add: ttwu_queue_def)
    moreover have "keeps p s1 (update_clock_of env c s1)" by (rule keeps_same) simp
    ultimately show ?thesis using keeps_wakelist [OF w] keeps_do_activate keeps_trans by metis
  qed (use assms w keeps_wakelist [OF w] in \<open>simp add: ttwu_queue_def\<close>)
qed

lemma keeps_place:
  assumes "ttwu_place env this q s = Some s'"
  shows "keeps p s s'"
proof -
  obtain s4 c wfl where "keeps p s s4" "ttwu_queue env this q c wfl s4 = Some s'"
    by (rule that [OF _ assms [unfolded ttwu_place_def Let_def]]) (simp add: keeps_def set_task_cpu_def)
  then show ?thesis using keeps_queue keeps_trans by blast
qed

lemma keeps_wake:
  assumes "try_to_wake_up env this q m s = Some (b, s')"
  shows "keeps p s s'"
proof -
  have state: "keeps p t (upd_wt q (\<lambda>t. t\<lparr>tstate := x\<rparr>) t)" for t :: "'a wsys" and x by (simp add: keeps_def)
  have run: "keeps p s s1" if "ttwu_runnable env this q s = Some (d, s1)" for d s1
    using that keeps_do_wakeup [of env this "task_cpu (wt s q)" q "update_clock_of env (task_cpu (wt s q)) s" s1 p]
    by (auto simp: ttwu_runnable_def Let_def keeps_def split: if_splits bind_splits)
  show ?thesis
  proof (cases "q = curr s this \<or> tstate (wt s q) AND m = 0")
    case True
    then show ?thesis using assms state [of s TASK_RUNNING] by (auto simp: try_to_wake_up_def split: if_splits)
  next
    case False
    then obtain d s1 where r: "(if on_queue (wt s q) \<noteq> Off_Rq then ttwu_runnable env this q s else Some (False, s)) = Some (d, s1)"
      using assms by (auto simp: try_to_wake_up_def split: bind_splits)
    have k1: "keeps p s s1" using r run by (auto split: if_splits)
    define s2 where "s2 = upd_wt q (\<lambda>t. t\<lparr>tstate := TASK_WAKING\<rparr>) s1"
    define w where "w = (if on_cpu (wt s2 q) then ttwu_queue_wakelist env this q (task_cpu (wt s2 q)) \<lparr>migrated = False, wf_on_cpu = True\<rparr> s2 else (False, s2))"
    have k2: "keeps p s s2" using keeps_trans [OF k1 state [of s1 TASK_WAKING]] by (simp add: s2_def)
    have kw: "keeps p s2 (snd w)" by (cases w) (auto simp: w_def keeps_wakelist split: if_splits)
    have "s' = (if d then s1 else snd w) \<or> ttwu_place env this q s2 = Some s'"
      using assms False r unfolding try_to_wake_up_def Let_def
      by (auto simp: s2_def [symmetric] w_def split: if_splits bind_splits)
    then show ?thesis
    proof
      assume "s' = (if d then s1 else snd w)"
      then show ?thesis using k1 keeps_trans [OF k2 kw] by simp
    next
      assume "ttwu_place env this q s2 = Some s'"
      then show ?thesis using keeps_trans [OF k2 keeps_place] by blast
    qed
  qed
qed

lemma keeps_pending_loop: "ttwu_pending_loop env c qs s = Some s' \<Longrightarrow> keeps p s s'"
proof (induction env c qs s rule: ttwu_pending_loop.induct)
  case (2 env c q qs s)
  define s1 where "s1 = (if task_cpu (wt s q) \<noteq> c then set_task_cpu q c s else s)"
  obtain s2 where s2: "ttwu_do_activate env c c q \<lparr>migrated = remote_wakeup (wt s1 q), wf_on_cpu = False\<rparr> s1 = Some s2"
    "ttwu_pending_loop env c qs s2 = Some s'" and off: "\<not> on_cpu (wt s q)"
    using "2.prems" by (auto simp: Let_def s1_def split: if_splits bind_splits)
  have "keeps p s s1" by (simp add: s1_def)
  moreover have "keeps p s1 s2" by (rule keeps_do_activate [OF s2(1)])
  moreover have "keeps p s2 s'" using "2.IH" [OF off refl] s2 by (simp add: s1_def)
  ultimately show ?case using keeps_trans by blast
qed simp

lemma keeps_pending: "sched_ttwu_pending env c s = Some s' \<Longrightarrow> keeps p s s'"
proof (cases "wake_list (rqs s c) = []")
  case False
  assume "sched_ttwu_pending env c s = Some s'"
  then have "ttwu_pending_loop env c (wake_list (rqs s c))
      (update_clock_of env c (upd_rq c (\<lambda>q. q\<lparr>wake_list := [], ttwu_pending := False\<rparr>) s)) = Some s'"
    using False by (simp add: sched_ttwu_pending_def)
  then have "keeps p (update_clock_of env c (upd_rq c (\<lambda>q. q\<lparr>wake_list := [], ttwu_pending := False\<rparr>) s)) s'" by (rule keeps_pending_loop)
  then show ?thesis by (simp add: keeps_def)
qed (simp add: sched_ttwu_pending_def)

lemma keeps_new: "wake_up_new_task env this q s = Some s' \<Longrightarrow> keeps p s s'"
  by (auto simp: wake_up_new_task_def Let_def keeps_def dest!: keeps_check_preempt split: if_splits bind_splits)

lemma keeps_move: "move_queued_task env this q c s = Some s' \<Longrightarrow> keeps p s s'"
  by (auto simp: move_queued_task_def Let_def keeps_def set_task_cpu_def dest!: keeps_check_preempt split: if_splits)

lemma keeps_swap: "migrate_swap_task_raw env this q c s = Some s' \<Longrightarrow> keeps p s s'"
  by (auto simp: migrate_swap_task_raw_def Let_def keeps_def set_task_cpu_def dest!: keeps_check_preempt split: if_splits)

lemma go_to_sleep_fields:
  "nvcsw (wt (go_to_sleep env c prev s) t) = nvcsw (wt s t)" "on_cpu (wt (go_to_sleep env c prev s) t) = on_cpu (wt s t)"
  "t \<noteq> prev \<Longrightarrow> on_queue (wt (go_to_sleep env c prev s) t) = on_queue (wt s t)"
  by (simp_all add: go_to_sleep_def Let_def)

text \<open>A task that a switch takes off its queue is counted, because it cannot be the next one.\<close>

lemma step_schedule:
  assumes "schedule_raw env preempt c s = Some s'" and "on_queue (wt s' (curr s' c)) = Queued_Rq"
  shows "step_ok p s s'"
proof -
  define prev where "prev = curr s c"
  define s1 where "s1 = update_clock_of env c (upd_rq c (\<lambda>q. q\<lparr>clocks := promote_flags (clocks q)\<rparr>) s)"
  define vol where "vol = (\<not> preempt \<and> tstate (wt s1 prev) \<noteq> TASK_RUNNING)"
  define s2 where "s2 = (if vol then go_to_sleep env c prev s1 else s1)"
  have w1: "wt s1 = wt s" by (simp add: s1_def)
  have m2: "marks s2 = marks s" by (simp add: s2_def s1_def go_to_sleep_def deactivate_def update_clock_of_def Let_def)
  obtain nxt r where pick: "pick_next_task (ops env) (class_of env) prev (classes (rqs s2 c)) = (Some nxt, r)"
    using assms(1) unfolding schedule_raw_def Let_def prev_def [symmetric] s1_def [symmetric] vol_def [symmetric] s2_def [symmetric]
    by (auto split: prod.splits option.splits)
  define s3 where "s3 = clear_need_resched env prev (upd_rq c (\<lambda>q. q\<lparr>classes := r\<rparr>) s2)"
  have s3: "wt s3 = wt s2" "curr s3 c = prev" using m2 by (simp_all add: s3_def clear_need_resched_def prev_def)
  have w2: "nvcsw (wt s2 t) = nvcsw (wt s t)" "on_cpu (wt s2 t) = on_cpu (wt s t)"
    "t \<noteq> prev \<or> \<not> vol \<Longrightarrow> on_queue (wt s2 t) = on_queue (wt s t)" for t
    by (auto simp: s2_def w1 go_to_sleep_fields)
  have run: "s' = (if nxt \<noteq> prev then switch_tasks c prev nxt vol s3
      else note_call (Balance_Callbacks c) (upd_rq c (\<lambda>q. q\<lparr>clocks := clear_skip (clocks q)\<rparr>) s3))"
    using assms(1) pick unfolding schedule_raw_def Let_def prev_def [symmetric] s1_def [symmetric] vol_def [symmetric] s2_def [symmetric]
    by (cases "nxt = prev") (simp_all add: s3_def)
  show ?thesis
  proof (cases "nxt = prev")
    case True
    then have "wt s' = wt s2" "curr s' c = prev" using run s3 by simp_all
    then show ?thesis using assms(2) w2 [of p] by (cases "p = prev") (auto simp: step_ok_def sleeps_def)
  next
    case False
    then have s': "s' = switch_tasks c prev nxt vol s3" using run by simp
    have "wt s' = ((wt s2)(prev := (if vol then (wt s2 prev)\<lparr>nvcsw := nvcsw (wt s2 prev) + 1\<rparr> else (wt s2 prev)\<lparr>nivcsw := nivcsw (wt s2 prev) + 1\<rparr>)))
        (nxt := (wt s2 nxt)\<lparr>on_cpu := True\<rparr>)" "curr s' c = nxt"
      using False s3 by (auto simp: s' switch_tasks_def Let_def)
    then show ?thesis using assms(2) w2 [of p] False by (cases "p = prev"; cases vol; cases "p = nxt") (auto simp: step_ok_def sleeps_def)
  qed
qed

lemma step_ok_wstep:
  assumes "wstep env T C s s'"
  shows "step_ok p s s'"
  using assms
proof (cases rule: wstep.cases)
  case (finish q)
  then show ?thesis by (auto simp: step_ok_def sleeps_def finish_task_def)
next
  case (own c x io fr)
  then show ?thesis by (auto simp: step_ok_def sleeps_def)
qed (auto intro: step_schedule keeps_step keeps_wake keeps_pending keeps_new keeps_move keeps_swap)

lemma history_counts:
  assumes "(wstep env T C)\<^sup>*\<^sup>* s s'"
  shows "nvcsw (wt s p) \<le> nvcsw (wt s' p) \<and> sleeps s p \<le> sleeps s' p"
  using assms
proof (induction rule: rtranclp_induct)
  case (step t u)
  then show ?case using step_ok_wstep [OF step.hyps(2), of p] by (auto simp: step_ok_def)
qed simp

lemma history_runs:
  assumes "(wstep env T C)\<^sup>*\<^sup>* s s'" and "inactive_task (wt s p)"
  shows "inactive_task (wt s' p) \<or> sleeps s p < sleeps s' p"
  using assms(1)
proof (induction rule: rtranclp_induct)
  case base
  then show ?case using assms(2) by simp
next
  case (step t u)
  note ok = step_ok_wstep [OF step.hyps(2), of p]
  show ?case
  proof (cases "sleeps s p < sleeps t p")
    case True
    then show ?thesis using ok by (auto simp: step_ok_def)
  next
    case False
    then have "inactive_task (wt t p)" using step.IH by simp
    then show ?thesis using ok history_counts [OF step.hyps(1), of p] assms(2)
      by (cases "on_queue (wt u p)") (auto simp: step_ok_def sleeps_def inactive_task_def)
  qed
qed

section \<open>Two calls\<close>

lemma switch_number_inj:
  assumes "switch_number m t = switch_number m' t'" and "m = 0 \<or> tstate t = m" and "m' = 0 \<or> tstate t' = m'"
    and "nvcsw t \<le> nvcsw t'" and "nvcsw t' < nvcsw t + 2 ^ 63"
  shows "nvcsw t' = nvcsw t"
proof -
  have "(of_nat (nvcsw t) :: 64 word) OR LONG_MIN = of_nat (nvcsw t') OR LONG_MIN" using assms(1-3) by (auto simp: switch_number_def)
  then have "take_bit 63 ((of_nat (nvcsw t) :: 64 word) OR LONG_MIN) = take_bit 63 (of_nat (nvcsw t') OR LONG_MIN)" by simp
  then have "take_bit 63 (of_nat (nvcsw t) :: 64 word) = take_bit 63 (of_nat (nvcsw t'))" by (simp add: LONG_MIN_def)
  then have "unat (take_bit 63 (of_nat (nvcsw t) :: 64 word)) = unat (take_bit 63 (of_nat (nvcsw t') :: 64 word))" by simp
  moreover have "unat (take_bit 63 (of_nat k :: 64 word)) = take_bit 63 k" for k by (simp add: unsigned_take_bit_eq unsigned_of_nat)
  ultimately have "nvcsw t mod 2 ^ 63 = nvcsw t' mod 2 ^ 63" by (simp only: take_bit_eq_mod)
  then have "(2::nat) ^ 63 dvd nvcsw t' - nvcsw t" using mod_eq_dvd_iff_nat [OF assms(4)] by metis
  then show ?thesis using assms(4,5) by (metis (no_types, lifting) add.commute diff_add_inverse2 diff_is_0_eq dvd_imp_le le_add_diff_inverse2 less_diff_conv2 linorder_not_less nat_le_linear zero_less_diff)
qed

text \<open>
  C12. What \<open>wait_task_inactive\<close> promises. A call that returns a positive number has seen, under the lock, the task off its CPU, off its
  queue and in the state that was asked for. If a second call, in any later state of any interleaving of switches, wake-ups, new tasks and moves
  on all CPUs, returns the same number, then the task has been neither on a CPU nor on a queue at any time in between, provided that it went to sleep less than
  \<open>2^63\<close> times meanwhile. And a call returns as soon as three things in a row that it sees are a task off CPU
  and queue in the right state, whatever it saw before.
\<close>

theorem wait_inactive_unscheduled:
  assumes "wait_task_inactive m (before @ [wt s p]) = Some (n, [])" and "n \<noteq> 0"
    and "wait_task_inactive m' (between @ [wt s' p]) = Some (n, [])"
    and "(wstep env T C)\<^sup>*\<^sup>* s s'" and "nvcsw (wt s' p) < nvcsw (wt s p) + 2 ^ 63"
  shows "\<not> on_cpu (wt s p) \<and> on_queue (wt s p) = Off_Rq \<and> (m = 0 \<or> tstate (wt s p) = m) \<and>
    (\<forall>t. (wstep env T C)\<^sup>*\<^sup>* s t \<and> (wstep env T C)\<^sup>*\<^sup>* t s' \<longrightarrow> \<not> on_cpu (wt t p) \<and> on_queue (wt t p) = Off_Rq) \<and>
    (\<forall>a b c seen. (\<forall>t \<in> {a, b, c}. \<not> on_cpu t \<and> on_queue t = Off_Rq \<and> (m = 0 \<or> tstate t = m)) \<longrightarrow>
      wait_task_inactive m (seen @ [a, b, c]) \<noteq> None)"
proof -
  have s: "inactive_task (wt s p)" "n = switch_number m (wt s p)" "m = 0 \<or> tstate (wt s p) = m"
    using wait_result [OF assms(1,2)] by auto
  have s': "inactive_task (wt s' p)" "n = switch_number m' (wt s' p)" "m' = 0 \<or> tstate (wt s' p) = m'"
    using wait_result [OF assms(3,2)] by auto
  have "nvcsw (wt s' p) = nvcsw (wt s p)"
    by (rule switch_number_inj) (use s s' assms(5) history_counts [OF assms(4), of p] in auto)
  then have same: "sleeps s' p = sleeps s p" using s(1) s'(1) by (simp add: sleeps_def inactive_task_def)
  have "inactive_task (wt t p)" if "(wstep env T C)\<^sup>*\<^sup>* s t" "(wstep env T C)\<^sup>*\<^sup>* t s'" for t
    using history_runs [OF that(1) s(1)] history_counts [OF that(2), of p] same by simp
  moreover have "wait_task_inactive m (seen @ [a, b, c]) \<noteq> None"
    if "\<forall>t \<in> {a, b, c}. \<not> on_cpu t \<and> on_queue t = Off_Rq \<and> (m = 0 \<or> tstate t = m)" for a b c seen
    using wait_returns [of "[a, b, c]" m seen] that by (auto simp: inactive_task_def)
  ultimately show ?thesis using s(1,3) by (simp add: inactive_task_def)
qed

text \<open>A task that is new and never started, seen twice while the idle task of the CPU sets its state.\<close>

theorem wait_inactive_unscheduled_witness:
  "\<exists>n s'. wait_task_inactive TASK_NEW [wt sample_wsys 1, wt sample_wsys 1] = Some (n, []) \<and> n \<noteq> 0 \<and>
    wstep sample_wenv {0, 1} {0} sample_wsys s' \<and> on_queue (wt s' 1) = Off_Rq"
proof -
  let ?s = "sample_wsys" and ?t = "wt sample_wsys 1"
  let ?s' = "upd_wt (curr ?s 0) (\<lambda>t. t\<lparr>tstate := TASK_RUNNING, iowait := False, frozen := False\<rparr>) ?s"
  have step: "wstep sample_wenv {0, 1} {0} ?s ?s'" by (rule wstep.own) (simp_all add: TASK_RUNNING_def TASK_NEW_def)
  have t: "\<not> on_cpu ?t" "tstate ?t = TASK_NEW" "on_queue ?t = Off_Rq" "wt ?s' 1 = ?t"
    by (simp_all add: sample_wsys_def sample_wtask_def)
  have nz: "switch_number TASK_NEW ?t \<noteq> 0" by (rule switch_number_nonzero) (use t(2) in simp)
  then have w: "wait_task_inactive TASK_NEW ([?t] @ [?t]) = Some (switch_number TASK_NEW ?t, [])"
    using t by (subst wait_task_inactive.simps) (simp add: Let_def)
  have "on_queue (wt ?s' 1) = Off_Rq"
    using wait_inactive_unscheduled [OF w nz, of TASK_NEW "[?t]" ?s' sample_wenv "{0, 1}" "{0}"] w step t(4)
    by (metis (no_types, lifting) less_add_same_cancel1 r_into_rtranclp rtranclp.rtrancl_refl zero_less_numeral zero_less_power)
  then show ?thesis using w nz step by auto
qed

end
