(* ===== verification/Sched_Preempt.thy ===== *)
theory Sched_Preempt
  imports Sched_Task
begin

unbundle bit_operations_syntax

text \<open>
  The ways into the scheduler, \<open>core.c\<close>: the counter that forbids preemption with its debugging checks and the tracing of latencies, and the
  functions that call \<open>__schedule\<close> again as long as another reschedule is due. What happens while a task is away is the list of
  the answers of \<open>need_resched\<close> after each return of \<open>__schedule\<close>. The switch itself is the subject of \<open>Sched_Switch\<close>
  and \<open>Context_Switch\<close>.
\<close>

section \<open>State\<close>

datatype pevent =
    Sched_Call bool
  | Atomic_Bug int
  | Nonblock_Bug
  | Count_Warning
  | State_Warning
  | Trace_Off
  | Trace_On
  | Wq_Sleeping
  | Io_Sleeping
  | Wq_Running
  | Io_Running
  | Flush_Plug
  | Ctx_Enter
  | Ctx_Exit
  | Class_Yield
  | Rcu_Quiescent

record pstate =
  pre_count :: int
  irqs_off :: bool
  resched_flag :: bool
  cstate :: int
  in_iowait :: bool
  pevents :: "pevent list"

text \<open>What else is known of the current task.\<close>

record curr_task =
  wq_worker :: bool
  io_worker :: bool
  pi_blocked :: bool
  needs_flush :: bool
  non_block :: bool

text \<open>The constants of \<open>preempt.h\<close> and their documented values.\<close>

record preempt_hdr =
  PREEMPT_MASK :: int
  PREEMPT_DISABLE_OFFSET :: int

definition preempt_hdr_ok :: "preempt_hdr \<Rightarrow> bool" where
  "preempt_hdr_ok h \<longleftrightarrow> PREEMPT_MASK h = 255 \<and> PREEMPT_DISABLE_OFFSET h = 1"

abbreviation p_note :: "pevent list \<Rightarrow> pstate \<Rightarrow> pstate" where
  "p_note es s \<equiv> s\<lparr>pevents := pevents s @ es\<rparr>"

section \<open>The counter\<close>

definition preempt_latency_start :: "int \<Rightarrow> pstate \<Rightarrow> pstate" where
  "preempt_latency_start val s = (if pre_count s = val then p_note [Trace_Off] s else s)"

definition preempt_count_add :: "preempt_hdr \<Rightarrow> int \<Rightarrow> pstate \<Rightarrow> pstate" where
  "preempt_count_add h val s =
     (if pre_count s < 0 then p_note [Count_Warning] s
      else let s1 = s\<lparr>pre_count := pre_count s + val\<rparr>;
               s2 = (if pre_count s1 AND PREEMPT_MASK h \<ge> PREEMPT_MASK h - 10 then p_note [Count_Warning] s1 else s1)
           in preempt_latency_start val s2)"

definition preempt_latency_stop :: "int \<Rightarrow> pstate \<Rightarrow> pstate" where
  "preempt_latency_stop val s = (if pre_count s = val then p_note [Trace_On] s else s)"

definition preempt_count_sub :: "preempt_hdr \<Rightarrow> int \<Rightarrow> pstate \<Rightarrow> pstate" where
  "preempt_count_sub h val s =
     (if val > pre_count s then p_note [Count_Warning] s
      else if val < PREEMPT_MASK h \<and> pre_count s AND PREEMPT_MASK h = 0 then p_note [Count_Warning] s
      else let s1 = preempt_latency_stop val s in s1\<lparr>pre_count := pre_count s1 - val\<rparr>)"

abbreviation preempt_disable :: "preempt_hdr \<Rightarrow> pstate \<Rightarrow> pstate" where
  "preempt_disable h \<equiv> preempt_count_add h (PREEMPT_DISABLE_OFFSET h)"

abbreviation preempt_enable_no_resched :: "preempt_hdr \<Rightarrow> pstate \<Rightarrow> pstate" where
  "preempt_enable_no_resched h \<equiv> preempt_count_sub h (PREEMPT_DISABLE_OFFSET h)"

section \<open>Entering the scheduler\<close>

text \<open>\<open>in_atomic_preempt_off\<close> holds if the count is not that of one disabled section.\<close>

definition schedule_debug :: "preempt_hdr \<Rightarrow> curr_task \<Rightarrow> bool \<Rightarrow> pstate \<Rightarrow> pstate" where
  "schedule_debug h tk preempt s =
     (let s1 = (if \<not> preempt \<and> cstate s \<noteq> 0 \<and> non_block tk then p_note [Nonblock_Bug] s else s)
      in if pre_count s1 \<noteq> PREEMPT_DISABLE_OFFSET h then p_note [Atomic_Bug (pre_count s1)] (s1\<lparr>pre_count := PREEMPT_DISABLE_OFFSET h\<rparr>) else s1)"

text \<open>
  \<open>__schedule\<close>, as its callers see it: it returns with interrupts enabled, in the state \<open>TASK_RUNNING\<close> if the task could sleep, and clears the
  flag; \<open>again\<close> tells whether it has been set since.
\<close>

definition schedule_call :: "preempt_hdr \<Rightarrow> curr_task \<Rightarrow> bool \<Rightarrow> bool \<Rightarrow> pstate \<Rightarrow> pstate" where
  "schedule_call h tk preempt again s =
     (let s1 = schedule_debug h tk preempt s
      in p_note [Sched_Call preempt] (s1\<lparr>resched_flag := again, irqs_off := False, cstate := (if preempt then cstate s1 else TASK_RUNNING)\<rparr>))"

text \<open>\<open>do body while (need_resched ())\<close>. \<open>None\<close>: it still goes on when the answers end.\<close>

fun resched_loop :: "(bool \<Rightarrow> pstate \<Rightarrow> pstate) \<Rightarrow> bool list \<Rightarrow> pstate \<Rightarrow> pstate option" where
  "resched_loop body [] s = None"
| "resched_loop body (b # bs) s = (let s1 = body b s in if resched_flag s1 then resched_loop body bs s1 else Some s1)"

definition sched_submit_work :: "preempt_hdr \<Rightarrow> curr_task \<Rightarrow> pstate \<Rightarrow> pstate" where
  "sched_submit_work h tk s =
     (if cstate s = 0 then s
      else let s1 = (if wq_worker tk \<or> io_worker tk
                     then preempt_enable_no_resched h (p_note [if wq_worker tk then Wq_Sleeping else Io_Sleeping] (preempt_disable h s))
                     else s)
           in if pi_blocked tk then s1
              else if needs_flush tk then p_note [Flush_Plug] s1 else s1)"

definition sched_update_worker :: "curr_task \<Rightarrow> pstate \<Rightarrow> pstate" where
  "sched_update_worker tk s =
     (if wq_worker tk \<or> io_worker tk then p_note [if wq_worker tk then Wq_Running else Io_Running] s else s)"

definition schedule_body :: "preempt_hdr \<Rightarrow> curr_task \<Rightarrow> bool \<Rightarrow> pstate \<Rightarrow> pstate" where
  "schedule_body h tk b s = preempt_enable_no_resched h (schedule_call h tk False b (preempt_disable h s))"

definition schedule :: "preempt_hdr \<Rightarrow> curr_task \<Rightarrow> bool list \<Rightarrow> pstate \<Rightarrow> pstate option" where
  "schedule h tk bs s = map_option (sched_update_worker tk) (resched_loop (schedule_body h tk) bs (sched_submit_work h tk s))"

definition schedule_idle :: "preempt_hdr \<Rightarrow> curr_task \<Rightarrow> bool list \<Rightarrow> pstate \<Rightarrow> pstate option" where
  "schedule_idle h tk bs s = resched_loop (schedule_call h tk False) bs (if cstate s \<noteq> 0 then p_note [State_Warning] s else s)"

definition schedule_user :: "preempt_hdr \<Rightarrow> curr_task \<Rightarrow> bool list \<Rightarrow> pstate \<Rightarrow> pstate option" where
  "schedule_user h tk bs s = map_option (p_note [Ctx_Exit]) (schedule h tk bs (p_note [Ctx_Enter] s))"

definition schedule_preempt_disabled :: "preempt_hdr \<Rightarrow> curr_task \<Rightarrow> bool list \<Rightarrow> pstate \<Rightarrow> pstate option" where
  "schedule_preempt_disabled h tk bs s = map_option (preempt_disable h) (schedule h tk bs (preempt_enable_no_resched h s))"

text \<open>The variants without tracing change the counter only.\<close>

definition preempt_body :: "preempt_hdr \<Rightarrow> curr_task \<Rightarrow> bool \<Rightarrow> pstate \<Rightarrow> pstate" where
  "preempt_body h tk b s =
     (let s1 = preempt_latency_start 1 (s\<lparr>pre_count := pre_count s + PREEMPT_DISABLE_OFFSET h\<rparr>);
          s2 = preempt_latency_stop 1 (schedule_call h tk True b s1)
      in s2\<lparr>pre_count := pre_count s2 - PREEMPT_DISABLE_OFFSET h\<rparr>)"

definition preempt_schedule_common :: "preempt_hdr \<Rightarrow> curr_task \<Rightarrow> bool list \<Rightarrow> pstate \<Rightarrow> pstate option" where
  "preempt_schedule_common h tk bs s = resched_loop (preempt_body h tk) bs s"

definition preemptible :: "pstate \<Rightarrow> bool" where
  "preemptible s \<longleftrightarrow> pre_count s = 0 \<and> \<not> irqs_off s"

definition preempt_schedule :: "preempt_hdr \<Rightarrow> curr_task \<Rightarrow> bool list \<Rightarrow> pstate \<Rightarrow> pstate option" where
  "preempt_schedule h tk bs s = (if \<not> preemptible s then Some s else preempt_schedule_common h tk bs s)"

definition notrace_body :: "preempt_hdr \<Rightarrow> curr_task \<Rightarrow> bool \<Rightarrow> pstate \<Rightarrow> pstate" where
  "notrace_body h tk b s =
     (let s1 = preempt_latency_start 1 (s\<lparr>pre_count := pre_count s + PREEMPT_DISABLE_OFFSET h\<rparr>);
          s2 = p_note [Ctx_Exit] (schedule_call h tk True b (p_note [Ctx_Enter] s1));
          s3 = preempt_latency_stop 1 s2
      in s3\<lparr>pre_count := pre_count s3 - PREEMPT_DISABLE_OFFSET h\<rparr>)"

definition preempt_schedule_notrace :: "preempt_hdr \<Rightarrow> curr_task \<Rightarrow> bool list \<Rightarrow> pstate \<Rightarrow> pstate option" where
  "preempt_schedule_notrace h tk bs s = (if \<not> preemptible s then Some s else resched_loop (notrace_body h tk) bs s)"

definition irq_body :: "preempt_hdr \<Rightarrow> curr_task \<Rightarrow> bool \<Rightarrow> pstate \<Rightarrow> pstate" where
  "irq_body h tk b s =
     (let s1 = (preempt_disable h s)\<lparr>irqs_off := False\<rparr>;
          s2 = (schedule_call h tk True b s1)\<lparr>irqs_off := True\<rparr>
      in preempt_enable_no_resched h s2)"

text \<open>\<open>None\<close> is also \<open>BUG()\<close>.\<close>

definition preempt_schedule_irq :: "preempt_hdr \<Rightarrow> curr_task \<Rightarrow> bool list \<Rightarrow> pstate \<Rightarrow> pstate option" where
  "preempt_schedule_irq h tk bs s =
     (if pre_count s \<noteq> 0 \<or> \<not> irqs_off s then None
      else map_option (p_note [Ctx_Exit]) (resched_loop (irq_body h tk) bs (p_note [Ctx_Enter] s)))"

section \<open>Yielding\<close>

text \<open>The lock of the run queue is taken with interrupts disabled, and counts.\<close>

definition do_sched_yield :: "preempt_hdr \<Rightarrow> curr_task \<Rightarrow> bool list \<Rightarrow> pstate \<Rightarrow> pstate option" where
  "do_sched_yield h tk bs s =
     (let s1 = preempt_disable h (s\<lparr>irqs_off := True\<rparr>);
          s2 = preempt_disable h (p_note [Class_Yield] s1);
          s3 = (preempt_enable_no_resched h s2)\<lparr>irqs_off := False\<rparr>
      in schedule h tk bs (preempt_enable_no_resched h s3))"

definition yield :: "preempt_hdr \<Rightarrow> curr_task \<Rightarrow> bool list \<Rightarrow> pstate \<Rightarrow> pstate option" where
  "yield h tk bs s = do_sched_yield h tk bs (s\<lparr>cstate := TASK_RUNNING\<rparr>)"

definition cond_resched :: "preempt_hdr \<Rightarrow> curr_task \<Rightarrow> bool list \<Rightarrow> pstate \<Rightarrow> (int \<times> pstate) option" where
  "cond_resched h tk bs s =
     (if pre_count s = 0 \<and> resched_flag s then map_option (Pair 1) (preempt_schedule_common h tk bs s)
      else Some (0, p_note [Rcu_Quiescent] s))"

definition io_schedule_prepare :: "pstate \<Rightarrow> bool \<times> pstate" where
  "io_schedule_prepare s = (in_iowait s, p_note [Flush_Plug] (s\<lparr>in_iowait := True\<rparr>))"

definition io_schedule_finish :: "bool \<Rightarrow> pstate \<Rightarrow> pstate" where
  "io_schedule_finish token s = s\<lparr>in_iowait := token\<rparr>"

definition io_schedule :: "preempt_hdr \<Rightarrow> curr_task \<Rightarrow> bool list \<Rightarrow> pstate \<Rightarrow> pstate option" where
  "io_schedule h tk bs s = (case io_schedule_prepare s of (token, s1) \<Rightarrow> map_option (io_schedule_finish token) (schedule h tk bs s1))"

section \<open>The counter keeps its balance\<close>

definition alarm :: "pevent \<Rightarrow> bool" where
  "alarm e \<longleftrightarrow> e \<in> {Count_Warning, State_Warning} \<or> (\<exists>k. e = Atomic_Bug k)"

text \<open>The tracer sees that preemption is switched off and on in turn.\<close>

fun traced :: "bool \<Rightarrow> pevent list \<Rightarrow> bool option" where
  "traced off [] = Some off"
| "traced off (Trace_Off # es) = (if off then None else traced True es)"
| "traced off (Trace_On # es) = (if off then traced False es else None)"
| "traced off (_ # es) = traced off es"

lemma traced_append: "traced off (es @ fs) = Option.bind (traced off es) (\<lambda>o'. traced o' fs)"
  by (induction off es rule: traced.induct) auto

fun sched_calls :: "pevent list \<Rightarrow> nat" where
  "sched_calls [] = 0"
| "sched_calls (Sched_Call _ # es) = Suc (sched_calls es)"
| "sched_calls (_ # es) = sched_calls es"

lemma sched_calls_append [simp]: "sched_calls (es @ fs) = sched_calls es + sched_calls fs"
  by (induction es rule: sched_calls.induct) auto

text \<open>A step from one state to another that raises no alarm, with \<open>n\<close> calls of \<open>__schedule\<close>.\<close>

definition quiet :: "nat \<Rightarrow> pstate \<Rightarrow> pstate \<Rightarrow> bool" where
  "quiet n s s' \<longleftrightarrow> (\<exists>es. pevents s' = pevents s @ es \<and> (\<forall>e \<in> set es. \<not> alarm e) \<and>
     traced (0 < pre_count s) es = Some (0 < pre_count s') \<and> sched_calls es = n)"

lemma quiet_trans:
  assumes "quiet n s t" and "quiet m t u"
  shows "quiet (n + m) s u"
proof -
  obtain es fs where "pevents t = pevents s @ es" "\<forall>e \<in> set es. \<not> alarm e" "traced (0 < pre_count s) es = Some (0 < pre_count t)" "sched_calls es = n"
    "pevents u = pevents t @ fs" "\<forall>e \<in> set fs. \<not> alarm e" "traced (0 < pre_count t) fs = Some (0 < pre_count u)" "sched_calls fs = m"
    using assms by (auto simp: quiet_def)
  then show ?thesis unfolding quiet_def by (intro exI [of _ "es @ fs"]) (auto simp: traced_append)
qed

lemma quietI:
  "pevents s' = pevents s @ es \<Longrightarrow> \<forall>e \<in> set es. \<not> alarm e \<Longrightarrow> traced (0 < pre_count s) es = Some (0 < pre_count s') \<Longrightarrow> sched_calls es = n \<Longrightarrow> quiet n s s'"
  by (auto simp: quiet_def)

lemma quiet_fields: "pevents s' = pevents s \<Longrightarrow> pre_count s' = pre_count s \<Longrightarrow> quiet 0 s s'"
  by (auto simp: quiet_def)

lemma small_mask: "0 \<le> k \<Longrightarrow> k < 256 \<Longrightarrow> k AND 255 = (k::int)"
proof -
  assume "0 \<le> k" "k < 256"
  then have "take_bit 8 k = k" by (simp add: take_bit_int_eq_self)
  then show ?thesis by (simp add: take_bit_eq_mask mask_eq_exp_minus_1)
qed

lemma add_quiet:
  assumes "preempt_hdr_ok h" and "0 \<le> pre_count s" and "0 < v" and "pre_count s + v < 245"
  shows "quiet 0 s (preempt_count_add h v s) \<and> pre_count (preempt_count_add h v s) = pre_count s + v"
proof -
  have "(pre_count s + v) AND 255 = pre_count s + v" using assms by (intro small_mask) auto
  moreover have "quiet 0 s (p_note [Trace_Off] (s\<lparr>pre_count := pre_count s + v\<rparr>))" if "pre_count s = 0"
    by (rule quietI [of _ _ "[Trace_Off]"]) (use that assms in \<open>auto simp: alarm_def\<close>)
  moreover have "quiet 0 s (s\<lparr>pre_count := pre_count s + v\<rparr>)" if "pre_count s \<noteq> 0"
    by (rule quietI [of _ _ "[]"]) (use that assms in auto)
  ultimately show ?thesis using assms
    by (auto simp: preempt_count_add_def preempt_latency_start_def Let_def preempt_hdr_ok_def)
qed

lemma sub_quiet:
  assumes "preempt_hdr_ok h" and "0 < v" and "v \<le> pre_count s" and "pre_count s < 245"
  shows "quiet 0 s (preempt_count_sub h v s) \<and> pre_count (preempt_count_sub h v s) = pre_count s - v"
proof -
  have "pre_count s AND 255 = pre_count s" using assms by (intro small_mask) auto
  moreover have "quiet 0 s ((p_note [Trace_On] s)\<lparr>pre_count := pre_count s - v\<rparr>)" if "pre_count s = v"
    by (rule quietI [of _ _ "[Trace_On]"]) (use that assms in \<open>auto simp: alarm_def\<close>)
  moreover have "quiet 0 s (s\<lparr>pre_count := pre_count s - v\<rparr>)" if "pre_count s \<noteq> v"
    by (rule quietI [of _ _ "[]"]) (use that assms in auto)
  ultimately show ?thesis using assms
    by (auto simp: preempt_count_sub_def preempt_latency_stop_def Let_def preempt_hdr_ok_def)
qed

text \<open>Nested sections: every disabling is undone by its enabling.\<close>

lemma preempt_nesting:
  assumes "preempt_hdr_ok h" and "0 \<le> pre_count s" and "0 < v" and "pre_count s + v < 245"
  shows "pre_count (preempt_count_sub h v (preempt_count_add h v s)) = pre_count s \<and> quiet 0 s (preempt_count_sub h v (preempt_count_add h v s))"
proof -
  note a = add_quiet [OF assms]
  have "v \<le> pre_count (preempt_count_add h v s)" "pre_count (preempt_count_add h v s) < 245" using a assms(2,4) by auto
  note b = sub_quiet [OF assms(1,3) this]
  show ?thesis using a b quiet_trans [of 0 s "preempt_count_add h v s" 0 "preempt_count_sub h v (preempt_count_add h v s)"] by auto
qed

lemma count_frame [simp]:
  "irqs_off (preempt_count_add h v s) = irqs_off s" "irqs_off (preempt_count_sub h v s) = irqs_off s"
  "resched_flag (preempt_count_add h v s) = resched_flag s" "resched_flag (preempt_count_sub h v s) = resched_flag s"
  "cstate (preempt_count_add h v s) = cstate s" "cstate (preempt_count_sub h v s) = cstate s"
  "in_iowait (preempt_count_add h v s) = in_iowait s" "in_iowait (preempt_count_sub h v s) = in_iowait s"
  by (simp_all add: preempt_count_add_def preempt_count_sub_def preempt_latency_start_def preempt_latency_stop_def Let_def)

lemma disable_quiet:
  assumes "preempt_hdr_ok h" and "0 \<le> pre_count s" and "pre_count s < 244"
  shows "quiet 0 s (preempt_disable h s)" "pre_count (preempt_disable h s) = pre_count s + 1"
  using add_quiet [OF assms(1,2), of 1] assms by (simp_all add: preempt_hdr_ok_def)

lemma enable_quiet:
  assumes "preempt_hdr_ok h" and "0 < pre_count s" and "pre_count s < 245"
  shows "quiet 0 s (preempt_enable_no_resched h s)" "pre_count (preempt_enable_no_resched h s) = pre_count s - 1"
  using sub_quiet [OF assms(1), of 1 s] assms by (simp_all add: preempt_hdr_ok_def)

lemma call_quiet:
  assumes "preempt_hdr_ok h" and "pre_count s = 1"
  shows "quiet 1 s (schedule_call h tk pr b s)" "pre_count (schedule_call h tk pr b s) = 1"
    "resched_flag (schedule_call h tk pr b s) = b" "\<not> irqs_off (schedule_call h tk pr b s)" "in_iowait (schedule_call h tk pr b s) = in_iowait s"
proof -
  let ?n = "\<not> pr \<and> cstate s \<noteq> 0 \<and> non_block tk"
  show "quiet 1 s (schedule_call h tk pr b s)"
    by (rule quietI [of _ _ "(if ?n then [Nonblock_Bug] else []) @ [Sched_Call pr]"])
      (use assms in \<open>auto simp: schedule_call_def schedule_debug_def Let_def alarm_def preempt_hdr_ok_def\<close>)
qed (use assms in \<open>auto simp: schedule_call_def schedule_debug_def Let_def preempt_hdr_ok_def\<close>)

text \<open>What a way into the scheduler owes its caller.\<close>

definition entry_ok :: "nat \<Rightarrow> pstate \<Rightarrow> pstate \<Rightarrow> bool" where
  "entry_ok n s s' \<longleftrightarrow> quiet n s s' \<and> pre_count s' = pre_count s \<and> irqs_off s' = irqs_off s \<and> in_iowait s' = in_iowait s \<and> \<not> resched_flag s'"

definition calls_due :: "bool list \<Rightarrow> nat" where
  "calls_due bs = Suc (length (takeWhile id bs))"

definition body_ok :: "(bool \<Rightarrow> pstate \<Rightarrow> pstate) \<Rightarrow> int \<Rightarrow> bool \<Rightarrow> bool" where
  "body_ok body k i \<longleftrightarrow> (\<forall>b s. pre_count s = k \<and> irqs_off s = i \<longrightarrow>
     quiet 1 s (body b s) \<and> pre_count (body b s) = k \<and> irqs_off (body b s) = i \<and> in_iowait (body b s) = in_iowait s \<and> resched_flag (body b s) = b)"

lemma loop_entry:
  assumes "body_ok body k i" and "False \<in> set bs" and "pre_count s = k" and "irqs_off s = i"
  shows "\<exists>s'. resched_loop body bs s = Some s' \<and> entry_ok (calls_due bs) s s'"
  using assms(2-)
proof (induction bs arbitrary: s)
  case (Cons b bs)
  let ?t = "body b s"
  have t: "quiet 1 s ?t" "pre_count ?t = k" "irqs_off ?t = i" "in_iowait ?t = in_iowait s" "resched_flag ?t = b"
    using assms(1) Cons.prems by (auto simp: body_ok_def)
  show ?case
  proof (cases b)
    case True
    then obtain s' where s': "resched_loop body bs ?t = Some s'" "entry_ok (calls_due bs) ?t s'" using Cons.IH [of ?t] Cons.prems t by auto
    then have "quiet (1 + calls_due bs) s s'" using quiet_trans [OF t(1)] by (simp add: entry_ok_def)
    then show ?thesis using s' t True Cons.prems by (auto simp: Let_def entry_ok_def calls_due_def)
  next
    case False
    then show ?thesis using t Cons.prems by (auto simp: Let_def entry_ok_def calls_due_def)
  qed
qed simp

text \<open>A call of \<open>__schedule\<close> inside a section of its own; interrupts may be switched around it.\<close>

lemma call_in_section:
  assumes "preempt_hdr_ok h" and "pre_count s = 0"
    and "\<And>x. pre_count (f x) = pre_count x \<and> pevents (f x) = pevents x" and "\<And>x. pre_count (g x) = pre_count x \<and> pevents (g x) = pevents x"
  shows "quiet 1 s (preempt_enable_no_resched h (f (schedule_call h tk pr b (g (preempt_disable h s)))))"
    "pre_count (preempt_enable_no_resched h (f (schedule_call h tk pr b (g (preempt_disable h s))))) = 0"
proof -
  let ?d = "preempt_disable h s"
  let ?c = "schedule_call h tk pr b (g ?d)"
  have d: "quiet 0 s ?d" "pre_count ?d = 1" using disable_quiet [OF assms(1), of s] assms(2) by simp_all
  have g: "quiet 0 ?d (g ?d)" "pre_count (g ?d) = 1" using quiet_fields [of "g ?d" ?d] assms(4) d(2) by auto
  note c = call_quiet [OF assms(1) g(2), of tk pr b]
  have f: "quiet 0 ?c (f ?c)" "pre_count (f ?c) = 1" using quiet_fields [of "f ?c" ?c] assms(3) c(2) by auto
  have e: "quiet 0 (f ?c) (preempt_enable_no_resched h (f ?c))" "pre_count (preempt_enable_no_resched h (f ?c)) = 0"
    using enable_quiet [OF assms(1), of "f ?c"] f(2) by simp_all
  show "pre_count (preempt_enable_no_resched h (f ?c)) = 0" by (rule e(2))
  show "quiet 1 s (preempt_enable_no_resched h (f ?c))"
    using quiet_trans [OF quiet_trans [OF quiet_trans [OF quiet_trans [OF d(1) g(1)] c(1)] f(1)] e(1)] by simp
qed

lemma call_fields [simp]:
  "resched_flag (schedule_call h tk pr b s) = b" "\<not> irqs_off (schedule_call h tk pr b s)" "in_iowait (schedule_call h tk pr b s) = in_iowait s"
  by (simp_all add: schedule_call_def schedule_debug_def Let_def)

lemma schedule_body_ok:
  assumes "preempt_hdr_ok h"
  shows "body_ok (schedule_body h tk) 0 False" "body_ok (irq_body h tk) 0 True"
  using call_in_section [OF assms, of _ "\<lambda>x. x" "\<lambda>x. x"]
    call_in_section [OF assms, of _ "\<lambda>x. x\<lparr>irqs_off := True\<rparr>" "\<lambda>x. x\<lparr>irqs_off := False\<rparr>"]
  by (simp_all add: body_ok_def schedule_body_def irq_body_def Let_def)

lemma preempt_body_ok:
  assumes "preempt_hdr_ok h"
  shows "body_ok (preempt_body h tk) 0 False" "body_ok (notrace_body h tk) 0 False" "body_ok (schedule_call h tk False) 1 False"
proof -
  note defs = preempt_body_def notrace_body_def preempt_latency_start_def preempt_latency_stop_def schedule_call_def schedule_debug_def preempt_hdr_ok_def Let_def
  have "quiet 1 s (preempt_body h tk b s)" if "pre_count s = 0" for b s
    by (rule quietI [of _ _ "[Trace_Off, Sched_Call True, Trace_On]"]) (use assms that in \<open>auto simp: defs alarm_def\<close>)
  then show "body_ok (preempt_body h tk) 0 False" using assms by (auto simp: body_ok_def) (auto simp: defs)
  have "quiet 1 s (notrace_body h tk b s)" if "pre_count s = 0" for b s
    by (rule quietI [of _ _ "[Trace_Off, Ctx_Enter, Sched_Call True, Ctx_Exit, Trace_On]"]) (use assms that in \<open>auto simp: defs alarm_def\<close>)
  then show "body_ok (notrace_body h tk) 0 False" using assms by (auto simp: body_ok_def) (auto simp: defs)
  show "body_ok (schedule_call h tk False) 1 False" using call_quiet [OF assms] by (simp add: body_ok_def)
qed

lemma note_quiet: "\<forall>e \<in> set es. \<not> alarm e \<Longrightarrow> traced (0 < pre_count s) es = Some (0 < pre_count s) \<Longrightarrow> quiet (sched_calls es) s (p_note es s)"
  by (auto simp: quiet_def)

lemma entry_before:
  assumes "quiet 0 s t" and "pre_count t = pre_count s" and "irqs_off t = irqs_off s" and "in_iowait t = in_iowait s" and "entry_ok n t u"
  shows "entry_ok n s u"
  using assms quiet_trans [of 0 s t n u] by (auto simp: entry_ok_def)

lemma entry_note:
  assumes "entry_ok n s t" and "\<forall>e \<in> set es. \<not> alarm e" and "traced (0 < pre_count t) es = Some (0 < pre_count t)" and "sched_calls es = 0"
  shows "entry_ok n s (p_note es t)"
  using assms quiet_trans [of n s t 0 "p_note es t"] note_quiet [OF assms(2,3)] by (auto simp: entry_ok_def)

lemma submit_work_quiet:
  assumes "preempt_hdr_ok h" and "pre_count s = 0"
  shows "quiet 0 s (sched_submit_work h tk s)" "pre_count (sched_submit_work h tk s) = 0" "irqs_off (sched_submit_work h tk s) = irqs_off s"
    "in_iowait (sched_submit_work h tk s) = in_iowait s"
proof -
  let ?es = "(if wq_worker tk \<or> io_worker tk then [Trace_Off, if wq_worker tk then Wq_Sleeping else Io_Sleeping, Trace_On] else []) @
    (if \<not> pi_blocked tk \<and> needs_flush tk then [Flush_Plug] else [])"
  note defs = sched_submit_work_def preempt_count_add_def preempt_count_sub_def preempt_latency_start_def preempt_latency_stop_def preempt_hdr_ok_def Let_def
  show "pre_count (sched_submit_work h tk s) = 0" using assms by (simp add: defs)
  show "irqs_off (sched_submit_work h tk s) = irqs_off s" "in_iowait (sched_submit_work h tk s) = in_iowait s" by (simp_all add: sched_submit_work_def Let_def)
  show "quiet 0 s (sched_submit_work h tk s)"
    by (rule quietI [of _ _ "if cstate s = 0 then [] else ?es"]) (use assms in \<open>auto simp: defs alarm_def\<close>)
qed

lemma schedule_entry:
  assumes "preempt_hdr_ok h" and "False \<in> set bs" and "pre_count s = 0" and "\<not> irqs_off s"
  shows "\<exists>s'. schedule h tk bs s = Some s' \<and> entry_ok (calls_due bs) s s'"
proof -
  note w = submit_work_quiet [OF assms(1,3), of tk]
  obtain t where t: "resched_loop (schedule_body h tk) bs (sched_submit_work h tk s) = Some t" "entry_ok (calls_due bs) (sched_submit_work h tk s) t"
    using loop_entry [OF schedule_body_ok(1) [OF assms(1)] assms(2) w(2)] w(3) assms(4) by auto
  have "entry_ok (calls_due bs) s t" by (rule entry_before [OF w(1) _ w(3,4) t(2)]) (use w(2) assms(3) in simp)
  then have "entry_ok (calls_due bs) s (sched_update_worker tk t)"
    using entry_note [of _ s t "[if wq_worker tk then Wq_Running else Io_Running]"] by (auto simp: sched_update_worker_def alarm_def)
  then show ?thesis using t(1) by (simp add: schedule_def)
qed

lemma yield_entry:
  assumes "preempt_hdr_ok h" and "False \<in> set bs" and "pre_count s = 0" and "\<not> irqs_off s"
  shows "\<exists>s'. do_sched_yield h tk bs s = Some s' \<and> entry_ok (calls_due bs) s s'"
proof -
  let ?i = "s\<lparr>irqs_off := True\<rparr>"
  let ?a = "preempt_disable h ?i"
  let ?n = "p_note [Class_Yield] ?a"
  let ?b = "preempt_disable h ?n"
  let ?c = "preempt_enable_no_resched h ?b"
  let ?d = "?c\<lparr>irqs_off := False\<rparr>"
  let ?e = "preempt_enable_no_resched h ?d"
  have a: "quiet 0 ?i ?a" "pre_count ?a = 1" using disable_quiet [OF assms(1), of ?i] assms(3) by simp_all
  have n: "quiet 0 ?a ?n" using note_quiet [of "[Class_Yield]" ?a] by (simp add: alarm_def)
  have b: "quiet 0 ?n ?b" "pre_count ?b = 2" using disable_quiet [OF assms(1), of ?n] a(2) by simp_all
  have c: "quiet 0 ?b ?c" "pre_count ?c = 1" using enable_quiet [OF assms(1), of ?b] b(2) by simp_all
  have e: "quiet 0 ?d ?e" "pre_count ?e = 0" using enable_quiet [OF assms(1), of ?d] c(2) by simp_all
  have "quiet 0 s ?i" "quiet 0 ?c ?d" by (rule quiet_fields; simp)+
  then have q: "quiet 0 s ?e"
    using quiet_trans [OF quiet_trans [OF quiet_trans [OF quiet_trans [OF quiet_trans [OF quiet_trans [OF _ a(1)] n] b(1)] c(1)]] e(1), of 0 s 0] by simp
  obtain s' where s': "schedule h tk bs ?e = Some s'" "entry_ok (calls_due bs) ?e s'"
    using schedule_entry [OF assms(1,2) e(2)] by auto
  have "entry_ok (calls_due bs) s s'" by (rule entry_before [OF q _ _ _ s'(2)]) (use e(2) assms(3,4) in simp_all)
  then show ?thesis using s'(1) by (simp add: do_sched_yield_def Let_def)
qed

lemma user_io_entry:
  assumes "preempt_hdr_ok h" and "False \<in> set bs" and ctx: "pre_count s = 0" "\<not> irqs_off s"
  shows "\<exists>s'. schedule_user h tk bs s = Some s' \<and> entry_ok (calls_due bs) s s'" "\<exists>s'. io_schedule h tk bs s = Some s' \<and> entry_ok (calls_due bs) s s'"
proof -
  let ?u = "p_note [Ctx_Enter] s" and ?p = "p_note [Flush_Plug] (s\<lparr>in_iowait := True\<rparr>)"
  have q: "quiet 0 s ?u" "quiet 0 s ?p" by (rule quietI [of _ _ "[Ctx_Enter]"]; simp add: alarm_def) (rule quietI [of _ _ "[Flush_Plug]"]; simp add: alarm_def)
  obtain u where u: "schedule h tk bs ?u = Some u" "entry_ok (calls_due bs) ?u u" using schedule_entry [OF assms(1,2), of ?u] ctx by auto
  have "entry_ok (calls_due bs) s u" by (rule entry_before [OF q(1) _ _ _ u(2)]) simp_all
  then have eu: "entry_ok (calls_due bs) s (p_note [Ctx_Exit] u)" by (rule entry_note) (simp_all add: alarm_def)
  obtain v where v: "schedule h tk bs ?p = Some v" "entry_ok (calls_due bs) ?p v" using schedule_entry [OF assms(1,2), of ?p] ctx by auto
  have ev: "entry_ok (calls_due bs) s (io_schedule_finish (in_iowait s) v)"
    using v(2) quiet_trans [OF q(2)] quiet_trans [OF _ quiet_fields [of "io_schedule_finish (in_iowait s) v" v]]
    by (auto simp: entry_ok_def io_schedule_finish_def)
  show "\<exists>s'. schedule_user h tk bs s = Some s' \<and> entry_ok (calls_due bs) s s'" using u(1) eu by (simp add: schedule_user_def)
  show "\<exists>s'. io_schedule h tk bs s = Some s' \<and> entry_ok (calls_due bs) s s'" using v(1) ev by (simp add: io_schedule_def io_schedule_prepare_def)
qed

lemma disabled_entry:
  assumes "preempt_hdr_ok h" and "False \<in> set bs" and "pre_count s = 1" and "\<not> irqs_off s"
  shows "\<exists>s'. schedule_preempt_disabled h tk bs s = Some s' \<and> entry_ok (calls_due bs) s s'"
proof -
  let ?e = "preempt_enable_no_resched h s"
  have e: "quiet 0 s ?e" "pre_count ?e = 0" using enable_quiet [OF assms(1), of s] assms(3) by simp_all
  obtain t where t: "schedule h tk bs ?e = Some t" "entry_ok (calls_due bs) ?e t"
    using schedule_entry [OF assms(1,2) e(2)] assms(4) by auto
  have pt: "pre_count t = 0" using t(2) e(2) by (simp add: entry_ok_def)
  have d: "quiet 0 t (preempt_disable h t)" "pre_count (preempt_disable h t) = 1" using disable_quiet [OF assms(1), of t] pt by simp_all
  have "quiet (calls_due bs) ?e t" using t(2) by (simp add: entry_ok_def)
  then have "quiet (calls_due bs) s (preempt_disable h t)" using quiet_trans [OF quiet_trans [OF e(1)] d(1)] by simp
  then show ?thesis using t d(2) assms(3) by (simp add: schedule_preempt_disabled_def entry_ok_def)
qed

text \<open>
  Every way into the scheduler keeps its promises. Called in the context that it demands, and whatever is due again while the task is away, it returns as
  soon as one return of \<open>__schedule\<close> finds nothing due; then no reschedule is due, the preemption count, the state of the interrupts and the
  I/O flag are those of the call, \<open>__schedule\<close> was called once more than something was due, never in atomic context, no counter
  overflowed, and the latency tracer has seen preemption go off and on in turn. Where preemption is forbidden \<open>preempt_schedule\<close> does nothing.
\<close>

theorem schedule_entries_balanced:
  assumes "preempt_hdr_ok h" and "False \<in> set bs"
  shows "(pre_count s = 0 \<and> \<not> irqs_off s \<longrightarrow>
      (\<forall>f \<in> {schedule h tk, schedule_user h tk, preempt_schedule h tk, preempt_schedule_notrace h tk, do_sched_yield h tk, io_schedule h tk}.
        \<exists>s'. f bs s = Some s' \<and> entry_ok (calls_due bs) s s')) \<and>
    (pre_count s = 1 \<and> \<not> irqs_off s \<longrightarrow> (\<exists>s'. schedule_preempt_disabled h tk bs s = Some s' \<and> entry_ok (calls_due bs) s s') \<and>
      (cstate s = 0 \<longrightarrow> (\<exists>s'. schedule_idle h tk bs s = Some s' \<and> entry_ok (calls_due bs) s s'))) \<and>
    (pre_count s = 0 \<and> irqs_off s \<longrightarrow> (\<exists>s'. preempt_schedule_irq h tk bs s = Some s' \<and> entry_ok (calls_due bs) s s')) \<and>
    (pre_count s \<noteq> 0 \<or> irqs_off s \<longrightarrow> preempt_schedule h tk bs s = Some s \<and> preempt_schedule_notrace h tk bs s = Some s)"
proof (intro conjI impI)
  assume ctx: "pre_count s = 0 \<and> \<not> irqs_off s"
  have "preemptible s" using ctx by (simp add: preemptible_def)
  then show "\<forall>f \<in> {schedule h tk, schedule_user h tk, preempt_schedule h tk, preempt_schedule_notrace h tk, do_sched_yield h tk, io_schedule h tk}.
        \<exists>s'. f bs s = Some s' \<and> entry_ok (calls_due bs) s s'"
    using schedule_entry [OF assms, of s tk] yield_entry [OF assms, of s tk] user_io_entry [OF assms, of s tk] ctx
      loop_entry [OF preempt_body_ok(1) [OF assms(1)] assms(2), of s tk] loop_entry [OF preempt_body_ok(2) [OF assms(1)] assms(2), of s tk]
    by (auto simp: preempt_schedule_def preempt_schedule_notrace_def preempt_schedule_common_def)
next
  assume ctx: "pre_count s = 1 \<and> \<not> irqs_off s"
  then show "\<exists>s'. schedule_preempt_disabled h tk bs s = Some s' \<and> entry_ok (calls_due bs) s s'" using disabled_entry [OF assms] by blast
  assume "cstate s = 0"
  then show "\<exists>s'. schedule_idle h tk bs s = Some s' \<and> entry_ok (calls_due bs) s s'"
    using loop_entry [OF preempt_body_ok(3) [OF assms(1)] assms(2), of s tk] ctx by (simp add: schedule_idle_def)
next
  assume ctx: "pre_count s = 0 \<and> irqs_off s"
  let ?u = "p_note [Ctx_Enter] s"
  have q: "quiet 0 s ?u" by (rule quietI [of _ _ "[Ctx_Enter]"]) (simp_all add: alarm_def)
  obtain u where u: "resched_loop (irq_body h tk) bs ?u = Some u" "entry_ok (calls_due bs) ?u u"
    using loop_entry [OF schedule_body_ok(2) [OF assms(1)] assms(2), of ?u tk] ctx by auto
  have "entry_ok (calls_due bs) s u" by (rule entry_before [OF q _ _ _ u(2)]) simp_all
  then have "entry_ok (calls_due bs) s (p_note [Ctx_Exit] u)" by (rule entry_note) (simp_all add: alarm_def)
  then show "\<exists>s'. preempt_schedule_irq h tk bs s = Some s' \<and> entry_ok (calls_due bs) s s'" using u(1) ctx by (simp add: preempt_schedule_irq_def)
qed (auto simp: preempt_schedule_def preempt_schedule_notrace_def preemptible_def)

text \<open>A worker goes to sleep; when it wakes up another task is due first.\<close>

definition sample_pstate :: pstate where
  "sample_pstate = \<lparr>pre_count = 0, irqs_off = False, resched_flag = False, cstate = 2, in_iowait = False, pevents = []\<rparr>"

theorem schedule_entries_balanced_witness:
  "\<exists>s'. schedule \<lparr>PREEMPT_MASK = 255, PREEMPT_DISABLE_OFFSET = 1\<rparr>
      \<lparr>wq_worker = True, io_worker = False, pi_blocked = False, needs_flush = False, non_block = False\<rparr> [True, False] sample_pstate = Some s' \<and>
    entry_ok 2 sample_pstate s'"
proof -
  let ?h = "\<lparr>PREEMPT_MASK = 255, PREEMPT_DISABLE_OFFSET = 1\<rparr>"
    and ?t = "\<lparr>wq_worker = True, io_worker = False, pi_blocked = False, needs_flush = False, non_block = False\<rparr>"
  have "preempt_hdr_ok ?h" "False \<in> set [True, False]" "pre_count sample_pstate = 0 \<and> \<not> irqs_off sample_pstate"
    by (simp_all add: preempt_hdr_ok_def sample_pstate_def)
  then show ?thesis using schedule_entries_balanced [of ?h "[True, False]" sample_pstate ?t] by (simp add: calls_due_def numeral_2_eq_2)
qed

text \<open>Called in atomic context, \<open>schedule\<close> complains and forgets the sections of its caller.\<close>

lemma schedule_while_atomic:
  assumes "preempt_hdr_ok h" and "0 < pre_count s" and "pre_count s < 244" and "cstate s = 0"
  shows "\<exists>s'. schedule h tk [False] s = Some s' \<and> Atomic_Bug (pre_count s + 1) \<in> set (pevents s') \<and> pre_count s' = 0"
proof -
  let ?d = "preempt_disable h s"
  have "pre_count ?d = pre_count s + 1" using disable_quiet [OF assms(1), of s] assms(2,3) by simp
  moreover from this have "pre_count (schedule_call h tk False False ?d) = 1" "Atomic_Bug (pre_count s + 1) \<in> set (pevents (schedule_call h tk False False ?d))"
    using assms by (auto simp: schedule_call_def schedule_debug_def preempt_hdr_ok_def Let_def)
  ultimately have "pre_count (schedule_body h tk False s) = 0" "Atomic_Bug (pre_count s + 1) \<in> set (pevents (schedule_body h tk False s))" "\<not> resched_flag (schedule_body h tk False s)"
    using enable_quiet(2) [OF assms(1), of "schedule_call h tk False False ?d"]
    by (auto simp: schedule_body_def preempt_count_sub_def preempt_latency_stop_def Let_def)
  then show ?thesis using assms(4) by (auto simp: schedule_def sched_submit_work_def sched_update_worker_def Let_def)
qed

end
