(* ===== verification/Spec2Isabelle.thy ===== *)
theory Spec2Isabelle
  imports Paging_Main Life_Main Intersection_Main Calc Fileutils Myls_Main Top_Main Ps Lscpu Sched_Info Sched_Prio_Main
    Group_Clamp Sched_Queue Wake_Q Sched_Switch_Main Sched_Affinity_Main
    Affinity_Syscalls Sched_Typed Sched_Fallback Group_Max Group_Tree_Main Context_Switch Cpu_Hotplug Cfs_Test
    Wait_Inactive Sched_Preempt
begin

text \<open>
  \<^bold>\<open>Verification of the LinuxSystemProgramming course repository.\<close>

  The repository holds the solutions of two courses, one directory per assignment:
  an operating systems course (\<open>OS\<close> assignments 2 to 6) and a system programming course.
  The programs do not call each other, except that assignment 3 (system calls) and 4 (scheduler)
  are changes of one Linux kernel. Each program has its theories; all import \<open>Prelude\<close>, which
  holds array accesses that may fail (\<open>rd\<close>, \<open>wr\<close>), counting loops (\<open>for_upto\<close>,
  \<open>for_downto\<close>) with their invariant rules, C integers (\<open>wrap32\<close>, \<open>atoi\<close>) and C strings.

  \<^bold>\<open>Conventions.\<close> A C function is a HOL function of the same name on a record of its
  variables. \<open>None\<close> is undefined behaviour (an access outside an array, a signed overflow); error exits
  and refusals are values of a result type. So a theorem that gives \<open>Some\<close> also states that
  the program stays inside its arrays. Loops are recursive functions with termination
  proofs or, for the walk over task groups and the draining of a wake queue, partial functions with a theorem that
  they return. A loop that retries as long as other CPUs interfere consumes a list with what they do between its steps.
  Interleavings are lists of choices or inductive relations.

  \<^bold>\<open>OS assignment 5, page replacement\<close> (the source file of assignment 5). \<open>Paging\<close>: the int array
  that \<open>fgets\<close> fills with bytes, \<open>find\<close>, the tables; \<open>Paging_FIFO\<close>,
  \<open>Paging_LRU\<close>, \<open>Paging_SCR\<close>, \<open>Paging_OPT\<close>: the four algorithms; \<open>Paging_Main\<close>: \<open>main\<close>, the
  replacement specifications (queue, second chance, recency list), refinement of them, bounds of the
  fault counts, the two bugs (a hit during the filling of LRU, eight references at
  most).

  \<^bold>\<open>System programming design assignment, cellular automaton.\<close> \<open>Life\<close>: grid, rule, text form;
  \<open>Life_Run\<close>: the sequential, process and thread drivers; \<open>Life_Main\<close>: the
  neighbour count against the Moore neighbourhood, the output of the drivers under every
  interleaving of the threads, the grid sizes for which the process driver leaves
  the matrix, loading of a printed grid. File offsets are computed in \<open>int\<close>, so the output theorems bound the grid.

  \<^bold>\<open>OS assignment 6, intersection.\<close> \<open>Intersection\<close>: the waiting set; \<open>Intersection_Run\<close>: the four
  threads with their condition variables as a step relation, with or without spurious wake-ups; \<open>Intersection_Main\<close>: completion of the
  runs without lost signals, the invariant of all interleavings without spurious wake-ups, the race that a spurious wake-up
  causes, the lost signal, the overflow of \<open>arr\<close>.

  \<^bold>\<open>OS assignment 3, system calls.\<close> \<open>Calc\<close>: the parser of \<open>test.c\<close>, the four system calls, and the
  round trip of printed expressions. Wrap-around is written out for the 32-bit arguments.

  \<^bold>\<open>System programming tools.\<close> \<open>Fileutils\<close>: \<open>mychmod.c\<close> and \<open>mytouch.c\<close>. \<open>Exchange_Sort\<close>, \<open>Myls\<close>,
  \<open>Myls_Main\<close>: \<open>myls.c\<close> with its sorts, which copy strings between the buffers of \<open>readdir\<close>; the orders of the
  listings where every name fits every buffer, a directory that loses a name where one does not, the permission
  string that is never reset and the option that is dropped.

  \<^bold>\<open>OS assignment 2, process tools.\<close> \<open>Procfs\<close>: what \<open>top.c\<close> and \<open>ps.c\<close> share, the readers of the
  files under \<open>/proc\<close>; \<open>Bubble_Sort\<close>, \<open>Top\<close>, \<open>Top_Main\<close>: search, sort, layout and key loop of
  \<open>top.c\<close>; \<open>Ps\<close>; \<open>Lscpu\<close>. The proc file system is a function from paths to contents.
  A frame of \<open>top\<close> is the list of its \<open>mvprintw\<close> calls. It stays inside its buffers exactly if the columns leave
  room for the command; more than 4096 processes are undefined behaviour, since the code does not check their number.

  \<^bold>\<open>OS assignment 4, scheduler\<close> (\<open>core.c\<close>, \<open>stats.h\<close>, \<open>sched.h\<close>: Linux files with a few changed lines).
  \<open>Sched_Task\<close>: the task. \<open>Sched_Info\<close>: \<open>stats.h\<close>, which is changed to add up the run time of
  a task, against the time for which the task was the current one, modulo \<open>2^64\<close>.
  \<open>Sched_Queue\<close>: \<open>enqueue_task\<close> and \<open>dequeue_task\<close>, which put accounting, pressure stall hooks and clamps
  together, and the life of a task as a step relation with the flags that the hooks keep.
  \<open>Uclamp\<close>, \<open>Uclamp_Main\<close>: utilization clamps with the bucket invariant over all histories of a
  run queue, and where an update breaks it. \<open>Sched_Prio\<close>, \<open>Sched_Prio_Main\<close>: weights,
  fork, nice and \<open>sched_setscheduler\<close> with the changed lines, which make every new task a
  \<open>SCHED_FIFO\<close> one. \<open>Sched_Pi\<close>: priority inheritance, which is undone without a trace. \<open>Sched_Typed\<close>: the type
  invariant of tasks (class, priorities, weight) that fork, nice, policy changes and inheritance keep together. Header functions outside the repository are fields of \<open>sched_hdr\<close>, and
  \<open>hdr_ok\<close> states their documented values; \<open>sample_hdr\<close> satisfies it.
  \<open>Task_Group\<close>: the tree of task groups and the walk over it, which is shown to be the recursive
  visit (that it returns is part of the theorem). \<open>Cfs_Bandwidth\<close>,
  \<open>Cfs_Bandwidth_Main\<close>: quotas of groups, accepted exactly if the hierarchy is respected.
  \<open>Group_Knobs\<close>: weights, which are read back as written. \<open>Group_Clamp\<close>: clamps of
  groups and their propagation down the tree. \<open>Group_Max\<close>: the text of \<open>cpu.max\<close>, which is read back as shown,
  except that large numbers wrap. \<open>Group_Tree\<close>, \<open>Group_Tree_Main\<close>: the life of groups and the moves of tasks between them, and the
  histories in which quotas, clamps, groups and tasks change together, with the tree and all that it implies as their invariant. Functions of \<open>fair.c\<close> are parameters
  or recorded calls.

  The life of a task on several CPUs: \<open>Wake_Q\<close>: the wake queues of \<open>core.c\<close>, lists that are threaded through
  the tasks; every interleaving of contexts that fill and drain them implements plain lists, and \<open>wake_up_q\<close> returns
  and delivers. \<open>Resched\<close>: the need-resched bits with their compare-and-swap loops. \<open>Rq_Clock\<close>: the clocks
  of a run queue at 64 bits. \<open>Sched_Pick\<close>: \<open>pick_next_task\<close> over the scheduling classes, which are parameters
  with a law per operation as their contract; a log of the calls shows which classes were asked to balance. \<open>Sched_Switch\<close>, \<open>Sched_Switch_Main\<close>: \<open>__schedule\<close>,
  \<open>try_to_wake_up\<close> with remote wake lists, new tasks and moves between run queues as a step relation, and the
  counters of waiting tasks as its invariant. \<open>Wait_Inactive\<close>: the wait for a task to leave its CPU, whose result is a
  guarantee over these steps. \<open>Sched_Preempt\<close>: the preemption counter and the functions that enter the scheduler. \<open>Sched_Affinity\<close>, \<open>Sched_Affinity_Main\<close>: masks of CPUs, disabled
  migration and the requests that several callers share with the stoppers: no request is used after its
  stack frame is gone, whatever the masks; for masks inside the active CPUs completed requests have taken effect except in one case,
  which is exhibited.
  \<open>Sched_Fallback\<close>: the choice of a CPU for a task and its fallback, which ends with an allowed CPU, and the stopper that
  pushes tasks away from a CPU. \<open>Context_Switch\<close>: the switch from one task to the next, which kernel threads make in a borrowed address
  space; the references are exact in every history of all CPUs, and the processor time of a dead task (the changed line) is
  printed once. \<open>Tick_Remote\<close>: the work that ticks for a CPU without its own tick, against going up and down.
  \<open>Cpu_Hotplug\<close>: the callbacks of CPUs that come and go, which keep masks, domains and counters together except after a
  refusal.

  The programs \<open>CFS.c\<close> and \<open>CFS_nice.c\<close> that measure the changed scheduler: \<open>Cfs_Test\<close>, on top of \<open>sched_fork\<close> and
  \<open>sys_nice\<close>. Their children are the same tasks, whatever the nice values.

  The system calls: \<open>User_Mem\<close>: the memory of the calling process and the functions that copy from and to it, with their
  documented behaviour as \<open>uaccess_ok\<close>. \<open>Sched_Syscalls\<close>, \<open>Sched_Syscalls_Main\<close>: the calls for policies, priorities and
  attributes; what is set is read back, the announced ranges are the accepted ones, \<open>sched_setparam\<close> changes the
  policy. \<open>Affinity_Syscalls\<close>: masks as bytes, the loop that checks the cpuset again, and the round trip of masks.

  \<^bold>\<open>Interfaces.\<close> The locales state what a client relies on and are interpreted on the model's
  definitions: the replacement policies, the sorting orders (\<open>bubble_order\<close>,
  the exchange sorts), the drivers of the automaton, the clamp buckets, the visitors of the walk.

  \<^bold>\<open>Not modelled.\<close> The rest of \<open>core.c\<close> and \<open>sched.h\<close> (the high resolution tick, the stop machine itself,
  start-up, debugging aids, all unchanged Linux code; of the task groups the real-time
  files and the statistics; memory barriers), the prototypes of \<open>syscalls.h\<close>, and the
  course examples, which show one library call each. Time, file handles that
  are never closed, memory exhaustion and the drawing of ncurses are not modelled.
\<close>

end
